(* ===== verification/CPrelude.thy ===== *)
theory CPrelude
  imports Main "HOL-Library.Monad_Syntax" "HOL-Library.Multiset" "HOL-Library.Word"
begin

text \<open>
  The shared prelude: how C memory is modelled, and the generic lemmas that the
  component theories use.

  An operation that C leaves undefined (a null or dangling pointer, an index outside its
  array) has the value \<^const>\<open>None\<close>; so has a loop that does not stop, since loops are
  defined with \<^theory_text>\<open>partial_function (option)\<close>. A theorem that an operation
  equals \<open>Some\<close> of a result therefore says that it returns and that nothing undefined
  happens on the way. What the code itself reports as an error (a null result, a return
  code) is part of the returned value.
\<close>

named_theorems c_step \<open>equations for one memory access\<close>

type_synonym ptr = "nat option" \<comment> \<open>an address; \<open>None\<close> is \<open>NULL\<close>\<close>

section \<open>Guards and arrays\<close>

definition guard :: "bool \<Rightarrow> unit option" where
  "guard b = (if b then Some () else None)"

lemma guard_simps [simp, c_step]: "guard True = Some ()" "guard False = None"
  by (simp_all add: guard_def)

lemma guard_Some [simp]: "guard b = Some u \<longleftrightarrow> b"
  by (simp add: guard_def)

definition aread :: "'a list \<Rightarrow> int \<Rightarrow> 'a option" where
  "aread xs i = (if 0 \<le> i \<and> i < int (length xs) then Some (xs ! nat i) else None)"

definition awrite :: "'a list \<Rightarrow> int \<Rightarrow> 'a \<Rightarrow> 'a list option" where
  "awrite xs i v = (if 0 \<le> i \<and> i < int (length xs) then Some (xs[nat i := v]) else None)"

lemma aread_in [c_step]: "0 \<le> i \<Longrightarrow> i < int (length xs) \<Longrightarrow> aread xs i = Some (xs ! nat i)"
  by (simp add: aread_def)

lemma awrite_in [c_step]:
  "0 \<le> i \<Longrightarrow> i < int (length xs) \<Longrightarrow> awrite xs i v = Some (xs[nat i := v])"
  by (simp add: awrite_def)

lemma aread_nat [simp]: "i < length xs \<Longrightarrow> aread xs (int i) = Some (xs ! i)"
  by (simp add: aread_def)

lemma awrite_nat [simp]: "i < length xs \<Longrightarrow> awrite xs (int i) v = Some (xs[i := v])"
  by (simp add: awrite_def)

lemma aread_SomeD: "aread xs i = Some v \<Longrightarrow> 0 \<le> i \<and> i < int (length xs) \<and> v = xs ! nat i"
  by (simp add: aread_def split: if_splits)

lemma awrite_SomeD:
  "awrite xs i v = Some ys \<Longrightarrow> 0 \<le> i \<and> i < int (length xs) \<and> ys = xs[nat i := v]"
  by (simp add: awrite_def split: if_splits)

section \<open>A heap of nodes\<close>

text \<open>
  One heap holds the nodes of one struct type. \<open>env a\<close> is what the allocator would do
  for the block at address \<open>a\<close>: refuse (\<open>None\<close>, \<open>malloc\<close> returns \<open>NULL\<close>) or hand it out
  with some uninitialised contents. Addresses are handed out in order and never again, so
  a pointer to a freed node is never mistaken for a pointer to a later one.
\<close>

record 'n heap =
  cells :: "nat \<rightharpoonup> 'n"
  brk :: nat
  env :: "nat \<Rightarrow> 'n option"

lemma heap_upd_order [simp]: "h\<lparr>brk := x, cells := y\<rparr> = h\<lparr>cells := y, brk := x\<rparr>"
  by simp

definition load :: "'n heap \<Rightarrow> ptr \<Rightarrow> 'n option" where
  "load h p = Option.bind p (cells h)"

definition store :: "'n heap \<Rightarrow> ptr \<Rightarrow> ('n \<Rightarrow> 'n) \<Rightarrow> 'n heap option" where
  "store h p f = do {
     a \<leftarrow> p;
     n \<leftarrow> cells h a;
     Some (h\<lparr>cells := (cells h)(a \<mapsto> f n)\<rparr>)
   }"

definition cmalloc :: "'n heap \<Rightarrow> ptr \<times> 'n heap" where
  "cmalloc h = (case env h (brk h) of
      None \<Rightarrow> (None, h\<lparr>brk := Suc (brk h)\<rparr>)
    | Some n \<Rightarrow> (Some (brk h), h\<lparr>cells := (cells h)(brk h \<mapsto> n), brk := Suc (brk h)\<rparr>))"

definition cfree :: "'n heap \<Rightarrow> ptr \<Rightarrow> 'n heap option" where
  "cfree h p = (case p of
      None \<Rightarrow> Some h
    | Some a \<Rightarrow> (case cells h a of
        None \<Rightarrow> None
      | Some _ \<Rightarrow> Some (h\<lparr>cells := (cells h)(a := None)\<rparr>)))"

text \<open>A local variable of struct type lives at a fresh address until its block ends.\<close>

definition clocal :: "'n heap \<Rightarrow> 'n \<Rightarrow> nat \<times> 'n heap" where
  "clocal h n = (brk h, h\<lparr>cells := (cells h)(brk h \<mapsto> n), brk := Suc (brk h)\<rparr>)"

definition cdrop :: "'n heap \<Rightarrow> nat \<Rightarrow> 'n heap" where
  "cdrop h a = h\<lparr>cells := (cells h)(a := None)\<rparr>"

definition heap_ok :: "'n heap \<Rightarrow> bool" where
  "heap_ok h \<longleftrightarrow> (\<forall>a\<ge>brk h. cells h a = None)"

lemma heap_okD: "heap_ok h \<Longrightarrow> cells h a = Some n \<Longrightarrow> a < brk h"
  unfolding heap_ok_def by (metis not_le option.distinct(1))

lemma heap_ok_brk [simp]: "heap_ok h \<Longrightarrow> cells h (brk h) = None"
  by (simp add: heap_ok_def)

lemma load_simps [simp, c_step]:
  "load h None = None" "load h (Some a) = cells h a"
  by (simp_all add: load_def)

lemma store_null [simp, c_step]: "store h None f = None"
  by (simp add: store_def)

lemma store_cell [c_step]:
  "cells h a = Some n \<Longrightarrow> store h (Some a) f = Some (h\<lparr>cells := (cells h)(a \<mapsto> f n)\<rparr>)"
  by (simp add: store_def)

lemma cfree_null [simp, c_step]: "cfree h None = Some h"
  by (simp add: cfree_def)

lemma cfree_cell [c_step]:
  "cells h a = Some n \<Longrightarrow> cfree h (Some a) = Some (h\<lparr>cells := (cells h)(a := None)\<rparr>)"
  by (simp add: cfree_def)

lemma cfree_dangling [c_step]: "cells h a = None \<Longrightarrow> cfree h (Some a) = None"
  by (simp add: cfree_def)

lemma heap_ok_upd [simp]:
  "heap_ok h \<Longrightarrow> a < brk h \<Longrightarrow> heap_ok (h\<lparr>cells := (cells h)(a := x)\<rparr>)"
  by (simp add: heap_ok_def)

lemma store_heap_ok: "heap_ok h \<Longrightarrow> store h p f = Some h' \<Longrightarrow> heap_ok h'"
  by (auto simp: store_def bind_eq_Some_conv intro!: heap_ok_upd dest: heap_okD)

lemma cmalloc_heap_ok: "heap_ok h \<Longrightarrow> cmalloc h = (p, h') \<Longrightarrow> heap_ok h'"
  by (auto simp: cmalloc_def heap_ok_def split: option.splits)

lemma cmalloc_fails: "env h (brk h) = None \<Longrightarrow> cmalloc h = (None, h\<lparr>brk := Suc (brk h)\<rparr>)"
  by (simp add: cmalloc_def)

lemma cmalloc_grants:
  "env h (brk h) = Some n \<Longrightarrow>
   cmalloc h = (Some (brk h), h\<lparr>cells := (cells h)(brk h \<mapsto> n), brk := Suc (brk h)\<rparr>)"
  by (simp add: cmalloc_def)

section \<open>C integer division\<close>

text \<open>C division truncates towards zero; division by zero is undefined.\<close>

definition cdiv :: "int \<Rightarrow> int \<Rightarrow> int option" where
  "cdiv a b = (if b = 0 then None else Some (sgn a * sgn b * (\<bar>a\<bar> div \<bar>b\<bar>)))"

definition cmod :: "int \<Rightarrow> int \<Rightarrow> int option" where
  "cmod a b = (if b = 0 then None else Some (a - b * (sgn a * sgn b * (\<bar>a\<bar> div \<bar>b\<bar>))))"

lemma cdiv_nonneg [simp]: "0 \<le> a \<Longrightarrow> 0 < b \<Longrightarrow> cdiv a b = Some (a div b)"
  by (cases "a = 0") (simp_all add: cdiv_def)

lemma cmod_nonneg [simp]: "0 \<le> a \<Longrightarrow> 0 < b \<Longrightarrow> cmod a b = Some (a mod b)"
  by (cases "a = 0") (simp_all add: cmod_def minus_mult_div_eq_mod)

text \<open>An arithmetic result outside \<open>int\<close> is undefined behaviour.\<close>

definition int_min :: int where "int_min = - 2147483648"
definition int_max :: int where "int_max = 2147483647"

definition cint :: "int \<Rightarrow> int option" where
  "cint n = (if int_min \<le> n \<and> n \<le> int_max then Some n else None)"

text \<open>
  The 64-bit \<open>long\<close>, and the value of a \<open>long\<close> passed as an \<open>int\<close>: its low 32 bits, as the
  compilers for the platforms of this code define it.
\<close>

definition clong :: "int \<Rightarrow> int option" where
  "clong n = (if - (2 ^ 63) \<le> n \<and> n < 2 ^ 63 then Some n else None)"

definition to_int :: "int \<Rightarrow> int" where
  "to_int n = (n + 2147483648) mod 4294967296 - 2147483648"

lemma to_int_in [simp]: "int_min \<le> n \<Longrightarrow> n \<le> int_max \<Longrightarrow> to_int n = n"
  by (simp add: to_int_def int_min_def int_max_def)

lemma cint_in [c_step]: "int_min \<le> n \<Longrightarrow> n \<le> int_max \<Longrightarrow> cint n = Some n"
  by (simp add: cint_def)

end
