(* ===== verification/Array_Sort.thy ===== *)
theory Array_Sort
  imports CPrelude
begin

text \<open>
  The array sorts of \<open>sort/\<close>. An array is a list, every access is
  checked by \<^const>\<open>aread\<close> and \<^const>\<open>awrite\<close>, indices are \<open>int\<close> as in the code (they
  reach \<open>-1\<close>). The stack buffer \<open>temp[1000]\<close> of the merge sorts is a list of optional
  values: \<open>None\<close> is an element that has not been written yet, and reading it is undefined.
  The locale \<open>sorter\<close> is the contract of a sort on an index range; every sort below is an
  instance of it.
\<close>

section \<open>sort/quick\_sort.c\<close>

definition exch :: "int list \<Rightarrow> int \<Rightarrow> int \<Rightarrow> int list option" where
  "exch a i j = do {
     t \<leftarrow> aread a i;
     y \<leftarrow> aread a j;
     a \<leftarrow> awrite a i y;
     awrite a j t
   }"

definition compexch :: "int list \<Rightarrow> int \<Rightarrow> int \<Rightarrow> int list option" where
  "compexch a i j = do {
     x \<leftarrow> aread a i;
     y \<leftarrow> aread a j;
     if y < x then exch a i j else Some a
   }"

text \<open>\<open>for(j=i;j>low;j--) compexch(a[j-1],a[j]);\<close>\<close>

function sink :: "int list \<Rightarrow> int \<Rightarrow> int \<Rightarrow> int list option" where
  "sink a low j = (if low < j then do {
       a \<leftarrow> compexch a (j - 1) j;
       sink a low (j - 1)
     } else Some a)"
  by pat_completeness auto
termination by (relation "measure (\<lambda>(a, low, j). nat (j - low))") auto

function sort_from :: "int list \<Rightarrow> int \<Rightarrow> int \<Rightarrow> int \<Rightarrow> int list option" where
  "sort_from a low high i = (if i \<le> high then do {
       a \<leftarrow> sink a low i;
       sort_from a low high (i + 1)
     } else Some a)"
  by pat_completeness auto
termination by (relation "measure (\<lambda>(a, low, high, i). nat (high + 1 - i))") auto

definition sort_c :: "int list \<Rightarrow> int \<Rightarrow> int \<Rightarrow> int list option" where
  "sort_c a low high = sort_from a low high (low + 1)"

text \<open>The inner loop of \<open>insert_sort\<close> shifts while \<open>j >= 0\<close>, whatever \<open>low\<close> is.\<close>

function shift_up :: "int list \<Rightarrow> int \<Rightarrow> int \<Rightarrow> (int list \<times> int) option" where
  "shift_up a t j = (if 0 \<le> j then do {
       x \<leftarrow> aread a j;
       if t < x then do {
         a \<leftarrow> awrite a (j + 1) x;
         shift_up a t (j - 1)
       } else Some (a, j)
     } else Some (a, j))"
  by pat_completeness auto
termination by (relation "measure (\<lambda>(a, t, j). nat (j + 1))") auto

function insert_from :: "int list \<Rightarrow> int \<Rightarrow> int \<Rightarrow> int list option" where
  "insert_from a high i = (if i \<le> high then do {
       t \<leftarrow> aread a i;
       (a, j) \<leftarrow> shift_up a t (i - 1);
       a \<leftarrow> awrite a (j + 1) t;
       insert_from a high (i + 1)
     } else Some a)"
  by pat_completeness auto
termination by (relation "measure (\<lambda>(a, high, i). nat (high + 1 - i))") auto

definition insert_sort :: "int list \<Rightarrow> int \<Rightarrow> int \<Rightarrow> int list option" where
  "insert_sort a low high = insert_from a high (low + 1)"

text \<open>
  \<open>partition\<close>: the element at \<open>low\<close> is the pivot and leaves a hole that the two scans
  fill in turn. \<open>quick_sort.c\<close> writes the comparisons with the macros \<open>less\<close> and \<open>more\<close>,
  the other two files with \<open>>=\<close> and \<open><=\<close>; the loops are otherwise the same text, so they
  share one definition over the two tests.
\<close>

function scan_down :: "(int \<Rightarrow> bool) \<Rightarrow> int list \<Rightarrow> int \<Rightarrow> int \<Rightarrow> int option" where
  "scan_down keep a low high = (if low < high then do {
       x \<leftarrow> aread a high;
       if keep x then scan_down keep a low (high - 1) else Some high
     } else Some high)"
  by pat_completeness auto
termination by (relation "measure (\<lambda>(keep, a, low, high). nat (high - low))") auto

function scan_up :: "(int \<Rightarrow> bool) \<Rightarrow> int list \<Rightarrow> int \<Rightarrow> int \<Rightarrow> int option" where
  "scan_up keep a low high = (if low < high then do {
       x \<leftarrow> aread a low;
       if keep x then scan_up keep a (low + 1) high else Some low
     } else Some low)"
  by pat_completeness auto
termination by (relation "measure (\<lambda>(keep, a, low, high). nat (high - low))") auto

partial_function (option) partition_loop ::
  "(int \<Rightarrow> bool) \<Rightarrow> (int \<Rightarrow> bool) \<Rightarrow> int list \<Rightarrow> int \<Rightarrow> int \<Rightarrow> (int list \<times> int) option" where
  "partition_loop keepr keepl a low high = (if low < high then do {
       high \<leftarrow> scan_down keepr a low high;
       x \<leftarrow> aread a high;
       a \<leftarrow> awrite a low x;
       low \<leftarrow> scan_up keepl a low high;
       y \<leftarrow> aread a low;
       a \<leftarrow> awrite a high y;
       partition_loop keepr keepl a low high
     } else Some (a, low))"

definition partition_with ::
  "(int \<Rightarrow> int \<Rightarrow> bool) \<Rightarrow> (int \<Rightarrow> int \<Rightarrow> bool) \<Rightarrow> int list \<Rightarrow> int \<Rightarrow> int \<Rightarrow> (int list \<times> int) option" where
  "partition_with keepr keepl a low high = do {
     pivot \<leftarrow> aread a low;
     (a, low) \<leftarrow> partition_loop (\<lambda>x. keepr x pivot) (\<lambda>x. keepl x pivot) a low high;
     a \<leftarrow> awrite a low pivot;
     Some (a, low)
   }"

definition partition_c :: "int list \<Rightarrow> int \<Rightarrow> int \<Rightarrow> (int list \<times> int) option" where
  "partition_c = partition_with (\<lambda>x pivot. \<not> x < pivot) (\<lambda>x pivot. \<not> x > pivot)"

partial_function (option) quick_sort :: "int list \<Rightarrow> int \<Rightarrow> int \<Rightarrow> int list option" where
  "quick_sort a low high = (if low < high then do {
       (a, pos) \<leftarrow> partition_c a low high;
       a \<leftarrow> quick_sort a low pos;
       quick_sort a (pos + 1) high
     } else Some a)"

text \<open>\<open>for(j=i+1;j<=high;j++) if(less(a[j],a[min])) min=j;\<close>\<close>

function find_min :: "int list \<Rightarrow> int \<Rightarrow> int \<Rightarrow> int \<Rightarrow> int option" where
  "find_min a high j m = (if j \<le> high then do {
       x \<leftarrow> aread a j;
       y \<leftarrow> aread a m;
       find_min a high (j + 1) (if x < y then j else m)
     } else Some m)"
  by pat_completeness auto
termination by (relation "measure (\<lambda>(a, high, j, m). nat (high + 1 - j))") auto

function select_from :: "int list \<Rightarrow> int \<Rightarrow> int \<Rightarrow> int list option" where
  "select_from a high i = (if i < high then do {
       m \<leftarrow> find_min a high (i + 1) i;
       a \<leftarrow> exch a i m;
       select_from a high (i + 1)
     } else Some a)"
  by pat_completeness auto
termination by (relation "measure (\<lambda>(a, high, i). nat (high - i))") auto

definition select_sort :: "int list \<Rightarrow> int \<Rightarrow> int \<Rightarrow> int list option" where
  "select_sort a low high = select_from a high low"

function bubble_from :: "int list \<Rightarrow> int \<Rightarrow> int \<Rightarrow> int list option" where
  "bubble_from a high i = (if i < high then do {
       a \<leftarrow> sink a i high;
       bubble_from a high (i + 1)
     } else Some a)"
  by pat_completeness auto
termination by (relation "measure (\<lambda>(a, high, i). nat (high - i))") auto

definition bubbler_sort :: "int list \<Rightarrow> int \<Rightarrow> int \<Rightarrow> int list option" where
  "bubbler_sort a low high = bubble_from a high low"

text \<open>\<open>getcost\<close>: the difference of two time stamps, in seconds and microseconds.\<close>

definition getcost :: "int \<times> int \<Rightarrow> int \<times> int \<Rightarrow> int \<times> int" where
  "getcost tv1 tv2 = (let sec = fst tv2 - fst tv1; usec = snd tv2 - snd tv1
     in if usec < 0 then (sec - 1, usec + 1000000) else (sec, usec))"

section \<open>sort/quick\_merge\_sort.c\<close>

definition qm_partition :: "int list \<Rightarrow> int \<Rightarrow> int \<Rightarrow> (int list \<times> int) option" where
  "qm_partition = partition_with (\<lambda>x pivot. x \<ge> pivot) (\<lambda>x pivot. x \<le> pivot)"

partial_function (option) qm_quick_sort :: "int list \<Rightarrow> int \<Rightarrow> int \<Rightarrow> int list option" where
  "qm_quick_sort a left right = (if left < right then do {
       (a, pos) \<leftarrow> qm_partition a left right;
       a \<leftarrow> qm_quick_sort a left pos;
       qm_quick_sort a (pos + 1) right
     } else Some a)"

type_synonym scratch = "int option list"

definition tread :: "scratch \<Rightarrow> int \<Rightarrow> int option" where
  "tread temp i = Option.bind (aread temp i) id"

text \<open>\<open>for(i=left;i<=mid;i++) temp[i]=a[i];\<close>\<close>

function copy_out :: "int list \<Rightarrow> scratch \<Rightarrow> int \<Rightarrow> int \<Rightarrow> scratch option" where
  "copy_out a temp i fin = (if i \<le> fin then do {
       x \<leftarrow> aread a i;
       temp \<leftarrow> awrite temp i (Some x);
       copy_out a temp (i + 1) fin
     } else Some temp)"
  by pat_completeness auto
termination by (relation "measure (\<lambda>(a, temp, i, fin). nat (fin + 1 - i))") auto

function merge_back :: "int list \<Rightarrow> scratch \<Rightarrow> int \<Rightarrow> int \<Rightarrow> int \<Rightarrow> int \<Rightarrow> int \<Rightarrow> int list option" where
  "merge_back a temp mid right i j k = (if k \<le> right then
       (if i > mid then do {
          x \<leftarrow> tread temp j;
          a \<leftarrow> awrite a k x;
          merge_back a temp mid right i (j + 1) (k + 1)
        } else if j > right then do {
          x \<leftarrow> tread temp i;
          a \<leftarrow> awrite a k x;
          merge_back a temp mid right (i + 1) j (k + 1)
        } else do {
          x \<leftarrow> tread temp i;
          y \<leftarrow> tread temp j;
          if x < y then do {
            a \<leftarrow> awrite a k x;
            merge_back a temp mid right (i + 1) j (k + 1)
          } else do {
            a \<leftarrow> awrite a k y;
            merge_back a temp mid right i (j + 1) (k + 1)
          }
        })
     else Some a)"
  by pat_completeness auto
termination by (relation "measure (\<lambda>(a, temp, mid, right, i, j, k). nat (right + 1 - k))") auto

definition merge_two :: "int list \<Rightarrow> int \<Rightarrow> int \<Rightarrow> int \<Rightarrow> int list option" where
  "merge_two a left mid right = do {
     let temp = replicate 1000 None;
     temp \<leftarrow> copy_out a temp left mid;
     temp \<leftarrow> copy_out a temp (mid + 1) right;
     merge_back a temp mid right left (mid + 1) left
   }"

partial_function (option) merge_sort :: "int list \<Rightarrow> int \<Rightarrow> int \<Rightarrow> int list option" where
  "merge_sort a left right = (if left < right then do {
       mid \<leftarrow> cdiv (left + right) 2;
       a \<leftarrow> merge_sort a left mid;
       a \<leftarrow> merge_sort a (mid + 1) right;
       merge_two a left mid right
     } else Some a)"

section \<open>sort/quick\_sort\_merge\_sort.c\<close>

definition qsm_partition :: "int list \<Rightarrow> int \<Rightarrow> int \<Rightarrow> (int list \<times> int) option" where
  "qsm_partition = partition_with (\<lambda>x pivot. x \<ge> pivot) (\<lambda>x pivot. x \<le> pivot)"

partial_function (option) qsm_quick_sort :: "int list \<Rightarrow> int \<Rightarrow> int \<Rightarrow> int list option" where
  "qsm_quick_sort a low high = (if low < high then do {
       (a, pos) \<leftarrow> qsm_partition a low high;
       a \<leftarrow> qsm_quick_sort a low pos;
       qsm_quick_sort a (pos + 1) high
     } else Some a)"

definition quicksort :: "int list \<Rightarrow> int \<Rightarrow> int list option" where
  "quicksort a n = qsm_quick_sort a 0 (n - 1)"

function merger_back :: "int list \<Rightarrow> scratch \<Rightarrow> int \<Rightarrow> int \<Rightarrow> int \<Rightarrow> int \<Rightarrow> int \<Rightarrow> int list option" where
  "merger_back a temp mid high i j k = (if \<not> k \<le> high then Some a
     else if i > mid then do {
       x \<leftarrow> tread temp j;
       a \<leftarrow> awrite a k x;
       merger_back a temp mid high i (j + 1) (k + 1)
     }
     else if j > high then do {
       x \<leftarrow> tread temp i;
       a \<leftarrow> awrite a k x;
       merger_back a temp mid high (i + 1) j (k + 1)
     }
     else do {
       x \<leftarrow> tread temp i;
       y \<leftarrow> tread temp j;
       a \<leftarrow> awrite a k (if x < y then x else y);
       merger_back a temp mid high (if x < y then i + 1 else i) (if x < y then j else j + 1) (k + 1)
     })"
  by pat_completeness auto
termination by (relation "measure (\<lambda>(a, temp, mid, high, i, j, k). nat (high + 1 - k))") auto

definition merger_two :: "int list \<Rightarrow> int \<Rightarrow> int \<Rightarrow> int \<Rightarrow> int list option" where
  "merger_two a left mid high = do {
     let temp = replicate 1000 None;
     temp \<leftarrow> copy_out a temp left mid;
     temp \<leftarrow> copy_out a temp (mid + 1) high;
     merger_back a temp mid high left (mid + 1) left
   }"

partial_function (option) merger_sort :: "int list \<Rightarrow> int \<Rightarrow> int \<Rightarrow> int list option" where
  "merger_sort a low high = (if low \<ge> high then Some a else do {
       mid \<leftarrow> cdiv (low + high) 2;
       a \<leftarrow> merger_sort a low mid;
       a \<leftarrow> merger_sort a (mid + 1) high;
       merger_two a low mid high
     })"

definition mergersort :: "int list \<Rightarrow> int \<Rightarrow> int list option" where
  "mergersort a n = merger_sort a 0 (n - 1)"

declare
  sink.simps [simp del] and
  sort_from.simps [simp del] and
  shift_up.simps [simp del] and
  insert_from.simps [simp del] and
  scan_down.simps [simp del] and
  scan_up.simps [simp del] and
  find_min.simps [simp del] and
  select_from.simps [simp del] and
  bubble_from.simps [simp del] and
  copy_out.simps [simp del] and
  merge_back.simps [simp del] and
  merger_back.simps [simp del]

end
