(* ===== verification/Array_Sort_Correct.thy ===== *)
theory Array_Sort_Correct
  imports Array_Sort
begin

text \<open>
  Correctness of the array sorts: each one permutes its index range, leaves the rest of the
  array alone and returns with the range sorted. The locale \<open>sorter\<close> states that contract
  and derives that a sort of a whole array computes the same function as the library's
  \<^const>\<open>sort\<close>; its interpretations carry the properties.
\<close>

section \<open>Index ranges\<close>

abbreviation elt :: "int list \<Rightarrow> int \<Rightarrow> int" where
  "elt a i \<equiv> a ! nat i"

definition all_range :: "(int \<Rightarrow> bool) \<Rightarrow> int list \<Rightarrow> int \<Rightarrow> int \<Rightarrow> bool" where
  "all_range P a l r \<longleftrightarrow> (\<forall>k. l \<le> k \<longrightarrow> k \<le> r \<longrightarrow> P (elt a k))"

definition sorted_range :: "int list \<Rightarrow> int \<Rightarrow> int \<Rightarrow> bool" where
  "sorted_range a l r \<longleftrightarrow> (\<forall>i j. l \<le> i \<longrightarrow> i \<le> j \<longrightarrow> j \<le> r \<longrightarrow> elt a i \<le> elt a j)"

definition range_perm :: "int \<Rightarrow> int \<Rightarrow> int list \<Rightarrow> int list \<Rightarrow> bool" where
  "range_perm l r a b \<longleftrightarrow> mset b = mset a \<and>
     (\<forall>k. int k < l \<or> r < int k \<longrightarrow> k < length a \<longrightarrow> b ! k = a ! k)"

lemma all_rangeD: "all_range P a l r \<Longrightarrow> l \<le> k \<Longrightarrow> k \<le> r \<Longrightarrow> P (elt a k)"
  by (simp add: all_range_def)

lemma sorted_rangeD: "sorted_range a l r \<Longrightarrow> l \<le> i \<Longrightarrow> i \<le> j \<Longrightarrow> j \<le> r \<Longrightarrow> elt a i \<le> elt a j"
  by (simp add: sorted_range_def)

lemma range_perm_length: "range_perm l r a b \<Longrightarrow> length b = length a"
  unfolding range_perm_def by (metis size_mset)

lemma range_perm_refl [simp]: "range_perm l r a a"
  by (simp add: range_perm_def)

lemma range_perm_trans: "range_perm l r a b \<Longrightarrow> range_perm l r b c \<Longrightarrow> range_perm l r a c"
  using range_perm_length [of l r a b] by (simp add: range_perm_def)

lemma range_perm_sym: "range_perm l r a b \<Longrightarrow> range_perm l r b a"
  using range_perm_length [of l r a b] by (simp add: range_perm_def)

lemma range_perm_mono: "range_perm l r a b \<Longrightarrow> l' \<le> l \<Longrightarrow> r \<le> r' \<Longrightarrow> range_perm l' r' a b"
  by (auto simp: range_perm_def)

lemma range_perm_chain:
  "range_perm l1 r1 a b \<Longrightarrow> range_perm l2 r2 b c \<Longrightarrow> l \<le> l1 \<Longrightarrow> r1 \<le> r \<Longrightarrow> l \<le> l2 \<Longrightarrow> r2 \<le> r \<Longrightarrow>
   range_perm l r a c"
  by (rule range_perm_trans [of l r a b c]) (auto elim: range_perm_mono)

lemma range_perm_outside:
  "range_perm l r a b \<Longrightarrow> 0 \<le> k \<Longrightarrow> k < int (length a) \<Longrightarrow> k < l \<or> r < k \<Longrightarrow> elt b k = elt a k"
  by (auto simp: range_perm_def)

text \<open>A permutation of a range keeps what holds of all its elements.\<close>

lemma range_perm_all:
  assumes perm: "range_perm l r a b" and "0 \<le> l" "r < int (length a)" and all: "all_range P a l r"
  shows "all_range P b l r"
proof (rule ccontr)
  let ?A = "{i. i < length a \<and> \<not> P (a ! i)}" and ?B = "{i. i < length b \<and> \<not> P (b ! i)}"
  have len: "length b = length a" using perm by (rule range_perm_length)
  assume "\<not> all_range P b l r"
  then obtain k where k: "l \<le> k" "k \<le> r" "\<not> P (elt b k)" by (auto simp: all_range_def)
  have out: "int i < l \<or> r < int i" if "i \<in> ?A" for i
    using all_rangeD [OF all, of "int i"] that by force
  have "i \<in> ?B" if "i \<in> ?A" for i
    using out [OF that] that perm len by (auto simp: range_perm_def)
  then have "?A \<subseteq> ?B" by blast
  moreover have "nat k \<in> ?B - ?A"
    using k len assms(2,3) all_rangeD [OF all, of k] by auto
  ultimately have "?A \<subset> ?B" by blast
  then have "card ?A < card ?B" by (intro psubset_card_mono) auto
  moreover have "card ?A = card ?B"
  proof -
    have "size (filter_mset (\<lambda>x. \<not> P x) (mset a)) = size (filter_mset (\<lambda>x. \<not> P x) (mset b))"
      using perm by (simp add: range_perm_def)
    then have "length (filter (\<lambda>x. \<not> P x) a) = length (filter (\<lambda>x. \<not> P x) b)"
      by (metis mset_filter size_mset)
    then show ?thesis by (simp add: length_filter_conv_card)
  qed
  ultimately show False by simp
qed

lemma sorted_range_whole: "sorted_range a 0 (int (length a) - 1) \<longleftrightarrow> sorted a"
proof
  assume s: "sorted_range a 0 (int (length a) - 1)"
  show "sorted a"
    unfolding sorted_iff_nth_mono
  proof (intro allI impI)
    fix i j assume "i \<le> j" "j < length a"
    then show "a ! i \<le> a ! j" using sorted_rangeD [OF s, of "int i" "int j"] by simp
  qed
next
  assume "sorted a"
  then show "sorted_range a 0 (int (length a) - 1)"
    by (auto simp: sorted_range_def sorted_iff_nth_mono nat_less_iff)
qed

lemma sorted_range_empty [simp]: "r \<le> l \<Longrightarrow> sorted_range a l r"
proof -
  assume "r \<le> l"
  then have "i = j" if "l \<le> i" "i \<le> j" "j \<le> r" for i j using that by simp
  then show ?thesis by (auto simp: sorted_range_def)
qed

text \<open>A sorted range survives changes outside it.\<close>

lemma sorted_range_outside:
  assumes "sorted_range a l r" "range_perm l' r' a b" "r < l' \<or> r' < l" "0 \<le> l" "r < int (length a)"
  shows "sorted_range b l r"
  unfolding sorted_range_def
proof (intro allI impI)
  fix i j assume ij: "l \<le> i" "i \<le> j" "j \<le> r"
  with assms have "elt b i = elt a i" "elt b j = elt a j"
    by (auto intro!: range_perm_outside [OF assms(2)])
  with sorted_rangeD [OF assms(1) ij] show "elt b i \<le> elt b j" by simp
qed

lemma sorted_range_join:
  assumes "sorted_range a l m" "sorted_range a (m + 1) r"
    and "all_range (\<lambda>x. x \<le> p) a l m" "all_range (\<lambda>x. p \<le> x) a (m + 1) r"
  shows "sorted_range a l r"
  unfolding sorted_range_def
proof (intro allI impI)
  fix i j assume ij: "l \<le> i" "i \<le> j" "j \<le> r"
  consider "j \<le> m" | "m < i" | "i \<le> m" "m < j" using ij by linarith
  then show "elt a i \<le> elt a j"
  proof cases
    case 1 then show ?thesis using ij assms(1) by (simp add: sorted_rangeD)
  next
    case 2 then show ?thesis using ij sorted_rangeD [OF assms(2), of i j] by simp
  next
    case 3
    then have "elt a i \<le> p" "p \<le> elt a j"
      using ij all_rangeD [OF assms(3), of i] all_rangeD [OF assms(4), of j] by auto
    then show ?thesis by simp
  qed
qed

section \<open>Exchanges\<close>

lemma exch_range_perm:
  assumes "0 \<le> i" "i < int (length a)" "0 \<le> j" "j < int (length a)"
    and "l \<le> i" "i \<le> r" "l \<le> j" "j \<le> r"
  shows "exch a i j = Some (a[nat i := elt a j, nat j := elt a i])"
    and "range_perm l r a (a[nat i := elt a j, nat j := elt a i])"
proof -
  show "exch a i j = Some (a[nat i := elt a j, nat j := elt a i])"
    using assms by (simp add: exch_def aread_in awrite_in)
  have "mset (a[nat i := elt a j, nat j := elt a i]) = mset a"
    using assms by (intro mset_swap) auto
  then show "range_perm l r a (a[nat i := elt a j, nat j := elt a i])"
    using assms by (auto simp: range_perm_def nth_list_update)
qed

lemma elt_exch:
  assumes "0 \<le> i" "i < int (length a)" "0 \<le> j" "j < int (length a)" "0 \<le> k"
  shows "elt (a[nat i := elt a j, nat j := elt a i]) k =
    (if k = j then elt a i else if k = i then elt a j else elt a k)"
  using assms by (auto simp: nth_list_update eq_nat_nat_iff)

lemma compexch_spec:
  assumes "0 \<le> i" "i < j" "j < int (length a)"
  shows "\<exists>b. compexch a i j = Some b \<and> range_perm i j a b \<and>
    elt b i = min (elt a i) (elt a j) \<and> elt b j = max (elt a i) (elt a j)"
proof (cases "elt a j < elt a i")
  case True
  let ?b = "a[nat i := elt a j, nat j := elt a i]"
  have "compexch a i j = Some ?b"
    using True assms exch_range_perm(1) [of i a j i j] by (simp add: compexch_def aread_in)
  moreover have "range_perm i j a ?b" using assms by (intro exch_range_perm(2)) auto
  ultimately show ?thesis
    using True assms elt_exch [of i a j i] elt_exch [of i a j j] by auto
next
  case False
  then show ?thesis using assms by (simp add: compexch_def aread_in)
qed

text \<open>
  One downward pass. \<open>sink_sorted\<close> is its use in insertion sort (the range before \<open>j\<close> is
  sorted, the pass inserts element \<open>j\<close>), \<open>sink_min\<close> its use in bubble sort (the pass brings
  the least element to \<open>low\<close>).
\<close>

lemma sink_step:
  fixes f g :: "int \<Rightarrow> int"
  assumes le: "\<forall>p q. low \<le> p \<longrightarrow> p \<le> q \<longrightarrow> q \<le> i \<longrightarrow> q \<noteq> j \<longrightarrow> f p \<le> f q"
    and g: "g (j - 1) = min (f (j - 1)) (f j)" "g j = max (f (j - 1)) (f j)"
    and oth: "\<And>k. low \<le> k \<Longrightarrow> k \<le> i \<Longrightarrow> k \<noteq> j \<Longrightarrow> k \<noteq> j - 1 \<Longrightarrow> g k = f k"
    and j: "low < j" "j \<le> i" and pq: "low \<le> p" "p \<le> q" "q \<le> i" "q \<noteq> j - 1"
  shows "g p \<le> g q"
proof -
  have le': "f p \<le> f q" if "low \<le> p" "p \<le> q" "q \<le> i" "q \<noteq> j" for p q
    using le that by blast
  show ?thesis
  proof (cases "q = j")
    case True
    consider "p = j" | "p = j - 1" | "p < j - 1" using pq True by linarith
    then show ?thesis
    proof cases
      case 3
      then show ?thesis
        using pq j True oth [of p] le' [of p "j - 1"] g(2) by simp
    qed (use True g in auto)
  next
    case False
    then have q: "g q = f q" using oth pq by simp
    consider "p = j" | "p = j - 1" | "p \<noteq> j" "p \<noteq> j - 1" by blast
    then show ?thesis
    proof cases
      case 1
      then show ?thesis using False pq j q g(2) le' [of "j - 1" q] le' [of j q] by simp
    next
      case 2
      then show ?thesis using False pq j q g(1) le' [of j q] le' [of "j - 1" q] by auto
    next
      case 3
      then show ?thesis using False pq q oth [of p] le' [of p q] by simp
    qed
  qed
qed

lemma sink_sorted:
  assumes "0 \<le> low" "low \<le> j" "j \<le> i" "i < int (length a)"
    and "\<forall>p q. low \<le> p \<longrightarrow> p \<le> q \<longrightarrow> q \<le> i \<longrightarrow> q \<noteq> j \<longrightarrow> elt a p \<le> elt a q"
  shows "\<exists>b. sink a low j = Some b \<and> range_perm low j a b \<and> sorted_range b low i"
  using assms
proof (induction a low j rule: sink.induct)
  case (1 a low j)
  show ?case
  proof (cases "low < j")
    case False
    have "elt a p \<le> elt a q" if "low \<le> p" "p \<le> q" "q \<le> i" for p q
      using "1.prems"(5) that False "1.prems"(2) by (cases "q = j") auto
    then have "sorted_range a low i" by (simp add: sorted_range_def)
    with False show ?thesis by (subst sink.simps) simp
  next
    case True
    from True "1.prems" obtain b where b: "compexch a (j - 1) j = Some b" "range_perm (j - 1) j a b"
        "elt b (j - 1) = min (elt a (j - 1)) (elt a j)" "elt b j = max (elt a (j - 1)) (elt a j)"
      using compexch_spec [of "j - 1" j a] by auto
    have oth: "elt b k = elt a k" if "low \<le> k" "k \<le> i" "k \<noteq> j" "k \<noteq> j - 1" for k
      using that "1.prems" by (intro range_perm_outside [OF b(2)]) auto
    have inv: "elt b p \<le> elt b q" if "low \<le> p" "p \<le> q" "q \<le> i" "q \<noteq> j - 1" for p q
      using sink_step [of low i j "elt a" "elt b" p q] "1.prems"(3,5) b(3,4) oth True that by blast
    have len: "length b = length a" using b(2) by (rule range_perm_length)
    have "\<exists>c. sink b low (j - 1) = Some c \<and> range_perm low (j - 1) b c \<and> sorted_range c low i"
      using "1.IH" [OF True, of b] b(1) "1.prems" len True inv by auto
    then obtain c where c: "sink b low (j - 1) = Some c" "range_perm low (j - 1) b c" "sorted_range c low i"
      by blast
    have "range_perm low j a c"
      using True by (intro range_perm_chain [OF b(2) c(2)]) auto
    with c b(1) True show ?thesis by (subst sink.simps) simp
  qed
qed

lemma sink_min:
  assumes "0 \<le> low" "low \<le> j" "j < int (length a)"
  shows "\<exists>b. sink a low j = Some b \<and> range_perm low j a b \<and> all_range (\<lambda>x. elt b low \<le> x) b low j"
  using assms
proof (induction a low j rule: sink.induct)
  case (1 a low j)
  show ?case
  proof (cases "low < j")
    case False
    with "1.prems" have "all_range (\<lambda>x. elt a low \<le> x) a low j" by (auto simp: all_range_def)
    with False show ?thesis by (subst sink.simps) simp
  next
    case True
    from True "1.prems" obtain b where b: "compexch a (j - 1) j = Some b" "range_perm (j - 1) j a b"
        "elt b (j - 1) = min (elt a (j - 1)) (elt a j)" "elt b j = max (elt a (j - 1)) (elt a j)"
      using compexch_spec [of "j - 1" j a] by auto
    have le: "elt b (j - 1) \<le> elt b j" using b(3,4) by (simp add: min_def max_def)
    have len: "length b = length a" using b(2) by (rule range_perm_length)
    then obtain c where c: "sink b low (j - 1) = Some c" "range_perm low (j - 1) b c"
        "all_range (\<lambda>x. elt c low \<le> x) c low (j - 1)"
      using "1.IH" [OF True, of b] b(1) "1.prems" True by auto
    have "all_range (\<lambda>x. elt c low \<le> x) b low (j - 1)"
      using c "1.prems" len range_perm_length [OF c(2)]
      by (intro range_perm_all [OF range_perm_sym [OF c(2)]]) auto
    then have "elt c low \<le> elt b j"
      using le all_rangeD [of _ b low "j - 1" "j - 1"] True by fastforce
    moreover have "elt c j = elt b j"
      using "1.prems" len by (intro range_perm_outside [OF c(2)]) auto
    moreover have "elt c low \<le> elt c k" if "low \<le> k" "k \<le> j" "k \<noteq> j" for k
      using all_rangeD [OF c(3), of k] that by simp
    ultimately have "all_range (\<lambda>x. elt c low \<le> x) c low j"
      by (metis all_range_def)
    moreover have "range_perm low j a c"
      using True by (intro range_perm_chain [OF b(2) c(2)]) auto
    ultimately show ?thesis using c b(1) True by (subst sink.simps) simp
  qed
qed


section \<open>The contract of a sort\<close>

locale sorter =
  fixes srt :: "int list \<Rightarrow> int \<Rightarrow> int \<Rightarrow> int list option"
    and range_ok :: "int \<Rightarrow> int \<Rightarrow> bool"
  assumes sorts: "0 \<le> low \<Longrightarrow> high < int (length a) \<Longrightarrow> range_ok low high \<Longrightarrow>
    \<exists>b. srt a low high = Some b \<and> range_perm low high a b \<and> sorted_range b low high"
begin

lemma sorts_whole:
  assumes "range_ok 0 (int (length a) - 1)"
  shows "srt a 0 (int (length a) - 1) = Some (sort a)"
proof -
  from sorts [of 0 "int (length a) - 1" a] assms
  obtain b where b: "srt a 0 (int (length a) - 1) = Some b" "range_perm 0 (int (length a) - 1) a b"
      "sorted_range b 0 (int (length a) - 1)" by auto
  have "sorted b" using b(3) range_perm_length [OF b(2)] sorted_range_whole [of b] by simp
  moreover have "mset b = mset a" using b(2) by (simp add: range_perm_def)
  ultimately have "sort a = b" by (intro properties_for_sort) auto
  with b(1) show ?thesis by simp
qed

lemma sorts_range:
  assumes "0 \<le> low" "high < int (length a)" "range_ok low high" "srt a low high = Some b"
  shows "length b = length a" "mset b = mset a" "sorted_range b low high"
    "0 \<le> k \<Longrightarrow> k < int (length a) \<Longrightarrow> k < low \<or> high < k \<Longrightarrow> elt b k = elt a k"
  using sorts [OF assms(1-3)] assms(4) range_perm_length [of low high a b]
  by (auto simp: range_perm_def)

end

section \<open>The quadratic sorts\<close>

lemma sort_from_spec:
  assumes "0 \<le> low" "low < i" "high < int (length a)" "sorted_range a low (i - 1)"
  shows "\<exists>b. sort_from a low high i = Some b \<and> range_perm low high a b \<and> sorted_range b low high"
  using assms
proof (induction a low high i rule: sort_from.induct)
  case (1 a low high i)
  show ?case
  proof (cases "i \<le> high")
    case False
    with "1.prems"(4) have "sorted_range a low high" by (auto simp: sorted_range_def)
    with False show ?thesis by (subst sort_from.simps) simp
  next
    case True
    have "\<forall>p q. low \<le> p \<longrightarrow> p \<le> q \<longrightarrow> q \<le> i \<longrightarrow> q \<noteq> i \<longrightarrow> elt a p \<le> elt a q"
      using "1.prems"(4) by (auto intro: sorted_rangeD)
    then obtain b where b: "sink a low i = Some b" "range_perm low i a b" "sorted_range b low i"
      using sink_sorted [of low i i a] "1.prems" True by auto
    have "length b = length a" using b(2) by (rule range_perm_length)
    then obtain c where c: "sort_from b low high (i + 1) = Some c" "range_perm low high b c" "sorted_range c low high"
      using "1.IH" [OF True, of b] b "1.prems" by auto
    have "range_perm low high a c" using True by (intro range_perm_chain [OF b(2) c(2)]) auto
    with b(1) c True show ?thesis by (subst sort_from.simps) simp
  qed
qed

interpretation ins: sorter sort_c "\<lambda>_ _. True"
  by unfold_locales (auto simp: sort_c_def intro: sort_from_spec)

text \<open>
  Selection and bubble sort keep a prefix that is sorted and not greater than the rest.
\<close>

definition prefix_min :: "int list \<Rightarrow> int \<Rightarrow> int \<Rightarrow> int \<Rightarrow> bool" where
  "prefix_min a low i high \<longleftrightarrow>
     (\<forall>p q. low \<le> p \<longrightarrow> p < i \<longrightarrow> p \<le> q \<longrightarrow> q \<le> high \<longrightarrow> elt a p \<le> elt a q)"

lemma prefix_min_sorted: "prefix_min a low i high \<Longrightarrow> high \<le> i \<Longrightarrow> sorted_range a low high"
  unfolding sorted_range_def
proof (intro allI impI)
  fix p q assume "prefix_min a low i high" "high \<le> i" "low \<le> p" "p \<le> q" "q \<le> high"
  then show "elt a p \<le> elt a q" by (cases "p = q") (auto simp: prefix_min_def)
qed

lemma prefix_min_step:
  assumes pre: "prefix_min a low i high" and perm: "range_perm i high a b"
    and least: "all_range (\<lambda>x. elt b i \<le> x) b i high"
    and bounds: "0 \<le> low" "low \<le> i" "i \<le> high" "high < int (length a)"
  shows "prefix_min b low (i + 1) high"
  unfolding prefix_min_def
proof (intro allI impI)
  fix p q assume pq: "low \<le> p" "p < i + 1" "p \<le> q" "q \<le> high"
  show "elt b p \<le> elt b q"
  proof (cases "p = i")
    case True
    then show ?thesis using all_rangeD [OF least, of q] pq by simp
  next
    case False
    then have p: "elt b p = elt a p" using pq bounds by (intro range_perm_outside [OF perm]) auto
    show ?thesis
    proof (cases "q < i")
      case True
      then have "elt b q = elt a q" using pq bounds by (intro range_perm_outside [OF perm]) auto
      with p False pre pq show ?thesis by (simp add: prefix_min_def)
    next
      case q: False
      have "all_range (\<lambda>x. elt a p \<le> x) a i high"
        using pre pq False by (auto simp: prefix_min_def all_range_def)
      then have "all_range (\<lambda>x. elt a p \<le> x) b i high"
        using bounds by (intro range_perm_all [OF perm]) auto
      then show ?thesis using all_rangeD [of _ b i high q] p q pq by force
    qed
  qed
qed

lemma bubble_from_spec:
  assumes "0 \<le> low" "low \<le> i" "high < int (length a)" "prefix_min a low i high"
  shows "\<exists>b. bubble_from a high i = Some b \<and> range_perm low high a b \<and> sorted_range b low high"
  using assms
proof (induction a high i rule: bubble_from.induct)
  case (1 a high i)
  show ?case
  proof (cases "i < high")
    case False
    with "1.prems" have "sorted_range a low high" by (intro prefix_min_sorted) auto
    with False show ?thesis by (subst bubble_from.simps) simp
  next
    case True
    then obtain b where b: "sink a i high = Some b" "range_perm i high a b"
        "all_range (\<lambda>x. elt b i \<le> x) b i high"
      using sink_min [of i high a] "1.prems" by auto
    have "prefix_min b low (i + 1) high"
      using "1.prems" True by (intro prefix_min_step [OF _ b(2,3)]) auto
    moreover have "length b = length a" using b(2) by (rule range_perm_length)
    ultimately obtain c where c: "bubble_from b high (i + 1) = Some c" "range_perm low high b c"
        "sorted_range c low high"
      using "1.IH" [OF True, of b] b(1) "1.prems" by auto
    have "range_perm low high a c" using "1.prems" by (intro range_perm_chain [OF b(2) c(2)]) auto
    with b(1) c True show ?thesis by (subst bubble_from.simps) simp
  qed
qed

interpretation bub: sorter bubbler_sort "\<lambda>_ _. True"
  by unfold_locales (auto simp: bubbler_sort_def prefix_min_def intro: bubble_from_spec)

lemma find_min_spec:
  assumes "0 \<le> i" "i \<le> m" "m < j" "j \<le> high + 1" "high < int (length a)"
    and "all_range (\<lambda>x. elt a m \<le> x) a i (j - 1)"
  shows "\<exists>m'. find_min a high j m = Some m' \<and> i \<le> m' \<and> m' \<le> high \<and> all_range (\<lambda>x. elt a m' \<le> x) a i high"
  using assms
proof (induction a high j m rule: find_min.induct)
  case (1 a high j m)
  show ?case
  proof (cases "j \<le> high")
    case False
    then have "j = high + 1" using "1.prems" by simp
    with "1.prems" show ?thesis by (subst find_min.simps) simp
  next
    case True
    define m' where "m' = (if elt a j < elt a m then j else m)"
    have low: "elt a m \<le> elt a k" if "i \<le> k" "k \<le> j - 1" for k
      using all_rangeD [OF "1.prems"(6)] that by blast
    have "elt a m' \<le> elt a k" if k: "i \<le> k" "k \<le> j" for k
    proof (cases "k = j")
      case True
      then show ?thesis by (simp add: m'_def)
    next
      case False
      then show ?thesis using low [of k] k by (simp add: m'_def)
    qed
    then have "all_range (\<lambda>x. elt a m' \<le> x) a i (j + 1 - 1)" by (simp add: all_range_def)
    moreover have "aread a j = Some (elt a j)" "aread a m = Some (elt a m)"
      using True "1.prems" by (simp_all add: aread_in)
    moreover have "i \<le> m'" "m' < j + 1" using "1.prems" by (auto simp: m'_def)
    ultimately show ?thesis
      using "1.IH" [OF True, of "elt a j" "elt a m"] "1.prems" True
      by (subst find_min.simps) (simp add: m'_def)
  qed
qed

lemma select_from_spec:
  assumes "0 \<le> low" "low \<le> i" "high < int (length a)" "prefix_min a low i high"
  shows "\<exists>b. select_from a high i = Some b \<and> range_perm low high a b \<and> sorted_range b low high"
  using assms
proof (induction a high i rule: select_from.induct)
  case (1 a high i)
  show ?case
  proof (cases "i < high")
    case False
    with "1.prems" have "sorted_range a low high" by (intro prefix_min_sorted) auto
    with False show ?thesis by (subst select_from.simps) simp
  next
    case True
    have "all_range (\<lambda>x. elt a i \<le> x) a i (i + 1 - 1)" by (simp add: all_range_def)
    then obtain m where m: "find_min a high (i + 1) i = Some m" "i \<le> m" "m \<le> high"
        "all_range (\<lambda>x. elt a m \<le> x) a i high"
      using find_min_spec [of i i "i + 1" high a] True "1.prems" by auto
    let ?b = "a[nat i := elt a m, nat m := elt a i]"
    have b: "exch a i m = Some ?b" "range_perm i high a ?b"
      using m True "1.prems" by (intro exch_range_perm; auto)+
    have "elt ?b i = elt a m"
      using elt_exch [of i a m i] m True "1.prems" by auto
    then have "all_range (\<lambda>x. elt ?b i \<le> x) ?b i high"
      using range_perm_all [OF b(2) _ _ m(4)] True "1.prems" by simp
    then have "prefix_min ?b low (i + 1) high"
      using "1.prems" True by (intro prefix_min_step [OF _ b(2)]) auto
    then obtain c where c: "select_from ?b high (i + 1) = Some c" "range_perm low high ?b c"
        "sorted_range c low high"
      using "1.IH" [OF True m(1) b(1)] "1.prems" by auto
    have "range_perm low high a c" using "1.prems" by (intro range_perm_chain [OF b(2) c(2)]) auto
    with m(1) b(1) c True show ?thesis by (subst select_from.simps) simp
  qed
qed

interpretation sel: sorter select_sort "\<lambda>_ _. True"
  by unfold_locales (auto simp: select_sort_def prefix_min_def intro: select_from_spec)

end
