(* ===== verification/Quick_Sort_Correct.thy ===== *)
theory Quick_Sort_Correct
  imports Array_Sort_Correct
begin

text \<open>
  Correctness and termination of the quicksorts and of \<open>insert_sort\<close>. The quicksorts recurse
  on \<open>low..pos\<close>, the pivot included, so a recursive call can get the range it came
  from; it returns because the pivot is then the greatest element and stands at \<open>high\<close>, which
  makes the next partition stop earlier.
\<close>

lemma elt_upd: "0 \<le> i \<Longrightarrow> i < int (length a) \<Longrightarrow> 0 \<le> k \<Longrightarrow>
  elt (a[nat i := v]) k = (if k = i then v else elt a k)"
  by (auto simp: nth_list_update eq_nat_nat_iff)

text \<open>Moving an element into a hole and opening a hole in its place is an exchange.\<close>

lemma hole_move:
  assumes "l \<le> i" "i \<le> r" "l \<le> j" "j \<le> r" "0 \<le> l" "r < int (length a)"
  shows "range_perm l r (a[nat i := p]) (a[nat i := elt a j, nat j := p])"
proof (cases "i = j")
  case True
  then show ?thesis by simp
next
  case False
  let ?c = "a[nat i := p]"
  have "range_perm l r ?c (?c[nat i := elt ?c j, nat j := elt ?c i])"
    using assms by (intro exch_range_perm(2)) auto
  moreover have "?c[nat i := elt ?c j, nat j := elt ?c i] = a[nat i := elt a j, nat j := p]"
    using assms False by (simp add: nth_list_update eq_nat_nat_iff)
  ultimately show ?thesis by simp
qed

section \<open>Partition\<close>

lemma scan_down_spec:
  assumes "0 \<le> low" "low \<le> high" "high < int (length a)"
  shows "\<exists>h. scan_down keep a low high = Some h \<and> low \<le> h \<and> h \<le> high \<and>
    all_range keep a (h + 1) high \<and> (low < h \<longrightarrow> \<not> keep (elt a h)) \<and>
    (low < high \<longrightarrow> keep (elt a high) \<longrightarrow> h < high)"
  using assms
proof (induction keep a low high rule: scan_down.induct)
  case (1 keep a low high)
  show ?case
  proof (cases "low < high \<and> keep (elt a high)")
    case False
    then show ?thesis
      using "1.prems" by (subst scan_down.simps) (auto simp: aread_in all_range_def)
  next
    case True
    then have rd: "aread a high = Some (elt a high)" using "1.prems" by (simp add: aread_in)
    obtain h where h: "scan_down keep a low (high - 1) = Some h" "low \<le> h" "h \<le> high - 1"
        "all_range keep a (h + 1) (high - 1)" "low < h \<longrightarrow> \<not> keep (elt a h)"
      using "1.IH" [OF _ rd] True "1.prems" by auto
    have "all_range keep a (h + 1) high"
      unfolding all_range_def
    proof (intro allI impI)
      fix k assume "h + 1 \<le> k" "k \<le> high"
      then show "keep (elt a k)" using all_rangeD [OF h(4), of k] True by (cases "k = high") auto
    qed
    with h rd True show ?thesis by (subst scan_down.simps) auto
  qed
qed

lemma scan_up_spec:
  assumes "0 \<le> low" "low \<le> high" "high < int (length a)"
  shows "\<exists>l. scan_up keep a low high = Some l \<and> low \<le> l \<and> l \<le> high \<and>
    all_range keep a low (l - 1) \<and> (l < high \<longrightarrow> \<not> keep (elt a l)) \<and>
    (low < high \<longrightarrow> keep (elt a low) \<longrightarrow> low < l)"
  using assms
proof (induction keep a low high rule: scan_up.induct)
  case (1 keep a low high)
  show ?case
  proof (cases "low < high \<and> keep (elt a low)")
    case False
    then show ?thesis
      using "1.prems" by (subst scan_up.simps) (auto simp: aread_in all_range_def)
  next
    case True
    then have rd: "aread a low = Some (elt a low)" using "1.prems" by (simp add: aread_in)
    obtain l where l: "scan_up keep a (low + 1) high = Some l" "low + 1 \<le> l" "l \<le> high"
        "all_range keep a (low + 1) (l - 1)" "l < high \<longrightarrow> \<not> keep (elt a l)"
      using "1.IH" [OF _ rd] True "1.prems" by auto
    have "all_range keep a low (l - 1)"
      unfolding all_range_def
    proof (intro allI impI)
      fix k assume "low \<le> k" "k \<le> l - 1"
      then show "keep (elt a k)" using all_rangeD [OF l(4), of k] True by (cases "k = low") auto
    qed
    with l rd True show ?thesis by (subst scan_up.simps) auto
  qed
qed

text \<open>
  The loop keeps the pivot \<open>p\<close> out of the array: the element at \<open>low\<close> is a hole, and the
  array with \<open>p\<close> in the hole is a permutation throughout.
\<close>

definition parted :: "int \<Rightarrow> int list \<Rightarrow> int \<Rightarrow> int \<Rightarrow> int \<Rightarrow> bool" where
  "parted p b low pos high \<longleftrightarrow> low \<le> pos \<and> pos \<le> high \<and>
     all_range (\<lambda>x. x \<le> p) b low (pos - 1) \<and> all_range (\<lambda>x. p \<le> x) b (pos + 1) high"

lemma parted_widen:
  assumes "parted p b l pos h" "low \<le> l" "h \<le> high"
    and "all_range (\<lambda>x. x \<le> p) b low (l - 1)" "all_range (\<lambda>x. p \<le> x) b (h + 1) high"
  shows "parted p b low pos high"
  unfolding parted_def
proof (intro conjI)
  show "low \<le> pos" "pos \<le> high" using assms by (auto simp: parted_def)
  show "all_range (\<lambda>x. x \<le> p) b low (pos - 1)"
    unfolding all_range_def
  proof (intro allI impI)
    fix k assume "low \<le> k" "k \<le> pos - 1"
    then show "elt b k \<le> p"
      using all_rangeD [OF assms(4), of k] assms(1) by (cases "k < l") (auto simp: parted_def all_range_def)
  qed
  show "all_range (\<lambda>x. p \<le> x) b (pos + 1) high"
    unfolding all_range_def
  proof (intro allI impI)
    fix k assume "pos + 1 \<le> k" "k \<le> high"
    then show "p \<le> elt b k"
      using all_rangeD [OF assms(5), of k] assms(1) by (cases "h < k") (auto simp: parted_def all_range_def)
  qed
qed

lemma all_range_eq:
  "all_range P a l r \<Longrightarrow> (\<And>k. l \<le> k \<Longrightarrow> k \<le> r \<Longrightarrow> elt b k = elt a k) \<Longrightarrow> all_range P b l r"
  by (simp add: all_range_def)

lemma partition_loop_spec:
  assumes "0 \<le> low" "low \<le> high" "high < int (length a)"
    and kr: "\<And>x. keepr x \<longleftrightarrow> p \<le> x" and kl: "\<And>x. keepl x \<longleftrightarrow> x \<le> p"
  shows "\<exists>b pos. partition_loop keepr keepl a low high = Some (b, pos) \<and> parted p b low pos high \<and>
    range_perm low high (a[nat low := p]) (b[nat pos := p]) \<and>
    (\<forall>k. 0 \<le> k \<longrightarrow> k < int (length a) \<longrightarrow> k < low \<or> high < k \<longrightarrow> elt b k = elt a k) \<and>
    length b = length a \<and> (low < high \<longrightarrow> p \<le> elt a high \<longrightarrow> pos < high)"
  using assms(1-3)
proof (induction "nat (high - low)" arbitrary: a low high rule: less_induct)
  case less
  show ?case
  proof (cases "low < high")
    case False
    then show ?thesis
      using less.prems by (subst partition_loop.simps) (auto simp: parted_def all_range_def)
  next
    case True
    obtain h where h: "scan_down keepr a low high = Some h" "low \<le> h" "h \<le> high"
        "all_range keepr a (h + 1) high" "low < h \<longrightarrow> \<not> keepr (elt a h)"
        "keepr (elt a high) \<longrightarrow> h < high"
      using scan_down_spec [of low high a keepr] less.prems True by auto
    let ?a1 = "a[nat low := elt a h]"
    have a1: "elt ?a1 k = (if k = low then elt a h else elt a k)" if "0 \<le> k" for k
      using elt_upd [of low a k] that less.prems by simp
    obtain l where l: "scan_up keepl ?a1 low h = Some l" "low \<le> l" "l \<le> h"
        "all_range keepl ?a1 low (l - 1)" "l < h \<longrightarrow> \<not> keepl (elt ?a1 l)"
        "low < h \<longrightarrow> keepl (elt ?a1 low) \<longrightarrow> low < l"
      using scan_up_spec [of low h ?a1 keepl] less.prems h by auto
    let ?a2 = "?a1[nat h := elt ?a1 l]"
    have a2: "elt ?a2 k = (if k = h then elt ?a1 l else elt ?a1 k)" if "0 \<le> k" for k
      using elt_upd [of h ?a1 k] that less.prems h by simp
    have acc: "aread a h = Some (elt a h)" "awrite a low (elt a h) = Some ?a1"
        "aread ?a1 l = Some (elt ?a1 l)" "awrite ?a1 h (elt ?a1 l) = Some ?a2"
      using less.prems h l True by (simp_all add: aread_in awrite_in)
    have dec: "nat (h - l) < nat (high - low)"
    proof (cases "h = high")
      case True
      then have "\<not> keepr (elt a h)" using h(6) by auto
      then have "keepl (elt ?a1 low)" using a1 [of low] less.prems kr kl by simp
      then have "low < l" using l(6) True \<open>low < high\<close> by simp
      then show ?thesis using True l \<open>low < high\<close> by simp
    qed (use h l True in auto)
    have "0 \<le> l" "l \<le> h" "h < int (length ?a2)" using less.prems h l by auto
    note ih = less.hyps [OF dec this]
    obtain b pos where b: "partition_loop keepr keepl ?a2 l h = Some (b, pos)" "parted p b l pos h"
        "range_perm l h (?a2[nat l := p]) (b[nat pos := p])" "length b = length ?a2"
        "\<And>k. 0 \<le> k \<Longrightarrow> k < int (length ?a2) \<Longrightarrow> k < l \<or> h < k \<Longrightarrow> elt b k = elt ?a2 k"
      using ih by blast
    have out: "elt b k = elt ?a1 k" if "low \<le> k" "k < l" for k
      using b(5) [of k] a2 [of k] that less.prems h l by auto
    have out': "elt b k = elt a k" if "h < k" "k \<le> high" for k
      using b(5) [of k] a2 [of k] a1 [of k] that less.prems h l by auto
    have R1: "parted p b low pos high"
    proof (rule parted_widen [OF b(2) l(2) h(3)])
      show "all_range (\<lambda>x. x \<le> p) b low (l - 1)"
        using l(4) kl out by (auto simp: all_range_def)
      show "all_range (\<lambda>x. p \<le> x) b (h + 1) high"
        using h(4) kr out' by (auto simp: all_range_def)
    qed
    have R2: "range_perm low high (a[nat low := p]) (b[nat pos := p])"
    proof -
      have "range_perm low high (a[nat low := p]) (?a1[nat h := p])"
        using less.prems h True by (intro hole_move) auto
      moreover have "range_perm low high (?a1[nat h := p]) (?a2[nat l := p])"
        using less.prems h l True by (intro hole_move) auto
      ultimately have "range_perm low high (a[nat low := p]) (?a2[nat l := p])"
        by (rule range_perm_trans)
      then show ?thesis
        by (rule range_perm_trans) (rule range_perm_mono [OF b(3) l(2) h(3)])
    qed
    have R3: "elt b k = elt a k"
      if "0 \<le> k" "k < int (length a)" "k < low \<or> high < k" for k
    proof -
      have "k \<noteq> h" "k \<noteq> low" "k < l \<or> h < k" using that h(2,3) l(2,3) by auto
      then have "elt b k = elt ?a2 k" using that by (intro b(5)) simp_all
      also have "\<dots> = elt a k"
        using a1 [OF that(1)] a2 [OF that(1)] \<open>k \<noteq> h\<close> \<open>k \<noteq> low\<close> by simp
      finally show ?thesis .
    qed
    have R4: "pos < high" if "p \<le> elt a high"
      using b(2) h(6) kr that by (auto simp: parted_def)
    have R5: "partition_loop keepr keepl a low high = Some (b, pos)"
      using True h(1) l(1) acc b(1) by (subst partition_loop.simps) simp
    from b(4) have R6: "length b = length a" by simp
    show ?thesis
      using R1 R2 R3 R4 R5 R6 by blast
  qed
qed

lemma partition_with_spec:
  assumes "0 \<le> low" "low < high" "high < int (length a)"
    and kr: "\<And>x p. keepr x p \<longleftrightarrow> p \<le> x" and kl: "\<And>x p. keepl x p \<longleftrightarrow> x \<le> p"
  shows "\<exists>b pos. partition_with keepr keepl a low high = Some (b, pos) \<and>
    parted (elt a low) b low pos high \<and> elt b pos = elt a low \<and> range_perm low high a b \<and>
    (elt a low \<le> elt a high \<longrightarrow> pos < high)"
proof -
  let ?p = "elt a low"
  obtain b pos where b: "partition_loop (\<lambda>x. keepr x ?p) (\<lambda>x. keepl x ?p) a low high = Some (b, pos)"
      "parted ?p b low pos high" "range_perm low high (a[nat low := ?p]) (b[nat pos := ?p])"
      "length b = length a" "?p \<le> elt a high \<longrightarrow> pos < high"
    using partition_loop_spec [of low high a "\<lambda>x. keepr x ?p" ?p "\<lambda>x. keepl x ?p"] assms by auto
  let ?c = "b[nat pos := ?p]"
  have pos: "low \<le> pos" "pos \<le> high" using b(2) by (auto simp: parted_def)
  then have wr: "awrite b pos ?p = Some ?c" using assms b(4) by (simp add: awrite_in)
  have c: "elt ?c k = (if k = pos then ?p else elt b k)" if "0 \<le> k" for k
    using elt_upd [of pos b k] that pos assms b(4) by simp
  have "parted ?p ?c low pos high"
    using b(2) c assms(1) by (auto simp: parted_def all_range_def)
  moreover have "elt ?c pos = ?p" using c [of pos] pos assms(1) by simp
  moreover have "aread a low = Some ?p" using assms by (simp add: aread_in)
  ultimately show ?thesis
    using b wr by (auto simp: partition_with_def)
qed

section \<open>Quicksort\<close>

definition qs_measure :: "int list \<Rightarrow> int \<Rightarrow> int \<Rightarrow> nat" where
  "qs_measure a low high = 2 * nat (high - low) + (if elt a high < elt a low then 1 else 0)"

lemma sorted_range_parted:
  assumes "parted p b low pos high" "elt b pos = p" "0 \<le> low" "high < int (length b)"
    and c: "range_perm low pos b c" "sorted_range c low pos"
    and d: "range_perm (pos + 1) high c d" "sorted_range d (pos + 1) high"
  shows "sorted_range d low high"
proof -
  have len: "length c = length b" "length d = length c"
    using c(1) d(1) by (auto dest: range_perm_length)
  have pos: "low \<le> pos" "pos \<le> high" using assms(1) by (auto simp: parted_def)
  have "all_range (\<lambda>x. x \<le> p) b low pos"
    unfolding all_range_def
  proof (intro allI impI)
    fix k assume "low \<le> k" "k \<le> pos"
    then show "elt b k \<le> p"
      using assms(1,2) by (cases "k = pos") (auto simp: parted_def all_range_def)
  qed
  then have "all_range (\<lambda>x. x \<le> p) c low pos"
    using assms(3,4) pos by (intro range_perm_all [OF c(1)]) auto
  then have lo: "all_range (\<lambda>x. x \<le> p) d low pos"
    using assms(3,4) pos len
    by (elim all_range_eq) (auto intro!: range_perm_outside [OF d(1)])
  have "all_range (\<lambda>x. p \<le> x) b (pos + 1) high" using assms(1) by (simp add: parted_def)
  then have "all_range (\<lambda>x. p \<le> x) c (pos + 1) high"
    using assms(3,4) pos by (elim all_range_eq) (auto intro!: range_perm_outside [OF c(1)])
  then have hi: "all_range (\<lambda>x. p \<le> x) d (pos + 1) high"
    using assms(3,4) pos len by (intro range_perm_all [OF d(1)]) auto
  have "sorted_range d low pos"
    using assms(3,4) pos len by (intro sorted_range_outside [OF c(2) d(1)]) auto
  then show ?thesis using d(2) lo hi by (rule sorted_range_join)
qed

text \<open>The three quicksorts are one recursion over the partition each of them uses.\<close>

locale quicksorter =
  fixes qsort :: "int list \<Rightarrow> int \<Rightarrow> int \<Rightarrow> int list option"
    and part :: "int list \<Rightarrow> int \<Rightarrow> int \<Rightarrow> (int list \<times> int) option"
  assumes qsort_rec: "qsort a low high = (if low < high then do {
      (a, pos) \<leftarrow> part a low high;
      a \<leftarrow> qsort a low pos;
      qsort a (pos + 1) high
    } else Some a)"
  assumes parts: "0 \<le> low \<Longrightarrow> low < high \<Longrightarrow> high < int (length a) \<Longrightarrow>
    \<exists>b pos. part a low high = Some (b, pos) \<and> parted (elt a low) b low pos high \<and>
      elt b pos = elt a low \<and> range_perm low high a b \<and> (elt a low \<le> elt a high \<longrightarrow> pos < high)"
begin

lemma qsort_spec:
  assumes "0 \<le> low" "high < int (length a)"
  shows "\<exists>b. qsort a low high = Some b \<and> range_perm low high a b \<and> sorted_range b low high"
  using assms
proof (induction "qs_measure a low high" arbitrary: a low high rule: less_induct)
  case less
  show ?case
  proof (cases "low < high")
    case False
    then show ?thesis by (subst qsort_rec) simp
  next
    case True
    obtain b pos where b: "part a low high = Some (b, pos)" "parted (elt a low) b low pos high"
        "elt b pos = elt a low" "range_perm low high a b" "elt a low \<le> elt a high \<longrightarrow> pos < high"
      using parts [OF less.prems(1) True less.prems(2)] by blast
    have pos: "low \<le> pos" "pos \<le> high" using b(2) by (auto simp: parted_def)
    have lenb: "length b = length a" using b(4) by (rule range_perm_length)
    have "qs_measure b low pos < qs_measure a low high"
    proof (cases "pos = high")
      case True
      then have "elt b low \<le> elt b high"
        using b(2,3) \<open>low < high\<close> by (auto simp: parted_def all_range_def)
      moreover have "elt a high < elt a low" using True b(5) by auto
      ultimately show ?thesis using True by (simp add: qs_measure_def)
    next
      case False
      then have "nat (pos - low) + 1 \<le> nat (high - low)" using pos by simp
      then show ?thesis unfolding qs_measure_def by (auto split: if_splits)
    qed
    then obtain c where c: "qsort b low pos = Some c" "range_perm low pos b c" "sorted_range c low pos"
      using less.hyps [of b low pos] less.prems pos lenb by auto
    have lenc: "length c = length b" using c(2) by (rule range_perm_length)
    have "qs_measure c (pos + 1) high < qs_measure a low high"
      using pos True by (auto simp: qs_measure_def)
    then obtain d where d: "qsort c (pos + 1) high = Some d" "range_perm (pos + 1) high c d"
        "sorted_range d (pos + 1) high"
      using less.hyps [of c "pos + 1" high] less.prems pos lenb lenc by auto
    have "sorted_range d low high"
      using less.prems lenb by (intro sorted_range_parted [OF b(2,3) _ _ c(2,3) d(2,3)]) auto
    moreover have "range_perm low high a d"
      using pos by (intro range_perm_chain [OF range_perm_trans [OF b(4) range_perm_mono [OF c(2)]] d(2)]) auto
    ultimately show ?thesis using True b(1) c(1) d(1) by (subst qsort_rec) simp
  qed
qed

end

sublocale quicksorter \<subseteq> sorter qsort "\<lambda>_ _. True"
  by unfold_locales (auto intro: qsort_spec)

interpretation quick: quicksorter quick_sort partition_c
  by unfold_locales
    (subst quick_sort.simps, rule refl, auto simp: partition_c_def intro!: partition_with_spec)

interpretation quick_m: quicksorter qm_quick_sort qm_partition
  by unfold_locales
    (subst qm_quick_sort.simps, rule refl, auto simp: qm_partition_def intro!: partition_with_spec)

interpretation quick_sm: quicksorter qsm_quick_sort qsm_partition
  by unfold_locales
    (subst qsm_quick_sort.simps, rule refl, auto simp: qsm_partition_def intro!: partition_with_spec)

section \<open>Insertion sort\<close>

text \<open>
  \<open>insert_sort\<close> shifts down to index 0, so only a call with \<open>low = 0\<close> keeps to its range. The
  loop holds \<open>t\<close> out of the array; the hole it opens is at \<open>j + 1\<close>.
\<close>

lemma shift_up_spec:
  assumes "j < i" "i < int (length a)" "-1 \<le> j"
    and "\<And>p q. 0 \<le> p \<Longrightarrow> p \<le> q \<Longrightarrow> q \<le> i \<Longrightarrow> p \<noteq> j + 1 \<Longrightarrow> q \<noteq> j + 1 \<Longrightarrow> elt a p \<le> elt a q"
    and "\<And>q. j + 1 < q \<Longrightarrow> q \<le> i \<Longrightarrow> t \<le> elt a q"
  shows "\<exists>b j'. shift_up a t j = Some (b, j') \<and> -1 \<le> j' \<and> j' \<le> j \<and>
    range_perm 0 i (a[nat (j + 1) := t]) (b[nat (j' + 1) := t]) \<and>
    sorted_range (b[nat (j' + 1) := t]) 0 i"
  using assms
proof (induction a t j rule: shift_up.induct)
  case (1 a t j)
  show ?case
  proof (cases "0 \<le> j \<and> t < elt a j")
    case True
    then have rd: "aread a j = Some (elt a j)" using "1.prems" by (simp add: aread_in)
    let ?c = "a[nat (j + 1) := elt a j]"
    have wr: "awrite a (j + 1) (elt a j) = Some ?c" using True "1.prems" by (simp add: awrite_in)
    have c: "elt ?c k = (if k = j + 1 then elt a j else elt a k)" if "0 \<le> k" for k
      using elt_upd [of "j + 1" a k] that True "1.prems" by simp
    have so: "elt ?c p \<le> elt ?c q" if "0 \<le> p" "p \<le> q" "q \<le> i" "p \<noteq> j - 1 + 1" "q \<noteq> j - 1 + 1" for p q
      using that c [of p] c [of q] True "1.prems"(4) [of p q] "1.prems"(4) [of j q] "1.prems"(4) [of p j]
        "1.prems"(1)
      by (auto split: if_splits)
    have up: "t \<le> elt ?c q" if "j - 1 + 1 < q" "q \<le> i" for q
      using that c [of q] True "1.prems"(5) [of q] by (auto split: if_splits)
    have "\<exists>b j'. shift_up ?c t (j - 1) = Some (b, j') \<and> -1 \<le> j' \<and> j' \<le> j - 1 \<and>
        range_perm 0 i (?c[nat (j - 1 + 1) := t]) (b[nat (j' + 1) := t]) \<and>
        sorted_range (b[nat (j' + 1) := t]) 0 i"
      by (rule "1.IH" [OF _ rd _ wr]) (use True "1.prems"(1-3) so up in auto)
    then obtain b j' where b: "shift_up ?c t (j - 1) = Some (b, j')" "-1 \<le> j'" "j' \<le> j - 1"
        "range_perm 0 i (?c[nat j := t]) (b[nat (j' + 1) := t])"
        "sorted_range (b[nat (j' + 1) := t]) 0 i" by auto
    have "range_perm 0 i (a[nat (j + 1) := t]) (?c[nat j := t])"
      using True "1.prems"(1-3) by (intro hole_move) auto
    then have "range_perm 0 i (a[nat (j + 1) := t]) (b[nat (j' + 1) := t])"
      using b(4) by (rule range_perm_trans)
    with b rd wr True show ?thesis by (subst shift_up.simps) auto
  next
    case False
    let ?b = "a[nat (j + 1) := t]"
    have c: "elt ?b k = (if k = j + 1 then t else elt a k)" if "0 \<le> k" for k
      using elt_upd [of "j + 1" a k] that "1.prems"(1-3) by simp
    have j: "shift_up a t j = Some (a, j)"
      using False "1.prems"(1-3) by (subst shift_up.simps) (auto simp: aread_in)
    have le: "elt a p \<le> t" if "0 \<le> p" "p < j + 1" for p
      using "1.prems"(4) [of p j] False that "1.prems"(1) by auto
    have "elt ?b p \<le> elt ?b q" if "0 \<le> p" "p \<le> q" "q \<le> i" for p q
      using that c [of p] c [of q] le [of p] "1.prems"(5) [of q] "1.prems"(4) [of p q] by auto
    then have "sorted_range ?b 0 i" by (simp add: sorted_range_def)
    with j "1.prems"(3) show ?thesis by auto
  qed
qed

lemma insert_from_spec:
  assumes "0 < i" "high < int (length a)" "sorted_range a 0 (i - 1)"
  shows "\<exists>b. insert_from a high i = Some b \<and> range_perm 0 high a b \<and> sorted_range b 0 high"
  using assms
proof (induction a high i rule: insert_from.induct)
  case (1 a high i)
  show ?case
  proof (cases "i \<le> high")
    case False
    with "1.prems"(3) have "sorted_range a 0 high" by (auto simp: sorted_range_def)
    with False show ?thesis by (subst insert_from.simps) simp
  next
    case True
    then have rd: "aread a i = Some (elt a i)" using "1.prems" by (simp add: aread_in)
    have le: "elt a p \<le> elt a q" if "0 \<le> p" "p \<le> q" "q \<le> i" "p \<noteq> i" "q \<noteq> i" for p q
      using that sorted_rangeD [OF "1.prems"(3), of p q] by simp
    obtain b j where b: "shift_up a (elt a i) (i - 1) = Some (b, j)" "-1 \<le> j" "j \<le> i - 1"
        "range_perm 0 i a (b[nat (j + 1) := elt a i])" "sorted_range (b[nat (j + 1) := elt a i]) 0 i"
      using shift_up_spec [of "i - 1" i a "elt a i"] le "1.prems" True by auto
    let ?b = "b[nat (j + 1) := elt a i]"
    have len: "length ?b = length a" using b(4) by (rule range_perm_length)
    then have wr: "awrite b (j + 1) (elt a i) = Some ?b"
      using b(2,3) "1.prems" True by (simp add: awrite_in)
    obtain c where c: "insert_from ?b high (i + 1) = Some c" "range_perm 0 high ?b c" "sorted_range c 0 high"
      using "1.IH" [OF True rd b(1) _ wr] b(5) len "1.prems" by auto
    have "range_perm 0 high a c" using True by (intro range_perm_chain [OF b(4) c(2)]) auto
    with c rd b(1) wr True show ?thesis by (subst insert_from.simps) simp
  qed
qed

interpretation insertion: sorter insert_sort "\<lambda>low high. low = 0"
  by unfold_locales (auto simp: insert_sort_def intro: insert_from_spec)

end
