(* ===== verification/Merge_Sort_Correct.thy ===== *)
theory Merge_Sort_Correct
  imports Array_Sort_Correct
begin

text \<open>
  Correctness of the two array merge sorts. The scratch buffer \<open>temp[1000]\<close> is indexed by the
  array's own indices, so the sorts are right on ranges below index 1000 and leave the buffer
  on every other one; both halves of that are proved.
\<close>

section \<open>Ranges as lists\<close>

definition slice :: "int list \<Rightarrow> int \<Rightarrow> int \<Rightarrow> int list" where
  "slice a l r = map (elt a) [l..r]"

definition put_slice :: "int list \<Rightarrow> int \<Rightarrow> int list \<Rightarrow> int \<Rightarrow> int list" where
  "put_slice a l xs r = take (nat l) a @ xs @ drop (nat (r + 1)) a"

lemma length_slice [simp]: "length (slice a l r) = nat (r + 1 - l)"
  by (simp add: slice_def)

lemma slice_step: "l \<le> r \<Longrightarrow> slice a l r = elt a l # slice a (l + 1) r"
  by (simp add: slice_def upto_rec1)

lemma slice_empty [simp]: "r < l \<Longrightarrow> slice a l r = []"
  by (simp add: slice_def)

lemma nth_slice: "k < nat (r + 1 - l) \<Longrightarrow> slice a l r ! k = elt a (l + int k)"
proof -
  assume k: "k < nat (r + 1 - l)"
  then have "l + int k \<le> r" by linarith
  with k show ?thesis by (subst slice_def, subst nth_map) (simp_all add: nth_upto)
qed

lemma put_slice_self:
  assumes "0 \<le> l" "l \<le> r + 1" "r < int (length a)"
  shows "put_slice a l (slice a l r) r = a"
proof -
  have "slice a l r = take (nat (r + 1 - l)) (drop (nat l) a)"
    using assms by (intro nth_equalityI) (auto simp: nth_slice nat_add_distrib)
  moreover have "drop (nat (r + 1)) a = drop (nat (r + 1 - l)) (drop (nat l) a)"
    using assms by (simp add: nat_add_distrib [symmetric])
  ultimately show ?thesis by (simp add: put_slice_def del: drop_drop)
qed

lemma nth_put_slice:
  assumes "0 \<le> l" "l \<le> r + 1" "r < int (length a)" "length xs = nat (r + 1 - l)" "k < length a"
  shows "put_slice a l xs r ! k =
    (if int k < l then a ! k else if int k \<le> r then xs ! (k - nat l) else a ! k)"
proof -
  have "nat (r + 1) = nat l + length xs" using assms by (simp add: nat_add_distrib [symmetric])
  moreover have "nat l \<le> length a" using assms by simp
  moreover have "int k \<le> r" if "k - nat l < nat (r + 1 - l)" using that assms by linarith
  moreover have "nat l + nat (r + 1 - l) \<le> length a" using assms by linarith
  moreover have "nat l + nat (r + 1 - l) \<le> k" if "\<not> int k \<le> r"
    using that assms by linarith
  ultimately show ?thesis using assms by (auto simp: put_slice_def nth_append)
qed

lemma put_slice_range_perm:
  assumes "0 \<le> l" "l \<le> r + 1" "r < int (length a)" "mset xs = mset (slice a l r)"
  shows "range_perm l r a (put_slice a l xs r)"
  unfolding range_perm_def
proof (intro conjI allI impI)
  have "mset (put_slice a l xs r) = mset (put_slice a l (slice a l r) r)"
    using assms(4) by (simp add: put_slice_def)
  then show "mset (put_slice a l xs r) = mset a" using put_slice_self [OF assms(1-3)] by simp
  fix k assume "int k < l \<or> r < int k" "k < length a"
  moreover have "length xs = nat (r + 1 - l)" using mset_eq_length [OF assms(4)] by simp
  ultimately show "put_slice a l xs r ! k = a ! k" using nth_put_slice [OF assms(1-3)] by auto
qed

lemma put_slice_sorted:
  assumes "0 \<le> l" "l \<le> r + 1" "r < int (length a)" "length xs = nat (r + 1 - l)" "sorted xs"
  shows "sorted_range (put_slice a l xs r) l r"
  unfolding sorted_range_def
proof (intro allI impI)
  fix i j assume ij: "l \<le> i" "i \<le> j" "j \<le> r"
  then have "xs ! (nat i - nat l) \<le> xs ! (nat j - nat l)"
    using assms by (intro sorted_nth_mono) auto
  then show "elt (put_slice a l xs r) i \<le> elt (put_slice a l xs r) j"
    using ij assms nth_put_slice [OF assms(1-4), of "nat i"] nth_put_slice [OF assms(1-4), of "nat j"]
    by simp
qed

lemma sorted_slice:
  assumes "0 \<le> l" "sorted_range a l r"
  shows "sorted (slice a l r)"
  unfolding sorted_iff_nth_mono
proof (intro allI impI)
  fix i j assume "i \<le> j" "j < length (slice a l r)"
  then show "slice a l r ! i \<le> slice a l r ! j"
    by (auto simp: nth_slice intro!: sorted_rangeD [OF assms(2)])
qed

text \<open>The merge as a function of lists; on a tie it takes from the second.\<close>

fun lmerge :: "int list \<Rightarrow> int list \<Rightarrow> int list" where
  "lmerge [] ys = ys"
| "lmerge xs [] = xs"
| "lmerge (x # xs) (y # ys) = (if x < y then x # lmerge xs (y # ys) else y # lmerge (x # xs) ys)"

lemma lmerge_nil2 [simp]: "lmerge xs [] = xs"
  by (cases xs) simp_all

lemma mset_lmerge [simp]: "mset (lmerge xs ys) = mset xs + mset ys"
  by (induction xs ys rule: lmerge.induct) simp_all

lemma length_lmerge [simp]: "length (lmerge xs ys) = length xs + length ys"
  by (induction xs ys rule: lmerge.induct) simp_all

lemma set_lmerge [simp]: "set (lmerge xs ys) = set xs \<union> set ys"
  by (metis mset_lmerge set_mset_mset set_mset_union)

lemma sorted_lmerge: "sorted xs \<Longrightarrow> sorted ys \<Longrightarrow> sorted (lmerge xs ys)"
  by (induction xs ys rule: lmerge.induct) fastforce+

section \<open>The scratch buffer\<close>

lemma copy_out_spec:
  assumes "0 \<le> i" "fin < int (length a)" "fin < int (length temp)"
  shows "\<exists>t. copy_out a temp i fin = Some t \<and> length t = length temp \<and>
    (\<forall>k. 0 \<le> k \<longrightarrow> k < int (length temp) \<longrightarrow>
      t ! nat k = (if i \<le> k \<and> k \<le> fin then Some (elt a k) else temp ! nat k))"
  using assms
proof (induction a temp i fin rule: copy_out.induct)
  case (1 a temp i fin)
  show ?case
  proof (cases "i \<le> fin")
    case False
    then show ?thesis by (subst copy_out.simps) auto
  next
    case True
    let ?u = "temp[nat i := Some (elt a i)]"
    have rd: "aread a i = Some (elt a i)" "awrite temp i (Some (elt a i)) = Some ?u"
      using True "1.prems" by (simp_all add: aread_in awrite_in)
    obtain t where t: "copy_out a ?u (i + 1) fin = Some t" "length t = length temp"
        "\<And>k. 0 \<le> k \<Longrightarrow> k < int (length temp) \<Longrightarrow>
          t ! nat k = (if i + 1 \<le> k \<and> k \<le> fin then Some (elt a k) else ?u ! nat k)"
      using "1.IH" [OF True rd] "1.prems" by auto
    have "t ! nat k = (if i \<le> k \<and> k \<le> fin then Some (elt a k) else temp ! nat k)"
      if "0 \<le> k" "k < int (length temp)" for k
      using t(3) [OF that] that True "1.prems" by (cases "k = i") (auto simp: nth_list_update eq_nat_nat_iff)
    with t rd True show ?thesis by (subst copy_out.simps) auto
  qed
qed

lemma copy_out_overflow:
  assumes "i \<le> fin" "int (length temp) \<le> fin"
  shows "copy_out a temp i fin = None"
  using assms
proof (induction a temp i fin rule: copy_out.induct)
  case (1 a temp i fin)
  have IH: "copy_out a u (i + 1) fin = None"
    if "aread a i = Some x" "awrite temp i (Some x) = Some u" for x u
    using "1.IH" [OF "1.prems"(1) that] awrite_SomeD [OF that(2)] "1.prems" by auto
  show ?case
  proof (cases "aread a i")
    case None
    then show ?thesis using "1.prems" by (subst copy_out.simps) simp
  next
    case (Some x)
    then show ?thesis
      using "1.prems" IH by (cases "awrite temp i (Some x)"; subst copy_out.simps) auto
  qed
qed

lemma copy_out_length: "copy_out a temp i fin = Some u \<Longrightarrow> length u = length temp"
proof (induction a temp i fin arbitrary: u rule: copy_out.induct)
  case (1 a temp i fin)
  show ?case
  proof (cases "i \<le> fin")
    case False
    with "1.prems" show ?thesis by (subst (asm) copy_out.simps) simp
  next
    case True
    with "1.prems" obtain x t where "aread a i = Some x" "awrite temp i (Some x) = Some t"
        "copy_out a t (i + 1) fin = Some u"
      by (subst (asm) copy_out.simps) (auto simp: bind_eq_Some_conv)
    then show ?thesis using "1.IH" True by (auto dest!: awrite_SomeD)
  qed
qed

lemma scratch_filled:
  assumes "0 \<le> l" "m < r" "r < 1000" "r < int (length a)" "l \<le> m"
  shows "\<exists>t. do { temp \<leftarrow> copy_out a (replicate 1000 None) l m; copy_out a temp (m + 1) r } = Some t \<and>
    length t = 1000 \<and> (\<forall>k. l \<le> k \<longrightarrow> k \<le> r \<longrightarrow> tread t k = Some (elt a k))"
proof -
  obtain t where t: "copy_out a (replicate 1000 None) l m = Some t" "length t = 1000"
      "\<And>k. 0 \<le> k \<Longrightarrow> k < 1000 \<Longrightarrow> l \<le> k \<Longrightarrow> k \<le> m \<Longrightarrow> t ! nat k = Some (elt a k)"
    using copy_out_spec [of l m a "replicate 1000 None"] assms by auto
  obtain u where u: "copy_out a t (m + 1) r = Some u" "length u = 1000"
      "\<And>k. 0 \<le> k \<Longrightarrow> k < 1000 \<Longrightarrow>
        u ! nat k = (if m + 1 \<le> k \<and> k \<le> r then Some (elt a k) else t ! nat k)"
    using copy_out_spec [of "m + 1" r a t] t(2) assms by auto
  have "tread u k = Some (elt a k)" if "l \<le> k" "k \<le> r" for k
    using that assms u(2) u(3) [of k] t(3) [of k] by (simp add: tread_def aread_in)
  with t(1) u show ?thesis by auto
qed

section \<open>Merging back\<close>

lemma put_slice_cons:
  assumes "0 \<le> k" "k \<le> r" "r < int (length a)"
  shows "put_slice (a[nat k := x]) (k + 1) xs r = put_slice a k (x # xs) r"
proof -
  have "take (nat (k + 1)) (a[nat k := x]) = take (nat k) a @ [x]"
    using assms by (simp add: nat_add_distrib take_Suc_conv_app_nth)
  then show ?thesis using assms by (simp add: put_slice_def)
qed

lemma merger_back_spec:
  assumes "0 \<le> k" "k + (mid + 1 - i) + (high + 1 - j) = high + 1" "i \<le> mid + 1" "j \<le> high + 1"
    and "high < int (length a)"
    and "\<And>q. i \<le> q \<Longrightarrow> q \<le> mid \<Longrightarrow> tread temp q = Some (elt s q)"
    and "\<And>q. j \<le> q \<Longrightarrow> q \<le> high \<Longrightarrow> tread temp q = Some (elt s q)"
  shows "merger_back a temp mid high i j k =
    Some (put_slice a k (lmerge (slice s i mid) (slice s j high)) high)"
  using assms
proof (induction a temp mid high i j k rule: merger_back.induct)
  case (1 a temp mid high i j k)
  note prems = "1.prems"
  have wr: "awrite a k x = Some (a[nat k := x])" if "k \<le> high" for x
    using that prems by (simp add: awrite_in)
  consider (fin) "\<not> k \<le> high" | (right) "k \<le> high" "mid < i" | (left) "k \<le> high" "i \<le> mid" "high < j"
    | (both) "k \<le> high" "i \<le> mid" "j \<le> high" by linarith
  then show ?case
  proof cases
    case fin
    then have "mid < i" "high < j" "k = high + 1" using prems(2-4) by auto
    then show ?thesis
      using fin by (subst merger_back.simps) (simp add: put_slice_def)
  next
    case right
    then have j: "j \<le> high" "i = mid + 1" using prems(2,3) by auto
    have "merger_back (a[nat k := elt s j]) temp mid high i (j + 1) (k + 1) =
        Some (put_slice (a[nat k := elt s j]) (k + 1) (lmerge (slice s i mid) (slice s (j + 1) high)) high)"
      using "1.IH"(1) [of "elt s j" "a[nat k := elt s j]"] right j prems wr by auto
    then show ?thesis
      using right j prems wr put_slice_cons [of k high a]
      by (subst merger_back.simps) (simp add: slice_step [of j high])
  next
    case left
    have "merger_back (a[nat k := elt s i]) temp mid high (i + 1) j (k + 1) =
        Some (put_slice (a[nat k := elt s i]) (k + 1) (lmerge (slice s (i + 1) mid) (slice s j high)) high)"
      using "1.IH"(2) [of "elt s i" "a[nat k := elt s i]"] left prems wr by auto
    then show ?thesis
      using left prems wr put_slice_cons [of k high a]
      by (subst merger_back.simps) (simp add: slice_step [of i mid])
  next
    case both
    let ?x = "elt s i" and ?y = "elt s j"
    have xy: "tread temp i = Some ?x" "tread temp j = Some ?y" using both prems(6,7) by auto
    define z where "z = (if ?x < ?y then ?x else ?y)"
    define i' where "i' = (if ?x < ?y then i + 1 else i)"
    define j' where "j' = (if ?x < ?y then j else j + 1)"
    have "merger_back (a[nat k := z]) temp mid high i' j' (k + 1) =
        Some (put_slice (a[nat k := z]) (k + 1) (lmerge (slice s i' mid) (slice s j' high)) high)"
    proof (rule "1.IH"(3) [OF _ _ _ xy wr [OF both(1)], folded z_def i'_def j'_def])
      show "tread temp q = Some (elt s q)" if "i' \<le> q" "q \<le> mid" for q
        using that prems(6) [of q] by (auto simp: i'_def split: if_splits)
      show "tread temp q = Some (elt s q)" if "j' \<le> q" "q \<le> high" for q
        using that prems(7) [of q] by (auto simp: j'_def split: if_splits)
    qed (use both prems(1-5) in \<open>auto simp: i'_def j'_def\<close>)
    moreover have "lmerge (slice s i mid) (slice s j high) = z # lmerge (slice s i' mid) (slice s j' high)"
      using both by (simp add: slice_step [of i mid] slice_step [of j high] i'_def j'_def z_def)
    ultimately show ?thesis
      using both xy prems wr put_slice_cons [of k high a]
      by (subst merger_back.simps) (simp add: i'_def j'_def z_def)
  qed
qed

text \<open>The two files' merge loops are the same function.\<close>

lemma merge_back_eq: "merge_back a temp mid right i j k = merger_back a temp mid right i j k"
proof (induction a temp mid right i j k rule: merge_back.induct)
  case (1 a temp mid right i j k)
  consider "right < k" | "k \<le> right" "mid < i" | "k \<le> right" "i \<le> mid" "right < j"
    | "k \<le> right" "i \<le> mid" "j \<le> right" by linarith
  then show ?case
  proof cases
    case 4
    then show ?thesis
      by (subst merge_back.simps, subst merger_back.simps)
        (auto simp: 1 bind_eq_Some_conv split: Option.bind_split)
  qed (subst merge_back.simps, subst merger_back.simps,
       auto simp: 1 split: Option.bind_split)+
qed

lemma merge_two_eq: "merge_two = merger_two"
  by (intro ext) (simp add: merge_two_def merger_two_def merge_back_eq)

lemma merger_two_spec:
  assumes "0 \<le> l" "l \<le> m" "m < r" "r < 1000" "r < int (length a)"
    and "sorted_range a l m" "sorted_range a (m + 1) r"
  shows "\<exists>b. merger_two a l m r = Some b \<and> range_perm l r a b \<and> sorted_range b l r"
proof -
  let ?zs = "lmerge (slice a l m) (slice a (m + 1) r)"
  obtain t where t: "do { temp \<leftarrow> copy_out a (replicate 1000 None) l m; copy_out a temp (m + 1) r } = Some t"
      "\<And>k. l \<le> k \<Longrightarrow> k \<le> r \<Longrightarrow> tread t k = Some (elt a k)"
    using scratch_filled [of l m r a] assms by auto
  have "merger_back a t m r l (m + 1) l = Some (put_slice a l ?zs r)"
    using assms t(2) by (intro merger_back_spec) auto
  then have "merger_two a l m r = Some (put_slice a l ?zs r)"
    using t(1) by (auto simp: merger_two_def bind_eq_Some_conv)
  moreover have "slice a l r = slice a l m @ slice a (m + 1) r"
    using assms by (simp add: slice_def flip: map_append upto_split2)
  then have "range_perm l r a (put_slice a l ?zs r)"
    using assms by (intro put_slice_range_perm) auto
  moreover have "sorted ?zs"
    using assms by (intro sorted_lmerge sorted_slice) auto
  then have "sorted_range (put_slice a l ?zs r) l r"
    using assms by (intro put_slice_sorted) auto
  ultimately show ?thesis by blast
qed

lemma merger_two_overflow:
  assumes "m < r" "1000 \<le> r"
  shows "merger_two a l m r = None"
proof -
  have "copy_out a t (m + 1) r = None" if "copy_out a (replicate 1000 None) l m = Some t" for t
  proof -
    have "length t = 1000" using copy_out_length [OF that] by simp
    then show ?thesis using assms by (intro copy_out_overflow) auto
  qed
  then show ?thesis by (auto simp: merger_two_def Option.bind_eq_None_conv)
qed

section \<open>The recursion\<close>

locale mergesorter =
  fixes msort :: "int list \<Rightarrow> int \<Rightarrow> int \<Rightarrow> int list option"
  assumes msort_rec: "msort a low high = (if low < high then do {
      mid \<leftarrow> cdiv (low + high) 2;
      a \<leftarrow> msort a low mid;
      a \<leftarrow> msort a (mid + 1) high;
      merger_two a low mid high
    } else Some a)"
begin

lemma msort_spec:
  assumes "0 \<le> low" "high < int (length a)" "high < 1000"
  shows "\<exists>b. msort a low high = Some b \<and> range_perm low high a b \<and> sorted_range b low high"
  using assms
proof (induction "nat (high - low)" arbitrary: a low high rule: less_induct)
  case less
  show ?case
  proof (cases "low < high")
    case False
    then show ?thesis by (subst msort_rec) simp
  next
    case True
    let ?m = "(low + high) div 2"
    have m: "low \<le> ?m" "?m < high" "cdiv (low + high) 2 = Some ?m"
      using True less.prems by auto
    obtain b where b: "msort a low ?m = Some b" "range_perm low ?m a b" "sorted_range b low ?m"
      using less.hyps [of ?m low a] less.prems m by auto
    have lenb: "length b = length a" using b(2) by (rule range_perm_length)
    obtain c where c: "msort b (?m + 1) high = Some c" "range_perm (?m + 1) high b c"
        "sorted_range c (?m + 1) high"
      using less.hyps [of high "?m + 1" b] less.prems m lenb by auto
    have lenc: "length c = length b" using c(2) by (rule range_perm_length)
    have "sorted_range c low ?m"
      using less.prems m lenb by (intro sorted_range_outside [OF b(3) c(2)]) auto
    then obtain d where d: "merger_two c low ?m high = Some d" "range_perm low high c d" "sorted_range d low high"
      using merger_two_spec [of low ?m high c] less.prems m c(3) lenb lenc by auto
    have "range_perm low high a c" using m by (intro range_perm_chain [OF b(2) c(2)]) auto
    then have "range_perm low high a d" using d(2) by (rule range_perm_trans)
    with d True m b(1) c(1) show ?thesis by (subst msort_rec) simp
  qed
qed

lemma msort_overflow:
  assumes "0 \<le> low" "low < high" "1000 \<le> high"
  shows "msort a low high = None"
  using assms by (subst msort_rec) (simp add: merger_two_overflow Option.bind_eq_None_conv)

end

sublocale mergesorter \<subseteq> sorter msort "\<lambda>low high. high < 1000"
  by unfold_locales (auto intro: msort_spec)

interpretation merge_m: mergesorter merge_sort
  by unfold_locales (subst merge_sort.simps, simp add: merge_two_eq)

interpretation merge_sm: mergesorter merger_sort
  by unfold_locales (subst merger_sort.simps, simp)

end
