(* ===== verification/Sort_Theorems.thy ===== *)
theory Sort_Theorems
  imports Quick_Sort_Correct Merge_Sort_Correct
begin

text \<open>
  What the array sorts of \<open>sort/\<close> guarantee, read off the interpretations of the
  \<open>sorter\<close> contract.
\<close>

text \<open>
  C15. Quicksort on an index range: for every range inside the array, \<open>quick_sort\<close> of
  \<open>quick_sort.c\<close> returns (its recursion includes the pivot position, so this is not
  immediate), makes no access outside the array, only permutes elements within
  \<open>low..high\<close>, and leaves that range in ascending order.
\<close>
theorem quick_sort_range:
  assumes "0 \<le> low" "high < int (length a)"
  shows "\<exists>b. quick_sort a low high = Some b \<and> mset b = mset a \<and> length b = length a \<and>
    (\<forall>k. 0 \<le> k \<longrightarrow> k < int (length a) \<longrightarrow> k < low \<or> high < k \<longrightarrow> b ! nat k = a ! nat k) \<and>
    (\<forall>i j. low \<le> i \<longrightarrow> i \<le> j \<longrightarrow> j \<le> high \<longrightarrow> b ! nat i \<le> b ! nat j)"
proof -
  obtain b where b: "quick_sort a low high = Some b"
    using quick.sorts [OF assms] by blast
  from quick.sorts_range [OF assms TrueI b] b show ?thesis
    unfolding sorted_range_def by blast
qed

theorem quick_sort_range_witness:
  "\<exists>b. quick_sort [9, 3, 2, 1, 0] 1 3 = Some b \<and> b ! 0 = 9 \<and> b ! 1 \<le> b ! 2 \<and> b ! 2 \<le> b ! 3 \<and> b ! 4 = 0"
proof -
  let ?a = "[9, 3, 2, 1, 0] :: int list"
  have "(0::int) \<le> 1" "3 < int (length ?a)" by simp_all
  from quick_sort_range [OF this] obtain b where b: "quick_sort ?a 1 3 = Some b"
      "\<And>k. 0 \<le> k \<Longrightarrow> k < int (length ?a) \<Longrightarrow> k < 1 \<or> 3 < k \<Longrightarrow> b ! nat k = ?a ! nat k"
      "\<And>i j. 1 \<le> i \<Longrightarrow> i \<le> j \<Longrightarrow> j \<le> 3 \<Longrightarrow> b ! nat i \<le> b ! nat j"
    by blast
  from b(2) [of 0] b(2) [of 4] b(3) [of 1 2] b(3) [of 2 3] b(1) show ?thesis by simp
qed

text \<open>
  The quicksort of \<open>quick_sort_merge_sort.c\<close>, called as its driver calls it on a whole
  array of \<open>n\<close> elements, returns the array sorted.
\<close>
theorem quicksort_sorts: "quicksort a (int (length a)) = Some (sort a)"
  unfolding quicksort_def by (rule quick_sm.sorts_whole) simp

text \<open>
  C16. Merge sort: \<open>mergersort a n\<close> sorts every array of at most 1000 elements, and every
  longer one makes it write past the end of its stack buffer \<open>temp[1000]\<close>.
\<close>
theorem mergersort_sorts_or_overflows:
  fixes a :: "int list"
  shows "mergersort a (int (length a)) = (if length a \<le> 1000 then Some (sort a) else None)"
  using merge_sm.sorts_whole [of a] merge_sm.msort_overflow [of 0 "int (length a) - 1" a]
  by (auto simp: mergersort_def)

text \<open>
  The merge sort and the quicksort of \<open>quick_merge_sort.c\<close> compute the same result
  on every array that fits the buffer, and merge sort fails on the others.
\<close>
theorem qm_sorts_agree:
  fixes a :: "int list"
  shows "merge_sort a 0 (int (length a) - 1) =
     (if length a \<le> 1000 then qm_quick_sort a 0 (int (length a) - 1) else None)"
  using merge_m.sorts_whole [of a] merge_m.msort_overflow [of 0 "int (length a) - 1" a]
    quick_m.sorts_whole [of a]
  by auto

text \<open>
  C17. The insertion sort by exchanges (\<open>sort\<close>), the selection sort and the bubble sort of
  \<open>quick_sort.c\<close> sort every index range in place, leaving the rest of the array alone:
  they are three implementations of one function.
\<close>
theorem quadratic_sorts_agree:
  "sort_c a 0 (int (length a) - 1) = Some (sort a) \<and>
   select_sort a 0 (int (length a) - 1) = Some (sort a) \<and>
   bubbler_sort a 0 (int (length a) - 1) = Some (sort a)"
  by (simp add: ins.sorts_whole sel.sorts_whole bub.sorts_whole)

text \<open>
  \<open>insert_sort\<close> sorts a range that starts at index 0; on a range that starts later it
  can move elements in front of the range, because its inner loop tests \<open>j >= 0\<close> and not
  \<open>j >= low\<close>.
\<close>
theorem insert_sort_from_zero:
  "insert_sort a 0 (int (length a) - 1) = Some (sort a) \<and>
   insert_sort [5, 7, 1] 1 2 = Some [1, 5, 7]"
proof
  show "insert_sort a 0 (int (length a) - 1) = Some (sort a)" by (simp add: insertion.sorts_whole)
  show "insert_sort [5, 7, 1] 1 2 = Some [1, 5, 7]"
    by (simp add: insert_sort_def insert_from.simps shift_up.simps aread_def awrite_def)
qed

end
