(* ===== verification/Linked.thy ===== *)
theory Linked
  imports CPrelude
begin

text \<open>
  Linked structures in a heap, shared by the buffer lists, the linked-list routines and the
  double-linked lists. \<open>lseg nx m p as q\<close>: following the field \<open>nx\<close> from \<open>p\<close> visits the
  cells \<open>as\<close> and then stands at \<open>q\<close>.
\<close>

fun lseg :: "('n \<Rightarrow> ptr) \<Rightarrow> (nat \<rightharpoonup> 'n) \<Rightarrow> ptr \<Rightarrow> nat list \<Rightarrow> ptr \<Rightarrow> bool" where
  "lseg nx m p [] q \<longleftrightarrow> p = q"
| "lseg nx m p (a # as) q \<longleftrightarrow> p = Some a \<and> (\<exists>n. m a = Some n \<and> lseg nx m (nx n) as q)"

abbreviation lchain :: "('n \<Rightarrow> ptr) \<Rightarrow> (nat \<rightharpoonup> 'n) \<Rightarrow> ptr \<Rightarrow> nat list \<Rightarrow> bool" where
  "lchain nx m p as \<equiv> lseg nx m p as None"

lemma lseg_append: "lseg nx m p (as @ bs) q \<longleftrightarrow> (\<exists>r. lseg nx m p as r \<and> lseg nx m r bs q)"
  by (induction as arbitrary: p) auto

lemma lseg_snoc:
  "lseg nx m p (as @ [a]) q \<longleftrightarrow> lseg nx m p as (Some a) \<and> (\<exists>n. m a = Some n \<and> nx n = q)"
  by (auto simp: lseg_append)

lemma lseg_cell: "lseg nx m p as q \<Longrightarrow> a \<in> set as \<Longrightarrow> \<exists>n. m a = Some n"
  by (induction as arbitrary: p) auto

lemma lseg_dom: "lseg nx m p as q \<Longrightarrow> set as \<subseteq> dom m"
  by (auto dest: lseg_cell)

lemma lseg_cong:
  "(\<And>a. a \<in> set as \<Longrightarrow> map_option nx (m' a) = map_option nx (m a)) \<Longrightarrow>
   lseg nx m' p as q = lseg nx m p as q"
proof (induction as arbitrary: p)
  case (Cons a as)
  have IH: "lseg nx m' r as q = lseg nx m r as q" for r using Cons by simp
  have "map_option nx (m' a) = map_option nx (m a)" using Cons.prems by simp
  then show ?case
    by (cases "m a"; cases "m' a") (auto simp: IH)
qed simp

lemma lseg_upd [simp]: "a \<notin> set as \<Longrightarrow> lseg nx (m(a := x)) p as q = lseg nx m p as q"
  by (rule lseg_cong) auto

text \<open>A write that keeps the link field keeps every segment.\<close>

lemma lseg_upd_same:
  "m a = Some n \<Longrightarrow> nx n' = nx n \<Longrightarrow> lseg nx (m(a \<mapsto> n')) p as q = lseg nx m p as q"
  by (rule lseg_cong) simp

lemma lseg_functional: "lseg nx m p as q \<Longrightarrow> lchain nx m q cs \<Longrightarrow> lchain nx m p bs \<Longrightarrow> bs = as @ cs"
proof (induction as arbitrary: p bs)
  case Nil
  then have "lchain nx m p cs" "lchain nx m p bs" by simp_all
  then show ?case
  proof (induction cs arbitrary: p bs)
    case Nil
    then show ?case by (cases bs) auto
  next
    case (Cons c cs)
    then show ?case by (cases bs) auto
  qed
next
  case (Cons a as)
  then show ?case by (cases bs) auto
qed

lemma lchain_unique: "lchain nx m p as \<Longrightarrow> lchain nx m p bs \<Longrightarrow> bs = as"
  using lseg_functional [of nx m p as None "[]" bs] by simp

lemma lchain_suffix: "lchain nx m p (as @ a # bs) \<Longrightarrow> lchain nx m (Some a) (a # bs)"
  by (auto simp: lseg_append)

text \<open>A list that ends in \<open>NULL\<close> visits no cell twice.\<close>

lemma lchain_distinct: "lchain nx m p as \<Longrightarrow> distinct as"
proof (induction as arbitrary: p)
  case (Cons a as)
  then obtain n where n: "m a = Some n" "lchain nx m (nx n) as" by auto
  have "a \<notin> set as"
  proof
    assume "a \<in> set as"
    then obtain bs cs where as: "as = bs @ a # cs" by (auto dest: split_list)
    then have "lchain nx m (Some a) (a # cs)" using n lchain_suffix by metis
    moreover have "lchain nx m (Some a) (a # as)" using n by auto
    ultimately have "a # as = a # cs" by (rule lchain_unique)
    with as show False by simp
  qed
  with Cons n show ?case by auto
qed simp

lemma lchain_null [simp]: "lchain nx m None as \<longleftrightarrow> as = []"
  by (cases as) auto

lemma lchain_some: "lchain nx m (Some a) as \<longleftrightarrow> (\<exists>n bs. as = a # bs \<and> m a = Some n \<and> lchain nx m (nx n) bs)"
  by (cases as) auto

lemma lchain_nth: "lchain nx m p as \<Longrightarrow> i < length as \<Longrightarrow>
    \<exists>n. m (as ! i) = Some n \<and> nx n = (if Suc i < length as then Some (as ! Suc i) else None)"
proof (induction as arbitrary: p i)
  case (Cons a as)
  then obtain n where n: "m a = Some n" "lchain nx m (nx n) as" by auto
  show ?case
  proof (cases i)
    case 0
    with n show ?thesis by (cases as) auto
  next
    case (Suc j)
    with Cons.IH [OF n(2), of j] Cons.prems(2) show ?thesis by auto
  qed
qed simp

text \<open>Cutting a list behind one of its nodes.\<close>

lemma lseg_cut:
  "lseg nx m p (as @ [a]) q \<Longrightarrow> a \<notin> set as \<Longrightarrow> nx n' = None \<Longrightarrow> lchain nx (m(a \<mapsto> n')) p (as @ [a])"
  by (simp add: lseg_snoc)

end
