(* ===== verification/Buffer_List.thy ===== *)
theory Buffer_List
  imports Linked
begin

text \<open>
  The byte buffers of the TCP proxy, \<open>redis_ae/tcpproxy/util.c\<close> and \<open>util.h\<close>: a list of
  16-byte chunks, written at \<open>write_node\<close>, read at \<open>head\<close>; a chunk that has been read goes
  back to the tail. A character pointer is a chunk and an offset into its \<open>data\<close>.
\<close>

type_synonym byte = "8 word"
type_synonym cptr = "(nat \<times> int) option"

definition BUFFER_CHUNK_SIZE :: int where "BUFFER_CHUNK_SIZE = 16"

record BufferListNode =
  bdata :: "byte list"
  bsize :: int
  bnext :: ptr

record BufferList =
  bhead :: ptr
  btail :: ptr
  read_pos :: int
  write_node :: ptr

record blmem =
  lists :: "BufferList heap"
  nodes :: "BufferListNode heap"

text \<open>\<open>for(i=1;i<n;i++)\<close>: append empty chunks behind \<open>pre\<close>; the result is the last \<open>buf\<close>.\<close>

function alloc_chunks ::
  "BufferListNode heap \<Rightarrow> int \<Rightarrow> int \<Rightarrow> ptr \<Rightarrow> ptr \<Rightarrow> (ptr \<times> BufferListNode heap) option" where
  "alloc_chunks h n i pre buf = (if i < n then do {
       let (buf, h) = cmalloc h;
       h \<leftarrow> store h buf (\<lambda>x. x\<lparr>bsize := 0\<rparr>);
       h \<leftarrow> store h buf (\<lambda>x. x\<lparr>bnext := None\<rparr>);
       h \<leftarrow> store h pre (\<lambda>x. x\<lparr>bnext := buf\<rparr>);
       alloc_chunks h n (i + 1) buf buf
     } else Some (buf, h))"
  by pat_completeness auto
termination by (relation "measure (\<lambda>(h, n, i, pre, buf). nat (n - i))") auto

declare alloc_chunks.simps [simp del]

definition AllocBufferList :: "blmem \<Rightarrow> int \<Rightarrow> (ptr \<times> blmem) option" where
  "AllocBufferList m n = do {
     let (blist, l) = cmalloc (lists m);
     let (buf, h) = cmalloc (nodes m);
     h \<leftarrow> store h buf (\<lambda>x. x\<lparr>bsize := 0\<rparr>);
     h \<leftarrow> store h buf (\<lambda>x. x\<lparr>bnext := None\<rparr>);
     l \<leftarrow> store l blist (\<lambda>b. b\<lparr>bhead := buf\<rparr>);
     l \<leftarrow> store l blist (\<lambda>b. b\<lparr>write_node := buf, bhead := buf\<rparr>);
     (buf, h) \<leftarrow> alloc_chunks h n 1 buf buf;
     l \<leftarrow> store l blist (\<lambda>b. b\<lparr>btail := buf\<rparr>);
     l \<leftarrow> store l blist (\<lambda>b. b\<lparr>read_pos := 0\<rparr>);
     Some (blist, m\<lparr>lists := l, nodes := h\<rparr>)
   }"

text \<open>\<open>while(cur)\<close> of \<open>FreeBufferList\<close>.\<close>

partial_function (option) free_chunks :: "blmem \<Rightarrow> ptr \<Rightarrow> ptr \<Rightarrow> blmem option" where
  "free_chunks m blist cur = (if cur = None then Some m else do {
     n \<leftarrow> load (nodes m) cur;
     l \<leftarrow> store (lists m) blist (\<lambda>b. b\<lparr>bhead := bnext n\<rparr>);
     h \<leftarrow> cfree (nodes m) cur;
     b \<leftarrow> load l blist;
     free_chunks (m\<lparr>lists := l, nodes := h\<rparr>) blist (bhead b)
   })"

definition FreeBufferList :: "blmem \<Rightarrow> ptr \<Rightarrow> blmem option" where
  "FreeBufferList m blist = do {
     b \<leftarrow> load (lists m) blist;
     m \<leftarrow> free_chunks m blist (bhead b);
     l \<leftarrow> cfree (lists m) blist;
     Some (m\<lparr>lists := l\<rparr>)
   }"

text \<open>The returned pointer and \<open>*len\<close>.\<close>

definition BufferListGetSpace :: "blmem \<Rightarrow> ptr \<Rightarrow> (cptr \<times> int) option" where
  "BufferListGetSpace m blist = do {
     b \<leftarrow> load (lists m) blist;
     w \<leftarrow> load (nodes m) (write_node b);
     if write_node b = btail b \<and> bsize w = BUFFER_CHUNK_SIZE then Some (None, 0)
     else do {
       a \<leftarrow> write_node b;
       Some (Some (a, bsize w), BUFFER_CHUNK_SIZE - bsize w)
     }
   }"

definition BufferListPush :: "blmem \<Rightarrow> ptr \<Rightarrow> int \<Rightarrow> blmem option" where
  "BufferListPush m blist len = do {
     b \<leftarrow> load (lists m) blist;
     w \<leftarrow> load (nodes m) (write_node b);
     s \<leftarrow> cint (bsize w + len);
     h \<leftarrow> store (nodes m) (write_node b) (\<lambda>x. x\<lparr>bsize := s\<rparr>);
     if s = BUFFER_CHUNK_SIZE \<and> write_node b \<noteq> btail b then do {
       l \<leftarrow> store (lists m) blist (\<lambda>b. b\<lparr>write_node := bnext w\<rparr>);
       Some (m\<lparr>lists := l, nodes := h\<rparr>)
     } else Some (m\<lparr>nodes := h\<rparr>)
   }"

definition BufferListGetData :: "blmem \<Rightarrow> ptr \<Rightarrow> (cptr \<times> int) option" where
  "BufferListGetData m blist = do {
     b \<leftarrow> load (lists m) blist;
     hd \<leftarrow> load (nodes m) (bhead b);
     if bhead b = write_node b \<and> read_pos b = bsize hd then Some (None, 0)
     else do {
       a \<leftarrow> bhead b;
       Some (Some (a, read_pos b), bsize hd - read_pos b)
     }
   }"

text \<open>
  \<open>BufferListPop\<close>; the statements of the branch that rotates the head chunk to the tail are
  executed one at a time, because \<open>tail\<close> and \<open>head\<close> can be one chunk. The \<open>exit(0)\<close> of the
  last test ends the program: the result carries a flag that says so.
\<close>

definition BufferListPop :: "blmem \<Rightarrow> ptr \<Rightarrow> int \<Rightarrow> (blmem \<times> bool) option" where
  "BufferListPop m blist len = do {
     b \<leftarrow> load (lists m) blist;
     rp \<leftarrow> cint (read_pos b + len);
     l \<leftarrow> store (lists m) blist (\<lambda>b. b\<lparr>read_pos := rp\<rparr>);
     hd \<leftarrow> load (nodes m) (bhead b);
     if rp = bsize hd \<and> bhead b \<noteq> write_node b then do {
       let cur = bhead b;
       l \<leftarrow> store l blist (\<lambda>b. b\<lparr>bhead := bnext hd\<rparr>);
       h \<leftarrow> store (nodes m) (btail b) (\<lambda>x. x\<lparr>bnext := cur\<rparr>);
       l \<leftarrow> store l blist (\<lambda>b. b\<lparr>btail := cur\<rparr>);
       h \<leftarrow> store h cur (\<lambda>x. x\<lparr>bsize := 0\<rparr>);
       h \<leftarrow> store h cur (\<lambda>x. x\<lparr>bnext := None\<rparr>);
       l \<leftarrow> store l blist (\<lambda>b. b\<lparr>read_pos := 0\<rparr>);
       b' \<leftarrow> load l blist;
       Some (m\<lparr>lists := l, nodes := h\<rparr>, bhead b' = None)
     } else Some (m\<lparr>lists := l\<rparr>, False)
   }"

section \<open>Access through the returned pointers\<close>

text \<open>
  What \<open>recv\<close> and \<open>send\<close> do with the pointers they are given: they touch \<open>len\<close> bytes from
  it, which have to lie inside the chunk.
\<close>

definition poke :: "blmem \<Rightarrow> cptr \<Rightarrow> byte list \<Rightarrow> blmem option" where
  "poke m p bs = do {
     (a, off) \<leftarrow> p;
     n \<leftarrow> cells (nodes m) a;
     guard (0 \<le> off \<and> off + int (length bs) \<le> int (length (bdata n)));
     h \<leftarrow> store (nodes m) (Some a) (\<lambda>x. x\<lparr>bdata :=
       take (nat off) (bdata x) @ bs @ drop (nat off + length bs) (bdata x)\<rparr>);
     Some (m\<lparr>nodes := h\<rparr>)
   }"

definition peek :: "blmem \<Rightarrow> cptr \<Rightarrow> int \<Rightarrow> byte list option" where
  "peek m p len = do {
     (a, off) \<leftarrow> p;
     n \<leftarrow> cells (nodes m) a;
     guard (0 \<le> off \<and> 0 \<le> len \<and> off + len \<le> int (length (bdata n)));
     Some (take (nat len) (drop (nat off) (bdata n)))
   }"

end
