(* ===== verification/Buffer_List_Correct.thy ===== *)
theory Buffer_List_Correct
  imports Buffer_List
begin

text \<open>
  The buffer list is a first-in first-out queue of bytes. \<open>bl_rep\<close> is its representation
  invariant: full chunks, then the chunk being written, then empty chunks.
\<close>

section \<open>Representation\<close>

definition chunk_is :: "blmem \<Rightarrow> nat \<Rightarrow> int \<Rightarrow> bool" where
  "chunk_is m a s \<longleftrightarrow> (\<exists>n. cells (nodes m) a = Some n \<and> length (bdata n) = 16 \<and> bsize n = s)"

definition chunk :: "blmem \<Rightarrow> nat \<Rightarrow> byte list" where
  "chunk m a = (case cells (nodes m) a of None \<Rightarrow> [] | Some n \<Rightarrow> take (nat (bsize n)) (bdata n))"

definition bl_rep :: "blmem \<Rightarrow> ptr \<Rightarrow> BufferList \<Rightarrow> nat list \<Rightarrow> nat \<Rightarrow> int \<Rightarrow> nat list \<Rightarrow> bool" where
  "bl_rep m p b fs w s es \<longleftrightarrow>
     load (lists m) p = Some b \<and> lchain bnext (cells (nodes m)) (bhead b) (fs @ w # es) \<and>
     btail b = Some (last (w # es)) \<and> write_node b = Some w \<and>
     (\<forall>a\<in>set fs. chunk_is m a 16) \<and> chunk_is m w s \<and> (\<forall>a\<in>set es. chunk_is m a 0) \<and>
     0 \<le> s \<and> s \<le> 16 \<and> 0 \<le> read_pos b \<and>
     (if fs = [] then read_pos b \<le> s else read_pos b < 16)"

definition bl_bytes :: "blmem \<Rightarrow> BufferList \<Rightarrow> nat list \<Rightarrow> byte list" where
  "bl_bytes m b as = drop (nat (read_pos b)) (concat (map (chunk m) as))"

text \<open>\<open>bl_holds m p A xs\<close>: the buffer list at \<open>p\<close> owns the chunks \<open>A\<close> and holds the bytes \<open>xs\<close>.\<close>

definition bl_holds :: "blmem \<Rightarrow> ptr \<Rightarrow> nat set \<Rightarrow> byte list \<Rightarrow> bool" where
  "bl_holds m p A xs \<longleftrightarrow> (\<exists>b fs w s es. bl_rep m p b fs w s es \<and> A = set (fs @ w # es) \<and>
     xs = bl_bytes m b (fs @ [w]))"

lemma bl_repD:
  assumes "bl_rep m p b fs w s es"
  shows "load (lists m) p = Some b" "lchain bnext (cells (nodes m)) (bhead b) (fs @ w # es)"
    "btail b = Some (last (w # es))" "write_node b = Some w" "\<And>a. a \<in> set fs \<Longrightarrow> chunk_is m a 16"
    "chunk_is m w s" "\<And>a. a \<in> set es \<Longrightarrow> chunk_is m a 0" "0 \<le> s" "s \<le> 16" "0 \<le> read_pos b"
    "fs = [] \<Longrightarrow> read_pos b \<le> s" "fs \<noteq> [] \<Longrightarrow> read_pos b < 16"
    "distinct (fs @ w # es)"
  using assms lchain_distinct [of bnext "cells (nodes m)" "bhead b" "fs @ w # es"]
  by (auto simp: bl_rep_def)

lemma length_chunk: "chunk_is m a s \<Longrightarrow> 0 \<le> s \<Longrightarrow> s \<le> 16 \<Longrightarrow> length (chunk m a) = nat s"
  by (auto simp: chunk_is_def chunk_def)

lemma chunk_empty: "chunk_is m a 0 \<Longrightarrow> chunk m a = []"
  by (auto simp: chunk_is_def chunk_def)

lemma length_chunks:
  "(\<And>a. a \<in> set fs \<Longrightarrow> chunk_is m a 16) \<Longrightarrow> length (concat (map (chunk m) fs)) = 16 * length fs"
proof (induction fs)
  case (Cons a fs)
  then show ?case using length_chunk [of m a 16] by auto
qed simp

lemma length_bl_bytes:
  assumes "bl_rep m p b fs w s es"
  shows "length (bl_bytes m b (fs @ [w])) = 16 * length fs + nat s - nat (read_pos b)"
proof -
  have "nat (read_pos b) \<le> 16 * length fs + nat s"
    using bl_repD(8-12) [OF assms] by (cases fs) auto
  then show ?thesis
    using length_chunks [of fs m, OF bl_repD(5) [OF assms]]
      length_chunk [OF bl_repD(6,8,9) [OF assms]]
    by (simp add: bl_bytes_def del: length_drop drop_append add: length_drop [of _ "concat _ @ _"])
qed

lemma bl_head: "bl_rep m p b fs w s es \<Longrightarrow> bhead b = Some (hd (fs @ [w]))"
  by (cases fs) (auto simp: bl_rep_def)

lemma bl_head_write:
  assumes "bl_rep m p b fs w s es"
  shows "bhead b = write_node b \<longleftrightarrow> fs = []"
  using bl_head [OF assms] bl_repD(4,13) [OF assms] by (cases fs) auto

lemma bl_write_tail:
  assumes "bl_rep m p b fs w s es"
  shows "write_node b = btail b \<longleftrightarrow> es = []"
  using bl_repD(3,4,13) [OF assms] by (cases es rule: rev_cases) auto

text \<open>The bytes never exceed the capacity; the list is empty exactly when they are used up.\<close>

lemma bl_holds_bound:
  assumes "bl_holds m p A xs"
  shows "length xs \<le> 16 * card A"
proof -
  obtain b fs w s es where r: "bl_rep m p b fs w s es" "A = set (fs @ w # es)"
      "xs = bl_bytes m b (fs @ [w])" using assms by (auto simp: bl_holds_def)
  have "card A = length (fs @ w # es)"
    unfolding r(2) by (rule distinct_card [OF bl_repD(13) [OF r(1)]])
  then show ?thesis using length_bl_bytes [OF r(1)] r(3) bl_repD(9) [OF r(1)] by simp
qed

section \<open>Frame\<close>

text \<open>What an operation on the list at \<open>p\<close> with chunks \<open>A\<close> leaves alone.\<close>

definition bl_frame :: "ptr \<Rightarrow> nat set \<Rightarrow> blmem \<Rightarrow> blmem \<Rightarrow> bool" where
  "bl_frame p A m m' \<longleftrightarrow>
     (\<forall>q. Some q \<noteq> p \<longrightarrow> cells (lists m') q = cells (lists m) q) \<and>
     (\<forall>a. a \<notin> A \<longrightarrow> cells (nodes m') a = cells (nodes m) a) \<and>
     brk (lists m') = brk (lists m) \<and> brk (nodes m') = brk (nodes m) \<and>
     env (lists m') = env (lists m) \<and> env (nodes m') = env (nodes m)"

lemma bl_frame_trans: "bl_frame p A m m' \<Longrightarrow> bl_frame p A m' m'' \<Longrightarrow> bl_frame p A m m''"
  by (simp add: bl_frame_def)

lemma bl_holds_cong:
  assumes "bl_holds m q B xs" "\<And>l. q = Some l \<Longrightarrow> cells (lists m') l = cells (lists m) l"
    and "\<And>a. a \<in> B \<Longrightarrow> cells (nodes m') a = cells (nodes m) a"
  shows "bl_holds m' q B xs"
proof -
  obtain b fs w s es where r: "bl_rep m q b fs w s es" "B = set (fs @ w # es)"
      "xs = bl_bytes m b (fs @ [w])" using assms(1) by (auto simp: bl_holds_def)
  have same: "cells (nodes m') a = cells (nodes m) a" if "a \<in> set (fs @ w # es)" for a
    using that assms(3) r(2) by blast
  have ch: "chunk_is m' a t = chunk_is m a t" "chunk m' a = chunk m a" if "a \<in> set (fs @ w # es)" for a t
    using same [OF that] by (simp_all add: chunk_is_def chunk_def)
  have "load (lists m') q = Some b"
    using bl_repD(1) [OF r(1)] assms(2) by (cases q) auto
  moreover have "lchain bnext (cells (nodes m')) (bhead b) (fs @ w # es)"
    using bl_repD(2) [OF r(1)] same
      lseg_cong [of "fs @ w # es" bnext "cells (nodes m')" "cells (nodes m)" "bhead b" None] by simp
  ultimately have "bl_rep m' q b fs w s es"
    using r(1) ch(1) unfolding bl_rep_def by simp
  moreover have "bl_bytes m' b (fs @ [w]) = bl_bytes m b (fs @ [w])"
    using ch(2) by (simp add: bl_bytes_def cong: map_cong)
  ultimately show ?thesis using r(2,3) unfolding bl_holds_def by metis
qed

lemma bl_holds_frame:
  assumes "bl_holds m q B xs" "bl_frame p A m m'" "p \<noteq> q" "A \<inter> B = {}"
  shows "bl_holds m' q B xs"
  by (rule bl_holds_cong [OF assms(1)]) (use assms(2-4) in \<open>auto simp: bl_frame_def\<close>)

section \<open>Writing\<close>

lemma GetSpace_rep:
  assumes "bl_rep m p b fs w s es"
  shows "BufferListGetSpace m p =
    (if es = [] \<and> s = 16 then Some (None, 0) else Some (Some (w, s), 16 - s))"
proof -
  obtain n where n: "cells (nodes m) w = Some n" "bsize n = s"
    using bl_repD(6) [OF assms] by (auto simp: chunk_is_def)
  have wt: "Some w = btail b \<longleftrightarrow> es = []"
    using bl_write_tail [OF assms] bl_repD(4) [OF assms] by simp
  show ?thesis
    by (simp add: BufferListGetSpace_def BUFFER_CHUNK_SIZE_def bl_repD(1,4) [OF assms] n wt)
qed

text \<open>Filling the free part of the chunk being written and pushing.\<close>

lemma poke_push_rep:
  assumes r: "bl_rep m p b fs w s es" and len: "0 < length bs" "s + int (length bs) \<le> 16"
  obtains m1 m2 b' fs' w' s' es' where
    "poke m (Some (w, s)) bs = Some m1" "BufferListPush m1 p (int (length bs)) = Some m2"
    "bl_rep m2 p b' fs' w' s' es'" "fs' @ w' # es' = fs @ w # es"
    "bl_bytes m2 b' (fs' @ [w']) = bl_bytes m b (fs @ [w]) @ bs"
    "bl_frame p (set (fs @ w # es)) m m2"
proof -
  note R = bl_repD [OF r]
  obtain l where l: "p = Some l" "cells (lists m) l = Some b" using R(1) by (cases p) auto
  obtain n where n: "cells (nodes m) w = Some n" "length (bdata n) = 16" "bsize n = s"
    using R(6) by (auto simp: chunk_is_def)
  define n1 where "n1 = n\<lparr>bdata := take (nat s) (bdata n) @ bs @ drop (nat s + length bs) (bdata n)\<rparr>"
  define t where "t = s + int (length bs)"
  define n2 where "n2 = n1\<lparr>bsize := t\<rparr>"
  define H where "H = (cells (nodes m))(w \<mapsto> n2)"
  define m1 where "m1 = m\<lparr>nodes := (nodes m)\<lparr>cells := (cells (nodes m))(w \<mapsto> n1)\<rparr>\<rparr>"
  define m' where "m' = m\<lparr>nodes := (nodes m)\<lparr>cells := H\<rparr>\<rparr>"
  have poke: "poke m (Some (w, s)) bs = Some m1"
    using n len R(8) by (simp add: poke_def m1_def n1_def store_cell)
  have n12: "bnext n1 = bnext n" "bnext n2 = bnext n" "bsize n1 = s" "length (bdata n2) = 16"
      "bdata n2 = bdata n1"
    using n len R(8) by (auto simp: n1_def n2_def)
  have t: "0 < t" "t \<le> 16" using len R(8) by (unfold t_def) linarith+
  then have t3: "cint t = Some t" by (simp add: cint_def int_min_def int_max_def)
  have ch_w: "chunk m' w = chunk m w @ bs"
  proof -
    have "nat t = nat s + length bs" using R(8) by (simp add: t_def nat_add_distrib)
    then show ?thesis using n R(8) len by (simp add: m'_def H_def n2_def n1_def chunk_def)
  qed
  have ch: "chunk m' a = chunk m a" "chunk_is m' a u = chunk_is m a u" if "a \<noteq> w" for a u
    using that by (simp_all add: m'_def H_def chunk_def chunk_is_def)
  have ch_is: "chunk_is m' w t" using n12 n2_def by (simp add: m'_def H_def chunk_is_def)
  have path: "lchain bnext (cells (nodes m')) (bhead b) (fs @ w # es)"
    using R(2) lseg_upd_same [of "cells (nodes m)" w n bnext n2] n n12 by (simp add: m'_def H_def)
  have dis: "w \<notin> set fs" "w \<notin> set es" using R(13) by auto
  have pre: "nat (read_pos b) \<le> length (concat (map (chunk m) (fs @ [w])))"
    using length_chunks [of fs m, OF R(5)] length_chunk [OF R(6,8,9)] R(8-12) by (cases fs) auto
  have "map (chunk m') fs = map (chunk m) fs" using ch(1) dis by (intro map_cong) metis+
  then have "concat (map (chunk m') (fs @ [w])) = concat (map (chunk m) (fs @ [w])) @ bs"
    using ch_w by (simp only: map_append concat_append) simp
  then have bytes: "bl_bytes m' b (fs @ [w]) = bl_bytes m b (fs @ [w]) @ bs"
    using pre by (simp add: bl_bytes_def)
  have full: "chunk_is m' a 16" if "a \<in> set fs" for a
    using R(5) [OF that] ch(2) [of a 16] that dis by metis
  have empty: "chunk_is m' a 0" if "a \<in> set es" for a
    using R(7) [OF that] ch(2) [of a 0] that dis by metis
  have "load (lists m') p = Some b" using l by (simp add: m'_def)
  then have rep: "bl_rep m' p b fs w t es"
    using path R(3,4,8-12) t ch_is full empty len unfolding bl_rep_def by (auto simp: t_def)
  have fr: "bl_frame p (set (fs @ w # es)) m m'" by (simp add: bl_frame_def m'_def H_def)
  show thesis
  proof (cases "t = 16 \<and> es \<noteq> []")
    case False
    then have "BufferListPush m1 p (int (length bs)) = Some m'"
      using l n12 t t3 R(4) bl_write_tail [OF r]
      by (auto simp: BufferListPush_def m1_def m'_def H_def n2_def store_cell t_def BUFFER_CHUNK_SIZE_def)
    then show thesis using that [OF poke _ rep] bytes fr by blast
  next
    case True
    then obtain e es' where es: "es = e # es'" by (cases es) auto
    have next_w: "bnext n = Some e" using R(2) n es by (auto simp: lseg_append)
    have rp: "read_pos b < 16" using R(11,12) t(2) len unfolding t_def
      by (cases "fs = []") (linarith, simp)
    define b' where "b' = b\<lparr>write_node := Some e\<rparr>"
    define m2 where "m2 = m'\<lparr>lists := (lists m)\<lparr>cells := (cells (lists m))(l \<mapsto> b')\<rparr>\<rparr>"
    have "BufferListPush m1 p (int (length bs)) = Some m2"
      using True l n12 t t3 R(4) bl_write_tail [OF r] next_w
      by (auto simp: BufferListPush_def m1_def m'_def m2_def b'_def H_def n2_def store_cell t_def
          BUFFER_CHUNK_SIZE_def)
    moreover have chs: "chunk m2 a = chunk m' a" "chunk_is m2 a u = chunk_is m' a u" for a u
      by (simp_all add: m2_def chunk_def chunk_is_def)
    have "bl_rep m2 p b' (fs @ [w]) e 0 es'"
      unfolding bl_rep_def chs
    proof (intro conjI)
      show "lchain bnext (cells (nodes m2)) (bhead b') ((fs @ [w]) @ e # es')"
        using path es by (simp add: m2_def b'_def)
      show "\<forall>a\<in>set (fs @ [w]). chunk_is m' a 16" using ch_is True full by auto
      show "chunk_is m' e 0" "\<forall>a\<in>set es'. chunk_is m' a 0" using empty es by auto
    qed (use l R(3,4,10) t es rp in \<open>auto simp: m2_def b'_def t_def split: if_splits\<close>)
    moreover have "bl_bytes m2 b' ((fs @ [w]) @ [e]) = bl_bytes m b (fs @ [w]) @ bs"
    proof -
      have "chunk m' e = []" using empty [of e] es chunk_empty by auto
      moreover have "chunk m2 = chunk m'" using chs(1) by blast
      ultimately have "bl_bytes m2 b' ((fs @ [w]) @ [e]) = bl_bytes m' b (fs @ [w])"
        by (simp add: bl_bytes_def b'_def)
      then show ?thesis using bytes by simp
    qed
    moreover have "bl_frame p (set (fs @ w # es)) m m2"
      using fr l by (auto simp: bl_frame_def m2_def m'_def)
    ultimately show thesis using that [OF poke] es by auto
  qed
qed

section \<open>Reading\<close>

lemma bl_head_chunk:
  assumes "bl_rep m p b fs w s es"
  obtains n where "cells (nodes m) (hd (fs @ [w])) = Some n" "length (bdata n) = 16"
    "bsize n = (if fs = [] then s else 16)"
  using bl_repD(5) [OF assms, of "hd fs"] bl_repD(6) [OF assms]
  by (cases fs) (auto simp: chunk_is_def)

lemma GetData_rep:
  assumes "bl_rep m p b fs w s es"
  shows "BufferListGetData m p =
    (if fs = [] \<and> read_pos b = s then Some (None, 0)
     else Some (Some (hd (fs @ [w]), read_pos b), (if fs = [] then s else 16) - read_pos b))"
proof -
  obtain n where n: "cells (nodes m) (hd (fs @ [w])) = Some n" "bsize n = (if fs = [] then s else 16)"
    using bl_head_chunk [OF assms] by blast
  have hw: "Some (hd (fs @ [w])) = write_node b \<longleftrightarrow> fs = []"
    using bl_head_write [OF assms] bl_head [OF assms] by simp
  have "read_pos b < 16" if "fs \<noteq> []" using bl_repD(12) [OF assms that] .
  then show ?thesis
    by (auto simp: BufferListGetData_def bl_repD(1) [OF assms] bl_head [OF assms] n hw)
qed

lemma peek_rep:
  assumes r: "bl_rep m p b fs w s es" and k: "0 \<le> k" "k \<le> (if fs = [] then s else 16) - read_pos b"
  shows "peek m (Some (hd (fs @ [w]), read_pos b)) k = Some (take (nat k) (bl_bytes m b (fs @ [w])))"
proof -
  note R = bl_repD [OF r]
  let ?h = "hd (fs @ [w])" and ?s = "if fs = [] then s else 16"
  obtain n where n: "cells (nodes m) ?h = Some n" "length (bdata n) = 16" "bsize n = ?s"
    using bl_head_chunk [OF r] .
  then have h: "chunk_is m ?h ?s" by (auto simp: chunk_is_def)
  have s: "0 \<le> ?s" "?s \<le> 16" using R(8,9) by auto
  have "concat (map (chunk m) (fs @ [w])) = chunk m ?h @ concat (map (chunk m) (tl (fs @ [w])))"
    by (cases fs) auto
  moreover have "length (chunk m ?h) = nat ?s" using length_chunk [OF h s] .
  moreover have "nat (read_pos b) + nat k \<le> nat ?s" using k R(10) by (simp split: if_splits)
  ultimately have "take (nat k) (bl_bytes m b (fs @ [w])) = take (nat k) (drop (nat (read_pos b)) (chunk m ?h))"
    by (simp add: bl_bytes_def)
  also have "\<dots> = take (nat k) (drop (nat (read_pos b)) (bdata n))"
    using n \<open>nat (read_pos b) + nat k \<le> nat ?s\<close> by (simp add: chunk_def drop_take)
  finally show ?thesis
    using n k R(10) s by (simp add: peek_def split: if_splits)
qed

lemma Pop_rep:
  assumes r: "bl_rep m p b fs w s es" and k: "0 \<le> k" "k \<le> (if fs = [] then s else 16) - read_pos b"
  obtains m2 b' fs' w' s' es' where
    "BufferListPop m p k = Some (m2, False)" "bl_rep m2 p b' fs' w' s' es'"
    "set (fs' @ w' # es') = set (fs @ w # es)"
    "bl_bytes m2 b' (fs' @ [w']) = drop (nat k) (bl_bytes m b (fs @ [w]))"
    "bl_frame p (set (fs @ w # es)) m m2"
proof -
  note R = bl_repD [OF r]
  obtain l where l: "p = Some l" "cells (lists m) l = Some b" using R(1) by (cases p) auto
  define rp where "rp = read_pos b + k"
  have rp: "0 \<le> rp" "cint rp = Some rp"
    using k R(8-10) by (auto simp: rp_def cint_def int_min_def int_max_def split: if_splits)
  let ?h = "hd (fs @ [w])" and ?s = "if fs = [] then s else 16"
  obtain n where n: "cells (nodes m) ?h = Some n" "length (bdata n) = 16" "bsize n = ?s"
    using bl_head_chunk [OF r] .
  show thesis
  proof (cases "fs \<noteq> [] \<and> rp = 16")
    case False
    define b' where "b' = b\<lparr>read_pos := rp\<rparr>"
    define m2 where "m2 = m\<lparr>lists := (lists m)\<lparr>cells := (cells (lists m))(l \<mapsto> b')\<rparr>\<rparr>"
    have pop: "BufferListPop m p k = Some (m2, False)"
      using False l n rp bl_head [OF r] bl_head_write [OF r]
      by (auto simp: BufferListPop_def m2_def b'_def rp_def store_cell)
    have rep: "bl_rep m2 p b' fs w s es"
      using R l False k rp unfolding bl_rep_def
      by (auto simp: m2_def b'_def chunk_is_def rp_def split: if_splits)
    have bytes: "bl_bytes m2 b' (fs @ [w]) = drop (nat k) (bl_bytes m b (fs @ [w]))"
    proof -
      have "chunk m2 = chunk m" by (rule ext) (simp add: m2_def chunk_def)
      then show ?thesis using k R(10) 
        by (simp add: bl_bytes_def b'_def rp_def nat_add_distrib add.commute del: map_append concat_append)
    qed
    have "bl_frame p (set (fs @ w # es)) m m2" using l by (simp add: bl_frame_def m2_def)
    with pop rep bytes show thesis using that by blast
  next
    case True
    then obtain f fs' where fs: "fs = f # fs'" by (cases fs) auto
    obtain nt where nt: "cells (nodes m) (last (w # es)) = Some nt" "length (bdata nt) = 16"
      using R(6) R(7) [OF last_in_set, of] by (cases "es = []") (auto simp: chunk_is_def)
    have dis: "f \<notin> set (fs' @ w # es)" "distinct (fs' @ w # es)" using R(13) fs by auto
    then have ft: "f \<noteq> last (w # es)" using last_in_set [of "w # es"] by auto
    have path: "lchain bnext (cells (nodes m)) (bnext n) (fs' @ w # es)" "bhead b = Some f"
      using R(2) n(1) fs by auto
    define nt' where "nt' = nt\<lparr>bnext := Some f\<rparr>"
    define f' where "f' = n\<lparr>bsize := 0, bnext := None\<rparr>"
    define H where "H = (cells (nodes m))(last (w # es) \<mapsto> nt', f \<mapsto> f')"
    define b' where "b' = b\<lparr>bhead := bnext n, btail := Some f, read_pos := 0\<rparr>"
    define m2 where "m2 = m\<lparr>lists := (lists m)\<lparr>cells := (cells (lists m))(l \<mapsto> b')\<rparr>,
        nodes := (nodes m)\<lparr>cells := H\<rparr>\<rparr>"
    have n1: "bnext n \<noteq> None" using path(1) by (cases "bnext n") auto
    have pop: "BufferListPop m p k = Some (m2, False)"
      using True l n rp bl_head [OF r] bl_head_write [OF r] R(3) nt ft fs n1
      by (simp add: BufferListPop_def m2_def b'_def rp_def store_cell H_def nt'_def f'_def fun_upd_twist Let_def)
    have ch: "chunk m2 a = chunk m a" "chunk_is m2 a u = chunk_is m a u" if "a \<noteq> f" for a u
      using that nt by (auto simp: m2_def H_def nt'_def chunk_def chunk_is_def)
    have chf: "chunk_is m2 f 0" using n by (simp add: m2_def H_def f'_def chunk_is_def fs)
    have "lchain bnext H (bnext n) ((fs' @ w # es) @ [f])"
    proof -
      obtain ys where ys: "fs' @ w # es = ys @ [last (w # es)]"
        by (metis append_butlast_last_id append_is_Nil_conv last_appendR list.distinct(1))
      then have d: "last (w # es) \<notin> set ys" "f \<notin> set ys" using dis by auto
      have "lseg bnext (cells (nodes m)) (bnext n) ys (Some (last (w # es)))"
        using path(1) unfolding ys by (simp add: lseg_snoc)
      then have "lseg bnext H (bnext n) ys (Some (last (w # es)))" using d by (simp add: H_def)
      then show ?thesis
        unfolding ys using ft by (simp add: lseg_append H_def nt'_def f'_def)
    qed
    moreover have "set (fs' @ w # es) \<inter> {f} = {}" using dis by auto
    ultimately have rep: "bl_rep m2 p b' fs' w s (es @ [f])"
      unfolding bl_rep_def
    proof (intro conjI)
      show "\<forall>a\<in>set fs'. chunk_is m2 a 16"
      proof
        fix a assume "a \<in> set fs'"
        then show "chunk_is m2 a 16" using R(5) [of a] ch(2) [of a 16] dis fs by force
      qed
      show "chunk_is m2 w s" using R(6) ch(2) [of w s] dis by force
      show "\<forall>a\<in>set (es @ [f]). chunk_is m2 a 0"
      proof
        fix a assume "a \<in> set (es @ [f])"
        then show "chunk_is m2 a 0" using R(7) [of a] ch(2) [of a 0] chf by (cases "a = f") auto
      qed
    qed (use R(4,8,9) l in \<open>auto simp: m2_def b'_def\<close>)
    have bytes: "bl_bytes m2 b' (fs' @ [w]) = drop (nat k) (bl_bytes m b (fs @ [w]))"
    proof -
      have "length (chunk m f) = 16" using length_chunk [of m f 16] R(5) fs by auto
      moreover have "map (chunk m2) (fs' @ [w]) = map (chunk m) (fs' @ [w])"
        using dis by (intro map_cong refl ch(1)) auto
      moreover have "nat (read_pos b) + nat k = 16" using True k R(10)
        by (simp add: rp_def flip: nat_add_distrib)
      ultimately show ?thesis
        by (simp add: bl_bytes_def b'_def fs add.commute cong: map_cong)
    qed
    have "bl_frame p (set (fs @ w # es)) m m2"
      using l fs last_in_set [of "w # es"] by (auto simp: bl_frame_def m2_def H_def)
    with pop rep bytes show thesis using that [of m2 b' fs' w s "es @ [f]"] fs by auto
  qed
qed

end
