(* ===== verification/Buffer_Theorems.thy ===== *)
theory Buffer_Theorems
  imports Buffer_List_Correct
begin

text \<open>
  The buffer list as an abstract byte queue: the locale \<open>byte_queue\<close> is what the proxy relies
  on, and the buffer list is an instance of it. \<open>bl_recv\<close> is what \<open>ReadIncome\<close> does with the
  bytes \<open>recv\<close> delivers into the space it was given, \<open>bl_send\<close> what \<open>SendOutcome\<close> does when
  \<open>send\<close> takes the first \<open>n\<close> of the bytes it was offered.
\<close>

definition bl_recv :: "ptr \<Rightarrow> blmem \<Rightarrow> byte list \<Rightarrow> blmem option" where
  "bl_recv p m bs = do {
     (buf, len) \<leftarrow> BufferListGetSpace m p;
     guard (0 < length bs \<and> int (length bs) \<le> len);
     m \<leftarrow> poke m buf bs;
     BufferListPush m p (int (length bs))
   }"

definition bl_send :: "ptr \<Rightarrow> blmem \<Rightarrow> int \<Rightarrow> (byte list \<times> blmem) option" where
  "bl_send p m n = do {
     (buf, len) \<leftarrow> BufferListGetData m p;
     guard (0 < n \<and> n \<le> len);
     out \<leftarrow> peek m buf n;
     (m, stop) \<leftarrow> BufferListPop m p n;
     guard (\<not> stop);
     Some (out, m)
   }"

datatype qop = Recv "byte list" | Send int

text \<open>A run of such operations; the result is everything that was sent.\<close>

fun qrun :: "('s \<Rightarrow> byte list \<Rightarrow> 's option) \<Rightarrow> ('s \<Rightarrow> int \<Rightarrow> (byte list \<times> 's) option) \<Rightarrow>
    's \<Rightarrow> qop list \<Rightarrow> (byte list \<times> 's) option" where
  "qrun rcv tx s [] = Some ([], s)"
| "qrun rcv tx s (Recv bs # ops) = do {
     s \<leftarrow> rcv s bs;
     qrun rcv tx s ops
   }"
| "qrun rcv tx s (Send n # ops) = do {
     (out, s) \<leftarrow> tx s n;
     (outs, s) \<leftarrow> qrun rcv tx s ops;
     Some (out @ outs, s)
   }"

fun received :: "qop list \<Rightarrow> byte list" where
  "received [] = []"
| "received (Recv bs # ops) = bs @ received ops"
| "received (Send n # ops) = received ops"

locale byte_queue =
  fixes holds :: "'s \<Rightarrow> byte list \<Rightarrow> bool"
    and rcv :: "'s \<Rightarrow> byte list \<Rightarrow> 's option"
    and tx :: "'s \<Rightarrow> int \<Rightarrow> (byte list \<times> 's) option"
  assumes rcv_holds: "holds s xs \<Longrightarrow> rcv s bs = Some s' \<Longrightarrow> holds s' (xs @ bs)"
    and tx_holds: "holds s xs \<Longrightarrow> tx s n = Some (out, s') \<Longrightarrow>
      \<exists>ys. xs = out @ ys \<and> int (length out) = n \<and> holds s' ys"
begin

lemma run_in_order:
  "holds s xs \<Longrightarrow> qrun rcv tx s ops = Some (out, s') \<Longrightarrow>
   \<exists>ys. xs @ received ops = out @ ys \<and> holds s' ys"
proof (induction ops arbitrary: s xs out)
  case (Cons op ops)
  show ?case
  proof (cases op)
    case (Recv bs)
    then obtain t where t: "rcv s bs = Some t" "qrun rcv tx t ops = Some (out, s')"
      using Cons.prems(2) by (auto simp: bind_eq_Some_conv)
    from Cons.IH [OF rcv_holds [OF Cons.prems(1) t(1)] t(2)] Recv show ?thesis by simp
  next
    case (Send n)
    then obtain o1 t outs where t: "tx s n = Some (o1, t)" "qrun rcv tx t ops = Some (outs, s')"
        "out = o1 @ outs"
      using Cons.prems(2) by (auto simp: bind_eq_Some_conv)
    obtain ys where ys: "xs = o1 @ ys" "holds t ys"
      using tx_holds [OF Cons.prems(1) t(1)] by blast
    from Cons.IH [OF ys(2) t(2)] ys(1) Send t(3) show ?thesis by auto
  qed
qed simp

end

section \<open>The buffer list is a byte queue\<close>

lemma bl_recv_spec:
  assumes "bl_holds m p A xs" "bl_recv p m bs = Some m'"
  shows "bl_holds m' p A (xs @ bs) \<and> bl_frame p A m m'"
proof -
  obtain b fs w s es where r: "bl_rep m p b fs w s es" "A = set (fs @ w # es)"
      "xs = bl_bytes m b (fs @ [w])" using assms(1) by (auto simp: bl_holds_def)
  from assms(2) have len: "0 < length bs" "s + int (length bs) \<le> 16"
    by (auto simp: bl_recv_def GetSpace_rep [OF r(1)] bind_eq_Some_conv split: if_splits)
  have sp: "s \<noteq> 16" using len by linarith
  show ?thesis
  proof (rule poke_push_rep [OF r(1) len])
    fix m1 m2 b' fs' w' s' es'
    assume m: "poke m (Some (w, s)) bs = Some m1" "BufferListPush m1 p (int (length bs)) = Some m2"
      and r': "bl_rep m2 p b' fs' w' s' es'" "fs' @ w' # es' = fs @ w # es"
        "bl_bytes m2 b' (fs' @ [w']) = bl_bytes m b (fs @ [w]) @ bs"
        "bl_frame p (set (fs @ w # es)) m m2"
    have "bl_recv p m bs = Some m2"
      using len m by (simp add: bl_recv_def GetSpace_rep [OF r(1)] sp)
    then have "m' = m2" using assms(2) by simp
    with r' r(2,3) show ?thesis unfolding bl_holds_def by metis
  qed
qed

lemma bl_recv_total:
  assumes "bl_holds m p A xs" "BufferListGetSpace m p = Some (buf, len)"
    "0 < length bs" "int (length bs) \<le> len"
  shows "\<exists>m'. bl_recv p m bs = Some m'"
proof -
  obtain b fs w s es where r: "bl_rep m p b fs w s es" "A = set (fs @ w # es)"
      "xs = bl_bytes m b (fs @ [w])" using assms(1) by (auto simp: bl_holds_def)
  have sp: "\<not> (es = [] \<and> s = 16)" and l: "len = 16 - s" "buf = Some (w, s)"
    using assms(2-4) GetSpace_rep [OF r(1)] by (auto split: if_splits)
  have "s + int (length bs) \<le> 16" using assms(4) l by simp
  then show ?thesis
    by (rule poke_push_rep [OF r(1) assms(3)]) (use sp assms l in \<open>auto simp: bl_recv_def\<close>)
qed

lemma bl_send_spec:
  assumes "bl_holds m p A xs"
  obtains buf len where "BufferListGetData m p = Some (buf, len)" "buf = None \<longleftrightarrow> xs = []"
    "len \<le> int (length xs)" "xs \<noteq> [] \<Longrightarrow> 0 < len"
    "\<And>n. 0 < n \<Longrightarrow> n \<le> len \<Longrightarrow> \<exists>m'. bl_send p m n = Some (take (nat n) xs, m') \<and>
       peek m buf n = Some (take (nat n) xs) \<and> BufferListPop m p n = Some (m', False) \<and>
       bl_holds m' p A (drop (nat n) xs) \<and> bl_frame p A m m'"
proof -
  obtain b fs w s es where r: "bl_rep m p b fs w s es" "A = set (fs @ w # es)"
      "xs = bl_bytes m b (fs @ [w])" using assms(1) by (auto simp: bl_holds_def)
  note R = bl_repD [OF r(1)]
  let ?s = "if fs = [] then s else 16"
  have lenx: "length xs = 16 * length fs + nat s - nat (read_pos b)"
    using length_bl_bytes [OF r(1)] r(3) by simp
  have nilx: "xs = [] \<longleftrightarrow> fs = [] \<and> read_pos b = s"
  proof (cases fs)
    case Nil
    then have "length xs = nat s - nat (read_pos b)" using lenx by simp
    moreover have "read_pos b \<le> s" using R(11) Nil by simp
    ultimately show ?thesis using Nil R(8,10) by (cases xs) auto
  next
    case (Cons f fs')
    then have "0 < length xs" using lenx R(12) by auto
    then show ?thesis using Cons by auto
  qed
  show thesis
  proof (cases "fs = [] \<and> read_pos b = s")
    case True
    then show thesis
      using that [of None 0] GetData_rep [OF r(1)] nilx by auto
  next
    case False
    let ?buf = "Some (hd (fs @ [w]), read_pos b)"
    have gd: "BufferListGetData m p = Some (?buf, ?s - read_pos b)"
      using GetData_rep [OF r(1)] False by auto
    have le: "?s - read_pos b \<le> int (length xs)" "0 < ?s - read_pos b"
      using lenx R(8-12) False by (cases fs; force)+
    have "\<exists>m'. bl_send p m n = Some (take (nat n) xs, m') \<and>
       peek m ?buf n = Some (take (nat n) xs) \<and> BufferListPop m p n = Some (m', False) \<and>
       bl_holds m' p A (drop (nat n) xs) \<and> bl_frame p A m m'"
      if n: "0 < n" "n \<le> ?s - read_pos b" for n
    proof -
      have n': "0 \<le> n" using n by simp
      have pk: "peek m ?buf n = Some (take (nat n) xs)"
        using peek_rep [OF r(1) n' n(2)] r(3) by simp
      show ?thesis
      proof (rule Pop_rep [OF r(1) n' n(2)])
        fix m2 b' fs' w' s' es'
        assume P: "BufferListPop m p n = Some (m2, False)" "bl_rep m2 p b' fs' w' s' es'"
          "set (fs' @ w' # es') = set (fs @ w # es)"
          "bl_bytes m2 b' (fs' @ [w']) = drop (nat n) (bl_bytes m b (fs @ [w]))"
          "bl_frame p (set (fs @ w # es)) m m2"
        have "bl_send p m n = Some (take (nat n) xs, m2)"
          using gd n pk P(1) by (simp add: bl_send_def)
        moreover have "bl_holds m2 p A (drop (nat n) xs)"
          unfolding bl_holds_def r(2,3) using P(2-4) by metis
        ultimately show ?thesis using pk P(1,5) r(2) by blast
      qed
    qed
    then show thesis using that [OF gd] nilx False le by auto
  qed
qed

lemma bl_send_holds:
  assumes "bl_holds m p A xs" "bl_send p m n = Some (out, m')"
  shows "\<exists>ys. xs = out @ ys \<and> int (length out) = n \<and> bl_holds m' p A ys"
proof (rule bl_send_spec [OF assms(1)])
  fix buf len
  assume gd: "BufferListGetData m p = Some (buf, len)" and len: "len \<le> int (length xs)"
    and ok: "\<And>n. 0 < n \<Longrightarrow> n \<le> len \<Longrightarrow> \<exists>m'. bl_send p m n = Some (take (nat n) xs, m') \<and>
       peek m buf n = Some (take (nat n) xs) \<and> BufferListPop m p n = Some (m', False) \<and>
       bl_holds m' p A (drop (nat n) xs) \<and> bl_frame p A m m'"
  have n: "0 < n" "n \<le> len" using assms(2) gd by (auto simp: bl_send_def bind_eq_Some_conv)
  from ok [OF n] assms(2) have "out = take (nat n) xs" "bl_holds m' p A (drop (nat n) xs)" by auto
  with n len show ?thesis by (intro exI [of _ "drop (nat n) xs"]) auto
qed

interpretation bl: byte_queue "\<lambda>m. bl_holds m p A" "bl_recv p" "bl_send p" for p A
  by unfold_locales (auto dest: bl_recv_spec bl_send_holds)

text \<open>
  Allocation and release of the proxy's buffer lists, and the properties of the component:
  the bytes come out in the order they went in, and when \<open>BufferListGetSpace\<close> has space.
\<close>

section \<open>Allocation\<close>

text \<open>The allocator answers every request with a block of the size of a chunk.\<close>

definition bl_env :: "blmem \<Rightarrow> bool" where
  "bl_env m \<longleftrightarrow> heap_ok (nodes m) \<and> heap_ok (lists m) \<and>
     (\<forall>a. \<exists>n. env (nodes m) a = Some n \<and> length (bdata n) = 16) \<and> (\<forall>a. env (lists m) a \<noteq> None)"

definition blank :: "BufferListNode heap \<Rightarrow> nat \<Rightarrow> bool" where
  "blank h a \<longleftrightarrow> (\<exists>n. cells h a = Some n \<and> length (bdata n) = 16 \<and> bsize n = 0)"

lemma alloc_chunks_spec:
  assumes "lchain bnext (cells h) p (xs @ [a])" "\<forall>x\<in>set (xs @ [a]). blank h x" "heap_ok h"
    and "\<And>a. \<exists>n. env h a = Some n \<and> length (bdata n) = 16" "\<forall>x\<in>set (xs @ [a]). l \<le> x" "l \<le> brk h"
  shows "\<exists>h' bs. alloc_chunks h n i (Some a) (Some a) = Some (Some (last (a # bs)), h') \<and>
    lchain bnext (cells h') p (xs @ a # bs) \<and> (\<forall>x\<in>set (xs @ a # bs). blank h' x \<and> l \<le> x) \<and>
    length bs = nat (n - i) \<and> heap_ok h' \<and> env h' = env h \<and> brk h \<le> brk h' \<and>
    (\<forall>x<l. cells h' x = cells h x)"
  using assms
proof (induction "nat (n - i)" arbitrary: h i xs a)
  case 0
  then show ?case by (subst alloc_chunks.simps) auto
next
  case (Suc k)
  then have lt: "i < n" by simp
  obtain n0 where n0: "env h (brk h) = Some n0" "length (bdata n0) = 16" using Suc.prems(4) by blast
  obtain na where na: "cells h a = Some na" "length (bdata na) = 16" "bsize na = 0"
    using Suc.prems(2) by (auto simp: blank_def)
  let ?new = "brk h"
  have ne: "a \<noteq> ?new" "x < ?new" if "x \<in> set (xs @ [a])" for x
    using heap_okD [OF Suc.prems(3)] na Suc.prems(2) that by (auto simp: blank_def)
  define f where "f = n0\<lparr>bsize := 0, bnext := None\<rparr>"
  define h1 where "h1 = h\<lparr>cells := (cells h)(?new \<mapsto> f, a \<mapsto> na\<lparr>bnext := Some ?new\<rparr>), brk := Suc ?new\<rparr>"
  have an: "a \<noteq> ?new" using ne(1) [of a] by simp
  have step: "alloc_chunks h n i (Some a) (Some a) = alloc_chunks h1 n (i + 1) (Some ?new) (Some ?new)"
    using lt n0 na an
    by (subst alloc_chunks.simps) (simp add: cmalloc_def store_cell h1_def f_def fun_upd_twist)
  have d: "a \<notin> set xs" "?new \<notin> set xs" "a < ?new"
    using lchain_distinct [OF Suc.prems(1)] ne(2) by auto
  have "\<exists>h' bs. alloc_chunks h1 n (i + 1) (Some ?new) (Some ?new) = Some (Some (last (?new # bs)), h') \<and>
    lchain bnext (cells h') p ((xs @ [a]) @ ?new # bs) \<and>
    (\<forall>x\<in>set ((xs @ [a]) @ ?new # bs). blank h' x \<and> l \<le> x) \<and>
    length bs = nat (n - (i + 1)) \<and> heap_ok h' \<and> env h' = env h1 \<and> brk h1 \<le> brk h' \<and>
    (\<forall>x<l. cells h' x = cells h1 x)"
  proof (rule Suc.hyps(1))
    show "k = nat (n - (i + 1))" using Suc.hyps(2) by simp
    show "lchain bnext (cells h1) p ((xs @ [a]) @ [?new])"
      using Suc.prems(1) d an by (simp add: lseg_append h1_def f_def)
    show "\<forall>x\<in>set ((xs @ [a]) @ [?new]). blank h1 x"
      using Suc.prems(2) na n0 an by (auto simp: blank_def h1_def f_def)
    show "heap_ok h1" using Suc.prems(3) d(3) by (auto simp: heap_ok_def h1_def)
  qed (use Suc.prems(4-6) in \<open>auto simp: h1_def\<close>)
  then obtain h' bs where r: "alloc_chunks h1 n (i + 1) (Some ?new) (Some ?new) = Some (Some (last (?new # bs)), h')"
    "lchain bnext (cells h') p ((xs @ [a]) @ ?new # bs)"
    "\<forall>x\<in>set ((xs @ [a]) @ ?new # bs). blank h' x \<and> l \<le> x"
    "length bs = nat (n - (i + 1))" "heap_ok h'" "env h' = env h1" "brk h1 \<le> brk h'"
    "\<forall>x<l. cells h' x = cells h1 x" by blast
  have "\<forall>x<l. cells h' x = cells h x" using r(8) Suc.prems(5,6) by (auto simp: h1_def)
  then show ?case
    using r step lt by (intro exI [of _ h'] exI [of _ "?new # bs"]) (auto simp: h1_def)
qed

lemma AllocBufferList_holds:
  assumes "bl_env m"
  shows "\<exists>m' A. AllocBufferList m n = Some (Some (brk (lists m)), m') \<and>
    bl_holds m' (Some (brk (lists m))) A [] \<and> card A = nat (max n 1) \<and> bl_env m' \<and>
    (\<forall>x\<in>A. brk (nodes m) \<le> x) \<and> (\<forall>x<brk (nodes m). cells (nodes m') x = cells (nodes m) x) \<and>
    (\<forall>x. x \<noteq> brk (lists m) \<longrightarrow> cells (lists m') x = cells (lists m) x) \<and>
    brk (lists m') = Suc (brk (lists m)) \<and> brk (nodes m) \<le> brk (nodes m')"
proof -
  let ?l = "brk (lists m)" and ?a = "brk (nodes m)"
  obtain b0 where b0: "env (lists m) ?l = Some b0" using assms by (auto simp: bl_env_def)
  obtain n0 where n0: "env (nodes m) ?a = Some n0" "length (bdata n0) = 16"
    using assms by (auto simp: bl_env_def)
  define h where "h = (nodes m)\<lparr>cells := (cells (nodes m))(?a \<mapsto> n0\<lparr>bsize := 0, bnext := None\<rparr>),
      brk := Suc ?a\<rparr>"
  have ok: "heap_ok h" using assms by (auto simp: bl_env_def heap_ok_def h_def)
  have "\<exists>h' bs. alloc_chunks h n 1 (Some ?a) (Some ?a) = Some (Some (last (?a # bs)), h') \<and>
    lchain bnext (cells h') (Some ?a) ([] @ ?a # bs) \<and> (\<forall>x\<in>set ([] @ ?a # bs). blank h' x \<and> ?a \<le> x) \<and>
    length bs = nat (n - 1) \<and> heap_ok h' \<and> env h' = env h \<and> brk h \<le> brk h' \<and>
    (\<forall>x<?a. cells h' x = cells h x)"
    using ok n0 assms by (intro alloc_chunks_spec) (auto simp: h_def blank_def bl_env_def)
  then obtain h' bs where r: "alloc_chunks h n 1 (Some ?a) (Some ?a) = Some (Some (last (?a # bs)), h')"
    "lchain bnext (cells h') (Some ?a) (?a # bs)" "\<forall>x\<in>set (?a # bs). blank h' x \<and> ?a \<le> x"
    "length bs = nat (n - 1)" "heap_ok h'" "env h' = env (nodes m)" "\<forall>x<?a. cells h' x = cells (nodes m) x"
    "Suc ?a \<le> brk h'"
    by (auto simp: h_def)
  define b where "b = b0\<lparr>write_node := Some ?a, bhead := Some ?a, btail := Some (last (?a # bs)), read_pos := 0\<rparr>"
  define m' where "m' = m\<lparr>lists := (lists m)\<lparr>cells := (cells (lists m))(?l \<mapsto> b), brk := Suc ?l\<rparr>, nodes := h'\<rparr>"
  have al: "AllocBufferList m n = Some (Some ?l, m')"
    using r(1) b0 n0 unfolding h_def
    by (simp add: AllocBufferList_def cmalloc_def store_cell m'_def b_def)
  have "bl_rep m' (Some ?l) b [] ?a 0 bs"
    using r(2,3) by (auto simp: bl_rep_def m'_def b_def chunk_is_def blank_def)
  moreover have "bl_bytes m' b [?a] = []"
    using r(3) by (auto simp: bl_bytes_def b_def m'_def chunk_def blank_def)
  ultimately have "bl_holds m' (Some ?l) (set (?a # bs)) []"
    unfolding bl_holds_def by (metis append_Nil)
  moreover have "card (set (?a # bs)) = nat (max n 1)"
    using distinct_card [OF lchain_distinct [OF r(2)]] r(4) by (auto simp: nat_diff_distrib max_def)
  moreover have "bl_env m'" using assms r(5,6) by (auto simp: bl_env_def m'_def heap_ok_def)
  ultimately show ?thesis
    using al r(3,7,8) by (intro exI [of _ m'] exI [of _ "set (?a # bs)"]) (auto simp: m'_def)
qed

section \<open>Release\<close>

lemma free_chunks_spec:
  assumes "lchain bnext (cells (nodes m)) cur as" "cells (lists m) l = Some b"
  shows "\<exists>m'. free_chunks m (Some l) cur = Some m' \<and>
    cells (nodes m') = cells (nodes m) |` (- set as) \<and> brk (nodes m') = brk (nodes m) \<and>
    (\<exists>b'. cells (lists m') = (cells (lists m))(l \<mapsto> b')) \<and> brk (lists m') = brk (lists m) \<and>
    env (nodes m') = env (nodes m) \<and> env (lists m') = env (lists m)"
  using assms
proof (induction as arbitrary: m cur b)
  case Nil
  moreover have "cells (lists m) = (cells (lists m))(l \<mapsto> b)" using Nil.prems(2) by auto
  ultimately show ?case by (subst free_chunks.simps) (auto simp: restrict_map_def intro!: exI [of _ b])
next
  case (Cons a as)
  then obtain n where n: "cur = Some a" "cells (nodes m) a = Some n"
      "lchain bnext (cells (nodes m)) (bnext n) as" by auto
  have "a \<notin> set as" using lchain_distinct [OF Cons.prems(1)] by simp
  define m1 where "m1 = m\<lparr>lists := (lists m)\<lparr>cells := (cells (lists m))(l \<mapsto> b\<lparr>bhead := bnext n\<rparr>)\<rparr>,
      nodes := (nodes m)\<lparr>cells := (cells (nodes m))(a := None)\<rparr>\<rparr>"
  have step: "free_chunks m (Some l) cur = free_chunks m1 (Some l) (bnext n)"
    using n Cons.prems(2)
    by (subst free_chunks.simps) (simp add: store_cell cfree_cell m1_def)
  have "lchain bnext (cells (nodes m1)) (bnext n) as" "cells (lists m1) l = Some (b\<lparr>bhead := bnext n\<rparr>)"
    using n \<open>a \<notin> set as\<close> by (simp_all add: m1_def)
  from Cons.IH [OF this] obtain m' b' where m': "free_chunks m1 (Some l) (bnext n) = Some m'"
    "cells (nodes m') = cells (nodes m1) |` (- set as)" "brk (nodes m') = brk (nodes m1)"
    "cells (lists m') = (cells (lists m1))(l \<mapsto> b')" "brk (lists m') = brk (lists m1)"
    "env (nodes m') = env (nodes m1)" "env (lists m') = env (lists m1)" by blast
  have "cells (nodes m') = cells (nodes m) |` (- set (a # as))"
    unfolding m'(2) by (auto simp: m1_def restrict_map_def)
  with m' step show ?case
    by (intro exI [of _ m'] conjI exI [of _ b']) (simp_all add: m1_def)
qed

lemma FreeBufferList_spec:
  assumes "bl_holds m (Some l) A xs"
  shows "\<exists>m'. FreeBufferList m (Some l) = Some m' \<and> cells (nodes m') = cells (nodes m) |` (- A) \<and>
    cells (lists m') = (cells (lists m))(l := None) \<and> bl_frame (Some l) A m m'"
proof -
  obtain b fs w s es where r: "bl_rep m (Some l) b fs w s es" "A = set (fs @ w # es)"
    using assms(1) by (auto simp: bl_holds_def)
  have b: "cells (lists m) l = Some b" using bl_repD(1) [OF r(1)] by simp
  obtain m' b' where m': "free_chunks m (Some l) (bhead b) = Some m'"
    "cells (nodes m') = cells (nodes m) |` (- A)" "cells (lists m') = (cells (lists m))(l \<mapsto> b')"
    "brk (nodes m') = brk (nodes m)" "brk (lists m') = brk (lists m)"
    "env (nodes m') = env (nodes m)" "env (lists m') = env (lists m)"
    using free_chunks_spec [OF bl_repD(2) [OF r(1)] b] r(2) by auto
  show ?thesis
    using m' b by (auto simp: FreeBufferList_def cfree_cell bl_frame_def restrict_map_def)
qed

section \<open>Properties\<close>

text \<open>A memory in which every \<open>malloc\<close> succeeds, for the witnesses.\<close>

definition blmem0 :: blmem where
  "blmem0 = \<lparr>lists = \<lparr>cells = (\<lambda>_. None), brk = 0, env = (\<lambda>_. Some \<lparr>bhead = None, btail = None,
       read_pos = 7, write_node = None\<rparr>)\<rparr>,
     nodes = \<lparr>cells = (\<lambda>_. None), brk = 0, env = (\<lambda>_. Some \<lparr>bdata = replicate 16 7, bsize = 9, bnext = None\<rparr>)\<rparr>\<rparr>"

lemma blmem0_env: "bl_env blmem0"
  by (simp add: bl_env_def blmem0_def heap_ok_def)

text \<open>A list of two chunks, the second of which holds \<open>s\<close> bytes.\<close>

definition blpair :: "int \<Rightarrow> blmem" where
  "blpair s = \<lparr>lists = \<lparr>cells = [0 \<mapsto> \<lparr>bhead = Some 0, btail = Some 1, read_pos = 0, write_node = Some 1\<rparr>],
       brk = 1, env = (\<lambda>_. None)\<rparr>,
     nodes = \<lparr>cells = [0 \<mapsto> \<lparr>bdata = replicate 16 5, bsize = 16, bnext = Some 1\<rparr>,
       1 \<mapsto> \<lparr>bdata = replicate 16 6, bsize = s, bnext = None\<rparr>], brk = 2, env = (\<lambda>_. None)\<rparr>\<rparr>"

lemma blpair_holds:
  assumes "0 \<le> s" "s \<le> 16"
  shows "bl_holds (blpair s) (Some 0) {0, 1} (replicate 16 5 @ replicate (nat s) 6)"
proof -
  have "bl_rep (blpair s) (Some 0) \<lparr>bhead = Some 0, btail = Some 1, read_pos = 0, write_node = Some 1\<rparr> [0] 1 s []"
    using assms by (simp add: bl_rep_def blpair_def chunk_is_def)
  moreover have "bl_bytes (blpair s) \<lparr>bhead = Some 0, btail = Some 1, read_pos = 0, write_node = Some 1\<rparr> ([0] @ [1])
      = replicate 16 5 @ replicate (nat s) 6"
    using assms by (simp add: bl_bytes_def blpair_def chunk_def min_def)
  moreover have "{0, 1} = set ([0] @ (1::nat) # [])" by auto
  ultimately show ?thesis unfolding bl_holds_def by metis
qed

text \<open>
  C7. A buffer list is a first-in first-out queue: whatever sequence of receives (into the
  space \<open>BufferListGetSpace\<close> hands out, then \<open>BufferListPush\<close>) and sends (from the data
  \<open>BufferListGetData\<close> points at, then \<open>BufferListPop\<close>) is run on a freshly allocated list,
  the bytes sent are a prefix of the bytes received, and the list holds the rest.
\<close>
theorem buffer_list_fifo:
  assumes "bl_env m" "AllocBufferList m n = Some (p, m1)"
    and "qrun (bl_recv p) (bl_send p) m1 ops = Some (sent, m2)"
  shows "\<exists>A rest. received ops = sent @ rest \<and> bl_holds m2 p A rest \<and> card A = nat (max n 1)"
proof -
  obtain A where A: "bl_holds m1 p A []" "card A = nat (max n 1)"
    using AllocBufferList_holds [OF assms(1), of n] assms(2) by auto
  from bl.run_in_order [OF A(1) assms(3)] A(2) show ?thesis by auto
qed

theorem buffer_list_fifo_witness:
  "\<exists>p m1 m2 A rest. AllocBufferList blmem0 2 = Some (p, m1) \<and>
     qrun (bl_recv p) (bl_send p) m1 [Recv [1, 2, 3], Send 2, Recv [4]] = Some ([1, 2], m2) \<and>
     [1, 2, 3, 4] = [1, 2] @ rest \<and> bl_holds m2 p A rest"
proof -
  obtain p m1 m2 where al: "AllocBufferList blmem0 2 = Some (p, m1)"
    and run: "qrun (bl_recv p) (bl_send p) m1 [Recv [1, 2, 3], Send 2, Recv [4]] = Some ([1, 2], m2)"
    by (simp add: AllocBufferList_def blmem0_def cmalloc_def store_def alloc_chunks.simps bl_recv_def
        bl_send_def BufferListGetSpace_def BufferListGetData_def BufferListPush_def BufferListPop_def
        poke_def peek_def BUFFER_CHUNK_SIZE_def cint_def int_min_def int_max_def numeral_eq_Suc)
  from buffer_list_fifo [OF blmem0_env al run] al run show ?thesis by auto
qed

text \<open>
  Progress of the reading side: \<open>BufferListGetData\<close> returns \<open>NULL\<close> exactly when the list
  is empty; otherwise it offers at least one byte, what it offers are the next bytes of the
  queue, and popping any number of them removes just those.
\<close>
theorem buffer_list_get_data:
  assumes "bl_holds m p A xs"
  shows "\<exists>buf len. BufferListGetData m p = Some (buf, len) \<and> (buf = None \<longleftrightarrow> xs = []) \<and>
    len \<le> int (length xs) \<and> (xs \<noteq> [] \<longrightarrow> 0 < len) \<and>
    (\<forall>n. 0 < n \<longrightarrow> n \<le> len \<longrightarrow> peek m buf n = Some (take (nat n) xs) \<and>
       (\<exists>m'. BufferListPop m p n = Some (m', False) \<and> bl_holds m' p A (drop (nat n) xs) \<and> bl_frame p A m m'))"
  by (rule bl_send_spec [OF assms]) blast

theorem buffer_list_get_data_witness:
  "\<exists>buf len. BufferListGetData (blpair 4) (Some 0) = Some (buf, len) \<and> buf \<noteq> None \<and> 0 < len"
  using buffer_list_get_data [OF blpair_holds, of 4] by auto

text \<open>
  The space a list hands out: \<open>BufferListGetSpace\<close> answers \<open>NULL\<close> only when the last
  chunk of the list is full; otherwise it offers at most 16 bytes, any non-empty part of
  which can be filled and pushed.
\<close>
theorem buffer_list_get_space:
  assumes "bl_holds m p A xs"
  shows "\<exists>buf len. BufferListGetSpace m p = Some (buf, len) \<and> 0 \<le> len \<and> len \<le> 16 \<and>
    (buf = None \<longrightarrow> 16 * card A - length xs \<le> 16) \<and>
    (\<forall>bs. bs \<noteq> [] \<longrightarrow> int (length bs) \<le> len \<longrightarrow>
       (\<exists>m'. bl_recv p m bs = Some m' \<and> bl_holds m' p A (xs @ bs) \<and> bl_frame p A m m'))"
proof -
  obtain b fs w s es where r: "bl_rep m p b fs w s es" "A = set (fs @ w # es)"
      "xs = bl_bytes m b (fs @ [w])" using assms(1) by (auto simp: bl_holds_def)
  note R = bl_repD [OF r(1)]
  obtain buf len where sp: "BufferListGetSpace m p = Some (buf, len)" "0 \<le> len" "len \<le> 16"
      "buf = None \<longrightarrow> es = [] \<and> s = 16"
    using GetSpace_rep [OF r(1)] R(8,9) by (cases "es = [] \<and> s = 16") auto
  have "16 * card A - length xs \<le> 16" if "es = [] \<and> s = 16"
  proof -
    have "card A = length (fs @ w # es)" unfolding r(2) by (rule distinct_card [OF R(13)])
    moreover have "nat (read_pos b) \<le> 16" using R(8-12) by (cases fs) auto
    ultimately show ?thesis using length_bl_bytes [OF r(1)] r(3) that by simp
  qed
  moreover have "\<exists>m'. bl_recv p m bs = Some m' \<and> bl_holds m' p A (xs @ bs) \<and> bl_frame p A m m'"
    if "bs \<noteq> []" "int (length bs) \<le> len" for bs
    using bl_recv_total [OF assms sp(1)] bl_recv_spec [OF assms] that by blast
  ultimately show ?thesis using sp by blast
qed

theorem buffer_list_get_space_witness:
  "\<exists>buf len. BufferListGetSpace (blpair 4) (Some 0) = Some (buf, len) \<and> len \<le> 16"
  using buffer_list_get_space [OF blpair_holds, of 4] by auto

text \<open>What happens to a list that has been filled completely.\<close>

lemma stuck_space:
  assumes "bl_holds m p A xs" "length xs = 16 * card A" "2 \<le> card A"
    and "BufferListPop m p 16 = Some (m', e)"
  shows "length (drop 16 xs) + 16 = 16 * card A \<and> bl_holds m' p A (drop 16 xs) \<and>
    (\<exists>a. BufferListGetSpace m' p = Some (Some a, 0)) \<and> (\<exists>q. BufferListGetData m p = Some (Some q, 16))"
proof -
  obtain b fs w s es where r: "bl_rep m p b fs w s es" "A = set (fs @ w # es)"
      "xs = bl_bytes m b (fs @ [w])" using assms(1) by (auto simp: bl_holds_def)
  note R = bl_repD [OF r(1)]
  have card: "card A = length fs + 1 + length es"
    using distinct_card [OF R(13)] by (simp add: r(2))
  have lenx: "16 * (length fs + 1 + length es) = 16 * length fs + nat s - nat (read_pos b)"
    using length_bl_bytes [OF r(1)] r(3) assms(2) card by simp
  then have es: "es = []" "s = 16" "read_pos b = 0" using R(8-10) by (cases es; force)+
  then have fs: "fs \<noteq> []" using card assms(3) by auto
  have h: "bl_holds m' p A (drop 16 xs)"
    using bl_send_spec [OF assms(1)]
  proof -
    have "(0::int) \<le> 16" "16 \<le> (if fs = [] then s else 16) - read_pos b" using es fs by auto
    from Pop_rep [OF r(1) this] show ?thesis
      using assms(4) r(2,3) unfolding bl_holds_def by (metis Pair_inject nat_numeral option.inject)
  qed
  obtain l where l: "p = Some l" "cells (lists m) l = Some b" using R(1) by (cases p) auto
  obtain f fs' where f: "fs = f # fs'" using fs by (cases fs) auto
  obtain n where n: "cells (nodes m) f = Some n" "length (bdata n) = 16" "bsize n = 16"
    using bl_head_chunk [OF r(1)] f by auto
  obtain nw where nw: "cells (nodes m) w = Some nw" "bsize nw = 16" using R(6) es by (auto simp: chunk_is_def)
  have "f \<noteq> w" using R(13) f by auto
  then have "BufferListGetSpace m' p = Some (Some (w, 16), 0)"
    using assms(4) l n nw bl_head [OF r(1)] R(3,4) es f
    by (auto simp: BufferListPop_def BufferListGetSpace_def store_cell cint_def int_min_def int_max_def
        BUFFER_CHUNK_SIZE_def Let_def)
  moreover have "length (drop 16 xs) + 16 = 16 * card A" using assms(2,3) by simp
  moreover have "\<exists>q. BufferListGetData m p = Some (Some q, 16)"
    using GetData_rep [OF r(1)] fs es(3) by auto
  ultimately show ?thesis using h by blast
qed

text \<open>
  A list that has been filled completely gets stuck: after its first chunk has been sent,
  \<open>BufferListGetSpace\<close> returns a pointer that is not \<open>NULL\<close> with length 0, although a whole
  chunk is free. (\<open>write_node\<close> stays on the old tail, which is full and no longer the tail.)
  A caller that passes the pointer on to \<open>recv\<close> reads 0 bytes, which means end of stream.
\<close>
theorem full_buffer_list_offers_no_space:
  assumes "bl_holds m p A xs" "length xs = 16 * card A" "2 \<le> card A"
    and "BufferListPop m p 16 = Some (m', e)"
  shows "length (drop 16 xs) + 16 = 16 * card A \<and> bl_holds m' p A (drop 16 xs) \<and>
    (\<exists>a. BufferListGetSpace m' p = Some (Some a, 0))"
  using stuck_space [OF assms] by blast

theorem full_buffer_list_offers_no_space_witness:
  "\<exists>m'. BufferListPop (blpair 16) (Some 0) 16 = Some (m', False) \<and>
     (\<exists>a. BufferListGetSpace m' (Some 0) = Some (Some a, 0))"
proof -
  obtain m' where m': "BufferListPop (blpair 16) (Some 0) 16 = Some (m', False)"
    by (simp add: BufferListPop_def blpair_def store_def cint_def int_min_def int_max_def Let_def)
  have "bl_holds (blpair 16) (Some 0) {0, 1} (replicate 16 5 @ replicate (nat 16) 6)"
    by (rule blpair_holds) simp_all
  from full_buffer_list_offers_no_space [OF this _ _ m'] m' show ?thesis by simp
qed

text \<open>
  \<open>FreeBufferList\<close> releases the list and each of its chunks exactly once and nothing else.
\<close>
theorem free_buffer_list_exact:
  assumes "bl_holds m (Some l) A xs"
  shows "\<exists>m'. FreeBufferList m (Some l) = Some m' \<and> cells (nodes m') = cells (nodes m) |` (- A) \<and>
    cells (lists m') = (cells (lists m))(l := None)"
  using FreeBufferList_spec [OF assms] by blast

theorem free_buffer_list_exact_witness:
  "\<exists>m'. FreeBufferList (blpair 4) (Some 0) = Some m' \<and> cells (nodes m') = (\<lambda>_. None)"
  using free_buffer_list_exact [OF blpair_holds, of 4]
  by (auto simp: blpair_def restrict_map_def fun_eq_iff)

end
