(* ===== verification/Ae.thy ===== *)
theory Ae
  imports Linked
begin

unbundle bit_operations_syntax

text \<open>
  The event loop of the TCP proxy, \<open>redis_ae/tcpproxy/ae.c\<close> and \<open>ae.h\<close>. Callbacks are
  names of type \<open>'p\<close>; what they do is the argument \<open>P\<close> of the functions that call them, so a
  client of the loop instantiates \<open>P\<close> with its own handlers. The multiplexing layer that
  \<open>ae.c\<close> includes is the argument \<open>A\<close>; \<open>Ae_Backends\<close> models the three files it can be.
  \<open>gettimeofday\<close> reads the next entry of \<open>clock\<close>. The \<open>zmalloc\<close> of this program does not
  return \<open>NULL\<close> (it aborts), \<open>aeCreateEventLoop\<close> still tests for it.
\<close>

definition AE_OK :: int where "AE_OK = 0"
definition AE_ERR :: int where "AE_ERR = -1"
definition AE_NONE :: int where "AE_NONE = 0"
definition AE_READABLE :: int where "AE_READABLE = 1"
definition AE_WRITABLE :: int where "AE_WRITABLE = 2"
definition AE_FILE_EVENTS :: int where "AE_FILE_EVENTS = 1"
definition AE_TIME_EVENTS :: int where "AE_TIME_EVENTS = 2"
definition AE_ALL_EVENTS :: int where "AE_ALL_EVENTS = AE_FILE_EVENTS OR AE_TIME_EVENTS"
definition AE_DONT_WAIT :: int where "AE_DONT_WAIT = 4"
definition AE_NOMORE :: int where "AE_NOMORE = -1"

lemmas AE_defs = AE_OK_def AE_ERR_def AE_NONE_def AE_READABLE_def AE_WRITABLE_def
  AE_FILE_EVENTS_def AE_TIME_EVENTS_def AE_ALL_EVENTS_def AE_DONT_WAIT_def AE_NOMORE_def

text \<open>A callback or client pointer that has not been set is \<open>None\<close>.\<close>

record ('p, 'c) aeFileEvent =
  fmask :: int
  rfileProc :: "'p option"
  wfileProc :: "'p option"
  clientData :: "'c option"

record ('p, 'c) aeTimeEvent =
  te_id :: int
  when_sec :: int
  when_ms :: int
  timeProc :: 'p
  finalizerProc :: "'p option"
  teData :: 'c
  te_next :: ptr

record ('p, 'c, 'k) aeEventLoop =
  maxfd :: int
  setsize :: int
  timeEventNextId :: int
  events :: "('p, 'c) aeFileEvent list"
  fired :: "(int \<times> int) list"
  timeEventHead :: ptr
  stop :: bool
  apidata :: 'k
  beforesleep :: "'p option"

record ('p, 'c, 'k) ae_world =
  el :: "('p, 'c, 'k) aeEventLoop"
  timers :: "('p, 'c) aeTimeEvent heap"
  clock :: "nat \<Rightarrow> int \<times> int"
  ticks :: nat

text \<open>The functions of the multiplexing layer, and what the callbacks do.\<close>

record ('p, 'c, 'k) ae_api =
  aeApiAdd :: "('p, 'c, 'k) aeEventLoop \<Rightarrow> int \<Rightarrow> int \<Rightarrow> (int \<times> 'k) option"
  aeApiDel :: "('p, 'c, 'k) aeEventLoop \<Rightarrow> int \<Rightarrow> int \<Rightarrow> 'k option"
  aeApiWait :: "('p, 'c, 'k) aeEventLoop \<Rightarrow> (int \<times> int) option \<Rightarrow> (int \<times> (int \<times> int) list \<times> 'k) option"

record ('p, 'c, 'w) ae_procs =
  file_proc :: "'p \<Rightarrow> 'w \<Rightarrow> int \<Rightarrow> 'c option \<Rightarrow> int \<Rightarrow> 'w option"
  time_proc :: "'p \<Rightarrow> 'w \<Rightarrow> int \<Rightarrow> 'c \<Rightarrow> (int \<times> 'w) option"
  final_proc :: "'p \<Rightarrow> 'w \<Rightarrow> 'c \<Rightarrow> 'w option"
  sleep_proc :: "'p \<Rightarrow> 'w \<Rightarrow> 'w option"

section \<open>File events\<close>

text \<open>
  \<open>aeCreateEventLoop\<close>: the three \<open>zmalloc\<close>s succeed or not as \<open>ok\<close> says (loop, events,
  fired), \<open>api\<close> is the result of \<open>aeApiCreate\<close>, \<open>raw\<close> and \<open>rawf\<close> are the uninitialised arrays.
  The second component counts the blocks that are still allocated at the end.
\<close>

definition aeCreateEventLoop :: "bool \<times> bool \<times> bool \<Rightarrow> 'k option \<Rightarrow> ('p, 'c) aeFileEvent list \<Rightarrow>
    (int \<times> int) list \<Rightarrow> int \<Rightarrow> ('p, 'c, 'k) aeEventLoop option \<times> nat" where
  "aeCreateEventLoop ok api raw rawf setsz = (case ok of (ok1, ok2, ok3) \<Rightarrow>
     if \<not> ok1 then (None, 0)
     else if \<not> ok2 \<or> \<not> ok3 then (None, 0)
     else (case api of
         None \<Rightarrow> (None, 0)
       | Some k \<Rightarrow> (Some \<lparr>maxfd = -1, setsize = setsz, timeEventNextId = 0,
            events = map (\<lambda>fe. fe\<lparr>fmask := AE_NONE\<rparr>) raw, fired = rawf, timeEventHead = None,
            stop = False, apidata = k, beforesleep = None\<rparr>, 3)))"

definition aeStop :: "('p, 'c, 'k) aeEventLoop \<Rightarrow> ('p, 'c, 'k) aeEventLoop" where
  "aeStop l = l\<lparr>stop := True\<rparr>"

definition aeCreateFileEvent :: "('p, 'c, 'k) ae_api \<Rightarrow> ('p, 'c, 'k) aeEventLoop \<Rightarrow> int \<Rightarrow> int \<Rightarrow> 'p \<Rightarrow> 'c option \<Rightarrow>
    (int \<times> ('p, 'c, 'k) aeEventLoop) option" where
  "aeCreateFileEvent A l fd msk p cd = (if fd \<ge> setsize l then Some (AE_ERR, l) else do {
     fe \<leftarrow> aread (events l) fd;
     (r, k) \<leftarrow> aeApiAdd A l fd msk;
     let l = l\<lparr>apidata := k\<rparr>;
     if r = -1 then Some (AE_ERR, l) else do {
       let fe = fe\<lparr>fmask := fmask fe OR msk\<rparr>;
       let fe = (if msk AND AE_READABLE \<noteq> 0 then fe\<lparr>rfileProc := Some p\<rparr> else fe);
       let fe = (if msk AND AE_WRITABLE \<noteq> 0 then fe\<lparr>wfileProc := Some p\<rparr> else fe);
       let fe = fe\<lparr>clientData := cd\<rparr>;
       evs \<leftarrow> awrite (events l) fd fe;
       let l = l\<lparr>events := evs\<rparr>;
       let l = (if fd > maxfd l then l\<lparr>maxfd := fd\<rparr> else l);
       Some (AE_OK, l)
     }
   })"

text \<open>\<open>for (j = eventLoop->maxfd-1; j >= 0; j--)\<close>\<close>

function last_used :: "('p, 'c) aeFileEvent list \<Rightarrow> int \<Rightarrow> int option" where
  "last_used evs j = (if j \<ge> 0 then do {
       fe \<leftarrow> aread evs j;
       if fmask fe \<noteq> AE_NONE then Some j else last_used evs (j - 1)
     } else Some j)"
  by pat_completeness auto
termination by (relation "measure (\<lambda>(evs, j). nat (j + 1))") auto

declare last_used.simps [simp del]

definition aeDeleteFileEvent :: "('p, 'c, 'k) ae_api \<Rightarrow> ('p, 'c, 'k) aeEventLoop \<Rightarrow> int \<Rightarrow> int \<Rightarrow>
    ('p, 'c, 'k) aeEventLoop option" where
  "aeDeleteFileEvent A l fd msk = (if fd \<ge> setsize l then Some l else do {
     fe \<leftarrow> aread (events l) fd;
     if fmask fe = AE_NONE then Some l else do {
       let m = fmask fe AND NOT msk;
       evs \<leftarrow> awrite (events l) fd (fe\<lparr>fmask := m\<rparr>);
       let l = l\<lparr>events := evs\<rparr>;
       l \<leftarrow> (if fd = maxfd l \<and> m = AE_NONE then do {
               j \<leftarrow> last_used evs (maxfd l - 1);
               Some (l\<lparr>maxfd := j\<rparr>)
             } else Some l);
       k \<leftarrow> aeApiDel A l fd msk;
       Some (l\<lparr>apidata := k\<rparr>)
     }
   })"

definition aeGetFileEvents :: "('p, 'c, 'k) aeEventLoop \<Rightarrow> int \<Rightarrow> int option" where
  "aeGetFileEvents l fd = (if fd \<ge> setsize l then Some 0 else do {
     fe \<leftarrow> aread (events l) fd;
     Some (fmask fe)
   })"

section \<open>Time events\<close>

definition aeGetTime :: "('p, 'c, 'k, 'z) ae_world_scheme \<Rightarrow> ((int \<times> int) \<times> ('p, 'c, 'k, 'z) ae_world_scheme) option" where
  "aeGetTime w = do {
     let (s, us) = clock w (ticks w);
     ms \<leftarrow> cdiv us 1000;
     Some ((s, ms), w\<lparr>ticks := Suc (ticks w)\<rparr>)
   }"

definition aeAddMillisecondsToNow :: "('p, 'c, 'k, 'z) ae_world_scheme \<Rightarrow> int \<Rightarrow>
    ((int \<times> int) \<times> ('p, 'c, 'k, 'z) ae_world_scheme) option" where
  "aeAddMillisecondsToNow w milliseconds = do {
     ((cur_sec, cur_ms), w) \<leftarrow> aeGetTime w;
     q \<leftarrow> cdiv milliseconds 1000;
     r \<leftarrow> cmod milliseconds 1000;
     let sec = cur_sec + q;
     let ms = cur_ms + r;
     if ms \<ge> 1000 then Some ((sec + 1, ms - 1000), w) else Some ((sec, ms), w)
   }"

definition aeCreateTimeEvent :: "('p, 'c, 'k, 'z) ae_world_scheme \<Rightarrow> int \<Rightarrow> 'p \<Rightarrow> 'c \<Rightarrow> 'p option \<Rightarrow>
    (int \<times> ('p, 'c, 'k, 'z) ae_world_scheme) option" where
  "aeCreateTimeEvent w milliseconds p cd fin = do {
     let i = timeEventNextId (el w);
     let w = w\<lparr>el := (el w)\<lparr>timeEventNextId := i + 1\<rparr>\<rparr>;
     let (te, h) = cmalloc (timers w);
     let w = w\<lparr>timers := h\<rparr>;
     if te = None then Some (AE_ERR, w) else do {
       h \<leftarrow> store (timers w) te (\<lambda>t. t\<lparr>te_id := i\<rparr>);
       let w = w\<lparr>timers := h\<rparr>;
       ((s, ms), w) \<leftarrow> aeAddMillisecondsToNow w milliseconds;
       h \<leftarrow> store (timers w) te (\<lambda>t. t\<lparr>when_sec := s, when_ms := ms, timeProc := p, finalizerProc := fin,
              teData := cd, te_next := timeEventHead (el w)\<rparr>);
       Some (i, w\<lparr>timers := h, el := (el w)\<lparr>timeEventHead := te\<rparr>\<rparr>)
     }
   }"

text \<open>\<open>while(te)\<close> of \<open>aeDeleteTimeEvent\<close>.\<close>

partial_function (option) del_timer :: "('p, 'c, ('p, 'c, 'k, 'z) ae_world_scheme) ae_procs \<Rightarrow>
    ('p, 'c, 'k, 'z) ae_world_scheme \<Rightarrow> int \<Rightarrow> ptr \<Rightarrow> ptr \<Rightarrow> (int \<times> ('p, 'c, 'k, 'z) ae_world_scheme) option" where
  "del_timer P w i prev te = (if te = None then Some (AE_ERR, w) else do {
     t \<leftarrow> load (timers w) te;
     if te_id t = i then do {
       w \<leftarrow> (if prev = None then Some (w\<lparr>el := (el w)\<lparr>timeEventHead := te_next t\<rparr>\<rparr>)
             else do {
               h \<leftarrow> store (timers w) prev (\<lambda>p. p\<lparr>te_next := te_next t\<rparr>);
               Some (w\<lparr>timers := h\<rparr>)
             });
       w \<leftarrow> (case finalizerProc t of None \<Rightarrow> Some w | Some f \<Rightarrow> final_proc P f w (teData t));
       h \<leftarrow> cfree (timers w) te;
       Some (AE_OK, w\<lparr>timers := h\<rparr>)
     } else del_timer P w i te (te_next t)
   })"

definition aeDeleteTimeEvent :: "('p, 'c, ('p, 'c, 'k, 'z) ae_world_scheme) ae_procs \<Rightarrow>
    ('p, 'c, 'k, 'z) ae_world_scheme \<Rightarrow> int \<Rightarrow> (int \<times> ('p, 'c, 'k, 'z) ae_world_scheme) option" where
  "aeDeleteTimeEvent P w i = del_timer P w i None (timeEventHead (el w))"

text \<open>\<open>while(te)\<close> of \<open>aeSearchNearestTimer\<close>.\<close>

partial_function (option) nearest_timer :: "('p, 'c) aeTimeEvent heap \<Rightarrow> ptr \<Rightarrow> ptr \<Rightarrow> ptr option" where
  "nearest_timer h te nearest = (if te = None then Some nearest else do {
     t \<leftarrow> load h te;
     better \<leftarrow> (if nearest = None then Some True else do {
        n \<leftarrow> load h nearest;
        Some (when_sec t < when_sec n \<or> (when_sec t = when_sec n \<and> when_ms t < when_ms n))
      });
     nearest_timer h (te_next t) (if better then te else nearest)
   })"

definition aeSearchNearestTimer :: "('p, 'c, 'k, 'z) ae_world_scheme \<Rightarrow> ptr option" where
  "aeSearchNearestTimer w = nearest_timer (timers w) (timeEventHead (el w)) None"

text \<open>\<open>while(te)\<close> of \<open>processTimeEvents\<close>; \<open>te\<close> is used again after its callback has run.\<close>

partial_function (option) time_loop :: "('p, 'c, ('p, 'c, 'k, 'z) ae_world_scheme) ae_procs \<Rightarrow> int \<Rightarrow>
    ('p, 'c, 'k, 'z) ae_world_scheme \<Rightarrow> ptr \<Rightarrow> int \<Rightarrow> (int \<times> ('p, 'c, 'k, 'z) ae_world_scheme) option" where
  "time_loop P maxId w te processed = (if te = None then Some (processed, w) else do {
     t \<leftarrow> load (timers w) te;
     if te_id t > maxId then time_loop P maxId w (te_next t) processed
     else do {
       ((now_sec, now_ms), w) \<leftarrow> aeGetTime w;
       if now_sec > when_sec t \<or> (now_sec = when_sec t \<and> now_ms \<ge> when_ms t) then do {
         (retval, w) \<leftarrow> time_proc P (timeProc t) w (te_id t) (teData t);
         w \<leftarrow> (if retval \<noteq> AE_NOMORE then do {
                  ((s, ms), w) \<leftarrow> aeAddMillisecondsToNow w retval;
                  h \<leftarrow> store (timers w) te (\<lambda>t. t\<lparr>when_sec := s, when_ms := ms\<rparr>);
                  Some (w\<lparr>timers := h\<rparr>)
                } else do {
                  (r, w) \<leftarrow> aeDeleteTimeEvent P w (te_id t);
                  Some w
                });
         time_loop P maxId w (timeEventHead (el w)) (processed + 1)
       } else time_loop P maxId w (te_next t) processed
     }
   })"

definition processTimeEvents :: "('p, 'c, ('p, 'c, 'k, 'z) ae_world_scheme) ae_procs \<Rightarrow>
    ('p, 'c, 'k, 'z) ae_world_scheme \<Rightarrow> (int \<times> ('p, 'c, 'k, 'z) ae_world_scheme) option" where
  "processTimeEvents P w = time_loop P (timeEventNextId (el w) - 1) w (timeEventHead (el w)) 0"

section \<open>The loop\<close>

text \<open>The time until the timer \<open>when\<close> fires, as the argument of the poll.\<close>

definition time_to :: "int \<times> int \<Rightarrow> int \<times> int \<Rightarrow> int \<times> int" where
  "time_to due now = (case (due, now) of ((w_sec, w_ms), (now_sec, now_ms)) \<Rightarrow>
     let sec = w_sec - now_sec;
         (usec, sec) = (if w_ms < now_ms then ((w_ms + 1000 - now_ms) * 1000, sec - 1)
                        else ((w_ms - now_ms) * 1000, sec));
         sec = (if sec < 0 then 0 else sec);
         usec = (if usec < 0 then 0 else usec)
     in (sec, usec))"

definition poll_timeout :: "('p, 'c, 'k, 'z) ae_world_scheme \<Rightarrow> int \<Rightarrow>
    ((int \<times> int) option \<times> ('p, 'c, 'k, 'z) ae_world_scheme) option" where
  "poll_timeout w flags = do {
     shortest \<leftarrow> (if flags AND AE_TIME_EVENTS \<noteq> 0 \<and> flags AND AE_DONT_WAIT = 0
                  then aeSearchNearestTimer w else Some None);
     if shortest \<noteq> None then do {
       (now, w) \<leftarrow> aeGetTime w;
       t \<leftarrow> load (timers w) shortest;
       Some (Some (time_to (when_sec t, when_ms t) now), w)
     } else if flags AND AE_DONT_WAIT \<noteq> 0 then Some (Some (0, 0), w)
     else Some (None, w)
   }"

text \<open>One fired event: the handlers run when the event is still registered.\<close>

definition fire_event :: "('p, 'c, ('p, 'c, 'k, 'z) ae_world_scheme) ae_procs \<Rightarrow>
    ('p, 'c, 'k, 'z) ae_world_scheme \<Rightarrow> int \<Rightarrow> int \<Rightarrow> ('p, 'c, 'k, 'z) ae_world_scheme option" where
  "fire_event P w fd msk = do {
     fe \<leftarrow> aread (events (el w)) fd;
     let rfired = fmask fe AND msk AND AE_READABLE \<noteq> 0;
     w \<leftarrow> (if rfired then do {
             p \<leftarrow> rfileProc fe;
             file_proc P p w fd (clientData fe) msk
           } else Some w);
     fe \<leftarrow> aread (events (el w)) fd;
     if fmask fe AND msk AND AE_WRITABLE \<noteq> 0 then
       (if \<not> rfired \<or> wfileProc fe \<noteq> rfileProc fe then do {
          p \<leftarrow> wfileProc fe;
          file_proc P p w fd (clientData fe) msk
        } else Some w)
     else Some w
   }"

function fire_loop :: "('p, 'c, ('p, 'c, 'k, 'z) ae_world_scheme) ae_procs \<Rightarrow>
    ('p, 'c, 'k, 'z) ae_world_scheme \<Rightarrow> int \<Rightarrow> int \<Rightarrow> ('p, 'c, 'k, 'z) ae_world_scheme option" where
  "fire_loop P w j numevents = (if j < numevents then do {
     (fd, msk) \<leftarrow> aread (fired (el w)) j;
     w \<leftarrow> fire_event P w fd msk;
     fire_loop P w (j + 1) numevents
   } else Some w)"
  by pat_completeness auto
termination by (relation "measure (\<lambda>(P, w, j, numevents). nat (numevents - j))") auto

declare fire_loop.simps [simp del]

definition aeProcessEvents :: "('p, 'c, 'k) ae_api \<Rightarrow> ('p, 'c, ('p, 'c, 'k, 'z) ae_world_scheme) ae_procs \<Rightarrow>
    ('p, 'c, 'k, 'z) ae_world_scheme \<Rightarrow> int \<Rightarrow> (int \<times> ('p, 'c, 'k, 'z) ae_world_scheme) option" where
  "aeProcessEvents A P w flags =
     (if flags AND AE_TIME_EVENTS = 0 \<and> flags AND AE_FILE_EVENTS = 0 then Some (0, w) else do {
        (processed, w) \<leftarrow>
          (if maxfd (el w) \<noteq> -1 \<or> (flags AND AE_TIME_EVENTS \<noteq> 0 \<and> flags AND AE_DONT_WAIT = 0) then do {
             (tvp, w) \<leftarrow> poll_timeout w flags;
             (numevents, frd, k) \<leftarrow> aeApiWait A (el w) tvp;
             let w = w\<lparr>el := (el w)\<lparr>fired := frd, apidata := k\<rparr>\<rparr>;
             w \<leftarrow> fire_loop P w 0 numevents;
             Some (max 0 numevents, w)
           } else Some (0, w));
        (n, w) \<leftarrow> (if flags AND AE_TIME_EVENTS \<noteq> 0 then processTimeEvents P w else Some (0, w));
        Some (processed + n, w)
      })"

text \<open>\<open>while (!eventLoop->stop)\<close>\<close>

partial_function (option) main_loop :: "('p, 'c, 'k) ae_api \<Rightarrow> ('p, 'c, ('p, 'c, 'k, 'z) ae_world_scheme) ae_procs \<Rightarrow>
    ('p, 'c, 'k, 'z) ae_world_scheme \<Rightarrow> ('p, 'c, 'k, 'z) ae_world_scheme option" where
  "main_loop A P w = (if stop (el w) then Some w else do {
     w \<leftarrow> (case beforesleep (el w) of None \<Rightarrow> Some w | Some p \<Rightarrow> sleep_proc P p w);
     (n, w) \<leftarrow> aeProcessEvents A P w AE_ALL_EVENTS;
     main_loop A P w
   })"

definition aeMain :: "('p, 'c, 'k) ae_api \<Rightarrow> ('p, 'c, ('p, 'c, 'k, 'z) ae_world_scheme) ae_procs \<Rightarrow>
    ('p, 'c, 'k, 'z) ae_world_scheme \<Rightarrow> ('p, 'c, 'k, 'z) ae_world_scheme option" where
  "aeMain A P w = main_loop A P (w\<lparr>el := (el w)\<lparr>stop := False\<rparr>\<rparr>)"

definition aeSetBeforeSleepProc :: "('p, 'c, 'k) aeEventLoop \<Rightarrow> 'p option \<Rightarrow> ('p, 'c, 'k) aeEventLoop" where
  "aeSetBeforeSleepProc l p = l\<lparr>beforesleep := p\<rparr>"

text \<open>\<open>aeWait\<close>: \<open>poll\<close> answers a return value and the bits \<open>POLLIN\<close>, \<open>POLLOUT\<close> of \<open>revents\<close>.\<close>

definition aeWait :: "(int \<Rightarrow> bool \<Rightarrow> bool \<Rightarrow> int \<Rightarrow> int \<times> bool \<times> bool) \<Rightarrow> int \<Rightarrow> int \<Rightarrow> int \<Rightarrow> int" where
  "aeWait poll fd msk milliseconds =
     (case poll fd (msk AND AE_READABLE \<noteq> 0) (msk AND AE_WRITABLE \<noteq> 0) milliseconds of
        (retval, pin, pout) \<Rightarrow>
          if retval = 1 then (if pin then AE_READABLE else 0) OR (if pout then AE_WRITABLE else 0)
          else retval)"

end
