(* ===== verification/Ae_Backends.thy ===== *)
theory Ae_Backends
  imports Ae
begin

text \<open>
  The multiplexing layers of the event loop, \<open>ae_epoll.c\<close>, \<open>ae_select.c\<close> and
  \<open>ae_kqueue.c\<close> of \<open>redis_ae/tcpproxy/\<close>. The system calls are arguments that act on a kernel
  state \<open>'q\<close>; the arrays and sets the code keeps are its own.
\<close>

definition readable :: "int \<Rightarrow> bool" where "readable m \<longleftrightarrow> m AND AE_READABLE \<noteq> 0"
definition writable :: "int \<Rightarrow> bool" where "writable m \<longleftrightarrow> m AND AE_WRITABLE \<noteq> 0"

text \<open>\<open>int mask = 0; if (..) mask |= AE_READABLE; if (..) mask |= AE_WRITABLE;\<close>\<close>

definition rw_mask :: "bool \<Rightarrow> bool \<Rightarrow> int" where
  "rw_mask r w = (if r then AE_READABLE else 0) OR (if w then AE_WRITABLE else 0)"

text \<open>\<open>for (j = 0; j < numevents; j++) eventLoop->fired[j] = ...\<close>\<close>

fun fill_fired :: "(int \<times> int) list \<Rightarrow> int \<Rightarrow> (int \<times> int) list \<Rightarrow> (int \<times> int) list option" where
  "fill_fired frd j [] = Some frd"
| "fill_fired frd j (e # es) = do {
     frd \<leftarrow> awrite frd j e;
     fill_fired frd (j + 1) es
   }"

section \<open>epoll\<close>

definition EPOLLIN :: int where "EPOLLIN = 1"
definition EPOLLOUT :: int where "EPOLLOUT = 4"

datatype epoll_op = EPOLL_CTL_ADD | EPOLL_CTL_MOD | EPOLL_CTL_DEL

record 'q epoll_state =
  epfd :: int
  ep_kernel :: 'q

definition epoll_events :: "int \<Rightarrow> int" where
  "epoll_events m = (if readable m then EPOLLIN else 0) OR (if writable m then EPOLLOUT else 0)"

text \<open>
  \<open>aeApiCreate\<close>: whether the two \<open>zmalloc\<close>s succeed, and what \<open>epoll_create\<close> returns.
\<close>

definition epoll_aeApiCreate :: "bool \<Rightarrow> bool \<Rightarrow> int \<times> 'q \<Rightarrow> 'q epoll_state option" where
  "epoll_aeApiCreate ok1 ok2 created =
     (if \<not> ok1 then None else if \<not> ok2 then None
      else case created of (fd, q) \<Rightarrow> if fd = -1 then None else Some \<lparr>epfd = fd, ep_kernel = q\<rparr>)"

definition epoll_aeApiAddEvent ::
  "('q \<Rightarrow> int \<Rightarrow> epoll_op \<Rightarrow> int \<Rightarrow> int \<Rightarrow> int \<times> 'q) \<Rightarrow> ('p, 'c, 'q epoll_state) aeEventLoop \<Rightarrow> int \<Rightarrow> int \<Rightarrow>
   (int \<times> 'q epoll_state) option" where
  "epoll_aeApiAddEvent epoll_ctl l fd msk = do {
     fe \<leftarrow> aread (events l) fd;
     let state = apidata l;
     let op = (if fmask fe = AE_NONE then EPOLL_CTL_ADD else EPOLL_CTL_MOD);
     let msk = msk OR fmask fe;
     let (r, q) = epoll_ctl (ep_kernel state) (epfd state) op fd (epoll_events msk);
     Some (if r = -1 then -1 else 0, state\<lparr>ep_kernel := q\<rparr>)
   }"

definition epoll_aeApiDelEvent ::
  "('q \<Rightarrow> int \<Rightarrow> epoll_op \<Rightarrow> int \<Rightarrow> int \<Rightarrow> int \<times> 'q) \<Rightarrow> ('p, 'c, 'q epoll_state) aeEventLoop \<Rightarrow> int \<Rightarrow> int \<Rightarrow>
   'q epoll_state option" where
  "epoll_aeApiDelEvent epoll_ctl l fd delmask = do {
     fe \<leftarrow> aread (events l) fd;
     let state = apidata l;
     let msk = fmask fe AND NOT delmask;
     let op = (if msk \<noteq> AE_NONE then EPOLL_CTL_MOD else EPOLL_CTL_DEL);
     let (r, q) = epoll_ctl (ep_kernel state) (epfd state) op fd (epoll_events msk);
     Some (state\<lparr>ep_kernel := q\<rparr>)
   }"

text \<open>The timeout in milliseconds, a \<open>long\<close> that is passed as an \<open>int\<close>; \<open>epoll_wait\<close> answers a count and the events.\<close>

definition epoll_aeApiPoll ::
  "('q \<Rightarrow> int \<Rightarrow> int \<Rightarrow> int \<Rightarrow> int \<times> (int \<times> int) list \<times> 'q) \<Rightarrow> ('p, 'c, 'q epoll_state) aeEventLoop \<Rightarrow>
   (int \<times> int) option \<Rightarrow> (int \<times> (int \<times> int) list \<times> 'q epoll_state) option" where
  "epoll_aeApiPoll epoll_wait l tvp = do {
     timeout \<leftarrow> (case tvp of None \<Rightarrow> Some (-1)
                  | Some (s, us) \<Rightarrow> do {
                      ms \<leftarrow> clong (s * 1000);
                      q \<leftarrow> cdiv us 1000;
                      n \<leftarrow> clong (ms + q);
                      Some (to_int n)
                    });
     let (retval, evs, q) = epoll_wait (ep_kernel (apidata l)) (epfd (apidata l)) (setsize l) timeout;
     let state = (apidata l)\<lparr>ep_kernel := q\<rparr>;
     if retval > 0 then do {
       guard (retval \<le> int (length evs));
       frd \<leftarrow> fill_fired (fired l) 0 (map (\<lambda>(fd, ev). (fd, rw_mask (ev AND EPOLLIN \<noteq> 0) (ev AND EPOLLOUT \<noteq> 0)))
                (take (nat retval) evs));
       Some (retval, frd, state)
     } else Some (0, fired l, state)
   }"

definition epoll_api where
  "epoll_api epoll_ctl epoll_wait = \<lparr>aeApiAdd = epoll_aeApiAddEvent epoll_ctl,
     aeApiDel = epoll_aeApiDelEvent epoll_ctl, aeApiWait = epoll_aeApiPoll epoll_wait\<rparr>"

section \<open>select\<close>

definition FD_SETSIZE :: int where "FD_SETSIZE = 1024"

record 'q select_state =
  rfds :: "int set"
  wfds :: "int set"
  sel_kernel :: 'q

definition select_aeApiCreate :: "bool \<Rightarrow> 'q \<Rightarrow> 'q select_state option" where
  "select_aeApiCreate ok q = (if \<not> ok then None else Some \<lparr>rfds = {}, wfds = {}, sel_kernel = q\<rparr>)"

text \<open>\<open>FD_SET\<close> and \<open>FD_CLR\<close> are undefined outside \<open>0..FD_SETSIZE-1\<close>.\<close>

definition fd_set :: "int \<Rightarrow> int set \<Rightarrow> int set option" where
  "fd_set fd s = (if 0 \<le> fd \<and> fd < FD_SETSIZE then Some (insert fd s) else None)"

definition fd_clr :: "int \<Rightarrow> int set \<Rightarrow> int set option" where
  "fd_clr fd s = (if 0 \<le> fd \<and> fd < FD_SETSIZE then Some (s - {fd}) else None)"

definition select_aeApiAddEvent :: "('p, 'c, 'q select_state) aeEventLoop \<Rightarrow> int \<Rightarrow> int \<Rightarrow>
    (int \<times> 'q select_state) option" where
  "select_aeApiAddEvent l fd msk = do {
     let state = apidata l;
     r \<leftarrow> (if msk AND AE_READABLE \<noteq> 0 then fd_set fd (rfds state) else Some (rfds state));
     let state = state\<lparr>rfds := r\<rparr>;
     w \<leftarrow> (if msk AND AE_WRITABLE \<noteq> 0 then fd_set fd (wfds state) else Some (wfds state));
     Some (0, state\<lparr>wfds := w\<rparr>)
   }"

definition select_aeApiDelEvent :: "('p, 'c, 'q select_state) aeEventLoop \<Rightarrow> int \<Rightarrow> int \<Rightarrow>
    'q select_state option" where
  "select_aeApiDelEvent l fd msk = do {
     let state = apidata l;
     r \<leftarrow> (if msk AND AE_READABLE \<noteq> 0 then fd_clr fd (rfds state) else Some (rfds state));
     let state = state\<lparr>rfds := r\<rparr>;
     w \<leftarrow> (if msk AND AE_WRITABLE \<noteq> 0 then fd_clr fd (wfds state) else Some (wfds state));
     Some (state\<lparr>wfds := w\<rparr>)
   }"

text \<open>\<open>for (j = 0; j <= eventLoop->maxfd; j++)\<close>\<close>

function select_scan :: "('p, 'c) aeFileEvent list \<Rightarrow> int set \<Rightarrow> int set \<Rightarrow> int \<Rightarrow> int \<Rightarrow> (int \<times> int) list \<Rightarrow> int \<Rightarrow>
    (int \<times> (int \<times> int) list) option" where
  "select_scan evs r w maxf j frd numevents = (if j \<le> maxf then do {
     fe \<leftarrow> aread evs j;
     if fmask fe = AE_NONE then select_scan evs r w maxf (j + 1) frd numevents
     else do {
       frd \<leftarrow> awrite frd numevents (j, rw_mask (fmask fe AND AE_READABLE \<noteq> 0 \<and> j \<in> r)
                 (fmask fe AND AE_WRITABLE \<noteq> 0 \<and> j \<in> w));
       select_scan evs r w maxf (j + 1) frd (numevents + 1)
     }
   } else Some (numevents, frd))"
  by pat_completeness auto
termination by (relation "measure (\<lambda>(evs, r, w, maxf, j, frd, n). nat (maxf + 1 - j))") auto

declare select_scan.simps [simp del]

definition select_aeApiPoll ::
  "('q \<Rightarrow> int \<Rightarrow> int set \<Rightarrow> int set \<Rightarrow> (int \<times> int) option \<Rightarrow> int \<times> int set \<times> int set \<times> 'q) \<Rightarrow>
   ('p, 'c, 'q select_state) aeEventLoop \<Rightarrow> (int \<times> int) option \<Rightarrow>
   (int \<times> (int \<times> int) list \<times> 'q select_state) option" where
  "select_aeApiPoll sel l tvp = do {
     let state = apidata l;
     let (retval, r, w, q) = sel (sel_kernel state) (maxfd l + 1) (rfds state) (wfds state) tvp;
     let state = state\<lparr>sel_kernel := q\<rparr>;
     if retval > 0 then do {
       (numevents, frd) \<leftarrow> select_scan (events l) r w (maxfd l) 0 (fired l) 0;
       Some (numevents, frd, state)
     } else Some (0, fired l, state)
   }"

definition select_api where
  "select_api sel = \<lparr>aeApiAdd = select_aeApiAddEvent, aeApiDel = select_aeApiDelEvent,
     aeApiWait = select_aeApiPoll sel\<rparr>"

section \<open>kqueue\<close>

datatype kfilter = EVFILT_READ | EVFILT_WRITE
datatype kaction = EV_ADD | EV_DELETE

record 'q kqueue_state =
  kqfd :: int
  kq_kernel :: 'q

definition kqueue_aeApiCreate :: "bool \<Rightarrow> bool \<Rightarrow> int \<times> 'q \<Rightarrow> 'q kqueue_state option" where
  "kqueue_aeApiCreate ok1 ok2 created =
     (if \<not> ok1 then None else if \<not> ok2 then None
      else case created of (fd, q) \<Rightarrow> if fd = -1 then None else Some \<lparr>kqfd = fd, kq_kernel = q\<rparr>)"

definition kqueue_aeApiAddEvent ::
  "('q \<Rightarrow> int \<Rightarrow> int \<Rightarrow> kfilter \<Rightarrow> kaction \<Rightarrow> int \<times> 'q) \<Rightarrow> ('p, 'c, 'q kqueue_state) aeEventLoop \<Rightarrow> int \<Rightarrow> int \<Rightarrow>
   (int \<times> 'q kqueue_state) option" where
  "kqueue_aeApiAddEvent kev l fd msk = (let state = apidata l;
      (r1, q1) = (if msk AND AE_READABLE \<noteq> 0 then kev (kq_kernel state) (kqfd state) fd EVFILT_READ EV_ADD
                  else (0, kq_kernel state))
    in if r1 = -1 then Some (-1, state\<lparr>kq_kernel := q1\<rparr>) else
      (let (r2, q2) = (if msk AND AE_WRITABLE \<noteq> 0 then kev q1 (kqfd state) fd EVFILT_WRITE EV_ADD else (0, q1))
       in Some (if r2 = -1 then -1 else 0, state\<lparr>kq_kernel := q2\<rparr>)))"

definition kqueue_aeApiDelEvent ::
  "('q \<Rightarrow> int \<Rightarrow> int \<Rightarrow> kfilter \<Rightarrow> kaction \<Rightarrow> int \<times> 'q) \<Rightarrow> ('p, 'c, 'q kqueue_state) aeEventLoop \<Rightarrow> int \<Rightarrow> int \<Rightarrow>
   'q kqueue_state option" where
  "kqueue_aeApiDelEvent kev l fd msk = (let state = apidata l;
      q1 = (if msk AND AE_READABLE \<noteq> 0 then snd (kev (kq_kernel state) (kqfd state) fd EVFILT_READ EV_DELETE)
            else kq_kernel state);
      q2 = (if msk AND AE_WRITABLE \<noteq> 0 then snd (kev q1 (kqfd state) fd EVFILT_WRITE EV_DELETE) else q1)
    in Some (state\<lparr>kq_kernel := q2\<rparr>))"

text \<open>The timeout in seconds and nanoseconds.\<close>

definition kqueue_aeApiPoll ::
  "('q \<Rightarrow> int \<Rightarrow> int \<Rightarrow> (int \<times> int) option \<Rightarrow> int \<times> (int \<times> kfilter) list \<times> 'q) \<Rightarrow>
   ('p, 'c, 'q kqueue_state) aeEventLoop \<Rightarrow> (int \<times> int) option \<Rightarrow>
   (int \<times> (int \<times> int) list \<times> 'q kqueue_state) option" where
  "kqueue_aeApiPoll kwait l tvp = do {
     let timeout = map_option (\<lambda>(s, us). (s, us * 1000)) tvp;
     let (retval, evs, q) = kwait (kq_kernel (apidata l)) (kqfd (apidata l)) (setsize l) timeout;
     let state = (apidata l)\<lparr>kq_kernel := q\<rparr>;
     if retval > 0 then do {
       guard (retval \<le> int (length evs));
       frd \<leftarrow> fill_fired (fired l) 0
         (map (\<lambda>(fd, f). (fd, rw_mask (f = EVFILT_READ) (f = EVFILT_WRITE))) (take (nat retval) evs));
       Some (retval, frd, state)
     } else Some (0, fired l, state)
   }"

definition kqueue_api where
  "kqueue_api kev kwait = \<lparr>aeApiAdd = kqueue_aeApiAddEvent kev, aeApiDel = kqueue_aeApiDelEvent kev,
     aeApiWait = kqueue_aeApiPoll kwait\<rparr>"

end
