(* ===== verification/Ae_Correct.thy ===== *)
theory Ae_Correct
  imports Ae_Backends
begin

text \<open>
  File-event registration: \<open>maxfd\<close> is the greatest registered descriptor, the masks are what
  was asked for, and the multiplexing layer watches exactly the registered masks. The locale
  \<open>ae_backend\<close> is the contract between \<open>ae.c\<close> and the layer; \<open>ae_select.c\<close> meets it
  outright, \<open>ae_epoll.c\<close> when \<open>epoll_ctl\<close> does what its manual says.
\<close>

section \<open>Masks\<close>

definition mask_ok :: "int \<Rightarrow> bool" where
  "mask_ok m \<longleftrightarrow> 0 \<le> m \<and> m \<le> 3"

lemma mask_cases:
  assumes "mask_ok m"
  obtains "m = 0" | "m = 1" | "m = 2" | "m = 3"
proof -
  have "m = 0 \<or> m = 1 \<or> m = 2 \<or> m = 3" using assms unfolding mask_ok_def by presburger
  then show thesis using that by blast
qed

lemma mask_ok_simps [simp]: "mask_ok 0" "mask_ok 1" "mask_ok 2" "mask_ok 3"
  by (simp_all add: mask_ok_def)

lemma mask_ops:
  assumes "mask_ok m" "mask_ok n"
  shows "mask_ok (m OR n)" "mask_ok (m AND NOT n)"
    "m \<noteq> 0 \<Longrightarrow> m OR n \<noteq> 0" "n \<noteq> 0 \<Longrightarrow> m OR n \<noteq> 0"
  using assms by (elim mask_cases; simp)+

lemma rw_mask_split: "mask_ok m \<Longrightarrow> rw_mask (m AND AE_READABLE \<noteq> 0) (m AND AE_WRITABLE \<noteq> 0) = m"
  by (elim mask_cases) (simp_all add: rw_mask_def AE_defs)


section \<open>The invariant\<close>

definition masks_ok :: "('p, 'c, 'k) aeEventLoop \<Rightarrow> bool" where
  "masks_ok l \<longleftrightarrow> int (length (events l)) = setsize l \<and> (\<forall>fe\<in>set (events l). mask_ok (fmask fe))"

definition reg_mask :: "('p, 'c, 'k) aeEventLoop \<Rightarrow> int \<Rightarrow> int" where
  "reg_mask l fd = (if 0 \<le> fd \<and> fd < int (length (events l)) then fmask (events l ! nat fd) else 0)"

definition maxfd_ok :: "('p, 'c, 'k) aeEventLoop \<Rightarrow> bool" where
  "maxfd_ok l \<longleftrightarrow> (if maxfd l = -1 then \<forall>fd. reg_mask l fd = 0
     else 0 \<le> maxfd l \<and> reg_mask l (maxfd l) \<noteq> 0 \<and> (\<forall>fd. reg_mask l fd \<noteq> 0 \<longrightarrow> fd \<le> maxfd l))"

definition watched_ok :: "('k \<Rightarrow> int \<Rightarrow> int) \<Rightarrow> ('p, 'c, 'k) aeEventLoop \<Rightarrow> bool" where
  "watched_ok watched l \<longleftrightarrow> (\<forall>fd. 0 \<le> fd \<longrightarrow> fd < setsize l \<longrightarrow> watched (apidata l) fd = reg_mask l fd)"

definition loop_inv :: "('k \<Rightarrow> int \<Rightarrow> int) \<Rightarrow> ('p, 'c, 'k) aeEventLoop \<Rightarrow> bool" where
  "loop_inv watched l \<longleftrightarrow> masks_ok l \<and> maxfd_ok l \<and> watched_ok watched l"

lemma reg_mask_ok: "masks_ok l \<Longrightarrow> mask_ok (reg_mask l fd)"
  by (auto simp: masks_ok_def reg_mask_def)

lemma reg_mask_in: "0 \<le> fd \<Longrightarrow> fd < int (length (events l)) \<Longrightarrow> reg_mask l fd = fmask (events l ! nat fd)"
  by (simp add: reg_mask_def)

lemma reg_mask_fields [simp]:
  "reg_mask (l\<lparr>apidata := k\<rparr>) = reg_mask l" "reg_mask (l\<lparr>maxfd := j\<rparr>) = reg_mask l"
  by (simp_all add: reg_mask_def fun_eq_iff)

lemma reg_mask_cong: "events l' = events l \<Longrightarrow> reg_mask l' = reg_mask l"
  by (simp add: reg_mask_def fun_eq_iff)

lemma reg_mask_nonneg: "reg_mask l fd \<noteq> 0 \<Longrightarrow> 0 \<le> fd \<and> fd < int (length (events l))"
  by (simp add: reg_mask_def split: if_splits)

lemma reg_mask_upd:
  assumes "0 \<le> fd" "fd < int (length (events l))" "events l' = (events l)[nat fd := fe]"
  shows "reg_mask l' = (reg_mask l)(fd := fmask fe)"
  using assms by (auto simp: reg_mask_def fun_eq_iff nth_list_update eq_nat_nat_iff)

lemma masks_ok_upd:
  assumes "masks_ok l" "events l' = (events l)[nat fd := fe]" "setsize l' = setsize l" "mask_ok (fmask fe)"
  shows "masks_ok l'"
  using assms set_update_subset_insert [of "events l" "nat fd" fe] by (auto simp: masks_ok_def)

lemma last_used_spec:
  assumes "j < int (length (events l))" "-1 \<le> j"
  shows "\<exists>i. last_used (events l) j = Some i \<and> -1 \<le> i \<and> i \<le> j \<and> (i \<noteq> -1 \<longrightarrow> reg_mask l i \<noteq> 0) \<and>
    (\<forall>k. i < k \<longrightarrow> k \<le> j \<longrightarrow> reg_mask l k = 0)"
  using assms
proof (induction "nat (j + 1)" arbitrary: j)
  case 0
  then have "j = -1" by simp
  then show ?case by (subst last_used.simps) simp
next
  case (Suc n)
  then have j: "0 \<le> j" by simp
  have rd: "aread (events l) j = Some (events l ! nat j)" using Suc.prems j by (simp add: aread_in)
  show ?case
  proof (cases "reg_mask l j = 0")
    case False
    then show ?thesis
      using rd j Suc.prems by (subst last_used.simps) (simp add: reg_mask_in AE_defs)
  next
    case True
    have "n = nat (j - 1 + 1)" using Suc.hyps(2) j by simp
    then obtain i where i: "last_used (events l) (j - 1) = Some i" "-1 \<le> i" "i \<le> j - 1"
        "i \<noteq> -1 \<longrightarrow> reg_mask l i \<noteq> 0" "\<And>k. i < k \<Longrightarrow> k \<le> j - 1 \<Longrightarrow> reg_mask l k = 0"
      using Suc.hyps(1) [of "j - 1"] Suc.prems(1) j by auto
    have "reg_mask l k = 0" if "i < k" "k \<le> j" for k
      using i(5) [of k] that True by (cases "k = j") auto
    then show ?thesis
      using i rd j True Suc.prems by (subst last_used.simps) (simp add: reg_mask_in AE_defs)
  qed
qed

lemma delete_main_case:
  assumes "fd < setsize l" "aread (events l) fd = Some fe" "fmask fe \<noteq> AE_NONE"
    and "awrite (events l) fd (fe\<lparr>fmask := m\<rparr>) = Some evs" "m = fmask fe AND NOT msk"
    and "l1 = l\<lparr>events := evs\<rparr>"
    and "(if fd = maxfd l1 \<and> m = AE_NONE then do {
            j \<leftarrow> last_used (events l1) (maxfd l1 - 1);
            Some (l1\<lparr>maxfd := j\<rparr>)
          } else Some l1) = Some l2"
    and "aeApiDel A l2 fd msk = Some k"
  shows "aeDeleteFileEvent A l fd msk = Some (l2\<lparr>apidata := k\<rparr>)"
proof -
  have "aeDeleteFileEvent A l fd msk = do {
      l \<leftarrow> (if fd = maxfd l1 \<and> m = AE_NONE then do {
            j \<leftarrow> last_used (events l1) (maxfd l1 - 1);
            Some (l1\<lparr>maxfd := j\<rparr>)
          } else Some l1);
      k \<leftarrow> aeApiDel A l fd msk;
      Some (l\<lparr>apidata := k\<rparr>)
    }"
    using assms(1-4) unfolding assms(5,6) by (simp add: aeDeleteFileEvent_def Let_def)
  then show ?thesis by (simp only: assms(7,8) Option.bind.bind_lunit)
qed

section \<open>The contract of the multiplexing layer\<close>

locale ae_backend =
  fixes A :: "('p, 'c, 'k) ae_api"
    and watched :: "'k \<Rightarrow> int \<Rightarrow> int"
    and limit :: "int \<Rightarrow> bool"
  assumes add_watch: "masks_ok l \<Longrightarrow> 0 \<le> fd \<Longrightarrow> fd < setsize l \<Longrightarrow> limit fd \<Longrightarrow> mask_ok msk \<Longrightarrow> msk \<noteq> 0 \<Longrightarrow>
      watched (apidata l) fd = reg_mask l fd \<Longrightarrow>
      \<exists>r k. aeApiAdd A l fd msk = Some (r, k) \<and>
        (r = -1 \<and> watched k = watched (apidata l) \<or>
         r = 0 \<and> watched k = (watched (apidata l))(fd := reg_mask l fd OR msk))"
    and del_watch: "masks_ok l \<Longrightarrow> 0 \<le> fd \<Longrightarrow> fd < setsize l \<Longrightarrow> limit fd \<Longrightarrow> mask_ok msk \<Longrightarrow>
      mask_ok (watched (apidata l) fd) \<Longrightarrow> watched (apidata l) fd \<noteq> 0 \<Longrightarrow>
      reg_mask l fd = watched (apidata l) fd AND NOT msk \<Longrightarrow>
      \<exists>k. aeApiDel A l fd msk = Some k \<and> watched k = (watched (apidata l))(fd := reg_mask l fd)"
begin

lemma create_file_event:
  assumes inv: "loop_inv watched l" and fd: "0 \<le> fd" "limit fd" and msk: "mask_ok msk" "msk \<noteq> 0"
  shows "\<exists>r l'. aeCreateFileEvent A l fd msk p cd = Some (r, l') \<and> loop_inv watched l' \<and>
    setsize l' = setsize l \<and>
    (r = AE_ERR \<and> events l' = events l \<and> maxfd l' = maxfd l \<or>
     r = AE_OK \<and> reg_mask l' = (reg_mask l)(fd := reg_mask l fd OR msk) \<and>
       events l' = (events l)[nat fd := \<lparr>fmask = reg_mask l fd OR msk,
         rfileProc = (if msk AND AE_READABLE \<noteq> 0 then Some p else rfileProc (events l ! nat fd)),
         wfileProc = (if msk AND AE_WRITABLE \<noteq> 0 then Some p else wfileProc (events l ! nat fd)),
         clientData = cd\<rparr>] \<and> fd < setsize l \<and> maxfd l' = max fd (maxfd l))"
proof (cases "fd \<ge> setsize l")
  case True
  then show ?thesis using inv by (simp add: aeCreateFileEvent_def)
next
  case False
  then have lt: "fd < setsize l" by simp
  have I: "masks_ok l" "maxfd_ok l" "watched_ok watched l" using inv by (auto simp: loop_inv_def)
  then have len: "fd < int (length (events l))" using lt by (simp add: masks_ok_def)
  have rd: "aread (events l) fd = Some (events l ! nat fd)" using fd len by (simp add: aread_in)
  have w: "watched (apidata l) fd = reg_mask l fd" using I(3) fd lt by (simp add: watched_ok_def)
  obtain r k where rk: "aeApiAdd A l fd msk = Some (r, k)"
    "r = -1 \<and> watched k = watched (apidata l) \<or>
     r = 0 \<and> watched k = (watched (apidata l))(fd := reg_mask l fd OR msk)"
    using add_watch [OF I(1) fd(1) lt fd(2) msk w] by blast
  show ?thesis
  proof (cases "r = -1")
    case True
    then have "loop_inv watched (l\<lparr>apidata := k\<rparr>)"
      using I rk by (auto simp: loop_inv_def masks_ok_def maxfd_ok_def watched_ok_def)
    then show ?thesis using True rd rk lt by (simp add: aeCreateFileEvent_def AE_defs)
  next
    case False
    then have k: "r = 0" "watched k = (watched (apidata l))(fd := reg_mask l fd OR msk)" using rk by auto
    define fe where "fe = \<lparr>fmask = reg_mask l fd OR msk,
         rfileProc = (if msk AND AE_READABLE \<noteq> 0 then Some p else rfileProc (events l ! nat fd)),
         wfileProc = (if msk AND AE_WRITABLE \<noteq> 0 then Some p else wfileProc (events l ! nat fd)),
         clientData = cd\<rparr>"
    define l' where "l' = l\<lparr>apidata := k, events := (events l)[nat fd := fe], maxfd := max fd (maxfd l)\<rparr>"
    obtain m0 r0 w0 c0 where e: "events l ! nat fd = \<lparr>fmask = m0, rfileProc = r0, wfileProc = w0, clientData = c0\<rparr>"
      by (cases "events l ! nat fd") auto
    have mx: "l' = (if fd > maxfd l then l\<lparr>apidata := k, events := (events l)[nat fd := fe], maxfd := fd\<rparr>
        else l\<lparr>apidata := k, events := (events l)[nat fd := fe]\<rparr>)"
      unfolding l'_def by (cases l) (auto simp: max_def)
    have run: "aeCreateFileEvent A l fd msk p cd = Some (AE_OK, l')"
      unfolding mx using rd rk lt False fd len e
      by (simp add: aeCreateFileEvent_def awrite_in fe_def reg_mask_in AE_ERR_def AE_OK_def Let_def)
    have reg: "reg_mask l' = (reg_mask l)(fd := reg_mask l fd OR msk)"
      using reg_mask_upd [of fd l l' fe] fd len by (simp add: l'_def fe_def)
    have ne: "reg_mask l fd OR msk \<noteq> 0" using mask_ops [OF reg_mask_ok [OF I(1)] msk(1)] msk(2) by blast
    have "masks_ok l'"
      using masks_ok_upd [OF I(1), of l' fd fe] mask_ops(1) [OF reg_mask_ok [OF I(1)] msk(1)]
      by (simp add: l'_def fe_def)
    moreover have "maxfd_ok l'"
      using I(2) ne fd unfolding maxfd_ok_def reg by (auto simp: l'_def max_def split: if_splits)
    moreover have "watched_ok watched l'"
      using I(3) k(2) unfolding watched_ok_def reg by (auto simp: l'_def)
    ultimately show ?thesis
      using run reg lt by (intro exI [of _ AE_OK] exI [of _ l']) (auto simp: loop_inv_def l'_def fe_def)
  qed
qed

lemma delete_file_event:
  assumes inv: "loop_inv watched l" and fd: "0 \<le> fd" "limit fd" and msk: "mask_ok msk"
  shows "\<exists>l'. aeDeleteFileEvent A l fd msk = Some l' \<and> loop_inv watched l' \<and> setsize l' = setsize l \<and>
    reg_mask l' = (if fd < setsize l then (reg_mask l)(fd := reg_mask l fd AND NOT msk) else reg_mask l) \<and>
    (\<forall>i. i \<noteq> nat fd \<longrightarrow> i < length (events l) \<longrightarrow> events l' ! i = events l ! i)"
proof (cases "fd < setsize l \<and> reg_mask l fd \<noteq> 0")
  case False
  have "reg_mask l fd AND NOT msk = 0" if "reg_mask l fd = 0" using that by simp
  then show ?thesis
    using False inv fd
    by (auto simp: aeDeleteFileEvent_def aread_in loop_inv_def masks_ok_def reg_mask_in AE_defs
        reg_mask_def fun_eq_iff)
next
  case True
  then have lt: "fd < setsize l" and ne: "reg_mask l fd \<noteq> 0" by auto
  have I: "masks_ok l" "maxfd_ok l" "watched_ok watched l" using inv by (auto simp: loop_inv_def)
  then have len: "fd < int (length (events l))" using lt by (simp add: masks_ok_def)
  have rd: "aread (events l) fd = Some (events l ! nat fd)" using fd len by (simp add: aread_in)
  define m where "m = reg_mask l fd AND NOT msk"
  define fe where "fe = (events l ! nat fd)\<lparr>fmask := m\<rparr>"
  define l1 where "l1 = l\<lparr>events := (events l)[nat fd := fe]\<rparr>"
  have reg: "reg_mask l1 = (reg_mask l)(fd := m)"
    using reg_mask_upd [of fd l l1 fe] fd len by (simp add: l1_def fe_def)
  have mx: "fd \<le> maxfd l" "maxfd l \<noteq> -1" "0 \<le> maxfd l" "reg_mask l (maxfd l) \<noteq> 0"
    using I(2) ne by (auto simp: maxfd_ok_def split: if_splits)
  then have mlen: "maxfd l < int (length (events l))" by (auto simp: reg_mask_def split: if_splits)
  obtain l2 where l2: "(if fd = maxfd l1 \<and> m = AE_NONE then do {
               j \<leftarrow> last_used (events l1) (maxfd l1 - 1);
               Some (l1\<lparr>maxfd := j\<rparr>)
             } else Some l1) = Some l2" "events l2 = events l1" "apidata l2 = apidata l"
        "setsize l2 = setsize l" "maxfd_ok l2"
  proof (cases "fd = maxfd l1 \<and> m = AE_NONE")
    case False
    then have "maxfd_ok l1"
      using I(2) mx unfolding maxfd_ok_def reg by (auto simp: l1_def AE_defs)
    then show thesis using that [of l1] False by (auto simp: l1_def)
  next
    case True
    obtain i where i: "last_used (events l1) (maxfd l1 - 1) = Some i" "-1 \<le> i" "i \<le> maxfd l - 1"
        "i \<noteq> -1 \<longrightarrow> reg_mask l1 i \<noteq> 0" "\<And>k. i < k \<Longrightarrow> k \<le> maxfd l - 1 \<Longrightarrow> reg_mask l1 k = 0"
      using last_used_spec [of "maxfd l1 - 1" l1] mlen mx(3) by (auto simp: l1_def)
    have up: "fd' \<le> i" if "reg_mask l1 fd' \<noteq> 0" for fd'
    proof (rule ccontr)
      assume "\<not> fd' \<le> i"
      with i(5) [of fd'] that have "maxfd l \<le> fd'" by force
      moreover have "fd' \<noteq> maxfd l" using True that reg by (auto simp: l1_def AE_defs)
      moreover have "reg_mask l fd' \<noteq> 0" using that reg True by (auto simp: AE_defs split: if_splits)
      then have "fd' \<le> maxfd l" using I(2) by (auto simp: maxfd_ok_def split: if_splits)
      ultimately show False by simp
    qed
    have "maxfd_ok (l1\<lparr>maxfd := i\<rparr>)"
    proof (cases "i = -1")
      case True
      then have "reg_mask l1 fd' = 0" for fd' using up [of fd'] reg_mask_nonneg [of l1 fd'] by force
      with True show ?thesis by (simp add: maxfd_ok_def)
    next
      case False
      have "\<forall>fd'. reg_mask l1 fd' \<noteq> 0 \<longrightarrow> fd' \<le> i" using up by blast
      moreover have "0 \<le> i" "reg_mask l1 i \<noteq> 0" using i(2,4) False by auto
      ultimately show ?thesis using False by (simp add: maxfd_ok_def)
    qed
    moreover have "(if fd = maxfd l1 \<and> m = AE_NONE then do {
               j \<leftarrow> last_used (events l1) (maxfd l1 - 1);
               Some (l1\<lparr>maxfd := j\<rparr>)
             } else Some l1) = Some (l1\<lparr>maxfd := i\<rparr>)"
      by (simp only: True i(1) if_True simp_thms Option.bind.bind_lunit)
    ultimately show thesis by (intro that [of "l1\<lparr>maxfd := i\<rparr>"]) (simp_all add: l1_def)
  qed
  have reg2: "reg_mask l2 = (reg_mask l)(fd := m)" using reg_mask_cong [OF l2(2)] reg by simp
  have m_ok: "mask_ok m" unfolding m_def by (rule mask_ops(2) [OF reg_mask_ok [OF I(1)] msk])
  have masks2: "masks_ok l2"
    using masks_ok_upd [OF I(1), of l2 fd fe] l2 m_ok by (simp add: l1_def fe_def)
  have w: "watched (apidata l2) fd = reg_mask l fd" using I(3) fd lt l2(3) by (simp add: watched_ok_def)
  have w1: "mask_ok (watched (apidata l2) fd)" "watched (apidata l2) fd \<noteq> 0"
      "reg_mask l2 fd = watched (apidata l2) fd AND NOT msk"
    using w ne reg_mask_ok [OF I(1)] by (simp_all add: reg2 m_def)
  have lt2: "fd < setsize l2" using lt l2(4) by simp
  obtain k where k: "aeApiDel A l2 fd msk = Some k"
      "watched k = (watched (apidata l2))(fd := reg_mask l2 fd)"
    using del_watch [OF masks2 fd(1) lt2 fd(2) msk w1] by blast
  let ?l = "l2\<lparr>apidata := k\<rparr>"
  have reg3: "reg_mask ?l = reg_mask l2" by simp
  have run: "aeDeleteFileEvent A l fd msk = Some ?l"
    by (rule delete_main_case [OF lt rd _ _ _ l1_def l2(1) k(1)])
      (use ne fd len in \<open>simp_all add: awrite_in reg_mask_in AE_NONE_def m_def fe_def\<close>)
  have "masks_ok ?l" using masks2 by (simp add: masks_ok_def)
  moreover have "maxfd_ok ?l" using l2(5) unfolding maxfd_ok_def reg3 by simp
  moreover have "watched_ok watched ?l"
    using I(3) k(2) l2(3,4) unfolding watched_ok_def reg3 reg2 by auto
  ultimately show ?thesis
    using run l2 lt reg2 reg3 by (intro exI [of _ ?l]) (auto simp: loop_inv_def m_def l1_def)
qed

end

end
