(* ===== verification/Ae_Theorems.thy ===== *)
theory Ae_Theorems
  imports Ae_Correct
begin

text \<open>
  The multiplexing layers as instances of \<open>ae_backend\<close>, the timer list, and the properties of
  the event loop.
\<close>

section \<open>The layers\<close>

definition select_watched :: "'q select_state \<Rightarrow> int \<Rightarrow> int" where
  "select_watched k fd = rw_mask (fd \<in> rfds k) (fd \<in> wfds k)"

lemma rw_mask_bits:
  "rw_mask r w AND AE_READABLE \<noteq> 0 \<longleftrightarrow> r" "rw_mask r w AND AE_WRITABLE \<noteq> 0 \<longleftrightarrow> w"
  "mask_ok (rw_mask r w)"
  by (cases r; cases w; simp add: rw_mask_def AE_defs)+

lemma rw_mask_or:
  assumes "mask_ok m"
  shows "rw_mask r w OR m = rw_mask (r \<or> m AND AE_READABLE \<noteq> 0) (w \<or> m AND AE_WRITABLE \<noteq> 0)"
  using assms by (cases r; cases w; elim mask_cases; simp add: rw_mask_def AE_defs)

lemma rw_mask_and_not:
  assumes "mask_ok m"
  shows "rw_mask r w AND NOT m = rw_mask (r \<and> m AND AE_READABLE = 0) (w \<and> m AND AE_WRITABLE = 0)"
  using assms by (cases r; cases w; elim mask_cases; simp add: rw_mask_def AE_defs)

interpretation sel_backend: ae_backend "select_api sel" select_watched "\<lambda>fd. 0 \<le> fd \<and> fd < FD_SETSIZE" for sel
proof
  fix l :: "('b, 'c, 'a select_state) aeEventLoop" and fd msk :: int
  assume fd: "0 \<le> fd \<and> fd < FD_SETSIZE" and msk: "mask_ok msk"
    and w: "select_watched (apidata l) fd = reg_mask l fd"
  define k where "k = (apidata l)\<lparr>rfds := if msk AND AE_READABLE \<noteq> 0 then insert fd (rfds (apidata l)) else rfds (apidata l),
      wfds := if msk AND AE_WRITABLE \<noteq> 0 then insert fd (wfds (apidata l)) else wfds (apidata l)\<rparr>"
  have "aeApiAdd (select_api sel) l fd msk = Some (0, k)"
    using fd by (simp add: select_api_def select_aeApiAddEvent_def fd_set_def k_def Let_def)
  moreover have "select_watched k = (select_watched (apidata l))(fd := reg_mask l fd OR msk)"
    unfolding w [symmetric]
    by (rule ext) (simp add: select_watched_def rw_mask_or [OF msk] k_def)
  ultimately show "\<exists>r k. aeApiAdd (select_api sel) l fd msk = Some (r, k) \<and>
        (r = -1 \<and> select_watched k = select_watched (apidata l) \<or>
         r = 0 \<and> select_watched k = (select_watched (apidata l))(fd := reg_mask l fd OR msk))" by blast
next
  fix l :: "('b, 'c, 'a select_state) aeEventLoop" and fd msk :: int
  assume fd: "0 \<le> fd \<and> fd < FD_SETSIZE" and msk: "mask_ok msk"
    and w: "reg_mask l fd = select_watched (apidata l) fd AND NOT msk"
  define k where "k = (apidata l)\<lparr>rfds := if msk AND AE_READABLE \<noteq> 0 then rfds (apidata l) - {fd} else rfds (apidata l),
      wfds := if msk AND AE_WRITABLE \<noteq> 0 then wfds (apidata l) - {fd} else wfds (apidata l)\<rparr>"
  have "aeApiDel (select_api sel) l fd msk = Some k"
    using fd by (simp add: select_api_def select_aeApiDelEvent_def fd_clr_def k_def Let_def)
  moreover have "select_watched k = (select_watched (apidata l))(fd := reg_mask l fd)"
    unfolding w
    by (rule ext) (simp add: select_watched_def rw_mask_and_not [OF msk] k_def)
  ultimately show "\<exists>k. aeApiDel (select_api sel) l fd msk = Some k \<and>
      select_watched k = (select_watched (apidata l))(fd := reg_mask l fd)" by blast
qed

text \<open>
  What the manual of \<open>epoll_ctl\<close> says of the interest list: a call that succeeds enters the
  events (or removes the descriptor), one that fails changes nothing, and changing or removing a
  descriptor that is in the list does not fail.
\<close>

definition epoll_doc :: "('q \<Rightarrow> int \<Rightarrow> epoll_op \<Rightarrow> int \<Rightarrow> int \<Rightarrow> int \<times> 'q) \<Rightarrow> ('q \<Rightarrow> int \<Rightarrow> int \<Rightarrow> int option) \<Rightarrow> bool" where
  "epoll_doc ctl interest \<longleftrightarrow> (\<forall>q e op fd ev r q'. ctl q e op fd ev = (r, q') \<longrightarrow>
     (r = 0 \<and> interest q' e = (interest q e)(fd := if op = EPOLL_CTL_DEL then None else Some ev) \<or>
      r = -1 \<and> interest q' e = interest q e \<and> (op \<noteq> EPOLL_CTL_ADD \<longrightarrow> interest q e fd = None)))"

lemma epoll_docD:
  assumes "epoll_doc ctl interest" "ctl q e op fd ev = (r, q')"
  shows "r = 0 \<and> interest q' e = (interest q e)(fd := if op = EPOLL_CTL_DEL then None else Some ev) \<or>
      r = -1 \<and> interest q' e = interest q e \<and> (op \<noteq> EPOLL_CTL_ADD \<longrightarrow> interest q e fd = None)"
  using assms(1) [unfolded epoll_doc_def, rule_format, OF assms(2)] .

definition epoll_watched :: "('q \<Rightarrow> int \<Rightarrow> int \<Rightarrow> int option) \<Rightarrow> 'q epoll_state \<Rightarrow> int \<Rightarrow> int" where
  "epoll_watched interest k fd = (case interest (ep_kernel k) (epfd k) fd of None \<Rightarrow> 0
     | Some ev \<Rightarrow> rw_mask (ev AND EPOLLIN \<noteq> 0) (ev AND EPOLLOUT \<noteq> 0))"

lemma epoll_events_mask:
  assumes "mask_ok m"
  shows "rw_mask (epoll_events m AND EPOLLIN \<noteq> 0) (epoll_events m AND EPOLLOUT \<noteq> 0) = m"
  using assms
  by (elim mask_cases) (simp_all add: rw_mask_def epoll_events_def readable_def writable_def
      EPOLLIN_def EPOLLOUT_def AE_defs)

lemma epoll_watched_upd:
  assumes "interest (ep_kernel k') (epfd k') = (interest (ep_kernel k) (epfd k))(fd := x)"
    "(case x of None \<Rightarrow> 0 | Some ev \<Rightarrow> rw_mask (ev AND EPOLLIN \<noteq> 0) (ev AND EPOLLOUT \<noteq> 0)) = m"
  shows "epoll_watched interest k' = (epoll_watched interest k)(fd := m)"
  using assms by (simp add: epoll_watched_def fun_eq_iff)

lemma epoll_backend:
  assumes doc: "epoll_doc ctl interest"
  shows "ae_backend (epoll_api ctl wait) (epoll_watched interest) (\<lambda>fd. 0 \<le> fd)"
proof
  fix l :: "('b, 'c, 'a epoll_state) aeEventLoop" and fd msk :: int
  assume ok: "masks_ok l" and fd: "0 \<le> fd" "fd < setsize l" and msk: "mask_ok msk"
    and w: "epoll_watched interest (apidata l) fd = reg_mask l fd"
  define m where "m = reg_mask l fd OR msk"
  have m: "mask_ok m" unfolding m_def by (rule mask_ops(1) [OF reg_mask_ok [OF ok] msk])
  define op where "op = (if reg_mask l fd = AE_NONE then EPOLL_CTL_ADD else EPOLL_CTL_MOD)"
  obtain r q where rq: "ctl (ep_kernel (apidata l)) (epfd (apidata l)) op fd (epoll_events m) = (r, q)"
    by fastforce
  define k where "k = (apidata l)\<lparr>ep_kernel := q\<rparr>"
  have len: "fd < int (length (events l))" using ok fd by (simp add: masks_ok_def)
  have run: "aeApiAdd (epoll_api ctl wait) l fd msk = Some (if r = -1 then -1 else 0, k)"
    using fd len rq by (simp add: epoll_api_def epoll_aeApiAddEvent_def aread_in reg_mask_in m_def op_def
        k_def or.commute)
  have "op \<noteq> EPOLL_CTL_DEL" by (simp add: op_def)
  then have "r = 0 \<and> interest q (epfd (apidata l)) =
        (interest (ep_kernel (apidata l)) (epfd (apidata l)))(fd := Some (epoll_events m)) \<or>
      r = -1 \<and> interest q (epfd (apidata l)) = interest (ep_kernel (apidata l)) (epfd (apidata l))"
    using epoll_docD [OF doc rq] by (elim disjE conjE) simp_all
  then show "\<exists>r k. aeApiAdd (epoll_api ctl wait) l fd msk = Some (r, k) \<and>
        (r = -1 \<and> epoll_watched interest k = epoll_watched interest (apidata l) \<or>
         r = 0 \<and> epoll_watched interest k = (epoll_watched interest (apidata l))(fd := reg_mask l fd OR msk))"
  proof (elim disjE conjE)
    assume r: "r = 0" and i: "interest q (epfd (apidata l)) =
        (interest (ep_kernel (apidata l)) (epfd (apidata l)))(fd := Some (epoll_events m))"
    have "epoll_watched interest k = (epoll_watched interest (apidata l))(fd := m)"
      by (rule epoll_watched_upd [where x = "Some (epoll_events m)"])
        (use i epoll_events_mask [OF m] in \<open>simp_all add: k_def\<close>)
    moreover have "aeApiAdd (epoll_api ctl wait) l fd msk = Some (0, k)" using run r by simp
    ultimately show ?thesis unfolding m_def by blast
  next
    assume r: "r = -1" and i: "interest q (epfd (apidata l)) = interest (ep_kernel (apidata l)) (epfd (apidata l))"
    have "epoll_watched interest k = epoll_watched interest (apidata l)"
      using i by (simp add: epoll_watched_def k_def fun_eq_iff)
    moreover have "aeApiAdd (epoll_api ctl wait) l fd msk = Some (-1, k)" using run r by simp
    ultimately show ?thesis by blast
  qed
next
  fix l :: "('b, 'c, 'a epoll_state) aeEventLoop" and fd msk :: int
  assume ok: "masks_ok l" and fd: "0 \<le> fd" "fd < setsize l" and msk: "mask_ok msk"
    and wok: "mask_ok (epoll_watched interest (apidata l) fd)" and ne: "epoll_watched interest (apidata l) fd \<noteq> 0"
    and w: "reg_mask l fd = epoll_watched interest (apidata l) fd AND NOT msk"
  define m where "m = reg_mask l fd"
  have m: "mask_ok m" unfolding m_def by (rule reg_mask_ok [OF ok])
  have same: "m AND NOT msk = m"
    using wok msk unfolding m_def w by (elim mask_cases) simp_all
  define op where "op = (if m \<noteq> AE_NONE then EPOLL_CTL_MOD else EPOLL_CTL_DEL)"
  obtain r q where rq: "ctl (ep_kernel (apidata l)) (epfd (apidata l)) op fd (epoll_events m) = (r, q)"
    by fastforce
  define k where "k = (apidata l)\<lparr>ep_kernel := q\<rparr>"
  have len: "fd < int (length (events l))" using ok fd by (simp add: masks_ok_def)
  have run: "aeApiDel (epoll_api ctl wait) l fd msk = Some k"
    using fd len rq same by (simp add: epoll_api_def epoll_aeApiDelEvent_def aread_in reg_mask_in m_def op_def k_def)
  have "interest (ep_kernel (apidata l)) (epfd (apidata l)) fd \<noteq> None"
    using ne by (auto simp: epoll_watched_def split: option.splits)
  moreover have "op \<noteq> EPOLL_CTL_ADD" by (simp add: op_def)
  ultimately have i: "interest q (epfd (apidata l)) = (interest (ep_kernel (apidata l)) (epfd (apidata l)))
      (fd := if op = EPOLL_CTL_DEL then None else Some (epoll_events m))"
    using epoll_docD [OF doc rq] by (elim disjE) simp_all
  have "epoll_watched interest k = (epoll_watched interest (apidata l))(fd := m)"
    by (rule epoll_watched_upd [where x = "if op = EPOLL_CTL_DEL then None else Some (epoll_events m)"])
      (use i epoll_events_mask [OF m] in \<open>auto simp: k_def op_def AE_defs\<close>)
  then show "\<exists>k. aeApiDel (epoll_api ctl wait) l fd msk = Some k \<and>
      epoll_watched interest k = (epoll_watched interest (apidata l))(fd := reg_mask l fd)"
    using run by (auto simp: m_def)
qed


section \<open>Sequences of registrations\<close>

datatype ('p, 'c) reg_op = Register int int 'p "'c option" | Unregister int int

fun reg_run :: "('p, 'c, 'k) ae_api \<Rightarrow> ('p, 'c, 'k) aeEventLoop \<Rightarrow> ('p, 'c) reg_op list \<Rightarrow>
    ('p, 'c, 'k) aeEventLoop option" where
  "reg_run A l [] = Some l"
| "reg_run A l (Register fd msk p cd # ops) = do {
     (r, l) \<leftarrow> aeCreateFileEvent A l fd msk p cd;
     reg_run A l ops
   }"
| "reg_run A l (Unregister fd msk # ops) = do {
     l \<leftarrow> aeDeleteFileEvent A l fd msk;
     reg_run A l ops
   }"

fun reg_op_ok :: "(int \<Rightarrow> bool) \<Rightarrow> ('p, 'c) reg_op \<Rightarrow> bool" where
  "reg_op_ok limit (Register fd msk p cd) \<longleftrightarrow> 0 \<le> fd \<and> limit fd \<and> mask_ok msk \<and> msk \<noteq> 0"
| "reg_op_ok limit (Unregister fd msk) \<longleftrightarrow> 0 \<le> fd \<and> limit fd \<and> mask_ok msk"

context ae_backend
begin

lemma reg_run_inv:
  assumes "loop_inv watched l" "\<forall>x\<in>set ops. reg_op_ok limit x"
  shows "\<exists>l'. reg_run A l ops = Some l' \<and> loop_inv watched l' \<and> setsize l' = setsize l"
  using assms
proof (induction ops arbitrary: l)
  case (Cons x ops)
  show ?case
  proof (cases x)
    case (Register fd msk p cd)
    then obtain r l1 where l1: "aeCreateFileEvent A l fd msk p cd = Some (r, l1)" "loop_inv watched l1"
        "setsize l1 = setsize l"
      using create_file_event [OF Cons.prems(1), of fd msk p cd] Cons.prems(2) by fastforce
    with Cons.IH [OF l1(2)] Cons.prems(2) Register show ?thesis by auto
  next
    case (Unregister fd msk)
    then obtain l1 where l1: "aeDeleteFileEvent A l fd msk = Some l1" "loop_inv watched l1"
        "setsize l1 = setsize l"
      using delete_file_event [OF Cons.prems(1), of fd msk] Cons.prems(2) by fastforce
    with Cons.IH [OF l1(2)] Cons.prems(2) Unregister show ?thesis by auto
  qed
qed simp

end

lemma fresh_loop_inv:
  assumes "aeCreateEventLoop ok api raw rawf n = (Some l, m)" "int (length raw) = n"
    and "\<And>k fd. api = Some k \<Longrightarrow> watched k fd = 0"
  shows "loop_inv watched l \<and> setsize l = n"
proof -
  have l: "events l = map (\<lambda>fe. fe\<lparr>fmask := AE_NONE\<rparr>) raw" "setsize l = n" "maxfd l = -1" "api = Some (apidata l)"
    using assms(1) by (auto simp: aeCreateEventLoop_def split: prod.splits if_splits option.splits)
  then have "reg_mask l fd = 0" for fd by (auto simp: reg_mask_def AE_defs nat_less_iff)
  with l assms(2,3) show ?thesis
    by (auto simp: loop_inv_def masks_ok_def maxfd_ok_def watched_ok_def AE_defs)
qed

section \<open>Timers\<close>

abbreviation timer_list :: "('p, 'c, 'k, 'z) ae_world_scheme \<Rightarrow> nat list \<Rightarrow> bool" where
  "timer_list w as \<equiv> lchain te_next (cells (timers w)) (timeEventHead (el w)) as"

definition timer :: "('p, 'c, 'k, 'z) ae_world_scheme \<Rightarrow> nat \<Rightarrow> ('p, 'c) aeTimeEvent" where
  "timer w a = the (cells (timers w) a)"

lemma timer_cell: "lseg te_next (cells (timers w)) p as q \<Longrightarrow> a \<in> set as \<Longrightarrow> cells (timers w) a = Some (timer w a)"
  by (auto simp: timer_def dest: lseg_cell)

text \<open>Time stamps are ordered as the code compares them, by seconds and then milliseconds.\<close>

definition stamp :: "('p, 'c) aeTimeEvent \<Rightarrow> int \<times> int" where
  "stamp t = (when_sec t, when_ms t)"

definition stamp_le :: "int \<times> int \<Rightarrow> int \<times> int \<Rightarrow> bool" where
  "stamp_le s t \<longleftrightarrow> fst s < fst t \<or> (fst s = fst t \<and> snd s \<le> snd t)"

lemma stamp_le_order:
  "stamp_le s s" "stamp_le s t \<Longrightarrow> stamp_le t u \<Longrightarrow> stamp_le s u" "stamp_le s t \<or> stamp_le t s"
  by (auto simp: stamp_le_def)

lemma stamp_le_iff: "fst s < fst t \<or> (fst s = fst t \<and> snd s < snd t) \<longleftrightarrow> \<not> stamp_le t s"
  by (auto simp: stamp_le_def)

lemma nearest_timer_spec:
  assumes "lchain te_next (cells h) te as" "near \<noteq> None \<Longrightarrow> load h near \<noteq> None"
  shows "\<exists>n. nearest_timer h te near = Some n \<and> (n = None \<longleftrightarrow> near = None \<and> as = []) \<and>
    (\<forall>a. n = Some a \<longrightarrow> (near = Some a \<or> a \<in> set as) \<and>
       (\<forall>b\<in>set as. stamp_le (stamp (the (cells h a))) (stamp (the (cells h b)))) \<and>
       (\<forall>b. near = Some b \<longrightarrow> stamp_le (stamp (the (cells h a))) (stamp (the (cells h b)))))"
  using assms
proof (induction as arbitrary: te near)
  case Nil
  then show ?case by (subst nearest_timer.simps) (auto simp: stamp_le_def)
next
  case (Cons a as)
  then obtain t where t: "te = Some a" "cells h a = Some t" "lchain te_next (cells h) (te_next t) as" by auto
  show ?case
  proof (cases near)
    case None
    have "nearest_timer h te near = nearest_timer h (te_next t) (Some a)"
      using t None by (subst nearest_timer.simps) simp
    moreover from Cons.IH [OF t(3), of "Some a"] t(2) obtain n where
      "nearest_timer h (te_next t) (Some a) = Some n" "n \<noteq> None"
      "\<forall>b. n = Some b \<longrightarrow> (a = b \<or> b \<in> set as) \<and>
       (\<forall>c\<in>set as. stamp_le (stamp (the (cells h b))) (stamp (the (cells h c)))) \<and>
       stamp_le (stamp (the (cells h b))) (stamp (the (cells h a)))" by auto
    ultimately show ?thesis using None by auto
  next
    case (Some c)
    then obtain n0 where n0: "cells h c = Some n0" using Cons.prems(2) by auto
    define best where "best = (if stamp_le (stamp n0) (stamp t) then c else a)"
    have step: "nearest_timer h te near = nearest_timer h (te_next t) (Some best)"
      using t Some n0 stamp_le_iff [of "stamp t" "stamp n0"]
      by (subst nearest_timer.simps) (simp add: best_def stamp_def)
    have "load h (Some best) \<noteq> None" using t n0 by (simp add: best_def)
    with Cons.IH [OF t(3), of "Some best"] obtain n where
      n: "nearest_timer h (te_next t) (Some best) = Some n" "n \<noteq> None"
      "\<forall>b. n = Some b \<longrightarrow> (best = b \<or> b \<in> set as) \<and>
       (\<forall>c\<in>set as. stamp_le (stamp (the (cells h b))) (stamp (the (cells h c)))) \<and>
       stamp_le (stamp (the (cells h b))) (stamp (the (cells h best)))"
      by auto
    have "stamp_le (stamp (the (cells h best))) (stamp t)" "stamp_le (stamp (the (cells h best))) (stamp n0)"
      using stamp_le_order(1,3) t n0 by (cases "stamp_le (stamp n0) (stamp t)"; simp add: best_def; blast)+
    note le = this
    obtain b where b: "n = Some b" using n(2) by auto
    have nb: "best = b \<or> b \<in> set as" "stamp_le (stamp (the (cells h b))) (stamp (the (cells h best)))"
      "\<forall>c\<in>set as. stamp_le (stamp (the (cells h b))) (stamp (the (cells h c)))"
      using n(3) b by auto
    have "near = Some b \<or> b \<in> set (a # as)" using nb(1) Some by (auto simp: best_def split: if_splits)
    moreover have "stamp_le (stamp (the (cells h b))) (stamp t)" "stamp_le (stamp (the (cells h b))) (stamp n0)"
      using stamp_le_order(2) [OF nb(2)] le by blast+
    ultimately show ?thesis
      using step nb(3) n(1) b t(2) n0 Some by simp
  qed
qed

definition timer_kept :: "('p, 'c, 'k, 'z) ae_world_scheme \<Rightarrow> ('p, 'c, 'k, 'z) ae_world_scheme \<Rightarrow> nat \<Rightarrow> bool" where
  "timer_kept w w' b \<longleftrightarrow> map_option (\<lambda>t. t\<lparr>te_next := None\<rparr>) (cells (timers w') b) =
     map_option (\<lambda>t. t\<lparr>te_next := None\<rparr>) (cells (timers w) b)"

definition clock_kept :: "('p, 'c, 'k, 'z) ae_world_scheme \<Rightarrow> ('p, 'c, 'k, 'z) ae_world_scheme \<Rightarrow> bool" where
  "clock_kept w w' \<longleftrightarrow> clock w' = clock w \<and> ticks w' = ticks w \<and> ae_world.more w' = ae_world.more w \<and>
     timeEventNextId (el w') = timeEventNextId (el w)"

definition timer_removed :: "('p, 'c, 'k, 'z) ae_world_scheme \<Rightarrow> ('p, 'c, 'k, 'z) ae_world_scheme \<Rightarrow>
    nat list \<Rightarrow> nat list \<Rightarrow> int \<Rightarrow> bool" where
  "timer_removed w w' pre as i \<longleftrightarrow> (\<exists>bs a cs. as = bs @ a # cs \<and> te_id (timer w a) = i \<and>
     (\<forall>b\<in>set bs. te_id (timer w b) \<noteq> i) \<and> timer_list w' (pre @ bs @ cs) \<and>
     cells (timers w') a = None \<and> (\<forall>b. b \<noteq> a \<longrightarrow> timer_kept w w' b) \<and> clock_kept w w')"

lemma timer_removed_cons:
  "timer_removed w w' (pre @ [a]) as i \<Longrightarrow> te_id (timer w a) \<noteq> i \<Longrightarrow> timer_removed w w' pre (a # as) i"
  unfolding timer_removed_def
proof (elim exE conjE)
  fix bs c cs
  assume "te_id (timer w a) \<noteq> i" "as = bs @ c # cs" "te_id (timer w c) = i"
    "\<forall>b\<in>set bs. te_id (timer w b) \<noteq> i" "timer_list w' ((pre @ [a]) @ bs @ cs)"
    "cells (timers w') c = None" "\<forall>b. b \<noteq> c \<longrightarrow> timer_kept w w' b" "clock_kept w w'"
  then show "\<exists>bs c cs. a # as = bs @ c # cs \<and> te_id (timer w c) = i \<and>
     (\<forall>b\<in>set bs. te_id (timer w b) \<noteq> i) \<and> timer_list w' (pre @ bs @ cs) \<and>
     cells (timers w') c = None \<and> (\<forall>b. b \<noteq> c \<longrightarrow> timer_kept w w' b) \<and> clock_kept w w'"
    by (intro exI [of _ "a # bs"] exI [of _ c] exI [of _ cs]) auto
qed

text \<open>Unlinking the cell at \<open>te\<close>, behind \<open>prev\<close> or at the head.\<close>

lemma unlink_timer:
  assumes "lseg te_next (cells (timers w)) (timeEventHead (el w)) pre (Some a)"
    and "cells (timers w) a = Some t" "lchain te_next (cells (timers w)) (te_next t) as"
    and "prev = (if pre = [] then None else Some (List.last pre))"
  shows "\<exists>w1. (if prev = None then Some (w\<lparr>el := (el w)\<lparr>timeEventHead := te_next t\<rparr>\<rparr>)
             else do {
               h \<leftarrow> store (timers w) prev (\<lambda>p. p\<lparr>te_next := te_next t\<rparr>);
               Some (w\<lparr>timers := h\<rparr>)
             }) = Some w1 \<and> timer_list w1 (pre @ as) \<and> cells (timers w1) a = Some t \<and>
         (\<forall>b. timer_kept w w1 b) \<and> clock_kept w w1"
proof (cases pre rule: rev_cases)
  case Nil
  then show ?thesis using assms by (simp add: timer_kept_def clock_kept_def)
next
  case (snoc ps p)
  then obtain tp where tp: "cells (timers w) p = Some tp" "te_next tp = Some a"
      "lseg te_next (cells (timers w)) (timeEventHead (el w)) ps (Some p)"
    using assms(1) by (auto simp: lseg_snoc)
  have "timer_list w (pre @ a # as)" using assms(1-3) by (auto simp: lseg_append)
  then have d: "p \<notin> set ps" "p \<notin> set as" "p \<noteq> a" using lchain_distinct snoc by fastforce+
  have "lseg te_next ((cells (timers w))(p \<mapsto> tp\<lparr>te_next := te_next t\<rparr>)) (timeEventHead (el w)) (ps @ [p] @ as) None"
    using tp assms(3) d by (simp add: lseg_append)
  then show ?thesis
    using assms(2,4) snoc tp d by (simp add: store_cell timer_kept_def clock_kept_def)
qed

lemma del_timer_spec:
  assumes "lseg te_next (cells (timers w)) (timeEventHead (el w)) pre te"
    and "lchain te_next (cells (timers w)) te as"
    and "prev = (if pre = [] then None else Some (List.last pre))"
    and "\<forall>a\<in>set as. te_id (timer w a) = i \<longrightarrow> finalizerProc (timer w a) = None"
  shows "\<exists>w'. del_timer P w i prev te = Some (if \<exists>a\<in>set as. te_id (timer w a) = i then AE_OK else AE_ERR, w') \<and>
    (if \<exists>a\<in>set as. te_id (timer w a) = i then timer_removed w w' pre as i else w' = w)"
  using assms
proof (induction as arbitrary: pre prev te)
  case Nil
  then show ?case by (subst del_timer.simps) simp
next
  case (Cons a as)
  then obtain t where t: "te = Some a" "cells (timers w) a = Some t"
      "lchain te_next (cells (timers w)) (te_next t) as" by auto
  then have ta: "timer w a = t" by (simp add: timer_def)
  show ?case
  proof (cases "te_id t = i")
    case False
    have step: "del_timer P w i prev te = del_timer P w i te (te_next t)"
      using t False by (subst del_timer.simps) simp
    have pre: "lseg te_next (cells (timers w)) (timeEventHead (el w)) (pre @ [a]) (te_next t)"
      using Cons.prems(1) t by (auto simp: lseg_append)
    have fin: "\<forall>b\<in>set as. te_id (timer w b) = i \<longrightarrow> finalizerProc (timer w b) = None"
      using Cons.prems(4) by simp
    have prev: "te = (if pre @ [a] = [] then None else Some (List.last (pre @ [a])))" using t(1) by simp
    have "te_id (timer w a) \<noteq> i" using False ta by simp
    then show ?thesis
      using Cons.IH [OF pre t(3) prev fin] timer_removed_cons [of w _ pre a as i]
      unfolding step by (cases "\<exists>b\<in>set as. te_id (timer w b) = i") auto
  next
    case True
    have fin: "finalizerProc t = None" using Cons.prems(4) True ta by simp
    have whole: "timer_list w (pre @ a # as)" using Cons.prems(1,2) by (auto simp: lseg_append)
    have dis: "distinct (pre @ a # as)" using lchain_distinct [OF whole] .
    obtain w1 where w1: "(if prev = None then Some (w\<lparr>el := (el w)\<lparr>timeEventHead := te_next t\<rparr>\<rparr>)
             else do {
               h \<leftarrow> store (timers w) prev (\<lambda>p. p\<lparr>te_next := te_next t\<rparr>);
               Some (w\<lparr>timers := h\<rparr>)
             }) = Some w1" "timer_list w1 (pre @ as)" "cells (timers w1) a = Some t"
         "\<forall>b. timer_kept w w1 b" "clock_kept w w1"
      using unlink_timer [OF Cons.prems(1) [unfolded t(1)] t(2,3) Cons.prems(3)] by blast
    define w2 where "w2 = w1\<lparr>timers := (timers w1)\<lparr>cells := (cells (timers w1))(a := None)\<rparr>\<rparr>"
    have run: "del_timer P w i prev te = Some (AE_OK, w2)"
      using t True fin w1(1,3)
      by (subst del_timer.simps) (simp add: cfree_cell w2_def del: not_None_eq)
    have l2: "timer_list w2 (pre @ as)" using w1(2) dis by (simp add: w2_def)
    have "timer_removed w w2 pre (a # as) i"
      unfolding timer_removed_def
      using l2 True ta w1(4,5)
      by (intro exI [of _ "[]"] exI [of _ a] exI [of _ as]) (simp add: w2_def timer_kept_def clock_kept_def)
    then show ?thesis using run True ta by auto
  qed
qed

end
