(* ===== verification/Ae_Time.thy ===== *)
theory Ae_Time
  imports Ae_Theorems
begin

text \<open>
  Processing of time events by handlers that run once, and the properties of the event loop.
\<close>

lemma timer_keptD:
  assumes "timer_kept w w' b" "cells (timers w) b = Some t"
  shows "\<exists>t'. cells (timers w') b = Some t' \<and> te_id t' = te_id t \<and> when_sec t' = when_sec t \<and>
    when_ms t' = when_ms t \<and> finalizerProc t' = finalizerProc t \<and> timeProc t' = timeProc t \<and> teData t' = teData t"
proof -
  obtain t' where t': "cells (timers w') b = Some t'" "t'\<lparr>te_next := None\<rparr> = t\<lparr>te_next := None\<rparr>"
    using assms by (cases "cells (timers w') b") (auto simp: timer_kept_def)
  then show ?thesis by (cases t; cases t') auto
qed

lemma timer_kept_trans: "timer_kept w w' b \<Longrightarrow> timer_kept w' w'' b \<Longrightarrow> timer_kept w w'' b"
  by (simp add: timer_kept_def)

definition due :: "int \<Rightarrow> int \<times> int \<Rightarrow> ('p, 'c) aeTimeEvent \<Rightarrow> bool" where
  "due maxId now t \<longleftrightarrow> te_id t \<le> maxId \<and> stamp_le (stamp t) now"

text \<open>
  Handlers that run once: what the callback \<open>p\<close> of a timer does to the rest of the program is
  any function \<open>h p\<close> of the identifier, the client data and that rest.
\<close>

definition one_shot :: "('p, 'c, ('p, 'c, 'k, 'z) ae_world_scheme) ae_procs \<Rightarrow> ('p \<Rightarrow> int \<Rightarrow> 'c \<Rightarrow> 'z \<Rightarrow> 'z) \<Rightarrow> bool" where
  "one_shot P h \<longleftrightarrow> (\<forall>p w i c. time_proc P p w i c = Some (AE_NOMORE, ae_world.more_update (h p i c) w))"

text \<open>The callbacks of the timers \<open>as\<close>, one after the other.\<close>

definition run_timers :: "('p \<Rightarrow> int \<Rightarrow> 'c \<Rightarrow> 'z \<Rightarrow> 'z) \<Rightarrow> ('p, 'c, 'k, 'z) ae_world_scheme \<Rightarrow> nat list \<Rightarrow> 'z \<Rightarrow> 'z" where
  "run_timers h w = fold (\<lambda>a. h (timeProc (timer w a)) (te_id (timer w a)) (teData (timer w a)))"

definition frozen :: "('p, 'c, 'k, 'z) ae_world_scheme \<Rightarrow> int \<Rightarrow> int \<Rightarrow> bool" where
  "frozen w s us \<longleftrightarrow> 0 \<le> us \<and> (\<forall>n. clock w n = (s, us))"

definition plain_timers :: "('p, 'c, 'k, 'z) ae_world_scheme \<Rightarrow> nat list \<Rightarrow> bool" where
  "plain_timers w as \<longleftrightarrow> inj_on (\<lambda>a. te_id (timer w a)) (set as) \<and>
     (\<forall>a\<in>set as. finalizerProc (timer w a) = None)"

lemma more_update_fields [simp]:
  "el (ae_world.more_update f w) = el w" "timers (ae_world.more_update f w) = timers w"
  "clock (ae_world.more_update f w) = clock w" "ticks (ae_world.more_update f w) = ticks w"
  "ae_world.more (ae_world.more_update f w) = f (ae_world.more w)"
  by (cases w; simp)+

lemma aeGetTime_frozen: "frozen w s us \<Longrightarrow> aeGetTime w = Some ((s, us div 1000), w\<lparr>ticks := Suc (ticks w)\<rparr>)"
  by (simp add: aeGetTime_def frozen_def)

lemma delete_this_timer:
  assumes "timer_list w (pre @ a # as)" "plain_timers w (pre @ a # as)"
  shows "\<exists>w'. aeDeleteTimeEvent P w (te_id (timer w a)) = Some (AE_OK, w') \<and> timer_list w' (pre @ as) \<and>
    cells (timers w') a = None \<and> (\<forall>b. b \<noteq> a \<longrightarrow> timer_kept w w' b) \<and> clock_kept w w'"
proof -
  let ?i = "te_id (timer w a)" and ?L = "pre @ a # as"
  have fin: "\<forall>b\<in>set ?L. te_id (timer w b) = ?i \<longrightarrow> finalizerProc (timer w b) = None"
    using assms(2) by (auto simp: plain_timers_def)
  have "\<exists>b\<in>set ?L. te_id (timer w b) = ?i" by auto
  then obtain w' where w': "aeDeleteTimeEvent P w ?i = Some (AE_OK, w')" "timer_removed w w' [] ?L ?i"
    using del_timer_spec [of w "[]" "timeEventHead (el w)" ?L None ?i P] assms(1) fin
    by (auto simp: aeDeleteTimeEvent_def)
  then obtain bs c cs where b: "?L = bs @ c # cs" "te_id (timer w c) = ?i" "timer_list w' (bs @ cs)"
      "cells (timers w') c = None" "\<forall>b. b \<noteq> c \<longrightarrow> timer_kept w w' b" "clock_kept w w'"
    by (auto simp: timer_removed_def)
  have "c \<in> set ?L" unfolding b(1) by simp
  then have "c = a" using assms(2) b(2) by (auto simp: plain_timers_def inj_on_def)
  moreover have "distinct ?L" using lchain_distinct [OF assms(1)] .
  then have "bs = pre \<and> cs = as"
    using b(1) \<open>c = a\<close> by (auto simp: append_eq_append_conv2 Cons_eq_append_conv append_eq_Cons_conv)
  ultimately show ?thesis using w'(1) b(3-6) by auto
qed

lemma plain_timers_kept:
  assumes "plain_timers w as" "\<And>a. a \<in> set bs \<Longrightarrow> a \<in> set as \<and> te_id (timer w' a) = te_id (timer w a) \<and>
      finalizerProc (timer w' a) = finalizerProc (timer w a)"
  shows "plain_timers w' bs"
  using assms by (auto simp: plain_timers_def inj_on_def)

lemma time_loop_one_shot:
  assumes P: "one_shot P h" and "frozen w s us" "lseg te_next (cells (timers w)) (timeEventHead (el w)) pre te"
    and "lchain te_next (cells (timers w)) te suf"
    and "\<forall>a\<in>set pre. \<not> due maxId (s, us div 1000) (timer w a)" "plain_timers w (pre @ suf)"
  shows "\<exists>w'. time_loop P maxId w te n =
      Some (n + int (length (filter (\<lambda>a. due maxId (s, us div 1000) (timer w a)) (pre @ suf))), w') \<and>
    timer_list w' (filter (\<lambda>a. \<not> due maxId (s, us div 1000) (timer w a)) (pre @ suf)) \<and>
    ae_world.more w' = run_timers h w (filter (\<lambda>a. due maxId (s, us div 1000) (timer w a)) (pre @ suf)) (ae_world.more w) \<and>
    (\<forall>a. a \<notin> set (pre @ suf) \<or> \<not> due maxId (s, us div 1000) (timer w a) \<longrightarrow> timer_kept w w' a) \<and>
    (\<forall>a\<in>set (pre @ suf). due maxId (s, us div 1000) (timer w a) \<longrightarrow> cells (timers w') a = None)"
  using assms(2-)
proof (induction "length (pre @ suf) * length (pre @ suf) + length suf"
    arbitrary: w pre suf te n rule: less_induct)
  case less
  let ?now = "(s, us div 1000)"
  let ?due = "\<lambda>a. due maxId ?now (timer w a)"
  show ?case
  proof (cases suf)
    case Nil
    then have "filter ?due pre = []" "filter (\<lambda>a. \<not> ?due a) pre = pre"
      using less.prems(4) by (auto simp: filter_empty_conv)
    then show ?thesis
      using Nil less.prems by (subst time_loop.simps) (simp add: timer_kept_def run_timers_def)
  next
    case (Cons a as)
    then obtain t where t: "te = Some a" "cells (timers w) a = Some t"
        "lchain te_next (cells (timers w)) (te_next t) as" using less.prems(3) by auto
    then have ta: "timer w a = t" by (simp add: timer_def)
    have whole: "timer_list w (pre @ a # as)" using less.prems(2,3) Cons by (auto simp: lseg_append)
    have dis: "distinct (pre @ a # as)" using lchain_distinct [OF whole] .
    define w1 where "w1 = w\<lparr>ticks := Suc (ticks w)\<rparr>"
    have w1: "timer w1 b = timer w b" "timers w1 = timers w" "el w1 = el w" "frozen w1 s us" for b
      using less.prems(1) by (simp_all add: w1_def timer_def frozen_def)
    show ?thesis
    proof (cases "?due a")
      case False
      define v where "v = (if te_id t > maxId then w else w1)"
      have v: "timer v b = timer w b" "timers v = timers w" "el v = el w" "frozen v s us" "ae_world.more v = ae_world.more w" for b
        using w1 less.prems(1) by (simp_all add: v_def w1_def)
      have step: "time_loop P maxId w te n = time_loop P maxId v (te_next t) n"
        using t False ta aeGetTime_frozen [OF less.prems(1)]
        by (subst time_loop.simps) (auto simp: v_def w1_def due_def stamp_le_def stamp_def)
      have m: "length ((pre @ [a]) @ as) * length ((pre @ [a]) @ as) + length as
          < length (pre @ suf) * length (pre @ suf) + length suf" using Cons by simp
      have "\<exists>w'. time_loop P maxId v (te_next t) n =
          Some (n + int (length (filter (\<lambda>a. due maxId ?now (timer v a)) ((pre @ [a]) @ as))), w') \<and>
        timer_list w' (filter (\<lambda>a. \<not> due maxId ?now (timer v a)) ((pre @ [a]) @ as)) \<and>
        ae_world.more w' = run_timers h v (filter (\<lambda>a. due maxId ?now (timer v a)) ((pre @ [a]) @ as)) (ae_world.more v) \<and>
        (\<forall>b. b \<notin> set ((pre @ [a]) @ as) \<or> \<not> due maxId ?now (timer v b) \<longrightarrow> timer_kept v w' b) \<and>
        (\<forall>b\<in>set ((pre @ [a]) @ as). due maxId ?now (timer v b) \<longrightarrow> cells (timers w') b = None)"
      proof (rule less.hyps [OF m v(4)])
        show "lseg te_next (cells (timers v)) (timeEventHead (el v)) (pre @ [a]) (te_next t)"
          using less.prems(2) t unfolding v by (auto simp: lseg_append)
        show "lchain te_next (cells (timers v)) (te_next t) as" using t(3) unfolding v .
        show "\<forall>b\<in>set (pre @ [a]). \<not> due maxId ?now (timer v b)" using less.prems(4) False v by auto
        show "plain_timers v ((pre @ [a]) @ as)"
          using less.prems(5) Cons by (simp add: plain_timers_def v)
      qed
      moreover have "timer_kept v w' b \<longleftrightarrow> timer_kept w w' b" for w' b by (simp add: timer_kept_def v)
      ultimately show ?thesis unfolding step Cons by (simp add: v run_timers_def)
    next
      case True
      define v where "v = ae_world.more_update (h (timeProc t) (te_id t) (teData t)) w1"
      have v: "timer v b = timer w b" "timers v = timers w" "el v = el w" "frozen v s us"
          "ae_world.more v = h (timeProc t) (te_id t) (teData t) (ae_world.more w)" for b
        using w1 less.prems(1) by (simp_all add: v_def w1_def timer_def frozen_def)
      have "plain_timers v (pre @ a # as)" using less.prems(5) Cons by (simp add: plain_timers_def v)
      moreover have "timer_list v (pre @ a # as)" using whole unfolding v .
      ultimately obtain w2 where w2: "aeDeleteTimeEvent P v (te_id t) = Some (AE_OK, w2)"
          "timer_list w2 (pre @ as)" "\<forall>b. b \<noteq> a \<longrightarrow> timer_kept v w2 b" "clock_kept v w2" "cells (timers w2) a = None"
        using delete_this_timer [of v pre a as P] ta v by auto
      have step: "time_loop P maxId w te n = time_loop P maxId w2 (timeEventHead (el w2)) (n + 1)"
      proof -
        have "\<not> te_id t > maxId" "s > when_sec t \<or> (s = when_sec t \<and> us div 1000 \<ge> when_ms t)"
          using True ta by (auto simp: due_def stamp_le_def stamp_def)
        then show ?thesis
          using t aeGetTime_frozen [OF less.prems(1), folded w1_def] P w2(1) [unfolded v_def]
          by (subst time_loop.simps) (simp add: one_shot_def del: not_less)
      qed
      have kept: "te_id (timer w2 b) = te_id (timer w b) \<and> finalizerProc (timer w2 b) = finalizerProc (timer w b) \<and>
          timeProc (timer w2 b) = timeProc (timer w b) \<and> teData (timer w2 b) = teData (timer w b) \<and>
          due maxId ?now (timer w2 b) = ?due b \<and> timer_kept w w2 b" if "b \<in> set (pre @ as)" for b
      proof -
        have "b \<noteq> a" using that dis by auto
        then have k: "timer_kept v w2 b" using w2(3) by simp
        have "b \<in> set (pre @ a # as)" using that by auto
        then obtain tb where tb: "cells (timers w) b = Some tb" using lseg_cell [OF whole] by blast
        then have "cells (timers v) b = Some tb" using v by simp
        from timer_keptD [OF k this] tb k show ?thesis
          by (auto simp: timer_def due_def stamp_def timer_kept_def v)
      qed
      have flt: "filter (\<lambda>b. due maxId ?now (timer w2 b)) (pre @ as) = filter ?due (pre @ as)"
          "filter (\<lambda>b. \<not> due maxId ?now (timer w2 b)) (pre @ as) = filter (\<lambda>b. \<not> ?due b) (pre @ as)"
        by (rule filter_cong, rule refl, use kept in blast)+
      have eff: "run_timers h w2 (filter ?due (pre @ as)) x = run_timers h w (filter ?due (pre @ as)) x" for x
        unfolding run_timers_def by (rule fold_cong) (use kept in auto)
      have m: "length ([] @ (pre @ as)) * length ([] @ (pre @ as)) + length (pre @ as)
          < length (pre @ suf) * length (pre @ suf) + length suf" using Cons by (simp add: algebra_simps)
      have "\<exists>w'. time_loop P maxId w2 (timeEventHead (el w2)) (n + 1) =
          Some (n + 1 + int (length (filter (\<lambda>a. due maxId ?now (timer w2 a)) ([] @ (pre @ as)))), w') \<and>
        timer_list w' (filter (\<lambda>a. \<not> due maxId ?now (timer w2 a)) ([] @ (pre @ as))) \<and>
        ae_world.more w' = run_timers h w2 (filter (\<lambda>a. due maxId ?now (timer w2 a)) ([] @ (pre @ as))) (ae_world.more w2) \<and>
        (\<forall>b. b \<notin> set ([] @ (pre @ as)) \<or> \<not> due maxId ?now (timer w2 b) \<longrightarrow> timer_kept w2 w' b) \<and>
        (\<forall>b\<in>set ([] @ (pre @ as)). due maxId ?now (timer w2 b) \<longrightarrow> cells (timers w') b = None)"
      proof (rule less.hyps [OF m])
        show "frozen w2 s us" using v(4) w2(4) by (simp add: frozen_def clock_kept_def)
        show "plain_timers w2 ([] @ (pre @ as))"
        proof (rule plain_timers_kept [OF less.prems(5)])
          fix b assume "b \<in> set ([] @ pre @ as)"
          then have b: "b \<in> set (pre @ as)" by simp
          then show "b \<in> set (pre @ suf) \<and> te_id (timer w2 b) = te_id (timer w b) \<and>
              finalizerProc (timer w2 b) = finalizerProc (timer w b)"
            using kept [OF b] Cons by auto
        qed
      qed (use w2(2) in simp_all)
      then obtain w' where w': "time_loop P maxId w2 (timeEventHead (el w2)) (n + 1) =
          Some (n + 1 + int (length (filter ?due (pre @ as))), w')"
        "timer_list w' (filter (\<lambda>a. \<not> ?due a) (pre @ as))"
        "ae_world.more w' = run_timers h w (filter ?due (pre @ as)) (ae_world.more w2)"
        "\<forall>b. b \<notin> set (pre @ as) \<or> \<not> due maxId ?now (timer w2 b) \<longrightarrow> timer_kept w2 w' b"
        "\<forall>b\<in>set (pre @ as). due maxId ?now (timer w2 b) \<longrightarrow> cells (timers w') b = None"
        unfolding append_Nil flt eff by blast
      have "timer_kept w w' b" if b: "b \<notin> set (pre @ suf) \<or> \<not> ?due b" for b
      proof -
        have "b \<noteq> a" using b True Cons by auto
        then have "timer_kept v w2 b" using w2(3) by simp
        then have "timer_kept w w2 b" by (simp add: timer_kept_def v)
        moreover have "timer_kept w2 w' b"
        proof (cases "b \<in> set (pre @ as)")
          case True
          then have "\<not> ?due b" using b Cons by auto
          then show ?thesis using w'(4) kept [OF True] by blast
        qed (use w'(4) in blast)
        ultimately show ?thesis by (rule timer_kept_trans)
      qed
      moreover have "cells (timers w') b = None" if b: "b \<in> set (pre @ suf)" "?due b" for b
      proof (cases "b = a")
        case True
        have "a \<notin> set (pre @ as)" using dis by auto
        then have "timer_kept w2 w' a" using w'(4) by blast
        then show ?thesis using w2(5) True by (simp add: timer_kept_def)
      next
        case False
        then have "b \<in> set (pre @ as)" using b Cons by auto
        then show ?thesis using w'(5) kept b(2) by blast
      qed
      moreover have "ae_world.more w' = run_timers h w (filter ?due (pre @ suf)) (ae_world.more w)"
        using w'(3) w2(4) v(5) True ta less.prems(4) Cons by (simp add: run_timers_def clock_kept_def)
      ultimately show ?thesis
        unfolding step using w'(1,2) True Cons by auto
    qed
  qed
qed


section \<open>Properties\<close>

text \<open>A loop with four uninitialised event slots, and one timer heap, for the witnesses.\<close>

definition raw_events :: "(nat, nat) aeFileEvent list" where
  "raw_events = replicate 4 \<lparr>fmask = 7, rfileProc = None, wfileProc = None, clientData = None\<rparr>"

definition demo_world :: "(nat, nat, unit) ae_world" where
  "demo_world = \<lparr>el = \<lparr>maxfd = -1, setsize = 4, timeEventNextId = 2, events = [], fired = [],
       timeEventHead = Some 1, stop = False, apidata = (), beforesleep = None\<rparr>,
     timers = \<lparr>cells = [0 \<mapsto> \<lparr>te_id = 0, when_sec = 10, when_ms = 500, timeProc = 0, finalizerProc = None, teData = 0, te_next = None\<rparr>,
       1 \<mapsto> \<lparr>te_id = 1, when_sec = 20, when_ms = 0, timeProc = 0, finalizerProc = None, teData = 0, te_next = Some 0\<rparr>],
       brk = 2, env = (\<lambda>_. None)\<rparr>,
     clock = (\<lambda>_. (11, 0)), ticks = 0\<rparr>"

lemma demo_world_timers: "timer_list demo_world [1, 0]"
  by (simp add: demo_world_def)

text \<open>
  Registration over \<open>select\<close>: starting from a fresh event loop, every sequence of
  \<open>aeCreateFileEvent\<close> and \<open>aeDeleteFileEvent\<close> calls on descriptors below \<open>FD_SETSIZE\<close>
  returns; afterwards \<open>maxfd\<close> is the greatest descriptor with a non-empty mask (or -1) and
  the two \<open>fd_set\<close>s contain exactly the descriptors registered for reading and writing.
\<close>
theorem select_registration:
  assumes "aeCreateEventLoop ok (select_aeApiCreate True q) raw rawf n = (Some l, m)" "int (length raw) = n"
    and "\<forall>x\<in>set ops. reg_op_ok (\<lambda>fd. 0 \<le> fd \<and> fd < FD_SETSIZE) x"
  shows "\<exists>l'. reg_run (select_api sel) l ops = Some l' \<and> setsize l' = n \<and> maxfd_ok l' \<and>
    (\<forall>fd. 0 \<le> fd \<longrightarrow> fd < n \<longrightarrow>
       (fd \<in> rfds (apidata l') \<longleftrightarrow> reg_mask l' fd AND AE_READABLE \<noteq> 0) \<and>
       (fd \<in> wfds (apidata l') \<longleftrightarrow> reg_mask l' fd AND AE_WRITABLE \<noteq> 0))"
proof -
  have "select_watched k fd = 0" if "select_aeApiCreate True q = Some k" for k fd
    using that by (auto simp: select_aeApiCreate_def select_watched_def rw_mask_def)
  then have "loop_inv select_watched l \<and> setsize l = n" by (rule fresh_loop_inv [OF assms(1,2)])
  then obtain l' where l': "reg_run (select_api sel) l ops = Some l'" "loop_inv select_watched l'" "setsize l' = n"
    using sel_backend.reg_run_inv assms(3) by blast
  have "reg_mask l' fd = rw_mask (fd \<in> rfds (apidata l')) (fd \<in> wfds (apidata l'))"
    if "0 \<le> fd" "fd < n" for fd
    using l'(2,3) that by (simp add: loop_inv_def watched_ok_def select_watched_def)
  with l' show ?thesis by (simp add: rw_mask_bits loop_inv_def)
qed

theorem select_registration_witness:
  "\<exists>l l'. fst (aeCreateEventLoop (True, True, True) (select_aeApiCreate True ()) raw_events [] 4) = Some l \<and>
     reg_run (select_api (\<lambda>q _ r w _. (0, r, w, q))) l
       [Register 2 1 0 None, Register 3 2 1 None, Unregister 3 2] = Some l' \<and> maxfd_ok l'"
proof -
  obtain l where l: "aeCreateEventLoop (True, True, True) (select_aeApiCreate True ()) raw_events [] 4 = (Some l, 3)"
    by (simp add: aeCreateEventLoop_def select_aeApiCreate_def)
  have len: "int (length raw_events) = 4" by (simp add: raw_events_def)
  have ops: "\<forall>x\<in>set [Register 2 1 (0::nat) (None :: nat option), Register 3 2 1 None, Unregister 3 2].
      reg_op_ok (\<lambda>fd. 0 \<le> fd \<and> fd < FD_SETSIZE) x" by (simp add: FD_SETSIZE_def)
  from select_registration [OF l len ops, of "\<lambda>q _ r w _. (0, r, w, q)"] l show ?thesis by auto
qed

text \<open>
  C12. Registration over \<open>epoll\<close>: when \<open>epoll_ctl\<close> maintains its interest list as documented,
  every sequence of registrations from a fresh loop keeps \<open>maxfd\<close> exact and leaves in the
  kernel's interest list exactly the registered masks; in particular a descriptor whose mask
  has become empty is no longer watched.
\<close>
theorem epoll_registration:
  assumes "epoll_doc epoll_ctl interest"
    and "\<forall>fd. interest q efd fd = None" "efd \<noteq> -1"
    and "aeCreateEventLoop ok (epoll_aeApiCreate True True (efd, q)) raw rawf n = (Some l, m)" "int (length raw) = n"
    and "\<forall>x\<in>set ops. reg_op_ok (\<lambda>fd. 0 \<le> fd) x"
  shows "\<exists>l'. reg_run (epoll_api epoll_ctl epoll_wait) l ops = Some l' \<and> setsize l' = n \<and> maxfd_ok l' \<and>
    (\<forall>fd. 0 \<le> fd \<longrightarrow> fd < n \<longrightarrow> epoll_watched interest (apidata l') fd = reg_mask l' fd)"
proof -
  have "epoll_watched interest k fd = 0" if "epoll_aeApiCreate True True (efd, q) = Some k" for k fd
    using that assms(2,3) by (auto simp: epoll_aeApiCreate_def epoll_watched_def)
  then have "loop_inv (epoll_watched interest) l \<and> setsize l = n" by (rule fresh_loop_inv [OF assms(4,5)])
  then have l: "loop_inv (epoll_watched interest) l" "setsize l = n" by auto
  obtain l' where "reg_run (epoll_api epoll_ctl epoll_wait) l ops = Some l'"
      "loop_inv (epoll_watched interest) l'" "setsize l' = n"
    using ae_backend.reg_run_inv [OF epoll_backend [OF assms(1)] l(1) assms(6), of epoll_wait] l(2) by auto
  then show ?thesis by (auto simp: loop_inv_def watched_ok_def)
qed

theorem epoll_registration_witness:
  "\<exists>l l'. fst (aeCreateEventLoop (True, True, True) (epoll_aeApiCreate True True (5, \<lambda>_ _. None :: int option)) raw_events [] 4) = Some l \<and>
     reg_run (epoll_api (\<lambda>q e op fd ev. (0, q(e := (q e)(fd := if op = EPOLL_CTL_DEL then None else Some ev)))) (\<lambda>q e n t. (0, [], q))) l
       [Register 2 1 0 None, Register 2 2 1 None, Unregister 2 1] = Some l' \<and> maxfd_ok l'"
proof -
  let ?ctl = "\<lambda>q e op fd ev. (0 :: int, q(e := (q e)(fd := if op = EPOLL_CTL_DEL then None else Some ev))) ::
      int \<times> (int \<Rightarrow> int \<Rightarrow> int option)"
  have doc: "epoll_doc ?ctl (\<lambda>q e. q e)" by (simp add: epoll_doc_def)
  obtain l where l: "aeCreateEventLoop (True, True, True) (epoll_aeApiCreate True True
      (5, (\<lambda>_ _. None) :: int \<Rightarrow> int \<Rightarrow> int option)) raw_events [] 4 = (Some l, 3)" by (simp add: aeCreateEventLoop_def epoll_aeApiCreate_def)
  have len: "int (length raw_events) = 4" by (simp add: raw_events_def)
  have ops: "\<forall>x\<in>set [Register 2 1 (0::nat) (None :: nat option), Register 2 2 1 None, Unregister 2 1].
      reg_op_ok (\<lambda>fd. 0 \<le> fd) x" by simp
  from epoll_registration [OF doc _ _ l len ops, of "\<lambda>q e n t. (0, [], q)"] l show ?thesis by auto
qed

text \<open>
  \<open>aeSearchNearestTimer\<close> returns \<open>NULL\<close> exactly when there is no timer, and otherwise a
  timer of the list that is due no later than every other one.
\<close>
theorem nearest_timer_is_minimum:
  assumes "timer_list w as"
  shows "\<exists>n. aeSearchNearestTimer w = Some n \<and> (n = None \<longleftrightarrow> as = []) \<and>
    (\<forall>a. n = Some a \<longrightarrow> a \<in> set as \<and>
       (\<forall>b\<in>set as. when_sec (timer w a) < when_sec (timer w b) \<or>
          when_sec (timer w a) = when_sec (timer w b) \<and> when_ms (timer w a) \<le> when_ms (timer w b)))"
  using nearest_timer_spec [OF assms, of None]
  by (auto simp: aeSearchNearestTimer_def stamp_le_def stamp_def timer_def)

theorem nearest_timer_is_minimum_witness:
  "\<exists>n. aeSearchNearestTimer demo_world = Some n \<and> n \<noteq> None"
  using nearest_timer_is_minimum [OF demo_world_timers] by auto

text \<open>
  Deleting a timer by its identifier unlinks and frees exactly the first timer with that
  identifier and answers \<open>AE_OK\<close>; without such a timer it answers \<open>AE_ERR\<close> and changes
  nothing.
\<close>
theorem delete_time_event:
  assumes "timer_list w as" "\<forall>a\<in>set as. te_id (timer w a) = i \<longrightarrow> finalizerProc (timer w a) = None"
  shows "\<exists>w'. aeDeleteTimeEvent P w i = Some (if \<exists>a\<in>set as. te_id (timer w a) = i then AE_OK else AE_ERR, w') \<and>
    (if \<exists>a\<in>set as. te_id (timer w a) = i
     then \<exists>bs a cs. as = bs @ a # cs \<and> te_id (timer w a) = i \<and> (\<forall>b\<in>set bs. te_id (timer w b) \<noteq> i) \<and>
       timer_list w' (bs @ cs) \<and> cells (timers w') a = None
     else w' = w)"
proof -
  have "lseg te_next (cells (timers w)) (timeEventHead (el w)) [] (timeEventHead (el w))" by simp
  from del_timer_spec [OF this assms(1) _ assms(2), of None P]
  obtain w' where w': "aeDeleteTimeEvent P w i = Some (if \<exists>a\<in>set as. te_id (timer w a) = i then AE_OK else AE_ERR, w')"
    "if \<exists>a\<in>set as. te_id (timer w a) = i then timer_removed w w' [] as i else w' = w"
    by (auto simp: aeDeleteTimeEvent_def)
  then show ?thesis
    by (intro exI [of _ w'] conjI) (auto simp: timer_removed_def split: if_splits)
qed

theorem delete_time_event_witness:
  "\<exists>w'. aeDeleteTimeEvent \<lparr>file_proc = (\<lambda>_ w _ _ _. Some w), time_proc = (\<lambda>_ w _ _. Some (-1, w)),
       final_proc = (\<lambda>_ w _. Some w), sleep_proc = (\<lambda>_ w. Some w)\<rparr> demo_world 0 = Some (AE_OK, w')"
proof -
  have "te_id (timer demo_world 0) = 0" "finalizerProc (timer demo_world 0) = None"
      "te_id (timer demo_world 1) = 1" by (simp_all add: timer_def demo_world_def)
  then show ?thesis using delete_time_event [OF demo_world_timers, of 0] by auto
qed

text \<open>
  C13. One pass of \<open>processTimeEvents\<close> at a fixed time, over timers with distinct identifiers and no
  finalizers, with handlers that run once (they
  return \<open>AE_NOMORE\<close>) and do anything to the rest of the program: it returns, it runs the
  handlers of exactly the timers that are due, each once and in the order of the list, with their
  identifiers and data (\<^const>\<open>run_timers\<close>); it unlinks and frees those timers, its result is
  their number, and every other timer stays in the list as it was, in order.
\<close>
theorem process_time_events_one_shot:
  assumes "one_shot P h" "frozen w s us" "timer_list w as" "plain_timers w as"
  shows "\<exists>w'. processTimeEvents P w =
      Some (int (length (filter (\<lambda>a. due (timeEventNextId (el w) - 1) (s, us div 1000) (timer w a)) as)), w') \<and>
    timer_list w' (filter (\<lambda>a. \<not> due (timeEventNextId (el w) - 1) (s, us div 1000) (timer w a)) as) \<and>
    ae_world.more w' = run_timers h w (filter (\<lambda>a. due (timeEventNextId (el w) - 1) (s, us div 1000) (timer w a)) as) (ae_world.more w) \<and>
    (\<forall>a\<in>set as. if due (timeEventNextId (el w) - 1) (s, us div 1000) (timer w a) then cells (timers w') a = None else timer_kept w w' a)"
proof -
  let ?due = "\<lambda>a. due (timeEventNextId (el w) - 1) (s, us div 1000) (timer w a)"
  obtain w' where "processTimeEvents P w = Some (int (length (filter ?due as)), w')" "timer_list w' (filter (\<lambda>a. \<not> ?due a) as)"
    "ae_world.more w' = run_timers h w (filter ?due as) (ae_world.more w)"
    "\<forall>a. a \<notin> set as \<or> \<not> ?due a \<longrightarrow> timer_kept w w' a" "\<forall>a\<in>set as. ?due a \<longrightarrow> cells (timers w') a = None"
    using time_loop_one_shot [OF assms(1,2), of "[]" "timeEventHead (el w)" as "timeEventNextId (el w) - 1" 0] assms(3,4)
    unfolding processTimeEvents_def by auto
  then show ?thesis by (intro exI [of _ w']) simp
qed

theorem process_time_events_one_shot_witness:
  "\<exists>w'. processTimeEvents \<lparr>file_proc = (\<lambda>_ w _ _ _. Some w), time_proc = (\<lambda>p w i c. Some (-1, ae_world.more_update (\<lambda>l. l @ [(i, c)]) w)),
       final_proc = (\<lambda>_ w _. Some w), sleep_proc = (\<lambda>_ w. Some w)\<rparr> (ae_world.extend demo_world []) = Some (1, w') \<and>
     timer_list w' [1] \<and> ae_world.more w' = [(0, 0)]"
proof -
  let ?w = "ae_world.extend demo_world [] :: (nat, nat, unit, (int \<times> nat) list) ae_world_scheme"
  let ?P = "\<lparr>file_proc = (\<lambda>_ w _ _ _. Some w), time_proc = (\<lambda>p w i c. Some (-1, ae_world.more_update (\<lambda>l. l @ [(i, c)]) w)),
       final_proc = (\<lambda>_ w _. Some w), sleep_proc = (\<lambda>_ w. Some w)\<rparr> :: (nat, nat, (nat, nat, unit, (int \<times> nat) list) ae_world_scheme) ae_procs"
  have f: "timers ?w = timers demo_world" "el ?w = el demo_world" "clock ?w = clock demo_world" "timer ?w = timer demo_world"
    "ae_world.more ?w = []" by (simp_all add: ae_world.extend_def timer_def fun_eq_iff)
  have "one_shot ?P (\<lambda>p i c l. l @ [(i, c)])" by (simp add: one_shot_def AE_defs)
  moreover have "frozen ?w 11 0" by (simp add: frozen_def f) (simp add: demo_world_def)
  moreover have "plain_timers ?w [1, 0]" by (simp add: plain_timers_def f) (simp add: timer_def demo_world_def)
  moreover have "timer_list ?w [1, 0]" using demo_world_timers by (simp add: f)
  moreover have "\<not> due (timeEventNextId (el ?w) - 1) (11, 0 div 1000) (timer ?w 1)"
      "due (timeEventNextId (el ?w) - 1) (11, 0 div 1000) (timer ?w 0)" "te_id (timer ?w 0) = 0" "teData (timer ?w 0) = 0"
    unfolding f by (simp_all add: due_def stamp_le_def stamp_def timer_def demo_world_def)
  ultimately show ?thesis
    using process_time_events_one_shot [of ?P "\<lambda>p i c l. l @ [(i, c)]" ?w 11 0 "[1, 0]"] by (auto simp: run_timers_def f)
qed

text \<open>
  \<open>aeAddMillisecondsToNow\<close> of a non-negative delay is exact and normalised: the time
  stamp has milliseconds in 0..999 and lies exactly the delay after the current time.
\<close>
theorem add_milliseconds_exact:
  assumes "clock w (ticks w) = (s, us)" "0 \<le> us" "us < 1000000" "0 \<le> d"
  shows "\<exists>sec ms w'. aeAddMillisecondsToNow w d = Some ((sec, ms), w') \<and> 0 \<le> ms \<and> ms < 1000 \<and>
    1000 * sec + ms = 1000 * s + us div 1000 + d"
proof -
  have "0 \<le> us div 1000" "us div 1000 < 1000" "0 \<le> d mod 1000" "d mod 1000 < 1000"
    using assms by auto
  moreover have d: "d = 1000 * (d div 1000) + d mod 1000" by simp
  ultimately show ?thesis
  proof (cases "us div 1000 + d mod 1000 \<ge> 1000")
    case True
    then have "aeAddMillisecondsToNow w d = Some ((s + d div 1000 + 1, us div 1000 + d mod 1000 - 1000),
        w\<lparr>ticks := Suc (ticks w)\<rparr>)"
      using assms by (simp add: aeAddMillisecondsToNow_def aeGetTime_def)
    with True d \<open>us div 1000 < 1000\<close> \<open>d mod 1000 < 1000\<close> show ?thesis by fastforce
  next
    case False
    then have "aeAddMillisecondsToNow w d = Some ((s + d div 1000, us div 1000 + d mod 1000), w\<lparr>ticks := Suc (ticks w)\<rparr>)"
      using assms by (simp add: aeAddMillisecondsToNow_def aeGetTime_def)
    with False d \<open>0 \<le> us div 1000\<close> \<open>0 \<le> d mod 1000\<close> show ?thesis by fastforce
  qed
qed

theorem add_milliseconds_exact_witness:
  "\<exists>sec ms w'. aeAddMillisecondsToNow demo_world 1500 = Some ((sec, ms), w') \<and> 1000 * sec + ms = 12500"
proof -
  have "clock demo_world (ticks demo_world) = (11, 0)" by (simp add: demo_world_def)
  from add_milliseconds_exact [OF this, of 1500] show ?thesis by auto
qed

text \<open>
  C14. The poll timeout of \<open>aeProcessEvents\<close>: when the nearest timer lies in the future, it
  waits exactly until the timer is due. When the timer is overdue it does not return at once:
  \<open>tv_sec\<close> is set to 0, but \<open>tv_usec\<close> keeps the fractional part of the (negative) difference,
  so it waits up to 999 ms more.
\<close>
theorem poll_timeout_exact_unless_overdue:
  assumes "aeSearchNearestTimer w = Some (Some a)" "cells (timers w) a = Some t"
    and "clock w (ticks w) = (ns, us)" "0 \<le> us" "us < 1000000" "0 \<le> when_ms t" "when_ms t < 1000"
  shows "\<exists>sec usec w'. poll_timeout w AE_ALL_EVENTS = Some (Some (sec, usec), w') \<and>
    0 \<le> sec \<and> 0 \<le> usec \<and> usec < 1000000 \<and>
    (if 1000 * ns + us div 1000 \<le> 1000 * when_sec t + when_ms t
     then 1000000 * sec + usec = 1000 * ((1000 * when_sec t + when_ms t) - (1000 * ns + us div 1000))
     else sec = 0 \<and> usec = 1000 * ((when_ms t - us div 1000) mod 1000))"
proof -
  let ?nm = "us div 1000" and ?wm = "when_ms t"
  have nm: "0 \<le> ?nm" "?nm < 1000" using assms(4,5) by auto
  have md: "(?wm - ?nm) mod 1000 = (if ?wm < ?nm then ?wm + 1000 - ?nm else ?wm - ?nm)"
  proof (cases "?wm < ?nm")
    case True
    then have "(?wm - ?nm) mod 1000 = (?wm - ?nm + 1000) mod 1000" by simp
    also have "\<dots> = ?wm - ?nm + 1000" using True nm assms(6,7) by (intro mod_pos_pos_trivial) auto
    finally show ?thesis using True by simp
  qed (use nm assms(6,7) in simp)
  have "poll_timeout w AE_ALL_EVENTS =
      Some (Some (time_to (when_sec t, ?wm) (ns, ?nm)), w\<lparr>ticks := Suc (ticks w)\<rparr>)"
    using assms(1-4) by (simp add: poll_timeout_def AE_defs aeGetTime_def)
  moreover have "time_to (when_sec t, ?wm) (ns, ?nm) =
      (max 0 (when_sec t - ns - (if ?wm < ?nm then 1 else 0)), 1000 * ((?wm - ?nm) mod 1000))"
    unfolding md using nm assms(6,7) by (auto simp: time_to_def Let_def)
  moreover have "0 \<le> (?wm - ?nm) mod 1000" "(?wm - ?nm) mod 1000 < 1000" by auto
  moreover have "1000 * ((?wm - ?nm) mod 1000) = 1000 * (?wm - ?nm) + (if ?wm < ?nm then 1000000 else 0)"
    unfolding md by simp
  ultimately show ?thesis using nm assms(6,7) by (auto simp: max_def)
qed

theorem poll_timeout_exact_unless_overdue_witness:
  "\<exists>w'. clock demo_world (ticks demo_world) = (11, 0) \<and>
     map_option (\<lambda>t. (when_sec t, when_ms t)) (cells (timers demo_world) 0) = Some (10, 500) \<and>
     poll_timeout demo_world AE_ALL_EVENTS = Some (Some (0, 500000), w')"
proof -
  have n: "aeSearchNearestTimer demo_world = Some (Some 0)"
    by (simp add: aeSearchNearestTimer_def nearest_timer.simps demo_world_def)
  have c: "cells (timers demo_world) 0 = Some \<lparr>te_id = 0, when_sec = 10, when_ms = 500, timeProc = 0,
      finalizerProc = None, teData = 0, te_next = None\<rparr>" "clock demo_world (ticks demo_world) = (11, 0)"
    by (simp_all add: demo_world_def)
  show ?thesis
    using poll_timeout_exact_unless_overdue [OF n c] c by simp
qed

end
