(* ===== verification/Policy.thy ===== *)
theory Policy
  imports CPrelude
begin

text \<open>
  The proxy's policy parser, \<open>redis_ae/tcpproxy/policy.c\<close>: the tables of the generated state
  machine, the interpreter that runs them, and the semantic actions. A character is an \<open>int\<close>
  (signed \<open>char\<close>); a host address is \<open>NULL\<close> or a block of 16 characters that starts out
  uninitialised (\<open>malloc\<close> is taken to succeed: the code does not test it). \<open>LogFatal\<close> ends
  the program, which is the outcome \<open>Exit\<close>.
\<close>

section \<open>Tables\<close>

definition policy_parser_actions :: "int list" where
  "policy_parser_actions = [
    0, 1, 3, 1, 4, 1, 6, 1, 7, 1, 8, 1, 9, 1, 10, 2, 0, 3, 2, 2, 4, 2, 3, 4, 2, 5, 1, 3, 8, 0, 3,
    4, 0, 3, 2, 4, 5, 8, 0, 3, 2, 4]"

definition policy_parser_key_offsets :: "int list" where
  "policy_parser_key_offsets = [
    0, 0, 4, 9, 11, 12, 19, 21, 24, 26, 29, 31, 34, 37, 38, 40, 43, 44, 47, 48, 49, 50, 51, 52, 53,
    55, 57, 62, 67, 73, 74, 75, 76, 78, 82, 86, 90, 94, 96, 97, 98, 99, 100, 101, 102, 103, 104,
    106, 109, 111, 114, 116, 119, 122, 125, 126, 129, 130, 135, 140, 141, 142, 143, 144, 145, 146,
    147, 148, 149, 151, 153, 156, 158, 161, 163, 166, 169, 170, 172, 176, 180, 184, 188, 190, 193,
    194, 197, 198, 203, 208, 209, 210, 211, 212, 213, 214, 215, 216, 217, 218, 221, 223, 225, 227,
    229, 229, 232, 235]"

definition policy_parser_trans_keys :: "int list" where
  "policy_parser_trans_keys = [
    97, 108, 48, 57, 32, 45, 46, 48, 57, 32, 45, 62, 32, 97, 104, 108, 114, 48, 57, 48, 57, 46, 48,
    57, 48, 57, 46, 48, 57, 48, 57, 58, 48, 57, 58, 48, 57, 58, 48, 57, 46, 48, 57, 46, 46, 48, 57,
    46, 110, 121, 97, 115, 104, 32, 123, 32, 123, 32, 97, 108, 48, 57, 32, 46, 125, 48, 57, 32, 97,
    108, 125, 48, 57, 110, 121, 58, 48, 57, 32, 125, 48, 57, 32, 125, 48, 57, 32, 125, 48, 57, 32,
    125, 48, 57, 32, 125, 111, 99, 97, 108, 104, 111, 115, 116, 48, 57, 46, 48, 57, 48, 57, 46, 48,
    57, 48, 57, 58, 48, 57, 58, 48, 57, 46, 48, 57, 46, 46, 48, 57, 46, 32, 46, 125, 48, 57, 32,
    46, 125, 48, 57, 111, 99, 97, 108, 104, 111, 115, 116, 114, 32, 123, 48, 57, 46, 48, 57, 48,
    57, 46, 48, 57, 48, 57, 58, 48, 57, 58, 48, 57, 58, 48, 57, 32, 45, 48, 57, 32, 45, 48, 57, 32,
    45, 48, 57, 32, 45, 48, 57, 32, 45, 46, 48, 57, 46, 46, 48, 57, 46, 32, 45, 46, 48, 57, 32, 45,
    46, 48, 57, 110, 121, 111, 99, 97, 108, 104, 111, 115, 116, 46, 48, 57, 48, 57, 48, 57, 48, 57,
    48, 57, 46, 48, 57, 46, 48, 57, 0]"

definition policy_parser_single_lengths :: "int list" where
  "policy_parser_single_lengths = [
    0, 2, 3, 2, 1, 5, 0, 1, 0, 1, 0, 1, 1, 1, 0, 1, 1, 1, 1, 1, 1, 1, 1, 1, 2, 2, 3, 3, 4, 1, 1, 1,
    0, 2, 2, 2, 2, 2, 1, 1, 1, 1, 1, 1, 1, 1, 0, 1, 0, 1, 0, 1, 1, 1, 1, 1, 1, 3, 3, 1, 1, 1, 1, 1,
    1, 1, 1, 1, 2, 0, 1, 0, 1, 0, 1, 1, 1, 0, 2, 2, 2, 2, 2, 1, 1, 1, 1, 3, 3, 1, 1, 1, 1, 1, 1, 1,
    1, 1, 1, 1, 0, 0, 0, 0, 0, 1, 1, 0]"

definition policy_parser_range_lengths :: "int list" where
  "policy_parser_range_lengths = [
    0, 1, 1, 0, 0, 1, 1, 1, 1, 1, 1, 1, 1, 0, 1, 1, 0, 1, 0, 0, 0, 0, 0, 0, 0, 0, 1, 1, 1, 0, 0, 0,
    1, 1, 1, 1, 1, 0, 0, 0, 0, 0, 0, 0, 0, 0, 1, 1, 1, 1, 1, 1, 1, 1, 0, 1, 0, 1, 1, 0, 0, 0, 0, 0,
    0, 0, 0, 0, 0, 1, 1, 1, 1, 1, 1, 1, 0, 1, 1, 1, 1, 1, 0, 1, 0, 1, 0, 1, 1, 0, 0, 0, 0, 0, 0, 0,
    0, 0, 0, 1, 1, 1, 1, 1, 0, 1, 1, 0]"

definition policy_parser_index_offsets :: "int list" where
  "policy_parser_index_offsets = [
    0, 0, 4, 9, 12, 14, 21, 23, 26, 28, 31, 33, 36, 39, 41, 43, 46, 48, 51, 53, 55, 57, 59, 61, 63,
    66, 69, 74, 79, 85, 87, 89, 91, 93, 97, 101, 105, 109, 112, 114, 116, 118, 120, 122, 124, 126,
    128, 130, 133, 135, 138, 140, 143, 146, 149, 151, 154, 156, 161, 166, 168, 170, 172, 174, 176,
    178, 180, 182, 184, 187, 189, 192, 194, 197, 199, 202, 205, 207, 209, 213, 217, 221, 225, 228,
    231, 233, 236, 238, 243, 248, 250, 252, 254, 256, 258, 260, 262, 264, 266, 268, 271, 273, 275,
    277, 279, 280, 283, 286]"

definition policy_parser_indicies :: "int list" where
  "policy_parser_indicies = [
    2, 3, 1, 0, 4, 5, 6, 7, 0, 8, 9, 0, 10, 0, 10, 12, 13, 14, 15, 11, 0, 16, 0, 17, 18, 0, 19, 0,
    20, 21, 0, 22, 0, 24, 23, 0, 24, 25, 0, 24, 0, 26, 0, 20, 27, 0, 20, 0, 17, 28, 0, 17, 0, 29,
    0, 25, 0, 30, 0, 31, 0, 32, 0, 33, 34, 0, 35, 36, 0, 36, 38, 39, 37, 0, 40, 41, 43, 42, 0, 44,
    38, 39, 43, 37, 0, 45, 0, 46, 0, 47, 0, 48, 0, 40, 43, 49, 0, 40, 43, 50, 0, 40, 43, 51, 0, 40,
    43, 52, 0, 40, 43, 0, 53, 0, 54, 0, 55, 0, 56, 0, 57, 0, 58, 0, 59, 0, 46, 0, 60, 0, 61, 62, 0,
    63, 0, 64, 65, 0, 66, 0, 47, 67, 0, 47, 46, 0, 64, 68, 0, 64, 0, 61, 69, 0, 61, 0, 40, 41, 43,
    70, 0, 40, 41, 43, 51, 0, 71, 0, 72, 0, 73, 0, 74, 0, 75, 0, 76, 0, 77, 0, 25, 0, 78, 0, 79,
    80, 0, 81, 0, 82, 83, 0, 84, 0, 85, 86, 0, 87, 0, 89, 88, 0, 89, 90, 0, 89, 0, 91, 0, 4, 5, 92,
    0, 4, 5, 93, 0, 4, 5, 94, 0, 4, 5, 95, 0, 4, 5, 0, 85, 96, 0, 85, 0, 82, 97, 0, 82, 0, 4, 5, 6,
    98, 0, 4, 5, 6, 94, 0, 99, 0, 90, 0, 100, 0, 101, 0, 102, 0, 103, 0, 104, 0, 105, 0, 106, 0,
    90, 0, 107, 108, 0, 109, 0, 110, 0, 111, 0, 112, 0, 0, 107, 113, 0, 107, 111, 0, 0, 0]"

definition policy_parser_trans_targs :: "int list" where
  "policy_parser_trans_targs = [
    0, 2, 89, 91, 3, 4, 69, 87, 3, 4, 5, 99, 19, 21, 59, 67, 7, 8, 17, 9, 10, 15, 11, 12, 14, 13,
    100, 16, 18, 20, 22, 23, 24, 25, 26, 25, 26, 27, 29, 38, 28, 46, 57, 107, 28, 30, 31, 32, 33,
    34, 35, 36, 37, 39, 40, 41, 42, 43, 44, 45, 47, 48, 55, 49, 50, 53, 51, 52, 54, 56, 58, 60, 61,
    62, 63, 64, 65, 66, 68, 25, 26, 70, 71, 85, 72, 73, 83, 74, 75, 77, 76, 78, 79, 80, 81, 82, 84,
    86, 88, 90, 92, 93, 94, 95, 96, 97, 98, 6, 105, 101, 102, 103, 104, 106]"

definition policy_parser_trans_actions :: "int list" where
  "policy_parser_trans_actions = [
    13, 31, 15, 15, 5, 5, 1, 21, 0, 0, 0, 36, 27, 0, 27, 0, 1, 1, 1, 1, 1, 1, 1, 1, 24, 1, 18, 1,
    1, 1, 0, 0, 0, 11, 11, 0, 0, 31, 15, 15, 7, 1, 21, 7, 0, 1, 1, 24, 18, 3, 3, 3, 3, 1, 1, 1, 1,
    1, 1, 1, 1, 1, 1, 1, 1, 1, 1, 1, 1, 1, 21, 1, 1, 1, 1, 1, 1, 1, 0, 9, 9, 1, 1, 1, 1, 1, 1, 1,
    1, 24, 1, 18, 3, 3, 3, 3, 1, 1, 21, 1, 1, 1, 1, 1, 1, 1, 1, 1, 21, 3, 3, 3, 3, 21]"

definition policy_parser_eof_actions :: "int list" where
  "policy_parser_eof_actions = [
    0, 13, 13, 13, 13, 13, 13, 13, 13, 13, 13, 13, 13, 13, 13, 13, 13, 13, 13, 13, 13, 13, 13, 13,
    13, 13, 13, 13, 13, 13, 13, 13, 13, 13, 13, 13, 13, 13, 13, 13, 13, 13, 13, 13, 13, 13, 13, 13,
    13, 13, 13, 13, 13, 13, 13, 13, 13, 13, 13, 13, 13, 13, 13, 13, 13, 13, 13, 13, 13, 13, 13, 13,
    13, 13, 13, 13, 13, 13, 13, 13, 13, 13, 13, 13, 13, 13, 13, 13, 13, 13, 13, 13, 13, 13, 13, 13,
    13, 13, 13, 7, 7, 7, 7, 7, 7, 7, 7, 0]"

definition policy_parser_start :: int where "policy_parser_start = 1"
definition policy_parser_first_final :: int where "policy_parser_first_final = 99"
definition policy_parser_error :: int where "policy_parser_error = 0"

section \<open>Data\<close>

definition PROXY_RR :: int where "PROXY_RR = 0"
definition PROXY_HASH :: int where "PROXY_HASH = 1"

record Hostent =
  addr :: "int option list option"
  port :: int

record Policy =
  listen_host :: Hostent
  ptype :: int
  hosts :: "Hostent list"
  nhost :: int
  curhost :: int
  cs :: int

text \<open>The policy being built and the static variables of the file.\<close>

record parser =
  policy :: Policy
  host :: Hostent
  addr_p :: int
  have_addr :: bool

datatype 'a outcome = Exit | Go 'a

section \<open>Semantic actions\<close>

definition init_host :: "parser \<Rightarrow> parser" where
  "init_host s = s\<lparr>addr_p := 0, host := (host s)\<lparr>addr := None\<rparr>, have_addr := False\<rparr>"

definition append_addr :: "int \<Rightarrow> parser \<Rightarrow> parser option" where
  "append_addr c s = do {
     let a = (case addr (host s) of None \<Rightarrow> replicate 16 None | Some a \<Rightarrow> a);
     a \<leftarrow> awrite a (addr_p s) (Some c);
     Some (s\<lparr>host := (host s)\<lparr>addr := Some a\<rparr>, addr_p := addr_p s + 1\<rparr>)
   }"

definition append_port :: "int \<Rightarrow> parser \<Rightarrow> parser option" where
  "append_port c s = do {
     p \<leftarrow> cint (port (host s) * 10);
     p \<leftarrow> cint (p + (c - 48));
     Some (s\<lparr>host := (host s)\<lparr>port := p\<rparr>\<rparr>)
   }"

definition finish_addr :: "parser \<Rightarrow> parser option" where
  "finish_addr s = do {
     a \<leftarrow> addr (host s);
     a \<leftarrow> awrite a (addr_p s) (Some 0);
     Some (s\<lparr>host := (host s)\<lparr>addr := Some a\<rparr>\<rparr>)
   }"

text \<open>The host that \<open>listen_addr\<close> and \<open>append_host\<close> store: without an address it loses its block.\<close>

definition drop_addr :: "parser \<Rightarrow> Hostent" where
  "drop_addr s = (if \<not> have_addr s then (host s)\<lparr>addr := None\<rparr> else host s)"

definition listen_addr :: "parser \<Rightarrow> parser" where
  "listen_addr s = s\<lparr>policy := (policy s)\<lparr>listen_host := drop_addr s\<rparr>, host := (drop_addr s)\<lparr>addr := None\<rparr>\<rparr>"

definition append_host :: "parser \<Rightarrow> parser" where
  "append_host s = s\<lparr>policy := (policy s)\<lparr>nhost := nhost (policy s) + 1, hosts := hosts (policy s) @ [drop_addr s]\<rparr>,
     host := (drop_addr s)\<lparr>addr := None\<rparr>\<rparr>"

text \<open>The \<open>switch\<close> of the interpreter.\<close>

definition act :: "int \<Rightarrow> int \<Rightarrow> parser \<Rightarrow> parser outcome option" where
  "act k c s = (
     if k = 0 then Some (Go (init_host s))
     else if k = 1 then Some (Go (s\<lparr>have_addr := True\<rparr>))
     else if k = 2 then Some (Go (s\<lparr>host := (host s)\<lparr>port := 0\<rparr>\<rparr>))
     else if k = 3 then map_option Go (append_addr c s)
     else if k = 4 then map_option Go (append_port c s)
     else if k = 5 then map_option Go (finish_addr s)
     else if k = 6 then Some (Go (listen_addr s))
     else if k = 7 then Some (Go (append_host s))
     else if k = 8 then Some (Go (s\<lparr>policy := (policy s)\<lparr>ptype := PROXY_RR\<rparr>\<rparr>))
     else if k = 9 then Some (Go (s\<lparr>policy := (policy s)\<lparr>ptype := PROXY_HASH\<rparr>\<rparr>))
     else if k = 10 then Some Exit
     else Some (Go s))"

text \<open>The \<open>switch\<close> at the end of the input knows two of the actions.\<close>

definition eof_act :: "int \<Rightarrow> parser \<Rightarrow> parser outcome option" where
  "eof_act k s = (if k = 7 then Some (Go (append_host s)) else if k = 10 then Some Exit else Some (Go s))"

text \<open>\<open>while ( _nacts-- > 0 )\<close>, with the action list at \<open>i\<close>.\<close>

fun run_acts :: "(int \<Rightarrow> parser \<Rightarrow> parser outcome option) \<Rightarrow> int \<Rightarrow> nat \<Rightarrow> parser \<Rightarrow> parser outcome option" where
  "run_acts f i 0 s = Some (Go s)"
| "run_acts f i (Suc n) s = do {
     k \<leftarrow> aread policy_parser_actions i;
     r \<leftarrow> f k s;
     case r of Exit \<Rightarrow> Some Exit | Go s \<Rightarrow> run_acts f (i + 1) n s
   }"

section \<open>The interpreter\<close>

text \<open>Binary search for a single key, and for a range of keys.\<close>

function single_search :: "int \<Rightarrow> int \<Rightarrow> int \<Rightarrow> int option option" where
  "single_search c lower upper = (if upper < lower then Some None else do {
     let mid = lower + (upper - lower) div 2;
     k \<leftarrow> aread policy_parser_trans_keys mid;
     if c < k then single_search c lower (mid - 1)
     else if c > k then single_search c (mid + 1) upper
     else Some (Some mid)
   })"
  by pat_completeness auto
termination by (relation "measure (\<lambda>(c, lower, upper). nat (upper + 1 - lower))") auto

text \<open>\<open>_lower + (((_upper-_lower) >> 1) & ~1)\<close>: the lower half of the pairs.\<close>

function range_search :: "int \<Rightarrow> int \<Rightarrow> int \<Rightarrow> int option option" where
  "range_search c lower upper = (if upper < lower then Some None else do {
     let mid = lower + 2 * ((upper - lower) div 2 div 2);
     k0 \<leftarrow> aread policy_parser_trans_keys mid;
     if c < k0 then range_search c lower (mid - 2)
     else do {
       k1 \<leftarrow> aread policy_parser_trans_keys (mid + 1);
       if c > k1 then range_search c (mid + 2) upper
       else Some (Some mid)
     }
   })"
  by pat_completeness auto
termination by (relation "measure (\<lambda>(c, lower, upper). nat (upper + 2 - lower))") auto

declare single_search.simps [simp del] range_search.simps [simp del]

text \<open>\<open>_resume\<close> to \<open>_match\<close>: the number of the transition from \<open>state\<close> on \<open>c\<close>.\<close>

definition find_trans :: "int \<Rightarrow> int \<Rightarrow> int option" where
  "find_trans state c = do {
     keys \<leftarrow> aread policy_parser_key_offsets state;
     trans \<leftarrow> aread policy_parser_index_offsets state;
     klen \<leftarrow> aread policy_parser_single_lengths state;
     r \<leftarrow> (if klen > 0 then single_search c keys (keys + klen - 1) else Some None);
     case r of
       Some mid \<Rightarrow> aread policy_parser_indicies (trans + (mid - keys))
     | None \<Rightarrow> do {
         let keys = (if klen > 0 then keys + klen else keys);
         let trans = (if klen > 0 then trans + klen else trans);
         klen \<leftarrow> aread policy_parser_range_lengths state;
         r \<leftarrow> (if klen > 0 then range_search c keys (keys + 2 * klen - 2) else Some None);
         case r of
           Some mid \<Rightarrow> aread policy_parser_indicies (trans + (mid - keys) div 2)
         | None \<Rightarrow> aread policy_parser_indicies (if klen > 0 then trans + klen else trans)
       }
   }"

text \<open>One character.\<close>

definition exec_char :: "int \<Rightarrow> parser \<Rightarrow> parser outcome option" where
  "exec_char c s = do {
     trans \<leftarrow> find_trans (cs (policy s)) c;
     target \<leftarrow> aread policy_parser_trans_targs trans;
     let s = s\<lparr>policy := (policy s)\<lparr>cs := target\<rparr>\<rparr>;
     a \<leftarrow> aread policy_parser_trans_actions trans;
     if a = 0 then Some (Go s)
     else do {
       n \<leftarrow> aread policy_parser_actions a;
       run_acts (\<lambda>k. act k c) (a + 1) (nat n) s
     }
   }"

definition exec_eof :: "parser \<Rightarrow> parser outcome option" where
  "exec_eof s = do {
     a \<leftarrow> aread policy_parser_eof_actions (cs (policy s));
     n \<leftarrow> aread policy_parser_actions a;
     run_acts eof_act (a + 1) (nat n) s
   }"

fun exec :: "int list \<Rightarrow> parser \<Rightarrow> parser outcome option" where
  "exec [] s = exec_eof s"
| "exec (c # p) s = do {
     r \<leftarrow> exec_char c s;
     case r of Exit \<Rightarrow> Some Exit
     | Go s \<Rightarrow> if cs (policy s) = 0 then Some (Go s) else exec p s
   }"

text \<open>
  \<open>ParsePolicy\<close>, from the values that the static variables have; the result is \<open>NULL\<close> or the
  policy. Entering with an empty string goes straight to the end of the input.
\<close>

definition ParsePolicy :: "Hostent \<Rightarrow> int \<Rightarrow> bool \<Rightarrow> int list \<Rightarrow> Policy option outcome option" where
  "ParsePolicy host0 addr_p0 have_addr0 p = do {
     let pol = \<lparr>listen_host = \<lparr>addr = None, port = 0\<rparr>, ptype = 0, hosts = [], nhost = 0, curhost = 0,
                cs = policy_parser_start\<rparr>;
     r \<leftarrow> exec p \<lparr>policy = pol, host = host0\<lparr>addr := None\<rparr>, addr_p = addr_p0, have_addr = have_addr0\<rparr>;
     case r of Exit \<Rightarrow> Some Exit
     | Go s \<Rightarrow> Some (Go (if cs (policy s) = policy_parser_error then None else Some (policy s)))
   }"

end
