(* ===== verification/Policy_Correct.thy ===== *)
theory Policy_Correct
  imports Policy
begin

text \<open>
  The policy parser is memory safe for every input string: an abstract interpretation of the
  state machine. \<open>absv\<close> bounds, for one state, the address index, the number of port digits and
  what is known of the address block; the table \<open>abs_tab\<close> gives such a bound for every state,
  and one evaluation checks that each of the 288 transitions respects it.
\<close>

section \<open>The transition tables stay inside their arrays\<close>

lemma single_search_range:
  assumes "0 \<le> lower" "upper < 236"
  shows "\<exists>r. single_search c lower upper = Some r \<and> (\<forall>mid. r = Some mid \<longrightarrow> lower \<le> mid \<and> mid \<le> upper)"
  using assms
proof (induction c lower upper rule: single_search.induct)
  case (1 c lower upper)
  let ?mid = "lower + (upper - lower) div 2"
  show ?case
  proof (cases "upper < lower")
    case True
    then show ?thesis by (subst single_search.simps) simp
  next
    case False
    have mid: "lower \<le> ?mid" "?mid \<le> upper" using False by auto
    have len: "length policy_parser_trans_keys = 236" by (simp add: policy_parser_trans_keys_def)
    obtain k where k: "aread policy_parser_trans_keys ?mid = Some k"
      using mid "1.prems" len by (simp add: aread_in)
    consider "c < k" | "c > k" | "c = k" by linarith
    then show ?thesis
    proof cases
      case 1
      have "\<exists>r. single_search c lower (?mid - 1) = Some r \<and>
          (\<forall>m. r = Some m \<longrightarrow> lower \<le> m \<and> m \<le> ?mid - 1)"
        using "1.IH"(1) [OF False refl k 1] "1.prems" mid by auto
      then show ?thesis using False k 1 mid by (subst single_search.simps) (fastforce simp: Let_def)
    next
      case 2
      have "\<exists>r. single_search c (?mid + 1) upper = Some r \<and>
          (\<forall>m. r = Some m \<longrightarrow> ?mid + 1 \<le> m \<and> m \<le> upper)"
        using "1.IH"(2) [OF False refl k _ 2] "1.prems" mid 2 by auto
      then show ?thesis using False k 2 mid by (subst single_search.simps) (fastforce simp: Let_def)
    next
      case 3
      then show ?thesis using False k mid by (subst single_search.simps) (simp add: Let_def)
    qed
  qed
qed

lemma range_search_range:
  assumes "0 \<le> lower" "upper < 235" "even (upper - lower)"
  shows "\<exists>r. range_search c lower upper = Some r \<and>
    (\<forall>mid. r = Some mid \<longrightarrow> lower \<le> mid \<and> mid \<le> upper \<and> even (mid - lower))"
  using assms
proof (induction c lower upper rule: range_search.induct)
  case (1 c lower upper)
  let ?mid = "lower + 2 * ((upper - lower) div 2 div 2)"
  show ?case
  proof (cases "upper < lower")
    case True
    then show ?thesis by (subst range_search.simps) simp
  next
    case False
    have mid: "lower \<le> ?mid" "?mid \<le> upper" using False by auto
    have len: "length policy_parser_trans_keys = 236" by (simp add: policy_parser_trans_keys_def)
    obtain k0 k1 where k: "aread policy_parser_trans_keys ?mid = Some k0"
        "aread policy_parser_trans_keys (?mid + 1) = Some k1"
      using mid "1.prems" len by (simp add: aread_in)
    consider "c < k0" | "\<not> c < k0" "c > k1" | "\<not> c < k0" "\<not> c > k1" by linarith
    then show ?thesis
    proof cases
      case 1
      have "even (?mid - 2 - lower)" by simp
      then have "\<exists>r. range_search c lower (?mid - 2) = Some r \<and>
          (\<forall>m. r = Some m \<longrightarrow> lower \<le> m \<and> m \<le> ?mid - 2 \<and> even (m - lower))"
        using "1.IH"(1) [OF False refl k(1) 1] "1.prems" mid by auto
      then show ?thesis using False k 1 mid by (subst range_search.simps) (fastforce simp: Let_def)
    next
      case 2
      have "even (upper - (?mid + 2))" using "1.prems"(3) by simp
      then have "\<exists>r. range_search c (?mid + 2) upper = Some r \<and>
          (\<forall>m. r = Some m \<longrightarrow> ?mid + 2 \<le> m \<and> m \<le> upper \<and> even (m - (?mid + 2)))"
        using "1.IH"(2) [OF False refl k(1) 2(1) k(2) 2(2)] "1.prems" mid by auto
      then obtain r where r: "range_search c (?mid + 2) upper = Some r"
          "\<And>m. r = Some m \<Longrightarrow> ?mid + 2 \<le> m \<and> m \<le> upper \<and> even (m - (?mid + 2))" by blast
      have "even (m - lower)" if "even (m - (?mid + 2))" for m using that by simp
      then show ?thesis
        using False k 2 mid r by (subst range_search.simps) (fastforce simp: Let_def)
    next
      case 3
      then show ?thesis using False k mid by (subst range_search.simps) (simp add: Let_def)
    qed
  qed
qed

definition trans_count :: "nat \<Rightarrow> int" where
  "trans_count q = policy_parser_single_lengths ! q + policy_parser_range_lengths ! q + 1"

definition state_tables_ok :: "nat \<Rightarrow> bool" where
  "state_tables_ok q \<longleftrightarrow> (let ko = policy_parser_key_offsets ! q; sl = policy_parser_single_lengths ! q;
      rl = policy_parser_range_lengths ! q; io = policy_parser_index_offsets ! q
    in 0 \<le> ko \<and> 0 \<le> sl \<and> 0 \<le> rl \<and> ko + sl + 2 * rl \<le> 236 \<and> 0 \<le> io \<and> io + sl + rl < 288)"

lemma all_state_tables_ok: "list_all state_tables_ok [0..<108]"
  by code_simp

lemma table_lengths:
  "length policy_parser_key_offsets = 108" "length policy_parser_index_offsets = 108"
  "length policy_parser_single_lengths = 108" "length policy_parser_range_lengths = 108"
  "length policy_parser_indicies = 288" "length policy_parser_trans_targs = 114"
  "length policy_parser_trans_actions = 114" "length policy_parser_eof_actions = 108"
  "length policy_parser_actions = 42"
  by code_simp+

lemma find_trans_range:
  assumes "q < 108"
  shows "\<exists>t. find_trans (int q) c = Some (policy_parser_indicies ! nat t) \<and>
    policy_parser_index_offsets ! q \<le> t \<and> t < policy_parser_index_offsets ! q + trans_count q \<and> 0 \<le> t \<and> t < 288"
proof -
  define ko where "ko = policy_parser_key_offsets ! q"
  define io where "io = policy_parser_index_offsets ! q"
  define sl where "sl = policy_parser_single_lengths ! q"
  define rl where "rl = policy_parser_range_lengths ! q"
  have "state_tables_ok q" using all_state_tables_ok assms by (simp add: list_all_iff)
  then have ok: "0 \<le> ko" "0 \<le> sl" "0 \<le> rl" "ko + sl + 2 * rl \<le> 236" "0 \<le> io" "io + sl + rl < 288"
    by (simp_all add: state_tables_ok_def Let_def ko_def sl_def rl_def io_def)
  have rd: "aread policy_parser_key_offsets (int q) = Some ko" "aread policy_parser_index_offsets (int q) = Some io"
      "aread policy_parser_single_lengths (int q) = Some sl" "aread policy_parser_range_lengths (int q) = Some rl"
    using assms by (simp_all add: table_lengths ko_def io_def sl_def rl_def)
  have ind: "aread policy_parser_indicies t = Some (policy_parser_indicies ! nat t)" if "0 \<le> t" "t < 288" for t
    using that by (simp add: aread_in table_lengths)
  have tc: "trans_count q = sl + rl + 1" by (simp add: trans_count_def sl_def rl_def)
  obtain r1 where r1: "(if sl > 0 then single_search c ko (ko + sl - 1) else Some None) = Some r1"
      "\<And>mid. r1 = Some mid \<Longrightarrow> ko \<le> mid \<and> mid \<le> ko + sl - 1"
    using single_search_range [of ko "ko + sl - 1" c] ok by (cases "sl > 0") auto
  show ?thesis
  proof (cases r1)
    case (Some mid)
    let ?t = "io + (mid - ko)"
    have t: "io \<le> ?t" "?t < io + trans_count q" "0 \<le> ?t" "?t < 288" using r1(2) [OF Some] ok tc by auto
    have "find_trans (int q) c = Some (policy_parser_indicies ! nat ?t)"
      using rd r1(1) Some ind [OF t(3,4)] by (simp add: find_trans_def)
    with t show ?thesis unfolding io_def by blast
  next
    case None
    define k2 where "k2 = (if sl > 0 then ko + sl else ko)"
    define i2 where "i2 = (if sl > 0 then io + sl else io)"
    have k2: "k2 = ko + sl" "i2 = io + sl" using ok by (auto simp: k2_def i2_def)
    obtain r2 where r2: "(if rl > 0 then range_search c k2 (k2 + 2 * rl - 2) else Some None) = Some r2"
        "\<And>mid. r2 = Some mid \<Longrightarrow> k2 \<le> mid \<and> mid \<le> k2 + 2 * rl - 2"
      using range_search_range [of k2 "k2 + 2 * rl - 2" c] ok k2 by (cases "rl > 0") auto
    define t where "t = (case r2 of Some mid \<Rightarrow> i2 + (mid - k2) div 2 | None \<Rightarrow> if rl > 0 then i2 + rl else i2)"
    have t: "io \<le> t" "t < io + trans_count q" "0 \<le> t" "t < 288"
      using r2(2) ok tc k2 by (auto simp: t_def split: option.splits)
    have "find_trans (int q) c = Some (policy_parser_indicies ! nat t)"
      using rd r1(1) None r2(1) ind [OF t(3,4)] unfolding k2_def i2_def t_def
      by (auto simp: find_trans_def Let_def split: option.splits if_splits)
    with t show ?thesis unfolding io_def by blast
  qed
qed

section \<open>Abstract interpretation\<close>

text \<open>
  Bound of the address index (99: none); the block is allocated; the block is \<open>NULL\<close> or
  terminated; \<open>have_addr\<close> is 0; \<open>have_addr\<close> implies that the block is \<open>NULL\<close> or terminated;
  bound of the number of port digits (9: none); there is a host.
\<close>

type_synonym absv = "int \<times> bool \<times> bool \<times> bool \<times> bool \<times> int \<times> bool"

definition terminated :: "int option list option \<Rightarrow> bool" where
  "terminated x \<longleftrightarrow> (\<forall>a. x = Some a \<longrightarrow> length a = 16 \<and> Some 0 \<in> set a)"

fun port_bound :: "nat \<Rightarrow> int" where
  "port_bound 0 = 0"
| "port_bound (Suc n) = 10 * port_bound n + 176"

definition parser_in :: "absv \<Rightarrow> parser \<Rightarrow> bool" where
  "parser_in v s \<longleftrightarrow> (case v of (ap, al, nn, h0, hn, pd, hs) \<Rightarrow>
     (ap < 99 \<longrightarrow> 0 \<le> addr_p s \<and> addr_p s \<le> ap) \<and> (al \<longrightarrow> addr (host s) \<noteq> None) \<and>
     (\<forall>a. addr (host s) = Some a \<longrightarrow> length a = 16) \<and> (nn \<longrightarrow> terminated (addr (host s))) \<and>
     (h0 \<longrightarrow> \<not> have_addr s) \<and> (hn \<longrightarrow> have_addr s \<longrightarrow> terminated (addr (host s))) \<and>
     (0 \<le> pd \<and> pd < 9 \<longrightarrow> \<bar>port (host s)\<bar> \<le> port_bound (nat pd)) \<and> 0 \<le> pd \<and>
     terminated (addr (listen_host (policy s))) \<and> (\<forall>h\<in>set (hosts (policy s)). terminated (addr h)) \<and>
     nhost (policy s) = int (length (hosts (policy s))) \<and> (hs \<longrightarrow> hosts (policy s) \<noteq> []))"

text \<open>\<open>None\<close>: not known to be safe; \<open>Some None\<close>: the program ends.\<close>

definition abs_act :: "int \<Rightarrow> absv \<Rightarrow> absv option option" where
  "abs_act k v = (case v of (ap, al, nn, h0, hn, pd, hs) \<Rightarrow>
     if k = 0 then Some (Some (0, False, True, True, True, pd, hs))
     else if k = 1 then Some (Some (ap, al, nn, False, nn, pd, hs))
     else if k = 2 then Some (Some (ap, al, nn, h0, hn, 0, hs))
     else if k = 3 then (if ap < 16 then Some (Some (ap + 1, True, False, h0, h0, pd, hs)) else None)
     else if k = 4 then (if pd < 6 then Some (Some (ap, al, nn, h0, hn, pd + 1, hs)) else None)
     else if k = 5 then (if al \<and> ap < 16 then Some (Some (ap, al, True, h0, True, pd, hs)) else None)
     else if k = 6 then (if hn then Some (Some (ap, False, True, h0, True, pd, hs)) else None)
     else if k = 7 then (if hn then Some (Some (ap, False, True, h0, True, pd, True)) else None)
     else if k = 10 then Some None
     else Some (Some v))"

fun abs_acts :: "int \<Rightarrow> nat \<Rightarrow> absv \<Rightarrow> absv option option" where
  "abs_acts i 0 v = Some (Some v)"
| "abs_acts i (Suc n) v = do {
     k \<leftarrow> aread policy_parser_actions i;
     r \<leftarrow> abs_act k v;
     case r of None \<Rightarrow> Some None | Some v \<Rightarrow> abs_acts (i + 1) n v
   }"

definition abs_le :: "absv \<Rightarrow> absv \<Rightarrow> bool" where
  "abs_le v w \<longleftrightarrow> (case (v, w) of ((ap, al, nn, h0, hn, pd, hs), (ap', al', nn', h0', hn', pd', hs')) \<Rightarrow>
     ap \<le> ap' \<and> (al' \<longrightarrow> al) \<and> (nn' \<longrightarrow> nn) \<and> (h0' \<longrightarrow> h0) \<and> (hn' \<longrightarrow> hn) \<and> pd \<le> pd' \<and> (hs' \<longrightarrow> hs))"

definition abs_tab :: "absv list" where
  "abs_tab = [
    (99, False, True, False, True, 9, False), (99, False, True, False, True, 9, False),
    (1, True, False, True, True, 1, False), (15, False, True, False, True, 5, False),
    (15, False, True, False, True, 5, False), (15, False, True, False, True, 5, False),
    (4, True, False, True, True, 3, False), (5, True, False, True, True, 3, False),
    (8, True, False, True, True, 3, False), (9, True, False, True, True, 3, False),
    (12, True, False, True, True, 3, False), (13, True, False, True, True, 3, False),
    (14, True, False, True, True, 3, False), (15, True, False, True, True, 5, False),
    (15, True, True, False, True, 5, False), (10, True, False, True, True, 3, False),
    (11, True, False, True, True, 3, False), (6, True, False, True, True, 3, False),
    (7, True, False, True, True, 3, False), (1, True, False, True, True, 5, False),
    (2, True, False, True, True, 5, False), (15, False, True, False, True, 5, False),
    (15, False, True, False, True, 5, False), (15, False, True, False, True, 5, False),
    (15, False, True, False, True, 5, False), (15, False, True, False, True, 5, False),
    (15, False, True, False, True, 5, False), (1, True, False, True, True, 1, False),
    (15, False, True, False, True, 5, True), (1, True, False, True, True, 5, False),
    (2, True, False, True, True, 5, False), (15, True, False, True, True, 5, False),
    (15, True, True, False, True, 5, False), (15, True, True, False, True, 1, False),
    (15, True, True, False, True, 2, False), (15, True, True, False, True, 3, False),
    (15, True, False, False, True, 4, False), (15, True, False, False, True, 5, False),
    (1, True, False, True, True, 5, False), (2, True, False, True, True, 5, False),
    (3, True, False, True, True, 5, False), (4, True, False, True, True, 5, False),
    (5, True, False, True, True, 5, False), (6, True, False, True, True, 5, False),
    (7, True, False, True, True, 5, False), (8, True, False, True, True, 5, False),
    (4, True, False, True, True, 3, False), (5, True, False, True, True, 3, False),
    (8, True, False, True, True, 3, False), (9, True, False, True, True, 3, False),
    (12, True, False, True, True, 3, False), (13, True, False, True, True, 3, False),
    (14, True, False, True, True, 3, False), (10, True, False, True, True, 3, False),
    (11, True, False, True, True, 3, False), (6, True, False, True, True, 3, False),
    (7, True, False, True, True, 3, False), (2, True, False, True, True, 2, False),
    (3, True, False, True, True, 3, False), (1, True, False, True, True, 5, False),
    (2, True, False, True, True, 5, False), (3, True, False, True, True, 5, False),
    (4, True, False, True, True, 5, False), (5, True, False, True, True, 5, False),
    (6, True, False, True, True, 5, False), (7, True, False, True, True, 5, False),
    (8, True, False, True, True, 5, False), (15, False, True, False, True, 5, False),
    (15, False, True, False, True, 5, False), (4, True, False, True, True, 3, False),
    (5, True, False, True, True, 3, False), (8, True, False, True, True, 3, False),
    (9, True, False, True, True, 3, False), (12, True, False, True, True, 3, False),
    (13, True, False, True, True, 3, False), (14, True, False, True, True, 3, False),
    (15, True, False, True, True, 9, False), (15, True, True, False, True, 9, False),
    (15, True, True, False, True, 1, False), (15, True, True, False, True, 2, False),
    (15, True, True, False, True, 3, False), (15, True, False, False, True, 4, False),
    (15, True, False, False, True, 5, False), (10, True, False, True, True, 3, False),
    (11, True, False, True, True, 3, False), (6, True, False, True, True, 3, False),
    (7, True, False, True, True, 3, False), (2, True, False, True, True, 2, False),
    (3, True, False, True, True, 3, False), (1, True, False, True, True, 9, False),
    (2, True, False, True, True, 9, False), (1, True, False, True, True, 9, False),
    (2, True, False, True, True, 9, False), (3, True, False, True, True, 9, False),
    (4, True, False, True, True, 9, False), (5, True, False, True, True, 9, False),
    (6, True, False, True, True, 9, False), (7, True, False, True, True, 9, False),
    (8, True, False, True, True, 9, False), (1, True, False, True, True, 1, False),
    (15, True, True, False, True, 1, False), (15, True, True, False, True, 2, False),
    (15, True, True, False, True, 3, False), (15, True, False, False, True, 4, False),
    (15, True, False, False, True, 5, False), (2, True, False, True, True, 2, False),
    (3, True, False, True, True, 3, False), (15, False, True, False, True, 5, True)]"

text \<open>Every transition out of \<open>q\<close> leads to the bound of its target, or ends the program.\<close>

definition abs_trans_ok :: "nat \<Rightarrow> int \<Rightarrow> bool" where
  "abs_trans_ok q t = (let i = policy_parser_indicies ! nat t;
       target = policy_parser_trans_targs ! nat i; a = policy_parser_trans_actions ! nat i
     in 0 \<le> i \<and> i < 114 \<and> 0 \<le> target \<and> target < 108 \<and> 0 \<le> a \<and> a < 42 \<and>
       (case (if a = 0 then Some (Some (abs_tab ! q)) else abs_acts (a + 1) (nat (policy_parser_actions ! nat a)) (abs_tab ! q)) of
          None \<Rightarrow> False
        | Some None \<Rightarrow> True
        | Some (Some v) \<Rightarrow> target \<noteq> 0 \<and> abs_le v (abs_tab ! nat target)))"

definition abs_state_ok :: "nat \<Rightarrow> bool" where
  "abs_state_ok q = (list_all (abs_trans_ok q)
       [policy_parser_index_offsets ! q .. policy_parser_index_offsets ! q + trans_count q - 1] \<and>
     (let a = policy_parser_eof_actions ! q
      in 0 \<le> a \<and> a < 42 \<and>
        (case abs_acts (a + 1) (nat (policy_parser_actions ! nat a)) (abs_tab ! q) of
           None \<Rightarrow> False | Some None \<Rightarrow> True | Some (Some v) \<Rightarrow> snd (snd (snd (snd (snd (snd v)))))) \<and>
        list_all (\<lambda>k. k = 7 \<or> k = 10) (take (nat (policy_parser_actions ! nat a)) (drop (nat (a + 1)) policy_parser_actions))))"

lemma all_abs_states_ok: "list_all abs_state_ok [1..<108]"
  by code_simp

end
