(* ===== verification/Policy_Theorems.thy ===== *)
theory Policy_Theorems
  imports Policy_Correct
begin

text \<open>
  Soundness of the abstract interpretation, and the properties of the policy parser.
\<close>

section \<open>Soundness\<close>

lemma terminated_None [simp]: "terminated None"
  by (simp add: terminated_def)

lemma port_bound_mono: "m \<le> n \<Longrightarrow> port_bound m \<le> port_bound n \<and> 0 \<le> port_bound m"
proof (induction n)
  case (Suc n)
  have nn: "0 \<le> port_bound k" for k by (induction k) auto
  show ?case
  proof (cases "m = Suc n")
    case False
    then have "port_bound m \<le> port_bound n" using Suc by simp
    then show ?thesis using nn [of n] nn [of m] by simp
  qed (simp add: nn)
qed simp

lemma port_step:
  assumes "0 \<le> pd" "pd < 6" "\<bar>p\<bar> \<le> port_bound (nat pd)" "-128 \<le> c" "c \<le> 127"
  shows "cint (p * 10) = Some (p * 10)" "cint (p * 10 + (c - 48)) = Some (p * 10 + (c - 48))"
    "\<bar>p * 10 + (c - 48)\<bar> \<le> port_bound (nat (pd + 1))"
proof -
  have "port_bound (nat pd) \<le> port_bound 5" using assms(1,2) by (intro conjunct1 [OF port_bound_mono]) auto
  also have "\<dots> = 1955536" by (simp add: numeral_eq_Suc)
  finally have b: "\<bar>p\<bar> \<le> 1955536" using assms(3) by simp
  then show "cint (p * 10) = Some (p * 10)" "cint (p * 10 + (c - 48)) = Some (p * 10 + (c - 48))"
    using assms(4,5) by (auto simp: cint_def int_min_def int_max_def)
  have "nat (pd + 1) = Suc (nat pd)" using assms(1) by simp
  then show "\<bar>p * 10 + (c - 48)\<bar> \<le> port_bound (nat (pd + 1))" using assms(3-5) by auto
qed

lemma abs_act_sound:
  assumes v: "parser_in v s" and c: "-128 \<le> c" "c \<le> 127" and ak: "abs_act k v = Some r"
  shows "case r of None \<Rightarrow> act k c s = Some Exit
    | Some v' \<Rightarrow> (\<exists>s'. act k c s = Some (Go s') \<and> parser_in v' s' \<and> cs (policy s') = cs (policy s))"
proof -
  obtain ap al nn h0 hn pd hs where v_eq: "v = (ap, al, nn, h0, hn, pd, hs)" by (cases v) auto
  note P = v [unfolded v_eq parser_in_def, simplified]
  note A = ak [unfolded v_eq abs_act_def prod.case]
  consider "k = 0" | "k = 1" | "k = 2" | "k = 3" | "k = 4" | "k = 5" | "k = 6" | "k = 7" | "k = 10"
    | "k \<notin> {0, 1, 2, 3, 4, 5, 6, 7, 10}" by blast
  then show ?thesis
  proof cases
    case 1
    then have r: "r = Some (0, False, True, True, True, pd, hs)" using A by simp
    show ?thesis using P 1 unfolding r by (simp add: act_def init_host_def parser_in_def)
  next
    case 2
    then have r: "r = Some (ap, al, nn, False, nn, pd, hs)" using A by simp
    show ?thesis using P 2 unfolding r by (simp add: act_def parser_in_def)
  next
    case 3
    then have r: "r = Some (ap, al, nn, h0, hn, 0, hs)" using A by simp
    show ?thesis using P 3 unfolding r by (simp add: act_def parser_in_def)
  next
    case 4
    then have ap: "ap < 16" "r = Some (ap + 1, True, False, h0, h0, pd, hs)" using A by (auto split: if_splits)
    then have p: "0 \<le> addr_p s" "addr_p s \<le> ap" using P by auto
    define a where "a = (case addr (host s) of None \<Rightarrow> replicate 16 None | Some a \<Rightarrow> a)"
    have "length a = 16" using P by (auto simp: a_def split: option.splits)
    then have "awrite a (addr_p s) (Some c) = Some (a[nat (addr_p s) := Some c])"
      "length (a[nat (addr_p s) := Some c]) = 16" using p ap by (auto simp: awrite_in)
    then show ?thesis
      using 4 P p unfolding ap(2)
      by (auto simp: act_def append_addr_def parser_in_def a_def [symmetric] terminated_def)
  next
    case 5
    then have pd: "pd < 6" "r = Some (ap, al, nn, h0, hn, pd + 1, hs)" using A by (auto split: if_splits)
    have pd0: "0 \<le> pd" and pb: "\<bar>port (host s)\<bar> \<le> port_bound (nat pd)" using P pd(1) by auto
    note step = port_step [OF pd0 pd(1) pb c]
    show ?thesis
      using 5 P step unfolding pd(2) by (auto simp: act_def append_port_def parser_in_def)
  next
    case 6
    then have ap: "al" "ap < 16" "r = Some (ap, al, True, h0, True, pd, hs)" using A by (auto split: if_splits)
    then obtain a where a: "addr (host s) = Some a" "length a = 16" using P by auto
    have p: "0 \<le> addr_p s" "addr_p s \<le> ap" using P ap(2) by auto
    then have "awrite a (addr_p s) (Some 0) = Some (a[nat (addr_p s) := Some 0])"
      "Some 0 \<in> set (a[nat (addr_p s) := Some 0])" using a(2) ap(2) by (auto simp: awrite_in set_update_memI)
    then show ?thesis
      using 6 P a unfolding ap(3) by (auto simp: act_def finish_addr_def parser_in_def terminated_def)
  next
    case 7
    then have hn: "hn" "r = Some (ap, False, True, h0, True, pd, hs)" using A by (auto split: if_splits)
    have "terminated (addr (drop_addr s))" using P hn(1) by (auto simp: drop_addr_def)
    moreover have "port (drop_addr s) = port (host s)" by (simp add: drop_addr_def)
    ultimately show ?thesis
      using 7 P unfolding hn(2) by (auto simp: act_def listen_addr_def parser_in_def)
  next
    case 8
    then have hn: "hn" "r = Some (ap, False, True, h0, True, pd, True)" using A by (auto split: if_splits)
    have "terminated (addr (drop_addr s))" using P hn(1) by (auto simp: drop_addr_def)
    moreover have "port (drop_addr s) = port (host s)" by (simp add: drop_addr_def)
    ultimately show ?thesis
      using 8 P unfolding hn(2) by (auto simp: act_def append_host_def parser_in_def)
  next
    case 9
    then have r: "r = None" using A by simp
    show ?thesis using 9 unfolding r by (simp add: act_def)
  next
    case 10
    then have r: "r = Some (ap, al, nn, h0, hn, pd, hs)" using A by simp
    show ?thesis using P 10 unfolding r by (auto simp: act_def parser_in_def)
  qed
qed

lemma abs_acts_sound:
  assumes "parser_in v s" "-128 \<le> c" "c \<le> 127" "abs_acts i n v = Some r"
  shows "case r of None \<Rightarrow> run_acts (\<lambda>k. act k c) i n s = Some Exit
    | Some v' \<Rightarrow> (\<exists>s'. run_acts (\<lambda>k. act k c) i n s = Some (Go s') \<and> parser_in v' s' \<and>
        cs (policy s') = cs (policy s))"
  using assms
proof (induction n arbitrary: i v s)
  case (Suc n)
  obtain k r1 where k: "aread policy_parser_actions i = Some k" "abs_act k v = Some r1"
      "(case r1 of None \<Rightarrow> Some None | Some v \<Rightarrow> abs_acts (i + 1) n v) = Some r"
    using Suc.prems(4) by (auto simp: bind_eq_Some_conv)
  note sound = abs_act_sound [OF Suc.prems(1-3) k(2)]
  show ?case
  proof (cases r1)
    case None
    then show ?thesis using k sound by auto
  next
    case (Some v1)
    then obtain s1 where s1: "act k c s = Some (Go s1)" "parser_in v1 s1" "cs (policy s1) = cs (policy s)"
      using sound by auto
    have "abs_acts (i + 1) n v1 = Some r" using k(3) Some by simp
    from Suc.IH [OF s1(2) Suc.prems(2,3) this] s1(1,3) k(1) show ?thesis
      by (auto split: option.splits)
  qed
qed auto

lemma parser_in_mono:
  assumes "parser_in v s" "abs_le v w" "0 \<le> fst (snd (snd (snd (snd (snd v)))))"
  shows "parser_in w s"
proof -
  obtain ap al nn h0 hn pd hs where v: "v = (ap, al, nn, h0, hn, pd, hs)" by (cases v) auto
  obtain ap' al' nn' h0' hn' pd' hs' where w: "w = (ap', al', nn', h0', hn', pd', hs')" by (cases w) auto
  have pd: "0 \<le> pd" "pd \<le> pd'" using assms(1,2) by (auto simp: parser_in_def abs_le_def v w)
  then have "port_bound (nat pd) \<le> port_bound (nat pd')" by (intro conjunct1 [OF port_bound_mono]) auto
  note le = this
  note P = assms(1) [unfolded v parser_in_def prod.case] and L = assms(2) [unfolded v w abs_le_def prod.case]
  have P': "ap < 99 \<longrightarrow> 0 \<le> addr_p s \<and> addr_p s \<le> ap"
      "0 \<le> pd \<and> pd < 9 \<longrightarrow> \<bar>port (host s)\<bar> \<le> port_bound (nat pd)" "ap \<le> ap'"
    using P L by blast+
  have "ap' < 99 \<longrightarrow> 0 \<le> addr_p s \<and> addr_p s \<le> ap'" using P'(1,3) by auto
  moreover have "0 \<le> pd' \<and> pd' < 9 \<longrightarrow> \<bar>port (host s)\<bar> \<le> port_bound (nat pd')" using P'(2) le pd by auto
  moreover have "al' \<longrightarrow> al" "nn' \<longrightarrow> nn" "h0' \<longrightarrow> h0" "hn' \<longrightarrow> hn" "hs' \<longrightarrow> hs" "0 \<le> pd'"
    using L pd by auto
  ultimately show ?thesis
    unfolding w parser_in_def prod.case
    using P by (intro conjI) (elim conjE; assumption | simp)+
qed

lemma parser_in_cs: "parser_in v (s\<lparr>policy := (policy s)\<lparr>cs := q\<rparr>\<rparr>) = parser_in v s"
  by (simp add: parser_in_def split: prod.splits)

lemma abs_tab_length: "length abs_tab = 108"
  by code_simp

lemma exec_char_sound:
  assumes s: "parser_in (abs_tab ! q) s" "cs (policy s) = int q" "0 < q" "q < 108" and c: "-128 \<le> c" "c \<le> 127"
  shows "exec_char c s = Some Exit \<or>
    (\<exists>s' q'. exec_char c s = Some (Go s') \<and> cs (policy s') = int q' \<and> 0 < q' \<and> q' < 108 \<and>
       parser_in (abs_tab ! q') s')"
proof -
  obtain t where t: "find_trans (int q) c = Some (policy_parser_indicies ! nat t)"
      "policy_parser_index_offsets ! q \<le> t" "t < policy_parser_index_offsets ! q + trans_count q"
    using find_trans_range [OF s(4)] by blast
  have "abs_state_ok q" using all_abs_states_ok s(3,4) by (auto simp: list_all_iff)
  then have ok: "abs_trans_ok q t" using t(2,3) by (auto simp: abs_state_ok_def list_all_iff)
  define i where "i = policy_parser_indicies ! nat t"
  define target where "target = policy_parser_trans_targs ! nat i"
  define a where "a = policy_parser_trans_actions ! nat i"
  define r where "r = (if a = 0 then Some (Some (abs_tab ! q))
      else abs_acts (a + 1) (nat (policy_parser_actions ! nat a)) (abs_tab ! q))"
  have b: "0 \<le> i" "i < 114" "0 \<le> target" "target < 108" "0 \<le> a" "a < 42"
    and rr: "case r of None \<Rightarrow> False | Some None \<Rightarrow> True
      | Some (Some v) \<Rightarrow> target \<noteq> 0 \<and> abs_le v (abs_tab ! nat target)"
    using ok unfolding abs_trans_ok_def Let_def i_def target_def a_def r_def by auto
  have rd: "aread policy_parser_trans_targs i = Some target" "aread policy_parser_trans_actions i = Some a"
      "aread policy_parser_actions a = Some (policy_parser_actions ! nat a)"
    using b by (simp_all add: aread_in table_lengths target_def a_def)
  define s1 where "s1 = s\<lparr>policy := (policy s)\<lparr>cs := target\<rparr>\<rparr>"
  have s1: "parser_in (abs_tab ! q) s1" "cs (policy s1) = target"
    using s(1) by (simp_all add: s1_def parser_in_cs)
  have pd0: "0 \<le> fst (snd (snd (snd (snd (snd v)))))" if "parser_in v s'" for v s'
    using that by (auto simp: parser_in_def split: prod.splits)
  have fin: "\<exists>q'. target = int q' \<and> 0 < q' \<and> q' < 108 \<and> parser_in (abs_tab ! q') s'"
    if "parser_in v s'" "target \<noteq> 0" "abs_le v (abs_tab ! nat target)" for v s'
    using parser_in_mono [OF that(1,3) pd0 [OF that(1)]] that(2) b by (intro exI [of _ "nat target"]) auto
  have run: "exec_char c s = (if a = 0 then Some (Go s1)
      else run_acts (\<lambda>k. act k c) (a + 1) (nat (policy_parser_actions ! nat a)) s1)"
    using t(1) s(2) rd by (simp add: exec_char_def i_def [symmetric] s1_def)
  show ?thesis
  proof (cases "a = 0")
    case True
    then show ?thesis using rr run fin [OF s1(1)] s1(2) by (auto simp: r_def)
  next
    case False
    show ?thesis
    proof (cases "abs_acts (a + 1) (nat (policy_parser_actions ! nat a)) (abs_tab ! q)")
      case None
      then show ?thesis using rr False by (simp add: r_def)
    next
      case (Some r1)
      note sound = abs_acts_sound [OF s1(1) c Some]
      show ?thesis
      proof (cases r1)
        case None
        then show ?thesis using sound run False by simp
      next
        case (Some v1)
        then obtain s2 where s2: "exec_char c s = Some (Go s2)" "parser_in v1 s2" "cs (policy s2) = target"
          using sound run False s1(2) by auto
        then show ?thesis
          using fin [OF s2(2)] rr False Some
            \<open>abs_acts (a + 1) (nat (policy_parser_actions ! nat a)) (abs_tab ! q) = Some r1\<close>
          by (auto simp: r_def)
      qed
    qed
  qed
qed

lemma eof_acts_eq:
  assumes "0 \<le> i" "list_all (\<lambda>k. k = 7 \<or> k = 10) (take n (drop (nat i) policy_parser_actions))"
  shows "run_acts eof_act i n s = run_acts (\<lambda>k. act k 0) i n s"
  using assms
proof (induction n arbitrary: i s)
  case (Suc n)
  show ?case
  proof (cases "aread policy_parser_actions i")
    case None
    then show ?thesis by simp
  next
    case (Some k)
    then have k: "nat i < length policy_parser_actions" "k = policy_parser_actions ! nat i"
      using Suc.prems(1) by (auto dest: aread_SomeD)
    then have d: "drop (nat i) policy_parser_actions = k # drop (nat (i + 1)) policy_parser_actions"
      using Suc.prems(1) by (simp add: Cons_nth_drop_Suc nat_add_distrib)
    then have "k = 7 \<or> k = 10" "list_all (\<lambda>k. k = 7 \<or> k = 10) (take n (drop (nat (i + 1)) policy_parser_actions))"
      using Suc.prems(2) by auto
    moreover from this have "eof_act k s = act k 0 s" by (auto simp: eof_act_def act_def)
    ultimately show ?thesis
      using Some Suc.IH [of "i + 1"] Suc.prems(1)
      by (auto intro!: arg_cong2 [where f = Option.bind] split: outcome.splits)
  qed
qed simp

lemma exec_sound:
  assumes "parser_in (abs_tab ! q) s" "cs (policy s) = int q" "0 < q" "q < 108" "\<forall>c\<in>set p. -128 \<le> c \<and> c \<le> 127"
  shows "exec p s = Some Exit \<or>
    (\<exists>s' v. exec p s = Some (Go s') \<and> cs (policy s') \<noteq> 0 \<and> parser_in v s' \<and> snd (snd (snd (snd (snd (snd v))))))"
  using assms
proof (induction p arbitrary: s q)
  case Nil
  define a where "a = policy_parser_eof_actions ! q"
  have "abs_state_ok q" using all_abs_states_ok Nil.prems(3,4) by (auto simp: list_all_iff)
  then have ok: "0 \<le> a" "a < 42"
      "case abs_acts (a + 1) (nat (policy_parser_actions ! nat a)) (abs_tab ! q) of
           None \<Rightarrow> False | Some None \<Rightarrow> True | Some (Some v) \<Rightarrow> snd (snd (snd (snd (snd (snd v)))))"
      "list_all (\<lambda>k. k = 7 \<or> k = 10) (take (nat (policy_parser_actions ! nat a)) (drop (nat (a + 1)) policy_parser_actions))"
    unfolding abs_state_ok_def Let_def a_def by auto
  have rd: "aread policy_parser_eof_actions (int q) = Some a"
      "aread policy_parser_actions a = Some (policy_parser_actions ! nat a)"
    using Nil.prems(4) ok(1,2) by (simp_all add: aread_in table_lengths a_def)
  have run: "exec [] s = run_acts (\<lambda>k. act k 0) (a + 1) (nat (policy_parser_actions ! nat a)) s"
    using rd Nil.prems(2) eof_acts_eq [OF _ ok(4)] ok(1) by (simp add: exec_eof_def)
  show ?case
  proof (cases "abs_acts (a + 1) (nat (policy_parser_actions ! nat a)) (abs_tab ! q)")
    case (Some r)
    have "case r of None \<Rightarrow> exec [] s = Some Exit
        | Some v' \<Rightarrow> (\<exists>s'. exec [] s = Some (Go s') \<and> parser_in v' s' \<and> cs (policy s') = cs (policy s))"
      unfolding run by (rule abs_acts_sound [OF Nil.prems(1) _ _ Some]) simp_all
    then show ?thesis using ok(3) Some Nil.prems(2,3) by (cases r) fastforce+
  qed (use ok(3) in simp)
next
  case (Cons c p)
  have c: "-128 \<le> c" "c \<le> 127" using Cons.prems(5) by auto
  from exec_char_sound [OF Cons.prems(1-4) c] show ?case
  proof (elim disjE exE conjE)
    assume "exec_char c s = Some Exit"
    then show ?thesis by simp
  next
    fix s' q' assume s': "exec_char c s = Some (Go s')" "cs (policy s') = int q'" "0 < q'" "q' < 108"
      "parser_in (abs_tab ! q') s'"
    with Cons.IH [OF s'(5,2-4)] Cons.prems(5) show ?thesis by auto
  qed
qed

section \<open>Properties\<close>

text \<open>
  C18. The policy parser is total and memory safe: on every input string, and whatever an
  earlier call left in the static variables, it makes no access outside its tables or outside
  the 16-byte address block and no arithmetic overflow occurs. It either reports a syntax
  error and ends the program or returns a policy (never \<open>NULL\<close>) with at least one host, a
  host count that is the length of the host array, and addresses that are \<open>NULL\<close> or
  terminated inside their block.
\<close>
theorem parse_policy_safe:
  assumes "\<forall>c\<in>set p. -128 \<le> c \<and> c \<le> 127"
  shows "ParsePolicy h a0 ha p = Some Exit \<or>
    (\<exists>pol. ParsePolicy h a0 ha p = Some (Go (Some pol)) \<and> hosts pol \<noteq> [] \<and>
       nhost pol = int (length (hosts pol)) \<and> terminated (addr (listen_host pol)) \<and>
       (\<forall>x\<in>set (hosts pol). terminated (addr x)))"
proof -
  define s where "s = \<lparr>policy = \<lparr>listen_host = \<lparr>addr = None, port = 0\<rparr>, ptype = 0, hosts = [], nhost = 0,
      curhost = 0, cs = policy_parser_start\<rparr>, host = h\<lparr>addr := None\<rparr>, addr_p = a0, have_addr = ha\<rparr>"
  have tab: "abs_tab ! 1 = (99, False, True, False, True, 9, False)" by code_simp
  have "parser_in (abs_tab ! 1) s" unfolding tab by (simp add: parser_in_def s_def)
  moreover have "cs (policy s) = int 1" by (simp add: s_def policy_parser_start_def)
  ultimately have "exec p s = Some Exit \<or>
    (\<exists>s' v. exec p s = Some (Go s') \<and> cs (policy s') \<noteq> 0 \<and> parser_in v s' \<and> snd (snd (snd (snd (snd (snd v))))))"
    by (rule exec_sound) (use assms in auto)
  then show ?thesis
  proof (elim disjE exE conjE)
    assume "exec p s = Some Exit"
    then show ?thesis by (simp add: ParsePolicy_def s_def)
  next
    fix s' v assume "exec p s = Some (Go s')" "cs (policy s') \<noteq> 0" "parser_in v s'"
      "snd (snd (snd (snd (snd (snd v)))))"
    then show ?thesis
      by (auto simp: ParsePolicy_def s_def [symmetric] parser_in_def policy_parser_error_def)
  qed
qed

theorem parse_policy_safe_witness:
  "ParsePolicy \<lparr>addr = None, port = 7\<rparr> 3 True [56, 48, 45, 62, 56, 49] = Some Exit \<or>
    (\<exists>pol. ParsePolicy \<lparr>addr = None, port = 7\<rparr> 3 True [56, 48, 45, 62, 56, 49] = Some (Go (Some pol)) \<and> hosts pol \<noteq> [])"
  using parse_policy_safe [of "[56, 48, 45, 62, 56, 49]" "\<lparr>addr = None, port = 7\<rparr>" 3 True] by auto

text \<open>
  A blank before the closing brace of a host group adds a host that is not there: the
  policy \<open>80->rr{1.2.3.4:81}\<close> has one host, \<open>80->rr{1.2.3.4:81 }\<close> has two, the second with the
  same port and address \<open>NULL\<close> (the blank and the brace both append the current host).
\<close>
theorem blank_before_brace_adds_host:
  "map_option (\<lambda>r. case r of Go (Some pol) \<Rightarrow> map (\<lambda>x. (addr x = None, port x)) (hosts pol) | _ \<Rightarrow> [])
     (ParsePolicy \<lparr>addr = None, port = 0\<rparr> 0 False
       [56, 48, 45, 62, 114, 114, 123, 49, 46, 50, 46, 51, 46, 52, 58, 56, 49, 125]) = Some [(False, 81)] \<and>
   map_option (\<lambda>r. case r of Go (Some pol) \<Rightarrow> map (\<lambda>x. (addr x = None, port x)) (hosts pol) | _ \<Rightarrow> [])
     (ParsePolicy \<lparr>addr = None, port = 0\<rparr> 0 False
       [56, 48, 45, 62, 114, 114, 123, 49, 46, 50, 46, 51, 46, 52, 58, 56, 49, 32, 125]) = Some [(False, 81), (True, 81)]"
  by code_simp

end
