(* ===== verification/Proxy.thy ===== *)
theory Proxy
  imports Ae Buffer_List Policy
begin

text \<open>
  The TCP proxy, \<open>redis_ae/tcpproxy/tcpproxy.c\<close>, and its older copy \<open>2baktcp.c\<close>, as handlers
  of the event loop. The two files differ in one function: \<open>RemoteDown\<close> of the copy does
  nothing. The handlers that (through \<open>OnError\<close>) reach it therefore take it as an argument
  \<open>rd\<close>; the definitions named \<open>tp_\<close> and \<open>bak_\<close> are the functions of the two files. What the
  kernel answers to \<open>recv\<close>, \<open>send\<close>, \<open>connect\<close> and \<open>accept\<close> is the environment of the world,
  one answer per system call; \<open>fds\<close> are the open descriptors. Two histories only the theorems
  look at: \<open>delivered\<close> has every piece that \<open>recv\<close> delivered, with the descriptor and the end
  whose buffer took it, \<open>transmitted\<close> every piece that \<open>send\<close> took, with the descriptor and the
  end whose buffer it came from. The socket options set by \<open>anetNonBlock\<close> and \<open>anetTcpNoDelay\<close>
  and the log lines have no effect on the state and are left out.
\<close>

definition CLIENT_CLOSE_AFTER_SENT :: int where "CLIENT_CLOSE_AFTER_SENT = 1"
definition MAX_WRITE_PER_EVENT :: int where "MAX_WRITE_PER_EVENT = 1024 * 1024 * 1024"

datatype handler = ReadIncomeH | SendOutcomeH | AcceptH
datatype error_cb = FreeClientCB | RemoteDownCB
datatype down_cb = CloseAfterSentCB

text \<open>A callback field that has not been assigned is \<open>None\<close>.\<close>

record proxy_client =
  c_fd :: int
  c_flags :: int
  c_remote :: ptr
  c_blist :: ptr
  OnError :: "error_cb option"
  OnRemoteDown :: "down_cb option"

text \<open>\<open>recv\<close>: bytes (none at the end of the stream), \<open>EAGAIN\<close> or another error; \<open>send\<close> likewise.\<close>

datatype recv_result = RData "byte list" | RAgain | RError
datatype send_result = SSent int | SAgain | SError

record 'k proxy_world = "(handler, nat, 'k) ae_world" +
  clients :: "proxy_client heap"
  bufs :: blmem
  proxy_policy :: Policy
  calls :: nat
  recv_of :: "nat \<Rightarrow> int \<Rightarrow> int \<Rightarrow> recv_result"
  send_of :: "nat \<Rightarrow> int \<Rightarrow> byte list \<Rightarrow> send_result"
  connect_of :: "nat \<Rightarrow> int list \<Rightarrow> int \<Rightarrow> int set \<Rightarrow> int"
  accept_of :: "nat \<Rightarrow> int set \<Rightarrow> int"
  delivered :: "(int \<times> ptr \<times> byte list) list"
  transmitted :: "(int \<times> ptr \<times> byte list) list"
  fds :: "int set"

type_synonym 'k api = "(handler, nat, 'k) ae_api"

text \<open>The table of open descriptors: \<open>accept\<close> and \<open>connect\<close> open one unless they fail, \<open>close\<close> closes one.\<close>

definition open_fd :: "'k proxy_world \<Rightarrow> int \<Rightarrow> 'k proxy_world" where
  "open_fd w fd = (if fd = -1 then w else w\<lparr>fds := insert fd (fds w)\<rparr>)"

definition close_fd :: "'k proxy_world \<Rightarrow> int \<Rightarrow> 'k proxy_world" where
  "close_fd w fd = w\<lparr>fds := fds w - {fd}\<rparr>"

text \<open>The operations of the event loop on the world's loop.\<close>

definition create_event :: "'k api \<Rightarrow> 'k proxy_world \<Rightarrow> int \<Rightarrow> int \<Rightarrow> handler \<Rightarrow> ptr \<Rightarrow> (int \<times> 'k proxy_world) option" where
  "create_event A w fd msk p cd = do {
     (r, l) \<leftarrow> aeCreateFileEvent A (el w) fd msk p cd;
     Some (r, w\<lparr>el := l\<rparr>)
   }"

definition delete_event :: "'k api \<Rightarrow> 'k proxy_world \<Rightarrow> int \<Rightarrow> int \<Rightarrow> 'k proxy_world option" where
  "delete_event A w fd msk = do {
     l \<leftarrow> aeDeleteFileEvent A (el w) fd msk;
     Some (w\<lparr>el := l\<rparr>)
   }"

definition SignalHandler :: "'k proxy_world \<Rightarrow> int \<Rightarrow> 'k proxy_world" where
  "SignalHandler w signo = (if signo = 2 \<or> signo = 15 then w\<lparr>el := (el w)\<lparr>stop := True\<rparr>\<rparr> else w)"

section \<open>Releasing a connection\<close>

definition FreeRemote :: "'k api \<Rightarrow> 'k proxy_world \<Rightarrow> ptr \<Rightarrow> 'k proxy_world option" where
  "FreeRemote A w r = do {
     rc \<leftarrow> load (clients w) r;
     w \<leftarrow> delete_event A w (c_fd rc) AE_READABLE;
     w \<leftarrow> delete_event A w (c_fd rc) AE_WRITABLE;
     let w = close_fd w (c_fd rc);
     b \<leftarrow> FreeBufferList (bufs w) (c_blist rc);
     h \<leftarrow> cfree (clients w) r;
     Some (w\<lparr>bufs := b, clients := h\<rparr>)
   }"

definition FreeClient :: "'k api \<Rightarrow> 'k proxy_world \<Rightarrow> ptr \<Rightarrow> 'k proxy_world option" where
  "FreeClient A w c = (if c = None then Some w else do {
     cc \<leftarrow> load (clients w) c;
     w \<leftarrow> delete_event A w (c_fd cc) AE_READABLE;
     w \<leftarrow> delete_event A w (c_fd cc) AE_WRITABLE;
     let w = close_fd w (c_fd cc);
     w \<leftarrow> FreeRemote A w (c_remote cc);
     b \<leftarrow> FreeBufferList (bufs w) (c_blist cc);
     h \<leftarrow> cfree (clients w) c;
     Some (w\<lparr>bufs := b, clients := h\<rparr>)
   })"

definition CloseAfterSent :: "'k api \<Rightarrow> 'k proxy_world \<Rightarrow> ptr \<Rightarrow> 'k proxy_world option" where
  "CloseAfterSent A w c = do {
     cc \<leftarrow> load (clients w) c;
     (buf, len) \<leftarrow> BufferListGetData (bufs w) (c_blist cc);
     if buf = None then FreeClient A w c
     else do {
       h \<leftarrow> store (clients w) c (\<lambda>x. x\<lparr>c_flags := c_flags x OR CLIENT_CLOSE_AFTER_SENT\<rparr>);
       Some (w\<lparr>clients := h\<rparr>)
     }
   }"

definition RemoteDown :: "'k api \<Rightarrow> 'k proxy_world \<Rightarrow> ptr \<Rightarrow> 'k proxy_world option" where
  "RemoteDown A w r = do {
     rc \<leftarrow> load (clients w) r;
     cc \<leftarrow> load (clients w) (c_remote rc);
     cb \<leftarrow> OnRemoteDown cc;
     case cb of CloseAfterSentCB \<Rightarrow> CloseAfterSent A w (c_remote rc)
   }"

definition bak_RemoteDown :: "'k api \<Rightarrow> 'k proxy_world \<Rightarrow> ptr \<Rightarrow> 'k proxy_world option" where
  "bak_RemoteDown A w r = Some w"

type_synonym 'k remote_down = "'k api \<Rightarrow> 'k proxy_world \<Rightarrow> ptr \<Rightarrow> 'k proxy_world option"

text \<open>\<open>c->OnError(c)\<close>\<close>

definition call_OnError :: "'k remote_down \<Rightarrow> 'k api \<Rightarrow> 'k proxy_world \<Rightarrow> ptr \<Rightarrow> 'k proxy_world option" where
  "call_OnError rd A w c = do {
     cc \<leftarrow> load (clients w) c;
     cb \<leftarrow> OnError cc;
     case cb of FreeClientCB \<Rightarrow> FreeClient A w c | RemoteDownCB \<Rightarrow> rd A w c
   }"

section \<open>Moving data\<close>

datatype send_end = ClientGone | Idle | SendFailed

text \<open>\<open>while(1)\<close> of \<open>SendOutcome\<close>; \<open>nwritten\<close> is -1 exactly when \<open>send\<close> failed.\<close>

partial_function (option) send_loop :: "'k api \<Rightarrow> 'k proxy_world \<Rightarrow> int \<Rightarrow> ptr \<Rightarrow> int \<Rightarrow> (send_end \<times> 'k proxy_world) option" where
  "send_loop A w fd c totwritten = do {
     cc \<leftarrow> load (clients w) c;
     (buf, len) \<leftarrow> BufferListGetData (bufs w) (c_blist cc);
     if buf = None then
       (if c_flags cc AND CLIENT_CLOSE_AFTER_SENT \<noteq> 0 then do {
          w \<leftarrow> FreeClient A w c;
          Some (ClientGone, w)
        } else Some (Idle, w))
     else do {
       bs \<leftarrow> peek (bufs w) buf len;
       let r = send_of w (calls w) fd bs;
       let w = w\<lparr>calls := Suc (calls w)\<rparr>;
       case r of
         SAgain \<Rightarrow> Some (Idle, w)
       | SError \<Rightarrow> Some (SendFailed, w)
       | SSent n \<Rightarrow>
           if n \<le> 0 then Some (Idle, w)
           else do {
             out \<leftarrow> peek (bufs w) buf n;
             let w = w\<lparr>transmitted := transmitted w @ [(fd, c, out)]\<rparr>;
             (b, ended) \<leftarrow> BufferListPop (bufs w) (c_blist cc) n;
             guard (\<not> ended);
             let w = w\<lparr>bufs := b\<rparr>;
             if totwritten + n > MAX_WRITE_PER_EVENT then Some (Idle, w)
             else send_loop A w fd c (totwritten + n)
           }
     }
   }"

definition SendOutcome_with :: "'k remote_down \<Rightarrow> 'k api \<Rightarrow> 'k proxy_world \<Rightarrow> int \<Rightarrow> ptr \<Rightarrow> 'k proxy_world option" where
  "SendOutcome_with rd A w fd c = do {
     cc \<leftarrow> load (clients w) c;
     (buf, len) \<leftarrow> BufferListGetData (bufs w) (c_blist cc);
     w \<leftarrow> (if buf = None then delete_event A w fd AE_WRITABLE else Some w);
     (e, w) \<leftarrow> send_loop A w fd c 0;
     case e of SendFailed \<Rightarrow> call_OnError rd A w c | _ \<Rightarrow> Some w
   }"

definition SetWriteEvent :: "'k api \<Rightarrow> 'k proxy_world \<Rightarrow> ptr \<Rightarrow> (int \<times> 'k proxy_world) option" where
  "SetWriteEvent A w c = do {
     cc \<leftarrow> load (clients w) c;
     (r, w) \<leftarrow> create_event A w (c_fd cc) AE_WRITABLE SendOutcomeH c;
     Some (if r = AE_ERR then -1 else 0, w)
   }"

text \<open>\<open>while(1)\<close> of \<open>ReadIncome\<close>; the flag says whether it leaves by \<open>goto ERROR\<close>.\<close>

partial_function (option) read_loop :: "'k api \<Rightarrow> 'k proxy_world \<Rightarrow> int \<Rightarrow> ptr \<Rightarrow> (bool \<times> 'k proxy_world) option" where
  "read_loop A w fd r = do {
     rc \<leftarrow> load (clients w) r;
     (buf, len) \<leftarrow> BufferListGetSpace (bufs w) (c_blist rc);
     if buf = None then Some (False, w)
     else do {
       let res = recv_of w (calls w) fd len;
       let w = w\<lparr>calls := Suc (calls w)\<rparr>;
       case res of
         RAgain \<Rightarrow> Some (False, w)
       | RError \<Rightarrow> Some (True, w)
       | RData bs \<Rightarrow>
           if bs = [] then Some (True, w)
           else do {
             b \<leftarrow> poke (bufs w) buf bs;
             let w = w\<lparr>delivered := delivered w @ [(fd, r, bs)]\<rparr>;
             b \<leftarrow> BufferListPush b (c_blist rc) (int (length bs));
             let w = w\<lparr>bufs := b\<rparr>;
             (x, w) \<leftarrow> SetWriteEvent A w r;
             read_loop A w fd r
           }
     }
   }"

definition ReadIncome_with :: "'k remote_down \<Rightarrow> 'k api \<Rightarrow> 'k proxy_world \<Rightarrow> int \<Rightarrow> ptr \<Rightarrow> 'k proxy_world option" where
  "ReadIncome_with rd A w fd c = do {
     cc \<leftarrow> load (clients w) c;
     (err, w) \<leftarrow> read_loop A w fd (c_remote cc);
     if err then call_OnError rd A w c else Some w
   }"

section \<open>New connections\<close>

text \<open>The characters of a string up to its null character; one without it, or not written, is undefined.\<close>

fun c_string :: "int option list \<Rightarrow> int list option" where
  "c_string (Some c # xs) = (if c = 0 then Some [] else map_option (Cons c) (c_string xs))"
| "c_string _ = None"

text \<open>
  \<open>anetTcpNonBlockConnect\<close> reads the address of the first host, which the parser leaves \<open>NULL\<close> when
  the policy names none.
\<close>

definition AllocRemote :: "'k api \<Rightarrow> 'k proxy_world \<Rightarrow> ptr \<Rightarrow> (ptr \<times> 'k proxy_world) option" where
  "AllocRemote A w c = do {
     let (r, h) = cmalloc (clients w);
     h \<leftarrow> store h r (\<lambda>x. x\<lparr>c_flags := 0\<rparr>);
     h0 \<leftarrow> aread (hosts (proxy_policy w)) 0;
     a \<leftarrow> addr h0;
     name \<leftarrow> c_string a;
     let fd = connect_of w (calls w) name (port h0) (fds w);
     let w = open_fd (w\<lparr>clients := h, calls := Suc (calls w)\<rparr>) fd;
     if r = None \<or> fd = -1 then Some (None, w)
     else do {
       h \<leftarrow> store (clients w) r (\<lambda>x. x\<lparr>c_fd := fd, c_remote := c, OnError := Some RemoteDownCB\<rparr>);
       (bl, b) \<leftarrow> AllocBufferList (bufs w) 3;
       h \<leftarrow> store h r (\<lambda>x. x\<lparr>c_blist := bl\<rparr>);
       let w = w\<lparr>clients := h, bufs := b\<rparr>;
       (e, w) \<leftarrow> create_event A w fd AE_READABLE ReadIncomeH r;
       if e = AE_ERR then Some (None, close_fd w fd)
       else Some (r, w)
     }
   }"

definition AllocClient :: "'k api \<Rightarrow> 'k proxy_world \<Rightarrow> int \<Rightarrow> (ptr \<times> 'k proxy_world) option" where
  "AllocClient A w fd = (let (c, h) = cmalloc (clients w) in
     if c = None then Some (None, w\<lparr>clients := h\<rparr>)
     else do {
       h \<leftarrow> store h c (\<lambda>x. x\<lparr>c_flags := 0\<rparr>);
       h \<leftarrow> store h c (\<lambda>x. x\<lparr>c_fd := fd\<rparr>);
       (bl, b) \<leftarrow> AllocBufferList (bufs w) 3;
       h \<leftarrow> store h c (\<lambda>x. x\<lparr>c_blist := bl\<rparr>);
       (r, w) \<leftarrow> AllocRemote A (w\<lparr>clients := h, bufs := b\<rparr>) c;
       h \<leftarrow> store (clients w) c (\<lambda>x. x\<lparr>c_remote := r, OnError := Some FreeClientCB,
              OnRemoteDown := Some CloseAfterSentCB\<rparr>);
       let w = w\<lparr>clients := h\<rparr>;
       if r = None then do {
         let w = close_fd w fd;
         h \<leftarrow> cfree (clients w) c;
         Some (None, w\<lparr>clients := h\<rparr>)
       } else Some (c, w)
     })"

definition Proxy_AcceptTcpHandler :: "'k api \<Rightarrow> 'k proxy_world \<Rightarrow> int \<Rightarrow> 'k proxy_world option" where
  "Proxy_AcceptTcpHandler A w fd = (let cfd = accept_of w (calls w) (fds w); w = open_fd (w\<lparr>calls := Suc (calls w)\<rparr>) cfd in
     if cfd = AE_ERR then Some w
     else do {
       (c, w) \<leftarrow> AllocClient A w cfd;
       if c = None then FreeClient A w c
       else do {
         (e, w) \<leftarrow> create_event A w cfd AE_READABLE ReadIncomeH c;
         if e = AE_ERR then FreeClient A w c else Some w
       }
     })"

section \<open>The two programs\<close>

text \<open>The functions that \<open>2baktcp.c\<close> has in common with \<open>tcpproxy.c\<close>, word for word.\<close>

definition bak_FreeRemote :: "'k api \<Rightarrow> 'k proxy_world \<Rightarrow> ptr \<Rightarrow> 'k proxy_world option" where
  "bak_FreeRemote = FreeRemote"

definition bak_FreeClient :: "'k api \<Rightarrow> 'k proxy_world \<Rightarrow> ptr \<Rightarrow> 'k proxy_world option" where
  "bak_FreeClient = FreeClient"

definition bak_CloseAfterSent :: "'k api \<Rightarrow> 'k proxy_world \<Rightarrow> ptr \<Rightarrow> 'k proxy_world option" where
  "bak_CloseAfterSent = CloseAfterSent"

definition bak_SetWriteEvent :: "'k api \<Rightarrow> 'k proxy_world \<Rightarrow> ptr \<Rightarrow> (int \<times> 'k proxy_world) option" where
  "bak_SetWriteEvent = SetWriteEvent"

definition bak_AllocRemote :: "'k api \<Rightarrow> 'k proxy_world \<Rightarrow> ptr \<Rightarrow> (ptr \<times> 'k proxy_world) option" where
  "bak_AllocRemote = AllocRemote"

definition bak_AllocClient :: "'k api \<Rightarrow> 'k proxy_world \<Rightarrow> int \<Rightarrow> (ptr \<times> 'k proxy_world) option" where
  "bak_AllocClient = AllocClient"

definition bak_AcceptTcpHandler :: "'k api \<Rightarrow> 'k proxy_world \<Rightarrow> int \<Rightarrow> 'k proxy_world option" where
  "bak_AcceptTcpHandler = Proxy_AcceptTcpHandler"

definition tp_SendOutcome :: "'k api \<Rightarrow> 'k proxy_world \<Rightarrow> int \<Rightarrow> ptr \<Rightarrow> 'k proxy_world option" where
  "tp_SendOutcome = SendOutcome_with RemoteDown"

definition tp_ReadIncome :: "'k api \<Rightarrow> 'k proxy_world \<Rightarrow> int \<Rightarrow> ptr \<Rightarrow> 'k proxy_world option" where
  "tp_ReadIncome = ReadIncome_with RemoteDown"

definition bak_SendOutcome :: "'k api \<Rightarrow> 'k proxy_world \<Rightarrow> int \<Rightarrow> ptr \<Rightarrow> 'k proxy_world option" where
  "bak_SendOutcome = SendOutcome_with bak_RemoteDown"

definition bak_ReadIncome :: "'k api \<Rightarrow> 'k proxy_world \<Rightarrow> int \<Rightarrow> ptr \<Rightarrow> 'k proxy_world option" where
  "bak_ReadIncome = ReadIncome_with bak_RemoteDown"

text \<open>The handlers as the callbacks of the event loop; the proxy registers no timers.\<close>

definition proxy_procs :: "'k remote_down \<Rightarrow> 'k api \<Rightarrow> (handler, nat, 'k proxy_world) ae_procs" where
  "proxy_procs rd A = \<lparr>
     file_proc = (\<lambda>p w fd cd msk. case p of
         ReadIncomeH \<Rightarrow> ReadIncome_with rd A w fd cd
       | SendOutcomeH \<Rightarrow> SendOutcome_with rd A w fd cd
       | AcceptH \<Rightarrow> Proxy_AcceptTcpHandler A w fd),
     time_proc = (\<lambda>p w i c. None), final_proc = (\<lambda>p w c. None), sleep_proc = (\<lambda>p w. None)\<rparr>"

text \<open>
  \<open>main\<close> after the policy has been parsed: the listening socket and the event loop are given;
  \<open>LogFatal\<close> ends the program (\<open>Exit\<close>).
\<close>

definition proxy_main :: "'k remote_down \<Rightarrow> 'k api \<Rightarrow> 'k proxy_world \<Rightarrow> int \<Rightarrow> 'k proxy_world outcome option" where
  "proxy_main rd A w listen_fd = (if listen_fd < 0 then Some Exit else do {
     (e, w) \<leftarrow> create_event A w listen_fd AE_READABLE AcceptH None;
     if e = AE_ERR then Some Exit
     else do {
       w \<leftarrow> aeMain A (proxy_procs rd A) w;
       Some (Go w)
     }
   })"

definition tp_main :: "'k api \<Rightarrow> 'k proxy_world \<Rightarrow> int \<Rightarrow> 'k proxy_world outcome option" where
  "tp_main = proxy_main RemoteDown"

definition bak_main :: "'k api \<Rightarrow> 'k proxy_world \<Rightarrow> int \<Rightarrow> 'k proxy_world outcome option" where
  "bak_main = proxy_main bak_RemoteDown"

end
