(* ===== verification/Proxy_Inv.thy ===== *)
theory Proxy_Inv
  imports Proxy Ae_Theorems Buffer_Theorems
begin

text \<open>
  The invariant of the TCP proxy with any number of connections. A ghost map \<open>own\<close> gives every
  live end of a connection the chunks of its buffer list and the bytes in it. The invariant
  says that live ends come in pairs of a client and a remote, that their descriptors and
  buffer lists are their own, that an event is only registered for a live end (with the handler
  that belongs to it), and that nothing is lost, reordered or made up: the bytes received for an
  end are the bytes sent from it followed by the bytes in its buffer.
\<close>

type_synonym owner = "nat \<rightharpoonup> nat set \<times> byte list"

definition pc :: "'k proxy_world \<Rightarrow> nat \<Rightarrow> proxy_client" where
  "pc w a = the (cells (clients w) a)"

definition peer :: "'k proxy_world \<Rightarrow> nat \<Rightarrow> nat" where
  "peer w a = the (c_remote (pc w a))"

definition is_client :: "proxy_client \<Rightarrow> bool" where
  "is_client n \<longleftrightarrow> OnError n = Some FreeClientCB \<and> OnRemoteDown n = Some CloseAfterSentCB"

definition is_remote :: "proxy_client \<Rightarrow> bool" where
  "is_remote n \<longleftrightarrow> OnError n = Some RemoteDownCB \<and> c_flags n = 0"

definition end_ok :: "'k proxy_world \<Rightarrow> nat set \<Rightarrow> nat \<Rightarrow> bool" where
  "end_ok w D a \<longleftrightarrow> cells (clients w) a \<noteq> None \<and> c_remote (pc w a) = Some (peer w a) \<and>
     peer w a \<in> D \<and> peer w a \<noteq> a \<and> peer w (peer w a) = a \<and>
     (is_client (pc w a) \<and> is_remote (pc w (peer w a)) \<or> is_remote (pc w a) \<and> is_client (pc w (peer w a))) \<and>
     0 \<le> c_fd (pc w a) \<and> c_fd (pc w a) \<in> fds w"

definition ends_ok :: "'k proxy_world \<Rightarrow> nat set \<Rightarrow> bool" where
  "ends_ok w D \<longleftrightarrow> (\<forall>a\<in>D. end_ok w D a) \<and>
     (\<forall>a\<in>D. \<forall>b\<in>D. a \<noteq> b \<longrightarrow> c_fd (pc w a) \<noteq> c_fd (pc w b) \<and> c_blist (pc w a) \<noteq> c_blist (pc w b))"

definition chunks_of :: "owner \<Rightarrow> nat \<Rightarrow> nat set" where "chunks_of own a = fst (the (own a))"
definition content :: "owner \<Rightarrow> nat \<Rightarrow> byte list" where "content own a = snd (the (own a))"

definition bufs_ok :: "'k proxy_world \<Rightarrow> owner \<Rightarrow> bool" where
  "bufs_ok w own \<longleftrightarrow> bl_env (bufs w) \<and>
     (\<forall>a\<in>dom own. bl_holds (bufs w) (c_blist (pc w a)) (chunks_of own a) (content own a)) \<and>
     (\<forall>a\<in>dom own. \<forall>b\<in>dom own. a \<noteq> b \<longrightarrow> chunks_of own a \<inter> chunks_of own b = {})"

definition event_ok :: "int \<Rightarrow> 'k proxy_world \<Rightarrow> nat set \<Rightarrow> int \<Rightarrow> (handler, nat) aeFileEvent \<Rightarrow> bool" where
  "event_ok lfd w D fd fe \<longleftrightarrow> fmask fe \<noteq> 0 \<longrightarrow>
     (fd = lfd \<and> fmask fe = 1 \<and> rfileProc fe = Some AcceptH) \<or>
     (\<exists>a\<in>D. c_fd (pc w a) = fd \<and> clientData fe = Some a \<and>
        (fmask fe AND AE_READABLE \<noteq> 0 \<longrightarrow> rfileProc fe = Some ReadIncomeH) \<and>
        (fmask fe AND AE_WRITABLE \<noteq> 0 \<longrightarrow> wfileProc fe = Some SendOutcomeH))"

definition events_ok :: "int \<Rightarrow> 'k proxy_world \<Rightarrow> nat set \<Rightarrow> bool" where
  "events_ok lfd w D \<longleftrightarrow> (\<forall>i<length (events (el w)). event_ok lfd w D (int i) (events (el w) ! i))"

text \<open>The bytes of a history at one descriptor and end.\<close>

definition bytes_at :: "int \<Rightarrow> nat \<Rightarrow> (int \<times> ptr \<times> byte list) list \<Rightarrow> byte list" where
  "bytes_at fd a L = concat (map (\<lambda>(f, p, bs). if f = fd \<and> p = Some a then bs else []) L)"

definition logs_ok :: "'k proxy_world \<Rightarrow> owner \<Rightarrow> bool" where
  "logs_ok w own \<longleftrightarrow>
     (\<forall>a\<in>dom own. bytes_at (c_fd (pc w (peer w a))) a (delivered w) = bytes_at (c_fd (pc w a)) a (transmitted w) @ content own a) \<and>
     (\<forall>(f, p, bs)\<in>set (delivered w) \<union> set (transmitted w). \<exists>a. p = Some a \<and> a < brk (clients w))"

text \<open>The address of the first host, and the answer to connecting to it. What the manuals of \<open>recv\<close>, \<open>send\<close>, \<open>accept\<close> and \<open>connect\<close> promise, and the allocator.\<close>

definition remote_name :: "Policy \<Rightarrow> int list option" where
  "remote_name pol = do { h \<leftarrow> aread (hosts pol) 0; a \<leftarrow> addr h; c_string a }"

definition connect_first :: "'k proxy_world \<Rightarrow> nat \<Rightarrow> int set \<Rightarrow> int" where
  "connect_first w k S = connect_of w k (the (remote_name (proxy_policy w))) (port (hosts (proxy_policy w) ! 0)) S"

lemma connect_first_cong [simp]:
  "connect_first (w\<lparr>clients := h\<rparr>) = connect_first w" "connect_first (w\<lparr>bufs := b\<rparr>) = connect_first w"
  "connect_first (w\<lparr>calls := n\<rparr>) = connect_first w" "connect_first (w\<lparr>fds := s\<rparr>) = connect_first w"
  by (simp_all add: connect_first_def fun_eq_iff)

text \<open>
  The connection of \<open>a\<close> has been released: both descriptors are closed and watched no more, both
  \<open>proxy_client\<close>s, both buffer lists and all their chunks are freed, and nothing else is.
\<close>

definition released :: "'k proxy_world \<Rightarrow> owner \<Rightarrow> nat \<Rightarrow> 'k proxy_world \<Rightarrow> bool" where
  "released w own a w' \<longleftrightarrow> (let r = peer w a in
     fds w' = fds w - {c_fd (pc w a), c_fd (pc w r)} \<and>
     reg_mask (el w') = (reg_mask (el w))(c_fd (pc w a) := 0, c_fd (pc w r) := 0) \<and>
     cells (clients w') = (cells (clients w))(r := None, a := None) \<and>
     cells (lists (bufs w')) = (cells (lists (bufs w))) |` (- {l. Some l = c_blist (pc w a) \<or> Some l = c_blist (pc w r)}) \<and>
     cells (nodes (bufs w')) = cells (nodes (bufs w)) |` (- (chunks_of own a \<union> chunks_of own r)))"

definition kernel_ok :: "'k proxy_world \<Rightarrow> bool" where
  "kernel_ok w \<longleftrightarrow>
     (\<forall>k fd len bs. recv_of w k fd len = RData bs \<longrightarrow> int (length bs) \<le> max 0 len) \<and>
     (\<forall>k fd bs n. send_of w k fd bs = SSent n \<longrightarrow> n \<le> int (length bs)) \<and>
     (\<forall>k S. accept_of w k S \<noteq> -1 \<longrightarrow> 0 \<le> accept_of w k S \<and> accept_of w k S \<notin> S) \<and>
     (\<forall>k a p S. connect_of w k a p S \<noteq> -1 \<longrightarrow> 0 \<le> connect_of w k a p S \<and> connect_of w k a p S \<notin> S) \<and>
     heap_ok (clients w) \<and> (\<forall>a. env (clients w) a \<noteq> None)"

definition loop_ok :: "('k \<Rightarrow> int \<Rightarrow> int) \<Rightarrow> int \<Rightarrow> (int \<times> int) list \<Rightarrow> (handler, nat, 'k) aeEventLoop \<Rightarrow> bool" where
  "loop_ok watched N F l \<longleftrightarrow> loop_inv watched l \<and> setsize l = N \<and> fired l = F \<and>
     timeEventHead l = None \<and> beforesleep l = None"

text \<open>\<open>lfd\<close> is the listening descriptor, \<open>N\<close> the size of the loop, \<open>F\<close> its array of fired events.\<close>

definition proxy_inv :: "('k \<Rightarrow> int \<Rightarrow> int) \<Rightarrow> int \<Rightarrow> int \<Rightarrow> (int \<times> int) list \<Rightarrow> 'k proxy_world \<Rightarrow> owner \<Rightarrow> bool" where
  "proxy_inv watched lfd N F w own \<longleftrightarrow> loop_ok watched N F (el w) \<and> kernel_ok w \<and>
     ends_ok w (dom own) \<and> bufs_ok w own \<and> events_ok lfd w (dom own) \<and> logs_ok w own \<and>
     lfd \<in> fds w \<and> (\<forall>a\<in>dom own. c_fd (pc w a) \<noteq> lfd) \<and> remote_name (proxy_policy w) \<noteq> None"

lemma proxy_invD:
  assumes "proxy_inv watched lfd N F w own"
  shows "loop_ok watched N F (el w)" "kernel_ok w" "ends_ok w (dom own)" "bufs_ok w own"
    "events_ok lfd w (dom own)" "logs_ok w own" "lfd \<in> fds w"
    "\<And>a. a \<in> dom own \<Longrightarrow> c_fd (pc w a) \<noteq> lfd" "remote_name (proxy_policy w) \<noteq> None"
  using assms by (auto simp: proxy_inv_def)

lemma end_cell: "ends_ok w D \<Longrightarrow> a \<in> D \<Longrightarrow> cells (clients w) a = Some (pc w a)"
  by (auto simp: ends_ok_def end_ok_def pc_def)

lemma end_okD: "ends_ok w D \<Longrightarrow> a \<in> D \<Longrightarrow> end_ok w D a"
  by (simp add: ends_ok_def)

lemma ends_distinct:
  assumes "ends_ok w D" "a \<in> D" "b \<in> D" "a \<noteq> b"
  shows "c_fd (pc w a) \<noteq> c_fd (pc w b)" "c_blist (pc w a) \<noteq> c_blist (pc w b)"
  using assms by (simp_all add: ends_ok_def)

lemma bufs_okD:
  assumes "bufs_ok w own"
  shows "bl_env (bufs w)"
    "a \<in> dom own \<Longrightarrow> bl_holds (bufs w) (c_blist (pc w a)) (chunks_of own a) (content own a)"
    "a \<in> dom own \<Longrightarrow> b \<in> dom own \<Longrightarrow> a \<noteq> b \<Longrightarrow> chunks_of own a \<inter> chunks_of own b = {}"
  using assms by (simp_all add: bufs_ok_def)

lemma kernel_okD:
  assumes "kernel_ok w"
  shows "recv_of w k fd len = RData bs \<Longrightarrow> int (length bs) \<le> max 0 len"
    "send_of w k fd bs = SSent n \<Longrightarrow> n \<le> int (length bs)"
    "accept_of w k S \<noteq> -1 \<Longrightarrow> 0 \<le> accept_of w k S \<and> accept_of w k S \<notin> S"
    "connect_of w k a p S \<noteq> -1 \<Longrightarrow> 0 \<le> connect_of w k a p S \<and> connect_of w k a p S \<notin> S"
    "heap_ok (clients w)" "env (clients w) b \<noteq> None"
  using assms by (simp_all add: kernel_ok_def)

lemma connect_first_fresh: "kernel_ok w \<Longrightarrow> connect_first w k S \<noteq> -1 \<Longrightarrow> 0 \<le> connect_first w k S \<and> connect_first w k S \<notin> S"
  unfolding connect_first_def by (rule kernel_okD(4))

lemma logs_okD:
  assumes "logs_ok w own"
  shows "a \<in> dom own \<Longrightarrow>
      bytes_at (c_fd (pc w (peer w a))) a (delivered w) = bytes_at (c_fd (pc w a)) a (transmitted w) @ content own a"
    "(f, p, bs) \<in> set (delivered w) \<union> set (transmitted w) \<Longrightarrow> \<exists>a. p = Some a \<and> a < brk (clients w)"
proof -
  show "bytes_at (c_fd (pc w (peer w a))) a (delivered w) = bytes_at (c_fd (pc w a)) a (transmitted w) @ content own a"
    if "a \<in> dom own" using assms that unfolding logs_ok_def by blast
  show "\<exists>a. p = Some a \<and> a < brk (clients w)" if "(f, p, bs) \<in> set (delivered w) \<union> set (transmitted w)"
    using assms bspec [OF _ that, of "\<lambda>(f, p, bs). \<exists>a. p = Some a \<and> a < brk (clients w)"]
    unfolding logs_ok_def by simp
qed

lemma events_okD: "events_ok lfd w D \<Longrightarrow> i < length (events (el w)) \<Longrightarrow> event_ok lfd w D (int i) (events (el w) ! i)"
  by (simp add: events_ok_def)

lemma content_upd [simp]:
  "content (own(a \<mapsto> (X, xs))) b = (if b = a then xs else content own b)"
  "chunks_of (own(a \<mapsto> (X, xs))) b = (if b = a then X else chunks_of own b)"
  by (simp_all add: content_def chunks_of_def)

lemma bytes_at_append [simp]: "bytes_at fd a (L @ M) = bytes_at fd a L @ bytes_at fd a M"
  by (simp add: bytes_at_def)

lemma bytes_at_single [simp]: "bytes_at fd a [(f, p, bs)] = (if f = fd \<and> p = Some a then bs else [])"
  by (simp add: bytes_at_def)

lemma bytes_at_fresh: "(\<And>f p bs. (f, p, bs) \<in> set L \<Longrightarrow> p \<noteq> Some a) \<Longrightarrow> bytes_at fd a L = []"
  unfolding bytes_at_def by (auto split: prod.splits)

text \<open>The parts of the invariant only look at the fields they speak of.\<close>

lemma pc_cong [simp]:
  "pc (w\<lparr>el := l\<rparr>) = pc w" "pc (w\<lparr>bufs := b\<rparr>) = pc w" "pc (w\<lparr>calls := k\<rparr>) = pc w"
  "pc (w\<lparr>delivered := d\<rparr>) = pc w" "pc (w\<lparr>transmitted := d\<rparr>) = pc w" "pc (w\<lparr>fds := s\<rparr>) = pc w"
  by (simp_all add: pc_def fun_eq_iff)

lemma peer_cong [simp]:
  "peer (w\<lparr>el := l\<rparr>) = peer w" "peer (w\<lparr>bufs := b\<rparr>) = peer w" "peer (w\<lparr>calls := k\<rparr>) = peer w"
  "peer (w\<lparr>delivered := d\<rparr>) = peer w" "peer (w\<lparr>transmitted := d\<rparr>) = peer w" "peer (w\<lparr>fds := s\<rparr>) = peer w"
  by (simp_all add: peer_def fun_eq_iff)

lemmas part_defs = ends_ok_def end_ok_def bufs_ok_def events_ok_def event_ok_def logs_ok_def kernel_ok_def

lemma inv_calls [simp]: "proxy_inv watched lfd N F (w\<lparr>calls := k\<rparr>) own = proxy_inv watched lfd N F w own"
  by (simp add: proxy_inv_def part_defs)

lemma inv_el:
  assumes "proxy_inv watched lfd N F w own" "loop_ok watched N F' l" "events_ok lfd (w\<lparr>el := l\<rparr>) (dom own)"
  shows "proxy_inv watched lfd N F' (w\<lparr>el := l\<rparr>) own"
  using assms by (simp add: proxy_inv_def part_defs)

section \<open>The loop\<close>

lemma create_rest:
  "aeCreateFileEvent A l fd msk p cd = Some (r, l') \<Longrightarrow>
   fired l' = fired l \<and> timeEventHead l' = timeEventHead l \<and> beforesleep l' = beforesleep l"
  by (auto simp: aeCreateFileEvent_def bind_eq_Some_conv Let_def split: if_splits)

lemma delete_rest:
  "aeDeleteFileEvent A l fd msk = Some l' \<Longrightarrow>
   fired l' = fired l \<and> timeEventHead l' = timeEventHead l \<and> beforesleep l' = beforesleep l"
  by (auto simp: aeDeleteFileEvent_def bind_eq_Some_conv Let_def split: if_splits)

lemma delete_events:
  "aeDeleteFileEvent A l fd msk = Some l' \<Longrightarrow> events l' = events l \<or>
   events l' = (events l)[nat fd := (events l ! nat fd)\<lparr>fmask := fmask (events l ! nat fd) AND NOT msk\<rparr>]"
  by (auto simp: aeDeleteFileEvent_def bind_eq_Some_conv Let_def split: if_splits
      dest!: aread_SomeD awrite_SomeD)

lemma event_ok_masked:
  assumes "event_ok lfd w D fd fe" "mask_ok (fmask fe)" "mask_ok msk"
  shows "event_ok lfd w D fd (fe\<lparr>fmask := fmask fe AND NOT msk\<rparr>)"
proof -
  have "fmask fe AND NOT msk \<noteq> 0 \<Longrightarrow> fmask fe \<noteq> 0"
    "(fmask fe AND NOT msk) AND AE_READABLE \<noteq> 0 \<Longrightarrow> fmask fe AND AE_READABLE \<noteq> 0"
    "(fmask fe AND NOT msk) AND AE_WRITABLE \<noteq> 0 \<Longrightarrow> fmask fe AND AE_WRITABLE \<noteq> 0"
    "fmask fe = 1 \<Longrightarrow> fmask fe AND NOT msk \<noteq> 0 \<Longrightarrow> fmask fe AND NOT msk = 1"
    using assms(2,3) by (elim mask_cases; simp add: AE_defs)+
  then show ?thesis using assms(1) by (auto simp: event_ok_def)
qed

locale proxy_loop = ae_backend A watched limit
  for A :: "(handler, nat, 'k) ae_api" and watched limit +
  fixes lfd N :: int
  assumes in_limit: "0 \<le> fd \<Longrightarrow> fd < N \<Longrightarrow> limit fd"
begin

lemma loop_len: "loop_ok watched N F l \<Longrightarrow> int (length (events l)) = N"
  by (auto simp: loop_ok_def loop_inv_def masks_ok_def)

lemma create_loop:
  assumes "loop_ok watched N F l" "0 \<le> fd" "mask_ok msk" "msk \<noteq> 0"
  shows "\<exists>r l'. aeCreateFileEvent A l fd msk p cd = Some (r, l') \<and> loop_ok watched N F l' \<and>
    (r = AE_ERR \<and> events l' = events l \<or>
     r = AE_OK \<and> fd < N \<and> reg_mask l' = (reg_mask l)(fd := reg_mask l fd OR msk) \<and>
       events l' = (events l)[nat fd := \<lparr>fmask = reg_mask l fd OR msk,
         rfileProc = (if msk AND AE_READABLE \<noteq> 0 then Some p else rfileProc (events l ! nat fd)),
         wfileProc = (if msk AND AE_WRITABLE \<noteq> 0 then Some p else wfileProc (events l ! nat fd)),
         clientData = cd\<rparr>])"
proof (cases "fd < N")
  case False
  then show ?thesis using assms(1) by (auto simp: aeCreateFileEvent_def loop_ok_def)
next
  case True
  with create_file_event [of l fd msk p cd] assms in_limit [OF assms(2) True]
  obtain r l' where l': "aeCreateFileEvent A l fd msk p cd = Some (r, l')" "loop_inv watched l'"
    "setsize l' = setsize l" "(r = AE_ERR \<and> events l' = events l \<or>
     r = AE_OK \<and> reg_mask l' = (reg_mask l)(fd := reg_mask l fd OR msk) \<and> events l' = (events l)[nat fd := \<lparr>fmask = reg_mask l fd OR msk,
         rfileProc = (if msk AND AE_READABLE \<noteq> 0 then Some p else rfileProc (events l ! nat fd)),
         wfileProc = (if msk AND AE_WRITABLE \<noteq> 0 then Some p else wfileProc (events l ! nat fd)),
         clientData = cd\<rparr>])"
    by (auto simp: loop_ok_def)
  then show ?thesis using create_rest [OF l'(1)] assms(1) True
    by (intro exI [of _ r] exI [of _ l']) (auto simp: loop_ok_def)
qed

lemma delete_loop:
  assumes "loop_ok watched N F l" "0 \<le> fd" "mask_ok msk"
  shows "\<exists>l'. aeDeleteFileEvent A l fd msk = Some l' \<and> loop_ok watched N F l' \<and>
    reg_mask l' = (reg_mask l)(fd := reg_mask l fd AND NOT msk) \<and>
    (\<forall>i. i \<noteq> nat fd \<longrightarrow> i < length (events l) \<longrightarrow> events l' ! i = events l ! i)"
proof (cases "fd < N")
  case False
  moreover have "reg_mask l fd = 0" using False loop_len [OF assms(1)] by (simp add: reg_mask_def)
  ultimately show ?thesis using assms(1) by (auto simp: aeDeleteFileEvent_def loop_ok_def)
next
  case True
  with delete_file_event [of l fd msk] assms in_limit [OF assms(2) True]
  obtain l' where l': "aeDeleteFileEvent A l fd msk = Some l'" "loop_inv watched l'"
    "setsize l' = setsize l" "reg_mask l' = (reg_mask l)(fd := reg_mask l fd AND NOT msk)"
    "\<forall>i. i \<noteq> nat fd \<longrightarrow> i < length (events l) \<longrightarrow> events l' ! i = events l ! i"
    by (auto simp: loop_ok_def)
  then show ?thesis using delete_rest [OF l'(1)] assms(1)
    by (intro exI [of _ l']) (auto simp: loop_ok_def)
qed

lemma mask_event: "loop_ok watched N F l \<Longrightarrow> i < length (events l) \<Longrightarrow> mask_ok (fmask (events l ! i))"
  by (auto simp: loop_ok_def loop_inv_def masks_ok_def)

text \<open>Removing any event keeps the invariant.\<close>

lemma inv_delete:
  assumes inv: "proxy_inv watched lfd N F w own" and "0 \<le> fd" "mask_ok msk"
  shows "\<exists>w'. delete_event A w fd msk = Some w' \<and> w' = w\<lparr>el := el w'\<rparr> \<and> proxy_inv watched lfd N F w' own \<and>
    reg_mask (el w') = (reg_mask (el w))(fd := reg_mask (el w) fd AND NOT msk)"
proof -
  note I = proxy_invD [OF inv]
  obtain l' where l': "aeDeleteFileEvent A (el w) fd msk = Some l'" "loop_ok watched N F l'"
    "reg_mask l' = (reg_mask (el w))(fd := reg_mask (el w) fd AND NOT msk)"
    using delete_loop [OF I(1) assms(2,3)] by blast
  have "event_ok lfd w (dom own) (int i) (events l' ! i)" if "i < length (events l')" for i
  proof -
    have len: "length (events l') = length (events (el w))" using loop_len [OF I(1)] loop_len [OF l'(2)] by simp
    then have e: "event_ok lfd w (dom own) (int i) (events (el w) ! i)"
      using I(5) that by (simp add: events_ok_def)
    from event_ok_masked [OF this mask_event [OF I(1)] assms(3)] e len that delete_events [OF l'(1)]
    show ?thesis by (cases "i = nat fd") auto
  qed
  then have "events_ok lfd (w\<lparr>el := l'\<rparr>) (dom own)" by (simp add: events_ok_def event_ok_def)
  from inv_el [OF inv l'(2) this] l'(1,3) show ?thesis by (auto simp: delete_event_def)
qed

text \<open>Registering an event for a live end, or for the listening socket, keeps it.\<close>

lemma inv_create:
  assumes inv: "proxy_inv watched lfd N F w own" and a: "a \<in> dom own" and fd: "fd = c_fd (pc w a)"
    and p: "msk = AE_READABLE \<and> p = ReadIncomeH \<or> msk = AE_WRITABLE \<and> p = SendOutcomeH"
  shows "\<exists>r w'. create_event A w fd msk p (Some a) = Some (r, w') \<and> w' = w\<lparr>el := el w'\<rparr> \<and>
    proxy_inv watched lfd N F w' own \<and>
    (r = AE_ERR \<or> r = AE_OK \<and> reg_mask (el w') = (reg_mask (el w))(fd := reg_mask (el w) fd OR msk))"
proof -
  note I = proxy_invD [OF inv]
  have nn: "0 \<le> fd" using end_okD [OF I(3) a] fd by (simp add: end_ok_def)
  have m: "mask_ok msk" "msk \<noteq> 0" using p by (auto simp: AE_defs)
  obtain r l' where l': "aeCreateFileEvent A (el w) fd msk p (Some a) = Some (r, l')" "loop_ok watched N F l'"
    "r = AE_ERR \<and> events l' = events (el w) \<or> r = AE_OK \<and> fd < N \<and>
       reg_mask l' = (reg_mask (el w))(fd := reg_mask (el w) fd OR msk) \<and> events l' = (events (el w))[nat fd :=
       \<lparr>fmask = reg_mask (el w) fd OR msk,
         rfileProc = (if msk AND AE_READABLE \<noteq> 0 then Some p else rfileProc (events (el w) ! nat fd)),
         wfileProc = (if msk AND AE_WRITABLE \<noteq> 0 then Some p else wfileProc (events (el w) ! nat fd)),
         clientData = Some a\<rparr>]"
    using create_loop [OF I(1) nn m] by blast
  have "event_ok lfd w (dom own) (int i) (events l' ! i)" if i: "i < length (events l')" for i
  proof (cases "r = AE_OK \<and> i = nat fd")
    case False
    then show ?thesis using l'(3) I(5) i by (auto simp: events_ok_def AE_defs)
  next
    case True
    then have lt: "nat fd < length (events (el w))" using loop_len [OF I(1)] l'(3) nn by (auto simp: AE_defs)
    let ?e = "events (el w) ! nat fd"
    have rm: "reg_mask (el w) fd = fmask ?e" using lt nn by (simp add: reg_mask_def nat_less_iff)
    have mo: "mask_ok (fmask ?e)" using mask_event [OF I(1) lt] .
    have old: "event_ok lfd w (dom own) fd ?e"
      using I(5) lt nn by (simp add: events_ok_def) (metis int_nat_eq)
    have uniq: "b = a" if "b \<in> dom own" "c_fd (pc w b) = fd" for b
      using I(3) a fd that by (auto simp: ends_ok_def)
    have ne: "fd \<noteq> lfd" using I(8) [OF a] fd by simp
    have prev: "fmask ?e AND AE_READABLE \<noteq> 0 \<Longrightarrow> rfileProc ?e = Some ReadIncomeH"
        "fmask ?e AND AE_WRITABLE \<noteq> 0 \<Longrightarrow> wfileProc ?e = Some SendOutcomeH"
      using old ne uniq mo unfolding event_ok_def by auto
    have bits: "(fmask ?e OR msk) AND AE_READABLE \<noteq> 0 \<longleftrightarrow> fmask ?e AND AE_READABLE \<noteq> 0 \<or> msk = AE_READABLE"
        "(fmask ?e OR msk) AND AE_WRITABLE \<noteq> 0 \<longleftrightarrow> fmask ?e AND AE_WRITABLE \<noteq> 0 \<or> msk = AE_WRITABLE"
        "msk AND AE_READABLE \<noteq> 0 \<longleftrightarrow> msk = AE_READABLE" "msk AND AE_WRITABLE \<noteq> 0 \<longleftrightarrow> msk = AE_WRITABLE"
      using p mo by (elim mask_cases disjE; simp add: AE_defs)+
    have "events l' ! i = \<lparr>fmask = fmask ?e OR msk,
         rfileProc = (if msk = AE_READABLE then Some p else rfileProc ?e),
         wfileProc = (if msk = AE_WRITABLE then Some p else wfileProc ?e), clientData = Some a\<rparr>"
      using l'(3) True lt rm bits(3,4) by (auto simp: AE_defs)
    then have "event_ok lfd w (dom own) fd (events l' ! i)"
    proof (simp only: event_ok_def aeFileEvent.simps bits, intro impI disjI2 bexI [OF _ a] conjI)
      show "c_fd (pc w a) = fd" using fd by simp
      show "fmask ?e AND AE_READABLE \<noteq> 0 \<or> msk = AE_READABLE \<Longrightarrow>
          (if msk = AE_READABLE then Some p else rfileProc ?e) = Some ReadIncomeH"
        using prev(1) p by (cases "msk = AE_READABLE") (auto simp: AE_READABLE_def AE_WRITABLE_def)
      show "fmask ?e AND AE_WRITABLE \<noteq> 0 \<or> msk = AE_WRITABLE \<Longrightarrow>
          (if msk = AE_WRITABLE then Some p else wfileProc ?e) = Some SendOutcomeH"
        using prev(2) p by (cases "msk = AE_WRITABLE") (auto simp: AE_READABLE_def AE_WRITABLE_def)
    qed simp
    then show ?thesis using True nn by simp
  qed
  then have "events_ok lfd (w\<lparr>el := l'\<rparr>) (dom own)" by (simp add: events_ok_def event_ok_def)
  from inv_el [OF inv l'(2) this] l'(1,3) show ?thesis by (auto simp: create_event_def)
qed

end

text \<open>
  The two inner loops of the proxy under the invariant: whatever the kernel answers, they
  return, and what they move is what the histories say.
\<close>

section \<open>One piece of data\<close>

lemma bl_holds_below:
  assumes "bl_env m" "bl_holds m p X xs"
  shows "a \<in> X \<Longrightarrow> a < brk (nodes m)" "\<exists>l. p = Some l \<and> l < brk (lists m)"
proof -
  obtain b fs u s es where r: "bl_rep m p b fs u s es" "X = set (fs @ u # es)"
    using assms(2) by (auto simp: bl_holds_def)
  note R = bl_repD [OF r(1)]
  show "a < brk (nodes m)" if "a \<in> X"
    using R(5-7) that r(2) assms(1) unfolding chunk_is_def bl_env_def by (auto dest: heap_okD)
  show "\<exists>l. p = Some l \<and> l < brk (lists m)"
    using R(1) assms(1) by (cases p) (auto simp: bl_env_def dest: heap_okD)
qed

lemma bl_env_frame:
  assumes "bl_env m" "bl_holds m p X xs" "bl_frame p X m m'"
  shows "bl_env m'"
  using assms(1,3) bl_holds_below [OF assms(1,2)] unfolding bl_env_def bl_frame_def heap_ok_def
  by (metis not_less option.inject)

lemma bufs_ok_holds:
  assumes "bufs_ok w own" "own a = Some (X, xs)"
  shows "bl_holds (bufs w) (c_blist (pc w a)) X xs"
proof -
  have "a \<in> dom own" using assms(2) by auto
  then have "bl_holds (bufs w) (c_blist (pc w a)) (chunks_of own a) (content own a)"
    using assms(1) unfolding bufs_ok_def by blast
  then show ?thesis using assms(2) by (simp add: chunks_of_def content_def)
qed

lemma bufs_ok_upd:
  assumes ok: "bufs_ok w own" "ends_ok w (dom own)" and a: "own a = Some (X, xs)"
    and m': "bl_holds m' (c_blist (pc w a)) X xs'" "bl_frame (c_blist (pc w a)) X (bufs w) m'"
  shows "bufs_ok (w\<lparr>bufs := m'\<rparr>) (own(a \<mapsto> (X, xs')))"
proof -
  have X: "chunks_of own a = X" using a by (simp add: chunks_of_def)
  have ad: "a \<in> dom own" using a by auto
  have "bl_holds m' (c_blist (pc w b)) (chunks_of own b) (content own b)" if b: "b \<in> dom own" "b \<noteq> a" for b
    by (rule bl_holds_frame [OF bufs_okD(2) [OF ok(1) b(1)] m'(2)])
      (use bufs_okD(3) [OF ok(1) ad b(1)] ends_distinct(2) [OF ok(2) ad b(1)] b(2) X in auto)
  moreover have "bl_env m'" by (rule bl_env_frame [OF bufs_okD(1) [OF ok(1)] bufs_ok_holds [OF ok(1) a] m'(2)])
  moreover have "dom (own(a \<mapsto> (X, xs'))) = dom own" using ad by auto
  moreover have "chunks_of (own(a \<mapsto> (X, xs'))) = chunks_of own" using X by (intro ext) simp
  ultimately show ?thesis using m'(1) X bufs_okD(3) [OF ok(1)] unfolding bufs_ok_def by simp
qed

lemma inv_recv:
  assumes inv: "proxy_inv watched lfd N F w own" and a: "own a = Some (X, xs)"
    and sp: "BufferListGetSpace (bufs w) (c_blist (pc w a)) = Some (buf, len)"
    and bs: "bs \<noteq> []" "int (length bs) \<le> len" and fd: "fd = c_fd (pc w (peer w a))"
  shows "\<exists>b1 b2. poke (bufs w) buf bs = Some b1 \<and>
    BufferListPush b1 (c_blist (pc w a)) (int (length bs)) = Some b2 \<and>
    proxy_inv watched lfd N F (w\<lparr>delivered := delivered w @ [(fd, Some a, bs)], bufs := b2\<rparr>) (own(a \<mapsto> (X, xs @ bs)))"
proof -
  note I = proxy_invD [OF inv]
  have h: "bl_holds (bufs w) (c_blist (pc w a)) X xs" using bufs_ok_holds [OF I(4) a] .
  obtain b2 where b2: "bl_recv (c_blist (pc w a)) (bufs w) bs = Some b2"
    using bl_recv_total [OF h sp] bs by auto
  then obtain b1 where b1: "poke (bufs w) buf bs = Some b1"
      "BufferListPush b1 (c_blist (pc w a)) (int (length bs)) = Some b2"
    using sp by (auto simp: bl_recv_def bind_eq_Some_conv)
  have h2: "bl_holds b2 (c_blist (pc w a)) X (xs @ bs)" "bl_frame (c_blist (pc w a)) X (bufs w) b2"
    using bl_recv_spec [OF h b2] by auto
  have bo: "bufs_ok (w\<lparr>bufs := b2\<rparr>) (own(a \<mapsto> (X, xs @ bs)))" using bufs_ok_upd [OF I(4,3) a h2] .
  have dm: "dom (own(a \<mapsto> (X, xs @ bs))) = dom own" using a by auto
  have da: "a \<in> dom own" "content own a = xs" using a by (auto simp: content_def)
  have lt: "a < brk (clients w)"
    using I(2) end_cell [OF I(3) da(1)] by (auto simp: kernel_ok_def dest: heap_okD)
  have lo: "logs_ok (w\<lparr>delivered := delivered w @ [(fd, Some a, bs)], bufs := b2\<rparr>) (own(a \<mapsto> (X, xs @ bs)))"
    unfolding logs_ok_def dm
  proof (intro conjI)
    show "\<forall>b\<in>dom own. bytes_at (c_fd (pc (w\<lparr>delivered := delivered w @ [(fd, Some a, bs)], bufs := b2\<rparr>)
         (peer (w\<lparr>delivered := delivered w @ [(fd, Some a, bs)], bufs := b2\<rparr>) b))) b
         (delivered (w\<lparr>delivered := delivered w @ [(fd, Some a, bs)], bufs := b2\<rparr>)) =
       bytes_at (c_fd (pc (w\<lparr>delivered := delivered w @ [(fd, Some a, bs)], bufs := b2\<rparr>) b)) b
         (transmitted (w\<lparr>delivered := delivered w @ [(fd, Some a, bs)], bufs := b2\<rparr>)) @
       content (own(a \<mapsto> (X, xs @ bs))) b"
      using I(6) da fd by (simp add: logs_ok_def)
  qed (use I(6) lt in \<open>auto simp: logs_ok_def\<close>)
  have "proxy_inv watched lfd N F (w\<lparr>delivered := delivered w @ [(fd, Some a, bs)], bufs := b2\<rparr>) (own(a \<mapsto> (X, xs @ bs)))"
    using I(1-3,5,7-9) bo lo unfolding proxy_inv_def dm by (simp add: part_defs dm)
  then show ?thesis using b1 by blast
qed

lemma inv_send:
  assumes inv: "proxy_inv watched lfd N F w own" and a: "own a = Some (X, xs)"
    and gd: "BufferListGetData (bufs w) (c_blist (pc w a)) = Some (buf, len)" and n: "0 < n" "n \<le> len"
  shows "\<exists>b. peek (bufs w) buf n = Some (take (nat n) xs) \<and> 
    BufferListPop (bufs w) (c_blist (pc w a)) n = Some (b, False) \<and>
    proxy_inv watched lfd N F (w\<lparr>transmitted := transmitted w @ [(c_fd (pc w a), Some a, take (nat n) xs)], bufs := b\<rparr>)
      (own(a \<mapsto> (X, drop (nat n) xs))) \<and> bl_frame (c_blist (pc w a)) X (bufs w) b"
proof -
  note I = proxy_invD [OF inv]
  have h: "bl_holds (bufs w) (c_blist (pc w a)) X xs" using bufs_ok_holds [OF I(4) a] .
  obtain b where b: "peek (bufs w) buf n = Some (take (nat n) xs)"
      "BufferListPop (bufs w) (c_blist (pc w a)) n = Some (b, False)"
      "bl_holds b (c_blist (pc w a)) X (drop (nat n) xs)" "bl_frame (c_blist (pc w a)) X (bufs w) b"
    using bl_send_spec [OF h] gd n by (smt (verit) option.inject prod.inject)
  have bo: "bufs_ok (w\<lparr>bufs := b\<rparr>) (own(a \<mapsto> (X, drop (nat n) xs)))" using bufs_ok_upd [OF I(4,3) a b(3,4)] .
  have dm: "dom (own(a \<mapsto> (X, drop (nat n) xs))) = dom own" using a by auto
  have da: "a \<in> dom own" "content own a = xs" using a by (auto simp: content_def)
  have lt: "a < brk (clients w)"
    using I(2) end_cell [OF I(3) da(1)] by (auto simp: kernel_ok_def dest: heap_okD)
  define w' where "w' = w\<lparr>transmitted := transmitted w @ [(c_fd (pc w a), Some a, take (nat n) xs)], bufs := b\<rparr>"
  have eqs: "pc w' = pc w" "peer w' = peer w" "delivered w' = delivered w"
    "transmitted w' = transmitted w @ [(c_fd (pc w a), Some a, take (nat n) xs)]" by (simp_all add: w'_def)
  have lo: "logs_ok w' (own(a \<mapsto> (X, drop (nat n) xs)))"
    unfolding logs_ok_def dm eqs
  proof (intro conjI)
    show "\<forall>c\<in>dom own. bytes_at (c_fd (pc w (peer w c))) c (delivered w) =
       bytes_at (c_fd (pc w c)) c (transmitted w @ [(c_fd (pc w a), Some a, take (nat n) xs)]) @
       content (own(a \<mapsto> (X, drop (nat n) xs))) c"
      using I(6) da by (simp add: logs_ok_def)
  qed (use I(6) lt in \<open>auto simp: logs_ok_def w'_def\<close>)
  have "proxy_inv watched lfd N F w' (own(a \<mapsto> (X, drop (nat n) xs)))"
    using I(1-3,5,7-9) bo lo unfolding proxy_inv_def dm w'_def by (simp add: part_defs dm)
  then show ?thesis using b(1,2,4) by (auto simp: w'_def)
qed

lemma released_frame:
  assumes "released w1 own1 a w'" "clients w1 = clients w" "fds w1 = fds w" "el w1 = el w"
    and "bl_frame (c_blist (pc w a)) (chunks_of own a) (bufs w) (bufs w1)" "chunks_of own1 = chunks_of own"
  shows "released w own a w'"
proof -
  have e: "pc w1 = pc w" "peer w1 = peer w" using assms(2) by (simp_all add: pc_def peer_def fun_eq_iff)
  have "cells (lists (bufs w1)) |` (- {l. Some l = c_blist (pc w a) \<or> Some l = q}) = cells (lists (bufs w)) |` (- {l. Some l = c_blist (pc w a) \<or> Some l = q})" for q
    using assms(5) by (auto simp: bl_frame_def restrict_map_def fun_eq_iff)
  moreover have "cells (nodes (bufs w1)) |` (- (chunks_of own a \<union> B)) = cells (nodes (bufs w)) |` (- (chunks_of own a \<union> B))" for B
    using assms(5) by (auto simp: bl_frame_def restrict_map_def fun_eq_iff)
  ultimately show ?thesis using assms(1-4,6) by (simp add: released_def Let_def e)
qed

lemma buffer_list_space:
  assumes "bl_holds m p X xs"
  obtains buf len where "BufferListGetSpace m p = Some (buf, len)" "0 \<le> len"
proof -
  obtain b fs u s es where r: "bl_rep m p b fs u s es" using assms by (auto simp: bl_holds_def)
  then show thesis using that GetSpace_rep [OF r] bl_repD(9) [OF r] by (cases "es = [] \<and> s = 16") auto
qed

lemma proxy_world_calls: "clients (w\<lparr>calls := k\<rparr>) = clients w"
  by simp

section \<open>Releasing a connection\<close>

lemma bl_env_free:
  assumes "bl_env m" "bl_frame p X m m'" "cells (nodes m') = cells (nodes m) |` (- X)" "cells (lists m') = (cells (lists m))(l := None)"
  shows "bl_env m'"
  using assms by (auto simp: bl_env_def bl_frame_def heap_ok_def restrict_map_def)

lemma delete_fds:
  "delete_event A w fd msk = Some w' \<Longrightarrow> delete_event A (close_fd w x) fd msk = Some (close_fd w' x)"
  by (auto simp: delete_event_def close_fd_def bind_eq_Some_conv)

lemma peer_outside:
  assumes "ends_ok w D" "a \<in> D" "d \<in> D" "d \<noteq> a" "d \<noteq> peer w a"
  shows "peer w d \<in> D" "peer w d \<noteq> a" "peer w d \<noteq> peer w a"
  using end_okD [OF assms(1,2)] end_okD [OF assms(1,3)] assms(4,5) unfolding end_ok_def by metis+

text \<open>The invariant after both ends of a connection are gone.\<close>

lemma inv_drop:
  assumes inv: "proxy_inv watched lfd N F w own" and a: "a \<in> dom own" and b: "b = peer w a"
    and reg: "reg_mask (el w) (c_fd (pc w a)) = 0" "reg_mask (el w) (c_fd (pc w b)) = 0"
    and m: "bl_env m'" "bl_frame (c_blist (pc w b)) (chunks_of own b) (bufs w) m1"
      "bl_frame (c_blist (pc w a)) (chunks_of own a) m1 m'"
    and h: "cells h' = (cells (clients w))(b := None, a := None)" "brk h' = brk (clients w)" "env h' = env (clients w)"
  shows "proxy_inv watched lfd N F (w\<lparr>fds := fds w - {c_fd (pc w a)} - {c_fd (pc w b)}, bufs := m', clients := h'\<rparr>)
    (own |` (- {a, b}))"
    (is "proxy_inv _ _ _ _ ?w ?own")
proof -
  note I = proxy_invD [OF inv]
  have bd: "b \<in> dom own" using end_okD [OF I(3) a] b by (simp add: end_ok_def)
  have D: "d \<in> dom ?own \<longleftrightarrow> d \<in> dom own \<and> d \<noteq> a \<and> d \<noteq> b" for d by (auto simp: restrict_map_def split: if_splits)
  have pc: "pc ?w d = pc w d" "peer ?w d = peer w d" if "d \<in> dom ?own" for d
    using that h(1) by (auto simp: pc_def peer_def D)
  have pd: "peer w d \<in> dom ?own" if "d \<in> dom ?own" for d
    using peer_outside [OF I(3) a, of d] that b by (simp add: D)
  have fd: "c_fd (pc w d) \<noteq> c_fd (pc w a)" "c_fd (pc w d) \<noteq> c_fd (pc w b)" if "d \<in> dom ?own" for d
    using ends_distinct(1) [OF I(3)] a bd that by (simp_all add: D)
  have cont: "content ?own d = content own d" "chunks_of ?own d = chunks_of own d" if "d \<in> dom ?own" for d
    using that by (auto simp: content_def chunks_of_def restrict_map_def split: if_splits)
  have "end_ok ?w (dom ?own) d" if d: "d \<in> dom ?own" for d
  proof -
    have "end_ok w (dom own) d" using end_okD [OF I(3)] d by (simp add: D)
    then show ?thesis
      using pd [OF d] pc [OF d] pc [OF pd [OF d]] fd [OF d] d h(1) by (auto simp: end_ok_def D)
  qed
  then have ends: "ends_ok ?w (dom ?own)"
    using I(3) pc by (simp add: ends_ok_def D)
  have "bl_holds m' (c_blist (pc w d)) (chunks_of own d) (content own d)" if d: "d \<in> dom ?own" for d
  proof -
    have d': "d \<in> dom own" "a \<noteq> d" "b \<noteq> d" using d by (auto simp: D)
    have "bl_holds m1 (c_blist (pc w d)) (chunks_of own d) (content own d)"
      by (rule bl_holds_frame [OF bufs_okD(2) [OF I(4) d'(1)] m(2)])
        (use ends_distinct(2) [OF I(3) bd d'(1)] bufs_okD(3) [OF I(4) bd d'(1)] d' in auto)
    then show ?thesis
      by (rule bl_holds_frame [OF _ m(3)])
        (use ends_distinct(2) [OF I(3) a d'(1)] bufs_okD(3) [OF I(4) a d'(1)] d' in auto)
  qed
  then have bufs: "bufs_ok ?w ?own"
    using m(1) bufs_okD(3) [OF I(4)] pc cont by (simp add: bufs_ok_def D)
  have "event_ok lfd ?w (dom ?own) (int i) (events (el w) ! i)" if i: "i < length (events (el w))" for i
    unfolding event_ok_def
  proof
    assume ne: "fmask (events (el w) ! i) \<noteq> 0"
    then have "reg_mask (el w) (int i) \<noteq> 0" using i by (simp add: reg_mask_def)
    then have "int i \<noteq> c_fd (pc w a)" "int i \<noteq> c_fd (pc w b)" using reg by metis+
    moreover have "event_ok lfd w (dom own) (int i) (events (el w) ! i)" using I(5) i by (simp add: events_ok_def)
    ultimately show "int i = lfd \<and> fmask (events (el w) ! i) = 1 \<and> rfileProc (events (el w) ! i) = Some AcceptH \<or>
      (\<exists>d\<in>dom ?own. c_fd (pc ?w d) = int i \<and> clientData (events (el w) ! i) = Some d \<and>
        (fmask (events (el w) ! i) AND AE_READABLE \<noteq> 0 \<longrightarrow> rfileProc (events (el w) ! i) = Some ReadIncomeH) \<and>
        (fmask (events (el w) ! i) AND AE_WRITABLE \<noteq> 0 \<longrightarrow> wfileProc (events (el w) ! i) = Some SendOutcomeH))"
      using ne pc(1) unfolding event_ok_def by (metis D)
  qed
  then have evs: "events_ok lfd ?w (dom ?own)" by (simp add: events_ok_def)
  have "logs_ok ?w ?own"
    using I(6) pc pd cont h(2) by (simp add: logs_ok_def D)
  moreover have "kernel_ok ?w" using I(2) h by (auto simp: kernel_ok_def heap_ok_def)
  moreover have "lfd \<noteq> c_fd (pc w a)" "lfd \<noteq> c_fd (pc w b)" using I(8) a bd by metis+
  ultimately show ?thesis
    using I(1,7-9) ends bufs evs pc by (simp add: proxy_inv_def D)
qed

end
