(* ===== verification/Proxy_Correct.thy ===== *)
theory Proxy_Correct
  imports Proxy_Inv
begin

text \<open>
  Every handler of the proxy returns and keeps the invariant, whatever the kernel answers; so
  does the event loop that calls them.
\<close>

lemma mask_both: "mask_ok m \<Longrightarrow> (m AND NOT AE_READABLE) AND NOT AE_WRITABLE = 0"
  by (elim mask_cases) (simp_all add: AE_defs)

lemma bufs_list:
  assumes "bufs_ok w own" "a \<in> dom own"
  obtains l where "c_blist (pc w a) = Some l"
proof -
  have "bl_holds (bufs w) (c_blist (pc w a)) (chunks_of own a) (content own a)" by (rule bufs_okD(2) [OF assms])
  then show thesis using that by (cases "c_blist (pc w a)") (auto simp: bl_holds_def bl_rep_def)
qed

lemma bl_frame_lists: "bl_frame p X m m' \<Longrightarrow> Some l \<noteq> p \<Longrightarrow> cells (lists m') l = cells (lists m) l"
  by (simp add: bl_frame_def)

lemma same_clients: "clients w' = clients w \<Longrightarrow> pc w' = pc w \<and> peer w' = peer w"
  by (simp add: pc_def peer_def fun_eq_iff)

lemma drop_upd: "a \<in> S \<Longrightarrow> own(a \<mapsto> x) |` (- S) = own |` (- S)"
  by (auto simp: restrict_map_def fun_eq_iff)

lemma dom_upd: "own a = Some y \<Longrightarrow> dom (own(a \<mapsto> x)) = dom own"
  by auto

lemma bl_get_data:
  assumes "bl_holds m p X xs"
  obtains buf len where "BufferListGetData m p = Some (buf, len)" "buf = None \<longleftrightarrow> xs = []"
    "len \<le> int (length xs)" "xs \<noteq> [] \<Longrightarrow> 0 < len" "xs \<noteq> [] \<Longrightarrow> peek m buf len = Some (take (nat len) xs)"
proof (rule bl_send_spec [OF assms])
  fix buf len
  assume "BufferListGetData m p = Some (buf, len)" "buf = None \<longleftrightarrow> xs = []" "len \<le> int (length xs)"
    "xs \<noteq> [] \<Longrightarrow> 0 < len" "\<And>n. 0 < n \<Longrightarrow> n \<le> len \<Longrightarrow> \<exists>m'. bl_send p m n = Some (take (nat n) xs, m') \<and>
       peek m buf n = Some (take (nat n) xs) \<and> BufferListPop m p n = Some (m', False) \<and>
       bl_holds m' p X (drop (nat n) xs) \<and> bl_frame p X m m'"
  then show thesis using that [of buf len] by auto
qed

text \<open>\<open>own'\<close> is what is left of \<open>own\<close>: all of it, or all but the connection of \<open>a\<close>.\<close>

definition left :: "'k proxy_world \<Rightarrow> owner \<Rightarrow> nat \<Rightarrow> owner \<Rightarrow> bool" where
  "left w own a own' \<longleftrightarrow> own' = own \<or> own' = own |` (- {a, peer w a})"

lemma flag_bit: "(x OR CLIENT_CLOSE_AFTER_SENT) AND CLIENT_CLOSE_AFTER_SENT \<noteq> 0"
  by (simp add: CLIENT_CLOSE_AFTER_SENT_def and_one_eq odd_iff_mod_2_eq_one [symmetric] even_or_iff)

context proxy_loop
begin

lemma delete_both:
  assumes inv: "proxy_inv watched lfd N F w own" and fd: "0 \<le> fd"
  obtains w1 l where "delete_event A w fd AE_READABLE = Some w1" "delete_event A w1 fd AE_WRITABLE = Some (w\<lparr>el := l\<rparr>)"
    "proxy_inv watched lfd N F (w\<lparr>el := l\<rparr>) own" "reg_mask l = (reg_mask (el w))(fd := 0)"
proof -
  obtain w1 where w1: "delete_event A w fd AE_READABLE = Some w1" "w1 = w\<lparr>el := el w1\<rparr>"
    "proxy_inv watched lfd N F w1 own" "reg_mask (el w1) = (reg_mask (el w))(fd := reg_mask (el w) fd AND NOT AE_READABLE)"
    using inv_delete [OF inv fd, of AE_READABLE] by (auto simp: AE_defs)
  obtain w2 where w2: "delete_event A w1 fd AE_WRITABLE = Some w2" "w2 = w1\<lparr>el := el w2\<rparr>"
    "proxy_inv watched lfd N F w2 own" "reg_mask (el w2) = (reg_mask (el w1))(fd := reg_mask (el w1) fd AND NOT AE_WRITABLE)"
    using inv_delete [OF w1(3) fd, of AE_WRITABLE] by (auto simp: AE_defs)
  have "mask_ok (reg_mask (el w) fd)"
    using proxy_invD(1) [OF inv] by (intro reg_mask_ok) (simp add: loop_ok_def loop_inv_def)
  then have reg: "reg_mask (el w2) = (reg_mask (el w))(fd := 0)"
    using w1(4) w2(4) mask_both by auto
  obtain l1 l2 where l: "w1 = w\<lparr>el := l1\<rparr>" "w2 = w1\<lparr>el := l2\<rparr>" using w1(2) w2(2) by blast
  then have "w2 = w\<lparr>el := l2\<rparr>" by simp
  then show thesis using that w1(1) w2(1,3) reg by auto
qed

text \<open>\<open>FreeClient\<close> on a client that is alive: both ends, their buffers and their events go.\<close>

lemma FreeClient_inv:
  assumes inv: "proxy_inv watched lfd N F w own" and a: "a \<in> dom own" and cl: "is_client (pc w a)"
  shows "\<exists>w'. FreeClient A w (Some a) = Some w' \<and>
    proxy_inv watched lfd N F w' (own |` (- {a, peer w a})) \<and>
    w' = w\<lparr>el := el w', fds := fds w - {c_fd (pc w a)} - {c_fd (pc w (peer w a))}, bufs := bufs w', clients := clients w'\<rparr> \<and>
    released w own a w'"
proof -
  note I = proxy_invD [OF inv]
  define b where "b = peer w a"
  have E: "end_ok w (dom own) a" using end_okD [OF I(3) a] .
  have b: "b \<in> dom own" "b \<noteq> a" "c_remote (pc w a) = Some b" "0 \<le> c_fd (pc w a)"
    using E by (auto simp: end_ok_def b_def)
  have bn: "0 \<le> c_fd (pc w b)" using end_okD [OF I(3) b(1)] by (simp add: end_ok_def)
  have cells: "cells (clients w) a = Some (pc w a)" "cells (clients w) b = Some (pc w b)"
    using end_cell [OF I(3)] a b(1) by auto
  obtain w1 l2 where w2: "delete_event A w (c_fd (pc w a)) AE_READABLE = Some w1"
    "delete_event A w1 (c_fd (pc w a)) AE_WRITABLE = Some (w\<lparr>el := l2\<rparr>)"
    "proxy_inv watched lfd N F (w\<lparr>el := l2\<rparr>) own" "reg_mask l2 = (reg_mask (el w))(c_fd (pc w a) := 0)"
    using delete_both [OF inv b(4)] .
  obtain w3 l4 where w4: "delete_event A (w\<lparr>el := l2\<rparr>) (c_fd (pc w b)) AE_READABLE = Some w3"
    "delete_event A w3 (c_fd (pc w b)) AE_WRITABLE = Some (w\<lparr>el := l4\<rparr>)"
    "proxy_inv watched lfd N F (w\<lparr>el := l4\<rparr>) own" "reg_mask l4 = (reg_mask l2)(c_fd (pc w b) := 0)"
    using delete_both [OF w2(3) bn] by auto
  define la lb where "la = the (c_blist (pc w a))" and "lb = the (c_blist (pc w b))"
  have bl: "c_blist (pc w a) = Some la" "c_blist (pc w b) = Some lb" "la \<noteq> lb"
  proof -
    show *: "c_blist (pc w a) = Some la" using bufs_list [OF I(4) a] by (metis la_def option.sel)
    show **: "c_blist (pc w b) = Some lb" using bufs_list [OF I(4) b(1)] by (metis lb_def option.sel)
    show "la \<noteq> lb" using ends_distinct(2) [OF I(3) a b(1)] b(2) * ** by auto
  qed
  have hb: "bl_holds (bufs w) (Some lb) (chunks_of own b) (content own b)"
    using bufs_okD(2) [OF I(4) b(1)] bl(2) by simp
  obtain m1 where m1: "FreeBufferList (bufs w) (Some lb) = Some m1"
    "cells (nodes m1) = cells (nodes (bufs w)) |` (- chunks_of own b)"
    "cells (lists m1) = (cells (lists (bufs w)))(lb := None)" "bl_frame (Some lb) (chunks_of own b) (bufs w) m1"
    using FreeBufferList_spec [OF hb] by blast
  have ha: "bl_holds m1 (Some la) (chunks_of own a) (content own a)"
    by (rule bl_holds_frame [OF _ m1(4)])
      (use bufs_okD(2) [OF I(4) a] bufs_okD(3) [OF I(4) b(1) a] b(2) bl in auto)
  obtain m' where m': "FreeBufferList m1 (Some la) = Some m'"
    "cells (nodes m') = cells (nodes m1) |` (- chunks_of own a)"
    "cells (lists m') = (cells (lists m1))(la := None)" "bl_frame (Some la) (chunks_of own a) m1 m'"
    using FreeBufferList_spec [OF ha] by blast
  have env: "bl_env m'"
    using bl_env_free [OF bl_env_free [OF bufs_okD(1) [OF I(4)] m1(4,2,3)] m'(4,2,3)] .
  define h' where "h' = (clients w)\<lparr>cells := (cells (clients w))(b := None, a := None)\<rparr>"
  define w' where "w' = w\<lparr>el := l4, fds := fds w - {c_fd (pc w a)} - {c_fd (pc w b)}, bufs := m', clients := h'\<rparr>"
  have fw: "fds w3 = fds w" "clients w3 = clients w" "bufs w3 = bufs w"
    using w4(1) by (auto simp: delete_event_def bind_eq_Some_conv)
  have "FreeRemote A (close_fd (w\<lparr>el := l2\<rparr>) (c_fd (pc w a))) (Some b) = Some (w\<lparr>el := l4,
      fds := fds w - {c_fd (pc w a)} - {c_fd (pc w b)}, bufs := m1,
      clients := (clients w)\<lparr>cells := (cells (clients w))(b := None)\<rparr>\<rparr>)"
    using cells(2) bl(2) m1(1) delete_fds [OF w4(1), of "c_fd (pc w a)"] delete_fds [OF w4(2), of "c_fd (pc w a)"]
    by (simp add: FreeRemote_def close_fd_def cfree_cell)
  then have run: "FreeClient A w (Some a) = Some w'"
    using cells bl b m'(1) w2(1,2)
    by (simp add: FreeClient_def cfree_cell w'_def h'_def)
  have "proxy_inv watched lfd N F w' (own |` (- {a, b}))"
    using inv_drop [OF w4(3) a, of b m' m1 h'] w2(4) w4(4) env m1(4) m'(4) bl
    by (simp add: w'_def h'_def b_def)
  moreover have "released w own a w'"
    using m1(2,3) m'(2,3) w2(4) w4(4) bl
    by (simp add: released_def Let_def b_def [symmetric] w'_def h'_def Int_commute) (auto simp: restrict_map_def fun_eq_iff)
  ultimately show ?thesis
    using run unfolding b_def [symmetric] by (intro exI [of _ w']) (simp add: w'_def)
qed

section \<open>Reading and sending\<close>

lemma read_loop_inv:
  assumes "proxy_inv watched lfd N F w own" "own a = Some (X, xs)" "fd = c_fd (pc w (peer w a))"
  shows "\<exists>e w' xs'. read_loop A w fd (Some a) = Some (e, w') \<and> clients w' = clients w \<and>
    proxy_inv watched lfd N F w' (own(a \<mapsto> (X, xs')))"
  using assms
proof (induction "16 * card X - length xs" arbitrary: w own xs rule: less_induct)
  case less
  note inv = less.prems(1) and a = less.prems(2)
  note I = proxy_invD [OF inv]
  have ad: "a \<in> dom own" using a by auto
  have cell: "cells (clients w) a = Some (pc w a)" by (rule end_cell [OF I(3) ad])
  have h: "bl_holds (bufs w) (c_blist (pc w a)) X xs" by (rule bufs_ok_holds [OF I(4) a])
  have same: "own(a \<mapsto> (X, xs)) = own" using a by auto
  obtain buf len where sp: "BufferListGetSpace (bufs w) (c_blist (pc w a)) = Some (buf, len)" "0 \<le> len"
    using buffer_list_space [OF h] .
  let ?w = "w\<lparr>calls := Suc (calls w)\<rparr>"
  show ?case
  proof (cases "\<exists>bs. buf \<noteq> None \<and> recv_of w (calls w) fd len = RData bs \<and> bs \<noteq> []")
    case False
    then have "\<exists>e w'. read_loop A w fd (Some a) = Some (e, w') \<and> (w' = w \<or> w' = ?w)"
      using cell sp by (subst read_loop.simps) (auto simp: Let_def split: recv_result.split)
    then obtain e w' where w': "read_loop A w fd (Some a) = Some (e, w')" "w' = w \<or> w' = ?w" by blast
    have "clients w' = clients w" using w'(2) by (elim disjE) simp_all
    moreover have "proxy_inv watched lfd N F w' own"
      using w'(2) by (elim disjE) (simp_all only: inv inv_calls)
    ultimately show ?thesis
      using w'(1) by (intro exI [of _ e] exI [of _ w'] exI [of _ xs]) (simp only: same simp_thms)
  next
    case True
    then obtain bs where bs: "buf \<noteq> None" "recv_of w (calls w) fd len = RData bs" "bs \<noteq> []" by blast
    have "int (length bs) \<le> len" using kernel_okD(1) [OF I(2) bs(2)] sp(2) by simp
    then obtain b1 b2 where b: "poke (bufs w) buf bs = Some b1"
        "BufferListPush b1 (c_blist (pc w a)) (int (length bs)) = Some b2"
        "proxy_inv watched lfd N F (?w\<lparr>delivered := delivered w @ [(fd, Some a, bs)], bufs := b2\<rparr>) (own(a \<mapsto> (X, xs @ bs)))"
      using inv_recv [of watched lfd N F ?w own a X xs buf len bs fd] inv a sp(1) bs(3) less.prems(3) by auto
    let ?w1 = "?w\<lparr>delivered := delivered w @ [(fd, Some a, bs)], bufs := b2\<rparr>"
    have ad1: "a \<in> dom (own(a \<mapsto> (X, xs @ bs)))" by simp
    obtain r w2 where w2: "create_event A ?w1 (c_fd (pc ?w1 a)) AE_WRITABLE SendOutcomeH (Some a) = Some (r, w2)"
      "w2 = ?w1\<lparr>el := el w2\<rparr>" "proxy_inv watched lfd N F w2 (own(a \<mapsto> (X, xs @ bs)))"
      using inv_create [OF b(3) ad1 refl, of AE_WRITABLE SendOutcomeH] by auto
    have cl: "clients w2 = clients w" by (subst w2(2)) simp
    obtain q where q: "buf = Some q" using bs(1) by blast
    have step: "read_loop A w fd (Some a) = read_loop A w2 fd (Some a)"
      using cell sp bs b w2(1) unfolding q
      by (subst read_loop.simps) (simp add: SetWriteEvent_def Let_def)
    have "length (xs @ bs) \<le> 16 * card X"
      using bl_holds_bound [OF bufs_ok_holds [OF proxy_invD(4) [OF b(3)], of a X "xs @ bs"]] by simp
    then have dec: "16 * card X - length (xs @ bs) < 16 * card X - length xs"
      using bs(3) by (cases bs) auto
    have fd: "fd = c_fd (pc w2 (peer w2 a))" using less.prems(3) same_clients [OF cl] by simp
    from less.hyps [OF dec w2(3) _ fd] show ?thesis using step cl by auto
  qed
qed

lemma remote_flags: "is_remote n \<Longrightarrow> c_flags n AND CLIENT_CLOSE_AFTER_SENT = 0"
  by (simp add: is_remote_def)

lemma end_kind: "ends_ok w D \<Longrightarrow> a \<in> D \<Longrightarrow> is_client (pc w a) \<or> is_remote (pc w a)"
  using end_okD [of w D a] by (auto simp: end_ok_def)

text \<open>One round of \<open>SendOutcome\<close> in which \<open>send\<close> takes \<open>n\<close> bytes.\<close>

lemma send_loop_step:
  assumes inv: "proxy_inv watched lfd N F w own" and a: "own a = Some (X, xs)" and fd: "fd = c_fd (pc w a)"
    and gd: "BufferListGetData (bufs w) (c_blist (pc w a)) = Some (Some q, len)" "0 < len" "len \<le> int (length xs)"
      "peek (bufs w) (Some q) len = Some (take (nat len) xs)"
    and n: "send_of w (calls w) fd (take (nat len) xs) = SSent n" "0 < n"
  obtains w1 where "send_loop A w fd (Some a) tot = (if tot + n > MAX_WRITE_PER_EVENT then Some (Idle, w1)
          else send_loop A w1 fd (Some a) (tot + n))"
    "proxy_inv watched lfd N F w1 (own(a \<mapsto> (X, drop (nat n) xs)))" "clients w1 = clients w" "send_of w1 = send_of w"
    "transmitted w1 = transmitted w @ [(fd, Some a, take (nat n) xs)]" "n \<le> int (length xs)" "fds w1 = fds w" "el w1 = el w"
    "bl_frame (c_blist (pc w a)) X (bufs w) (bufs w1)"
proof -
  have cell: "cells (clients w) a = Some (pc w a)"
    by (rule end_cell [OF proxy_invD(3) [OF inv]]) (use a in auto)
  let ?w = "w\<lparr>calls := Suc (calls w)\<rparr>"
  have nl: "n \<le> len" using kernel_okD(2) [OF proxy_invD(2) [OF inv] n(1)] gd(2) by simp
  obtain b where b: "peek (bufs w) (Some q) n = Some (take (nat n) xs)"
    "BufferListPop (bufs w) (c_blist (pc w a)) n = Some (b, False)"
    "proxy_inv watched lfd N F (?w\<lparr>transmitted := transmitted w @ [(fd, Some a, take (nat n) xs)], bufs := b\<rparr>)
      (own(a \<mapsto> (X, drop (nat n) xs)))" "bl_frame (c_blist (pc w a)) X (bufs w) b"
    using inv_send [of watched lfd N F ?w own a X xs "Some q" len n] inv a gd(1) n(2) nl fd by auto
  have "send_loop A w fd (Some a) tot = (if tot + n > MAX_WRITE_PER_EVENT
      then Some (Idle, ?w\<lparr>transmitted := transmitted w @ [(fd, Some a, take (nat n) xs)], bufs := b\<rparr>)
      else send_loop A (?w\<lparr>transmitted := transmitted w @ [(fd, Some a, take (nat n) xs)], bufs := b\<rparr>) fd (Some a) (tot + n))"
    using cell gd n b(1,2) by (subst send_loop.simps) (simp add: Let_def)
  then show thesis by (rule that [OF _ b(3)]) (use nl gd(3) b(4) in simp_all)
qed

lemma send_loop_inv:
  assumes "proxy_inv watched lfd N F w own" "own a = Some (X, xs)" "fd = c_fd (pc w a)"
  shows "\<exists>e w' xs'. send_loop A w fd (Some a) tot = Some (e, w') \<and>
    (if e = ClientGone then proxy_inv watched lfd N F w' (own |` (- {a, peer w a}))
     else clients w' = clients w \<and> proxy_inv watched lfd N F w' (own(a \<mapsto> (X, xs'))))"
  using assms
proof (induction "length xs" arbitrary: w own xs tot rule: less_induct)
  case less
  note inv = less.prems(1) and a = less.prems(2)
  note I = proxy_invD [OF inv]
  have ad: "a \<in> dom own" using a by auto
  have cell: "cells (clients w) a = Some (pc w a)" by (rule end_cell [OF I(3) ad])
  have h: "bl_holds (bufs w) (c_blist (pc w a)) X xs" by (rule bufs_ok_holds [OF I(4) a])
  have same: "own(a \<mapsto> (X, xs)) = own" using a by auto
  obtain buf len where gd: "BufferListGetData (bufs w) (c_blist (pc w a)) = Some (buf, len)" "buf = None \<longleftrightarrow> xs = []"
    "len \<le> int (length xs)" "xs \<noteq> [] \<Longrightarrow> 0 < len" "xs \<noteq> [] \<Longrightarrow> peek (bufs w) buf len = Some (take (nat len) xs)"
    by (rule bl_get_data [OF h]) (rule that)
  let ?w = "w\<lparr>calls := Suc (calls w)\<rparr>"
  have idle: ?case if r: "send_loop A w fd (Some a) tot = Some (e, w')" and w': "w' = w \<or> w' = ?w"
    and e: "e \<noteq> ClientGone" for e w'
  proof -
    have "clients w' = clients w" using w' by (elim disjE) simp_all
    moreover have "proxy_inv watched lfd N F w' own" using w' by (elim disjE) (simp_all only: inv inv_calls)
    ultimately show ?thesis
      using r e by (intro exI [of _ e] exI [of _ w'] exI [of _ xs]) (simp only: same if_False simp_thms)
  qed
  show ?case
  proof (cases "xs = []")
    case True
    show ?thesis
    proof (cases "c_flags (pc w a) AND CLIENT_CLOSE_AFTER_SENT = 0")
      case flag: True
      have "send_loop A w fd (Some a) tot = Some (Idle, w)"
        using cell gd(1,2) flag True by (subst send_loop.simps) simp
      then show ?thesis by (rule idle) simp_all
    next
      case False
      then have "is_client (pc w a)" using end_kind [OF I(3) ad] remote_flags by blast
      from FreeClient_inv [OF inv ad this] obtain w' where w': "FreeClient A w (Some a) = Some w'"
        "proxy_inv watched lfd N F w' (own |` (- {a, peer w a}))" by blast
      have "send_loop A w fd (Some a) tot = Some (ClientGone, w')"
        using cell gd(1,2) False True w'(1) by (subst send_loop.simps) simp
      then show ?thesis using w'(2) by (intro exI [of _ ClientGone] exI [of _ w']) simp
    qed
  next
    case False
    then obtain q where q: "buf = Some q" using gd(2) by blast
    define bs where "bs = take (nat len) xs"
    have pk: "peek (bufs w) (Some q) len = Some bs" using gd(5) False by (simp add: bs_def q)
    show ?thesis
    proof (cases "\<exists>n. send_of w (calls w) fd bs = SSent n \<and> 0 < n")
      case no: False
      have "\<exists>e. send_loop A w fd (Some a) tot = Some (e, ?w) \<and> e \<noteq> ClientGone"
        using cell gd(1) pk no unfolding q by (subst send_loop.simps) (auto simp: Let_def not_less split: send_result.split)
      then show ?thesis using idle by blast
    next
      case True
      then obtain n where n: "send_of w (calls w) fd bs = SSent n" "0 < n" by blast
      obtain w1 where w1: "send_loop A w fd (Some a) tot = (if tot + n > MAX_WRITE_PER_EVENT then Some (Idle, w1)
          else send_loop A w1 fd (Some a) (tot + n))"
        "proxy_inv watched lfd N F w1 (own(a \<mapsto> (X, drop (nat n) xs)))" "clients w1 = clients w"
        using send_loop_step [OF inv a less.prems(3) gd(1) [unfolded q] _ gd(3) _ n(1) [unfolded bs_def] n(2)] gd(4,5) False q
        by metis
      have eqs: "pc w1 = pc w" "peer w1 = peer w" using same_clients [OF w1(3)] by auto
      show ?thesis
      proof (cases "tot + n > MAX_WRITE_PER_EVENT")
        case True
        then show ?thesis using w1
          by (intro exI [of _ Idle] exI [of _ w1] exI [of _ "drop (nat n) xs"]) simp
      next
        case fit: False
        have dec: "length (drop (nat n) xs) < length xs" using n(2) False by (cases xs) auto
        have fd: "fd = c_fd (pc w1 a)" using less.prems(3) eqs by simp
        have own1: "(own(a \<mapsto> (X, drop (nat n) xs))) a = Some (X, drop (nat n) xs)" by simp
        from less.hyps [OF dec w1(2) own1 fd, of "tot + n"] w1(1,3) fit eqs
        show ?thesis by (auto simp: drop_upd split: if_splits)
      qed
    qed
  qed
qed

section \<open>The handlers\<close>

lemma inv_flag:
  assumes inv: "proxy_inv watched lfd N F w own" and a: "a \<in> dom own" and cl: "is_client (pc w a)"
    and h: "h = (clients w)\<lparr>cells := (cells (clients w))(a \<mapsto> (pc w a)\<lparr>c_flags := x\<rparr>)\<rparr>"
  shows "proxy_inv watched lfd N F (w\<lparr>clients := h\<rparr>) own"
proof -
  note I = proxy_invD [OF inv]
  let ?w = "w\<lparr>clients := h\<rparr>"
  have pc: "pc ?w = (pc w)(a := (pc w a)\<lparr>c_flags := x\<rparr>)" by (simp add: pc_def h fun_eq_iff)
  have f: "c_remote (pc ?w d) = c_remote (pc w d)" "c_fd (pc ?w d) = c_fd (pc w d)"
    "c_blist (pc ?w d) = c_blist (pc w d)" "is_client (pc ?w d) = is_client (pc w d)" for d
    by (simp_all add: pc is_client_def)
  have peer: "peer ?w = peer w" by (simp add: peer_def f fun_eq_iff)
  have excl: "\<not> is_remote (pc w a)" using cl by (simp add: is_client_def is_remote_def)
  have rem: "is_remote (pc w d) \<Longrightarrow> is_remote (pc ?w d)" for d using excl by (auto simp: pc)
  have "end_ok ?w (dom own) d" if "d \<in> dom own" for d
    using end_okD [OF I(3) that] rem unfolding end_ok_def peer f by (auto simp: h)
  then have "ends_ok ?w (dom own)" using ends_distinct [OF I(3)] unfolding ends_ok_def f by blast
  moreover have "bufs_ok ?w own" using I(4) by (simp add: bufs_ok_def f)
  moreover have "events_ok lfd ?w (dom own)" using I(5) by (simp add: events_ok_def event_ok_def f)
  moreover have "logs_ok ?w own" using I(6) unfolding logs_ok_def f peer by (simp add: h)
  moreover have "kernel_ok ?w"
    using I(2) heap_okD [OF kernel_okD(5) [OF I(2)] end_cell [OF I(3) a]] by (simp add: kernel_ok_def h)
  ultimately show ?thesis using I(1,7-9) by (simp add: proxy_inv_def f)
qed

lemma CloseAfterSent_inv:
  assumes inv: "proxy_inv watched lfd N F w own" and a: "a \<in> dom own" and cl: "is_client (pc w a)"
  shows "\<exists>w'. CloseAfterSent A w (Some a) = Some w' \<and>
    (if content own a = [] then proxy_inv watched lfd N F w' (own |` (- {a, peer w a})) \<and> released w own a w'
     else proxy_inv watched lfd N F w' own \<and> w' = w\<lparr>clients := clients w'\<rparr> \<and>
       cells (clients w') = (cells (clients w))(a \<mapsto> (pc w a)\<lparr>c_flags := c_flags (pc w a) OR CLIENT_CLOSE_AFTER_SENT\<rparr>))"
proof -
  note I = proxy_invD [OF inv]
  have cell: "cells (clients w) a = Some (pc w a)" by (rule end_cell [OF I(3) a])
  have h: "bl_holds (bufs w) (c_blist (pc w a)) (chunks_of own a) (content own a)" by (rule bufs_okD(2) [OF I(4) a])
  obtain buf len where gd: "BufferListGetData (bufs w) (c_blist (pc w a)) = Some (buf, len)" "buf = None \<longleftrightarrow> content own a = []"
    by (rule bl_get_data [OF h]) (rule that)
  show ?thesis
  proof (cases "content own a = []")
    case True
    then show ?thesis using FreeClient_inv [OF inv a cl] gd cell by (auto simp: CloseAfterSent_def)
  next
    case False
    define h where "h = (clients w)\<lparr>cells := (cells (clients w))(a \<mapsto> (pc w a)\<lparr>c_flags := c_flags (pc w a) OR CLIENT_CLOSE_AFTER_SENT\<rparr>)\<rparr>"
    obtain q where "buf = Some q" using False gd(2) by blast
    then have "CloseAfterSent A w (Some a) = Some (w\<lparr>clients := h\<rparr>)"
      using False gd cell by (simp add: CloseAfterSent_def h_def store_cell)
    moreover have "proxy_inv watched lfd N F (w\<lparr>clients := h\<rparr>) own" by (rule inv_flag [OF inv a cl h_def])
    moreover have "cells (clients (w\<lparr>clients := h\<rparr>)) = (cells (clients w))(a \<mapsto> (pc w a)\<lparr>c_flags := c_flags (pc w a) OR CLIENT_CLOSE_AFTER_SENT\<rparr>)"
      by (simp add: h_def)
    ultimately show ?thesis using False by (intro exI [of _ "w\<lparr>clients := h\<rparr>"]) simp
  qed
qed

text \<open>What the handlers rely on of \<open>RemoteDown\<close>; the versions of both programs meet it.\<close>

definition rd_keeps :: "'k remote_down \<Rightarrow> bool" where
  "rd_keeps rd \<longleftrightarrow> (\<forall>F w own r. proxy_inv watched lfd N F w own \<longrightarrow> r \<in> dom own \<longrightarrow> is_remote (pc w r) \<longrightarrow>
     (\<exists>w' own'. rd A w (Some r) = Some w' \<and> proxy_inv watched lfd N F w' own' \<and> left w own r own'))"

lemma RemoteDown_closes:
  assumes inv: "proxy_inv watched lfd N F w own" and r: "r \<in> dom own" "is_remote (pc w r)"
  shows "RemoteDown A w (Some r) = CloseAfterSent A w (Some (peer w r))" "is_client (pc w (peer w r))"
    "peer w r \<in> dom own" "peer w (peer w r) = r"
proof -
  note I = proxy_invD [OF inv]
  have E: "end_ok w (dom own) r" by (rule end_okD [OF I(3) r(1)])
  have "\<not> is_client (pc w r)" using r(2) by (auto simp: is_client_def is_remote_def)
  with E show c: "is_client (pc w (peer w r))" and d: "peer w r \<in> dom own" "peer w (peer w r) = r"
    by (auto simp: end_ok_def)
  show "RemoteDown A w (Some r) = CloseAfterSent A w (Some (peer w r))"
    using end_cell [OF I(3) r(1)] end_cell [OF I(3) d(1)] E c
    by (simp add: RemoteDown_def end_ok_def is_client_def)
qed

lemma rd_keeps_tp: "rd_keeps RemoteDown"
  unfolding rd_keeps_def
proof (intro allI impI)
  fix F w own r assume inv: "proxy_inv watched lfd N F w own" and r: "r \<in> dom own" "is_remote (pc w r)"
  note R = RemoteDown_closes [OF inv r]
  have "{peer w r, peer w (peer w r)} = {r, peer w r}" using R(4) by auto
  with CloseAfterSent_inv [OF inv R(3,2)] R(1)
  show "\<exists>w' own'. RemoteDown A w (Some r) = Some w' \<and> proxy_inv watched lfd N F w' own' \<and> left w own r own'"
    unfolding left_def by (metis (no_types, lifting))
qed

lemma rd_keeps_bak: "rd_keeps bak_RemoteDown"
  by (auto simp: rd_keeps_def bak_RemoteDown_def left_def)

lemma OnError_inv:
  assumes rd: "rd_keeps rd" and inv: "proxy_inv watched lfd N F w own" and a: "a \<in> dom own"
  shows "\<exists>w' own'. call_OnError rd A w (Some a) = Some w' \<and> proxy_inv watched lfd N F w' own' \<and> left w own a own'"
proof -
  note I = proxy_invD [OF inv]
  have cell: "cells (clients w) a = Some (pc w a)" by (rule end_cell [OF I(3) a])
  from end_kind [OF I(3) a] show ?thesis
  proof
    assume c: "is_client (pc w a)"
    then have "call_OnError rd A w (Some a) = FreeClient A w (Some a)"
      using cell by (simp add: call_OnError_def is_client_def)
    with FreeClient_inv [OF inv a c] show ?thesis unfolding left_def by metis
  next
    assume r: "is_remote (pc w a)"
    then have "call_OnError rd A w (Some a) = rd A w (Some a)"
      using cell by (simp add: call_OnError_def is_remote_def)
    with rd inv a r show ?thesis unfolding rd_keeps_def by metis
  qed
qed

lemma ReadIncome_inv:
  assumes rd: "rd_keeps rd" and inv: "proxy_inv watched lfd N F w own" and a: "a \<in> dom own"
  shows "\<exists>w' own'. ReadIncome_with rd A w (c_fd (pc w a)) (Some a) = Some w' \<and> proxy_inv watched lfd N F w' own'"
proof -
  note I = proxy_invD [OF inv]
  define r where "r = peer w a"
  have E: "end_ok w (dom own) a" by (rule end_okD [OF I(3) a])
  then have r: "r \<in> dom own" "peer w r = a" "c_remote (pc w a) = Some r" by (auto simp: end_ok_def r_def)
  obtain X xs where o: "own r = Some (X, xs)" using r(1) by auto
  have "c_fd (pc w a) = c_fd (pc w (peer w r))" using r(2) by simp
  from read_loop_inv [OF inv o this] obtain e w1 xs' where w1: "read_loop A w (c_fd (pc w a)) (Some r) = Some (e, w1)"
    "clients w1 = clients w" "proxy_inv watched lfd N F w1 (own(r \<mapsto> (X, xs')))" by blast
  have a1: "a \<in> dom (own(r \<mapsto> (X, xs')))" using a by simp
  have run: "ReadIncome_with rd A w (c_fd (pc w a)) (Some a) = (if e then call_OnError rd A w1 (Some a) else Some w1)"
    using end_cell [OF I(3) a] r(3) w1(1) by (simp add: ReadIncome_with_def)
  show ?thesis
  proof (cases e)
    case True
    then show ?thesis using OnError_inv [OF rd w1(3) a1] run by auto
  next
    case False
    then show ?thesis using run w1(3) by auto
  qed
qed

lemma SendOutcome_inv:
  assumes rd: "rd_keeps rd" and inv: "proxy_inv watched lfd N F w own" and a: "a \<in> dom own"
  shows "\<exists>w' own'. SendOutcome_with rd A w (c_fd (pc w a)) (Some a) = Some w' \<and> proxy_inv watched lfd N F w' own'"
proof -
  note I = proxy_invD [OF inv]
  have h: "bl_holds (bufs w) (c_blist (pc w a)) (chunks_of own a) (content own a)" by (rule bufs_okD(2) [OF I(4) a])
  obtain buf len where gd: "BufferListGetData (bufs w) (c_blist (pc w a)) = Some (buf, len)"
    by (rule bl_get_data [OF h]) (rule that)
  have nn: "0 \<le> c_fd (pc w a)" using end_okD [OF I(3) a] by (simp add: end_ok_def)
  obtain l where l: "(if buf = None then delete_event A w (c_fd (pc w a)) AE_WRITABLE else Some w) = Some (w\<lparr>el := l\<rparr>)"
    "proxy_inv watched lfd N F (w\<lparr>el := l\<rparr>) own"
  proof (cases "buf = None")
    case True
    with inv_delete [OF inv nn, of AE_WRITABLE] obtain w1 where
      "delete_event A w (c_fd (pc w a)) AE_WRITABLE = Some w1" "w1 = w\<lparr>el := el w1\<rparr>" "proxy_inv watched lfd N F w1 own"
      by (auto simp: AE_defs)
    then show thesis using that [of "el w1"] True by simp
  next
    case False
    then obtain q where "buf = Some q" by blast
    then show thesis using that [of "el w"] inv by simp
  qed
  let ?w = "w\<lparr>el := l\<rparr>"
  obtain X xs where o: "own a = Some (X, xs)" using a by auto
  have "c_fd (pc w a) = c_fd (pc ?w a)" by simp
  from send_loop_inv [OF l(2) o this, of 0] obtain e w1 xs' where w1:
    "send_loop A ?w (c_fd (pc w a)) (Some a) 0 = Some (e, w1)"
    "if e = ClientGone then proxy_inv watched lfd N F w1 (own |` (- {a, peer ?w a}))
     else clients w1 = clients ?w \<and> proxy_inv watched lfd N F w1 (own(a \<mapsto> (X, xs')))" by blast
  have run: "SendOutcome_with rd A w (c_fd (pc w a)) (Some a) =
      (if e = SendFailed then call_OnError rd A w1 (Some a) else Some w1)"
    using end_cell [OF I(3) a] gd l(1) w1(1) by (simp add: SendOutcome_with_def split: send_end.split)
  show ?thesis
  proof (cases "e = SendFailed")
    case True
    then have "proxy_inv watched lfd N F w1 (own(a \<mapsto> (X, xs')))" using w1(2) by simp
    from OnError_inv [OF rd this, of a] show ?thesis using True run by auto
  next
    case False
    then show ?thesis using run w1(2) by (cases "e = ClientGone") auto
  qed
qed

end

end
