(* ===== verification/Proxy_Accept.thy ===== *)
theory Proxy_Accept
  imports Proxy_Correct
begin

text \<open>
  Accepting a connection: either a new pair of ends joins the proxy, or nothing does, and the
  accepted descriptor is closed again.
\<close>

section \<open>Growing the world\<close>

text \<open>New blocks and descriptors do not disturb the connections that exist.\<close>

lemma inv_grow:
  assumes inv: "proxy_inv watched lfd N F w own"
    and h: "\<And>x. x < brk (clients w) \<Longrightarrow> cells h' x = cells (clients w) x" "brk (clients w) \<le> brk h'"
      "env h' = env (clients w)" "heap_ok h'"
    and m: "\<And>x. x < brk (lists (bufs w)) \<Longrightarrow> cells (lists m') x = cells (lists (bufs w)) x"
      "\<And>x. x < brk (nodes (bufs w)) \<Longrightarrow> cells (nodes m') x = cells (nodes (bufs w)) x" "bl_env m'"
    and S: "lfd \<in> S" "\<And>d. d \<in> dom own \<Longrightarrow> c_fd (pc w d) \<in> S"
  shows "proxy_inv watched lfd N F (w\<lparr>clients := h', bufs := m', fds := S\<rparr>) own"
    (is "proxy_inv _ _ _ _ ?w _")
proof -
  note I = proxy_invD [OF inv]
  have lt: "d < brk (clients w)" if "d \<in> dom own" for d
    using heap_okD [OF kernel_okD(5) [OF I(2)] end_cell [OF I(3) that]] .
  have pc: "pc ?w d = pc w d" "peer ?w d = peer w d" if "d \<in> dom own" for d
    using h(1) [OF lt [OF that]] by (simp_all add: pc_def peer_def)
  have pd: "peer w d \<in> dom own" if "d \<in> dom own" for d using end_okD [OF I(3) that] by (simp add: end_ok_def)
  have "end_ok ?w (dom own) d" if d: "d \<in> dom own" for d
    using end_okD [OF I(3) d] pc [OF d] pc [OF pd [OF d]] h(1) [OF lt [OF d]] S(2) [OF d] by (auto simp: end_ok_def)
  then have "ends_ok ?w (dom own)" using I(3) pc by (simp add: ends_ok_def)
  moreover have "bl_holds m' (c_blist (pc w d)) (chunks_of own d) (content own d)" if d: "d \<in> dom own" for d
  proof (rule bl_holds_cong [OF bufs_okD(2) [OF I(4) d]])
    note B = bl_holds_below [OF bufs_okD(1) [OF I(4)] bufs_okD(2) [OF I(4) d]]
    show "cells (lists m') l = cells (lists (bufs w)) l" if "c_blist (pc w d) = Some l" for l
      using B(2) that m(1) by auto
    show "cells (nodes m') x = cells (nodes (bufs w)) x" if "x \<in> chunks_of own d" for x
      using B(1) [OF that] m(2) by auto
  qed
  then have "bufs_ok ?w own" using I(4) m(3) pc by (simp add: bufs_ok_def)
  moreover have "events_ok lfd ?w (dom own)"
    using I(5) pc by (simp add: events_ok_def event_ok_def)
  moreover have "\<exists>a. p = Some a \<and> a < brk h'" if "(f, p, bs) \<in> set (delivered w) \<union> set (transmitted w)" for f p bs
    using logs_okD(2) [OF I(6) that] h(2) by (auto intro: less_le_trans)
  then have "logs_ok ?w own"
    using logs_okD(1) [OF I(6)] pc pd unfolding logs_ok_def by auto
  moreover have "kernel_ok ?w" using I(2) h(3,4) by (simp add: kernel_ok_def)
  ultimately show ?thesis using I(1,7-9) S(1) pc by (auto simp: proxy_inv_def)
qed

text \<open>Two finished ends that nothing else uses become a connection.\<close>

lemma inv_pair:
  assumes inv: "proxy_inv watched lfd N F w own"
    and ab: "a \<notin> dom own" "b \<notin> dom own" "a \<noteq> b"
    and ca: "cells (clients w) a = Some na" "c_remote na = Some b" "is_client na" "0 \<le> c_fd na" "c_fd na \<in> fds w"
    and cb: "cells (clients w) b = Some nb" "c_remote nb = Some a" "is_remote nb" "0 \<le> c_fd nb" "c_fd nb \<in> fds w"
    and fd: "c_fd na \<noteq> c_fd nb" "c_fd na \<noteq> lfd" "c_fd nb \<noteq> lfd"
      "\<And>d. d \<in> dom own \<Longrightarrow> c_fd (pc w d) \<noteq> c_fd na \<and> c_fd (pc w d) \<noteq> c_fd nb"
    and bl: "c_blist na \<noteq> c_blist nb" "\<And>d. d \<in> dom own \<Longrightarrow> c_blist (pc w d) \<noteq> c_blist na \<and> c_blist (pc w d) \<noteq> c_blist nb"
    and h: "bl_holds (bufs w) (c_blist na) X []" "bl_holds (bufs w) (c_blist nb) Y []" "X \<inter> Y = {}"
      "\<And>d. d \<in> dom own \<Longrightarrow> chunks_of own d \<inter> X = {} \<and> chunks_of own d \<inter> Y = {}"
    and lg: "\<And>f p bs. (f, p, bs) \<in> set (delivered w) \<union> set (transmitted w) \<Longrightarrow> p \<noteq> Some a \<and> p \<noteq> Some b"
  shows "proxy_inv watched lfd N F w (own(a \<mapsto> (X, []), b \<mapsto> (Y, [])))"
    (is "proxy_inv _ _ _ _ _ ?own")
proof -
  note I = proxy_invD [OF inv]
  have pc: "pc w a = na" "pc w b = nb" "peer w a = b" "peer w b = a"
    using ca(1,2) cb(1,2) by (simp_all add: pc_def peer_def)
  have D: "dom ?own = insert a (insert b (dom own))" by auto
  have cont: "content ?own d = (if d = a \<or> d = b then [] else content own d)"
    "chunks_of ?own d = (if d = a then X else if d = b then Y else chunks_of own d)" for d
    using ab(3) by auto
  have "end_ok w (dom ?own) d" if "d \<in> dom own" for d
    using end_okD [OF I(3) that] unfolding D by (auto simp: end_ok_def)
  moreover have "end_ok w (dom ?own) a" "end_ok w (dom ?own) b"
    using ab(3) ca cb pc unfolding D by (auto simp: end_ok_def)
  moreover have "c_fd (pc w d) \<noteq> c_fd (pc w e) \<and> c_blist (pc w d) \<noteq> c_blist (pc w e)"
    if "d \<in> dom ?own" "e \<in> dom ?own" "d \<noteq> e" for d e
    using that fd(1,4) bl ends_distinct [OF I(3), of d e] ab unfolding D
    by (elim insertE; simp add: pc; metis)
  ultimately have "ends_ok w (dom ?own)" unfolding ends_ok_def D by blast
  moreover have "bufs_ok w ?own"
    unfolding bufs_ok_def D cont
  proof (intro conjI)
    show "bl_env (bufs w)" by (rule bufs_okD(1) [OF I(4)])
    show "\<forall>d\<in>insert a (insert b (dom own)). bl_holds (bufs w) (c_blist (pc w d))
       (if d = a then X else if d = b then Y else chunks_of own d) (if d = a \<or> d = b then [] else content own d)"
      using bufs_okD(2) [OF I(4)] h(1,2) pc ab by auto
    show "\<forall>d\<in>insert a (insert b (dom own)). \<forall>e\<in>insert a (insert b (dom own)). d \<noteq> e \<longrightarrow>
       (if d = a then X else if d = b then Y else chunks_of own d) \<inter>
       (if e = a then X else if e = b then Y else chunks_of own e) = {}"
      using bufs_okD(3) [OF I(4)] h(3,4) ab by (auto simp: Int_commute) 
  qed
  moreover have "events_ok lfd w (dom ?own)"
    using I(5) unfolding events_ok_def event_ok_def D by blast
  moreover have "bytes_at f a (delivered w) = []" "bytes_at f a (transmitted w) = []"
     "bytes_at f b (delivered w) = []" "bytes_at f b (transmitted w) = []" for f
    using lg by (auto intro!: bytes_at_fresh)
  then have "logs_ok w ?own"
    using I(6) pc cont ab unfolding logs_ok_def D by auto
  ultimately show ?thesis using I fd pc unfolding proxy_inv_def D by auto
qed

section \<open>Running the allocation\<close>

text \<open>The heap after a block at the break has been handed out and filled with \<open>n\<close>.\<close>

definition with_new :: "'n heap \<Rightarrow> 'n \<Rightarrow> 'n heap" where
  "with_new h n = h\<lparr>cells := (cells h)(brk h \<mapsto> n), brk := Suc (brk h)\<rparr>"

lemma remote_cases:
  assumes "remote_name (proxy_policy w) \<noteq> None"
  obtains h a s where "aread (hosts (proxy_policy w)) 0 = Some h" "addr h = Some a" "c_string a = Some s"
    "connect_first w k S = connect_of w k s (port h) S"
proof -
  obtain h a s where h: "aread (hosts (proxy_policy w)) 0 = Some h" "addr h = Some a" "c_string a = Some s"
    using assms by (auto simp: remote_name_def bind_eq_Some_conv)
  moreover have "h = hosts (proxy_policy w) ! 0" using aread_SomeD [OF h(1)] by simp
  ultimately show thesis using that by (simp add: connect_first_def remote_name_def)
qed

lemma AllocRemote_refused:
  assumes "env (clients w) (brk (clients w)) = Some n" "remote_name (proxy_policy w) \<noteq> None"
    and "connect_first w (calls w) (fds w) = -1"
  shows "AllocRemote A w cp = Some (None, w\<lparr>clients := with_new (clients w) (n\<lparr>c_flags := 0\<rparr>), calls := Suc (calls w)\<rparr>)"
proof -
  obtain h a s where "aread (hosts (proxy_policy w)) 0 = Some h" "addr h = Some a" "c_string a = Some s"
    "connect_first w (calls w) (fds w) = connect_of w (calls w) s (port h) (fds w)"
    by (rule remote_cases [OF assms(2)])
  with assms(1,3) show ?thesis by (simp add: AllocRemote_def cmalloc_def store_def with_new_def open_fd_def)
qed

lemma AllocRemote_connected:
  assumes "env (clients w) (brk (clients w)) = Some n" "remote_name (proxy_policy w) \<noteq> None"
    and "fd = connect_first w (calls w) (fds w)" "fd \<noteq> -1" "AllocBufferList (bufs w) 3 = Some (l, b)"
    and "aeCreateFileEvent A (el w) fd AE_READABLE ReadIncomeH (Some (brk (clients w))) = Some (e, l')"
    and "n' = n\<lparr>c_flags := 0, c_fd := fd, c_remote := cp, OnError := Some RemoteDownCB, c_blist := l\<rparr>"
  shows "AllocRemote A w cp = Some (if e = AE_ERR
    then (None, w\<lparr>clients := with_new (clients w) n', calls := Suc (calls w), fds := insert fd (fds w) - {fd}, bufs := b, el := l'\<rparr>)
    else (Some (brk (clients w)), w\<lparr>clients := with_new (clients w) n', calls := Suc (calls w),
      fds := insert fd (fds w), bufs := b, el := l'\<rparr>))"
proof -
  obtain h a s where "aread (hosts (proxy_policy w)) 0 = Some h" "addr h = Some a" "c_string a = Some s"
    "connect_first w (calls w) (fds w) = connect_of w (calls w) s (port h) (fds w)"
    by (rule remote_cases [OF assms(2)])
  with assms(1,3-) show ?thesis
    by (simp add: AllocRemote_def cmalloc_def store_def with_new_def open_fd_def close_fd_def create_event_def Let_def)
qed

lemma AllocClient_run:
  assumes "env (clients w) c = Some n" "c = brk (clients w)" "AllocBufferList (bufs w) 3 = Some (l, b)"
    and "n1 = n\<lparr>c_flags := 0, c_fd := fd, c_blist := l\<rparr>"
    and "AllocRemote A (w\<lparr>clients := with_new (clients w) n1, bufs := b\<rparr>) (Some c) = Some (r, w1)"
    and "cells (clients w1) c = Some n1"
    and "h = (clients w1)\<lparr>cells := (cells (clients w1))(c \<mapsto> n1\<lparr>c_remote := r, OnError := Some FreeClientCB,
      OnRemoteDown := Some CloseAfterSentCB\<rparr>)\<rparr>"
  shows "AllocClient A w fd = Some (if r = None
    then (None, w1\<lparr>clients := h\<lparr>cells := (cells h)(c := None)\<rparr>, fds := fds w1 - {fd}\<rparr>)
    else (Some c, w1\<lparr>clients := h\<rparr>))"
  using assms
  by (cases r) (simp_all add: AllocClient_def cmalloc_def store_def with_new_def close_fd_def cfree_def Let_def)

section \<open>The invariant\<close>

lemma below_cells:
  assumes "proxy_inv watched lfd N F w own" "d \<in> dom own"
  shows "d < brk (clients w)" "\<exists>l. c_blist (pc w d) = Some l \<and> l < brk (lists (bufs w))"
    "x \<in> chunks_of own d \<Longrightarrow> x < brk (nodes (bufs w))"
proof -
  note I = proxy_invD [OF assms(1)]
  show "d < brk (clients w)" by (rule heap_okD [OF kernel_okD(5) [OF I(2)] end_cell [OF I(3) assms(2)]])
  note B = bl_holds_below [OF bufs_okD(1) [OF I(4)] bufs_okD(2) [OF I(4) assms(2)]]
  show "\<exists>l. c_blist (pc w d) = Some l \<and> l < brk (lists (bufs w))" by (rule B(2))
  show "x \<in> chunks_of own d \<Longrightarrow> x < brk (nodes (bufs w))" by (rule B(1))
qed

context proxy_loop
begin

lemma AllocClient_inv:
  assumes inv: "proxy_inv watched lfd N F w own"
    and fd: "fd \<in> fds w" "0 \<le> fd" "fd \<noteq> lfd" "\<And>d. d \<in> dom own \<Longrightarrow> c_fd (pc w d) \<noteq> fd"
  shows "\<exists>w'. AllocClient A w fd = Some (None, w') \<and> proxy_inv watched lfd N F w' own \<and> fds w' = fds w - {fd} \<and>
      cells (clients w') (Suc (brk (clients w))) \<noteq> None \<and> cells (lists (bufs w')) (brk (lists (bufs w))) \<noteq> None \<and>
      (connect_first w (calls w) (fds w) = -1 \<or> (\<exists>l. aeCreateFileEvent A (el w) (connect_first w (calls w) (fds w))
         AE_READABLE ReadIncomeH (Some (Suc (brk (clients w)))) = Some (AE_ERR, l))) \<or>
    (\<exists>c r X Y. AllocClient A w fd = Some (Some c, w') \<and> c \<notin> dom own \<and> r \<notin> dom own \<and> c \<noteq> r \<and>
       proxy_inv watched lfd N F w' (own(c \<mapsto> (X, []), r \<mapsto> (Y, []))) \<and>
       c_fd (pc w' c) = fd \<and> is_client (pc w' c) \<and> peer w' c = r \<and>
       c_fd (pc w' r) = connect_first w (calls w) (fds w) \<and> connect_first w (calls w) (fds w) \<noteq> -1 \<and>
       reg_mask (el w') = (reg_mask (el w))(c_fd (pc w' r) := reg_mask (el w) (c_fd (pc w' r)) OR AE_READABLE))"
proof -
  note I = proxy_invD [OF inv]
  define c r where "c = brk (clients w)" and "r = Suc c"
  obtain n where n: "env (clients w) c = Some n" using kernel_okD(6) [OF I(2)] by blast
  obtain n0 where n0: "env (clients w) r = Some n0" using kernel_okD(6) [OF I(2)] by blast
  define l where "l = brk (lists (bufs w))"
  obtain b X where b: "AllocBufferList (bufs w) 3 = Some (Some l, b)" "bl_holds b (Some l) X []" "bl_env b"
    "\<And>x. x \<in> X \<Longrightarrow> brk (nodes (bufs w)) \<le> x"
    "\<And>x. x < brk (nodes (bufs w)) \<Longrightarrow> cells (nodes b) x = cells (nodes (bufs w)) x"
    "\<And>x. x \<noteq> l \<Longrightarrow> cells (lists b) x = cells (lists (bufs w)) x"
    "brk (lists b) = Suc l" "brk (nodes (bufs w)) \<le> brk (nodes b)"
    using AllocBufferList_holds [OF bufs_okD(1) [OF I(4)], of 3] unfolding l_def by blast
  obtain b2 Y where b2: "AllocBufferList b 3 = Some (Some (Suc l), b2)" "bl_holds b2 (Some (Suc l)) Y []" "bl_env b2"
    "\<And>x. x \<in> Y \<Longrightarrow> brk (nodes b) \<le> x"
    "\<And>x. x < brk (nodes b) \<Longrightarrow> cells (nodes b2) x = cells (nodes b) x"
    "\<And>x. x \<noteq> Suc l \<Longrightarrow> cells (lists b2) x = cells (lists b) x"
    using AllocBufferList_holds [OF b(3), of 3] unfolding b(7) by blast
  define n1 where "n1 = n\<lparr>c_flags := 0, c_fd := fd, c_blist := Some l\<rparr>"
  define w0 where "w0 = w\<lparr>clients := with_new (clients w) n1, bufs := b\<rparr>"
  define nr where "nr p = n1\<lparr>c_remote := p, OnError := Some FreeClientCB, OnRemoteDown := Some CloseAfterSentCB\<rparr>" for p
  have w0: "env (clients w0) (brk (clients w0)) = Some n0" "remote_name (proxy_policy w0) \<noteq> None" "brk (clients w0) = r"
    using n0 I(9) by (simp_all add: w0_def with_new_def r_def c_def)
  define f where "f = connect_first w (calls w) (fds w)"
  have f: "connect_first w0 (calls w0) (fds w0) = f" by (simp add: w0_def f_def)
  have lb: "cells (lists b) l \<noteq> None" "cells (lists b2) l \<noteq> None"
    using b(2) b2(6) [of l] by (auto simp: bl_holds_def bl_rep_def)
  have hok: "heap_ok (clients w)" by (rule kernel_okD(5) [OF I(2)])
  have S: "c_fd (pc w d) \<in> fds w" if "d \<in> dom own" for d
    using end_okD [OF I(3) that] by (simp add: end_ok_def)
  have grow: "proxy_inv watched lfd N F (w\<lparr>calls := k, clients := h', bufs := m', fds := fds'\<rparr>) own"
    if h': "\<And>x. x < c \<Longrightarrow> cells h' x = cells (clients w) x" "c \<le> brk h'" "env h' = env (clients w)" "heap_ok h'"
      and m': "m' = b \<or> m' = b2" and S': "fds w - {fd} \<subseteq> fds'" for k h' m' fds'
  proof -
    have old: "cells (lists m') x = cells (lists (bufs w)) x" if "x < l" for x
      using m' that b(6) [of x] b2(6) [of x] by auto
    have old': "cells (nodes m') x = cells (nodes (bufs w)) x" if "x < brk (nodes (bufs w))" for x
      using m' that b(5) [of x] b2(5) [of x] b(8) by auto
    have "proxy_inv watched lfd N F (w\<lparr>calls := k\<rparr>) own" using inv by simp
    moreover have "lfd \<in> fds'" "\<And>d. d \<in> dom own \<Longrightarrow> c_fd (pc w d) \<in> fds'"
      using S S' I(7) fd(3,4) by blast+
    moreover have "bl_env m'" using m' b(3) b2(3) by auto
    ultimately show ?thesis
      using inv_grow [of watched lfd N F "w\<lparr>calls := k\<rparr>" own h' m' fds'] h' old old' unfolding c_def l_def by simp
  qed
  show ?thesis
  proof (cases "f = -1")
    case True
    define w1 where "w1 = w0\<lparr>clients := with_new (clients w0) (n0\<lparr>c_flags := 0\<rparr>), calls := Suc (calls w0)\<rparr>"
    have r1: "AllocRemote A w0 (Some c) = Some (None, w1)"
      unfolding w1_def by (rule AllocRemote_refused [OF w0(1,2)]) (simp add: f True)
    have c1: "cells (clients w1) c = Some n1" by (simp add: w1_def w0_def with_new_def c_def)
    define h where "h = (clients w1)\<lparr>cells := (cells (clients w1))(c \<mapsto> nr None)\<rparr>"
    define h' where "h' = h\<lparr>cells := (cells h)(c := None)\<rparr>"
    have run: "AllocClient A w fd = Some (None, w1\<lparr>clients := h', fds := fds w1 - {fd}\<rparr>)"
      using AllocClient_run [OF n c_def b(1) n1_def r1 [unfolded w0_def] c1 h_def [unfolded nr_def]]
      by (simp add: h'_def)
    let ?W = "w\<lparr>calls := Suc (calls w), clients := h', bufs := b, fds := fds w - {fd}\<rparr>"
    have w1: "w1\<lparr>clients := h', fds := fds w1 - {fd}\<rparr> = ?W" by (simp add: w1_def w0_def)
    have g: "proxy_inv watched lfd N F ?W own"
      using hok by (intro grow) (auto simp: h'_def h_def w1_def w0_def with_new_def c_def heap_ok_def)
    have "cells (clients ?W) (Suc (brk (clients w))) \<noteq> None" "cells (lists (bufs ?W)) (brk (lists (bufs w))) \<noteq> None"
      using lb(1) by (simp_all add: h'_def h_def w1_def w0_def with_new_def c_def l_def)
    then show ?thesis
      using run g True unfolding w1 f_def by (intro exI [of _ ?W] disjI1 conjI) simp_all
  next
    case False
    then have ff: "0 \<le> f" "f \<notin> fds w" using connect_first_fresh [OF I(2)] unfolding f_def by blast+
    have m1: "mask_ok AE_READABLE" "AE_READABLE \<noteq> 0" by (simp_all add: AE_defs)
    obtain e l' where ev: "aeCreateFileEvent A (el w) f AE_READABLE ReadIncomeH (Some r) = Some (e, l')"
      "loop_ok watched N F l'" "e = AE_ERR \<longrightarrow> events l' = events (el w)"
      using create_loop [OF I(1) ff(1) m1, of ReadIncomeH "Some r"] by (auto simp: AE_defs)
    define n' where "n' = n0\<lparr>c_flags := 0, c_fd := f, c_remote := Some c, OnError := Some RemoteDownCB, c_blist := Some (Suc l)\<rparr>"
    have ar: "AllocRemote A w0 (Some c) = Some (if e = AE_ERR
        then (None, w0\<lparr>clients := with_new (clients w0) n', calls := Suc (calls w0), fds := insert f (fds w0) - {f}, bufs := b2, el := l'\<rparr>)
        else (Some (brk (clients w0)), w0\<lparr>clients := with_new (clients w0) n', calls := Suc (calls w0),
          fds := insert f (fds w0), bufs := b2, el := l'\<rparr>))"
      by (rule AllocRemote_connected [OF w0(1,2) f [symmetric] False])
        (use b2(1) ev(1) w0(3) in \<open>simp_all add: w0_def n'_def\<close>)
    have cells: "cells (with_new (clients w0) n') c = Some n1" by (simp add: w0_def with_new_def c_def)
    show ?thesis
    proof (cases "e = AE_ERR")
      case True
      define w1 where "w1 = w0\<lparr>clients := with_new (clients w0) n', calls := Suc (calls w0), fds := insert f (fds w0) - {f}, bufs := b2, el := l'\<rparr>"
      have r1: "AllocRemote A w0 (Some c) = Some (None, w1)" using ar True by (simp add: w1_def)
      have c1: "cells (clients w1) c = Some n1" using cells by (simp add: w1_def)
      define h where "h = (clients w1)\<lparr>cells := (cells (clients w1))(c \<mapsto> nr None)\<rparr>"
      define h' where "h' = h\<lparr>cells := (cells h)(c := None)\<rparr>"
      have run: "AllocClient A w fd = Some (None, w1\<lparr>clients := h', fds := fds w1 - {fd}\<rparr>)"
        using AllocClient_run [OF n c_def b(1) n1_def r1 [unfolded w0_def] c1 h_def [unfolded nr_def]]
        by (simp add: h'_def)
      let ?W = "w\<lparr>calls := Suc (calls w), clients := h', bufs := b2, fds := fds w - {fd}\<rparr>"
      have w1: "w1\<lparr>clients := h', fds := fds w1 - {fd}\<rparr> = ?W\<lparr>el := l'\<rparr>"
        using ff(2) by (simp add: w1_def w0_def)
      have g: "proxy_inv watched lfd N F ?W own"
        using hok by (intro grow) (auto simp: h'_def h_def w1_def w0_def with_new_def c_def heap_ok_def)
      have "events_ok lfd (?W\<lparr>el := l'\<rparr>) (dom own)"
        using proxy_invD(5) [OF g] ev(3) True by (simp add: events_ok_def event_ok_def)
      from inv_el [OF g ev(2) this] have "proxy_inv watched lfd N F (?W\<lparr>el := l'\<rparr>) own" .
      moreover have "cells (clients (?W\<lparr>el := l'\<rparr>)) (Suc (brk (clients w))) \<noteq> None"
        "cells (lists (bufs (?W\<lparr>el := l'\<rparr>))) (brk (lists (bufs w))) \<noteq> None"
        using lb(2) by (simp_all add: h'_def h_def w1_def w0_def with_new_def c_def l_def)
      ultimately show ?thesis
        using run ev(1) True unfolding w1 f_def r_def c_def
        by - (rule exI [of _ "?W\<lparr>el := l'\<rparr>"], rule disjI1, simp)
    next
      case ok: False
      define w1 where "w1 = w0\<lparr>clients := with_new (clients w0) n', calls := Suc (calls w0), fds := insert f (fds w0), bufs := b2, el := l'\<rparr>"
      have r1: "AllocRemote A w0 (Some c) = Some (Some r, w1)" using ar ok w0(3) by (simp add: w1_def)
      have c1: "cells (clients w1) c = Some n1" using cells by (simp add: w1_def)
      define h where "h = (clients w1)\<lparr>cells := (cells (clients w1))(c \<mapsto> nr (Some r))\<rparr>"
      have run: "AllocClient A w fd = Some (Some c, w1\<lparr>clients := h\<rparr>)"
        using AllocClient_run [OF n c_def b(1) n1_def r1 [unfolded w0_def] c1 h_def [unfolded nr_def]] by simp
      let ?W = "w\<lparr>calls := Suc (calls w), clients := h, bufs := b2, fds := insert f (fds w)\<rparr>"
      let ?own = "own(c \<mapsto> (X, []), r \<mapsto> (Y, []))"
      have w1: "w1\<lparr>clients := h\<rparr> = ?W\<lparr>el := l'\<rparr>" by (simp add: w1_def w0_def)
      have g: "proxy_inv watched lfd N F ?W own"
        using hok by (intro grow) (auto simp: h_def w1_def w0_def with_new_def c_def heap_ok_def)
      have hc: "cells h c = Some (nr (Some r))" "cells h r = Some n'"
        by (simp_all add: h_def w1_def w0_def with_new_def c_def r_def)
      have cr: "c \<notin> dom own" "r \<notin> dom own" "c \<noteq> r"
        using below_cells(1) [OF inv] unfolding c_def r_def by force+
      have pcW: "pc ?W d = pc w d" if "d \<in> dom own" for d
        using below_cells(1) [OF inv that] by (simp add: pc_def h_def w1_def w0_def with_new_def c_def)
      have XY: "X \<inter> Y = {}" using bl_holds_below(1) [OF b(3,2)] b2(4) by force
      have bX: "bl_holds b2 (Some l) X []"
        by (rule bl_holds_cong [OF b(2)]) (use b2(5,6) bl_holds_below(1) [OF b(3,2)] in auto)
      have pair: "proxy_inv watched lfd N F ?W ?own"
      proof (rule inv_pair [OF g cr, where na = "nr (Some r)" and nb = n'])
        show "cells (clients ?W) c = Some (nr (Some r))" "cells (clients ?W) r = Some n'" using hc by simp_all
        show "chunks_of own d \<inter> X = {} \<and> chunks_of own d \<inter> Y = {}" if "d \<in> dom own" for d
          using below_cells(3) [OF inv that] b(4,8) b2(4) by force
        show "c_blist (pc ?W d) \<noteq> c_blist (nr (Some r)) \<and> c_blist (pc ?W d) \<noteq> c_blist n'" if "d \<in> dom own" for d
          using below_cells(2) [OF inv that] pcW [OF that] by (auto simp: nr_def n1_def n'_def l_def)
        show "c_fd (pc ?W d) \<noteq> c_fd (nr (Some r)) \<and> c_fd (pc ?W d) \<noteq> c_fd n'" if "d \<in> dom own" for d
          using fd(4) [OF that] S [OF that] ff(2) pcW [OF that] by (auto simp: nr_def n1_def n'_def)
        show "p \<noteq> Some c \<and> p \<noteq> Some r" if "(g, p, bs) \<in> set (delivered ?W) \<union> set (transmitted ?W)" for g p bs
          using logs_okD(2) [OF I(6), of g p bs] that by (auto simp: c_def r_def)
      qed (use fd ff I(7) XY bX b2(2) in \<open>auto simp: nr_def n1_def n'_def is_client_def is_remote_def\<close>)
      have rd: "r \<in> dom ?own" by simp
      have pr: "pc ?W r = n'" "pc ?W c = nr (Some r)" using hc by (simp_all add: pc_def)
      have "f = c_fd (pc ?W r)" using pr(1) by (simp add: n'_def)
      from inv_create [OF pair rd this, of AE_READABLE ReadIncomeH] ev(1)
      have "proxy_inv watched lfd N F (?W\<lparr>el := l'\<rparr>) ?own" "reg_mask l' = (reg_mask (el w))(f := reg_mask (el w) f OR AE_READABLE)"
        using ok by (auto simp: create_event_def)
      moreover have "c_fd (pc (?W\<lparr>el := l'\<rparr>) c) = fd" "is_client (pc (?W\<lparr>el := l'\<rparr>) c)" "peer (?W\<lparr>el := l'\<rparr>) c = r"
        "c_fd (pc (?W\<lparr>el := l'\<rparr>) r) = f"
        using pr by (simp_all add: nr_def n1_def n'_def is_client_def peer_def)
      ultimately show ?thesis using run cr False unfolding w1 f_def [symmetric]
        by (intro exI [of _ "?W\<lparr>el := l'\<rparr>"] disjI2 exI [of _ c] exI [of _ r] exI [of _ X] exI [of _ Y]) simp
    qed
  qed
qed

end

end
