(* ===== verification/Proxy_Loop.thy ===== *)
theory Proxy_Loop
  imports Proxy_Accept
begin

text \<open>
  The proxy's handlers under the event loop. The locale \<open>proxy_server\<close> adds to the contract of
  the multiplexing layer what its poll has to promise; \<open>ae_select.c\<close> meets it whatever \<open>select\<close>
  answers.
\<close>

section \<open>Accepting\<close>

lemma inv_fds:
  assumes "proxy_inv watched lfd N F w own" "lfd \<in> S" "\<And>d. d \<in> dom own \<Longrightarrow> c_fd (pc w d) \<in> S"
  shows "proxy_inv watched lfd N F (w\<lparr>fds := S\<rparr>) own"
proof -
  have "proxy_inv watched lfd N F (w\<lparr>clients := clients w, bufs := bufs w, fds := S\<rparr>) own"
    by (rule inv_grow [OF assms(1)])
      (use assms kernel_okD(5) [OF proxy_invD(2) [OF assms(1)]] bufs_okD(1) [OF proxy_invD(4) [OF assms(1)]] in auto)
  then show ?thesis by simp
qed

lemma inv_fd_in:
  assumes "proxy_inv watched lfd N F w own" "d \<in> dom own"
  shows "c_fd (pc w d) \<in> fds w"
  using end_okD [OF proxy_invD(3) [OF assms(1)] assms(2)] by (simp add: end_ok_def)

context proxy_loop
begin

text \<open>What comes of an accepted descriptor \<open>f\<close>: nothing, or a connection to the descriptor \<open>g\<close>.\<close>

lemma accept_cases:
  assumes inv: "proxy_inv watched lfd N F w own"
    and f: "f = accept_of w (calls w) (fds w)" "f \<noteq> -1" and g: "g = connect_first w (Suc (calls w)) (insert f (fds w))"
  obtains (refused) w2 where "Proxy_AcceptTcpHandler A w fd = Some w2" "proxy_inv watched lfd N F w2 own"
      "fds w2 = fds w" "cells (clients w2) (Suc (brk (clients w))) \<noteq> None"
      "cells (lists (bufs w2)) (brk (lists (bufs w))) \<noteq> None"
      "g = -1 \<or> (\<exists>l. aeCreateFileEvent A (el w) g AE_READABLE ReadIncomeH (Some (Suc (brk (clients w)))) = Some (AE_ERR, l))"
    | (dropped) w2 where "Proxy_AcceptTcpHandler A w fd = Some w2" "proxy_inv watched lfd N F w2 own"
      "\<exists>l c l'. aeCreateFileEvent A l f AE_READABLE ReadIncomeH (Some c) = Some (AE_ERR, l') \<and> loop_ok watched N F l" "g \<noteq> -1"
    | (connected) w2 c r X Y where "Proxy_AcceptTcpHandler A w fd = Some w2" "c \<notin> dom own" "r \<notin> dom own" "c \<noteq> r"
      "proxy_inv watched lfd N F w2 (own(c \<mapsto> (X, []), r \<mapsto> (Y, [])))" "is_client (pc w2 c)" "peer w2 c = r"
      "c_fd (pc w2 c) = f" "c_fd (pc w2 r) = g" "reg_mask (el w2) f = AE_READABLE" "reg_mask (el w2) g = AE_READABLE"
proof -
  note I = proxy_invD [OF inv]
  have fn: "0 \<le> f" "f \<notin> fds w" using kernel_okD(3) [OF I(2)] f by blast+
  let ?w = "w\<lparr>calls := Suc (calls w), fds := insert f (fds w)\<rparr>"
  have w1: "proxy_inv watched lfd N F ?w own"
    using inv_fds [of watched lfd N F "w\<lparr>calls := Suc (calls w)\<rparr>" own "insert f (fds w)"] inv I(7) inv_fd_in [OF inv]
    by auto
  have run: "Proxy_AcceptTcpHandler A w fd = do {
      (c, w) \<leftarrow> AllocClient A ?w f;
      if c = None then FreeClient A w c
      else do {
        (e, w) \<leftarrow> create_event A w f AE_READABLE ReadIncomeH c;
        if e = AE_ERR then FreeClient A w c else Some w
      }
    }"
    using f(2) unfolding Proxy_AcceptTcpHandler_def Let_def f(1) [symmetric]
    by (simp add: open_fd_def AE_ERR_def)
  have new: "f \<noteq> lfd" "\<And>d. d \<in> dom own \<Longrightarrow> c_fd (pc ?w d) \<noteq> f" "f \<in> fds ?w"
    using fn(2) I(7) inv_fd_in [OF inv] by auto
  have g': "connect_first ?w (calls ?w) (fds ?w) = g" using g by simp
  have quiet: "reg_mask (el w) x = 0" if "x \<notin> fds w" "x \<noteq> lfd" for x
  proof (rule ccontr)
    assume ne: "reg_mask (el w) x \<noteq> 0"
    then have x: "0 \<le> x" "nat x < length (events (el w))" "fmask (events (el w) ! nat x) \<noteq> 0"
      by (auto simp: reg_mask_def split: if_splits)
    from events_okD [OF I(5) x(2)] have "event_ok lfd w (dom own) (int (nat x)) (events (el w) ! nat x)" .
    then show False using x that inv_fd_in [OF inv] by (auto simp: event_ok_def)
  qed
  from AllocClient_inv [OF w1 new(3) fn(1) new(1,2), unfolded g']
  consider (none) w2 where "AllocClient A ?w f = Some (None, w2)" "proxy_inv watched lfd N F w2 own"
      "fds w2 = fds ?w - {f}" "cells (clients w2) (Suc (brk (clients ?w))) \<noteq> None"
      "cells (lists (bufs w2)) (brk (lists (bufs ?w))) \<noteq> None"
      "g = -1 \<or> (\<exists>l. aeCreateFileEvent A (el ?w) g AE_READABLE ReadIncomeH (Some (Suc (brk (clients ?w)))) = Some (AE_ERR, l))"
    | (some) w2 c r X Y where "AllocClient A ?w f = Some (Some c, w2)" "c \<notin> dom own" "r \<notin> dom own"
        "proxy_inv watched lfd N F w2 (own(c \<mapsto> (X, []), r \<mapsto> (Y, [])))" "c \<noteq> r"
        "c_fd (pc w2 c) = f" "is_client (pc w2 c)" "peer w2 c = r" "c_fd (pc w2 r) = g" "g \<noteq> -1"
        "reg_mask (el w2) = (reg_mask (el ?w))(c_fd (pc w2 r) := reg_mask (el ?w) (c_fd (pc w2 r)) OR AE_READABLE)"
    by blast
  then show thesis
  proof cases
    case none
    have "fds w2 = fds w" using none(3) fn(2) by simp
    moreover have "Proxy_AcceptTcpHandler A w fd = Some w2" using run none(1) by (simp add: FreeClient_def)
    ultimately show thesis using refused [of w2] none by simp
  next
    case some
    let ?own = "own(c \<mapsto> (X, []), r \<mapsto> (Y, []))"
    have cd: "c \<in> dom ?own" and rd: "r \<in> dom ?own" using some(5) by simp_all
    have gf: "g \<noteq> f" using ends_distinct(1) [OF proxy_invD(3) [OF some(4)] cd rd some(5)] some(6,9) by simp
    have gn: "g \<notin> fds w" "g \<noteq> lfd" using connect_first_fresh [OF I(2)] g some(10) I(7) by blast+
    obtain e l where w3: "create_event A w2 f AE_READABLE ReadIncomeH (Some c) = Some (e, w2\<lparr>el := l\<rparr>)"
        "proxy_inv watched lfd N F (w2\<lparr>el := l\<rparr>) ?own"
        "e = AE_ERR \<or> e = AE_OK \<and> reg_mask l = (reg_mask (el w2))(f := reg_mask (el w2) f OR AE_READABLE)"
      using inv_create [OF some(4) cd, of f AE_READABLE ReadIncomeH] some(6) by auto
    show thesis
    proof (cases "e = AE_ERR")
      case True
      from FreeClient_inv [OF w3(2) cd] some(7) obtain w4 where
        w4: "FreeClient A (w2\<lparr>el := l\<rparr>) (Some c) = Some w4"
          "proxy_inv watched lfd N F w4 (?own |` (- {c, peer (w2\<lparr>el := l\<rparr>) c}))" by auto
      have "own c = None" "own r = None" using some(2,3) unfolding domIff by blast+
      then have "?own |` (- {c, peer (w2\<lparr>el := l\<rparr>) c}) = own"
        using some(8) by (simp add: fun_eq_iff restrict_map_def)
      moreover have "\<exists>l. aeCreateFileEvent A (el w2) f AE_READABLE ReadIncomeH (Some c) = Some (AE_ERR, l)"
        using w3(1) True by (auto simp: create_event_def bind_eq_Some_conv)
      ultimately show thesis using dropped [of w4] run some(1,10) w3(1) w4 True proxy_invD(1) [OF some(4)] by auto
    next
      case False
      then have "e = AE_OK" "reg_mask l = (reg_mask (el w2))(f := reg_mask (el w2) f OR AE_READABLE)" using w3(3) by auto
      then show thesis
        using connected [of "w2\<lparr>el := l\<rparr>" c r X Y] run some w3 False quiet [OF fn(2) new(1)] quiet [OF gn] gf by simp
    qed
  qed
qed

lemma Accept_inv:
  assumes inv: "proxy_inv watched lfd N F w own"
  shows "\<exists>w' own'. Proxy_AcceptTcpHandler A w fd = Some w' \<and> proxy_inv watched lfd N F w' own'"
proof (cases "accept_of w (calls w) (fds w) = -1")
  case True
  then have "Proxy_AcceptTcpHandler A w fd = Some (w\<lparr>calls := Suc (calls w)\<rparr>)"
    by (simp add: Proxy_AcceptTcpHandler_def open_fd_def AE_ERR_def)
  then show ?thesis using inv by (intro exI [of _ "w\<lparr>calls := Suc (calls w)\<rparr>"] exI [of _ own]) simp
next
  case False
  show ?thesis by (rule accept_cases [OF inv refl False refl, of fd]) blast+
qed

section \<open>Firing\<close>

lemma fired_bits: "(m::int) AND k AND b \<noteq> 0 \<Longrightarrow> m \<noteq> 0 \<and> m AND b \<noteq> 0"
  by (metis and.left_commute and_zero_eq zero_and_eq)

lemma fire_event_inv:
  assumes rd: "rd_keeps rd" and inv: "proxy_inv watched lfd N F w own" and fd: "0 \<le> fd" "fd < N"
  shows "\<exists>w' own'. fire_event (proxy_procs rd A) w fd msk = Some w' \<and> proxy_inv watched lfd N F w' own'"
proof -
  let ?P = "proxy_procs rd A"
  have ev: "aread (events (el w)) fd = Some (events (el w) ! nat fd) \<and>
      event_ok lfd w (dom own) fd (events (el w) ! nat fd)" if "proxy_inv watched lfd N F w own" for w own
  proof -
    note I = proxy_invD [OF that]
    have "nat fd < length (events (el w))" using loop_len [OF I(1)] fd by simp
    then show ?thesis using I(5) fd by (auto simp: events_ok_def aread_def dest: spec [of _ "nat fd"])
  qed
  define fe where "fe = events (el w) ! nat fd"
  define rf where "rf = (fmask fe AND msk AND AE_READABLE \<noteq> 0)"
  have "\<exists>w1 own1. (if rf then do {
             p \<leftarrow> rfileProc fe;
             file_proc ?P p w fd (clientData fe) msk
           } else Some w) = Some w1 \<and> proxy_inv watched lfd N F w1 own1"
  proof (cases rf)
    case True
    then have m: "fmask fe \<noteq> 0" "fmask fe AND AE_READABLE \<noteq> 0" unfolding rf_def using fired_bits by blast+
    from ev [OF inv] have "event_ok lfd w (dom own) fd fe" by (simp add: fe_def)
    with m consider "rfileProc fe = Some AcceptH"
      | a where "a \<in> dom own" "c_fd (pc w a) = fd" "clientData fe = Some a" "rfileProc fe = Some ReadIncomeH"
      unfolding event_ok_def by blast
    then show ?thesis
    proof cases
      case 1
      then show ?thesis using Accept_inv [OF inv, of fd] True by (auto simp: proxy_procs_def)
    next
      case 2
      then show ?thesis using ReadIncome_inv [OF rd inv 2(1)] True by (auto simp: proxy_procs_def)
    qed
  qed (use inv in auto)
  then obtain w1 own1 where w1: "(if rf then do {
             p \<leftarrow> rfileProc fe;
             file_proc ?P p w fd (clientData fe) msk
           } else Some w) = Some w1" "proxy_inv watched lfd N F w1 own1" by blast
  define fe1 where "fe1 = events (el w1) ! nat fd"
  have run: "fire_event ?P w fd msk = (if fmask fe1 AND msk AND AE_WRITABLE \<noteq> 0 then
       (if \<not> rf \<or> wfileProc fe1 \<noteq> rfileProc fe1 then do {
          p \<leftarrow> wfileProc fe1;
          file_proc ?P p w1 fd (clientData fe1) msk
        } else Some w1)
     else Some w1)"
    using ev [OF inv] ev [OF w1(2)] w1(1)
    by (simp only: fire_event_def Let_def fe_def [symmetric] fe1_def [symmetric] rf_def [symmetric] Option.bind.bind_lunit)
  show ?thesis
  proof (cases "fmask fe1 AND msk AND AE_WRITABLE \<noteq> 0")
    case False
    then show ?thesis using run w1(2) by auto
  next
    case True
    then have m: "fmask fe1 \<noteq> 0" "fmask fe1 AND AE_WRITABLE \<noteq> 0" using fired_bits by blast+
    from ev [OF w1(2)] have "event_ok lfd w1 (dom own1) fd fe1" by (simp add: fe1_def)
    with m obtain a where a: "a \<in> dom own1" "c_fd (pc w1 a) = fd" "clientData fe1 = Some a" "wfileProc fe1 = Some SendOutcomeH"
      unfolding event_ok_def by (auto simp: AE_defs)
    then show ?thesis
      using SendOutcome_inv [OF rd w1(2) a(1)] run w1(2) True by (auto simp: proxy_procs_def)
  qed
qed

lemma fire_loop_inv:
  assumes rd: "rd_keeps rd" and "proxy_inv watched lfd N F w own"
    and "0 \<le> j" "n \<le> int (length F)" "\<And>i. i < nat n \<Longrightarrow> 0 \<le> fst (F ! i) \<and> fst (F ! i) < N"
  shows "\<exists>w' own'. fire_loop (proxy_procs rd A) w j n = Some w' \<and> proxy_inv watched lfd N F w' own'"
  using assms(2-)
proof (induction "nat (n - j)" arbitrary: w own j)
  case 0
  then show ?case by (subst fire_loop.simps) auto
next
  case (Suc k)
  then have j: "j < n" by simp
  obtain fd msk where e: "F ! nat j = (fd, msk)" by fastforce
  have F: "fired (el w) = F" using proxy_invD(1) [OF Suc.prems(1)] by (simp add: loop_ok_def)
  have rdj: "aread (fired (el w)) j = Some (fd, msk)" using F e j Suc.prems(2,3) by (simp add: aread_def)
  have "0 \<le> fd" "fd < N" using Suc.prems(4) [of "nat j"] e j Suc.prems(2) by auto
  from fire_event_inv [OF rd Suc.prems(1) this] obtain w1 own1 where
    w1: "fire_event (proxy_procs rd A) w fd msk = Some w1" "proxy_inv watched lfd N F w1 own1" by blast
  have "k = nat (n - (j + 1))" using Suc.hyps(2) by simp
  from Suc.hyps(1) [OF this w1(2) _ Suc.prems(3,4)] Suc.prems(2) obtain w' own' where
    "fire_loop (proxy_procs rd A) w1 (j + 1) n = Some w'" "proxy_inv watched lfd N F w' own'" by auto
  then show ?case using j rdj w1(1) by (subst fire_loop.simps) auto
qed

end

section \<open>One iteration of the loop\<close>

locale proxy_server = proxy_loop A watched limit lfd N
  for A :: "(handler, nat, 'k) ae_api" and watched limit and lfd N :: int +
  assumes poll_ok: "loop_inv watched l \<Longrightarrow> setsize l = N \<Longrightarrow> int (length (fired l)) = N \<Longrightarrow>
      \<exists>n frd k. aeApiWait A l tvp = Some (n, frd, k) \<and> watched k = watched (apidata l) \<and>
        length frd = length (fired l) \<and> n \<le> N \<and> (\<forall>i<nat n. 0 \<le> fst (frd ! i) \<and> fst (frd ! i) < N)"
begin

lemma iteration_inv:
  assumes rd: "rd_keeps rd" and inv: "proxy_inv watched lfd N F w own" and F: "int (length F) = N"
  shows "\<exists>n w' F' own'. aeProcessEvents A (proxy_procs rd A) w AE_ALL_EVENTS = Some (n, w') \<and>
    proxy_inv watched lfd N F' w' own' \<and> int (length F') = N"
proof -
  note I = proxy_invD [OF inv]
  have L: "loop_inv watched (el w)" "setsize (el w) = N" "fired (el w) = F" "timeEventHead (el w) = None"
    using I(1) by (auto simp: loop_ok_def)
  obtain n frd k where p: "aeApiWait A (el w) None = Some (n, frd, k)" "watched k = watched (apidata (el w))"
    "int (length frd) = N" "n \<le> N" "\<And>i. i < nat n \<Longrightarrow> 0 \<le> fst (frd ! i) \<and> fst (frd ! i) < N"
    using poll_ok [OF L(1,2), of None] L(3) F by auto
  let ?w = "w\<lparr>el := (el w)\<lparr>fired := frd, apidata := k\<rparr>\<rparr>"
  have "loop_ok watched N frd ((el w)\<lparr>fired := frd, apidata := k\<rparr>)"
    using I(1) p(2) reg_mask_cong [of "(el w)\<lparr>fired := frd, apidata := k\<rparr>" "el w"]
    by (simp add: loop_ok_def loop_inv_def masks_ok_def maxfd_ok_def watched_ok_def)
  moreover have "events_ok lfd ?w (dom own)" using I(5) by (simp add: events_ok_def event_ok_def)
  ultimately have w1: "proxy_inv watched lfd N frd ?w own" by (rule inv_el [OF inv])
  obtain w2 own2 where w2: "fire_loop (proxy_procs rd A) ?w 0 n = Some w2" "proxy_inv watched lfd N frd w2 own2"
    using fire_loop_inv [OF rd w1, of 0 n] p(3-5) by auto
  have h2: "timeEventHead (el w2) = None" using proxy_invD(1) [OF w2(2)] by (simp add: loop_ok_def)
  have "poll_timeout w AE_ALL_EVENTS = Some (None, w)"
    using L(4) by (simp add: poll_timeout_def aeSearchNearestTimer_def nearest_timer.simps AE_defs)
  moreover have "processTimeEvents (proxy_procs rd A) w2 = Some (0, w2)"
    using h2 by (simp add: processTimeEvents_def time_loop.simps)
  ultimately have "aeProcessEvents A (proxy_procs rd A) w AE_ALL_EVENTS = Some (max 0 n, w2)"
    using p(1) w2(1) by (simp add: aeProcessEvents_def AE_defs)
  then show ?thesis using w2(2) p(3) by blast
qed

end

section \<open>The layers\<close>

lemma select_scan_spec:
  assumes "0 \<le> j" "0 \<le> k" "k \<le> j" "m < int (length evs)" "length frd = length evs" "j \<le> m + 1"
    and "\<And>i. i < nat k \<Longrightarrow> 0 \<le> fst (frd ! i) \<and> fst (frd ! i) \<le> m"
  shows "\<exists>n frd'. select_scan evs r w m j frd k = Some (n, frd') \<and> n \<le> m + 1 \<and> length frd' = length evs \<and>
    (\<forall>i<nat n. 0 \<le> fst (frd' ! i) \<and> fst (frd' ! i) \<le> m)"
  using assms
proof (induction "nat (m + 1 - j)" arbitrary: j frd k)
  case 0
  then show ?case by (subst select_scan.simps) auto
next
  case (Suc d)
  then have j: "j \<le> m" by simp
  have d: "d = nat (m + 1 - (j + 1))" using Suc.hyps(2) by simp
  have rd: "aread evs j = Some (evs ! nat j)" using Suc.prems j by (simp add: aread_in)
  show ?case
  proof (cases "fmask (evs ! nat j) = AE_NONE")
    case True
    have "select_scan evs r w m j frd k = select_scan evs r w m (j + 1) frd k"
      using j rd True by (subst select_scan.simps) simp
    then show ?thesis using Suc.hyps(1) [OF d, of k frd] Suc.prems j by auto
  next
    case False
    let ?e = "(j, rw_mask (fmask (evs ! nat j) AND AE_READABLE \<noteq> 0 \<and> j \<in> r) (fmask (evs ! nat j) AND AE_WRITABLE \<noteq> 0 \<and> j \<in> w))"
    have k: "k < int (length frd)" using Suc.prems j by simp
    have st: "select_scan evs r w m j frd k = select_scan evs r w m (j + 1) (frd[nat k := ?e]) (k + 1)"
      using j rd False k Suc.prems(2) by (subst select_scan.simps) (simp add: awrite_in)
    have "0 \<le> fst (frd[nat k := ?e] ! i) \<and> fst (frd[nat k := ?e] ! i) \<le> m" if "i < nat (k + 1)" for i
      using Suc.prems(1,2) Suc.prems(7) [of i] that j k by (cases "i = nat k") auto
    then show ?thesis unfolding st using Suc.hyps(1) [OF d, of "k + 1" "frd[nat k := ?e]"] Suc.prems j by simp
  qed
qed

lemma maxfd_lt: "loop_inv watched l \<Longrightarrow> maxfd l < int (length (events l)) \<and> -1 \<le> maxfd l"
  by (auto simp: loop_inv_def maxfd_ok_def reg_mask_def masks_ok_def split: if_splits)

lemma select_server:
  assumes N: "N \<le> FD_SETSIZE"
  shows "proxy_server (select_api sel) select_watched (\<lambda>fd. 0 \<le> fd \<and> fd < FD_SETSIZE) N"
proof
  show "0 \<le> fd \<and> fd < FD_SETSIZE" if "0 \<le> fd" "fd < N" for fd using N that by simp
next
  fix l :: "(handler, nat, 'a select_state) aeEventLoop" and tvp
  assume l: "loop_inv select_watched l" "setsize l = N" "int (length (fired l)) = N"
  obtain retval r w q where s: "sel (sel_kernel (apidata l)) (maxfd l + 1) (rfds (apidata l)) (wfds (apidata l)) tvp = (retval, r, w, q)"
    by (metis prod_cases4)
  let ?k = "(apidata l)\<lparr>sel_kernel := q\<rparr>"
  have k: "select_watched ?k = select_watched (apidata l)" by (simp add: select_watched_def fun_eq_iff)
  have len: "length (fired l) = length (events l)" using l by (simp add: loop_inv_def masks_ok_def)
  note m = maxfd_lt [OF l(1)]
  obtain n frd where n: "select_scan (events l) r w (maxfd l) 0 (fired l) 0 = Some (n, frd)" "n \<le> maxfd l + 1"
    "length frd = length (events l)" "\<forall>i<nat n. 0 \<le> fst (frd ! i) \<and> fst (frd ! i) \<le> maxfd l"
    using select_scan_spec [of 0 0 "maxfd l" "events l" "fired l" r w] len m by auto
  have "aeApiWait (select_api sel) l tvp = Some (if retval > 0 then (n, frd, ?k) else (0, fired l, ?k))"
    using s n(1) by (simp add: select_api_def select_aeApiPoll_def)
  moreover have "maxfd l < N" using m l len by simp
  ultimately show "\<exists>n frd k. aeApiWait (select_api sel) l tvp = Some (n, frd, k) \<and> select_watched k = select_watched (apidata l) \<and>
        length frd = length (fired l) \<and> n \<le> N \<and> (\<forall>i<nat n. 0 \<le> fst (frd ! i) \<and> fst (frd ! i) < N)"
    using n(2-4) k len l(3) by (cases "retval > 0") (auto intro: le_less_trans)
qed

text \<open>The two sizes the programs use, on \<open>select\<close>.\<close>

interpretation sel_proxy: proxy_server "select_api sel" select_watched "\<lambda>fd. 0 \<le> fd \<and> fd < FD_SETSIZE" lfd 1024 for sel lfd
  by (rule select_server) (simp add: FD_SETSIZE_def)

end
