(* ===== verification/Proxy_Demo.thy ===== *)
theory Proxy_Demo
  imports Proxy_Loop
begin

text \<open>
  The reachable states of the proxy, and the lemmas on the end of a connection that its
  properties need.
\<close>

section \<open>Reachable states\<close>

text \<open>The states of the proxy between two iterations of \<open>aeMain\<close>.\<close>

inductive serves :: "'k remote_down \<Rightarrow> 'k api \<Rightarrow> 'k proxy_world \<Rightarrow> 'k proxy_world \<Rightarrow> bool" for rd A w0 where
  serves_start: "serves rd A w0 w0"
| serves_step: "serves rd A w0 w \<Longrightarrow> aeProcessEvents A (proxy_procs rd A) w AE_ALL_EVENTS = Some (n, w') \<Longrightarrow>
    serves rd A w0 w'"

text \<open>The state in which \<open>main\<close> enters \<open>aeMain\<close>: a fresh loop with the listening socket registered.\<close>

definition proxy_ready :: "'k api \<Rightarrow> ('k \<Rightarrow> int \<Rightarrow> int) \<Rightarrow> int \<Rightarrow> int \<Rightarrow> 'k proxy_world \<Rightarrow> bool" where
  "proxy_ready A watched lfd N w \<longleftrightarrow> (\<exists>w0 ok api raw rawf m.
     aeCreateEventLoop ok api raw rawf N = (Some (el w0), m) \<and> int (length raw) = N \<and> int (length rawf) = N \<and>
     (\<forall>k fd. api = Some k \<longrightarrow> watched k fd = 0) \<and> 0 \<le> lfd \<and> lfd \<in> fds w0 \<and>
     create_event A w0 lfd AE_READABLE AcceptH None = Some (AE_OK, w) \<and> kernel_ok w0 \<and>
     bl_env (bufs w0) \<and> remote_name (proxy_policy w0) \<noteq> None \<and> delivered w0 = [] \<and> transmitted w0 = [])"

lemma fresh_fields:
  assumes "aeCreateEventLoop ok api raw rawf N = (Some l, m)"
  shows "fired l = rawf" "timeEventHead l = None" "beforesleep l = None"
    "events l = map (\<lambda>fe. fe\<lparr>fmask := AE_NONE\<rparr>) raw"
  using assms by (auto simp: aeCreateEventLoop_def split: prod.splits if_splits option.splits)

context proxy_loop
begin

lemma ready_inv:
  assumes "proxy_ready A watched lfd N w"
  shows "\<exists>F. proxy_inv watched lfd N F w Map.empty \<and> int (length F) = N"
proof -
  obtain w0 ok api raw rawf m where r: "aeCreateEventLoop ok api raw rawf N = (Some (el w0), m)"
    "int (length raw) = N" "int (length rawf) = N" "\<And>k fd. api = Some k \<Longrightarrow> watched k fd = 0" "0 \<le> lfd" "lfd \<in> fds w0"
    "create_event A w0 lfd AE_READABLE AcceptH None = Some (AE_OK, w)" "kernel_ok w0"
    "bl_env (bufs w0)" "remote_name (proxy_policy w0) \<noteq> None" "delivered w0 = []" "transmitted w0 = []"
    using assms unfolding proxy_ready_def by blast
  note l0 = fresh_fields [OF r(1)]
  have L: "loop_ok watched N rawf (el w0)"
    using fresh_loop_inv [OF r(1,2,4)] l0 by (simp add: loop_ok_def)
  have m: "mask_ok AE_READABLE" "AE_READABLE \<noteq> 0" by (simp_all add: AE_defs)
  obtain l where l: "w = w0\<lparr>el := l\<rparr>" "aeCreateFileEvent A (el w0) lfd AE_READABLE AcceptH None = Some (AE_OK, l)"
    using r(7) by (auto simp: create_event_def bind_eq_Some_conv)
  have len: "int (length (events (el w0))) = N" using l0(4) r(2) by simp
  from create_loop [OF L r(5) m, of AcceptH None] l(2) have l': "loop_ok watched N rawf l" "lfd < N"
    "events l = (events (el w0))[nat lfd := \<lparr>fmask = reg_mask (el w0) lfd OR AE_READABLE,
         rfileProc = Some AcceptH, wfileProc = wfileProc (events (el w0) ! nat lfd), clientData = None\<rparr>]"
    by (auto simp: AE_defs)
  have "reg_mask (el w0) lfd = 0" using r(2,5) l'(2) l0(4) by (simp add: reg_mask_def AE_defs nat_less_iff)
  then have "event_ok lfd w {} (int i) (events l ! i)" if "i < length (events l)" for i
    using that l'(3) r(5) l0(4) by (cases "i = nat lfd") (auto simp: event_ok_def AE_defs)
  then have "events_ok lfd w {}" by (simp add: events_ok_def l(1))
  then have "proxy_inv watched lfd N rawf w Map.empty"
    using l'(1) r(6,8-12) unfolding l(1)
    by (simp add: proxy_inv_def ends_ok_def bufs_ok_def logs_ok_def kernel_ok_def)
  then show ?thesis using r(3) by blast
qed

end

context proxy_server
begin

lemma serves_inv:
  assumes rd: "rd_keeps rd" and "serves rd A w0 w" "proxy_ready A watched lfd N w0"
  shows "\<exists>F own. proxy_inv watched lfd N F w own \<and> int (length F) = N"
  using assms(2)
proof induction
  case serves_start
  then show ?case using ready_inv [OF assms(3)] by blast
next
  case (serves_step w n w')
  then obtain F own where "proxy_inv watched lfd N F w own" "int (length F) = N" by blast
  from iteration_inv [OF rd this] serves_step(2) show ?case by (auto; metis)
qed

text \<open>A client that is to be closed, when \<open>send\<close> always takes something.\<close>

lemma send_all:
  assumes "proxy_inv watched lfd N F w own" "own a = Some (X, xs)" "fd = c_fd (pc w a)" "is_client (pc w a)"
    and "c_flags (pc w a) AND CLIENT_CLOSE_AFTER_SENT \<noteq> 0" "\<And>k bs. bs \<noteq> [] \<Longrightarrow> \<exists>n>0. send_of w k fd bs = SSent n"
    and "0 \<le> tot" "tot + int (length xs) \<le> MAX_WRITE_PER_EVENT"
  shows "\<exists>w'. send_loop A w fd (Some a) tot = Some (ClientGone, w') \<and>
    proxy_inv watched lfd N F w' (own |` (- {a, peer w a})) \<and>
    released w own a w' \<and> bytes_at fd a (transmitted w') = bytes_at fd a (transmitted w) @ xs"
  using assms
proof (induction "length xs" arbitrary: w own xs tot rule: less_induct)
  case less
  note inv = less.prems(1) and a = less.prems(2)
  note I = proxy_invD [OF inv]
  have ad: "a \<in> dom own" using a by auto
  have cell: "cells (clients w) a = Some (pc w a)" by (rule end_cell [OF I(3) ad])
  have h: "bl_holds (bufs w) (c_blist (pc w a)) X xs" by (rule bufs_ok_holds [OF I(4) a])
  obtain buf len where gd: "BufferListGetData (bufs w) (c_blist (pc w a)) = Some (buf, len)" "buf = None \<longleftrightarrow> xs = []"
    "len \<le> int (length xs)" "xs \<noteq> [] \<Longrightarrow> 0 < len" "xs \<noteq> [] \<Longrightarrow> peek (bufs w) buf len = Some (take (nat len) xs)"
    by (rule bl_get_data [OF h]) (rule that)
  show ?case
  proof (cases "xs = []")
    case True
    from FreeClient_inv [OF inv ad less.prems(4)] obtain w' where w': "FreeClient A w (Some a) = Some w'"
      "proxy_inv watched lfd N F w' (own |` (- {a, peer w a}))" "w' = w\<lparr>el := el w',
        fds := fds w - {c_fd (pc w a)} - {c_fd (pc w (peer w a))}, bufs := bufs w', clients := clients w'\<rparr>" "released w own a w'" by blast
    have "transmitted w' = transmitted w" by (subst w'(3)) simp
    moreover have "send_loop A w fd (Some a) tot = Some (ClientGone, w')"
      using cell gd(1,2) less.prems(5) True w'(1) by (subst send_loop.simps) simp
    ultimately show ?thesis using w'(2,4) True by auto
  next
    case False
    then obtain q where q: "buf = Some q" using gd(2) by blast
    have len: "0 < len" "length (take (nat len) xs) = nat len" using gd(3,4) False by auto
    have "take (nat len) xs \<noteq> []" using len False by simp
    then obtain n where n: "send_of w (calls w) fd (take (nat len) xs) = SSent n" "0 < n" using less.prems(6) by blast
    obtain w1 where w1: "send_loop A w fd (Some a) tot = (if tot + n > MAX_WRITE_PER_EVENT then Some (Idle, w1)
          else send_loop A w1 fd (Some a) (tot + n))"
      "proxy_inv watched lfd N F w1 (own(a \<mapsto> (X, drop (nat n) xs)))" "clients w1 = clients w" "send_of w1 = send_of w"
      "transmitted w1 = transmitted w @ [(fd, Some a, take (nat n) xs)]" "n \<le> int (length xs)" "fds w1 = fds w" "el w1 = el w"
      "bl_frame (c_blist (pc w a)) X (bufs w) (bufs w1)"
      using send_loop_step [OF inv a less.prems(3) gd(1) [unfolded q] len(1) gd(3) _ n] gd(5) False q by metis
    have eqs: "pc w1 = pc w" "peer w1 = peer w" using same_clients [OF w1(3)] by auto
    have dec: "length (drop (nat n) xs) < length xs" using n(2) False by (cases xs) auto
    have own1: "(own(a \<mapsto> (X, drop (nat n) xs))) a = Some (X, drop (nat n) xs)" by simp
    have tot: "0 \<le> tot + n" "tot + n + int (length (drop (nat n) xs)) \<le> MAX_WRITE_PER_EVENT"
      using less.prems(7,8) n(2) w1(6) by auto
    have "\<exists>w'. send_loop A w1 fd (Some a) (tot + n) = Some (ClientGone, w') \<and>
      proxy_inv watched lfd N F w' (own(a \<mapsto> (X, drop (nat n) xs)) |` (- {a, peer w1 a})) \<and>
      released w1 (own(a \<mapsto> (X, drop (nat n) xs))) a w' \<and>
      bytes_at fd a (transmitted w') = bytes_at fd a (transmitted w1) @ drop (nat n) xs"
      by (rule less.hyps [OF dec w1(2) own1 _ _ _ _ tot]) (use less.prems(3-6) eqs w1(4) in simp_all)
    then obtain w' where w': "send_loop A w1 fd (Some a) (tot + n) = Some (ClientGone, w')"
      "proxy_inv watched lfd N F w' (own(a \<mapsto> (X, drop (nat n) xs)) |` (- {a, peer w1 a}))"
      "released w1 (own(a \<mapsto> (X, drop (nat n) xs))) a w'"
      "bytes_at fd a (transmitted w') = bytes_at fd a (transmitted w1) @ drop (nat n) xs" by blast
    have "chunks_of (own(a \<mapsto> (X, drop (nat n) xs))) = chunks_of own" using a by (auto simp: fun_eq_iff chunks_of_def)
    moreover have "X = chunks_of own a" using a by (simp add: chunks_of_def)
    ultimately have "released w own a w'" using released_frame [OF w'(3) w1(3,7,8)] w1(9) by simp
    moreover have "\<not> tot + n > MAX_WRITE_PER_EVENT" using less.prems(8) w1(6) by simp
    moreover have "bytes_at fd a (transmitted w1) = bytes_at fd a (transmitted w) @ take (nat n) xs" using w1(5) by simp
    ultimately show ?thesis using w1(1) w'(1,2,4) eqs by (auto simp: drop_upd)
  qed
qed

text \<open>\<open>recv\<close> reports the end of the stream on the remote's descriptor at the first call.\<close>

lemma read_eof:
  assumes inv: "proxy_inv watched lfd N F w own" and r: "r \<in> dom own"
    and sp: "BufferListGetSpace (bufs w) (c_blist (pc w (peer w r))) = Some (Some q, len)"
    and eof: "recv_of w (calls w) (c_fd (pc w r)) len = RData []"
  shows "ReadIncome_with rd A w (c_fd (pc w r)) (Some r) = call_OnError rd A (w\<lparr>calls := Suc (calls w)\<rparr>) (Some r)"
proof -
  note I = proxy_invD [OF inv]
  have E: "end_ok w (dom own) r" by (rule end_okD [OF I(3) r])
  then have p: "c_remote (pc w r) = Some (peer w r)" "peer w r \<in> dom own" by (auto simp: end_ok_def)
  have "read_loop A w (c_fd (pc w r)) (Some (peer w r)) = Some (True, w\<lparr>calls := Suc (calls w)\<rparr>)"
    using end_cell [OF I(3) p(2)] sp eof by (subst read_loop.simps) (simp add: Let_def)
  then show ?thesis using end_cell [OF I(3) r] p(1) by (simp add: ReadIncome_with_def)
qed

end

text \<open>
  Concrete worlds for the witnesses of the proxy's properties: the proxy on \<open>select\<close> when it
  starts to listen, and with one connection whose two buffers are full and empty.
\<close>

definition demo_api :: "(handler, nat, unit select_state) ae_api" where
  "demo_api = select_api (\<lambda>q n r w t. (0, {}, {}, ()))"

definition demo_events :: "(handler, nat) aeFileEvent list" where
  "demo_events = replicate 1024 \<lparr>fmask = 7, rfileProc = None, wfileProc = None, clientData = None\<rparr>"

definition demo_loop :: "(handler, nat, unit select_state) aeEventLoop" where
  "demo_loop = \<lparr>maxfd = -1, setsize = 1024, timeEventNextId = 0,
     events = map (\<lambda>fe. fe\<lparr>fmask := AE_NONE\<rparr>) demo_events, fired = replicate 1024 (0, 0), timeEventHead = None,
     stop = False, apidata = \<lparr>rfds = {}, wfds = {}, sel_kernel = ()\<rparr>, beforesleep = None\<rparr>"

definition demo_listening :: "(handler, nat, unit select_state) aeEventLoop" where
  "demo_listening = demo_loop\<lparr>apidata := \<lparr>rfds = {3}, wfds = {}, sel_kernel = ()\<rparr>, maxfd := 3,
     events := (events demo_loop)[3 := \<lparr>fmask = 1, rfileProc = Some AcceptH, wfileProc = None, clientData = None\<rparr>]\<rparr>"

definition demo_world :: "(handler, nat, unit select_state) aeEventLoop \<Rightarrow> (nat \<Rightarrow> int \<Rightarrow> int \<Rightarrow> recv_result) \<Rightarrow>
    (nat \<Rightarrow> int \<Rightarrow> byte list \<Rightarrow> send_result) \<Rightarrow> unit select_state proxy_world" where
  "demo_world l rcv snt = \<lparr>el = l, timers = \<lparr>cells = (\<lambda>_. None), brk = 0, env = (\<lambda>_. None)\<rparr>, clock = (\<lambda>_. (0, 0)), ticks = 0,
     clients = \<lparr>cells = (\<lambda>_. None), brk = 0, env = (\<lambda>_. Some \<lparr>c_fd = 77, c_flags = 77, c_remote = None, c_blist = None,
       OnError = None, OnRemoteDown = None\<rparr>)\<rparr>, bufs = blmem0,
     proxy_policy = \<lparr>listen_host = \<lparr>addr = None, port = 80\<rparr>, ptype = PROXY_RR, hosts = [\<lparr>addr = Some [Some 49, Some 0], port = 81\<rparr>],
       nhost = 1, curhost = 0, cs = 99\<rparr>, calls = 0, recv_of = rcv, send_of = snt,
     connect_of = (\<lambda>_ _ _ S. if 8 \<in> S then -1 else 8), accept_of = (\<lambda>_ S. if 9 \<in> S then -1 else 9),
     delivered = [], transmitted = [], fds = {3}\<rparr>"

definition honest :: "(nat \<Rightarrow> int \<Rightarrow> int \<Rightarrow> recv_result) \<Rightarrow> (nat \<Rightarrow> int \<Rightarrow> byte list \<Rightarrow> send_result) \<Rightarrow> bool" where
  "honest rcv snt \<longleftrightarrow> (\<forall>k fd len bs. rcv k fd len = RData bs \<longrightarrow> int (length bs) \<le> max 0 len) \<and>
     (\<forall>k fd bs n. snt k fd bs = SSent n \<longrightarrow> n \<le> int (length bs))"

lemma demo_kernel: "honest rcv snt \<Longrightarrow> kernel_ok (demo_world l rcv snt)"
  by (auto simp: kernel_ok_def honest_def demo_world_def heap_ok_def)

lemma demo_server: "proxy_server demo_api select_watched (\<lambda>fd. 0 \<le> fd \<and> fd < FD_SETSIZE) 1024"
  unfolding demo_api_def by (rule select_server) (simp add: FD_SETSIZE_def)

lemma demo_create:
  "create_event demo_api (demo_world demo_loop rcv snt) 3 AE_READABLE AcceptH None =
   Some (AE_OK, demo_world demo_listening rcv snt)"
  by (simp add: create_event_def aeCreateFileEvent_def demo_world_def demo_loop_def demo_listening_def demo_events_def
      demo_api_def select_api_def select_aeApiAddEvent_def fd_set_def FD_SETSIZE_def aread_def awrite_def AE_defs)

lemma demo_ready:
  assumes "honest rcv snt"
  shows "proxy_ready demo_api select_watched 3 1024 (demo_world demo_listening rcv snt)"
proof -
  have "aeCreateEventLoop (True, True, True) (Some \<lparr>rfds = {}, wfds = {}, sel_kernel = ()\<rparr>) demo_events
      (replicate 1024 (0, 0)) 1024 = (Some (el (demo_world demo_loop rcv snt)), 3)"
    by (simp add: aeCreateEventLoop_def demo_world_def demo_loop_def)
  moreover have "bl_env (bufs (demo_world demo_loop rcv snt))" using blmem0_env by (simp add: demo_world_def)
  ultimately show ?thesis
    unfolding proxy_ready_def using demo_create [of rcv snt] demo_kernel [OF assms, of demo_loop]
    by (intro exI [of _ "demo_world demo_loop rcv snt"] exI [of _ "(True, True, True)"]
        exI [of _ "Some \<lparr>rfds = {}, wfds = {}, sel_kernel = ()\<rparr>"] exI [of _ demo_events] exI [of _ "replicate 1024 (0, 0)"] exI [of _ 3])
      (simp add: demo_events_def demo_world_def select_watched_def rw_mask_def remote_name_def aread_def)
qed

definition idle_proxy :: "unit select_state proxy_world" where
  "idle_proxy = demo_world demo_listening (\<lambda>_ _ _. RAgain) (\<lambda>_ _ _. SAgain)"

lemma idle_ready: "proxy_ready demo_api select_watched 3 1024 idle_proxy"
  unfolding idle_proxy_def by (rule demo_ready) (simp add: honest_def)

section \<open>One connection\<close>

text \<open>List 0 is full (32 bytes), list 1 is empty; \<open>i\<close> is the list of the client.\<close>

definition demo_bufs :: blmem where
  "demo_bufs = \<lparr>lists = \<lparr>cells = [0 \<mapsto> \<lparr>bhead = Some 0, btail = Some 1, read_pos = 0, write_node = Some 1\<rparr>,
         1 \<mapsto> \<lparr>bhead = Some 2, btail = Some 2, read_pos = 0, write_node = Some 2\<rparr>], brk = 2, env = env (lists blmem0)\<rparr>,
     nodes = \<lparr>cells = [0 \<mapsto> \<lparr>bdata = replicate 16 5, bsize = 16, bnext = Some 1\<rparr>,
       1 \<mapsto> \<lparr>bdata = replicate 16 6, bsize = 16, bnext = None\<rparr>,
       2 \<mapsto> \<lparr>bdata = replicate 16 7, bsize = 0, bnext = None\<rparr>], brk = 3, env = env (nodes blmem0)\<rparr>\<rparr>"

definition demo_bytes :: "byte list" where "demo_bytes = replicate 16 5 @ replicate 16 6"

definition demo_list :: "nat \<Rightarrow> nat set \<times> byte list" where
  "demo_list i = (if i = 0 then ({0, 1}, demo_bytes) else ({2}, []))"

lemma demo_holds: "i < 2 \<Longrightarrow> bl_holds demo_bufs (Some i) (fst (demo_list i)) (snd (demo_list i))"
proof -
  have "bl_rep demo_bufs (Some 0) \<lparr>bhead = Some 0, btail = Some 1, read_pos = 0, write_node = Some 1\<rparr> [0] 1 16 []"
    by (simp add: bl_rep_def demo_bufs_def chunk_is_def)
  moreover have "bl_bytes demo_bufs \<lparr>bhead = Some 0, btail = Some 1, read_pos = 0, write_node = Some 1\<rparr> ([0] @ [1]) = demo_bytes"
    by (simp add: bl_bytes_def demo_bufs_def chunk_def demo_bytes_def)
  moreover have "{0, 1} = set ([0] @ (1::nat) # [])" by auto
  ultimately have "bl_holds demo_bufs (Some 0) {0, 1} demo_bytes" unfolding bl_holds_def by metis
  moreover have "bl_rep demo_bufs (Some 1) \<lparr>bhead = Some 2, btail = Some 2, read_pos = 0, write_node = Some 2\<rparr> [] 2 0 []"
    by (simp add: bl_rep_def demo_bufs_def chunk_is_def)
  moreover have "bl_bytes demo_bufs \<lparr>bhead = Some 2, btail = Some 2, read_pos = 0, write_node = Some 2\<rparr> ([] @ [2]) = []"
    by (simp add: bl_bytes_def demo_bufs_def chunk_def)
  moreover have "{2} = set ([] @ (2::nat) # [])" by auto
  ultimately have "bl_holds demo_bufs (Some 1) {2} []" unfolding bl_holds_def by metis
  with \<open>bl_holds demo_bufs (Some 0) {0, 1} demo_bytes\<close> show "i < 2 \<Longrightarrow> ?thesis"
    by (cases "i = 0") (auto simp: demo_list_def less_2_cases_iff)
qed

definition demo_conn :: "nat \<Rightarrow> int \<Rightarrow> (nat \<Rightarrow> int \<Rightarrow> int \<Rightarrow> recv_result) \<Rightarrow> (nat \<Rightarrow> int \<Rightarrow> byte list \<Rightarrow> send_result) \<Rightarrow>
    unit select_state proxy_world" where
  "demo_conn i fl rcv snt = (demo_world demo_listening rcv snt)\<lparr>clients :=
     \<lparr>cells = [0 \<mapsto> \<lparr>c_fd = 9, c_flags = fl, c_remote = Some 1, c_blist = Some i, OnError = Some FreeClientCB,
         OnRemoteDown = Some CloseAfterSentCB\<rparr>,
       1 \<mapsto> \<lparr>c_fd = 8, c_flags = 0, c_remote = Some 0, c_blist = Some (1 - i), OnError = Some RemoteDownCB,
         OnRemoteDown = None\<rparr>], brk = 2, env = env (clients (demo_world demo_listening rcv snt))\<rparr>,
     bufs := demo_bufs, fds := {3, 8, 9}, delivered := [(if i = 0 then 8 else 9, Some i, demo_bytes)]\<rparr>"

definition demo_own :: "nat \<Rightarrow> owner" where
  "demo_own i = [0 \<mapsto> demo_list i, 1 \<mapsto> demo_list (1 - i)]"

lemma demo_conn_fields:
  "pc (demo_conn i fl rcv snt) 0 = \<lparr>c_fd = 9, c_flags = fl, c_remote = Some 1, c_blist = Some i, OnError = Some FreeClientCB,
         OnRemoteDown = Some CloseAfterSentCB\<rparr>"
  "pc (demo_conn i fl rcv snt) 1 = \<lparr>c_fd = 8, c_flags = 0, c_remote = Some 0, c_blist = Some (1 - i), OnError = Some RemoteDownCB,
         OnRemoteDown = None\<rparr>"
  "peer (demo_conn i fl rcv snt) 0 = 1" "peer (demo_conn i fl rcv snt) 1 = 0" "dom (demo_own i) = {0, 1}"
  "bufs (demo_conn i fl rcv snt) = demo_bufs" "calls (demo_conn i fl rcv snt) = 0"
  "recv_of (demo_conn i fl rcv snt) = rcv" "send_of (demo_conn i fl rcv snt) = snt"
  by (auto simp: demo_conn_def pc_def peer_def demo_own_def demo_world_def)

lemmas demo_conn_simps = demo_conn_fields demo_conn_fields [unfolded One_nat_def]

lemma demo_conn_inv:
  assumes "honest rcv snt" "i < 2"
  shows "proxy_inv select_watched 3 1024 (replicate 1024 (0, 0)) (demo_conn i fl rcv snt) (demo_own i)"
proof -
  let ?w = "demo_conn i fl rcv snt" and ?own = "demo_own i"
  obtain F where F: "proxy_inv select_watched 3 1024 F (demo_world demo_listening rcv snt) Map.empty"
    using proxy_loop.ready_inv [OF proxy_server.axioms(1) [OF demo_server] demo_ready [OF assms(1)]] by blast
  note I = proxy_invD [OF F]
  have "loop_ok select_watched 1024 (replicate 1024 (0, 0)) (el ?w)"
  proof -
    have "el ?w = demo_listening" "el (demo_world demo_listening rcv snt) = demo_listening"
      by (simp_all add: demo_conn_def demo_world_def)
    moreover have "fired demo_listening = replicate 1024 (0, 0)" by (simp add: demo_listening_def demo_loop_def)
    ultimately show ?thesis using I(1) by (simp add: loop_ok_def)
  qed
  moreover have "kernel_ok ?w" using I(2) by (auto simp: kernel_ok_def demo_conn_def demo_world_def heap_ok_def)
  moreover have "fds ?w = {3, 8, 9}" "cells (clients ?w) 0 = Some (pc ?w 0)" "cells (clients ?w) 1 = Some (pc ?w 1)"
    by (simp_all add: demo_conn_def pc_def)
  then have "ends_ok ?w (dom ?own)"
  proof -
    assume c: "fds ?w = {3, 8, 9}" "cells (clients ?w) 0 = Some (pc ?w 0)" "cells (clients ?w) 1 = Some (pc ?w 1)"
    have "end_ok ?w {0, 1} 0" "end_ok ?w {0, 1} 1"
      using c by (simp_all add: end_ok_def demo_conn_simps is_client_def is_remote_def)
    moreover have "i \<noteq> 1 - i" using assms(2) by arith
    ultimately show ?thesis by (simp add: ends_ok_def demo_conn_simps)
  qed
  moreover have "bufs_ok ?w ?own"
  proof -
    have "bl_env demo_bufs"
      using blmem0_env by (auto simp: bl_env_def demo_bufs_def blmem0_def heap_ok_def)
    moreover have "chunks_of ?own 0 = fst (demo_list i)" "chunks_of ?own 1 = fst (demo_list (1 - i))"
      "content ?own 0 = snd (demo_list i)" "content ?own 1 = snd (demo_list (1 - i))"
      by (simp_all add: chunks_of_def content_def demo_own_def)
    moreover have "fst (demo_list i) \<inter> fst (demo_list (1 - i)) = {}"
      using assms(2) by (auto simp: demo_list_def less_2_cases_iff)
    ultimately show ?thesis
      using demo_holds [of i] demo_holds [of "1 - i"] assms(2)
      by (auto simp: bufs_ok_def demo_conn_simps)
  qed
  moreover have "events_ok 3 ?w (dom ?own)"
    using I(5) by (auto simp: events_ok_def event_ok_def demo_conn_def)
  moreover have "logs_ok ?w ?own"
  proof -
    have l: "delivered ?w = [(if i = 0 then 8 else 9, Some i, demo_bytes)]" "transmitted ?w = []" "brk (clients ?w) = 2"
      by (simp_all add: demo_conn_def demo_world_def)
    have "content ?own 0 = (if i = 0 then demo_bytes else [])" "content ?own 1 = (if i = 0 then [] else demo_bytes)"
      using assms(2) by (auto simp: content_def demo_own_def demo_list_def)
    moreover have "i = 0 \<or> i = 1" using assms(2) by arith
    ultimately show ?thesis
      unfolding logs_ok_def l by (auto simp: demo_conn_simps bytes_at_def)
  qed
  moreover have "3 \<in> fds ?w" "remote_name (proxy_policy ?w) \<noteq> None" by (simp_all add: demo_conn_def demo_world_def remote_name_def aread_def)
  ultimately show ?thesis by (auto simp: proxy_inv_def demo_conn_simps)
qed

end
