(* ===== verification/Proxy_Properties.thy ===== *)
theory Proxy_Properties
  imports Proxy_Demo
begin

text \<open>The properties of the proxy.\<close>

text \<open>
  C1. The proxy relays every connection in order. Start either program with a fresh event loop
  whose only event is the listening socket, and let the kernel answer every system call as it
  likes, within what the manuals promise. In every state that \<open>aeMain\<close> reaches, for each end
  \<open>a\<close> of each connection that is alive, the bytes received from its peer's descriptor for it
  are the bytes sent on its own descriptor followed by the bytes in its buffer: nothing is lost,
  duplicated, reordered or mixed up with another connection.
\<close>
theorem proxy_relays_in_order:
  assumes "proxy_server A watched limit N" "proxy_ready A watched lfd N w0"
    and "rd = RemoteDown \<or> rd = bak_RemoteDown" "serves rd A w0 w"
  shows "\<exists>own. ends_ok w (dom own) \<and> bufs_ok w own \<and> events_ok lfd w (dom own) \<and>
    (\<forall>a\<in>dom own. bytes_at (c_fd (pc w (peer w a))) a (delivered w) =
       bytes_at (c_fd (pc w a)) a (transmitted w) @ content own a)"
proof -
  have "proxy_loop.rd_keeps A watched lfd N rd"
    using assms(3) proxy_loop.rd_keeps_tp proxy_loop.rd_keeps_bak proxy_server.axioms(1) [OF assms(1)] by blast
  from proxy_server.serves_inv [OF assms(1) this assms(4,2)] show ?thesis
    by (metis proxy_invD(3,4,5) proxy_invD(6) logs_okD(1))
qed

theorem proxy_relays_in_order_witness:
  "\<exists>own :: owner. ends_ok idle_proxy (dom own) \<and> proxy_ready demo_api select_watched 3 1024 idle_proxy"
proof -
  from proxy_relays_in_order [OF demo_server idle_ready disjI1 [OF refl] serves_start] idle_ready show ?thesis by blast
qed

text \<open>
  C2. With a policy whose first host has an address, and with all memory granted
  (\<^const>\<open>proxy_ready\<close>), the proxy never gets stuck and never touches memory it does not own: from
  every state that \<open>aeMain\<close> reaches, the next iteration, with whatever events fire and whatever
  the kernel answers, returns a state. (An access to freed or null memory, a read past an array
  or an endless loop would leave the iteration without a result.) Without that address, as the
  policy \<open>80->81\<close> leaves it, accepting a client reads a null pointer.
\<close>
theorem proxy_iteration_returns:
  assumes "proxy_server A watched limit N" "proxy_ready A watched lfd N w0"
    and "rd = RemoteDown \<or> rd = bak_RemoteDown" "serves rd A w0 w"
  shows "\<exists>n w'. aeProcessEvents A (proxy_procs rd A) w AE_ALL_EVENTS = Some (n, w') \<and> serves rd A w0 w'"
proof -
  have rd: "proxy_loop.rd_keeps A watched lfd N rd"
    using assms(3) proxy_loop.rd_keeps_tp proxy_loop.rd_keeps_bak proxy_server.axioms(1) [OF assms(1)] by blast
  from proxy_server.serves_inv [OF assms(1) rd assms(4,2)] obtain F own where
    "proxy_inv watched lfd N F w own" "int (length F) = N" by blast
  from proxy_server.iteration_inv [OF assms(1) rd this] show ?thesis using serves_step [OF assms(4)] by blast
qed

theorem proxy_iteration_returns_witness:
  "\<exists>n w'. aeProcessEvents demo_api (proxy_procs RemoteDown demo_api) idle_proxy AE_ALL_EVENTS = Some (n, w')"
proof -
  from proxy_iteration_returns [OF demo_server idle_ready disjI1 [OF refl] serves_start] show ?thesis by blast
qed

text \<open>
  The parser accepts \<open>80->81\<close>, a policy without an address for its host; the first client that is
  accepted makes the proxy read a null pointer.
\<close>
theorem address_needed:
  "\<exists>pol. ParsePolicy \<lparr>addr = None, port = 0\<rparr> 0 False [56, 48, 45, 62, 56, 49] = Some (Go (Some pol)) \<and>
     (\<forall>w c. proxy_policy w = pol \<longrightarrow> AllocRemote A w c = None)"
proof -
  have p: "map_option (\<lambda>r. case r of Go (Some pol) \<Rightarrow> remote_name pol = None | _ \<Rightarrow> False)
      (ParsePolicy \<lparr>addr = None, port = 0\<rparr> 0 False [56, 48, 45, 62, 56, 49]) = Some True" by code_simp
  obtain r where r: "ParsePolicy \<lparr>addr = None, port = 0\<rparr> 0 False [56, 48, 45, 62, 56, 49] = Some r"
    using p by (cases "ParsePolicy \<lparr>addr = None, port = 0\<rparr> 0 False [56, 48, 45, 62, 56, 49]") auto
  then obtain pol where pol: "r = Go (Some pol)" "remote_name pol = None" using p by (auto split: outcome.splits option.splits)
  have "AllocRemote A w c = None" if "proxy_policy w = pol" for w c
    using that pol(2) by (auto simp: AllocRemote_def remote_name_def bind_eq_None_conv Let_def split: prod.splits)
  then show ?thesis using r pol(1) by blast
qed

text \<open>
  C8. \<open>FreeClient\<close> releases exactly what belongs to the connection: both \<open>proxy_client\<close>s, both
  buffer lists, header and chunks, both descriptors and all their events (\<^const>\<open>released\<close>); every
  other connection is left as it was.
\<close>
theorem free_client_exact:
  assumes "proxy_server A watched limit N" "proxy_inv watched lfd N F w own" "a \<in> dom own" "is_client (pc w a)"
  shows "\<exists>w'. FreeClient A w (Some a) = Some w' \<and> proxy_inv watched lfd N F w' (own |` (- {a, peer w a})) \<and>
    released w own a w' \<and> w' = w\<lparr>el := el w', fds := fds w', bufs := bufs w', clients := clients w'\<rparr>"
proof -
  obtain w' where w': "FreeClient A w (Some a) = Some w'" "proxy_inv watched lfd N F w' (own |` (- {a, peer w a}))"
    "w' = w\<lparr>el := el w', fds := fds w - {c_fd (pc w a)} - {c_fd (pc w (peer w a))}, bufs := bufs w', clients := clients w'\<rparr>"
    "released w own a w'"
    using proxy_loop.FreeClient_inv [OF proxy_server.axioms(1) [OF assms(1)] assms(2-4)] by blast
  have "fds w' = fds w - {c_fd (pc w a)} - {c_fd (pc w (peer w a))}" by (subst w'(3)) simp
  then have "w' = w\<lparr>el := el w', fds := fds w', bufs := bufs w', clients := clients w'\<rparr>" using w'(3) by simp
  with w' show ?thesis by blast
qed

theorem free_client_exact_witness:
  "\<exists>w'. FreeClient demo_api (demo_conn 0 0 (\<lambda>_ _ _. RAgain) (\<lambda>_ _ _. SAgain)) (Some 0) = Some w' \<and>
     cells (clients w') 0 = None \<and> cells (clients w') 1 = None \<and> cells (lists (bufs w')) 0 = None \<and> fds w' = {3}"
proof -
  let ?w = "demo_conn 0 0 (\<lambda>_ _ _. RAgain) (\<lambda>_ _ _. SAgain)"
  have i: "proxy_inv select_watched 3 1024 (replicate 1024 (0, 0)) ?w (demo_own 0)"
    by (rule demo_conn_inv) (simp_all add: honest_def)
  have c: "0 \<in> dom (demo_own 0)" "is_client (pc ?w 0)"
    by (simp_all add: demo_conn_simps is_client_def)
  have p: "peer ?w 0 = 1" "c_fd (pc ?w 0) = 9" "c_fd (pc ?w 1) = 8" "c_blist (pc ?w 0) = Some 0"
    by (simp_all add: demo_conn_simps)
  have q: "fds ?w = {3, 8, 9}" by (simp add: demo_conn_def)
  from free_client_exact [OF demo_server i c] show ?thesis
    unfolding released_def Let_def p q by (auto simp: restrict_map_def)
qed

text \<open>
  C9. When the remote closes its side, \<open>tcpproxy.c\<close> keeps the connection until the client has
  what is still in its buffer: \<open>ReadIncome\<close> releases the connection at once, descriptors and
  memory, when the buffer is empty, and otherwise changes nothing but the flag of the client.
  \<open>2baktcp.c\<close> ignores the end of the stream.
\<close>
theorem remote_eof:
  assumes "proxy_server A watched limit N" "proxy_inv watched lfd N F w own" "r \<in> dom own" "is_remote (pc w r)"
    and "BufferListGetSpace (bufs w) (c_blist (pc w (peer w r))) = Some (Some q, len)"
    and "recv_of w (calls w) (c_fd (pc w r)) len = RData []"
  shows "(\<exists>w'. tp_ReadIncome A w (c_fd (pc w r)) (Some r) = Some w' \<and>
      (if content own (peer w r) = []
       then proxy_inv watched lfd N F w' (own |` (- {r, peer w r})) \<and> released w own (peer w r) w'
       else proxy_inv watched lfd N F w' own \<and> w' = w\<lparr>calls := Suc (calls w), clients := clients w'\<rparr> \<and>
         cells (clients w') = (cells (clients w))(peer w r \<mapsto> (pc w (peer w r))\<lparr>c_flags := c_flags (pc w (peer w r)) OR CLIENT_CLOSE_AFTER_SENT\<rparr>))) \<and>
    bak_ReadIncome A w (c_fd (pc w r)) (Some r) = Some (w\<lparr>calls := Suc (calls w)\<rparr>)"
proof -
  note L = proxy_server.axioms(1) [OF assms(1)]
  let ?w = "w\<lparr>calls := Suc (calls w)\<rparr>"
  have inv: "proxy_inv watched lfd N F ?w own" using assms(2) by simp
  have r: "is_remote (pc ?w r)" using assms(4) by simp
  have cb: "call_OnError rd A ?w (Some r) = rd A ?w (Some r)" for rd
    using end_cell [OF proxy_invD(3) [OF assms(2)] assms(3)] assms(4) by (simp add: call_OnError_def is_remote_def)
  note R = proxy_loop.RemoteDown_closes [OF L inv assms(3) r]
  have p: "{peer w r, peer w (peer w r)} = {r, peer w r}" using R(4) by auto
  have rc: "released ?w own a w' = released w own a w'" for a w' by (simp add: released_def)
  note C = proxy_loop.CloseAfterSent_inv [OF L inv R(3,2)]
  have "\<exists>w'. RemoteDown A ?w (Some r) = Some w' \<and>
      (if content own (peer w r) = []
       then proxy_inv watched lfd N F w' (own |` (- {r, peer w r})) \<and> released w own (peer w r) w'
       else proxy_inv watched lfd N F w' own \<and> w' = w\<lparr>calls := Suc (calls w), clients := clients w'\<rparr> \<and>
         cells (clients w') = (cells (clients w))(peer w r \<mapsto> (pc w (peer w r))\<lparr>c_flags := c_flags (pc w (peer w r)) OR CLIENT_CLOSE_AFTER_SENT\<rparr>))"
  proof (cases "content own (peer w r) = []")
    case True
    then show ?thesis using C p R(1) by (simp add: rc)
  next
    case False
    then show ?thesis using C R(1) by simp
  qed
  then show ?thesis
    using proxy_server.read_eof [OF assms(1) assms(2,3,5,6)] cb
    by (simp add: tp_ReadIncome_def bak_ReadIncome_def bak_RemoteDown_def)
qed

theorem remote_eof_witness:
  "\<exists>w'. tp_ReadIncome demo_api (demo_conn 1 0 (\<lambda>_ _ _. RData []) (\<lambda>_ _ _. SAgain)) 8 (Some 1) = Some w' \<and>
     proxy_inv select_watched 3 1024 (replicate 1024 (0, 0)) w' (demo_own 1 |` (- {1, 0})) \<and> fds w' = {3} \<and> cells (clients w') 0 = None"
proof -
  let ?w = "demo_conn 1 0 (\<lambda>_ _ _. RData []) (\<lambda>_ _ _. SAgain)"
  have i: "proxy_inv select_watched 3 1024 (replicate 1024 (0, 0)) ?w (demo_own 1)"
    by (rule demo_conn_inv) (simp_all add: honest_def)
  have c: "1 \<in> dom (demo_own 1)" "is_remote (pc ?w 1)" by (simp_all add: demo_conn_simps is_remote_def)
  have s: "BufferListGetSpace (bufs ?w) (c_blist (pc ?w (peer ?w 1))) = Some (Some (2, 0), 16)"
    by (simp add: demo_conn_simps demo_bufs_def BufferListGetSpace_def BUFFER_CHUNK_SIZE_def)
  have e: "recv_of ?w (calls ?w) (c_fd (pc ?w 1)) 16 = RData []" by (simp add: demo_conn_simps)
  have p: "peer ?w 1 = 0" "peer ?w 0 = 1" "c_fd (pc ?w 1) = 8" "c_fd (pc ?w 0) = 9" by (simp_all add: demo_conn_simps)
  have "content (demo_own 1) (peer ?w 1) = []" unfolding p by (simp add: content_def demo_own_def demo_list_def)
  then obtain w' where w': "tp_ReadIncome demo_api ?w (c_fd (pc ?w 1)) (Some 1) = Some w'"
    "proxy_inv select_watched 3 1024 (replicate 1024 (0, 0)) w' (demo_own 1 |` (- {1, peer ?w 1}))"
    "released ?w (demo_own 1) (peer ?w 1) w'"
    using remote_eof [OF demo_server i c s e] by auto
  have "fds ?w = {3, 8, 9}" by (simp add: demo_conn_def)
  with w' show ?thesis unfolding released_def Let_def p by auto
qed

text \<open>
  C10. A client marked in this way gets all of its buffer and is closed then: when its buffer holds
  at most \<^const>\<open>MAX_WRITE_PER_EVENT\<close> bytes and every \<open>send\<close> takes at least one byte, one call of
  \<open>SendOutcome\<close> transmits exactly the bytes of the buffer and releases the connection, descriptors
  and memory.
\<close>
theorem marked_client_drained:
  assumes "proxy_server A watched limit N" "proxy_inv watched lfd N F w own" "c \<in> dom own" "is_client (pc w c)"
    and "c_flags (pc w c) AND CLIENT_CLOSE_AFTER_SENT \<noteq> 0" "content own c \<noteq> []"
    and "\<And>k bs. bs \<noteq> [] \<Longrightarrow> \<exists>n>0. send_of w k (c_fd (pc w c)) bs = SSent n"
    and "int (length (content own c)) \<le> MAX_WRITE_PER_EVENT"
  shows "\<exists>w'. tp_SendOutcome A w (c_fd (pc w c)) (Some c) = Some w' \<and>
    proxy_inv watched lfd N F w' (own |` (- {c, peer w c})) \<and> released w own c w' \<and>
    bytes_at (c_fd (pc w c)) c (transmitted w') = bytes_at (c_fd (pc w c)) c (transmitted w) @ content own c"
proof -
  note L = proxy_server.axioms(1) [OF assms(1)]
  note I = proxy_invD [OF assms(2)]
  obtain X xs where o: "own c = Some (X, xs)" using assms(3) by auto
  then have xs: "content own c = xs" by (simp add: content_def)
  have "int 0 + int (length xs) \<le> MAX_WRITE_PER_EVENT" using assms(8) xs by simp
  with proxy_server.send_all [OF assms(1) assms(2) o refl assms(4,5,7), of 0] obtain w' where
    w': "send_loop A w (c_fd (pc w c)) (Some c) 0 = Some (ClientGone, w')"
      "proxy_inv watched lfd N F w' (own |` (- {c, peer w c}))" "released w own c w'"
      "bytes_at (c_fd (pc w c)) c (transmitted w') = bytes_at (c_fd (pc w c)) c (transmitted w) @ xs" by auto
  obtain buf len where gd: "BufferListGetData (bufs w) (c_blist (pc w c)) = Some (buf, len)" "buf = None \<longleftrightarrow> content own c = []"
    by (rule bl_get_data [OF bufs_okD(2) [OF I(4) assms(3)]]) (rule that)
  obtain q where "buf = Some q" using gd(2) assms(6) by blast
  then have "tp_SendOutcome A w (c_fd (pc w c)) (Some c) = Some w'"
    using end_cell [OF I(3) assms(3)] gd(1) w'(1) by (simp add: tp_SendOutcome_def SendOutcome_with_def)
  then show ?thesis using w'(2-4) xs by blast
qed

theorem marked_client_drained_witness:
  "\<exists>w'. tp_SendOutcome demo_api (demo_conn 0 1 (\<lambda>_ _ _. RAgain) (\<lambda>_ _ bs. SSent (int (length bs)))) 9 (Some 0) = Some w' \<and>
     bytes_at 9 0 (transmitted w') = demo_bytes \<and> fds w' = {3} \<and> cells (clients w') 0 = None"
proof -
  let ?w = "demo_conn 0 1 (\<lambda>_ _ _. RAgain) (\<lambda>_ _ bs. SSent (int (length bs)))"
  have i: "proxy_inv select_watched 3 1024 (replicate 1024 (0, 0)) ?w (demo_own 0)"
    by (rule demo_conn_inv) (simp_all add: honest_def)
  have c: "0 \<in> dom (demo_own 0)" "is_client (pc ?w 0)" "c_flags (pc ?w 0) AND CLIENT_CLOSE_AFTER_SENT \<noteq> 0"
    by (simp_all add: demo_conn_simps is_client_def CLIENT_CLOSE_AFTER_SENT_def)
  have d: "content (demo_own 0) 0 = demo_bytes" by (simp add: content_def demo_own_def demo_list_def)
  then have n: "content (demo_own 0) 0 \<noteq> []" "int (length (content (demo_own 0) 0)) \<le> MAX_WRITE_PER_EVENT"
    by (simp_all add: demo_bytes_def MAX_WRITE_PER_EVENT_def)
  have s: "\<exists>n>0. send_of ?w k (c_fd (pc ?w 0)) bs = SSent n" if "bs \<noteq> []" for k bs using that by (simp add: demo_conn_simps)
  have t: "transmitted ?w = []" "fds ?w = {3, 8, 9}" by (simp_all add: demo_conn_def demo_world_def)
  have p: "peer ?w 0 = 1" "c_fd (pc ?w 0) = 9" "c_fd (pc ?w 1) = 8" by (simp_all add: demo_conn_simps)
  from marked_client_drained [OF demo_server i c n(1) s n(2)] d show ?thesis
    unfolding released_def Let_def t p by (auto simp: bytes_at_def)
qed



text \<open>
  Accepting a client whose remote can be reached sets up a connection: two ends that know
  each other, with empty buffers of their own, both registered for reading, beside the
  connections that exist.
\<close>
theorem accept_connects:
  assumes "proxy_server A watched limit N" "proxy_inv watched lfd N F w own"
    and "f = accept_of w (calls w) (fds w)" "f \<noteq> -1" "f < N"
    and "g = connect_first w (Suc (calls w)) (insert f (fds w))" "g \<noteq> -1" "g < N"
    and "\<And>l fd msk k. aeApiAdd A l fd msk \<noteq> Some (-1, k)"
  shows "\<exists>w' c r X Y. Proxy_AcceptTcpHandler A w fd = Some w' \<and> c \<notin> dom own \<and> r \<notin> dom own \<and>
    proxy_inv watched lfd N F w' (own(c \<mapsto> (X, []), r \<mapsto> (Y, []))) \<and> is_client (pc w' c) \<and> peer w' c = r \<and>
    c_fd (pc w' c) = f \<and> c_fd (pc w' r) = g \<and>
    reg_mask (el w') f = AE_READABLE \<and> reg_mask (el w') g = AE_READABLE"
proof -
  have ok: "aeCreateFileEvent A l x msk p cd \<noteq> Some (AE_ERR, l')" if "x < setsize l" for l x msk p cd l'
    using that assms(9) by (auto simp: aeCreateFileEvent_def bind_eq_Some_conv AE_defs Let_def split: if_splits)
  have N: "setsize (el w) = N" using proxy_invD(1) [OF assms(2)] by (simp add: loop_ok_def)
  show ?thesis
  proof (rule proxy_loop.accept_cases [OF proxy_server.axioms(1) [OF assms(1)] assms(2-4,6), of fd])
    fix w2
    assume "g = -1 \<or> (\<exists>l. aeCreateFileEvent A (el w) g AE_READABLE ReadIncomeH (Some (Suc (brk (clients w)))) = Some (AE_ERR, l))"
    then show ?thesis using assms(7,8) ok N by blast
  next
    fix w2
    assume "\<exists>l c l'. aeCreateFileEvent A l f AE_READABLE ReadIncomeH (Some c) = Some (AE_ERR, l') \<and> loop_ok watched N F l"
    then show ?thesis using assms(5) ok by (auto simp: loop_ok_def)
  next
    fix w2 c r X Y
    assume "Proxy_AcceptTcpHandler A w fd = Some w2" "c \<notin> dom own" "r \<notin> dom own"
      "proxy_inv watched lfd N F w2 (own(c \<mapsto> (X, []), r \<mapsto> (Y, [])))" "is_client (pc w2 c)" "peer w2 c = r"
      "c_fd (pc w2 c) = f" "c_fd (pc w2 r) = g" "reg_mask (el w2) f = AE_READABLE" "reg_mask (el w2) g = AE_READABLE"
    then show ?thesis
      by (intro exI [of _ w2] exI [of _ c] exI [of _ r] exI [of _ X] exI [of _ Y] conjI)
  qed
qed

theorem accept_connects_witness:
  "\<exists>w' c. Proxy_AcceptTcpHandler demo_api idle_proxy 3 = Some w' \<and> c_fd (pc w' c) = 9 \<and> reg_mask (el w') 8 = AE_READABLE"
proof -
  obtain F where F: "proxy_inv select_watched 3 1024 F idle_proxy Map.empty"
    using proxy_loop.ready_inv [OF proxy_server.axioms(1) [OF demo_server] idle_ready] by blast
  have f: "9 = accept_of idle_proxy (calls idle_proxy) (fds idle_proxy)"
    "8 = connect_first idle_proxy (Suc (calls idle_proxy)) (insert 9 (fds idle_proxy))"
    by (simp_all add: idle_proxy_def demo_world_def connect_first_def)
  have a: "aeApiAdd demo_api l fd msk \<noteq> Some (-1, k)" for l fd msk k
    by (auto simp: demo_api_def select_api_def select_aeApiAddEvent_def bind_eq_Some_conv Let_def split: if_splits)
  from accept_connects [OF demo_server F f(1) _ _ f(2) _ _ a, of 3] show ?thesis by auto
qed

text \<open>
  When the remote cannot be reached, the accepted descriptor is closed and no connection
  appears, but memory leaks: the remote's \<open>proxy_client\<close> and the client's buffer list stay
  allocated although nothing refers to them.
\<close>
theorem refused_connect_leaks:
  assumes "proxy_server A watched limit N" "proxy_inv watched lfd N F w own"
    and "f = accept_of w (calls w) (fds w)" "f \<noteq> -1"
    and "connect_first w (Suc (calls w)) (insert f (fds w)) = -1"
  shows "\<exists>w'. Proxy_AcceptTcpHandler A w fd = Some w' \<and> proxy_inv watched lfd N F w' own \<and> f \<notin> fds w' \<and>
    cells (clients w) (Suc (brk (clients w))) = None \<and> cells (clients w') (Suc (brk (clients w))) \<noteq> None \<and>
    cells (lists (bufs w)) (brk (lists (bufs w))) = None \<and> cells (lists (bufs w')) (brk (lists (bufs w))) \<noteq> None"
proof -
  note I = proxy_invD [OF assms(2)]
  have new: "cells (clients w) (Suc (brk (clients w))) = None" "cells (lists (bufs w)) (brk (lists (bufs w))) = None"
    using kernel_okD(5) [OF I(2)] bufs_okD(1) [OF I(4)] by (auto simp: heap_ok_def bl_env_def)
  have f: "f \<notin> fds w" using kernel_okD(3) [OF I(2)] assms(3,4) by blast
  show ?thesis
  proof (rule proxy_loop.accept_cases [OF proxy_server.axioms(1) [OF assms(1)] assms(2-4) refl, of fd])
    fix w2
    assume "Proxy_AcceptTcpHandler A w fd = Some w2" "proxy_inv watched lfd N F w2 own" "fds w2 = fds w"
      "cells (clients w2) (Suc (brk (clients w))) \<noteq> None" "cells (lists (bufs w2)) (brk (lists (bufs w))) \<noteq> None"
    then show ?thesis using new f by (intro exI [of _ w2]) simp
  next
    assume "connect_first w (Suc (calls w)) (insert f (fds w)) \<noteq> -1"
    then show ?thesis using assms(5) by simp
  next
    fix w2 c r X Y
    assume "c_fd (pc w2 r) = connect_first w (Suc (calls w)) (insert f (fds w))" "c \<notin> dom own"
      "proxy_inv watched lfd N F w2 (own(c \<mapsto> (X, []), r \<mapsto> (Y, [])))"
    then show ?thesis using assms(5) end_okD [OF proxy_invD(3), of watched lfd N F w2 "own(c \<mapsto> (X, []), r \<mapsto> (Y, []))" r]
      by (simp add: end_ok_def)
  qed
qed

theorem refused_connect_leaks_witness:
  "\<exists>w'. Proxy_AcceptTcpHandler demo_api (idle_proxy\<lparr>fds := {3, 8}\<rparr>) 3 = Some w' \<and> cells (clients w') 1 \<noteq> None"
proof -
  obtain F where "proxy_inv select_watched 3 1024 F idle_proxy Map.empty"
    using proxy_loop.ready_inv [OF proxy_server.axioms(1) [OF demo_server] idle_ready] by blast
  then have F: "proxy_inv select_watched 3 1024 F (idle_proxy\<lparr>fds := {3, 8}\<rparr>) Map.empty"
    by (rule inv_fds) simp_all
  have f: "9 = accept_of (idle_proxy\<lparr>fds := {3, 8}\<rparr>) (calls (idle_proxy\<lparr>fds := {3, 8}\<rparr>)) (fds (idle_proxy\<lparr>fds := {3, 8}\<rparr>))"
    "connect_first (idle_proxy\<lparr>fds := {3, 8}\<rparr>) (Suc (calls (idle_proxy\<lparr>fds := {3, 8}\<rparr>))) (insert 9 (fds (idle_proxy\<lparr>fds := {3, 8}\<rparr>))) = -1"
    "brk (clients (idle_proxy\<lparr>fds := {3, 8}\<rparr>)) = 0"
    by (simp_all add: idle_proxy_def demo_world_def connect_first_def)
  from refused_connect_leaks [OF demo_server F f(1) _ f(2), of 3] f(3) show ?thesis by auto
qed

end
