(* ===== verification/Adlist.thy ===== *)
theory Adlist
  imports Linked
begin

text \<open>
  The double-linked lists of \<open>doublelink/adlist.c\<close> and their older copy in
  \<open>redis_ae/epoll-mode-copied-from-redis/adlist.c\<close>: list headers, nodes and iterators, each
  in a heap of its own. A value is a \<open>void *\<close> that the lists only pass on. The callbacks
  \<open>dup\<close>, \<open>free\<close> and \<open>match\<close> of a list work on the memory \<open>'s\<close> of the client; \<open>None\<close> as the
  result of a callback means that it is undefined there.
\<close>

record listNode =
  prev :: ptr
  nxt :: ptr
  nvalue :: ptr

record 's adlist =
  adname :: string
  head :: ptr
  tail :: ptr
  dup :: "(ptr \<Rightarrow> 's \<Rightarrow> (ptr \<times> 's) option) option"
  free_fn :: "(ptr \<Rightarrow> 's \<Rightarrow> 's option) option"
  match :: "(ptr \<Rightarrow> ptr \<Rightarrow> 's \<Rightarrow> (bool \<times> 's) option) option"
  len :: "64 word"

record listIter =
  inext :: ptr
  direction :: int

record 's admem =
  dlists :: "'s adlist heap"
  dnodes :: "listNode heap"
  diters :: "listIter heap"
  client :: 's

definition AL_START_HEAD :: int where "AL_START_HEAD = 0"
definition AL_START_TAIL :: int where "AL_START_TAIL = 1"

text \<open>Assignments through a pointer to each of the three structs.\<close>

definition set_list :: "'s admem \<Rightarrow> ptr \<Rightarrow> ('s adlist \<Rightarrow> 's adlist) \<Rightarrow> 's admem option" where
  "set_list m p f = map_option (\<lambda>h. m\<lparr>dlists := h\<rparr>) (store (dlists m) p f)"

definition set_node :: "'s admem \<Rightarrow> ptr \<Rightarrow> (listNode \<Rightarrow> listNode) \<Rightarrow> 's admem option" where
  "set_node m p f = map_option (\<lambda>h. m\<lparr>dnodes := h\<rparr>) (store (dnodes m) p f)"

definition set_iter :: "'s admem \<Rightarrow> ptr \<Rightarrow> (listIter \<Rightarrow> listIter) \<Rightarrow> 's admem option" where
  "set_iter m p f = map_option (\<lambda>h. m\<lparr>diters := h\<rparr>) (store (diters m) p f)"

definition free_node :: "'s admem \<Rightarrow> ptr \<Rightarrow> 's admem option" where
  "free_node m p = map_option (\<lambda>h. m\<lparr>dnodes := h\<rparr>) (cfree (dnodes m) p)"

section \<open>Creating and releasing a list\<close>

definition listCreate :: "'s admem \<Rightarrow> (ptr \<times> 's admem) option" where
  "listCreate m = (let (p, h) = cmalloc (dlists m); m = m\<lparr>dlists := h\<rparr> in
     if p = None then Some (None, m)
     else do {
       m \<leftarrow> set_list m p (\<lambda>l. l\<lparr>head := None, tail := None\<rparr>);
       m \<leftarrow> set_list m p (\<lambda>l. l\<lparr>len := 0\<rparr>);
       m \<leftarrow> set_list m p (\<lambda>l. l\<lparr>dup := None\<rparr>);
       m \<leftarrow> set_list m p (\<lambda>l. l\<lparr>free_fn := None\<rparr>);
       m \<leftarrow> set_list m p (\<lambda>l. l\<lparr>match := None\<rparr>);
       Some (p, m)
     })"

text \<open>\<open>if(list->free) list->free(value)\<close>.\<close>

definition call_free :: "'s admem \<Rightarrow> ptr \<Rightarrow> ptr \<Rightarrow> 's admem option" where
  "call_free m lp v = do {
     l \<leftarrow> load (dlists m) lp;
     (case free_fn l of
        None \<Rightarrow> Some m
      | Some f \<Rightarrow> map_option (\<lambda>s. m\<lparr>client := s\<rparr>) (f v (client m)))
   }"

text \<open>\<open>while(len--)\<close>, with \<open>len\<close> read once before the loop.\<close>

primrec release_loop :: "nat \<Rightarrow> 's admem \<Rightarrow> ptr \<Rightarrow> ptr \<Rightarrow> 's admem option" where
  "release_loop 0 m lp current = Some m"
| "release_loop (Suc k) m lp current = do {
     n \<leftarrow> load (dnodes m) current;
     m \<leftarrow> call_free m lp (nvalue n);
     m \<leftarrow> free_node m current;
     release_loop k m lp (nxt n)
   }"

definition listRelease :: "'s admem \<Rightarrow> ptr \<Rightarrow> 's admem option" where
  "listRelease m lp = do {
     l \<leftarrow> load (dlists m) lp;
     m \<leftarrow> release_loop (unat (len l)) m lp (head l);
     h \<leftarrow> cfree (dlists m) lp;
     Some (m\<lparr>dlists := h\<rparr>)
   }"

section \<open>Inserting and deleting nodes\<close>

text \<open>Each function returns its list, or \<open>NULL\<close> when no node could be allocated.\<close>

definition listAddNodeHead :: "'s admem \<Rightarrow> ptr \<Rightarrow> ptr \<Rightarrow> (ptr \<times> 's admem) option" where
  "listAddNodeHead m lp v = (let (np, h) = cmalloc (dnodes m); m = m\<lparr>dnodes := h\<rparr> in
     if np = None then Some (None, m)
     else do {
       m \<leftarrow> set_node m np (\<lambda>n. n\<lparr>nvalue := v\<rparr>);
       l \<leftarrow> load (dlists m) lp;
       m \<leftarrow> (if len l = 0 then do {
            m \<leftarrow> set_list m lp (\<lambda>l. l\<lparr>head := np, tail := np\<rparr>);
            set_node m np (\<lambda>n. n\<lparr>prev := None, nxt := None\<rparr>)
          } else do {
            m \<leftarrow> set_node m np (\<lambda>n. n\<lparr>prev := None\<rparr>);
            m \<leftarrow> set_node m np (\<lambda>n. n\<lparr>nxt := head l\<rparr>);
            m \<leftarrow> set_node m (head l) (\<lambda>n. n\<lparr>prev := np\<rparr>);
            set_list m lp (\<lambda>l. l\<lparr>head := np\<rparr>)
          });
       m \<leftarrow> set_list m lp (\<lambda>l. l\<lparr>len := len l + 1\<rparr>);
       Some (lp, m)
     })"

definition listAddNodeTail :: "'s admem \<Rightarrow> ptr \<Rightarrow> ptr \<Rightarrow> (ptr \<times> 's admem) option" where
  "listAddNodeTail m lp v = (let (np, h) = cmalloc (dnodes m); m = m\<lparr>dnodes := h\<rparr> in
     if np = None then Some (None, m)
     else do {
       m \<leftarrow> set_node m np (\<lambda>n. n\<lparr>nvalue := v\<rparr>);
       l \<leftarrow> load (dlists m) lp;
       m \<leftarrow> (if len l = 0 then do {
            m \<leftarrow> set_list m lp (\<lambda>l. l\<lparr>head := np, tail := np\<rparr>);
            set_node m np (\<lambda>n. n\<lparr>prev := None, nxt := None\<rparr>)
          } else do {
            m \<leftarrow> set_node m np (\<lambda>n. n\<lparr>prev := tail l\<rparr>);
            m \<leftarrow> set_node m np (\<lambda>n. n\<lparr>nxt := None\<rparr>);
            m \<leftarrow> set_node m (tail l) (\<lambda>n. n\<lparr>nxt := np\<rparr>);
            set_list m lp (\<lambda>l. l\<lparr>tail := np\<rparr>)
          });
       m \<leftarrow> set_list m lp (\<lambda>l. l\<lparr>len := len l + 1\<rparr>);
       Some (lp, m)
     })"

definition listInsertNode ::
  "'s admem \<Rightarrow> ptr \<Rightarrow> ptr \<Rightarrow> ptr \<Rightarrow> bool \<Rightarrow> (ptr \<times> 's admem) option" where
  "listInsertNode m lp old v after = (let (np, h) = cmalloc (dnodes m); m = m\<lparr>dnodes := h\<rparr> in
     if np = None then Some (None, m)
     else do {
       m \<leftarrow> set_node m np (\<lambda>n. n\<lparr>nvalue := v\<rparr>);
       m \<leftarrow> (if after then do {
            m \<leftarrow> set_node m np (\<lambda>n. n\<lparr>prev := old\<rparr>);
            o_n \<leftarrow> load (dnodes m) old;
            m \<leftarrow> set_node m np (\<lambda>n. n\<lparr>nxt := nxt o_n\<rparr>);
            l \<leftarrow> load (dlists m) lp;
            if tail l = old then set_list m lp (\<lambda>l. l\<lparr>tail := np\<rparr>) else Some m
          } else do {
            o_n \<leftarrow> load (dnodes m) old;
            m \<leftarrow> set_node m np (\<lambda>n. n\<lparr>prev := prev o_n\<rparr>);
            m \<leftarrow> set_node m np (\<lambda>n. n\<lparr>nxt := old\<rparr>);
            l \<leftarrow> load (dlists m) lp;
            if head l = old then set_list m lp (\<lambda>l. l\<lparr>head := np\<rparr>) else Some m
          });
       n \<leftarrow> load (dnodes m) np;
       m \<leftarrow> (if prev n \<noteq> None then set_node m (prev n) (\<lambda>x. x\<lparr>nxt := np\<rparr>) else Some m);
       n \<leftarrow> load (dnodes m) np;
       m \<leftarrow> (if nxt n \<noteq> None then set_node m (nxt n) (\<lambda>x. x\<lparr>prev := np\<rparr>) else Some m);
       m \<leftarrow> set_list m lp (\<lambda>l. l\<lparr>len := len l + 1\<rparr>);
       Some (lp, m)
     })"

definition listDelNode :: "'s admem \<Rightarrow> ptr \<Rightarrow> ptr \<Rightarrow> 's admem option" where
  "listDelNode m lp np = do {
     n \<leftarrow> load (dnodes m) np;
     m \<leftarrow> (if prev n \<noteq> None then set_node m (prev n) (\<lambda>x. x\<lparr>nxt := nxt n\<rparr>)
          else set_list m lp (\<lambda>l. l\<lparr>head := nxt n\<rparr>));
     n \<leftarrow> load (dnodes m) np;
     m \<leftarrow> (if nxt n \<noteq> None then set_node m (nxt n) (\<lambda>x. x\<lparr>prev := prev n\<rparr>)
          else set_list m lp (\<lambda>l. l\<lparr>tail := prev n\<rparr>));
     n \<leftarrow> load (dnodes m) np;
     m \<leftarrow> call_free m lp (nvalue n);
     m \<leftarrow> free_node m np;
     set_list m lp (\<lambda>l. l\<lparr>len := len l - 1\<rparr>)
   }"

text \<open>\<open>listRotate\<close>: the last node becomes the first.\<close>

definition listRotate :: "'s admem \<Rightarrow> ptr \<Rightarrow> 's admem option" where
  "listRotate m lp = do {
     l \<leftarrow> load (dlists m) lp;
     let tl = tail l;
     if len l \<le> 1 then Some m
     else do {
       n \<leftarrow> load (dnodes m) tl;
       m \<leftarrow> set_list m lp (\<lambda>l. l\<lparr>tail := prev n\<rparr>);
       l \<leftarrow> load (dlists m) lp;
       m \<leftarrow> set_node m (tail l) (\<lambda>n. n\<lparr>nxt := None\<rparr>);
       m \<leftarrow> set_node m (head l) (\<lambda>n. n\<lparr>prev := tl\<rparr>);
       m \<leftarrow> set_node m tl (\<lambda>n. n\<lparr>prev := None\<rparr>);
       m \<leftarrow> set_node m tl (\<lambda>n. n\<lparr>nxt := head l\<rparr>);
       set_list m lp (\<lambda>l. l\<lparr>head := tl\<rparr>)
     }
   }"

section \<open>Iterators\<close>

definition listGetIterator :: "'s admem \<Rightarrow> ptr \<Rightarrow> int \<Rightarrow> (ptr \<times> 's admem) option" where
  "listGetIterator m lp d = (let (ip, h) = cmalloc (diters m); m = m\<lparr>diters := h\<rparr> in
     if ip = None then Some (None, m)
     else do {
       l \<leftarrow> load (dlists m) lp;
       m \<leftarrow> (if d = 0 then set_iter m ip (\<lambda>i. i\<lparr>inext := head l\<rparr>)
            else set_iter m ip (\<lambda>i. i\<lparr>inext := tail l\<rparr>));
       m \<leftarrow> set_iter m ip (\<lambda>i. i\<lparr>direction := d\<rparr>);
       Some (ip, m)
     })"

definition listReleaseIterator :: "'s admem \<Rightarrow> ptr \<Rightarrow> 's admem option" where
  "listReleaseIterator m ip = map_option (\<lambda>h. m\<lparr>diters := h\<rparr>) (cfree (diters m) ip)"

definition listRewind :: "'s admem \<Rightarrow> ptr \<Rightarrow> ptr \<Rightarrow> 's admem option" where
  "listRewind m lp ip = do {
     l \<leftarrow> load (dlists m) lp;
     m \<leftarrow> set_iter m ip (\<lambda>i. i\<lparr>inext := head l\<rparr>);
     set_iter m ip (\<lambda>i. i\<lparr>direction := 0\<rparr>)
   }"

definition listRewindTail :: "'s admem \<Rightarrow> ptr \<Rightarrow> ptr \<Rightarrow> 's admem option" where
  "listRewindTail m lp ip = do {
     l \<leftarrow> load (dlists m) lp;
     m \<leftarrow> set_iter m ip (\<lambda>i. i\<lparr>inext := tail l\<rparr>);
     set_iter m ip (\<lambda>i. i\<lparr>direction := 1\<rparr>)
   }"

definition listNext :: "'s admem \<Rightarrow> ptr \<Rightarrow> (ptr \<times> 's admem) option" where
  "listNext m ip = do {
     i \<leftarrow> load (diters m) ip;
     let current = inext i;
     if current \<noteq> None then do {
       n \<leftarrow> load (dnodes m) current;
       m \<leftarrow> set_iter m ip (\<lambda>i. i\<lparr>inext := (if direction i = 0 then nxt n else prev n)\<rparr>);
       Some (current, m)
     } else Some (None, m)
   }"

section \<open>Traversals\<close>

text \<open>
  What a traversal prints is the list of the values it reads; \<open>deref\<close> is the
  \<open>*(int *)\<close> of a value in the memory of the client. Neither traversal releases its
  iterator.
\<close>

partial_function (option) print_loop ::
  "(ptr \<Rightarrow> 's \<Rightarrow> int option) \<Rightarrow> 's admem \<Rightarrow> ptr \<Rightarrow> (int list \<times> 's admem) option" where
  "print_loop deref m ip = do {
     (np, m) \<leftarrow> listNext m ip;
     if np = None then Some ([], m)
     else do {
       n \<leftarrow> load (dnodes m) np;
       v \<leftarrow> deref (nvalue n) (client m);
       (vs, m) \<leftarrow> print_loop deref m ip;
       Some (v # vs, m)
     }
   }"

definition listpretraval ::
  "(ptr \<Rightarrow> 's \<Rightarrow> int option) \<Rightarrow> 's admem \<Rightarrow> ptr \<Rightarrow> (int list \<times> 's admem) option" where
  "listpretraval deref m lp = do {
     l \<leftarrow> load (dlists m) lp;
     if len l = 0 then Some ([], m)
     else do {
       (ip, m) \<leftarrow> listGetIterator m lp 0;
       print_loop deref m ip
     }
   }"

definition listposttraval ::
  "(ptr \<Rightarrow> 's \<Rightarrow> int option) \<Rightarrow> 's admem \<Rightarrow> ptr \<Rightarrow> (int list \<times> 's admem) option" where
  "listposttraval deref m lp = do {
     (ip, m) \<leftarrow> listGetIterator m lp 1;
     print_loop deref m ip
   }"

section \<open>Copying, searching and indexing\<close>

text \<open>The loop of \<open>listDup\<close>; \<open>False\<close> tells that it gave up and has released everything.\<close>

partial_function (option) dup_loop ::
  "'s admem \<Rightarrow> ptr \<Rightarrow> ptr \<Rightarrow> (bool \<times> 's admem) option" where
  "dup_loop m copy ip = do {
     (np, m) \<leftarrow> listNext m ip;
     if np = None then Some (True, m)
     else do {
       c \<leftarrow> load (dlists m) copy;
       n \<leftarrow> load (dnodes m) np;
       (ok, v, m) \<leftarrow> (case dup c of
            None \<Rightarrow> Some (True, nvalue n, m)
          | Some f \<Rightarrow> do {
              (v, s) \<leftarrow> f (nvalue n) (client m);
              Some (v \<noteq> None, v, m\<lparr>client := s\<rparr>)
            });
       if \<not> ok then do {
         m \<leftarrow> listRelease m copy;
         m \<leftarrow> listReleaseIterator m ip;
         Some (False, m)
       } else do {
         (r, m) \<leftarrow> listAddNodeTail m copy v;
         if r = None then do {
           m \<leftarrow> listRelease m copy;
           m \<leftarrow> listReleaseIterator m ip;
           Some (False, m)
         } else dup_loop m copy ip
       }
     }
   }"

definition listDup :: "'s admem \<Rightarrow> ptr \<Rightarrow> (ptr \<times> 's admem) option" where
  "listDup m orig = do {
     (copy, m) \<leftarrow> listCreate m;
     if copy = None then Some (None, m)
     else do {
       l \<leftarrow> load (dlists m) orig;
       m \<leftarrow> set_list m copy (\<lambda>c. c\<lparr>dup := dup l\<rparr>);
       m \<leftarrow> set_list m copy (\<lambda>c. c\<lparr>free_fn := free_fn l\<rparr>);
       m \<leftarrow> set_list m copy (\<lambda>c. c\<lparr>match := match l\<rparr>);
       (ip, m) \<leftarrow> listGetIterator m orig 0;
       (ok, m) \<leftarrow> dup_loop m copy ip;
       if \<not> ok then Some (None, m)
       else do {
         m \<leftarrow> listReleaseIterator m ip;
         Some (copy, m)
       }
     }
   }"

partial_function (option) search_loop ::
  "'s admem \<Rightarrow> ptr \<Rightarrow> ptr \<Rightarrow> ptr \<Rightarrow> (ptr \<times> 's admem) option" where
  "search_loop m lp key ip = do {
     (np, m) \<leftarrow> listNext m ip;
     if np = None then do {
       m \<leftarrow> listReleaseIterator m ip;
       Some (None, m)
     } else do {
       l \<leftarrow> load (dlists m) lp;
       n \<leftarrow> load (dnodes m) np;
       (hit, m) \<leftarrow> (case match l of
            None \<Rightarrow> Some (key = nvalue n, m)
          | Some f \<Rightarrow> map_option (\<lambda>(b, s). (b, m\<lparr>client := s\<rparr>)) (f (nvalue n) key (client m)));
       if hit then do {
         m \<leftarrow> listReleaseIterator m ip;
         Some (np, m)
       } else search_loop m lp key ip
     }
   }"

definition listSearchKey :: "'s admem \<Rightarrow> ptr \<Rightarrow> ptr \<Rightarrow> (ptr \<times> 's admem) option" where
  "listSearchKey m lp key = do {
     (ip, m) \<leftarrow> listGetIterator m lp 0;
     search_loop m lp key ip
   }"

text \<open>\<open>while(index--&&n) n=n->prev\<close> and its forward twin.\<close>

primrec index_loop :: "(listNode \<Rightarrow> ptr) \<Rightarrow> nat \<Rightarrow> listNode heap \<Rightarrow> ptr \<Rightarrow> ptr option" where
  "index_loop link 0 h n = Some n"
| "index_loop link (Suc k) h n = (if n = None then Some n
     else do {
       c \<leftarrow> load h n;
       index_loop link k h (link c)
     })"

definition LONG_MIN :: int where "LONG_MIN = - (2 ^ 63)"

text \<open>The negation of the smallest \<open>long\<close> is undefined.\<close>

definition listIndex :: "'s admem \<Rightarrow> ptr \<Rightarrow> int \<Rightarrow> ptr option" where
  "listIndex m lp index = do {
     l \<leftarrow> load (dlists m) lp;
     if index < 0 then do {
       _ \<leftarrow> guard (index \<noteq> LONG_MIN);
       index_loop prev (nat (- index - 1)) (dnodes m) (tail l)
     } else index_loop nxt (nat index) (dnodes m) (head l)
   }"

section \<open>The older copy\<close>

text \<open>
  \<open>epoll-mode-copied-from-redis/adlist.c\<close> has the same \<open>listCreate\<close>, \<open>listAddNodeTail\<close>,
  \<open>listDelNode\<close>, \<open>listNext\<close> and \<open>listReleaseIterator\<close>. Its \<open>listGetIterator\<close> does not test
  the result of \<open>malloc\<close>, and its \<open>listSearchKey\<close> does nothing for a list with \<open>match\<close>.
\<close>

definition old_listGetIterator :: "'s admem \<Rightarrow> ptr \<Rightarrow> int \<Rightarrow> (ptr \<times> 's admem) option" where
  "old_listGetIterator m lp d = (let (ip, h) = cmalloc (diters m); m = m\<lparr>diters := h\<rparr> in do {
     l \<leftarrow> load (dlists m) lp;
     m \<leftarrow> (if d = AL_START_HEAD then set_iter m ip (\<lambda>i. i\<lparr>inext := head l\<rparr>)
          else set_iter m ip (\<lambda>i. i\<lparr>inext := tail l\<rparr>));
     m \<leftarrow> set_iter m ip (\<lambda>i. i\<lparr>direction := d\<rparr>);
     Some (ip, m)
   })"

partial_function (option) old_search_loop ::
  "'s admem \<Rightarrow> ptr \<Rightarrow> ptr \<Rightarrow> ptr \<Rightarrow> (ptr \<times> 's admem) option" where
  "old_search_loop m lp key ip = do {
     (np, m) \<leftarrow> listNext m ip;
     if np = None then do {
       m \<leftarrow> listReleaseIterator m ip;
       Some (None, m)
     } else do {
       l \<leftarrow> load (dlists m) lp;
       n \<leftarrow> load (dnodes m) np;
       if match l = None \<and> key = nvalue n then do {
         m \<leftarrow> listReleaseIterator m ip;
         Some (np, m)
       } else old_search_loop m lp key ip
     }
   }"

definition old_listSearchKey :: "'s admem \<Rightarrow> ptr \<Rightarrow> ptr \<Rightarrow> (ptr \<times> 's admem) option" where
  "old_listSearchKey m lp key = do {
     (ip, m) \<leftarrow> old_listGetIterator m lp AL_START_HEAD;
     old_search_loop m lp key ip
   }"

end
