(* ===== verification/Adlist_Correct.thy ===== *)
theory Adlist_Correct
  imports Adlist
begin

text \<open>
  What the operations of \<open>adlist.c\<close> do to the sequence of values of a list.
  \<open>dseg N p es q\<close>: the entries \<open>es\<close> (address and value) are linked in both directions in
  \<open>N\<close>; the first node points back to \<open>p\<close> and the last one forward to \<open>q\<close>.
  \<open>holds m a es\<close>: the header at \<open>a\<close> heads exactly the entries \<open>es\<close>.
\<close>

section \<open>Double-linked segments\<close>

definition firstp :: "(nat \<times> ptr) list \<Rightarrow> ptr \<Rightarrow> ptr" where
  "firstp es q = (case es of [] \<Rightarrow> q | e # _ \<Rightarrow> Some (fst e))"

definition lastp :: "(nat \<times> ptr) list \<Rightarrow> ptr \<Rightarrow> ptr" where
  "lastp es p = (if es = [] then p else Some (fst (last es)))"

lemma firstp_simps [simp]: "firstp [] q = q" "firstp (e # es) q = Some (fst e)"
  "firstp (es @ fs) q = firstp es (firstp fs q)"
  by (simp_all add: firstp_def split: list.split)

lemma lastp_simps [simp]: "lastp [] p = p" "lastp (e # es) p = lastp es (Some (fst e))"
  "lastp (es @ fs) p = lastp fs (lastp es p)"
  by (simp_all add: lastp_def)

fun dseg :: "(nat \<rightharpoonup> listNode) \<Rightarrow> ptr \<Rightarrow> (nat \<times> ptr) list \<Rightarrow> ptr \<Rightarrow> bool" where
  "dseg N p [] q \<longleftrightarrow> True"
| "dseg N p (e # es) q \<longleftrightarrow> N (fst e) = Some \<lparr>prev = p, nxt = firstp es q, nvalue = snd e\<rparr> \<and>
     dseg N (Some (fst e)) es q"

lemma dseg_append:
  "dseg N p (es @ fs) q \<longleftrightarrow> dseg N p es (firstp fs q) \<and> dseg N (lastp es p) fs q"
  by (induction es arbitrary: p) auto

lemma dseg_upd [simp]: "a \<notin> fst ` set es \<Longrightarrow> dseg (N(a := x)) p es q = dseg N p es q"
  by (induction es arbitrary: p) auto

lemma dseg_cong:
  "(\<And>a. a \<in> fst ` set es \<Longrightarrow> N' a = N a) \<Longrightarrow> dseg N' p es q = dseg N p es q"
  by (induction es arbitrary: p) auto

lemma dseg_cell: "dseg N p es q \<Longrightarrow> e \<in> set es \<Longrightarrow> \<exists>n. N (fst e) = Some n \<and> nvalue n = snd e"
  by (induction es arbitrary: p) auto

definition holds :: "'s admem \<Rightarrow> nat \<Rightarrow> (nat \<times> ptr) list \<Rightarrow> bool" where
  "holds m a es \<longleftrightarrow> (\<exists>l. cells (dlists m) a = Some l \<and> head l = firstp es None \<and>
     tail l = lastp es None \<and> len l = of_nat (length es) \<and> length es < 2 ^ 64 \<and>
     dseg (cells (dnodes m)) None es None \<and> distinct (map fst es))"

lemma unat_len: "n < 2 ^ 64 \<Longrightarrow> unat (of_nat n :: 64 word) = n"
  by (simp add: unat_of_nat)

lemma len_0: "n < 2 ^ 64 \<Longrightarrow> (of_nat n :: 64 word) = 0 \<longleftrightarrow> n = 0"
  by (subst unat_eq_zero [symmetric]) (simp add: unat_len del: unsigned_of_nat)

lemma holdsE:
  assumes "holds m a es"
  obtains l where "cells (dlists m) a = Some l" "head l = firstp es None" "tail l = lastp es None"
    "len l = of_nat (length es)" "unat (len l) = length es" "len l = 0 \<longleftrightarrow> es = []"
    "dseg (cells (dnodes m)) None es None" "distinct (map fst es)" "length es < 2 ^ 64"
  using assms by (auto simp: holds_def unat_len len_0 simp del: unsigned_of_nat intro!: that)

text \<open>
  What an operation on the list at \<open>a\<close>, with nodes \<open>X\<close>, leaves alone: other headers and
  nodes, the callbacks of the list, the iterators and the memory of the client.
\<close>

definition cbs :: "'s admem \<Rightarrow> nat \<Rightarrow> _" where
  "cbs m a = map_option (\<lambda>l. (dup l, free_fn l, match l)) (cells (dlists m) a)"

definition keeps :: "nat \<Rightarrow> nat set \<Rightarrow> 's admem \<Rightarrow> 's admem \<Rightarrow> bool" where
  "keeps a X m m' \<longleftrightarrow>
     (\<forall>x. x \<noteq> a \<longrightarrow> cells (dlists m') x = cells (dlists m) x) \<and>
     (\<forall>x. x \<notin> X \<longrightarrow> cells (dnodes m') x = cells (dnodes m) x) \<and>
     cbs m' a = cbs m a \<and> brk (dlists m') = brk (dlists m) \<and> env (dlists m') = env (dlists m) \<and>
     brk (dnodes m) \<le> brk (dnodes m') \<and> env (dnodes m') = env (dnodes m) \<and>
     diters m' = diters m \<and> client m' = client m \<and>
     (heap_ok (dnodes m) \<longrightarrow> heap_ok (dnodes m'))"

lemma set_list_cell [c_step]: "cells (dlists m) a = Some l \<Longrightarrow> set_list m (Some a) f =
    Some (m\<lparr>dlists := (dlists m)\<lparr>cells := (cells (dlists m))(a \<mapsto> f l)\<rparr>\<rparr>)"
  by (simp add: set_list_def store_cell)

lemma set_node_cell [c_step]: "cells (dnodes m) a = Some n \<Longrightarrow> set_node m (Some a) f =
    Some (m\<lparr>dnodes := (dnodes m)\<lparr>cells := (cells (dnodes m))(a \<mapsto> f n)\<rparr>\<rparr>)"
  by (simp add: set_node_def store_cell)

lemma set_iter_cell [c_step]: "cells (diters m) a = Some i \<Longrightarrow> set_iter m (Some a) f =
    Some (m\<lparr>diters := (diters m)\<lparr>cells := (cells (diters m))(a \<mapsto> f i)\<rparr>\<rparr>)"
  by (simp add: set_iter_def store_cell)

lemma free_node_cell [c_step]: "cells (dnodes m) a = Some n \<Longrightarrow> free_node m (Some a) =
    Some (m\<lparr>dnodes := (dnodes m)\<lparr>cells := (cells (dnodes m))(a := None)\<rparr>\<rparr>)"
  by (simp add: free_node_def cfree_cell)

lemma set_null [simp]: "set_list m None f = None" "set_node m None g = None"
  "set_iter m None k = None"
  by (simp_all add: set_list_def set_node_def set_iter_def)

definition grants :: "'n heap \<Rightarrow> bool" where
  "grants h \<longleftrightarrow> env h (brk h) \<noteq> None"

lemma cmalloc_granted: "grants h \<Longrightarrow> \<exists>n. cmalloc h =
    (Some (brk h), h\<lparr>cells := (cells h)(brk h \<mapsto> n), brk := Suc (brk h)\<rparr>)"
  by (auto simp: grants_def cmalloc_def)

lemma holds_fresh: "holds m a es \<Longrightarrow> heap_ok (dnodes m) \<Longrightarrow> e \<in> set es \<Longrightarrow> fst e < brk (dnodes m)"
  by (auto elim!: holdsE dest!: dseg_cell dest: heap_okD)

section \<open>Adding and inserting\<close>

lemma listAddNodeTail_spec:
  assumes H: "holds m a es" "heap_ok (dnodes m)" "grants (dnodes m)" "length es + 1 < 2 ^ 64"
  defines "b \<equiv> brk (dnodes m)"
  shows "\<exists>m'. listAddNodeTail m (Some a) v = Some (Some a, m') \<and>
    holds m' a (es @ [(b, v)]) \<and> keeps a (insert b (fst ` set es)) m m' \<and> brk (dnodes m') = Suc b"
proof -
  obtain l where l: "cells (dlists m) a = Some l" "head l = firstp es None" "tail l = lastp es None"
    "len l = of_nat (length es)" "len l = 0 \<longleftrightarrow> es = []"
    "dseg (cells (dnodes m)) None es None" "distinct (map fst es)" using H(1) by (rule holdsE)
  obtain n where n: "cmalloc (dnodes m) =
      (Some b, (dnodes m)\<lparr>cells := (cells (dnodes m))(b \<mapsto> n), brk := Suc b\<rparr>)"
    using cmalloc_granted [OF H(3)] b_def by blast
  have fresh: "b \<notin> fst ` set es" using holds_fresh [OF H(1,2)] b_def by force
  show ?thesis
  proof (cases es rule: rev_cases)
    case Nil
    with l H n fresh show ?thesis
      by (auto simp: listAddNodeTail_def c_step holds_def keeps_def cbs_def heap_ok_def b_def)
  next
    case (snoc xs x)
    with l H n fresh show ?thesis
      by (auto simp: listAddNodeTail_def c_step holds_def keeps_def cbs_def heap_ok_def b_def dseg_append
        image_Un)
  qed
qed

lemma listAddNodeHead_spec:
  assumes H: "holds m a es" "heap_ok (dnodes m)" "grants (dnodes m)" "length es + 1 < 2 ^ 64"
  defines "b \<equiv> brk (dnodes m)"
  shows "\<exists>m'. listAddNodeHead m (Some a) v = Some (Some a, m') \<and>
    holds m' a ((b, v) # es) \<and> keeps a (insert b (fst ` set es)) m m' \<and> brk (dnodes m') = Suc b"
proof -
  obtain l where l: "cells (dlists m) a = Some l" "head l = firstp es None" "tail l = lastp es None"
    "len l = of_nat (length es)" "len l = 0 \<longleftrightarrow> es = []"
    "dseg (cells (dnodes m)) None es None" "distinct (map fst es)" using H(1) by (rule holdsE)
  obtain n where n: "cmalloc (dnodes m) =
      (Some b, (dnodes m)\<lparr>cells := (cells (dnodes m))(b \<mapsto> n), brk := Suc b\<rparr>)"
    using cmalloc_granted [OF H(3)] b_def by blast
  have fresh: "b \<notin> fst ` set es" using holds_fresh [OF H(1,2)] b_def by force
  show ?thesis
  proof (cases es)
    case Nil
    with l H n fresh show ?thesis
      by (auto simp: listAddNodeHead_def c_step holds_def keeps_def cbs_def heap_ok_def b_def)
  next
    case (Cons x xs)
    with l H n fresh show ?thesis
      by (auto simp: listAddNodeHead_def c_step holds_def keeps_def cbs_def heap_ok_def b_def)
  qed
qed

lemma listInsertNode_after:
  assumes H: "holds m a (xs @ e # ys)" "heap_ok (dnodes m)" "grants (dnodes m)"
    "length (xs @ e # ys) + 1 < 2 ^ 64"
  defines "b \<equiv> brk (dnodes m)"
  shows "\<exists>m'. listInsertNode m (Some a) (Some (fst e)) v True = Some (Some a, m') \<and>
    holds m' a (xs @ e # (b, v) # ys) \<and> keeps a (insert b (fst ` set (xs @ e # ys))) m m' \<and>
    brk (dnodes m') = Suc b"
proof -
  obtain l where l: "cells (dlists m) a = Some l" "head l = firstp (xs @ e # ys) None"
    "tail l = lastp (xs @ e # ys) None" "len l = of_nat (length (xs @ e # ys))"
    "dseg (cells (dnodes m)) None (xs @ e # ys) None" "distinct (map fst (xs @ e # ys))"
    using H(1) by (rule holdsE)
  obtain n where n: "cmalloc (dnodes m) =
      (Some b, (dnodes m)\<lparr>cells := (cells (dnodes m))(b \<mapsto> n), brk := Suc b\<rparr>)"
    using cmalloc_granted [OF H(3)] b_def by blast
  have fresh: "b \<notin> fst ` set (xs @ e # ys)" using holds_fresh [OF H(1,2)] b_def by force
  show ?thesis
  proof (cases ys rule: list.exhaust)
    case Nil
    with l H n fresh show ?thesis
      by (auto simp: listInsertNode_def c_step holds_def keeps_def cbs_def heap_ok_def b_def dseg_append
        image_Un)
  next
    case (Cons y zs)
    have "lastp (xs @ e # ys) None \<noteq> Some (fst e)"
      using l(6) Cons by (cases zs rule: rev_cases) auto
    with Cons l H n fresh show ?thesis
      by (auto simp: listInsertNode_def c_step holds_def keeps_def cbs_def heap_ok_def b_def dseg_append
        image_Un)
  qed
qed

lemma listInsertNode_before:
  assumes H: "holds m a (xs @ e # ys)" "heap_ok (dnodes m)" "grants (dnodes m)"
    "length (xs @ e # ys) + 1 < 2 ^ 64"
  defines "b \<equiv> brk (dnodes m)"
  shows "\<exists>m'. listInsertNode m (Some a) (Some (fst e)) v False = Some (Some a, m') \<and>
    holds m' a (xs @ (b, v) # e # ys) \<and> keeps a (insert b (fst ` set (xs @ e # ys))) m m' \<and>
    brk (dnodes m') = Suc b"
proof -
  obtain l where l: "cells (dlists m) a = Some l" "head l = firstp (xs @ e # ys) None"
    "tail l = lastp (xs @ e # ys) None" "len l = of_nat (length (xs @ e # ys))"
    "dseg (cells (dnodes m)) None (xs @ e # ys) None" "distinct (map fst (xs @ e # ys))"
    using H(1) by (rule holdsE)
  obtain n where n: "cmalloc (dnodes m) =
      (Some b, (dnodes m)\<lparr>cells := (cells (dnodes m))(b \<mapsto> n), brk := Suc b\<rparr>)"
    using cmalloc_granted [OF H(3)] b_def by blast
  have fresh: "b \<notin> fst ` set (xs @ e # ys)" using holds_fresh [OF H(1,2)] b_def by force
  show ?thesis
  proof (cases xs rule: rev_cases)
    case Nil
    with l H n fresh show ?thesis
      by (auto simp: listInsertNode_def c_step holds_def keeps_def cbs_def heap_ok_def b_def dseg_append
        image_Un)
  next
    case (snoc zs z)
    have "firstp (xs @ e # ys) None \<noteq> Some (fst e)"
      using l(6) snoc by (cases zs) auto
    with snoc l H n fresh show ?thesis
      by (auto simp: listInsertNode_def c_step holds_def keeps_def cbs_def heap_ok_def b_def dseg_append
        image_Un)
  qed
qed

section \<open>Deleting and rotating\<close>

lemma listDelNode_spec:
  assumes H: "holds m a (xs @ e # ys)" "cbs m a = Some (d, None, mt)"
  shows "\<exists>m'. listDelNode m (Some a) (Some (fst e)) = Some m' \<and> holds m' a (xs @ ys) \<and>
    keeps a (fst ` set (xs @ e # ys)) m m' \<and> brk (dnodes m') = brk (dnodes m) \<and>
    cells (dnodes m') (fst e) = None"
proof -
  obtain l where l: "cells (dlists m) a = Some l" "head l = firstp (xs @ e # ys) None"
    "tail l = lastp (xs @ e # ys) None" "len l = of_nat (length (xs @ e # ys))"
    "dseg (cells (dnodes m)) None (xs @ e # ys) None" "distinct (map fst (xs @ e # ys))"
    using H(1) by (rule holdsE)
  have f: "free_fn l = None" using H(2) l(1) by (simp add: cbs_def)
  show ?thesis
    by (cases xs rule: rev_cases; cases ys rule: list.exhaust; insert l f H)
      (auto simp: listDelNode_def c_step call_free_def holds_def keeps_def cbs_def heap_ok_def
        dseg_append)
qed

lemma listRotate_spec:
  assumes H: "holds m a es"
  shows "\<exists>m'. listRotate m (Some a) = Some m' \<and>
    holds m' a (if es = [] then [] else last es # butlast es) \<and>
    keeps a (fst ` set es) m m' \<and> brk (dnodes m') = brk (dnodes m)"
proof -
  obtain l where l: "cells (dlists m) a = Some l" "head l = firstp es None" "tail l = lastp es None"
    "len l = of_nat (length es)" "unat (len l) = length es"
    "dseg (cells (dnodes m)) None es None" "distinct (map fst es)" using H(1) by (rule holdsE)
  have len1: "len l \<le> 1 \<longleftrightarrow> length es \<le> 1"
    using l(5) by (simp add: word_le_nat_alt)
  show ?thesis
  proof (cases "length es \<le> 1")
    case True
    then have "es = [] \<or> (\<exists>x. es = [x])" by (cases es) auto
    with True l H len1 show ?thesis by (auto simp: listRotate_def c_step keeps_def)
  next
    case False
    then obtain x xs y where es: "es = x # xs @ [y]"
      by (metis append_butlast_last_id le_zero_eq length_0_conv length_Cons length_append_singleton
          list.exhaust nat_le_linear One_nat_def append_Nil append_Cons le_numeral_extra(4))
    have "\<not> len l \<le> 1" using False len1 by simp
    then have step: "listRotate m (Some a) = do {
       n \<leftarrow> load (dnodes m) (tail l);
       m \<leftarrow> set_list m (Some a) (\<lambda>l. l\<lparr>tail := prev n\<rparr>);
       l' \<leftarrow> load (dlists m) (Some a);
       m \<leftarrow> set_node m (tail l') (\<lambda>n. n\<lparr>nxt := None\<rparr>);
       m \<leftarrow> set_node m (head l') (\<lambda>n. n\<lparr>prev := tail l\<rparr>);
       m \<leftarrow> set_node m (tail l) (\<lambda>n. n\<lparr>prev := None\<rparr>);
       m \<leftarrow> set_node m (tail l) (\<lambda>n. n\<lparr>nxt := head l'\<rparr>);
       set_list m (Some a) (\<lambda>l'. l'\<lparr>head := tail l\<rparr>)
     }"
      by (simp add: listRotate_def l(1) Let_def)
    have turned: "(if es = [] then [] else last es # butlast es) = y # x # xs"
      by (simp add: es butlast_append)
    show ?thesis unfolding turned
      by (cases xs rule: rev_cases; insert False es l H; subst step)
        (auto simp: c_step holds_def keeps_def cbs_def heap_ok_def dseg_append)
  qed
qed

end
