(* ===== verification/Adlist_Walk.thy ===== *)
theory Adlist_Walk
  imports Adlist_Correct
begin

text \<open>
  The operations of \<open>adlist.c\<close> that visit a list: indexing, iterators, the traversals,
  searching, releasing and copying.
\<close>

section \<open>Indexing\<close>

lemma index_null [simp]: "index_loop link k h None = Some None"
  by (cases k) simp_all

lemma index_forward:
  "dseg (cells h) p es None \<Longrightarrow> index_loop nxt k h (firstp es None) =
     Some (if k < length es then Some (fst (es ! k)) else None)"
proof (induction es arbitrary: p k)
  case (Cons e es)
  then show ?case by (cases k) auto
qed simp

lemma index_backward:
  "dseg (cells h) None es q \<Longrightarrow> index_loop prev k h (lastp es None) =
     Some (if k < length es then Some (fst (rev es ! k)) else None)"
proof (induction es arbitrary: q k rule: rev_induct)
  case (snoc e es)
  then show ?case by (cases k) (auto simp: dseg_append)
qed simp

lemma listIndex_spec:
  assumes "holds m a es" "index \<noteq> LONG_MIN"
  shows "listIndex m (Some a) index = Some
    (if 0 \<le> index then (if nat index < length es then Some (fst (es ! nat index)) else None)
     else (let k = nat (- index - 1) in if k < length es then Some (fst (rev es ! k)) else None))"
proof -
  obtain l where l: "cells (dlists m) a = Some l" "head l = firstp es None" "tail l = lastp es None"
    "dseg (cells (dnodes m)) None es None" using assms(1) by (rule holdsE)
  show ?thesis
    using assms(2) l index_forward [OF l(4)] index_backward [OF l(4)]
    by (auto simp: listIndex_def Let_def)
qed

section \<open>Iterators\<close>

text \<open>Memory \<open>m\<close> with an iterator at \<open>ip\<close> that stands at \<open>p\<close>.\<close>

definition at :: "'s admem \<Rightarrow> nat \<Rightarrow> ptr \<Rightarrow> int \<Rightarrow> 's admem" where
  "at m ip p d = m\<lparr>diters := (diters m)\<lparr>cells := (cells (diters m))(ip \<mapsto> \<lparr>inext = p, direction = d\<rparr>),
     brk := Suc ip\<rparr>\<rparr>"

text \<open>Memory \<open>m\<close> after an iterator has come and gone.\<close>

definition spent :: "'s admem \<Rightarrow> 's admem" where
  "spent m = m\<lparr>diters := (diters m)\<lparr>brk := Suc (brk (diters m))\<rparr>\<rparr>"

lemma at_simps [simp]: "dnodes (at m ip p d) = dnodes m" "dlists (at m ip p d) = dlists m"
  "client (at m ip p d) = client m" "cells (diters (at m ip p d)) ip = Some \<lparr>inext = p, direction = d\<rparr>"
  "holds (at m ip p d) = holds m" "cbs (at m ip p d) = cbs m"
  by (simp_all add: at_def holds_def fun_eq_iff cbs_def)

lemma spent_simps [simp]: "dnodes (spent m) = dnodes m" "dlists (spent m) = dlists m"
  "client (spent m) = client m" "holds (spent m) = holds m"
  by (simp_all add: spent_def holds_def fun_eq_iff)

lemma listGetIterator_spec:
  assumes "cells (dlists m) a = Some l" "grants (diters m)"
  shows "listGetIterator m (Some a) d =
    Some (Some (brk (diters m)), at m (brk (diters m)) (if d = 0 then head l else tail l) d)"
proof -
  obtain n where n: "cmalloc (diters m) = (Some (brk (diters m)),
      (diters m)\<lparr>cells := (cells (diters m))(brk (diters m) \<mapsto> n), brk := Suc (brk (diters m))\<rparr>)"
    using cmalloc_granted [OF assms(2)] by blast
  show ?thesis using assms(1) by (cases n) (auto simp: listGetIterator_def n c_step at_def)
qed

lemma listGetIterator_null:
  "\<not> grants (diters m) \<Longrightarrow> listGetIterator m (Some a) d = Some (None, spent m)"
  by (simp add: listGetIterator_def grants_def cmalloc_def spent_def)

lemma listReleaseIterator_at:
  "heap_ok (diters m) \<Longrightarrow> listReleaseIterator (at m (brk (diters m)) p d) (Some (brk (diters m))) =
     Some (spent m)"
  by (simp add: listReleaseIterator_def at_def c_step spent_def fun_upd_idem)

lemma listNext_at [simp]: "listNext (at m ip None d) (Some ip) = Some (None, at m ip None d)"
  by (simp add: listNext_def)

lemma listNext_step: "cells (dnodes m) p = Some n \<Longrightarrow>
    listNext (at m ip (Some p) d) (Some ip) =
      Some (Some p, at m ip (if d = 0 then nxt n else prev n) d)"
  by (auto simp: listNext_def c_step) (simp_all add: at_def)

text \<open>A walk over \<open>ws\<close>: the entries the iterator yields from \<open>p\<close> on, in the direction \<open>d\<close>.\<close>

fun walk :: "(nat \<rightharpoonup> listNode) \<Rightarrow> int \<Rightarrow> ptr \<Rightarrow> (nat \<times> ptr) list \<Rightarrow> bool" where
  "walk N d p [] \<longleftrightarrow> p = None"
| "walk N d p (e # es) \<longleftrightarrow> p = Some (fst e) \<and> (\<exists>n. N (fst e) = Some n \<and> nvalue n = snd e \<and>
     walk N d (if d = 0 then nxt n else prev n) es)"

lemma walk_forward: "dseg N p es None \<Longrightarrow> walk N 0 (firstp es None) es"
  by (induction es arbitrary: p) auto

lemma walk_backward: "dseg N None es q \<Longrightarrow> d \<noteq> 0 \<Longrightarrow> walk N d (lastp es None) (rev es)"
  by (induction es arbitrary: q rule: rev_induct) (auto simp: dseg_append)

section \<open>Traversals\<close>

lemma print_walk:
  "walk (cells (dnodes m)) d p ws \<Longrightarrow> \<forall>e\<in>set ws. deref (snd e) (client m) = Some (g (snd e)) \<Longrightarrow>
   print_loop deref (at m ip p d) (Some ip) = Some (map (\<lambda>e. g (snd e)) ws, at m ip None d)"
proof (induction ws arbitrary: p)
  case Nil
  then show ?case by (simp add: print_loop.simps)
next
  case (Cons e es)
  then show ?case by (subst print_loop.simps) (auto simp: listNext_step)
qed

lemma listpretraval_spec:
  assumes "holds m a es" "es \<noteq> [] \<longrightarrow> grants (diters m)"
    "\<forall>e\<in>set es. deref (snd e) (client m) = Some (g (snd e))"
  shows "listpretraval deref m (Some a) = Some (map (\<lambda>e. g (snd e)) es,
    if es = [] then m else at m (brk (diters m)) None 0)"
proof -
  obtain l where l: "cells (dlists m) a = Some l" "head l = firstp es None" "len l = 0 \<longleftrightarrow> es = []"
    "dseg (cells (dnodes m)) None es None" using assms(1) by (rule holdsE)
  show ?thesis
    using assms(2,3) l print_walk [OF walk_forward [OF l(4)], of deref g]
    by (auto simp: listpretraval_def listGetIterator_spec)
qed

lemma listposttraval_spec:
  assumes "holds m a es" "grants (diters m)"
    "\<forall>e\<in>set es. deref (snd e) (client m) = Some (g (snd e))"
  shows "listposttraval deref m (Some a) = Some (map (\<lambda>e. g (snd e)) (rev es),
    at m (brk (diters m)) None 1)"
proof -
  obtain l where l: "cells (dlists m) a = Some l" "tail l = lastp es None"
    "dseg (cells (dnodes m)) None es None" using assms(1) by (rule holdsE)
  show ?thesis
    using assms(2,3) l print_walk [OF walk_backward [OF l(3)], of 1 deref g]
    by (auto simp: listposttraval_def listGetIterator_spec)
qed

section \<open>Searching\<close>

definition first_key :: "ptr \<Rightarrow> (nat \<times> ptr) list \<Rightarrow> ptr" where
  "first_key key es = map_option fst (find (\<lambda>e. key = snd e) es)"

lemma search_walk:
  assumes "heap_ok (diters m)" "cells (dlists m) a = Some l" "match l = None"
  shows "walk (cells (dnodes m)) d p ws \<Longrightarrow>
    search_loop (at m (brk (diters m)) p d) (Some a) key (Some (brk (diters m))) =
      Some (first_key key ws, spent m)"
proof (induction ws arbitrary: p)
  case Nil
  with assms show ?case
    by (subst search_loop.simps) (auto simp: listReleaseIterator_at first_key_def)
next
  case (Cons e es)
  with assms show ?case
    by (subst search_loop.simps)
      (auto simp: listNext_step listReleaseIterator_at first_key_def)
qed

lemma listSearchKey_spec:
  assumes "holds m a es" "heap_ok (diters m)" "grants (diters m)" "cbs m a = Some (d, f, None)"
  shows "listSearchKey m (Some a) key = Some (first_key key es, spent m)"
proof -
  obtain l where l: "cells (dlists m) a = Some l" "head l = firstp es None"
    "dseg (cells (dnodes m)) None es None" using assms(1) by (rule holdsE)
  show ?thesis
    using search_walk [OF assms(2) l(1) _ walk_forward [OF l(3)]] assms l
    by (auto simp: listSearchKey_def listGetIterator_spec cbs_def)
qed

text \<open>Neither version survives a refused iterator: both read through the null pointer.\<close>

lemma listSearchKey_null_iterator:
  assumes "cells (dlists m) a = Some l" "\<not> grants (diters m)"
  shows "listSearchKey m (Some a) key = None" "old_listSearchKey m (Some a) key = None"
proof -
  show "listSearchKey m (Some a) key = None"
    using assms by (simp add: listSearchKey_def listGetIterator_null search_loop.simps listNext_def)
  show "old_listSearchKey m (Some a) key = None"
    using assms by (simp add: old_listSearchKey_def old_listGetIterator_def grants_def cmalloc_def)
qed

text \<open>The older search agrees when the list has no \<open>match\<close>, and finds nothing when it has one.\<close>

lemma old_search_walk:
  assumes "heap_ok (diters m)" "cells (dlists m) a = Some l"
  shows "walk (cells (dnodes m)) d p ws \<Longrightarrow>
    old_search_loop (at m (brk (diters m)) p d) (Some a) key (Some (brk (diters m))) =
      Some (if match l = None then first_key key ws else None, spent m)"
proof (induction ws arbitrary: p)
  case Nil
  with assms show ?case
    by (subst old_search_loop.simps) (auto simp: listReleaseIterator_at first_key_def)
next
  case (Cons e es)
  with assms show ?case
    by (subst old_search_loop.simps)
      (auto simp: listNext_step listReleaseIterator_at first_key_def)
qed

lemma old_listSearchKey_spec:
  assumes "holds m a es" "heap_ok (diters m)" "grants (diters m)" "cbs m a = Some (d, f, mt)"
  shows "old_listSearchKey m (Some a) key =
    Some (if mt = None then first_key key es else None, spent m)"
proof -
  obtain l where l: "cells (dlists m) a = Some l" "head l = firstp es None"
    "dseg (cells (dnodes m)) None es None" using assms(1) by (rule holdsE)
  obtain n where n: "cmalloc (diters m) = (Some (brk (diters m)),
      (diters m)\<lparr>cells := (cells (diters m))(brk (diters m) \<mapsto> n), brk := Suc (brk (diters m))\<rparr>)"
    using cmalloc_granted [OF assms(3)] by blast
  have "old_listGetIterator m (Some a) AL_START_HEAD =
      Some (Some (brk (diters m)), at m (brk (diters m)) (head l) 0)"
    using l(1) by (cases n) (auto simp: old_listGetIterator_def n c_step at_def AL_START_HEAD_def)
  then show ?thesis
    using old_search_walk [OF assms(2) l(1) walk_forward [OF l(3)]] assms(4) l
    by (auto simp: old_listSearchKey_def cbs_def)
qed

section \<open>Releasing\<close>

text \<open>The calls of \<open>free\<close> that a release makes, in order.\<close>

primrec free_all :: "(ptr \<Rightarrow> 's \<Rightarrow> 's option) option \<Rightarrow> ptr list \<Rightarrow> 's \<Rightarrow> 's option" where
  "free_all fo [] s = Some s"
| "free_all fo (v # vs) s = (case fo of None \<Rightarrow> free_all fo vs s
     | Some f \<Rightarrow> Option.bind (f v s) (free_all fo vs))"

lemma free_all_none [simp]: "free_all None vs s = Some s"
  by (induction vs) simp_all

definition wipe :: "nat set \<Rightarrow> 's admem \<Rightarrow> 's admem" where
  "wipe X m = m\<lparr>dnodes := (dnodes m)\<lparr>cells := (\<lambda>x. if x \<in> X then None else cells (dnodes m) x)\<rparr>\<rparr>"

lemma release_loop_spec:
  "dseg (cells (dnodes m)) p es None \<Longrightarrow> distinct (map fst es) \<Longrightarrow> cells (dlists m) a = Some l \<Longrightarrow>
   free_all (free_fn l) (map snd es) (client m) = Some s \<Longrightarrow>
   release_loop (length es) m (Some a) (firstp es None) = Some (wipe (fst ` set es) m\<lparr>client := s\<rparr>)"
proof (induction es arbitrary: m p)
  case Nil
  then show ?case by (simp add: wipe_def)
next
  case (Cons e es)
  obtain s' where s': "(case free_fn l of None \<Rightarrow> Some (client m) | Some f \<Rightarrow> f (snd e) (client m)) = Some s'"
    "free_all (free_fn l) (map snd es) s' = Some s"
    using Cons.prems(4) by (auto split: option.splits simp: bind_eq_Some_conv)
  define m1 where "m1 = m\<lparr>client := s', dnodes := (dnodes m)\<lparr>cells := (cells (dnodes m))(fst e := None)\<rparr>\<rparr>"
  have "cells (dnodes m1) x = cells (dnodes m) x" if "x \<in> fst ` set es" for x
    using that Cons.prems(2) by (cases "x = fst e") (simp_all add: m1_def)
  then have "dseg (cells (dnodes m1)) (Some (fst e)) es None"
    using Cons.prems(1) dseg_cong [of es "cells (dnodes m1)" "cells (dnodes m)"] by simp
  then have "release_loop (length es) m1 (Some a) (firstp es None) =
      Some (wipe (fst ` set es) m1\<lparr>client := s\<rparr>)"
    by (rule Cons.IH) (use Cons.prems s'(2) in \<open>simp_all add: m1_def\<close>)
  moreover have "release_loop (length (e # es)) m (Some a) (firstp (e # es) None) =
      release_loop (length es) m1 (Some a) (firstp es None)"
    using Cons.prems s'(1)
    by (cases "free_fn l"; cases m) (auto simp: call_free_def c_step m1_def simp del: dseg.simps(1))
  moreover have "wipe (fst ` set es) m1\<lparr>client := s\<rparr> = wipe (fst ` set (e # es)) m\<lparr>client := s\<rparr>"
    by (auto simp: wipe_def m1_def fun_eq_iff)
  ultimately show ?case by simp
qed

lemma listRelease_spec:
  assumes "holds m a es" "cells (dlists m) a = Some l"
    "free_all (free_fn l) (map snd es) (client m) = Some s"
  shows "listRelease m (Some a) = Some (wipe (fst ` set es) m\<lparr>client := s,
    dlists := (dlists m)\<lparr>cells := (cells (dlists m))(a := None)\<rparr>\<rparr>)"
proof -
  have l: "head l = firstp es None" "unat (len l) = length es" "distinct (map fst es)"
    "dseg (cells (dnodes m)) None es None"
    using assms(1,2) by (auto elim!: holdsE)
  have "release_loop (unat (len l)) m (Some a) (head l) =
      Some (wipe (fst ` set es) m\<lparr>client := s\<rparr>)"
    unfolding l(1,2) by (rule release_loop_spec [OF l(4,3) assms(2,3)])
  then show ?thesis using assms(2) by (simp add: listRelease_def c_step wipe_def)
qed

end
