(* ===== verification/Adlist_Dup.thy ===== *)
theory Adlist_Dup
  imports Adlist_Walk
begin

text \<open>
  \<open>listDup\<close> of \<open>adlist.c\<close> for a list without a \<open>dup\<close> callback: the loop invariant, and what
  it leaves behind when it succeeds and when a node cannot be allocated.
\<close>

text \<open>
  \<open>dup_inv m0 c ip f m cs p ws\<close>: the copy of a list of \<open>m0\<close>, begun at the header \<open>c\<close> with the
  iterator \<open>ip\<close>, holds \<open>cs\<close> so far; the iterator stands at \<open>p\<close> and has the entries \<open>ws\<close> to go.
\<close>

definition dup_inv :: "'s admem \<Rightarrow> nat \<Rightarrow> nat \<Rightarrow> _ \<Rightarrow> 's admem \<Rightarrow> (nat \<times> ptr) list \<Rightarrow> ptr \<Rightarrow>
    (nat \<times> ptr) list \<Rightarrow> bool" where
  "dup_inv m0 c ip cb m cs p ws \<longleftrightarrow>
     holds m c cs \<and> cbs m c = Some cb \<and> fst cb = None \<and>
     fst ` set cs = {brk (dnodes m0)..<brk (dnodes m)} \<and>
     brk (dnodes m) = brk (dnodes m0) + length cs \<and> env (dnodes m) = env (dnodes m0) \<and>
     heap_ok (dnodes m0) \<and> heap_ok (dnodes m) \<and> client m = client m0 \<and>
     (\<forall>x<brk (dnodes m0). cells (dnodes m) x = cells (dnodes m0) x) \<and>
     (\<forall>x. x \<noteq> c \<longrightarrow> cells (dlists m) x = cells (dlists m0) x) \<and>
     cells (diters m) = (cells (diters m0))(ip \<mapsto> \<lparr>inext = p, direction = 0\<rparr>) \<and>
     walk (cells (dnodes m0)) 0 p ws \<and> length cs + length ws < 2 ^ 64"

lemma holds_diters [simp]: "holds (m\<lparr>diters := x\<rparr>) a es = holds m a es"
  "cbs (m\<lparr>diters := x\<rparr>) a = cbs m a"
  by (simp_all add: holds_def cbs_def)

lemma dup_step:
  assumes I: "dup_inv m0 c ip cb m cs p (e # ws)"
    and G: "env (dnodes m0) (brk (dnodes m0) + length cs) \<noteq> None"
  shows "\<exists>m' p'. dup_loop m (Some c) (Some ip) = dup_loop m' (Some c) (Some ip) \<and>
    dup_inv m0 c ip cb m' (cs @ [(brk (dnodes m0) + length cs, snd e)]) p' ws"
proof -
  obtain n where n: "p = Some (fst e)" "cells (dnodes m0) (fst e) = Some n" "nvalue n = snd e"
    "walk (cells (dnodes m0)) 0 (nxt n) ws"
    using I by (auto simp: dup_inv_def)
  have here: "cells (dnodes m) (fst e) = Some n"
    using I n(2) by (auto simp: dup_inv_def dest: heap_okD)
  define m1 where "m1 = m\<lparr>diters := (diters m)\<lparr>cells := (cells (diters m))
      (ip \<mapsto> \<lparr>inext = nxt n, direction = 0\<rparr>)\<rparr>\<rparr>"
  have next1: "listNext m (Some ip) = Some (Some (fst e), m1)"
    using I n(1) here by (simp add: dup_inv_def listNext_def c_step m1_def)
  have b: "brk (dnodes m1) = brk (dnodes m0) + length cs" using I by (simp add: dup_inv_def m1_def)
  have "holds m1 c cs" "heap_ok (dnodes m1)" "grants (dnodes m1)" "length cs + 1 < 2 ^ 64"
    using I G by (simp_all add: dup_inv_def m1_def grants_def)
  from listAddNodeTail_spec [OF this, of "nvalue n"] b
  obtain m2 where m2: "listAddNodeTail m1 (Some c) (nvalue n) = Some (Some c, m2)"
    "holds m2 c (cs @ [(brk (dnodes m0) + length cs, nvalue n)])"
    "keeps c (insert (brk (dnodes m0) + length cs) (fst ` set cs)) m1 m2"
    "brk (dnodes m2) = Suc (brk (dnodes m0) + length cs)" by auto
  obtain lc where lc: "cells (dlists m) c = Some lc" "dup lc = None"
    using I by (cases cb) (auto simp: dup_inv_def cbs_def)
  have "dup_loop m (Some c) (Some ip) = dup_loop m2 (Some c) (Some ip)"
    by (subst dup_loop.simps) (use lc here next1 m2(1) in \<open>simp add: m1_def\<close>)
  moreover have "dup_inv m0 c ip cb m2 (cs @ [(brk (dnodes m0) + length cs, snd e)]) (nxt n) ws"
    using I m2 n(3,4) unfolding dup_inv_def keeps_def m1_def by (auto simp: cbs_def)
  ultimately show ?thesis by blast
qed

lemma dup_prefix:
  assumes "dup_inv m0 c ip cb m cs p (ws @ vs)"
    and "\<forall>i<length ws. env (dnodes m0) (brk (dnodes m0) + length cs + i) \<noteq> None"
  shows "\<exists>m' p'. dup_loop m (Some c) (Some ip) = dup_loop m' (Some c) (Some ip) \<and>
    dup_inv m0 c ip cb m' (cs @ zip [brk (dnodes m0) + length cs ..<
      brk (dnodes m0) + length cs + length ws] (map snd ws)) p' vs"
  using assms
proof (induction ws arbitrary: m cs p)
  case Nil
  then show ?case by auto
next
  case (Cons e ws)
  let ?b = "brk (dnodes m0) + length cs"
  obtain m1 p1 where m1: "dup_loop m (Some c) (Some ip) = dup_loop m1 (Some c) (Some ip)"
    "dup_inv m0 c ip cb m1 (cs @ [(?b, snd e)]) p1 (ws @ vs)"
    using dup_step [of m0 c ip cb m cs p e "ws @ vs"] Cons.prems by force
  have "\<forall>i<length ws. env (dnodes m0) (brk (dnodes m0) + length (cs @ [(?b, snd e)]) + i) \<noteq> None"
    using Cons.prems(2) by (auto simp: add.commute add.left_commute)
  from Cons.IH [OF m1(2) this] obtain m2 p2 where
    "dup_loop m1 (Some c) (Some ip) = dup_loop m2 (Some c) (Some ip)"
    "dup_inv m0 c ip cb m2 ((cs @ [(?b, snd e)]) @ zip [Suc ?b..<Suc ?b + length ws] (map snd ws)) p2 vs"
    by auto
  moreover have "cs @ zip [?b..<?b + length (e # ws)] (map snd (e # ws)) =
      (cs @ [(?b, snd e)]) @ zip [Suc ?b..<Suc ?b + length ws] (map snd ws)"
    by (simp add: upt_conv_Cons del: upt_Suc)
  ultimately show ?case using m1(1) by metis
qed

text \<open>The start of \<open>listDup\<close>, up to its loop.\<close>

lemma dup_start:
  assumes H: "holds m a es" "cbs m a = Some (None, f, mt)" "heap_ok (dlists m)"
    "heap_ok (dnodes m)" "heap_ok (diters m)" "grants (dlists m)" "grants (diters m)"
  defines "c \<equiv> brk (dlists m)" and "ip \<equiv> brk (diters m)"
  shows "\<exists>m'. dup_inv m c ip (None, f, mt) m' [] (firstp es None) es \<and>
    listDup m (Some a) = do {
      (ok, m2) \<leftarrow> dup_loop m' (Some c) (Some ip);
      if \<not> ok then Some (None, m2)
      else do { m2 \<leftarrow> listReleaseIterator m2 (Some ip); Some (Some c, m2) }
    }"
proof -
  obtain l where l: "cells (dlists m) a = Some l" "head l = firstp es None"
    "dseg (cells (dnodes m)) None es None" "length es < 2 ^ 64" "distinct (map fst es)"
    using H(1) by (rule holdsE)
  have cb: "dup l = None" "free_fn l = f" "match l = mt" using H(2) l(1) by (simp_all add: cbs_def)
  have ac: "a \<noteq> c" using l(1) H(3) by (auto simp: c_def)
  obtain l0 where l0: "cmalloc (dlists m) =
      (Some c, (dlists m)\<lparr>cells := (cells (dlists m))(c \<mapsto> l0), brk := Suc c\<rparr>)"
    using cmalloc_granted [OF H(6)] c_def by blast
  let ?c = "l0\<lparr>head := None, tail := None, len := 0, dup := None, free_fn := f, match := mt\<rparr>"
  define m1 where "m1 = m\<lparr>dlists := (dlists m)\<lparr>cells := (cells (dlists m))(c \<mapsto> ?c), brk := Suc c\<rparr>\<rparr>"
  define m2 where "m2 = at m1 ip (head l) 0"
  have it: "listGetIterator m1 (Some a) 0 = Some (Some ip, m2)"
    using listGetIterator_spec [of m1 a l 0] l(1) ac H(7) by (simp add: m1_def m2_def ip_def)
  have "listDup m (Some a) = do {
      (ok, m') \<leftarrow> dup_loop m2 (Some c) (Some ip);
      if \<not> ok then Some (None, m')
      else do { m' \<leftarrow> listReleaseIterator m' (Some ip); Some (Some c, m') }
    }"
    using l0 l(1) ac cb it unfolding m1_def
    by (simp add: listDup_def listCreate_def c_step cong: if_cong option.case_cong)
  moreover have "dup_inv m c ip (None, f, mt) m2 [] (firstp es None) es"
    using H(4) l walk_forward [OF l(3)]
    by (auto simp: dup_inv_def m2_def m1_def at_def holds_def cbs_def ip_def)
  ultimately show ?thesis by blast
qed

lemma listDup_copies:
  assumes H: "holds m a es" "cbs m a = Some (None, f, mt)" "heap_ok (dlists m)"
    "heap_ok (dnodes m)" "heap_ok (diters m)" "grants (dlists m)" "grants (diters m)"
    and G: "\<forall>i<length es. env (dnodes m) (brk (dnodes m) + i) \<noteq> None"
  defines "c \<equiv> brk (dlists m)" and "b \<equiv> brk (dnodes m)"
  shows "\<exists>m'. listDup m (Some a) = Some (Some c, m') \<and>
    holds m' c (zip [b..<b + length es] (map snd es)) \<and> holds m' a es \<and>
    cbs m' c = Some (None, f, mt) \<and> client m' = client m \<and> cells (diters m') = cells (diters m)"
proof -
  obtain m1 where m1: "dup_inv m c (brk (diters m)) (None, f, mt) m1 [] (firstp es None) (es @ [])"
    "listDup m (Some a) = do {
      (ok, m2) \<leftarrow> dup_loop m1 (Some c) (Some (brk (diters m)));
      if \<not> ok then Some (None, m2)
      else do { m2 \<leftarrow> listReleaseIterator m2 (Some (brk (diters m))); Some (Some c, m2) }
    }" using dup_start [OF H] c_def by auto
  obtain m2 p where m2: "dup_loop m1 (Some c) (Some (brk (diters m))) = dup_loop m2 (Some c) (Some (brk (diters m)))"
    "dup_inv m c (brk (diters m)) (None, f, mt) m2 (zip [b..<b + length es] (map snd es)) p []"
    using dup_prefix [OF m1(1)] G b_def by auto
  have "dup_loop m2 (Some c) (Some (brk (diters m))) = Some (True, m2)"
    using m2(2) by (subst dup_loop.simps) (simp add: dup_inv_def listNext_def)
  moreover define m3 where "m3 = m2\<lparr>diters := (diters m2)\<lparr>cells := cells (diters m)\<rparr>\<rparr>"
  have "listReleaseIterator m2 (Some (brk (diters m))) = Some m3"
    using m2(2) H(5) by (simp add: dup_inv_def listReleaseIterator_def c_step m3_def fun_upd_idem)
  ultimately have "listDup m (Some a) = Some (Some c, m3)" using m1(2) m2(1) by simp
  moreover have "holds m3 a es"
  proof -
    obtain l where l: "cells (dlists m) a = Some l" "head l = firstp es None" "tail l = lastp es None"
      "len l = of_nat (length es)" "dseg (cells (dnodes m)) None es None" "distinct (map fst es)"
      "length es < 2 ^ 64" using H(1) by (rule holdsE)
    have "a \<noteq> c" using l(1) H(3) by (auto simp: c_def)
    then have "cells (dlists m3) a = Some l" using m2(2) l(1) by (simp add: m3_def dup_inv_def)
    moreover have "dseg (cells (dnodes m3)) None es None"
    proof -
      have "cells (dnodes m3) x = cells (dnodes m) x" if "x \<in> fst ` set es" for x
        using that m2(2) holds_fresh [OF H(1,4)] by (auto simp: m3_def dup_inv_def)
      then show ?thesis using l(5) dseg_cong [of es "cells (dnodes m3)" "cells (dnodes m)"] by simp
    qed
    ultimately show ?thesis using l by (auto simp: holds_def)
  qed
  moreover have "holds m3 c (zip [b..<b + length es] (map snd es))" "cbs m3 c = Some (None, f, mt)"
    "client m3 = client m" "cells (diters m3) = cells (diters m)"
    using m2(2) by (simp_all add: dup_inv_def m3_def)
  ultimately show ?thesis by blast
qed

text \<open>
  When the node for entry \<open>k\<close> is refused, the copy goes, with its nodes, and the callback
  \<open>free\<close> is called on the \<open>k\<close> values that the copy shared with the original.
\<close>

lemma listDup_gives_up:
  assumes H: "holds m a es" "cbs m a = Some (None, f, mt)" "heap_ok (dlists m)"
    "heap_ok (dnodes m)" "heap_ok (diters m)" "grants (dlists m)" "grants (diters m)"
    and k: "k < length es" "\<forall>i<k. env (dnodes m) (brk (dnodes m) + i) \<noteq> None"
      "env (dnodes m) (brk (dnodes m) + k) = None"
    and f: "free_all f (map snd (take k es)) (client m) = Some s"
  shows "\<exists>m'. listDup m (Some a) = Some (None, m') \<and> cells (dlists m') = cells (dlists m) \<and>
    cells (dnodes m') = cells (dnodes m) \<and> cells (diters m') = cells (diters m) \<and> client m' = s"
proof -
  define c ip b where "c = brk (dlists m)" and "ip = brk (diters m)" and "b = brk (dnodes m)"
  define cs where "cs = zip [b..<b + k] (map snd (take k es))"
  obtain e vs where vs: "drop k es = e # vs" using k(1) by (metis Cons_nth_drop_Suc)
  have split: "es = take k es @ e # vs" by (metis append_take_drop_id vs)
  obtain m1 where m1: "dup_inv m c ip (None, f, mt) m1 [] (firstp es None) (take k es @ e # vs)"
    "listDup m (Some a) = do {
      (ok, m2) \<leftarrow> dup_loop m1 (Some c) (Some ip);
      if \<not> ok then Some (None, m2)
      else do { m2 \<leftarrow> listReleaseIterator m2 (Some ip); Some (Some c, m2) }
    }" using dup_start [OF H] split unfolding c_def ip_def by auto
  obtain m2 p where m2: "dup_loop m1 (Some c) (Some ip) = dup_loop m2 (Some c) (Some ip)"
    and I: "dup_inv m c ip (None, f, mt) m2 cs p (e # vs)"
    using dup_prefix [OF m1(1)] k b_def cs_def by auto
  have lcs: "length cs = k" using k(1) by (simp add: cs_def)
  obtain n where n: "p = Some (fst e)" "cells (dnodes m2) (fst e) = Some n"
    using I by (auto simp: dup_inv_def dest: heap_okD)
  define m3 where "m3 = m2\<lparr>diters := (diters m2)\<lparr>cells := (cells (diters m2))
      (ip \<mapsto> \<lparr>inext = nxt n, direction = 0\<rparr>)\<rparr>\<rparr>"
  define m4 where "m4 = m3\<lparr>dnodes := (dnodes m3)\<lparr>brk := Suc (brk (dnodes m3))\<rparr>\<rparr>"
  obtain lc where lc: "cells (dlists m2) c = Some lc" "dup lc = None" "free_fn lc = f"
    using I by (auto simp: dup_inv_def cbs_def)
  have nx: "listNext m2 (Some ip) = Some (Some (fst e), m3)"
    using I n by (simp add: dup_inv_def listNext_def c_step m3_def)
  have add: "listAddNodeTail m3 (Some c) (nvalue n) = Some (None, m4)"
    using I k(3) lcs by (simp add: listAddNodeTail_def dup_inv_def m3_def m4_def cmalloc_fails)
  define m5 where "m5 = wipe (fst ` set cs) m4\<lparr>client := s,
      dlists := (dlists m4)\<lparr>cells := (cells (dlists m4))(c := None)\<rparr>\<rparr>"
  have rel: "listRelease m4 (Some c) = Some m5" unfolding m5_def
  proof (rule listRelease_spec)
    have "holds m2 c cs" using I by (simp add: dup_inv_def)
    then show "holds m4 c cs" by (auto simp: m4_def m3_def holds_def)
    show "cells (dlists m4) c = Some lc" using lc by (simp add: m4_def m3_def)
    have "map snd cs = map snd (take k es)" using k(1) by (simp add: cs_def)
    then show "free_all (free_fn lc) (map snd cs) (client m4) = Some s"
      using f I lc by (simp add: dup_inv_def m4_def m3_def)
  qed
  define m6 where "m6 = m5\<lparr>diters := (diters m5)\<lparr>cells := cells (diters m)\<rparr>\<rparr>"
  have itr: "listReleaseIterator m5 (Some ip) = Some m6"
    using I H(5) by (simp add: m6_def m5_def m4_def m3_def wipe_def dup_inv_def ip_def
        listReleaseIterator_def c_step fun_upd_idem)
  have "dup_loop m2 (Some c) (Some ip) = Some (False, m6)"
    by (subst dup_loop.simps) (use nx lc n add rel itr in \<open>simp add: m3_def\<close>)
  then have "listDup m (Some a) = Some (None, m6)" using m1(2) m2 by simp
  moreover have "cells (dlists m6) = cells (dlists m)"
    using I H(3) by (auto simp: m6_def m5_def m4_def m3_def wipe_def dup_inv_def fun_eq_iff c_def)
  moreover have "cells (dnodes m6) = cells (dnodes m)"
    using I H(4) by (auto simp: m6_def m5_def m4_def m3_def wipe_def dup_inv_def fun_eq_iff heap_ok_def)
  moreover have "cells (diters m6) = cells (diters m)" "client m6 = s"
    by (simp_all add: m6_def m5_def)
  ultimately show ?thesis by blast
qed

end
