(* ===== verification/Adlist_Theorems.thy ===== *)
theory Adlist_Theorems
  imports Adlist_Dup
begin

text \<open>
  The properties of the double-linked lists: every sequence of updates refines the same
  updates on a plain list of values, \<open>listDup\<close> copies or gives up, and the two versions of
  \<open>listSearchKey\<close> part ways on lists with a \<open>match\<close> callback.
\<close>

section \<open>Updates refine list updates\<close>

datatype adop = AddHead ptr | AddTail ptr | InsertAt int ptr bool | DelAt int | Rotate

text \<open>What a client does: it looks up a node by its index, and inserts or deletes there.\<close>

fun run_op :: "adop \<Rightarrow> 's admem \<Rightarrow> ptr \<Rightarrow> 's admem option" where
  "run_op (AddHead v) m lp = map_option snd (listAddNodeHead m lp v)"
| "run_op (AddTail v) m lp = map_option snd (listAddNodeTail m lp v)"
| "run_op (InsertAt i v after) m lp = do {
     n \<leftarrow> listIndex m lp i;
     if n = None then Some m else map_option snd (listInsertNode m lp n v after)
   }"
| "run_op (DelAt i) m lp = do {
     n \<leftarrow> listIndex m lp i;
     if n = None then Some m else listDelNode m lp n
   }"
| "run_op Rotate m lp = listRotate m lp"

fun run_ops :: "adop list \<Rightarrow> 's admem \<Rightarrow> ptr \<Rightarrow> 's admem option" where
  "run_ops [] m lp = Some m"
| "run_ops (x # xs) m lp = Option.bind (run_op x m lp) (\<lambda>m. run_ops xs m lp)"

text \<open>The specification on values; an index counts from the end when it is negative.\<close>

definition position :: "int \<Rightarrow> nat \<Rightarrow> nat option" where
  "position i n = (if 0 \<le> i then (if nat i < n then Some (nat i) else None)
     else (if nat (- i) \<le> n then Some (n - nat (- i)) else None))"

fun spec_op :: "adop \<Rightarrow> ptr list \<Rightarrow> ptr list" where
  "spec_op (AddHead v) vs = v # vs"
| "spec_op (AddTail v) vs = vs @ [v]"
| "spec_op (InsertAt i v after) vs = (case position i (length vs) of None \<Rightarrow> vs
     | Some k \<Rightarrow> if after then take (k + 1) vs @ v # drop (k + 1) vs else take k vs @ v # drop k vs)"
| "spec_op (DelAt i) vs = (case position i (length vs) of None \<Rightarrow> vs
     | Some k \<Rightarrow> take k vs @ drop (k + 1) vs)"
| "spec_op Rotate vs = (if vs = [] then [] else last vs # butlast vs)"

definition spec_ops :: "adop list \<Rightarrow> ptr list" where
  "spec_ops xs = foldl (\<lambda>vs x. spec_op x vs) [] xs"

fun index_ok :: "adop \<Rightarrow> bool" where
  "index_ok (InsertAt i _ _) \<longleftrightarrow> i \<noteq> LONG_MIN"
| "index_ok (DelAt i) \<longleftrightarrow> i \<noteq> LONG_MIN"
| "index_ok _ \<longleftrightarrow> True"

text \<open>A list in a memory that always grants nodes, without callbacks.\<close>

definition list_of :: "'s admem \<Rightarrow> nat \<Rightarrow> ptr list \<Rightarrow> bool" where
  "list_of m a vs \<longleftrightarrow> (\<exists>es. holds m a es \<and> map snd es = vs) \<and> heap_ok (dnodes m) \<and>
     (\<forall>x. env (dnodes m) x \<noteq> None) \<and> cbs m a = Some (None, None, None)"

lemma list_of_keeps:
  assumes "list_of m a vs" "keeps a X m m'" "holds m' a es" "map snd es = ws"
  shows "list_of m' a ws \<and> diters m' = diters m \<and> client m' = client m"
  using assms by (auto simp: list_of_def keeps_def)

lemma listIndex_position:
  assumes "holds m a es" "i \<noteq> LONG_MIN"
  shows "listIndex m (Some a) i = Some (map_option (\<lambda>k. fst (es ! k)) (position i (length es)))"
proof -
  have "nat (- i - 1) < length es \<longleftrightarrow> nat (- i) \<le> length es" if "i < 0" using that by linarith
  moreover have "rev es ! nat (- i - 1) = es ! (length es - nat (- i))"
    if "i < 0" "nat (- i) \<le> length es"
    using that by (subst rev_nth) (auto simp: nat_diff_distrib)
  ultimately show ?thesis
    by (auto simp: listIndex_spec [OF assms] position_def Let_def)
qed

lemma position_lt: "position i n = Some k \<Longrightarrow> k < n"
  by (auto simp: position_def split: if_splits)

lemma run_op_refines:
  assumes L: "list_of m a vs" "length vs + 1 < 2 ^ 64" "index_ok x"
  shows "\<exists>m'. run_op x m (Some a) = Some m' \<and> list_of m' a (spec_op x vs) \<and>
    diters m' = diters m \<and> client m' = client m"
proof -
  obtain es where es: "holds m a es" "map snd es = vs" and ok: "heap_ok (dnodes m)"
    and g: "grants (dnodes m)" and cb: "cbs m a = Some (None, None, None)"
    using L(1) by (auto simp: list_of_def grants_def)
  have len: "length es + 1 < 2 ^ 64" using L(2) es(2) by auto
  have at: "es = take k es @ es ! k # drop (Suc k) es" if "k < length es" for k
    using that by (simp add: id_take_nth_drop)
  show ?thesis
  proof (cases x)
    case (AddHead v)
    with listAddNodeHead_spec [OF es(1) ok g len, of v] es(2) list_of_keeps [OF L(1)]
    show ?thesis by force
  next
    case (AddTail v)
    with listAddNodeTail_spec [OF es(1) ok g len, of v] es(2) list_of_keeps [OF L(1)]
    show ?thesis by force
  next
    case (InsertAt i v after)
    show ?thesis
    proof (cases "position i (length es)")
      case None
      with L es InsertAt listIndex_position [OF es(1), of i] show ?thesis by auto
    next
      case (Some k)
      note k = position_lt [OF Some]
      have "\<exists>m' es'. listInsertNode m (Some a) (Some (fst (es ! k))) v after = Some (Some a, m') \<and>
          holds m' a es' \<and> keeps a (insert (brk (dnodes m)) (fst ` set es)) m m' \<and>
          map snd es' = spec_op x vs"
      proof (cases after)
        case True
        have spec: "spec_op x vs = map snd (take k es @ es ! k # (brk (dnodes m), v) # drop (Suc k) es)"
          using Some InsertAt True k es(2)
          by (auto simp: take_map drop_map take_Suc_conv_app_nth simp flip: es(2))
        obtain m' where "listInsertNode m (Some a) (Some (fst (es ! k))) v after = Some (Some a, m')"
          "holds m' a (take k es @ es ! k # (brk (dnodes m), v) # drop (Suc k) es)"
          "keeps a (insert (brk (dnodes m)) (fst ` set es)) m m'"
          using listInsertNode_after [of m a "take k es" "es ! k" "drop (Suc k) es" v] es(1) ok g len
          unfolding at [OF k, symmetric] by (auto simp: True)
        then show ?thesis unfolding spec by blast
      next
        case False
        have spec: "spec_op x vs = map snd (take k es @ (brk (dnodes m), v) # es ! k # drop (Suc k) es)"
          using Some InsertAt False k es(2)
          by (auto simp: take_map drop_map Cons_nth_drop_Suc simp flip: es(2))
        obtain m' where "listInsertNode m (Some a) (Some (fst (es ! k))) v after = Some (Some a, m')"
          "holds m' a (take k es @ (brk (dnodes m), v) # es ! k # drop (Suc k) es)"
          "keeps a (insert (brk (dnodes m)) (fst ` set es)) m m'"
          using listInsertNode_before [of m a "take k es" "es ! k" "drop (Suc k) es" v] es(1) ok g len
          unfolding at [OF k, symmetric] by (auto simp: False)
        then show ?thesis unfolding spec by blast
      qed
      then obtain m' es' where m': "listInsertNode m (Some a) (Some (fst (es ! k))) v after = Some (Some a, m')"
        "holds m' a es'" "keeps a (insert (brk (dnodes m)) (fst ` set es)) m m'" "map snd es' = spec_op x vs"
        by blast
      have "run_op x m (Some a) = Some m'"
        using m'(1) InsertAt Some L(3) listIndex_position [OF es(1), of i] by simp
      with list_of_keeps [OF L(1) m'(3,2,4)] show ?thesis by blast
    qed
  next
    case (DelAt i)
    show ?thesis
    proof (cases "position i (length es)")
      case None
      with L es DelAt listIndex_position [OF es(1), of i] show ?thesis by auto
    next
      case (Some k)
      note k = position_lt [OF Some]
      obtain m' where "listDelNode m (Some a) (Some (fst (es ! k))) = Some m'"
        "holds m' a (take k es @ drop (Suc k) es)" "keeps a (fst ` set es) m m'"
        using listDelNode_spec [of m a "take k es" "es ! k" "drop (Suc k) es"] es cb at [OF k, symmetric]
        by auto
      with L es DelAt Some listIndex_position [OF es(1), of i] list_of_keeps [OF L(1)]
      show ?thesis by (force simp: take_map drop_map)
    qed
  next
    case Rotate
    with listRotate_spec [OF es(1)] es(2) list_of_keeps [OF L(1)]
    show ?thesis by (force simp: last_map map_butlast)
  qed
qed

lemma spec_op_length: "length (spec_op x vs) \<le> length vs + 1"
  by (cases x) (auto split: option.splits)

lemma run_ops_refines:
  assumes "list_of m a vs" "length vs + length xs < 2 ^ 64" "\<forall>x\<in>set xs. index_ok x"
  shows "\<exists>m'. run_ops xs m (Some a) = Some m' \<and> list_of m' a (foldl (\<lambda>vs x. spec_op x vs) vs xs) \<and>
    diters m' = diters m \<and> client m' = client m"
  using assms
proof (induction xs arbitrary: m vs)
  case (Cons x xs)
  have vs: "length vs + 1 < 2 ^ 64" and x: "index_ok x" using Cons.prems(2,3) by auto
  obtain m1 where m1: "run_op x m (Some a) = Some m1" "list_of m1 a (spec_op x vs)"
    "diters m1 = diters m" "client m1 = client m" using run_op_refines [OF Cons.prems(1) vs x] by blast
  have len: "length (spec_op x vs) + length xs < 2 ^ 64"
    using Cons.prems(2) spec_op_length [of x vs] by simp
  have "\<forall>x\<in>set xs. index_ok x" using Cons.prems(3) by simp
  from Cons.IH [OF m1(2) len this] m1 show ?case by simp
qed simp

lemma listCreate_spec:
  assumes "grants (dlists m)"
  shows "\<exists>m'. listCreate m = Some (Some (brk (dlists m)), m') \<and> holds m' (brk (dlists m)) [] \<and>
    cbs m' (brk (dlists m)) = Some (None, None, None) \<and> dnodes m' = dnodes m \<and>
    diters m' = diters m \<and> client m' = client m"
proof -
  obtain n where "cmalloc (dlists m) = (Some (brk (dlists m)),
      (dlists m)\<lparr>cells := (cells (dlists m))(brk (dlists m) \<mapsto> n), brk := Suc (brk (dlists m))\<rparr>)"
    using cmalloc_granted [OF assms] by blast
  then show ?thesis by (auto simp: listCreate_def c_step holds_def cbs_def)
qed

lemma list_of_traversals:
  assumes "list_of m a vs" "grants (diters m)" "\<forall>v\<in>set vs. deref v (client m) = Some (g v)"
  shows "map_option fst (listpretraval deref m (Some a)) = Some (map g vs)"
    and "map_option fst (listposttraval deref m (Some a)) = Some (map g (rev vs))"
proof -
  obtain es where es: "holds m a es" "map snd es = vs" using assms(1) by (auto simp: list_of_def)
  have d: "\<forall>e\<in>set es. deref (snd e) (client m) = Some (g (snd e))" using assms(3) es(2) by force
  show "map_option fst (listpretraval deref m (Some a)) = Some (map g vs)"
    using listpretraval_spec [where deref = deref and g = g, OF es(1) _ d] assms(2) es(2) by (auto simp: comp_def)
  show "map_option fst (listposttraval deref m (Some a)) = Some (map g (rev vs))"
    using listposttraval_spec [where deref = deref and g = g, OF es(1) assms(2) d] es(2) by (auto simp: comp_def rev_map)
qed

section \<open>The properties\<close>

text \<open>
  C19. On a fresh list, any sequence of fewer than \<open>2 ^ 64\<close> insertions at either end, insertions
  before or after an indexed node, deletions of an indexed node and rotations returns without a
  memory error; afterwards the list printed forwards is the result of the same updates on a
  plain list, and the list printed backwards is its reverse.
\<close>
theorem adlist_updates_refine:
  assumes "grants (dlists m)" "grants (diters m)" "heap_ok (dnodes m)"
    "\<forall>x. env (dnodes m) x \<noteq> None" "length xs < 2 ^ 64" "\<forall>x\<in>set xs. index_ok x"
    "\<forall>v\<in>set (spec_ops xs). deref v (client m) = Some (g v)"
  shows "\<exists>lp m1 m2. listCreate m = Some (Some lp, m1) \<and> run_ops xs m1 (Some lp) = Some m2 \<and>
    map_option fst (listpretraval deref m2 (Some lp)) = Some (map g (spec_ops xs)) \<and>
    map_option fst (listposttraval deref m2 (Some lp)) = Some (map g (rev (spec_ops xs)))"
proof -
  obtain m1 where m1: "listCreate m = Some (Some (brk (dlists m)), m1)"
    "list_of m1 (brk (dlists m)) []" "diters m1 = diters m" "client m1 = client m"
    using listCreate_spec [OF assms(1)] assms(3,4) by (auto simp: list_of_def)
  obtain m2 where m2: "run_ops xs m1 (Some (brk (dlists m))) = Some m2"
    "list_of m2 (brk (dlists m)) (spec_ops xs)" "diters m2 = diters m" "client m2 = client m"
    using run_ops_refines [OF m1(2) _ assms(6)] assms(5) m1 by (auto simp: spec_ops_def)
  have d: "\<forall>v\<in>set (spec_ops xs). deref v (client m2) = Some (g v)" and gr: "grants (diters m2)"
    using assms(2,7) m2 by auto
  from list_of_traversals [where deref = deref and g = g, OF m2(2) gr d] m1(1) m2(1) show ?thesis by blast
qed

definition demo_mem :: "int admem" where
  "demo_mem = \<lparr>dlists = \<lparr>cells = Map.empty, brk = 0, env = \<lambda>_. Some \<lparr>adname = [], head = None, tail = None,
     dup = None, free_fn = None, match = None, len = 7\<rparr>\<rparr>,
   dnodes = \<lparr>cells = Map.empty, brk = 0, env = \<lambda>_. Some \<lparr>prev = None, nxt = None, nvalue = None\<rparr>\<rparr>,
   diters = \<lparr>cells = Map.empty, brk = 0, env = \<lambda>_. Some \<lparr>inext = None, direction = 5\<rparr>\<rparr>,
   client = 0\<rparr>"

definition demo_ops :: "adop list" where
  "demo_ops = [AddTail (Some 1), AddHead (Some 2), InsertAt (- 1) (Some 3) False, Rotate, DelAt 1,
     InsertAt 0 (Some 4) True]"

definition demo_deref :: "ptr \<Rightarrow> int \<Rightarrow> int option" where
  "demo_deref v s = map_option int v"

lemma demo_spec: "spec_ops demo_ops = [Some 1, Some 4, Some 3]"
  by (simp add: spec_ops_def demo_ops_def position_def)

lemma demo_mem_ok: "grants (dlists demo_mem)" "grants (diters demo_mem)" "heap_ok (dnodes demo_mem)"
  "heap_ok (dlists demo_mem)" "heap_ok (diters demo_mem)" "env (dnodes demo_mem) x \<noteq> None"
  by (simp_all add: demo_mem_def grants_def heap_ok_def)

theorem adlist_updates_refine_witness:
  "\<exists>lp m1 m2. listCreate demo_mem = Some (Some lp, m1) \<and> run_ops demo_ops m1 (Some lp) = Some m2 \<and>
    map_option fst (listpretraval demo_deref m2 (Some lp)) = Some [1, 4, 3] \<and>
    map_option fst (listposttraval demo_deref m2 (Some lp)) = Some [3, 4, 1]"
  using adlist_updates_refine [of demo_mem demo_ops demo_deref "\<lambda>v. int (the v)"] demo_mem_ok
  by (simp add: demo_spec demo_deref_def) (simp add: demo_ops_def LONG_MIN_def)

text \<open>
  \<open>listDup\<close> of a list without a \<open>dup\<close> callback, with all memory granted, returns a new list
  of fresh nodes with the same values and callbacks, leaves the original as it was and releases
  its iterator.
\<close>
theorem list_dup_copies:
  assumes "holds m a es" "cbs m a = Some (None, f, mt)" "heap_ok (dlists m)" "heap_ok (dnodes m)"
    "heap_ok (diters m)" "grants (dlists m)" "grants (diters m)" "\<forall>x. env (dnodes m) x \<noteq> None"
  shows "\<exists>c m' es'. listDup m (Some a) = Some (Some c, m') \<and> c \<noteq> a \<and> holds m' c es' \<and>
    map snd es' = map snd es \<and> fst ` set es' \<inter> fst ` set es = {} \<and> holds m' a es \<and>
    cbs m' c = cbs m a \<and> client m' = client m \<and> cells (diters m') = cells (diters m)"
proof -
  let ?es = "zip [brk (dnodes m)..<brk (dnodes m) + length es] (map snd es)"
  obtain m' where "listDup m (Some a) = Some (Some (brk (dlists m)), m')"
    "holds m' (brk (dlists m)) ?es" "holds m' a es" "cbs m' (brk (dlists m)) = cbs m a"
    "client m' = client m" "cells (diters m') = cells (diters m)"
    using listDup_copies [OF assms(1-7)] assms(2,8) by auto
  moreover have "brk (dlists m) \<noteq> a" using assms(1,3) by (auto elim: holdsE)
  moreover have "map snd ?es = map snd es" by simp
  moreover have "fst ` set ?es \<inter> fst ` set es = {}"
    using holds_fresh [OF assms(1,4)] by (fastforce dest: set_zip_leftD)
  ultimately show ?thesis by blast
qed

text \<open>A list with the values 5, 6 and 7, whose callback \<open>free\<close> counts its calls.\<close>

definition demo_list :: "nat option \<Rightarrow> int admem" where
  "demo_list refuse = demo_mem\<lparr>dlists := (dlists demo_mem)\<lparr>brk := 1, cells := [0 \<mapsto>
       \<lparr>adname = ''a'', head = Some 0, tail = Some 2, dup = None, free_fn = Some (\<lambda>v s. Some (s + 1)),
        match = None, len = 3\<rparr>]\<rparr>,
     dnodes := (dnodes demo_mem)\<lparr>brk := 3, cells := [
       0 \<mapsto> \<lparr>prev = None, nxt = Some 1, nvalue = Some 5\<rparr>,
       1 \<mapsto> \<lparr>prev = Some 0, nxt = Some 2, nvalue = Some 6\<rparr>,
       2 \<mapsto> \<lparr>prev = Some 1, nxt = None, nvalue = Some 7\<rparr>],
       env := (\<lambda>x. if Some x = refuse then None else env (dnodes demo_mem) x)\<rparr>\<rparr>"

lemma demo_list_holds: "holds (demo_list r) 0 [(0, Some 5), (1, Some 6), (2, Some 7)]"
  by (simp add: holds_def demo_list_def demo_mem_def)

lemma demo_list_ok: "cbs (demo_list r) 0 = Some (None, Some (\<lambda>v s. Some (s + 1)), None)"
  "heap_ok (dlists (demo_list r))" "heap_ok (dnodes (demo_list r))" "heap_ok (diters (demo_list r))"
  "grants (dlists (demo_list r))" "grants (diters (demo_list r))"
  by (simp_all add: cbs_def demo_list_def demo_mem_def heap_ok_def grants_def)

theorem list_dup_copies_witness:
  "\<exists>c m' es'. listDup (demo_list None) (Some 0) = Some (Some c, m') \<and> c \<noteq> 0 \<and> holds m' c es' \<and>
    map snd es' = [Some 5, Some 6, Some 7]"
proof -
  have "\<forall>x. env (dnodes (demo_list None)) x \<noteq> None" by (simp add: demo_list_def demo_mem_def)
  from list_dup_copies [OF demo_list_holds demo_list_ok this] obtain c m' es' where
    "listDup (demo_list None) (Some 0) = Some (Some c, m')" "c \<noteq> 0" "holds m' c es'"
    "map snd es' = map snd [(0::nat, Some 5), (1, Some 6), (2, Some 7)]" by (elim exE conjE)
  then show ?thesis by (intro exI conjI) simp_all
qed

text \<open>
  C20. On a list without a callback \<open>dup\<close>, so that values are shared with the copy: when the node for
  the value at index \<open>k\<close> is refused, \<open>listDup\<close> returns \<open>NULL\<close> and frees all it
  had allocated, but it also calls the callback \<open>free\<close> on the first \<open>k\<close> values, which the
  original list still holds.
\<close>
theorem list_dup_failure_frees_shared_values:
  assumes "holds m a es" "cbs m a = Some (None, f, mt)" "heap_ok (dlists m)" "heap_ok (dnodes m)"
    "heap_ok (diters m)" "grants (dlists m)" "grants (diters m)" "k < length es"
    "\<forall>i<k. env (dnodes m) (brk (dnodes m) + i) \<noteq> None" "env (dnodes m) (brk (dnodes m) + k) = None"
    "free_all f (map snd (take k es)) (client m) = Some s"
  shows "\<exists>m'. listDup m (Some a) = Some (None, m') \<and> cells (dlists m') = cells (dlists m) \<and>
    cells (dnodes m') = cells (dnodes m) \<and> cells (diters m') = cells (diters m) \<and>
    holds m' a es \<and> client m' = s"
proof -
  obtain m' where "listDup m (Some a) = Some (None, m')" "cells (dlists m') = cells (dlists m)"
    "cells (dnodes m') = cells (dnodes m)" "cells (diters m') = cells (diters m)" "client m' = s"
    using listDup_gives_up [OF assms] by blast
  moreover from this have "holds m' a es" using assms(1) by (simp add: holds_def)
  ultimately show ?thesis by blast
qed

theorem list_dup_failure_frees_shared_values_witness:
  "\<exists>m'. listDup (demo_list (Some 5)) (Some 0) = Some (None, m') \<and>
    holds m' 0 [(0, Some 5), (1, Some 6), (2, Some 7)] \<and> client m' = 2"
proof -
  define m where "m = demo_list (Some 5)"
  have gr: "\<forall>i<2. env (dnodes m) (brk (dnodes m) + i) \<noteq> None" "env (dnodes m) (brk (dnodes m) + 2) = None"
    by (simp_all add: m_def demo_list_def demo_mem_def)
  have "free_all (Some (\<lambda>v s. Some (s + 1))) (map snd (take 2 [(0::nat, Some 5), (1, Some 6),
      (2, Some (7::nat))])) (client m) = Some 2"
    by (simp add: m_def demo_list_def demo_mem_def numeral_2_eq_2)
  from list_dup_failure_frees_shared_values [OF demo_list_holds demo_list_ok _ gr [unfolded m_def]
      this [unfolded m_def]]
  show ?thesis by (simp add: m_def) blast
qed

end
