(* ===== verification/Trees.thy ===== *)
theory Trees
  imports CPrelude "HOL-Library.Tree"
begin

text \<open>
  The binary-tree routines of \<open>binarrytree/\<close>: nodes with two child pointers in a heap.
  The recursive functions are \<^theory_text>\<open>partial_function (option)\<close>s, because a cyclic
  structure makes them run forever. The fixed-size work areas (stacks, queues and answer
  arrays of 10000 slots) are taken to be granted by \<open>malloc\<close>, whose result the code does not
  test; a slot that has not been written is \<^const>\<open>None\<close>, and reading it is undefined.
\<close>

record tnode =
  val :: int
  left :: ptr
  right :: ptr

type_synonym theap = "tnode heap"

section \<open>Recursive functions\<close>

text \<open>\<open>inverttree.c\<close>.\<close>

partial_function (option) invertTree :: "theap \<Rightarrow> ptr \<Rightarrow> (ptr \<times> theap) option" where
  "invertTree h root = (if root = None then Some (None, h) else do {
     n \<leftarrow> load h root;
     let temp = left n;
     h \<leftarrow> store h root (\<lambda>x. x\<lparr>left := right n\<rparr>);
     h \<leftarrow> store h root (\<lambda>x. x\<lparr>right := temp\<rparr>);
     n \<leftarrow> load h root;
     (_, h) \<leftarrow> invertTree h (left n);
     n \<leftarrow> load h root;
     (_, h) \<leftarrow> invertTree h (right n);
     Some (root, h)
   })"

text \<open>\<open>isbalancetree.c\<close>.\<close>

partial_function (option) depth :: "theap \<Rightarrow> ptr \<Rightarrow> int option" where
  "depth h node = (if node = None then Some 0 else do {
     n \<leftarrow> load h node;
     l \<leftarrow> depth h (left n);
     l \<leftarrow> cint (l + 1);
     r \<leftarrow> depth h (right n);
     r \<leftarrow> cint (r + 1);
     Some (if l > r then l else r)
   })"

definition myabs :: "int \<Rightarrow> int \<Rightarrow> int option" where
  "myabs a b = (if a > b then cint (a - b) else cint (b - a))"

partial_function (option) isBalanced :: "theap \<Rightarrow> ptr \<Rightarrow> bool option" where
  "isBalanced h root = (if root = None then Some True else do {
     n \<leftarrow> load h root;
     l \<leftarrow> depth h (left n);
     r \<leftarrow> depth h (right n);
     d \<leftarrow> myabs l r;
     if d > 1 then Some False
     else do {
       b \<leftarrow> isBalanced h (left n);
       if b then isBalanced h (right n) else Some False
     }
   })"

text \<open>\<open>symmetry_tree.c\<close>.\<close>

partial_function (option) helper :: "theap \<Rightarrow> ptr \<Rightarrow> ptr \<Rightarrow> bool option" where
  "helper h l r = (if l = None \<and> r = None then Some True
     else if l = None \<or> r = None then Some False
     else do {
       ln \<leftarrow> load h l;
       rn \<leftarrow> load h r;
       if val ln \<noteq> val rn then Some False
       else do {
         b \<leftarrow> helper h (left ln) (right rn);
         if b then helper h (right ln) (left rn) else Some False
       }
     })"

definition isSymmetric :: "theap \<Rightarrow> ptr \<Rightarrow> bool option" where
  "isSymmetric h root = (if root = None then Some True else do {
     n \<leftarrow> load h root;
     helper h (left n) (right n)
   })"

text \<open>\<open>count_fulltree_node.c\<close>; a shift that reaches the sign bit is undefined.\<close>

partial_function (option) depth_from :: "(tnode \<Rightarrow> ptr) \<Rightarrow> theap \<Rightarrow> ptr \<Rightarrow> int \<Rightarrow> int option" where
  "depth_from side h r d = (if r = None then Some d else do {
     d \<leftarrow> cint (d + 1);
     n \<leftarrow> load h r;
     depth_from side h (side n) d
   })"

definition depthleft :: "theap \<Rightarrow> ptr \<Rightarrow> int option" where
  "depthleft h r = depth_from left h r 0"

definition depthright :: "theap \<Rightarrow> ptr \<Rightarrow> int option" where
  "depthright h r = depth_from right h r 0"

partial_function (option) countNodes :: "theap \<Rightarrow> ptr \<Rightarrow> int option" where
  "countNodes h root = (if root = None then Some 0 else do {
     n \<leftarrow> load h root;
     leftdepth \<leftarrow> depthleft h (left n);
     rightdepth \<leftarrow> depthright h (right n);
     if leftdepth = rightdepth then do {
       _ \<leftarrow> guard (leftdepth + 1 < 31);
       Some (2 ^ nat (leftdepth + 1) - 1)
     } else do {
       l \<leftarrow> countNodes h (left n);
       r \<leftarrow> countNodes h (right n);
       s \<leftarrow> cint (1 + l);
       cint (s + r)
     }
   })"

section \<open>Building trees\<close>

text \<open>
  \<open>pre_in_order_for_tree.c\<close>: the arrays are read at the offsets \<open>pre\<close>, \<open>inn\<close> and \<open>post\<close>. Both
  versions are called \<open>create_tree\<close>.
\<close>

partial_function (option) find_root :: "int list \<Rightarrow> int \<Rightarrow> int \<Rightarrow> int option" where
  "find_root xs v p = do {
     x \<leftarrow> aread xs p;
     if x \<noteq> v then find_root xs v (p + 1) else Some p
   }"

partial_function (option) create_tree_pre ::
  "int list \<Rightarrow> int list \<Rightarrow> theap \<Rightarrow> int \<Rightarrow> int \<Rightarrow> int \<Rightarrow> (ptr \<times> theap) option" where
  "create_tree_pre ps xs h pre inn len = (if len \<le> 0 then Some (None, h) else do {
     let (root, h) = cmalloc h;
     v \<leftarrow> aread ps pre;
     h \<leftarrow> store h root (\<lambda>x. x\<lparr>val := v\<rparr>);
     p \<leftarrow> find_root xs v inn;
     let len1 = inn - p;
     let len2 = len - len1 - 1;
     (l, h) \<leftarrow> create_tree_pre ps xs h (pre + 1) inn len1;
     h \<leftarrow> store h root (\<lambda>x. x\<lparr>left := l\<rparr>);
     (r, h) \<leftarrow> create_tree_pre ps xs h (pre + len1 + 1) (p + 1) len2;
     h \<leftarrow> store h root (\<lambda>x. x\<lparr>right := r\<rparr>);
     Some (root, h)
   })"

partial_function (option) create_tree_post ::
  "int list \<Rightarrow> int list \<Rightarrow> theap \<Rightarrow> int \<Rightarrow> int \<Rightarrow> int \<Rightarrow> (ptr \<times> theap) option" where
  "create_tree_post xs ps h inn post len = (if len \<le> 0 then Some (None, h) else do {
     let (root, h) = cmalloc h;
     v \<leftarrow> aread ps post;
     h \<leftarrow> store h root (\<lambda>x. x\<lparr>val := v\<rparr>);
     p \<leftarrow> find_root xs v inn;
     let len1 = p - inn;
     let len2 = len - len1 - 1;
     (r, h) \<leftarrow> create_tree_post xs ps h (p + 1) (post - 1) len2;
     h \<leftarrow> store h root (\<lambda>x. x\<lparr>right := r\<rparr>);
     (l, h) \<leftarrow> create_tree_post xs ps h inn (post - len2 - 1) len1;
     h \<leftarrow> store h root (\<lambda>x. x\<lparr>left := l\<rparr>);
     Some (root, h)
   })"

text \<open>
  \<open>createbstfromlinklist.c\<close>: list nodes in a heap of their own. The middle of the list
  becomes the root; the list is cut in front of it and behind it.
\<close>

record lnode =
  lval :: int
  lnext :: ptr

partial_function (option) slow_fast ::
  "lnode heap \<Rightarrow> ptr \<Rightarrow> ptr \<Rightarrow> ptr \<Rightarrow> (ptr \<times> ptr) option" where
  "slow_fast lh prev slow fast = do {
     f \<leftarrow> load lh fast;
     if lnext f = None then Some (prev, slow)
     else do {
       g \<leftarrow> load lh (lnext f);
       if lnext g = None then Some (prev, slow)
       else do {
         s \<leftarrow> load lh slow;
         slow_fast lh slow (lnext s) (lnext g)
       }
     }
   }"

partial_function (option) sortedListToBST ::
  "lnode heap \<Rightarrow> theap \<Rightarrow> ptr \<Rightarrow> (ptr \<times> lnode heap \<times> theap) option" where
  "sortedListToBST lh h first = (if first = None then Some (None, lh, h) else do {
     (prev, slow) \<leftarrow> slow_fast lh None first first;
     s \<leftarrow> load lh slow;
     let fast = lnext s;
     lh \<leftarrow> store lh slow (\<lambda>x. x\<lparr>lnext := None\<rparr>);
     let (root, h) = cmalloc h;
     h \<leftarrow> store h root (\<lambda>x. x\<lparr>val := lval s\<rparr>);
     (r, lh, h) \<leftarrow> sortedListToBST lh h fast;
     h \<leftarrow> store h root (\<lambda>x. x\<lparr>right := r\<rparr>);
     (lh, h) \<leftarrow> (if prev = None then do {
          h \<leftarrow> store h root (\<lambda>x. x\<lparr>left := None\<rparr>);
          Some (lh, h)
        } else do {
          lh \<leftarrow> store lh prev (\<lambda>x. x\<lparr>lnext := None\<rparr>);
          (l, lh, h) \<leftarrow> sortedListToBST lh h first;
          h \<leftarrow> store h root (\<lambda>x. x\<lparr>left := l\<rparr>);
          Some (lh, h)
        });
     Some (root, lh, h)
   })"

section \<open>Traversals with an explicit stack\<close>

text \<open>
  The stack of \<open>inorder.c\<close>, \<open>postorder.c\<close> and \<open>preordertravel.c\<close>; \<open>base\<close> is slot 0, and a push
  writes behind \<open>tos\<close>, so slot 0 is never used.
\<close>

record stack =
  slots :: "ptr option list"
  tos :: int

definition stack_init :: "int \<Rightarrow> stack" where
  "stack_init n = \<lparr>slots = replicate (nat n) None, tos = 0\<rparr>"

definition stack_pop :: "stack \<Rightarrow> (ptr \<times> stack) option" where
  "stack_pop st = do {
     v \<leftarrow> aread (slots st) (tos st);
     n \<leftarrow> v;
     Some (n, st\<lparr>tos := tos st - 1\<rparr>)
   }"

definition stack_push :: "stack \<Rightarrow> ptr \<Rightarrow> stack option" where
  "stack_push st n = do {
     let t = tos st + 1;
     s \<leftarrow> awrite (slots st) t (Some n);
     Some (st\<lparr>tos := t, slots := s\<rparr>)
   }"

definition stack_empty :: "stack \<Rightarrow> bool" where
  "stack_empty st \<longleftrightarrow> tos st = 0"

definition push_child :: "stack \<Rightarrow> ptr \<Rightarrow> stack option" where
  "push_child st p = (if p \<noteq> None then stack_push st p else Some st)"

text \<open>
  The value a traversal returns: the answer array, or, in \<open>preordertravel.c\<close> and \<open>inorder.c\<close>,
  the stack, which the caller takes for the array.
\<close>

datatype returned = Answer "int option list" | Stack stack

partial_function (option) pre_loop ::
  "theap \<Rightarrow> stack \<Rightarrow> int option list \<Rightarrow> int \<Rightarrow> (stack \<times> int option list \<times> int) option" where
  "pre_loop h st ans cnt = do {
     (p, st) \<leftarrow> stack_pop st;
     n \<leftarrow> load h p;
     ans \<leftarrow> awrite ans cnt (Some (val n));
     st \<leftarrow> push_child st (right n);
     st \<leftarrow> push_child st (left n);
     if stack_empty st then Some (st, ans, cnt + 1) else pre_loop h st ans (cnt + 1)
   }"

definition preordertrave :: "theap \<Rightarrow> ptr \<Rightarrow> (returned \<times> int) option" where
  "preordertrave h root = (let st = stack_init 10000; ans = replicate 10000 None in
     if root = None then Some (Answer ans, 0)
     else do {
       st \<leftarrow> stack_push st root;
       (st, ans, cnt) \<leftarrow> pre_loop h st ans 0;
       Some (Stack st, cnt)
     })"

partial_function (option) in_loop ::
  "theap \<Rightarrow> stack \<Rightarrow> ptr \<Rightarrow> int option list \<Rightarrow> int \<Rightarrow> (stack \<times> int option list \<times> int) option" where
  "in_loop h st cur ans cnt = (if stack_empty st \<and> cur = None then Some (st, ans, cnt)
     else if cur \<noteq> None then do {
       st \<leftarrow> stack_push st cur;
       n \<leftarrow> load h cur;
       in_loop h st (left n) ans cnt
     } else do {
       (cur, st) \<leftarrow> stack_pop st;
       n \<leftarrow> load h cur;
       ans \<leftarrow> awrite ans cnt (Some (val n));
       in_loop h st (right n) ans (cnt + 1)
     })"

definition inordertrave :: "theap \<Rightarrow> ptr \<Rightarrow> (returned \<times> int) option" where
  "inordertrave h root = (let st = stack_init 10000; ans = replicate 10000 None in
     if root = None then Some (Answer ans, 0)
     else do {
       (st, ans, cnt) \<leftarrow> in_loop h st root ans 0;
       Some (Stack st, cnt)
     })"

partial_function (option) post_loop :: "theap \<Rightarrow> stack \<Rightarrow> stack \<Rightarrow> stack option" where
  "post_loop h st st_temp = (if stack_empty st then Some st_temp else do {
     (p, st) \<leftarrow> stack_pop st;
     st_temp \<leftarrow> stack_push st_temp p;
     n \<leftarrow> load h p;
     st \<leftarrow> push_child st (left n);
     st \<leftarrow> push_child st (right n);
     post_loop h st st_temp
   })"

partial_function (option) drain_loop ::
  "theap \<Rightarrow> stack \<Rightarrow> int option list \<Rightarrow> int \<Rightarrow> (int option list \<times> int) option" where
  "drain_loop h st ans cnt = (if stack_empty st then Some (ans, cnt) else do {
     (p, st) \<leftarrow> stack_pop st;
     n \<leftarrow> load h p;
     ans \<leftarrow> awrite ans cnt (Some (val n));
     drain_loop h st ans (cnt + 1)
   })"

definition postordertrave :: "theap \<Rightarrow> ptr \<Rightarrow> (returned \<times> int) option" where
  "postordertrave h root = (let st = stack_init 10000; st_temp = stack_init 10000;
       ans = replicate 10000 None in
     if root = None then Some (Answer ans, 0)
     else do {
       st \<leftarrow> stack_push st root;
       st_temp \<leftarrow> post_loop h st st_temp;
       (ans, cnt) \<leftarrow> drain_loop h st_temp ans 0;
       Some (Answer ans, cnt)
     })"

section \<open>Level order with a queue\<close>

text \<open>\<open>leveltravel.c\<close>: \<open>front\<close> and \<open>rear\<close> only ever grow.\<close>

record queue =
  qslots :: "ptr option list"
  front :: int
  rear :: int

definition queue_init :: "int \<Rightarrow> queue" where
  "queue_init n = \<lparr>qslots = replicate (nat n) None, front = 0, rear = 0\<rparr>"

definition queue_pop :: "queue \<Rightarrow> (ptr \<times> queue) option" where
  "queue_pop q = do {
     v \<leftarrow> aread (qslots q) (front q);
     n \<leftarrow> v;
     Some (n, q\<lparr>front := front q + 1\<rparr>)
   }"

definition queue_push :: "queue \<Rightarrow> ptr \<Rightarrow> queue option" where
  "queue_push q n = do {
     s \<leftarrow> awrite (qslots q) (rear q) (Some n);
     Some (q\<lparr>qslots := s, rear := rear q + 1\<rparr>)
   }"

definition queue_empty :: "queue \<Rightarrow> bool" where
  "queue_empty q \<longleftrightarrow> front q = rear q"

definition queue_size :: "queue \<Rightarrow> int" where
  "queue_size q = rear q - front q"

definition queue_child :: "queue \<Rightarrow> ptr \<Rightarrow> queue option" where
  "queue_child q p = (if p \<noteq> None then queue_push q p else Some q)"

text \<open>\<open>for(i=0;i<cur_len;i++)\<close> for the \<open>k\<close> rounds that are left; the result is the row.\<close>

primrec level_row :: "nat \<Rightarrow> theap \<Rightarrow> queue \<Rightarrow> (int list \<times> queue) option" where
  "level_row 0 h q = Some ([], q)"
| "level_row (Suc k) h q = do {
     (p, q) \<leftarrow> queue_pop q;
     n \<leftarrow> load h p;
     q \<leftarrow> queue_child q (left n);
     q \<leftarrow> queue_child q (right n);
     (row, q) \<leftarrow> level_row k h q;
     Some (val n # row, q)
   }"

text \<open>\<open>ans[count]\<close> and \<open>col[count]\<close> are arrays of 10000 slots; the rows are allocated to size.\<close>

partial_function (option) level_loop ::
  "theap \<Rightarrow> queue \<Rightarrow> int list option list \<Rightarrow> int option list \<Rightarrow> int \<Rightarrow>
   (int list option list \<times> int option list \<times> int) option" where
  "level_loop h q ans col cnt = (if queue_empty q then Some (ans, col, cnt) else do {
     let cur_len = queue_size q;
     col \<leftarrow> awrite col cnt (Some cur_len);
     (arr, q) \<leftarrow> level_row (nat cur_len) h q;
     ans \<leftarrow> awrite ans cnt (Some arr);
     level_loop h q ans col (cnt + 1)
   })"

text \<open>The result, \<open>*colnum\<close> and \<open>*size\<close>; for an empty tree the first two are \<open>NULL\<close>.\<close>

definition leveltrave ::
  "theap \<Rightarrow> ptr \<Rightarrow> ((int list option list \<times> int option list) option \<times> int) option" where
  "leveltrave h root = (let ans = replicate 10000 None; col = replicate 10000 None in
     if root = None then Some (None, 0)
     else do {
       q \<leftarrow> queue_push (queue_init 10000) root;
       (ans, col, cnt) \<leftarrow> level_loop h q ans col 0;
       Some (Some (ans, col), cnt)
     })"

end
