(* ===== verification/Trees_Correct.thy ===== *)
theory Trees_Correct
  imports Trees
begin

text \<open>
  The recursive tree functions against the trees of the library. \<open>tree_at N p t\<close>: the nodes
  below \<open>p\<close> form the tree \<open>t\<close> of addresses and values.
\<close>

fun tree_at :: "(nat \<rightharpoonup> tnode) \<Rightarrow> ptr \<Rightarrow> (nat \<times> int) tree \<Rightarrow> bool" where
  "tree_at N p Leaf \<longleftrightarrow> p = None"
| "tree_at N p (Node l e r) \<longleftrightarrow> p = Some (fst e) \<and>
     (\<exists>n. N (fst e) = Some n \<and> val n = snd e \<and> tree_at N (left n) l \<and> tree_at N (right n) r)"

definition addrs :: "(nat \<times> int) tree \<Rightarrow> nat set" where
  "addrs t = fst ` set_tree t"

definition tvals :: "(nat \<times> int) tree \<Rightarrow> int tree" where
  "tvals t = map_tree snd t"

definition once :: "(nat \<times> int) tree \<Rightarrow> bool" where
  "once t \<longleftrightarrow> distinct (map fst (inorder t))"

lemma addrs_simps [simp]: "addrs Leaf = {}" "addrs (Node l e r) = insert (fst e) (addrs l \<union> addrs r)"
  by (auto simp: addrs_def)

lemma tvals_simps [simp]: "tvals Leaf = Leaf" "tvals (Node l e r) = Node (tvals l) (snd e) (tvals r)"
  "size (tvals t) = size t" "height (tvals t) = height t" "inorder (tvals t) = map snd (inorder t)"
  "preorder (tvals t) = map snd (preorder t)" "postorder (tvals t) = map snd (postorder t)"
  "tvals (mirror t) = mirror (tvals t)"
  by (simp_all add: tvals_def inorder_map preorder_map postorder_map map_mirror)

lemma set_inorder_addrs: "fst ` set (inorder t) = addrs t" by (simp add: addrs_def)

lemma once_simps [simp]: "once Leaf"
  "once (Node l e r) \<longleftrightarrow> once l \<and> once r \<and> fst e \<notin> addrs l \<and> fst e \<notin> addrs r \<and> addrs l \<inter> addrs r = {}"
  by (auto simp: once_def set_inorder_addrs [symmetric])

lemma tree_at_cong: "(\<And>a. a \<in> addrs t \<Longrightarrow> N' a = N a) \<Longrightarrow> tree_at N' p t = tree_at N p t"
  by (induction t arbitrary: p) auto

lemma tree_at_upd [simp]: "a \<notin> addrs t \<Longrightarrow> tree_at (N(a := x)) p t = tree_at N p t"
  by (rule tree_at_cong) auto

lemma tree_at_dom: "tree_at N p t \<Longrightarrow> addrs t \<subseteq> dom N"
  by (induction t arbitrary: p) (simp, fastforce)

lemma tree_at_null [simp]: "tree_at N None t \<longleftrightarrow> t = Leaf"
  by (cases t) auto

lemma tree_at_someD: "tree_at N (Some a) t \<Longrightarrow> \<exists>l v r n. t = Node l (a, v) r \<and> N a = Some n \<and>
    val n = v \<and> tree_at N (left n) l \<and> tree_at N (right n) r"
  by (cases t) auto

section \<open>Height, balance and symmetry\<close>

lemma depth_height:
  "tree_at (cells h) p t \<Longrightarrow> int (height t) \<le> int_max \<Longrightarrow> depth h p = Some (int (height t))"
proof (induction t arbitrary: p)
  case (Node l e r)
  then obtain n where n: "p = Some (fst e)" "cells h (fst e) = Some n"
    "depth h (left n) = Some (int (height l))" "depth h (right n) = Some (int (height r))" by auto
  have "cint (int (height l) + 1) = Some (int (height l) + 1)" "cint (int (height r) + 1) = Some (int (height r) + 1)"
    using Node.prems(2) by (auto simp: cint_def int_min_def)
  with n show ?case by (subst depth.simps) auto
qed (simp add: depth.simps)

fun height_balanced :: "'a tree \<Rightarrow> bool" where
  "height_balanced Leaf \<longleftrightarrow> True"
| "height_balanced (Node l x r) \<longleftrightarrow> \<bar>int (height l) - int (height r)\<bar> \<le> 1 \<and>
     height_balanced l \<and> height_balanced r"

lemma isBalanced_spec:
  "tree_at (cells h) p t \<Longrightarrow> int (height t) \<le> int_max \<Longrightarrow> isBalanced h p = Some (height_balanced t)"
proof (induction t arbitrary: p)
  case (Node l e r)
  then obtain n where n: "p = Some (fst e)" "cells h (fst e) = Some n"
    "tree_at (cells h) (left n) l" "tree_at (cells h) (right n) r"
    "isBalanced h (left n) = Some (height_balanced l)" "isBalanced h (right n) = Some (height_balanced r)"
    by auto
  have "depth h (left n) = Some (int (height l))" "depth h (right n) = Some (int (height r))"
    using Node.prems(2) n(3,4) by (auto intro!: depth_height)
  moreover have "myabs (int (height l)) (int (height r)) = Some \<bar>int (height l) - int (height r)\<bar>"
    using Node.prems(2) by (auto simp: myabs_def cint_def int_min_def)
  ultimately show ?case using n by (subst isBalanced.simps) auto
qed (simp add: isBalanced.simps)

lemma helper_spec:
  "tree_at (cells h) p t \<Longrightarrow> tree_at (cells h) q u \<Longrightarrow> helper h p q = Some (tvals t = mirror (tvals u))"
proof (induction t arbitrary: p q u)
  case Leaf
  then show ?case by (cases u) (auto simp: helper.simps)
next
  case (Node l e r)
  show ?case
  proof (cases u)
    case Leaf
    with Node.prems show ?thesis by (auto simp: helper.simps)
  next
    case (Node ul ue ur)
    with Node.prems obtain n k where n: "p = Some (fst e)" "cells h (fst e) = Some n" "val n = snd e"
      "tree_at (cells h) (left n) l" "tree_at (cells h) (right n) r"
      "q = Some (fst ue)" "cells h (fst ue) = Some k" "val k = snd ue"
      "tree_at (cells h) (left k) ul" "tree_at (cells h) (right k) ur" by auto
    show ?thesis
      using n Node Node.IH(1) [OF n(4,10)] Node.IH(2) [OF n(5,9)]
      by (subst helper.simps) auto
  qed
qed

fun symmetric_tree :: "'a tree \<Rightarrow> bool" where
  "symmetric_tree Leaf \<longleftrightarrow> True"
| "symmetric_tree (Node l x r) \<longleftrightarrow> l = mirror r"

lemma isSymmetric_spec: "tree_at (cells h) p t \<Longrightarrow> isSymmetric h p = Some (symmetric_tree (tvals t))"
  by (cases t) (auto simp: isSymmetric_def helper_spec)

lemma symmetric_tree_mirror: "symmetric_tree t \<longleftrightarrow> mirror t = t"
  by (cases t) auto

section \<open>Inverting\<close>

definition swapped :: "tnode \<Rightarrow> tnode" where
  "swapped n = n\<lparr>left := right n, right := left n\<rparr>"

lemma swapped_simps [simp]: "left (swapped n) = right n" "right (swapped n) = left n"
  "val (swapped n) = val n" "swapped (swapped n) = n"
  by (simp_all add: swapped_def)

text \<open>The whole effect: every node of the tree has its children swapped.\<close>

definition flip_at :: "nat set \<Rightarrow> theap \<Rightarrow> theap" where
  "flip_at A h = h\<lparr>cells := (\<lambda>a. if a \<in> A then map_option swapped (cells h a) else cells h a)\<rparr>"

lemma flip_at_heap: "cells (flip_at A h) a = (if a \<in> A then map_option swapped (cells h a) else cells h a)"
  by (simp add: flip_at_def)

lemma invertTree_spec:
  "tree_at (cells h) p t \<Longrightarrow> once t \<Longrightarrow> invertTree h p = Some (p, flip_at (addrs t) h)"
proof (induction t arbitrary: p h)
  case Leaf
  then show ?case by (simp add: invertTree.simps flip_at_def)
next
  case (Node l e r)
  then obtain n where n: "p = Some (fst e)" "cells h (fst e) = Some n" "val n = snd e"
    "tree_at (cells h) (left n) l" "tree_at (cells h) (right n) r" by auto
  define h1 where "h1 = h\<lparr>cells := (cells h)(fst e \<mapsto> swapped n)\<rparr>"
  define h2 where "h2 = flip_at (addrs r) h1"
  have "cells h1 = (cells h)(fst e \<mapsto> swapped n)" by (simp add: h1_def)
  then have "tree_at (cells h1) (right n) r" using Node.prems(2) n(5) by simp
  then have r: "invertTree h1 (right n) = Some (right n, h2)"
    unfolding h2_def using Node.prems(2) by (intro Node.IH(2)) auto
  have "cells h2 a = cells h a" if "a \<in> addrs l" for a
    using Node.prems(2) that by (auto simp: h2_def h1_def flip_at_heap)
  then have "tree_at (cells h2) (left n) l" 
    using n(4) tree_at_cong [of l "cells h2" "cells h" "left n"] by simp
  then have l: "invertTree h2 (left n) = Some (left n, flip_at (addrs l) h2)"
    using Node.prems(2) by (intro Node.IH(1)) auto
  have e: "cells h2 (fst e) = Some (swapped n)"
    using Node.prems(2) by (simp add: h2_def flip_at_heap h1_def)
  have "flip_at (addrs l) h2 = flip_at (addrs (Node l e r)) h"
  proof (rule heap.equality)
    show "cells (flip_at (addrs l) h2) = cells (flip_at (addrs (Node l e r)) h)"
      using Node.prems(2) n(2) by (auto simp: flip_at_heap fun_eq_iff h2_def h1_def)
  qed (simp_all add: h2_def h1_def flip_at_def)
  moreover have "invertTree h p = Some (p, flip_at (addrs l) h2)"
    using n(1,2) r l e
    by (subst invertTree.simps) (simp add: c_step h1_def swapped_def Let_def)
  ultimately show ?case by simp
qed

lemma tree_at_flip:
  "tree_at (cells h) p t \<Longrightarrow> once t \<Longrightarrow> addrs t \<subseteq> A \<Longrightarrow> tree_at (cells (flip_at A h)) p (mirror t)"
  by (induction t arbitrary: p) (auto simp: flip_at_heap)

lemma flip_flip: "flip_at A (flip_at A h) = h"
  by (simp add: flip_at_def fun_eq_iff option.map_comp comp_def option.map_ident)

end
