(* ===== verification/Trees_Traverse.thy ===== *)
theory Trees_Traverse
  imports Trees_Correct
begin

text \<open>
  The traversals of \<open>binarrytree/\<close> with an explicit stack or queue, and \<open>countNodes\<close>.
  \<open>trees_on h st ts\<close>: the stack holds, from the top down, the roots of the trees \<open>ts\<close>.
\<close>

section \<open>Stacks of trees\<close>

fun on_stack :: "ptr option list \<Rightarrow> ptr list \<Rightarrow> bool" where
  "on_stack s [] \<longleftrightarrow> True"
| "on_stack s (p # ps) \<longleftrightarrow> Suc (length ps) < length s \<and> s ! Suc (length ps) = Some p \<and> on_stack s ps"

definition stack_is :: "stack \<Rightarrow> ptr list \<Rightarrow> bool" where
  "stack_is st ps \<longleftrightarrow> tos st = int (length ps) \<and> on_stack (slots st) ps"

abbreviation cap :: "stack \<Rightarrow> nat" where "cap st \<equiv> length (slots st)"

lemma on_stack_upd: "length ps < i \<Longrightarrow> on_stack (s[i := x]) ps = on_stack s ps"
  by (induction ps) auto

lemma stack_push_spec:
  "stack_is st ps \<Longrightarrow> Suc (length ps) < cap st \<Longrightarrow>
   \<exists>st'. stack_push st p = Some st' \<and> stack_is st' (p # ps) \<and> cap st' = cap st"
  by (auto simp: stack_push_def stack_is_def awrite_def nat_add_distrib on_stack_upd)

lemma stack_pop_spec:
  "stack_is st (p # ps) \<Longrightarrow> \<exists>st'. stack_pop st = Some (p, st') \<and> stack_is st' ps \<and> cap st' = cap st"
  by (auto simp: stack_pop_def stack_is_def aread_def nat_add_distrib)

lemma stack_empty_spec: "stack_is st ps \<Longrightarrow> stack_empty st \<longleftrightarrow> ps = []"
  by (auto simp: stack_is_def stack_empty_def)

definition trees_on :: "theap \<Rightarrow> stack \<Rightarrow> (nat \<times> int) tree list \<Rightarrow> bool" where
  "trees_on h st ts \<longleftrightarrow> (\<exists>ps. stack_is st ps \<and> list_all2 (\<lambda>p t. tree_at (cells h) p t \<and> t \<noteq> Leaf) ps ts)"

definition total :: "'a tree list \<Rightarrow> nat" where
  "total ts = sum_list (map size ts)"

definition kid :: "'a tree \<Rightarrow> 'a tree list" where
  "kid t = (if t = Leaf then [] else [t])"

lemma total_simps [simp]: "total [] = 0" "total (t # ts) = size t + total ts"
  "total (ts @ us) = total ts + total us" "total (kid t) = size t"
  by (auto simp: total_def kid_def)

lemma trees_on_length: "trees_on h st ts \<Longrightarrow> length ts \<le> total ts"
proof -
  have "list_all2 (\<lambda>p t. tree_at (cells h) p t \<and> t \<noteq> Leaf) ps ts \<Longrightarrow> length ts \<le> total ts" for ps
  proof (induction ps arbitrary: ts)
    case (Cons p ps)
    then obtain u us where "ts = u # us" "u \<noteq> Leaf" "length us \<le> total us"
      by (auto simp: list_all2_Cons1)
    then show ?case by (cases u) auto
  qed simp
  then show "trees_on h st ts \<Longrightarrow> length ts \<le> total ts" by (auto simp: trees_on_def)
qed

lemma trees_on_empty: "trees_on h st ts \<Longrightarrow> stack_empty st \<longleftrightarrow> ts = []"
  by (auto simp: trees_on_def stack_empty_spec)

lemma push_child_spec:
  assumes "trees_on h st ts" "tree_at (cells h) p t" "total ts + size t < cap st"
  shows "\<exists>st'. push_child st p = Some st' \<and> trees_on h st' (kid t @ ts) \<and> cap st' = cap st"
proof (cases t)
  case Leaf
  with assms show ?thesis by (auto simp: push_child_def kid_def)
next
  case (Node l e r)
  obtain ps where ps: "stack_is st ps" "list_all2 (\<lambda>p t. tree_at (cells h) p t \<and> t \<noteq> Leaf) ps ts"
    using assms(1) by (auto simp: trees_on_def)
  have "Suc (length ps) < cap st"
    using assms(3) trees_on_length [OF assms(1)] list_all2_lengthD [OF ps(2)] Node by simp
  from stack_push_spec [OF ps(1) this, of p] ps(2) assms(2) Node show ?thesis
    by (auto simp: push_child_def kid_def trees_on_def list_all2_Cons2)
qed

lemma push_spec:
  assumes "trees_on h st ts" "tree_at (cells h) p t" "t \<noteq> Leaf" "total ts + size t < cap st"
  shows "\<exists>st'. stack_push st p = Some st' \<and> trees_on h st' (t # ts) \<and> cap st' = cap st"
  using push_child_spec [OF assms(1,2,4)] assms(2,3) by (cases t) (auto simp: push_child_def kid_def)

lemma pop_spec:
  assumes "trees_on h st (t # ts)"
  shows "\<exists>st' a v l r n. stack_pop st = Some (Some a, st') \<and> trees_on h st' ts \<and> cap st' = cap st \<and>
    t = Node l (a, v) r \<and> cells h a = Some n \<and> val n = v \<and> tree_at (cells h) (left n) l \<and>
    tree_at (cells h) (right n) r"
proof -
  obtain p ps where ps: "stack_is st (p # ps)" "tree_at (cells h) p t" "t \<noteq> Leaf"
    "list_all2 (\<lambda>p t. tree_at (cells h) p t \<and> t \<noteq> Leaf) ps ts"
    using assms by (auto simp: trees_on_def list_all2_Cons2)
  obtain l e r where "t = Node l e r" using ps(3) by (cases t) auto
  with ps(2) stack_pop_spec [OF ps(1)] ps(4) show ?thesis
    by (cases e) (auto simp: trees_on_def)
qed

section \<open>Answer arrays\<close>

definition filled :: "'a option list \<Rightarrow> 'a list \<Rightarrow> bool" where
  "filled ans vs \<longleftrightarrow> length ans = 10000 \<and> length vs \<le> 10000 \<and> take (length vs) ans = map Some vs"

lemma filled_empty [simp]: "filled (replicate 10000 None) []"
  by (simp add: filled_def)

lemma filled_step:
  assumes "filled ans vs" "length vs < 10000"
  shows "\<exists>ans'. awrite ans (int (length vs)) (Some v) = Some ans' \<and> filled ans' (vs @ [v])"
  using assms by (auto simp: filled_def take_Suc_conv_app_nth)

section \<open>Preorder\<close>

abbreviation vals :: "((nat \<times> int) tree \<Rightarrow> (nat \<times> int) list) \<Rightarrow> (nat \<times> int) tree \<Rightarrow> int list" where
  "vals f t \<equiv> map snd (f t)"

lemma pre_loop_spec:
  assumes "trees_on h st ts" "ts \<noteq> []" "total ts < cap st" "filled ans vs" "length vs + total ts \<le> 10000"
  shows "\<exists>st' ans'. pre_loop h st ans (int (length vs)) = Some (st', ans', int (length vs + total ts)) \<and>
    filled ans' (vs @ concat (map (vals preorder) ts)) \<and> stack_empty st' \<and> cap st' = cap st"
  using assms
proof (induction "total ts" arbitrary: st ts ans vs rule: less_induct)
  case less
  obtain t us where ts: "ts = t # us" using less.prems(2) by (cases ts) auto
  obtain st1 a v l r n where p: "stack_pop st = Some (Some a, st1)" "trees_on h st1 us" "cap st1 = cap st"
    "t = Node l (a, v) r" "cells h a = Some n" "val n = v" "tree_at (cells h) (left n) l"
    "tree_at (cells h) (right n) r" using pop_spec less.prems(1) ts by metis
  obtain ans1 where a: "awrite ans (int (length vs)) (Some v) = Some ans1" "filled ans1 (vs @ [v])"
    using filled_step [OF less.prems(4)] less.prems(5) ts p(4) by fastforce
  have "total us + size r < cap st1" using less.prems(3) ts p(3,4) by simp
  from push_child_spec [OF p(2,8) this] obtain st2 where s2: "push_child st1 (right n) = Some st2"
    "trees_on h st2 (kid r @ us)" "cap st2 = cap st1" by blast
  have "total (kid r @ us) + size l < cap st2" using less.prems(3) ts p(3,4) s2(3) by simp
  from push_child_spec [OF s2(2) p(7) this] obtain st3 where s3: "push_child st2 (left n) = Some st3"
    "trees_on h st3 (kid l @ kid r @ us)" "cap st3 = cap st2" by blast
  have loop: "pre_loop h st ans (int (length vs)) = (if stack_empty st3 then Some (st3, ans1, int (length vs) + 1)
      else pre_loop h st3 ans1 (int (length vs) + 1))"
    by (subst pre_loop.simps) (use p(1,5,6) a(1) s2(1) s3(1) in simp)
  have out: "concat (map (vals preorder) ts) = v # concat (map (vals preorder) (kid l @ kid r @ us))"
    using ts p(4) by (simp add: kid_def)
  have sz: "total ts = Suc (total (kid l @ kid r @ us))" using ts p(4) by simp
  show ?case
  proof (cases "kid l @ kid r @ us = []")
    case True
    then have "stack_empty st3" using trees_on_empty [OF s3(2)] by blast
    moreover have "total ts = 1" using sz True by (metis total_simps(1) One_nat_def)
    ultimately show ?thesis using loop out True a(2) s3(3) s2(3) p(3) by (auto simp: add.commute)
  next
    case False
    then have "\<not> stack_empty st3" using trees_on_empty [OF s3(2)] by blast
    moreover have "\<exists>st' ans'. pre_loop h st3 ans1 (int (length (vs @ [v]))) =
        Some (st', ans', int (length (vs @ [v]) + total (kid l @ kid r @ us))) \<and>
        filled ans' ((vs @ [v]) @ concat (map (vals preorder) (kid l @ kid r @ us))) \<and> stack_empty st' \<and>
        cap st' = cap st3"
      by (rule less.hyps [OF _ s3(2) False _ a(2)]) (use less.prems ts p s2 s3 in auto)
    ultimately show ?thesis using loop out sz s3(3) s2(3) p(3) by (simp add: add.commute)
  qed
qed

lemma stack_init_trees: "trees_on h (stack_init 10000) []" "cap (stack_init 10000) = 10000"
  by (simp_all add: trees_on_def stack_init_def stack_is_def)

lemma preordertrave_spec:
  assumes "tree_at (cells h) p t" "t \<noteq> Leaf" "size t \<le> 9999"
  shows "\<exists>st. preordertrave h p = Some (Stack st, int (size t)) \<and>
    (\<exists>st1 ans. stack_push (stack_init 10000) p = Some st1 \<and>
      pre_loop h st1 (replicate 10000 None) 0 = Some (st, ans, int (size t)) \<and>
      filled ans (vals preorder t))"
proof -
  obtain st1 where s1: "stack_push (stack_init 10000) p = Some st1" "trees_on h st1 [t]" "cap st1 = 10000"
    using push_spec [OF stack_init_trees(1) assms(1,2)] assms(3) stack_init_trees(2) by auto
  have p: "p \<noteq> None" using assms(1,2) by (cases t) auto
  obtain st2 ans where "pre_loop h st1 (replicate 10000 None) 0 = Some (st2, ans, int (size t))"
    "filled ans (vals preorder t)"
    using pre_loop_spec [OF s1(2) _ _ filled_empty] assms(3) s1(3) by auto
  with s1(1) p show ?thesis by (auto simp: preordertrave_def)
qed

section \<open>Inorder\<close>

lemma push_spec_len:
  assumes "trees_on h st ts" "tree_at (cells h) p t" "t \<noteq> Leaf" "Suc (length ts) < cap st"
  shows "\<exists>st'. stack_push st p = Some st' \<and> trees_on h st' (t # ts) \<and> cap st' = cap st"
proof -
  obtain ps where ps: "stack_is st ps" "list_all2 (\<lambda>p t. tree_at (cells h) p t \<and> t \<noteq> Leaf) ps ts"
    using assms(1) by (auto simp: trees_on_def)
  have "Suc (length ps) < cap st" using assms(4) list_all2_lengthD [OF ps(2)] by simp
  from stack_push_spec [OF ps(1) this, of p] ps(2) assms(2,3) show ?thesis
    by (auto simp: trees_on_def list_all2_Cons2)
qed

text \<open>Walking a subtree prints it and leaves the stack as it was.\<close>

lemma in_loop_subtree:
  assumes "trees_on h st ts" "tree_at (cells h) p t" "size t + length ts < cap st"
    "filled ans vs" "length vs + size t \<le> 10000"
  shows "\<exists>st' ans'. in_loop h st p ans (int (length vs)) = in_loop h st' None ans' (int (length vs + size t)) \<and>
    trees_on h st' ts \<and> cap st' = cap st \<and> filled ans' (vs @ vals inorder t)"
  using assms
proof (induction t arbitrary: st p ts ans vs)
  case Leaf
  then show ?case by auto
next
  case (Node l e r)
  obtain n where n: "p = Some (fst e)" "cells h (fst e) = Some n" "tree_at (cells h) (left n) l"
    "tree_at (cells h) (right n) r" using Node.prems(2) by auto
  have len: "Suc (length ts) < cap st" using Node.prems(3) by simp
  obtain st1 where s1: "stack_push st p = Some st1" "trees_on h st1 (Node l e r # ts)" "cap st1 = cap st"
    using push_spec_len [OF Node.prems(1,2) _ len] by auto
  have "size l + length (Node l e r # ts) < cap st1" "length vs + size l \<le> 10000"
    using Node.prems(3,5) s1(3) by auto
  from Node.IH(1) [OF s1(2) n(3) this(1) Node.prems(4) this(2)] obtain st2 ans2 where
    s2: "in_loop h st1 (left n) ans (int (length vs)) = in_loop h st2 None ans2 (int (length vs + size l))"
      "trees_on h st2 (Node l e r # ts)" "cap st2 = cap st1" "filled ans2 (vs @ vals inorder l)" by blast
  obtain st3 a n3 where s3: "stack_pop st2 = Some (Some a, st3)" "trees_on h st3 ts" "cap st3 = cap st2"
    "fst e = a" "snd e = val n3" "cells h a = Some n3" using pop_spec [OF s2(2)] by auto
  have n3: "n3 = n" using s3(4,6) n(2) by simp
  obtain ans3 where a3: "awrite ans2 (int (length vs + size l)) (Some (snd e)) = Some ans3"
    "filled ans3 ((vs @ vals inorder l) @ [snd e])"
    using filled_step [OF s2(4), of "snd e"] Node.prems(5) by auto
  have "size r + length ts < cap st3" "length ((vs @ vals inorder l) @ [snd e]) + size r \<le> 10000"
    using Node.prems(3,5) s3(3) s2(3) s1(3) by auto
  from Node.IH(2) [OF s3(2) n(4) this(1) a3(2) this(2)] obtain st4 ans4 where
    s4: "in_loop h st3 (right n) ans3 (int (length vs + size l) + 1) =
        in_loop h st4 None ans4 (int (length vs + size (Node l e r)))"
      "trees_on h st4 ts" "cap st4 = cap st3" "filled ans4 (vs @ vals inorder (Node l e r))"
    by (auto simp: algebra_simps)
  have "\<not> stack_empty st2" using trees_on_empty [OF s2(2)] by simp
  then have "in_loop h st2 None ans2 (int (length vs + size l)) =
      in_loop h st3 (right n) ans3 (int (length vs + size l) + 1)"
    by (subst in_loop.simps) (use s3(1,5,6) a3(1) n3 in simp)
  moreover have "in_loop h st p ans (int (length vs)) = in_loop h st1 (left n) ans (int (length vs))"
    by (subst in_loop.simps) (use n(1,2) s1(1) in simp)
  ultimately show ?case using s2(1,3) s4 s3(3) s1(3) by auto
qed

lemma in_loop_spec:
  assumes "tree_at (cells h) p t" "size t < cap st" "trees_on h st []" "size t \<le> 10000"
  shows "\<exists>st' ans. in_loop h st p (replicate 10000 None) 0 = Some (st', ans, int (size t)) \<and>
    filled ans (vals inorder t)"
proof -
  obtain st' ans where "in_loop h st p (replicate 10000 None) 0 = in_loop h st' None ans (int (size t))"
    "trees_on h st' []" "filled ans (vals inorder t)"
    using in_loop_subtree [OF assms(3,1) _ filled_empty] assms(2,4) by auto
  then show ?thesis using trees_on_empty by (auto simp: in_loop.simps)
qed

lemma inordertrave_spec:
  assumes "tree_at (cells h) p t" "t \<noteq> Leaf" "size t \<le> 9999"
  shows "\<exists>st. inordertrave h p = Some (Stack st, int (size t)) \<and>
    (\<exists>ans. in_loop h (stack_init 10000) p (replicate 10000 None) 0 = Some (st, ans, int (size t)) \<and>
      filled ans (vals inorder t))"
proof -
  have "p \<noteq> None" using assms(1,2) by (cases t) auto
  then show ?thesis
    using in_loop_spec [OF assms(1) _ stack_init_trees(1)] assms(3) stack_init_trees(2)
    by (fastforce simp: inordertrave_def)
qed

section \<open>Postorder\<close>

text \<open>The first loop visits root, right, left; the second one turns that around.\<close>

fun revpost :: "'a tree \<Rightarrow> 'a list" where
  "revpost Leaf = []"
| "revpost (Node l x r) = x # revpost r @ revpost l"

lemma revpost_postorder: "revpost t = rev (postorder t)"
  by (induction t) auto

definition tops :: "theap \<Rightarrow> stack \<Rightarrow> int list \<Rightarrow> bool" where
  "tops h st vs \<longleftrightarrow> (\<exists>ps. stack_is st ps \<and> list_all2 (\<lambda>p v. \<exists>n. load h p = Some n \<and> val n = v) ps vs)"

lemma post_loop_spec:
  assumes "trees_on h st ts" "total ts < cap st" "tops h tmp vs" "length vs + total ts < cap tmp"
  shows "\<exists>tmp'. post_loop h st tmp = Some tmp' \<and> cap tmp' = cap tmp \<and>
    tops h tmp' (rev (concat (map (vals revpost) ts)) @ vs)"
  using assms
proof (induction "total ts" arbitrary: st ts tmp vs rule: less_induct)
  case less
  show ?case
  proof (cases ts)
    case Nil
    then show ?thesis
      using trees_on_empty [OF less.prems(1)] less.prems(3) by (subst post_loop.simps) auto
  next
    case (Cons t us)
    note ts = Cons
    obtain st1 a v l r n where p: "stack_pop st = Some (Some a, st1)" "trees_on h st1 us" "cap st1 = cap st"
      "t = Node l (a, v) r" "cells h a = Some n" "val n = v" "tree_at (cells h) (left n) l"
      "tree_at (cells h) (right n) r" using pop_spec less.prems(1) ts by metis
    obtain qs where qs: "stack_is tmp qs"
      "list_all2 (\<lambda>p v. \<exists>n. load h p = Some n \<and> val n = v) qs vs" using less.prems(3) by (auto simp: tops_def)
    have "Suc (length qs) < cap tmp" using less.prems(4) ts p(4) list_all2_lengthD [OF qs(2)] by simp
    from stack_push_spec [OF qs(1) this, of "Some a"] obtain tmp1 where
      t1: "stack_push tmp (Some a) = Some tmp1" "stack_is tmp1 (Some a # qs)" "cap tmp1 = cap tmp" by blast
    have tops1: "tops h tmp1 (v # vs)" using t1(2) qs(2) p(5,6) by (auto simp: tops_def list_all2_Cons2)
    have "total us + size l < cap st1" using less.prems(2) ts p(3,4) by simp
    from push_child_spec [OF p(2,7) this] obtain st2 where s2: "push_child st1 (left n) = Some st2"
      "trees_on h st2 (kid l @ us)" "cap st2 = cap st1" by blast
    have "total (kid l @ us) + size r < cap st2" using less.prems(2) ts p(3,4) s2(3) by simp
    from push_child_spec [OF s2(2) p(8) this] obtain st3 where s3: "push_child st2 (right n) = Some st3"
      "trees_on h st3 (kid r @ kid l @ us)" "cap st3 = cap st2" by blast
    have "\<exists>tmp'. post_loop h st3 tmp1 = Some tmp' \<and> cap tmp' = cap tmp1 \<and>
        tops h tmp' (rev (concat (map (vals revpost) (kid r @ kid l @ us))) @ v # vs)"
      by (rule less.hyps [OF _ s3(2) _ tops1]) (use less.prems ts p s2 s3 t1(3) in auto)
    moreover have "\<not> stack_empty st" using trees_on_empty [OF less.prems(1)] ts by simp
    then have "post_loop h st tmp = post_loop h st3 tmp1"
      by (subst post_loop.simps) (use p(1,5) t1(1) s2(1) s3(1) in simp)
    moreover have "rev (concat (map (vals revpost) (kid r @ kid l @ us))) @ v # vs =
        rev (concat (map (vals revpost) ts)) @ vs"
      using ts p(4) by (simp add: kid_def)
    ultimately show ?thesis using t1(3) by metis
  qed
qed

lemma drain_loop_spec:
  assumes "tops h st vs" "filled ans ws" "length ws + length vs \<le> 10000"
  shows "\<exists>ans'. drain_loop h st ans (int (length ws)) = Some (ans', int (length ws + length vs)) \<and>
    filled ans' (ws @ vs)"
  using assms
proof (induction vs arbitrary: st ans ws)
  case Nil
  then show ?case by (subst drain_loop.simps) (auto simp: tops_def stack_empty_spec)
next
  case (Cons v vs)
  obtain p ps n where p: "stack_is st (p # ps)" "load h p = Some n" "val n = v"
    "list_all2 (\<lambda>p v. \<exists>n. load h p = Some n \<and> val n = v) ps vs"
    using Cons.prems(1) by (auto simp: tops_def list_all2_Cons2)
  obtain st1 where s1: "stack_pop st = Some (p, st1)" "stack_is st1 ps" using stack_pop_spec [OF p(1)] by blast
  have tops1: "tops h st1 vs" using s1(2) p(4) by (auto simp: tops_def)
  obtain ans1 where a: "awrite ans (int (length ws)) (Some v) = Some ans1" "filled ans1 (ws @ [v])"
    using filled_step [OF Cons.prems(2), of v] Cons.prems(3) by auto
  have "\<not> stack_empty st" using stack_empty_spec [OF p(1)] by simp
  then have "drain_loop h st ans (int (length ws)) = drain_loop h st1 ans1 (int (length (ws @ [v])))"
    by (subst drain_loop.simps) (use s1(1) p(2,3) a(1) in \<open>simp add: add.commute\<close>)
  moreover have "\<exists>ans'. drain_loop h st1 ans1 (int (length (ws @ [v]))) =
      Some (ans', int (length (ws @ [v]) + length vs)) \<and> filled ans' ((ws @ [v]) @ vs)"
    by (rule Cons.IH [OF tops1 a(2)]) (use Cons.prems(3) in simp)
  ultimately show ?case by simp
qed

lemma postordertrave_spec:
  assumes "tree_at (cells h) p t" "t \<noteq> Leaf" "size t \<le> 9999"
  shows "\<exists>ans. postordertrave h p = Some (Answer ans, int (size t)) \<and> filled ans (vals postorder t)"
proof -
  have p: "p \<noteq> None" using assms(1,2) by (cases t) auto
  obtain st1 where s1: "stack_push (stack_init 10000) p = Some st1" "trees_on h st1 [t]" "cap st1 = 10000"
    using push_spec [OF stack_init_trees(1) assms(1,2)] assms(3) stack_init_trees(2) by auto
  have "tops h (stack_init 10000) []" by (simp add: tops_def stack_init_def stack_is_def)
  from post_loop_spec [OF s1(2) _ this] obtain tmp where
    t: "post_loop h st1 (stack_init 10000) = Some tmp" "tops h tmp (vals postorder t)"
    using assms(3) s1(3) stack_init_trees(2) by (auto simp: revpost_postorder rev_map)
  from drain_loop_spec [OF t(2) filled_empty] assms(3) show ?thesis
    using t(1) s1(1) p by (auto simp: postordertrave_def)
qed

end
