(* ===== verification/Trees_Level.thy ===== *)
theory Trees_Level
  imports Trees_Traverse
begin

text \<open>
  The level-order traversal of \<open>leveltravel.c\<close>, and \<open>countNodes\<close> of \<open>count_fulltree_node.c\<close>.
\<close>

section \<open>Rows of a tree\<close>

fun zip_append :: "'a list list \<Rightarrow> 'a list list \<Rightarrow> 'a list list" where
  "zip_append [] yss = yss"
| "zip_append xss [] = xss"
| "zip_append (xs # xss) (ys # yss) = (xs @ ys) # zip_append xss yss"

fun levels :: "'a tree \<Rightarrow> 'a list list" where
  "levels Leaf = []"
| "levels (Node l x r) = [x] # zip_append (levels l) (levels r)"

fun kids :: "'a tree \<Rightarrow> 'a tree list" where
  "kids Leaf = []"
| "kids (Node l x r) = kid l @ kid r"

fun root :: "'a tree \<Rightarrow> 'a list" where
  "root Leaf = []"
| "root (Node l x r) = [x]"

definition forest_levels :: "'a tree list \<Rightarrow> 'a list list" where
  "forest_levels ts = foldr zip_append (map levels ts) []"

lemma zip_append_nil [simp]: "zip_append xss [] = xss"
  by (cases xss) simp_all

lemma zip_append_assoc: "zip_append (zip_append xs ys) zs = zip_append xs (zip_append ys zs)"
proof (induction xs ys arbitrary: zs rule: zip_append.induct)
  case (3 x xs y ys)
  then show ?case by (cases zs) auto
qed auto

lemma forest_levels_append: "forest_levels (ts @ us) = zip_append (forest_levels ts) (forest_levels us)"
  by (induction ts) (simp_all add: forest_levels_def zip_append_assoc)

lemma forest_levels_kid [simp]: "forest_levels (kid t) = levels t"
  by (simp add: forest_levels_def kid_def)

lemma forest_levels_step:
  "ts \<noteq> [] \<Longrightarrow> \<forall>t\<in>set ts. t \<noteq> Leaf \<Longrightarrow>
   forest_levels ts = concat (map root ts) # forest_levels (concat (map kids ts))"
proof (induction ts)
  case (Cons t ts)
  obtain l x r where t: "t = Node l x r" using Cons.prems by (cases t) auto
  show ?case
  proof (cases "ts = []")
    case True
    then show ?thesis using t by (simp add: forest_levels_def kid_def)
  next
    case False
    have "forest_levels (t # ts) = zip_append (levels t) (forest_levels ts)"
      by (simp add: forest_levels_def)
    also have "\<dots> = zip_append (levels t)
        (concat (map root ts) # forest_levels (concat (map kids ts)))"
      using Cons.IH False Cons.prems by simp
    also have "\<dots> = concat (map root (t # ts)) # forest_levels (concat (map kids (t # ts)))"
      using t by (simp add: forest_levels_append zip_append_assoc)
    finally show ?thesis .
  qed
qed simp

section \<open>The queue\<close>

definition queue_is :: "queue \<Rightarrow> ptr list \<Rightarrow> bool" where
  "queue_is q ps \<longleftrightarrow> 0 \<le> front q \<and> rear q = front q + int (length ps) \<and>
     length (qslots q) = 10000 \<and> rear q \<le> 10000 \<and>
     (\<forall>i<length ps. qslots q ! (nat (front q) + i) = Some (ps ! i))"

lemma queue_push_spec:
  assumes "queue_is q ps" "rear q < 10000"
  shows "\<exists>q'. queue_push q p = Some q' \<and> queue_is q' (ps @ [p]) \<and> rear q' = rear q + 1"
proof -
  have r: "nat (rear q) = nat (front q) + length ps" using assms(1) by (simp add: queue_is_def nat_add_distrib)
  show ?thesis
    using assms r by (auto simp: queue_push_def queue_is_def awrite_def nth_append less_Suc_eq)
qed

lemma queue_pop_spec:
  assumes "queue_is q (p # ps)"
  shows "\<exists>q'. queue_pop q = Some (p, q') \<and> queue_is q' ps \<and> rear q' = rear q"
proof -
  have "qslots q ! nat (front q) = Some p" using assms by (force simp: queue_is_def)
  moreover have "\<forall>i<length ps. qslots q ! (nat (front q + 1) + i) = Some (ps ! i)"
  proof (intro allI impI)
    fix i assume "i < length ps"
    then have "qslots q ! (nat (front q) + Suc i) = Some ((p # ps) ! Suc i)"
      using assms unfolding queue_is_def by (metis Suc_less_eq length_Cons)
    moreover have "nat (front q + 1) + i = nat (front q) + Suc i"
      using assms by (simp add: queue_is_def nat_add_distrib)
    ultimately show "qslots q ! (nat (front q + 1) + i) = Some (ps ! i)" by simp
  qed
  ultimately show ?thesis
    using assms by (auto simp: queue_pop_def queue_is_def aread_def)
qed

definition trees_in :: "theap \<Rightarrow> queue \<Rightarrow> (nat \<times> int) tree list \<Rightarrow> bool" where
  "trees_in h q ts \<longleftrightarrow> (\<exists>ps. queue_is q ps \<and> list_all2 (\<lambda>p t. tree_at (cells h) p t \<and> t \<noteq> Leaf) ps ts)"

text \<open>The nodes that are still to be pushed for the trees in the queue.\<close>

definition pending :: "'a tree list \<Rightarrow> nat" where
  "pending ts = sum_list (map (\<lambda>t. size t - 1) ts)"

lemma pending_simps [simp]: "pending [] = 0" "pending (t # ts) = size t - 1 + pending ts"
  "pending (ts @ us) = pending ts + pending us"
  by (simp_all add: pending_def)

lemma pending_kid: "length (kid t) + pending (kid t) = size t"
  by (cases t) (simp_all add: kid_def)

lemma queue_child_spec:
  assumes "trees_in h q ts" "tree_at (cells h) p t" "rear q + int (length (kid t)) \<le> 10000"
  shows "\<exists>q'. queue_child q p = Some q' \<and> trees_in h q' (ts @ kid t) \<and>
    rear q' = rear q + int (length (kid t))"
proof (cases t)
  case Leaf
  with assms show ?thesis by (auto simp: queue_child_def kid_def)
next
  case (Node l e r)
  obtain ps where ps: "queue_is q ps" "list_all2 (\<lambda>p t. tree_at (cells h) p t \<and> t \<noteq> Leaf) ps ts"
    using assms(1) by (auto simp: trees_in_def)
  have "rear q < 10000" using assms(3) Node by (simp add: kid_def)
  from queue_push_spec [OF ps(1) this, of p] obtain q' where
    "queue_push q p = Some q'" "queue_is q' (ps @ [p])" "rear q' = rear q + 1" by blast
  moreover have "list_all2 (\<lambda>p t. tree_at (cells h) p t \<and> t \<noteq> Leaf) (ps @ [p]) (ts @ [t])"
    using ps(2) assms(2) Node by (intro list_all2_appendI) auto
  ultimately show ?thesis using assms(2) Node by (auto simp: queue_child_def kid_def trees_in_def)
qed

lemma level_row_spec:
  assumes "trees_in h q (ts @ us)" "rear q + int (pending (ts @ us)) \<le> 10000"
  shows "\<exists>q'. level_row (length ts) h q = Some (concat (map (\<lambda>t. map snd (root t)) ts), q') \<and>
    trees_in h q' (us @ concat (map kids ts)) \<and>
    rear q' + int (pending (us @ concat (map kids ts))) \<le> 10000"
  using assms
proof (induction ts arbitrary: q us)
  case Nil
  then show ?case by auto
next
  case (Cons t ts)
  obtain p ps where ps: "queue_is q (p # ps)" "tree_at (cells h) p t" "t \<noteq> Leaf"
    "list_all2 (\<lambda>p t. tree_at (cells h) p t \<and> t \<noteq> Leaf) ps (ts @ us)"
    using Cons.prems(1) by (auto simp: trees_in_def list_all2_Cons2)
  obtain l a v r n where t: "t = Node l (a, v) r" "p = Some a" "cells h a = Some n" "val n = v"
    "tree_at (cells h) (left n) l" "tree_at (cells h) (right n) r"
    using ps(2,3) by (cases t) auto
  obtain q1 where q1: "queue_pop q = Some (p, q1)" "trees_in h q1 (ts @ us)" "rear q1 = rear q"
    using queue_pop_spec [OF ps(1)] ps(4) by (auto simp: trees_in_def)
  have size: "size t - 1 = length (kid l) + pending (kid l) + (length (kid r) + pending (kid r))"
    using t(1) pending_kid [of l] pending_kid [of r] by simp
  have "rear q1 + int (length (kid l)) \<le> 10000" using Cons.prems(2) size q1(3) by simp
  from queue_child_spec [OF q1(2) t(5) this] obtain q2 where q2: "queue_child q1 (left n) = Some q2"
    "trees_in h q2 ((ts @ us) @ kid l)" "rear q2 = rear q1 + int (length (kid l))" by blast
  have "rear q2 + int (length (kid r)) \<le> 10000" using Cons.prems(2) size q1(3) q2(3) by simp
  from queue_child_spec [OF q2(2) t(6) this] obtain q3 where q3: "queue_child q2 (right n) = Some q3"
    "trees_in h q3 (ts @ us @ kid l @ kid r)" "rear q3 = rear q2 + int (length (kid r))" by auto
  have "rear q3 + int (pending (ts @ us @ kid l @ kid r)) \<le> 10000"
    using Cons.prems(2) size q1(3) q2(3) q3(3) by simp
  from Cons.IH [OF q3(2) this] obtain q4 where q4:
    "level_row (length ts) h q3 = Some (concat (map (\<lambda>t. map snd (root t)) ts), q4)"
    "trees_in h q4 ((us @ kid l @ kid r) @ concat (map kids ts))"
    "rear q4 + int (pending ((us @ kid l @ kid r) @ concat (map kids ts))) \<le> 10000" by blast
  then show ?case using q1(1) t q2(1) q3(1) by simp
qed

lemma trees_in_size:
  assumes "trees_in h q ts"
  shows "queue_size q = int (length ts)" "\<forall>t\<in>set ts. t \<noteq> Leaf" "queue_empty q \<longleftrightarrow> ts = []"
proof -
  obtain ps where ps: "queue_is q ps" "list_all2 (\<lambda>p t. tree_at (cells h) p t \<and> t \<noteq> Leaf) ps ts"
    using assms by (auto simp: trees_in_def)
  have "length ps = length ts" using ps(2) by (rule list_all2_lengthD)
  with ps(1) show "queue_size q = int (length ts)" "queue_empty q \<longleftrightarrow> ts = []"
    by (auto simp: queue_is_def queue_size_def queue_empty_def)
  show "\<forall>t\<in>set ts. t \<noteq> Leaf" using ps(2) by (induction rule: list_all2_induct) auto
qed

lemma roots_length: "\<forall>t\<in>set ts. t \<noteq> Leaf \<Longrightarrow> length (concat (map root ts)) = length ts"
  by (induction ts) (auto simp: neq_Leaf_iff)

lemma concat_kids_total: "\<forall>t\<in>set ts. t \<noteq> Leaf \<Longrightarrow> total (concat (map kids ts)) + length ts = total ts"
proof (induction ts)
  case (Cons t ts)
  then show ?case by (cases t) auto
qed simp

lemma level_loop_spec:
  assumes "trees_in h q ts" "rear q + int (pending ts) \<le> 10000" "filled ans rows" "filled col cols"
    "length rows = length cols" "length rows + total ts \<le> 10000"
  shows "\<exists>ans' col'. level_loop h q ans col (int (length rows)) =
      Some (ans', col', int (length rows + length (forest_levels ts))) \<and>
    filled ans' (rows @ map (map snd) (forest_levels ts)) \<and>
    filled col' (cols @ map (\<lambda>r. int (length r)) (forest_levels ts))"
  using assms
proof (induction "total ts" arbitrary: q ts ans col rows cols rule: less_induct)
  case less
  note sz = trees_in_size [OF less.prems(1)]
  show ?case
  proof (cases "ts = []")
    case True
    then show ?thesis using less.prems sz by (subst level_loop.simps) (auto simp: forest_levels_def)
  next
    case False
    let ?row = "concat (map (\<lambda>t. map snd (root t)) ts)" and ?next = "concat (map kids ts)"
    have step: "forest_levels ts = concat (map root ts) # forest_levels ?next"
      using forest_levels_step [OF False] sz by blast
    have len: "length (concat (map root ts)) = length ts"
      using roots_length sz(2) by blast
    have row: "map snd (concat (map root ts)) = ?row" by (simp add: map_concat comp_def)
    obtain q1 where q1: "level_row (length ts) h q = Some (?row, q1)" "trees_in h q1 ?next"
      "rear q1 + int (pending ?next) \<le> 10000"
      using level_row_spec [of h q ts "[]"] less.prems(1,2) by auto
    have tot: "total ?next + length ts = total ts" using concat_kids_total sz by blast
    have "0 < length ts" using False by simp
    then have lt: "total ?next < total ts" "length rows < 10000" "length cols < 10000"
      "length (rows @ [?row]) + total ?next \<le> 10000"
      using tot less.prems(5,6) by (auto simp del: length_greater_0_conv)
    obtain col1 where col1: "awrite col (int (length rows)) (Some (int (length ts))) = Some col1"
      "filled col1 (cols @ [int (length ts)])"
      using filled_step [OF less.prems(4) lt(3)] less.prems(5) by metis
    obtain ans1 where ans1: "awrite ans (int (length rows)) (Some ?row) = Some ans1"
      "filled ans1 (rows @ [?row])" using filled_step [OF less.prems(3) lt(2)] by blast
    have "level_loop h q ans col (int (length rows)) =
        level_loop h q1 ans1 col1 (int (length (rows @ [?row])))"
      by (subst level_loop.simps) (use sz False col1(1) q1(1) ans1(1) in \<open>simp add: Let_def add.commute\<close>)
    moreover have "\<exists>ans' col'. level_loop h q1 ans1 col1 (int (length (rows @ [?row]))) =
        Some (ans', col', int (length (rows @ [?row]) + length (forest_levels ?next))) \<and>
        filled ans' ((rows @ [?row]) @ map (map snd) (forest_levels ?next)) \<and>
        filled col' ((cols @ [int (length ts)]) @ map (\<lambda>r. int (length r)) (forest_levels ?next))"
      by (rule less.hyps [OF lt(1) q1(2,3) ans1(2) col1(2)]) (use less.prems(5) lt(4) in auto)
    ultimately show ?thesis using step len row by simp
  qed
qed

lemma leveltrave_spec:
  assumes "tree_at (cells h) p t" "t \<noteq> Leaf" "size t \<le> 10000"
  shows "\<exists>ans col. leveltrave h p = Some (Some (ans, col), int (length (levels t))) \<and>
    filled ans (map (map snd) (levels t)) \<and> filled col (map (\<lambda>r. int (length r)) (levels t))"
proof -
  have p: "p \<noteq> None" using assms(1,2) by (cases t) auto
  have "queue_is (queue_init 10000) []" by (simp add: queue_is_def queue_init_def)
  from queue_push_spec [OF this, of p] obtain q where
    q: "queue_push (queue_init 10000) p = Some q" "queue_is q [p]" "rear q = 1"
    by (auto simp: queue_init_def)
  have "trees_in h q [t]" using q(2) assms(1,2) by (auto simp: trees_in_def)
  moreover have "rear q + int (pending [t]) \<le> 10000" using q(3) assms(2,3) by (cases t) auto
  ultimately have "\<exists>ans' col'. level_loop h q (replicate 10000 None) (replicate 10000 None) (int (length ([] :: int list list))) =
      Some (ans', col', int (length ([] :: int list list) + length (forest_levels [t]))) \<and>
      filled ans' ([] @ map (map snd) (forest_levels [t])) \<and>
      filled col' ([] @ map (\<lambda>r. int (length r)) (forest_levels [t]))"
    by (rule level_loop_spec) (use assms(3) in auto)
  then show ?thesis using p q(1) by (auto simp: leveltrave_def forest_levels_def Let_def)
qed

section \<open>Counting the nodes of a complete tree\<close>

text \<open>A tree of height \<open>k\<close> whose levels are full, but for the last one, which is filled from the left.\<close>

fun left_filled :: "nat \<Rightarrow> 'a tree \<Rightarrow> bool" where
  "left_filled k Leaf \<longleftrightarrow> k = 0"
| "left_filled k (Node l x r) \<longleftrightarrow> (\<exists>j. k = Suc j \<and>
     (complete l \<and> height l = j \<and> left_filled j r \<or>
      left_filled j l \<and> complete r \<and> Suc (height r) = j))"

fun spine_left :: "'a tree \<Rightarrow> nat" where
  "spine_left Leaf = 0"
| "spine_left (Node l x r) = Suc (spine_left l)"

fun spine_right :: "'a tree \<Rightarrow> nat" where
  "spine_right Leaf = 0"
| "spine_right (Node l x r) = Suc (spine_right r)"

lemma complete_spines: "complete t \<Longrightarrow> spine_left t = height t \<and> spine_right t = height t \<and> left_filled (height t) t"
  by (induction t) auto

lemma left_filled_spines: "left_filled k t \<Longrightarrow> spine_left t = k \<and> height t = k \<and> spine_right t \<le> k"
proof (induction t arbitrary: k)
  case (Node l x r)
  obtain j where j: "k = Suc j" "complete l \<and> height l = j \<and> left_filled j r \<or>
      left_filled j l \<and> complete r \<and> Suc (height r) = j" using Node.prems(1) by auto
  from j(2) show ?case
  proof (elim disjE conjE)
    assume "complete l" "height l = j" "left_filled j r"
    with Node.IH(2) [of j] complete_spines [of l] j(1) show ?thesis by simp
  next
    assume "left_filled j l" "complete r" "Suc (height r) = j"
    with Node.IH(1) [of j] complete_spines [of r] j(1) show ?thesis by simp
  qed
qed simp

lemma left_filled_full: "left_filled k t \<Longrightarrow> spine_right t = k \<Longrightarrow> complete t"
proof (induction t arbitrary: k)
  case (Node l x r)
  obtain j where j: "k = Suc j" "complete l \<and> height l = j \<and> left_filled j r \<or>
      left_filled j l \<and> complete r \<and> Suc (height r) = j" using Node.prems(1) by auto
  have sr: "spine_right r = j" using Node.prems(2) j(1) by simp
  have "\<not> (complete r \<and> Suc (height r) = j)" using complete_spines [of r] sr by auto
  then have l: "complete l" "height l = j" "left_filled j r" using j(2) by auto
  moreover have "complete r" using Node.IH(2) [OF l(3) sr] .
  moreover have "height r = j" using left_filled_spines [OF l(3)] by simp
  ultimately show ?case by simp
qed simp

lemma depth_from_spec:
  "tree_at (cells h) p t \<Longrightarrow> 0 \<le> d \<Longrightarrow> d + int (height t) \<le> int_max \<Longrightarrow>
   depth_from left h p d = Some (d + int (spine_left t)) \<and>
   depth_from right h p d = Some (d + int (spine_right t))"
proof (induction t arbitrary: p d)
  case (Node l e r)
  then obtain n where n: "p = Some (fst e)" "cells h (fst e) = Some n"
    "tree_at (cells h) (left n) l" "tree_at (cells h) (right n) r" by auto
  have c: "cint (d + 1) = Some (d + 1)" using Node.prems(2,3) by (simp add: cint_def int_min_def)
  have "depth_from left h (left n) (d + 1) = Some (d + 1 + int (spine_left l))"
    using Node.IH(1) [OF n(3), of "d + 1"] Node.prems(2,3) by simp
  moreover have "depth_from right h (right n) (d + 1) = Some (d + 1 + int (spine_right r))"
    using Node.IH(2) [OF n(4), of "d + 1"] Node.prems(2,3) by simp
  ultimately show ?case
    using n(1,2) c by (subst (1 2) depth_from.simps) auto
qed (simp add: depth_from.simps)

lemma size_bound: "size (t :: 'a tree) < 2 ^ height t"
  using size1_height [of t] by (simp add: size1_size)

lemma countNodes_spec:
  "tree_at (cells h) p t \<Longrightarrow> left_filled k t \<Longrightarrow> k \<le> 30 \<Longrightarrow> countNodes h p = Some (int (size t))"
proof (induction t arbitrary: p k)
  case Leaf
  then show ?case by (simp add: countNodes.simps)
next
  case (Node l e r)
  then obtain n where n: "p = Some (fst e)" "cells h (fst e) = Some n"
    "tree_at (cells h) (left n) l" "tree_at (cells h) (right n) r" by auto
  obtain j where j: "k = Suc j" "complete l \<and> height l = j \<and> left_filled j r \<or>
      left_filled j l \<and> complete r \<and> Suc (height r) = j" using Node.prems(2) by auto
  obtain i where lf: "left_filled j l" "left_filled i r" "i \<le> j" using j(2) complete_spines by fastforce
  have hl: "height l = j" "spine_left l = j" "height r = i" "spine_right r \<le> i"
    using left_filled_spines [OF lf(1)] left_filled_spines [OF lf(2)] by auto
  have m: "int j \<le> int_max" using Node.prems(3) j(1) by (simp add: int_max_def)
  have dl: "depthleft h (left n) = Some (int j)" "depthright h (right n) = Some (int (spine_right r))"
    using depth_from_spec [OF n(3), of 0] depth_from_spec [OF n(4), of 0] hl lf(3) m
    by (auto simp: depthleft_def depthright_def)
  show ?case
  proof (cases "j = spine_right r")
    case True
    then have "i = j" using lf(3) hl(4) by simp
    then have r: "complete r" "height r = j" using left_filled_full [OF lf(2)] True hl(3) by auto
    have l: "complete l" using j(2) r(2) by auto
    have pw: "nat (int j + 1) = Suc j" by simp
    have "int (size1 l) = 2 ^ j" "int (size1 r) = 2 ^ j"
      using size1_if_complete [OF l] size1_if_complete [OF r(1)] hl(1) r(2) by simp_all
    then have "int (size (Node l e r)) = 2 ^ nat (int j + 1) - 1"
      unfolding pw by (simp add: size1_size)
    then show ?thesis using n(1,2) dl True Node.prems(3) j(1) by (subst countNodes.simps) simp
  next
    case False
    have c: "countNodes h (left n) = Some (int (size l))" "countNodes h (right n) = Some (int (size r))"
      using Node.IH(1) [OF n(3) lf(1)] Node.IH(2) [OF n(4) lf(2)] Node.prems(3) j(1) lf(3) by auto
    have "size (Node l e r) < 2 ^ 30"
      using size_bound [of "Node l e r"] left_filled_spines [OF Node.prems(2)] Node.prems(3)
      by (metis order_less_le_trans one_le_numeral power_increasing)
    then have "cint (1 + int (size l)) = Some (1 + int (size l))"
      "cint (1 + int (size l) + int (size r)) = Some (1 + int (size l) + int (size r))"
      by (simp_all add: cint_def int_min_def int_max_def)
    then show ?thesis using n(1,2) dl False c by (subst countNodes.simps) simp
  qed
qed

end
