(* ===== verification/Trees_Build.thy ===== *)
theory Trees_Build
  imports Trees_Correct Linked
begin

text \<open>
  The functions of \<open>binarrytree/\<close> that build trees: from a postorder and an inorder array, from
  a preorder and an inorder array, and from a sorted linked list.
\<close>

text \<open>What a construction in \<open>h\<close> that ends in \<open>h'\<close> has built: a tree of fresh nodes.\<close>

definition built :: "theap \<Rightarrow> theap \<Rightarrow> ptr \<Rightarrow> (nat \<times> int) tree \<Rightarrow> bool" where
  "built h h' p t \<longleftrightarrow> tree_at (cells h') p t \<and> once t \<and> addrs t \<subseteq> {brk h..<brk h'} \<and>
     brk h \<le> brk h' \<and> (\<forall>a<brk h. cells h' a = cells h a) \<and> env h' = env h"

definition generous :: "theap \<Rightarrow> bool" where
  "generous h \<longleftrightarrow> (\<forall>a. env h a \<noteq> None)"

lemma built_Leaf: "built h h None Leaf"
  by (simp add: built_def)

lemma built_generous: "built h h' p t \<Longrightarrow> generous h' = generous h"
  by (simp add: built_def generous_def)

text \<open>A fresh root, then its two subtrees in either order.\<close>

definition fresh_root :: "theap \<Rightarrow> int \<Rightarrow> theap" where
  "fresh_root h v = h\<lparr>cells := (cells h)(brk h \<mapsto> (the (env h (brk h)))\<lparr>val := v\<rparr>), brk := Suc (brk h)\<rparr>"

lemma fresh_root_simps [simp]: "brk (fresh_root h v) = Suc (brk h)" "env (fresh_root h v) = env h"
  "generous (fresh_root h v) = generous h"
  "cells (fresh_root h v) = (cells h)(brk h \<mapsto> (the (env h (brk h)))\<lparr>val := v\<rparr>)"
  by (simp_all add: fresh_root_def generous_def)

lemma alloc_root:
  assumes "generous h"
  shows "\<exists>h1. cmalloc h = (Some (brk h), h1) \<and>
    store h1 (Some (brk h)) (\<lambda>x. x\<lparr>val := v\<rparr>) = Some (fresh_root h v)"
  using assms unfolding generous_def by (auto simp: cmalloc_def fresh_root_def c_step split: option.splits)

lemma link_subtree:
  assumes B: "built h1 h2 q t" and a: "a < brk h1" "cells h1 a = Some n"
  shows "store h2 (Some a) f = Some (h2\<lparr>cells := (cells h2)(a \<mapsto> f n)\<rparr>)"
    and "tree_at ((cells h2)(a \<mapsto> f n)) q t" and "a \<notin> addrs t"
proof -
  show "a \<notin> addrs t" using B a(1) by (auto simp: built_def)
  then show "tree_at ((cells h2)(a \<mapsto> f n)) q t" using B by (simp add: built_def)
  show "store h2 (Some a) f = Some (h2\<lparr>cells := (cells h2)(a \<mapsto> f n)\<rparr>)"
    using B a by (simp add: built_def c_step)
qed

text \<open>
  The shape both orders share: build one subtree, link it with \<open>f\<close>, build the other one, link
  it with \<open>g\<close>.
\<close>

lemma build_node:
  assumes B1: "built (fresh_root h v) h2 p1 t1"
    and B2: "built h3 h4 p2 t2" and h3: "h3 = h2\<lparr>cells := (cells h2)(brk h \<mapsto> f n)\<rparr>"
    and n: "n = (the (env h (brk h)))\<lparr>val := v\<rparr>"
    and fg: "val (g (f n)) = v" "left (g (f n)) = pl" "right (g (f n)) = pr"
    and lr: "(pl, l, pr, r) = (p1, t1, p2, t2) \<or> (pl, l, pr, r) = (p2, t2, p1, t1)"
  shows "\<exists>h5. store h4 (Some (brk h)) g = Some h5 \<and> built h h5 (Some (brk h)) (Node l (brk h, v) r)"
proof -
  have a: "brk h < brk (fresh_root h v)" "cells (fresh_root h v) (brk h) = Some n" using n by simp_all
  have a3: "brk h < brk h3" "cells h3 (brk h) = Some (f n)"
    using B1 h3 by (simp_all add: built_def)
  let ?h5 = "h4\<lparr>cells := (cells h4)(brk h \<mapsto> g (f n))\<rparr>"
  have s: "store h4 (Some (brk h)) g = Some ?h5" using link_subtree(1) [OF B2 a3] by simp
  have lt: "x < brk h3" if "x \<in> addrs t1" for x using B1 that h3 by (auto simp: built_def)
  have ge: "brk h3 \<le> x" if "x \<in> addrs t2" for x using B2 that by (auto simp: built_def)
  have t2: "tree_at (cells ?h5) p2 t2" "brk h \<notin> addrs t2" using link_subtree(2) [OF B2 a3, of g] link_subtree(3) [OF B2 a3] by simp_all
  have na: "brk h \<notin> addrs t1" using link_subtree(3) [OF B1 a] .
  have "cells ?h5 x = cells h2 x" if "x \<in> addrs t1" for x
    using that na lt [OF that] B2 h3 by (auto simp: built_def)
  then have t1: "tree_at (cells ?h5) p1 t1" using B1 tree_at_cong [of t1 "cells ?h5" "cells h2" p1] by (simp add: built_def)
  have disj: "addrs t1 \<inter> addrs t2 = {}" using lt ge by (meson disjoint_iff not_le)
  have "tree_at (cells ?h5) (Some (brk h)) (Node l (brk h, v) r)"
    using lr t1 t2(1) fg by auto
  moreover have "once (Node l (brk h, v) r)"
    using lr na t2(2) disj B1 B2 by (auto simp: built_def)
  moreover have "addrs (Node l (brk h, v) r) \<subseteq> {brk h..<brk ?h5}"
    using lr B1 B2 h3 by (fastforce simp: built_def)
  moreover have "\<forall>x<brk h. cells ?h5 x = cells h x"
    using B1 B2 h3 by (auto simp: built_def)
  ultimately have "built h ?h5 (Some (brk h)) (Node l (brk h, v) r)"
    using B1 B2 h3 by (auto simp: built_def)
  with s show "\<exists>h5. store h4 (Some (brk h)) g = Some h5 \<and> built h h5 (Some (brk h)) (Node l (brk h, v) r)"
    by blast
qed

section \<open>From inorder and postorder\<close>

lemma aread_middle: "aread (xs @ v # ys) (int (length xs)) = Some v"
  by simp

lemma find_root_spec:
  "v \<notin> set ys \<Longrightarrow> find_root (xs @ ys @ v # zs) v (int (length xs)) = Some (int (length xs + length ys))"
proof (induction ys arbitrary: xs)
  case Nil
  then show ?case by (subst find_root.simps) (simp add: aread_def)
next
  case (Cons y ys)
  have "find_root ((xs @ [y]) @ ys @ v # zs) v (int (length (xs @ [y]))) =
      Some (int (length (xs @ [y]) + length ys))" by (rule Cons.IH) (use Cons.prems in simp)
  then show ?case using Cons.prems by (subst find_root.simps) (simp add: aread_def add.commute)
qed

lemma find_root_none: "v \<notin> set ys \<Longrightarrow> find_root (xs @ ys) v (int (length xs)) = None"
proof (induction ys arbitrary: xs)
  case Nil
  then show ?case by (subst find_root.simps) (simp add: aread_def)
next
  case (Cons y ys)
  have "find_root ((xs @ [y]) @ ys) v (int (length (xs @ [y]))) = None"
    by (rule Cons.IH) (use Cons.prems in simp)
  then show ?case using Cons.prems by (subst find_root.simps) (simp add: aread_def add.commute)
qed

lemma create_tree_post_spec:
  assumes "xs = xa @ inorder u @ xb" "ps = pa @ postorder u @ pb" "distinct (inorder u)" "generous h"
  shows "\<exists>h' p t. create_tree_post xs ps h (int (length xa)) (int (length pa + size u) - 1) (int (size u)) =
      Some (p, h') \<and> built h h' p t \<and> tvals t = u"
  using assms
proof (induction u arbitrary: xa xb pa pb h)
  case Leaf
  then show ?case using built_Leaf by (subst create_tree_post.simps) fastforce
next
  case (Node l v r)
  let ?post = "int (length pa + size (Node l v r)) - 1"
  obtain h1 where h1: "cmalloc h = (Some (brk h), h1)"
    "store h1 (Some (brk h)) (\<lambda>x. x\<lparr>val := v\<rparr>) = Some (fresh_root h v)"
    using alloc_root [OF Node.prems(4)] by blast
  have rv: "aread ps ?post = Some v"
    using aread_middle [of "pa @ postorder l @ postorder r" v pb] Node.prems(2) by simp
  have p: "find_root xs v (int (length xa)) = Some (int (length xa + size l))"
    using find_root_spec [of v "inorder l" xa "inorder r @ xb"] Node.prems(1,3) by simp
  have "\<exists>h' p t. create_tree_post xs ps (fresh_root h v) (int (length (xa @ inorder l @ [v])))
      (int (length (pa @ postorder l) + size r) - 1) (int (size r)) = Some (p, h') \<and>
      built (fresh_root h v) h' p t \<and> tvals t = r"
    by (rule Node.IH(2) [where xb = xb and pb = "v # pb"]) (use Node.prems in auto)
  then obtain h2 pr tr where r: "create_tree_post xs ps (fresh_root h v) (int (length xa + size l) + 1)
      (?post - 1) (int (size r)) = Some (pr, h2)" "built (fresh_root h v) h2 pr tr" "tvals tr = r"
    by (auto simp: algebra_simps)
  define n where "n = (the (env h (brk h)))\<lparr>val := v\<rparr>"
  define h3 where "h3 = h2\<lparr>cells := (cells h2)(brk h \<mapsto> n\<lparr>right := pr\<rparr>)\<rparr>"
  have "generous h3" using built_generous [OF r(2)] Node.prems(4) by (simp add: h3_def generous_def)
  then have "\<exists>h' p t. create_tree_post xs ps h3 (int (length xa)) (int (length pa + size l) - 1) (int (size l)) =
      Some (p, h') \<and> built h3 h' p t \<and> tvals t = l"
    by (intro Node.IH(1) [where xb = "v # inorder r @ xb" and pb = "postorder r @ v # pb"])
      (use Node.prems in auto)
  then obtain h4 pl tl where l: "create_tree_post xs ps h3 (int (length xa)) (?post - int (size r) - 1) (int (size l)) =
      Some (pl, h4)" "built h3 h4 pl tl" "tvals tl = l" by (auto simp: algebra_simps)
  have s3: "store h2 (Some (brk h)) (\<lambda>x. x\<lparr>right := pr\<rparr>) = Some h3"
    using link_subtree(1) [OF r(2), of "brk h" n] by (simp add: h3_def n_def)
  obtain h5 where h5: "store h4 (Some (brk h)) (\<lambda>x. x\<lparr>left := pl\<rparr>) = Some h5"
    "built h h5 (Some (brk h)) (Node tl (brk h, v) tr)"
    using build_node [OF r(2) l(2), where f = "\<lambda>x. x\<lparr>right := pr\<rparr>" and g = "\<lambda>x. x\<lparr>left := pl\<rparr>"
        and pl = pl and pr = pr and l = tl and r = tr]
    by (auto simp: h3_def n_def)
  have arith: "int (size (Node l v r)) - (int (length xa + size l) - int (length xa)) - 1 = int (size r)"
    "int (length xa + size l) - int (length xa) = int (size l)" by simp_all
  have "create_tree_post xs ps h (int (length xa)) ?post (int (size (Node l v r))) = Some (Some (brk h), h5)"
    by (subst create_tree_post.simps)
      (use h1 rv p r(1) s3 l(1) h5(1) in \<open>simp add: arith Let_def\<close>)
  then show ?case using h5(2) r(3) l(3) by fastforce
qed

section \<open>From preorder and inorder\<close>

text \<open>
  \<open>len1=in-p\<close> has the wrong sign: a left subtree is never built, and the right one is then
  looked for at the wrong place.
\<close>

fun no_left :: "'a tree \<Rightarrow> bool" where
  "no_left Leaf \<longleftrightarrow> True"
| "no_left (Node l x r) \<longleftrightarrow> l = Leaf \<and> no_left r"

lemma create_tree_pre_right:
  assumes "xs = a @ inorder u" "ps = a @ preorder u" "distinct (a @ inorder u)" "generous h" "no_left u"
  shows "\<exists>h' p t. create_tree_pre ps xs h (int (length a)) (int (length a)) (int (size u)) =
      Some (p, h') \<and> built h h' p t \<and> tvals t = u"
  using assms
proof (induction u arbitrary: a h)
  case Leaf
  then show ?case using built_Leaf by (subst create_tree_pre.simps) fastforce
next
  case (Node l v r)
  have l: "l = Leaf" using Node.prems(5) by simp
  obtain h1 where h1: "cmalloc h = (Some (brk h), h1)"
    "store h1 (Some (brk h)) (\<lambda>x. x\<lparr>val := v\<rparr>) = Some (fresh_root h v)"
    using alloc_root [OF Node.prems(4)] by blast
  have rv: "aread ps (int (length a)) = Some v" using Node.prems(2) by simp
  have p: "find_root xs v (int (length a)) = Some (int (length a))"
    using find_root_spec [of v "[]" a "inorder r"] Node.prems(1) l by simp
  define n where "n = (the (env h (brk h)))\<lparr>val := v\<rparr>"
  define h3 where "h3 = (fresh_root h v)\<lparr>cells := (cells (fresh_root h v))(brk h \<mapsto> n\<lparr>left := None\<rparr>)\<rparr>"
  have B1: "built (fresh_root h v) (fresh_root h v) None Leaf" by (rule built_Leaf)
  have s3: "store (fresh_root h v) (Some (brk h)) (\<lambda>x. x\<lparr>left := None\<rparr>) = Some h3"
    using link_subtree(1) [OF B1, of "brk h" n] by (simp add: h3_def n_def)
  have "generous h3" using Node.prems(4) by (simp add: h3_def generous_def)
  then have "\<exists>h' p t. create_tree_pre ps xs h3 (int (length (a @ [v]))) (int (length (a @ [v]))) (int (size r)) =
      Some (p, h') \<and> built h3 h' p t \<and> tvals t = r"
    by (intro Node.IH(2)) (use Node.prems l in auto)
  then obtain h4 pr tr where r: "create_tree_pre ps xs h3 (int (length a) + 1) (int (length a) + 1) (int (size r)) =
      Some (pr, h4)" "built h3 h4 pr tr" "tvals tr = r" by (auto simp: add.commute)
  obtain h5 where h5: "store h4 (Some (brk h)) (\<lambda>x. x\<lparr>right := pr\<rparr>) = Some h5"
    "built h h5 (Some (brk h)) (Node Leaf (brk h, v) tr)"
    using build_node [OF B1 r(2), where f = "\<lambda>x. x\<lparr>left := None\<rparr>" and g = "\<lambda>x. x\<lparr>right := pr\<rparr>"
        and pl = None and pr = pr and l = Leaf and r = tr]
    by (auto simp: h3_def n_def)
  have left0: "create_tree_pre ps xs (fresh_root h v) (int (length a) + 1) (int (length a)) 0 =
      Some (None, fresh_root h v)"
    by (subst create_tree_pre.simps) simp
  have "create_tree_pre ps xs h (int (length a)) (int (length a)) (int (size (Node l v r))) = Some (Some (brk h), h5)"
    by (subst create_tree_pre.simps)
      (use h1 rv p r(1) s3 left0 h5(1) l in \<open>simp add: Let_def\<close>)
  then show ?case using h5(2) r(3) l by fastforce
qed

lemma create_tree_pre_fails:
  assumes "xs = a @ inorder u" "ps = a @ preorder u" "distinct (a @ inorder u)" "generous h" "\<not> no_left u"
  shows "create_tree_pre ps xs h (int (length a)) (int (length a)) (int (size u)) = None"
  using assms
proof (induction u arbitrary: a h)
  case (Node l v r)
  obtain h1 where h1: "cmalloc h = (Some (brk h), h1)"
    "store h1 (Some (brk h)) (\<lambda>x. x\<lparr>val := v\<rparr>) = Some (fresh_root h v)"
    using alloc_root [OF Node.prems(4)] by blast
  have rv: "aread ps (int (length a)) = Some v" using Node.prems(2) by simp
  have p: "find_root xs v (int (length a)) = Some (int (length a + size l))"
    using find_root_spec [of v "inorder l" a "inorder r"] Node.prems(1,3) by simp
  have left0: "create_tree_pre ps xs h' i j (- int (size l)) = Some (None, h')" for h' i j
    by (subst create_tree_pre.simps) simp
  have g: "generous (h\<lparr>cells := c, brk := b\<rparr>) = generous h" for c b by (simp add: generous_def)
  have "\<exists>h3. store (fresh_root h v) (Some (brk h)) (\<lambda>x. x\<lparr>left := None\<rparr>) = Some h3 \<and> generous h3"
    using Node.prems(4) by (auto simp: c_step generous_def)
  then obtain h3 where h3: "store (fresh_root h v) (Some (brk h)) (\<lambda>x. x\<lparr>left := None\<rparr>) = Some h3"
    "generous h3" by blast
  have "create_tree_pre ps xs h3 (int (length a) - int (size l) + 1) (int (length a + size l) + 1)
      (int (size (Node l v r)) + int (size l) - 1) = None"
  proof (cases "l = Leaf")
    case True
    have "create_tree_pre ps xs h3 (int (length (a @ [v]))) (int (length (a @ [v]))) (int (size r)) = None"
      by (rule Node.IH(2)) (use Node.prems True h3(2) in auto)
    then show ?thesis using True by (simp add: add.commute)
  next
    case False
    then have k: "0 < size l" by (cases l) auto
    obtain h4 where h4: "cmalloc h3 = (Some (brk h3), h4)"
      "\<And>w. \<exists>h5. store h4 (Some (brk h3)) (\<lambda>x. x\<lparr>val := w\<rparr>) = Some h5"
    proof -
      obtain x where "env h3 (brk h3) = Some x" using h3(2) by (auto simp: generous_def)
      then show thesis using that by (auto simp: cmalloc_def c_step)
    qed
    let ?i = "int (length a) - int (size l) + 1"
    have none: "find_root xs w (int (length a + size l) + 1) = None" if "aread ps ?i = Some w" for w
    proof -
      have "0 \<le> ?i" using that by (auto simp: aread_def split: if_splits)
      then have "nat ?i < length (a @ [v])" and w: "w = ps ! nat ?i"
        using k that by (auto simp: aread_def split: if_splits)
      moreover have "ps = (a @ [v]) @ preorder l @ preorder r" using Node.prems(2) by simp
      ultimately have "w = (a @ [v]) ! nat ?i" by (metis nth_append)
      then have "w \<in> set (a @ [v])" using \<open>nat ?i < length (a @ [v])\<close> nth_mem by metis
      then have "w \<notin> set (inorder r)" using Node.prems(3) by auto
      from find_root_none [OF this, of "a @ inorder l @ [v]"] Node.prems(1) show ?thesis
        by (simp add: algebra_simps)
    qed
    show ?thesis
    proof (cases "aread ps ?i")
      case None
      then show ?thesis using h4(1) k by (subst create_tree_pre.simps) (simp add: Let_def)
    next
      case (Some w)
      obtain h5 where "store h4 (Some (brk h3)) (\<lambda>x. x\<lparr>val := w\<rparr>) = Some h5" using h4(2) by blast
      then show ?thesis using h4(1) k Some none [OF Some] by (subst create_tree_pre.simps) (simp add: Let_def)
    qed
  qed
  then show ?case
    by (subst create_tree_pre.simps)
      (use h1 rv p left0 h3(1) in \<open>simp add: Let_def algebra_simps\<close>)
qed simp

section \<open>From a sorted list\<close>

lemma slow_fast_spec:
  assumes "lchain lnext (cells lh) (Some (as ! 0)) as" "2 * i < length as"
  shows "slow_fast lh (if i = 0 then None else Some (as ! (i - 1))) (Some (as ! i)) (Some (as ! (2 * i))) =
    Some (if (length as - 1) div 2 = 0 then None else Some (as ! ((length as - 1) div 2 - 1)),
      Some (as ! ((length as - 1) div 2)))"
  using assms
proof (induction "length as - 2 * i" arbitrary: i rule: less_induct)
  case less
  note nth = lchain_nth [OF less.prems(1)]
  obtain f where f: "cells lh (as ! (2 * i)) = Some f"
    "lnext f = (if Suc (2 * i) < length as then Some (as ! Suc (2 * i)) else None)"
    using nth [OF less.prems(2)] by blast
  show ?case
  proof (cases "Suc (Suc (2 * i)) < length as")
    case True
    obtain g where g: "cells lh (as ! Suc (2 * i)) = Some g" "lnext g = Some (as ! Suc (Suc (2 * i)))"
      using nth [of "Suc (2 * i)"] True by auto
    obtain s where s: "cells lh (as ! i) = Some s" "lnext s = Some (as ! Suc i)"
      using nth [of i] True by auto
    have "slow_fast lh (Some (as ! i)) (Some (as ! Suc i)) (Some (as ! (2 * Suc i))) =
      Some (if (length as - 1) div 2 = 0 then None else Some (as ! ((length as - 1) div 2 - 1)),
        Some (as ! ((length as - 1) div 2)))"
      using less.hyps [of "Suc i"] True less.prems(1) by simp
    then show ?thesis using f g s True by (subst slow_fast.simps) simp
  next
    case False
    then have i: "(length as - 1) div 2 = i" using less.prems(2) by linarith
    show ?thesis
    proof (cases "Suc (2 * i) < length as")
      case True
      obtain g where g: "cells lh (as ! Suc (2 * i)) = Some g" "lnext g = None"
        using nth [of "Suc (2 * i)"] True False by auto
      show ?thesis using f g True i by (subst slow_fast.simps) simp
    next
      case False
      show ?thesis using f False i by (subst slow_fast.simps) simp
    qed
  qed
qed

text \<open>The values of the nodes; the construction rewrites links only.\<close>

definition list_vals :: "lnode heap \<Rightarrow> nat list \<Rightarrow> int list" where
  "list_vals lh as = map (\<lambda>a. case cells lh a of None \<Rightarrow> 0 | Some n \<Rightarrow> lval n) as"

definition relinked :: "lnode heap \<Rightarrow> lnode heap \<Rightarrow> nat set \<Rightarrow> bool" where
  "relinked lh lh' A \<longleftrightarrow> (\<forall>x. x \<notin> A \<longrightarrow> cells lh' x = cells lh x) \<and>
     (\<forall>x. map_option lval (cells lh' x) = map_option lval (cells lh x))"

lemma list_vals_simps [simp]: "list_vals lh [] = []"
  "list_vals lh (a # as) = (case cells lh a of None \<Rightarrow> 0 | Some n \<Rightarrow> lval n) # list_vals lh as"
  "list_vals lh (as @ bs) = list_vals lh as @ list_vals lh bs"
  by (simp_all add: list_vals_def)

lemma relinked_vals: "relinked lh lh' A \<Longrightarrow> list_vals lh' as = list_vals lh as"
  unfolding list_vals_def relinked_def
  by (rule map_cong) (auto split: option.splits, metis option.map(1) option.distinct(1) option.map_disc_iff,
      metis option.map_disc_iff option.distinct(1), metis option.inject option.map(2))

lemma relinked_trans: "relinked l1 l2 A \<Longrightarrow> relinked l2 l3 B \<Longrightarrow> relinked l1 l3 (A \<union> B)"
  by (simp add: relinked_def)

lemma relinked_cut:
  "cells lh a = Some n \<Longrightarrow> relinked lh (lh\<lparr>cells := (cells lh)(a \<mapsto> n\<lparr>lnext := None\<rparr>)\<rparr>) {a}"
  by (simp add: relinked_def)

lemma relinked_chain:
  "relinked lh lh' A \<Longrightarrow> set as \<inter> A = {} \<Longrightarrow> lseg lnext (cells lh) p as q \<Longrightarrow> lseg lnext (cells lh') p as q"
proof -
  assume R: "relinked lh lh' A" "set as \<inter> A = {}" and L: "lseg lnext (cells lh) p as q"
  have "map_option lnext (cells lh' a) = map_option lnext (cells lh a)" if "a \<in> set as" for a
    using R that by (metis disjoint_iff relinked_def)
  from lseg_cong [OF this] L show "lseg lnext (cells lh') p as q" by simp
qed

lemma sortedListToBST_spec:
  assumes "lchain lnext (cells lh) p as" "generous h"
  shows "\<exists>q lh' h' t. sortedListToBST lh h p = Some (q, lh', h') \<and> built h h' q t \<and>
    inorder (tvals t) = list_vals lh as \<and> wbalanced t \<and> size t = length as \<and> relinked lh lh' (set as)"
  using assms
proof (induction "length as" arbitrary: as p lh h rule: less_induct)
  case less
  show ?case
  proof (cases "as = []")
    case True
    then have "sortedListToBST lh h p = Some (None, lh, h)"
      using less.prems(1) by (subst sortedListToBST.simps) simp
    then show ?thesis using True built_Leaf [of h] by (fastforce simp: relinked_def)
  next
    case False
    define m where "m = (length as - 1) div 2"
    have m: "m < length as" using False by (cases as) (auto simp: m_def)
    define xs s ys where "xs = take m as" and "s = as ! m" and "ys = drop (Suc m) as"
    have as: "as = xs @ s # ys" using id_take_nth_drop [OF m] by (simp add: xs_def s_def ys_def)
    have len: "length xs = m" "length ys = length as - 1 - m" using m by (auto simp: xs_def ys_def)
    have dist: "distinct as" using lchain_distinct [OF less.prems(1)] .
    have p: "p = Some (as ! 0)" using less.prems(1) False by (cases as) auto
    have sf: "slow_fast lh None p p = Some (if m = 0 then None else Some (as ! (m - 1)), Some s)"
      using slow_fast_spec [of lh as 0] less.prems(1) False p by (simp add: m_def s_def)
    obtain n where n: "cells lh s = Some n" "lchain lnext (cells lh) (lnext n) ys"
      "lseg lnext (cells lh) p xs (Some s)"
      using less.prems(1) unfolding as by (auto simp: lseg_append)
    define lh1 where "lh1 = lh\<lparr>cells := (cells lh)(s \<mapsto> n\<lparr>lnext := None\<rparr>)\<rparr>"
    have r1: "relinked lh lh1 {s}" using relinked_cut [OF n(1)] by (simp add: lh1_def)
    obtain h1 where h1: "cmalloc h = (Some (brk h), h1)"
      "store h1 (Some (brk h)) (\<lambda>x. x\<lparr>val := lval n\<rparr>) = Some (fresh_root h (lval n))"
      using alloc_root [OF less.prems(2)] by blast
    have ys: "lchain lnext (cells lh1) (lnext n) ys" using relinked_chain [OF r1 _ n(2)] dist as by auto
    have "length ys < length as" using as by simp
    from less.hyps [OF this ys, of "fresh_root h (lval n)"] less.prems(2)
    obtain qr lh2 h2 tr where r: "sortedListToBST lh1 (fresh_root h (lval n)) (lnext n) = Some (qr, lh2, h2)"
      "built (fresh_root h (lval n)) h2 qr tr" "inorder (tvals tr) = list_vals lh1 ys" "wbalanced tr"
      "size tr = length ys" "relinked lh1 lh2 (set ys)" by auto
    define k where "k = (the (env h (brk h)))\<lparr>val := lval n\<rparr>"
    define h3 where "h3 = h2\<lparr>cells := (cells h2)(brk h \<mapsto> k\<lparr>right := qr\<rparr>)\<rparr>"
    have s3: "store h2 (Some (brk h)) (\<lambda>x. x\<lparr>right := qr\<rparr>) = Some h3"
      using link_subtree(1) [OF r(2), of "brk h" k] by (simp add: h3_def k_def)
    have gen3: "generous h3" using built_generous [OF r(2)] less.prems(2) by (simp add: h3_def generous_def)
    have r2: "relinked lh lh2 (insert s (set ys))" using relinked_trans [OF r1 r(6)] by simp
    have "\<exists>ql lh4 h4 tl. (if m = 0 then Some (None, lh2, h3) else do {
        lh \<leftarrow> store lh2 (Some (as ! (m - 1))) (\<lambda>x. x\<lparr>lnext := None\<rparr>);
        sortedListToBST lh h3 p
      }) = Some (ql, lh4, h4) \<and> built h3 h4 ql tl \<and> inorder (tvals tl) = list_vals lh xs \<and> wbalanced tl \<and>
      size tl = length xs \<and> relinked lh lh4 (set as)"
    proof (cases "m = 0")
      case True
      have "relinked lh lh2 (set as)" using r2 as by (auto simp: relinked_def)
      with True len show ?thesis using built_Leaf [of h3] by fastforce
    next
      case False
      then obtain zs z where zs: "xs = zs @ [z]" using len(1) by (cases xs rule: rev_cases) auto
      have "m - 1 = length zs" using zs len(1) by simp
      then have z: "as ! (m - 1) = z" using as zs by (simp add: nth_append)
      have xs2: "lseg lnext (cells lh2) p xs (Some s)" using relinked_chain [OF r2 _ n(3)] dist as by auto
      then obtain nz where nz: "cells lh2 z = Some nz" using zs by (auto simp: lseg_append)
      define lh3 where "lh3 = lh2\<lparr>cells := (cells lh2)(z \<mapsto> nz\<lparr>lnext := None\<rparr>)\<rparr>"
      have r3: "relinked lh lh3 (set as)"
        using relinked_trans [OF r2 relinked_cut [OF nz]] as zs by (auto simp: lh3_def relinked_def)
      have xs3: "lchain lnext (cells lh3) p xs"
        using lseg_cut [of lnext "cells lh2" p zs z "Some s" "nz\<lparr>lnext := None\<rparr>"] xs2 dist as zs
        by (simp add: lh3_def)
      have "length xs < length as" using as by simp
      from less.hyps [OF this xs3 gen3] obtain ql lh4 h4 tl where
        l: "sortedListToBST lh3 h3 p = Some (ql, lh4, h4)" "built h3 h4 ql tl"
          "inorder (tvals tl) = list_vals lh3 xs" "wbalanced tl" "size tl = length xs"
          "relinked lh3 lh4 (set xs)" by blast
      have "relinked lh lh4 (set as)"
        using relinked_trans [OF r3 l(6)] as by (auto simp: relinked_def)
      moreover have "store lh2 (Some z) (\<lambda>x. x\<lparr>lnext := None\<rparr>) = Some lh3"
        using nz by (simp add: c_step lh3_def)
      ultimately show ?thesis using False z l relinked_vals [OF r3] by (auto intro!: exI)
    qed
    then obtain ql lh4 h4 tl where l: "(if m = 0 then Some (None, lh2, h3) else do {
        lh \<leftarrow> store lh2 (Some (as ! (m - 1))) (\<lambda>x. x\<lparr>lnext := None\<rparr>);
        sortedListToBST lh h3 p
      }) = Some (ql, lh4, h4)" "built h3 h4 ql tl" "inorder (tvals tl) = list_vals lh xs" "wbalanced tl"
      "size tl = length xs" "relinked lh lh4 (set as)" by blast
    obtain h5 where h5: "store h4 (Some (brk h)) (\<lambda>x. x\<lparr>left := ql\<rparr>) = Some h5"
      "built h h5 (Some (brk h)) (Node tl (brk h, lval n) tr)"
      using build_node [OF r(2) l(2), where f = "\<lambda>x. x\<lparr>right := qr\<rparr>" and g = "\<lambda>x. x\<lparr>left := ql\<rparr>"
          and pl = ql and pr = qr and l = tl and r = tr]
      by (auto simp: h3_def k_def)
    have "sortedListToBST lh h p = Some (Some (brk h), lh4, h5)"
    proof (cases "m = 0")
      case True
      then show ?thesis
        by (subst sortedListToBST.simps)
          (use p sf n(1) h1 r(1) s3 l(1) h5(1) in \<open>simp add: c_step lh1_def Let_def\<close>)
    next
      case False
      then obtain lh3 where "store lh2 (Some (as ! (m - 1))) (\<lambda>x. x\<lparr>lnext := None\<rparr>) = Some lh3"
        "sortedListToBST lh3 h3 p = Some (ql, lh4, h4)"
        using l(1) by (auto simp: bind_eq_Some_conv)
      with False show ?thesis
        by (subst sortedListToBST.simps)
          (use p sf n(1) h1 r(1) s3 h5(1) in \<open>simp add: c_step lh1_def Let_def\<close>)
    qed
    moreover have "inorder (tvals (Node tl (brk h, lval n) tr)) = list_vals lh as"
      using l(3) r(3) relinked_vals [OF r1] as n(1) by simp
    moreover have "\<bar>int (size tl) - int (size tr)\<bar> \<le> 1" using l(5) r(5) len m m_def by linarith
    then have "wbalanced (Node tl (brk h, lval n) tr)" using l(4) r(4) by simp
    moreover have "size (Node tl (brk h, lval n) tr) = length as" using l(5) r(5) as by simp
    ultimately show ?thesis using h5(2) l(6) by blast
  qed
qed

end
