(* ===== verification/Trees_Theorems.thy ===== *)
theory Trees_Theorems
  imports Trees_Level Trees_Build
begin

text \<open>
  The properties of the tree routines: building a tree and traversing it again, the builder
  with the wrong sign, the balanced tree of a sorted list, and what the traversals return.
\<close>

text \<open>What a caller reads from an answer: the first \<open>size\<close> slots.\<close>

definition answer_is :: "returned \<times> int \<Rightarrow> int list \<Rightarrow> bool" where
  "answer_is r vs \<longleftrightarrow> (case fst r of Answer ans \<Rightarrow> snd r = int (length vs) \<and> filled ans vs | Stack _ \<Rightarrow> False)"

definition empty_heap :: theap where
  "empty_heap = \<lparr>cells = Map.empty, brk = 0, env = \<lambda>_. Some \<lparr>val = 0, left = None, right = None\<rparr>\<rparr>"

lemma empty_heap_generous: "generous empty_heap"
  by (simp add: empty_heap_def generous_def)

text \<open>
  C21. From the inorder and the postorder values of any tree without repeated values,
  \<open>create_tree\<close> builds exactly that tree in fresh nodes; for 1 to 9999 values \<open>postordertrave\<close>
  of the result gives the postorder back, and \<open>leveltrave\<close> its levels.
\<close>
theorem postorder_round_trip:
  assumes "distinct (inorder u)" "generous h" "u \<noteq> Leaf" "size u \<le> 9999"
  shows "\<exists>p h' t r ans col. create_tree_post (inorder u) (postorder u) h 0 (int (size u) - 1) (int (size u)) =
      Some (p, h') \<and> built h h' p t \<and> tvals t = u \<and>
    postordertrave h' p = Some r \<and> answer_is r (postorder u) \<and>
    leveltrave h' p = Some (Some (ans, col), int (length (levels u))) \<and> filled ans (levels u)"
proof -
  obtain h' p t where b: "create_tree_post (inorder u) (postorder u) h 0 (int (size u) - 1) (int (size u)) =
      Some (p, h')" "built h h' p t" "tvals t = u"
    using create_tree_post_spec [of "inorder u" "[]" u "[]" "postorder u" "[]" "[]" h] assms(1,2) by auto
  have t: "tree_at (cells h') p t" "t \<noteq> Leaf" "size t \<le> 9999" "size t = size u"
    using b(2,3) assms(3,4) by (auto simp: built_def)
  have lv: "levels (tvals s) = map (map snd) (levels s)" for s
  proof (induction s)
    case (Node l e r)
    have "zip_append (map (map snd) a) (map (map snd) b) = map (map snd) (zip_append a b)"
      for a b :: "(nat \<times> int) list list" by (induction a b rule: zip_append.induct) simp_all
    with Node show ?case by simp
  qed simp
  obtain ans where post: "postordertrave h' p = Some (Answer ans, int (size t))" "filled ans (vals postorder t)"
    using postordertrave_spec [OF t(1-3)] by blast
  have vp: "vals postorder t = postorder u" using b(3) by auto
  have "answer_is (Answer ans, int (size t)) (postorder u)"
    using post(2) t(4) unfolding vp by (simp add: answer_is_def)
  moreover have "\<exists>ans col. leveltrave h' p = Some (Some (ans, col), int (length (levels u))) \<and> filled ans (levels u)"
    using leveltrave_spec [OF t(1,2)] t(3) lv [of t] b(3) by auto
  ultimately show ?thesis using b post(1) by blast
qed

definition demo_tree :: "int tree" where
  "demo_tree = Node (Node Leaf 9 Leaf) 3 (Node (Node Leaf 15 Leaf) 20 (Node Leaf 7 Leaf))"

theorem postorder_round_trip_witness:
  "\<exists>p h' t r ans col. create_tree_post [9, 3, 15, 20, 7] [9, 15, 7, 20, 3] empty_heap 0 4 5 = Some (p, h') \<and>
    built empty_heap h' p t \<and> tvals t = demo_tree \<and> postordertrave h' p = Some r \<and>
    answer_is r [9, 15, 7, 20, 3] \<and> leveltrave h' p = Some (Some (ans, col), 3) \<and>
    filled ans [[3], [9, 20], [15, 7]]"
  using postorder_round_trip [of demo_tree empty_heap] empty_heap_generous
  by (simp add: demo_tree_def)

text \<open>
  C22. The other \<open>create_tree\<close>, from the preorder, subtracts the wrong way round: it builds the
  tree when no node has a left child, and reads outside its arrays for every other tree.
\<close>
theorem preorder_builds_right_chains_only:
  assumes "distinct (inorder u)" "generous h"
  shows "if no_left u
    then (\<exists>p h' t. create_tree_pre (preorder u) (inorder u) h 0 0 (int (size u)) = Some (p, h') \<and>
      built h h' p t \<and> tvals t = u)
    else create_tree_pre (preorder u) (inorder u) h 0 0 (int (size u)) = None"
  using create_tree_pre_right [of "inorder u" "[]" u "preorder u" h]
    create_tree_pre_fails [of "inorder u" "[]" u "preorder u" h] assms by auto

theorem preorder_builds_right_chains_only_witness:
  "create_tree_pre [3, 9, 20] [9, 3, 20] empty_heap 0 0 3 = None"
  using preorder_builds_right_chains_only [of "Node (Node Leaf 9 Leaf) 3 (Node Leaf 20 Leaf)" empty_heap]
    empty_heap_generous by simp

lemma wbalanced_heights:
  "wbalanced (u :: 'a tree) \<Longrightarrow> wbalanced (t :: 'a tree) \<Longrightarrow> size u \<le> size t + 1 \<Longrightarrow> height u \<le> height t + 1"
proof (induction u arbitrary: t)
  case (Node l x r)
  show ?case
  proof (cases t)
    case Leaf
    with Node.prems(3) show ?thesis by (cases l; cases r) auto
  next
    case (Node tl y tr)
    define b where "b = (if size tl \<le> size tr then tr else tl)"
    have "\<bar>int (size l) - int (size r)\<bar> \<le> 1" "\<bar>int (size tl) - int (size tr)\<bar> \<le> 1"
      "size l + size r \<le> size tl + size tr + 1"
      using Node.prems Node by simp_all
    then have "size l \<le> size b + 1" "size r \<le> size b + 1" unfolding b_def by (auto split: if_splits)
    moreover have "wbalanced b" "height b \<le> max (height tl) (height tr)"
      using Node.prems(2) Node by (auto simp: b_def)
    ultimately have "height l \<le> height b + 1" "height r \<le> height b + 1"
      using Node.IH Node.prems(1) by auto
    with \<open>height b \<le> max (height tl) (height tr)\<close> Node show ?thesis by auto
  qed
qed simp

lemma wbalanced_height_balanced: "wbalanced t \<Longrightarrow> height_balanced t"
proof (induction t)
  case (Node l x r)
  have w: "wbalanced l" "wbalanced r" "\<bar>int (size l) - int (size r)\<bar> \<le> 1" using Node.prems by simp_all
  then have "size l \<le> size r + 1" "size r \<le> size l + 1" by linarith+
  then have "height l \<le> height r + 1" "height r \<le> height l + 1"
    using wbalanced_heights w(1,2) by blast+
  with Node.IH w show ?case by auto
qed simp

text \<open>
  C23. \<open>sortedListToBST\<close> on any null-terminated list returns a tree of fresh nodes whose inorder
  values are those of the list, in order; the two sides of every node differ by at most one in
  size, so \<open>isBalanced\<close> answers true. The list is consumed: only its links change.
\<close>
theorem sorted_list_to_balanced_tree:
  assumes "lchain lnext (cells lh) p as" "generous h" "int (length as) \<le> int_max"
  shows "\<exists>q lh' h' t. sortedListToBST lh h p = Some (q, lh', h') \<and> built h h' q t \<and>
    inorder (tvals t) = list_vals lh as \<and> wbalanced t \<and> isBalanced h' q = Some True \<and>
    relinked lh lh' (set as)"
proof -
  obtain q lh' h' t where q: "sortedListToBST lh h p = Some (q, lh', h')" "built h h' q t"
    "inorder (tvals t) = list_vals lh as" "wbalanced t" "size t = length as" "relinked lh lh' (set as)"
    using sortedListToBST_spec [OF assms(1,2)] by blast
  have "height t \<le> size t" by (rule height_le_size_tree)
  then have "isBalanced h' q = Some (height_balanced t)"
    using q(2,5) assms(3) by (intro isBalanced_spec) (auto simp: built_def)
  with q wbalanced_height_balanced [OF q(4)] show ?thesis by auto
qed

definition demo_chain :: "lnode heap" where
  "demo_chain = \<lparr>cells = [0 \<mapsto> \<lparr>lval = 1, lnext = Some 1\<rparr>, 1 \<mapsto> \<lparr>lval = 2, lnext = Some 2\<rparr>,
     2 \<mapsto> \<lparr>lval = 3, lnext = Some 3\<rparr>, 3 \<mapsto> \<lparr>lval = 4, lnext = None\<rparr>], brk = 4, env = \<lambda>_. None\<rparr>"

theorem sorted_list_to_balanced_tree_witness:
  "\<exists>q lh' h' t. sortedListToBST demo_chain empty_heap (Some 0) = Some (q, lh', h') \<and>
    built empty_heap h' q t \<and> inorder (tvals t) = [1, 2, 3, 4] \<and> wbalanced t \<and>
    isBalanced h' q = Some True \<and> relinked demo_chain lh' {0, 1, 2, 3}"
proof -
  have c: "lchain lnext (cells demo_chain) (Some 0) [0, 1, 2, 3]" by (simp add: demo_chain_def)
  have v: "list_vals demo_chain [0, 1, 2, 3] = [1, 2, 3, 4]" by (simp add: list_vals_def demo_chain_def)
  from sorted_list_to_balanced_tree [OF c empty_heap_generous, unfolded v]
  show ?thesis by (simp add: int_max_def)
qed

text \<open>
  C24. The loops of \<open>preordertrave\<close> and \<open>inordertrave\<close> write the right values into the answer
  array, but both functions return the stack instead of it; \<open>postordertrave\<close> returns its
  answer. All three count correctly, for any tree of 1 to 9999 nodes.
\<close>
theorem traversals_return_the_stack:
  assumes "tree_at (cells h) p t" "t \<noteq> Leaf" "size t \<le> 9999"
  shows "(\<exists>st st1 ans. preordertrave h p = Some (Stack st, int (size t)) \<and>
      stack_push (stack_init 10000) p = Some st1 \<and>
      pre_loop h st1 (replicate 10000 None) 0 = Some (st, ans, int (size t)) \<and>
      filled ans (preorder (tvals t))) \<and>
    (\<exists>st ans. inordertrave h p = Some (Stack st, int (size t)) \<and>
      in_loop h (stack_init 10000) p (replicate 10000 None) 0 = Some (st, ans, int (size t)) \<and>
      filled ans (inorder (tvals t))) \<and>
    (\<exists>ans. postordertrave h p = Some (Answer ans, int (size t)) \<and> filled ans (postorder (tvals t)))"
  using preordertrave_spec [OF assms] inordertrave_spec [OF assms] postordertrave_spec [OF assms]
  by auto

definition demo_nodes :: theap where
  "demo_nodes = empty_heap\<lparr>brk := 3, cells := [0 \<mapsto> \<lparr>val = 5, left = Some 1, right = Some 2\<rparr>,
     1 \<mapsto> \<lparr>val = 4, left = None, right = None\<rparr>, 2 \<mapsto> \<lparr>val = 6, left = None, right = None\<rparr>]\<rparr>"

theorem traversals_return_the_stack_witness:
  "(\<exists>st. preordertrave demo_nodes (Some 0) = Some (Stack st, 3)) \<and>
   (\<exists>st. inordertrave demo_nodes (Some 0) = Some (Stack st, 3)) \<and>
   (\<exists>ans. postordertrave demo_nodes (Some 0) = Some (Answer ans, 3) \<and> filled ans [4, 6, 5])"
proof -
  have "tree_at (cells demo_nodes) (Some 0) (Node (Node Leaf (1, 4) Leaf) (0, 5) (Node Leaf (2, 6) Leaf))"
    by (simp add: demo_nodes_def)
  from traversals_return_the_stack [OF this] show ?thesis by auto
qed

section \<open>The remaining functions\<close>

text \<open>Inverting a tree mirrors it, and inverting it twice restores the heap.\<close>

lemma invert_twice:
  assumes "tree_at (cells h) p t" "once t"
  shows "\<exists>h'. invertTree h p = Some (p, h') \<and> tree_at (cells h') p (mirror t) \<and> invertTree h' p = Some (p, h)"
proof -
  have m: "tree_at (cells (flip_at (addrs t) h)) p (mirror t)" using tree_at_flip [OF assms] by simp
  have am: "addrs (mirror t) = addrs t" by (induction t) auto
  then have om: "once (mirror t)" using assms(2) by (simp add: once_def inorder_mirror flip: rev_map)
  have "invertTree (flip_at (addrs t) h) p = Some (p, h)"
    using invertTree_spec [OF m om] by (simp add: am flip_flip)
  with invertTree_spec [OF assms] m show ?thesis by blast
qed

text \<open>\<open>isSymmetric\<close> is true exactly of trees that equal their mirror image.\<close>

lemma isSymmetric_mirror:
  "tree_at (cells h) p t \<Longrightarrow> isSymmetric h p = Some (mirror (tvals t) = tvals t)"
  using isSymmetric_spec [of h p t] symmetric_tree_mirror [of "tvals t"] by simp

end
