(* ===== verification/Bst.thy ===== *)
theory Bst
  imports CPrelude "HOL-Library.Tree"
begin

text \<open>
  The binary search tree of \<open>binarrytree/BST.c\<close>: nodes with a parent pointer, and a sentinel
  node in the place of null pointers, to whose \<open>parent\<close> field a deletion writes. The insertion
  function is a pointer in the tree, so it is a field of the model's record too.
\<close>

record bstree_node =
  bleft :: ptr
  bright :: ptr
  parent :: ptr
  key :: int

type_synonym bheap = "bstree_node heap"

record bstree =
  broot :: ptr
  sentinel :: ptr
  insert_fn :: "bheap \<Rightarrow> ptr \<Rightarrow> ptr \<Rightarrow> ptr \<Rightarrow> bheap option"

record bmem =
  btrees :: "bstree heap"
  bnodes :: bheap

definition set_bnode :: "bmem \<Rightarrow> ptr \<Rightarrow> (bstree_node \<Rightarrow> bstree_node) \<Rightarrow> bmem option" where
  "set_bnode m p f = map_option (\<lambda>h. m\<lparr>bnodes := h\<rparr>) (store (bnodes m) p f)"

definition set_btree :: "bmem \<Rightarrow> ptr \<Rightarrow> (bstree \<Rightarrow> bstree) \<Rightarrow> bmem option" where
  "set_btree m p f = map_option (\<lambda>h. m\<lparr>btrees := h\<rparr>) (store (btrees m) p f)"

definition bstree_create ::
  "bmem \<Rightarrow> ptr \<Rightarrow> (bheap \<Rightarrow> ptr \<Rightarrow> ptr \<Rightarrow> ptr \<Rightarrow> bheap option) \<Rightarrow> (ptr \<times> bmem) option" where
  "bstree_create m s i = (let (tp, h) = cmalloc (btrees m); m = m\<lparr>btrees := h\<rparr> in
     if tp = None then Some (None, m)
     else do {
       m \<leftarrow> set_btree m tp (\<lambda>t. t\<lparr>broot := s\<rparr>);
       m \<leftarrow> set_btree m tp (\<lambda>t. t\<lparr>sentinel := s\<rparr>);
       m \<leftarrow> set_btree m tp (\<lambda>t. t\<lparr>insert_fn := i\<rparr>);
       Some (tp, m)
     })"

partial_function (option) lookup_loop :: "bheap \<Rightarrow> ptr \<Rightarrow> int \<Rightarrow> ptr \<Rightarrow> ptr option" where
  "lookup_loop h s k p = (if p = s then Some p else do {
     n \<leftarrow> load h p;
     if key n = k then Some p
     else lookup_loop h s k (if key n < k then bright n else bleft n)
   })"

definition bstree_lookup :: "bmem \<Rightarrow> ptr \<Rightarrow> int \<Rightarrow> ptr option" where
  "bstree_lookup m tp k = do {
     t \<leftarrow> load (btrees m) tp;
     lookup_loop (bnodes m) (sentinel t) k (broot t)
   }"

text \<open>\<open>for(;;)\<close>: the node below which \<open>*p\<close> is the sentinel, and whether \<open>p\<close> is its left link.\<close>

partial_function (option) insert_loop :: "bheap \<Rightarrow> ptr \<Rightarrow> ptr \<Rightarrow> ptr \<Rightarrow> (ptr \<times> bool) option" where
  "insert_loop h rt node s = do {
     n \<leftarrow> load h node;
     r \<leftarrow> load h rt;
     let to_left = key n < key r;
     let child = (if to_left then bleft r else bright r);
     if child = s then Some (rt, to_left) else insert_loop h child node s
   }"

definition bstree_insert_value :: "bheap \<Rightarrow> ptr \<Rightarrow> ptr \<Rightarrow> ptr \<Rightarrow> bheap option" where
  "bstree_insert_value h rt node s = do {
     (rt, to_left) \<leftarrow> insert_loop h rt node s;
     h \<leftarrow> store h node (\<lambda>x. x\<lparr>parent := rt\<rparr>);
     h \<leftarrow> store h rt (\<lambda>x. if to_left then x\<lparr>bleft := node\<rparr> else x\<lparr>bright := node\<rparr>);
     store h node (\<lambda>x. x\<lparr>bleft := s, bright := s\<rparr>)
   }"

definition bstree_insert :: "bmem \<Rightarrow> ptr \<Rightarrow> ptr \<Rightarrow> bmem option" where
  "bstree_insert m tp node = do {
     t \<leftarrow> load (btrees m) tp;
     if broot t = sentinel t then do {
       m \<leftarrow> set_btree m tp (\<lambda>t. t\<lparr>broot := node\<rparr>);
       set_bnode m node (\<lambda>x. x\<lparr>parent := sentinel t, bleft := sentinel t, bright := sentinel t\<rparr>)
     } else do {
       h \<leftarrow> insert_fn t (bnodes m) (broot t) node (sentinel t);
       Some (m\<lparr>bnodes := h\<rparr>)
     }
   }"

partial_function (option) min_loop :: "bheap \<Rightarrow> ptr \<Rightarrow> ptr \<Rightarrow> ptr option" where
  "min_loop h node s = do {
     n \<leftarrow> load h node;
     if bleft n \<noteq> s then min_loop h (bleft n) s else Some node
   }"

definition bstree_min :: "bheap \<Rightarrow> ptr \<Rightarrow> ptr \<Rightarrow> ptr option" where
  "bstree_min h node s = (if node = s then Some s else min_loop h node s)"

text \<open>The node to be unlinked and the one that replaces it.\<close>

definition delete_pick :: "bheap \<Rightarrow> ptr \<Rightarrow> ptr \<Rightarrow> (ptr \<times> ptr) option" where
  "delete_pick h s node = do {
     n \<leftarrow> load h node;
     if bleft n = s then Some (node, bright n)
     else if bright n = s then Some (node, bleft n)
     else do {
       subst \<leftarrow> bstree_min h (bright n) s;
       sn \<leftarrow> load h subst;
       Some (subst, bright sn)
     }
   }"

definition bstree_delete :: "bmem \<Rightarrow> ptr \<Rightarrow> ptr \<Rightarrow> bmem option" where
  "bstree_delete m tp node = do {
     t \<leftarrow> load (btrees m) tp;
     let s = sentinel t;
     (subst, temp) \<leftarrow> delete_pick (bnodes m) s node;
     sn \<leftarrow> load (bnodes m) subst;
     m \<leftarrow> set_bnode m temp (\<lambda>x. x\<lparr>parent := parent sn\<rparr>);
     sn \<leftarrow> load (bnodes m) subst;
     m \<leftarrow> (if parent sn = s then set_btree m tp (\<lambda>t. t\<lparr>broot := temp\<rparr>)
          else do {
            pn \<leftarrow> load (bnodes m) (parent sn);
            if bleft pn = subst then set_bnode m (parent sn) (\<lambda>x. x\<lparr>bleft := temp\<rparr>)
            else set_bnode m (parent sn) (\<lambda>x. x\<lparr>bright := temp\<rparr>)
          });
     m \<leftarrow> (if subst \<noteq> node then do {
            sn \<leftarrow> load (bnodes m) subst;
            set_bnode m node (\<lambda>x. x\<lparr>key := key sn\<rparr>)
          } else Some m);
     h \<leftarrow> cfree (bnodes m) subst;
     Some (m\<lparr>bnodes := h\<rparr>)
   }"

text \<open>What \<open>inordertravel\<close> prints.\<close>

partial_function (option) inordertravel :: "bheap \<Rightarrow> ptr \<Rightarrow> ptr \<Rightarrow> int list option" where
  "inordertravel h rt s = (if rt \<noteq> s then do {
     n \<leftarrow> load h rt;
     xs \<leftarrow> inordertravel h (bleft n) s;
     ys \<leftarrow> inordertravel h (bright n) s;
     Some (xs @ key n # ys)
   } else Some [])"

definition inorder_print :: "bmem \<Rightarrow> ptr \<Rightarrow> int list option" where
  "inorder_print m tp = do {
     t \<leftarrow> load (btrees m) tp;
     inordertravel (bnodes m) (broot t) (sentinel t)
   }"

section \<open>The steps of main\<close>

text \<open>The random keys, and the keys that are read from the input, are arguments.\<close>

definition insert_key :: "bmem \<Rightarrow> ptr \<Rightarrow> int \<Rightarrow> bmem option" where
  "insert_key m tp k = (let (p, h) = cmalloc (bnodes m); m = m\<lparr>bnodes := h\<rparr> in do {
     m \<leftarrow> set_bnode m p (\<lambda>x. x\<lparr>bleft := None, bright := None\<rparr>);
     m \<leftarrow> set_bnode m p (\<lambda>x. x\<lparr>key := k\<rparr>);
     bstree_insert m tp p
   })"

primrec insert_keys :: "int list \<Rightarrow> bmem \<Rightarrow> ptr \<Rightarrow> bmem option" where
  "insert_keys [] m tp = Some m"
| "insert_keys (k # ks) m tp = do { m \<leftarrow> insert_key m tp k; insert_keys ks m tp }"

text \<open>Each key is reported as found or not; a found node is deleted.\<close>

definition search_key :: "bmem \<Rightarrow> ptr \<Rightarrow> int \<Rightarrow> (bool \<times> bmem) option" where
  "search_key m tp k = do {
     p \<leftarrow> bstree_lookup m tp k;
     t \<leftarrow> load (btrees m) tp;
     if p = sentinel t then Some (False, m)
     else do {
       m \<leftarrow> bstree_delete m tp p;
       Some (True, m)
     }
   }"

primrec search_keys :: "int list \<Rightarrow> bmem \<Rightarrow> ptr \<Rightarrow> (bool list \<times> bmem) option" where
  "search_keys [] m tp = Some ([], m)"
| "search_keys (k # ks) m tp = do {
     (b, m) \<leftarrow> search_key m tp k;
     (bs, m) \<leftarrow> search_keys ks m tp;
     Some (b # bs, m)
   }"

text \<open>\<open>for(i=0;i<n;i++)\<close>: print and delete the least node, until the tree is empty.\<close>

primrec drain_min :: "nat \<Rightarrow> bmem \<Rightarrow> ptr \<Rightarrow> (int list \<times> bmem) option" where
  "drain_min 0 m tp = Some ([], m)"
| "drain_min (Suc i) m tp = do {
     t \<leftarrow> load (btrees m) tp;
     p \<leftarrow> bstree_min (bnodes m) (broot t) (sentinel t);
     if p = sentinel t then Some ([], m)
     else do {
       n \<leftarrow> load (bnodes m) p;
       m \<leftarrow> bstree_delete m tp p;
       (ks, m) \<leftarrow> drain_min i m tp;
       Some (key n # ks, m)
     }
   }"

text \<open>
  \<open>main\<close> with the \<open>n\<close> random keys \<open>ks\<close> and the input \<open>ins\<close>: what is printed after the insertions,
  which inputs are found, and the minima printed at the end. A refused sentinel ends the
  program with 1, here \<open>None\<close> of the inner option.
\<close>

definition bst_main ::
  "bmem \<Rightarrow> int list \<Rightarrow> int list \<Rightarrow> ((int list \<times> bool list \<times> int list \<times> bmem) option) option" where
  "bst_main m ks ins = (let (s, h) = cmalloc (bnodes m); m = m\<lparr>bnodes := h\<rparr> in
     if s = None then Some None
     else do {
       (tp, m) \<leftarrow> bstree_create m s bstree_insert_value;
       m \<leftarrow> insert_keys ks m tp;
       printed \<leftarrow> inorder_print m tp;
       (found, m) \<leftarrow> search_keys ins m tp;
       (minima, m) \<leftarrow> drain_min (length ks) m tp;
       Some (Some (printed, found, minima, m))
     })"

end
