(* ===== verification/Bst_Correct.thy ===== *)
theory Bst_Correct
  imports Bst
begin

text \<open>
  The operations of \<open>BST.c\<close> on the trees they represent. \<open>btree_at N s par p t\<close>: the nodes below
  \<open>p\<close> form the tree \<open>t\<close> of addresses and keys, their parent pointers are right, the root's
  parent is \<open>par\<close>, and every missing child is the sentinel \<open>s\<close>.
\<close>

fun btree_at :: "(nat \<rightharpoonup> bstree_node) \<Rightarrow> nat \<Rightarrow> ptr \<Rightarrow> ptr \<Rightarrow> (nat \<times> int) tree \<Rightarrow> bool" where
  "btree_at N s par p Leaf \<longleftrightarrow> p = Some s"
| "btree_at N s par p (Node l e r) \<longleftrightarrow> p = Some (fst e) \<and> fst e \<noteq> s \<and>
     (\<exists>n. N (fst e) = Some n \<and> key n = snd e \<and> parent n = par \<and>
       btree_at N s p (bleft n) l \<and> btree_at N s p (bright n) r)"

definition locs :: "(nat \<times> int) tree \<Rightarrow> nat set" where
  "locs t = fst ` set_tree t"

definition keys :: "(nat \<times> int) tree \<Rightarrow> int list" where
  "keys t = map snd (inorder t)"

definition apart :: "(nat \<times> int) tree \<Rightarrow> bool" where
  "apart t \<longleftrightarrow> distinct (map fst (inorder t))"

lemma locs_simps [simp]: "locs Leaf = {}" "locs (Node l e r) = insert (fst e) (locs l \<union> locs r)"
  by (auto simp: locs_def)

lemma keys_simps [simp]: "keys Leaf = []" "keys (Node l e r) = keys l @ snd e # keys r"
  by (simp_all add: keys_def)

lemma set_inorder_locs: "fst ` set (inorder t) = locs t" by (simp add: locs_def)

lemma apart_simps [simp]: "apart Leaf"
  "apart (Node l e r) \<longleftrightarrow> apart l \<and> apart r \<and> fst e \<notin> locs l \<and> fst e \<notin> locs r \<and> locs l \<inter> locs r = {}"
  by (auto simp: apart_def set_inorder_locs [symmetric])

lemma btree_at_cong: "(\<And>a. a \<in> locs t \<Longrightarrow> N' a = N a) \<Longrightarrow> btree_at N' s par p t = btree_at N s par p t"
  by (induction t arbitrary: p par) auto

lemma btree_at_upd [simp]: "a \<notin> locs t \<Longrightarrow> btree_at (N(a := x)) s par p t = btree_at N s par p t"
  by (rule btree_at_cong) auto

lemma btree_at_sentinel: "btree_at N s par p t \<Longrightarrow> s \<notin> locs t \<and> (p = Some s \<longleftrightarrow> t = Leaf)"
  by (induction t arbitrary: p par) auto

lemma btree_at_root: "btree_at N s par (Some a) t \<Longrightarrow> a \<noteq> s \<Longrightarrow>
    \<exists>l r n. t = Node l (a, key n) r \<and> N a = Some n \<and> parent n = par \<and>
      btree_at N s (Some a) (bleft n) l \<and> btree_at N s (Some a) (bright n) r"
  by (cases t) auto

lemma btree_at_cell: "btree_at N s par p t \<Longrightarrow> a \<in> locs t \<Longrightarrow> \<exists>n. N a = Some n"
  by (induction t arbitrary: p par) auto

lemma btree_at_locs: "btree_at N s par p t \<Longrightarrow> locs t \<subseteq> dom N"
  using btree_at_cell by blast

section \<open>Looking up, printing and the minimum\<close>

lemma inordertravel_spec: "btree_at (cells h) s par p t \<Longrightarrow> inordertravel h p (Some s) = Some (keys t)"
proof (induction t arbitrary: p par)
  case (Node l e r)
  then obtain n where n: "p = Some (fst e)" "fst e \<noteq> s" "cells h (fst e) = Some n" "key n = snd e"
    "inordertravel h (bleft n) (Some s) = Some (keys l)" "inordertravel h (bright n) (Some s) = Some (keys r)"
    by auto
  then show ?case by (subst inordertravel.simps) simp
qed (simp add: inordertravel.simps)

lemma lookup_loop_spec:
  "btree_at (cells h) s par p t \<Longrightarrow> sorted (keys t) \<Longrightarrow>
   \<exists>q. lookup_loop h (Some s) k p = Some q \<and>
     (if k \<in> set (keys t) then \<exists>a. q = Some a \<and> (a, k) \<in> set (inorder t) \<and> a \<noteq> s else q = Some s)"
proof (induction t arbitrary: p par)
  case (Node l e r)
  obtain n where n: "p = Some (fst e)" "fst e \<noteq> s" "cells h (fst e) = Some n" "key n = snd e"
    "btree_at (cells h) s p (bleft n) l" "btree_at (cells h) s p (bright n) r" using Node.prems(1) by auto
  have srt: "sorted (keys l)" "sorted (keys r)" "\<forall>x\<in>set (keys l). x \<le> snd e" "\<forall>x\<in>set (keys r). snd e \<le> x"
    using Node.prems(2) by (auto simp: sorted_append)
  have step: "lookup_loop h (Some s) k p = (if snd e = k then Some p
      else lookup_loop h (Some s) k (if snd e < k then bright n else bleft n))"
    by (subst lookup_loop.simps) (use n in simp)
  consider "snd e = k" | "snd e < k" | "k < snd e" by linarith
  then show ?case
  proof cases
    case 1
    then show ?thesis using step n(1,2) by auto
  next
    case 2
    then have "k \<notin> set (keys l)" "k \<noteq> snd e" using srt(3) by auto
    then show ?thesis using step 2 Node.IH(2) [OF n(6) srt(2)]
      by (cases "k \<in> set (keys r)") auto
  next
    case 3
    then have "k \<notin> set (keys r)" "k \<noteq> snd e" using srt(4) by auto
    then show ?thesis using step 3 Node.IH(1) [OF n(5) srt(1)]
      by (cases "k \<in> set (keys l)") auto
  qed
qed (simp add: lookup_loop.simps)

fun least :: "'a tree \<Rightarrow> 'a option" where
  "least Leaf = None"
| "least (Node l x r) = (if l = Leaf then Some x else least l)"

lemma min_loop_spec:
  "btree_at (cells h) s par p t \<Longrightarrow> t \<noteq> Leaf \<Longrightarrow>
   \<exists>b n. min_loop h p (Some s) = Some (Some b) \<and> least t = Some (b, key n) \<and>
     cells h b = Some n \<and> bleft n = Some s \<and> b \<in> locs t"
proof (induction t arbitrary: p par)
  case (Node l e r)
  obtain n where n: "p = Some (fst e)" "fst e \<noteq> s" "cells h (fst e) = Some n" "key n = snd e"
    "btree_at (cells h) s p (bleft n) l" using Node.prems(1) by auto
  show ?case
  proof (cases "l = Leaf")
    case True
    then have "min_loop h p (Some s) = Some p" using n by (subst min_loop.simps) simp
    then show ?thesis using True n by (cases e) auto
  next
    case False
    then have "bleft n \<noteq> Some s" using btree_at_sentinel [OF n(5)] by simp
    then have "min_loop h p (Some s) = min_loop h (bleft n) (Some s)" using n by (subst min_loop.simps) simp
    then show ?thesis using Node.IH(1) [OF n(5) False] False by auto
  qed
qed simp

lemma least_inorder: "least t = Some x \<Longrightarrow> \<exists>xs. inorder t = x # xs"
  by (induction t arbitrary: x) (auto split: if_splits)

section \<open>Insertion\<close>

fun ins_tree :: "nat \<times> int \<Rightarrow> (nat \<times> int) tree \<Rightarrow> (nat \<times> int) tree" where
  "ins_tree x Leaf = Node Leaf x Leaf"
| "ins_tree x (Node l e r) = (if snd x < snd e then Node (ins_tree x l) e r else Node l e (ins_tree x r))"

lemma locs_ins [simp]: "locs (ins_tree x t) = insert (fst x) (locs t)"
  by (induction t) auto

lemma apart_ins: "apart t \<Longrightarrow> fst x \<notin> locs t \<Longrightarrow> apart (ins_tree x t)"
  by (induction t) auto

lemma ins_not_leaf [simp]: "ins_tree x t \<noteq> Leaf"
  by (cases t) auto

lemma keys_ins: "sorted (keys t) \<Longrightarrow> mset (keys (ins_tree x t)) = add_mset (snd x) (mset (keys t)) \<and>
    sorted (keys (ins_tree x t))"
proof (induction t)
  case (Node l e r)
  have srt: "sorted (keys l)" "sorted (keys r)" "\<forall>y\<in>set (keys l). y \<le> snd e" "\<forall>y\<in>set (keys r). snd e \<le> y"
    "\<forall>y\<in>set (keys l). \<forall>z\<in>set (keys r). y \<le> z"
    using Node.prems by (auto simp: sorted_append)
  have L: "mset (keys (ins_tree x l)) = add_mset (snd x) (mset (keys l))" "sorted (keys (ins_tree x l))"
    and R: "mset (keys (ins_tree x r)) = add_mset (snd x) (mset (keys r))" "sorted (keys (ins_tree x r))"
    using Node.IH srt by auto
  have "set (keys (ins_tree x l)) = insert (snd x) (set (keys l))"
    "set (keys (ins_tree x r)) = insert (snd x) (set (keys r))"
    using L(1) R(1) by (metis set_mset_add_mset_insert set_mset_mset)+
  then show ?case using L R srt by (auto simp: sorted_append)
qed simp

definition leaf_node :: "nat \<Rightarrow> ptr \<Rightarrow> int \<Rightarrow> bstree_node" where
  "leaf_node s q k = \<lparr>bleft = Some s, bright = Some s, parent = q, key = k\<rparr>"

definition set_child :: "bool \<Rightarrow> ptr \<Rightarrow> bstree_node \<Rightarrow> bstree_node" where
  "set_child to_left c n = (if to_left then n\<lparr>bleft := c\<rparr> else n\<lparr>bright := c\<rparr>)"

lemma set_child_simps [simp]: "key (set_child b c n) = key n" "parent (set_child b c n) = parent n"
  "bleft (set_child True c n) = c" "bright (set_child True c n) = bright n"
  "bleft (set_child False c n) = bleft n" "bright (set_child False c n) = c"
  by (simp_all add: set_child_def)

lemma insert_loop_spec:
  assumes "cells h a = Some na" "a \<noteq> s"
  shows "btree_at (cells h) s par p t \<Longrightarrow> t \<noteq> Leaf \<Longrightarrow> apart t \<Longrightarrow> a \<notin> locs t \<Longrightarrow>
    \<exists>q b n. insert_loop h p (Some a) (Some s) = Some (Some q, b) \<and> q \<in> locs t \<and> cells h q = Some n \<and>
      btree_at ((cells h)(q \<mapsto> set_child b (Some a) n, a \<mapsto> leaf_node s (Some q) (key na))) s par p
        (ins_tree (a, key na) t)"
proof (induction t arbitrary: p par)
  case (Node l e r)
  obtain n where n: "p = Some (fst e)" "fst e \<noteq> s" "cells h (fst e) = Some n" "key n = snd e" "parent n = par"
    "btree_at (cells h) s p (bleft n) l" "btree_at (cells h) s p (bright n) r" using Node.prems(1) by auto
  define b where "b \<longleftrightarrow> key na < snd e"
  define c where "c = (if b then bleft n else bright n)"
  define u where "u = (if b then l else r)"
  have u: "btree_at (cells h) s p c u" "apart u" "a \<notin> locs u" "fst e \<notin> locs u" "locs u \<subseteq> locs (Node l e r)"
    using n(6,7) Node.prems(3,4) by (auto simp: c_def u_def)
  have step: "insert_loop h p (Some a) (Some s) = (if c = Some s then Some (p, b)
      else insert_loop h c (Some a) (Some s))"
    by (subst insert_loop.simps) (use n assms in \<open>simp add: b_def c_def Let_def\<close>)
  show ?case
  proof (cases "u = Leaf")
    case True
    then have "c = Some s" using u(1) by simp
    then have "insert_loop h p (Some a) (Some s) = Some (Some (fst e), b)" using step n(1) by simp
    moreover have "fst e \<in> locs (Node l e r)" by simp
    moreover have "btree_at ((cells h)(fst e \<mapsto> set_child b (Some a) n, a \<mapsto> leaf_node s (Some (fst e)) (key na))) s par p
        (ins_tree (a, key na) (Node l e r))"
      using True n Node.prems(3,4) assms(2) by (cases b) (auto simp: u_def b_def leaf_node_def)
    ultimately show ?thesis using n(3) by blast
  next
    case False
    then have cs: "c \<noteq> Some s" using btree_at_sentinel [OF u(1)] by simp
    have "\<exists>q b' k. insert_loop h c (Some a) (Some s) = Some (Some q, b') \<and> q \<in> locs u \<and> cells h q = Some k \<and>
      btree_at ((cells h)(q \<mapsto> set_child b' (Some a) k, a \<mapsto> leaf_node s (Some q) (key na))) s p c
        (ins_tree (a, key na) u)"
      using Node.IH [of p c] u(1-3) False unfolding u_def by (cases b) (simp_all only: if_True if_False simp_thms)
    then obtain q b' k where q: "insert_loop h c (Some a) (Some s) = Some (Some q, b')" "q \<in> locs u"
      "cells h q = Some k" "btree_at ((cells h)(q \<mapsto> set_child b' (Some a) k,
        a \<mapsto> leaf_node s (Some q) (key na))) s p c (ins_tree (a, key na) u)" by blast
    have ne: "q \<noteq> fst e" "a \<noteq> fst e" "q \<noteq> a" using q(2) u(3,4) Node.prems(4) by auto
    have "btree_at ((cells h)(q \<mapsto> set_child b' (Some a) k, a \<mapsto> leaf_node s (Some q) (key na))) s par p
        (ins_tree (a, key na) (Node l e r))"
    proof (cases b)
      case True
      have "q \<notin> locs r" using q(2) True Node.prems(3) by (auto simp: u_def)
      then show ?thesis using True q(4) n ne Node.prems(4) by (auto simp: u_def c_def b_def)
    next
      case False
      have "q \<notin> locs l" using q(2) False Node.prems(3) by (auto simp: u_def)
      then show ?thesis using False q(4) n ne Node.prems(4) by (auto simp: u_def c_def b_def)
    qed
    moreover have "q \<in> locs (Node l e r)" using q(2) u(5) by blast
    moreover have "insert_loop h p (Some a) (Some s) = Some (Some q, b')" using step cs q(1) by simp
    ultimately show ?thesis using q(3) by blast
  qed
qed simp

section \<open>Unlinking a node\<close>

text \<open>\<open>splice b t\<close>: the tree without the node \<open>b\<close>, which has at most one child.\<close>

fun splice_tree :: "nat \<Rightarrow> (nat \<times> int) tree \<Rightarrow> (nat \<times> int) tree" where
  "splice_tree b Leaf = Leaf"
| "splice_tree b (Node l e r) = (if fst e = b then (if l = Leaf then r else l)
     else Node (splice_tree b l) e (splice_tree b r))"

lemma splice_absent: "b \<notin> locs t \<Longrightarrow> splice_tree b t = t"
  by (induction t) auto

lemma locs_splice_subset: "locs (splice_tree b t) \<subseteq> locs t"
  by (induction t) auto

text \<open>Redirecting the parent pointer of a subtree, or of the sentinel.\<close>

definition reparent :: "(nat \<rightharpoonup> bstree_node) \<Rightarrow> nat \<Rightarrow> ptr \<Rightarrow> (nat \<rightharpoonup> bstree_node)" where
  "reparent N c q = (case N c of None \<Rightarrow> N | Some n \<Rightarrow> N(c \<mapsto> n\<lparr>parent := q\<rparr>))"

lemma reparent_other: "x \<noteq> c \<Longrightarrow> reparent N c q x = N x"
  by (simp add: reparent_def split: option.splits)

lemma btree_reparent:
  "btree_at N s par (Some c) t \<Longrightarrow> apart t \<Longrightarrow> btree_at (reparent N c q) s q (Some c) t"
proof (cases t)
  case (Node l e r)
  assume B: "btree_at N s par (Some c) t" "apart t"
  with Node obtain n where n: "c = fst e" "c \<noteq> s" "N c = Some n" "key n = snd e"
    "btree_at N s (Some c) (bleft n) l" "btree_at N s (Some c) (bright n) r" by auto
  then show ?thesis using Node B(2) by (auto simp: reparent_def)
qed simp

lemma btree_reparent_other: "c \<notin> locs t \<Longrightarrow> btree_at (reparent N c q) s par p t = btree_at N s par p t"
  by (rule btree_at_cong) (rule reparent_other, auto)

definition only_child :: "nat \<Rightarrow> bstree_node \<Rightarrow> ptr \<Rightarrow> bool" where
  "only_child s n c \<longleftrightarrow> bleft n = Some s \<and> c = bright n \<or> bright n = Some s \<and> c = bleft n"

lemma splice_root:
  assumes B: "btree_at N s par (Some b) t" "apart t" "N b = Some n" "b \<noteq> s" "only_child s n (Some c)"
  shows "btree_at ((reparent N c par)(b := None)) s par (Some c) (splice_tree b t)"
proof -
  obtain l r where t: "t = Node l (b, key n) r" "btree_at N s (Some b) (bleft n) l"
    "btree_at N s (Some b) (bright n) r" using btree_at_root [OF B(1,4)] B(3) by auto
  define u where "u = (if l = Leaf then r else l)"
  have "btree_at N s (Some b) (Some c) u"
    using B(5) t(2,3) btree_at_sentinel [OF t(2)] btree_at_sentinel [OF t(3)]
    unfolding only_child_def u_def by auto
  moreover have "apart u" "b \<notin> locs u" using B(2) t(1) by (auto simp: u_def)
  ultimately have "btree_at ((reparent N c par)(b := None)) s par (Some c) u"
    using btree_reparent by simp
  then show ?thesis using t(1) by (simp add: u_def)
qed

lemma splice_below:
  assumes "N b = Some nb" "b \<noteq> s" "only_child s nb (Some c)"
  shows "btree_at N s par p t \<Longrightarrow> apart t \<Longrightarrow> b \<in> locs t \<Longrightarrow> p \<noteq> Some b \<Longrightarrow>
    \<exists>q nq. parent nb = Some q \<and> q \<in> locs t \<and> q \<noteq> b \<and> q \<noteq> c \<and> N q = Some nq \<and> (c = s \<or> c \<in> locs t) \<and>
      btree_at ((reparent N c (Some q))(q \<mapsto> set_child (bleft nq = Some b) (Some c) nq, b := None)) s par p
        (splice_tree b t)"
proof (induction t arbitrary: p par)
  case (Node l e r)
  obtain n where n: "p = Some (fst e)" "fst e \<noteq> s" "N (fst e) = Some n" "key n = snd e" "parent n = par"
    "btree_at N s p (bleft n) l" "btree_at N s p (bright n) r" using Node.prems(1) by auto
  have be: "fst e \<noteq> b" using Node.prems(4) n(1) by simp
  define L where "L \<longleftrightarrow> b \<in> locs l"
  define u where "u = (if L then l else r)"
  define v where "v = (if L then r else l)"
  define d where "d = (if L then bleft n else bright n)"
  have u: "btree_at N s p d u" "apart u" "b \<in> locs u" "b \<notin> locs v" "locs u \<inter> locs v = {}"
    "fst e \<notin> locs u" "fst e \<notin> locs v" "s \<notin> locs v"
    using n(6,7) Node.prems(2,3) be btree_at_sentinel [OF n(6)] btree_at_sentinel [OF n(7)]
    by (auto simp: u_def v_def d_def L_def)
  have spl: "splice_tree b (Node l e r) = (if L then Node (splice_tree b l) e r else Node l e (splice_tree b r))"
    using be u(4) by (auto simp: splice_absent v_def L_def split: if_splits)
  have cu: "c = s \<or> c \<in> locs u" "c \<noteq> b" if "btree_at N s par' (Some b) w" "locs w \<subseteq> locs u" "apart w" for par' w
  proof -
    note B = that
    obtain wl wr where w: "w = Node wl (b, key nb) wr" "btree_at N s (Some b) (bleft nb) wl"
      "btree_at N s (Some b) (bright nb) wr" using btree_at_root [OF B(1) assms(2)] assms(1) by auto
    have "btree_at N s (Some b) (Some c) wl \<or> btree_at N s (Some b) (Some c) wr"
      using assms(3) w(2,3) by (auto simp: only_child_def)
    then have "c = s \<or> c \<in> locs wl \<union> locs wr" by (cases wl; cases wr) auto
    then show "c = s \<or> c \<in> locs u" "c \<noteq> b" using w(1) B(2,3) assms(2) by auto
  qed
  show ?case
  proof (cases "d = Some b")
    case True
    have c: "c = s \<or> c \<in> locs u" "c \<noteq> b" using cu [of p u] u(1,2) True by auto
    have ce: "c \<noteq> fst e" using c u(6) n(2) by auto
    have cv: "c \<notin> locs v" using c u(5,8) by auto
    have par: "parent nb = p" using u(1,3) True assms(1,2) by (cases u) auto
    have L: "L \<longleftrightarrow> bleft n = Some b"
    proof -
      have "bleft n \<noteq> Some b" if "\<not> L" using that n(6) assms(2) by (cases l) (auto simp: L_def)
      with True show ?thesis by (auto simp: d_def)
    qed
    define N1 where "N1 = (reparent N c p)(fst e \<mapsto> set_child L (Some c) n, b := None)"
    have nu: "fst e \<notin> locs (splice_tree b u)" using u(6) locs_splice_subset by blast
    have "btree_at ((reparent N c p)(b := None)) s p (Some c) (splice_tree b u)"
      using splice_root [of N s p b u nb c] u(1,2) assms True by simp
    moreover have "N1 = ((reparent N c p)(b := None))(fst e \<mapsto> set_child L (Some c) n)"
      using be by (simp add: N1_def fun_upd_twist)
    ultimately have 1: "btree_at N1 s p (Some c) (splice_tree b u)" using nu by simp
    have 2: "btree_at N1 s p d' v" if "btree_at N s p d' v" for d'
      using that u(4,7) cv by (simp add: N1_def btree_reparent_other)
    have 3: "N1 (fst e) = Some (set_child L (Some c) n)" using be by (simp add: N1_def)
    have "btree_at N1 s par p (splice_tree b (Node l e r))"
      unfolding spl using 1 2 3 n by (cases L) (auto simp: u_def v_def)
    moreover have "fst e \<in> locs (Node l e r)" "c = s \<or> c \<in> locs (Node l e r)"
      using c(1) by (auto simp: u_def split: if_splits)
    moreover have "parent nb = Some (fst e)" using par n(1) by simp
    ultimately show ?thesis using n(1,3) be ce unfolding N1_def L by metis
  next
    case False
    have "\<exists>q nq. parent nb = Some q \<and> q \<in> locs u \<and> q \<noteq> b \<and> q \<noteq> c \<and> N q = Some nq \<and> (c = s \<or> c \<in> locs u) \<and>
      btree_at ((reparent N c (Some q))(q \<mapsto> set_child (bleft nq = Some b) (Some c) nq, b := None)) s p d
        (splice_tree b u)"
      using Node.IH [of p d] u(1-3) False unfolding u_def by (cases L) (simp_all only: if_True if_False simp_thms)
    then obtain q nq where q: "parent nb = Some q" "q \<in> locs u" "q \<noteq> b" "q \<noteq> c" "N q = Some nq"
      "c = s \<or> c \<in> locs u" "btree_at ((reparent N c (Some q))(q \<mapsto> set_child (bleft nq = Some b) (Some c) nq,
        b := None)) s p d (splice_tree b u)" by blast
    define N1 where "N1 = (reparent N c (Some q))(q \<mapsto> set_child (bleft nq = Some b) (Some c) nq, b := None)"
    have ce: "fst e \<noteq> c" "fst e \<noteq> q" "c \<notin> locs v" "q \<notin> locs v" using q(2,6) u(5,6,8) n(2) by auto
    have 3: "N1 (fst e) = Some n" using be ce n(3) by (simp add: N1_def reparent_other)
    have 2: "btree_at N1 s p d' v" if "btree_at N s p d' v" for d'
      using that u(4) ce(3,4) by (simp add: N1_def btree_reparent_other)
    have "btree_at N1 s par p (splice_tree b (Node l e r))"
      unfolding spl using q(7) [folded N1_def] 2 3 n by (cases L) (auto simp: u_def v_def d_def)
    moreover have "q \<in> locs (Node l e r)" "c = s \<or> c \<in> locs (Node l e r)"
      using q(2,6) by (auto simp: u_def split: if_splits)
    ultimately show ?thesis using q(1,3-5) unfolding N1_def by blast
  qed
qed simp

end
