(* ===== verification/Bst_Theorems.thy ===== *)
theory Bst_Theorems
  imports Bst_Correct
begin

text \<open>
  Deletion from the search tree of \<open>BST.c\<close>, the invariant of its memory, and the whole of
  \<open>main\<close>: the tree is a sorted bag of keys, and every node that is unlinked is freed.
\<close>

section \<open>The effect of a deletion on the keys\<close>

fun thin :: "nat \<Rightarrow> (nat \<times> int) tree \<Rightarrow> bool" where
  "thin b Leaf \<longleftrightarrow> True"
| "thin b (Node l e r) \<longleftrightarrow> (if fst e = b then l = Leaf \<or> r = Leaf else thin b l \<and> thin b r)"

lemma btree_thin:
  "btree_at N s par p t \<Longrightarrow> N b = Some nb \<Longrightarrow> bleft nb = Some s \<or> bright nb = Some s \<Longrightarrow> thin b t"
proof (induction t arbitrary: p par)
  case (Node l e r)
  then obtain n where n: "N (fst e) = Some n" "btree_at N s p (bleft n) l" "btree_at N s p (bright n) r" by auto
  show ?case
    using Node n btree_at_sentinel [OF n(2)] btree_at_sentinel [OF n(3)] by (cases "fst e = b") auto
qed simp

lemma filter_absent: "b \<notin> locs t \<Longrightarrow> filter (\<lambda>e. fst e \<noteq> b) (inorder t) = inorder t"
  by (rule filter_True) (auto simp: locs_def)

lemma inorder_splice:
  "apart t \<Longrightarrow> thin b t \<Longrightarrow> inorder (splice_tree b t) = filter (\<lambda>e. fst e \<noteq> b) (inorder t)"
  by (induction t) (auto simp: filter_absent)

lemma locs_splice: "apart t \<Longrightarrow> thin b t \<Longrightarrow> locs (splice_tree b t) = locs t - {b} \<and> apart (splice_tree b t)"
  by (auto simp: inorder_splice apart_def distinct_map_filter simp flip: set_inorder_locs)

definition rekey :: "nat \<Rightarrow> int \<Rightarrow> (nat \<times> int) tree \<Rightarrow> (nat \<times> int) tree" where
  "rekey a k t = map_tree (\<lambda>e. if fst e = a then (a, k) else e) t"

lemma rekey_simps [simp]: "rekey a k Leaf = Leaf"
  "rekey a k (Node l e r) = Node (rekey a k l) (if fst e = a then (a, k) else e) (rekey a k r)"
  "inorder (rekey a k t) = map (\<lambda>e. if fst e = a then (a, k) else e) (inorder t)"
  by (simp_all add: rekey_def inorder_map)

lemma rekey_locs [simp]: "locs (rekey a k t) = locs t"
  by (induction t) auto

lemma rekey_apart [simp]: "apart (rekey a k t) = apart t"
  by (induction t) auto

lemma btree_rekey: "N a = Some n \<Longrightarrow> btree_at N s par p t \<Longrightarrow>
    btree_at (N(a \<mapsto> n\<lparr>key := k\<rparr>)) s par p (rekey a k t)"
  by (induction t arbitrary: p par) auto

lemma btree_context:
  "btree_at N s par p t \<Longrightarrow> N a = Some n \<Longrightarrow> a \<in> locs t \<Longrightarrow> apart t \<Longrightarrow>
   \<exists>xs l r ys. inorder t = xs @ inorder l @ (a, key n) # inorder r @ ys \<and>
     btree_at N s (Some a) (bleft n) l \<and> btree_at N s (Some a) (bright n) r \<and> locs l \<union> locs r \<subseteq> locs t \<and>
     a \<notin> locs r"
proof (induction t arbitrary: p par)
  case (Node l e r)
  obtain k where k: "p = Some (fst e)" "N (fst e) = Some k" "key k = snd e"
    "btree_at N s p (bleft k) l" "btree_at N s p (bright k) r" using Node.prems(1) by auto
  show ?case
  proof (cases "fst e = a")
    case True
    then have "k = n" using k(2) Node.prems(2) by simp
    with True k Node.prems(4) show ?thesis
      by (intro exI [of _ "[]"] exI [of _ l] exI [of _ r]) (cases e; auto)
  next
    case False
    then consider "a \<in> locs l" | "a \<in> locs r" using Node.prems(3) by auto
    then show ?thesis
    proof cases
      case 1
      then obtain xs l' r' ys where "inorder l = xs @ inorder l' @ (a, key n) # inorder r' @ ys"
        "btree_at N s (Some a) (bleft n) l'" "btree_at N s (Some a) (bright n) r'" "locs l' \<union> locs r' \<subseteq> locs l"
        "a \<notin> locs r'" using Node.IH(1) [OF k(4) Node.prems(2)] Node.prems(4) by auto
      then show ?thesis by (intro exI [of _ xs] exI [of _ l'] exI [of _ r'] exI [of _ "ys @ e # inorder r"]) auto
    next
      case 2
      then obtain xs l' r' ys where "inorder r = xs @ inorder l' @ (a, key n) # inorder r' @ ys"
        "btree_at N s (Some a) (bleft n) l'" "btree_at N s (Some a) (bright n) r'" "locs l' \<union> locs r' \<subseteq> locs r"
        "a \<notin> locs r'" using Node.IH(2) [OF k(5) Node.prems(2)] Node.prems(4) by auto
      then show ?thesis by (intro exI [of _ "inorder l @ e # xs"] exI [of _ l'] exI [of _ r'] exI [of _ ys]) auto
    qed
  qed
qed simp

lemma distinct_fst_filter:
  "distinct (map fst (xs @ e # ys)) \<Longrightarrow> filter (\<lambda>x. fst x \<noteq> fst e) (xs @ e # ys) = xs @ ys"
proof -
  assume "distinct (map fst (xs @ e # ys))"
  then have "\<forall>x\<in>set xs \<union> set ys. fst x \<noteq> fst e" by (auto simp: image_iff)
  then have "filter (\<lambda>x. fst x \<noteq> fst e) xs = xs" "filter (\<lambda>x. fst x \<noteq> fst e) ys = ys"
    by (auto intro: filter_True)
  then show ?thesis by simp
qed

section \<open>The memory of a tree\<close>

definition bst_holds :: "bmem \<Rightarrow> nat \<Rightarrow> nat \<Rightarrow> (nat \<times> int) tree \<Rightarrow> bool" where
  "bst_holds m tp s t \<longleftrightarrow> (\<exists>T. cells (btrees m) tp = Some T \<and> sentinel T = Some s \<and>
     insert_fn T = bstree_insert_value \<and> btree_at (cells (bnodes m)) s (Some s) (broot T) t) \<and>
     dom (cells (bnodes m)) = insert s (locs t) \<and> apart t \<and> sorted (keys t) \<and> heap_ok (bnodes m)"

lemma bst_holdsE:
  assumes "bst_holds m tp s t"
  obtains T ns where "cells (btrees m) tp = Some T" "sentinel T = Some s" "insert_fn T = bstree_insert_value"
    "btree_at (cells (bnodes m)) s (Some s) (broot T) t" "dom (cells (bnodes m)) = insert s (locs t)"
    "apart t" "sorted (keys t)" "heap_ok (bnodes m)" "cells (bnodes m) s = Some ns" "s \<notin> locs t"
proof -
  obtain T where T: "cells (btrees m) tp = Some T" "sentinel T = Some s" "insert_fn T = bstree_insert_value"
    "btree_at (cells (bnodes m)) s (Some s) (broot T) t" "dom (cells (bnodes m)) = insert s (locs t)"
    "apart t" "sorted (keys t)" "heap_ok (bnodes m)" using assms by (auto simp: bst_holds_def)
  moreover obtain ns where "cells (bnodes m) s = Some ns" using T(5) by blast
  ultimately show ?thesis using that btree_at_sentinel [OF T(4)] by blast
qed

lemma set_bnode_cell [c_step]: "cells (bnodes m) a = Some n \<Longrightarrow> set_bnode m (Some a) f =
    Some (m\<lparr>bnodes := (bnodes m)\<lparr>cells := (cells (bnodes m))(a \<mapsto> f n)\<rparr>\<rparr>)"
  by (simp add: set_bnode_def store_cell)

lemma set_btree_cell [c_step]: "cells (btrees m) a = Some n \<Longrightarrow> set_btree m (Some a) f =
    Some (m\<lparr>btrees := (btrees m)\<lparr>cells := (cells (btrees m))(a \<mapsto> f n)\<rparr>\<rparr>)"
  by (simp add: set_btree_def store_cell)

text \<open>Deleting a node: what is picked, and the tree that is left.\<close>

lemma delete_pick_spec:
  assumes B: "btree_at (cells h) s par p t" "apart t" "a \<in> locs t" "cells h a = Some n"
  shows "\<exists>b nb c. delete_pick h (Some s) (Some a) = Some (Some b, Some c) \<and> b \<in> locs t \<and>
    cells h b = Some nb \<and> only_child s nb (Some c) \<and> thin b t \<and>
    (\<exists>xs ys. (b = a \<longrightarrow> inorder t = xs @ (a, key n) # ys) \<and>
      (b \<noteq> a \<longrightarrow> inorder t = xs @ (a, key n) # (b, key nb) # ys))"
proof -
  obtain xs l r ys where t: "inorder t = xs @ inorder l @ (a, key n) # inorder r @ ys"
    "btree_at (cells h) s (Some a) (bleft n) l" "btree_at (cells h) s (Some a) (bright n) r"
    "locs l \<union> locs r \<subseteq> locs t" "a \<notin> locs r" using btree_context [OF B(1,4,3,2)] by blast
  have split: "inorder t = (xs @ inorder l) @ (a, key n) # (inorder r @ ys)" using t(1) by simp
  obtain cl where cl: "bleft n = Some cl" using t(2) by (cases l) auto
  obtain cr where cr: "bright n = Some cr" using t(3) by (cases r) auto
  show ?thesis
  proof (cases "bleft n = Some s \<or> bright n = Some s")
    case True
    then have thin: "thin a t" using btree_thin [OF B(1,4)] by blast
    obtain c where c: "delete_pick h (Some s) (Some a) = Some (Some a, Some c)" "only_child s n (Some c)"
      using True B(4) cl cr by (cases "cl = s") (auto simp: delete_pick_def only_child_def)
    with split thin B(3,4) show ?thesis by blast
  next
    case False
    then have "r \<noteq> Leaf" using btree_at_sentinel [OF t(3)] by simp
    from min_loop_spec [OF t(3) this] obtain b nb where b: "min_loop h (bright n) (Some s) = Some (Some b)"
      "least r = Some (b, key nb)" "cells h b = Some nb" "bleft nb = Some s" "b \<in> locs r" by blast
    obtain zs where zs: "inorder r = (b, key nb) # zs" using least_inorder [OF b(2)] by blast
    have "thin b t" using btree_thin [OF B(1) b(3)] b(4) by blast
    moreover have "b \<noteq> a" using b(5) t(5) by blast
    moreover obtain c where c: "bright nb = Some c"
    proof -
      have "b \<in> locs t" using b(5) t(4) by blast
      from btree_context [OF B(1) b(3) this B(2)] obtain r' where "btree_at (cells h) s (Some b) (bright nb) r'"
        by blast
      then show thesis using that by (cases r') auto
    qed
    moreover have "delete_pick h (Some s) (Some a) = Some (Some b, Some c)"
      using False B(4) b c cl cr by (auto simp: delete_pick_def bstree_min_def)
    moreover have "only_child s nb (Some c)" using b(4) c by (simp add: only_child_def)
    moreover have "inorder t = (xs @ inorder l) @ (a, key n) # (b, key nb) # (zs @ ys)" using split zs by simp
    ultimately show ?thesis using b(3,5) t(4) by blast
  qed
qed

lemma only_child_in:
  assumes "btree_at N s par p t" "N b = Some nb" "b \<in> locs t" "apart t" "only_child s nb (Some c)"
  shows "c = s \<or> c \<in> locs t" "c \<noteq> b"
proof -
  obtain xs l r ys where t: "inorder t = xs @ inorder l @ (b, key nb) # inorder r @ ys"
    "btree_at N s (Some b) (bleft nb) l" "btree_at N s (Some b) (bright nb) r" "locs l \<union> locs r \<subseteq> locs t"
    using btree_context [OF assms(1-4)] by blast
  have "c = s \<or> c \<in> locs l \<union> locs r"
    using assms(5) t(2,3) unfolding only_child_def by (cases l; cases r) auto
  moreover have "b \<notin> locs l \<union> locs r"
    using assms(4) unfolding apart_def t(1) by (auto simp flip: set_inorder_locs)
  moreover have "b \<noteq> s" using btree_at_sentinel [OF assms(1)] assms(3) by blast
  ultimately show "c = s \<or> c \<in> locs t" "c \<noteq> b" using t(4) by blast+
qed

text \<open>Unlinking \<open>b\<close> in favour of \<open>c\<close>, as \<open>bstree_delete\<close> does, and freeing it.\<close>

lemma unlink_spec:
  assumes M: "bst_holds m tp s t" and b: "b \<in> locs t" "cells (bnodes m) b = Some nb"
    "only_child s nb (Some c)" and T: "cells (btrees m) tp = Some T"
  shows "\<exists>m1 m2. set_bnode m (Some c) (\<lambda>x. x\<lparr>parent := parent nb\<rparr>) = Some m1 \<and>
    cells (bnodes m1) b = Some nb \<and>
    (if parent nb = Some s then set_btree m1 (Some tp) (\<lambda>t. t\<lparr>broot := Some c\<rparr>)
     else do {
       pn \<leftarrow> load (bnodes m1) (parent nb);
       if bleft pn = Some b then set_bnode m1 (parent nb) (\<lambda>x. x\<lparr>bleft := Some c\<rparr>)
       else set_bnode m1 (parent nb) (\<lambda>x. x\<lparr>bright := Some c\<rparr>)
     }) = Some m2 \<and> cells (bnodes m2) b = Some nb \<and>
    (\<exists>T2. cells (btrees m2) tp = Some T2 \<and> sentinel T2 = Some s \<and> insert_fn T2 = bstree_insert_value \<and>
      btree_at ((cells (bnodes m2))(b := None)) s (Some s) (broot T2) (splice_tree b t)) \<and>
    dom (cells (bnodes m2)) = dom (cells (bnodes m)) \<and> brk (bnodes m2) = brk (bnodes m) \<and>
    env (bnodes m2) = env (bnodes m)"
proof -
  let ?N = "cells (bnodes m)"
  obtain T' ns where t: "sentinel T = Some s" "insert_fn T = bstree_insert_value"
    "btree_at ?N s (Some s) (broot T) t" "dom ?N = insert s (locs t)" "apart t" "?N s = Some ns" "s \<notin> locs t"
    using M T by (auto elim!: bst_holdsE)
  have bs: "b \<noteq> s" using b(1) t(7) by blast
  note c = only_child_in [OF t(3) b(2,1) t(5) b(3)]
  obtain nc where nc: "?N c = Some nc" using c(1) t(4) by blast
  define m1 where "m1 = m\<lparr>bnodes := (bnodes m)\<lparr>cells := reparent ?N c (parent nb)\<rparr>\<rparr>"
  have r: "reparent ?N c (parent nb) = ?N(c \<mapsto> nc\<lparr>parent := parent nb\<rparr>)" using nc by (simp add: reparent_def)
  have s1: "set_bnode m (Some c) (\<lambda>x. x\<lparr>parent := parent nb\<rparr>) = Some m1"
    using nc by (simp add: c_step m1_def r)
  have b1: "cells (bnodes m1) b = Some nb" using b(2) c(2) by (simp add: m1_def reparent_other)
  have d1: "dom (cells (bnodes m1)) = dom ?N" using nc by (auto simp: m1_def r)
  show ?thesis
  proof (cases "broot T = Some b")
    case True
    then have p: "parent nb = Some s" using t(3) b(2) btree_at_root [of ?N s "Some s" b t] bs by auto
    define m2 where "m2 = m1\<lparr>btrees := (btrees m1)\<lparr>cells := (cells (btrees m1))(tp \<mapsto> T\<lparr>broot := Some c\<rparr>)\<rparr>\<rparr>"
    have "set_btree m1 (Some tp) (\<lambda>t. t\<lparr>broot := Some c\<rparr>) = Some m2"
      using T by (simp add: c_step m2_def m1_def)
    moreover have "btree_at ((cells (bnodes m2))(b := None)) s (Some s) (Some c) (splice_tree b t)"
      using splice_root [of ?N s "Some s" b t nb c] t(3,5) True b(2,3) bs p by (simp add: m2_def m1_def)
    ultimately show ?thesis using s1 b1 p d1 t(1,2) by (auto simp: m2_def m1_def)
  next
    case False
    obtain q nq where q: "parent nb = Some q" "q \<in> locs t" "q \<noteq> b" "q \<noteq> c" "?N q = Some nq"
      "btree_at ((reparent ?N c (Some q))(q \<mapsto> set_child (bleft nq = Some b) (Some c) nq, b := None)) s (Some s)
        (broot T) (splice_tree b t)"
      using splice_below [OF b(2) bs b(3) t(3,5) b(1) False] by blast
    have qs: "q \<noteq> s" using q(2) t(7) by blast
    define m2 where "m2 = m1\<lparr>bnodes := (bnodes m1)\<lparr>cells := (cells (bnodes m1))
        (q \<mapsto> set_child (bleft nq = Some b) (Some c) nq)\<rparr>\<rparr>"
    have q1: "cells (bnodes m1) q = Some nq" using q(4,5) by (simp add: m1_def reparent_other)
    have "(if parent nb = Some s then set_btree m1 (Some tp) (\<lambda>t. t\<lparr>broot := Some c\<rparr>)
      else do {
        pn \<leftarrow> load (bnodes m1) (parent nb);
        if bleft pn = Some b then set_bnode m1 (parent nb) (\<lambda>x. x\<lparr>bleft := Some c\<rparr>)
        else set_bnode m1 (parent nb) (\<lambda>x. x\<lparr>bright := Some c\<rparr>)
      }) = Some m2"
      using q(1) qs q1 by (simp add: c_step m2_def set_child_def)
    moreover have "btree_at ((cells (bnodes m2))(b := None)) s (Some s) (broot T) (splice_tree b t)"
      using q(1,6) by (simp add: m2_def m1_def)
    moreover have "cells (bnodes m2) b = Some nb" using b1 q(3) by (simp add: m2_def)
    moreover have "dom (cells (bnodes m2)) = dom ?N" using d1 q1 by (auto simp: m2_def)
    moreover have "brk (bnodes m2) = brk (bnodes m)" "env (bnodes m2) = env (bnodes m)"
      "cells (btrees m2) tp = Some T" using T by (simp_all add: m2_def m1_def)
    ultimately show ?thesis using s1 b1 t(1,2) by blast
  qed
qed

lemma bstree_delete_spec:
  assumes M: "bst_holds m tp s t" and a: "(a, k) \<in> set (inorder t)"
  shows "\<exists>m' t'. bstree_delete m (Some tp) (Some a) = Some m' \<and> bst_holds m' tp s t' \<and>
    mset (keys t') = mset (keys t) - {#k#} \<and> (\<exists>xs ys. keys t = xs @ k # ys \<and> keys t' = xs @ ys) \<and>
    env (bnodes m') = env (bnodes m)"
proof -
  let ?N = "cells (bnodes m)"
  obtain T ns where t: "cells (btrees m) tp = Some T" "sentinel T = Some s" "insert_fn T = bstree_insert_value"
    "btree_at ?N s (Some s) (broot T) t" "dom ?N = insert s (locs t)" "apart t" "sorted (keys t)"
    "heap_ok (bnodes m)" "?N s = Some ns" "s \<notin> locs t" using M by (rule bst_holdsE)
  have al: "a \<in> locs t" using a by (force simp: locs_def)
  obtain n where n: "?N a = Some n" using btree_at_cell [OF t(4) al] by blast
  obtain b nb c xs ys where d: "delete_pick (bnodes m) (Some s) (Some a) = Some (Some b, Some c)" "b \<in> locs t"
    "?N b = Some nb" "only_child s nb (Some c)" "thin b t"
    "(b = a \<longrightarrow> inorder t = xs @ (a, key n) # ys) \<and> (b \<noteq> a \<longrightarrow> inorder t = xs @ (a, key n) # (b, key nb) # ys)"
    using delete_pick_spec [OF t(4,6) al n] by blast
  have kn: "key n = k"
  proof -
    have "(a, key n) \<in> set (inorder t)" using d(6) by (cases "b = a") (simp_all del: set_inorder)
    with a t(6) show ?thesis unfolding apart_def by (metis distinct_map inj_onD prod.inject fst_conv)
  qed
  obtain m1 m2 T2 where u: "set_bnode m (Some c) (\<lambda>x. x\<lparr>parent := parent nb\<rparr>) = Some m1"
    "cells (bnodes m1) b = Some nb"
    "(if parent nb = Some s then set_btree m1 (Some tp) (\<lambda>t. t\<lparr>broot := Some c\<rparr>)
     else do {
       pn \<leftarrow> load (bnodes m1) (parent nb);
       if bleft pn = Some b then set_bnode m1 (parent nb) (\<lambda>x. x\<lparr>bleft := Some c\<rparr>)
       else set_bnode m1 (parent nb) (\<lambda>x. x\<lparr>bright := Some c\<rparr>)
     }) = Some m2" "cells (bnodes m2) b = Some nb"
    "cells (btrees m2) tp = Some T2" "sentinel T2 = Some s" "insert_fn T2 = bstree_insert_value"
    "btree_at ((cells (bnodes m2))(b := None)) s (Some s) (broot T2) (splice_tree b t)"
    "dom (cells (bnodes m2)) = dom ?N" "brk (bnodes m2) = brk (bnodes m)" "env (bnodes m2) = env (bnodes m)"
    using unlink_spec [OF M d(2-4) t(1)] by blast
  define t' where "t' = (if b = a then splice_tree b t else rekey a (key nb) (splice_tree b t))"
  note ls = locs_splice [OF t(6) d(5)]
  have lt': "locs t' = locs t - {b}" "apart t'" using ls by (auto simp: t'_def)
  have srt: "\<exists>xs ys. keys t = xs @ k # ys \<and> keys t' = xs @ ys"
  proof (cases "b = a")
    case True
    have "inorder t' = xs @ ys"
      using True d(6) inorder_splice [OF t(6) d(5)] distinct_fst_filter [of xs "(a, key n)" ys] t(6)
      by (simp add: t'_def apart_def)
    then have "keys t = map snd xs @ k # map snd ys" "keys t' = map snd xs @ map snd ys"
      using d(6) True kn by (simp_all add: keys_def)
    then show ?thesis by blast
  next
    case False
    then have it: "inorder t = xs @ (a, key n) # (b, key nb) # ys" using d(6) by simp
    have ab: "distinct (map fst (xs @ (a, key n) # (b, key nb) # ys))" using t(6) it by (simp add: apart_def)
    have "inorder (splice_tree b t) = xs @ (a, key n) # ys"
      using inorder_splice [OF t(6) d(5)] it distinct_fst_filter [of "xs @ [(a, key n)]" "(b, key nb)" ys] ab by simp
    moreover have "map (\<lambda>e. if fst e = a then (a, key nb) else e) xs = xs"
      "map (\<lambda>e. if fst e = a then (a, key nb) else e) ys = ys"
      using ab by (auto intro!: map_idI simp: image_iff)
    ultimately have "inorder t' = xs @ (a, key nb) # ys" using False by (simp add: t'_def)
    then have "keys t = map snd xs @ k # key nb # map snd ys" "keys t' = map snd xs @ key nb # map snd ys"
      using it kn by (simp_all add: keys_def)
    then show ?thesis by blast
  qed
  have mem: "\<exists>m3. (if Some b \<noteq> Some a then do {
            sn \<leftarrow> load (bnodes m2) (Some b);
            set_bnode m2 (Some a) (\<lambda>x. x\<lparr>key := key sn\<rparr>)
          } else Some m2) = Some m3 \<and> cells (bnodes m3) b = Some nb \<and>
        btree_at ((cells (bnodes m3))(b := None)) s (Some s) (broot T2) t' \<and>
        cells (btrees m3) tp = Some T2 \<and> dom (cells (bnodes m3)) = dom ?N \<and>
        brk (bnodes m3) = brk (bnodes m) \<and> env (bnodes m3) = env (bnodes m)"
  proof (cases "b = a")
    case True
    then show ?thesis using u by (auto simp: t'_def)
  next
    case False
    obtain na where na: "cells (bnodes m2) a = Some na" using u(9) n by blast
    define m3 where "m3 = m2\<lparr>bnodes := (bnodes m2)\<lparr>cells := (cells (bnodes m2))(a \<mapsto> na\<lparr>key := key nb\<rparr>)\<rparr>\<rparr>"
    have "((cells (bnodes m2))(b := None)) a = Some na" using na False by simp
    from btree_rekey [OF this u(8), of "key nb"]
    have "btree_at ((cells (bnodes m3))(b := None)) s (Some s) (broot T2) t'"
      using False by (simp add: m3_def t'_def fun_upd_twist)
    moreover have "set_bnode m2 (Some a) (\<lambda>x. x\<lparr>key := key nb\<rparr>) = Some m3" using na by (simp add: c_step m3_def)
    moreover have "dom (cells (bnodes m3)) = dom ?N" using u(9) na by (auto simp: m3_def)
    moreover have "cells (bnodes m3) b = Some nb" using u(4) False by (simp add: m3_def)
    moreover have "cells (btrees m3) tp = Some T2" "brk (bnodes m3) = brk (bnodes m)"
      "env (bnodes m3) = env (bnodes m)" using u by (simp_all add: m3_def)
    ultimately show ?thesis using False u(4) by auto
  qed
  then obtain m3 where m3: "(if Some b \<noteq> Some a then do {
            sn \<leftarrow> load (bnodes m2) (Some b);
            set_bnode m2 (Some a) (\<lambda>x. x\<lparr>key := key sn\<rparr>)
          } else Some m2) = Some m3" "cells (bnodes m3) b = Some nb"
        "btree_at ((cells (bnodes m3))(b := None)) s (Some s) (broot T2) t'"
        "cells (btrees m3) tp = Some T2" "dom (cells (bnodes m3)) = dom ?N"
        "brk (bnodes m3) = brk (bnodes m)" "env (bnodes m3) = env (bnodes m)" by blast
  define m4 where "m4 = m3\<lparr>bnodes := (bnodes m3)\<lparr>cells := (cells (bnodes m3))(b := None)\<rparr>\<rparr>"
  have "bstree_delete m (Some tp) (Some a) = Some m4"
    unfolding bstree_delete_def using t(1,2) d(1,3) u(1-3) m3(1,2)
    by (simp add: c_step Let_def m4_def del: if_split)
  moreover have "dom (cells (bnodes m4)) = insert s (locs t')"
    using m3(5) t(5,10) lt'(1) d(2) by (auto simp: m4_def)
  moreover have "heap_ok (bnodes m4)"
    using t(8) m3(5,6) by (simp add: heap_ok_def m4_def) (metis domIff)
  moreover have "sorted (keys t')" using srt t(7) by (auto simp: sorted_append)
  ultimately have "bstree_delete m (Some tp) (Some a) = Some m4 \<and> bst_holds m4 tp s t'"
    using m3(3,4) u(6,7) lt'(2) unfolding bst_holds_def by (auto simp: m4_def)
  moreover have "mset (keys t') = mset (keys t) - {#k#}" using srt by auto
  moreover have "env (bnodes m4) = env (bnodes m)" using m3(7) by (simp add: m4_def)
  ultimately show ?thesis using srt by blast
qed

section \<open>Insertion, lookup and the minimum\<close>

definition always :: "'n heap \<Rightarrow> bool" where
  "always h \<longleftrightarrow> (\<forall>a. env h a \<noteq> None)"

lemma insert_key_spec:
  assumes M: "bst_holds m tp s t" and G: "always (bnodes m)"
  shows "\<exists>m' t'. insert_key m (Some tp) k = Some m' \<and> bst_holds m' tp s t' \<and>
    mset (keys t') = add_mset k (mset (keys t)) \<and> env (bnodes m') = env (bnodes m)"
proof -
  let ?N = "cells (bnodes m)"
  obtain T ns where t: "cells (btrees m) tp = Some T" "sentinel T = Some s" "insert_fn T = bstree_insert_value"
    "btree_at ?N s (Some s) (broot T) t" "dom ?N = insert s (locs t)" "apart t" "sorted (keys t)"
    "heap_ok (bnodes m)" "?N s = Some ns" "s \<notin> locs t" using M by (rule bst_holdsE)
  define a where "a = brk (bnodes m)"
  obtain n0 where n0: "env (bnodes m) a = Some n0" using G by (auto simp: always_def)
  have fresh: "?N a = None" using t(8) by (simp add: a_def)
  then have "a \<notin> insert s (locs t)" using t(5) by (metis domIff)
  then have al: "a \<noteq> s" "a \<notin> locs t" by auto
  define na where "na = n0\<lparr>bleft := None, bright := None, key := k\<rparr>"
  define m1 where "m1 = m\<lparr>bnodes := (bnodes m)\<lparr>cells := ?N(a \<mapsto> na), brk := Suc a\<rparr>\<rparr>"
  have B1: "btree_at (cells (bnodes m1)) s (Some s) (broot T) t" using t(4) al(2) by (simp add: m1_def)
  have na: "cells (bnodes m1) a = Some na" "key na = k" by (simp_all add: m1_def na_def)
  have step: "insert_key m (Some tp) k = bstree_insert m1 (Some tp) (Some a)"
    using n0 by (simp add: insert_key_def cmalloc_def a_def [symmetric] c_step m1_def na_def Let_def)
  define t' where "t' = ins_tree (a, k) t"
  have t': "locs t' = insert a (locs t)" "apart t'" "mset (keys t') = add_mset k (mset (keys t))" "sorted (keys t')"
    using keys_ins [OF t(7), of "(a, k)"] apart_ins [OF t(6), of "(a, k)"] al(2) by (simp_all add: t'_def)
  have "\<exists>m2 T2. bstree_insert m1 (Some tp) (Some a) = Some m2 \<and> cells (btrees m2) tp = Some T2 \<and>
      sentinel T2 = Some s \<and> insert_fn T2 = bstree_insert_value \<and>
      btree_at (cells (bnodes m2)) s (Some s) (broot T2) t' \<and>
      dom (cells (bnodes m2)) = dom (cells (bnodes m1)) \<and> brk (bnodes m2) = brk (bnodes m1) \<and>
      env (bnodes m2) = env (bnodes m1)"
  proof (cases "t = Leaf")
    case True
    then have "broot T = Some s" using t(4) by simp
    then show ?thesis
      using True t(1-3) na al(1)
      by (auto simp: bstree_insert_def c_step m1_def t'_def dom_def)
  next
    case False
    then have rs: "broot T \<noteq> Some s" using btree_at_sentinel [OF t(4)] by simp
    obtain q b n where q: "insert_loop (bnodes m1) (broot T) (Some a) (Some s) = Some (Some q, b)" "q \<in> locs t"
      "cells (bnodes m1) q = Some n"
      "btree_at ((cells (bnodes m1))(q \<mapsto> set_child b (Some a) n, a \<mapsto> leaf_node s (Some q) (key na))) s (Some s)
        (broot T) (ins_tree (a, key na) t)"
      using insert_loop_spec [OF na(1) al(1) B1 False t(6) al(2)] by blast
    have qa: "q \<noteq> a" using q(2) al(2) by blast
    define h2 where "h2 = (bnodes m1)\<lparr>cells := (cells (bnodes m1))(a \<mapsto> na\<lparr>parent := Some q\<rparr>)\<rparr>"
    define h3 where "h3 = h2\<lparr>cells := (cells h2)(q \<mapsto> set_child b (Some a) n)\<rparr>"
    define h4 where "h4 = h3\<lparr>cells := (cells h3)(a \<mapsto> leaf_node s (Some q) k)\<rparr>"
    have s2: "store (bnodes m1) (Some a) (\<lambda>x. x\<lparr>parent := Some q\<rparr>) = Some h2"
      using na(1) by (simp add: c_step h2_def)
    have s3: "store h2 (Some q) (\<lambda>x. if b then x\<lparr>bleft := Some a\<rparr> else x\<lparr>bright := Some a\<rparr>) = Some h3"
      using q(3) qa by (simp add: c_step h2_def h3_def set_child_def)
    have s4: "store h3 (Some a) (\<lambda>x. x\<lparr>bleft := Some s, bright := Some s\<rparr>) = Some h4"
    proof -
      have "na\<lparr>parent := Some q, bleft := Some s, bright := Some s\<rparr> = leaf_node s (Some q) k"
        using na(2) by (cases na) (simp add: leaf_node_def)
      then show ?thesis using qa by (simp add: c_step h2_def h3_def h4_def)
    qed
    have "cells h4 = (cells (bnodes m1))(q \<mapsto> set_child b (Some a) n, a \<mapsto> leaf_node s (Some q) k)"
      using qa by (auto simp: h4_def h3_def h2_def)
    then have B4: "btree_at (cells h4) s (Some s) (broot T) t'" using q(4) na(2) by (simp add: t'_def)
    have "dom (cells h4) = dom (cells (bnodes m1))" "brk h4 = brk (bnodes m1)" "env h4 = env (bnodes m1)"
      using na(1) q(3) by (auto simp: h4_def h3_def h2_def)
    moreover have "bstree_insert m1 (Some tp) (Some a) = Some (m1\<lparr>bnodes := h4\<rparr>)"
      using t(1-3) rs q(1) s2 s3 s4 by (simp add: bstree_insert_def bstree_insert_value_def m1_def)
    ultimately show ?thesis using B4 t(1-3) by (simp add: m1_def)
  qed
  then obtain m2 T2 where m2: "bstree_insert m1 (Some tp) (Some a) = Some m2" "cells (btrees m2) tp = Some T2"
    "sentinel T2 = Some s" "insert_fn T2 = bstree_insert_value"
    "btree_at (cells (bnodes m2)) s (Some s) (broot T2) t'"
    "dom (cells (bnodes m2)) = dom (cells (bnodes m1))" "brk (bnodes m2) = brk (bnodes m1)"
    "env (bnodes m2) = env (bnodes m1)" by blast
  have "heap_ok (bnodes m1)" using t(8) by (simp add: heap_ok_def m1_def a_def)
  then have "heap_ok (bnodes m2)" using m2(6,7) by (simp add: heap_ok_def) (metis domIff)
  moreover have "dom (cells (bnodes m2)) = insert s (locs t')" using m2(6) t(5) t'(1) by (auto simp: m1_def)
  ultimately have "bst_holds m2 tp s t'" using m2 t' by (auto simp: bst_holds_def)
  with m2 step t'(3) show ?thesis by (auto simp: m1_def)
qed

lemma insert_keys_spec:
  "bst_holds m tp s t \<Longrightarrow> always (bnodes m) \<Longrightarrow>
   \<exists>m' t'. insert_keys ks m (Some tp) = Some m' \<and> bst_holds m' tp s t' \<and>
     mset (keys t') = mset ks + mset (keys t) \<and> env (bnodes m') = env (bnodes m)"
proof (induction ks arbitrary: m t)
  case (Cons k ks)
  obtain m1 t1 where m1: "insert_key m (Some tp) k = Some m1" "bst_holds m1 tp s t1"
    "mset (keys t1) = add_mset k (mset (keys t))" "env (bnodes m1) = env (bnodes m)"
    using insert_key_spec [OF Cons.prems] by blast
  have "always (bnodes m1)" using Cons.prems(2) m1(4) by (simp add: always_def)
  from Cons.IH [OF m1(2) this] m1 show ?case by auto
qed auto

lemma bst_lookup_spec:
  assumes "bst_holds m tp s t" and T: "cells (btrees m) tp = Some T"
  shows "\<exists>q. bstree_lookup m (Some tp) k = Some q \<and>
    (if k \<in> set (keys t) then \<exists>a. q = Some a \<and> (a, k) \<in> set (inorder t) \<and> a \<noteq> s else q = Some s)"
proof -
  have B: "btree_at (cells (bnodes m)) s (Some s) (broot T) t" "sentinel T = Some s" "sorted (keys t)"
    using assms by (auto elim!: bst_holdsE)
  from lookup_loop_spec [OF B(1,3), of k] show ?thesis using T B(2) by (simp add: bstree_lookup_def)
qed

fun spec_search :: "int list \<Rightarrow> int multiset \<Rightarrow> bool list \<times> int multiset" where
  "spec_search [] M = ([], M)"
| "spec_search (k # ks) M = (let (bs, M') = spec_search ks (M - {#k#}) in ((k \<in># M) # bs, M'))"

lemma search_key_spec:
  assumes M: "bst_holds m tp s t"
  shows "\<exists>m' t'. search_key m (Some tp) k = Some (k \<in> set (keys t), m') \<and> bst_holds m' tp s t' \<and>
    mset (keys t') = mset (keys t) - {#k#}"
proof -
  obtain T where T: "cells (btrees m) tp = Some T" "sentinel T = Some s" using M by (rule bst_holdsE)
  obtain q where q: "bstree_lookup m (Some tp) k = Some q"
    "if k \<in> set (keys t) then \<exists>a. q = Some a \<and> (a, k) \<in> set (inorder t) \<and> a \<noteq> s else q = Some s"
    using bst_lookup_spec [OF M T(1)] by blast
  show ?thesis
  proof (cases "k \<in> set (keys t)")
    case True
    then obtain a where a: "q = Some a" "(a, k) \<in> set (inorder t)" "a \<noteq> s" using q(2) by auto
    from bstree_delete_spec [OF M a(2)] show ?thesis using q(1) a(1,3) T True by (auto simp: search_key_def)
  next
    case False
    then have "q = Some s" "mset (keys t) - {#k#} = mset (keys t)" using q(2) by auto
    then show ?thesis using q(1) T False M by (auto simp: search_key_def)
  qed
qed

lemma search_keys_spec:
  "bst_holds m tp s t \<Longrightarrow>
   \<exists>m' t'. search_keys ks m (Some tp) = Some (fst (spec_search ks (mset (keys t))), m') \<and>
     bst_holds m' tp s t' \<and> mset (keys t') = snd (spec_search ks (mset (keys t)))"
proof (induction ks arbitrary: m t)
  case (Cons k ks)
  obtain m1 t1 where m1: "search_key m (Some tp) k = Some (k \<in> set (keys t), m1)" "bst_holds m1 tp s t1"
    "mset (keys t1) = mset (keys t) - {#k#}" using search_key_spec [OF Cons.prems] by blast
  from Cons.IH [OF m1(2)] m1 show ?case by (fastforce simp: split_beta)
qed auto

lemma drain_min_spec:
  "bst_holds m tp s t \<Longrightarrow> length (keys t) \<le> i \<Longrightarrow>
   \<exists>m'. drain_min i m (Some tp) = Some (keys t, m') \<and> bst_holds m' tp s Leaf"
proof (induction i arbitrary: m t)
  case 0
  then have "t = Leaf" by (cases t) auto
  with 0 show ?case by auto
next
  case (Suc i)
  obtain T where T: "cells (btrees m) tp = Some T" "sentinel T = Some s"
    "btree_at (cells (bnodes m)) s (Some s) (broot T) t" "apart t" using Suc.prems(1) by (rule bst_holdsE)
  show ?case
  proof (cases "t = Leaf")
    case True
    with T Suc.prems(1) show ?thesis by (simp add: bstree_min_def)
  next
    case False
    then have ne: "broot T \<noteq> Some s" using btree_at_sentinel [OF T(3)] by simp
    obtain b n where b: "min_loop (bnodes m) (broot T) (Some s) = Some (Some b)" "least t = Some (b, key n)"
      "cells (bnodes m) b = Some n" "b \<in> locs t" using min_loop_spec [OF T(3) False] by blast
    obtain xs where xs: "inorder t = (b, key n) # xs" using least_inorder [OF b(2)] by blast
    have bs: "b \<noteq> s" using b(4) btree_at_sentinel [OF T(3)] by blast
    have "(b, key n) \<in> set (inorder t)" using xs by (simp del: set_inorder)
    from bstree_delete_spec [OF Suc.prems(1) this] obtain m1 t1 ys zs where
      m1: "bstree_delete m (Some tp) (Some b) = Some m1" "bst_holds m1 tp s t1"
      "mset (keys t1) = mset (keys t) - {#key n#}" by blast
    have kt: "keys t = key n # map snd xs" using xs by (simp add: keys_def)
    have "keys t1 = map snd xs"
    proof -
      have "mset (keys t1) = mset (map snd xs)" using m1(3) kt by simp
      moreover have "sorted (keys t1)" "sorted (map snd xs)"
        using m1(2) Suc.prems(1) kt by (auto elim!: bst_holdsE)
      ultimately show ?thesis by (metis properties_for_sort sorted_sort_id)
    qed
    with Suc.IH [OF m1(2)] Suc.prems(2) kt obtain m2 where
      "drain_min i m1 (Some tp) = Some (map snd xs, m2)" "bst_holds m2 tp s Leaf" by auto
    then show ?thesis using T(1,2) ne b(1,3) bs m1(1) kt by (simp add: bstree_min_def)
  qed
qed

section \<open>The property\<close>

lemma spec_search_subset: "snd (spec_search is M) \<subseteq># M"
proof (induction "is" arbitrary: M)
  case (Cons k "is")
  have "snd (spec_search is (M - {#k#})) \<subseteq># M - {#k#}" by (rule Cons.IH)
  also have "\<dots> \<subseteq># M" by simp
  finally show ?case by (simp add: split_beta)
qed simp

text \<open>
  C25. \<open>main\<close> of \<open>BST.c\<close> on any keys and inputs, in a memory that grants every node: the traversal
  prints the keys in order; an input is found exactly if the keys still hold it, and takes one
  occurrence away; the last loop prints the keys that are left, in order; and in the end every
  node but the sentinel has been freed.
\<close>
theorem bst_main_correct:
  assumes "always (bnodes m)" "always (btrees m)" "cells (bnodes m) = Map.empty"
  shows "\<exists>m'. bst_main m ks ins = Some (Some (sort ks, fst (spec_search ins (mset ks)),
      sorted_list_of_multiset (snd (spec_search ins (mset ks))), m')) \<and>
    dom (cells (bnodes m')) = {brk (bnodes m)}"
proof -
  define s tp where "s = brk (bnodes m)" and "tp = brk (btrees m)"
  obtain n0 t0 where e: "env (bnodes m) s = Some n0" "env (btrees m) tp = Some t0"
    using assms(1,2) unfolding always_def by blast
  define T where "T = t0\<lparr>broot := Some s, sentinel := Some s, insert_fn := bstree_insert_value\<rparr>"
  define m1 where "m1 = m\<lparr>bnodes := (bnodes m)\<lparr>cells := [s \<mapsto> n0], brk := Suc s\<rparr>\<rparr>"
  define m2 where "m2 = m1\<lparr>btrees := (btrees m)\<lparr>cells := (cells (btrees m))(tp \<mapsto> T), brk := Suc tp\<rparr>\<rparr>"
  have s1: "cmalloc (bnodes m) = (Some s, (bnodes m)\<lparr>cells := [s \<mapsto> n0], brk := Suc s\<rparr>)"
    using e(1) assms(3) by (simp add: cmalloc_def s_def)
  have s2: "bstree_create m1 (Some s) bstree_insert_value = Some (Some tp, m2)"
    using e(2) by (simp add: bstree_create_def cmalloc_def tp_def [symmetric] m1_def m2_def T_def c_step Let_def)
  have H: "bst_holds m2 tp s Leaf" by (simp add: bst_holds_def m2_def m1_def T_def heap_ok_def)
  have A: "always (bnodes m2)" using assms(1) by (simp add: always_def m2_def m1_def)
  obtain m3 t3 where m3: "insert_keys ks m2 (Some tp) = Some m3" "bst_holds m3 tp s t3"
    "mset (keys t3) = mset ks" using insert_keys_spec [OF H A, of ks] by auto
  obtain T3 where T3: "cells (btrees m3) tp = Some T3" "sentinel T3 = Some s"
    "btree_at (cells (bnodes m3)) s (Some s) (broot T3) t3" "sorted (keys t3)" using m3(2) by (rule bst_holdsE)
  have k3: "keys t3 = sort ks" using m3(3) T3(4) by (metis properties_for_sort)
  have p3: "inorder_print m3 (Some tp) = Some (sort ks)"
    using inordertravel_spec [OF T3(3)] T3(1,2) k3 by (simp add: inorder_print_def)
  obtain m4 t4 where m4: "search_keys ins m3 (Some tp) = Some (fst (spec_search ins (mset ks)), m4)"
    "bst_holds m4 tp s t4" "mset (keys t4) = snd (spec_search ins (mset ks))"
    using search_keys_spec [OF m3(2), of ins] m3(3) by auto
  have "size (mset (keys t4)) \<le> size (mset ks)" using spec_search_subset [of ins "mset ks"] m4(3) by (metis size_mset_mono)
  then have "length (keys t4) \<le> length ks" by simp
  from drain_min_spec [OF m4(2) this] obtain m5 where
    m5: "drain_min (length ks) m4 (Some tp) = Some (keys t4, m5)" "bst_holds m5 tp s Leaf" by blast
  have "sorted (keys t4)" using m4(2) by (rule bst_holdsE)
  then have k4: "keys t4 = sorted_list_of_multiset (snd (spec_search ins (mset ks)))"
    using m4(3) by (metis sorted_list_of_multiset_mset sorted_sort_id)
  have "bst_main m ks ins = Some (Some (sort ks, fst (spec_search ins (mset ks)), keys t4, m5))"
    using s1 s2 m3(1) p3 m4(1) m5(1) by (simp add: bst_main_def m1_def [symmetric] Let_def)
  moreover have "dom (cells (bnodes m5)) = {s}" using m5(2) by (auto simp: bst_holds_def)
  ultimately show ?thesis unfolding k4 s_def by blast
qed

definition bst_memory :: bmem where
  "bst_memory = \<lparr>btrees = \<lparr>cells = Map.empty, brk = 0,
       env = \<lambda>_. Some \<lparr>broot = None, sentinel = None, insert_fn = \<lambda>_ _ _ _. None\<rparr>\<rparr>,
     bnodes = \<lparr>cells = Map.empty, brk = 0,
       env = \<lambda>_. Some \<lparr>bleft = None, bright = None, parent = None, key = 0\<rparr>\<rparr>\<rparr>"

theorem bst_main_correct_witness:
  "\<exists>m'. bst_main bst_memory [5, 3, 8, 5, 1] [5, 7, 5, 5] =
      Some (Some ([1, 3, 5, 5, 8], [True, False, True, False], [1, 3, 8], m')) \<and>
    dom (cells (bnodes m')) = {0}"
proof -
  have "always (bnodes bst_memory)" "always (btrees bst_memory)" "cells (bnodes bst_memory) = Map.empty"
    "brk (bnodes bst_memory) = 0"
    by (simp_all add: always_def bst_memory_def)
  with bst_main_correct [of bst_memory "[5, 3, 8, 5, 1]" "[5, 7, 5, 5]"]
  show ?thesis by simp
qed

end
