(* ===== verification/Skiplist.thy ===== *)
theory Skiplist
  imports CPrelude
begin

text \<open>
  \<open>skiplist/skiplist_full_complete.c\<close>: a skip list ordered by value, and the circular double
  list it is compared with. A node of level \<open>level\<close> is allocated with \<open>level + 1\<close> forward
  pointers; a slot that has not been written is \<^const>\<open>None\<close>, and reading it is undefined.
  \<open>random()\<close> is an oracle: the \<open>i\<close>-th call returns \<open>rnd i\<close>.
\<close>

definition SKIPLEVEL :: int where "SKIPLEVEL = 100"

record skiplist_node =
  skey :: int
  svalue :: int
  forward :: "ptr option list"

record skiplist =
  shead :: ptr
  level :: int

record slmem =
  snodes :: "skiplist_node heap"
  slists :: "skiplist heap"

text \<open>Assignments through a pointer to a node and to a list.\<close>

definition set_snode :: "slmem \<Rightarrow> ptr \<Rightarrow> (skiplist_node \<Rightarrow> skiplist_node) \<Rightarrow> slmem option" where
  "set_snode m p f = map_option (\<lambda>h. m\<lparr>snodes := h\<rparr>) (store (snodes m) p f)"

definition set_slist :: "slmem \<Rightarrow> ptr \<Rightarrow> (skiplist \<Rightarrow> skiplist) \<Rightarrow> slmem option" where
  "set_slist m p f = map_option (\<lambda>h. m\<lparr>slists := h\<rparr>) (store (slists m) p f)"

text \<open>\<open>p->forward[i]\<close> as a value and as the target of an assignment.\<close>

definition get_forward :: "slmem \<Rightarrow> ptr \<Rightarrow> int \<Rightarrow> ptr option" where
  "get_forward m p i = do {
     n \<leftarrow> load (snodes m) p;
     v \<leftarrow> aread (forward n) i;
     v
   }"

definition set_forward :: "slmem \<Rightarrow> ptr \<Rightarrow> int \<Rightarrow> ptr \<Rightarrow> slmem option" where
  "set_forward m p i q = do {
     n \<leftarrow> load (snodes m) p;
     fs \<leftarrow> awrite (forward n) i (Some q);
     set_snode m p (\<lambda>n. n\<lparr>forward := fs\<rparr>)
   }"

section \<open>Nodes and levels\<close>

partial_function (option) skiprandomlevel :: "(nat \<Rightarrow> int) \<Rightarrow> nat \<Rightarrow> int \<Rightarrow> (int \<times> nat) option" where
  "skiprandomlevel rnd pos k = (if rnd pos mod 100 mod 2 \<noteq> 0 then do {
       k \<leftarrow> cint (k + 1);
       skiprandomlevel rnd (Suc pos) k
     } else Some (k, Suc pos))"

definition slcreatenode :: "slmem \<Rightarrow> int \<Rightarrow> int \<Rightarrow> int \<Rightarrow> (ptr \<times> slmem) option" where
  "slcreatenode m lv k v = (let (p, h) = cmalloc (snodes m); m = m\<lparr>snodes := h\<rparr> in
     if p = None then Some (None, m)
     else do {
       m \<leftarrow> set_snode m p (\<lambda>n. n\<lparr>forward := replicate (nat (lv + 1)) None\<rparr>);
       m \<leftarrow> set_snode m p (\<lambda>n. n\<lparr>skey := k\<rparr>);
       m \<leftarrow> set_snode m p (\<lambda>n. n\<lparr>svalue := v\<rparr>);
       Some (p, m)
     })"

text \<open>\<open>for(i=0;i<SKIPLEVEL;i++)\<close>, with \<open>k\<close> rounds to go.\<close>

primrec clear_forward :: "nat \<Rightarrow> slmem \<Rightarrow> ptr \<Rightarrow> int \<Rightarrow> slmem option" where
  "clear_forward 0 m p i = Some m"
| "clear_forward (Suc k) m p i = do {
     m \<leftarrow> set_forward m p i None;
     clear_forward k m p (i + 1)
   }"

definition slcreate :: "slmem \<Rightarrow> (ptr \<times> slmem) option" where
  "slcreate m = (let (sl, h) = cmalloc (slists m); m = m\<lparr>slists := h\<rparr> in
     if sl = None then Some (None, m)
     else do {
       m \<leftarrow> set_slist m sl (\<lambda>s. s\<lparr>level := 0\<rparr>);
       (hed, m) \<leftarrow> slcreatenode m SKIPLEVEL 0 0;
       m \<leftarrow> set_slist m sl (\<lambda>s. s\<lparr>shead := hed\<rparr>);
       if hed = None then do {
         h \<leftarrow> cfree (slists m) sl;
         Some (None, m\<lparr>slists := h\<rparr>)
       } else do {
         m \<leftarrow> clear_forward (nat SKIPLEVEL) m hed 0;
         Some (sl, m)
       }
     })"

section \<open>Insertion\<close>

text \<open>\<open>while(q&&q->value<value)\<close>: the last \<open>p\<close> and \<open>q\<close>.\<close>

partial_function (option) walk_less :: "slmem \<Rightarrow> int \<Rightarrow> int \<Rightarrow> ptr \<Rightarrow> ptr \<Rightarrow> (ptr \<times> ptr) option" where
  "walk_less m i v p q = (if q = None then Some (p, q) else do {
     n \<leftarrow> load (snodes m) q;
     if svalue n < v then do {
       r \<leftarrow> get_forward m q i;
       walk_less m i v q r
     } else Some (p, q)
   })"

text \<open>
  One round of \<open>for(i=k-1;i>=0;i--)\<close>; \<open>stop\<close> is the test that keeps \<open>p\<close>: \<open>>=\<close> in \<open>slinsert\<close>,
  \<open>>\<close> in \<open>sldelete\<close>.
\<close>

definition find_round ::
  "(int \<Rightarrow> int \<Rightarrow> bool) \<Rightarrow> slmem \<Rightarrow> int \<Rightarrow> int \<Rightarrow> ptr \<Rightarrow> (ptr \<times> ptr) option" where
  "find_round stop m v i p = do {
     q \<leftarrow> get_forward m p i;
     if q = None then Some (p, q)
     else do {
       n \<leftarrow> load (snodes m) q;
       if stop (svalue n) v then Some (p, q) else walk_less m i v p q
     }
   }"

text \<open>The loop, from \<open>i = k - 1\<close> down to 0: \<open>update\<close> and the last \<open>q\<close>.\<close>

primrec find_update :: "nat \<Rightarrow> (int \<Rightarrow> int \<Rightarrow> bool) \<Rightarrow> slmem \<Rightarrow> int \<Rightarrow> ptr \<Rightarrow> ptr \<Rightarrow>
    ptr option list \<Rightarrow> (ptr option list \<times> ptr) option" where
  "find_update 0 stop m v p q upd = Some (upd, q)"
| "find_update (Suc i) stop m v p q upd = do {
     (p, q) \<leftarrow> find_round stop m v (int i) p;
     upd \<leftarrow> awrite upd (int i) (Some p);
     find_update i stop m v p q upd
   }"

text \<open>\<open>for(i=sl->level;i<k;i++) update[i]=sl->head\<close>, with \<open>n\<close> rounds to go.\<close>

primrec raise_level :: "nat \<Rightarrow> int \<Rightarrow> ptr \<Rightarrow> ptr option list \<Rightarrow> ptr option list option" where
  "raise_level 0 i hed upd = Some upd"
| "raise_level (Suc n) i hed upd = do {
     upd \<leftarrow> awrite upd i (Some hed);
     raise_level n (i + 1) hed upd
   }"

text \<open>\<open>for(i=0;i<k;i++)\<close>: link the new node in on every level.\<close>

primrec link_in :: "nat \<Rightarrow> int \<Rightarrow> slmem \<Rightarrow> ptr option list \<Rightarrow> ptr \<Rightarrow> slmem option" where
  "link_in 0 i m upd q = Some m"
| "link_in (Suc n) i m upd q = do {
     u \<leftarrow> aread upd i;
     u \<leftarrow> u;
     f \<leftarrow> get_forward m u i;
     m \<leftarrow> set_forward m q i f;
     m \<leftarrow> set_forward m u i q;
     link_in n (i + 1) m upd q
   }"

text \<open>The result also holds the position in the sequence of random numbers.\<close>

definition slinsert ::
  "(nat \<Rightarrow> int) \<Rightarrow> nat \<Rightarrow> slmem \<Rightarrow> ptr \<Rightarrow> int \<Rightarrow> int \<Rightarrow> (int \<times> nat \<times> slmem) option" where
  "slinsert rnd pos m sl k v = do {
     s \<leftarrow> load (slists m) sl;
     let upd = replicate (nat SKIPLEVEL) None;
     (upd, q) \<leftarrow> find_update (nat (level s)) (\<ge>) m v (shead s) None upd;
     (lv, pos) \<leftarrow> skiprandomlevel rnd pos 1;
     (upd, m) \<leftarrow> (if lv > level s then do {
          upd \<leftarrow> raise_level (nat (lv - level s)) (level s) (shead s) upd;
          m \<leftarrow> set_slist m sl (\<lambda>s. s\<lparr>level := lv\<rparr>);
          Some (upd, m)
        } else Some (upd, m));
     (q, m) \<leftarrow> slcreatenode m lv k v;
     m \<leftarrow> link_in (nat lv) 0 m upd q;
     Some (0, pos, m)
   }"

section \<open>Deletion\<close>

primrec unlink :: "nat \<Rightarrow> int \<Rightarrow> slmem \<Rightarrow> ptr option list \<Rightarrow> ptr \<Rightarrow> slmem option" where
  "unlink 0 i m upd q = Some m"
| "unlink (Suc n) i m upd q = do {
     u \<leftarrow> aread upd i;
     u \<leftarrow> u;
     f \<leftarrow> get_forward m u i;
     m \<leftarrow> (if f = q then do {
          g \<leftarrow> get_forward m q i;
          set_forward m u i g
        } else Some m);
     unlink n (i + 1) m upd q
   }"

text \<open>\<open>for(i=k-1;i>=0;i--) if(sl->head->forward[i]==NULL) sl->level--\<close>.\<close>

primrec lower_level :: "nat \<Rightarrow> slmem \<Rightarrow> ptr \<Rightarrow> slmem option" where
  "lower_level 0 m sl = Some m"
| "lower_level (Suc i) m sl = do {
     s \<leftarrow> load (slists m) sl;
     f \<leftarrow> get_forward m (shead s) (int i);
     m \<leftarrow> (if f = None then set_slist m sl (\<lambda>s. s\<lparr>level := level s - 1\<rparr>) else Some m);
     lower_level i m sl
   }"

definition sldelete :: "slmem \<Rightarrow> ptr \<Rightarrow> int \<Rightarrow> (int \<times> slmem) option" where
  "sldelete m sl v = do {
     s \<leftarrow> load (slists m) sl;
     let k = nat (level s);
     (upd, q) \<leftarrow> find_update k (>) m v (shead s) None (replicate (nat SKIPLEVEL) None);
     n \<leftarrow> load (snodes m) q;
     if svalue n = v then do {
       m \<leftarrow> unlink k 0 m upd q;
       h \<leftarrow> cfree (snodes m) q;
       m \<leftarrow> lower_level k (m\<lparr>snodes := h\<rparr>) sl;
       Some (0, m)
     } else Some (- 1, m)
   }"

section \<open>Searching and printing\<close>

text \<open>\<open>while(q&&q->value<=value)\<close>: the node found, or the last \<open>p\<close>.\<close>

partial_function (option) search_walk :: "slmem \<Rightarrow> int \<Rightarrow> int \<Rightarrow> ptr \<Rightarrow> ptr \<Rightarrow> (ptr \<times> ptr) option" where
  "search_walk m i v p q = (if q = None then Some (None, p) else do {
     n \<leftarrow> load (snodes m) q;
     if svalue n \<le> v then
       if svalue n = v then Some (q, p)
       else do {
         r \<leftarrow> get_forward m q i;
         search_walk m i v q r
       }
     else Some (None, p)
   })"

primrec search_levels :: "nat \<Rightarrow> slmem \<Rightarrow> int \<Rightarrow> ptr \<Rightarrow> ptr option" where
  "search_levels 0 m v p = Some None"
| "search_levels (Suc i) m v p = do {
     q \<leftarrow> get_forward m p (int i);
     skip \<leftarrow> (if q = None then Some True else map_option (\<lambda>n. svalue n > v) (load (snodes m) q));
     if skip then search_levels i m v p
     else do {
       (found, p) \<leftarrow> search_walk m (int i) v p q;
       if found \<noteq> None then Some found else search_levels i m v p
     }
   }"

definition slsearch :: "slmem \<Rightarrow> ptr \<Rightarrow> int \<Rightarrow> ptr option" where
  "slsearch m sl v = do {
     s \<leftarrow> load (slists m) sl;
     search_levels (nat (level s)) m v (shead s)
   }"

partial_function (option) display_row :: "slmem \<Rightarrow> int \<Rightarrow> ptr \<Rightarrow> int list option" where
  "display_row m i q = (if q = None then Some [] else do {
     n \<leftarrow> load (snodes m) q;
     r \<leftarrow> get_forward m q i;
     vs \<leftarrow> display_row m i r;
     Some (svalue n # vs)
   })"

primrec display_levels :: "nat \<Rightarrow> slmem \<Rightarrow> ptr \<Rightarrow> int list list option" where
  "display_levels 0 m p = Some []"
| "display_levels (Suc i) m p = do {
     q \<leftarrow> get_forward m p (int i);
     row \<leftarrow> display_row m (int i) q;
     rows \<leftarrow> display_levels i m p;
     Some (row # rows)
   }"

text \<open>The printed rows, from the top level down.\<close>

definition sldisplay :: "slmem \<Rightarrow> ptr \<Rightarrow> int list list option" where
  "sldisplay m sl = do {
     s \<leftarrow> load (slists m) sl;
     display_levels (nat (level s)) m (shead s)
   }"

section \<open>The double list\<close>

record doublelist_node =
  dkey :: int
  dvalue :: int
  dnext :: ptr
  dprev :: ptr

record doublelist =
  dhead :: ptr
  dummy :: int

record dlmem =
  dnodes :: "doublelist_node heap"
  dlists :: "doublelist heap"

definition set_dnode :: "dlmem \<Rightarrow> ptr \<Rightarrow> (doublelist_node \<Rightarrow> doublelist_node) \<Rightarrow> dlmem option" where
  "set_dnode m p f = map_option (\<lambda>h. m\<lparr>dnodes := h\<rparr>) (store (dnodes m) p f)"

definition set_dlist :: "dlmem \<Rightarrow> ptr \<Rightarrow> (doublelist \<Rightarrow> doublelist) \<Rightarrow> dlmem option" where
  "set_dlist m p f = map_option (\<lambda>h. m\<lparr>dlists := h\<rparr>) (store (dlists m) p f)"

definition doublecreatenode :: "dlmem \<Rightarrow> int \<Rightarrow> int \<Rightarrow> (ptr \<times> dlmem) option" where
  "doublecreatenode m k v = (let (p, h) = cmalloc (dnodes m); m = m\<lparr>dnodes := h\<rparr> in do {
     m \<leftarrow> set_dnode m p (\<lambda>n. n\<lparr>dkey := k\<rparr>);
     m \<leftarrow> set_dnode m p (\<lambda>n. n\<lparr>dvalue := v\<rparr>);
     Some (p, m)
   })"

definition doublecreate :: "dlmem \<Rightarrow> (ptr \<times> dlmem) option" where
  "doublecreate m = (let (dl, h) = cmalloc (dlists m); m = m\<lparr>dlists := h\<rparr> in do {
     (hed, m) \<leftarrow> doublecreatenode m 0 0;
     m \<leftarrow> set_dlist m dl (\<lambda>l. l\<lparr>dhead := hed\<rparr>);
     m \<leftarrow> set_dnode m hed (\<lambda>n. n\<lparr>dnext := hed, dprev := hed\<rparr>);
     m \<leftarrow> set_dlist m dl (\<lambda>l. l\<lparr>dummy := 0\<rparr>);
     Some (dl, m)
   })"

definition doubleinsert :: "dlmem \<Rightarrow> ptr \<Rightarrow> int \<Rightarrow> int \<Rightarrow> (int \<times> dlmem) option" where
  "doubleinsert m dl k v = (let (p, h) = cmalloc (dnodes m); m = m\<lparr>dnodes := h\<rparr> in do {
     m \<leftarrow> set_dnode m p (\<lambda>n. n\<lparr>dkey := k\<rparr>);
     m \<leftarrow> set_dnode m p (\<lambda>n. n\<lparr>dvalue := v\<rparr>);
     l \<leftarrow> load (dlists m) dl;
     let hed = dhead l;
     hn \<leftarrow> load (dnodes m) hed;
     m \<leftarrow> set_dnode m p (\<lambda>n. n\<lparr>dnext := dnext hn\<rparr>);
     m \<leftarrow> set_dnode m p (\<lambda>n. n\<lparr>dprev := hed\<rparr>);
     hn \<leftarrow> load (dnodes m) hed;
     m \<leftarrow> set_dnode m (dnext hn) (\<lambda>n. n\<lparr>dprev := p\<rparr>);
     m \<leftarrow> set_dnode m hed (\<lambda>n. n\<lparr>dnext := p\<rparr>);
     Some (0, m)
   })"

partial_function (option) dsearch_loop :: "dlmem \<Rightarrow> ptr \<Rightarrow> int \<Rightarrow> ptr \<Rightarrow> ptr option" where
  "dsearch_loop m hed v p = do {
     n \<leftarrow> load (dnodes m) p;
     if dnext n \<noteq> hed then
       if dvalue n = v then Some p else dsearch_loop m hed v (dnext n)
     else Some None
   }"

definition doublesearch :: "dlmem \<Rightarrow> ptr \<Rightarrow> int \<Rightarrow> ptr option" where
  "doublesearch m dl v = do {
     l \<leftarrow> load (dlists m) dl;
     dsearch_loop m (dhead l) v (dhead l)
   }"

definition double_delete :: "dlmem \<Rightarrow> ptr \<Rightarrow> int \<Rightarrow> (int \<times> dlmem) option" where
  "double_delete m dl v = do {
     p \<leftarrow> doublesearch m dl v;
     if p = None then Some (- 1, m)
     else do {
       n \<leftarrow> load (dnodes m) p;
       let q = dprev n;
       m \<leftarrow> set_dnode m q (\<lambda>x. x\<lparr>dnext := dnext n\<rparr>);
       n \<leftarrow> load (dnodes m) p;
       m \<leftarrow> set_dnode m (dnext n) (\<lambda>x. x\<lparr>dprev := q\<rparr>);
       h \<leftarrow> cfree (dnodes m) q;
       Some (0, m\<lparr>dnodes := h\<rparr>)
     }
   }"

partial_function (option) ddisplay_loop :: "dlmem \<Rightarrow> ptr \<Rightarrow> ptr \<Rightarrow> int list option" where
  "ddisplay_loop m hed p = do {
     n \<leftarrow> load (dnodes m) p;
     if dnext n \<noteq> hed then do {
       x \<leftarrow> load (dnodes m) (dnext n);
       vs \<leftarrow> ddisplay_loop m hed (dnext n);
       Some (dvalue x # vs)
     } else Some []
   }"

definition doubledisplay :: "dlmem \<Rightarrow> ptr \<Rightarrow> int list option" where
  "doubledisplay m dl = do {
     l \<leftarrow> load (dlists m) dl;
     ddisplay_loop m (dhead l) (dhead l)
   }"

end
