(* ===== verification/Skiplist_Correct.thy ===== *)
theory Skiplist_Correct
  imports Skiplist
begin

text \<open>
  What a skip list represents. Its entries are listed in the order of level 0; level \<open>i\<close> is the
  sublist of those higher than \<open>i\<close>, so one predicate fixes all forward pointers.
\<close>

record entry =
  eaddr :: nat
  ehgt :: nat
  ekey :: int
  evalue :: int

abbreviation above :: "nat \<Rightarrow> entry list \<Rightarrow> entry list" where
  "above i \<equiv> filter (\<lambda>e. i < ehgt e)"

definition succ_at :: "nat \<Rightarrow> entry list \<Rightarrow> ptr" where
  "succ_at i es = (case above i es of [] \<Rightarrow> None | e # _ \<Rightarrow> Some (eaddr e))"

lemma succ_at_simps [simp]: "succ_at i [] = None"
  "succ_at i (e # es) = (if i < ehgt e then Some (eaddr e) else succ_at i es)"
  by (simp_all add: succ_at_def)

lemma succ_at_append: "succ_at i (xs @ ys) = (if above i xs = [] then succ_at i ys else succ_at i xs)"
  by (induction xs) auto

definition node_ok :: "(nat \<rightharpoonup> skiplist_node) \<Rightarrow> entry \<Rightarrow> entry list \<Rightarrow> bool" where
  "node_ok N e es \<longleftrightarrow> (\<exists>n. N (eaddr e) = Some n \<and> svalue n = evalue e \<and> skey n = ekey e \<and>
     length (forward n) = Suc (ehgt e) \<and> 0 < ehgt e \<and> (\<forall>i<ehgt e. forward n ! i = Some (succ_at i es)))"

fun linked_to :: "(nat \<rightharpoonup> skiplist_node) \<Rightarrow> entry list \<Rightarrow> entry list \<Rightarrow> bool" where
  "linked_to N [] T \<longleftrightarrow> True"
| "linked_to N (e # es) T \<longleftrightarrow> node_ok N e (es @ T) \<and> linked_to N es T"

lemma linked_append: "linked_to N (xs @ ys) T \<longleftrightarrow> linked_to N xs (ys @ T) \<and> linked_to N ys T"
  by (induction xs) auto

lemma linked_split: "linked_to N (as @ e # bs) T \<Longrightarrow> node_ok N e (bs @ T)"
  by (simp add: linked_append)

lemma linked_node: "linked_to N es T \<Longrightarrow> e \<in> set es \<Longrightarrow> \<exists>n. N (eaddr e) = Some n"
  by (induction es) (auto simp: node_ok_def)

lemma succ_at_node: "linked_to N es T \<Longrightarrow> succ_at i es = Some q \<Longrightarrow> \<exists>n. N q = Some n"
  by (induction es) (auto simp: node_ok_def split: if_splits)

lemma get_forward_ok:
  "node_ok (cells (snodes m)) e es \<Longrightarrow> i < ehgt e \<Longrightarrow>
   get_forward m (Some (eaddr e)) (int i) = Some (succ_at i es)"
  by (auto simp: get_forward_def node_ok_def aread_def)

section \<open>Finding the predecessors\<close>

text \<open>The last entry before \<open>ys\<close> that is higher than \<open>i\<close>; \<open>h\<close> is the head.\<close>

definition pred_at :: "nat \<Rightarrow> entry \<Rightarrow> entry list \<Rightarrow> entry" where
  "pred_at i h xs = last (h # above i xs)"

lemma walk_less_spec:
  assumes "linked_to (cells (snodes m)) (bs @ ys) []" "\<forall>e\<in>set bs. evalue e < v" "\<forall>e\<in>set ys. \<not> evalue e < v"
  shows "walk_less m (int i) v (Some (eaddr p)) (succ_at i (bs @ ys)) =
    Some (Some (eaddr (last (p # above i bs))), succ_at i ys)"
  using assms
proof (induction bs arbitrary: p)
  case Nil
  show ?case
  proof (cases "above i ys")
    case Nil
    then show ?thesis by (subst walk_less.simps) (simp add: succ_at_def)
  next
    case (Cons y zs)
    then have y: "y \<in> set ys" by (metis filter_is_subset list.set_intros(1) subsetD)
    obtain as bs where "ys = as @ y # bs" using y by (auto dest: split_list)
    then have "node_ok (cells (snodes m)) y bs" using Nil.prems(1) linked_split by force
    then obtain n where "cells (snodes m) (eaddr y) = Some n" "svalue n = evalue y" by (auto simp: node_ok_def)
    then show ?thesis using Cons Nil.prems(3) y by (subst walk_less.simps) (simp add: succ_at_def)
  qed
next
  case (Cons b bs)
  have ok: "node_ok (cells (snodes m)) b (bs @ ys)" "linked_to (cells (snodes m)) (bs @ ys) []"
    using Cons.prems(1) by simp_all
  show ?case
  proof (cases "i < ehgt b")
    case True
    obtain n where n: "cells (snodes m) (eaddr b) = Some n" "svalue n = evalue b"
      using ok(1) by (auto simp: node_ok_def)
    have "walk_less m (int i) v (Some (eaddr p)) (Some (eaddr b)) =
        walk_less m (int i) v (Some (eaddr b)) (succ_at i (bs @ ys))"
      by (subst walk_less.simps) (use n Cons.prems(2) get_forward_ok [OF ok(1) True] in simp)
    then show ?thesis using Cons.IH [OF ok(2), of b] Cons.prems(2,3) True by simp
  next
    case False
    then show ?thesis using Cons.IH [OF ok(2), of p] Cons.prems(2,3) by simp
  qed
qed

lemma find_round_spec:
  assumes L: "linked_to (cells (snodes m)) (as @ p # bs @ ys) []" and i: "i < ehgt p"
    and v: "\<forall>e\<in>set bs. evalue e < v" "\<forall>e\<in>set ys. \<not> evalue e < v" and stop: "\<And>x. stop x v \<Longrightarrow> \<not> x < v"
  shows "find_round stop m v (int i) (Some (eaddr p)) =
    Some (Some (eaddr (last (p # above i bs))), succ_at i ys)"
proof -
  have g: "get_forward m (Some (eaddr p)) (int i) = Some (succ_at i (bs @ ys))"
    using get_forward_ok [OF linked_split [OF L] i] by simp
  have L2: "linked_to (cells (snodes m)) (bs @ ys) []" using L by (simp add: linked_append)
  note w = walk_less_spec [OF L2 v, of i p]
  show ?thesis
  proof (cases "succ_at i (bs @ ys)")
    case None
    then have "walk_less m (int i) v (Some (eaddr p)) None = Some (Some (eaddr p), None)"
      by (subst walk_less.simps) simp
    then show ?thesis using g w None by (simp add: find_round_def)
  next
    case (Some q)
    then obtain n where n: "cells (snodes m) q = Some n" using succ_at_node [OF L2] by blast
    have fr: "find_round stop m v (int i) (Some (eaddr p)) = (if stop (svalue n) v
        then Some (Some (eaddr p), Some q) else walk_less m (int i) v (Some (eaddr p)) (Some q))"
      using g Some n by (simp add: find_round_def)
    have "walk_less m (int i) v (Some (eaddr p)) (Some q) = Some (Some (eaddr p), Some q)" if "\<not> svalue n < v"
      using n that by (subst walk_less.simps) simp
    then have "find_round stop m v (int i) (Some (eaddr p)) = walk_less m (int i) v (Some (eaddr p)) (Some q)"
      using fr stop by presburger
    then show ?thesis using w unfolding Some by presburger
  qed
qed

text \<open>The predecessor on level \<open>Suc i\<close>, and what lies between it and \<open>ys\<close>.\<close>

lemma pred_at_simps [simp]: "pred_at i h [] = h"
  "pred_at i h (x # xs) = (if i < ehgt x then pred_at i x xs else pred_at i h xs)"
  by (simp_all add: pred_at_def)

lemma pred_at_split:
  "\<exists>as bs. h # xs = as @ pred_at i h xs # bs \<and> above i bs = []"
proof (induction xs arbitrary: h)
  case Nil
  show ?case by (intro exI [of _ "[]"]) simp
next
  case (Cons x xs)
  show ?case
  proof (cases "i < ehgt x")
    case True
    obtain as bs p where ab: "x # xs = as @ p # bs" "above i bs = []" "pred_at i x xs = p" using Cons.IH by blast
    have "h # x # xs = (h # as) @ p # bs" using ab(1) by simp
    moreover have "pred_at i h (x # xs) = p" using ab(3) True by simp
    ultimately show ?thesis using ab(2) by blast
  next
    case False
    obtain as bs p where ab: "h # xs = as @ p # bs" "above i bs = []" "pred_at i h xs = p" using Cons.IH by blast
    have q: "pred_at i h (x # xs) = p" using ab(3) False by simp
    show ?thesis
    proof (cases as)
      case Nil
      then have "h # x # xs = [] @ p # (x # bs)" "above i (x # bs) = []" using ab(1,2) False by simp_all
      then show ?thesis using q by blast
    next
      case (Cons a as')
      then have "h # x # xs = (h # x # as') @ p # bs" using ab(1) by simp
      then show ?thesis using q ab(2) by blast
    qed
  qed
qed

lemma pred_at_self_or_above: "pred_at i h xs = h \<or> i < ehgt (pred_at i h xs)"
  by (induction xs arbitrary: h) (auto, metis+)

lemma pred_at_append: "pred_at i h (xs @ x # ys) = (if i < ehgt x then pred_at i x ys else pred_at i h (xs @ ys))"
  by (induction xs arbitrary: h) auto

lemma pred_at_none: "above i xs = [] \<Longrightarrow> pred_at i h xs = h"
  by (simp add: pred_at_def)

text \<open>
  The search loop: from the predecessor on level \<open>k\<close> it finds the predecessors on all lower
  levels, and ends with the first entry of \<open>ys\<close>.
\<close>

lemma find_update_spec:
  assumes L: "linked_to (cells (snodes m)) (h # xs @ ys) []" and hh: "ehgt h = 100"
    and v: "\<forall>e\<in>set xs. evalue e < v" "\<forall>e\<in>set ys. \<not> evalue e < v" and stop: "\<And>x. stop x v \<Longrightarrow> \<not> x < v"
  shows "k \<le> 100 \<Longrightarrow> length upd = 100 \<Longrightarrow>
    \<exists>upd'. find_update k stop m v (Some (eaddr (pred_at k h xs))) q upd =
      Some (upd', if k = 0 then q else succ_at 0 ys) \<and> length upd' = 100 \<and>
    (\<forall>i<k. upd' ! i = Some (Some (eaddr (pred_at i h xs)))) \<and> (\<forall>i\<ge>k. i < 100 \<longrightarrow> upd' ! i = upd ! i)"
proof (induction k arbitrary: q upd)
  case 0
  then show ?case by simp
next
  case (Suc k)
  obtain as bs p where ab: "h # xs = as @ p # bs" "above (Suc k) bs = []" and p: "pred_at (Suc k) h xs = p"
    using pred_at_split by blast
  have kp: "k < ehgt p" using pred_at_self_or_above [of "Suc k" h xs] hh Suc.prems(1) p by auto
  have L2: "linked_to (cells (snodes m)) (as @ p # bs @ ys) []"
  proof -
    have "(h # xs) @ ys = as @ p # bs @ ys" unfolding ab(1) by simp
    moreover have "linked_to (cells (snodes m)) ((h # xs) @ ys) []" using L by simp
    ultimately show ?thesis by (simp only:)
  qed
  have "\<forall>e\<in>set bs. evalue e < v" using ab(1) v(1) by (cases as; auto)
  from find_round_spec [OF L2 kp this v(2), of stop] stop
  have r: "find_round stop m v (int k) (Some (eaddr p)) = Some (Some (eaddr (last (p # above k bs))), succ_at k ys)"
    by blast
  have pk: "last (p # above k bs) = pred_at k h xs"
  proof (cases as)
    case Nil
    then show ?thesis using ab(1) by (simp add: pred_at_def)
  next
    case (Cons a as')
    then have "xs = as' @ p # bs" using ab(1) by simp
    then show ?thesis using kp pred_at_append [of k h as' p bs] by (simp add: pred_at_def)
  qed
  define upd1 where "upd1 = upd[k := Some (Some (eaddr (pred_at k h xs)))]"
  have w: "awrite upd (int k) (Some (Some (eaddr (pred_at k h xs)))) = Some upd1"
    using Suc.prems by (simp add: upd1_def)
  have "length upd1 = 100" "k \<le> 100" using Suc.prems by (simp_all add: upd1_def)
  from Suc.IH [OF this(2,1), of "succ_at k ys"] obtain upd' where
    u: "find_update k stop m v (Some (eaddr (pred_at k h xs))) (succ_at k ys) upd1 =
        Some (upd', if k = 0 then succ_at k ys else succ_at 0 ys)" "length upd' = 100"
      "\<forall>i<k. upd' ! i = Some (Some (eaddr (pred_at i h xs)))" "\<forall>i\<ge>k. i < 100 \<longrightarrow> upd' ! i = upd1 ! i" by blast
  have "find_update (Suc k) stop m v (Some (eaddr (pred_at (Suc k) h xs))) q upd = Some (upd', succ_at 0 ys)"
    using r pk w u(1) p by simp
  moreover have "\<forall>i<Suc k. upd' ! i = Some (Some (eaddr (pred_at i h xs)))"
    using u(3,4) Suc.prems by (auto simp: less_Suc_eq upd1_def)
  moreover have "\<forall>i\<ge>Suc k. i < 100 \<longrightarrow> upd' ! i = upd ! i" using u(4) by (simp add: upd1_def)
  ultimately show ?case using u(2) by simp
qed

end
