(* ===== verification/Skiplist_Levels.thy ===== *)
theory Skiplist_Levels
  imports Skiplist_Correct
begin

text \<open>
  The forward pointers seen level by level: \<open>fwd N i\<close> maps an address to its pointer on level
  \<open>i\<close>. Linking a node in or out changes one level at a time, at its predecessor.
\<close>

definition fwd :: "(nat \<rightharpoonup> skiplist_node) \<Rightarrow> nat \<Rightarrow> nat \<Rightarrow> ptr option" where
  "fwd N i a = forward (the (N a)) ! i"

fun level_ok :: "nat \<Rightarrow> (nat \<Rightarrow> ptr option) \<Rightarrow> entry list \<Rightarrow> bool" where
  "level_ok i G [] \<longleftrightarrow> True"
| "level_ok i G (e # es) \<longleftrightarrow> (i < ehgt e \<longrightarrow> G (eaddr e) = Some (succ_at i es)) \<and> level_ok i G es"

definition static_ok :: "(nat \<rightharpoonup> skiplist_node) \<Rightarrow> entry \<Rightarrow> bool" where
  "static_ok N e \<longleftrightarrow> (\<exists>n. N (eaddr e) = Some n \<and> svalue n = evalue e \<and> skey n = ekey e \<and>
     length (forward n) = Suc (ehgt e) \<and> 0 < ehgt e)"

lemma node_ok_levels:
  "node_ok N e es \<longleftrightarrow> static_ok N e \<and> (\<forall>i<ehgt e. fwd N i (eaddr e) = Some (succ_at i es))"
  by (auto simp: node_ok_def static_ok_def fwd_def)

lemma linked_levels: "linked_to N es [] \<longleftrightarrow> (\<forall>e\<in>set es. static_ok N e) \<and> (\<forall>i. level_ok i (fwd N i) es)"
  by (induction es) (auto simp: node_ok_levels)

lemma level_ok_outside: "level_ok i G es \<Longrightarrow> a \<notin> eaddr ` set es \<Longrightarrow> level_ok i (G(a := x)) es"
  by (induction es) auto

lemma level_ok_skip: "\<not> i < ehgt y \<Longrightarrow> level_ok i G (xs @ y # ys) \<longleftrightarrow> level_ok i G (xs @ ys)"
  by (induction xs) (auto simp: succ_at_append)

lemma level_ok_tail: "level_ok i G (xs @ ys) \<Longrightarrow> level_ok i G ys"
  by (induction xs) auto

lemma pred_at_in: "pred_at i h xs \<in> set (h # xs)"
  by (induction xs arbitrary: h) auto

lemma level_ok_pred: "level_ok i G (h # xs @ ys) \<Longrightarrow> i < ehgt h \<Longrightarrow> G (eaddr (pred_at i h xs)) = Some (succ_at i ys)"
proof (induction xs arbitrary: h)
  case (Cons x xs)
  then show ?case by (cases "i < ehgt x") auto
qed simp

text \<open>Replacing what follows the predecessor.\<close>

lemma level_ok_relink:
  "level_ok i G (h # xs @ ys) \<Longrightarrow> i < ehgt h \<Longrightarrow> distinct (map eaddr (h # xs)) \<Longrightarrow>
   eaddr ` set (h # xs) \<inter> eaddr ` set zs = {} \<Longrightarrow> level_ok i G zs \<Longrightarrow>
   level_ok i (G(eaddr (pred_at i h xs) := Some (succ_at i zs))) (h # xs @ zs)"
proof (induction xs arbitrary: h)
  case Nil
  then have "level_ok i (G(eaddr h := Some (succ_at i zs))) zs" by (intro level_ok_outside) auto
  then show ?case by (simp del: fun_upd_apply add: fun_upd_same)
next
  case (Cons x xs)
  show ?case
  proof (cases "i < ehgt x")
    case True
    define G' where "G' = G(eaddr (pred_at i x xs) := Some (succ_at i zs))"
    have "level_ok i G' (x # xs @ zs)"
      unfolding G'_def using Cons.prems True by (intro Cons.IH) auto
    moreover have "eaddr (pred_at i x xs) \<noteq> eaddr h"
      using Cons.prems(3) pred_at_in [of i x xs] by (metis distinct.simps(2) image_eqI image_set list.map(2))
    then have "G' (eaddr h) = G (eaddr h)" by (simp add: G'_def)
    ultimately have "level_ok i G' (h # (x # xs) @ zs)" using Cons.prems(1) True by simp
    then show ?thesis using True by (simp only: G'_def pred_at_simps if_True)
  next
    case False
    define G' where "G' = G(eaddr (pred_at i h xs) := Some (succ_at i zs))"
    have "level_ok i G' (h # xs @ zs)" unfolding G'_def using Cons.prems False by (intro Cons.IH) auto
    then have "level_ok i G' (h # (x # xs) @ zs)" using False by simp
    then show ?thesis using False by (simp only: G'_def pred_at_simps if_False)
  qed
qed

lemma level_ok_insert:
  assumes "level_ok i G (h # xs @ ys)" "i < ehgt h" "i < ehgt q" "distinct (map eaddr (h # xs @ q # ys))"
  shows "level_ok i (G(eaddr q := Some (succ_at i ys), eaddr (pred_at i h xs) := Some (Some (eaddr q)))) (h # xs @ q # ys)"
proof -
  have a: "level_ok i (G(eaddr q := Some (succ_at i ys))) (h # xs @ ys)"
    using assms(4) by (intro level_ok_outside [OF assms(1)]) auto
  have "level_ok i G ys" using level_ok_tail [of i G "h # xs"] assms(1) by simp
  then have "level_ok i (G(eaddr q := Some (succ_at i ys))) (q # ys)"
    using assms(4) by (auto intro: level_ok_outside)
  from level_ok_relink [OF a assms(2) _ _ this] show ?thesis using assms(3,4) by auto
qed

lemma level_ok_remove:
  assumes "level_ok i G (h # xs @ q # ys)" "i < ehgt h" "distinct (map eaddr (h # xs @ q # ys))"
  shows "level_ok i (G(eaddr (pred_at i h xs) := Some (succ_at i ys))) (h # xs @ ys)"
proof -
  have "level_ok i G ys" using level_ok_tail [of i G "h # xs @ [q]"] assms(1) by simp
  then show ?thesis using level_ok_relink [OF assms(1,2), of ys] assms(3) by auto
qed

section \<open>One assignment to a forward pointer\<close>

lemma set_forward_ok:
  assumes e: "static_ok (cells (snodes m)) e" and i: "i < ehgt e"
  obtains m' where "set_forward m (Some (eaddr e)) (int i) q = Some m'" "slists m' = slists m"
    "\<And>f. static_ok (cells (snodes m')) f \<longleftrightarrow> static_ok (cells (snodes m)) f"
    "\<And>j. fwd (cells (snodes m')) j = (if j = i then (fwd (cells (snodes m)) j)(eaddr e := Some q) else fwd (cells (snodes m)) j)"
    "dom (cells (snodes m')) = dom (cells (snodes m))" "brk (snodes m') = brk (snodes m)" "env (snodes m') = env (snodes m)"
proof -
  obtain n where n: "cells (snodes m) (eaddr e) = Some n" "length (forward n) = Suc (ehgt e)"
    using e by (auto simp: static_ok_def)
  let ?n = "n\<lparr>forward := (forward n)[i := Some q]\<rparr>"
  let ?h = "(snodes m)\<lparr>cells := (cells (snodes m))(eaddr e \<mapsto> ?n)\<rparr>"
  have c: "cells ?h = (cells (snodes m))(eaddr e \<mapsto> ?n)" by simp
  show ?thesis
  proof (rule that [of "m\<lparr>snodes := ?h\<rparr>"])
    show "set_forward m (Some (eaddr e)) (int i) q = Some (m\<lparr>snodes := ?h\<rparr>)"
      using n i by (simp add: set_forward_def set_snode_def store_cell awrite_def)
    show "static_ok (cells (snodes (m\<lparr>snodes := ?h\<rparr>))) f \<longleftrightarrow> static_ok (cells (snodes m)) f" for f
      using n by (auto simp: static_ok_def)
    show "fwd (cells (snodes (m\<lparr>snodes := ?h\<rparr>))) j =
        (if j = i then (fwd (cells (snodes m)) j)(eaddr e := Some q) else fwd (cells (snodes m)) j)" for j
      using n i by (auto simp: fwd_def fun_eq_iff)
    show "dom (cells (snodes (m\<lparr>snodes := ?h\<rparr>))) = dom (cells (snodes m))" using n(1) by auto
  qed simp_all
qed

lemma get_forward_level:
  assumes "static_ok (cells (snodes m)) e" "i < ehgt e"
  shows "get_forward m (Some (eaddr e)) (int i) = fwd (cells (snodes m)) i (eaddr e)"
  using assms by (auto simp: get_forward_def static_ok_def aread_def fwd_def)

section \<open>Linking in and out\<close>

text \<open>What a change of the pointers keeps: the lists, the addresses in use and the allocator.\<close>

definition same_frame :: "slmem \<Rightarrow> slmem \<Rightarrow> bool" where
  "same_frame m m' \<longleftrightarrow> slists m' = slists m \<and> dom (cells (snodes m')) = dom (cells (snodes m)) \<and>
     brk (snodes m') = brk (snodes m) \<and> env (snodes m') = env (snodes m) \<and>
     (\<forall>e. static_ok (cells (snodes m')) e \<longleftrightarrow> static_ok (cells (snodes m)) e)"

lemma same_frame_refl: "same_frame m m"
  by (simp add: same_frame_def)

lemma same_frame_trans: "same_frame m m1 \<Longrightarrow> same_frame m1 m2 \<Longrightarrow> same_frame m m2"
  by (simp add: same_frame_def)

lemma link_in_spec:
  assumes S: "\<forall>e\<in>set (h # xs @ q # ys). static_ok (cells (snodes m)) e"
    and D: "distinct (map eaddr (h # xs @ q # ys))" and H: "ehgt q \<le> ehgt h"
    and U: "length upd = 100" "ehgt q \<le> 100" "\<forall>i<ehgt q. upd ! i = Some (Some (eaddr (pred_at i h xs)))"
    and L: "\<forall>j<i. level_ok j (fwd (cells (snodes m)) j) (h # xs @ q # ys)"
           "\<forall>j\<ge>i. level_ok j (fwd (cells (snodes m)) j) (h # xs @ ys)"
    and k: "i + k = ehgt q"
  shows "\<exists>m'. link_in k (int i) m upd (Some (eaddr q)) = Some m' \<and> same_frame m m' \<and>
    (\<forall>j. level_ok j (fwd (cells (snodes m')) j) (h # xs @ q # ys))"
  using S L k
proof (induction k arbitrary: i m)
  case 0
  have "level_ok j (fwd (cells (snodes m)) j) (h # xs @ q # ys)" for j
  proof (cases "j < i")
    case False
    then have "\<not> j < ehgt q" using 0 by simp
    then show ?thesis using 0 False level_ok_skip [of j q "fwd (cells (snodes m)) j" "h # xs" ys] by simp
  qed (use 0 in simp)
  then show ?case by (simp add: same_frame_refl)
next
  case (Suc k)
  define p where "p = pred_at i h xs"
  have iq: "i < ehgt q" using Suc.prems by simp
  have ip: "i < ehgt p" using pred_at_self_or_above [of i h xs] iq H by (auto simp: p_def)
  have pin: "p \<in> set (h # xs)" unfolding p_def by (rule pred_at_in)
  have sp: "static_ok (cells (snodes m)) p" "static_ok (cells (snodes m)) q" using Suc.prems(1) pin by auto
  have li: "level_ok i (fwd (cells (snodes m)) i) (h # xs @ ys)" using Suc.prems(3) by simp
  have g: "get_forward m (Some (eaddr p)) (int i) = Some (succ_at i ys)"
    using level_ok_pred [OF li] iq H get_forward_level [OF sp(1) ip] by (simp add: p_def)
  obtain m1 where m1: "set_forward m (Some (eaddr q)) (int i) (succ_at i ys) = Some m1" "slists m1 = slists m"
    "\<And>f. static_ok (cells (snodes m1)) f \<longleftrightarrow> static_ok (cells (snodes m)) f"
    "\<And>j. fwd (cells (snodes m1)) j = (if j = i then (fwd (cells (snodes m)) j)(eaddr q := Some (succ_at i ys)) else fwd (cells (snodes m)) j)"
    "dom (cells (snodes m1)) = dom (cells (snodes m))" "brk (snodes m1) = brk (snodes m)" "env (snodes m1) = env (snodes m)"
    using set_forward_ok [OF sp(2) iq, of "succ_at i ys"] by blast
  have sp1: "static_ok (cells (snodes m1)) p" using sp m1(3) by blast
  obtain m2 where m2: "set_forward m1 (Some (eaddr p)) (int i) (Some (eaddr q)) = Some m2" "slists m2 = slists m1"
    "\<And>f. static_ok (cells (snodes m2)) f \<longleftrightarrow> static_ok (cells (snodes m1)) f"
    "\<And>j. fwd (cells (snodes m2)) j = (if j = i then (fwd (cells (snodes m1)) j)(eaddr p := Some (Some (eaddr q))) else fwd (cells (snodes m1)) j)"
    "dom (cells (snodes m2)) = dom (cells (snodes m1))" "brk (snodes m2) = brk (snodes m1)" "env (snodes m2) = env (snodes m1)"
    using set_forward_ok [OF sp1 ip, of "Some (eaddr q)"] by blast
  have f2: "same_frame m m2" using m1 m2 by (simp add: same_frame_def)
  have "level_ok i (fwd (cells (snodes m2)) i) (h # xs @ q # ys)"
    using level_ok_insert [OF li _ iq D] iq H m1(4) m2(4) by (simp add: p_def)
  then have l2: "\<forall>j<Suc i. level_ok j (fwd (cells (snodes m2)) j) (h # xs @ q # ys)"
    using Suc.prems(2) m1(4) m2(4) by (auto simp: less_Suc_eq)
  have l3: "\<forall>j\<ge>Suc i. level_ok j (fwd (cells (snodes m2)) j) (h # xs @ ys)"
    using Suc.prems(3) m1(4) m2(4) by auto
  have s2: "\<forall>e\<in>set (h # xs @ q # ys). static_ok (cells (snodes m2)) e"
    using Suc.prems(1) f2 unfolding same_frame_def by blast
  obtain m' where m': "link_in k (int (Suc i)) m2 upd (Some (eaddr q)) = Some m'" "same_frame m2 m'"
    "\<forall>j. level_ok j (fwd (cells (snodes m')) j) (h # xs @ q # ys)"
    using Suc.IH [OF s2 l2 l3] Suc.prems(4) by auto
  have si: "int (Suc i) = int i + 1" by simp
  have u: "aread upd (int i) = Some (Some (Some (eaddr p)))" using U iq by (simp add: p_def)
  have "link_in (Suc k) (int i) m upd (Some (eaddr q)) = Some m'"
    using u g m1(1) m2(1) m'(1) unfolding si by simp
  then show ?case using m'(2,3) same_frame_trans [OF f2] by blast
qed

lemma unlink_levels_spec:
  assumes S: "\<forall>e\<in>set (h # xs @ q # ys). static_ok (cells (snodes m)) e"
    and D: "distinct (map eaddr (h # xs @ q # ys))" and H: "ehgt h = 100" "i + k \<le> 100"
    and U: "length upd = 100" "\<forall>i<K. upd ! i = Some (Some (eaddr (pred_at i h xs)))"
    and L: "\<forall>j<i. level_ok j (fwd (cells (snodes m)) j) (h # xs @ ys)"
           "\<forall>j\<ge>i. level_ok j (fwd (cells (snodes m)) j) (h # xs @ q # ys)"
    and k: "i + k = K" "ehgt q \<le> K"
  shows "\<exists>m'. unlink k (int i) m upd (Some (eaddr q)) = Some m' \<and> same_frame m m' \<and>
    (\<forall>j. level_ok j (fwd (cells (snodes m')) j) (h # xs @ ys))"
  using S L k H
proof (induction k arbitrary: i m)
  case 0
  have "level_ok j (fwd (cells (snodes m)) j) (h # xs @ ys)" for j
  proof (cases "j < i")
    case False
    then have "\<not> j < ehgt q" using 0 by simp
    then show ?thesis using 0 False level_ok_skip [of j q "fwd (cells (snodes m)) j" "h # xs" ys] by simp
  qed (use 0 in simp)
  then show ?case by (simp add: same_frame_refl)
next
  case (Suc k)
  define p where "p = pred_at i h xs"
  have i100: "i < 100" "i < K" using Suc.prems by simp_all
  have ip: "i < ehgt p" using pred_at_self_or_above [of i h xs] i100 Suc.prems(6) by (auto simp: p_def)
  have pin: "p \<in> set (h # xs)" unfolding p_def by (rule pred_at_in)
  have sp: "static_ok (cells (snodes m)) p" "static_ok (cells (snodes m)) q" using Suc.prems(1) pin by auto
  have li: "level_ok i (fwd (cells (snodes m)) i) (h # xs @ q # ys)" using Suc.prems(3) by simp
  have g: "get_forward m (Some (eaddr p)) (int i) = Some (succ_at i (q # ys))"
    using level_ok_pred [OF li] i100 Suc.prems(6) get_forward_level [OF sp(1) ip] by (simp add: p_def)
  have u: "aread upd (int i) = Some (Some (Some (eaddr p)))" using U i100 by (simp add: p_def)
  have si: "int (Suc i) = int i + 1" by simp
  obtain m2 where m2: "same_frame m m2" "\<And>j. j \<noteq> i \<Longrightarrow> fwd (cells (snodes m2)) j = fwd (cells (snodes m)) j"
    "level_ok i (fwd (cells (snodes m2)) i) (h # xs @ ys)"
    "unlink (Suc k) (int i) m upd (Some (eaddr q)) = unlink k (int (Suc i)) m2 upd (Some (eaddr q))"
  proof (cases "i < ehgt q")
    case True
    have lq: "level_ok i (fwd (cells (snodes m)) i) (q # ys)" using level_ok_tail [of i "fwd (cells (snodes m)) i" "h # xs" "q # ys"] li by simp
    then have gq: "get_forward m (Some (eaddr q)) (int i) = Some (succ_at i ys)"
      using True get_forward_level [OF sp(2) True] by simp
    obtain m2 where r: "set_forward m (Some (eaddr p)) (int i) (succ_at i ys) = Some m2" "slists m2 = slists m"
      "\<And>f. static_ok (cells (snodes m2)) f \<longleftrightarrow> static_ok (cells (snodes m)) f"
      "\<And>j. fwd (cells (snodes m2)) j = (if j = i then (fwd (cells (snodes m)) j)(eaddr p := Some (succ_at i ys)) else fwd (cells (snodes m)) j)"
      "dom (cells (snodes m2)) = dom (cells (snodes m))" "brk (snodes m2) = brk (snodes m)" "env (snodes m2) = env (snodes m)"
      using set_forward_ok [OF sp(1) ip, of "succ_at i ys"] by blast
    have "unlink (Suc k) (int i) m upd (Some (eaddr q)) = unlink k (int (Suc i)) m2 upd (Some (eaddr q))"
      using u g gq r(1) True unfolding si by simp
    moreover have "level_ok i (fwd (cells (snodes m2)) i) (h # xs @ ys)"
      using level_ok_remove [OF li _ D] i100 Suc.prems(6) r(4) by (simp add: p_def)
    moreover have "same_frame m m2" using r by (simp add: same_frame_def)
    ultimately show ?thesis using that [of m2] r(4) by simp
  next
    case False
    have "succ_at i ys \<noteq> Some (eaddr q)"
    proof
      assume "succ_at i ys = Some (eaddr q)"
      then have "eaddr q \<in> eaddr ` set ys" by (induction ys) (auto split: if_splits)
      then show False using D by auto
    qed
    then have "unlink (Suc k) (int i) m upd (Some (eaddr q)) = unlink k (int (Suc i)) m upd (Some (eaddr q))"
      using u g False unfolding si by simp
    moreover have "level_ok i (fwd (cells (snodes m)) i) (h # xs @ ys)"
      using li level_ok_skip [OF False, of "fwd (cells (snodes m)) i" "h # xs" ys] by simp
    ultimately show ?thesis using that [of m] same_frame_refl by blast
  qed
  have s2: "\<forall>e\<in>set (h # xs @ q # ys). static_ok (cells (snodes m2)) e"
    using Suc.prems(1) m2(1) unfolding same_frame_def by blast
  have l2: "\<forall>j<Suc i. level_ok j (fwd (cells (snodes m2)) j) (h # xs @ ys)"
  proof (intro allI impI)
    fix j assume "j < Suc i"
    then show "level_ok j (fwd (cells (snodes m2)) j) (h # xs @ ys)"
      using m2(2,3) Suc.prems(2) by (cases "j = i") auto
  qed
  have l3: "\<forall>j\<ge>Suc i. level_ok j (fwd (cells (snodes m2)) j) (h # xs @ q # ys)"
    using Suc.prems(3) m2(2) by auto
  obtain m' where m': "unlink k (int (Suc i)) m2 upd (Some (eaddr q)) = Some m'" "same_frame m2 m'"
    "\<forall>j. level_ok j (fwd (cells (snodes m')) j) (h # xs @ ys)"
    using Suc.IH [OF s2 l2 l3] Suc.prems(4-7) by auto
  then show ?case using m2(1,4) same_frame_trans by metis
qed

text \<open>
  The representation invariant of a skip list and the lemmas that insertion, deletion and
  search keep it: the entries are sorted by value, every level is linked through the entries
  that reach it, and \<^const>\<open>level\<close> is the height of the highest entry.
\<close>

definition head_entry :: "nat \<Rightarrow> entry" where
  "head_entry hn = \<lparr>eaddr = hn, ehgt = 100, ekey = 0, evalue = 0\<rparr>"

definition top_level :: "entry list \<Rightarrow> nat" where
  "top_level xs = foldr (\<lambda>e. max (ehgt e)) xs 0"

definition sl_rep :: "slmem \<Rightarrow> nat \<Rightarrow> nat \<Rightarrow> entry list \<Rightarrow> bool" where
  "sl_rep m a hn xs \<longleftrightarrow>
     cells (slists m) a = Some \<lparr>shead = Some hn, level = int (top_level xs)\<rparr> \<and> heap_ok (snodes m) \<and>
     linked_to (cells (snodes m)) (head_entry hn # xs) [] \<and> distinct (map eaddr (head_entry hn # xs)) \<and>
     sorted (map evalue xs) \<and> (\<forall>e\<in>set xs. ehgt e \<le> 100)"

lemma head_entry_simps [simp]: "eaddr (head_entry hn) = hn" "ehgt (head_entry hn) = 100"
  "evalue (head_entry hn) = 0" "ekey (head_entry hn) = 0"
  by (simp_all add: head_entry_def)

lemma top_level_simps [simp]: "top_level [] = 0" "top_level (x # xs) = max (ehgt x) (top_level xs)"
  "top_level (xs @ ys) = max (top_level xs) (top_level ys)"
  by (induction xs) (auto simp: top_level_def)

lemma top_level_above: "above i xs = [] \<longleftrightarrow> top_level xs \<le> i"
  by (induction xs) auto

lemma top_level_bound: "\<forall>e\<in>set xs. ehgt e \<le> b \<Longrightarrow> top_level xs \<le> b"
  by (induction xs) auto

lemma succ_at_None: "succ_at i xs = None \<longleftrightarrow> top_level xs \<le> i"
  by (induction xs) auto

lemma linked_cong:
  "(\<And>e. e \<in> set es \<Longrightarrow> N' (eaddr e) = N (eaddr e)) \<Longrightarrow> linked_to N' es T = linked_to N es T"
  by (induction es) (auto simp: node_ok_def)

lemma split_below:
  assumes "sorted (map evalue xs)"
  shows "\<forall>e\<in>set (takeWhile (\<lambda>e. evalue e < v) xs). evalue e < v"
    "\<forall>e\<in>set (dropWhile (\<lambda>e. evalue e < v) xs). \<not> evalue e < v"
proof -
  show "\<forall>e\<in>set (takeWhile (\<lambda>e. evalue e < v) xs). evalue e < v" by (auto dest: set_takeWhileD)
  show "\<forall>e\<in>set (dropWhile (\<lambda>e. evalue e < v) xs). \<not> evalue e < v" using assms
  proof (induction xs)
    case (Cons x xs)
    show ?case
    proof (cases "evalue x < v")
      case True
      have s: "sorted (map evalue xs)" using Cons.prems by simp
      have d: "dropWhile (\<lambda>e. evalue e < v) (x # xs) = dropWhile (\<lambda>e. evalue e < v) xs" by (simp add: True)
      show ?thesis unfolding d by (rule Cons.IH [OF s])
    next
      case False
      then show ?thesis using Cons.prems by (simp; fastforce)
    qed
  qed simp
qed

section \<open>The search for the predecessors, from the head\<close>

lemma find_update_head:
  assumes R: "sl_rep m a hn (xs @ ys)" and v: "\<forall>e\<in>set xs. evalue e < v" "\<forall>e\<in>set ys. \<not> evalue e < v"
    and stop: "\<And>x. stop x v \<Longrightarrow> \<not> x < v" and K: "K = top_level (xs @ ys)"
  obtains upd where "find_update K stop m v (Some hn) None (replicate (nat SKIPLEVEL) None) = Some (upd, succ_at 0 ys)"
    "length upd = 100" "\<forall>i<K. upd ! i = Some (Some (eaddr (pred_at i (head_entry hn) xs)))"
proof -
  have K100: "K \<le> 100" using R K top_level_bound [of "xs @ ys" 100] by (simp add: sl_rep_def)
  have "above K xs = []" unfolding top_level_above using K by simp
  then have p: "pred_at K (head_entry hn) xs = head_entry hn" by (rule pred_at_none)
  have L: "linked_to (cells (snodes m)) (head_entry hn # xs @ ys) []" using R by (simp add: sl_rep_def)
  have "length (replicate (nat SKIPLEVEL) None) = 100" by (simp add: SKIPLEVEL_def)
  from find_update_spec [OF L _ v, of stop, OF _ stop K100 this, of None] obtain upd where
    u: "find_update K stop m v (Some hn) None (replicate (nat SKIPLEVEL) None) = Some (upd, if K = 0 then None else succ_at 0 ys)"
      "length upd = 100" "\<forall>i<K. upd ! i = Some (Some (eaddr (pred_at i (head_entry hn) xs)))"
    unfolding p by auto
  have "(if K = 0 then None else succ_at 0 ys) = succ_at 0 ys" using K succ_at_None [of 0 ys] by auto
  from u [unfolded this] show ?thesis by (rule that)
qed

section \<open>Insertion\<close>

lemma skiprandomlevel_pos:
  assumes "skiprandomlevel rnd pos k = Some (lv, pos')"
  shows "k \<le> lv \<and> pos < pos'"
proof -
  define P where "P rnd pos k r \<longleftrightarrow> k \<le> fst r \<and> pos < snd r"
    for rnd :: "nat \<Rightarrow> int" and pos :: nat and k :: int and r :: "int \<times> nat"
  have "P rnd pos k (lv, pos')"
  proof (rule skiprandomlevel.raw_induct [OF _ assms])
    fix f :: "(nat \<Rightarrow> int) \<Rightarrow> nat \<Rightarrow> int \<Rightarrow> (int \<times> nat) option" and rnd pos k r
    assume IH: "\<And>rnd pos k r. f rnd pos k = Some r \<Longrightarrow> P rnd pos k r"
      and r: "(if rnd pos mod 100 mod 2 \<noteq> 0 then cint (k + 1) \<bind> f rnd (Suc pos) else Some (k, Suc pos)) = Some r"
    show "P rnd pos k r"
    proof (cases "rnd pos mod 100 mod 2 \<noteq> 0")
      case True
      then have "f rnd (Suc pos) (k + 1) = Some r" using r by (auto simp: cint_def split: if_splits)
      from IH [OF this] show ?thesis by (simp add: P_def)
    next
      case False
      then show ?thesis using r by (auto simp: P_def)
    qed
  qed
  then show ?thesis by (simp add: P_def)
qed

lemma skiprandomlevel_draws:
  "(\<And>i. i < d \<Longrightarrow> odd (rnd (pos + i))) \<Longrightarrow> even (rnd (pos + d)) \<Longrightarrow> int_min \<le> k \<Longrightarrow> k + int d \<le> int_max \<Longrightarrow>
   skiprandomlevel rnd pos k = Some (k + int d, Suc (pos + d))"
proof (induction d arbitrary: pos k)
  case 0
  then show ?case by (subst skiprandomlevel.simps) (simp add: mod_mod_cancel even_iff_mod_2_eq_zero)
next
  case (Suc d)
  have o: "odd (rnd pos)" using Suc.prems(1) [of 0] by simp
  have "skiprandomlevel rnd (Suc pos) (k + 1) = Some (k + 1 + int d, Suc (Suc pos + d))"
    using Suc.prems Suc.prems(1) [of "Suc i" for i] by (intro Suc.IH) auto
  moreover have "cint (k + 1) = Some (k + 1)" using Suc.prems by (simp add: cint_def)
  moreover have "rnd pos mod 100 mod 2 \<noteq> 0" using o by (simp add: mod_mod_cancel odd_iff_mod_2_eq_one)
  ultimately show ?case by (subst skiprandomlevel.simps) simp
qed

lemma raise_level_spec:
  "i + n \<le> length upd \<Longrightarrow> \<exists>upd'. raise_level n (int i) hed upd = Some upd' \<and> length upd' = length upd \<and>
     (\<forall>j<length upd. upd' ! j = (if i \<le> j \<and> j < i + n then Some hed else upd ! j))"
proof (induction n arbitrary: i upd)
  case (Suc n)
  obtain upd' where u: "raise_level n (int (Suc i)) hed (upd[i := Some hed]) = Some upd'" "length upd' = length upd"
    "\<forall>j<length upd. upd' ! j = (if Suc i \<le> j \<and> j < Suc i + n then Some hed else upd[i := Some hed] ! j)"
    using Suc.IH [of "Suc i" "upd[i := Some hed]"] Suc.prems by auto
  have "int (Suc i) = int i + 1" by simp
  then have "raise_level (Suc n) (int i) hed upd = Some upd'" using u(1) Suc.prems by (simp add: add.commute)
  then show ?case using u(2,3) by (auto simp: nth_list_update)
qed auto

lemma raise_level_overflow: "int (length upd) < i + int n \<Longrightarrow> i \<le> int (length upd) \<Longrightarrow> raise_level n i hed upd = None"
proof (induction n arbitrary: i upd)
  case (Suc n)
  show ?case
  proof (cases "awrite upd i (Some hed)")
    case (Some upd')
    then have u: "i < int (length upd)" "length upd' = length upd" by (auto dest: awrite_SomeD)
    have "raise_level n (i + 1) hed upd' = None" using u Suc.prems by (intro Suc.IH) auto
    then show ?thesis using Some by simp
  qed simp
qed simp

lemma slcreatenode_grants:
  assumes "env (snodes m) (brk (snodes m)) = Some n0" "heap_ok (snodes m)" "0 < h"
  obtains m' where "slcreatenode m (int h) k v = Some (Some (brk (snodes m)), m')" "slists m' = slists m"
    "heap_ok (snodes m')" "\<And>x. x \<noteq> brk (snodes m) \<Longrightarrow> cells (snodes m') x = cells (snodes m) x"
    "static_ok (cells (snodes m')) \<lparr>eaddr = brk (snodes m), ehgt = h, ekey = k, evalue = v\<rparr>"
proof -
  let ?b = "brk (snodes m)"
  define n where "n = n0\<lparr>forward := replicate (Suc h) None, skey := k, svalue := v\<rparr>"
  define hp where "hp = (snodes m)\<lparr>cells := (cells (snodes m))(?b \<mapsto> n), brk := Suc ?b\<rparr>"
  have c: "cells hp = (cells (snodes m))(?b \<mapsto> n)" by (simp add: hp_def)
  have "nat (int h + 1) = Suc h" by simp
  then have r: "slcreatenode m (int h) k v = Some (Some ?b, m\<lparr>snodes := hp\<rparr>)"
    using assms(1) by (simp add: slcreatenode_def cmalloc_grants set_snode_def store_def hp_def n_def)
  have "heap_ok hp" using assms(2) by (simp add: hp_def heap_ok_def)
  moreover have "static_ok (cells hp) \<lparr>eaddr = ?b, ehgt = h, ekey = k, evalue = v\<rparr>"
    using assms(3) unfolding c by (simp add: static_ok_def n_def)
  moreover have "x \<noteq> ?b \<Longrightarrow> cells hp x = cells (snodes m) x" for x unfolding c by simp
  ultimately show ?thesis by (intro that [OF r]) simp_all
qed

end
