(* ===== verification/Skiplist_Ops.thy ===== *)
theory Skiplist_Ops
  imports Skiplist_Levels
begin

text \<open>Insertion, deletion, search and printing of a skip list, on the represented entries.\<close>

definition new_entry :: "nat \<Rightarrow> int \<Rightarrow> int \<Rightarrow> int \<Rightarrow> entry" where
  "new_entry b lv k v = \<lparr>eaddr = b, ehgt = nat lv, ekey = k, evalue = v\<rparr>"

lemma new_entry_simps [simp]: "eaddr (new_entry b lv k v) = b" "ehgt (new_entry b lv k v) = nat lv"
  "ekey (new_entry b lv k v) = k" "evalue (new_entry b lv k v) = v"
  by (simp_all add: new_entry_def)

lemma linked_static: "linked_to N es [] \<Longrightarrow> e \<in> set es \<Longrightarrow> static_ok N e"
  by (simp add: linked_levels)

lemma sl_rep_addr:
  assumes "sl_rep m a hn xs" "e \<in> set (head_entry hn # xs)"
  shows "eaddr e < brk (snodes m)"
proof -
  have "static_ok (cells (snodes m)) e" using assms linked_static unfolding sl_rep_def by blast
  then show ?thesis using assms(1) by (auto simp: static_ok_def sl_rep_def dest: heap_okD)
qed

lemma same_frame_heap: "same_frame m m' \<Longrightarrow> heap_ok (snodes m) \<Longrightarrow> heap_ok (snodes m')"
  unfolding same_frame_def heap_ok_def by (metis domIff)

text \<open>The predecessors \<^const>\<open>slinsert\<close> links at, once the levels above the old top are filled in.\<close>

lemma insert_preds:
  assumes R: "sl_rep m a hn (xs @ ys)" and K: "K = top_level (xs @ ys)" and lv: "lv \<le> 100"
    and u: "length upd = 100" "\<forall>i<K. upd ! i = Some (Some (eaddr (pred_at i (head_entry hn) xs)))"
  obtains upd' where "length upd' = 100" "\<forall>i<lv. upd' ! i = Some (Some (eaddr (pred_at i (head_entry hn) xs)))"
    "K < lv \<Longrightarrow> raise_level (lv - K) (int K) (Some hn) upd = Some upd'" "\<not> K < lv \<Longrightarrow> upd' = upd"
proof (cases "K < lv")
  case True
  obtain upd' where r: "raise_level (lv - K) (int K) (Some hn) upd = Some upd'" "length upd' = 100"
    "\<forall>j<100. upd' ! j = (if K \<le> j \<and> j < K + (lv - K) then Some (Some hn) else upd ! j)"
    using raise_level_spec [of K "lv - K" upd "Some hn"] True lv u(1) by auto
  have "upd' ! i = Some (Some (eaddr (pred_at i (head_entry hn) xs)))" if i: "i < lv" for i
  proof (cases "i < K")
    case False
    then have "above i xs = []" unfolding top_level_above using K by simp
    then show ?thesis using r(3) i lv False by (simp add: pred_at_none)
  qed (use r(3) u(2) i lv in simp)
  then show ?thesis using that r True by blast
qed (use that u in auto)

theorem slinsert_spec:
  assumes R: "sl_rep m a hn xs" and rl: "skiprandomlevel rnd pos 1 = Some (lv, pos')" "lv \<le> 100"
    and g: "env (snodes m) (brk (snodes m)) = Some n0"
  shows "\<exists>m'. slinsert rnd pos m (Some a) k v = Some (0, pos', m') \<and>
    sl_rep m' a hn (takeWhile (\<lambda>e. evalue e < v) xs @ new_entry (brk (snodes m)) lv k v # dropWhile (\<lambda>e. evalue e < v) xs)"
proof -
  define us ys where "us = takeWhile (\<lambda>e. evalue e < v) xs" and "ys = dropWhile (\<lambda>e. evalue e < v) xs"
  have xs: "xs = us @ ys" by (simp add: us_def ys_def)
  have so: "sorted (map evalue xs)" using R by (simp add: sl_rep_def)
  have vs: "\<forall>e\<in>set us. evalue e < v" "\<forall>e\<in>set ys. \<not> evalue e < v"
    unfolding us_def ys_def using split_below [OF so] by blast+
  define h q where "h = head_entry hn" and "q = new_entry (brk (snodes m)) lv k v"
  define K L where "K = top_level xs" and "L = nat lv"
  have lv1: "1 \<le> lv" using skiprandomlevel_pos [OF rl(1)] by simp
  have L: "0 < L" "L \<le> 100" "lv = int L" using lv1 rl(2) by (simp_all add: L_def)
  have q: "eaddr q = brk (snodes m)" "ehgt q = L" "evalue q = v" "ekey q = k" by (simp_all add: q_def L_def)
  have R': "sl_rep m a hn (us @ ys)" using R xs by simp
  have sl: "cells (slists m) a = Some \<lparr>shead = Some hn, level = int K\<rparr>" using R by (simp add: sl_rep_def K_def)
  obtain upd where fu: "find_update K (\<ge>) m v (Some hn) None (replicate (nat SKIPLEVEL) None) = Some (upd, succ_at 0 ys)"
    "length upd = 100" "\<forall>i<K. upd ! i = Some (Some (eaddr (pred_at i h us)))"
    using find_update_head [OF R' vs, of "(\<ge>)" K] K_def xs unfolding h_def by auto
  obtain upd' where u: "length upd' = 100" "\<forall>i<L. upd' ! i = Some (Some (eaddr (pred_at i h us)))"
    "K < L \<Longrightarrow> raise_level (L - K) (int K) (Some hn) upd = Some upd'" "\<not> K < L \<Longrightarrow> upd' = upd"
    using insert_preds [OF R' _ L(2) fu(2), of K] fu(3) K_def xs unfolding h_def by metis
  define s1 where "s1 = (if K < L then (slists m)\<lparr>cells := (cells (slists m))(a \<mapsto> \<lparr>shead = Some hn, level = int L\<rparr>)\<rparr> else slists m)"
  have s1: "cells s1 a = Some \<lparr>shead = Some hn, level = int (max K L)\<rparr>" using sl by (simp add: s1_def)
  define m1 where "m1 = m\<lparr>slists := s1\<rparr>"
  have m1: "snodes m1 = snodes m" "slists m1 = s1" by (simp_all add: m1_def)
  have raise: "(if lv > int K then do {
          upd \<leftarrow> raise_level (nat (lv - int K)) (int K) (Some hn) upd;
          m \<leftarrow> set_slist m (Some a) (\<lambda>s. s\<lparr>level := lv\<rparr>);
          Some (upd, m)
        } else Some (upd, m)) = Some (upd', m1)"
  proof (cases "K < L")
    case True
    have "nat (int L - int K) = L - K" by simp
    then show ?thesis using True u(3) sl by (simp add: L(3) set_slist_def store_cell m1_def s1_def)
  next
    case False
    then show ?thesis using u(4) by (simp add: L(3) m1_def s1_def)
  qed
  have hok: "heap_ok (snodes m1)" using R m1 by (simp add: sl_rep_def)
  have gm: "env (snodes m1) (brk (snodes m1)) = Some n0" using g m1 by simp
  obtain m2 where c: "slcreatenode m1 (int L) k v = Some (Some (brk (snodes m1)), m2)" "slists m2 = slists m1"
    "heap_ok (snodes m2)" "\<And>x. x \<noteq> brk (snodes m1) \<Longrightarrow> cells (snodes m2) x = cells (snodes m1) x"
    "static_ok (cells (snodes m2)) \<lparr>eaddr = brk (snodes m1), ehgt = L, ekey = k, evalue = v\<rparr>"
    by (rule slcreatenode_grants [OF gm hok L(1), of k v]) blast
  have ad: "\<forall>e\<in>set (h # xs). eaddr e \<noteq> eaddr q" using sl_rep_addr [OF R] q unfolding h_def by force
  have D: "distinct (map eaddr (h # us @ q # ys))"
  proof -
    have "distinct (map eaddr (h # us @ ys))" using R xs by (simp add: sl_rep_def h_def)
    then show ?thesis using ad xs by auto
  qed
  have L2: "linked_to (cells (snodes m2)) (h # us @ ys) []"
  proof -
    have "linked_to (cells (snodes m)) (h # xs) []" using R by (simp add: sl_rep_def h_def)
    moreover have "linked_to (cells (snodes m2)) (h # xs) [] = linked_to (cells (snodes m)) (h # xs) []"
      by (rule linked_cong) (use c(4) ad q(1) m1 in metis)
    ultimately show ?thesis using xs by simp
  qed
  have lev2: "\<forall>j. level_ok j (fwd (cells (snodes m2)) j) (h # us @ ys)" using L2 unfolding linked_levels by blast
  have "q = \<lparr>eaddr = brk (snodes m1), ehgt = L, ekey = k, evalue = v\<rparr>"
    by (simp add: q_def new_entry_def L_def m1)
  then have S2: "\<forall>e\<in>set (h # us @ q # ys). static_ok (cells (snodes m2)) e"
    using c(5) linked_static [OF L2] by auto
  have H: "ehgt q \<le> ehgt h" "ehgt q \<le> 100" using L(2) q(2) by (simp_all add: h_def)
  obtain m3 where m3: "link_in L 0 m2 upd' (Some (eaddr q)) = Some m3" "same_frame m2 m3"
    "\<forall>j. level_ok j (fwd (cells (snodes m3)) j) (h # us @ q # ys)"
    using link_in_spec [OF S2 D H(1) u(1) H(2), of 0 L] u(2) lev2 q(2) by auto
  have "slinsert rnd pos m (Some a) k v = Some (0, pos', m3)"
  proof -
    have c': "slcreatenode m1 lv k v = Some (Some (eaddr q), m2)" using c(1) q(1) m1(1) L(3) by simp
    have l': "link_in (nat lv) 0 m2 upd' (Some (eaddr q)) = Some m3" using m3(1) by (simp add: L_def)
    show ?thesis using sl fu(1) rl(1) raise c' l' by (simp add: slinsert_def split del: if_split cong del: if_weak_cong)
  qed
  moreover have "sl_rep m3 a hn (us @ q # ys)"
  proof -
    have "\<forall>e\<in>set (h # us @ q # ys). static_ok (cells (snodes m3)) e"
      using S2 m3(2) unfolding same_frame_def by blast
    then have "linked_to (cells (snodes m3)) (h # us @ q # ys) []" using m3(3) unfolding linked_levels by blast
    moreover have "cells (slists m3) a = Some \<lparr>shead = Some hn, level = int (top_level (us @ q # ys))\<rparr>"
    proof -
      have "max K L = top_level (us @ q # ys)" using q(2) xs by (simp add: K_def max_def)
      then show ?thesis using s1 c(2) m1(2) m3(2) by (simp add: same_frame_def)
    qed
    moreover have "sorted (map evalue (us @ q # ys))" using so vs q(3) xs by (force simp: sorted_append)
    moreover have "\<forall>e\<in>set (us @ q # ys). ehgt e \<le> 100" using R xs L(2) q(2) by (auto simp: sl_rep_def)
    ultimately show ?thesis using D same_frame_heap [OF m3(2) c(3)] by (simp add: sl_rep_def h_def)
  qed
  ultimately show ?thesis unfolding us_def ys_def q_def by blast
qed


text \<open>The two ways an insertion is undefined: no memory for the node, or a level above 100.\<close>

theorem slinsert_without_memory:
  assumes R: "sl_rep m a hn xs" and rl: "skiprandomlevel rnd pos 1 = Some (lv, pos')" and g: "env (snodes m) (brk (snodes m)) = None"
  shows "slinsert rnd pos m (Some a) k v = None"
proof -
  have lv: "1 \<le> lv" using skiprandomlevel_pos [OF rl] by simp
  have c: "slcreatenode m' lv k v = Some (None, m'\<lparr>snodes := (snodes m)\<lparr>brk := Suc (brk (snodes m))\<rparr>\<rparr>)"
    if "snodes m' = snodes m" for m' using g that by (simp add: slcreatenode_def cmalloc_fails)
  have l: "link_in (nat lv) 0 m' upd None = None" for m' upd
  proof -
    obtain n where "nat lv = Suc n" using lv by (cases "nat lv") auto
    then show ?thesis by (simp add: set_forward_def bind_eq_None_conv)
  qed
  have s: "set_slist m (Some a) f = Some m' \<Longrightarrow> snodes m' = snodes m" for f m' by (auto simp: set_slist_def)
  show ?thesis unfolding slinsert_def rl by (auto simp: bind_eq_None_conv c l s split: option.splits prod.splits)
qed

theorem slinsert_level_overflow:
  assumes R: "sl_rep m a hn xs" and rl: "skiprandomlevel rnd pos 1 = Some (lv, pos')" "100 < lv"
  shows "slinsert rnd pos m (Some a) k v = None"
proof -
  have so: "sorted (map evalue xs)" using R by (simp add: sl_rep_def)
  let ?us = "takeWhile (\<lambda>e. evalue e < v) xs" and ?ys = "dropWhile (\<lambda>e. evalue e < v) xs"
  have R': "sl_rep m a hn (?us @ ?ys)" using R by simp
  obtain upd where fu: "find_update (top_level xs) (\<ge>) m v (Some hn) None (replicate (nat SKIPLEVEL) None) = Some (upd, succ_at 0 ?ys)"
    "length upd = 100"
    using find_update_head [OF R' split_below [OF so], of "(\<ge>)" "top_level xs"] by auto
  have t: "top_level xs \<le> 100" using R top_level_bound unfolding sl_rep_def by blast
  have "raise_level (nat (lv - int (top_level xs))) (int (top_level xs)) (Some hn) upd = None"
    using rl(2) t fu(2) by (intro raise_level_overflow) auto
  then show ?thesis using R fu(1) rl t by (simp add: slinsert_def sl_rep_def)
qed

section \<open>Deletion\<close>

lemma lower_level_spec:
  assumes "cells (slists m) a = Some s" "shead s = hed" "\<forall>i<k. get_forward m hed (int i) = Some (F i)"
    "\<forall>i<k. F i = None \<longleftrightarrow> L \<le> i"
  shows "\<exists>m'. lower_level k m (Some a) = Some m' \<and> snodes m' = snodes m \<and>
    cells (slists m') a = Some (s\<lparr>level := level s - int (k - L)\<rparr>)"
  using assms
proof (induction k arbitrary: m s)
  case 0
  then show ?case by simp
next
  case (Suc k)
  have g: "get_forward m hed (int k) = Some (F k)" using Suc.prems by simp
  show ?case
  proof (cases "F k = None")
    case True
    let ?m = "m\<lparr>slists := (slists m)\<lparr>cells := (cells (slists m))(a \<mapsto> s\<lparr>level := level s - 1\<rparr>)\<rparr>\<rparr>"
    have gf: "get_forward ?m p i = get_forward m p i" for p i by (simp add: get_forward_def)
    have m1: "cells (slists ?m) a = Some (s\<lparr>level := level s - 1\<rparr>)" "shead (s\<lparr>level := level s - 1\<rparr>) = hed"
      "\<forall>i<k. get_forward ?m hed (int i) = Some (F i)" "\<forall>i<k. F i = None \<longleftrightarrow> L \<le> i"
      using Suc.prems by (simp_all add: gf)
    have "L \<le> k" using True Suc.prems(4) by simp
    then have e: "level s - 1 - int (k - L) = level s - int (Suc k - L)" by simp
    have "lower_level (Suc k) m (Some a) = lower_level k ?m (Some a)"
      using Suc.prems(1,2) g True by (simp add: set_slist_def store_cell)
    moreover obtain m' where "lower_level k ?m (Some a) = Some m'" "snodes m' = snodes ?m"
      "cells (slists m') a = Some (s\<lparr>level := level s - 1, level := level s - 1 - int (k - L)\<rparr>)"
      using Suc.IH [OF m1] by auto
    ultimately show ?thesis using e by (intro exI [of _ m']) simp
  next
    case False
    then have "L > k" using Suc.prems(4) by auto
    moreover obtain y where "F k = Some y" using False by blast
    then have "lower_level (Suc k) m (Some a) = lower_level k m (Some a)" using Suc.prems(1,2) g by simp
    ultimately show ?thesis using Suc.IH [OF Suc.prems(1,2)] Suc.prems(3,4) by simp
  qed
qed

theorem sldelete_spec:
  assumes R: "sl_rep m a hn xs"
  shows "case dropWhile (\<lambda>e. evalue e < v) xs of
      [] \<Rightarrow> sldelete m (Some a) v = None
    | q # ys \<Rightarrow> if evalue q = v then \<exists>m'. sldelete m (Some a) v = Some (0, m') \<and>
          sl_rep m' a hn (takeWhile (\<lambda>e. evalue e < v) xs @ ys) \<and> cells (snodes m') (eaddr q) = None
        else sldelete m (Some a) v = Some (- 1, m)"
proof -
  define us zs where "us = takeWhile (\<lambda>e. evalue e < v) xs" and "zs = dropWhile (\<lambda>e. evalue e < v) xs"
  have xs: "xs = us @ zs" by (simp add: us_def zs_def)
  have so: "sorted (map evalue xs)" using R by (simp add: sl_rep_def)
  have vs: "\<forall>e\<in>set us. evalue e < v" "\<forall>e\<in>set zs. \<not> evalue e < v"
    unfolding us_def zs_def using split_below [OF so] by blast+
  define h K where "h = head_entry hn" and "K = top_level xs"
  have R': "sl_rep m a hn (us @ zs)" using R xs by simp
  have sl: "cells (slists m) a = Some \<lparr>shead = Some hn, level = int K\<rparr>" using R by (simp add: sl_rep_def K_def)
  obtain upd where fu: "find_update K (>) m v (Some hn) None (replicate (nat SKIPLEVEL) None) = Some (upd, succ_at 0 zs)"
    "length upd = 100" "\<forall>i<K. upd ! i = Some (Some (eaddr (pred_at i h us)))"
    using find_update_head [OF R' vs, of "(>)" K] K_def xs unfolding h_def by auto
  have head: "sldelete m (Some a) v = do {
     n \<leftarrow> load (snodes m) (succ_at 0 zs);
     if svalue n = v then do {
       m \<leftarrow> unlink K 0 m upd (succ_at 0 zs);
       h \<leftarrow> cfree (snodes m) (succ_at 0 zs);
       m \<leftarrow> lower_level K (m\<lparr>snodes := h\<rparr>) (Some a);
       Some (0, m)
     } else Some (- 1, m) }"
    using sl fu(1) by (simp add: sldelete_def cong del: if_weak_cong)
  show ?thesis
  proof (cases zs)
    case Nil
    then show ?thesis using head by (simp add: zs_def [symmetric])
  next
    case (Cons q ys)
    have LK: "linked_to (cells (snodes m)) (h # us @ q # ys) []" using R xs Cons by (simp add: sl_rep_def h_def)
    have S: "\<forall>e\<in>set (h # us @ q # ys). static_ok (cells (snodes m)) e" using linked_static [OF LK] by blast
    have lev: "\<forall>j. level_ok j (fwd (cells (snodes m)) j) (h # us @ q # ys)" using LK unfolding linked_levels by blast
    have D: "distinct (map eaddr (h # us @ q # ys))" using R xs Cons by (simp add: sl_rep_def h_def)
    have sq: "static_ok (cells (snodes m)) q" using S by simp
    then obtain n where n: "cells (snodes m) (eaddr q) = Some n" "svalue n = evalue q" "0 < ehgt q"
      by (auto simp: static_ok_def)
    have s0: "succ_at 0 zs = Some (eaddr q)" using Cons n(3) by simp
    show ?thesis
    proof (cases "evalue q = v")
      case False
      then show ?thesis using head n s0 Cons by (simp add: zs_def [symmetric])
    next
      case True
      have K: "K \<le> 100" using R top_level_bound [of xs 100] by (simp add: sl_rep_def K_def)
      have qK: "ehgt q \<le> K" using xs Cons by (simp add: K_def)
      have h100: "ehgt h = 100" by (simp add: h_def)
      obtain m1 where m1: "unlink K 0 m upd (Some (eaddr q)) = Some m1" "same_frame m m1"
        "\<forall>j. level_ok j (fwd (cells (snodes m1)) j) (h # us @ ys)"
        using unlink_levels_spec [OF S D h100 _ fu(2,3) _ _ _ qK, of 0 K] K lev by auto
      have hk1: "heap_ok (snodes m1)" using R same_frame_heap [OF m1(2)] by (simp add: sl_rep_def)
      have S1: "\<forall>e\<in>set (h # us @ q # ys). static_ok (cells (snodes m1)) e" using S m1(2) unfolding same_frame_def by blast
      then obtain n1 where n1: "cells (snodes m1) (eaddr q) = Some n1" by (auto simp: static_ok_def)
      define hp where "hp = (snodes m1)\<lparr>cells := (cells (snodes m1))(eaddr q := None)\<rparr>"
      have hp: "cells hp = (cells (snodes m1))(eaddr q := None)" by (simp add: hp_def)
      define m2 where "m2 = m1\<lparr>snodes := hp\<rparr>"
      have m2: "snodes m2 = hp" "slists m2 = slists m" using m1(2) by (simp_all add: m2_def same_frame_def)
      have "linked_to (cells (snodes m1)) (h # us @ ys) []" using S1 m1(3) unfolding linked_levels by auto
      moreover have "linked_to (cells hp) (h # us @ ys) [] = linked_to (cells (snodes m1)) (h # us @ ys) []"
      proof (rule linked_cong)
        fix e assume "e \<in> set (h # us @ ys)"
        then have "eaddr e \<in> eaddr ` set (h # us @ ys)" by (rule imageI)
        moreover have "eaddr q \<notin> eaddr ` set (h # us @ ys)" using D by auto
        ultimately have "eaddr e \<noteq> eaddr q" by metis
        then show "cells hp (eaddr e) = cells (snodes m1) (eaddr e)" unfolding hp by simp
      qed
      ultimately have L2: "linked_to (cells hp) (h # us @ ys) []" by blast
      have "node_ok (cells (snodes m2)) h (us @ ys)" using L2 m2 by simp
      from get_forward_ok [OF this] have gf: "\<forall>i<K. get_forward m2 (Some hn) (int i) = Some (succ_at i (us @ ys))"
        using K by (simp add: h_def)
      have sl2: "cells (slists m2) a = Some \<lparr>shead = Some hn, level = int K\<rparr>" using sl m2 by simp
      have nn: "\<forall>i<K. succ_at i (us @ ys) = None \<longleftrightarrow> top_level (us @ ys) \<le> i" using succ_at_None by blast
      obtain m3 where m3: "lower_level K m2 (Some a) = Some m3" "snodes m3 = snodes m2"
        "cells (slists m3) a = Some \<lparr>shead = Some hn, level = int K - int (K - top_level (us @ ys))\<rparr>"
        using lower_level_spec [OF sl2 _ gf nn] by auto
      have "sldelete m (Some a) v = Some (0, m3)"
        using head n True s0 m1(1) cfree_cell [OF n1] m3(1) by (simp add: hp_def m2_def)
      moreover have "top_level (us @ ys) \<le> K" using xs Cons by (simp add: K_def)
      then have "cells (slists m3) a = Some \<lparr>shead = Some hn, level = int (top_level (us @ ys))\<rparr>" using m3(3) by simp
      moreover have "heap_ok hp" using hk1 by (simp add: hp_def heap_ok_def)
      moreover have "sorted (map evalue (us @ ys))" using so xs Cons by (simp add: sorted_append)
      moreover have "distinct (map eaddr (h # us @ ys))" using D by auto
      moreover have "\<forall>e\<in>set (us @ ys). ehgt e \<le> 100" using R xs Cons by (simp add: sl_rep_def)
      ultimately have r: "sldelete m (Some a) v = Some (0, m3)" and R3: "sl_rep m3 a hn (us @ ys)"
        unfolding sl_rep_def m3(2) m2(1) h_def [symmetric] using L2 by blast+
      have "cells (snodes m3) (eaddr q) = None" using m3(2) m2(1) hp by simp
      with r R3 have "\<exists>m'. sldelete m (Some a) v = Some (0, m') \<and> sl_rep m' a hn (us @ ys) \<and>
          cells (snodes m') (eaddr q) = None" by blast
      then show ?thesis unfolding zs_def [symmetric] us_def [symmetric] Cons using True by simp
    qed
  qed
qed

text \<open>Creating a skip list, searching it and printing its rows.\<close>

section \<open>Creation\<close>

lemma clear_forward_spec:
  "cells (snodes m) b = Some n \<Longrightarrow> i + k \<le> length (forward n) \<Longrightarrow>
   \<exists>m'. clear_forward k m (Some b) (int i) = Some m' \<and> slists m' = slists m \<and> (heap_ok (snodes m) \<longrightarrow> heap_ok (snodes m')) \<and>
     brk (snodes m') = brk (snodes m) \<and> env (snodes m') = env (snodes m) \<and>
     (\<exists>fs. cells (snodes m') = (cells (snodes m))(b \<mapsto> n\<lparr>forward := fs\<rparr>) \<and> length fs = length (forward n) \<and>
       (\<forall>j<length fs. fs ! j = (if i \<le> j \<and> j < i + k then Some None else forward n ! j)))"
proof (induction k arbitrary: i m n)
  case 0
  have "n\<lparr>forward := forward n\<rparr> = n" by simp
  then have "(cells (snodes m))(b \<mapsto> n\<lparr>forward := forward n\<rparr>) = cells (snodes m)" using 0(1) by (simp add: fun_upd_idem)
  then show ?case by (intro exI [of _ m] conjI exI [of _ "forward n"]) auto
next
  case (Suc k)
  define n1 where "n1 = n\<lparr>forward := (forward n)[i := Some None]\<rparr>"
  define h1 where "h1 = (snodes m)\<lparr>cells := (cells (snodes m))(b \<mapsto> n1)\<rparr>"
  have c1: "cells h1 = (cells (snodes m))(b \<mapsto> n1)" "brk h1 = brk (snodes m)" "env h1 = env (snodes m)" by (simp_all add: h1_def)
  have r: "clear_forward (Suc k) m (Some b) (int i) = clear_forward k (m\<lparr>snodes := h1\<rparr>) (Some b) (int (Suc i))"
    using Suc.prems by (simp add: set_forward_def set_snode_def store_cell h1_def n1_def add.commute)
  have ok: "heap_ok (snodes m) \<longrightarrow> heap_ok h1" using Suc.prems(1) by (auto simp: h1_def intro: heap_ok_upd dest: heap_okD)
  have sm: "snodes (m\<lparr>snodes := h1\<rparr>) = h1" "slists (m\<lparr>snodes := h1\<rparr>) = slists m" by simp_all
  have p: "cells (snodes (m\<lparr>snodes := h1\<rparr>)) b = Some n1" "Suc i + k \<le> length (forward n1)"
    using Suc.prems(2) c1(1) by (simp_all add: n1_def)
  obtain m' fs where m': "clear_forward k (m\<lparr>snodes := h1\<rparr>) (Some b) (int (Suc i)) = Some m'" "slists m' = slists m"
    "heap_ok h1 \<longrightarrow> heap_ok (snodes m')" "brk (snodes m') = brk h1" "env (snodes m') = env h1"
    "cells (snodes m') = (cells h1)(b \<mapsto> n1\<lparr>forward := fs\<rparr>)" "length fs = length (forward n1)"
    "\<forall>j<length fs. fs ! j = (if Suc i \<le> j \<and> j < Suc i + k then Some None else forward n1 ! j)"
    using Suc.IH [OF p] unfolding sm by blast
  have "cells (snodes m') = (cells (snodes m))(b \<mapsto> n\<lparr>forward := fs\<rparr>)" using m'(6) c1(1) by (simp add: n1_def)
  moreover have "\<forall>j<length fs. fs ! j = (if i \<le> j \<and> j < i + Suc k then Some None else forward n ! j)"
    using m'(7,8) Suc.prems(2) by (auto simp: n1_def nth_list_update)
  moreover have "length fs = length (forward n)" using m'(7) by (simp add: n1_def)
  ultimately show ?case unfolding r using m'(1-5) ok c1(2,3) by metis
qed

theorem slcreate_spec:
  assumes "heap_ok (snodes m)" "env (slists m) (brk (slists m)) = Some s0" "env (snodes m) (brk (snodes m)) = Some n0"
  shows "\<exists>m'. slcreate m = Some (Some (brk (slists m)), m') \<and> sl_rep m' (brk (slists m)) (brk (snodes m)) [] \<and>
    brk (snodes m') = Suc (brk (snodes m)) \<and> env (snodes m') = env (snodes m)"
proof -
  let ?a = "brk (slists m)" and ?b = "brk (snodes m)"
  define n where "n = n0\<lparr>forward := replicate 101 None, skey := 0, svalue := 0\<rparr>"
  define hp where "hp = (snodes m)\<lparr>cells := (cells (snodes m))(?b \<mapsto> n), brk := Suc ?b\<rparr>"
  define ls where "ls = (slists m)\<lparr>cells := (cells (slists m))(?a \<mapsto> s0\<lparr>level := 0, shead := Some ?b\<rparr>), brk := Suc ?a\<rparr>"
  have c: "cells hp = (cells (snodes m))(?b \<mapsto> n)" "brk hp = Suc ?b" "env hp = env (snodes m)" "cells ls ?a = Some \<lparr>shead = Some ?b, level = 0\<rparr>"
    by (simp_all add: hp_def ls_def)
  have e: "slcreate m = do { m \<leftarrow> clear_forward 100 (m\<lparr>snodes := hp, slists := ls\<rparr>) (Some ?b) (int 0); Some (Some ?a, m) }"
    using assms(2,3) by (simp add: slcreate_def slcreatenode_def cmalloc_grants set_snode_def set_slist_def store_cell
        SKIPLEVEL_def hp_def ls_def n_def)
  have "cells (snodes (m\<lparr>snodes := hp, slists := ls\<rparr>)) ?b = Some n" "0 + 100 \<le> length (forward n)" using c(1) by (simp_all add: n_def)
  from clear_forward_spec [OF this] obtain m' fs where
    m': "clear_forward 100 (m\<lparr>snodes := hp, slists := ls\<rparr>) (Some ?b) (int 0) = Some m'" "slists m' = ls"
      "heap_ok hp \<longrightarrow> heap_ok (snodes m')" "brk (snodes m') = brk hp" "env (snodes m') = env hp"
      "cells (snodes m') = (cells hp)(?b \<mapsto> n\<lparr>forward := fs\<rparr>)" "length fs = length (forward n)"
      "\<forall>j<length fs. fs ! j = (if 0 \<le> j \<and> j < 0 + 100 then Some None else forward n ! j)" by auto
  have "heap_ok hp" using assms(1) by (simp add: hp_def heap_ok_def)
  moreover have "node_ok (cells (snodes m')) (head_entry ?b) []"
    using m'(6-8) by (simp add: node_ok_def n_def)
  ultimately show ?thesis using e m' c by (intro exI [of _ m']) (simp add: sl_rep_def)
qed

section \<open>Search\<close>

lemma search_walk_spec:
  assumes "linked_to (cells (snodes m)) (bs @ ys) []" "\<forall>e\<in>set bs. evalue e < v" "\<forall>e\<in>set ys. v \<le> evalue e"
  shows "search_walk m (int i) v (Some (eaddr p)) (succ_at i (bs @ ys)) = Some (
    case above i ys of y # _ \<Rightarrow> if evalue y = v then (Some (eaddr y), Some (eaddr (last (p # above i bs))))
      else (None, Some (eaddr (last (p # above i bs)))) | [] \<Rightarrow> (None, Some (eaddr (last (p # above i bs)))))"
  using assms
proof (induction bs arbitrary: p)
  case Nil
  show ?case
  proof (cases "above i ys")
    case Nil
    then show ?thesis by (subst search_walk.simps) (simp add: succ_at_def)
  next
    case (Cons y zs)
    then have y: "y \<in> set ys" by (metis filter_is_subset list.set_intros(1) subsetD)
    obtain as bs where "ys = as @ y # bs" using y by (auto dest: split_list)
    then have "node_ok (cells (snodes m)) y bs" using Nil.prems(1) linked_split by force
    then obtain n where "cells (snodes m) (eaddr y) = Some n" "svalue n = evalue y" by (auto simp: node_ok_def)
    moreover have "v \<le> evalue y" using Nil.prems(3) y by blast
    ultimately show ?thesis using Cons by (subst search_walk.simps) (simp add: succ_at_def)
  qed
next
  case (Cons b bs)
  have ok: "node_ok (cells (snodes m)) b (bs @ ys)" "linked_to (cells (snodes m)) (bs @ ys) []"
    using Cons.prems(1) by simp_all
  show ?case
  proof (cases "i < ehgt b")
    case True
    obtain n where n: "cells (snodes m) (eaddr b) = Some n" "svalue n = evalue b"
      using ok(1) by (auto simp: node_ok_def)
    have "search_walk m (int i) v (Some (eaddr p)) (Some (eaddr b)) =
        search_walk m (int i) v (Some (eaddr b)) (succ_at i (bs @ ys))"
      by (subst search_walk.simps) (use n Cons.prems(2) get_forward_ok [OF ok(1) True] in simp)
    moreover have l: "last (p # above i (b # bs)) = last (b # above i bs)" using True by simp
    ultimately show ?thesis unfolding l using Cons.IH [OF ok(2), of b] Cons.prems(2,3) True by simp
  next
    case False
    then have l: "above i (b # bs) = above i bs" "succ_at i ((b # bs) @ ys) = succ_at i (bs @ ys)" by simp_all
    show ?thesis unfolding l using Cons.IH [OF ok(2), of p] Cons.prems(2,3) by simp
  qed
qed

text \<open>From the predecessor on level \<open>k\<close>: found on the highest level below \<open>k\<close> that reaches an equal value.\<close>

lemma search_levels_spec:
  assumes L: "linked_to (cells (snodes m)) (h # xs @ ys) []" and hh: "ehgt h = 100"
    and v: "\<forall>e\<in>set xs. evalue e < v" "\<forall>e\<in>set ys. v \<le> evalue e" and so: "sorted (map evalue ys)"
  shows "k \<le> 100 \<Longrightarrow> \<exists>r. search_levels k m v (Some (eaddr (pred_at k h xs))) = Some r \<and>
    (r = None \<longrightarrow> (\<forall>e\<in>set ys. evalue e = v \<longrightarrow> k = 0)) \<and>
    (\<forall>q. r = Some q \<longrightarrow> (\<exists>e\<in>set ys. eaddr e = q \<and> evalue e = v))"
proof (induction k)
  case 0
  then show ?case by simp
next
  case (Suc k)
  obtain as bs p where ab: "h # xs = as @ p # bs" "above (Suc k) bs = []" and p: "pred_at (Suc k) h xs = p"
    using pred_at_split by blast
  have kp: "k < ehgt p" using pred_at_self_or_above [of "Suc k" h xs] hh Suc.prems(1) p by auto
  have L2: "linked_to (cells (snodes m)) (as @ p # bs @ ys) []"
  proof -
    have "(h # xs) @ ys = as @ p # bs @ ys" unfolding ab(1) by simp
    moreover have "linked_to (cells (snodes m)) ((h # xs) @ ys) []" using L by simp
    ultimately show ?thesis by (simp only:)
  qed
  have vb: "\<forall>e\<in>set bs. evalue e < v" using ab(1) v(1) by (cases as; auto)
  have L3: "linked_to (cells (snodes m)) (bs @ ys) []" using L2 by (simp add: linked_append)
  have g: "get_forward m (Some (eaddr p)) (int k) = Some (succ_at k (bs @ ys))"
    using get_forward_ok [OF linked_split [OF L2] kp] by simp
  have pk: "last (p # above k bs) = pred_at k h xs"
  proof (cases as)
    case Nil
    then show ?thesis using ab(1) by (simp add: pred_at_def)
  next
    case (Cons a as')
    then have "xs = as' @ p # bs" using ab(1) by simp
    then show ?thesis using kp pred_at_append [of k h as' p bs] by (simp add: pred_at_def)
  qed
  obtain r where r: "search_levels k m v (Some (eaddr (pred_at k h xs))) = Some r"
    "r = None \<longrightarrow> (\<forall>e\<in>set ys. evalue e = v \<longrightarrow> k = 0)" "\<forall>q. r = Some q \<longrightarrow> (\<exists>e\<in>set ys. eaddr e = q \<and> evalue e = v)"
    using Suc by auto
  have hgt: "0 < ehgt e" if "e \<in> set ys" for e
  proof -
    have "static_ok (cells (snodes m)) e" using linked_static [OF L3, of e] that by simp
    then show ?thesis by (auto simp: static_ok_def)
  qed
  have w: "search_walk m (int k) v (Some (eaddr p)) (succ_at k (bs @ ys)) = Some (
    case above k ys of y # _ \<Rightarrow> if evalue y = v then (Some (eaddr y), Some (eaddr (pred_at k h xs)))
      else (None, Some (eaddr (pred_at k h xs))) | [] \<Rightarrow> (None, Some (eaddr (pred_at k h xs))))"
    using search_walk_spec [OF L3 vb v(2), of k p] unfolding pk .
  have miss: "\<forall>e\<in>set ys. evalue e = v \<longrightarrow> \<not> k < ehgt e" if "\<And>y zs. above k ys = y # zs \<Longrightarrow> evalue y \<noteq> v"
    using so v(2) that
  proof (induction ys)
    case (Cons y ys)
    show ?case
    proof (cases "k < ehgt y")
      case True
      then have "evalue y \<noteq> v" using Cons.prems(3) [of y "above k ys"] by simp
      moreover have "v \<le> evalue y" "\<forall>e\<in>set ys. evalue y \<le> evalue e" using Cons.prems(1,2) by simp_all
      ultimately have "\<forall>e\<in>set (y # ys). evalue e \<noteq> v" by force
      then show ?thesis by blast
    next
      case False
      have a: "above k (y # ys) = above k ys" using False by simp
      have "\<forall>e\<in>set ys. evalue e = v \<longrightarrow> \<not> k < ehgt e"
        by (rule Cons.IH) (use Cons.prems(1,2) Cons.prems(3) [unfolded a] in auto)
      then show ?thesis using False by simp
    qed
  qed simp
  show ?case
  proof (cases "\<exists>y zs. above k ys = y # zs \<and> evalue y = v")
    case True
    then obtain y zs where y: "above k ys = y # zs" "evalue y = v" by blast
    have yin: "y \<in> set ys" using y(1) by (metis filter_is_subset list.set_intros(1) subsetD)
    have "search_levels (Suc k) m v (Some (eaddr p)) = Some (Some (eaddr y))"
    proof (cases "succ_at k (bs @ ys)")
      case None
      then have "k \<ge> top_level (bs @ ys)" by (simp only: succ_at_None)
      then have "above k ys = []" unfolding top_level_above by simp
      then show ?thesis using y(1) by simp
    next
      case (Some q)
      then obtain n where n: "cells (snodes m) q = Some n" using succ_at_node [OF L3] by blast
      have "\<not> svalue n > v"
      proof
        assume "svalue n > v"
        then have "search_walk m (int k) v (Some (eaddr p)) (Some q) = Some (None, Some (eaddr p))"
          using n by (subst search_walk.simps) simp
        then show False using w y by (simp add: Some)
      qed
      then show ?thesis using g Some n w y by simp
    qed
    then show ?thesis using y(2) yin p by auto
  next
    case False
    then have w': "search_walk m (int k) v (Some (eaddr p)) (succ_at k (bs @ ys)) = Some (None, Some (eaddr (pred_at k h xs)))"
      using w by (auto split: list.splits)
    have "search_levels (Suc k) m v (Some (eaddr p)) = Some r"
    proof (cases "succ_at k (bs @ ys)")
      case None
      then have "eaddr (pred_at k h xs) = eaddr p" using w' by (subst (asm) search_walk.simps) simp
      then show ?thesis using None g r(1) by simp
    next
      case (Some q)
      then obtain n where n: "cells (snodes m) q = Some n" using succ_at_node [OF L3] by blast
      show ?thesis
      proof (cases "svalue n > v")
        case True
        then have "eaddr (pred_at k h xs) = eaddr p" using w' n Some by (subst (asm) search_walk.simps) simp
        then show ?thesis using True Some n g r(1) by simp
      next
        case False
        then show ?thesis using g Some n w' r(1) by simp
      qed
    qed
    moreover have "\<forall>e\<in>set ys. evalue e = v \<longrightarrow> k \<noteq> 0" using miss False hgt by fastforce
    ultimately show ?thesis using r(2,3) p by auto
  qed
qed

theorem slsearch_spec:
  assumes R: "sl_rep m a hn xs"
  shows "\<exists>r. slsearch m (Some a) v = Some r \<and> (r = None \<longleftrightarrow> v \<notin> evalue ` set xs) \<and>
    (\<forall>q. r = Some q \<longrightarrow> (\<exists>e\<in>set xs. eaddr e = q \<and> evalue e = v))"
proof -
  define us ys where "us = takeWhile (\<lambda>e. evalue e < v) xs" and "ys = dropWhile (\<lambda>e. evalue e < v) xs"
  have xs: "xs = us @ ys" by (simp add: us_def ys_def)
  have so: "sorted (map evalue xs)" using R by (simp add: sl_rep_def)
  have vs: "\<forall>e\<in>set us. evalue e < v" unfolding us_def using split_below [OF so] by blast
  have "\<forall>e\<in>set ys. \<not> evalue e < v" unfolding ys_def using split_below [OF so] by blast
  then have vy: "\<forall>e\<in>set ys. v \<le> evalue e" by auto
  define h K where "h = head_entry hn" and "K = top_level xs"
  have L: "linked_to (cells (snodes m)) (h # us @ ys) []" using R xs by (simp add: sl_rep_def h_def)
  have K: "K \<le> 100" using R top_level_bound [of xs 100] by (simp add: sl_rep_def K_def)
  have "above K us = []" unfolding top_level_above using xs by (simp add: K_def)
  then have p: "pred_at K h us = h" by (rule pred_at_none)
  have soy: "sorted (map evalue ys)" using so xs by (simp add: sorted_append)
  have h100: "ehgt h = 100" by (simp add: h_def)
  obtain r where r: "search_levels K m v (Some hn) = Some r" "r = None \<longrightarrow> (\<forall>e\<in>set ys. evalue e = v \<longrightarrow> K = 0)"
    "\<forall>q. r = Some q \<longrightarrow> (\<exists>e\<in>set ys. eaddr e = q \<and> evalue e = v)"
    using search_levels_spec [OF L h100 vs vy soy K] unfolding p by (auto simp: h_def)
  have "slsearch m (Some a) v = Some r" using R r(1) by (simp add: slsearch_def sl_rep_def K_def)
  moreover have "K = 0 \<Longrightarrow> xs = []"
  proof -
    assume K0: "K = 0"
    have "static_ok (cells (snodes m)) e" if "e \<in> set xs" for e using linked_static [OF L, of e] that xs by simp
    then have "\<forall>e\<in>set xs. 0 < ehgt e" by (auto simp: static_ok_def)
    moreover have "above 0 xs = []" using K0 top_level_above [of 0 xs] by (simp add: K_def)
    ultimately show "xs = []" by (metis filter_True)
  qed
  moreover have "v \<notin> evalue ` set us" using vs by force
  ultimately show ?thesis using r(2,3) xs by (intro exI [of _ r]) auto
qed

section \<open>Printing\<close>

lemma display_row_spec:
  "linked_to (cells (snodes m)) es [] \<Longrightarrow> display_row m (int i) (succ_at i es) = Some (map evalue (above i es))"
proof (induction es)
  case Nil
  show ?case by (subst display_row.simps) simp
next
  case (Cons e es)
  show ?case
  proof (cases "i < ehgt e")
    case True
    have ok: "node_ok (cells (snodes m)) e es" using Cons.prems by simp
    then obtain n where "cells (snodes m) (eaddr e) = Some n" "svalue n = evalue e" by (auto simp: node_ok_def)
    then show ?thesis using Cons True get_forward_ok [OF ok True] by (simp add: display_row.simps [of m "int i" "Some (eaddr e)"])
  qed (use Cons in simp)
qed

theorem sldisplay_spec:
  assumes R: "sl_rep m a hn xs"
  shows "sldisplay m (Some a) = Some (map (\<lambda>i. map evalue (above i xs)) (rev [0..<top_level xs]))"
proof -
  have L: "linked_to (cells (snodes m)) (head_entry hn # xs) []" using R by (simp add: sl_rep_def)
  have "k \<le> 100 \<Longrightarrow> display_levels k m (Some hn) = Some (map (\<lambda>i. map evalue (above i xs)) (rev [0..<k]))" for k
  proof (induction k)
    case (Suc k)
    have "get_forward m (Some hn) (int k) = Some (succ_at k xs)"
      using get_forward_ok [of m "head_entry hn" xs k] L Suc.prems by simp
    moreover have "linked_to (cells (snodes m)) xs []" using L by simp
    ultimately show ?case using Suc by (simp add: display_row_spec)
  qed simp
  then show ?thesis using R top_level_bound [of xs 100] by (simp add: sldisplay_def sl_rep_def)
qed

end
