(* ===== verification/Double_List.thy ===== *)
theory Double_List
  imports Skiplist
begin

text \<open>
  The circular double list of \<open>skiplist_full_complete.c\<close>: its ring of nodes, insertion and
  printing, and why a deletion leaves it broken.
\<close>

text \<open>\<open>nexts N xs e\<close>: each node of \<open>xs\<close> points on to the one after it, the last one to \<open>e\<close>.\<close>

fun nexts :: "(nat \<rightharpoonup> doublelist_node) \<Rightarrow> nat list \<Rightarrow> nat \<Rightarrow> bool" where
  "nexts N [] e \<longleftrightarrow> True"
| "nexts N (x # xs) e \<longleftrightarrow> (\<exists>n. N x = Some n \<and> dnext n = Some (case xs of [] \<Rightarrow> e | y # _ \<Rightarrow> y)) \<and> nexts N xs e"

fun prevs :: "(nat \<rightharpoonup> doublelist_node) \<Rightarrow> nat \<Rightarrow> nat list \<Rightarrow> bool" where
  "prevs N p [] \<longleftrightarrow> True"
| "prevs N p (x # xs) \<longleftrightarrow> (\<exists>n. N x = Some n \<and> dprev n = Some p) \<and> prevs N x xs"

definition dl_rep :: "dlmem \<Rightarrow> nat \<Rightarrow> nat \<Rightarrow> nat list \<Rightarrow> bool" where
  "dl_rep m a h ns \<longleftrightarrow> (\<exists>l. cells (dlists m) a = Some l \<and> dhead l = Some h) \<and> heap_ok (dnodes m) \<and>
     nexts (cells (dnodes m)) (h # ns) h \<and> prevs (cells (dnodes m)) (last (h # ns)) (h # ns) \<and> distinct (h # ns)"

definition dval :: "dlmem \<Rightarrow> nat \<Rightarrow> int" where
  "dval m x = dvalue (the (cells (dnodes m) x))"

lemma nexts_append: "nexts N (xs @ y # ys) e \<longleftrightarrow> nexts N xs y \<and> nexts N (y # ys) e"
  by (induction xs) (auto split: list.splits)

lemma prevs_append: "prevs N p (xs @ y # ys) \<longleftrightarrow> prevs N p xs \<and> prevs N (last (p # xs)) (y # ys)"
  by (induction xs arbitrary: p) auto

lemma nexts_in: "nexts N xs e \<Longrightarrow> x \<in> set xs \<Longrightarrow> \<exists>n. N x = Some n"
  by (induction xs) auto

lemma nexts_cong:
  "(\<And>x. x \<in> set xs \<Longrightarrow> map_option dnext (N' x) = map_option dnext (N x)) \<Longrightarrow> nexts N' xs e = nexts N xs e"
proof (induction xs)
  case (Cons x xs)
  have "(\<exists>n. N' x = Some n \<and> dnext n = z) = (\<exists>n. N x = Some n \<and> dnext n = z)" for z
    using Cons.prems [of x] by (cases "N x"; cases "N' x") auto
  then show ?case using Cons by simp
qed simp

lemma prevs_cong:
  "(\<And>x. x \<in> set xs \<Longrightarrow> map_option dprev (N' x) = map_option dprev (N x)) \<Longrightarrow> prevs N' p xs = prevs N p xs"
proof (induction xs arbitrary: p)
  case (Cons x xs)
  have "(\<exists>n. N' x = Some n \<and> dprev n = z) = (\<exists>n. N x = Some n \<and> dprev n = z)" for z
    using Cons.prems [of x] by (cases "N x"; cases "N' x") auto
  then show ?case using Cons by simp
qed simp

section \<open>Printing and searching\<close>

lemma ddisplay_chain:
  "nexts (cells (dnodes m)) (x # xs) h \<Longrightarrow> h \<notin> set xs \<Longrightarrow>
   ddisplay_loop m (Some h) (Some x) = Some (map (dval m) xs)"
proof (induction xs arbitrary: x)
  case Nil
  then show ?case by (subst ddisplay_loop.simps) auto
next
  case (Cons y ys)
  then obtain n ny where "cells (dnodes m) x = Some n" "dnext n = Some y" "cells (dnodes m) y = Some ny" by auto
  moreover have "ddisplay_loop m (Some h) (Some y) = Some (map (dval m) ys)" using Cons by simp
  ultimately show ?case using Cons.prems(2) by (subst ddisplay_loop.simps) (auto simp: dval_def)
qed

theorem doubledisplay_spec: "dl_rep m a h ns \<Longrightarrow> doubledisplay m (Some a) = Some (map (dval m) ns)"
  using ddisplay_chain [of m h ns h] by (auto simp: doubledisplay_def dl_rep_def)

text \<open>A walk that reaches a freed node is undefined.\<close>

lemma ddisplay_freed:
  "nexts (cells (dnodes m)) xs q \<Longrightarrow> cells (dnodes m) q = None \<Longrightarrow> h \<notin> set (tl (xs @ [q])) \<Longrightarrow>
   ddisplay_loop m (Some h) (Some (hd (xs @ [q]))) = None"
proof (induction xs)
  case Nil
  then show ?case by (subst ddisplay_loop.simps) simp
next
  case (Cons x xs)
  obtain n where n: "cells (dnodes m) x = Some n" "dnext n = Some (hd (xs @ [q]))"
    using Cons.prems(1) by (cases xs) auto
  have "h \<notin> set (xs @ [q])" using Cons.prems(3) by simp
  then have ne: "hd (xs @ [q]) \<noteq> h" "h \<notin> set (tl (xs @ [q]))" by (cases xs; auto)+
  have "ddisplay_loop m (Some h) (Some (hd (xs @ [q]))) = None"
    using Cons.prems(1,2) ne(2) by (intro Cons.IH) auto
  then show ?case using n ne(1) by (subst ddisplay_loop.simps) (auto simp: bind_eq_None_conv)
qed

text \<open>The search looks at the head and at all nodes but the last.\<close>

lemma dsearch_chain:
  "nexts (cells (dnodes m)) (x # xs) h \<Longrightarrow> h \<notin> set xs \<Longrightarrow>
   dsearch_loop m (Some h) v (Some x) = Some (List.find (\<lambda>y. dval m y = v) (butlast (x # xs)))"
proof (induction xs arbitrary: x)
  case Nil
  then show ?case by (subst dsearch_loop.simps) auto
next
  case (Cons y ys)
  then obtain n where "cells (dnodes m) x = Some n" "dnext n = Some y" by auto
  moreover have "dsearch_loop m (Some h) v (Some y) = Some (List.find (\<lambda>y. dval m y = v) (butlast (y # ys)))"
    using Cons by simp
  ultimately show ?case using Cons.prems(2) by (subst dsearch_loop.simps) (auto simp: dval_def)
qed

theorem doublesearch_spec:
  "dl_rep m a h ns \<Longrightarrow> doublesearch m (Some a) v = Some (List.find (\<lambda>y. dval m y = v) (butlast (h # ns)))"
  using dsearch_chain [of m h ns h v] by (auto simp: doublesearch_def dl_rep_def)

section \<open>Insertion\<close>

theorem doubleinsert_spec:
  assumes R: "dl_rep m a h ns" and g: "env (dnodes m) (brk (dnodes m)) = Some n0"
  shows "\<exists>m'. doubleinsert m (Some a) k v = Some (0, m') \<and> dl_rep m' a h (brk (dnodes m) # ns) \<and>
    map (dval m') (brk (dnodes m) # ns) = v # map (dval m) ns"
proof -
  let ?b = "brk (dnodes m)" and ?N = "cells (dnodes m)"
  obtain l where l: "cells (dlists m) a = Some l" "dhead l = Some h" using R by (auto simp: dl_rep_def)
  have ok: "heap_ok (dnodes m)" and nx: "nexts ?N (h # ns) h" and pv: "prevs ?N (last (h # ns)) (h # ns)"
    and D: "distinct (h # ns)" using R by (simp_all add: dl_rep_def)
  obtain hn where hn: "?N h = Some hn" using nx by auto
  define f where "f = (case ns of [] \<Rightarrow> h | y # _ \<Rightarrow> y)"
  have hf: "dnext hn = Some f" using nx hn by (simp add: f_def)
  have "f \<in> set (h # ns)" by (simp add: f_def split: list.splits)
  then obtain fn where fn: "?N f = Some fn" using nexts_in [OF nx] by blast
  have b: "?N ?b = None" using ok by simp
  then have bn: "?b \<notin> set (h # ns)" using nexts_in [OF nx] by force
  have bh: "?b \<noteq> h" "?b \<noteq> f" using bn \<open>f \<in> set (h # ns)\<close> by auto
  define n where "n = n0\<lparr>dkey := k, dvalue := v, dnext := Some f, dprev := Some h\<rparr>"
  define N1 where "N1 = ?N(?b \<mapsto> n)"
  define N2 where "N2 = N1(f \<mapsto> fn\<lparr>dprev := Some ?b\<rparr>)"
  define N' where "N' = N2(h \<mapsto> (the (N2 h))\<lparr>dnext := Some ?b\<rparr>)"
  have N2h: "\<exists>x. N2 h = Some x \<and> dprev x = (if f = h then Some ?b else dprev hn) \<and> dvalue x = dvalue hn"
    using hn fn bh by (auto simp: N2_def N1_def)
  then obtain x where x: "N2 h = Some x" by blast
  define m' where "m' = m\<lparr>dnodes := (dnodes m)\<lparr>cells := N', brk := Suc ?b\<rparr>\<rparr>"
  have r: "doubleinsert m (Some a) k v = Some (0, m')"
  proof (cases "f = h")
    case True
    then have "fn = hn" "x = hn\<lparr>dprev := Some ?b\<rparr>" using hn fn x bh by (auto simp: N2_def N1_def)
    then show ?thesis using True g l hn hf bh x
      by (simp add: doubleinsert_def cmalloc_grants set_dnode_def store_def m'_def N'_def N2_def N1_def n_def Let_def)
  next
    case False
    then have "x = hn" using hn x bh by (auto simp: N2_def N1_def)
    then show ?thesis using False g l hn hf fn bh x
      by (simp add: doubleinsert_def cmalloc_grants set_dnode_def store_def m'_def N'_def N2_def N1_def n_def Let_def)
  qed
  have c: "cells (dnodes m') = N'" "dlists m' = dlists m" by (simp_all add: m'_def)
  have Nb: "N' ?b = Some n" using bh by (simp add: N'_def N2_def N1_def)
  have Nh: "\<exists>y. N' h = Some y \<and> dnext y = Some ?b \<and> dprev y = (if f = h then Some ?b else dprev hn)"
    using N2h by (auto simp: N'_def)
  have other: "map_option dnext (N' z) = map_option dnext (?N z) \<and> map_option dvalue (N' z) = map_option dvalue (?N z)"
    if "z \<in> set ns" for z
  proof -
    have "z \<noteq> h" "z \<noteq> ?b" using that D bn by auto
    then show ?thesis using fn by (simp add: N'_def N2_def N1_def)
  qed
  have pother: "map_option dprev (N' z) = map_option dprev (?N z)" if "z \<in> set (tl ns)" for z
  proof -
    have "z \<noteq> f" using that D by (cases ns) (auto simp: f_def)
    moreover have "z \<noteq> h" "z \<noteq> ?b" using that D bn by (cases ns; auto)+
    ultimately show ?thesis by (simp add: N'_def N2_def N1_def)
  qed
  have "nexts N' (h # ?b # ns) h"
  proof -
    have "nexts N' ns h" using nx other nexts_cong [of ns N' ?N h] by simp
    moreover have "\<exists>y. N' h = Some y \<and> dnext y = Some ?b" using Nh by blast
    ultimately show ?thesis using Nb by (simp add: n_def f_def)
  qed
  moreover have "prevs N' (last (h # ?b # ns)) (h # ?b # ns)"
  proof (cases ns)
    case Nil
    then have "\<exists>y. N' h = Some y \<and> dprev y = Some ?b" using Nh by (auto simp: f_def)
    then show ?thesis using Nb Nil by (simp add: n_def)
  next
    case (Cons y ys)
    have fy: "f = y" "y \<noteq> h" using Cons D by (simp_all add: f_def)
    then have "\<exists>z. N' y = Some z \<and> dprev z = Some ?b" using bh by (simp add: N'_def N2_def)
    moreover have "prevs N' y ys" using pv pother prevs_cong [of ys N' ?N y] Cons by simp
    moreover have "dprev hn = Some (last (h # ns))" using pv hn by simp
    moreover have "\<exists>w. N' h = Some w \<and> dprev w = dprev hn" using Nh fy by auto
    ultimately show ?thesis using Nb fy Cons by (simp add: n_def)
  qed
  moreover have "heap_ok (dnodes m')"
  proof -
    have "h < ?b" "f < ?b" using heap_okD [OF ok] hn fn by blast+
    then show ?thesis using ok by (auto simp: heap_ok_def m'_def N'_def N2_def N1_def)
  qed
  moreover have "distinct (h # ?b # ns)" using D bn by auto
  ultimately have R': "dl_rep m' a h (?b # ns)" using l c by (simp add: dl_rep_def)
  have mv: "map (dval m') (?b # ns) = v # map (dval m) ns"
  proof -
    have dz: "dval m' z = dval m z" if z: "z \<in> set ns" for z
    proof -
      have "z \<in> set (h # ns)" using z by simp
      then obtain nz where "?N z = Some nz" using nexts_in [OF nx] by blast
      then show ?thesis using other [OF z] c by (auto simp: dval_def)
    qed
    have "map (dval m') ns = map (dval m) ns" by (rule map_cong [OF refl dz])
    moreover have "dval m' ?b = v" using Nb c by (simp add: dval_def n_def)
    ultimately show ?thesis by (simp only: list.map)
  qed
  show ?thesis by (intro exI [of _ m'] conjI r R' mv)
qed

section \<open>Deletion\<close>

lemma find_in: "List.find P xs = Some x \<Longrightarrow> x \<in> set xs"
  by (induction xs) (auto split: if_splits)

text \<open>\<open>free(q)\<close> frees the predecessor of the node found, to which the node before it still points.\<close>

theorem double_delete_spec:
  assumes R: "dl_rep m a h ns"
  shows "case List.find (\<lambda>y. dval m y = v) (butlast (h # ns)) of
      None \<Rightarrow> double_delete m (Some a) v = Some (- 1, m)
    | Some p \<Rightarrow> \<exists>m'. double_delete m (Some a) v = Some (0, m') \<and> (\<exists>n. cells (dnodes m') p = Some n) \<and>
        doubledisplay m' (Some a) = None"
proof (cases "List.find (\<lambda>y. dval m y = v) (butlast (h # ns))")
  case None
  then show ?thesis using doublesearch_spec [OF R] by (simp add: double_delete_def)
next
  case (Some p)
  let ?N = "cells (dnodes m)"
  obtain l where l: "cells (dlists m) a = Some l" "dhead l = Some h" using R by (auto simp: dl_rep_def)
  have nx: "nexts ?N (h # ns) h" and pv: "prevs ?N (last (h # ns)) (h # ns)" and D: "distinct (h # ns)"
    using R by (simp_all add: dl_rep_def)
  have "p \<in> set (butlast (h # ns))" using Some by (rule find_in)
  then have pin: "p \<in> set (h # ns)" and ns: "ns \<noteq> []" by (auto dest: in_set_butlastD split: if_splits)
  then obtain n where n: "?N p = Some n" using nexts_in [OF nx] by blast
  obtain as bs where ab: "h # ns = as @ p # bs" using pin by (metis split_list)
  define q where "q = last (last (h # ns) # as)"
  have qp: "dprev n = Some q" using pv n unfolding ab prevs_append q_def by auto
  have qin: "q \<in> set (h # ns)"
  proof (cases as)
    case (Cons b bs')
    then have "q \<in> set as" by (simp add: q_def)
    then show ?thesis unfolding ab by simp
  next
    case Nil
    then show ?thesis by (simp add: q_def)
  qed
  then obtain qn where qn: "?N q = Some qn" using nexts_in [OF nx] by blast
  have pq: "p \<noteq> q"
  proof (cases as)
    case (Cons b bs')
    then have "q \<in> set as" by (simp add: q_def)
    then show ?thesis using D unfolding ab by auto
  next
    case Nil
    then show ?thesis using D ns ab by (auto simp: q_def)
  qed
  obtain s where s: "dnext n = Some s" "s \<in> set (h # ns)"
  proof -
    have "nexts ?N (p # bs) h" using nx unfolding ab nexts_append by simp
    then show ?thesis using that n ab by (cases bs) (auto intro: list.set_intros)
  qed
  obtain sn where sn: "?N s = Some sn" using nexts_in [OF nx s(2)] by blast
  define N1 where "N1 = ?N(q \<mapsto> qn\<lparr>dnext := Some s\<rparr>)"
  have s1: "\<exists>x. N1 s = Some x" using sn by (simp add: N1_def)
  define N2 where "N2 = N1(s \<mapsto> (the (N1 s))\<lparr>dprev := Some q\<rparr>)"
  define N' where "N' = N2(q := None)"
  define m' where "m' = m\<lparr>dnodes := (dnodes m)\<lparr>cells := N'\<rparr>\<rparr>"
  have c: "cells (dnodes m') = N'" "dlists m' = dlists m" by (simp_all add: m'_def)
  have q2: "\<exists>x. N2 q = Some x" by (simp add: N2_def N1_def)
  have ds: "doublesearch m (Some a) v = Some (Some p)" using doublesearch_spec [OF R, of v] Some by simp
  have r: "double_delete m (Some a) v = Some (0, m')"
    using ds n qp qn s(1) s1 q2 pq
    by (auto simp: double_delete_def set_dnode_def store_def cfree_def m'_def N'_def N2_def N1_def)
  have same: "map_option dnext (N' z) = map_option dnext (?N z)" if "z \<noteq> q" for z
    using that sn by (auto simp: N'_def N2_def N1_def)
  obtain cs ds where cd: "h # ns = cs @ q # ds" using qin by (metis split_list)
  have "nexts ?N cs q" using nx unfolding cd nexts_append by simp
  moreover have "q \<notin> set cs" using D unfolding cd by simp
  moreover have "nexts N' cs q = nexts ?N cs q" if "q \<notin> set cs"
    by (rule nexts_cong) (metis same that)
  ultimately have "nexts N' cs q" by blast
  moreover have "h \<notin> set (tl (cs @ [q]))" "hd (cs @ [q]) = h" using cd D by (cases cs; auto)+
  moreover have "N' q = None" by (simp add: N'_def)
  ultimately have "ddisplay_loop m' (Some h) (Some h) = None" using ddisplay_freed [of m' cs q h] c(1) by simp
  then have "doubledisplay m' (Some a) = None" using l c by (simp add: doubledisplay_def)
  moreover have "\<exists>n. N' p = Some n" using pq n sn by (auto simp: N'_def N2_def N1_def)
  ultimately show ?thesis using Some r c(1) by auto
qed

theorem doublecreate_spec:
  assumes "heap_ok (dnodes m)" "env (dlists m) (brk (dlists m)) = Some l0" "env (dnodes m) (brk (dnodes m)) = Some n0"
  shows "\<exists>m'. doublecreate m = Some (Some (brk (dlists m)), m') \<and> dl_rep m' (brk (dlists m)) (brk (dnodes m)) [] \<and>
    brk (dnodes m') = Suc (brk (dnodes m)) \<and> env (dnodes m') = env (dnodes m)"
  using assms
  by (auto simp: doublecreate_def doublecreatenode_def cmalloc_grants set_dnode_def set_dlist_def store_def
      dl_rep_def heap_ok_def)

end
