(* ===== verification/Skiplist_Theorems.thy ===== *)
theory Skiplist_Theorems
  imports Skiplist_Ops Double_List
begin

text \<open>The properties of the skip list and of the double list beside it, with their witnesses.\<close>

text \<open>
  C26. On a skip list that represents \<open>xs\<close> (sorted by value, every level linked through the entries
  that reach it, \<open>level\<close> the greatest height), \<^const>\<open>slinsert\<close> puts the new entry before the
  first one that is not smaller, at the height it drew (at most 100); \<^const>\<open>sldelete\<close> removes
  and frees the first entry of the value, answers -1 when a bigger value stops it, and is
  undefined (a null dereference) when all values are smaller; \<^const>\<open>slsearch\<close> returns an entry of
  the value exactly when there is one; \<^const>\<open>sldisplay\<close> prints the rows from the top level down.
\<close>
theorem skiplist_refines_sorted_list:
  assumes R: "sl_rep m a hn xs"
  shows "(skiprandomlevel rnd pos 1 = Some (lv, pos') \<longrightarrow> lv \<le> 100 \<longrightarrow> env (snodes m) (brk (snodes m)) = Some n0 \<longrightarrow>
      (\<exists>m'. slinsert rnd pos m (Some a) k v = Some (0, pos', m') \<and> sl_rep m' a hn
        (takeWhile (\<lambda>e. evalue e < v) xs @ new_entry (brk (snodes m)) lv k v # dropWhile (\<lambda>e. evalue e < v) xs))) \<and>
    (case dropWhile (\<lambda>e. evalue e < v) xs of
      [] \<Rightarrow> sldelete m (Some a) v = None
    | q # ys \<Rightarrow> if evalue q = v then \<exists>m'. sldelete m (Some a) v = Some (0, m') \<and>
          sl_rep m' a hn (takeWhile (\<lambda>e. evalue e < v) xs @ ys) \<and> cells (snodes m') (eaddr q) = None
        else sldelete m (Some a) v = Some (- 1, m)) \<and>
    (\<exists>r. slsearch m (Some a) v = Some r \<and> (r = None \<longleftrightarrow> v \<notin> evalue ` set xs) \<and>
      (\<forall>q. r = Some q \<longrightarrow> (\<exists>e\<in>set xs. eaddr e = q \<and> evalue e = v))) \<and>
    sldisplay m (Some a) = Some (map (\<lambda>i. map evalue (filter (\<lambda>e. i < ehgt e) xs)) (rev [0..<top_level xs]))"
  by (intro conjI impI, erule (2) slinsert_spec [OF R], rule sldelete_spec [OF R], rule slsearch_spec [OF R], rule sldisplay_spec [OF R])

definition empty_slmem :: slmem where
  "empty_slmem =
     \<lparr>snodes = \<lparr>cells = Map.empty, brk = 0, env = \<lambda>_. Some \<lparr>skey = 9, svalue = 9, forward = []\<rparr>\<rparr>,
      slists = \<lparr>cells = Map.empty, brk = 0, env = \<lambda>_. Some \<lparr>shead = None, level = 9\<rparr>\<rparr>\<rparr>"

lemma skiplist_refines_sorted_list_witness:
  "\<exists>m1 m2 m3. slcreate empty_slmem = Some (Some 0, m1) \<and>
     slinsert (\<lambda>i. if i = 0 then 1 else 2) 0 m1 (Some 0) 5 7 = Some (0, 2, m2) \<and>
     sldisplay m2 (Some 0) = Some [[7], [7]] \<and> slsearch m2 (Some 0) 7 = Some (Some 1) \<and> slsearch m2 (Some 0) 8 = Some None \<and>
     sldelete m2 (Some 0) 6 = Some (- 1, m2) \<and> sldelete m2 (Some 0) 8 = None \<and>
     sldelete m2 (Some 0) 7 = Some (0, m3) \<and> sldisplay m3 (Some 0) = Some []"
proof -
  note sl_insert = skiplist_refines_sorted_list [THEN conjunct1, rule_format]
    and sl_delete = skiplist_refines_sorted_list [THEN conjunct2, THEN conjunct1]
    and sl_search = skiplist_refines_sorted_list [THEN conjunct2, THEN conjunct2, THEN conjunct1]
    and sl_display = skiplist_refines_sorted_list [THEN conjunct2, THEN conjunct2, THEN conjunct2]
  have e: "heap_ok (snodes empty_slmem)" "env (slists empty_slmem) (brk (slists empty_slmem)) = Some \<lparr>shead = None, level = 9\<rparr>"
    "env (snodes empty_slmem) (brk (snodes empty_slmem)) = Some \<lparr>skey = 9, svalue = 9, forward = []\<rparr>"
    "brk (slists empty_slmem) = 0" "brk (snodes empty_slmem) = 0"
    by (simp_all add: empty_slmem_def heap_ok_def)
  obtain m1 where m1: "slcreate empty_slmem = Some (Some 0, m1)" "sl_rep m1 0 0 []" "brk (snodes m1) = 1"
    "env (snodes m1) = env (snodes empty_slmem)"
    using slcreate_spec [OF e(1-3)] e(4,5) by auto
  have rl: "skiprandomlevel (\<lambda>i. if i = 0 then 1 else 2) 0 1 = Some (2, 2)"
    using skiprandomlevel_draws [of 1 "\<lambda>i. if i = 0 then 1 else 2" 0 1] by (simp add: int_min_def int_max_def)
  have g: "env (snodes m1) (brk (snodes m1)) = Some \<lparr>skey = 9, svalue = 9, forward = []\<rparr>"
    using m1(3,4) by (simp add: empty_slmem_def)
  obtain m2 where m2: "slinsert (\<lambda>i. if i = 0 then 1 else 2) 0 m1 (Some 0) 5 7 = Some (0, 2, m2)"
    "sl_rep m2 0 0 [new_entry 1 2 5 7]"
    using sl_insert [OF m1(2) rl _ g, of 5 7] m1(3) by auto
  obtain m3 where m3: "sldelete m2 (Some 0) 7 = Some (0, m3)" "sl_rep m3 0 0 []"
    using sl_delete [OF m2(2), of 7] by auto
  have u: "[0..<2] = [0, 1 :: nat]" by (simp add: upt_rec)
  have "sldisplay m2 (Some 0) = Some [[7], [7]]" "sldisplay m3 (Some 0) = Some []"
    using sl_display [OF m2(2)] sl_display [OF m3(2)] by (simp_all add: u)
  moreover have "slsearch m2 (Some 0) 7 = Some (Some 1)" "slsearch m2 (Some 0) 8 = Some None"
    using sl_search [OF m2(2), of 7] sl_search [OF m2(2), of 8] by auto
  moreover have "sldelete m2 (Some 0) 6 = Some (- 1, m2)" "sldelete m2 (Some 0) 8 = None"
    using sl_delete [OF m2(2), of 6] sl_delete [OF m2(2), of 8] by auto
  ultimately show ?thesis using m1(1) m2(1) m3(1) by blast
qed

text \<open>
  C27. The double list: \<^const>\<open>doubleinsert\<close> adds at the front and \<^const>\<open>doubledisplay\<close> prints the
  values in order; but \<^const>\<open>doublesearch\<close> is wrong from the start: it tests the head's dummy value and never the last
  node, and \<^const>\<open>double_delete\<close> frees the predecessor of the node it found, not the node: the
  node stays allocated and the next \<^const>\<open>doubledisplay\<close> runs into freed memory.
\<close>
theorem double_delete_breaks_list:
  assumes R: "dl_rep m a h ns"
  shows "doubledisplay m (Some a) = Some (map (dval m) ns) \<and>
    (env (dnodes m) (brk (dnodes m)) = Some n0 \<longrightarrow> (\<exists>m'. doubleinsert m (Some a) k v = Some (0, m') \<and>
      dl_rep m' a h (brk (dnodes m) # ns) \<and> map (dval m') (brk (dnodes m) # ns) = v # map (dval m) ns)) \<and>
    doublesearch m (Some a) v = Some (List.find (\<lambda>y. dval m y = v) (butlast (h # ns))) \<and>
    (case List.find (\<lambda>y. dval m y = v) (butlast (h # ns)) of
      None \<Rightarrow> double_delete m (Some a) v = Some (- 1, m)
    | Some p \<Rightarrow> \<exists>m'. double_delete m (Some a) v = Some (0, m') \<and> (\<exists>n. cells (dnodes m') p = Some n) \<and>
        doubledisplay m' (Some a) = None)"
  using doubledisplay_spec [OF R] doubleinsert_spec [OF R] doublesearch_spec [OF R] double_delete_spec [OF R]
  by blast+

definition empty_dlmem :: dlmem where
  "empty_dlmem =
     \<lparr>dnodes = \<lparr>cells = Map.empty, brk = 0, env = \<lambda>_. Some \<lparr>dkey = 9, dvalue = 9, dnext = None, dprev = None\<rparr>\<rparr>,
      dlists = \<lparr>cells = Map.empty, brk = 0, env = \<lambda>_. Some \<lparr>dhead = None, dummy = 9\<rparr>\<rparr>\<rparr>"

lemma double_delete_breaks_list_witness:
  "\<exists>m1 m2 m3. doublecreate empty_dlmem = Some (Some 0, m1) \<and> doubleinsert m1 (Some 0) 1 7 = Some (0, m2) \<and>
     doubledisplay m2 (Some 0) = Some [7] \<and> double_delete m2 (Some 0) 7 = Some (- 1, m2) \<and>
     double_delete m2 (Some 0) 0 = Some (0, m3) \<and> doubledisplay m3 (Some 0) = None"
proof -
  note dl_display = double_delete_breaks_list [THEN conjunct1]
    and dl_insert = double_delete_breaks_list [THEN conjunct2, THEN conjunct1, rule_format]
    and dl_delete = double_delete_breaks_list [THEN conjunct2, THEN conjunct2, THEN conjunct2]
  define c0 where "c0 = \<lparr>dkey = 9 :: int, dvalue = 9 :: int, dnext = None :: ptr, dprev = None :: ptr\<rparr>"
  define m1 where "m1 = \<lparr>dnodes = \<lparr>cells = [0 \<mapsto> \<lparr>dkey = 0, dvalue = 0, dnext = Some 0, dprev = Some 0\<rparr>], brk = 1, env = \<lambda>_. Some c0\<rparr>,
    dlists = \<lparr>cells = [0 \<mapsto> \<lparr>dhead = Some 0, dummy = 0\<rparr>], brk = 1, env = \<lambda>_. Some \<lparr>dhead = None, dummy = 9\<rparr>\<rparr>\<rparr>"
  have c: "doublecreate empty_dlmem = Some (Some 0, m1)"
    by (simp add: doublecreate_def doublecreatenode_def cmalloc_def set_dnode_def set_dlist_def store_def
        empty_dlmem_def m1_def c0_def)
  have R1: "dl_rep m1 0 0 []" by (auto simp: dl_rep_def m1_def heap_ok_def)
  have g: "env (dnodes m1) (brk (dnodes m1)) = Some c0" and b: "brk (dnodes m1) = 1" by (simp_all add: m1_def)
  obtain m2 where m2: "doubleinsert m1 (Some 0) 1 7 = Some (0, m2)" "dl_rep m2 0 0 [1]" "dval m2 1 = 7"
    using dl_insert [OF R1 g, of 1 7] b by auto
  have "dval m2 0 = 0"
    using m2(1) by (auto simp: doubleinsert_def cmalloc_def set_dnode_def store_def m1_def c0_def dval_def Let_def)
  then show ?thesis
    using c m2 dl_display [OF m2(2)] dl_delete [OF m2(2), of 7]
      dl_delete [OF m2(2), of 0] by auto
qed

end
