(* ===== verification/Link_Lists.thy ===== *)
theory Link_Lists
  imports Linked
begin

text \<open>
  The routines on singly linked lists of \<open>linklist/\<close>, \<open>swap_node_in_pairs.c\<close> and
  \<open>sort/partion_list.c\<close>. All of them relink nodes in place; several hang the list behind a local
  \<open>node dummy\<close>, which lives in the heap from its declaration to the return (\<^const>\<open>clocal\<close>,
  \<^const>\<open>cdrop\<close>). Its contents before the first assignment are arbitrary: the argument \<open>u\<close>.
  Loops over cyclic lists do not end, a null pointer that is followed is undefined: both are
  \<^const>\<open>None\<close>.
\<close>

record lnode =
  lval :: int
  lnext :: ptr

type_synonym lheap = "lnode heap"

definition next_of :: "lheap \<Rightarrow> ptr \<Rightarrow> ptr option" where
  "next_of h p = map_option lnext (load h p)"

definition val_of :: "lheap \<Rightarrow> ptr \<Rightarrow> int option" where
  "val_of h p = map_option lval (load h p)"

definition set_next :: "lheap \<Rightarrow> ptr \<Rightarrow> ptr \<Rightarrow> lheap option" where
  "set_next h p q = store h p (\<lambda>n. n\<lparr>lnext := q\<rparr>)"

text \<open>\<open>return dummy.next;\<close>\<close>

definition return_next :: "lheap \<Rightarrow> nat \<Rightarrow> (ptr \<times> lheap) option" where
  "return_next h d = do { p \<leftarrow> next_of h (Some d); Some (p, cdrop h d) }"

section \<open>Reversing\<close>

text \<open>\<open>while(p)\<close> of \<open>reverseList\<close>, and \<open>while(h)\<close> of \<open>reverse\<close>.\<close>

partial_function (option) reverseList_loop :: "lheap \<Rightarrow> nat \<Rightarrow> ptr \<Rightarrow> lheap option" where
  "reverseList_loop h d p = (if p = None then Some h else do {
     let r = p;
     p \<leftarrow> next_of h p;
     dn \<leftarrow> next_of h (Some d);
     h \<leftarrow> set_next h r dn;
     h \<leftarrow> set_next h (Some d) r;
     reverseList_loop h d p
   })"

definition reverseList :: "lnode \<Rightarrow> lheap \<Rightarrow> ptr \<Rightarrow> (ptr \<times> lheap) option" where
  "reverseList u h hed = (if hed = None then Some (None, h) else (let (d, h) = clocal h u in do {
     h \<leftarrow> set_next h (Some d) None;
     h \<leftarrow> reverseList_loop h d hed;
     return_next h d
   }))"

partial_function (option) reverse_loop :: "lheap \<Rightarrow> nat \<Rightarrow> ptr \<Rightarrow> lheap option" where
  "reverse_loop m d h = (if h = None then Some m else do {
     r \<leftarrow> next_of m h;
     dn \<leftarrow> next_of m (Some d);
     m \<leftarrow> set_next m h dn;
     m \<leftarrow> set_next m (Some d) h;
     reverse_loop m d r
   })"

definition reverse :: "lnode \<Rightarrow> lheap \<Rightarrow> ptr \<Rightarrow> (ptr \<times> lheap) option" where
  "reverse u m h = (let (d, m) = clocal m u in do {
     m \<leftarrow> set_next m (Some d) None;
     m \<leftarrow> reverse_loop m d h;
     return_next m d
   })"

text \<open>\<open>while (--m)\<close> and \<open>while (n--)\<close> with \<open>p = p->next\<close> as their body.\<close>

partial_function (option) walk_pre :: "lheap \<Rightarrow> int \<Rightarrow> ptr \<Rightarrow> ptr option" where
  "walk_pre h m p = do {
     m \<leftarrow> cint (m - 1);
     if m \<noteq> 0 then do { p \<leftarrow> next_of h p; walk_pre h m p } else Some p
   }"

partial_function (option) walk_post :: "lheap \<Rightarrow> int \<Rightarrow> ptr \<Rightarrow> ptr option" where
  "walk_post h n p = do {
     k \<leftarrow> cint (n - 1);
     if n \<noteq> 0 then do { p \<leftarrow> next_of h p; walk_post h k p } else Some p
   }"

text \<open>\<open>!head||!head->next\<close>\<close>

definition short_list :: "lheap \<Rightarrow> ptr \<Rightarrow> bool option" where
  "short_list h p = (if p = None then Some True else map_option (\<lambda>q. q = None) (next_of h p))"

definition reverseBetween :: "lnode \<Rightarrow> lheap \<Rightarrow> ptr \<Rightarrow> int \<Rightarrow> int \<Rightarrow> (ptr \<times> lheap) option" where
  "reverseBetween u h hed m n = (if m = n then Some (hed, h) else do {
     short \<leftarrow> short_list h hed;
     if short then Some (hed, h) else (let (d, h) = clocal h u in do {
       h \<leftarrow> set_next h (Some d) hed;
       prep \<leftarrow> walk_pre h m (Some d);
       q \<leftarrow> walk_post h n (Some d);
       p \<leftarrow> next_of h prep;
       nextq \<leftarrow> next_of h q;
       let temp = p;
       h \<leftarrow> set_next h q None;
       (r, h) \<leftarrow> reverse u h p;
       h \<leftarrow> set_next h prep r;
       h \<leftarrow> set_next h temp nextq;
       return_next h d
     })
   })"

definition reverseTwo :: "lnode \<Rightarrow> lheap \<Rightarrow> ptr \<Rightarrow> int \<Rightarrow> int \<Rightarrow> (ptr \<times> lheap) option" where
  "reverseTwo u h hed m n = (if m = n then Some (hed, h) else do {
     short \<leftarrow> short_list h hed;
     if short then Some (hed, h) else (let (d, h) = clocal h u in do {
       h \<leftarrow> set_next h (Some d) hed;
       prep \<leftarrow> walk_pre h m (Some d);
       preq \<leftarrow> walk_pre h n (Some d);
       p \<leftarrow> next_of h prep;
       q \<leftarrow> next_of h preq;
       pn \<leftarrow> next_of h p;
       if pn = q then do {
         qn \<leftarrow> next_of h q;
         h \<leftarrow> set_next h p qn;
         h \<leftarrow> set_next h q p;
         h \<leftarrow> set_next h prep q;
         return_next h d
       } else do {
         qn \<leftarrow> next_of h q;
         h \<leftarrow> set_next h preq qn;
         pn \<leftarrow> next_of h p;
         h \<leftarrow> set_next h q pn;
         h \<leftarrow> set_next h prep q;
         qn \<leftarrow> next_of h preq;
         h \<leftarrow> set_next h p qn;
         h \<leftarrow> set_next h preq p;
         return_next h d
       }
     })
   })"

text \<open>\<open>reverslinklist_K_group.c\<close> has the same \<open>reverse\<close>.\<close>

definition k_reverse :: "lnode \<Rightarrow> lheap \<Rightarrow> ptr \<Rightarrow> (ptr \<times> lheap) option" where
  "k_reverse = reverse"

text \<open>
  \<open>while(q&&--n) q=q->next;\<close> In \<open>reverslinklist_K_group.c\<close> the comment beside \<open>p=&dummy\<close> is opened and never closed; the loop below it
  is modelled as it is meant, with the comment ending on its last line.
\<close>

partial_function (option) k_walk :: "lheap \<Rightarrow> ptr \<Rightarrow> int \<Rightarrow> ptr option" where
  "k_walk h q n = (if q = None then Some q else do {
     n \<leftarrow> cint (n - 1);
     if n \<noteq> 0 then do { q \<leftarrow> next_of h q; k_walk h q n } else Some q
   })"

partial_function (option) k_loop :: "lnode \<Rightarrow> lheap \<Rightarrow> int \<Rightarrow> ptr \<Rightarrow> lheap option" where
  "k_loop u h k p = do {
     q \<leftarrow> next_of h p;
     if q = None then Some h
     else do {
       q \<leftarrow> k_walk h q k;
       if q = None then Some h
       else do {
         temp \<leftarrow> next_of h p;
         nextq \<leftarrow> next_of h q;
         h \<leftarrow> set_next h q None;
         r \<leftarrow> next_of h p;
         (r, h) \<leftarrow> k_reverse u h r;
         h \<leftarrow> set_next h p r;
         h \<leftarrow> set_next h temp nextq;
         k_loop u h k temp
       }
     }
   }"

definition reverseKGroup :: "lnode \<Rightarrow> lheap \<Rightarrow> ptr \<Rightarrow> int \<Rightarrow> (ptr \<times> lheap) option" where
  "reverseKGroup u h hed k = do {
     short \<leftarrow> short_list h hed;
     if short then Some (hed, h) else (let (d, h) = clocal h u in do {
       h \<leftarrow> set_next h (Some d) hed;
       h \<leftarrow> k_loop u h k (Some d);
       return_next h d
     })
   }"

section \<open>Merging and sorting\<close>

text \<open>\<open>mergelist\<close> of \<open>mergeklist.c\<close>: the loop and the final \<open>a\<close>, \<open>b\<close>, \<open>r\<close>.\<close>

partial_function (option) mergelist_loop ::
  "lheap \<Rightarrow> ptr \<Rightarrow> ptr \<Rightarrow> ptr \<Rightarrow> (ptr \<times> ptr \<times> ptr \<times> lheap) option" where
  "mergelist_loop h a b r = (if a = None \<or> b = None then Some (a, b, r, h) else do {
     x \<leftarrow> val_of h a;
     y \<leftarrow> val_of h b;
     (a, b, h) \<leftarrow> (if x < y then do {
          h \<leftarrow> set_next h r a;
          a \<leftarrow> next_of h a;
          Some (a, b, h)
        } else do {
          h \<leftarrow> set_next h r b;
          b \<leftarrow> next_of h b;
          Some (a, b, h)
        });
     r \<leftarrow> next_of h r;
     h \<leftarrow> set_next h r None;
     mergelist_loop h a b r
   })"

definition mergelist :: "lnode \<Rightarrow> lheap \<Rightarrow> ptr \<Rightarrow> ptr \<Rightarrow> (ptr \<times> lheap) option" where
  "mergelist u h a b = (let (d, h) = clocal h u in do {
     h \<leftarrow> set_next h (Some d) None;
     (a, b, r, h) \<leftarrow> mergelist_loop h a b (Some d);
     h \<leftarrow> (if a \<noteq> None \<or> b \<noteq> None then set_next h r (if a \<noteq> None then a else b) else Some h);
     return_next h d
   })"

partial_function (option) mergeKLists :: "lnode \<Rightarrow> lheap \<Rightarrow> ptr list \<Rightarrow> int \<Rightarrow> (ptr \<times> lheap) option" where
  "mergeKLists u h ls sz = (if sz < 1 then Some (None, h)
     else if sz = 1 then do { p \<leftarrow> aread ls 0; Some (p, h) }
     else do {
       (left, h) \<leftarrow> mergeKLists u h ls (sz div 2);
       (right, h) \<leftarrow> mergeKLists u h (drop (nat (sz div 2)) ls) (sz - sz div 2);
       mergelist u h left right
     })"

text \<open>\<open>merge_sort_list.c\<close>\<close>

partial_function (option) mergeList_loop ::
  "lheap \<Rightarrow> ptr \<Rightarrow> ptr \<Rightarrow> ptr \<Rightarrow> (ptr \<times> ptr \<times> ptr \<times> lheap) option" where
  "mergeList_loop h p q r = (if p = None \<or> q = None then Some (p, q, r, h) else do {
     x \<leftarrow> val_of h p;
     y \<leftarrow> val_of h q;
     (u, p, q) \<leftarrow> (if x \<le> y then do { pn \<leftarrow> next_of h p; Some (p, pn, q) }
        else do { qn \<leftarrow> next_of h q; Some (q, p, qn) });
     h \<leftarrow> set_next h r u;
     h \<leftarrow> set_next h u None;
     mergeList_loop h p q u
   })"

definition mergeList :: "lnode \<Rightarrow> lheap \<Rightarrow> ptr \<Rightarrow> ptr \<Rightarrow> (ptr \<times> lheap) option" where
  "mergeList u h p q = (let (d, h) = clocal h u in do {
     h \<leftarrow> set_next h (Some d) None;
     (p, q, r, h) \<leftarrow> mergeList_loop h p q (Some d);
     h \<leftarrow> set_next h r (if p \<noteq> None then p else q);
     return_next h d
   })"

text \<open>\<open>while(fast->next&&fast->next->next)\<close>: the last \<open>slow\<close>.\<close>

partial_function (option) halve :: "lheap \<Rightarrow> ptr \<Rightarrow> ptr \<Rightarrow> ptr option" where
  "halve h fast slow = do {
     f1 \<leftarrow> next_of h fast;
     if f1 = None then Some slow
     else do {
       f2 \<leftarrow> next_of h f1;
       if f2 = None then Some slow
       else do {
         slow \<leftarrow> next_of h slow;
         halve h f2 slow
       }
     }
   }"

partial_function (option) sortList :: "lnode \<Rightarrow> lheap \<Rightarrow> ptr \<Rightarrow> (ptr \<times> lheap) option" where
  "sortList u h hed = do {
     short \<leftarrow> short_list h hed;
     if short then Some (hed, h)
     else do {
       slow \<leftarrow> halve h hed hed;
       fast \<leftarrow> next_of h slow;
       h \<leftarrow> set_next h slow None;
       (slow, h) \<leftarrow> sortList u h hed;
       (fast, h) \<leftarrow> sortList u h fast;
       mergeList u h slow fast
     }
   }"

text \<open>\<open>linksort.c\<close>: \<open>for(q=b;q->next;q=q->next)\<close>, the node to insert behind.\<close>

partial_function (option) sortlist_find :: "lheap \<Rightarrow> ptr \<Rightarrow> ptr \<Rightarrow> ptr option" where
  "sortlist_find h p q = do {
     qn \<leftarrow> next_of h q;
     if qn = None then Some q
     else do {
       x \<leftarrow> val_of h p;
       y \<leftarrow> val_of h qn;
       if x < y then Some q else sortlist_find h p qn
     }
   }"

partial_function (option) sortlist_loop :: "lheap \<Rightarrow> ptr \<Rightarrow> ptr \<Rightarrow> lheap option" where
  "sortlist_loop h b p = (if p = None then Some h else do {
     r \<leftarrow> next_of h p;
     q \<leftarrow> sortlist_find h p b;
     qn \<leftarrow> next_of h q;
     h \<leftarrow> set_next h p qn;
     h \<leftarrow> set_next h q p;
     sortlist_loop h b r
   })"

definition sortlist :: "lnode \<Rightarrow> lheap \<Rightarrow> ptr \<Rightarrow> (ptr \<times> lheap) option" where
  "sortlist u h hed = (let (heada, h) = clocal h u; (headb, h) = clocal h u in do {
     h \<leftarrow> set_next h (Some heada) hed;
     h \<leftarrow> set_next h (Some headb) None;
     p \<leftarrow> next_of h (Some heada);
     h \<leftarrow> sortlist_loop h (Some headb) p;
     r \<leftarrow> next_of h (Some headb);
     Some (r, cdrop (cdrop h headb) heada)
   })"

text \<open>\<open>insert_sort_list.c\<close>: \<open>while(p&&p->val<i->val)\<close>, the last \<open>pre\<close> and \<open>p\<close>.\<close>

partial_function (option) insertnode_find :: "lheap \<Rightarrow> ptr \<Rightarrow> ptr option \<Rightarrow> ptr \<Rightarrow> (ptr option \<times> ptr) option" where
  "insertnode_find h i pre p = (if p = None then Some (pre, p) else do {
     x \<leftarrow> val_of h p;
     y \<leftarrow> val_of h i;
     if x < y then do { r \<leftarrow> next_of h p; insertnode_find h i (Some p) r } else Some (pre, p)
   })"

definition insertnode :: "lheap \<Rightarrow> ptr \<Rightarrow> ptr \<Rightarrow> (ptr \<times> lheap) option" where
  "insertnode h hed i = do {
     (pre, p) \<leftarrow> insertnode_find h i None hed;
     if p = hed then do {
       h \<leftarrow> set_next h i hed;
       Some (i, h)
     } else do {
       h \<leftarrow> set_next h i p;
       pre \<leftarrow> pre;
       h \<leftarrow> set_next h pre i;
       Some (hed, h)
     }
   }"

partial_function (option) insertionSortList_loop :: "lheap \<Rightarrow> ptr \<Rightarrow> ptr \<Rightarrow> (ptr \<times> lheap) option" where
  "insertionSortList_loop h hed p = (if p = None then Some (hed, h) else do {
     q \<leftarrow> next_of h p;
     h \<leftarrow> set_next h p None;
     (hed, h) \<leftarrow> insertnode h hed p;
     insertionSortList_loop h hed q
   })"

definition insertionSortList :: "lheap \<Rightarrow> ptr \<Rightarrow> (ptr \<times> lheap) option" where
  "insertionSortList h hed = do {
     short \<leftarrow> short_list h hed;
     if short then Some (hed, h)
     else do {
       p \<leftarrow> next_of h hed;
       h \<leftarrow> set_next h hed None;
       insertionSortList_loop h hed p
     }
   }"

text \<open>The second \<open>insertionSortList\<close> of the file, called its best code.\<close>

partial_function (option) best_find :: "lheap \<Rightarrow> ptr \<Rightarrow> ptr \<Rightarrow> ptr option" where
  "best_find h cur pre = do {
     pn \<leftarrow> next_of h pre;
     if pn = None then Some pre
     else do {
       x \<leftarrow> val_of h pn;
       y \<leftarrow> val_of h cur;
       if x < y then best_find h cur pn else Some pre
     }
   }"

partial_function (option) best_loop :: "lheap \<Rightarrow> nat \<Rightarrow> ptr \<Rightarrow> lheap option" where
  "best_loop h d cur = (if cur = None then Some h else do {
     nx \<leftarrow> next_of h cur;
     pre \<leftarrow> best_find h cur (Some d);
     pn \<leftarrow> next_of h pre;
     h \<leftarrow> set_next h cur pn;
     h \<leftarrow> set_next h pre cur;
     best_loop h d nx
   })"

definition best_insertionSortList :: "lnode \<Rightarrow> lheap \<Rightarrow> ptr \<Rightarrow> (ptr \<times> lheap) option" where
  "best_insertionSortList u h hed = do {
     short \<leftarrow> short_list h hed;
     if short then Some (hed, h) else (let (d, h) = clocal h u in do {
       h \<leftarrow> set_next h (Some d) None;
       h \<leftarrow> best_loop h d hed;
       return_next h d
     })
   }"

text \<open>
  The remaining list routines: \<open>swap_node_in_pairs.c\<close>, \<open>sort/partion_list.c\<close>,
  \<open>addtwonumbers.c\<close> and \<open>copyrandomlist.c\<close>.
\<close>

section \<open>Swapping in pairs\<close>

text \<open>\<open>while(p&&p->next)\<close>: \<open>h\<close> is unset until the first round, which \<open>flag\<close> records.\<close>

partial_function (option) swapPairs_loop ::
  "lheap \<Rightarrow> ptr \<Rightarrow> ptr \<Rightarrow> ptr option \<Rightarrow> int \<Rightarrow> (ptr option \<times> lheap) option" where
  "swapPairs_loop m p prev h flag = do {
     short \<leftarrow> short_list m p;
     if short then Some (h, m)
     else do {
       q \<leftarrow> next_of m p;
       r \<leftarrow> next_of m q;
       m \<leftarrow> set_next m p r;
       m \<leftarrow> set_next m q p;
       m \<leftarrow> (if prev \<noteq> None then set_next m prev q else Some m);
       swapPairs_loop m r p (if flag = 0 then Some q else h) 1
     }
   }"

definition swapPairs :: "lheap \<Rightarrow> ptr \<Rightarrow> (ptr \<times> lheap) option" where
  "swapPairs m hed = do {
     short \<leftarrow> short_list m hed;
     if short then Some (hed, m)
     else do {
       (h, m) \<leftarrow> swapPairs_loop m hed None None 0;
       h \<leftarrow> h;
       Some (h, m)
     }
   }"

definition swapnode :: "lheap \<Rightarrow> ptr \<Rightarrow> ptr \<Rightarrow> (ptr \<times> lheap) option" where
  "swapnode h a b = do {
     bn \<leftarrow> next_of h b;
     h \<leftarrow> set_next h a bn;
     h \<leftarrow> set_next h b a;
     Some (b, h)
   }"

partial_function (option) best_swapPairs_loop :: "lheap \<Rightarrow> ptr \<Rightarrow> lheap option" where
  "best_swapPairs_loop h p = do {
     a \<leftarrow> next_of h p;
     short \<leftarrow> short_list h a;
     if short then Some h
     else do {
       b \<leftarrow> next_of h a;
       (r, h) \<leftarrow> swapnode h a b;
       h \<leftarrow> set_next h p r;
       p \<leftarrow> next_of h p;
       p \<leftarrow> next_of h p;
       best_swapPairs_loop h p
     }
   }"

definition best_swapPairs :: "lnode \<Rightarrow> lheap \<Rightarrow> ptr \<Rightarrow> (ptr \<times> lheap) option" where
  "best_swapPairs u h hed = do {
     short \<leftarrow> short_list h hed;
     if short then Some (hed, h) else (let (d, h) = clocal h u in do {
       h \<leftarrow> set_next h (Some d) hed;
       h \<leftarrow> best_swapPairs_loop h (Some d);
       return_next h d
     })
   }"

section \<open>Partitioning\<close>

text \<open>\<open>while(p&&p->val<x)\<close> and \<open>while(q&&q->val>=x)\<close>, with the last pointer before.\<close>

partial_function (option) part_less :: "lheap \<Rightarrow> int \<Rightarrow> ptr \<Rightarrow> ptr \<Rightarrow> (ptr \<times> ptr) option" where
  "part_less h x prep p = (if p = None then Some (prep, p) else do {
     v \<leftarrow> val_of h p;
     if v < x then do { r \<leftarrow> next_of h p; part_less h x p r } else Some (prep, p)
   })"

partial_function (option) part_ge :: "lheap \<Rightarrow> int \<Rightarrow> ptr option \<Rightarrow> ptr \<Rightarrow> (ptr option \<times> ptr) option" where
  "part_ge h x preq q = (if q = None then Some (preq, q) else do {
     v \<leftarrow> val_of h q;
     if v \<ge> x then do { r \<leftarrow> next_of h q; part_ge h x (Some q) r } else Some (preq, q)
   })"

partial_function (option) partition_list_loop :: "lheap \<Rightarrow> int \<Rightarrow> ptr \<Rightarrow> ptr option \<Rightarrow> lheap option" where
  "partition_list_loop h x prep preq = do {
     p \<leftarrow> next_of h prep;
     if p = None then Some h
     else do {
       (prep, p) \<leftarrow> part_less h x prep p;
       (preq, q) \<leftarrow> part_ge h x preq p;
       if q = None then Some h
       else do {
         pq \<leftarrow> preq;
         qn \<leftarrow> next_of h q;
         h \<leftarrow> set_next h pq qn;
         pn \<leftarrow> next_of h prep;
         h \<leftarrow> set_next h q pn;
         h \<leftarrow> set_next h prep q;
         prep \<leftarrow> next_of h prep;
         partition_list_loop h x prep preq
       }
     }
   }"

definition partition_list :: "lnode \<Rightarrow> lheap \<Rightarrow> ptr \<Rightarrow> int \<Rightarrow> (ptr \<times> lheap) option" where
  "partition_list u h hed x = do {
     short \<leftarrow> short_list h hed;
     if short then Some (hed, h) else (let (d, h) = clocal h u in do {
       h \<leftarrow> set_next h (Some d) hed;
       h \<leftarrow> partition_list_loop h x (Some d) None;
       return_next h d
     })
   }"

text \<open>The best code: two lists behind two local nodes, \<open>p1\<close> and \<open>p2\<close> their last nodes.\<close>

partial_function (option) best_partition_loop ::
  "lheap \<Rightarrow> int \<Rightarrow> ptr \<Rightarrow> ptr \<Rightarrow> ptr \<Rightarrow> (ptr \<times> ptr \<times> lheap) option" where
  "best_partition_loop h x hed p1 p2 = (if hed = None then Some (p1, p2, h) else do {
     v \<leftarrow> val_of h hed;
     (p1, p2, h) \<leftarrow> (if v < x then do { h \<leftarrow> set_next h p1 hed; Some (hed, p2, h) }
        else do { h \<leftarrow> set_next h p2 hed; Some (p1, hed, h) });
     hed \<leftarrow> next_of h hed;
     best_partition_loop h x hed p1 p2
   })"

definition best_partition :: "lnode \<Rightarrow> lheap \<Rightarrow> ptr \<Rightarrow> int \<Rightarrow> (ptr \<times> lheap) option" where
  "best_partition u h hed x = do {
     short \<leftarrow> short_list h hed;
     if short then Some (hed, h) else (let (d1, h) = clocal h u; (d2, h) = clocal h u in do {
       (p1, p2, h) \<leftarrow> best_partition_loop h x hed (Some d1) (Some d2);
       h \<leftarrow> set_next h p2 None;
       q \<leftarrow> next_of h (Some d2);
       h \<leftarrow> set_next h p1 q;
       r \<leftarrow> next_of h (Some d1);
       Some (r, cdrop (cdrop h d2) d1)
     })
   }"

section \<open>Adding two numbers\<close>

text \<open>
  \<open>while(p||q)\<close>; the result of \<open>malloc\<close> is written through without a test. The final \<open>last\<close>,
  \<open>carry\<close> and what was printed are returned.
\<close>

partial_function (option) add_loop ::
  "lheap \<Rightarrow> ptr \<Rightarrow> ptr \<Rightarrow> int \<Rightarrow> ptr \<Rightarrow> (ptr \<times> int \<times> lheap) option" where
  "add_loop h p q carry lst = (if p = None \<and> q = None then Some (lst, carry, h) else do {
     x \<leftarrow> (if p = None then Some 0 else val_of h p);
     y \<leftarrow> (if q = None then Some 0 else val_of h q);
     s \<leftarrow> cint (x + y);
     dig \<leftarrow> cint (s + carry);
     let (cur, h) = cmalloc h;
     carry \<leftarrow> cdiv dig 10;
     dig \<leftarrow> cmod dig 10;
     h \<leftarrow> store h cur (\<lambda>n. n\<lparr>lval := dig\<rparr>);
     h \<leftarrow> set_next h cur None;
     h \<leftarrow> set_next h lst cur;
     p \<leftarrow> (if p \<noteq> None then next_of h p else Some None);
     q \<leftarrow> (if q \<noteq> None then next_of h q else Some None);
     add_loop h p q carry cur
   })"

definition addTwoNumbers :: "lnode \<Rightarrow> lheap \<Rightarrow> ptr \<Rightarrow> ptr \<Rightarrow> (ptr \<times> lheap) option" where
  "addTwoNumbers u h l1 l2 = (if l1 = None \<or> l2 = None then Some (if l1 = None then l2 else l1, h)
     else (let (d, h) = clocal h u in do {
       h \<leftarrow> set_next h (Some d) None;
       (lst, carry, h) \<leftarrow> add_loop h l1 l2 0 (Some d);
       h \<leftarrow> (if carry \<noteq> 0 then (let (cur, h) = cmalloc h in do {
            h \<leftarrow> store h cur (\<lambda>n. n\<lparr>lval := carry\<rparr>);
            h \<leftarrow> set_next h cur None;
            set_next h lst cur
          }) else Some h);
       return_next h d
     }))"

section \<open>Copying a list with random pointers\<close>

record rnode =
  rval :: int
  rnext :: ptr
  random :: ptr

type_synonym rheap = "rnode heap"

definition rget :: "rheap \<Rightarrow> ptr \<Rightarrow> ptr option" where
  "rget h p = map_option rnext (load h p)"

definition rset :: "rheap \<Rightarrow> ptr \<Rightarrow> ptr \<Rightarrow> rheap option" where
  "rset h p q = store h p (\<lambda>n. n\<lparr>rnext := q\<rparr>)"

partial_function (option) copy_insert :: "rheap \<Rightarrow> ptr \<Rightarrow> rheap option" where
  "copy_insert h p = (if p = None then Some h else do {
     r \<leftarrow> rget h p;
     let (c, h) = cmalloc h;
     h \<leftarrow> rset h p c;
     n \<leftarrow> load h p;
     h \<leftarrow> store h (rnext n) (\<lambda>x. x\<lparr>rval := rval n\<rparr>);
     h \<leftarrow> rset h (rnext n) r;
     h \<leftarrow> store h (rnext n) (\<lambda>x. x\<lparr>random := None\<rparr>);
     copy_insert h r
   })"

partial_function (option) copy_random :: "rheap \<Rightarrow> ptr \<Rightarrow> rheap option" where
  "copy_random h p = (if p = None then Some h else do {
     n \<leftarrow> load h p;
     h \<leftarrow> (if random n \<noteq> None then do {
          t \<leftarrow> rget h (random n);
          store h (rnext n) (\<lambda>x. x\<lparr>random := t\<rparr>)
        } else Some h);
     c \<leftarrow> rget h p;
     p \<leftarrow> rget h c;
     copy_random h p
   })"

partial_function (option) copy_split :: "rheap \<Rightarrow> ptr \<Rightarrow> ptr \<Rightarrow> rheap option" where
  "copy_split h p r = (if p = None then Some h else do {
     i \<leftarrow> rget h p;
     h \<leftarrow> rset h r i;
     inx \<leftarrow> rget h i;
     h \<leftarrow> rset h p inx;
     p \<leftarrow> rget h p;
     copy_split h p i
   })"

definition copyRandomList :: "rnode \<Rightarrow> rheap \<Rightarrow> ptr \<Rightarrow> (ptr \<times> rheap) option" where
  "copyRandomList u h hed = (let (d, h) = clocal h u in do {
     h \<leftarrow> copy_insert h hed;
     h \<leftarrow> copy_random h hed;
     h \<leftarrow> rset h (Some d) None;
     h \<leftarrow> copy_split h hed (Some d);
     p \<leftarrow> rget h (Some d);
     Some (p, cdrop h d)
   })"

end
