(* ===== verification/Link_Tools.thy ===== *)
theory Link_Tools
  imports Link_Lists
begin

text \<open>
  The tools for the list routines: the heap seen through \<open>live\<close>, \<open>vl\<close> and \<open>nxt\<close>, segments
  \<open>ls\<close>, one assignment \<open>setn\<close>, and \<open>relinks S h h'\<close>, which says that \<open>h'\<close> differs from \<open>h\<close> at
  most in the links of the nodes in \<open>S\<close>.
\<close>

definition live :: "lheap \<Rightarrow> nat \<Rightarrow> bool" where
  "live h a \<longleftrightarrow> cells h a \<noteq> None"

definition nxt :: "lheap \<Rightarrow> nat \<Rightarrow> ptr" where
  "nxt h a = lnext (the (cells h a))"

definition vl :: "lheap \<Rightarrow> nat \<Rightarrow> int" where
  "vl h a = lval (the (cells h a))"

definition ls :: "lheap \<Rightarrow> ptr \<Rightarrow> nat list \<Rightarrow> ptr \<Rightarrow> bool" where
  "ls h p as q \<longleftrightarrow> lseg lnext (cells h) p as q"

definition setn :: "lheap \<Rightarrow> nat \<Rightarrow> ptr \<Rightarrow> lheap" where
  "setn h a q = h\<lparr>cells := (cells h)(a := map_option (\<lambda>n. n\<lparr>lnext := q\<rparr>) (cells h a))\<rparr>"

lemma setn_cells: "cells (setn h a q) = (cells h)(a := map_option (\<lambda>n. n\<lparr>lnext := q\<rparr>) (cells h a))"
  "brk (setn h a q) = brk h" "env (setn h a q) = env h"
  by (simp_all add: setn_def)

named_theorems link \<open>equations for the list routines\<close>

lemma ls_Nil [link]: "ls h p [] q \<longleftrightarrow> p = q"
  by (simp add: ls_def)

lemma ls_Cons [link]: "ls h p (a # as) q \<longleftrightarrow> p = Some a \<and> live h a \<and> ls h (nxt h a) as q"
  by (auto simp: ls_def live_def nxt_def)

lemma ls_append: "ls h p (as @ bs) q \<longleftrightarrow> (\<exists>r. ls h p as r \<and> ls h r bs q)"
  by (simp add: ls_def lseg_append)

lemma ls_None: "ls h None as None \<longleftrightarrow> as = []"
  by (simp add: ls_def)

lemma ls_live: "ls h p as q \<Longrightarrow> a \<in> set as \<Longrightarrow> live h a"
  by (auto simp: ls_def live_def dest: lseg_cell)

lemma ls_distinct: "ls h p as None \<Longrightarrow> distinct as"
  unfolding ls_def by (rule lchain_distinct)

lemma live_brk: "heap_ok h \<Longrightarrow> live h a \<Longrightarrow> a < brk h"
  by (auto simp: live_def dest: heap_okD)

lemma set_next_live [link]: "live h a \<Longrightarrow> set_next h (Some a) q = Some (setn h a q)"
  by (auto simp: set_next_def store_def live_def setn_def)

lemma next_of_live [link]: "live h a \<Longrightarrow> next_of h (Some a) = Some (nxt h a)"
  by (auto simp: next_of_def live_def nxt_def)

lemma val_of_live [link]: "live h a \<Longrightarrow> val_of h (Some a) = Some (vl h a)"
  by (auto simp: val_of_def live_def vl_def)

lemma live_setn [link]: "live (setn h a q) b = live h b"
  by (simp add: live_def setn_cells)

lemma vl_setn [link]: "vl (setn h a q) = vl h"
proof
  show "vl (setn h a q) b = vl h b" for b by (cases "cells h a") (simp_all add: vl_def setn_cells)
qed

lemma nxt_setn [link]: "live h a \<Longrightarrow> nxt (setn h a q) b = (if a = b then q else nxt h b)"
  by (auto simp: nxt_def live_def setn_cells)

lemma ls_setn [link]: "a \<notin> set as \<Longrightarrow> ls (setn h a x) p as q = ls h p as q"
  by (simp add: ls_def setn_cells)

lemma null_steps [link]: "next_of h None = None" "val_of h None = None" "set_next h None q = None"
  by (simp_all add: next_of_def val_of_def set_next_def)

lemma short_list_null [link]: "short_list h None = Some True"
  by (simp add: short_list_def)

lemma short_list_live [link]: "live h a \<Longrightarrow> short_list h (Some a) = Some (nxt h a = None)"
  by (simp add: short_list_def link)

section \<open>What a routine leaves alone\<close>

definition relinks :: "nat set \<Rightarrow> lheap \<Rightarrow> lheap \<Rightarrow> bool" where
  "relinks S h h' \<longleftrightarrow> brk h \<le> brk h' \<and> env h' = env h \<and> (heap_ok h \<longrightarrow> heap_ok h') \<and>
     (\<forall>a. a \<notin> S \<longrightarrow> cells h' a = cells h a) \<and> (\<forall>a. live h' a = live h a \<and> vl h' a = vl h a)"

lemma relinks_refl [intro, simp]: "relinks S h h"
  by (simp add: relinks_def)

lemma relinks_trans: "relinks S h h1 \<Longrightarrow> relinks S h1 h2 \<Longrightarrow> relinks S h h2"
  by (auto simp: relinks_def)

lemma relinks_mono: "relinks S h h' \<Longrightarrow> S \<subseteq> T \<Longrightarrow> relinks T h h'"
  by (auto simp: relinks_def)

lemma relinks_setn: "a \<in> S \<Longrightarrow> relinks S h (setn h a q)"
proof -
  assume a: "a \<in> S"
  have "heap_ok (setn h a q)" if "heap_ok h" using that by (auto simp: heap_ok_def setn_cells)
  then show ?thesis using a by (auto simp: relinks_def live_setn vl_setn setn_cells)
qed

lemma relinks_after_setn: "relinks S (setn h a q) h' \<Longrightarrow> a \<in> S \<Longrightarrow> relinks S h h'"
  using relinks_trans relinks_setn by blast

lemma relinks_live: "relinks S h h' \<Longrightarrow> live h' a = live h a"
  by (simp add: relinks_def)

lemma relinks_vl: "relinks S h h' \<Longrightarrow> vl h' = vl h"
  by (auto simp: relinks_def)

lemma setn_same: "live h a \<Longrightarrow> nxt h a = q \<Longrightarrow> setn h a q = h"
  by (auto simp: setn_def live_def nxt_def fun_upd_idem)

lemma relinks_nxt: "relinks S h h' \<Longrightarrow> a \<notin> S \<Longrightarrow> nxt h' a = nxt h a"
  by (simp add: relinks_def nxt_def)

lemma relinks_heap: "relinks S h h' \<Longrightarrow> heap_ok h \<Longrightarrow> heap_ok h'"
  by (simp add: relinks_def)

lemma relinks_ls: "relinks S h h' \<Longrightarrow> set as \<inter> S = {} \<Longrightarrow> ls h' p as q = ls h p as q"
  unfolding ls_def by (rule lseg_cong) (auto simp: relinks_def)

section \<open>Local nodes\<close>

definition loc :: "lheap \<Rightarrow> lnode \<Rightarrow> lheap" where
  "loc h u = h\<lparr>cells := (cells h)(brk h \<mapsto> u), brk := Suc (brk h)\<rparr>"

lemma clocal_loc [link]: "clocal h u = (brk h, loc h u)"
  by (simp add: clocal_def loc_def)

lemma loc_cells: "cells (loc h u) = (cells h)(brk h \<mapsto> u)" "brk (loc h u) = Suc (brk h)" "env (loc h u) = env h"
  by (simp_all add: loc_def)

lemma live_loc [link]: "live (loc h u) a \<longleftrightarrow> a = brk h \<or> live h a"
  by (simp add: live_def loc_cells)

lemma vl_loc: "a \<noteq> brk h \<Longrightarrow> vl (loc h u) a = vl h a"
  by (simp add: vl_def loc_cells)

lemma nxt_loc: "a \<noteq> brk h \<Longrightarrow> nxt (loc h u) a = nxt h a"
  by (simp add: nxt_def loc_cells)

lemma ls_loc: "brk h \<notin> set as \<Longrightarrow> ls (loc h u) p as q = ls h p as q"
  by (simp add: ls_def loc_cells)

lemma heap_ok_loc: "heap_ok h \<Longrightarrow> heap_ok (loc h u)"
  by (simp add: heap_ok_def loc_cells)

lemma fresh_loc: "heap_ok h \<Longrightarrow> ls h p as q \<Longrightarrow> brk h \<notin> set as"
  using ls_live live_brk by fastforce

lemma relinks_local:
  assumes h: "heap_ok h" and r: "relinks (insert (brk h) S) (loc h u) h'"
  shows "relinks S h (cdrop h' (brk h))"
proof -
  let ?h = "cdrop h' (brk h)"
  have c: "cells ?h = (cells h')(brk h := None)" "brk ?h = brk h'" "env ?h = env h'" by (simp_all add: cdrop_def)
  have b: "cells h (brk h) = None" using h by simp
  have "heap_ok h'" using r heap_ok_loc [OF h] by (rule relinks_heap)
  then have "heap_ok ?h" by (simp add: heap_ok_def c)
  moreover have "cells ?h a = cells h a" if "a \<notin> S" for a
    using r that b unfolding relinks_def c loc_cells by auto
  moreover have "live ?h a = live h a \<and> vl ?h a = vl h a" for a
  proof (cases "a = brk h")
    case True
    then show ?thesis using b by (simp add: live_def vl_def c)
  next
    case False
    then have "live ?h a = live h' a" "vl ?h a = vl h' a" by (simp_all add: live_def vl_def c)
    moreover have "live h' a = live (loc h u) a" "vl h' a = vl (loc h u) a" using r by (simp_all add: relinks_def)
    ultimately show ?thesis using False by (simp add: live_loc vl_loc)
  qed
  ultimately show ?thesis using r unfolding relinks_def c loc_cells by simp
qed

lemma ls_cdrop: "d \<notin> set as \<Longrightarrow> ls (cdrop h d) p as q = ls h p as q"
  by (simp add: ls_def cdrop_def)

lemma return_next_live: "live h d \<Longrightarrow> return_next h d = Some (nxt h d, cdrop h d)"
  by (simp add: return_next_def next_of_live)

text \<open>How a routine with one local node ends.\<close>

lemma return_local:
  assumes "heap_ok h" "relinks (insert (brk h) S) (loc h u) h'" "live h' (brk h)" "ls h' (nxt h' (brk h)) as None" "brk h \<notin> set as"
  shows "\<exists>p h''. return_next h' (brk h) = Some (p, h'') \<and> ls h'' p as None \<and> relinks S h h''"
  using relinks_local [OF assms(1,2)] assms(3-5) by (simp add: return_next_live ls_cdrop)

section \<open>Reversing a list\<close>

lemma reverse_loop_spec:
  "ls m h as None \<Longrightarrow> live m d \<Longrightarrow> ls m (nxt m d) bs None \<Longrightarrow> distinct (d # as @ bs) \<Longrightarrow>
   \<exists>m'. reverse_loop m d h = Some m' \<and> live m' d \<and> ls m' (nxt m' d) (rev as @ bs) None \<and> relinks (set (d # as)) m m'"
proof (induction as arbitrary: m h bs)
  case Nil
  then show ?case by (subst reverse_loop.simps) (simp add: link)
next
  case (Cons a as)
  have a: "h = Some a" "live m a" "ls m (nxt m a) as None" "a \<noteq> d" using Cons.prems by (auto simp: link)
  let ?m = "setn (setn m a (nxt m d)) d (Some a)"
  have e: "reverse_loop m d h = reverse_loop ?m d (nxt m a)"
    using a Cons.prems(2) by (subst reverse_loop.simps) (simp add: link)
  have "ls ?m (nxt m a) as None" "live ?m d" "ls ?m (nxt ?m d) (a # bs) None" "distinct (d # as @ a # bs)"
    using a Cons.prems by (simp_all add: link)
  from Cons.IH [OF this] obtain m' where m': "reverse_loop ?m d (nxt m a) = Some m'" "live m' d"
    "ls m' (nxt m' d) (rev as @ a # bs) None" "relinks (set (d # as)) ?m m'" by blast
  have "relinks (set (d # a # as)) ?m m'" by (rule relinks_mono [OF m'(4)]) auto
  from relinks_after_setn [OF relinks_after_setn [OF this]] have "relinks (set (d # a # as)) m m'" by simp
  then show ?case using e m' by simp
qed

theorem reverse_spec:
  assumes "heap_ok m" "ls m h as None"
  shows "\<exists>p m'. reverse u m h = Some (p, m') \<and> ls m' p (rev as) None \<and> relinks (set as) m m'"
proof -
  let ?d = "brk m"
  have d: "?d \<notin> set as" by (rule fresh_loc [OF assms])
  let ?m = "setn (loc m u) ?d None"
  have "ls ?m h as None" "live ?m ?d" "ls ?m (nxt ?m ?d) [] None" "distinct (?d # as @ [])"
    using assms d ls_distinct [OF assms(2)] by (simp_all add: link ls_loc)
  from reverse_loop_spec [OF this] obtain m' where m': "reverse_loop ?m ?d h = Some m'" "live m' ?d"
    "ls m' (nxt m' ?d) (rev as) None" "relinks (set (?d # as)) ?m m'" by auto
  have r: "relinks (insert ?d (set as)) (loc m u) m'" using relinks_after_setn [OF m'(4)] by simp
  have "reverse u m h = return_next m' ?d" using m'(1) by (simp add: reverse_def link Let_def)
  moreover have "?d \<notin> set (rev as)" using d by simp
  ultimately show ?thesis using return_local [OF assms(1) r m'(2,3)] by simp
qed

lemma reverseList_loop_reverse:
  "ls m h as None \<Longrightarrow> live m d \<Longrightarrow> d \<notin> set as \<Longrightarrow> reverseList_loop m d h = reverse_loop m d h"
proof (induction as arbitrary: m h)
  case Nil
  then show ?case by (subst reverse_loop.simps, subst reverseList_loop.simps) (simp add: link)
next
  case (Cons a as)
  have a: "h = Some a" "live m a" "a \<notin> set as" "a \<noteq> d" using Cons.prems ls_distinct [OF Cons.prems(1)] by (auto simp: link)
  let ?m = "setn (setn m a (nxt m d)) d (Some a)"
  have "reverseList_loop ?m d (nxt m a) = reverse_loop ?m d (nxt m a)"
    using Cons.prems a by (intro Cons.IH) (simp_all add: link)
  then show ?case using a Cons.prems(2) by (subst reverse_loop.simps, subst reverseList_loop.simps) (simp add: link Let_def)
qed

theorem reverseList_spec:
  assumes "heap_ok h" "ls h p as None"
  shows "reverseList u h p = (if p = None then Some (None, h) else reverse u h p)"
proof -
  have "brk h \<notin> set as" by (rule fresh_loc [OF assms])
  then have "reverseList_loop (setn (loc h u) (brk h) None) (brk h) p = reverse_loop (setn (loc h u) (brk h) None) (brk h) p"
    using assms(2) by (intro reverseList_loop_reverse) (simp_all add: link ls_loc)
  then show ?thesis by (simp add: reverseList_def reverse_def link)
qed

end
