(* ===== verification/Link_Reverse.thy ===== *)
theory Link_Reverse
  imports Link_Tools Link_Lists
begin

text \<open>Reversing a range, exchanging two nodes, and reversing in groups of \<open>k\<close>.\<close>

lemma ls_setn_end: "ls h p (as @ [a]) q \<Longrightarrow> a \<notin> set as \<Longrightarrow> ls (setn h a x) p (as @ [a]) x"
  by (auto simp: ls_append link)

lemma walk_pre_spec:
  "ls h p (xs @ y # ys) q \<Longrightarrow> int (length xs) < int_max \<Longrightarrow> walk_pre h (int (Suc (length xs))) p = Some (Some y)"
proof (induction xs arbitrary: p)
  case Nil
  then show ?case by (subst walk_pre.simps) (simp add: link cint_def int_min_def int_max_def)
next
  case (Cons x xs)
  have p: "p = Some x" "live h x" "ls h (nxt h x) (xs @ y # ys) q" using Cons.prems by (auto simp: link)
  have "walk_pre h (int (Suc (length xs))) (nxt h x) = Some (Some y)" using p(3) Cons.prems(2) by (intro Cons.IH) simp_all
  then show ?case using p(1,2) Cons.prems(2)
    by (subst walk_pre.simps) (simp add: link cint_def int_min_def int_max_def add.commute)
qed

lemma walk_post_spec:
  "ls h p (xs @ y # ys) q \<Longrightarrow> int (length xs) \<le> int_max \<Longrightarrow> walk_post h (int (length xs)) p = Some (Some y)"
proof (induction xs arbitrary: p)
  case Nil
  then show ?case by (subst walk_post.simps) (simp add: link cint_def int_min_def int_max_def)
next
  case (Cons x xs)
  have p: "p = Some x" "live h x" "ls h (nxt h x) (xs @ y # ys) q" using Cons.prems by (auto simp: link)
  have "walk_post h (int (length xs)) (nxt h x) = Some (Some y)" using p(3) Cons.prems(2) by (intro Cons.IH) simp_all
  then show ?case using p(1,2) Cons.prems(2)
    by (subst walk_post.simps) (simp add: link cint_def int_min_def int_max_def add.commute)
qed

text \<open>The list behind a local node: what the routines below start from.\<close>

lemma behind_local:
  assumes "heap_ok h" "ls h p as None"
  shows "ls (setn (loc h u) (brk h) p) (Some (brk h)) (brk h # as) None" "distinct (brk h # as)"
    "heap_ok (setn (loc h u) (brk h) p)" "relinks (insert (brk h) S) (loc h u) (setn (loc h u) (brk h) p)"
  using fresh_loc [OF assms] assms ls_distinct [OF assms(2)] relinks_heap [OF relinks_setn [of "brk h" "{brk h}"] heap_ok_loc]
  by (auto simp: link ls_loc intro: relinks_setn)

theorem reverseBetween_spec:
  assumes ok: "heap_ok h" and L: "ls h p (xs @ ys @ zs) None" and y: "2 \<le> length ys"
    and len: "int (length (xs @ ys)) < int_max"
  shows "\<exists>r h'. reverseBetween u h p (int (Suc (length xs))) (int (length (xs @ ys))) = Some (r, h') \<and>
    ls h' r (xs @ rev ys @ zs) None \<and> relinks (set (xs @ ys @ zs)) h h'"
proof -
  let ?d = "brk h" and ?S = "insert (brk h) (set (xs @ ys @ zs))"
  define h1 where "h1 = setn (loc h u) ?d p"
  have b: "ls h1 (Some ?d) (?d # xs @ ys @ zs) None" "distinct (?d # xs @ ys @ zs)" "heap_ok h1" "relinks ?S (loc h u) h1"
    unfolding h1_def by (rule behind_local [OF ok L])+
  obtain ws prep where ws: "?d # xs = ws @ [prep]" by (metis append_butlast_last_id list.distinct(1))
  obtain y0 ym q where ys: "ys = y0 # ym @ [q]"
  proof -
    obtain y0 y' where "ys = y0 # y'" using y by (cases ys) auto
    moreover then have "y' \<noteq> []" using y by auto
    ultimately show ?thesis using that by (metis append_butlast_last_id)
  qed
  have D: "distinct (ws @ prep # ys @ zs)" using b(2) ws by (metis append.assoc append_Cons append_Nil)
  have L1: "ls h1 (Some ?d) (ws @ prep # ys @ zs) None" using b(1) ws by (metis append.assoc append_Cons append_Nil)
  obtain nq where s: "ls h1 (Some ?d) (ws @ [prep]) (Some y0)" "ls h1 (Some y0) ys nq" "ls h1 nq zs None"
  proof -
    have "ls h1 (Some ?d) ((ws @ [prep]) @ ys @ zs) None" using L1 by simp
    then obtain r nq where r: "ls h1 (Some ?d) (ws @ [prep]) r" "ls h1 r ys nq" "ls h1 nq zs None"
      unfolding ls_append [of h1 "Some ?d" "ws @ [prep]"] ls_append [of h1 _ ys] by blast
    moreover have "r = Some y0" using r(2) ys by (simp add: link)
    ultimately show ?thesis using that by simp
  qed
  have lv: "live h1 prep" "live h1 q" "live h1 y0"
    using L1 ys by (auto intro: ls_live [of h1 "Some ?d" "ws @ prep # ys @ zs" None])
  have np: "nxt h1 prep = Some y0" using s(1) by (auto simp: ls_append link)
  have nq: "nxt h1 q = nq" using s(2) unfolding ys by (auto simp: ls_append link)
  define h2 where "h2 = setn h1 q None"
  have ok2: "heap_ok h2" using relinks_heap [OF relinks_setn [of q "{q}"] b(3)] by (simp add: h2_def)
  have s2: "ls h2 (Some ?d) (ws @ [prep]) (Some y0)" "ls h2 (Some y0) ys None" "ls h2 nq zs None"
    using s D ls_setn_end [of h1 "Some y0" "y0 # ym" q nq None] ys by (auto simp: h2_def ls_setn)
  obtain r h3 where h3: "reverse u h2 (Some y0) = Some (r, h3)" "ls h3 r (rev ys) None" "relinks (set ys) h2 h3"
    using reverse_spec [OF ok2 s2(2)] by blast
  have s3: "ls h3 (Some ?d) (ws @ [prep]) (Some y0)" "ls h3 nq zs None"
  proof -
    have "set (ws @ [prep]) \<inter> set ys = {}" "set zs \<inter> set ys = {}" using D by auto
    then show "ls h3 (Some ?d) (ws @ [prep]) (Some y0)" "ls h3 nq zs None"
      using s2 relinks_ls [OF h3(3)] by blast+
  qed
  have lv3: "live h3 prep" "live h3 y0" using lv h3(3) by (simp_all add: relinks_live h2_def live_setn)
  define h4 where "h4 = setn h3 prep r"
  have s4: "ls h4 (Some ?d) (ws @ [prep]) r" "ls h4 r (rev ys) None" "ls h4 nq zs None"
    using s3 h3(2) D ls_setn_end [OF s3(1)] by (simp_all add: h4_def ls_setn)
  define h5 where "h5 = setn h4 y0 nq"
  have ry: "rev ys = (q # rev ym) @ [y0]" by (simp add: ys)
  have D': "y0 \<notin> set (ws @ [prep])" "y0 \<notin> set (q # rev ym)" "y0 \<notin> set zs" using D ys by auto
  have s5: "ls h5 (Some ?d) (ws @ [prep]) r" "ls h5 r (rev ys) nq" "ls h5 nq zs None"
    using s4 D' ls_setn_end [of h4 r "q # rev ym" y0 None nq] unfolding ry by (simp_all add: h5_def ls_setn)
  have f: "ls h5 (Some ?d) (?d # xs @ rev ys @ zs) None"
  proof -
    have "ls h5 (Some ?d) ((ws @ [prep]) @ rev ys @ zs) None"
      using s5 unfolding ls_append [of h5 _ "ws @ [prep]"] ls_append [of h5 _ "rev ys"] by blast
    then show ?thesis unfolding ws [symmetric] by simp
  qed
  have "relinks ?S h1 h2" "relinks ?S h2 h3" "relinks ?S h3 h4" "relinks ?S h4 h5"
  proof -
    have "prep \<in> set (?d # xs)" using ws by simp
    then show "relinks ?S h1 h2" "relinks ?S h3 h4" "relinks ?S h4 h5"
      using ys unfolding h2_def h4_def h5_def by (auto intro!: relinks_setn)
    show "relinks ?S h2 h3" by (rule relinks_mono [OF h3(3)]) auto
  qed
  then have R: "relinks ?S (loc h u) h5" using b(4) relinks_trans by blast
  have l5: "live h5 ?d" "ls h5 (nxt h5 ?d) (xs @ rev ys @ zs) None" using f by (simp_all add: link)
  have "?d \<notin> set (xs @ rev ys @ zs)" using b(2) by auto
  from return_local [OF ok R l5 this] obtain r' h' where
    ret: "return_next h5 ?d = Some (r', h')" "ls h' r' (xs @ rev ys @ zs) None" "relinks (set (xs @ ys @ zs)) h h'" by blast
  have w1: "walk_pre h1 (int (Suc (length xs))) (Some ?d) = Some (Some prep)"
    using walk_pre_spec [OF L1] ws len by (metis (no_types, lifting) Suc_inject length_Cons length_append_singleton
        length_append of_nat_less_iff of_nat_mono le_add1 order_le_less_trans)
  have w2: "walk_post h1 (int (length (xs @ ys))) (Some ?d) = Some (Some q)"
  proof -
    have e: "ws @ prep # ys @ zs = (ws @ prep # y0 # ym) @ q # zs" by (simp add: ys)
    have l: "length (ws @ prep # y0 # ym) = length (xs @ ys)"
      using arg_cong [OF ws, of length] by (simp add: ys)
    show ?thesis using walk_post_spec [OF L1 [unfolded e]] len l by (metis less_imp_le)
  qed
  have sh: "short_list h p = Some False"
  proof -
    obtain a0 a1 as where "xs @ ys @ zs = a0 # a1 # as" using ys by (cases xs; cases "tl xs"; cases ym; auto)
    then show ?thesis using L by (auto simp: link)
  qed
  have mn: "int (Suc (length xs)) \<noteq> int (length (xs @ ys))" using y by simp
  have e: "reverseBetween u h p (int (Suc (length xs))) (int (length (xs @ ys))) = return_next h5 ?d"
    unfolding reverseBetween_def if_not_P [OF mn] sh
    using w1 w2 lv np nq lv3 h3(1)
    by (simp add: link Let_def h1_def [symmetric] h2_def [symmetric] h4_def [symmetric] h5_def [symmetric]) (simp add: h4_def h5_def link)
  show ?thesis by (intro exI conjI, rule trans [OF e ret(1)], rule ret(2), rule ret(3))
qed

section \<open>Reversing in groups\<close>

fun kgroup :: "nat \<Rightarrow> 'a list \<Rightarrow> 'a list" where
  "kgroup k xs = (if k = 0 \<or> length xs < k then xs else rev (take k xs) @ kgroup k (drop k xs))"

declare kgroup.simps [simp del]

lemma kgroup_short: "length xs < k \<Longrightarrow> kgroup k xs = xs"
  by (simp add: kgroup.simps)

lemma set_kgroup: "set (kgroup k xs) = set xs"
proof (induction k xs rule: kgroup.induct)
  case (1 k xs)
  show ?case
  proof (cases "k = 0 \<or> length xs < k")
    case False
    then have "set (kgroup k xs) = set (take k xs) \<union> set (drop k xs)" using 1 by (simp add: kgroup.simps [of k xs])
    then show ?thesis by (metis append_take_drop_id set_append)
  qed (simp add: kgroup.simps)
qed

lemma k_walk_spec:
  "ls h q as None \<Longrightarrow> 0 < k \<Longrightarrow> int k \<le> int_max \<Longrightarrow>
   k_walk h q (int k) = Some (if length as < k then None else Some (as ! (k - 1)))"
proof (induction as arbitrary: q k)
  case Nil
  then show ?case by (subst k_walk.simps) (simp add: link)
next
  case (Cons a as)
  have q: "q = Some a" "live h a" "ls h (nxt h a) as None" using Cons.prems(1) by (auto simp: link)
  show ?case
  proof (cases "k = 1")
    case True
    then show ?thesis using q by (subst k_walk.simps) (simp add: cint_def int_min_def int_max_def)
  next
    case False
    then have k: "0 < k - 1" "int (k - 1) \<le> int_max" "int (k - 1) = int k - 1" using Cons.prems by auto
    have "cint (int k - 1) = Some (int k - 1)" using Cons.prems k by (simp add: cint_def int_min_def)
    then have "k_walk h q (int k) = k_walk h (nxt h a) (int (k - 1))"
      using q k by (subst k_walk.simps) (simp add: link)
    then show ?thesis using Cons.IH [OF q(3) k(1,2)] k by (auto simp: nth_Cons')
  qed
qed

lemma k_loop_spec:
  assumes "0 < k" "int k \<le> int_max"
  shows "heap_ok h \<Longrightarrow> live h p \<Longrightarrow> ls h (nxt h p) as None \<Longrightarrow> p \<notin> set as \<Longrightarrow>
    \<exists>h'. k_loop u h (int k) (Some p) = Some h' \<and> live h' p \<and> ls h' (nxt h' p) (kgroup k as) None \<and>
      relinks (insert p (set as)) h h'"
proof (induction "length as" arbitrary: h p as rule: less_induct)
  case less
  note ok = less.prems(1) and lp = less.prems(2) and L = less.prems(3) and pn = less.prems(4)
  show ?case
  proof (cases "length as < k")
    case True
    then have "k_loop u h (int k) (Some p) = Some h"
      using lp k_walk_spec [OF L assms] by (subst k_loop.simps) (auto simp: link)
    then show ?thesis using L lp True by (simp add: kgroup_short)
  next
    case False
    define gs zs where "gs = take k as" and "zs = drop k as"
    have as: "as = gs @ zs" and lg: "length gs = k" using False by (simp_all add: gs_def zs_def)
    have D: "distinct (gs @ zs)" using ls_distinct [OF L] as by simp
    obtain a gm where ga: "gs = a # gm" using lg assms(1) by (cases gs) auto
    obtain gi q where gq: "gs = gi @ [q]" using ga by (metis append_butlast_last_id list.distinct(1))
    obtain nq where s: "ls h (nxt h p) gs nq" "ls h nq zs None" using L unfolding as ls_append by blast
    have np: "nxt h p = Some a" using s(1) ga by (simp add: link)
    have nq: "nxt h q = nq" using s(1) unfolding gq by (auto simp: ls_append link)
    have "q \<in> set gs" "a \<in> set gs" using gq by simp (simp add: ga)
    then have lv: "live h q" "live h a" and qa: "q \<in> set as" "a \<in> set as" using ls_live [OF s(1)] as by auto
    have pq: "p \<noteq> q" "p \<noteq> a" "p \<notin> set gs" "p \<notin> set zs" using pn as qa by auto
    define h2 where "h2 = setn h q None"
    have ok2: "heap_ok h2" using relinks_heap [OF relinks_setn [of q "{q}"] ok] by (simp add: h2_def)
    have np2: "nxt h2 p = Some a" using np pq lv by (simp add: h2_def nxt_setn)
    have "q \<notin> set gi" "q \<notin> set zs" using D gq by auto
    then have s2: "ls h2 (Some a) gs None" "ls h2 nq zs None"
      using s(2) ls_setn_end [of h "nxt h p" gi q nq None] s(1) np gq by (simp_all add: h2_def ls_setn)
    obtain r h3 where h3: "reverse u h2 (Some a) = Some (r, h3)" "ls h3 r (rev gs) None" "relinks (set gs) h2 h3"
      using reverse_spec [OF ok2 s2(1)] by blast
    have dis: "set zs \<inter> set gs = {}" using D by auto
    have s3: "ls h3 nq zs None" using s2(2) relinks_ls [OF h3(3) dis] by blast
    have lv3: "live h3 p" "live h3 a" using lp lv h3(3) by (simp_all add: relinks_live h2_def live_setn)
    define h4 where "h4 = setn h3 p r"
    have s4: "ls h4 r (rev gs) None" "ls h4 nq zs None" using h3(2) s3 pq by (simp_all add: h4_def ls_setn)
    have lv4: "live h4 a" "live h4 p" using lv3 by (simp_all add: h4_def live_setn)
    define h5 where "h5 = setn h4 a nq"
    have rg: "rev gs = rev gm @ [a]" using ga by simp
    have an: "a \<notin> set (rev gm)" "a \<notin> set zs" using D ga by auto
    have s5: "ls h5 r (rev gm @ [a]) nq" "ls h5 nq zs None" "nxt h5 a = nq" "nxt h5 p = r" "live h5 a" "live h5 p"
      using s4 an pq lv3 lv4 ls_setn_end [of h4 r "rev gm" a None nq] unfolding rg
      by (simp_all add: h5_def h4_def ls_setn nxt_setn live_setn)
    have R5: "relinks (insert p (set as)) h h5"
    proof -
      have "relinks (insert p (set as)) h h2" "relinks (insert p (set as)) h3 h4" "relinks (insert p (set as)) h4 h5"
        unfolding h2_def h4_def h5_def using qa by (auto intro!: relinks_setn)
      moreover have "relinks (insert p (set as)) h2 h3" by (rule relinks_mono [OF h3(3)]) (auto simp: as)
      ultimately show ?thesis using relinks_trans by blast
    qed
    have "length zs < length as" "heap_ok h5" "ls h5 (nxt h5 a) zs None" "a \<notin> set zs"
      using lg assms(1) as relinks_heap [OF R5 ok] s5 an by simp_all
    from less.hyps [OF this(1,2) s5(5) this(3,4)] obtain h6 where h6: "k_loop u h5 (int k) (Some a) = Some h6" "live h6 a"
      "ls h6 (nxt h6 a) (kgroup k zs) None" "relinks (insert a (set zs)) h5 h6" by blast
    have "length gi = k - 1" using lg gq by auto
    then have "as ! (k - 1) = q" using as gq by (metis append.assoc append_Cons nth_append_length)
    then have kw: "k_walk h (Some a) (int k) = Some (Some q)" using k_walk_spec [OF L assms] False np by simp
    have "live h2 p" using lp by (simp add: h2_def live_setn)
    then have "k_loop u h (int k) (Some p) = k_loop u h5 (int k) (Some a)"
      using lp np kw lv nq np2 h3(1) lv3 lv4
      by (subst k_loop.simps) (simp add: link k_reverse_def h2_def [symmetric] h4_def [symmetric] h5_def [symmetric])
    moreover have "ls h6 (nxt h6 p) (kgroup k as) None"
    proof -
      have "set (rev gm) \<inter> insert a (set zs) = {}" "p \<notin> insert a (set zs)" using D ga pq by auto
      moreover have "ls h5 r (rev gm) (Some a)" using s5(1) by (auto simp: ls_append link)
      ultimately have "ls h6 (nxt h6 p) (rev gm) (Some a)" using relinks_ls [OF h6(4)] relinks_nxt [OF h6(4)] s5(4) by simp
      moreover have "ls h6 (Some a) (a # kgroup k zs) None" using h6(2,3) by (simp add: ls_Cons)
      ultimately have "ls h6 (nxt h6 p) (rev gm @ a # kgroup k zs) None" using ls_append by blast
      moreover have "kgroup k as = rev gm @ a # kgroup k zs"
        using False assms(1) ga by (simp add: kgroup.simps [of k as] gs_def [symmetric] zs_def [symmetric])
      ultimately show ?thesis by simp
    qed
    moreover have "relinks (insert p (set as)) h h6"
      by (rule relinks_trans [OF R5 relinks_mono [OF h6(4)]]) (auto simp: as ga)
    moreover have "live h6 p" using s5(6) relinks_live [OF h6(4)] by simp
    ultimately show ?thesis using h6(1) by metis
  qed
qed

theorem reverseKGroup_spec:
  assumes ok: "heap_ok h" and L: "ls h p as None" and k: "0 < k" "int k \<le> int_max"
  shows "\<exists>r h'. reverseKGroup u h p (int k) = Some (r, h') \<and> ls h' r (kgroup k as) None \<and> relinks (set as) h h'"
proof (cases "length as < 2")
  case True
  then have "short_list h p = Some True" using L by (cases as; cases "tl as"; auto simp: link)
  moreover have "kgroup k as = as"
    using True by (cases as; cases "k = 1"; auto simp: kgroup.simps)
  ultimately show ?thesis using L by (simp add: reverseKGroup_def)
next
  case False
  then obtain a0 a1 as' where "as = a0 # a1 # as'" by (cases as; cases "tl as") auto
  then have sh: "short_list h p = Some False" using L by (auto simp: link)
  let ?d = "brk h"
  define h1 where "h1 = setn (loc h u) ?d p"
  have b: "ls h1 (Some ?d) (?d # as) None" "distinct (?d # as)" "heap_ok h1" "relinks (insert ?d (set as)) (loc h u) h1"
    unfolding h1_def by (rule behind_local [OF ok L])+
  have "live h1 ?d" "ls h1 (nxt h1 ?d) as None" "?d \<notin> set as" using b(1,2) by (auto simp: link)
  from k_loop_spec [OF k b(3) this] obtain h2 where h2: "k_loop u h1 (int k) (Some ?d) = Some h2" "live h2 ?d"
    "ls h2 (nxt h2 ?d) (kgroup k as) None" "relinks (insert ?d (set as)) h1 h2" by blast
  have "reverseKGroup u h p (int k) = return_next h2 ?d"
    using sh h2(1) by (simp add: reverseKGroup_def link h1_def)
  moreover have "?d \<notin> set (kgroup k as)" using b(2) by (simp add: set_kgroup)
  ultimately show ?thesis using return_local [OF ok relinks_trans [OF b(4) h2(4)] h2(2,3)] by simp
qed

text \<open>Swapping the nodes of a list in pairs, in the two versions of the source.\<close>

fun swap2 :: "'a list \<Rightarrow> 'a list" where
  "swap2 (x # y # zs) = y # x # swap2 zs"
| "swap2 xs = xs"

lemma set_swap2 [simp]: "set (swap2 xs) = set xs"
  by (induction xs rule: swap2.induct) auto

lemma swap2_kgroup: "swap2 xs = kgroup 2 xs"
  by (induction xs rule: swap2.induct) (simp_all add: kgroup.simps numeral_2_eq_2)

definition swap_heap :: "lheap \<Rightarrow> nat \<Rightarrow> nat \<Rightarrow> nat \<Rightarrow> lheap" where
  "swap_heap h p x y = setn (setn (setn h x (nxt h y)) y (Some x)) p (Some y)"

lemma swap_heap_facts:
  assumes "live h p" "ls h (nxt h p) (x # y # zs) None" "p \<notin> set (x # y # zs)"
  shows "live (swap_heap h p x y) p" "live (swap_heap h p x y) x" "live (swap_heap h p x y) y"
    "nxt (swap_heap h p x y) p = Some y" "nxt (swap_heap h p x y) y = Some x" "nxt (swap_heap h p x y) x = nxt h y"
    "ls (swap_heap h p x y) (nxt h y) zs None" "x \<notin> set zs" "y \<notin> set zs" "relinks (set (p # x # y # zs)) h (swap_heap h p x y)"
proof -
  have lv: "live h x" "live h y" "ls h (nxt h y) zs None" using assms(2) by (auto simp: link)
  have D: "distinct (x # y # zs)" using ls_distinct assms(2) by blast
  show "live (swap_heap h p x y) p" "live (swap_heap h p x y) x" "live (swap_heap h p x y) y"
    "nxt (swap_heap h p x y) p = Some y" "nxt (swap_heap h p x y) y = Some x" "nxt (swap_heap h p x y) x = nxt h y"
    "ls (swap_heap h p x y) (nxt h y) zs None" "x \<notin> set zs" "y \<notin> set zs"
    using assms(1,3) lv D by (simp_all add: swap_heap_def link)
  show "relinks (set (p # x # y # zs)) h (swap_heap h p x y)"
    unfolding swap_heap_def by (rule relinks_trans [OF relinks_trans]; rule relinks_setn) simp_all
qed

text \<open>Both loops do the same to the heap in each round, behind the node \<open>p\<close>.\<close>

lemma swap_rounds:
  assumes base: "\<And>m p. live m p \<Longrightarrow> short_list m (nxt m p) = Some True \<Longrightarrow> loop m p = Some m"
    and step: "\<And>m p x y zs. live m p \<Longrightarrow> ls m (nxt m p) (x # y # zs) None \<Longrightarrow> p \<notin> set (x # y # zs) \<Longrightarrow>
      loop m p = loop (swap_heap m p x y) x"
  shows "live m p \<Longrightarrow> ls m (nxt m p) as None \<Longrightarrow> p \<notin> set as \<Longrightarrow>
    \<exists>m'. loop m p = Some m' \<and> live m' p \<and> ls m' (nxt m' p) (swap2 as) None \<and> relinks (insert p (set as)) m m'"
proof (induction as arbitrary: m p rule: swap2.induct)
  case (1 x y zs)
  note f = swap_heap_facts [OF 1(2,3,4)]
  let ?h = "swap_heap m p x y"
  obtain m' where m': "loop ?h x = Some m'" "live m' x" "ls m' (nxt m' x) (swap2 zs) None" "relinks (insert x (set zs)) ?h m'"
    using 1(1) [OF f(2)] f(6,7,8) by auto
  have D: "p \<noteq> x" "y \<noteq> x" "p \<notin> set zs" using 1(4) ls_distinct [OF 1(3)] by auto
  have "nxt m' p = Some y" "nxt m' y = Some x" "live m' p" "live m' y"
    using relinks_nxt [OF m'(4), of p] relinks_nxt [OF m'(4), of y] relinks_live [OF m'(4)] D f by auto
  then have "ls m' (nxt m' p) (swap2 (x # y # zs)) None" using m'(2,3) by (simp add: link)
  moreover have "relinks (insert p (set (x # y # zs))) m m'"
    by (rule relinks_trans [of _ m ?h]; rule relinks_mono, rule f(10) m'(4)) auto
  ultimately show ?case using step [OF 1(2,3,4)] m'(1) \<open>live m' p\<close> by simp
next
  case "2_1"
  then show ?case using base [of m p] by (auto simp: link)
next
  case "2_2"
  then show ?case using base [of m p] by (auto simp: link)
qed

lemma best_swapPairs_loop_spec:
  "live m p \<Longrightarrow> ls m (nxt m p) as None \<Longrightarrow> p \<notin> set as \<Longrightarrow>
    \<exists>m'. best_swapPairs_loop m (Some p) = Some m' \<and> live m' p \<and> ls m' (nxt m' p) (swap2 as) None \<and> relinks (insert p (set as)) m m'"
proof (rule swap_rounds [of "\<lambda>m p. best_swapPairs_loop m (Some p)"])
  show "best_swapPairs_loop m (Some p) = Some m" if "live m p" "short_list m (nxt m p) = Some True" for m p
    using that by (subst best_swapPairs_loop.simps) (simp add: link)
  show "best_swapPairs_loop m (Some p) = best_swapPairs_loop (swap_heap m p x y) (Some x)"
    if a: "live m p" "ls m (nxt m p) (x # y # zs) None" "p \<notin> set (x # y # zs)" for m p x y zs
  proof -
    note f = swap_heap_facts [OF a]
    have n: "nxt m p = Some x" "nxt m x = Some y" "live m x" "live m y" using a(2) by (auto simp: link)
    have "swapnode m (Some x) (Some y) = Some (Some y, setn (setn m x (nxt m y)) y (Some x))"
      using n by (simp add: swapnode_def link)
    moreover have "set_next (setn (setn m x (nxt m y)) y (Some x)) (Some p) (Some y) = Some (swap_heap m p x y)"
      using a(1) by (simp add: swap_heap_def link)
    ultimately show ?thesis using a(1) n f(1-6) by (subst best_swapPairs_loop.simps) (simp add: link)
  qed
qed

text \<open>Once \<open>flag\<close> is set, \<open>h\<close> stays as it is.\<close>

lemma swapPairs_loop_spec:
  assumes "live m p" "ls m (nxt m p) as None" "p \<notin> set as"
  shows "\<exists>m'. swapPairs_loop m (nxt m p) (Some p) h 1 = Some (h, m') \<and> live m' p \<and> ls m' (nxt m' p) (swap2 as) None \<and>
    relinks (insert p (set as)) m m'"
proof -
  let ?loop = "\<lambda>m p. do { (h', m') \<leftarrow> swapPairs_loop m (nxt m p) (Some p) h 1; guard (h' = h); Some m' }"
  have "\<exists>m'. ?loop m p = Some m' \<and> live m' p \<and> ls m' (nxt m' p) (swap2 as) None \<and> relinks (insert p (set as)) m m'"
  proof (rule swap_rounds [of ?loop, OF _ _ assms])
    show "?loop m p = Some m" if "live m p" "short_list m (nxt m p) = Some True" for m p
      using that by (subst swapPairs_loop.simps) simp
    show "?loop m p = ?loop (swap_heap m p x y) x"
      if a: "live m p" "ls m (nxt m p) (x # y # zs) None" "p \<notin> set (x # y # zs)" for m p x y zs
    proof -
      have n: "nxt m p = Some x" "nxt m x = Some y" "live m x" "live m y" using a(2) by (auto simp: link)
      have "swapPairs_loop m (nxt m p) (Some p) h 1 = swapPairs_loop (swap_heap m p x y) (nxt m y) (Some x) h 1"
        using a(1) n by (subst swapPairs_loop.simps) (simp add: link swap_heap_def)
      then show ?thesis using swap_heap_facts(6) [OF a] by simp
    qed
  qed
  then show ?thesis by (auto simp: bind_eq_Some_conv)
qed

theorem swapPairs_spec:
  assumes L: "ls m p as None"
  shows "\<exists>r m'. swapPairs m p = Some (r, m') \<and> ls m' r (swap2 as) None \<and> relinks (set as) m m'"
proof (cases "length as < 2")
  case True
  then have "short_list m p = Some True" "swap2 as = as" using L by (cases as; cases "tl as"; auto simp: link)+
  then show ?thesis using L by (simp add: swapPairs_def)
next
  case False
  then obtain x y zs where as: "as = x # y # zs" by (cases as; cases "tl as") auto
  have n: "p = Some x" "nxt m x = Some y" "live m x" "live m y" "ls m (nxt m y) zs None" using L as by (auto simp: link)
  have D: "x \<noteq> y" "x \<notin> set zs" "y \<notin> set zs" using ls_distinct [OF L] as by auto
  let ?h = "setn (setn m x (nxt m y)) y (Some x)"
  have "live ?h x" "ls ?h (nxt ?h x) zs None" using n D by (simp_all add: link)
  from swapPairs_loop_spec [OF this D(2), of "Some (Some y)"] obtain m' where
    m': "swapPairs_loop ?h (nxt m y) (Some x) (Some (Some y)) 1 = Some (Some (Some y), m')" "live m' x"
      "ls m' (nxt m' x) (swap2 zs) None" "relinks (insert x (set zs)) ?h m'" using n D by (auto simp: link)
  have "swapPairs_loop m p None None 0 = swapPairs_loop ?h (nxt m y) (Some x) (Some (Some y)) 1"
    using n D by (subst swapPairs_loop.simps) (simp add: link)
  then have "swapPairs m p = Some (Some y, m')" using n m'(1) by (simp add: swapPairs_def link)
  moreover have "ls m' (Some y) (swap2 as) None"
    using m'(2,3) relinks_nxt [OF m'(4), of y] relinks_live [OF m'(4)] n D as by (simp add: link)
  moreover have "relinks (set as) m m'"
  proof -
    have r: "relinks (set as) ?h m'" by (rule relinks_mono [OF m'(4)]) (auto simp: as)
    from relinks_after_setn [OF relinks_after_setn [OF r]] show ?thesis by (simp add: as)
  qed
  ultimately show ?thesis by blast
qed

theorem best_swapPairs_spec:
  assumes ok: "heap_ok h" and L: "ls h p as None"
  shows "\<exists>r h'. best_swapPairs u h p = Some (r, h') \<and> ls h' r (swap2 as) None \<and> relinks (set as) h h'"
proof (cases "length as < 2")
  case True
  then have "short_list h p = Some True" "swap2 as = as" using L by (cases as; cases "tl as"; auto simp: link)+
  then show ?thesis using L by (simp add: best_swapPairs_def)
next
  case False
  then obtain a0 a1 as' where "as = a0 # a1 # as'" by (cases as; cases "tl as") auto
  then have sh: "short_list h p = Some False" using L by (auto simp: link)
  let ?d = "brk h"
  define h1 where "h1 = setn (loc h u) ?d p"
  have b: "ls h1 (Some ?d) (?d # as) None" "distinct (?d # as)" "relinks (insert ?d (set as)) (loc h u) h1"
    unfolding h1_def by (rule behind_local [OF ok L])+
  have "live h1 ?d" "ls h1 (nxt h1 ?d) as None" "?d \<notin> set as" using b(1,2) by (auto simp: link)
  from best_swapPairs_loop_spec [OF this] obtain h2 where h2: "best_swapPairs_loop h1 (Some ?d) = Some h2" "live h2 ?d"
    "ls h2 (nxt h2 ?d) (swap2 as) None" "relinks (insert ?d (set as)) h1 h2" by blast
  have "best_swapPairs u h p = return_next h2 ?d"
    using sh h2(1) by (simp add: best_swapPairs_def link h1_def)
  moreover have "?d \<notin> set (swap2 as)" using b(2) by simp
  ultimately show ?thesis using return_local [OF ok relinks_trans [OF b(3) h2(4)] h2(2,3)] by simp
qed

end
