(* ===== verification/Link_Merge.thy ===== *)
theory Link_Merge
  imports Link_Reverse
begin

text \<open>Merging two sorted lists, merging \<open>k\<close> of them, and merge sort of a list.\<close>

section \<open>Merging as a function, and stable sorting\<close>

fun mrg :: "('a \<Rightarrow> 'a \<Rightarrow> bool) \<Rightarrow> 'a list \<Rightarrow> 'a list \<Rightarrow> 'a list" where
  "mrg P [] ys = ys"
| "mrg P xs [] = xs"
| "mrg P (x # xs) (y # ys) = (if P x y then x # mrg P xs (y # ys) else y # mrg P (x # xs) ys)"

lemma mrg_Nil2 [simp]: "mrg P xs [] = xs"
  by (cases xs) auto

lemma mset_mrg [simp]: "mset (mrg P xs ys) = mset xs + mset ys"
  by (induction P xs ys rule: mrg.induct) auto

lemma set_mrg [simp]: "set (mrg P xs ys) = set xs \<union> set ys"
  using mset_mrg [of P xs ys] by (metis set_mset_mset set_mset_union)

lemma sorted_mrg_le:
  fixes w :: "'a \<Rightarrow> int"
  shows "sorted (map w xs) \<Longrightarrow> sorted (map w ys) \<Longrightarrow> sorted (map w (mrg (\<lambda>x y. w x \<le> w y) xs ys))"
proof (induction "\<lambda>x y. w x \<le> w y" xs ys rule: mrg.induct)
  case (3 x xs y ys)
  then show ?case by (cases "w x \<le> w y") force+
qed simp_all

lemma sorted_mrg_less:
  fixes w :: "'a \<Rightarrow> int"
  shows "sorted (map w xs) \<Longrightarrow> sorted (map w ys) \<Longrightarrow> sorted (map w (mrg (\<lambda>x y. w x < w y) xs ys))"
proof (induction "\<lambda>x y. w x < w y" xs ys rule: mrg.induct)
  case (3 x xs y ys)
  then show ?case by (cases "w x < w y") force+
qed simp_all

text \<open>Taking from the first list on equal keys keeps the order of equal keys.\<close>

lemma filter_mrg:
  fixes w :: "'a \<Rightarrow> int"
  assumes "sorted (map w xs)" "sorted (map w ys)"
  shows "filter (\<lambda>z. w z = k) (mrg (\<lambda>x y. w x \<le> w y) xs ys) = filter (\<lambda>z. w z = k) xs @ filter (\<lambda>z. w z = k) ys"
  using assms
proof (induction "\<lambda>x y. w x \<le> w y" xs ys rule: mrg.induct)
  case (3 x xs y ys)
  show ?case
  proof (cases "w x \<le> w y")
    case True
    then show ?thesis using 3 by simp
  next
    case False
    have "filter (\<lambda>z. w z = k) (x # xs) = []" if "k = w y"
      using 3(3) False that by (auto simp: filter_empty_conv)
    then show ?thesis using 3 False by auto
  qed
qed simp_all

lemma mrg_sort_key:
  fixes w :: "'a \<Rightarrow> int"
  shows "mrg (\<lambda>x y. w x \<le> w y) (sort_key w xs) (sort_key w ys) = sort_key w (xs @ ys)"
proof (rule sym, rule properties_for_sort_key)
  show "mset (mrg (\<lambda>x y. w x \<le> w y) (sort_key w xs) (sort_key w ys)) = mset (xs @ ys)" by simp
  show "sorted (map w (mrg (\<lambda>x y. w x \<le> w y) (sort_key w xs) (sort_key w ys)))" by (intro sorted_mrg_le) simp_all
  fix k
  show "filter (\<lambda>x. w k = w x) (mrg (\<lambda>x y. w x \<le> w y) (sort_key w xs) (sort_key w ys)) = filter (\<lambda>x. w k = w x) (xs @ ys)"
    using filter_mrg [of w "sort_key w xs" "sort_key w ys" "w k"]
    by (simp add: eq_commute [of "w k"] sort_key_stable)
qed

section \<open>\<open>mergeklist.c\<close>\<close>

text \<open>The loop, followed by the assignment of the rest to \<open>r->next\<close>.\<close>

lemma mergelist_loop_spec:
  "ls h a as None \<Longrightarrow> ls h b bs None \<Longrightarrow> live h r \<Longrightarrow> nxt h r = None \<Longrightarrow> distinct (r # as @ bs) \<Longrightarrow>
   \<exists>a' b' r' h'. mergelist_loop h a b (Some r) = Some (a', b', Some r', h') \<and> live h' r' \<and> (a' = None \<or> b' = None) \<and>
     nxt h' r' = None \<and> r' \<in> set (r # as @ bs) \<and> relinks (set (r # as @ bs)) h h' \<and>
     ls (setn h' r' (if a' \<noteq> None then a' else b')) (Some r) (r # mrg (\<lambda>x y. vl h x < vl h y) as bs) None"
proof (induction "\<lambda>x y. vl h x < vl h y" as bs arbitrary: h a b r rule: mrg.induct)
  case (1 bs)
  then have "mergelist_loop h a b (Some r) = Some (None, b, Some r, h)"
    by (subst mergelist_loop.simps) (simp add: link)
  then show ?case using 1 by (auto simp: link)
next
  case (2 x xs)
  then have "b = None" "a = Some x" by (simp_all add: link)
  then have "mergelist_loop h a b (Some r) = Some (a, None, Some r, h)"
    by (subst mergelist_loop.simps) simp
  with \<open>a = Some x\<close> show ?case using 2 by (auto simp: link)
next
  case (3 x xs y ys)
  have a: "a = Some x" "live h x" "ls h (nxt h x) xs None" and b: "b = Some y" "live h y" "ls h (nxt h y) ys None"
    using 3(3,4) by (auto simp: link)
  have D: "x \<noteq> r" "y \<noteq> r" "x \<noteq> y" "x \<notin> set xs" "y \<notin> set xs" "x \<notin> set ys" "y \<notin> set ys" "r \<notin> set xs" "r \<notin> set ys"
    "distinct (xs @ ys)" using 3(7) by auto
  show ?case
  proof (cases "vl h x < vl h y")
    case True
    let ?h = "setn (setn h r (Some x)) x None"
    have e: "mergelist_loop h a b (Some r) = mergelist_loop ?h (nxt h x) b (Some x)"
      using a b 3(5) D True by (subst mergelist_loop.simps) (simp add: link)
    have "ls ?h (nxt h x) xs None" "ls ?h b (y # ys) None" "live ?h x" "nxt ?h x = None" "distinct (x # xs @ y # ys)"
      using a b 3(5) D by (simp_all add: link)
    from 3(1) [OF True, of ?h, unfolded vl_setn, OF refl this] obtain a' b' r' h' where
      IH: "mergelist_loop ?h (nxt h x) b (Some x) = Some (a', b', Some r', h')" "live h' r'" "a' = None \<or> b' = None"
        "nxt h' r' = None" "r' \<in> set (x # xs @ y # ys)" "relinks (set (x # xs @ y # ys)) ?h h'"
        "ls (setn h' r' (if a' \<noteq> None then a' else b')) (Some x) (x # mrg (\<lambda>x y. vl h x < vl h y) xs (y # ys)) None" by blast
    have rr: "relinks (set (r # (x # xs) @ y # ys)) ?h h'" by (rule relinks_mono [OF IH(6)]) auto
    from relinks_after_setn [OF relinks_after_setn [OF rr]] have R: "relinks (set (r # (x # xs) @ y # ys)) h h'" by simp
    have "nxt h' r = Some x" "live h' r" using D 3(5) relinks_nxt [OF IH(6), of r] relinks_live [OF IH(6)] a by (auto simp: link)
    moreover have "r' \<noteq> r" using IH(5) D by auto
    ultimately show ?thesis using e IH(1-5,7) R True by (auto simp: link)
  next
    case False
    let ?h = "setn (setn h r (Some y)) y None"
    have e: "mergelist_loop h a b (Some r) = mergelist_loop ?h a (nxt h y) (Some y)"
      using a b 3(5) D False by (subst mergelist_loop.simps) (simp add: link)
    have "ls ?h a (x # xs) None" "ls ?h (nxt h y) ys None" "live ?h y" "nxt ?h y = None" "distinct (y # (x # xs) @ ys)"
      using a b 3(5) D by (simp_all add: link)
    from 3(2) [OF False, of ?h, unfolded vl_setn, OF refl this] obtain a' b' r' h' where
      IH: "mergelist_loop ?h a (nxt h y) (Some y) = Some (a', b', Some r', h')" "live h' r'" "a' = None \<or> b' = None"
        "nxt h' r' = None" "r' \<in> set (y # (x # xs) @ ys)" "relinks (set (y # (x # xs) @ ys)) ?h h'"
        "ls (setn h' r' (if a' \<noteq> None then a' else b')) (Some y) (y # mrg (\<lambda>x y. vl h x < vl h y) (x # xs) ys) None" by blast
    have rr: "relinks (set (r # (x # xs) @ y # ys)) ?h h'" by (rule relinks_mono [OF IH(6)]) auto
    from relinks_after_setn [OF relinks_after_setn [OF rr]] have R: "relinks (set (r # (x # xs) @ y # ys)) h h'" by simp
    have "nxt h' r = Some y" "live h' r" using D 3(5) relinks_nxt [OF IH(6), of r] relinks_live [OF IH(6)] b by (auto simp: link)
    moreover have "r' \<noteq> r" using IH(5) D by auto
    ultimately show ?thesis using e IH(1-5,7) R False by (auto simp: link)
  qed
qed

theorem mergelist_spec:
  assumes ok: "heap_ok h" and L: "ls h a as None" "ls h b bs None" and D: "set as \<inter> set bs = {}"
  shows "\<exists>p h'. mergelist u h a b = Some (p, h') \<and> ls h' p (mrg (\<lambda>x y. vl h x < vl h y) as bs) None \<and>
    relinks (set as \<union> set bs) h h'"
proof -
  let ?d = "brk h"
  have d: "?d \<notin> set as" "?d \<notin> set bs" using fresh_loc [OF ok] L by blast+
  let ?h = "setn (loc h u) ?d None"
  have P: "ls ?h a as None" "ls ?h b bs None" "live ?h ?d" "nxt ?h ?d = None" "distinct (?d # as @ bs)"
    using L d D ls_distinct [OF L(1)] ls_distinct [OF L(2)] by (simp_all add: link ls_loc)
  obtain a' b' r' h' where m: "mergelist_loop ?h a b (Some ?d) = Some (a', b', Some r', h')" "live h' r'" "a' = None \<or> b' = None"
    "nxt h' r' = None" "r' \<in> set (?d # as @ bs)" "relinks (set (?d # as @ bs)) ?h h'"
    "ls (setn h' r' (if a' \<noteq> None then a' else b')) (Some ?d) (?d # mrg (\<lambda>x y. vl ?h x < vl ?h y) as bs) None"
    using mergelist_loop_spec [OF P] by blast
  define h2 where "h2 = setn h' r' (if a' \<noteq> None then a' else b')"
  have "mrg (\<lambda>x y. vl ?h x < vl ?h y) as bs = mrg (\<lambda>x y. vl h x < vl h y) as bs"
    using d by (induction "\<lambda>x y. vl h x < vl h y" as bs rule: mrg.induct) (auto simp: vl_setn vl_loc)
  then have l2: "live h2 ?d" "ls h2 (nxt h2 ?d) (mrg (\<lambda>x y. vl h x < vl h y) as bs) None" using m(7) by (simp_all add: h2_def ls_Cons)
  have "relinks (set (?d # as @ bs)) ?h h2"
    unfolding h2_def by (rule relinks_trans [OF m(6) relinks_setn [OF m(5)]])
  from relinks_after_setn [OF this] have R: "relinks (insert ?d (set as \<union> set bs)) (loc h u) h2" by simp
  have "(if a' \<noteq> None \<or> b' \<noteq> None then set_next h' (Some r') (if a' \<noteq> None then a' else b') else Some h') = Some h2"
    using m(2,4) setn_same [OF m(2,4)] by (auto simp: h2_def link)
  then have "mergelist u h a b = return_next h2 ?d"
    using m(1) by (simp add: mergelist_def link split del: if_split)
  moreover have "?d \<notin> set (mrg (\<lambda>x y. vl h x < vl h y) as bs)" using d by simp
  ultimately show ?thesis using return_local [OF ok R l2] by simp
qed

text \<open>\<open>k\<close> sorted lists of an array, none of them sharing a node.\<close>

fun lists_at :: "lheap \<Rightarrow> ptr list \<Rightarrow> nat list list \<Rightarrow> bool" where
  "lists_at h [] [] \<longleftrightarrow> True"
| "lists_at h (p # ps) (as # ass) \<longleftrightarrow> ls h p as None \<and> lists_at h ps ass"
| "lists_at h _ _ \<longleftrightarrow> False"

lemma lists_at_append:
  "lists_at h ps (ass @ bss) \<longleftrightarrow> lists_at h (take (length ass) ps) ass \<and> lists_at h (drop (length ass) ps) bss"
proof (induction ass arbitrary: ps)
  case Nil
  show ?case by simp
next
  case (Cons as ass)
  then show ?case by (cases ps) auto
qed

lemma lists_at_relinks:
  "relinks S h h' \<Longrightarrow> lists_at h ps ass \<Longrightarrow> (\<Union>as\<in>set ass. set as) \<inter> S = {} \<Longrightarrow> lists_at h' ps ass"
proof (induction h ps ass rule: lists_at.induct)
  case (2 h p ps as ass)
  moreover have "set as \<inter> S = {}" using 2(4) by auto
  ultimately show ?case using relinks_ls [of S h h' as] by auto
qed simp_all

lemma lists_at_length: "lists_at h ps ass \<Longrightarrow> length ass = length ps"
  by (induction h ps ass rule: lists_at.induct) auto

theorem mergeKLists_spec:
  "heap_ok h \<Longrightarrow> lists_at h (take (length ass) ps) ass \<Longrightarrow> distinct (concat ass) \<Longrightarrow>
   (\<forall>as\<in>set ass. sorted (map (vl h) as)) \<Longrightarrow>
   \<exists>p h' bs. mergeKLists u h ps (int (length ass)) = Some (p, h') \<and> ls h' p bs None \<and> mset bs = mset (concat ass) \<and>
     sorted (map (vl h) bs) \<and> relinks (set (concat ass)) h h'"
proof (induction "length ass" arbitrary: h ps ass rule: less_induct)
  case less
  note ok = less.prems(1) and L = less.prems(2) and D = less.prems(3) and S = less.prems(4)
  consider "ass = []" | as where "ass = [as]" | "2 \<le> length ass" by (cases ass; cases "tl ass"; auto)
  then show ?case
  proof cases
    case 1
    have "mergeKLists u h ps (int (length ass)) = Some (None, h)" using 1 by (subst mergeKLists.simps) simp
    then show ?thesis using 1 by (auto simp: link)
  next
    case (2 as)
    then obtain p ps' where ps: "ps = p # ps'" using L by (cases ps) auto
    have "mergeKLists u h ps (int (length ass)) = Some (p, h)" using 2 ps by (subst mergeKLists.simps) (simp add: aread_def)
    moreover have "ls h p as None" using L 2 ps by simp
    ultimately show ?thesis using 2 S by auto
  next
    case 3
    define k where "k = length ass div 2"
    define xs ys where "xs = take k ass" and "ys = drop k ass"
    have ass: "ass = xs @ ys" and lx: "length xs = k" and ly: "length ys = length ass - k" and lt: "k < length ass" "0 < k"
      using 3 by (simp_all add: xs_def ys_def k_def)
    have k: "int (length ass) div 2 = int k" "int (length ass) - int k = int (length ys)"
      using lt by (simp_all add: k_def ly zdiv_int)
    have L': "lists_at h (take k ps) xs" "lists_at h (take (length ys) (drop k ps)) ys"
    proof -
      have "take k (take (length ass) ps) = take k ps" using lt by (simp add: min_def)
      moreover have "drop k (take (length ass) ps) = take (length ys) (drop k ps)" using ly by (simp add: drop_take)
      ultimately show "lists_at h (take k ps) xs" "lists_at h (take (length ys) (drop k ps)) ys"
        using L unfolding lists_at_append [of h "take (length ass) ps" xs ys, folded ass] lx by simp_all
    qed
    have D': "distinct (concat xs)" "distinct (concat ys)" "set (concat xs) \<inter> set (concat ys) = {}" using D ass by auto
    have S': "\<forall>as\<in>set xs. sorted (map (vl h) as)" "\<forall>as\<in>set ys. sorted (map (vl h) as)" using S ass by auto
    have "length xs < length ass" using lx lt by simp
    from less.hyps [OF this ok _ D'(1) S'(1), of ps] L'(1) lx obtain p1 h1 bs1 where
      1: "mergeKLists u h ps (int k) = Some (p1, h1)" "ls h1 p1 bs1 None" "mset bs1 = mset (concat xs)" "sorted (map (vl h) bs1)"
        "relinks (set (concat xs)) h h1" by auto
    have ok1: "heap_ok h1" by (rule relinks_heap [OF 1(5) ok])
    have "(\<Union>as\<in>set ys. set as) \<inter> set (concat xs) = {}" using D'(3) by auto
    from lists_at_relinks [OF 1(5) L'(2) this] have L1: "lists_at h1 (take (length ys) (drop k ps)) ys" .
    have S1: "\<forall>as\<in>set ys. sorted (map (vl h1) as)" using S'(2) relinks_vl [OF 1(5)] by simp
    have "length ys < length ass" using ly lt by simp
    from less.hyps [OF this ok1 L1 D'(2) S1] obtain p2 h2 bs2 where
      2: "mergeKLists u h1 (drop k ps) (int (length ys)) = Some (p2, h2)" "ls h2 p2 bs2 None" "mset bs2 = mset (concat ys)"
        "sorted (map (vl h1) bs2)" "relinks (set (concat ys)) h1 h2" by auto
    have ok2: "heap_ok h2" by (rule relinks_heap [OF 2(5) ok1])
    have s1: "set bs1 = set (concat xs)" by (rule mset_eq_setD [OF 1(3)])
    have s2: "set bs2 = set (concat ys)" by (rule mset_eq_setD [OF 2(3)])
    have dj: "set bs1 \<inter> set (concat ys) = {}" "set bs1 \<inter> set bs2 = {}" using s1 s2 D'(3) by simp_all
    have l1: "ls h2 p1 bs1 None" using 1(2) relinks_ls [OF 2(5) dj(1)] by simp
    have w: "vl h2 = vl h" "vl h1 = vl h" using relinks_vl [OF 1(5)] relinks_vl [OF 2(5)] by simp_all
    obtain p h' where m: "mergelist u h2 p1 p2 = Some (p, h')" "ls h' p (mrg (\<lambda>x y. vl h x < vl h y) bs1 bs2) None"
      "relinks (set bs1 \<union> set bs2) h2 h'" using mergelist_spec [OF ok2 l1 2(2) dj(2), of u] unfolding w by blast
    have "ass \<noteq> []" using 3 by auto
    then have "mergeKLists u h ps (int (length ass)) = Some (p, h')"
      using 1(1) 2(1) m(1) 3 k by (subst mergeKLists.simps) simp
    moreover have "sorted (map (vl h) (mrg (\<lambda>x y. vl h x < vl h y) bs1 bs2))"
      using 1(4) 2(4) w by (intro sorted_mrg_less) simp_all
    moreover have "relinks (set (concat ass)) h h'"
    proof -
      have "set (concat xs) \<subseteq> set (concat ass)" "set (concat ys) \<subseteq> set (concat ass)" "set bs1 \<union> set bs2 \<subseteq> set (concat ass)"
        using s1 s2 ass by auto
      then show ?thesis
        using relinks_mono [OF 1(5)] relinks_mono [OF 2(5)] relinks_mono [OF m(3)] relinks_trans by metis
    qed
    ultimately show ?thesis using m(2) 1(3) 2(3) ass by (metis concat_append mset_append mset_mrg)
  qed
qed

section \<open>\<open>merge_sort_list.c\<close>\<close>

lemma mergeList_loop_spec:
  "ls h a as None \<Longrightarrow> ls h b bs None \<Longrightarrow> live h r \<Longrightarrow> nxt h r = None \<Longrightarrow> distinct (r # as @ bs) \<Longrightarrow>
   \<exists>a' b' r' h'. mergeList_loop h a b (Some r) = Some (a', b', Some r', h') \<and> live h' r' \<and> (a' = None \<or> b' = None) \<and>
     r' \<in> set (r # as @ bs) \<and> relinks (set (r # as @ bs)) h h' \<and>
     ls (setn h' r' (if a' \<noteq> None then a' else b')) (Some r) (r # mrg (\<lambda>x y. vl h x \<le> vl h y) as bs) None"
proof (induction "\<lambda>x y. vl h x \<le> vl h y" as bs arbitrary: h a b r rule: mrg.induct)
  case (1 bs)
  then have "mergeList_loop h a b (Some r) = Some (None, b, Some r, h)"
    by (subst mergeList_loop.simps) (simp add: link)
  then show ?case using 1 by (auto simp: link)
next
  case (2 x xs)
  then have "b = None" "a = Some x" by (simp_all add: link)
  then have "mergeList_loop h a b (Some r) = Some (a, None, Some r, h)"
    by (subst mergeList_loop.simps) simp
  with \<open>a = Some x\<close> show ?case using 2 by (auto simp: link)
next
  case (3 x xs y ys)
  have a: "a = Some x" "live h x" "ls h (nxt h x) xs None" and b: "b = Some y" "live h y" "ls h (nxt h y) ys None"
    using 3(3,4) by (auto simp: link)
  have D: "x \<noteq> r" "y \<noteq> r" "x \<noteq> y" "x \<notin> set xs" "y \<notin> set xs" "x \<notin> set ys" "y \<notin> set ys" "r \<notin> set xs" "r \<notin> set ys"
    "distinct (xs @ ys)" using 3(7) by auto
  show ?case
  proof (cases "vl h x \<le> vl h y")
    case True
    let ?h = "setn (setn h r (Some x)) x None"
    have e: "mergeList_loop h a b (Some r) = mergeList_loop ?h (nxt h x) b (Some x)"
      using a b 3(5) D True by (subst mergeList_loop.simps) (simp add: link)
    have "ls ?h (nxt h x) xs None" "ls ?h b (y # ys) None" "live ?h x" "nxt ?h x = None" "distinct (x # xs @ y # ys)"
      using a b 3(5) D by (simp_all add: link)
    from 3(1) [OF True, of ?h, unfolded vl_setn, OF refl this] obtain a' b' r' h' where
      IH: "mergeList_loop ?h (nxt h x) b (Some x) = Some (a', b', Some r', h')" "live h' r'" "a' = None \<or> b' = None"
        "r' \<in> set (x # xs @ y # ys)" "relinks (set (x # xs @ y # ys)) ?h h'"
        "ls (setn h' r' (if a' \<noteq> None then a' else b')) (Some x) (x # mrg (\<lambda>x y. vl h x \<le> vl h y) xs (y # ys)) None" by blast
    have rr: "relinks (set (r # (x # xs) @ y # ys)) ?h h'" by (rule relinks_mono [OF IH(5)]) auto
    from relinks_after_setn [OF relinks_after_setn [OF rr]] have R: "relinks (set (r # (x # xs) @ y # ys)) h h'" by simp
    have "nxt h' r = Some x" "live h' r" using D 3(5) relinks_nxt [OF IH(5), of r] relinks_live [OF IH(5)] a by (auto simp: link)
    moreover have "r' \<noteq> r" using IH(4) D by auto
    ultimately show ?thesis using e IH(1-4,6) R True by (auto simp: link)
  next
    case False
    let ?h = "setn (setn h r (Some y)) y None"
    have e: "mergeList_loop h a b (Some r) = mergeList_loop ?h a (nxt h y) (Some y)"
      using a b 3(5) D False by (subst mergeList_loop.simps) (simp add: link)
    have "ls ?h a (x # xs) None" "ls ?h (nxt h y) ys None" "live ?h y" "nxt ?h y = None" "distinct (y # (x # xs) @ ys)"
      using a b 3(5) D by (simp_all add: link)
    from 3(2) [OF False, of ?h, unfolded vl_setn, OF refl this] obtain a' b' r' h' where
      IH: "mergeList_loop ?h a (nxt h y) (Some y) = Some (a', b', Some r', h')" "live h' r'" "a' = None \<or> b' = None"
        "r' \<in> set (y # (x # xs) @ ys)" "relinks (set (y # (x # xs) @ ys)) ?h h'"
        "ls (setn h' r' (if a' \<noteq> None then a' else b')) (Some y) (y # mrg (\<lambda>x y. vl h x \<le> vl h y) (x # xs) ys) None" by blast
    have rr: "relinks (set (r # (x # xs) @ y # ys)) ?h h'" by (rule relinks_mono [OF IH(5)]) auto
    from relinks_after_setn [OF relinks_after_setn [OF rr]] have R: "relinks (set (r # (x # xs) @ y # ys)) h h'" by simp
    have "nxt h' r = Some y" "live h' r" using D 3(5) relinks_nxt [OF IH(5), of r] relinks_live [OF IH(5)] b by (auto simp: link)
    moreover have "r' \<noteq> r" using IH(4) D by auto
    ultimately show ?thesis using e IH(1-4,6) R False by (auto simp: link)
  qed
qed

theorem mergeList_spec:
  assumes ok: "heap_ok h" and L: "ls h a as None" "ls h b bs None" and D: "set as \<inter> set bs = {}"
  shows "\<exists>p h'. mergeList u h a b = Some (p, h') \<and> ls h' p (mrg (\<lambda>x y. vl h x \<le> vl h y) as bs) None \<and>
    relinks (set as \<union> set bs) h h'"
proof -
  let ?d = "brk h"
  have d: "?d \<notin> set as" "?d \<notin> set bs" using fresh_loc [OF ok] L by blast+
  let ?h = "setn (loc h u) ?d None"
  have P: "ls ?h a as None" "ls ?h b bs None" "live ?h ?d" "nxt ?h ?d = None" "distinct (?d # as @ bs)"
    using L d D ls_distinct [OF L(1)] ls_distinct [OF L(2)] by (simp_all add: link ls_loc)
  obtain a' b' r' h' where m: "mergeList_loop ?h a b (Some ?d) = Some (a', b', Some r', h')" "live h' r'" "a' = None \<or> b' = None"
    "r' \<in> set (?d # as @ bs)" "relinks (set (?d # as @ bs)) ?h h'"
    "ls (setn h' r' (if a' \<noteq> None then a' else b')) (Some ?d) (?d # mrg (\<lambda>x y. vl ?h x \<le> vl ?h y) as bs) None"
    using mergeList_loop_spec [OF P] by blast
  define h2 where "h2 = setn h' r' (if a' \<noteq> None then a' else b')"
  have "mrg (\<lambda>x y. vl ?h x \<le> vl ?h y) as bs = mrg (\<lambda>x y. vl h x \<le> vl h y) as bs"
    using d by (induction "\<lambda>x y. vl h x \<le> vl h y" as bs rule: mrg.induct) (auto simp: vl_setn vl_loc)
  then have l2: "live h2 ?d" "ls h2 (nxt h2 ?d) (mrg (\<lambda>x y. vl h x \<le> vl h y) as bs) None" using m(6) by (simp_all add: h2_def ls_Cons)
  have "relinks (set (?d # as @ bs)) ?h h2"
    unfolding h2_def by (rule relinks_trans [OF m(5) relinks_setn [OF m(4)]])
  from relinks_after_setn [OF this] have R: "relinks (insert ?d (set as \<union> set bs)) (loc h u) h2" by simp
  have "mergeList u h a b = return_next h2 ?d"
    using m(1,2) by (simp add: mergeList_def link h2_def split del: if_split)
  moreover have "?d \<notin> set (mrg (\<lambda>x y. vl h x \<le> vl h y) as bs)" using d by simp
  ultimately show ?thesis using return_local [OF ok R l2] by simp
qed

lemma halve_spec:
  "ls h (Some f) (f # fs) None \<Longrightarrow> ls h s (ss @ z # zs) None \<Longrightarrow> length ss = length fs div 2 \<Longrightarrow>
   halve h (Some f) s = Some (Some z)"
proof (induction "length fs" arbitrary: f fs s ss rule: less_induct)
  case less
  have lf: "live h f" "ls h (nxt h f) fs None" using less.prems(1) by (auto simp: link)
  show ?case
  proof (cases fs)
    case Nil
    then have "ss = []" "nxt h f = None" using less.prems(3) lf by (auto simp: link)
    then show ?thesis using less.prems(2) lf by (subst halve.simps) (simp add: link)
  next
    case (Cons f1 fs1)
    then have l1: "nxt h f = Some f1" "live h f1" "ls h (nxt h f1) fs1 None" using lf by (auto simp: link)
    show ?thesis
    proof (cases fs1)
      case Nil
      then have "ss = []" "nxt h f1 = None" using less.prems(3) l1 Cons by (auto simp: link)
      then show ?thesis using less.prems(2) lf l1 by (subst halve.simps) (simp add: link)
    next
      case c2: (Cons f2 fs2)
      then have l2: "nxt h f1 = Some f2" "ls h (Some f2) (f2 # fs2) None" using l1 by (auto simp: link)
      obtain s0 ss' where ss: "ss = s0 # ss'" "length ss' = length fs2 div 2" using less.prems(3) Cons c2 by (cases ss) auto
      then have ls': "s = Some s0" "live h s0" "ls h (nxt h s0) (ss' @ z # zs) None" using less.prems(2) by (auto simp: link)
      have "halve h (Some f2) (nxt h s0) = Some (Some z)"
        by (rule less.hyps [OF _ l2(2) ls'(3) ss(2)]) (simp add: Cons c2)
      then show ?thesis using lf l1 l2 ls' by (subst halve.simps) (simp add: link)
    qed
  qed
qed

theorem sortList_spec:
  "heap_ok h \<Longrightarrow> ls h p as None \<Longrightarrow>
   \<exists>r h'. sortList u h p = Some (r, h') \<and> ls h' r (sort_key (vl h) as) None \<and> relinks (set as) h h'"
proof (induction "length as" arbitrary: h p as rule: less_induct)
  case less
  note ok = less.prems(1) and L = less.prems(2)
  show ?case
  proof (cases "length as < 2")
    case True
    then have "short_list h p = Some True" "sort_key (vl h) as = as"
      using L by (cases as; cases "tl as"; auto simp: link)+
    then show ?thesis using L by (subst sortList.simps) simp
  next
    case False
    then obtain f a1 fs' where as: "as = f # a1 # fs'" by (cases as; cases "tl as") auto
    then have sh: "short_list h p = Some False" and p: "p = Some f" using L by (auto simp: link)
    define k where "k = length (a1 # fs') div 2"
    define ss z zs where "ss = take k as" and "z = as ! k" and "zs = drop (Suc k) as"
    have k: "k < length as" "Suc k < length as" by (simp_all add: k_def as)
    have e: "as = ss @ z # zs" unfolding ss_def z_def zs_def by (rule id_take_nth_drop [OF k(1)])
    have "length ss = length (a1 # fs') div 2" using k by (simp add: ss_def k_def)
    then have hv: "halve h p p = Some (Some z)"
      using halve_spec [of h f "a1 # fs'" p ss z zs] L p e as by simp
    obtain nz where s: "ls h p (ss @ [z]) nz" "ls h nz zs None"
    proof -
      have "ls h p ((ss @ [z]) @ zs) None" using L e by simp
      then show ?thesis using that unfolding ls_append [of h p "ss @ [z]"] by blast
    qed
    have D: "distinct (ss @ z # zs)" using ls_distinct [OF L] e by simp
    have lz: "live h z" "nxt h z = nz" using s(1) by (auto simp: ls_append link)
    define h1 where "h1 = setn h z None"
    have l1: "ls h1 p (ss @ [z]) None" "ls h1 nz zs None"
      using s D ls_setn_end [OF s(1)] by (auto simp: h1_def ls_setn)
    have ok1: "heap_ok h1" using relinks_heap [OF relinks_setn [of z "{z}"] ok] by (simp add: h1_def)
    have v1: "vl h1 = vl h" by (simp add: h1_def vl_setn)
    have "length (ss @ [z]) < length as" using k by (simp add: ss_def)
    from less.hyps [OF this ok1 l1(1)] obtain p2 h2 where h2: "sortList u h1 p = Some (p2, h2)"
      "ls h2 p2 (sort_key (vl h) (ss @ [z])) None" "relinks (set (ss @ [z])) h1 h2" unfolding v1 by blast
    have dj: "set zs \<inter> set (ss @ [z]) = {}" using D by auto
    have ok2: "heap_ok h2" by (rule relinks_heap [OF h2(3) ok1])
    have v2: "vl h2 = vl h" using relinks_vl [OF h2(3)] v1 by simp
    have "ls h2 nz zs None" using l1(2) relinks_ls [OF h2(3) dj] by simp
    moreover have "length zs < length as" using k by (simp add: zs_def)
    ultimately obtain p3 h3 where h3: "sortList u h2 nz = Some (p3, h3)" "ls h3 p3 (sort_key (vl h) zs) None"
      "relinks (set zs) h2 h3" using less.hyps [OF _ ok2] unfolding v2 by blast
    have ok3: "heap_ok h3" by (rule relinks_heap [OF h3(3) ok2])
    have v3: "vl h3 = vl h" using relinks_vl [OF h3(3)] v2 by simp
    have "set (sort_key (vl h) (ss @ [z])) \<inter> set zs = {}" using dj by auto
    from relinks_ls [OF h3(3) this] have l3: "ls h3 p2 (sort_key (vl h) (ss @ [z])) None" using h2(2) by simp
    have "set (sort_key (vl h) (ss @ [z])) \<inter> set (sort_key (vl h) zs) = {}" using dj by auto
    from mergeList_spec [OF ok3 l3 h3(2) this, of u] obtain r h4 where h4: "mergeList u h3 p2 p3 = Some (r, h4)"
      "ls h4 r (sort_key (vl h) ((ss @ [z]) @ zs)) None" "relinks (set (ss @ [z]) \<union> set zs) h3 h4"
      unfolding v3 mrg_sort_key set_sort by blast
    have "sortList u h p = Some (r, h4)"
      using sh hv lz h2(1) h3(1) h4(1) by (subst sortList.simps) (simp add: link h1_def)
    moreover have "relinks (set as) h h4"
    proof -
      have "relinks (set as) h h1" unfolding h1_def by (rule relinks_setn) (simp add: e)
      moreover have "relinks (set as) h1 h2" by (rule relinks_mono [OF h2(3)]) (auto simp: e)
      moreover have "relinks (set as) h2 h3" by (rule relinks_mono [OF h3(3)]) (auto simp: e)
      moreover have "relinks (set as) h3 h4" by (rule relinks_mono [OF h4(3)]) (auto simp: e)
      ultimately show ?thesis using relinks_trans by blast
    qed
    moreover have "(ss @ [z]) @ zs = as" using e by simp
    ultimately show ?thesis using h4(2) by metis
  qed
qed

end
