(* ===== verification/Link_Insert.thy ===== *)
theory Link_Insert
  imports Link_Reverse
begin

text \<open>
  Insertion sort of a list. \<open>sortlist\<close> (\<open>linksort.c\<close>) and the best code of
  \<open>insert_sort_list.c\<close> both take the nodes one by one and put each behind the last node of the
  result that their test skips; one locale holds that argument for both.
\<close>

definition ins :: "('a \<Rightarrow> 'a \<Rightarrow> bool) \<Rightarrow> 'a \<Rightarrow> 'a list \<Rightarrow> 'a list" where
  "ins P a bs = takeWhile (P a) bs @ a # dropWhile (P a) bs"

lemma mset_ins [simp]: "mset (ins P a bs) = add_mset a (mset bs)"
proof -
  have "mset (takeWhile (P a) bs) + mset (dropWhile (P a) bs) = mset bs" by (metis mset_append takeWhile_dropWhile_id)
  then show ?thesis by (simp add: ins_def)
qed

lemma set_ins [simp]: "set (ins P a bs) = insert a (set bs)"
  using mset_ins [of P a bs] by (metis set_mset_add_mset_insert set_mset_mset)

lemma distinct_ins: "distinct (a # bs) \<Longrightarrow> distinct (ins P a bs)"
  by (metis mset.simps(2) mset_eq_imp_distinct_iff mset_ins)

lemma insert_behind:
  assumes L: "ls h (Some b) (b # xs @ ys) None" and D: "distinct (b # xs @ ys)" and a: "live h a" "a \<notin> set (b # xs @ ys)"
    and q: "q = last (b # xs)"
  shows "live h q" "ls (setn (setn h a (nxt h q)) q (Some a)) (Some b) (b # xs @ a # ys) None"
proof -
  obtain ws where ws: "b # xs = ws @ [q]" using q by (metis append_butlast_last_id list.distinct(1))
  have "ls h (Some b) ((ws @ [q]) @ ys) None" using L unfolding ws [symmetric] by simp
  then obtain r where r: "ls h (Some b) (ws @ [q]) r" "ls h r ys None" unfolding ls_append [of h _ "ws @ [q]"] by blast
  have q': "live h q" "nxt h q = r" using r(1) by (auto simp: ls_append link)
  then show "live h q" by simp
  have n: "a \<notin> set (ws @ [q])" "a \<notin> set ys" "q \<notin> set ws" "q \<notin> set ys" "a \<noteq> q"
  proof -
    have "distinct ((ws @ [q]) @ ys)" "a \<notin> set ((ws @ [q]) @ ys)" using D a(2) unfolding ws [symmetric] by simp_all
    then show "a \<notin> set (ws @ [q])" "a \<notin> set ys" "q \<notin> set ws" "q \<notin> set ys" "a \<noteq> q" by auto
  qed
  let ?h = "setn (setn h a r) q (Some a)"
  have "ls ?h (Some b) (ws @ [q]) (Some a)" using r(1) n by (intro ls_setn_end) (simp_all add: ls_setn)
  moreover have "ls ?h (Some a) (a # ys) None" using r(2) n a q' by (simp add: link)
  ultimately have "ls ?h (Some b) ((ws @ [q]) @ a # ys) None" using ls_append by blast
  then show "ls (setn (setn h a (nxt h q)) q (Some a)) (Some b) (b # xs @ a # ys) None"
    unfolding ws [symmetric] q'(2) by simp
qed

locale insertion_loop =
  fixes P :: "(nat \<Rightarrow> int) \<Rightarrow> nat \<Rightarrow> nat \<Rightarrow> bool"
    and find :: "lheap \<Rightarrow> nat \<Rightarrow> nat \<Rightarrow> ptr option"
    and loop :: "lheap \<Rightarrow> nat \<Rightarrow> ptr \<Rightarrow> lheap option"
  assumes loop_null: "loop h b None = Some h"
    and loop_step: "live h a \<Longrightarrow> find h a b = Some (Some q) \<Longrightarrow> live h q \<Longrightarrow>
      loop h b (Some a) = loop (setn (setn h a (nxt h q)) q (Some a)) b (nxt h a)"
    and find_end: "live h b \<Longrightarrow> nxt h b = None \<Longrightarrow> find h a b = Some (Some b)"
    and find_step: "live h b \<Longrightarrow> nxt h b = Some x \<Longrightarrow> live h x \<Longrightarrow> live h a \<Longrightarrow>
      find h a b = (if P (vl h) a x then find h a x else Some (Some b))"
begin

lemma find_spec:
  "ls h (Some b) (b # bs) None \<Longrightarrow> live h a \<Longrightarrow> find h a b = Some (Some (last (b # takeWhile (P (vl h) a) bs)))"
proof (induction bs arbitrary: b)
  case Nil
  then show ?case by (simp add: link find_end)
next
  case (Cons x bs)
  have L: "live h b" "nxt h b = Some x" "live h x" "ls h (Some x) (x # bs) None" using Cons.prems(1) by (auto simp: link)
  show ?case
    using find_step [OF L(1-3) Cons.prems(2)] Cons.IH [OF L(4) Cons.prems(2)] by simp
qed

lemma loop_spec:
  "ls h p as None \<Longrightarrow> ls h (Some b) (b # bs) None \<Longrightarrow> distinct (b # as @ bs) \<Longrightarrow>
   \<exists>h'. loop h b p = Some h' \<and> ls h' (Some b) (b # foldl (\<lambda>bs a. ins (P (vl h)) a bs) bs as) None \<and>
     relinks (set (b # as @ bs)) h h'"
proof (induction as arbitrary: h p bs)
  case Nil
  then show ?case by (simp add: link loop_null)
next
  case (Cons a as)
  have a: "p = Some a" "live h a" "ls h (nxt h a) as None" using Cons.prems(1) by (auto simp: link)
  define xs ys where "xs = takeWhile (P (vl h) a) bs" and "ys = dropWhile (P (vl h) a) bs"
  have bs: "bs = xs @ ys" by (simp add: xs_def ys_def)
  define q where "q = last (b # xs)"
  have f: "find h a b = Some (Some q)" using find_spec [OF Cons.prems(2) a(2)] by (simp add: q_def xs_def)
  have L: "ls h (Some b) (b # xs @ ys) None" "distinct (b # xs @ ys)" "a \<notin> set (b # xs @ ys)" using Cons.prems(2,3) bs by auto
  note i = insert_behind [OF L(1,2) a(2) L(3) q_def]
  define h1 where "h1 = setn (setn h a (nxt h q)) q (Some a)"
  have l: "loop h b p = loop h1 b (nxt h a)" unfolding a(1) h1_def by (rule loop_step [OF a(2) f i(1)])
  have qin: "q \<in> set (b # xs)" unfolding q_def by (rule last_in_set) simp
  have nq: "a \<notin> set as" "q \<notin> set as" using Cons.prems(3) qin bs by auto
  have v: "vl h1 = vl h" by (simp add: h1_def vl_setn)
  have "ls h1 (nxt h a) as None" using a(3) nq by (simp add: h1_def link)
  moreover have "ls h1 (Some b) (b # ins (P (vl h)) a bs) None" using i(2) by (simp add: h1_def ins_def xs_def ys_def)
  moreover have "distinct (b # as @ ins (P (vl h)) a bs)" using Cons.prems(3) distinct_ins [of a bs] by auto
  ultimately obtain h' where h': "loop h1 b (nxt h a) = Some h'"
    "ls h' (Some b) (b # foldl (\<lambda>bs a. ins (P (vl h)) a bs) (ins (P (vl h)) a bs) as) None"
    "relinks (set (b # as @ ins (P (vl h)) a bs)) h1 h'"
    using Cons.IH [of h1 "nxt h a" "ins (P (vl h)) a bs"] unfolding v by blast
  have "relinks (set (b # (a # as) @ bs)) h h1"
    unfolding h1_def by (rule relinks_trans; rule relinks_setn) (use qin bs in auto)
  moreover have "relinks (set (b # (a # as) @ bs)) h1 h'" by (rule relinks_mono [OF h'(3)]) auto
  ultimately show ?case using l h'(1,2) relinks_trans by auto
qed

end

lemma sortlist_step:
  "live h b \<Longrightarrow> nxt h b = Some x \<Longrightarrow> live h x \<Longrightarrow> live h a \<Longrightarrow>
   sortlist_find h (Some a) (Some b) = (if \<not> vl h a < vl h x then sortlist_find h (Some a) (Some x) else Some (Some b))"
  by (subst sortlist_find.simps) (simp add: link)

lemma best_step:
  "live h b \<Longrightarrow> nxt h b = Some x \<Longrightarrow> live h x \<Longrightarrow> live h a \<Longrightarrow>
   best_find h (Some a) (Some b) = (if vl h x < vl h a then best_find h (Some a) (Some x) else Some (Some b))"
  by (subst best_find.simps) (simp add: link)

interpretation sortl: insertion_loop "\<lambda>w a x. \<not> w a < w x" "\<lambda>h a b. sortlist_find h (Some a) (Some b)"
  "\<lambda>h b p. sortlist_loop h (Some b) p"
proof unfold_locales
  show "sortlist_loop h (Some b) None = Some h" for h b by (subst sortlist_loop.simps) simp
  show "sortlist_loop h (Some b) (Some a) = sortlist_loop (setn (setn h a (nxt h q)) q (Some a)) (Some b) (nxt h a)"
    if "live h a" "sortlist_find h (Some a) (Some b) = Some (Some q)" "live h q" for h a b q
    using that by (subst sortlist_loop.simps) (simp add: link)
  show "sortlist_find h (Some a) (Some b) = Some (Some b)" if "live h b" "nxt h b = None" for h a b
    using that by (subst sortlist_find.simps) (simp add: link)
qed (rule sortlist_step)

interpretation bestl: insertion_loop "\<lambda>w a x. w x < w a" "\<lambda>h a b. best_find h (Some a) (Some b)" best_loop
proof unfold_locales
  show "best_loop h b None = Some h" for h b by (subst best_loop.simps) simp
  show "best_loop h b (Some a) = best_loop (setn (setn h a (nxt h q)) q (Some a)) b (nxt h a)"
    if "live h a" "best_find h (Some a) (Some b) = Some (Some q)" "live h q" for h a b q
    using that by (subst best_loop.simps) (simp add: link)
  show "best_find h (Some a) (Some b) = Some (Some b)" if "live h b" "nxt h b = None" for h a b
    using that by (subst best_find.simps) (simp add: link)
qed (rule best_step)

section \<open>What the insertions compute\<close>

lemma sort_key_split:
  fixes w :: "'a \<Rightarrow> int"
  assumes s: "sort_key w xs = ts @ ds" and t: "\<forall>x\<in>set ts. w x \<le> w a" and d: "\<forall>y\<in>set ds. w a < w y"
  shows "sort_key w (xs @ [a]) = ts @ a # ds"
proof (rule properties_for_sort_key)
  have so: "sorted (map w (ts @ ds))" unfolding s [symmetric] by simp
  have ms: "mset (ts @ ds) = mset xs" unfolding s [symmetric] by simp
  then show "mset (ts @ a # ds) = mset (xs @ [a])" by simp
  have "\<forall>y\<in>set ds. w a \<le> w y" using d by (simp add: less_imp_le)
  then show "sorted (map w (ts @ a # ds))" using so t by (auto simp: sorted_append)
  fix k
  have f: "filter (\<lambda>x. w k = w x) (ts @ ds) = filter (\<lambda>x. w k = w x) xs"
    using sort_key_stable [of w "w k" xs] unfolding s by (simp add: eq_commute [of "w k"])
  have "w k = w a \<Longrightarrow> filter (\<lambda>x. w k = w x) ds = []" using d by (auto simp: filter_empty_conv)
  then show "filter (\<lambda>x. w k = w x) (ts @ a # ds) = filter (\<lambda>x. w k = w x) (xs @ [a])"
    using f by (cases "w k = w a") simp_all
qed

lemma sort_key_snoc:
  fixes w :: "'a \<Rightarrow> int"
  shows "sort_key w (xs @ [a]) = ins (\<lambda>a x. \<not> w a < w x) a (sort_key w xs)"
proof -
  define ts ds where "ts = takeWhile (\<lambda>x. \<not> w a < w x) (sort_key w xs)" and "ds = dropWhile (\<lambda>x. \<not> w a < w x) (sort_key w xs)"
  have s: "sort_key w xs = ts @ ds" by (simp add: ts_def ds_def)
  have t: "\<forall>x\<in>set ts. w x \<le> w a" unfolding ts_def by (auto dest: set_takeWhileD)
  have d: "\<forall>y\<in>set ds. w a < w y"
  proof (cases ds)
    case (Cons y ys)
    then have "w a < w y" unfolding ds_def by (metis dropWhile_eq_Cons_conv)
    moreover have "sorted (map w ds)" using s sorted_sort_key [of w xs] by (simp add: sorted_append)
    ultimately show ?thesis using Cons by auto
  qed simp
  show ?thesis unfolding ins_def ts_def [symmetric] ds_def [symmetric] by (rule sort_key_split [OF s t d])
qed

lemma foldl_ins_sort_key:
  fixes w :: "'a \<Rightarrow> int"
  shows "foldl (\<lambda>bs a. ins (\<lambda>a x. \<not> w a < w x) a bs) [] as = sort_key w as"
  by (induction as rule: rev_induct) (simp_all add: sort_key_snoc)

lemma insort_key_eq: "(\<And>y. y \<in> set (x # xs) \<Longrightarrow> f y = g y) \<Longrightarrow> insort_key f x xs = insort_key g x xs"
  by (induction xs) auto

lemma sort_key_eq: "(\<And>y. y \<in> set xs \<Longrightarrow> f y = g y) \<Longrightarrow> sort_key f xs = sort_key g xs"
proof (induction xs)
  case (Cons x xs)
  then have "sort_key f xs = sort_key g xs" by simp
  moreover have "insort_key f x (sort_key g xs) = insort_key g x (sort_key g xs)"
    using Cons.prems by (intro insort_key_eq) auto
  ultimately show ?case by simp
qed simp

lemma insort_key_ins:
  fixes w :: "'a \<Rightarrow> int"
  shows "insort_key w a bs = ins (\<lambda>a x. w x < w a) a bs"
  by (induction bs) (auto simp: ins_def)

lemma foldl_ins_before:
  fixes w :: "'a \<Rightarrow> int"
  shows "foldl (\<lambda>bs a. ins (\<lambda>a x. w x < w a) a bs) [] as = sort_key w (rev as)"
  by (simp add: sort_key_def foldr_conv_foldl insort_key_ins [symmetric])

section \<open>The three sorting functions\<close>

theorem sortlist_spec:
  assumes ok: "heap_ok h" and L: "ls h p as None"
  shows "\<exists>r h'. sortlist u h p = Some (r, h') \<and> ls h' r (sort_key (vl h) as) None \<and> relinks (set as) h h'"
proof -
  let ?a = "brk h" and ?b = "Suc (brk h)"
  define h0 where "h0 = loc h u"
  have bs: "brk h0 = ?b" "heap_ok h0" using ok by (simp_all add: h0_def loc_cells heap_ok_loc)
  have L0: "ls h0 p as None" using L fresh_loc [OF ok L] by (simp add: h0_def ls_loc)
  have fa: "?a \<notin> set as" "?b \<notin> set as" using fresh_loc [OF ok L] fresh_loc [OF bs(2) L0] bs(1) by simp_all
  define h1 where "h1 = setn (setn (loc h0 u) ?a p) ?b None"
  have lv: "live h1 ?a" "live h1 ?b" "live (loc h0 u) ?a" "live (loc h0 u) ?b" "nxt h1 ?a = p" "nxt h1 ?b = None"
    by (simp_all add: h1_def link h0_def loc_cells)
  have "ls h1 p as None" using L0 fa bs(1) by (simp add: h1_def link ls_loc)
  moreover have "ls h1 (Some ?b) [?b] None" using lv by (simp add: link)
  ultimately obtain h2 where h2: "sortlist_loop h1 (Some ?b) p = Some h2"
    "ls h2 (Some ?b) (?b # foldl (\<lambda>bs a. ins (\<lambda>a x. \<not> vl h1 a < vl h1 x) a bs) [] as) None"
    "relinks (set (?b # as)) h1 h2"
    using sortl.loop_spec [of h1 p as ?b "[]"] fa ls_distinct [OF L] by auto
  have v: "vl h1 a = vl h a" if "a \<in> set as" for a
  proof -
    have "a \<noteq> ?a" "a \<noteq> ?b" using that fa by auto
    then show ?thesis using bs(1) vl_loc [of a h0 u] by (simp add: h1_def vl_setn) (simp add: h0_def vl_loc)
  qed
  have "foldl (\<lambda>bs a. ins (\<lambda>a x. \<not> vl h1 a < vl h1 x) a bs) [] as = sort_key (vl h) as"
    unfolding foldl_ins_sort_key by (rule sort_key_eq) (rule v)
  then have l2: "live h2 ?b" "ls h2 (nxt h2 ?b) (sort_key (vl h) as) None" using h2(2) by (simp_all add: ls_Cons)
  have R: "relinks (insert ?b (insert ?a (set as))) (loc h0 u) h2"
  proof -
    have "relinks (insert ?b (insert ?a (set as))) h1 h2" by (rule relinks_mono [OF h2(3)]) auto
    from relinks_after_setn [OF relinks_after_setn [OF this [unfolded h1_def]]] show ?thesis by simp
  qed
  define h3 where "h3 = cdrop (cdrop h2 ?b) ?a"
  have R3: "relinks (set as) h h3"
    unfolding h3_def using relinks_local [OF ok relinks_local [OF bs(2) R [folded bs(1)], unfolded h0_def]] bs(1) by (simp add: h0_def)
  have "sortlist u h p = Some (nxt h2 ?b, h3)"
    using lv h2(1) l2(1) by (simp add: sortlist_def link h0_def [symmetric] bs(1) h1_def [symmetric] h3_def)
  moreover have "ls h3 (nxt h2 ?b) (sort_key (vl h) as) None" using l2(2) fa by (simp add: h3_def ls_cdrop)
  ultimately show ?thesis using R3 by blast
qed

theorem best_insertionSortList_spec:
  assumes ok: "heap_ok h" and L: "ls h p as None"
  shows "\<exists>r h'. best_insertionSortList u h p = Some (r, h') \<and> ls h' r (sort_key (vl h) (rev as)) None \<and> relinks (set as) h h'"
proof (cases "length as < 2")
  case True
  then have "short_list h p = Some True" "sort_key (vl h) (rev as) = as" using L by (cases as; cases "tl as"; auto simp: link)+
  then show ?thesis using L by (simp add: best_insertionSortList_def)
next
  case False
  then obtain a0 a1 as' where "as = a0 # a1 # as'" by (cases as; cases "tl as") auto
  then have sh: "short_list h p = Some False" using L by (auto simp: link)
  let ?d = "brk h"
  define h1 where "h1 = setn (loc h u) ?d None"
  have d: "?d \<notin> set as" by (rule fresh_loc [OF ok L])
  have lv: "live h1 ?d" "nxt h1 ?d = None" by (simp_all add: h1_def link)
  have "ls h1 p as None" using L d by (simp add: h1_def link ls_loc)
  moreover have "ls h1 (Some ?d) [?d] None" using lv by (simp add: link)
  ultimately obtain h2 where h2: "best_loop h1 ?d p = Some h2"
    "ls h2 (Some ?d) (?d # foldl (\<lambda>bs a. ins (\<lambda>a x. vl h1 x < vl h1 a) a bs) [] as) None" "relinks (set (?d # as)) h1 h2"
    using bestl.loop_spec [of h1 p as ?d "[]"] d ls_distinct [OF L] by auto
  have v: "vl h1 a = vl h a" if "a \<in> set (rev as)" for a
  proof -
    have "a \<noteq> ?d" using that d by auto
    then show ?thesis by (simp add: h1_def vl_setn vl_loc)
  qed
  have "foldl (\<lambda>bs a. ins (\<lambda>a x. vl h1 x < vl h1 a) a bs) [] as = sort_key (vl h) (rev as)"
    unfolding foldl_ins_before by (rule sort_key_eq) (rule v)
  then have l2: "live h2 ?d" "ls h2 (nxt h2 ?d) (sort_key (vl h) (rev as)) None" using h2(2) by (simp_all add: ls_Cons)
  have R: "relinks (insert ?d (set as)) (loc h u) h2" using relinks_after_setn [OF h2(3) [unfolded h1_def]] by simp
  have "best_insertionSortList u h p = return_next h2 ?d"
    using sh h2(1) by (simp add: best_insertionSortList_def link h1_def)
  moreover have "?d \<notin> set (sort_key (vl h) (rev as))" using d by simp
  ultimately show ?thesis using return_local [OF ok R l2] by simp
qed

text \<open>\<open>insertnode\<close> works without a local node.\<close>

lemma insertnode_find_spec:
  "ls h p (xs @ ys) None \<Longrightarrow> live h i \<Longrightarrow> \<forall>x\<in>set xs. vl h x < vl h i \<Longrightarrow> (ys \<noteq> [] \<longrightarrow> \<not> vl h (hd ys) < vl h i) \<Longrightarrow>
   insertnode_find h (Some i) pre p = Some (if xs = [] then pre else Some (Some (last xs)), if ys = [] then None else Some (hd ys))"
proof (induction xs arbitrary: p pre)
  case Nil
  then show ?case by (subst insertnode_find.simps, cases ys) (auto simp: link)
next
  case (Cons x xs)
  then have x: "p = Some x" "live h x" "ls h (nxt h x) (xs @ ys) None" by (auto simp: link)
  have "insertnode_find h (Some i) pre p = insertnode_find h (Some i) (Some (Some x)) (nxt h x)"
    using x Cons.prems by (subst insertnode_find.simps) (simp add: link)
  then show ?case using Cons.IH [OF x(3) Cons.prems(2) _ Cons.prems(4)] Cons.prems(3) by simp
qed

lemma insertnode_spec:
  assumes L: "ls h p bs None" and i: "live h i" "i \<notin> set bs"
  shows "\<exists>r h'. insertnode h p (Some i) = Some (r, h') \<and> ls h' r (ins (\<lambda>a x. vl h x < vl h a) i bs) None \<and> relinks (set (i # bs)) h h'"
proof -
  define xs ys where "xs = takeWhile (\<lambda>x. vl h x < vl h i) bs" and "ys = dropWhile (\<lambda>x. vl h x < vl h i) bs"
  have bs: "bs = xs @ ys" by (simp add: xs_def ys_def)
  have I: "ins (\<lambda>a x. vl h x < vl h a) i bs = xs @ i # ys" by (simp add: ins_def xs_def ys_def)
  have tx: "\<forall>x\<in>set xs. vl h x < vl h i" unfolding xs_def by (auto dest: set_takeWhileD)
  have ty: "ys \<noteq> [] \<longrightarrow> \<not> vl h (hd ys) < vl h i" unfolding ys_def using hd_dropWhile by blast
  have Lb: "ls h p (xs @ ys) None" and D: "distinct (xs @ ys)" using L bs ls_distinct [OF L] by simp_all
  note f = insertnode_find_spec [OF Lb i(1) tx ty, of None]
  show ?thesis
  proof (cases xs)
    case Nil
    then have "p = (if ys = [] then None else Some (hd ys))" using Lb by (cases ys) (auto simp: link)
    then have "insertnode h p (Some i) = Some (Some i, setn h i p)" using f Nil i(1) by (simp add: insertnode_def link)
    moreover have "ls (setn h i p) (Some i) (i # ys) None" using L bs Nil i by (simp add: link)
    moreover have "relinks (set (i # bs)) h (setn h i p)" by (rule relinks_setn) simp
    ultimately show ?thesis unfolding I using Nil by simp
  next
    case (Cons x xs')
    obtain ws q where ws: "xs = ws @ [q]" using Cons by (metis append_butlast_last_id list.distinct(1))
    have "ls h p ((ws @ [q]) @ ys) None" using Lb ws by simp
    then obtain r where r: "ls h p (ws @ [q]) r" "ls h r ys None" unfolding ls_append [of h p "ws @ [q]"] by blast
    have rr: "r = (if ys = [] then None else Some (hd ys))" using r(2) by (cases ys) (auto simp: link)
    have "p = Some x" using Lb Cons by (simp add: link)
    then have pr: "r \<noteq> p" using rr D Cons by (cases ys) auto
    have q: "live h q" using r(1) by (auto simp: ls_append link)
    have n: "i \<noteq> q" "i \<notin> set (ws @ [q])" "q \<notin> set ws" "q \<notin> set ys" "i \<notin> set ys" using i(2) bs ws D by auto
    let ?h = "setn (setn h i r) q (Some i)"
    have "insertnode_find h (Some i) None p = Some (Some (Some q), r)" using f ws rr by simp
    then have "insertnode h p (Some i) = Some (p, ?h)" using pr q i(1) by (simp add: insertnode_def link)
    moreover have "ls ?h p (ws @ [q]) (Some i)" using r(1) n by (intro ls_setn_end) (simp_all add: ls_setn)
    moreover have "ls ?h (Some i) (i # ys) None" using r(2) n i q by (simp add: link)
    ultimately have "insertnode h p (Some i) = Some (p, ?h)" "ls ?h p ((ws @ [q]) @ i # ys) None" using ls_append by blast+
    moreover have "relinks (set (i # bs)) h ?h" by (rule relinks_trans; rule relinks_setn) (simp_all add: bs ws)
    ultimately show ?thesis unfolding I ws by blast
  qed
qed

lemma insertionSortList_loop_spec:
  "ls h p as None \<Longrightarrow> ls h r bs None \<Longrightarrow> distinct (as @ bs) \<Longrightarrow>
   \<exists>r' h'. insertionSortList_loop h r p = Some (r', h') \<and>
     ls h' r' (foldl (\<lambda>bs a. ins (\<lambda>a x. vl h x < vl h a) a bs) bs as) None \<and> relinks (set (as @ bs)) h h'"
proof (induction as arbitrary: h p r bs)
  case Nil
  then show ?case by (subst insertionSortList_loop.simps) (simp add: link)
next
  case (Cons a as)
  have a: "p = Some a" "live h a" "ls h (nxt h a) as None" using Cons.prems(1) by (auto simp: link)
  define h1 where "h1 = setn h a None"
  have v1: "vl h1 = vl h" by (simp add: h1_def vl_setn)
  have n: "a \<notin> set as" "a \<notin> set bs" using Cons.prems(3) by auto
  have l1: "ls h1 r bs None" "live h1 a" "ls h1 (nxt h a) as None" using Cons.prems(2) a n by (simp_all add: h1_def link)
  obtain r2 h2 where h2: "insertnode h1 r (Some a) = Some (r2, h2)" "ls h2 r2 (ins (\<lambda>a x. vl h x < vl h a) a bs) None"
    "relinks (set (a # bs)) h1 h2" using insertnode_spec [OF l1(1,2) n(2)] unfolding v1 by blast
  have v2: "vl h2 = vl h" using relinks_vl [OF h2(3)] v1 by simp
  have "set as \<inter> set (a # bs) = {}" using Cons.prems(3) by auto
  from relinks_ls [OF h2(3) this] have "ls h2 (nxt h a) as None" using l1(3) by simp
  moreover have "distinct (as @ ins (\<lambda>a x. vl h x < vl h a) a bs)" using Cons.prems(3) distinct_ins [of a bs] by auto
  ultimately obtain r' h' where h': "insertionSortList_loop h2 r2 (nxt h a) = Some (r', h')"
    "ls h' r' (foldl (\<lambda>bs a. ins (\<lambda>a x. vl h x < vl h a) a bs) (ins (\<lambda>a x. vl h x < vl h a) a bs) as) None"
    "relinks (set (as @ ins (\<lambda>a x. vl h x < vl h a) a bs)) h2 h'"
    using Cons.IH [of h2 "nxt h a" r2 "ins (\<lambda>a x. vl h x < vl h a) a bs"] h2(2) unfolding v2 by blast
  have "insertionSortList_loop h r p = Some (r', h')"
    using a h2(1) h'(1) by (subst insertionSortList_loop.simps) (simp add: link h1_def)
  moreover have "relinks (set ((a # as) @ bs)) h h1" unfolding h1_def by (rule relinks_setn) simp
  moreover have "relinks (set ((a # as) @ bs)) h1 h2" by (rule relinks_mono [OF h2(3)]) auto
  moreover have "relinks (set ((a # as) @ bs)) h2 h'" by (rule relinks_mono [OF h'(3)]) auto
  ultimately show ?case using h'(2) relinks_trans by (metis foldl_Cons)
qed

theorem insertionSortList_spec:
  assumes L: "ls h p as None"
  shows "\<exists>r h'. insertionSortList h p = Some (r, h') \<and> ls h' r (sort_key (vl h) (rev as)) None \<and> relinks (set as) h h'"
proof (cases "length as < 2")
  case True
  then have "short_list h p = Some True" "sort_key (vl h) (rev as) = as" using L by (cases as; cases "tl as"; auto simp: link)+
  then show ?thesis using L by (simp add: insertionSortList_def)
next
  case False
  then obtain a0 a1 as' where as: "as = a0 # a1 # as'" by (cases as; cases "tl as") auto
  then have sh: "short_list h p = Some False" and p: "p = Some a0" "live h a0" "ls h (nxt h a0) (a1 # as') None"
    using L by (auto simp: link)
  define h1 where "h1 = setn h a0 None"
  have D: "distinct as" by (rule ls_distinct [OF L])
  have l1: "ls h1 (nxt h a0) (a1 # as') None" "ls h1 (Some a0) [a0] None"
    using p D as by (auto simp: h1_def link)
  have "distinct ((a1 # as') @ [a0])" using D as by auto
  from insertionSortList_loop_spec [OF l1 this] obtain r h' where h': "insertionSortList_loop h1 (Some a0) (nxt h a0) = Some (r, h')"
    "ls h' r (foldl (\<lambda>bs a. ins (\<lambda>a x. vl h x < vl h a) a bs) [a0] (a1 # as')) None" "relinks (set ((a1 # as') @ [a0])) h1 h'"
    by (auto simp: h1_def vl_setn)
  have "foldl (\<lambda>bs a. ins (\<lambda>a x. vl h x < vl h a) a bs) [a0] (a1 # as') = sort_key (vl h) (rev as)"
    unfolding foldl_ins_before [symmetric] as by (simp add: ins_def)
  moreover have "insertionSortList h p = Some (r, h')" using sh p h'(1) by (simp add: insertionSortList_def link h1_def)
  moreover have "relinks (set as) h h'"
    using relinks_trans [of "set as" h h1 h'] relinks_setn [of a0 "set as" h None] relinks_mono [OF h'(3), of "set as"]
    by (auto simp: h1_def as)
  ultimately show ?thesis using h'(2) by metis
qed

end
