(* ===== verification/Link_Partition.thy ===== *)
theory Link_Partition
  imports Link_Lists Link_Reverse
begin

text \<open>Partitioning a list by a value, in the two versions of \<open>sort/partion_list.c\<close>.\<close>

section \<open>In one list\<close>

lemma part_less_spec:
  "ls h (Some p) (p # xs @ ys) None \<Longrightarrow> \<forall>a\<in>set xs. vl h a < x \<Longrightarrow> (ys \<noteq> [] \<longrightarrow> \<not> vl h (hd ys) < x) \<Longrightarrow>
   part_less h x (Some p) (nxt h p) = Some (Some (last (p # xs)), if ys = [] then None else Some (hd ys))"
proof (induction xs arbitrary: p)
  case Nil
  then show ?case by (subst part_less.simps, cases ys) (auto simp: link)
next
  case (Cons a xs)
  then have L: "nxt h p = Some a" "live h a" "ls h (Some a) (a # xs @ ys) None" by (auto simp: link)
  have "part_less h x (Some p) (nxt h p) = part_less h x (Some a) (nxt h a)"
    using L Cons.prems(2) by (subst part_less.simps) (simp add: link)
  then show ?case using Cons.IH [OF L(3)] Cons.prems by simp
qed

lemma part_ge_spec:
  "ls h p (xs @ ys) None \<Longrightarrow> \<forall>a\<in>set xs. x \<le> vl h a \<Longrightarrow> (ys \<noteq> [] \<longrightarrow> vl h (hd ys) < x) \<Longrightarrow>
   part_ge h x pre p = Some (if xs = [] then pre else Some (Some (last xs)), if ys = [] then None else Some (hd ys))"
proof (induction xs arbitrary: p pre)
  case Nil
  then show ?case by (subst part_ge.simps, cases ys) (auto simp: link)
next
  case (Cons a xs)
  then have L: "p = Some a" "live h a" "ls h (nxt h a) (xs @ ys) None" by (auto simp: link)
  have "part_ge h x pre p = part_ge h x (Some (Some a)) (nxt h a)"
    using L Cons.prems(2) by (subst part_ge.simps) (simp add: link)
  then show ?case using Cons.IH [OF L(3)] Cons.prems by simp
qed

lemma partition_list_loop_spec:
  "live h p \<Longrightarrow> ls h (nxt h p) as None \<Longrightarrow> p \<notin> set as \<Longrightarrow>
   \<exists>h'. partition_list_loop h x (Some p) pre = Some h' \<and> live h' p \<and>
     ls h' (nxt h' p) (filter (\<lambda>a. vl h a < x) as @ filter (\<lambda>a. \<not> vl h a < x) as) None \<and> relinks (insert p (set as)) h h'"
proof (induction "length as" arbitrary: h p as pre rule: less_induct)
  case less
  note lp = less.prems(1) and L = less.prems(2) and pn = less.prems(3)
  define xs rest where "xs = takeWhile (\<lambda>a. vl h a < x) as" and "rest = dropWhile (\<lambda>a. vl h a < x) as"
  define gs qs where "gs = takeWhile (\<lambda>a. x \<le> vl h a) rest" and "qs = dropWhile (\<lambda>a. x \<le> vl h a) rest"
  have as: "as = xs @ gs @ qs" by (simp add: xs_def rest_def gs_def qs_def)
  have rest: "rest = gs @ qs" by (simp add: gs_def qs_def)
  have tx: "\<forall>a\<in>set xs. vl h a < x" unfolding xs_def by (auto dest: set_takeWhileD)
  have tg: "\<forall>a\<in>set gs. x \<le> vl h a" unfolding gs_def by (auto dest: set_takeWhileD)
  have hr: "rest \<noteq> [] \<longrightarrow> \<not> vl h (hd rest) < x" unfolding rest_def using hd_dropWhile by blast
  have hq: "qs \<noteq> [] \<longrightarrow> vl h (hd qs) < x" unfolding qs_def using hd_dropWhile [of "\<lambda>a. x \<le> vl h a" rest] by (simp add: not_le)
  have fx: "filter (\<lambda>a. vl h a < x) xs = xs" "filter (\<lambda>a. \<not> vl h a < x) xs = []" using tx by (simp_all add: filter_empty_conv)
  have fg: "filter (\<lambda>a. vl h a < x) gs = []" "filter (\<lambda>a. \<not> vl h a < x) gs = gs" using tg by (simp_all add: filter_empty_conv not_less)
  have D: "distinct as" by (rule ls_distinct [OF L])
  show ?case
  proof (cases "qs = []")
    case True
    have r: "filter (\<lambda>a. vl h a < x) as @ filter (\<lambda>a. \<not> vl h a < x) as = as" using fx fg True as by simp
    have "partition_list_loop h x (Some p) pre = Some h"
    proof (cases "as = []")
      case True
      then show ?thesis using L lp by (subst partition_list_loop.simps) (simp add: link)
    next
      case False
      then obtain a0 where a0: "nxt h p = Some a0" using L by (cases as) (auto simp: link)
      have L1: "ls h (Some p) (p # xs @ rest) None" using L lp as rest by (simp add: link)
      obtain lastx where lx: "last (p # xs) = lastx" by blast
      have pl: "part_less h x (Some p) (nxt h p) = Some (Some lastx, if rest = [] then None else Some (hd rest))"
        using part_less_spec [OF L1 tx hr] lx by simp
      obtain mid where "ls h (if rest = [] then None else Some (hd rest)) (gs @ qs) None"
      proof -
        obtain r where "ls h (nxt h p) xs r" "ls h r rest None" using L unfolding as rest [symmetric] ls_append by blast
        then have "ls h (if rest = [] then None else Some (hd rest)) rest None" by (cases rest) (auto simp: link)
        then show ?thesis using that unfolding rest by blast
      qed
      from part_ge_spec [OF this tg hq] True have "\<exists>pq. part_ge h x pre (if rest = [] then None else Some (hd rest)) = Some (pq, None)"
        by simp
      then show ?thesis using lp a0 pl by (subst partition_list_loop.simps) (auto simp: link)
    qed
    then show ?thesis using L lp r by (intro exI [of _ h]) simp
  next
    case False
    then obtain q qs' where q: "qs = q # qs'" by (cases qs) auto
    have gn: "gs \<noteq> []"
    proof
      assume "gs = []"
      then have "rest = q # qs'" using rest q by simp
      then show False using hr hq q by simp
    qed
    then obtain gi g where g: "gs = gi @ [g]" by (metis append_butlast_last_id)
    obtain ps w where w: "p # xs = ps @ [w]" by (metis append_butlast_last_id list.distinct(1))
    have lw: "last (p # xs) = w" unfolding w by simp
    obtain a0 where a0: "nxt h p = Some a0" using L as q by (cases xs; cases gs) (auto simp: link)
    have L1: "ls h (Some p) (p # xs @ rest) None" using L lp as rest by (simp add: link)
    have rn: "rest \<noteq> []" using rest gn by simp
    have hg: "hd rest = hd gs" using rest gn by simp
    have pl: "part_less h x (Some p) (Some a0) = Some (Some w, Some (hd gs))"
      using part_less_spec [OF L1 tx hr] lw rn hg a0 by simp
    have "ls h (Some p) ((ps @ [w]) @ (gi @ [g]) @ q # qs') None" unfolding w [symmetric] using L1 rest g q by simp
    then obtain r1 r2 where s: "ls h (Some p) (ps @ [w]) r1" "ls h r1 (gi @ [g]) r2" "ls h r2 (q # qs') None"
      unfolding ls_append [of h _ "ps @ [w]"] ls_append [of h _ "gi @ [g]"] by blast
    have r1: "r1 = Some (hd gs)" using s(2) g by (cases gi) (auto simp: link)
    have r2: "r2 = Some q" "live h q" using s(3) by (auto simp: link)
    have "ls h (Some (hd gs)) (gs @ qs) None" using s(2,3) g q r1 r2 unfolding g q ls_append [of h _ "gi @ [g]"] by auto
    from part_ge_spec [OF this tg hq] have pg: "part_ge h x pre (Some (hd gs)) = Some (Some (Some g), Some q)" using gn g q by simp
    have lg: "live h g" "nxt h g = Some q" using s(2) r2 by (auto simp: ls_append link)
    have lw': "live h w" "nxt h w = r1" using s(1) by (auto simp: ls_append link)
    have n: "w \<noteq> g" "w \<noteq> q" "g \<noteq> q" "w \<notin> set ps" "w \<notin> set gi" "w \<notin> set qs'" "g \<notin> set gi" "g \<notin> set qs'" "q \<notin> set gi" "q \<notin> set qs'"
      "g \<notin> set (ps @ [w])" "q \<notin> set (ps @ [w])"
    proof -
      have "distinct (p # as)" using D pn by simp
      then have "distinct ((ps @ [w]) @ gi @ g # q # qs')" unfolding as g q w [symmetric] by simp
      then show "w \<noteq> g" "w \<noteq> q" "g \<noteq> q" "w \<notin> set ps" "w \<notin> set gi" "w \<notin> set qs'" "g \<notin> set gi" "g \<notin> set qs'" "q \<notin> set gi" "q \<notin> set qs'"
        "g \<notin> set (ps @ [w])" "q \<notin> set (ps @ [w])" by auto
    qed
    define h1 where "h1 = setn (setn (setn h g (nxt h q)) q r1) w (Some q)"
    have lv: "live h1 a = live h a" "vl h1 = vl h" for a by (simp_all add: h1_def link)
    have nx: "nxt h1 w = Some q" "nxt h1 q = r1" "nxt h1 g = nxt h q"
      using n lg lw' r2 by (simp_all add: h1_def link)
    have step: "partition_list_loop h x (Some p) pre = partition_list_loop h1 x (Some q) (Some (Some g))"
      using lp a0 pl pg lg lw' r2 n by (subst partition_list_loop.simps) (simp add: link h1_def)
    have l1: "ls h1 (Some p) (ps @ [w]) (Some q)"
      unfolding h1_def using s(1) n by (intro ls_setn_end) (simp_all add: ls_setn)
    have "ls h1 r1 (gi @ [g]) (nxt h q)"
    proof -
      have "ls (setn h g (nxt h q)) r1 (gi @ [g]) (nxt h q)" by (rule ls_setn_end [OF s(2) n(7)])
      moreover have "q \<notin> set (gi @ [g])" "w \<notin> set (gi @ [g])" using n by auto
      ultimately show ?thesis unfolding h1_def by (simp add: ls_setn del: set_append)
    qed
    moreover have "ls h1 (nxt h q) qs' None" using s(3) n by (simp add: h1_def link)
    ultimately have l2: "ls h1 (nxt h1 q) (gs @ qs') None" using nx(2) g ls_append by metis
    have "length (gs @ qs') < length as" "live h1 q" "q \<notin> set (gs @ qs')" using as q r2 lv n g by simp_all
    from less.hyps [OF this(1,2) l2 this(3)] obtain h2 where h2: "partition_list_loop h1 x (Some q) (Some (Some g)) = Some h2" "live h2 q"
      "ls h2 (nxt h2 q) (filter (\<lambda>a. vl h a < x) (gs @ qs') @ filter (\<lambda>a. \<not> vl h a < x) (gs @ qs')) None"
      "relinks (insert q (set (gs @ qs'))) h1 h2" unfolding lv(2) by blast
    have vq: "vl h q < x" using hq q by simp
    have F: "filter (\<lambda>a. vl h a < x) as @ filter (\<lambda>a. \<not> vl h a < x) as =
        xs @ q # filter (\<lambda>a. vl h a < x) (gs @ qs') @ filter (\<lambda>a. \<not> vl h a < x) (gs @ qs')"
      unfolding as q filter_append fx fg using vq by simp
    have "set (ps @ [w]) \<inter> insert q (set (gs @ qs')) = {}"
    proof -
      have "distinct ((p # xs) @ gs @ q # qs')" using D pn as q by simp
      then show ?thesis unfolding w by auto
    qed
    from relinks_ls [OF h2(4) this] l1 have "ls h2 (Some p) (p # xs) (Some q)" unfolding w by simp
    moreover have "ls h2 (Some q) (q # filter (\<lambda>a. vl h a < x) (gs @ qs') @ filter (\<lambda>a. \<not> vl h a < x) (gs @ qs')) None"
      using h2(2,3) by (simp add: ls_Cons)
    ultimately have "ls h2 (Some p) ((p # xs) @ q # filter (\<lambda>a. vl h a < x) (gs @ qs') @ filter (\<lambda>a. \<not> vl h a < x) (gs @ qs')) None"
      using ls_append by blast
    then have "live h2 p" "ls h2 (nxt h2 p) (filter (\<lambda>a. vl h a < x) as @ filter (\<lambda>a. \<not> vl h a < x) as) None"
      unfolding F by (simp_all add: ls_Cons)
    moreover have "relinks (insert p (set as)) h h2"
    proof -
      have wp: "w \<in> insert p (set as)" using arg_cong [OF w, of set] as by auto
      have "relinks (insert p (set as)) h1 h2" by (rule relinks_mono [OF h2(4)]) (auto simp: as q)
      from relinks_after_setn [OF relinks_after_setn [OF relinks_after_setn [OF this [unfolded h1_def] wp]]]
      show ?thesis using as g q by simp
    qed
    ultimately show ?thesis using step h2(1) by metis
  qed
qed

theorem partition_list_spec:
  assumes ok: "heap_ok h" and L: "ls h p as None"
  shows "\<exists>r h'. partition_list u h p x = Some (r, h') \<and>
    ls h' r (filter (\<lambda>a. vl h a < x) as @ filter (\<lambda>a. \<not> vl h a < x) as) None \<and> relinks (set as) h h'"
proof (cases "length as < 2")
  case True
  then have "short_list h p = Some True" "filter (\<lambda>a. vl h a < x) as @ filter (\<lambda>a. \<not> vl h a < x) as = as"
    using L by (cases as; cases "tl as"; auto simp: link)+
  then show ?thesis using L by (intro exI [of _ p] exI [of _ h]) (simp add: partition_list_def)
next
  case False
  then obtain a0 a1 as' where "as = a0 # a1 # as'" by (cases as; cases "tl as") auto
  then have sh: "short_list h p = Some False" using L by (auto simp: link)
  let ?d = "brk h"
  define h1 where "h1 = setn (loc h u) ?d p"
  have b: "ls h1 (Some ?d) (?d # as) None" "distinct (?d # as)" "relinks (insert ?d (set as)) (loc h u) h1"
    unfolding h1_def by (rule behind_local [OF ok L])+
  have "live h1 ?d" "ls h1 (nxt h1 ?d) as None" "?d \<notin> set as" using b(1,2) by (auto simp: link)
  from partition_list_loop_spec [OF this, of x None] obtain h2 where h2: "partition_list_loop h1 x (Some ?d) None = Some h2" "live h2 ?d"
    "ls h2 (nxt h2 ?d) (filter (\<lambda>a. vl h1 a < x) as @ filter (\<lambda>a. \<not> vl h1 a < x) as) None" "relinks (insert ?d (set as)) h1 h2" by blast
  have v: "vl h1 a = vl h a" if "a \<in> set as" for a
  proof -
    have "a \<noteq> ?d" using that b(2) by auto
    then show ?thesis by (simp add: h1_def vl_setn vl_loc)
  qed
  have "filter (\<lambda>a. vl h1 a < x) as = filter (\<lambda>a. vl h a < x) as" "filter (\<lambda>a. \<not> vl h1 a < x) as = filter (\<lambda>a. \<not> vl h a < x) as"
    using v by (auto intro: filter_cong)
  then have l2: "ls h2 (nxt h2 ?d) (filter (\<lambda>a. vl h a < x) as @ filter (\<lambda>a. \<not> vl h a < x) as) None" using h2(3) by simp
  have "partition_list u h p x = return_next h2 ?d"
    using sh h2(1) by (simp add: partition_list_def link h1_def)
  moreover have "?d \<notin> set as" using b(2) by simp
  ultimately show ?thesis using return_local [OF ok relinks_trans [OF b(3) h2(4)] h2(2) l2] by simp
qed

section \<open>With two lists\<close>

lemma best_partition_loop_spec:
  "\<exists>r. ls h s1 (xs @ [a]) r \<Longrightarrow> \<exists>r. ls h s2 (ys @ [b]) r \<Longrightarrow> ls h p as None \<Longrightarrow> distinct (xs @ a # ys @ b # as) \<Longrightarrow>
   \<exists>xs' a' ys' b' h'. best_partition_loop h x p (Some a) (Some b) = Some (Some a', Some b', h') \<and>
     (xs @ [a]) @ filter (\<lambda>c. vl h c < x) as = xs' @ [a'] \<and> (ys @ [b]) @ filter (\<lambda>c. \<not> vl h c < x) as = ys' @ [b'] \<and>
     (\<exists>r. ls h' s1 (xs' @ [a']) r) \<and> (\<exists>r. ls h' s2 (ys' @ [b']) r) \<and> relinks (set (a # b # as)) h h'"
proof (induction as arbitrary: h p xs a ys b)
  case Nil
  then have "best_partition_loop h x p (Some a) (Some b) = Some (Some a, Some b, h)"
    by (subst best_partition_loop.simps) (simp add: link)
  then show ?case using Nil by auto
next
  case (Cons c as)
  have c: "p = Some c" "live h c" "ls h (nxt h c) as None" using Cons.prems(3) by (auto simp: link)
  obtain r1 r2 where r: "ls h s1 (xs @ [a]) r1" "ls h s2 (ys @ [b]) r2" using Cons.prems(1,2) by blast
  have lv: "live h a" "live h b" using r by (auto simp: ls_append link)
  have D: "a \<noteq> c" "b \<noteq> c" "a \<notin> set xs" "b \<notin> set ys" "a \<notin> set (ys @ [b])" "b \<notin> set (xs @ [a])" "a \<notin> set as" "b \<notin> set as"
    using Cons.prems(4) by auto
  show ?case
  proof (cases "vl h c < x")
    case True
    let ?h = "setn h a (Some c)"
    have v: "vl ?h = vl h" by (simp add: vl_setn)
    have e: "best_partition_loop h x p (Some a) (Some b) = best_partition_loop ?h x (nxt h c) (Some c) (Some b)"
      using c lv D True by (subst best_partition_loop.simps) (simp add: link)
    have "ls ?h s1 (xs @ [a]) (Some c)" by (rule ls_setn_end [OF r(1) D(3)])
    moreover have "ls ?h (Some c) [c] (nxt h c)" using c lv D by (simp add: link)
    ultimately have i1: "\<exists>r. ls ?h s1 ((xs @ [a]) @ [c]) r" using ls_append by blast
    have i2: "\<exists>r. ls ?h s2 (ys @ [b]) r" using r(2) D(5) ls_setn by blast
    have i3: "ls ?h (nxt h c) as None" using c(3) D(7) by (simp add: ls_setn)
    have i4: "distinct ((xs @ [a]) @ c # ys @ b # as)" using Cons.prems(4) by auto
    obtain xs' a' ys' b' h' where IH: "best_partition_loop ?h x (nxt h c) (Some c) (Some b) = Some (Some a', Some b', h')"
      "((xs @ [a]) @ [c]) @ filter (\<lambda>c. vl h c < x) as = xs' @ [a']" "(ys @ [b]) @ filter (\<lambda>c. \<not> vl h c < x) as = ys' @ [b']"
      "\<exists>r. ls h' s1 (xs' @ [a']) r" "\<exists>r. ls h' s2 (ys' @ [b']) r" "relinks (set (c # b # as)) ?h h'"
      using Cons.IH [OF i1 i2 i3 i4] unfolding v by blast
    have "relinks (set (a # b # c # as)) ?h h'" by (rule relinks_mono [OF IH(6)]) auto
    then have "relinks (set (a # b # c # as)) h h'" by (rule relinks_after_setn) simp
    moreover have "(xs @ [a]) @ filter (\<lambda>c. vl h c < x) (c # as) = xs' @ [a']"
      "(ys @ [b]) @ filter (\<lambda>c. \<not> vl h c < x) (c # as) = ys' @ [b']" using IH(2,3) True by simp_all
    ultimately show ?thesis using e IH(1,4,5) by metis
  next
    case False
    let ?h = "setn h b (Some c)"
    have v: "vl ?h = vl h" by (simp add: vl_setn)
    have e: "best_partition_loop h x p (Some a) (Some b) = best_partition_loop ?h x (nxt h c) (Some a) (Some c)"
      using c lv D False by (subst best_partition_loop.simps) (simp add: link)
    have "ls ?h s2 (ys @ [b]) (Some c)" by (rule ls_setn_end [OF r(2) D(4)])
    moreover have "ls ?h (Some c) [c] (nxt h c)" using c lv D by (simp add: link)
    ultimately have i2: "\<exists>r. ls ?h s2 ((ys @ [b]) @ [c]) r" using ls_append by blast
    have i1: "\<exists>r. ls ?h s1 (xs @ [a]) r" using r(1) D(6) ls_setn by blast
    have i3: "ls ?h (nxt h c) as None" using c(3) D(8) by (simp add: ls_setn)
    have i4: "distinct (xs @ a # (ys @ [b]) @ c # as)" using Cons.prems(4) by auto
    obtain xs' a' ys' b' h' where IH: "best_partition_loop ?h x (nxt h c) (Some a) (Some c) = Some (Some a', Some b', h')"
      "(xs @ [a]) @ filter (\<lambda>c. vl h c < x) as = xs' @ [a']" "((ys @ [b]) @ [c]) @ filter (\<lambda>c. \<not> vl h c < x) as = ys' @ [b']"
      "\<exists>r. ls h' s1 (xs' @ [a']) r" "\<exists>r. ls h' s2 (ys' @ [b']) r" "relinks (set (a # c # as)) ?h h'"
      using Cons.IH [OF i1 i2 i3 i4] unfolding v by blast
    have "relinks (set (a # b # c # as)) ?h h'" by (rule relinks_mono [OF IH(6)]) auto
    then have "relinks (set (a # b # c # as)) h h'" by (rule relinks_after_setn) simp
    moreover have "(xs @ [a]) @ filter (\<lambda>c. vl h c < x) (c # as) = xs' @ [a']"
      "(ys @ [b]) @ filter (\<lambda>c. \<not> vl h c < x) (c # as) = ys' @ [b']" using IH(2,3) False by simp_all
    ultimately show ?thesis using e IH(1,4,5) by metis
  qed
qed

theorem best_partition_spec:
  assumes ok: "heap_ok h" and L: "ls h p as None"
  shows "\<exists>r h'. best_partition u h p x = Some (r, h') \<and>
    ls h' r (filter (\<lambda>a. vl h a < x) as @ filter (\<lambda>a. \<not> vl h a < x) as) None \<and> relinks (set as) h h'"
proof (cases "length as < 2")
  case True
  then have "short_list h p = Some True" "filter (\<lambda>a. vl h a < x) as @ filter (\<lambda>a. \<not> vl h a < x) as = as"
    using L by (cases as; cases "tl as"; auto simp: link)+
  then show ?thesis using L by (intro exI [of _ p] exI [of _ h]) (simp add: best_partition_def)
next
  case False
  then obtain a0 a1 as' where "as = a0 # a1 # as'" by (cases as; cases "tl as") auto
  then have sh: "short_list h p = Some False" using L by (auto simp: link)
  let ?a = "brk h" and ?b = "Suc (brk h)"
  define lt ge where "lt = filter (\<lambda>c. vl h c < x) as" and "ge = filter (\<lambda>c. \<not> vl h c < x) as"
  define h0 where "h0 = loc h u"
  define h1 where "h1 = loc h0 u"
  have bs: "brk h0 = ?b" "heap_ok h0" using ok by (simp_all add: h0_def loc_cells heap_ok_loc)
  have L0: "ls h0 p as None" using L fresh_loc [OF ok L] by (simp add: h0_def ls_loc)
  have fa: "?a \<notin> set as" "?b \<notin> set as" using fresh_loc [OF ok L] fresh_loc [OF bs(2) L0] bs(1) by simp_all
  have L1: "ls h1 p as None" using L0 fa bs(1) by (simp add: h1_def ls_loc)
  have lv: "live h1 ?a" "live h1 ?b" by (simp_all add: h1_def h0_def link loc_cells)
  have v: "vl h1 c = vl h c" if "c \<in> set as" for c
  proof -
    have "c \<noteq> ?a" "c \<noteq> ?b" using that fa by auto
    then show ?thesis using bs(1) vl_loc [of c h0 u] by (simp add: h1_def) (simp add: h0_def vl_loc)
  qed
  have fl: "filter (\<lambda>c. vl h1 c < x) as = lt" "filter (\<lambda>c. \<not> vl h1 c < x) as = ge"
    unfolding lt_def ge_def using v by (auto intro: filter_cong)
  have e: "\<exists>r. ls h1 (Some ?a) ([] @ [?a]) r" "\<exists>r. ls h1 (Some ?b) ([] @ [?b]) r" using lv by (simp_all add: link)
  have d: "distinct ([] @ ?a # [] @ ?b # as)" using fa ls_distinct [OF L] by simp
  obtain xs a ys b h2 where h2: "best_partition_loop h1 x p (Some ?a) (Some ?b) = Some (Some a, Some b, h2)"
    "?a # lt = xs @ [a]" "?b # ge = ys @ [b]" "\<exists>r. ls h2 (Some ?a) (xs @ [a]) r" "\<exists>r. ls h2 (Some ?b) (ys @ [b]) r"
    "relinks (set (?a # ?b # as)) h1 h2"
    using best_partition_loop_spec [OF e L1 d, of x] unfolding fl append_Nil append_Cons by blast
  have dj: "set lt \<inter> set ge = {}" "distinct lt" "distinct ge" "set lt \<subseteq> set as" "set ge \<subseteq> set as"
    using ls_distinct [OF L] by (auto simp: lt_def ge_def)
  have D: "distinct ((xs @ [a]) @ ys @ [b])"
  proof -
    have "distinct ((?a # lt) @ ?b # ge)" using dj fa by auto
    then show ?thesis unfolding h2(2,3) .
  qed
  obtain r1 r2 where r: "ls h2 (Some ?a) (xs @ [a]) r1" "ls h2 (Some ?b) (ys @ [b]) r2" using h2(4,5) by blast
  have lab: "live h2 a" "live h2 b" using r by (auto simp: ls_append link)
  define h3 where "h3 = setn h2 b None"
  have l3: "ls h3 (Some ?a) (xs @ [a]) r1" "ls h3 (Some ?b) (ys @ [b]) None"
  proof -
    have "b \<notin> set (xs @ [a])" "b \<notin> set ys" using D by auto
    then show "ls h3 (Some ?a) (xs @ [a]) r1" "ls h3 (Some ?b) (ys @ [b]) None"
      unfolding h3_def using r(1) ls_setn_end [OF r(2)] ls_setn by blast+
  qed
  have "ls h3 (Some ?b) (?b # ge) None" using l3(2) unfolding h2(3) .
  then have lb: "live h3 ?b" "ls h3 (nxt h3 ?b) ge None" by (simp_all add: ls_Cons)
  define h4 where "h4 = setn h3 a (nxt h3 ?b)"
  have an: "a \<notin> set xs" "a \<notin> set ge"
  proof -
    have "a \<notin> set (ys @ [b])" "a \<notin> set xs" using D by auto
    then show "a \<notin> set xs" "a \<notin> set ge" unfolding h2(3) [symmetric] by auto
  qed
  have "ls h4 (Some ?a) (xs @ [a]) (nxt h3 ?b)" unfolding h4_def by (rule ls_setn_end [OF l3(1) an(1)])
  moreover have "ls h4 (nxt h3 ?b) ge None" using lb(2) an(2) by (simp add: h4_def ls_setn)
  ultimately have "ls h4 (Some ?a) ((xs @ [a]) @ ge) None" using ls_append by blast
  then have l4: "live h4 ?a" "ls h4 (nxt h4 ?a) (lt @ ge) None" unfolding h2(2) [symmetric] by (simp_all add: ls_Cons)
  have mem: "a \<in> set (?a # lt)" "b \<in> set (?b # ge)" unfolding h2(2,3) by simp_all
  have R: "relinks (insert ?b (insert ?a (set as))) (loc h0 u) h4"
  proof -
    let ?S = "insert ?b (insert ?a (set as))"
    have "relinks ?S h1 h2" by (rule relinks_mono [OF h2(6)]) auto
    moreover have "relinks ?S h2 h3" unfolding h3_def by (rule relinks_setn) (use mem dj in auto)
    moreover have "relinks ?S h3 h4" unfolding h4_def by (rule relinks_setn) (use mem dj in auto)
    ultimately show ?thesis using relinks_trans unfolding h1_def by blast
  qed
  define h5 where "h5 = cdrop (cdrop h4 ?b) ?a"
  have R5: "relinks (set as) h h5"
    unfolding h5_def using relinks_local [OF ok relinks_local [OF bs(2) R [folded bs(1)], unfolded h0_def]] bs(1) by (simp add: h0_def)
  have "live h3 a" using lab by (simp add: h3_def live_setn)
  then have "best_partition u h p x = Some (nxt h4 ?a, h5)"
    using sh h2(1) lab lb(1) l4(1)
    by (simp add: best_partition_def link h0_def [symmetric] bs(1) h1_def [symmetric] h3_def [symmetric] h4_def [symmetric] h5_def)
  moreover have "ls h5 (nxt h4 ?a) (lt @ ge) None"
  proof -
    have "?a \<notin> set (lt @ ge)" "?b \<notin> set (lt @ ge)" using fa dj by auto
    then show ?thesis using l4(2) by (simp add: h5_def ls_cdrop del: set_append)
  qed
  ultimately show ?thesis using R5 unfolding lt_def ge_def by blast
qed

end
