(* ===== verification/Link_Add.thy ===== *)
theory Link_Add
  imports Link_Lists Link_Tools
begin

text \<open>\<open>addtwonumbers.c\<close>: the lists hold the decimal digits of the numbers, the lowest first.\<close>

fun num :: "int list \<Rightarrow> int" where
  "num [] = 0"
| "num (d # ds) = d + 10 * num ds"

lemma num_append: "num (xs @ ys) = num xs + 10 ^ length xs * num ys"
  by (induction xs) (simp_all add: algebra_simps)

definition digits_ok :: "int list \<Rightarrow> bool" where
  "digits_ok ds \<longleftrightarrow> (\<forall>d\<in>set ds. 0 \<le> d \<and> d \<le> 9)"

text \<open>The heap after a new last node with the value \<open>d\<close> has been hung behind \<open>l\<close>.\<close>

definition push_heap :: "lheap \<Rightarrow> nat \<Rightarrow> lnode \<Rightarrow> int \<Rightarrow> lheap" where
  "push_heap h l n0 d = h\<lparr>cells := (cells h)(brk h \<mapsto> n0\<lparr>lval := d, lnext := None\<rparr>, l \<mapsto> (the (cells h l))\<lparr>lnext := Some (brk h)\<rparr>),
     brk := Suc (brk h)\<rparr>"

lemma push_cells: "cells (push_heap h l n0 d) =
    (cells h)(brk h \<mapsto> n0\<lparr>lval := d, lnext := None\<rparr>, l \<mapsto> (the (cells h l))\<lparr>lnext := Some (brk h)\<rparr>)"
  "brk (push_heap h l n0 d) = Suc (brk h)" "env (push_heap h l n0 d) = env h"
  by (simp_all add: push_heap_def)

lemma push_heap_facts:
  assumes "heap_ok h" "live h l"
  shows "heap_ok (push_heap h l n0 d)" "l \<noteq> brk h" "live (push_heap h l n0 d) l" "live (push_heap h l n0 d) (brk h)"
    "nxt (push_heap h l n0 d) (brk h) = None" "nxt (push_heap h l n0 d) l = Some (brk h)"
    "vl (push_heap h l n0 d) (brk h) = d" "x \<noteq> brk h \<Longrightarrow> vl (push_heap h l n0 d) x = vl h x"
    "x < brk h \<Longrightarrow> x \<noteq> l \<Longrightarrow> cells (push_heap h l n0 d) x = cells h x"
    "l \<notin> set as \<Longrightarrow> brk h \<notin> set as \<Longrightarrow> ls (push_heap h l n0 d) p as q = ls h p as q"
proof -
  have l: "l < brk h" using live_brk assms by blast
  then show ne: "l \<noteq> brk h" by simp
  show "heap_ok (push_heap h l n0 d)" using assms(1) l by (simp add: heap_ok_def push_cells)
  show "x < brk h \<Longrightarrow> x \<noteq> l \<Longrightarrow> cells (push_heap h l n0 d) x = cells h x" by (simp add: push_cells)
  show "live (push_heap h l n0 d) l" "live (push_heap h l n0 d) (brk h)"
    "nxt (push_heap h l n0 d) (brk h) = None" "nxt (push_heap h l n0 d) l = Some (brk h)"
    "vl (push_heap h l n0 d) (brk h) = d" "x \<noteq> brk h \<Longrightarrow> vl (push_heap h l n0 d) x = vl h x"
    using ne by (auto simp: live_def nxt_def vl_def push_cells)
  show "l \<notin> set as \<Longrightarrow> brk h \<notin> set as \<Longrightarrow> ls (push_heap h l n0 d) p as q = ls h p as q"
    by (simp add: ls_def push_cells)
qed

lemma push_steps:
  assumes "heap_ok h" "live h l" "env h (brk h) = Some n0"
  obtains g0 g1 g2 where "cmalloc h = (Some (brk h), g0)" "store g0 (Some (brk h)) (\<lambda>n. n\<lparr>lval := d\<rparr>) = Some g1"
    "set_next g1 (Some (brk h)) None = Some g2" "set_next g2 (Some l) (Some (brk h)) = Some (push_heap h l n0 d)"
proof -
  have l: "l < brk h" using live_brk assms by blast
  obtain nl where nl: "cells h l = Some nl" using assms(2) by (auto simp: live_def)
  let ?g = "\<lambda>n. h\<lparr>cells := (cells h)(brk h \<mapsto> n), brk := Suc (brk h)\<rparr>"
  show ?thesis
  proof (rule that)
    show "cmalloc h = (Some (brk h), ?g n0)" by (simp add: cmalloc_grants assms(3))
    show "store (?g n0) (Some (brk h)) (\<lambda>n. n\<lparr>lval := d\<rparr>) = Some (?g (n0\<lparr>lval := d\<rparr>))" by (simp add: store_def)
    show "set_next (?g (n0\<lparr>lval := d\<rparr>)) (Some (brk h)) None = Some (?g (n0\<lparr>lval := d, lnext := None\<rparr>))"
      by (simp add: set_next_def store_def)
    show "set_next (?g (n0\<lparr>lval := d, lnext := None\<rparr>)) (Some l) (Some (brk h)) = Some (push_heap h l n0 d)"
      using l nl by (simp add: set_next_def store_def push_heap_def)
  qed
qed

lemma ls_tl: "ls h p as None \<Longrightarrow> ls h (if p = None then None else nxt h (the p)) (tl as) None"
  by (cases as) (auto simp: link)

lemma add_loop_spec:
  "heap_ok h \<Longrightarrow> \<forall>a. env h a \<noteq> None \<Longrightarrow> live h l \<Longrightarrow> nxt h l = None \<Longrightarrow> ls h p as None \<Longrightarrow> ls h q bs None \<Longrightarrow>
   l \<notin> set as \<union> set bs \<Longrightarrow> digits_ok (map (vl h) as) \<Longrightarrow> digits_ok (map (vl h) bs) \<Longrightarrow> 0 \<le> c \<Longrightarrow> c \<le> 1 \<Longrightarrow>
   \<exists>cs c' h'. add_loop h p q c (Some l) = Some (Some (last (l # cs)), c', h') \<and> ls h' (Some l) (l # cs) None \<and>
     0 \<le> c' \<and> c' \<le> 1 \<and> digits_ok (map (vl h') cs) \<and>
     num (map (vl h') cs) + c' * 10 ^ length cs = num (map (vl h) as) + num (map (vl h) bs) + c \<and>
     (\<forall>a\<in>set cs. brk h \<le> a) \<and> heap_ok h' \<and> env h' = env h \<and> brk h \<le> brk h' \<and> vl h' l = vl h l \<and>
     (\<forall>a<brk h. a \<noteq> l \<longrightarrow> cells h' a = cells h a)"
proof (induction "length as + length bs" arbitrary: h l p as q bs c rule: less_induct)
  case less
  note ok = less.prems(1) and gr = less.prems(2) and ll = less.prems(3) and nl = less.prems(4) and La = less.prems(5)
    and Lb = less.prems(6) and nin = less.prems(7) and da = less.prems(8) and db = less.prems(9) and cc = less.prems(10,11)
  show ?case
  proof (cases "p = None \<and> q = None")
    case True
    then have "as = []" "bs = []" using La Lb by (cases as; cases bs; auto simp: link)+
    moreover have "add_loop h p q c (Some l) = Some (Some l, c, h)" using True by (subst add_loop.simps) simp
    ultimately show ?thesis using True ll nl cc ok by (intro exI [of _ "[]"] exI [of _ c] exI [of _ h]) (simp add: link digits_ok_def)
  next
    case False
    define x where "x = (case as of [] \<Rightarrow> 0 | a # _ \<Rightarrow> vl h a)"
    define y where "y = (case bs of [] \<Rightarrow> 0 | b # _ \<Rightarrow> vl h b)"
    have xy: "0 \<le> x" "x \<le> 9" "0 \<le> y" "y \<le> 9"
      using da db by (auto simp: x_def y_def digits_ok_def split: list.splits)
    have rx: "(if p = None then Some 0 else val_of h p) = Some x" using La by (cases as) (auto simp: x_def link)
    have ry: "(if q = None then Some 0 else val_of h q) = Some y" using Lb by (cases bs) (auto simp: y_def link)
    obtain n0 where n0: "env h (brk h) = Some n0" using gr by blast
    define t where "t = x + y + c"
    have t: "0 \<le> t" "t \<le> 19" using xy cc by (simp_all add: t_def)
    let ?b = "brk h"
    define h1 where "h1 = push_heap h l n0 (t mod 10)"
    have f: "heap_ok h1" "l \<noteq> ?b" "live h1 l" "live h1 ?b" "nxt h1 ?b = None" "nxt h1 l = Some ?b" "vl h1 ?b = t mod 10"
      unfolding h1_def by (rule push_heap_facts [OF ok ll])+
    have f8: "x \<noteq> ?b \<Longrightarrow> vl h1 x = vl h x" and f9: "x < ?b \<Longrightarrow> x \<noteq> l \<Longrightarrow> cells h1 x = cells h x"
      and f10: "l \<notin> set as \<Longrightarrow> ?b \<notin> set as \<Longrightarrow> ls h1 p as q = ls h p as q" for x as p q
      unfolding h1_def using push_heap_facts(8-10) [OF ok ll] by blast+
    have b1: "brk h1 = Suc ?b" "env h1 = env h" by (simp_all add: h1_def push_cells)
    have fa: "?b \<notin> set as" "?b \<notin> set bs" using fresh_loc [OF ok La] fresh_loc [OF ok Lb] by blast+
    have L1: "ls h1 p as None" "ls h1 q bs None" using f10 nin fa La Lb by simp_all
    have va: "map (vl h1) as = map (vl h) as" "map (vl h1) bs = map (vl h) bs" 
    proof -
      show "map (vl h1) as = map (vl h) as" by (rule map_cong [OF refl], rule f8) (use fa in auto)
      show "map (vl h1) bs = map (vl h) bs" by (rule map_cong [OF refl], rule f8) (use fa in auto)
    qed
    define p' q' where "p' = (if p = None then None else nxt h1 (the p))" and "q' = (if q = None then None else nxt h1 (the q))"
    have L2: "ls h1 p' (tl as) None" "ls h1 q' (tl bs) None" unfolding p'_def q'_def using ls_tl L1 by blast+
    have np: "(if p \<noteq> None then next_of h1 p else Some None) = Some p'" "(if q \<noteq> None then next_of h1 q else Some None) = Some q'"
      using L1 by (cases as; cases bs; auto simp: p'_def q'_def link)+
    have r: "add_loop h p q c (Some l) = add_loop h1 p' q' (t div 10) (Some ?b)"
    proof -
      have ci: "cint (x + y) = Some (x + y)" "cint (x + y + c) = Some t"
        using xy cc by (simp_all add: cint_def int_min_def int_max_def t_def)
      have cd: "cdiv t 10 = Some (t div 10)" "cmod t 10 = Some (t mod 10)" using t by simp_all
      obtain g0 g1 g2 where ps: "cmalloc h = (Some ?b, g0)" "store g0 (Some ?b) (\<lambda>n. n\<lparr>lval := t mod 10\<rparr>) = Some g1"
        "set_next g1 (Some ?b) None = Some g2" "set_next g2 (Some l) (Some ?b) = Some h1"
        using push_steps [OF ok ll n0, of "t mod 10"] unfolding h1_def by blast
      have nf: "(p = None \<and> q = None) = False" using False by blast
      show ?thesis
        by (subst add_loop.simps) (simp only: nf if_False rx ry ci cd ps np Let_def prod.case Option.bind.simps)
    qed
    have "length (tl as) + length (tl bs) < length as + length bs"
      using False La Lb by (cases as; cases bs; auto simp: link)
    moreover have "?b \<notin> set (tl as) \<union> set (tl bs)" using fa by (cases as; cases bs; auto)
    moreover have "digits_ok (map (vl h1) (tl as))" "digits_ok (map (vl h1) (tl bs))"
      using da db unfolding map_tl va by (cases as; cases bs; auto simp: digits_ok_def)+
    moreover have "\<forall>a. env h1 a \<noteq> None" using gr b1 by simp
    moreover have "0 \<le> t div 10" "t div 10 \<le> 1" using t by simp_all
    ultimately obtain cs c' h' where IH: "add_loop h1 p' q' (t div 10) (Some ?b) = Some (Some (last (?b # cs)), c', h')"
      "ls h' (Some ?b) (?b # cs) None" "0 \<le> c'" "c' \<le> 1" "digits_ok (map (vl h') cs)"
      "num (map (vl h') cs) + c' * 10 ^ length cs = num (map (vl h1) (tl as)) + num (map (vl h1) (tl bs)) + t div 10"
      "\<forall>a\<in>set cs. brk h1 \<le> a" "heap_ok h'" "env h' = env h1" "brk h1 \<le> brk h'" "vl h' ?b = vl h1 ?b"
      "\<forall>a<brk h1. a \<noteq> ?b \<longrightarrow> cells h' a = cells h1 a"
      using less.hyps [OF _ f(1) _ f(4,5) L2] by blast
    have lb: "l < ?b" using live_brk ok ll by blast
    then have cl: "cells h' l = cells h1 l" using IH(12) b1 by simp
    have "ls h' (Some l) (l # ?b # cs) None"
    proof -
      have "live h' l" "nxt h' l = Some ?b" using cl f(3,6) by (simp_all add: live_def nxt_def)
      then show ?thesis using IH(2) by (simp add: ls_Cons)
    qed
    moreover have "vl h' l = vl h l" using cl f(2) f8 [of l] by (simp add: vl_def)
    moreover have "\<forall>a<?b. a \<noteq> l \<longrightarrow> cells h' a = cells h a" using IH(12) f9 b1 by simp
    moreover have "\<forall>a\<in>set (?b # cs). ?b \<le> a" using IH(7) b1 by auto
    moreover have vb: "vl h' ?b = t mod 10" using IH(11) f(7) by simp
    moreover have "digits_ok (map (vl h') (?b # cs))" using IH(5) vb t by (simp add: digits_ok_def)
    moreover have "num (map (vl h') (?b # cs)) + c' * 10 ^ length (?b # cs) = num (map (vl h) as) + num (map (vl h) bs) + c"
    proof -
      have "num (map (vl h) as) = x + 10 * num (map (vl h1) (tl as))" unfolding map_tl va by (cases as) (simp_all add: x_def)
      moreover have "num (map (vl h) bs) = y + 10 * num (map (vl h1) (tl bs))" unfolding map_tl va by (cases bs) (simp_all add: y_def)
      ultimately have "num (map (vl h) as) + num (map (vl h) bs) + c =
          t + 10 * (num (map (vl h1) (tl as)) + num (map (vl h1) (tl bs)))" by (simp add: t_def)
      also have "\<dots> = t mod 10 + 10 * (num (map (vl h') cs) + c' * 10 ^ length cs)" unfolding IH(6) by (simp add: algebra_simps)
      finally show ?thesis using vb by (simp add: algebra_simps)
    qed
    ultimately show ?thesis using r IH(1,3,4,8,9,10) b1
      by (intro exI [of _ "?b # cs"] exI [of _ c'] exI [of _ h']) simp
  qed
qed

lemma digits_ok_append: "digits_ok (xs @ ys) \<longleftrightarrow> digits_ok xs \<and> digits_ok ys"
  by (auto simp: digits_ok_def)

theorem addTwoNumbers_spec:
  assumes ok: "heap_ok h" and gr: "\<forall>a. env h a \<noteq> None" and La: "ls h (Some p) as None" and Lb: "ls h (Some q) bs None"
    and da: "digits_ok (map (vl h) as)" and db: "digits_ok (map (vl h) bs)"
  shows "\<exists>r h' cs. addTwoNumbers u h (Some p) (Some q) = Some (r, h') \<and> ls h' r cs None \<and> digits_ok (map (vl h') cs) \<and>
    num (map (vl h') cs) = num (map (vl h) as) + num (map (vl h) bs) \<and> heap_ok h' \<and>
    (\<forall>a\<in>set cs. cells h a = None) \<and> (\<forall>a<brk h. cells h' a = cells h a)"
proof -
  let ?d = "brk h"
  have d: "?d \<notin> set as" "?d \<notin> set bs" using fresh_loc [OF ok La] fresh_loc [OF ok Lb] by blast+
  define h1 where "h1 = setn (loc h u) ?d None"
  have b1: "brk h1 = Suc ?d" "env h1 = env h" by (simp_all add: h1_def setn_cells loc_cells)
  have v1: "vl h1 a = vl h a" if "a \<noteq> ?d" for a using that by (simp add: h1_def vl_setn vl_loc)
  have c1: "cells h1 a = cells h a" if "a < ?d" for a using that by (simp add: h1_def setn_cells loc_cells)
  have ok1: "heap_ok h1" unfolding h1_def by (rule relinks_heap [OF relinks_setn [of ?d "{?d}"] heap_ok_loc [OF ok]]) simp
  have va: "map (vl h1) as = map (vl h) as" "map (vl h1) bs = map (vl h) bs"
  proof -
    show "map (vl h1) as = map (vl h) as" by (rule map_cong [OF refl], rule v1) (use d in auto)
    show "map (vl h1) bs = map (vl h) bs" by (rule map_cong [OF refl], rule v1) (use d in auto)
  qed
  have P: "\<forall>a. env h1 a \<noteq> None" "live h1 ?d" "nxt h1 ?d = None" "ls h1 (Some p) as None" "ls h1 (Some q) bs None"
    "?d \<notin> set as \<union> set bs" "digits_ok (map (vl h1) as)" "digits_ok (map (vl h1) bs)"
    unfolding va using da db by (simp_all add: gr b1 d) (simp_all add: h1_def link ls_loc La Lb d)
  obtain cs c h2 where L: "add_loop h1 (Some p) (Some q) 0 (Some ?d) = Some (Some (last (?d # cs)), c, h2)"
    "ls h2 (Some ?d) (?d # cs) None" "0 \<le> c" "c \<le> 1" "digits_ok (map (vl h2) cs)"
    "num (map (vl h2) cs) + c * 10 ^ length cs = num (map (vl h) as) + num (map (vl h) bs)"
    "\<forall>a\<in>set cs. brk h1 \<le> a" "heap_ok h2" "env h2 = env h1" "brk h1 \<le> brk h2" "\<forall>a<brk h1. a \<noteq> ?d \<longrightarrow> cells h2 a = cells h1 a"
    using add_loop_spec [OF ok1 P, of 0] unfolding va by auto
  have D: "distinct (?d # cs)" using ls_distinct [OF L(2)] .
  have keep: "\<exists>r h'. return_next h3 ?d = Some (r, h') \<and> ls h' r ds None \<and> digits_ok (map (vl h') ds) \<and>
      num (map (vl h') ds) = num (map (vl h) as) + num (map (vl h) bs) \<and> heap_ok h' \<and>
      (\<forall>a\<in>set ds. cells h a = None) \<and> (\<forall>a<?d. cells h' a = cells h a)"
    if A: "ls h3 (Some ?d) (?d # ds) None" "digits_ok (map (vl h3) ds)" "num (map (vl h3) ds) = num (map (vl h) as) + num (map (vl h) bs)"
      "heap_ok h3" "\<forall>a\<in>set ds. ?d < a" "\<forall>a<?d. cells h3 a = cells h a" "?d < brk h3" for h3 ds
  proof -
    have r: "return_next h3 ?d = Some (nxt h3 ?d, cdrop h3 ?d)" using A(1) by (intro return_next_live) (simp add: ls_Cons)
    have vv: "map (vl (cdrop h3 ?d)) ds = map (vl h3) ds"
      by (rule map_cong [OF refl]) (use A(5) in \<open>auto simp: vl_def cdrop_def\<close>)
    have "ls (cdrop h3 ?d) (nxt h3 ?d) ds None" using A(1,5) by (subst ls_cdrop) (auto simp: ls_Cons)
    moreover have "heap_ok (cdrop h3 ?d)" using A(4) by (simp add: heap_ok_def cdrop_def)
    moreover have "\<forall>a\<in>set ds. cells h a = None" using A(5) ok by (auto simp: heap_ok_def)
    moreover have "\<forall>a<?d. cells (cdrop h3 ?d) a = cells h a" using A(6) by (simp add: cdrop_def)
    moreover have "digits_ok (map (vl (cdrop h3 ?d)) ds)"
      "num (map (vl (cdrop h3 ?d)) ds) = num (map (vl h) as) + num (map (vl h) bs)" unfolding vv by (rule A(2), rule A(3))
    ultimately show ?thesis using r by blast
  qed
  have old: "\<forall>a<?d. cells h2 a = cells h a" using L(11) b1 c1 by simp
  have new: "\<forall>a\<in>set cs. ?d < a" using L(7) b1 by auto
  show ?thesis
  proof (cases "c = 0")
    case True
    have "addTwoNumbers u h (Some p) (Some q) = return_next h2 ?d"
      using L(1) True by (simp add: addTwoNumbers_def link h1_def)
    then show ?thesis using keep [OF L(2,5) _ L(8) new old] L(6,10) b1 True by simp metis
  next
    case False
    then have c: "c = 1" using L(3,4) by simp
    define l where "l = last (?d # cs)"
    have lin: "l \<in> set (?d # cs)" unfolding l_def by (rule last_in_set) simp
    then have ll: "live h2 l" by (rule ls_live [OF L(2)])
    obtain n0 where n0: "env h2 (brk h2) = Some n0" using gr L(9) b1 by (metis not_None_eq)
    define h3 where "h3 = push_heap h2 l n0 1"
    obtain g0 g1 g2 where ps: "cmalloc h2 = (Some (brk h2), g0)" "store g0 (Some (brk h2)) (\<lambda>n. n\<lparr>lval := 1\<rparr>) = Some g1"
      "set_next g1 (Some (brk h2)) None = Some g2" "set_next g2 (Some l) (Some (brk h2)) = Some h3"
      using push_steps [OF L(8) ll n0, of 1] unfolding h3_def by blast
    have f: "heap_ok h3" "l \<noteq> brk h2" "live h3 l" "live h3 (brk h2)" "nxt h3 (brk h2) = None" "nxt h3 l = Some (brk h2)" "vl h3 (brk h2) = 1"
      unfolding h3_def by (rule push_heap_facts [OF L(8) ll])+
    have f8: "x \<noteq> brk h2 \<Longrightarrow> vl h3 x = vl h2 x" and f9: "x < brk h2 \<Longrightarrow> x \<noteq> l \<Longrightarrow> cells h3 x = cells h2 x"
      and f10: "l \<notin> set as \<Longrightarrow> brk h2 \<notin> set as \<Longrightarrow> ls h3 p as q = ls h2 p as q" for x as p q
      unfolding h3_def using push_heap_facts(8-10) [OF L(8) ll] by blast+
    have run: "addTwoNumbers u h (Some p) (Some q) = return_next h3 ?d"
      using L(1) ps c by (simp add: addTwoNumbers_def link h1_def [symmetric] l_def [symmetric] del: last.simps)
    have bn: "brk h2 \<notin> set (?d # cs)" by (rule fresh_loc [OF L(8) L(2)])
    obtain ws where ws: "?d # cs = ws @ [l]" unfolding l_def by (metis append_butlast_last_id list.distinct(1))
    have "ls h2 (Some ?d) (ws @ [l]) None" "distinct (ws @ [l])" using L(2) D unfolding ws by blast+
    then have "ls h2 (Some ?d) ws (Some l)" "l \<notin> set ws" by (auto simp: ls_append link)
    moreover have "brk h2 \<notin> set ws" using bn unfolding ws by simp
    ultimately have "ls h3 (Some ?d) ws (Some l)" using f10 by blast
    moreover have "ls h3 (Some l) [l, brk h2] None" using f by (simp add: link)
    ultimately have "ls h3 (Some ?d) (ws @ [l, brk h2]) None" using ls_append by blast
    moreover have "ws @ [l, brk h2] = ?d # cs @ [brk h2]" using ws by (metis append.assoc append_Cons append_Nil)
    ultimately have l3: "ls h3 (Some ?d) (?d # cs @ [brk h2]) None" by simp
    have vc: "map (vl h3) cs = map (vl h2) cs" by (rule map_cong [OF refl], rule f8) (use bn in auto)
    have dd: "?d < brk h2" "\<forall>a\<in>set (cs @ [brk h2]). ?d < a" using new L(10) b1 by auto
    have "\<forall>a<?d. cells h3 a = cells h a"
    proof (intro allI impI)
      fix a assume a: "a < ?d"
      then have "a \<noteq> l" using lin dd(2) by auto
      then show "cells h3 a = cells h a" using f9 [of a] a dd(1) old by simp
    qed
    moreover have "?d < brk h3" using dd(1) by (simp add: h3_def push_cells)
    moreover have "digits_ok (map (vl h3) (cs @ [brk h2]))"
      unfolding map_append vc digits_ok_append using L(5) f(7) by (simp add: digits_ok_def)
    moreover have "num (map (vl h3) (cs @ [brk h2])) = num (map (vl h) as) + num (map (vl h) bs)"
      unfolding map_append vc num_append using L(6) c f(7) by simp
    ultimately show ?thesis unfolding run using keep [OF l3 _ _ f(1) dd(2)] by blast
  qed
qed

end
