(* ===== verification/Link_Theorems.thy ===== *)
theory Link_Theorems
  imports Link_Merge Link_Insert Link_Reverse Link_Partition Link_Add
begin

text \<open>
  The properties of the list routines. In all of them \<open>ls h p as None\<close> says that \<open>p\<close> is the
  list of the nodes \<open>as\<close>, and \<open>relinks (set as) h h'\<close> that only links of these nodes changed.
\<close>

definition example_heap :: lheap where
  "example_heap = \<lparr>cells = [10 \<mapsto> \<lparr>lval = 4, lnext = Some 11\<rparr>, 11 \<mapsto> \<lparr>lval = 2, lnext = Some 12\<rparr>, 12 \<mapsto> \<lparr>lval = 7, lnext = None\<rparr>,
     13 \<mapsto> \<lparr>lval = 5, lnext = Some 14\<rparr>, 14 \<mapsto> \<lparr>lval = 8, lnext = None\<rparr>], brk = 15, env = \<lambda>_. Some \<lparr>lval = 9, lnext = None\<rparr>\<rparr>"

text \<open>What an uninitialised local list head may hold.\<close>

definition example_local :: lnode where
  "example_local = \<lparr>lval = 9, lnext = Some 99\<rparr>"

lemma example_heap_facts: "heap_ok example_heap" "ls example_heap (Some 10) [10, 11, 12] None" "ls example_heap (Some 13) [13, 14] None"
  "vl example_heap 10 = 4" "vl example_heap 11 = 2" "vl example_heap 12 = 7" "vl example_heap 13 = 5" "vl example_heap 14 = 8"
  by (auto simp: example_heap_def heap_ok_def ls_def vl_def)

text \<open>
  C28. The four list sorts of the repository return, change nothing but links of the nodes of the
  list, and put these into sorted order: the insertion sort of \<open>linksort.c\<close> and the merge sort of
  \<open>merge_sort_list.c\<close> compute the same, stable order; both insertion sorts of
  \<open>insert_sort_list.c\<close> put a node in front of its equals, which is the stable order of the reversed list.
\<close>
theorem list_sorts_agree:
  assumes "heap_ok h" "ls h p as None"
  shows "(\<exists>r h'. sortlist u h p = Some (r, h') \<and> ls h' r (sort_key (vl h) as) None \<and> relinks (set as) h h') \<and>
    (\<exists>r h'. sortList u h p = Some (r, h') \<and> ls h' r (sort_key (vl h) as) None \<and> relinks (set as) h h') \<and>
    (\<exists>r h'. insertionSortList h p = Some (r, h') \<and> ls h' r (sort_key (vl h) (rev as)) None \<and> relinks (set as) h h') \<and>
    (\<exists>r h'. best_insertionSortList u h p = Some (r, h') \<and> ls h' r (sort_key (vl h) (rev as)) None \<and> relinks (set as) h h')"
  using sortlist_spec [OF assms] sortList_spec [OF assms] insertionSortList_spec [OF assms(2)]
    best_insertionSortList_spec [OF assms] by blast

lemma list_sorts_agree_witness:
  "\<exists>r h'. sortList example_local example_heap (Some 10) = Some (r, h') \<and> ls h' r [11, 10, 12] None \<and> map (vl h') [11, 10, 12] = [2, 4, 7]"
proof -
  have s: "sort_key (vl example_heap) [10, 11, 12] = [11, 10, 12]" by (simp add: example_heap_facts)
  obtain r h' where "sortList example_local example_heap (Some 10) = Some (r, h')" "ls h' r [11, 10, 12] None" "relinks (set [10, 11, 12]) example_heap h'"
    using list_sorts_agree [OF example_heap_facts(1,2), of example_local] unfolding s by blast
  moreover from this(3) have "vl h' = vl example_heap" by (rule relinks_vl)
  ultimately show ?thesis by (simp add: example_heap_facts)
qed

text \<open>
  C29. \<^const>\<open>mergeKLists\<close> on an array of \<open>k\<close> sorted lists without common nodes returns one sorted
  list of all their nodes, for every \<open>k\<close>, and changes nothing but the links of these nodes.
\<close>
theorem merge_k_sorted_lists:
  assumes "heap_ok h" "lists_at h (take (length ass) ps) ass" "distinct (concat ass)" "\<forall>as\<in>set ass. sorted (map (vl h) as)"
  shows "\<exists>p h' bs. mergeKLists u h ps (int (length ass)) = Some (p, h') \<and> ls h' p bs None \<and> mset bs = mset (concat ass) \<and>
    sorted (map (vl h') bs) \<and> relinks (set (concat ass)) h h'"
proof -
  obtain p h' bs where *: "mergeKLists u h ps (int (length ass)) = Some (p, h')" "ls h' p bs None" "mset bs = mset (concat ass)"
    "sorted (map (vl h) bs)" "relinks (set (concat ass)) h h'" using mergeKLists_spec [OF assms] by blast
  moreover have "sorted (map (vl h') bs)" using *(4) relinks_vl [OF *(5)] by simp
  ultimately show ?thesis by blast
qed

lemma merge_k_sorted_lists_witness:
  "\<exists>p h' bs. mergeKLists example_local example_heap [Some 11, Some 13] 2 = Some (p, h') \<and> ls h' p bs None \<and> mset bs = {#11, 12, 13, 14#} \<and>
    sorted (map (vl h') bs)"
  using merge_k_sorted_lists [of example_heap "[[11, 12], [13, 14]]" "[Some 11, Some 13]" example_local]
  by (auto simp: example_heap_facts ls_def example_heap_def heap_ok_def vl_def)

text \<open>
  C30. \<^const>\<open>reverseKGroup\<close> reverses each full group of \<open>k\<close> nodes and leaves a shorter rest in
  order; both versions of \<open>swapPairs\<close> compute what it computes for \<open>k = 2\<close>.
\<close>
theorem groups_and_pairs:
  assumes "heap_ok h" "ls h p as None" "0 < k" "int k \<le> int_max"
  shows "(\<exists>r h'. reverseKGroup u h p (int k) = Some (r, h') \<and> ls h' r (kgroup k as) None \<and> relinks (set as) h h') \<and>
    (\<exists>r h'. swapPairs h p = Some (r, h') \<and> ls h' r (kgroup 2 as) None \<and> relinks (set as) h h') \<and>
    (\<exists>r h'. best_swapPairs u h p = Some (r, h') \<and> ls h' r (kgroup 2 as) None \<and> relinks (set as) h h')"
  using reverseKGroup_spec [OF assms] swapPairs_spec [OF assms(2)] best_swapPairs_spec [OF assms(1,2)]
  unfolding swap2_kgroup by blast

lemma groups_and_pairs_witness:
  "(\<exists>r h'. reverseKGroup example_local example_heap (Some 10) 3 = Some (r, h') \<and> ls h' r [12, 11, 10] None) \<and>
   (\<exists>r h'. swapPairs example_heap (Some 10) = Some (r, h') \<and> ls h' r [11, 10, 12] None)"
proof -
  have "kgroup 3 [10, 11, 12 :: nat] = [12, 11, 10]" "kgroup 2 [10, 11, 12 :: nat] = [11, 10, 12]"
    by (simp_all add: kgroup.simps [of 3 "[10, 11, 12]"] kgroup.simps [of 2 "[10, 11, 12]"] kgroup_short)
  then show ?thesis using groups_and_pairs [OF example_heap_facts(1,2), of 3 example_local] by (auto simp: int_max_def)
qed

text \<open>
  Both partition functions put the nodes below \<open>x\<close> in front of the others, in the same order
  as before on both sides.
\<close>
theorem partitions_agree:
  assumes "heap_ok h" "ls h p as None"
  shows "(\<exists>r h'. partition_list u h p x = Some (r, h') \<and>
      ls h' r (filter (\<lambda>a. vl h a < x) as @ filter (\<lambda>a. \<not> vl h a < x) as) None \<and> relinks (set as) h h') \<and>
    (\<exists>r h'. best_partition u h p x = Some (r, h') \<and>
      ls h' r (filter (\<lambda>a. vl h a < x) as @ filter (\<lambda>a. \<not> vl h a < x) as) None \<and> relinks (set as) h h')"
  using partition_list_spec [OF assms] best_partition_spec [OF assms] by blast

lemma partitions_agree_witness:
  "(\<exists>r h'. partition_list example_local example_heap (Some 10) 3 = Some (r, h') \<and> ls h' r [11, 10, 12] None) \<and>
   (\<exists>r h'. best_partition example_local example_heap (Some 10) 3 = Some (r, h') \<and> ls h' r [11, 10, 12] None)"
  using partitions_agree [OF example_heap_facts(1,2), of example_local 3] by (auto simp: example_heap_facts)

text \<open>
  C31. \<^const>\<open>addTwoNumbers\<close> on two non-empty lists of decimal digits returns a fresh list of decimal
  digits whose number is the sum, with the last carry in a node of its own, and leaves both
  arguments as they were, as long as the allocator does not fail.
\<close>
theorem add_two_numbers_adds:
  assumes "heap_ok h" "\<forall>a. env h a \<noteq> None" "ls h (Some p) as None" "ls h (Some q) bs None"
    "digits_ok (map (vl h) as)" "digits_ok (map (vl h) bs)"
  shows "\<exists>r h' cs. addTwoNumbers u h (Some p) (Some q) = Some (r, h') \<and> ls h' r cs None \<and> digits_ok (map (vl h') cs) \<and>
    num (map (vl h') cs) = num (map (vl h) as) + num (map (vl h) bs) \<and> heap_ok h' \<and>
    (\<forall>a\<in>set cs. cells h a = None) \<and> (\<forall>a<brk h. cells h' a = cells h a)"
  by (rule addTwoNumbers_spec [OF assms])

lemma add_two_numbers_adds_witness:
  "\<exists>r h' cs. addTwoNumbers example_local example_heap (Some 10) (Some 13) = Some (r, h') \<and> ls h' r cs None \<and> num (map (vl h') cs) = 809"
proof -
  have e: "\<forall>a. env example_heap a \<noteq> None" by (simp add: example_heap_def)
  have d: "digits_ok (map (vl example_heap) [10, 11, 12])" "digits_ok (map (vl example_heap) [13, 14])"
    by (simp_all add: example_heap_facts digits_ok_def)
  show ?thesis
    using add_two_numbers_adds [OF example_heap_facts(1) e example_heap_facts(2,3) d, of example_local]
    by (auto simp: example_heap_facts)
qed

end
