(* ===== verification/Zmalloc.thy ===== *)
theory Zmalloc
  imports CPrelude
begin

unbundle bit_operations_syntax

text \<open>
  \<open>redis_ae/tcpproxy/zmalloc.c\<close> in the configuration its Makefile builds: no \<open>HAVE_MALLOC_SIZE\<close>, so
  every block carries its size in a header of 8 bytes in front of the memory the caller gets. A
  block is known by the address the caller gets. \<open>grant k n\<close> is what libc does with the \<open>k\<close>-th
  request, of \<open>n\<close> bytes: refuse, or return memory with some contents. \<open>zmalloc_oom\<close> aborts the
  process: the result \<^term>\<open>Inl (Oom n)\<close>.
\<close>

type_synonym size_t = "64 word"

datatype zerr = Oom size_t

record zblock =
  granted :: size_t
  header :: "size_t option"
  payload :: "8 word list"

record zmem =
  zblocks :: "nat \<rightharpoonup> zblock"
  zbrk :: nat
  grant :: "nat \<Rightarrow> size_t \<Rightarrow> 8 word list option"
  used_memory :: size_t
  zmalloc_thread_safe :: int

definition PREFIX_SIZE :: size_t where "PREFIX_SIZE = 8"

section \<open>libc\<close>

definition libc_malloc :: "zmem \<Rightarrow> size_t \<Rightarrow> ptr \<times> zmem" where
  "libc_malloc m n = (case grant m (zbrk m) n of
      None \<Rightarrow> (None, m\<lparr>zbrk := Suc (zbrk m)\<rparr>)
    | Some bs \<Rightarrow> (Some (zbrk m), m\<lparr>zblocks := (zblocks m)(zbrk m \<mapsto>
        \<lparr>granted = n, header = None, payload = take (unat n - 8) (bs @ replicate (unat n) 0)\<rparr>), zbrk := Suc (zbrk m)\<rparr>))"

definition libc_calloc :: "zmem \<Rightarrow> size_t \<Rightarrow> ptr \<times> zmem" where
  "libc_calloc m n = (case grant m (zbrk m) n of
      None \<Rightarrow> (None, m\<lparr>zbrk := Suc (zbrk m)\<rparr>)
    | Some bs \<Rightarrow> (Some (zbrk m), m\<lparr>zblocks := (zblocks m)(zbrk m \<mapsto>
        \<lparr>granted = n, header = Some 0, payload = replicate (unat n - 8) 0\<rparr>), zbrk := Suc (zbrk m)\<rparr>))"

text \<open>\<open>realloc\<close> of a live block: the contents are kept up to the smaller size, the old block is gone.\<close>

definition libc_realloc :: "zmem \<Rightarrow> nat \<Rightarrow> zblock \<Rightarrow> size_t \<Rightarrow> ptr \<times> zmem" where
  "libc_realloc m a b n = (case grant m (zbrk m) n of
      None \<Rightarrow> (None, m\<lparr>zbrk := Suc (zbrk m)\<rparr>)
    | Some bs \<Rightarrow> (Some (zbrk m), m\<lparr>zblocks := (zblocks m)(a := None, zbrk m \<mapsto>
        \<lparr>granted = n, header = header b, payload = take (unat n - 8) (payload b @ bs @ replicate (unat n) 0)\<rparr>),
        zbrk := Suc (zbrk m)\<rparr>))"

text \<open>The header as a value and as the target of an assignment: the block must have room for it.\<close>

definition get_header :: "zmem \<Rightarrow> ptr \<Rightarrow> size_t option" where
  "get_header m p = do { a \<leftarrow> p; b \<leftarrow> zblocks m a; guard (8 \<le> granted b); header b }"

definition set_header :: "zmem \<Rightarrow> ptr \<Rightarrow> size_t \<Rightarrow> zmem option" where
  "set_header m p n = do {
     a \<leftarrow> p;
     b \<leftarrow> zblocks m a;
     guard (8 \<le> granted b);
     Some (m\<lparr>zblocks := (zblocks m)(a \<mapsto> b\<lparr>header := Some n\<rparr>)\<rparr>)
   }"

section \<open>The statistics\<close>

text \<open>\<open>if (_n&(sizeof(long)-1)) _n += sizeof(long)-(_n&(sizeof(long)-1));\<close>\<close>

definition round_long :: "size_t \<Rightarrow> size_t" where
  "round_long n = (if n AND 7 \<noteq> 0 then n + (8 - (n AND 7)) else n)"

definition update_zmalloc_stat_add :: "zmem \<Rightarrow> size_t \<Rightarrow> zmem" where
  "update_zmalloc_stat_add m n = m\<lparr>used_memory := used_memory m + n\<rparr>"

definition update_zmalloc_stat_sub :: "zmem \<Rightarrow> size_t \<Rightarrow> zmem" where
  "update_zmalloc_stat_sub m n = m\<lparr>used_memory := used_memory m - n\<rparr>"

definition update_zmalloc_stat_alloc :: "zmem \<Rightarrow> size_t \<Rightarrow> zmem" where
  "update_zmalloc_stat_alloc m n = (let n = round_long n in
     if zmalloc_thread_safe m \<noteq> 0 then update_zmalloc_stat_add m n
     else m\<lparr>used_memory := used_memory m + n\<rparr>)"

definition update_zmalloc_stat_free :: "zmem \<Rightarrow> size_t \<Rightarrow> zmem" where
  "update_zmalloc_stat_free m n = (let n = round_long n in
     if zmalloc_thread_safe m \<noteq> 0 then update_zmalloc_stat_sub m n
     else m\<lparr>used_memory := used_memory m - n\<rparr>)"

section \<open>The allocator\<close>

definition zmalloc :: "zmem \<Rightarrow> size_t \<Rightarrow> (zerr + ptr \<times> zmem) option" where
  "zmalloc m sz = (let (p, m) = libc_malloc m (sz + PREFIX_SIZE) in
     if p = None then Some (Inl (Oom sz))
     else do {
       m \<leftarrow> set_header m p sz;
       let m = update_zmalloc_stat_alloc m (sz + PREFIX_SIZE);
       Some (Inr (p, m))
     })"

definition zcalloc :: "zmem \<Rightarrow> size_t \<Rightarrow> (zerr + ptr \<times> zmem) option" where
  "zcalloc m sz = (let (p, m) = libc_calloc m (sz + PREFIX_SIZE) in
     if p = None then Some (Inl (Oom sz))
     else do {
       m \<leftarrow> set_header m p sz;
       let m = update_zmalloc_stat_alloc m (sz + PREFIX_SIZE);
       Some (Inr (p, m))
     })"

definition zrealloc :: "zmem \<Rightarrow> ptr \<Rightarrow> size_t \<Rightarrow> (zerr + ptr \<times> zmem) option" where
  "zrealloc m p sz = (if p = None then zmalloc m sz
     else do {
       oldsize \<leftarrow> get_header m p;
       a \<leftarrow> p;
       b \<leftarrow> zblocks m a;
       let (newptr, m) = libc_realloc m a b (sz + PREFIX_SIZE);
       if newptr = None then Some (Inl (Oom sz))
       else do {
         m \<leftarrow> set_header m newptr sz;
         let m = update_zmalloc_stat_free m oldsize;
         let m = update_zmalloc_stat_alloc m sz;
         Some (Inr (newptr, m))
       }
     })"

definition zmalloc_size :: "zmem \<Rightarrow> ptr \<Rightarrow> size_t option" where
  "zmalloc_size m p = do {
     sz \<leftarrow> get_header m p;
     Some (round_long sz + PREFIX_SIZE)
   }"

definition zfree :: "zmem \<Rightarrow> ptr \<Rightarrow> zmem option" where
  "zfree m p = (if p = None then Some m
     else do {
       oldsize \<leftarrow> get_header m p;
       let m = update_zmalloc_stat_free m (oldsize + PREFIX_SIZE);
       a \<leftarrow> p;
       Some (m\<lparr>zblocks := (zblocks m)(a := None)\<rparr>)
     })"

text \<open>\<open>s\<close> is the string without its final 0; \<open>memcpy\<close> needs room for both.\<close>

definition zstrdup :: "zmem \<Rightarrow> 8 word list \<Rightarrow> (zerr + ptr \<times> zmem) option" where
  "zstrdup m s = (let l = word_of_nat (length s + 1) in do {
     r \<leftarrow> zmalloc m l;
     (case r of Inl e \<Rightarrow> Some (Inl e)
      | Inr (p, m) \<Rightarrow> do {
          a \<leftarrow> p;
          b \<leftarrow> zblocks m a;
          guard (unat l \<le> length (payload b));
          Some (Inr (p, m\<lparr>zblocks := (zblocks m)(a \<mapsto>
            b\<lparr>payload := take (unat l) (s @ [0]) @ drop (unat l) (payload b)\<rparr>)\<rparr>))
        })
   })"

definition zmalloc_used_memory :: "zmem \<Rightarrow> size_t" where
  "zmalloc_used_memory m = (let um = (if zmalloc_thread_safe m \<noteq> 0 then used_memory m else used_memory m) in um)"

definition zmalloc_enable_thread_safeness :: "zmem \<Rightarrow> zmem" where
  "zmalloc_enable_thread_safeness m = m\<lparr>zmalloc_thread_safe := 1\<rparr>"

end
