(* ===== verification/Zmalloc_Theorems.thy ===== *)
theory Zmalloc_Theorems
  imports Zmalloc
begin

unbundle bit_operations_syntax

text \<open>
  What \<^const>\<open>used_memory\<close> counts: for every live block its rounded size plus the header, as a sum
  modulo \<open>2 ^ 64\<close>, whatever the sequence of calls.
\<close>

section \<open>Rounding\<close>

lemma unat_add64: "unat ((a :: 64 word) + b) = (unat a + unat b) mod 2 ^ 64"
  by (simp add: unat_word_ariths)

lemma unat_and7: "unat ((w :: 64 word) AND 7) = unat w mod 8"
proof -
  have m: "(7 :: int) = mask 3" by (simp add: mask_eq_exp_minus_1)
  have "uint (w AND 7) = uint w AND 7" by (simp add: uint_and)
  also have "\<dots> = uint w mod 8" unfolding m take_bit_eq_mask [symmetric] take_bit_eq_mod by simp
  finally have "nat (uint (w AND 7)) = nat (uint w) mod nat 8" by (simp only: nat_mod_distrib uint_ge_0)
  then show ?thesis unfolding unat_eq_nat_uint by simp
qed

lemma round_long_prefix: "round_long (n + 8) = round_long n + 8"
proof -
  have "unat ((n + 8) AND 7) = (unat n + 8) mod 2 ^ 64 mod 8" unfolding unat_and7 unat_add64 by simp
  also have "\<dots> = (unat n + 8) mod 8" by (rule mod_mod_cancel) simp
  finally have "unat ((n + 8) AND 7) = unat (n AND 7)" unfolding unat_and7 by simp
  then have "(n + 8) AND 7 = n AND 7" by (rule word_unat_eq_iff [THEN iffD2])
  then show ?thesis by (simp add: round_long_def)
qed

lemma next_multiple: "m mod 8 \<noteq> 0 \<Longrightarrow> m + (8 - m mod 8) = (m + 7) div 8 * 8" for m :: nat
proof -
  assume nz: "m mod 8 \<noteq> 0"
  define q r where "q = m div 8" and "r = m mod 8"
  have m: "m = 8 * q + r" and r: "0 < r" "r < 8" using nz by (simp_all add: q_def r_def)
  have "m + 7 = (r - 1) + 8 * (q + 1)" using m r by simp
  then have "(m + 7) div 8 = q + 1" using r by (simp only: div_mult_self2)
  then show ?thesis using m r by (simp add: r_def [symmetric])
qed

lemma multiple: "m mod 8 = 0 \<Longrightarrow> (m + 7) div 8 * 8 = m" for m :: nat
proof -
  assume "m mod 8 = 0"
  then have "m = 8 * (m div 8)" by presburger
  then obtain q where m: "m = 8 * q" by blast
  have "(7 + 8 * q) div 8 = q" by simp
  then show ?thesis by (simp add: m add.commute)
qed

text \<open>Rounding gives the next multiple of 8, unless the size is within 7 of \<open>2 ^ 64\<close>.\<close>

lemma round_long_spec:
  assumes "unat n + 7 < 2 ^ 64"
  shows "unat (round_long n) = (unat n + 7) div 8 * 8"
proof -
  have a: "unat (n AND 7) = unat n mod 8" by (rule unat_and7)
  show ?thesis
  proof (cases "n AND 7 = 0")
    case True
    then have "unat n mod 8 = 0" using a by simp
    then show ?thesis using True by (simp add: round_long_def multiple)
  next
    case False
    then have nz: "unat n mod 8 \<noteq> 0" using a by (metis unat_eq_zero)
    have l: "unat (n AND 7) < 8" using a by simp
    then have "n AND 7 \<le> 8" by (simp add: word_le_nat_alt)
    then have s: "unat (8 - (n AND 7)) = 8 - unat n mod 8" using a by (simp add: unat_sub)
    have "unat n + (8 - unat n mod 8) < 2 ^ 64" using assms nz by linarith
    then have "unat (n + (8 - (n AND 7))) = unat n + (8 - unat n mod 8)" unfolding unat_add64 s by (rule mod_less)
    moreover have "unat n + (8 - unat n mod 8) = (unat n + 7) div 8 * 8" by (rule next_multiple [OF nz])
    ultimately show ?thesis using False by (simp add: round_long_def)
  qed
qed

section \<open>The invariant\<close>

definition block_use :: "zmem \<Rightarrow> nat \<Rightarrow> size_t" where
  "block_use m a = (case zblocks m a of None \<Rightarrow> 0 | Some b \<Rightarrow> round_long (the (header b)) + 8)"

definition zok :: "zmem \<Rightarrow> bool" where
  "zok m \<longleftrightarrow> finite (dom (zblocks m)) \<and> (\<forall>a\<ge>zbrk m. zblocks m a = None) \<and>
     (\<forall>a b. zblocks m a = Some b \<longrightarrow> 8 \<le> granted b \<and> (\<exists>n. header b = Some n \<and> granted b = n + 8)) \<and>
     used_memory m = sum (block_use m) (dom (zblocks m))"

lemma zok_header: "zok m \<Longrightarrow> zblocks m a = Some b \<Longrightarrow> \<exists>n. get_header m (Some a) = Some n \<and> header b = Some n"
  by (force simp: zok_def get_header_def)

lemma zok_add:
  assumes "zok m" "zbrk m \<le> a" "8 \<le> n + 8" "granted b = n + 8" "header b = Some n"
    "zblocks m' = (zblocks m)(a \<mapsto> b)" "zbrk m' = Suc a" "used_memory m' = used_memory m + round_long (n + 8)"
  shows "zok m'"
proof -
  have a: "zblocks m a = None" "a \<notin> dom (zblocks m)" using assms(1,2) by (auto simp: zok_def)
  have "sum (block_use m') (dom (zblocks m')) = block_use m' a + sum (block_use m') (dom (zblocks m))"
    using assms(1,6) a by (simp add: zok_def)
  also have "sum (block_use m') (dom (zblocks m)) = sum (block_use m) (dom (zblocks m))"
    by (rule sum.cong) (use a assms(6) in \<open>auto simp: block_use_def\<close>)
  also have "block_use m' a = round_long (n + 8)" using assms(5,6) by (simp add: block_use_def round_long_prefix)
  finally have "used_memory m' = sum (block_use m') (dom (zblocks m'))" using assms(1,8) by (simp add: zok_def)
  then show ?thesis using assms by (auto simp: zok_def)
qed

lemma zok_remove:
  assumes "zok m" "zblocks m a = Some b" "header b = Some n"
    "zblocks m' = (zblocks m)(a := None)" "zbrk m' = zbrk m" "used_memory m' = used_memory m - round_long (n + 8)"
  shows "zok m'"
proof -
  have f: "finite (dom (zblocks m))" "a \<in> dom (zblocks m)" using assms(1,2) by (auto simp: zok_def)
  have "sum (block_use m') (dom (zblocks m) - {a}) = sum (block_use m) (dom (zblocks m) - {a})"
    by (rule sum.cong) (use assms(4) in \<open>auto simp: block_use_def\<close>)
  also have "\<dots> = sum (block_use m) (dom (zblocks m)) - block_use m a" using f by (simp add: sum_diff1)
  also have "block_use m a = round_long (n + 8)" using assms(2,3) by (simp add: block_use_def round_long_prefix)
  finally have "used_memory m' = sum (block_use m') (dom (zblocks m'))" using assms(1,4,6) by (simp add: zok_def)
  then show ?thesis using assms by (auto simp: zok_def)
qed

text \<open>The request for the header: it must not wrap around.\<close>

definition sane :: "size_t \<Rightarrow> bool" where
  "sane n \<longleftrightarrow> unat n + 8 < 2 ^ 64"

lemma sane_unat: "sane n \<Longrightarrow> unat (n + 8) = unat n + 8"
  unfolding unat_add64 by (simp add: sane_def)

lemma sane_room: "sane n \<Longrightarrow> 8 \<le> n + 8"
  unfolding word_le_nat_alt by (simp add: sane_unat)

section \<open>Each call\<close>

theorem zmalloc_spec:
  assumes "zok m" "sane n"
  shows "(grant m (zbrk m) (n + 8) = None \<longrightarrow> zmalloc m n = Some (Inl (Oom n))) \<and>
    (\<forall>bs. grant m (zbrk m) (n + 8) = Some bs \<longrightarrow> (\<exists>m' b. zmalloc m n = Some (Inr (Some (zbrk m), m')) \<and> zok m' \<and>
      zblocks m' = (zblocks m)(zbrk m \<mapsto> b) \<and> header b = Some n \<and> length (payload b) = unat n \<and>
      used_memory m' = used_memory m + round_long (n + 8)))"
proof (intro conjI impI allI)
  show "zmalloc m n = Some (Inl (Oom n))" if "grant m (zbrk m) (n + 8) = None"
    using that by (simp add: zmalloc_def libc_malloc_def PREFIX_SIZE_def)
next
  fix bs assume g: "grant m (zbrk m) (n + 8) = Some bs"
  define b where "b = \<lparr>granted = n + 8, header = Some n, payload = take (unat (n + 8) - 8) (bs @ replicate (unat (n + 8)) 0)\<rparr>"
  define m' where "m' = m\<lparr>zblocks := (zblocks m)(zbrk m \<mapsto> b), zbrk := Suc (zbrk m), used_memory := used_memory m + round_long (n + 8)\<rparr>"
  have "zmalloc m n = Some (Inr (Some (zbrk m), m'))"
    using g sane_room [OF assms(2)]
    by (simp add: zmalloc_def libc_malloc_def PREFIX_SIZE_def set_header_def update_zmalloc_stat_alloc_def
        update_zmalloc_stat_add_def m'_def b_def Let_def)
  moreover have "zok m'" by (rule zok_add [OF assms(1) order_refl sane_room [OF assms(2)]]) (simp_all add: m'_def b_def)
  moreover have "length (payload b) = unat n" using sane_unat [OF assms(2)] by (simp add: b_def)
  ultimately show "\<exists>m' b. zmalloc m n = Some (Inr (Some (zbrk m), m')) \<and> zok m' \<and>
      zblocks m' = (zblocks m)(zbrk m \<mapsto> b) \<and> header b = Some n \<and> length (payload b) = unat n \<and>
      used_memory m' = used_memory m + round_long (n + 8)"
    by (intro exI [of _ m'] exI [of _ b]) (simp add: m'_def b_def)
qed

text \<open>\<^const>\<open>zcalloc\<close> is \<^const>\<open>zmalloc\<close> with a payload of zeros.\<close>

theorem zcalloc_spec:
  assumes "zok m" "sane n"
  shows "(grant m (zbrk m) (n + 8) = None \<longrightarrow> zcalloc m n = Some (Inl (Oom n))) \<and>
    (\<forall>bs. grant m (zbrk m) (n + 8) = Some bs \<longrightarrow> (\<exists>m' b. zcalloc m n = Some (Inr (Some (zbrk m), m')) \<and> zok m' \<and>
      zblocks m' = (zblocks m)(zbrk m \<mapsto> b) \<and> header b = Some n \<and> payload b = replicate (unat n) 0 \<and>
      used_memory m' = used_memory m + round_long (n + 8)))"
proof (intro conjI impI allI)
  show "zcalloc m n = Some (Inl (Oom n))" if "grant m (zbrk m) (n + 8) = None"
    using that by (simp add: zcalloc_def libc_calloc_def PREFIX_SIZE_def)
next
  fix bs assume g: "grant m (zbrk m) (n + 8) = Some bs"
  define b where "b = \<lparr>granted = n + 8, header = Some n, payload = replicate (unat n) 0\<rparr>"
  define m' where "m' = m\<lparr>zblocks := (zblocks m)(zbrk m \<mapsto> b), zbrk := Suc (zbrk m), used_memory := used_memory m + round_long (n + 8)\<rparr>"
  have "zcalloc m n = Some (Inr (Some (zbrk m), m'))"
    using g sane_room [OF assms(2)] sane_unat [OF assms(2)]
    by (simp add: zcalloc_def libc_calloc_def PREFIX_SIZE_def set_header_def update_zmalloc_stat_alloc_def
        update_zmalloc_stat_add_def m'_def b_def Let_def)
  moreover have "zok m'" by (rule zok_add [OF assms(1) order_refl sane_room [OF assms(2)]]) (simp_all add: m'_def b_def)
  ultimately show "\<exists>m' b. zcalloc m n = Some (Inr (Some (zbrk m), m')) \<and> zok m' \<and>
      zblocks m' = (zblocks m)(zbrk m \<mapsto> b) \<and> header b = Some n \<and> payload b = replicate (unat n) 0 \<and>
      used_memory m' = used_memory m + round_long (n + 8)"
    by (intro exI [of _ m'] exI [of _ b]) (simp add: m'_def b_def)
qed

theorem zfree_spec:
  assumes "zok m"
  shows "zfree m None = Some m" "zblocks m a = None \<Longrightarrow> zfree m (Some a) = None"
    "zblocks m a = Some b \<Longrightarrow> header b = Some n \<Longrightarrow> \<exists>m'. zfree m (Some a) = Some m' \<and> zok m' \<and>
      zblocks m' = (zblocks m)(a := None) \<and> used_memory m' = used_memory m - round_long (n + 8)"
proof -
  show "zfree m None = Some m" by (simp add: zfree_def)
  show "zblocks m a = None \<Longrightarrow> zfree m (Some a) = None" by (simp add: zfree_def get_header_def)
  assume b: "zblocks m a = Some b" "header b = Some n"
  define m' where "m' = m\<lparr>used_memory := used_memory m - round_long (n + 8), zblocks := (zblocks m)(a := None)\<rparr>"
  have "get_header m (Some a) = Some n" using zok_header [OF assms b(1)] b(2) by simp
  then have "zfree m (Some a) = Some m'"
    by (simp add: zfree_def update_zmalloc_stat_free_def update_zmalloc_stat_sub_def PREFIX_SIZE_def m'_def Let_def)
  moreover have "zok m'" by (rule zok_remove [OF assms b]) (simp_all add: m'_def)
  ultimately show "\<exists>m'. zfree m (Some a) = Some m' \<and> zok m' \<and> zblocks m' = (zblocks m)(a := None) \<and>
      used_memory m' = used_memory m - round_long (n + 8)" by (intro exI [of _ m']) (simp add: m'_def)
qed

text \<open>
  \<^const>\<open>zrealloc\<close> leaves the header out of both sides of the statistics, which is exact because
  the header is a multiple of the unit of rounding.
\<close>

theorem zrealloc_spec:
  assumes "zok m" "sane n" "zblocks m a = Some b" "header b = Some k"
  shows "(grant m (zbrk m) (n + 8) = None \<longrightarrow> zrealloc m (Some a) n = Some (Inl (Oom n))) \<and>
    (\<forall>bs. grant m (zbrk m) (n + 8) = Some bs \<longrightarrow> (\<exists>m' b'. zrealloc m (Some a) n = Some (Inr (Some (zbrk m), m')) \<and> zok m' \<and>
      zblocks m' = (zblocks m)(a := None, zbrk m \<mapsto> b') \<and> header b' = Some n \<and> length (payload b') = unat n \<and>
      take (unat n) (payload b) = take (length (payload b)) (payload b') \<and>
      used_memory m' = used_memory m - round_long (k + 8) + round_long (n + 8)))"
proof (intro conjI impI allI)
  have h: "get_header m (Some a) = Some k" using zok_header [OF assms(1,3)] assms(4) by simp
  show "zrealloc m (Some a) n = Some (Inl (Oom n))" if "grant m (zbrk m) (n + 8) = None"
    using that h assms(3) by (simp add: zrealloc_def libc_realloc_def PREFIX_SIZE_def)
  fix bs assume g: "grant m (zbrk m) (n + 8) = Some bs"
  define pl where "pl = take (unat (n + 8) - 8) (payload b @ bs @ replicate (unat (n + 8)) 0)"
  define b' where "b' = \<lparr>granted = n + 8, header = Some n, payload = pl\<rparr>"
  define m' where "m' = m\<lparr>zblocks := (zblocks m)(a := None, zbrk m \<mapsto> b'), zbrk := Suc (zbrk m),
    used_memory := used_memory m - round_long k + round_long n\<rparr>"
  have r: "zrealloc m (Some a) n = Some (Inr (Some (zbrk m), m'))"
    using g h assms(3) sane_room [OF assms(2)]
    by (simp add: zrealloc_def libc_realloc_def PREFIX_SIZE_def set_header_def update_zmalloc_stat_alloc_def
        update_zmalloc_stat_free_def update_zmalloc_stat_add_def update_zmalloc_stat_sub_def m'_def b'_def pl_def Let_def)
  have u: "used_memory m' = used_memory m - round_long (k + 8) + round_long (n + 8)"
    by (simp add: m'_def round_long_prefix)
  define m0 where "m0 = m\<lparr>zblocks := (zblocks m)(a := None), used_memory := used_memory m - round_long (k + 8)\<rparr>"
  have "zok m0" by (rule zok_remove [OF assms(1,3,4)]) (simp_all add: m0_def)
  moreover have "zbrk m0 \<le> zbrk m" "granted b' = n + 8" "header b' = Some n" "zblocks m' = (zblocks m0)(zbrk m \<mapsto> b')"
    "zbrk m' = Suc (zbrk m)" by (simp_all add: m0_def m'_def b'_def)
  moreover have "used_memory m' = used_memory m0 + round_long (n + 8)" unfolding u by (simp add: m0_def)
  ultimately have "zok m'" using zok_add [OF _ _ sane_room [OF assms(2)]] by blast
  moreover have "pl = take (unat n) (payload b @ bs @ replicate (unat n + 8) 0)" using sane_unat [OF assms(2)] by (simp add: pl_def)
  then have "length pl = unat n" by simp
  moreover have "take (unat n) (payload b) = take (length (payload b)) pl"
    unfolding \<open>pl = take (unat n) (payload b @ bs @ replicate (unat n + 8) 0)\<close>
    by (cases "length (payload b) \<le> unat n") simp_all
  ultimately show "\<exists>m' b'. zrealloc m (Some a) n = Some (Inr (Some (zbrk m), m')) \<and> zok m' \<and>
      zblocks m' = (zblocks m)(a := None, zbrk m \<mapsto> b') \<and> header b' = Some n \<and> length (payload b') = unat n \<and>
      take (unat n) (payload b) = take (length (payload b)) (payload b') \<and>
      used_memory m' = used_memory m - round_long (k + 8) + round_long (n + 8)"
    using r u by (intro exI [of _ m'] exI [of _ b']) (simp add: m'_def b'_def)
qed

text \<open>
  Sequences of allocator calls: what \<^const>\<open>zmalloc_used_memory\<close> reports after any of them, and
  what happens to a request so large that adding the header wraps around.
\<close>

section \<open>Calls in sequence\<close>

datatype zcall = Malloc size_t | Calloc size_t | Realloc ptr size_t | Strdup "8 word list" | Free ptr | Safe

fun zstep :: "zmem \<Rightarrow> zcall \<Rightarrow> (zerr + zmem) option" where
  "zstep m (Malloc n) = map_option (map_sum id snd) (zmalloc m n)"
| "zstep m (Calloc n) = map_option (map_sum id snd) (zcalloc m n)"
| "zstep m (Realloc p n) = map_option (map_sum id snd) (zrealloc m p n)"
| "zstep m (Strdup s) = map_option (map_sum id snd) (zstrdup m s)"
| "zstep m (Free p) = map_option Inr (zfree m p)"
| "zstep m Safe = Some (Inr (zmalloc_enable_thread_safeness m))"

fun zrun :: "zmem \<Rightarrow> zcall list \<Rightarrow> (zerr + zmem) option" where
  "zrun m [] = Some (Inr m)"
| "zrun m (c # cs) = (case zstep m c of
      None \<Rightarrow> None
    | Some (Inl e) \<Rightarrow> Some (Inl e)
    | Some (Inr m) \<Rightarrow> zrun m cs)"

text \<open>The process at its start.\<close>

definition zstart :: "(nat \<Rightarrow> size_t \<Rightarrow> 8 word list option) \<Rightarrow> zmem" where
  "zstart g = \<lparr>zblocks = Map.empty, zbrk = 0, grant = g, used_memory = 0, zmalloc_thread_safe = 0\<rparr>"

fun sane_call :: "zcall \<Rightarrow> bool" where
  "sane_call (Malloc n) = sane n"
| "sane_call (Calloc n) = sane n"
| "sane_call (Realloc p n) = sane n"
| "sane_call (Strdup s) = (length s + 9 < 2 ^ 64)"
| "sane_call _ = True"

fun call_ptr :: "zcall \<Rightarrow> ptr" where
  "call_ptr (Realloc p n) = p"
| "call_ptr (Free p) = p"
| "call_ptr _ = None"

definition dangling :: "zmem \<Rightarrow> zcall \<Rightarrow> bool" where
  "dangling m c = (case call_ptr c of None \<Rightarrow> False | Some a \<Rightarrow> zblocks m a = None)"

lemma sane_strdup: "length s + 9 < 2 ^ 64 \<Longrightarrow> sane (word_of_nat (length s + 1))"
  "length s + 9 < 2 ^ 64 \<Longrightarrow> unat (word_of_nat (length s + 1) :: 64 word) = length s + 1"
  by (simp_all add: sane_def unat_of_nat del: of_nat_Suc)

text \<open>Writing the payload of a block leaves the accounting alone.\<close>

lemma zok_payload:
  assumes "zok m" "zblocks m a = Some b"
  shows "zok (m\<lparr>zblocks := (zblocks m)(a \<mapsto> b\<lparr>payload := xs\<rparr>)\<rparr>)"
proof -
  define m' where "m' = m\<lparr>zblocks := (zblocks m)(a \<mapsto> b\<lparr>payload := xs\<rparr>)\<rparr>"
  have d: "dom (zblocks m') = dom (zblocks m)" using assms(2) by (auto simp: m'_def)
  have "block_use m' = block_use m" using assms(2) by (auto simp: block_use_def m'_def fun_eq_iff)
  moreover have "zbrk m \<le> c \<longrightarrow> c \<noteq> a" for c using assms by (auto simp: zok_def)
  then have "\<forall>c\<ge>zbrk m'. zblocks m' c = None" using assms(1) by (auto simp: zok_def m'_def)
  moreover have "used_memory m' = used_memory m" by (simp add: m'_def)
  moreover have "\<forall>c d. zblocks m' c = Some d \<longrightarrow> 8 \<le> granted d \<and> (\<exists>n. header d = Some n \<and> granted d = n + 8)"
    using assms by (auto simp: zok_def m'_def)
  ultimately have "zok m'" using assms(1) d unfolding zok_def by presburger
  then show ?thesis by (simp only: m'_def)
qed

text \<open>A duplicated string is the string with its final 0.\<close>

theorem zstrdup_spec:
  assumes "zok m" "length s + 9 < 2 ^ 64"
  shows "(case grant m (zbrk m) (word_of_nat (length s + 1) + 8) of
      None \<Rightarrow> zstrdup m s = Some (Inl (Oom (word_of_nat (length s + 1))))
    | Some bs \<Rightarrow> \<exists>m' b. zstrdup m s = Some (Inr (Some (zbrk m), m')) \<and> zok m' \<and>
        zblocks m' (zbrk m) = Some b \<and> payload b = s @ [0])"
proof (cases "grant m (zbrk m) (word_of_nat (length s + 1) + 8)")
  case None
  then have "zmalloc m (word_of_nat (length s + 1)) = Some (Inl (Oom (word_of_nat (length s + 1))))"
    using zmalloc_spec [OF assms(1) sane_strdup(1) [OF assms(2)]] by blast
  then show ?thesis using None by (simp add: zstrdup_def Let_def)
next
  case (Some bs)
  let ?l = "word_of_nat (length s + 1) :: size_t"
  obtain m1 b where z: "zmalloc m ?l = Some (Inr (Some (zbrk m), m1))" "zok m1"
      "zblocks m1 = (zblocks m)(zbrk m \<mapsto> b)" "length (payload b) = unat ?l"
    using zmalloc_spec [OF assms(1) sane_strdup(1) [OF assms(2)]] Some by blast
  have l: "unat ?l = length s + 1" by (rule sane_strdup(2) [OF assms(2)])
  have b: "zblocks m1 (zbrk m) = Some b" using z(3) by simp
  define m' where "m' = m1\<lparr>zblocks := (zblocks m1)(zbrk m \<mapsto> b\<lparr>payload := s @ [0]\<rparr>)\<rparr>"
  have "zstrdup m s = Some (Inr (Some (zbrk m), m'))"
    unfolding zstrdup_def Let_def z(1) using b z(4) l by (simp add: m'_def del: of_nat_Suc)
  moreover have "zok m'" unfolding m'_def by (rule zok_payload [OF z(2) b])
  ultimately show ?thesis using Some by (simp add: m'_def)
qed

lemma zstep_spec:
  assumes "zok m" "sane_call c" "\<not> dangling m c"
  shows "(\<exists>m'. zstep m c = Some (Inr m') \<and> zok m') \<or> (\<exists>n. zstep m c = Some (Inl (Oom n)) \<and> grant m (zbrk m) (n + 8) = None)"
proof (cases c)
  case (Malloc n)
  then show ?thesis using zmalloc_spec [OF assms(1), of n] assms(2)
    by (cases "grant m (zbrk m) (n + 8)") auto
next
  case (Calloc n)
  then show ?thesis using zcalloc_spec [OF assms(1), of n] assms(2)
    by (cases "grant m (zbrk m) (n + 8)") auto
next
  case (Strdup s)
  then show ?thesis using zstrdup_spec [OF assms(1), of s] assms(2)
    by (cases "grant m (zbrk m) (word_of_nat (length s + 1) + 8)") auto
next
  case (Realloc p n)
  show ?thesis
  proof (cases p)
    case None
    then show ?thesis using Realloc zmalloc_spec [OF assms(1), of n] assms(2)
      by (cases "grant m (zbrk m) (n + 8)") (auto simp: zrealloc_def)
  next
    case (Some a)
    then obtain b k where "zblocks m a = Some b" "header b = Some k"
      using assms Realloc by (force simp: dangling_def zok_def)
    then show ?thesis using Realloc Some zrealloc_spec [OF assms(1), of n a b k] assms(2)
      by (cases "grant m (zbrk m) (n + 8)") auto
  qed
next
  case (Free p)
  show ?thesis
  proof (cases p)
    case None
    then show ?thesis using Free assms(1) by (simp add: zfree_def)
  next
    case (Some a)
    then obtain b k where "zblocks m a = Some b" "header b = Some k"
      using assms Free by (force simp: dangling_def zok_def)
    then show ?thesis using Free Some zfree_spec(3) [OF assms(1), of a b k] by auto
  qed
next
  case Safe
  have "zok (zmalloc_enable_thread_safeness m)"
    using assms(1) by (simp add: zok_def block_use_def zmalloc_enable_thread_safeness_def)
  then show ?thesis using Safe by simp
qed

lemma zok_zstart: "zok (zstart g)"
  by (simp add: zok_def zstart_def)

lemma zok_sizes:
  assumes "zok m" "zblocks m a = Some b"
  shows "zmalloc_size m (Some a) = Some (block_use m a)"
  using zok_header [OF assms] assms(2) by (auto simp: zmalloc_size_def block_use_def PREFIX_SIZE_def)

definition accounted :: "zmem \<Rightarrow> bool" where
  "accounted m \<longleftrightarrow> finite (dom (zblocks m)) \<and> (\<forall>a\<in>dom (zblocks m). zmalloc_size m (Some a) \<noteq> None) \<and>
     zmalloc_used_memory m = (\<Sum>a\<in>dom (zblocks m). the (zmalloc_size m (Some a)))"

lemma zok_accounted: "zok m \<Longrightarrow> accounted m"
proof -
  assume z: "zok m"
  have "(\<Sum>a\<in>dom (zblocks m). the (zmalloc_size m (Some a))) = sum (block_use m) (dom (zblocks m))"
    by (rule sum.cong) (auto simp: zok_sizes [OF z])
  then show ?thesis using z zok_sizes [OF z] by (auto simp: accounted_def zok_def zmalloc_used_memory_def)
qed

text \<open>The two ways a sequence of calls ends early: \<open>malloc\<close> refuses, or a pointer is not a live block.\<close>

definition refused :: "zmem \<Rightarrow> zcall list \<Rightarrow> bool" where
  "refused m cs \<longleftrightarrow> (\<exists>n pre c post m'. zrun m cs = Some (Inl (Oom n)) \<and> cs = pre @ c # post \<and>
     zrun m pre = Some (Inr m') \<and> grant m' (zbrk m') (n + 8) = None)"

definition misused :: "zmem \<Rightarrow> zcall list \<Rightarrow> bool" where
  "misused m cs \<longleftrightarrow> (\<exists>pre c post m'. cs = pre @ c # post \<and> zrun m pre = Some (Inr m') \<and> dangling m' c)"

lemma zrun_step: "zstep m c = Some (Inr m') \<Longrightarrow> zrun m (c # cs) = zrun m' cs"
  by simp

lemma refused_here: "zstep m c = Some (Inl (Oom n)) \<Longrightarrow> grant m (zbrk m) (n + 8) = None \<Longrightarrow> refused m (c # cs)"
  unfolding refused_def
  by (intro exI [of _ n] exI [of _ "[]"] exI [of _ c] exI [of _ cs] exI [of _ m]) simp

lemma misused_here: "dangling m c \<Longrightarrow> misused m (c # cs)"
  unfolding misused_def by (intro exI [of _ "[]"] exI [of _ c] exI [of _ cs] exI [of _ m]) simp

lemma refused_later:
  assumes "zstep m c = Some (Inr m')" "refused m' cs"
  shows "refused m (c # cs)"
proof -
  obtain n pre d post k where r: "zrun m' cs = Some (Inl (Oom n))" "cs = pre @ d # post"
    "zrun m' pre = Some (Inr k)" "grant k (zbrk k) (n + 8) = None"
    using assms(2) unfolding refused_def by blast
  show ?thesis unfolding refused_def zrun_step [OF assms(1)]
    by (intro exI [of _ n] exI [of _ "c # pre"] exI [of _ d] exI [of _ post] exI [of _ k] conjI r)
      (simp_all only: r append_Cons zrun_step [OF assms(1)])
qed

lemma misused_later:
  assumes "zstep m c = Some (Inr m')" "misused m' cs"
  shows "misused m (c # cs)"
proof -
  obtain pre d post k where r: "cs = pre @ d # post" "zrun m' pre = Some (Inr k)" "dangling k d"
    using assms(2) unfolding misused_def by blast
  show ?thesis unfolding misused_def
    by (intro exI [of _ "c # pre"] exI [of _ d] exI [of _ post] exI [of _ k] conjI r)
      (simp_all only: r append_Cons zrun_step [OF assms(1)])
qed

lemma zrun_spec:
  "zok m \<Longrightarrow> \<forall>c\<in>set cs. sane_call c \<Longrightarrow>
    (\<exists>m'. zrun m cs = Some (Inr m') \<and> zok m') \<or> refused m cs \<or> misused m cs"
proof (induction cs arbitrary: m)
  case Nil
  then show ?case by simp
next
  case (Cons c cs)
  have c: "sane_call c" and cs: "\<forall>c\<in>set cs. sane_call c" using Cons.prems(2) by simp_all
  consider "dangling m c" | m1 where "zstep m c = Some (Inr m1)" "zok m1"
    | n where "zstep m c = Some (Inl (Oom n))" "grant m (zbrk m) (n + 8) = None"
    using zstep_spec [OF Cons.prems(1) c] by blast
  then show ?case
  proof cases
    case 1
    then show ?thesis using misused_here by blast
  next
    case 2
    then show ?thesis using Cons.IH [OF 2(2) cs] zrun_step [OF 2(1)] refused_later [OF 2(1)] misused_later [OF 2(1)]
      by metis
  next
    case 3
    then show ?thesis using refused_here by blast
  qed
qed

section \<open>The property\<close>

text \<open>
  C32. Whatever the sequence of \<open>zmalloc\<close>, \<open>zcalloc\<close>, \<open>zrealloc\<close>, \<open>zstrdup\<close> and \<open>zfree\<close> calls (with
  the switch to thread safety anywhere among them), as long as no size is within 8 of \<open>2 ^ 64\<close>: the
  calls all return and \<open>zmalloc_used_memory\<close> is then exactly the sum of \<open>zmalloc_size\<close> over the
  live blocks, or \<open>malloc\<close> refused a request and the process stopped there, or some call was handed a
  pointer that is not a live block. \<open>zrealloc\<close> keeps the sum although it leaves the header out of
  both updates.
\<close>
theorem used_memory_exact:
  assumes "\<forall>c\<in>set cs. sane_call c"
  shows "(\<exists>m. zrun (zstart g) cs = Some (Inr m) \<and> accounted m) \<or>
    refused (zstart g) cs \<or> misused (zstart g) cs"
  using zrun_spec [OF zok_zstart assms] zok_accounted by blast

text \<open>The witness: three blocks, one of them moved and one released; 24 and 16 bytes stay in use.\<close>

theorem used_memory_exact_witness:
  "(let g = (\<lambda>k n. Some []); cs = [Malloc 5, Calloc 1, Realloc (Some 0) 9, Strdup [104, 105], Free (Some 1)] in
    ((\<exists>m. zrun (zstart g) cs = Some (Inr m) \<and> accounted m) \<or>
    refused (zstart g) cs \<or> misused (zstart g) cs) \<and>
    map_option (map_sum id zmalloc_used_memory) (zrun (zstart g) cs) = Some (Inr 40))"
  unfolding Let_def by (rule conjI [OF used_memory_exact]) (simp add: sane_def, code_simp)

text \<open>
  A size within 8 of \<open>2 ^ 64\<close>: \<open>size+PREFIX_SIZE\<close> wraps around to fewer bytes than the header has,
  \<open>malloc\<close> may grant them, and storing the size then writes outside the block.
\<close>

theorem huge_size_overruns:
  assumes "2 ^ 64 \<le> unat n + 8" "grant m (zbrk m) (n + 8) = Some bs"
  shows "unat (n + 8) < 8" "zmalloc m n = None" "zcalloc m n = None"
proof -
  have "unat n < 2 ^ 64" by (rule order_less_le_trans [OF unsigned_less]) simp
  then have "unat (n + 8) = unat n + 8 - 2 ^ 64" unfolding unat_add64 using assms(1) by (simp add: le_mod_geq)
  then show s: "unat (n + 8) < 8" using \<open>unat n < 2 ^ 64\<close> by linarith
  then have "\<not> 8 \<le> n + 8" unfolding word_le_nat_alt by simp
  then show "zmalloc m n = None" "zcalloc m n = None"
    using assms(2) by (simp_all add: zmalloc_def zcalloc_def libc_malloc_def libc_calloc_def PREFIX_SIZE_def set_header_def)
qed

end
