(* ===== verification/Flow.thy ===== *)
theory Flow
  imports CPrelude "HOL-Library.AList"
begin

unbundle bit_operations_syntax

text \<open>
  \<open>unp/tcpflow\<close>, first part: the flow table of \<open>flow.c\<close>, the ring of open files, and
  \<open>store_packet\<close> of \<open>tcpip.c\<close>, which writes the data of a TCP segment to its place in the file
  of its flow. The output of \<open>DEBUG\<close> is left out (\<open>debug_level\<close> below 5, as by default). A process that
  gives up with \<open>exit(1)\<close> is a value \<^term>\<open>Inl e\<close>.
\<close>

type_synonym byte = "8 word"
type_synonym u32 = "32 word"
type_synonym u16 = "16 word"

record flow_t =
  src :: u32
  dst :: u32
  sport :: u16
  dport :: u16

record flow_state =
  fnext :: ptr
  flow :: flow_t
  isn :: u32
  fp :: ptr
  pos :: int
  flags :: int
  last_access :: int

datatype fexit = NoMemory | NoDescriptors | NoReport | UnknownLink

section \<open>Files\<close>

text \<open>
  What stdio does. A \<open>FILE\<close> is a number in \<open>handles\<close> with the name of its file and its
  position. At the \<open>k\<close>-th call of \<open>fopen\<close>, \<open>room k\<close> is the number of files that can be
  open (\<open>EMFILE\<close> or \<open>ENFILE\<close> beyond it) and \<open>denied k\<close> says that it fails for another
  reason; \<open>short k\<close> is how many bytes the \<open>k\<close>-th write stores when it fails.
\<close>

record fsys =
  fdata :: "string \<rightharpoonup> byte list"
  handles :: "(nat \<times> string \<times> nat) list"
  fresh_file :: nat
  opens :: nat
  writes :: nat
  room :: "nat \<Rightarrow> nat"
  denied :: "nat \<Rightarrow> bool"
  short :: "nat \<Rightarrow> nat option"

datatype fopen_result = Opened nat | TooMany | Failed

definition fopen :: "fsys \<Rightarrow> string \<Rightarrow> bool \<Rightarrow> fopen_result \<times> fsys" where
  "fopen s name trunc = (let k = opens s; s = s\<lparr>opens := Suc k\<rparr> in
     if room s k \<le> length (handles s) then (TooMany, s)
     else if denied s k \<or> \<not> trunc \<and> fdata s name = None then (Failed, s)
     else (Opened (fresh_file s),
       s\<lparr>fdata := (if trunc then (fdata s)(name \<mapsto> []) else fdata s),
         handles := (fresh_file s, name, 0) # handles s, fresh_file := Suc (fresh_file s)\<rparr>))"

definition fclose :: "fsys \<Rightarrow> nat \<Rightarrow> fsys option" where
  "fclose s h = do {
     _ \<leftarrow> map_of (handles s) h;
     Some (s\<lparr>handles := AList.delete h (handles s)\<rparr>)
   }"

definition ftell :: "fsys \<Rightarrow> nat \<Rightarrow> int option" where
  "ftell s h = map_option (\<lambda>(name, at). int at) (map_of (handles s) h)"

definition fseek :: "fsys \<Rightarrow> nat \<Rightarrow> int \<Rightarrow> fsys option" where
  "fseek s h p = do {
     (name, at) \<leftarrow> map_of (handles s) h;
     Some (s\<lparr>handles := AList.update h (name, nat p) (handles s)\<rparr>)
   }"

text \<open>The bytes of a file after a write at a position; a gap before it is filled with zeros.\<close>

definition put_at :: "nat \<Rightarrow> byte list \<Rightarrow> byte list \<Rightarrow> byte list" where
  "put_at k d c = (if d = [] then c
     else take k (c @ replicate (k - length c) 0) @ d @ drop (k + length d) c)"

definition fwrite :: "fsys \<Rightarrow> nat \<Rightarrow> byte list \<Rightarrow> (int \<times> fsys) option" where
  "fwrite s h d = do {
     (name, at) \<leftarrow> map_of (handles s) h;
     c \<leftarrow> fdata s name;
     let e = (case short s (writes s) of None \<Rightarrow> d | Some k \<Rightarrow> take k (butlast d));
     Some (if d \<noteq> [] \<and> e = d then 1 else 0,
       s\<lparr>fdata := (fdata s)(name \<mapsto> put_at at e c), handles := AList.update h (name, at + length e) (handles s),
         writes := Suc (writes s)\<rparr>)
   }"

section \<open>\<open>util.c\<close>: the name of a flow's file\<close>

fun digits :: "nat \<Rightarrow> string" where
  "digits n = (if n < 10 then [char_of (48 + n)] else digits (n div 10) @ [char_of (48 + n mod 10)])"

declare digits.simps [simp del]

text \<open>\<open>%0wd\<close> of \<open>sprintf\<close>.\<close>

definition padded :: "nat \<Rightarrow> nat \<Rightarrow> string" where
  "padded w n = replicate (w - length (digits n)) (CHR ''0'') @ digits n"

text \<open>\<open>(u_int8_t) ((addr & 0xff000000) >> 24)\<close> and its like.\<close>

definition octet :: "nat \<Rightarrow> u32 \<Rightarrow> nat" where
  "octet k w = unat (ucast (drop_bit (8 * k) (w AND push_bit (8 * k) 0xff)) :: 8 word)"

definition flow_filename :: "flow_t \<Rightarrow> string" where
  "flow_filename f =
     padded 3 (octet 3 (src f)) @ ''.'' @ padded 3 (octet 2 (src f)) @ ''.'' @
     padded 3 (octet 1 (src f)) @ ''.'' @ padded 3 (octet 0 (src f)) @ ''.'' @ padded 5 (unat (sport f)) @ ''-'' @
     padded 3 (octet 3 (dst f)) @ ''.'' @ padded 3 (octet 2 (dst f)) @ ''.'' @
     padded 3 (octet 1 (dst f)) @ ''.'' @ padded 3 (octet 0 (dst f)) @ ''.'' @ padded 5 (unat (dport f))"

section \<open>\<open>flow.c\<close>\<close>

definition HASH_SIZE :: nat where "HASH_SIZE = 1009"
definition NUM_RESERVED_FDS :: int where "NUM_RESERVED_FDS = 5"
definition FLOW_FINISHED :: int where "FLOW_FINISHED = 1"
definition FLOW_FILE_EXISTS :: int where "FLOW_FILE_EXISTS = 2"

definition IS_SET :: "int \<Rightarrow> int \<Rightarrow> bool" where "IS_SET v f \<longleftrightarrow> v AND f \<noteq> 0"

definition SET_BIT :: "int \<Rightarrow> int \<Rightarrow> int" where "SET_BIT v f = v OR f"

definition HASH_FLOW :: "flow_t \<Rightarrow> nat" where
  "HASH_FLOW f = unat ((ucast (sport f) AND 0xff) OR push_bit 8 (ucast (dport f) AND 0xff) OR
     push_bit 16 (src f AND 0xff) OR push_bit 24 (dst f AND 0xff) :: u32) mod HASH_SIZE"

record flow_mem =
  states :: "flow_state heap"
  flow_hash :: "ptr list"
  fd_ring :: "ptr list"
  max_fds :: int
  next_slot :: int
  current_time :: int
  files :: fsys

definition set_state :: "flow_mem \<Rightarrow> ptr \<Rightarrow> (flow_state \<Rightarrow> flow_state) \<Rightarrow> flow_mem option" where
  "set_state m p f = map_option (\<lambda>h. m\<lparr>states := h\<rparr>) (store (states m) p f)"

text \<open>\<open>MALLOC(flow_state_t *, max_fds)\<close> is taken to be granted: \<open>max_fds\<close> is at most the file limit.\<close>

definition init_flow_state :: "flow_mem \<Rightarrow> int \<Rightarrow> flow_mem" where
  "init_flow_state m get_max_fds = (let n = get_max_fds - NUM_RESERVED_FDS in
     m\<lparr>max_fds := n, fd_ring := replicate (nat n) None, flow_hash := replicate HASH_SIZE None,
       next_slot := - 1, current_time := 0\<rparr>)"

definition create_flow_state :: "flow_mem \<Rightarrow> flow_t \<Rightarrow> u32 \<Rightarrow> (fexit + ptr \<times> flow_mem) option" where
  "create_flow_state m f seq = (let (p, h) = cmalloc (states m) in
     if p = None then Some (Inl NoMemory)
     else do {
       let index = int (HASH_FLOW f);
       b \<leftarrow> aread (flow_hash m) index;
       hash \<leftarrow> awrite (flow_hash m) index p;
       t \<leftarrow> cint (current_time m + 1);
       h \<leftarrow> store h p (\<lambda>_. \<lparr>fnext = b, flow = f, isn = seq, fp = None, pos = 0, flags = 0,
         last_access = current_time m\<rparr>);
       Some (Inr (p, m\<lparr>states := h, flow_hash := hash, current_time := t\<rparr>))
     })"

text \<open>The loop of \<open>find_flow_state\<close>.\<close>

partial_function (option) find_in_bucket :: "flow_mem \<Rightarrow> flow_t \<Rightarrow> ptr \<Rightarrow> (ptr \<times> flow_mem) option" where
  "find_in_bucket m f p = (if p = None then Some (None, m)
     else do {
       n \<leftarrow> load (states m) p;
       if flow n = f then do {
         t \<leftarrow> cint (current_time m + 1);
         h \<leftarrow> store (states m) p (\<lambda>n. n\<lparr>last_access := current_time m\<rparr>);
         Some (p, m\<lparr>states := h, current_time := t\<rparr>)
       } else find_in_bucket m f (fnext n)
     })"

definition find_flow_state :: "flow_mem \<Rightarrow> flow_t \<Rightarrow> (ptr \<times> flow_mem) option" where
  "find_flow_state m f = do {
     b \<leftarrow> aread (flow_hash m) (int (HASH_FLOW f));
     find_in_bucket m f b
   }"

text \<open>\<open>filename_p\<close> has 100 bytes and holds \<open>./data_flow/\<close>, the name and a final 0.\<close>

definition attempt_fopen :: "flow_mem \<Rightarrow> ptr \<Rightarrow> string \<Rightarrow> (fopen_result \<times> flow_mem) option" where
  "attempt_fopen m p filename = do {
     n \<leftarrow> load (states m) p;
     guard (length (''./data_flow/'' @ filename) < 100);
     let filename_p = ''./data_flow/'' @ filename;
     let (r, s) = fopen (files m) filename_p (\<not> IS_SET (flags n) FLOW_FILE_EXISTS);
     m \<leftarrow> set_state (m\<lparr>files := s\<rparr>) p (\<lambda>n. n\<lparr>fp := (case r of Opened h \<Rightarrow> Some h | _ \<Rightarrow> None)\<rparr>);
     Some (r, m)
   }"

definition close_file :: "flow_mem \<Rightarrow> ptr \<Rightarrow> (int \<times> flow_mem) option" where
  "close_file m p = do {
     n \<leftarrow> load (states m) p;
     (case fp n of
        None \<Rightarrow> Some (0, m)
      | Some h \<Rightarrow> do {
          s \<leftarrow> fclose (files m) h;
          m \<leftarrow> set_state (m\<lparr>files := s\<rparr>) p (\<lambda>n. n\<lparr>fp := None, pos := 0\<rparr>);
          Some (1, m)
        })
   }"

definition flow_state_compare :: "flow_state heap \<Rightarrow> ptr \<Rightarrow> ptr \<Rightarrow> int option" where
  "flow_state_compare h x y =
     (if x = None \<and> y = None then Some 0
      else if x = None then Some 1
      else if y = None then Some (- 1)
      else do {
        a \<leftarrow> load h x;
        b \<leftarrow> load h y;
        cint (last_access a - last_access b)
      })"

text \<open>\<open>qsort\<close> of libc; entries that compare as equal are equal here.\<close>

fun qsort_insert :: "('a \<Rightarrow> 'a \<Rightarrow> int option) \<Rightarrow> 'a \<Rightarrow> 'a list \<Rightarrow> 'a list option" where
  "qsort_insert cmp x [] = Some [x]"
| "qsort_insert cmp x (y # ys) = do {
     c \<leftarrow> cmp x y;
     if c \<le> 0 then Some (x # y # ys)
     else do { zs \<leftarrow> qsort_insert cmp x ys; Some (y # zs) }
   }"

fun qsort :: "('a \<Rightarrow> 'a \<Rightarrow> int option) \<Rightarrow> 'a list \<Rightarrow> 'a list option" where
  "qsort cmp [] = Some []"
| "qsort cmp (x # xs) = do { ys \<leftarrow> qsort cmp xs; qsort_insert cmp x ys }"

definition sort_fds :: "flow_mem \<Rightarrow> flow_mem option" where
  "sort_fds m = do {
     guard (max_fds m \<le> int (length (fd_ring m)));
     xs \<leftarrow> qsort (flow_state_compare (states m)) (take (nat (max_fds m)) (fd_ring m));
     Some (m\<lparr>fd_ring := xs @ drop (nat (max_fds m)) (fd_ring m)\<rparr>)
   }"

text \<open>\<open>for(i=1;i<max_fds&&fd_ring[i]!=NULL;i++) fd_ring[i-1]=fd_ring[i]\<close>; the last \<open>i\<close>.\<close>

function shift_ring :: "ptr list \<Rightarrow> int \<Rightarrow> int \<Rightarrow> (int \<times> ptr list) option" where
  "shift_ring ring n i = (if i < n then do {
       e \<leftarrow> aread ring i;
       if e \<noteq> None then do {
         ring \<leftarrow> awrite ring (i - 1) e;
         shift_ring ring n (i + 1)
       } else Some (i, ring)
     } else Some (i, ring))"
  by pat_completeness auto
termination by (relation "measure (\<lambda>(ring, n, i). nat (n - i))") auto

declare shift_ring.simps [simp del]

definition contract_fd_ring :: "flow_mem \<Rightarrow> (fexit + flow_mem) option" where
  "contract_fd_ring m = do {
     m \<leftarrow> sort_fds m;
     e \<leftarrow> aread (fd_ring m) 0;
     if e = None then Some (Inl NoDescriptors)
     else do {
       (r, m) \<leftarrow> close_file m e;
       (i, ring) \<leftarrow> shift_ring (fd_ring m) (max_fds m) 1;
       Some (Inr (m\<lparr>fd_ring := ring, max_fds := i - 1, next_slot := - 1\<rparr>))
     }
   }"

text \<open>The \<open>do ... while (!done)\<close> loop of \<open>open_file\<close>.\<close>

partial_function (option) open_loop :: "flow_mem \<Rightarrow> ptr \<Rightarrow> string \<Rightarrow> (fexit + flow_mem) option" where
  "open_loop m p filename = do {
     (r, m) \<leftarrow> attempt_fopen m p filename;
     if r = TooMany then do {
       c \<leftarrow> contract_fd_ring m;
       if isl c then Some c else open_loop (projr c) p filename
     } else Some (Inr m)
   }"

definition claim_slot :: "flow_mem \<Rightarrow> ptr \<Rightarrow> flow_mem option" where
  "claim_slot m p = do {
     slot \<leftarrow> cint (next_slot m + 1);
     let m = m\<lparr>next_slot := slot\<rparr>;
     m \<leftarrow> (if slot = max_fds m then do {
          m \<leftarrow> sort_fds m;
          Some (m\<lparr>next_slot := 0\<rparr>)
        } else Some m);
     e \<leftarrow> aread (fd_ring m) (next_slot m);
     m \<leftarrow> (if e \<noteq> None then map_option snd (close_file m e) else Some m);
     ring \<leftarrow> awrite (fd_ring m) (next_slot m) p;
     Some (m\<lparr>fd_ring := ring\<rparr>)
   }"

definition open_file :: "flow_mem \<Rightarrow> ptr \<Rightarrow> (fexit + ptr \<times> flow_mem) option" where
  "open_file m p = do {
     n \<leftarrow> load (states m) p;
     let filename = flow_filename (flow n);
     if fp n \<noteq> None then Some (Inr (fp n, m))
     else do {
       c \<leftarrow> open_loop m p filename;
       (case c of
          Inl e \<Rightarrow> Some (Inl e)
        | Inr m \<Rightarrow> do {
            n \<leftarrow> load (states m) p;
            if fp n = None then do {
              m \<leftarrow> set_state m p (\<lambda>n. n\<lparr>flags := SET_BIT (flags n) FLOW_FINISHED\<rparr>);
              Some (Inr (None, m))
            } else do {
              m \<leftarrow> claim_slot m p;
              m \<leftarrow> set_state m p (\<lambda>n. n\<lparr>flags := SET_BIT (flags n) FLOW_FILE_EXISTS\<rparr>);
              n \<leftarrow> load (states m) p;
              h \<leftarrow> fp n;
              at \<leftarrow> ftell (files m) h;
              m \<leftarrow> set_state m p (\<lambda>n. n\<lparr>pos := at\<rparr>);
              Some (Inr (Some h, m))
            }
          })
     }
   }"

section \<open>\<open>store_packet\<close>\<close>

text \<open>
  \<open>data\<close> is what lies behind the pointer in the captured packet, \<open>len\<close> the length the
  headers give. \<open>bpf\<close> is \<open>bytes_per_flow\<close>, converted to unsigned in the comparisons.
\<close>

definition store_at :: "flow_mem \<Rightarrow> ptr \<Rightarrow> u32 \<Rightarrow> byte list \<Rightarrow> u32 \<Rightarrow> u32 \<Rightarrow> flow_mem option" where
  "store_at m p bpf data len offset = do {
     n \<leftarrow> load (states m) p;
     h \<leftarrow> fp n;
     (m, len) \<leftarrow> (if bpf \<noteq> 0 \<and> offset + len > bpf then do {
          m \<leftarrow> set_state m p (\<lambda>n. n\<lparr>flags := SET_BIT (flags n) FLOW_FINISHED\<rparr>);
          Some (m, bpf - offset)
        } else Some (m, len));
     s \<leftarrow> (if int (unat offset) \<noteq> pos n then fseek (files m) h (int (unat offset)) else Some (files m));
     guard (unat len \<le> length data);
     (r, s) \<leftarrow> fwrite s h (take (unat len) data);
     m \<leftarrow> set_state (m\<lparr>files := s\<rparr>) p (\<lambda>n. n\<lparr>pos := int (unat (offset + len))\<rparr>);
     n \<leftarrow> load (states m) p;
     if IS_SET (flags n) FLOW_FINISHED then map_option snd (close_file m p) else Some m
   }"

definition store_packet :: "u32 \<Rightarrow> flow_mem \<Rightarrow> flow_t \<Rightarrow> byte list \<Rightarrow> u32 \<Rightarrow> u32 \<Rightarrow> (fexit + flow_mem) option" where
  "store_packet bpf m f data len seq = do {
     (p, m) \<leftarrow> find_flow_state m f;
     c \<leftarrow> (if p = None then create_flow_state m f seq else Some (Inr (p, m)));
     (case c of
        Inl e \<Rightarrow> Some (Inl e)
      | Inr (p, m) \<Rightarrow> do {
          n \<leftarrow> load (states m) p;
          if IS_SET (flags n) FLOW_FINISHED then Some (Inr m)
          else do {
            let offset = seq - isn n;
            if offset \<ge> 0xffff0000 then Some (Inr m)
            else if bpf \<noteq> 0 \<and> offset > bpf then Some (Inr m)
            else do {
              c \<leftarrow> (if fp n = None then open_file m p else Some (Inr (fp n, m)));
              (case c of
                 Inl e \<Rightarrow> Some (Inl e)
               | Inr (h, m) \<Rightarrow> if h = None then Some (Inr m)
                   else map_option Inr (store_at m p bpf data len offset))
            }
          }
        })
   }"

end
