(* ===== verification/Flow_Inv.thy ===== *)
theory Flow_Inv
  imports Flow Linked
begin

unbundle bit_operations_syntax

text \<open>
  File names: two flows have the same name only if they are the same flow, and every name fits
  the buffers the code has for it.
\<close>

section \<open>Decimal numbers\<close>

definition digit_value :: "char \<Rightarrow> nat" where
  "digit_value c = of_char c - 48"

definition number :: "string \<Rightarrow> nat" where
  "number ds = foldl (\<lambda>n c. 10 * n + digit_value c) 0 ds"

lemma number_append: "number (xs @ [c]) = 10 * number xs + digit_value c"
  by (simp add: number_def)

lemma digit_value_char: "n < 10 \<Longrightarrow> digit_value (char_of (48 + n)) = n"
  by (simp add: digit_value_def of_char_of)

lemma number_digits: "number (digits n) = n"
proof (induction n rule: digits.induct)
  case (1 n)
  show ?case
  proof (cases "n < 10")
    case True
    then show ?thesis by (simp add: digits.simps [of n] number_def digit_value_char)
  next
    case False
    then have "number (digits n) = 10 * (n div 10) + n mod 10"
      using 1 by (simp add: digits.simps [of n] number_append digit_value_char)
    then show ?thesis by simp
  qed
qed

lemma number_zeros: "number (replicate k (CHR ''0'') @ ds) = number ds"
proof (induction k)
  case (Suc k)
  have "number (CHR ''0'' # xs) = number xs" for xs by (simp add: number_def digit_value_def)
  then show ?case using Suc by simp
qed simp

lemma number_padded: "number (padded w n) = n"
  by (simp add: padded_def number_zeros number_digits)

lemma padded_inject: "padded w n = padded w k \<longleftrightarrow> n = k"
  by (metis number_padded)

lemma length_digits: "n < 10 ^ Suc w \<Longrightarrow> length (digits n) \<le> Suc w"
proof (induction w arbitrary: n)
  case 0
  then show ?case by (simp add: digits.simps [of n])
next
  case (Suc w)
  have "n div 10 < 10 ^ Suc w" using Suc.prems by (auto simp: less_mult_imp_div_less)
  then show ?case using Suc.IH [of "n div 10"] by (simp add: digits.simps [of n])
qed

lemma length_padded: "n < 10 ^ Suc w \<Longrightarrow> length (padded (Suc w) n) = Suc w"
  using length_digits [of n w] by (simp add: padded_def)

section \<open>Addresses\<close>

lemma bit_octet: "bit (word_of_nat (octet k w) :: 8 word) i \<longleftrightarrow> i < 8 \<and> bit w (8 * k + i)" if "k < 4"
proof -
  have m: "(0xff :: u32) = mask 8" by (simp add: mask_eq_exp_minus_1)
  show ?thesis using that unfolding octet_def m by (auto simp: bit_simps bit_unsigned_iff possible_bit_word)
qed

lemma octet_less: "octet k w < 256"
  unfolding octet_def by (rule order_less_le_trans [OF unsigned_less]) simp

lemma octets_inject:
  assumes "octet 3 v = octet 3 w" "octet 2 v = octet 2 w" "octet 1 v = octet 1 w" "octet 0 v = octet 0 w"
  shows "v = w"
proof (rule bit_word_eqI)
  fix i assume "i < LENGTH(32)"
  then have "i div 8 < 4" "i mod 8 < 8" "8 * (i div 8) + i mod 8 = i" by simp_all
  moreover have "octet (i div 8) v = octet (i div 8) w"
  proof -
    consider "i div 8 = 0" | "i div 8 = 1" | "i div 8 = 2" | "i div 8 = 3" using \<open>i div 8 < 4\<close> by linarith
    then show ?thesis using assms by cases simp_all
  qed
  ultimately show "bit v i \<longleftrightarrow> bit w i" using bit_octet [of "i div 8" v "i mod 8"] bit_octet [of "i div 8" w "i mod 8"] by auto
qed

lemma length_octet: "length (padded 3 (octet k w)) = 3"
proof -
  have "octet k w < 10 ^ Suc 2" using octet_less [of k w] by simp
  from length_padded [OF this] show ?thesis by simp
qed

lemma length_port: "length (padded 5 (unat (p :: u16))) = 5"
proof -
  have "unat p < 2 ^ 16" by (rule order_less_le_trans [OF unsigned_less]) simp
  then have "unat p < 10 ^ Suc 4" by simp
  from length_padded [OF this] show ?thesis by simp
qed

lemma flow_filename_inject: "flow_filename f = flow_filename g \<longleftrightarrow> f = g"
proof
  assume "flow_filename f = flow_filename g"
  then have e: "octet 3 (src f) = octet 3 (src g)" "octet 2 (src f) = octet 2 (src g)"
    "octet 1 (src f) = octet 1 (src g)" "octet 0 (src f) = octet 0 (src g)" "unat (sport f) = unat (sport g)"
    "octet 3 (dst f) = octet 3 (dst g)" "octet 2 (dst f) = octet 2 (dst g)"
    "octet 1 (dst f) = octet 1 (dst g)" "octet 0 (dst f) = octet 0 (dst g)" "unat (dport f) = unat (dport g)"
    unfolding flow_filename_def by (simp_all add: length_octet length_port padded_inject)
  have "src f = src g" by (rule octets_inject [OF e(1-4)])
  moreover have "dst f = dst g" by (rule octets_inject [OF e(6-9)])
  moreover have "sport f = sport g" "dport f = dport g" using e(5,10) by (simp_all add: word_unat_eq_iff)
  ultimately show "f = g" by simp
qed simp

lemma length_flow_filename: "length (flow_filename f) = 43"
  by (simp add: flow_filename_def length_octet length_port)

text \<open>
  What a capture promises, as a map from flows to what has been collected for them, and the
  invariant that ties the hash table, the ring of open files and the files themselves together.
\<close>

named_theorems flow_step \<open>accesses to one flow state\<close>

section \<open>The capture as a map\<close>

record capture =
  c_isn :: u32
  c_done :: bool
  c_data :: "byte list option"

definition captured :: "capture \<Rightarrow> byte list" where
  "captured c = (case c_data c of None \<Rightarrow> [] | Some d \<Rightarrow> d)"

definition spec_capture :: "u32 \<Rightarrow> capture \<Rightarrow> byte list \<Rightarrow> u32 \<Rightarrow> u32 \<Rightarrow> capture" where
  "spec_capture bpf c data len seq = (let off = seq - c_isn c in
     if c_done c \<or> off \<ge> 0xffff0000 \<or> bpf \<noteq> 0 \<and> off > bpf then c
     else let full = (bpf \<noteq> 0 \<and> off + len > bpf); n = (if full then bpf - off else len) in
       \<lparr>c_isn = c_isn c, c_done = full, c_data = Some (put_at (unat off) (take (unat n) data) (captured c))\<rparr>)"

definition new_capture :: "u32 \<Rightarrow> capture" where
  "new_capture seq = \<lparr>c_isn = seq, c_done = False, c_data = None\<rparr>"

definition spec_store :: "u32 \<Rightarrow> (flow_t \<rightharpoonup> capture) \<Rightarrow> flow_t \<Rightarrow> byte list \<Rightarrow> u32 \<Rightarrow> u32 \<Rightarrow> flow_t \<rightharpoonup> capture" where
  "spec_store bpf S f data len seq =
     S(f \<mapsto> spec_capture bpf (case S f of None \<Rightarrow> new_capture seq | Some c \<Rightarrow> c) data len seq)"

section \<open>Access to one flow state\<close>

definition st :: "flow_mem \<Rightarrow> nat \<rightharpoonup> flow_state" where
  "st m = cells (states m)"

definition put :: "flow_mem \<Rightarrow> nat \<Rightarrow> flow_state \<Rightarrow> flow_mem" where
  "put m a n = m\<lparr>states := (states m)\<lparr>cells := (cells (states m))(a \<mapsto> n)\<rparr>\<rparr>"

lemma put_fields [simp]:
  "st (put m a n) = (st m)(a \<mapsto> n)" "flow_hash (put m a n) = flow_hash m" "fd_ring (put m a n) = fd_ring m"
  "max_fds (put m a n) = max_fds m" "next_slot (put m a n) = next_slot m" "current_time (put m a n) = current_time m"
  "files (put m a n) = files m" "brk (states (put m a n)) = brk (states m)" "env (states (put m a n)) = env (states m)"
  by (simp_all add: st_def put_def)

lemma put_put [simp]: "put (put m a n) a k = put m a k"
  by (simp add: put_def)

lemma st_upd [simp]:
  "st (m\<lparr>files := s\<rparr>) = st m" "st (m\<lparr>fd_ring := r\<rparr>) = st m" "st (m\<lparr>max_fds := i\<rparr>) = st m" "st (m\<lparr>next_slot := i\<rparr>) = st m"
  "st (m\<lparr>current_time := i\<rparr>) = st m" "st (m\<lparr>flow_hash := r\<rparr>) = st m"
  by (simp_all add: st_def)

lemma put_upd [simp]:
  "put (m\<lparr>files := s\<rparr>) a n = (put m a n)\<lparr>files := s\<rparr>" "put (m\<lparr>fd_ring := r\<rparr>) a n = (put m a n)\<lparr>fd_ring := r\<rparr>"
  "put (m\<lparr>max_fds := i\<rparr>) a n = (put m a n)\<lparr>max_fds := i\<rparr>" "put (m\<lparr>next_slot := i\<rparr>) a n = (put m a n)\<lparr>next_slot := i\<rparr>"
  "put (m\<lparr>current_time := i\<rparr>) a n = (put m a n)\<lparr>current_time := i\<rparr>"
  by (simp_all add: put_def)

lemma load_st [flow_step]: "load (states m) (Some a) = st m a"
  by (simp add: st_def)

lemma set_state_st [flow_step]: "st m a = Some n \<Longrightarrow> set_state m (Some a) g = Some (put m a (g n))"
  by (simp add: set_state_def store_def st_def put_def)

lemma bits [simp]:
  "IS_SET (SET_BIT v FLOW_FINISHED) FLOW_FINISHED" "IS_SET (SET_BIT v FLOW_FILE_EXISTS) FLOW_FILE_EXISTS"
  "IS_SET (SET_BIT v FLOW_FINISHED) FLOW_FILE_EXISTS \<longleftrightarrow> IS_SET v FLOW_FILE_EXISTS"
  "IS_SET (SET_BIT v FLOW_FILE_EXISTS) FLOW_FINISHED \<longleftrightarrow> IS_SET v FLOW_FINISHED"
  "\<not> IS_SET 0 FLOW_FINISHED" "\<not> IS_SET 0 FLOW_FILE_EXISTS"
  by (simp_all add: IS_SET_def SET_BIT_def FLOW_FINISHED_def FLOW_FILE_EXISTS_def bit.conj_disj_distrib2 or_eq_0_iff)

section \<open>The invariant\<close>

definition path :: "flow_t \<Rightarrow> string" where
  "path f = ''./data_flow/'' @ flow_filename f"

lemma path_inject [simp]: "path f = path g \<longleftrightarrow> f = g"
  by (simp add: path_def flow_filename_inject)

text \<open>Every flow state is in the chain of its bucket, and no flow has two states.\<close>

definition bucket :: "flow_mem \<Rightarrow> nat \<Rightarrow> nat set" where
  "bucket m i = {a. \<exists>n. st m a = Some n \<and> HASH_FLOW (flow n) = i}"

definition table_ok :: "flow_mem \<Rightarrow> bool" where
  "table_ok m \<longleftrightarrow> length (flow_hash m) = HASH_SIZE \<and> (\<forall>a\<ge>brk (states m). st m a = None) \<and>
     (\<forall>i<HASH_SIZE. \<exists>as. lchain fnext (st m) (flow_hash m ! i) as \<and> set as = bucket m i) \<and>
     (\<forall>a b n k. st m a = Some n \<longrightarrow> st m b = Some k \<longrightarrow> flow n = flow k \<longrightarrow> a = b)"

definition clock_ok :: "flow_mem \<Rightarrow> bool" where
  "clock_ok m \<longleftrightarrow> 0 \<le> current_time m \<and> current_time m \<le> int_max \<and>
     (\<forall>a n. st m a = Some n \<longrightarrow> 0 \<le> last_access n \<and> last_access n < current_time m)"

text \<open>
  The open files are those of the flow states with a \<open>fp\<close>, at the position \<open>pos\<close>; a closed
  one has \<open>pos\<close> 0. \<open>X\<close> holds a flow whose file is just being opened.
\<close>

definition state_ok :: "nat set \<Rightarrow> fsys \<Rightarrow> nat \<Rightarrow> flow_state \<Rightarrow> bool" where
  "state_ok X s a n \<longleftrightarrow> (case fp n of
       None \<Rightarrow> pos n = 0
     | Some h \<Rightarrow> map_of (handles s) h = Some (path (flow n), nat (pos n)) \<and> 0 \<le> pos n \<and>
         \<not> IS_SET (flags n) FLOW_FINISHED \<and> fdata s (path (flow n)) \<noteq> None \<and>
         (a \<in> X \<or> IS_SET (flags n) FLOW_FILE_EXISTS)) \<and>
     (IS_SET (flags n) FLOW_FILE_EXISTS \<longrightarrow> fdata s (path (flow n)) \<noteq> None)"

lemma state_ok_cong: "handles s' = handles s \<Longrightarrow> fdata s' = fdata s \<Longrightarrow> state_ok X s' a n = state_ok X s a n"
  by (simp only: state_ok_def)

definition files_ok :: "nat set \<Rightarrow> flow_mem \<Rightarrow> bool" where
  "files_ok X m \<longleftrightarrow> distinct (map fst (handles (files m))) \<and>
     (\<forall>h x. map_of (handles (files m)) h = Some x \<longrightarrow> h < fresh_file (files m) \<and> (\<exists>a n. st m a = Some n \<and> fp n = Some h)) \<and>
     (\<forall>a n. st m a = Some n \<longrightarrow> state_ok X (files m) a n)"

text \<open>Every open file is in the used part of the ring, at one place only.\<close>

definition ring :: "flow_mem \<Rightarrow> ptr list" where
  "ring m = take (nat (max_fds m)) (fd_ring m)"

definition ring_ok :: "nat set \<Rightarrow> flow_mem \<Rightarrow> bool" where
  "ring_ok X m \<longleftrightarrow> 1 \<le> max_fds m \<and> max_fds m \<le> int (length (fd_ring m)) \<and> max_fds m \<le> int_max \<and>
     - 1 \<le> next_slot m \<and> next_slot m < max_fds m \<and> distinct (filter (\<lambda>e. e \<noteq> None) (ring m)) \<and>
     (\<forall>a. Some a \<in> set (ring m) \<longrightarrow> a \<notin> X \<and> (\<exists>n. st m a = Some n \<and> (fp n \<noteq> None \<or> IS_SET (flags n) FLOW_FINISHED))) \<and>
     (\<forall>a n. st m a = Some n \<longrightarrow> fp n \<noteq> None \<longrightarrow> a \<in> X \<or> Some a \<in> set (ring m))"

definition inv :: "nat set \<Rightarrow> flow_mem \<Rightarrow> bool" where
  "inv X m \<longleftrightarrow> table_ok m \<and> clock_ok m \<and> files_ok X m \<and> ring_ok X m"

text \<open>What the memory has captured.\<close>

definition capture_of :: "fsys \<Rightarrow> flow_state \<Rightarrow> capture" where
  "capture_of s n = \<lparr>c_isn = isn n, c_done = IS_SET (flags n) FLOW_FINISHED,
     c_data = (if IS_SET (flags n) FLOW_FILE_EXISTS then fdata s (path (flow n)) else None)\<rparr>"

definition captures :: "flow_mem \<Rightarrow> (flow_t \<rightharpoonup> capture) \<Rightarrow> bool" where
  "captures m S \<longleftrightarrow> (\<forall>a n. st m a = Some n \<longrightarrow> S (flow n) = Some (capture_of (files m) n)) \<and>
     (\<forall>f c. S f = Some c \<longrightarrow> (\<exists>a n. st m a = Some n \<and> flow n = f))"

section \<open>Consequences\<close>

lemma table_unique: "table_ok m \<Longrightarrow> st m a = Some n \<Longrightarrow> st m b = Some k \<Longrightarrow> flow n = flow k \<Longrightarrow> a = b"
  unfolding table_ok_def by blast

lemma table_put:
  assumes "table_ok m" "st m a = Some n" "flow n' = flow n" "fnext n' = fnext n"
  shows "table_ok (put m a n')"
proof -
  have "bucket (put m a n') = bucket m" using assms(2,3) by (auto simp: bucket_def fun_eq_iff)
  moreover have "lchain fnext ((st m)(a \<mapsto> n')) p as = lchain fnext (st m) p as" for p as
    by (rule lseg_upd_same) (use assms in simp_all)
  ultimately show ?thesis
    using assms unfolding table_ok_def put_fields by (auto split: if_splits)
qed

lemma clock_put: "clock_ok m \<Longrightarrow> st m a = Some n \<Longrightarrow> last_access n' = last_access n \<Longrightarrow> clock_ok (put m a n')"
  by (auto simp: clock_ok_def)

text \<open>Two flows never share a \<open>FILE\<close>.\<close>

lemma handle_unique:
  assumes "table_ok m" "files_ok X m" "st m a = Some n" "st m b = Some k" "fp n = Some h" "fp k = Some h"
  shows "a = b"
proof -
  have "state_ok X (files m) a n" "state_ok X (files m) b k" using assms by (auto simp: files_ok_def)
  then have "path (flow n) = path (flow k)" using assms(5,6) by (auto simp: state_ok_def)
  then show ?thesis using table_unique [OF assms(1,3,4)] by simp
qed

section \<open>Changing one state\<close>

lemma files_ok_upd:
  assumes "files_ok X m" "files m' = files m" "st m' = (st m)(a \<mapsto> n')" "state_ok X (files m) a n'"
    "\<And>n h. st m a = Some n \<Longrightarrow> fp n = Some h \<Longrightarrow> fp n' = Some h"
  shows "files_ok X m'"
  unfolding files_ok_def assms(2)
proof (intro conjI allI impI)
  fix h x assume x: "map_of (handles (files m)) h = Some x"
  then show "h < fresh_file (files m)" using assms(1) unfolding files_ok_def by blast
  obtain b k where k: "st m b = Some k" "fp k = Some h" using assms(1) x unfolding files_ok_def by blast
  show "\<exists>b k. st m' b = Some k \<and> fp k = Some h"
  proof (cases "b = a")
    case True
    then show ?thesis using assms(3,5) k by (intro exI [of _ a] exI [of _ n']) simp
  next
    case False
    then show ?thesis using assms(3) k by (intro exI [of _ b] exI [of _ k]) simp
  qed
next
  fix b k assume k: "st m' b = Some k"
  show "state_ok X (files m) b k"
  proof (cases "b = a")
    case True
    then show ?thesis using assms(3,4) k by simp
  next
    case False
    then show ?thesis using assms(1,3) k unfolding files_ok_def by simp
  qed
qed (use assms(1) in \<open>simp add: files_ok_def\<close>)

lemma ring_ok_upd:
  assumes "ring_ok X m" "fd_ring m' = fd_ring m" "max_fds m' = max_fds m" "next_slot m' = next_slot m" "st m' = (st m)(a \<mapsto> n')"
    "fp n' \<noteq> None \<Longrightarrow> a \<in> X \<or> Some a \<in> set (ring m)"
    "Some a \<in> set (ring m) \<Longrightarrow> fp n' \<noteq> None \<or> IS_SET (flags n') FLOW_FINISHED"
  shows "ring_ok X m'"
proof -
  have r: "ring m' = ring m" using assms(2,3) by (simp add: ring_def)
  have "b \<notin> X \<and> (\<exists>k. st m' b = Some k \<and> (fp k \<noteq> None \<or> IS_SET (flags k) FLOW_FINISHED))" if b: "Some b \<in> set (ring m)" for b
  proof (cases "b = a")
    case True
    then show ?thesis using assms(1,5,7) b unfolding ring_ok_def by (metis fun_upd_same)
  next
    case False
    then show ?thesis using assms(1,5) b unfolding ring_ok_def by simp
  qed
  moreover have "b \<in> X \<or> Some b \<in> set (ring m)" if k: "st m' b = Some k" "fp k \<noteq> None" for b k
  proof (cases "b = a")
    case True
    then show ?thesis using assms(5,6) k by simp
  next
    case False
    then show ?thesis using assms(1,5) k unfolding ring_ok_def by simp
  qed
  ultimately show ?thesis using assms(1,2,3,4) unfolding ring_ok_def r by simp
qed

lemma captures_upd:
  assumes "captures m S" "files m' = files m" "st m' = (st m)(a \<mapsto> n')" "\<And>n. st m a = Some n \<Longrightarrow> flow n = flow n'"
    "\<And>b k. st m b = Some k \<Longrightarrow> flow k = flow n' \<Longrightarrow> b = a"
  shows "captures m' (S(flow n' \<mapsto> capture_of (files m) n'))"
  unfolding captures_def assms(2)
proof (intro conjI allI impI)
  fix b k assume k: "st m' b = Some k"
  show "(S(flow n' \<mapsto> capture_of (files m) n')) (flow k) = Some (capture_of (files m) k)"
  proof (cases "b = a")
    case True
    then show ?thesis using assms(3) k by simp
  next
    case False
    then have "st m b = Some k" "flow k \<noteq> flow n'" using assms(3,5) k by auto
    then show ?thesis using assms(1) unfolding captures_def by simp
  qed
next
  fix f c assume "(S(flow n' \<mapsto> capture_of (files m) n')) f = Some c"
  then consider "f = flow n'" | b k where "f \<noteq> flow n'" "st m b = Some k" "flow k = f"
    using assms(1) unfolding captures_def by (metis fun_upd_other)
  then show "\<exists>b k. st m' b = Some k \<and> flow k = f"
  proof cases
    case 1
    then show ?thesis using assms(3) by (intro exI [of _ a] exI [of _ n']) simp
  next
    case 2
    then have "b \<noteq> a" using assms(4) by auto
    then show ?thesis using 2 assms(3) by (intro exI [of _ b] exI [of _ k]) simp
  qed
qed

section \<open>The number of open files\<close>

text \<open>There are never more files open than the ring has places.\<close>

lemma open_files_bounded:
  assumes "inv {} m"
  shows "int (length (handles (files m))) \<le> max_fds m"
proof -
  let ?H = "set (map fst (handles (files m)))"
  define owner where "owner h = (SOME a. \<exists>n. st m a = Some n \<and> fp n = Some h)" for h
  have own: "\<exists>n. st m (owner h) = Some n \<and> fp n = Some h" if "h \<in> ?H" for h
  proof -
    obtain x where "map_of (handles (files m)) h = Some x" using \<open>h \<in> ?H\<close> by (metis list.set_map map_of_eq_None_iff option.exhaust)
    then have "\<exists>a n. st m a = Some n \<and> fp n = Some h" using assms by (auto simp: inv_def files_ok_def)
    then show ?thesis unfolding owner_def by (rule someI_ex)
  qed
  have "inj_on owner ?H" by (rule inj_onI) (metis own option.inject)
  moreover have "(Some \<circ> owner) ` ?H \<subseteq> set (ring m)" using own assms by (fastforce simp: inv_def ring_ok_def)
  ultimately have "card ?H \<le> card (set (ring m))"
    by (metis card_inj_on_le comp_inj_on inj_Some inj_on_subset List.finite_set subset_UNIV)
  also have "\<dots> \<le> length (ring m)" by (rule card_length)
  also have "\<dots> \<le> nat (max_fds m)" by (simp add: ring_def)
  finally have "length (handles (files m)) \<le> nat (max_fds m)"
    using assms distinct_card [of "map fst (handles (files m))"] by (simp add: inv_def files_ok_def)
  moreover have "1 \<le> max_fds m" using assms by (simp add: inv_def ring_ok_def)
  ultimately show ?thesis by linarith
qed

end
