(* ===== verification/Flow_Ring.thy ===== *)
theory Flow_Ring
  imports Flow_Inv
begin

text \<open>Looking a flow up and adding one: the hash table as a map from flows to states.\<close>

definition touch :: "flow_mem \<Rightarrow> nat \<Rightarrow> flow_state \<Rightarrow> flow_mem" where
  "touch m a n = (put m a (n\<lparr>last_access := current_time m\<rparr>))\<lparr>current_time := current_time m + 1\<rparr>"

lemma clock_tick: "clock_ok m \<Longrightarrow> current_time m < int_max \<Longrightarrow> cint (current_time m + 1) = Some (current_time m + 1)"
  by (simp add: clock_ok_def cint_def int_min_def int_max_def)

lemma find_in_bucket_spec:
  assumes "clock_ok m" "current_time m < int_max"
  shows "lchain fnext (st m) p as \<Longrightarrow> find_in_bucket m f p = Some (case List.find (\<lambda>a. flow (the (st m a)) = f) as of
      None \<Rightarrow> (None, m) | Some a \<Rightarrow> (Some a, touch m a (the (st m a))))"
proof (induction as arbitrary: p)
  case Nil
  then show ?case by (simp add: find_in_bucket.simps)
next
  case (Cons a as)
  then obtain n where n: "p = Some a" "st m a = Some n" "lchain fnext (st m) (fnext n) as" by auto
  have c: "cells (states m) a = Some n" using n(2) by (simp add: st_def)
  show ?case
    using n(2) c Cons.IH [OF n(3)] clock_tick [OF assms]
    by (subst find_in_bucket.simps) (simp add: n(1) store_def touch_def put_def)
qed

lemma hash_less: "HASH_FLOW f < HASH_SIZE"
  by (simp add: HASH_FLOW_def HASH_SIZE_def)

lemma bucket_chain:
  assumes "table_ok m"
  obtains as where "aread (flow_hash m) (int (HASH_FLOW f)) = Some (flow_hash m ! HASH_FLOW f)"
    "lchain fnext (st m) (flow_hash m ! HASH_FLOW f) as" "set as = bucket m (HASH_FLOW f)"
proof -
  have "length (flow_hash m) = HASH_SIZE" using assms by (simp add: table_ok_def)
  moreover obtain as where "lchain fnext (st m) (flow_hash m ! HASH_FLOW f) as" "set as = bucket m (HASH_FLOW f)"
    using assms hash_less [of f] unfolding table_ok_def by blast
  ultimately show thesis using that hash_less [of f] by simp
qed

lemma find_known:
  assumes "table_ok m" "clock_ok m" "current_time m < int_max" "st m a = Some n"
  shows "find_flow_state m (flow n) = Some (Some a, touch m a n)"
proof -
  obtain as where as: "aread (flow_hash m) (int (HASH_FLOW (flow n))) = Some (flow_hash m ! HASH_FLOW (flow n))"
    "lchain fnext (st m) (flow_hash m ! HASH_FLOW (flow n)) as" "set as = bucket m (HASH_FLOW (flow n))"
    using bucket_chain [OF assms(1), of "flow n"] by blast
  have a: "a \<in> set as" using assms(4) by (auto simp: as(3) bucket_def)
  have u: "b = a" if "b \<in> set as" "flow (the (st m b)) = flow n" for b
  proof -
    obtain k where "st m b = Some k" using lseg_cell [OF as(2) \<open>b \<in> set as\<close>] by blast
    then show ?thesis using table_unique [OF assms(1) _ assms(4)] \<open>flow (the (st m b)) = flow n\<close> by simp
  qed
  have "List.find (\<lambda>a. flow (the (st m a)) = flow n) as = Some a"
  proof (cases "List.find (\<lambda>a. flow (the (st m a)) = flow n) as")
    case None
    then show ?thesis using a assms(4) by (auto simp: find_None_iff)
  next
    case (Some b)
    then have "b \<in> set as" "flow (the (st m b)) = flow n" by (auto simp: find_Some_iff)
    then show ?thesis using u Some by blast
  qed
  then show ?thesis
    using find_in_bucket_spec [OF assms(2,3) as(2), of "flow n"] as(1) assms(4) by (simp add: find_flow_state_def)
qed

lemma find_unknown:
  assumes "table_ok m" "clock_ok m" "current_time m < int_max" "\<forall>a n. st m a = Some n \<longrightarrow> flow n \<noteq> f"
  shows "find_flow_state m f = Some (None, m)"
proof -
  obtain as where as: "aread (flow_hash m) (int (HASH_FLOW f)) = Some (flow_hash m ! HASH_FLOW f)"
    "lchain fnext (st m) (flow_hash m ! HASH_FLOW f) as" "set as = bucket m (HASH_FLOW f)"
    using bucket_chain [OF assms(1), of f] by blast
  have "List.find (\<lambda>a. flow (the (st m a)) = f) as = None"
    using lseg_cell [OF as(2)] assms(4) by (fastforce simp: find_None_iff)
  then show ?thesis using find_in_bucket_spec [OF assms(2,3) as(2), of f] as(1) by (simp add: find_flow_state_def)
qed

text \<open>A change of a state that leaves its file alone.\<close>

lemma state_ok_same:
  "state_ok X s a n \<Longrightarrow> flow n' = flow n \<Longrightarrow> fp n' = fp n \<Longrightarrow> pos n' = pos n \<Longrightarrow> flags n' = flags n \<Longrightarrow> state_ok X s a n'"
  by (cases "fp n") (auto simp: state_ok_def)

lemma files_put_same:
  assumes "files_ok X m" "st m a = Some n" "flow n' = flow n" "fp n' = fp n" "pos n' = pos n" "flags n' = flags n"
  shows "files_ok X (put m a n')"
proof (rule files_ok_upd [OF assms(1)])
  show "state_ok X (files m) a n'"
    by (rule state_ok_same [OF _ assms(3-6)]) (use assms(1,2) in \<open>simp add: files_ok_def\<close>)
qed (use assms in simp_all)

lemma ring_put_same:
  assumes "ring_ok X m" "st m a = Some n" "fp n' = fp n" "flags n' = flags n"
  shows "ring_ok X (put m a n')"
proof (rule ring_ok_upd [OF assms(1)])
  show "a \<in> X \<or> Some a \<in> set (ring m)" if "fp n' \<noteq> None"
    using assms that unfolding ring_ok_def by metis
  show "fp n' \<noteq> None \<or> IS_SET (flags n') FLOW_FINISHED" if "Some a \<in> set (ring m)"
    using assms that unfolding ring_ok_def by (metis option.inject)
qed simp_all

lemma captures_put_same:
  assumes "captures m S" "table_ok m" "st m a = Some n" "flow n' = flow n" "isn n' = isn n" "flags n' = flags n"
  shows "captures (put m a n') S"
proof -
  have "captures (put m a n') (S(flow n' \<mapsto> capture_of (files m) n'))"
  proof (rule captures_upd [OF assms(1)])
    show "flow k = flow n'" if "st m a = Some k" for k using that assms(3,4) by simp
    show "b = a" if "st m b = Some k" "flow k = flow n'" for b k
      by (rule table_unique [OF assms(2) that(1) assms(3)]) (use that assms(4) in simp)
  qed simp_all
  moreover have "S (flow n') = Some (capture_of (files m) n')"
    using assms unfolding captures_def by (simp add: capture_of_def)
  ultimately show ?thesis by (simp add: fun_upd_idem)
qed

lemma inv_time: "table_ok (m\<lparr>current_time := t\<rparr>) = table_ok m" "files_ok X (m\<lparr>current_time := t\<rparr>) = files_ok X m"
  "ring_ok X (m\<lparr>current_time := t\<rparr>) = ring_ok X m" "captures (m\<lparr>current_time := t\<rparr>) S = captures m S"
  by (simp_all add: table_ok_def files_ok_def ring_ok_def captures_def bucket_def ring_def)

lemma touch_ok:
  assumes "inv X m" "current_time m < int_max" "st m a = Some n" "captures m S"
  shows "inv X (touch m a n)" "captures (touch m a n) S"
    "st (touch m a n) = (st m)(a \<mapsto> n\<lparr>last_access := current_time m\<rparr>)" "files (touch m a n) = files m"
proof -
  have "clock_ok (touch m a n)" using assms(1,2) by (fastforce simp: inv_def clock_ok_def touch_def)
  then show "inv X (touch m a n)"
    using assms(1) table_put [OF _ assms(3), of "n\<lparr>last_access := current_time m\<rparr>"]
      files_put_same [OF _ assms(3), of X "n\<lparr>last_access := current_time m\<rparr>"]
      ring_put_same [OF _ assms(3), of X "n\<lparr>last_access := current_time m\<rparr>"]
    by (simp add: inv_def touch_def inv_time)
  show "captures (touch m a n) S"
    using captures_put_same [OF assms(4) _ assms(3), of "n\<lparr>last_access := current_time m\<rparr>"] assms(1) by (simp add: touch_def inv_time inv_def)
qed (simp_all add: touch_def)

section \<open>A new flow\<close>

definition new_state :: "flow_mem \<Rightarrow> flow_t \<Rightarrow> u32 \<Rightarrow> flow_state" where
  "new_state m f seq = \<lparr>fnext = flow_hash m ! HASH_FLOW f, flow = f, isn = seq, fp = None, pos = 0, flags = 0,
     last_access = current_time m\<rparr>"

definition with_flow :: "flow_mem \<Rightarrow> flow_t \<Rightarrow> u32 \<Rightarrow> flow_mem" where
  "with_flow m f seq = m\<lparr>states := (states m)\<lparr>cells := (cells (states m))(brk (states m) \<mapsto> new_state m f seq),
       brk := Suc (brk (states m))\<rparr>,
     flow_hash := (flow_hash m)[HASH_FLOW f := Some (brk (states m))], current_time := current_time m + 1\<rparr>"

lemma with_flow_fields [simp]:
  "st (with_flow m f seq) = (st m)(brk (states m) \<mapsto> new_state m f seq)" "files (with_flow m f seq) = files m"
  "fd_ring (with_flow m f seq) = fd_ring m" "max_fds (with_flow m f seq) = max_fds m" "next_slot (with_flow m f seq) = next_slot m"
  "current_time (with_flow m f seq) = current_time m + 1" "env (states (with_flow m f seq)) = env (states m)"
  "flow_hash (with_flow m f seq) = (flow_hash m)[HASH_FLOW f := Some (brk (states m))]"
  "brk (states (with_flow m f seq)) = Suc (brk (states m))"
  by (simp_all add: with_flow_def st_def)

lemma create_spec:
  assumes "table_ok m" "clock_ok m" "current_time m < int_max" "env (states m) (brk (states m)) = Some n0"
  shows "create_flow_state m f seq = Some (Inr (Some (brk (states m)), with_flow m f seq))"
proof -
  have "length (flow_hash m) = HASH_SIZE" using assms(1) by (simp add: table_ok_def)
  then show ?thesis
    using assms(4) clock_tick [OF assms(2,3)] hash_less [of f]
    by (simp add: create_flow_state_def cmalloc_def store_def with_flow_def new_state_def Let_def)
qed

lemma create_refused:
  assumes "env (states m) (brk (states m)) = None"
  shows "create_flow_state m f seq = Some (Inl NoMemory)"
  using assms by (simp add: create_flow_state_def cmalloc_def)

lemma with_flow_table:
  assumes "table_ok m" "\<forall>a n. st m a = Some n \<longrightarrow> flow n \<noteq> f"
  shows "table_ok (with_flow m f seq)"
proof -
  let ?b = "brk (states m)" and ?h = "HASH_FLOW f"
  have b: "st m ?b = None" and l: "length (flow_hash m) = HASH_SIZE" using assms(1) by (simp_all add: table_ok_def)
  have bu: "bucket (with_flow m f seq) i = (if i = ?h then insert ?b (bucket m i) else bucket m i)" for i
    using b by (auto simp: bucket_def new_state_def split: if_splits)
  have "\<exists>as. lchain fnext (st (with_flow m f seq)) (flow_hash (with_flow m f seq) ! i) as \<and> set as = bucket (with_flow m f seq) i"
    if i: "i < HASH_SIZE" for i
  proof -
    obtain as where as: "lchain fnext (st m) (flow_hash m ! i) as" "set as = bucket m i"
      using assms(1) i unfolding table_ok_def by blast
    have nb: "?b \<notin> set as" using b lseg_cell [OF as(1)] by force
    show ?thesis
    proof (cases "i = ?h")
      case True
      have "lchain fnext ((st m)(?b \<mapsto> new_state m f seq)) (Some ?b) (?b # as)"
        using as(1) nb True by (simp add: new_state_def)
      then show ?thesis using True as(2) i l by (intro exI [of _ "?b # as"]) (simp add: bu)
    next
      case False
      then show ?thesis using as nb i l by (intro exI [of _ as]) (simp add: bu)
    qed
  qed
  then have C: "\<forall>i<HASH_SIZE. \<exists>as. lchain fnext (st (with_flow m f seq)) (flow_hash (with_flow m f seq) ! i) as \<and>
      set as = bucket (with_flow m f seq) i" by blast
  have N: "\<forall>a\<ge>brk (states (with_flow m f seq)). st (with_flow m f seq) a = None" using assms(1) by (simp add: table_ok_def)
  have U: "\<forall>a c n k. st (with_flow m f seq) a = Some n \<longrightarrow> st (with_flow m f seq) c = Some k \<longrightarrow> flow n = flow k \<longrightarrow> a = c"
    unfolding with_flow_fields
  proof (intro allI impI)
    fix a c n k
    assume n: "((st m)(?b \<mapsto> new_state m f seq)) a = Some n" and k: "((st m)(?b \<mapsto> new_state m f seq)) c = Some k"
      and e: "flow n = flow k"
    have f: "flow (new_state m f seq) = f" by (simp add: new_state_def)
    consider "a = ?b" "c = ?b" | "a = ?b" "c \<noteq> ?b" | "a \<noteq> ?b" "c = ?b" | "a \<noteq> ?b" "c \<noteq> ?b" by blast
    then show "a = c"
    proof cases
      case 2
      then show ?thesis using n k e f assms(2) by simp
    next
      case 3
      then show ?thesis using n k e f assms(2) by simp
    next
      case 4
      then have "st m a = Some n" "st m c = Some k" using n k by simp_all
      then show ?thesis using table_unique [OF assms(1)] e by blast
    qed simp
  qed
  have "length (flow_hash (with_flow m f seq)) = HASH_SIZE" using l by simp
  then show ?thesis using C N U unfolding table_ok_def [of "with_flow m f seq"] by blast
qed

lemma with_flow_ok:
  assumes "inv {} m" "current_time m < int_max" "\<forall>a n. st m a = Some n \<longrightarrow> flow n \<noteq> f" "captures m S"
  shows "inv {} (with_flow m f seq)" "captures (with_flow m f seq) (S(f \<mapsto> new_capture seq))"
proof -
  let ?b = "brk (states m)"
  note I = assms(1) [unfolded inv_def]
  have b: "st m ?b = None" using I by (simp add: table_ok_def)
  have old: "st m a = Some n \<Longrightarrow> a \<noteq> ?b" for a n using b by auto
  have n: "fp (new_state m f seq) = None" "pos (new_state m f seq) = 0" "flags (new_state m f seq) = 0"
    "flow (new_state m f seq) = f" "last_access (new_state m f seq) = current_time m" "isn (new_state m f seq) = seq"
    by (simp_all add: new_state_def)
  have "clock_ok (with_flow m f seq)" using I assms(2) n(5) by (fastforce simp: clock_ok_def)
  moreover have "files_ok {} (with_flow m f seq)"
    by (rule files_ok_upd [of _ m]) (use I n b in \<open>auto simp: state_ok_def\<close>)
  moreover have "ring_ok {} (with_flow m f seq)"
  proof (rule ring_ok_upd [of _ m])
    show "fp (new_state m f seq) \<noteq> None \<or> IS_SET (flags (new_state m f seq)) FLOW_FINISHED" if "Some ?b \<in> set (ring m)"
      using that b I unfolding ring_ok_def by (metis option.distinct(1))
  qed (use I n in simp_all)
  ultimately show "inv {} (with_flow m f seq)"
    using I with_flow_table [OF _ assms(3), of seq] by (simp add: inv_def)
  have c: "capture_of (files m) (new_state m f seq) = new_capture seq"
    using n by (simp add: capture_of_def new_capture_def)
  show "captures (with_flow m f seq) (S(f \<mapsto> new_capture seq))"
    using captures_upd [OF assms(4), of "with_flow m f seq" ?b "new_state m f seq"] assms(3) b c n(4) by simp
qed

text \<open>
  The ring of open files: sorting it, closing a file, and making it smaller. None of this
  changes what has been captured.
\<close>

section \<open>Sorting\<close>

lemma qsort_insert_spec:
  "\<forall>y\<in>set ys. \<exists>c. cmp x y = Some c \<and> (c \<le> 0 \<longleftrightarrow> key x \<le> (key y :: int)) \<Longrightarrow> sorted (map key ys) \<Longrightarrow>
   \<exists>zs. qsort_insert cmp x ys = Some zs \<and> mset zs = add_mset x (mset ys) \<and> sorted (map key zs)"
proof (induction ys)
  case Nil
  then show ?case by simp
next
  case (Cons y ys)
  obtain c where c: "cmp x y = Some c" "c \<le> 0 \<longleftrightarrow> key x \<le> key y" using Cons.prems(1) by auto
  show ?case
  proof (cases "c \<le> 0")
    case True
    then have "\<forall>z\<in>set (y # ys). key x \<le> key z" using c(2) Cons.prems(2) by fastforce
    then show ?thesis using True c(1) Cons.prems(2) by simp
  next
    case False
    obtain zs where zs: "qsort_insert cmp x ys = Some zs" "mset zs = add_mset x (mset ys)" "sorted (map key zs)"
      using Cons by auto
    have "set zs = insert x (set ys)" using zs(2) by (metis set_mset_add_mset_insert set_mset_mset)
    then have "\<forall>z\<in>set zs. key y \<le> key z" using False c(2) Cons.prems(2) by auto
    then show ?thesis using False c(1) zs by simp
  qed
qed

lemma libc_qsort_spec:
  "\<forall>x\<in>set xs. \<forall>y\<in>set xs. \<exists>c. cmp x y = Some c \<and> (c \<le> 0 \<longleftrightarrow> key x \<le> (key y :: int)) \<Longrightarrow>
   \<exists>ys. qsort cmp xs = Some ys \<and> mset ys = mset xs \<and> sorted (map key ys)"
proof (induction xs)
  case (Cons x xs)
  then obtain ys where ys: "qsort cmp xs = Some ys" "mset ys = mset xs" "sorted (map key ys)" by auto
  have "set ys = set xs" using ys(2) by (metis set_mset_mset)
  then have "\<forall>y\<in>set ys. \<exists>c. cmp x y = Some c \<and> (c \<le> 0 \<longleftrightarrow> key x \<le> key y)" using Cons.prems by auto
  from qsort_insert_spec [of ys cmp x key, OF this ys(3)] show ?case using ys(1,2) by auto
qed simp

definition age :: "flow_mem \<Rightarrow> ptr \<Rightarrow> int" where
  "age m e = (case e of None \<Rightarrow> int_max + 1 | Some a \<Rightarrow> last_access (the (st m a)))"

definition with_ring :: "flow_mem \<Rightarrow> ptr list \<Rightarrow> flow_mem" where
  "with_ring m xs = m\<lparr>fd_ring := xs @ drop (nat (max_fds m)) (fd_ring m)\<rparr>"

lemma ring_entry: "ring_ok X m \<Longrightarrow> Some a \<in> set (ring m) \<Longrightarrow>
    a \<notin> X \<and> (\<exists>n. st m a = Some n \<and> (fp n \<noteq> None \<or> IS_SET (flags n) FLOW_FINISHED))"
  unfolding ring_ok_def by blast

lemma age_less:
  assumes "clock_ok m" "ring_ok X m" "Some a \<in> set (ring m)"
  shows "0 \<le> age m (Some a)" "age m (Some a) < int_max"
proof -
  obtain n where "st m a = Some n" using ring_entry [OF assms(2,3)] by blast
  then have "0 \<le> last_access n" "last_access n < current_time m" "current_time m \<le> int_max" "age m (Some a) = last_access n"
    using assms(1) by (auto simp: clock_ok_def age_def)
  then show "0 \<le> age m (Some a)" "age m (Some a) < int_max" by simp_all
qed

lemma compare_spec:
  assumes "clock_ok m" "ring_ok X m" "x \<in> set (ring m)" "y \<in> set (ring m)"
  shows "\<exists>c. flow_state_compare (states m) x y = Some c \<and> (c \<le> 0 \<longleftrightarrow> age m x \<le> age m y)"
proof (cases x; cases y)
  fix a b assume xy: "x = Some a" "y = Some b"
  obtain n k where nk: "st m a = Some n" "st m b = Some k" using ring_entry [OF assms(2)] assms(3,4) xy by blast
  have "cint (last_access n - last_access k) = Some (last_access n - last_access k)"
    using age_less [OF assms(1,2), of a] age_less [OF assms(1,2), of b] assms(3,4) xy nk
    by (simp add: age_def cint_def int_min_def int_max_def)
  then show ?thesis using nk xy by (simp add: flow_state_compare_def st_def age_def)
next
  fix b assume "x = None" "y = Some b"
  then show ?thesis using age_less(2) [OF assms(1,2), of b] assms(4) by (simp add: flow_state_compare_def age_def)
next
  fix a assume "x = Some a" "y = None"
  then show ?thesis using age_less(2) [OF assms(1,2), of a] assms(3) by (simp add: flow_state_compare_def age_def)
qed (simp add: flow_state_compare_def)

lemma sort_spec:
  assumes "clock_ok m" "ring_ok X m"
  shows "\<exists>xs. sort_fds m = Some (with_ring m xs) \<and> mset xs = mset (ring m) \<and> sorted (map (age m) xs)"
proof -
  have "\<forall>x\<in>set (ring m). \<forall>y\<in>set (ring m). \<exists>c. flow_state_compare (states m) x y = Some c \<and> (c \<le> 0 \<longleftrightarrow> age m x \<le> age m y)"
    using compare_spec [OF assms] by blast
  from libc_qsort_spec [where key = "age m", OF this] obtain xs where "qsort (flow_state_compare (states m)) (ring m) = Some xs"
    "mset xs = mset (ring m)" "sorted (map (age m) xs)" by blast
  moreover have "max_fds m \<le> int (length (fd_ring m))" using assms(2) by (simp add: ring_ok_def)
  ultimately show ?thesis by (intro exI [of _ xs]) (simp add: sort_fds_def with_ring_def ring_def)
qed

lemma with_ring_fields [simp]:
  "st (with_ring m xs) = st m" "files (with_ring m xs) = files m" "max_fds (with_ring m xs) = max_fds m"
  "next_slot (with_ring m xs) = next_slot m" "current_time (with_ring m xs) = current_time m"
  "flow_hash (with_ring m xs) = flow_hash m" "states (with_ring m xs) = states m"
  by (simp_all add: with_ring_def)

lemma ring_with_ring:
  assumes "ring_ok X m" "mset xs = mset (ring m)"
  shows "ring (with_ring m xs) = xs" "length (fd_ring (with_ring m xs)) = length (fd_ring m)"
proof -
  have l: "length xs = nat (max_fds m)"
  proof -
    have "max_fds m \<le> int (length (fd_ring m))" using assms(1) by (simp add: ring_ok_def)
    then show ?thesis using mset_eq_length [OF assms(2)] by (simp add: ring_def)
  qed
  then show "ring (with_ring m xs) = xs" by (simp add: ring_def with_ring_def)
  show "length (fd_ring (with_ring m xs)) = length (fd_ring m)"
  proof -
    have "max_fds m \<le> int (length (fd_ring m))" using assms(1) by (simp add: ring_ok_def)
    then show ?thesis using l by (simp add: with_ring_def)
  qed
qed

lemma ring_ok_perm:
  assumes "ring_ok X m" "mset xs = mset (ring m)"
  shows "ring_ok X (with_ring m xs)"
proof -
  have s: "set xs = set (ring m)" using assms(2) by (metis set_mset_mset)
  have "mset (filter (\<lambda>e. e \<noteq> None) xs) = mset (filter (\<lambda>e. e \<noteq> None) (ring m))" using assms(2) by simp
  then have "distinct (filter (\<lambda>e. e \<noteq> None) xs) = distinct (filter (\<lambda>e. e \<noteq> None) (ring m))"
    by (rule mset_eq_imp_distinct_iff)
  then show ?thesis
    using assms(1) s ring_with_ring [OF assms] unfolding ring_ok_def with_ring_fields by simp
qed

text \<open>The parts of the invariant that do not look at the ring.\<close>

definition core :: "nat set \<Rightarrow> flow_mem \<Rightarrow> (flow_t \<rightharpoonup> capture) \<Rightarrow> bool" where
  "core X m S \<longleftrightarrow> table_ok m \<and> clock_ok m \<and> files_ok X m \<and> captures m S"

lemma core_cong:
  assumes "core X m S" "states m' = states m" "flow_hash m' = flow_hash m" "current_time m' = current_time m" "files m' = files m"
  shows "core X m' S"
proof -
  have "st m' = st m" "bucket m' = bucket m" using assms(2) by (simp_all add: st_def bucket_def fun_eq_iff)
  then show ?thesis using assms unfolding core_def table_ok_def clock_ok_def files_ok_def captures_def by simp
qed

lemma inv_core: "inv X m \<Longrightarrow> captures m S \<Longrightarrow> core X m S"
  by (simp add: inv_def core_def)

lemma core_inv: "core X m S \<Longrightarrow> ring_ok X m \<Longrightarrow> inv X m"
  by (simp add: inv_def core_def)

section \<open>Closing\<close>

definition closed :: "flow_mem \<Rightarrow> nat \<Rightarrow> flow_state \<Rightarrow> flow_mem" where
  "closed m a n = (case fp n of None \<Rightarrow> m
     | Some h \<Rightarrow> (put m a (n\<lparr>fp := None, pos := 0\<rparr>))\<lparr>files := (files m)\<lparr>handles := AList.delete h (handles (files m))\<rparr>\<rparr>)"

lemma closed_fields [simp]:
  "flow_hash (closed m a n) = flow_hash m" "fd_ring (closed m a n) = fd_ring m" "max_fds (closed m a n) = max_fds m"
  "next_slot (closed m a n) = next_slot m" "current_time (closed m a n) = current_time m"
  "fdata (files (closed m a n)) = fdata (files m)" "room (files (closed m a n)) = room (files m)"
  "denied (files (closed m a n)) = denied (files m)" "short (files (closed m a n)) = short (files m)"
  "env (states (closed m a n)) = env (states m)" "brk (states (closed m a n)) = brk (states m)"
  by (cases "fp n"; simp add: closed_def)+

lemma close_spec:
  assumes "st m a = Some n" "state_ok X (files m) a n"
  shows "\<exists>r. close_file m (Some a) = Some (r, closed m a n)"
proof (cases "fp n")
  case None
  then show ?thesis using assms(1) by (simp add: close_file_def closed_def st_def)
next
  case (Some h)
  then have "\<exists>x. map_of (handles (files m)) h = Some x" using assms(2) by (auto simp: state_ok_def)
  then show ?thesis
    using Some assms(1) set_state_st [of "m\<lparr>files := s\<rparr>" a n for s]
    by (auto simp: close_file_def closed_def flow_step fclose_def st_def [symmetric])
qed

lemma st_closed:
  assumes "st m a = Some n" "state_ok X (files m) a n"
  shows "st (closed m a n) = (st m)(a \<mapsto> n\<lparr>fp := None, pos := 0\<rparr>)"
proof (cases "fp n")
  case None
  then have "n\<lparr>fp := None, pos := 0\<rparr> = n" using assms(2) by (simp add: state_ok_def)
  then show ?thesis using None assms(1) by (simp add: closed_def fun_upd_idem)
qed (simp add: closed_def)

lemma length_delete:
  "h \<in> set (map fst xs) \<Longrightarrow> distinct (map fst xs) \<Longrightarrow> Suc (length (AList.delete h xs)) = length xs"
proof (induction xs)
  case (Cons x xs)
  obtain k v where x: "x = (k, v)" by (cases x)
  show ?case
  proof (cases "k = h")
    case True
    then have "AList.delete h xs = xs" using Cons.prems(2) x by (intro delete_id) simp
    then show ?thesis using True x by simp
  next
    case False
    then show ?thesis using Cons x by simp
  qed
qed simp

lemma closed_handles:
  assumes "files_ok X m" "st m a = Some n" "fp n = Some h"
  shows "Suc (length (handles (files (closed m a n)))) = length (handles (files m))"
proof -
  have d: "distinct (map fst (handles (files m)))" and "state_ok X (files m) a n" using assms(1,2) by (simp_all add: files_ok_def)
  then obtain x where "map_of (handles (files m)) h = Some x" using assms(3) by (auto simp: state_ok_def)
  then have "h \<in> set (map fst (handles (files m)))" by (force dest: map_of_SomeD)
  from length_delete [OF this d] show ?thesis using assms(3) by (simp add: closed_def)
qed

lemma ok_files [simp]: "table_ok (m\<lparr>files := s\<rparr>) = table_ok m" "clock_ok (m\<lparr>files := s\<rparr>) = clock_ok m"
  by (simp_all add: table_ok_def clock_ok_def bucket_def)

lemma closed_core:
  assumes "core X m S" "st m a = Some n"
  shows "core X (closed m a n) S"
proof (cases "fp n")
  case None
  then show ?thesis using assms(1) by (simp add: closed_def)
next
  case (Some h)
  note C = assms(1) [unfolded core_def]
  let ?n = "n\<lparr>fp := None, pos := 0\<rparr>" and ?hs = "AList.delete h (handles (files m))"
  have so: "state_ok X (files m) a n" using C assms(2) by (simp add: files_ok_def)
  have st: "st (closed m a n) = (st m)(a \<mapsto> ?n)" by (rule st_closed [OF assms(2) so])
  have fi: "files (closed m a n) = (files m)\<lparr>handles := ?hs\<rparr>" using Some by (simp add: closed_def)
  have other: "fp k \<noteq> Some h" if "st m b = Some k" "b \<noteq> a" for b k
    using handle_unique [of m X b k a n h] C that assms(2) Some by blast
  have "files_ok X (closed m a n)"
    unfolding files_ok_def fi
  proof (intro conjI allI impI)
    show "distinct (map fst (handles ((files m)\<lparr>handles := ?hs\<rparr>)))"
      using C by (simp add: files_ok_def distinct_delete)
  next
    fix g x assume "map_of (handles ((files m)\<lparr>handles := ?hs\<rparr>)) g = Some x"
    then have g: "g \<noteq> h" "map_of (handles (files m)) g = Some x" by (auto simp: delete_conv split: if_splits)
    then obtain b k where k: "st m b = Some k" "fp k = Some g" "g < fresh_file (files m)" using C unfolding files_ok_def by blast
    then have "b \<noteq> a" using g(1) Some assms(2) by auto
    then show "\<exists>b k. st (closed m a n) b = Some k \<and> fp k = Some g" using k by (intro exI [of _ b] exI [of _ k]) (simp add: st)
    show "g < fresh_file ((files m)\<lparr>handles := ?hs\<rparr>)" using k(3) by simp
  next
    fix b k assume k: "st (closed m a n) b = Some k"
    show "state_ok X ((files m)\<lparr>handles := ?hs\<rparr>) b k"
    proof (cases "b = a")
      case True
      then show ?thesis using k st so by (auto simp: state_ok_def)
    next
      case False
      then have "st m b = Some k" using k st by simp
      then have "state_ok X (files m) b k" "fp k \<noteq> Some h" using C other [OF _ False] by (auto simp: files_ok_def)
      then show ?thesis by (auto simp: state_ok_def delete_conv split: option.splits)
    qed
  qed
  moreover have "table_ok (closed m a n)"
    using table_put [of m a n ?n] C assms(2) Some by (simp add: closed_def)
  moreover have "clock_ok (closed m a n)"
    using clock_put [of m a n ?n] C assms(2) Some by (simp add: closed_def)
  moreover have "captures (put m a ?n) S"
    using captures_put_same [of m S a n ?n] C assms(2) by simp
  then have "captures (closed m a n) S"
    unfolding captures_def fi st put_fields by (simp add: capture_of_def)
  ultimately show ?thesis by (simp add: core_def)
qed

end
