(* ===== verification/Flow_Slots.thy ===== *)
theory Flow_Slots
  imports Flow_Ring
begin

text \<open>Opening the file of a flow: the retries, the contraction of the ring, and the slot.\<close>

definition kept :: "flow_mem \<Rightarrow> flow_mem \<Rightarrow> bool" where
  "kept m m' \<longleftrightarrow> current_time m' = current_time m \<and> env (states m') = env (states m) \<and> room (files m') = room (files m) \<and>
     denied (files m') = denied (files m) \<and> short (files m') = short (files m) \<and> max_fds m' \<le> max_fds m"

lemma kept_refl: "kept m m"
  by (simp add: kept_def)

lemma kept_trans: "kept m m' \<Longrightarrow> kept m' m'' \<Longrightarrow> kept m m''"
  by (simp add: kept_def)

section \<open>Making the ring smaller\<close>

lemma length_ring: "ring_ok X m \<Longrightarrow> length (ring m) = nat (max_fds m)"
proof -
  assume "ring_ok X m"
  then have "max_fds m \<le> int (length (fd_ring m))" by (simp add: ring_ok_def)
  then show ?thesis by (simp add: ring_def)
qed

lemma shift_ring_spec:
  assumes "int (length pre + 1 + length es) \<le> n" "int (length pre + 1 + length es) = n \<or> (\<exists>r. rest = None # r)" "None \<notin> set es"
  shows "shift_ring (pre @ x # es @ rest) n (int (length pre) + 1) =
    Some (int (length pre + 1 + length es), pre @ es @ last (x # es) # rest)"
  using assms
proof (induction es arbitrary: pre x)
  case Nil
  show ?case
  proof (cases "int (length pre + 1) = n")
    case True
    then show ?thesis by (subst shift_ring.simps) simp
  next
    case False
    then obtain r where r: "rest = None # r" using Nil.prems(2) by auto
    have "aread (pre @ x # None # r) (int (length pre) + 1) = Some None"
      using aread_nat [of "Suc (length pre)" "pre @ x # None # r"] by (simp add: nth_append ac_simps)
    then show ?thesis using False Nil.prems(1) r by (subst shift_ring.simps) simp
  qed
next
  case (Cons e es)
  let ?l = "pre @ x # (e # es) @ rest"
  have lt: "int (length pre) + 1 < n" using Cons.prems(1) by simp
  have rd: "aread ?l (int (length pre) + 1) = Some e"
    using aread_nat [of "Suc (length pre)" ?l] by (simp add: nth_append ac_simps)
  have wr: "awrite ?l (int (length pre)) e = Some ((pre @ [e]) @ e # es @ rest)"
    using awrite_nat [of "length pre" ?l e] by (simp add: list_update_append)
  have "shift_ring ((pre @ [e]) @ e # es @ rest) n (int (length (pre @ [e])) + 1) =
      Some (int (length (pre @ [e]) + 1 + length es), (pre @ [e]) @ es @ last (e # es) # rest)"
    by (rule Cons.IH) (use Cons.prems in auto)
  moreover obtain y where "e = Some y" using Cons.prems(3) by (cases e) auto
  ultimately show ?case using lt rd wr
    by (subst shift_ring.simps) (simp add: ac_simps)
qed

text \<open>A sorted ring has its empty places at the end.\<close>

lemma sorted_ring:
  "sorted (map key xs) \<Longrightarrow> (\<And>a. Some a \<in> set xs \<Longrightarrow> key (Some a) < (key None :: int)) \<Longrightarrow>
   \<exists>as k. xs = map Some as @ replicate k None"
proof (induction xs)
  case (Cons e es)
  then obtain as k where es: "es = map Some as @ replicate k None" by auto
  show ?case
  proof (cases e)
    case None
    have "as = []"
    proof (rule ccontr)
      assume "as \<noteq> []"
      then have "Some (hd as) \<in> set es" by (auto simp: es)
      then have "key e \<le> key (Some (hd as))" "key (Some (hd as)) < key None" using Cons.prems by auto
      then show False using None by simp
    qed
    then show ?thesis using es None by (intro exI [of _ "[]"] exI [of _ "Suc k"]) simp
  next
    case (Some a)
    then show ?thesis using es by (intro exI [of _ "a # as"] exI [of _ k]) simp
  qed
qed simp

lemma distinct_somes: "distinct (filter (\<lambda>e. e \<noteq> None) (map Some as @ replicate k None)) \<longleftrightarrow> distinct as"
proof -
  have "filter (\<lambda>e. e \<noteq> None) (map Some as) = map Some as" by (simp add: filter_map comp_def)
  moreover have "filter (\<lambda>e. e \<noteq> None) (replicate k None) = []" by simp
  ultimately show ?thesis by (simp add: distinct_map)
qed

text \<open>The ring after sorting: the flows in the order of their last use, then the empty places.\<close>

lemma sort_shape:
  assumes "clock_ok m" "ring_ok X m"
  obtains as k where "sort_fds m = Some (with_ring m (map Some as @ replicate k None))"
    "mset (map Some as @ replicate k None) = mset (ring m)" "sorted (map (\<lambda>a. age m (Some a)) as)" "distinct as"
    "set as = {a. Some a \<in> set (ring m)}"
proof -
  obtain xs where xs: "sort_fds m = Some (with_ring m xs)" "mset xs = mset (ring m)" "sorted (map (age m) xs)"
    using sort_spec [OF assms] by blast
  have s: "set xs = set (ring m)" using xs(2) by (metis set_mset_mset)
  have "age m (Some a) < age m None" if "Some a \<in> set xs" for a
    using age_less(2) [OF assms, of a] that s by (simp add: age_def)
  from sorted_ring [of "age m", OF xs(3) this] obtain as k where as: "xs = map Some as @ replicate k None" by blast
  have "mset (filter (\<lambda>e. e \<noteq> None) xs) = mset (filter (\<lambda>e. e \<noteq> None) (ring m))" using xs(2) by simp
  then have "distinct (filter (\<lambda>e. e \<noteq> None) xs) = distinct (filter (\<lambda>e. e \<noteq> None) (ring m))"
    by (rule mset_eq_imp_distinct_iff)
  then have "distinct as" using assms(2) as distinct_somes [of as k] by (simp add: ring_ok_def)
  moreover have "set as = {a. Some a \<in> set (ring m)}" using s [symmetric] by (auto simp: as)
  moreover have "sorted (map (\<lambda>a. age m (Some a)) as)" using xs(3) by (simp add: as sorted_append comp_def)
  ultimately show thesis using that xs(1,2) as by blast
qed

text \<open>
  \<^const>\<open>contract_fd_ring\<close> closes the flow that has not been used for longest and keeps the
  others, in the order of their last use.
\<close>

lemma contract_spec:
  assumes "core {} m S" "ring_ok {} m" "Some b \<in> set (ring m)"
  obtains a n as r where "contract_fd_ring m = Some (Inr ((closed (m\<lparr>fd_ring := r\<rparr>) a n)\<lparr>fd_ring := r,
      max_fds := int (length as), next_slot := - 1\<rparr>))"
    "st m a = Some n" "Some a \<in> set (ring m)" "\<forall>c. Some c \<in> set (ring m) \<longrightarrow> age m (Some a) \<le> age m (Some c)"
    "take (length as) r = map Some as" "distinct (a # as)" "set (a # as) = {a. Some a \<in> set (ring m)}"
    "length as < length r" "length r = length (fd_ring m)" "as = [] \<longrightarrow> r ! 0 = Some a"
proof -
  have ck: "clock_ok m" using assms(1) by (simp add: core_def)
  obtain xs k where xs: "sort_fds m = Some (with_ring m (map Some xs @ replicate k None))"
    "mset (map Some xs @ replicate k None) = mset (ring m)" "sorted (map (\<lambda>a. age m (Some a)) xs)" "distinct xs"
    "set xs = {a. Some a \<in> set (ring m)}" using sort_shape [OF ck assms(2)] by blast
  obtain a as where as: "xs = a # as" using xs(5) assms(3) by (cases xs) auto
  let ?m = "with_ring m (map Some xs @ replicate k None)"
  define rest where "rest = replicate k None @ drop (nat (max_fds m)) (fd_ring m)"
  have fr: "fd_ring ?m = [] @ Some a # map Some as @ rest" by (simp add: with_ring_def as rest_def)
  obtain n where n: "st m a = Some n" using ring_entry [OF assms(2), of a] xs(5) as by auto
  have so: "state_ok {} (files ?m) a n" using assms(1) n by (simp add: core_def files_ok_def)
  obtain r0 where cl: "close_file ?m (Some a) = Some (r0, closed ?m a n)"
    using close_spec [of ?m a n "{}"] n so by auto
  have len: "length xs + k = nat (max_fds m)"
    using mset_eq_length [OF xs(2)] length_ring [OF assms(2)] by simp
  define r where "r = map Some as @ last (Some a # map Some as) # rest"
  have "1 \<le> max_fds m" using assms(2) by (simp add: ring_ok_def)
  then have ml: "max_fds m = int (length as) + 1 + int k" using len as by simp
  have "int (length as) + 1 = max_fds m \<or> (\<exists>r. rest = None # r)" using ml by (cases k) (simp_all add: rest_def)
  then have sh: "shift_ring (fd_ring ?m) (max_fds m) 1 = Some (int (length as) + 1, r)"
    using shift_ring_spec [of "[]" "map Some as" "max_fds m" rest "Some a"] ml by (auto simp: fr r_def ac_simps)
  have "length (fd_ring ?m) = length (fd_ring m)" by (rule ring_with_ring(2) [OF assms(2) xs(2)])
  then have lr: "length r = length (fd_ring m)" by (simp add: fr r_def)
  have "(closed ?m a n)\<lparr>fd_ring := r, max_fds := x, next_slot := - 1\<rparr> =
      (closed (m\<lparr>fd_ring := r\<rparr>) a n)\<lparr>fd_ring := r, max_fds := x, next_slot := - 1\<rparr>" for x
    by (cases "fp n") (simp_all add: closed_def with_ring_def put_def)
  then have cc: "contract_fd_ring m = Some (Inr ((closed (m\<lparr>fd_ring := r\<rparr>) a n)\<lparr>fd_ring := r, max_fds := int (length as), next_slot := - 1\<rparr>))"
    using xs(1) cl sh by (simp add: contract_fd_ring_def fr aread_def)
  have old: "\<forall>c. Some c \<in> set (ring m) \<longrightarrow> age m (Some a) \<le> age m (Some c)"
  proof (intro allI impI)
    fix c assume "Some c \<in> set (ring m)"
    then have "c \<in> set (a # as)" using xs(5) as by auto
    then show "age m (Some a) \<le> age m (Some c)" using xs(3) as by auto
  qed
  have "Some a \<in> set (ring m)" using xs(5) as by auto
  moreover have "take (length as) r = map Some as" "length as < length r" "as = [] \<longrightarrow> r ! 0 = Some a" by (simp_all add: r_def)
  ultimately show thesis using that [OF cc n _ old] xs(4,5) lr unfolding as by blast
qed

lemma contract_empty:
  assumes "clock_ok m" "ring_ok X m" "set (ring m) \<subseteq> {None}"
  shows "contract_fd_ring m = Some (Inl NoDescriptors)"
proof -
  obtain xs k where xs: "sort_fds m = Some (with_ring m (map Some xs @ replicate k None))"
    "mset (map Some xs @ replicate k None) = mset (ring m)" "sorted (map (\<lambda>a. age m (Some a)) xs)" "distinct xs"
    "set xs = {a. Some a \<in> set (ring m)}" using sort_shape [OF assms(1,2)] by blast
  have "Some a \<notin> set (ring m)" for a using assms(3) by auto
  then have "set xs = {}" unfolding xs(5) by simp
  then have e: "xs = []" by simp
  have "0 < length (ring m)" using assms(2) length_ring [OF assms(2)] by (simp add: ring_ok_def)
  then have "0 < k" using mset_eq_length [OF xs(2)] e by simp
  then obtain j where "k = Suc j" by (cases k) auto
  then show ?thesis using xs(1) e by (simp add: contract_fd_ring_def with_ring_def aread_def)
qed

text \<open>With two flows or more in the ring, what is left is a ring again.\<close>

lemma contract_ok:
  assumes "core {} m S" "ring_ok {} m" "Some b \<in> set (ring m)" "Some c \<in> set (ring m)" "b \<noteq> c"
  shows "\<exists>m'. contract_fd_ring m = Some (Inr m') \<and> core {} m' S \<and> ring_ok {} m' \<and> kept m m' \<and> max_fds m' < max_fds m \<and>
    fdata (files m') = fdata (files m) \<and> (\<forall>p. Some p \<notin> set (ring m) \<longrightarrow> st m' p = st m p)"
proof -
  obtain a n as r where c: "contract_fd_ring m = Some (Inr ((closed (m\<lparr>fd_ring := r\<rparr>) a n)\<lparr>fd_ring := r,
      max_fds := int (length as), next_slot := - 1\<rparr>))"
    "st m a = Some n" "Some a \<in> set (ring m)" "take (length as) r = map Some as" "distinct (a # as)"
    "set (a # as) = {a. Some a \<in> set (ring m)}" "length as < length r" "length r = length (fd_ring m)"
    using contract_spec [OF assms(1-3)] by metis
  let ?M = "closed (m\<lparr>fd_ring := r\<rparr>) a n"
  let ?m = "?M\<lparr>fd_ring := r, max_fds := int (length as), next_slot := - 1\<rparr>"
  have c0: "core {} (m\<lparr>fd_ring := r\<rparr>) S" by (rule core_cong [OF assms(1)]) simp_all
  then have co: "core {} ?M S" by (rule closed_core) (use c(2) in simp)
  have cm: "core {} ?m S" by (rule core_cong [OF co]) simp_all
  have so: "state_ok {} (files (m\<lparr>fd_ring := r\<rparr>)) a n" using c0 c(2) by (simp add: core_def files_ok_def)
  have st: "st ?m = (st m)(a \<mapsto> n\<lparr>fp := None, pos := 0\<rparr>)" using st_closed [OF _ so] c(2) by simp
  have rg: "ring ?m = map Some as" using c(4) by (simp add: ring_def)
  have "b \<in> set (a # as)" "c \<in> set (a # as)" using c(6) assms(3,4) by blast+
  then have ne: "as \<noteq> []" using assms(5) by (cases as) auto
  have mx: "int (length as) < max_fds m"
  proof -
    have "length (a # as) = card (set (a # as))" using c(5) by (metis distinct_card)
    also have "\<dots> = card (Some ` set (a # as))" by (simp only: card_image inj_Some)
    also have "\<dots> \<le> card (set (ring m))" unfolding c(6) by (rule card_mono) auto
    also have "\<dots> \<le> nat (max_fds m)" by (metis card_length le_trans length_take min.cobounded2 ring_def)
    finally show ?thesis by simp
  qed
  have "ring_ok {} ?m"
    unfolding ring_ok_def rg
  proof (intro conjI allI impI)
    fix e assume "Some e \<in> set (map Some as)"
    then have "Some e \<in> set (ring m)" "e \<noteq> a" using c(5,6) by auto
    then show "\<exists>k. st ?m e = Some k \<and> (fp k \<noteq> None \<or> IS_SET (flags k) FLOW_FINISHED)"
      using ring_entry [OF assms(2), of e] unfolding st by simp
  next
    fix e k assume k: "st ?m e = Some k" "fp k \<noteq> None"
    then have "e \<noteq> a" unfolding st by auto
    then have "st m e = Some k" using k(1) unfolding st by simp
    then have "Some e \<in> set (ring m)" using assms(2) k(2) unfolding ring_ok_def by blast
    then have "e \<in> set (a # as)" using c(6) by blast
    then show "e \<in> {} \<or> Some e \<in> set (map Some as)" using \<open>e \<noteq> a\<close> by simp
  next
    show "max_fds ?m \<le> int_max" using mx assms(2) by (simp add: ring_ok_def)
    have "filter (\<lambda>e. e \<noteq> None) (map Some as) = map Some as" by (simp add: filter_map comp_def)
    then show "distinct (filter (\<lambda>e. e \<noteq> None) (map Some as))" using c(5) by (simp add: distinct_map)
  qed (use ne c(7) in \<open>simp_all add: Suc_le_eq\<close>)
  moreover have "kept m ?m" using mx by (simp add: kept_def)
  moreover have "\<forall>p. Some p \<notin> set (ring m) \<longrightarrow> st ?m p = st m p" unfolding st using c(3) by auto
  ultimately show ?thesis using c(1) cm mx by (intro exI [of _ ?m]) simp
qed

text \<open>Opening a file in one of the places of the ring.\<close>

section \<open>One attempt\<close>

definition tried :: "flow_mem \<Rightarrow> flow_mem" where
  "tried m = m\<lparr>files := (files m)\<lparr>opens := Suc (opens (files m))\<rparr>\<rparr>"

definition opened :: "flow_mem \<Rightarrow> nat \<Rightarrow> flow_state \<Rightarrow> flow_mem" where
  "opened m p n = (let s = files m; new = \<not> IS_SET (flags n) FLOW_FILE_EXISTS in
     (put m p (n\<lparr>fp := Some (fresh_file s)\<rparr>))\<lparr>files := s\<lparr>opens := Suc (opens s),
       fdata := (if new then (fdata s)(path (flow n) \<mapsto> []) else fdata s),
       handles := (fresh_file s, path (flow n), 0) # handles s, fresh_file := Suc (fresh_file s)\<rparr>\<rparr>)"

lemma put_same: "st m p = Some n \<Longrightarrow> put m p n = m"
  by (simp add: put_def st_def fun_upd_idem)

lemma attempt_spec:
  assumes "st m p = Some n" "fp n = None" "state_ok X (files m) p n"
  shows "attempt_fopen m (Some p) (flow_filename (flow n)) =
    (if room (files m) (opens (files m)) \<le> length (handles (files m)) then Some (TooMany, tried m)
     else if denied (files m) (opens (files m)) then Some (Failed, tried m)
     else Some (Opened (fresh_file (files m)), opened m p n))"
proof -
  have e: "IS_SET (flags n) FLOW_FILE_EXISTS \<longrightarrow> fdata (files m) (path (flow n)) \<noteq> None" using assms(3) by (simp add: state_ok_def)
  have l: "length (''./data_flow/'' @ flow_filename (flow n)) < 100" by (simp add: length_flow_filename)
  have n: "n\<lparr>fp := None\<rparr> = n" using assms(2) by simp
  have u: "set_state (m\<lparr>files := s\<rparr>) (Some p) g = Some ((put m p (g n))\<lparr>files := s\<rparr>)" for s g
    using set_state_st [of "m\<lparr>files := s\<rparr>" p n g] assms(1) by simp
  have ld: "load (states m) (Some p) = Some n" using assms(1) by (simp add: st_def)
  show ?thesis
    using e l
    unfolding attempt_fopen_def ld path_def fopen_def Let_def u
    by (auto simp: u n put_same [OF assms(1)] tried_def opened_def path_def Let_def)
qed

lemma tried_ok:
  assumes "core X m S" "ring_ok X m"
  shows "core X (tried m) S" "ring_ok X (tried m)" "ring (tried m) = ring m" "st (tried m) = st m" "kept m (tried m)"
    "fdata (files (tried m)) = fdata (files m)" "max_fds (tried m) = max_fds m" "handles (files (tried m)) = handles (files m)"
proof -
  have so: "state_ok X (files (tried m)) a n = state_ok X (files m) a n" for a n
    by (rule state_ok_cong) (simp_all add: tried_def)
  have co: "capture_of (files (tried m)) n = capture_of (files m) n" for n by (simp add: capture_of_def tried_def)
  have st: "st (tried m) = st m" by (simp add: tried_def)
  have t: "table_ok (tried m)" "clock_ok (tried m)" using assms(1) by (simp_all add: core_def tried_def)
  have f: "handles (files (tried m)) = handles (files m)" "fresh_file (files (tried m)) = fresh_file (files m)"
    by (simp_all add: tried_def)
  have "files_ok X (tried m)" using assms(1) unfolding core_def files_ok_def so st f by blast
  moreover have "captures (tried m) S" using assms(1) unfolding core_def captures_def co st by blast
  ultimately show "core X (tried m) S" using t by (simp add: core_def)
  show "ring_ok X (tried m)" using assms(2) by (simp add: ring_ok_def ring_def tried_def)
qed (simp_all add: ring_def tried_def kept_def)

text \<open>The file is open, but not yet in the ring.\<close>

lemma opened_ok:
  assumes "core {} m S" "ring_ok {} m" "st m p = Some n" "fp n = None" "\<not> IS_SET (flags n) FLOW_FINISHED"
  shows "core {p} (opened m p n) S" "ring_ok {p} (opened m p n)" "kept m (opened m p n)"
    "st (opened m p n) = (st m)(p \<mapsto> n\<lparr>fp := Some (fresh_file (files m))\<rparr>)"
    "fdata (files (opened m p n)) (path (flow n)) = (if IS_SET (flags n) FLOW_FILE_EXISTS then fdata (files m) (path (flow n)) else Some [])"
proof -
  let ?h = "fresh_file (files m)" and ?m = "opened m p n"
  let ?n = "n\<lparr>fp := Some ?h\<rparr>"
  note C = assms(1) [unfolded core_def]
  have so: "state_ok {} (files m) p n" using C assms(3) by (simp add: files_ok_def)
  show st: "st ?m = (st m)(p \<mapsto> ?n)" by (simp add: opened_def Let_def)
  have hs: "handles (files ?m) = (?h, path (flow n), 0) # handles (files m)" "fresh_file (files ?m) = Suc ?h"
    by (simp_all add: opened_def Let_def)
  have fd: "fdata (files ?m) = (if IS_SET (flags n) FLOW_FILE_EXISTS then fdata (files m) else (fdata (files m))(path (flow n) \<mapsto> []))"
    by (simp add: opened_def Let_def)
  show "fdata (files ?m) (path (flow n)) = (if IS_SET (flags n) FLOW_FILE_EXISTS then fdata (files m) (path (flow n)) else Some [])"
    by (simp add: fd)
  have fresh: "map_of (handles (files m)) ?h = None"
  proof (rule ccontr)
    assume "map_of (handles (files m)) ?h \<noteq> None"
    then have "?h < ?h" using C unfolding files_ok_def by blast
    then show False by simp
  qed
  have tb: "table_ok ?m" using table_put [of m p n ?n] C assms(3) by (simp add: opened_def Let_def)
  have ck: "clock_ok ?m" using clock_put [of m p n ?n] C assms(3) by (simp add: opened_def Let_def)
  have other: "path (flow k) \<noteq> path (flow n)" if "st m b = Some k" "b \<noteq> p" for b k
    using table_unique [of m b k p n] C that assms(3) by auto
  have "files_ok {p} ?m"
    unfolding files_ok_def hs
  proof (intro conjI allI impI)
    have "?h \<notin> set (map fst (handles (files m)))" using fresh by (simp add: map_of_eq_None_iff)
    then show "distinct (map fst ((?h, path (flow n), 0) # handles (files m)))" using C by (simp add: files_ok_def)
  next
    fix g x assume g: "map_of ((?h, path (flow n), 0) # handles (files m)) g = Some x"
    show "g < Suc ?h"
    proof (cases "g = ?h")
      case False
      then have "map_of (handles (files m)) g = Some x" using g by simp
      then have "g < ?h" using C unfolding files_ok_def by blast
      then show ?thesis by simp
    qed simp
    show "\<exists>b k. st ?m b = Some k \<and> fp k = Some g"
    proof (cases "g = ?h")
      case True
      then show ?thesis by (intro exI [of _ p] exI [of _ ?n]) (simp add: st)
    next
      case False
      then have "map_of (handles (files m)) g = Some x" using g by simp
      then obtain b k where k: "st m b = Some k" "fp k = Some g" using C unfolding files_ok_def by blast
      then have "b \<noteq> p" using assms(3,4) by auto
      then show ?thesis using k by (intro exI [of _ b] exI [of _ k]) (simp add: st)
    qed
  next
    fix b k assume k: "st ?m b = Some k"
    show "state_ok {p} (files ?m) b k"
    proof (cases "b = p")
      case True
      then have "k = ?n" using k st by simp
      then show ?thesis using True so assms(4,5) by (auto simp: state_ok_def hs fd)
    next
      case False
      then have kb: "st m b = Some k" using k st by simp
      then have s: "state_ok {} (files m) b k" using C by (simp add: files_ok_def)
      have "fp k \<noteq> Some ?h" using s fresh by (auto simp: state_ok_def)
      then show ?thesis using s other [OF kb False] by (auto simp: state_ok_def hs fd split: option.splits)
    qed
  qed
  moreover have "captures ?m S"
    unfolding captures_def
  proof (intro conjI allI impI)
    fix b k assume k: "st ?m b = Some k"
    show "S (flow k) = Some (capture_of (files ?m) k)"
    proof (cases "b = p")
      case True
      then have "k = ?n" using k st by simp
      moreover have "S (flow n) = Some (capture_of (files m) n)" using C assms(3) by (simp add: captures_def)
      ultimately show ?thesis by (simp add: capture_of_def fd)
    next
      case False
      then have kb: "st m b = Some k" using k st by simp
      then have "S (flow k) = Some (capture_of (files m) k)" using C by (simp add: captures_def)
      then show ?thesis using other [OF kb False] by (simp add: capture_of_def fd)
    qed
  next
    fix f c assume "S f = Some c"
    then obtain b k where "st m b = Some k" "flow k = f" using C unfolding captures_def by blast
    then show "\<exists>b k. st ?m b = Some k \<and> flow k = f" using assms(3) st by (cases "b = p") auto
  qed
  ultimately show "core {p} ?m S" using tb ck by (simp add: core_def)
  show "kept m ?m" by (simp add: kept_def opened_def Let_def)
  have np: "Some p \<notin> set (ring m)" using ring_entry [OF assms(2), of p] assms(3-5) by auto
  have rg: "ring ?m = ring m" by (simp add: ring_def opened_def Let_def)
  have fx: "max_fds ?m = max_fds m" "fd_ring ?m = fd_ring m" "next_slot ?m = next_slot m" by (simp_all add: opened_def Let_def)
  show "ring_ok {p} ?m"
    unfolding ring_ok_def rg fx
  proof (intro conjI allI impI)
    fix a assume a: "Some a \<in> set (ring m)"
    then have "a \<noteq> p" using np by auto
    then show "a \<notin> {p}" "\<exists>k. st ?m a = Some k \<and> (fp k \<noteq> None \<or> IS_SET (flags k) FLOW_FINISHED)"
      using ring_entry [OF assms(2) a] by (simp_all add: st)
  next
    fix a k assume k: "st ?m a = Some k" "fp k \<noteq> None"
    show "a \<in> {p} \<or> Some a \<in> set (ring m)"
    proof (cases "a = p")
      case False
      then have "st m a = Some k" using k st by simp
      then show ?thesis using assms(2) k(2) unfolding ring_ok_def by blast
    qed simp
  qed (use assms(2) in \<open>simp_all add: ring_ok_def\<close>)
qed

section \<open>The retries\<close>

text \<open>What the system must provide: never less than two open files, and no other failure.\<close>

definition can_open :: "flow_mem \<Rightarrow> bool" where
  "can_open m \<longleftrightarrow> (\<forall>k. 2 \<le> room (files m) k \<and> \<not> denied (files m) k)"

lemma can_open_kept: "kept m m' \<Longrightarrow> can_open m' = can_open m"
  by (simp add: kept_def can_open_def)

text \<open>Two open files are two flows in the ring.\<close>

lemma two_open:
  assumes "core {} m S" "ring_ok {} m" "2 \<le> length (handles (files m))"
  obtains b c where "Some b \<in> set (ring m)" "Some c \<in> set (ring m)" "b \<noteq> c"
proof -
  obtain x y r where hs: "handles (files m) = x # y # r" using assms(3) by (metis Suc_le_length_iff numeral_2_eq_2)
  have C: "files_ok {} m" using assms(1) by (simp add: core_def)
  have d: "fst x \<noteq> fst y" using C hs by (auto simp: files_ok_def)
  have "map_of (handles (files m)) (fst x) = Some (snd x)" "map_of (handles (files m)) (fst y) = Some (snd y)"
    using d by (simp_all add: hs)
  then obtain b n c k where "st m b = Some n" "fp n = Some (fst x)" "st m c = Some k" "fp k = Some (fst y)"
    using C unfolding files_ok_def by metis
  moreover from this have "b \<noteq> c" using d by auto
  ultimately show thesis using that [of b c] assms(2) unfolding ring_ok_def by auto
qed

lemma open_loop_spec:
  assumes "core {} m S" "ring_ok {} m" "st m p = Some n" "fp n = None" "\<not> IS_SET (flags n) FLOW_FINISHED" "can_open m"
  shows "\<exists>m' h. open_loop m (Some p) (flow_filename (flow n)) = Some (Inr m') \<and> core {p} m' S \<and> ring_ok {p} m' \<and> kept m m' \<and>
    st m' p = Some (n\<lparr>fp := Some h\<rparr>) \<and>
    fdata (files m') (path (flow n)) = (if IS_SET (flags n) FLOW_FILE_EXISTS then fdata (files m) (path (flow n)) else Some [])"
  using assms
proof (induction "nat (max_fds m)" arbitrary: m rule: less_induct)
  case less
  have so: "state_ok {} (files m) p n" using less.prems(1,3) by (simp add: core_def files_ok_def)
  note at = attempt_spec [OF less.prems(3,4) so]
  have op: "2 \<le> room (files m) (opens (files m))" "\<not> denied (files m) (opens (files m))" using less.prems(6) by (simp_all add: can_open_def)
  show ?case
  proof (cases "room (files m) (opens (files m)) \<le> length (handles (files m))")
    case False
    then have "open_loop m (Some p) (flow_filename (flow n)) = Some (Inr (opened m p n))"
      using at op by (subst open_loop.simps) simp
    then show ?thesis using opened_ok [OF less.prems(1-5)] by auto
  next
    case True
    note t = tried_ok [OF less.prems(1,2)]
    have "2 \<le> length (handles (files (tried m)))" using True op(1) t(8) by simp
    from two_open [OF t(1,2) this] obtain b c where bc: "Some b \<in> set (ring (tried m))" "Some c \<in> set (ring (tried m))" "b \<noteq> c" .
    from contract_ok [OF t(1,2) bc] obtain m1 where m1: "contract_fd_ring (tried m) = Some (Inr m1)" "core {} m1 S" "ring_ok {} m1"
      "kept (tried m) m1" "max_fds m1 < max_fds (tried m)" "fdata (files m1) = fdata (files (tried m))"
      "\<forall>q. Some q \<notin> set (ring (tried m)) \<longrightarrow> st m1 q = st (tried m) q" by blast
    have "Some p \<notin> set (ring m)" using ring_entry [OF less.prems(2), of p] less.prems(3-5) by auto
    then have p: "st m1 p = Some n" using m1(7) t(3,4) less.prems(3) by simp
    have k: "kept m m1" by (rule kept_trans [OF t(5) m1(4)])
    have "nat (max_fds m1) < nat (max_fds m)" using m1(5) t(7) less.prems(2) by (simp add: ring_ok_def)
    from less.hyps [OF this m1(2,3) p less.prems(4,5)] obtain m' h where m':
      "open_loop m1 (Some p) (flow_filename (flow n)) = Some (Inr m')" "core {p} m' S" "ring_ok {p} m'" "kept m1 m'"
      "st m' p = Some (n\<lparr>fp := Some h\<rparr>)"
      "fdata (files m') (path (flow n)) = (if IS_SET (flags n) FLOW_FILE_EXISTS then fdata (files m1) (path (flow n)) else Some [])"
      using less.prems(6) can_open_kept [OF k] by auto
    have "open_loop m (Some p) (flow_filename (flow n)) = Some (Inr m')"
      using True at m1(1) m'(1) by (subst open_loop.simps) simp
    then show ?thesis using m' m1(6) t(6) kept_trans [OF k m'(4)] by auto
  qed
qed

end
