(* ===== verification/Flow_Store.thy ===== *)
theory Flow_Store
  imports Flow_Slots
begin

text \<open>Taking a place in the ring, and \<^const>\<open>open_file\<close> as a whole.\<close>

lemma ring_place:
  assumes "distinct (filter (\<lambda>e. e \<noteq> None) xs)" "i < length xs" "Some p \<notin> set xs"
  shows "distinct (filter (\<lambda>e. e \<noteq> None) (xs[i := Some p]))"
    "Some b \<in> set (xs[i := Some p]) \<longleftrightarrow> b = p \<or> Some b \<in> set xs \<and> xs ! i \<noteq> Some b"
proof -
  obtain ys e zs where xs: "xs = ys @ e # zs" "length ys = i" using id_take_nth_drop [OF assms(2)] assms(2) by (metis length_take min.absorb4)
  have u: "xs[i := Some p] = ys @ Some p # zs" using xs by (simp add: list_update_append)
  show "distinct (filter (\<lambda>e. e \<noteq> None) (xs[i := Some p]))"
    using assms(1,3) xs unfolding u by (auto split: if_splits)
  have d: "Some b \<notin> set ys \<union> set zs" if "e = Some b" using assms(1) that xs(1) by auto
  have "xs ! i = e" using xs by (simp add: nth_append)
  then show "Some b \<in> set (xs[i := Some p]) \<longleftrightarrow> b = p \<or> Some b \<in> set xs \<and> xs ! i \<noteq> Some b"
    unfolding u using d xs(1) by auto
qed

definition place :: "flow_mem \<Rightarrow> nat \<Rightarrow> flow_mem" where
  "place m p = m\<lparr>fd_ring := (fd_ring m)[nat (next_slot m) := Some p]\<rparr>"

definition evicted :: "flow_mem \<Rightarrow> flow_mem" where
  "evicted m = (case fd_ring m ! nat (next_slot m) of None \<Rightarrow> m | Some a \<Rightarrow> closed m a (the (st m a)))"

lemma evict_ok:
  assumes "core {p} m S" "ring_ok {p} m" "0 \<le> next_slot m" "st m p = Some n" "fp n \<noteq> None"
  shows "core {p} (place (evicted m) p) S" "ring_ok {} (place (evicted m) p)" "kept m (place (evicted m) p)"
    "st (place (evicted m) p) p = st m p" "fdata (files (place (evicted m) p)) = fdata (files m)"
proof -
  define i where "i = nat (next_slot m)"
  have i: "i < length (ring m)" "i < length (fd_ring m)"
    using assms(2,3) length_ring [OF assms(2)] by (auto simp: ring_ok_def i_def nat_less_iff)
  have ei: "fd_ring m ! i = ring m ! i" using i(1) by (simp add: ring_def)
  have pn: "Some p \<notin> set (ring m)" using ring_entry [OF assms(2), of p] by auto
  note rp = ring_place [OF _ i(1) pn]
  have ds: "distinct (filter (\<lambda>e. e \<noteq> None) (ring m))" using assms(2) by (simp add: ring_ok_def)
  have ce: "core {p} (evicted m) S \<and> kept m (evicted m) \<and> fdata (files (evicted m)) = fdata (files m) \<and>
      fd_ring (evicted m) = fd_ring m \<and> max_fds (evicted m) = max_fds m \<and> next_slot (evicted m) = next_slot m \<and>
      (\<forall>b. st (evicted m) b = (if ring m ! i = Some b then map_option (\<lambda>k. k\<lparr>fp := None, pos := 0\<rparr>) (st m b) else st m b))"
  proof (cases "ring m ! i")
    case None
    then show ?thesis using assms(1) ei by (simp add: evicted_def i_def kept_refl)
  next
    case (Some a)
    then have a: "Some a \<in> set (ring m)" using i(1) by (metis nth_mem)
    then obtain k where k: "st m a = Some k" using ring_entry [OF assms(2)] by blast
    have so: "state_ok {p} (files m) a k" using assms(1) k by (simp add: core_def files_ok_def)
    have ev: "evicted m = closed m a k" using Some k ei by (simp add: evicted_def i_def)
    show ?thesis using closed_core [OF assms(1) k] st_closed [OF k so] k Some
      unfolding ev by (auto simp: kept_def)
  qed
  then have st: "st (evicted m) b = (if ring m ! i = Some b then map_option (\<lambda>k. k\<lparr>fp := None, pos := 0\<rparr>) (st m b) else st m b)" for b
    by blast
  let ?m = "place (evicted m) p"
  have st': "st ?m = st (evicted m)" by (simp add: place_def)
  have pi: "ring m ! i \<noteq> Some p" using pn i(1) by (metis nth_mem)
  show "core {p} ?m S" using ce core_cong [of "{p}" "evicted m" S ?m] by (simp add: place_def)
  show "kept m ?m" using ce by (simp add: place_def kept_def)
  show "st ?m p = st m p" unfolding st' st using pi by simp
  show "fdata (files ?m) = fdata (files m)" using ce by (simp add: place_def)
  have rg: "ring ?m = (ring m)[i := Some p]" using ce by (simp add: ring_def place_def i_def take_update_swap)
  have f: "max_fds ?m = max_fds m" "next_slot ?m = next_slot m" "length (fd_ring ?m) = length (fd_ring m)"
    using ce by (simp_all add: place_def)
  show "ring_ok {} ?m"
    unfolding ring_ok_def rg f rp(2) [OF ds]
  proof (intro conjI allI impI)
    fix b assume b: "b = p \<or> Some b \<in> set (ring m) \<and> ring m ! i \<noteq> Some b"
    then consider "b = p" | "b \<noteq> p" "Some b \<in> set (ring m)" "ring m ! i \<noteq> Some b" by blast
    then show "\<exists>k. st ?m b = Some k \<and> (fp k \<noteq> None \<or> IS_SET (flags k) FLOW_FINISHED)"
    proof cases
      case 1
      then show ?thesis using assms(4,5) pi by (intro exI [of _ n]) (simp add: st' st)
    next
      case 2
      then show ?thesis using ring_entry [OF assms(2), of b] by (simp add: st' st)
    qed
  next
    fix b k assume k: "st ?m b = Some k" "fp k \<noteq> None"
    then have "ring m ! i \<noteq> Some b" by (auto simp: st' st split: if_splits)
    then have "st m b = Some k" using k(1) by (simp add: st' st)
    then have "b \<in> {p} \<or> Some b \<in> set (ring m)" using assms(2) k(2) unfolding ring_ok_def by blast
    then show "b \<in> {} \<or> b = p \<or> Some b \<in> set (ring m) \<and> ring m ! i \<noteq> Some b" using \<open>ring m ! i \<noteq> Some b\<close> by blast
  next
    show "distinct (filter (\<lambda>e. e \<noteq> None) ((ring m)[i := Some p]))" by (rule rp(1) [OF ds])
  qed (use assms(2) in \<open>simp_all add: ring_ok_def\<close>)
qed

lemma evict_runs:
  assumes "core {p} m S" "ring_ok {p} m" "0 \<le> next_slot m"
  shows "(do { e \<leftarrow> aread (fd_ring m) (next_slot m);
     m \<leftarrow> (if e \<noteq> None then map_option snd (close_file m e) else Some m);
     ring \<leftarrow> awrite (fd_ring m) (next_slot m) (Some p);
     Some (m\<lparr>fd_ring := ring\<rparr>) }) = Some (place (evicted m) p)"
proof -
  define i where "i = nat (next_slot m)"
  have i: "next_slot m = int i" "i < length (ring m)" "i < length (fd_ring m)"
    using assms(2,3) length_ring [OF assms(2)] by (auto simp: ring_ok_def i_def nat_less_iff)
  show ?thesis
  proof (cases "fd_ring m ! i")
    case None
    then show ?thesis using i by (simp add: evicted_def place_def)
  next
    case (Some a)
    then have "Some a \<in> set (ring m)" using i by (metis nth_mem nth_take length_ring assms(2) ring_def)
    then obtain k where k: "st m a = Some k" using ring_entry [OF assms(2)] by blast
    have so: "state_ok {p} (files m) a k" using assms(1) k by (simp add: core_def files_ok_def)
    obtain r where "close_file m (Some a) = Some (r, closed m a k)" using close_spec [OF k so] by blast
    then show ?thesis using i Some k by (simp add: evicted_def place_def)
  qed
qed

lemma sort_next_slot: "sort_fds (m\<lparr>next_slot := k\<rparr>) = map_option (\<lambda>m. m\<lparr>next_slot := k\<rparr>) (sort_fds m)"
  by (cases "qsort (flow_state_compare (states m)) (take (nat (max_fds m)) (fd_ring m))")
    (simp_all add: sort_fds_def guard_def)

lemma claim_slot_spec:
  assumes "core {p} m S" "ring_ok {p} m" "st m p = Some n" "fp n \<noteq> None"
  shows "\<exists>m'. claim_slot m (Some p) = Some m' \<and> core {p} m' S \<and> ring_ok {} m' \<and> kept m m' \<and> st m' p = st m p \<and>
    fdata (files m') = fdata (files m)"
proof -
  let ?m = "m\<lparr>next_slot := next_slot m + 1\<rparr>"
  have c: "cint (next_slot m + 1) = Some (next_slot m + 1)"
    using assms(2) by (simp add: ring_ok_def cint_def int_min_def int_max_def)
  have cm: "core {p} ?m S" by (rule core_cong [OF assms(1)]) simp_all
  have rm: "ring (m\<lparr>next_slot := k\<rparr>) = ring m" for k by (simp add: ring_def)
  show ?thesis
  proof (cases "next_slot m + 1 = max_fds m")
    case False
    have ro: "ring_ok {p} ?m" using assms(2) False unfolding ring_ok_def rm by simp
    have ns: "0 \<le> next_slot ?m" using assms(2) by (simp add: ring_ok_def)
    have p: "st ?m p = Some n" using assms(3) by simp
    have "claim_slot m (Some p) = Some (place (evicted ?m) p)"
      using evict_runs [OF cm ro ns] c False by (simp add: claim_slot_def Let_def)
    then show ?thesis using evict_ok [OF cm ro ns p assms(4)] by (auto simp: kept_def)
  next
    case True
    have ck: "clock_ok m" using assms(1) by (simp add: core_def)
    obtain xs where xs: "sort_fds m = Some (with_ring m xs)" "mset xs = mset (ring m)" using sort_spec [OF ck assms(2)] by blast
    have sm: "sort_fds ?m = Some ((with_ring m xs)\<lparr>next_slot := next_slot m + 1\<rparr>)"
      by (simp add: sort_next_slot xs(1))
    let ?w = "(with_ring m xs)\<lparr>next_slot := 0\<rparr>"
    have cw: "core {p} ?w S" by (rule core_cong [OF assms(1)]) simp_all
    have rw: "ring ?w = ring (with_ring m xs)" by (simp add: ring_def)
    have ro: "ring_ok {p} ?w" using ring_ok_perm [OF assms(2) xs(2)] unfolding ring_ok_def rw by simp
    have p: "st ?w p = Some n" using assms(3) by simp
    have "claim_slot m (Some p) = Some (place (evicted ?w) p)"
      using evict_runs [OF cw ro] c True sm by (simp add: claim_slot_def Let_def)
    then show ?thesis using evict_ok [OF cw ro _ p assms(4)] by (auto simp: kept_def with_ring_def)
  qed
qed

lemma files_ok_shrink:
  assumes "files_ok {p} m" "st m p = Some n" "IS_SET (flags n) FLOW_FILE_EXISTS"
  shows "files_ok {} m"
proof -
  have "state_ok {} (files m) a k" if k: "st m a = Some k" for a k
  proof -
    have "state_ok {p} (files m) a k" using assms(1) k by (simp add: files_ok_def)
    then show ?thesis using assms(2,3) k by (cases "a = p"; cases "fp k") (auto simp: state_ok_def)
  qed
  then show ?thesis using assms(1) unfolding files_ok_def by blast
qed

definition opened_capture :: "capture \<Rightarrow> capture" where
  "opened_capture c = c\<lparr>c_data := Some (captured c)\<rparr>"

theorem open_file_spec:
  assumes "core {} m S" "ring_ok {} m" "st m p = Some n" "fp n = None" "\<not> IS_SET (flags n) FLOW_FINISHED" "can_open m"
    "S (flow n) = Some c"
  shows "\<exists>m' h. open_file m (Some p) = Some (Inr (Some h, m')) \<and> core {} m' (S(flow n \<mapsto> opened_capture c)) \<and> ring_ok {} m' \<and>
    kept m m' \<and> st m' p = Some (n\<lparr>fp := Some h, flags := SET_BIT (flags n) FLOW_FILE_EXISTS, pos := 0\<rparr>)"
proof -
  obtain m1 h where m1: "open_loop m (Some p) (flow_filename (flow n)) = Some (Inr m1)" "core {p} m1 S" "ring_ok {p} m1" "kept m m1"
    "st m1 p = Some (n\<lparr>fp := Some h\<rparr>)"
    "fdata (files m1) (path (flow n)) = (if IS_SET (flags n) FLOW_FILE_EXISTS then fdata (files m) (path (flow n)) else Some [])"
    using open_loop_spec [OF assms(1-6)] by blast
  obtain m2 where m2: "claim_slot m1 (Some p) = Some m2" "core {p} m2 S" "ring_ok {} m2" "kept m1 m2" "st m2 p = st m1 p"
    "fdata (files m2) = fdata (files m1)" using claim_slot_spec [OF m1(2,3,5)] by auto
  let ?n1 = "n\<lparr>fp := Some h\<rparr>"
  let ?n3 = "n\<lparr>fp := Some h, flags := SET_BIT (flags n) FLOW_FILE_EXISTS, pos := 0\<rparr>"
  have p2: "st m2 p = Some ?n1" using m2(5) m1(5) by simp
  have so0: "state_ok {} (files m) p n" using assms(1,3) by (simp add: core_def files_ok_def)
  then have pos: "pos n = 0" using assms(4) by (simp add: state_ok_def)
  have so: "state_ok {p} (files m2) p ?n1" using m2(2) p2 by (simp add: core_def files_ok_def)
  then have hd: "map_of (handles (files m2)) h = Some (path (flow n), 0)" using pos by (simp add: state_ok_def)
  have l: "load (states m) (Some p) = Some n" "load (states m1) (Some p) = Some ?n1" using assms(3) m1(5) by (simp_all add: st_def)
  have s2: "set_state m2 (Some p) g = Some (put m2 p (g ?n1))" for g using set_state_st [OF p2] .
  have l2: "load (states (put m2 p k)) (Some p) = Some k" for k by (simp add: put_def)
  have s3: "set_state (put m2 p k) (Some p) g = Some (put m2 p (g k))" for k g using set_state_st [of "put m2 p k" p k g] by simp
  have run: "open_file m (Some p) = Some (Inr (Some h, put m2 p ?n3))"
    unfolding open_file_def l Let_def using assms(4) m1(1) m2(1) hd
    by (simp add: l(2) [simplified] s2 l2 [simplified] s3 ftell_def)
  have c: "c = capture_of (files m) n" using assms(1,3,7) by (simp add: core_def captures_def)
  have sp: "state_ok {p} (files m2) p ?n3" using so pos by (auto simp: state_ok_def)
  have fo: "files_ok {p} (put m2 p ?n3)"
    by (rule files_ok_upd [of _ m2]) (use m2(2) sp p2 in \<open>auto simp: core_def\<close>)
  have f3: "files_ok {} (put m2 p ?n3)" by (rule files_ok_shrink [OF fo, of ?n3]) simp_all
  have tb: "table_ok (put m2 p ?n3)" by (rule table_put [of m2 p ?n1]) (use m2(2) p2 in \<open>simp_all add: core_def\<close>)
  have ck: "clock_ok (put m2 p ?n3)" by (rule clock_put [of m2 p ?n1]) (use m2(2) p2 in \<open>simp_all add: core_def\<close>)
  have "captures (put m2 p ?n3) (S(flow ?n3 \<mapsto> capture_of (files m2) ?n3))"
  proof (rule captures_upd)
    show "captures m2 S" using m2(2) by (simp add: core_def)
    show "flow k = flow ?n3" if "st m2 p = Some k" for k using that p2 by auto
    show "b = p" if "st m2 b = Some k" "flow k = flow ?n3" for b k
      using table_unique [of m2 b k p ?n1] m2(2) that p2 by (simp add: core_def)
  qed simp_all
  moreover have "fdata (files m) (path (flow n)) \<noteq> None" if "IS_SET (flags n) FLOW_FILE_EXISTS"
    using so0 that by (simp add: state_ok_def)
  then have "capture_of (files m2) ?n3 = opened_capture c"
    using m2(6) m1(6) unfolding c by (auto simp: capture_of_def opened_capture_def captured_def)
  ultimately have "captures (put m2 p ?n3) (S(flow n \<mapsto> opened_capture c))" by simp
  then have "core {} (put m2 p ?n3) (S(flow n \<mapsto> opened_capture c))" using tb ck f3 by (simp add: core_def)
  moreover have "ring_ok {} (put m2 p ?n3)"
  proof (rule ring_ok_upd [OF m2(3), of _ p ?n3])
    have "fp ?n1 \<noteq> None" by simp
    then show "p \<in> {} \<or> Some p \<in> set (ring m2)" using m2(3) p2 unfolding ring_ok_def by blast
  qed simp_all
  moreover have "kept m (put m2 p ?n3)" using kept_trans [OF m1(4) m2(4)] by (simp add: kept_def)
  ultimately show ?thesis using run by (intro exI [of _ "put m2 p ?n3"] exI [of _ h]) simp
qed

text \<open>Writing a segment to its place, and \<^const>\<open>store_packet\<close> as a whole.\<close>

section \<open>The write\<close>

definition no_short :: "flow_mem \<Rightarrow> bool" where
  "no_short m \<longleftrightarrow> (\<forall>k. short (files m) k = None)"

text \<open>A change of the contents of the file of one flow and of its position.\<close>

lemma file_changed:
  assumes "core {} m S" "ring_ok {} m" "st m p = Some n" "fp n = Some h" "n' = n\<lparr>pos := int k\<rparr>"
    "fdata s = (fdata (files m))(path (flow n) \<mapsto> d)" "fresh_file s = fresh_file (files m)" "distinct (map fst (handles s))"
    "map_of (handles s) = (map_of (handles (files m)))(h \<mapsto> (path (flow n), k))"
  shows "core {} ((put m p n')\<lparr>files := s\<rparr>) (S(flow n \<mapsto> capture_of s n'))" "ring_ok {} ((put m p n')\<lparr>files := s\<rparr>)"
proof -
  let ?m = "(put m p n')\<lparr>files := s\<rparr>"
  note C = assms(1) [unfolded core_def]
  have st: "st ?m = (st m)(p \<mapsto> n')" by simp
  have n': "flow n' = flow n" "fp n' = Some h" "flags n' = flags n" "pos n' = int k" using assms(4,5) by simp_all
  have so: "state_ok {} (files m) p n" using C assms(3) by (simp add: files_ok_def)
  have other: "path (flow j) \<noteq> path (flow n)" "fp j \<noteq> Some h" if "st m b = Some j" "b \<noteq> p" for b j
    using table_unique [of m b j p n] handle_unique [of m "{}" b j p n h] C that assms(3,4) by auto
  have tb: "table_ok ?m" using table_put [of m p n n'] C assms(3,5) by simp
  have ck: "clock_ok ?m" using clock_put [of m p n n'] C assms(3,5) by simp
  have sp: "state_ok {} s p n'" using so assms(4,6,9) n' by (auto simp: state_ok_def)
  have "files_ok {} ?m"
    unfolding files_ok_def
  proof (intro conjI allI impI)
    fix g x assume "map_of (handles (files ?m)) g = Some x"
    then have "\<exists>y. map_of (handles (files m)) g = Some y" using assms(4,9) so by (auto simp: state_ok_def split: if_splits)
    then obtain b j where "g < fresh_file (files m)" "st m b = Some j" "fp j = Some g" using C unfolding files_ok_def by blast
    then show "g < fresh_file (files ?m)" "\<exists>b j. st ?m b = Some j \<and> fp j = Some g"
      using assms(3,4,7) n'(2) unfolding st by (simp, cases "b = p") auto
  next
    fix b j assume j: "st ?m b = Some j"
    show "state_ok {} (files ?m) b j"
    proof (cases "b = p")
      case True
      then show ?thesis using j sp by simp
    next
      case False
      then have jb: "st m b = Some j" using j by simp
      then have "state_ok {} (files m) b j" using C by (simp add: files_ok_def)
      then show ?thesis using other [OF jb False] assms(6,9) by (auto simp: state_ok_def split: option.splits)
    qed
  qed (use assms(8) in simp)
  moreover have "captures ?m (S(flow n \<mapsto> capture_of s n'))"
    unfolding captures_def
  proof (intro conjI allI impI)
    fix b j assume j: "st ?m b = Some j"
    show "(S(flow n \<mapsto> capture_of s n')) (flow j) = Some (capture_of (files ?m) j)"
    proof (cases "b = p")
      case True
      then show ?thesis using j n' by simp
    next
      case False
      then have jb: "st m b = Some j" using j by simp
      then have "S (flow j) = Some (capture_of (files m) j)" "flow j \<noteq> flow n" using C other(1) [OF jb False] by (auto simp: captures_def)
      then show ?thesis using assms(6) by (simp add: capture_of_def)
    qed
  next
    fix f c assume "(S(flow n \<mapsto> capture_of s n')) f = Some c"
    then consider "f = flow n" | b j where "f \<noteq> flow n" "st m b = Some j" "flow j = f"
      using C unfolding captures_def by (metis fun_upd_other)
    then show "\<exists>b j. st ?m b = Some j \<and> flow j = f"
    proof cases
      case 1
      then show ?thesis using n' by (intro exI [of _ p] exI [of _ n']) simp
    next
      case 2
      then have "b \<noteq> p" using assms(3) by auto
      then show ?thesis using 2 by (intro exI [of _ b] exI [of _ j]) simp
    qed
  qed
  ultimately show "core {} ?m (S(flow n \<mapsto> capture_of s n'))" using tb ck by (simp add: core_def)
  show "ring_ok {} ?m"
  proof (rule ring_ok_upd [OF assms(2), of _ p n'])
    show "p \<in> {} \<or> Some p \<in> set (ring m)" using assms(2,3,4) unfolding ring_ok_def by auto
  qed (simp_all add: n')
qed

text \<open>A flow that has all its bytes is closed and marked.\<close>

definition finished :: "flow_state \<Rightarrow> flow_state" where
  "finished n = n\<lparr>flags := SET_BIT (flags n) FLOW_FINISHED, fp := None, pos := 0\<rparr>"

lemma finish_ok:
  assumes "core {} m S" "ring_ok {} m" "st m p = Some n" "fp n = Some h" "S (flow n) = Some c"
  shows "core {} (put (closed m p n) p (finished n)) (S(flow n \<mapsto> c\<lparr>c_done := True\<rparr>))"
    "ring_ok {} (put (closed m p n) p (finished n))"
proof -
  let ?n1 = "n\<lparr>fp := None, pos := 0\<rparr>" and ?m = "put (closed m p n) p (finished n)"
  have so: "state_ok {} (files m) p n" using assms(1,3) by (simp add: core_def files_ok_def)
  have st: "st (closed m p n) = (st m)(p \<mapsto> ?n1)" by (rule st_closed [OF assms(3) so])
  have cc: "core {} (closed m p n) S" by (rule closed_core [OF assms(1,3)])
  note C = cc [unfolded core_def]
  have p1: "st (closed m p n) p = Some ?n1" by (simp add: st)
  have fn: "flow (finished n) = flow n" "fnext (finished n) = fnext n" "last_access (finished n) = last_access n" "fp (finished n) = None"
    by (simp_all add: finished_def)
  have tb: "table_ok ?m" by (rule table_put [of _ p ?n1]) (use C p1 in \<open>simp_all add: finished_def\<close>)
  have ck: "clock_ok ?m" by (rule clock_put [of _ p ?n1]) (use C p1 in \<open>simp_all add: finished_def\<close>)
  have sp: "state_ok {} (files (closed m p n)) p (finished n)"
  proof -
    have "state_ok {} (files (closed m p n)) p ?n1" using C p1 unfolding files_ok_def by blast
    then show ?thesis by (simp add: state_ok_def finished_def)
  qed
  have fo: "files_ok {} ?m"
  proof (rule files_ok_upd [of "{}" "closed m p n" _ p "finished n"])
    show "fp (finished n) = Some g" if "st (closed m p n) p = Some j" "fp j = Some g" for j g using that p1 by auto
  qed (use C sp in simp_all)
  have "captures ?m (S(flow (finished n) \<mapsto> capture_of (files (closed m p n)) (finished n)))"
  proof (rule captures_upd [of "closed m p n" S _ p "finished n"])
    show "b = p" if "st (closed m p n) b = Some k" "flow k = flow (finished n)" for b k
      using table_unique [of "closed m p n" b k p ?n1] C that p1 by (simp add: fn)
  qed (use C p1 in \<open>simp_all add: fn\<close>)
  moreover have "c = capture_of (files m) n" using assms(1,3,5) by (simp add: core_def captures_def)
  then have "capture_of (files (closed m p n)) (finished n) = c\<lparr>c_done := True\<rparr>"
    by (simp add: capture_of_def finished_def)
  ultimately show "core {} ?m (S(flow n \<mapsto> c\<lparr>c_done := True\<rparr>))" using tb ck fo by (simp add: core_def fn)
  have r: "ring ?m = ring m" by (simp add: ring_def)
  have fl: "IS_SET (flags (finished n)) FLOW_FINISHED" by (simp add: finished_def)
  show "ring_ok {} ?m"
    by (rule ring_ok_upd [OF assms(2), of _ p "finished n"]) (simp_all add: st fn fl)
qed

lemma seek_fields:
  assumes "map_of (handles s) h = Some (nm, at)"
  shows "fseek s h (int k) = Some (s\<lparr>handles := AList.update h (nm, k) (handles s)\<rparr>)"
  using assms by (simp add: fseek_def)

text \<open>\<^const>\<open>store_at\<close> with enough captured data and no wrap-around of the offset.\<close>

theorem store_at_spec:
  assumes "core {} m S" "ring_ok {} m" "st m p = Some n" "fp n = Some h" "S (flow n) = Some c" "no_short m"
    "unat off + unat len < 2 ^ 32" "unat len \<le> length data" "bpf = 0 \<or> off \<le> bpf"
    "full \<longleftrightarrow> bpf \<noteq> 0 \<and> off + len > bpf" "k = (if full then bpf - off else len)"
  shows "\<exists>m'. store_at m (Some p) bpf data len off = Some m' \<and>
    core {} m' (S(flow n \<mapsto> \<lparr>c_isn = c_isn c, c_done = full, c_data = Some (put_at (unat off) (take (unat k) data) (captured c))\<rparr>)) \<and>
    ring_ok {} m' \<and> kept m m'"
proof -
  have so: "state_ok {} (files m) p n" using assms(1,3) by (simp add: core_def files_ok_def)
  then obtain d where hd: "map_of (handles (files m)) h = Some (path (flow n), nat (pos n))" "0 \<le> pos n"
    "fdata (files m) (path (flow n)) = Some d" "IS_SET (flags n) FLOW_FILE_EXISTS" "\<not> IS_SET (flags n) FLOW_FINISHED"
    using assms(4) by (auto simp: state_ok_def)
  have c: "c = capture_of (files m) n" using assms(1,3,5) by (simp add: core_def captures_def)
  have dc: "captured c = d" using hd by (simp add: c captured_def capture_of_def)
  have kl: "unat k \<le> unat len"
  proof (cases full)
    case True
    then have "off \<le> bpf" "bpf < off + len" using assms(9,10) by auto
    then have "unat (bpf - off) = unat bpf - unat off" "unat bpf < unat off + unat len"
      using assms(7) by (simp_all add: unat_sub word_less_nat_alt unat_word_ariths)
    then show ?thesis using assms(11) True by simp
  qed (use assms(11) in simp)
  have ok: "unat (off + k) = unat off + unat k" using kl assms(7) by (simp add: unat_word_ariths)
  have uo: "uint (off + k) = uint off + uint k" using ok by (metis of_nat_add uint_nat)
  define w where "w = take (unat k) data"
  have lw: "length w = unat k" using kl assms(8) by (simp add: w_def)
  define hs where "hs = (if int (unat off) \<noteq> pos n then AList.update h (path (flow n), unat off) (handles (files m)) else handles (files m))"
  have dh: "distinct (map fst (handles (files m)))" using assms(1) by (simp add: core_def files_ok_def)
  have "nat (pos n) = unat off" if "int (unat off) = pos n" using that [symmetric] by (simp only: nat_int)
  then have hs: "map_of hs h = Some (path (flow n), unat off)" "distinct (map fst hs)"
    using hd(1) dh by (cases "int (unat off) = pos n"; simp add: hs_def update_conv distinct_update)+
  define s where "s = (files m)\<lparr>fdata := (fdata (files m))(path (flow n) \<mapsto> put_at (unat off) w d),
    handles := AList.update h (path (flow n), unat off + length w) hs, writes := Suc (writes (files m))\<rparr>"
  have fw: "\<exists>r. fwrite ((files m)\<lparr>handles := hs\<rparr>) h w = Some (r, s)"
    using hs(1) hd(3) assms(6) by (simp add: fwrite_def no_short_def s_def)
  define n' where "n' = n\<lparr>pos := int (unat off + unat k)\<rparr>"
  have hm: "map_of (handles s) = (map_of (handles (files m)))(h \<mapsto> (path (flow n), unat off + unat k))"
    by (auto simp: s_def hs_def update_conv lw fun_eq_iff)
  have ds: "distinct (map fst (handles s))" using hs(2) by (simp add: s_def distinct_update)
  note fc = file_changed [OF assms(1-4) n'_def _ _ ds hm, of "put_at (unat off) w d"]
  have fc1: "core {} ((put m p n')\<lparr>files := s\<rparr>) (S(flow n \<mapsto> capture_of s n'))" "ring_ok {} ((put m p n')\<lparr>files := s\<rparr>)"
    by (rule fc; simp add: s_def)+
  have cap: "capture_of s n' = \<lparr>c_isn = c_isn c, c_done = False, c_data = Some (put_at (unat off) w d)\<rparr>"
    using hd(4,5) by (simp add: capture_of_def n'_def s_def c)
  obtain r where fw': "fwrite ((files m)\<lparr>handles := hs\<rparr>) h w = Some (r, s)" using fw by blast
  have sk1: "uint off = pos n \<Longrightarrow> fwrite (files m) h w = Some (r, s)" using fw' by (simp add: hs_def)
  have sk2: "uint off \<noteq> pos n \<Longrightarrow> fseek (files m) h (uint off) = Some ((files m)\<lparr>handles := hs\<rparr>)"
    using seek_fields [OF hd(1), of "unat off"] by (simp add: hs_def)
  have ld: "load (states m) (Some p) = Some n" using assms(3) by (simp add: st_def)
  have g: "unat k \<le> length data" using kl assms(8) by simp
  have ss: "set_state (m\<lparr>files := t\<rparr>) (Some p) f = Some ((put m p (f n))\<lparr>files := t\<rparr>)" for t f
    using set_state_st [of "m\<lparr>files := t\<rparr>" p n f] assms(3) by simp
  show ?thesis
  proof (cases full)
    case False
    have k: "k = len" using assms(11) False by simp
    then have tw: "take (unat len) data = w" "unat len \<le> length data" "uint (off + len) = uint off + uint k"
      using g uo by (simp_all add: w_def)
    have "store_at m (Some p) bpf data len off = Some ((put m p n')\<lparr>files := s\<rparr>)"
      unfolding store_at_def ld assms(10) [symmetric]
      using False assms(4) fw' tw hd(5)
      by (cases "uint off = pos n"; simp add: sk1 sk2 ss n'_def put_def)
    then show ?thesis using fc1 cap False by (auto simp: dc w_def kept_def s_def)
  next
    case True
    let ?nf = "n\<lparr>flags := SET_BIT (flags n) FLOW_FINISHED\<rparr>"
    let ?m1 = "(put m p n')\<lparr>files := s\<rparr>"
    have sf: "set_state m (Some p) f = Some (put m p (f n))" for f using set_state_st [OF assms(3)] .
    have sg: "set_state ((put m p j)\<lparr>files := t\<rparr>) (Some p) f = Some ((put m p (f j))\<lparr>files := t\<rparr>)" for t f j
      using set_state_st [of "(put m p j)\<lparr>files := t\<rparr>" p j f] by simp
    have pc: "cells (states (put m p j)) p = Some j" for j by (simp add: put_def)
    have hh: "map_of (handles s) h = Some (path (flow n), unat off + unat k)" using hm by simp
    have k: "k = bpf - off" using assms(11) True by simp
    have "store_at m (Some p) bpf data len off = Some (put (closed ?m1 p n') p (finished n'))"
      unfolding store_at_def ld assms(10) [symmetric]
      using True assms(4) fw' g uo hh
      by (cases "uint off = pos n"; simp add: sk1 sk2 k [symmetric] w_def [symmetric] sf sg pc close_file_def fclose_def closed_def finished_def n'_def)
    moreover have "st ?m1 p = Some n'" "fp n' = Some h" "flow n' = flow n" using assms(4) by (simp_all add: n'_def)
    note fi = finish_ok [OF fc1 this(1,2), unfolded this(3), of "capture_of s n'"]
    have "kept m (put (closed ?m1 p n') p (finished n'))" by (simp add: kept_def s_def)
    ultimately show ?thesis using fi cap True by (auto simp: dc w_def)
  qed
qed

end
