(* ===== verification/Flow_Stream.thy ===== *)
theory Flow_Stream
  imports Flow_Store
begin

text \<open>\<^const>\<open>store_packet\<close> implements \<^const>\<open>spec_store\<close>, for one packet and for sequences.\<close>

definition same_world :: "flow_mem \<Rightarrow> flow_mem \<Rightarrow> bool" where
  "same_world m m' \<longleftrightarrow> env (states m') = env (states m) \<and> room (files m') = room (files m) \<and>
     denied (files m') = denied (files m) \<and> short (files m') = short (files m) \<and> max_fds m' \<le> max_fds m"

text \<open>The machine behaves: memory is granted, two files or more can be open, no write fails.\<close>

definition machine_ok :: "flow_mem \<Rightarrow> bool" where
  "machine_ok m \<longleftrightarrow> (\<forall>a. env (states m) a \<noteq> None) \<and> can_open m \<and> no_short m"

lemma machine_same: "same_world m m' \<Longrightarrow> machine_ok m' = machine_ok m"
  by (simp add: same_world_def machine_ok_def can_open_def no_short_def)

lemma same_kept: "kept m m' \<Longrightarrow> same_world m m'"
  by (simp add: kept_def same_world_def)

lemma same_trans: "same_world m m' \<Longrightarrow> same_world m' m'' \<Longrightarrow> same_world m m''"
  by (simp add: same_world_def)

definition known :: "(flow_t \<rightharpoonup> capture) \<Rightarrow> flow_t \<Rightarrow> u32 \<Rightarrow> capture" where
  "known S f seq = (case S f of None \<Rightarrow> new_capture seq | Some c \<Rightarrow> c)"

lemma lookup_or_create:
  assumes "inv {} m" "captures m S" "machine_ok m" "current_time m < int_max"
  obtains q m0 p m1 n where "find_flow_state m f = Some (q, m0)"
    "(if q = None then create_flow_state m0 f seq else Some (Inr (q, m0))) = Some (Inr (Some p, m1))"
    "inv {} m1" "captures m1 (S(f \<mapsto> known S f seq))" "st m1 p = Some n" "flow n = f" "same_world m m1"
    "current_time m1 = current_time m + 1"
proof (cases "\<exists>a k. st m a = Some k \<and> flow k = f")
  case True
  then obtain a k where k: "st m a = Some k" "flow k = f" by blast
  note I = assms(1) [unfolded inv_def]
  have "find_flow_state m f = Some (Some a, touch m a k)" using find_known [of m a k] I assms(4) k by simp
  moreover have "S f = Some (capture_of (files m) k)" using assms(2) k by (auto simp: captures_def)
  then have "S(f \<mapsto> known S f seq) = S" by (auto simp: known_def fun_upd_idem)
  ultimately show thesis
    using that [of "Some a" "touch m a k" a "touch m a k" "k\<lparr>last_access := current_time m\<rparr>"] touch_ok [OF assms(1,4) k(1) assms(2)] k(2)
    by (simp add: same_world_def touch_def)
next
  case False
  then have no: "\<forall>a k. st m a = Some k \<longrightarrow> flow k \<noteq> f" by blast
  note I = assms(1) [unfolded inv_def]
  obtain n0 where n0: "env (states m) (brk (states m)) = Some n0" using assms(3) unfolding machine_ok_def by blast
  have "S f = None"
  proof (rule ccontr)
    assume "S f \<noteq> None"
    then obtain c where "S f = Some c" by blast
    then show False using assms(2) no unfolding captures_def by blast
  qed
  then have kn: "known S f seq = new_capture seq" by (simp add: known_def)
  have "find_flow_state m f = Some (None, m)" using find_unknown [of m f] I assms(4) no by blast
  moreover have "create_flow_state m f seq = Some (Inr (Some (brk (states m)), with_flow m f seq))"
    using create_spec [of m n0 f seq] I assms(4) n0 by blast
  ultimately show thesis
    using that [of None m "brk (states m)" "with_flow m f seq" "new_state m f seq"] with_flow_ok [OF assms(1,4) no assms(2), of seq] kn
    by (simp add: same_world_def new_state_def)
qed

text \<open>The part of \<^const>\<open>store_packet\<close> after the flow has been found.\<close>

definition store_found :: "u32 \<Rightarrow> flow_mem \<Rightarrow> nat \<Rightarrow> flow_state \<Rightarrow> byte list \<Rightarrow> u32 \<Rightarrow> u32 \<Rightarrow> (fexit + flow_mem) option" where
  "store_found bpf m p n data len offset = do {
     c \<leftarrow> (if fp n = None then open_file m (Some p) else Some (Inr (fp n, m)));
     (case c of
        Inl e \<Rightarrow> Some (Inl e)
      | Inr (h, m) \<Rightarrow> if h = None then Some (Inr m) else map_option Inr (store_at m (Some p) bpf data len offset))
   }"

lemma store_found_spec:
  assumes "inv {} m" "captures m S" "machine_ok m" "st m p = Some n" "S (flow n) = Some c"
    "\<not> c_done c" "off = seq - c_isn c" "off < 0xffff0000" "bpf = 0 \<or> off \<le> bpf" "unat len \<le> 65535" "unat len \<le> length data"
  shows "\<exists>m'. store_found bpf m p n data len off = Some (Inr m') \<and> inv {} m' \<and>
    captures m' (S(flow n \<mapsto> spec_capture bpf c data len seq)) \<and> kept m m'"
proof -
  have C: "core {} m S" and R: "ring_ok {} m" using inv_core [OF assms(1,2)] assms(1) by (simp_all add: inv_def)
  have c: "c = capture_of (files m) n" using assms(2,4,5) by (simp add: captures_def)
  obtain h m1 n1 c1 where m1: "(if fp n = None then open_file m (Some p) else Some (Inr (fp n, m))) = Some (Inr (Some h, m1))"
    "core {} m1 (S(flow n \<mapsto> c1))" "ring_ok {} m1" "kept m m1" "st m1 p = Some n1" "fp n1 = Some h" "flow n1 = flow n"
    "c_isn c1 = c_isn c" "captured c1 = captured c"
  proof (cases "fp n")
    case (Some h)
    then show thesis using that [of h m c n] C R assms(4,5) by (simp add: kept_refl fun_upd_idem)
  next
    case None
    have "\<not> IS_SET (flags n) FLOW_FINISHED" using assms(6) by (simp add: c capture_of_def)
    from open_file_spec [OF C R assms(4) None this _ assms(5)] assms(3) obtain m' h where
      "open_file m (Some p) = Some (Inr (Some h, m'))" "core {} m' (S(flow n \<mapsto> opened_capture c))" "ring_ok {} m'" "kept m m'"
      "st m' p = Some (n\<lparr>fp := Some h, flags := SET_BIT (flags n) FLOW_FILE_EXISTS, pos := 0\<rparr>)"
      unfolding machine_ok_def by blast
    then show thesis
      using that [of h m' "opened_capture c" "n\<lparr>fp := Some h, flags := SET_BIT (flags n) FLOW_FILE_EXISTS, pos := 0\<rparr>"] None
      by (simp add: opened_capture_def captured_def)
  qed
  define full where "full \<longleftrightarrow> bpf \<noteq> 0 \<and> off + len > bpf"
  define k where "k = (if full then bpf - off else len)"
  have "unat off < 0xffff0000" using assms(8) by (simp add: word_less_nat_alt)
  then have lim: "unat off + unat len < 2 ^ 32" using assms(10) by simp
  have ns: "no_short m1" using assms(3) m1(4) by (simp add: machine_ok_def no_short_def kept_def)
  have S1: "(S(flow n \<mapsto> c1)) (flow n1) = Some c1" by (simp add: m1(7))
  have E: "(S(flow n \<mapsto> c1))(flow n1 \<mapsto> x) = S(flow n \<mapsto> x)" for x by (simp add: m1(7))
  from store_at_spec [OF m1(2,3,5,6) S1 ns lim assms(11,9) full_def k_def] obtain m' where
    m': "store_at m1 (Some p) bpf data len off = Some m'"
    "core {} m' (S(flow n \<mapsto> \<lparr>c_isn = c_isn c, c_done = full, c_data = Some (put_at (unat off) (take (unat k) data) (captured c))\<rparr>))"
    "ring_ok {} m'" "kept m1 m'" unfolding E m1(8,9) by blast
  have "spec_capture bpf c data len seq =
      \<lparr>c_isn = c_isn c, c_done = full, c_data = Some (put_at (unat off) (take (unat k) data) (captured c))\<rparr>"
    using assms(6,8,9) unfolding spec_capture_def Let_def assms(7) [symmetric] by (auto simp: full_def k_def not_le not_less)
  then show ?thesis
    using m' m1(1) kept_trans [OF m1(4) m'(4)] core_inv [OF m'(2,3)] unfolding store_found_def by (auto simp: core_def)
qed

theorem store_packet_spec:
  assumes "inv {} m" "captures m S" "machine_ok m" "current_time m < int_max" "unat len \<le> 65535" "unat len \<le> length data"
  shows "\<exists>m'. store_packet bpf m f data len seq = Some (Inr m') \<and> inv {} m' \<and>
    captures m' (spec_store bpf S f data len seq) \<and> same_world m m' \<and> current_time m' = current_time m + 1"
proof -
  obtain q m0 p m1 n where m1: "find_flow_state m f = Some (q, m0)"
    "(if q = None then create_flow_state m0 f seq else Some (Inr (q, m0))) = Some (Inr (Some p, m1))"
    "inv {} m1" "captures m1 (S(f \<mapsto> known S f seq))" "st m1 p = Some n" "flow n = f" "same_world m m1"
    "current_time m1 = current_time m + 1"
    using lookup_or_create [OF assms(1-4)] by blast
  let ?S = "S(f \<mapsto> known S f seq)" and ?c = "known S f seq"
  define off where "off = seq - isn n"
  have "?S (flow n) = Some (capture_of (files m1) n)" using m1(4,5) unfolding captures_def by blast
  then have c: "?c = capture_of (files m1) n" by (simp add: m1(6))
  have isn: "isn n = c_isn ?c" "IS_SET (flags n) FLOW_FINISHED = c_done ?c" by (simp_all add: c capture_of_def)
  have ld: "load (states m1) (Some p) = Some n" using m1(5) by (simp add: st_def)
  have run: "store_packet bpf m f data len seq =
     (if IS_SET (flags n) FLOW_FINISHED then Some (Inr m1)
      else if off \<ge> 0xffff0000 then Some (Inr m1) else if bpf \<noteq> 0 \<and> off > bpf then Some (Inr m1)
      else store_found bpf m1 p n data len off)"
    unfolding store_packet_def m1(1) by (simp add: m1(2) [simplified] ld [simplified] off_def store_found_def Let_def)
  have sp: "spec_store bpf S f data len seq = S(f \<mapsto> spec_capture bpf ?c data len seq)"
    by (simp add: spec_store_def known_def)
  show ?thesis
  proof (cases "c_done ?c \<or> off \<ge> 0xffff0000 \<or> bpf \<noteq> 0 \<and> off > bpf")
    case True
    then have "spec_capture bpf ?c data len seq = ?c" by (auto simp: spec_capture_def off_def isn(1) Let_def)
    moreover have "store_packet bpf m f data len seq = Some (Inr m1)" using True unfolding run isn(2) by auto
    ultimately show ?thesis using m1(3,4,7,8) sp by simp
  next
    case False
    then have "store_packet bpf m f data len seq = store_found bpf m1 p n data len off" unfolding run isn(2) by auto
    moreover obtain m' where "store_found bpf m1 p n data len off = Some (Inr m')" "inv {} m'"
      "captures m' (?S(flow n \<mapsto> spec_capture bpf ?c data len seq))" "kept m1 m'"
    proof -
      have a: "?S (flow n) = Some ?c" "\<not> c_done ?c" "off = seq - c_isn ?c" "off < 0xffff0000" "bpf = 0 \<or> off \<le> bpf" "machine_ok m1"
        using False machine_same [OF m1(7)] assms(3) by (auto simp: m1(6) off_def isn(1))
      from store_found_spec [OF m1(3,4) a(6) m1(5) a(1-5) assms(5,6)] show thesis using that by blast
    qed
    moreover from this(4) have "current_time m' = current_time m + 1" using m1(8) by (simp add: kept_def)
    ultimately show ?thesis using same_trans [OF m1(7) same_kept] sp m1(6) by auto
  qed
qed

section \<open>Sequences of packets\<close>

type_synonym packet = "flow_t \<times> byte list \<times> u32 \<times> u32"

fun store_packets :: "u32 \<Rightarrow> flow_mem \<Rightarrow> packet list \<Rightarrow> (fexit + flow_mem) option" where
  "store_packets bpf m [] = Some (Inr m)"
| "store_packets bpf m ((f, data, len, seq) # ps) = do {
     c \<leftarrow> store_packet bpf m f data len seq;
     (case c of Inl e \<Rightarrow> Some (Inl e) | Inr m \<Rightarrow> store_packets bpf m ps)
   }"

fun spec_stores :: "u32 \<Rightarrow> (flow_t \<rightharpoonup> capture) \<Rightarrow> packet list \<Rightarrow> flow_t \<rightharpoonup> capture" where
  "spec_stores bpf S [] = S"
| "spec_stores bpf S ((f, data, len, seq) # ps) = spec_stores bpf (spec_store bpf S f data len seq) ps"

text \<open>A segment of an IP datagram: at most 65535 bytes, all of them captured.\<close>

fun packet_ok :: "packet \<Rightarrow> bool" where
  "packet_ok (f, data, len, seq) \<longleftrightarrow> unat len \<le> 65535 \<and> unat len \<le> length data"

lemma store_packets_spec:
  "inv {} m \<Longrightarrow> captures m S \<Longrightarrow> machine_ok m \<Longrightarrow> current_time m + int (length ps) \<le> int_max \<Longrightarrow> \<forall>x\<in>set ps. packet_ok x \<Longrightarrow>
   \<exists>m'. store_packets bpf m ps = Some (Inr m') \<and> inv {} m' \<and> captures m' (spec_stores bpf S ps) \<and> same_world m m'"
proof (induction ps arbitrary: m S)
  case Nil
  then show ?case by (simp add: same_world_def)
next
  case (Cons x ps)
  obtain f data len seq where x: "x = (f, data, len, seq)" by (cases x)
  have t: "current_time m < int_max" using Cons.prems(4) by simp
  have p: "unat len \<le> 65535" "unat len \<le> length data" using Cons.prems(5) x by simp_all
  from store_packet_spec [OF Cons.prems(1-3) t p] obtain m1 where m1: "store_packet bpf m f data len seq = Some (Inr m1)" "inv {} m1"
    "captures m1 (spec_store bpf S f data len seq)" "same_world m m1" "current_time m1 = current_time m + 1" by blast
  have a: "machine_ok m1" "current_time m1 + int (length ps) \<le> int_max" "\<forall>x\<in>set ps. packet_ok x"
    using machine_same [OF m1(4)] Cons.prems(3-5) m1(5) by simp_all
  from Cons.IH [OF m1(2,3) a] obtain m' where "store_packets bpf m1 ps = Some (Inr m')" "inv {} m'"
    "captures m' (spec_stores bpf (spec_store bpf S f data len seq) ps)" "same_world m1 m'" by blast
  then show ?case using m1(1,4) same_trans by (auto simp: x)
qed

text \<open>The program at its start: no flow, no file open.\<close>

definition tcpflow_start :: "flow_mem \<Rightarrow> int \<Rightarrow> flow_mem" where
  "tcpflow_start m nfds = init_flow_state (m\<lparr>states := (states m)\<lparr>cells := Map.empty\<rparr>, files := (files m)\<lparr>handles := []\<rparr>\<rparr>) nfds"

lemma start_ok:
  assumes "6 \<le> nfds" "nfds \<le> int_max"
  shows "inv {} (tcpflow_start m nfds)" "captures (tcpflow_start m nfds) Map.empty" "current_time (tcpflow_start m nfds) = 0"
    "machine_ok (tcpflow_start m nfds) = machine_ok m" "max_fds (tcpflow_start m nfds) = nfds - 5"
proof -
  let ?m = "tcpflow_start m nfds"
  have st: "st ?m = Map.empty" by (simp add: tcpflow_start_def init_flow_state_def st_def Let_def)
  have f: "current_time ?m = 0" "handles (files ?m) = []" "max_fds ?m = nfds - 5" "next_slot ?m = - 1"
    "flow_hash ?m = replicate HASH_SIZE None" "fd_ring ?m = replicate (nat (nfds - 5)) None"
    by (simp_all add: tcpflow_start_def init_flow_state_def Let_def NUM_RESERVED_FDS_def)
  have bu: "bucket ?m i = {}" for i by (simp add: bucket_def st)
  have "\<exists>as. lchain fnext (st ?m) (flow_hash ?m ! i) as \<and> set as = bucket ?m i" if "i < HASH_SIZE" for i
    using that by (intro exI [of _ "[]"]) (simp add: f bu)
  then have "table_ok ?m" unfolding table_ok_def by (simp add: f st)
  moreover have "clock_ok ?m" by (simp add: clock_ok_def st f int_max_def)
  moreover have "files_ok {} ?m" by (simp add: files_ok_def st f)
  moreover have "ring_ok {} ?m" using assms by (simp add: ring_ok_def st f ring_def)
  ultimately show "inv {} ?m" by (simp add: inv_def)
  show "captures ?m Map.empty" by (simp add: captures_def st)
  show "machine_ok ?m = machine_ok m"
    by (simp add: machine_ok_def can_open_def no_short_def tcpflow_start_def init_flow_state_def Let_def)
qed (simp_all add: tcpflow_start_def init_flow_state_def Let_def NUM_RESERVED_FDS_def)

text \<open>What has been captured is in the files.\<close>

lemma captures_file:
  assumes "captures m S" "S f = Some c" "c_data c = Some d"
  shows "fdata (files m) (path f) = Some d"
proof -
  obtain a n where "st m a = Some n" "flow n = f" using assms(1,2) unfolding captures_def by blast
  moreover from this have "c = capture_of (files m) n" using assms(1,2) unfolding captures_def by auto
  ultimately show ?thesis using assms(3) by (auto simp: capture_of_def split: if_splits)
qed

text \<open>
  What the map of captures says about one TCP stream: its segments, in whatever order they come
  and with sequence numbers that wrap around, are put together to the stream.
\<close>

section \<open>Writing into a file\<close>

lemma length_put_at: "d \<noteq> [] \<Longrightarrow> length (put_at k d c) = max (length c) (k + length d)"
  by (auto simp: put_at_def max_def)

lemma nth_put_at:
  assumes "d \<noteq> []" "i < max (length c) (k + length d)"
  shows "put_at k d c ! i = (if k \<le> i \<and> i < k + length d then d ! (i - k) else if i < length c then c ! i else 0)"
  using assms by (auto simp: put_at_def nth_append nth_replicate min_def less_diff_conv2)

definition good :: "byte list \<Rightarrow> nat set \<Rightarrow> byte list \<Rightarrow> bool" where
  "good bs cov d \<longleftrightarrow> length d \<le> length bs \<and> (\<forall>i\<in>cov. i < length d \<and> d ! i = bs ! i)"

lemma put_good:
  assumes "good bs cov d" "k + length w \<le> length bs" "w = take (length w) (drop k bs)"
  shows "good bs (cov \<union> {k..<k + length w}) (put_at k w d)"
proof (cases "w = []")
  case True
  then show ?thesis using assms(1) by (simp add: put_at_def)
next
  case False
  have wi: "w ! j = bs ! (k + j)" if "j < length w" for j
    using assms(2,3) that by (metis add_leD1 nth_drop nth_take)
  have "put_at k w d ! i = bs ! i \<and> i < length (put_at k w d)" if "i \<in> cov \<union> {k..<k + length w}" for i
  proof (cases "k \<le> i \<and> i < k + length w")
    case True
    then show ?thesis using wi [of "i - k"] nth_put_at [OF False, of i d k] length_put_at [OF False, of k d] by auto
  next
    case nk: False
    then have "i < length d" "d ! i = bs ! i" using assms(1) that by (auto simp: good_def)
    then show ?thesis using nk nth_put_at [OF False, of i d k] length_put_at [OF False, of k d] by auto
  qed
  moreover have "length (put_at k w d) \<le> length bs" using assms(1,2) length_put_at [OF False] by (simp add: good_def)
  ultimately show ?thesis by (auto simp: good_def)
qed

lemma good_all: "good bs {..<length bs} d \<Longrightarrow> d = bs"
  by (rule nth_equalityI) (auto simp: good_def le_antisym dest: spec [of _ "length d"] intro: ccontr)

section \<open>Segments of a stream\<close>

text \<open>The bytes of the stream that a packet carries, and that it carries them.\<close>

fun covers :: "u32 \<Rightarrow> packet \<Rightarrow> nat set" where
  "covers s (f, data, len, seq) = {unat (seq - s)..<unat (seq - s) + unat len}"

fun part_of :: "u32 \<Rightarrow> byte list \<Rightarrow> packet \<Rightarrow> bool" where
  "part_of s bs (f, data, len, seq) \<longleftrightarrow> unat (seq - s) + unat len \<le> length bs \<and>
     take (unat len) data = take (unat len) (drop (unat (seq - s)) bs)"

lemma spec_other: "\<forall>x\<in>set ps. fst x \<noteq> f \<Longrightarrow> spec_stores bpf S ps f = S f"
proof (induction ps arbitrary: S)
  case (Cons x ps)
  obtain g data len seq where x: "x = (g, data, len, seq)" by (cases x)
  then have "f \<noteq> g" using Cons.prems by auto
  then show ?case using Cons x by (simp add: spec_store_def)
qed simp

lemma spec_append: "spec_stores bpf S (ps @ qs) = spec_stores bpf (spec_stores bpf S ps) qs"
  by (induction ps arbitrary: S) auto

definition building :: "u32 \<Rightarrow> byte list \<Rightarrow> nat set \<Rightarrow> capture \<Rightarrow> bool" where
  "building s bs cov c \<longleftrightarrow> c_isn c = s \<and> \<not> c_done c \<and> good bs cov (captured c)"

lemma capture_step:
  assumes "building s bs cov c" "part_of s bs (f, data, len, seq)" "packet_ok (f, data, len, seq)" "length bs \<le> 0xffff0000"
  shows "building s bs (cov \<union> covers s (f, data, len, seq)) (spec_capture 0 c data len seq)"
    "c_data c \<noteq> None \<or> unat (seq - s) < 0xffff0000 \<Longrightarrow> c_data (spec_capture 0 c data len seq) \<noteq> None"
proof -
  have s: "c_isn c = s" "\<not> c_done c" "good bs cov (captured c)" using assms(1) by (simp_all add: building_def)
  have big: "(0xffff0000 \<le> w) = (0xffff0000 \<le> unat w)" for w :: u32 by (simp add: word_le_nat_alt)
  have "building s bs (cov \<union> covers s (f, data, len, seq)) (spec_capture 0 c data len seq) \<and>
    (c_data c \<noteq> None \<or> unat (seq - s) < 0xffff0000 \<longrightarrow> c_data (spec_capture 0 c data len seq) \<noteq> None)"
  proof (cases "seq - s \<ge> 0xffff0000")
    case True
    then have "covers s (f, data, len, seq) = {}" using assms(2,4) by (simp add: big)
    then show ?thesis using True s assms(1) by (auto simp: spec_capture_def big)
  next
    case False
    let ?w = "take (unat len) data"
    have lw: "length ?w = unat len" using assms(3) by simp
    have "good bs (cov \<union> {unat (seq - s)..<unat (seq - s) + length ?w}) (put_at (unat (seq - s)) ?w (captured c))"
      by (rule put_good [OF s(3)]) (use assms(2) lw in simp_all)
    then show ?thesis using False s lw by (simp add: spec_capture_def building_def captured_def)
  qed
  then show "building s bs (cov \<union> covers s (f, data, len, seq)) (spec_capture 0 c data len seq)"
    "c_data c \<noteq> None \<or> unat (seq - s) < 0xffff0000 \<Longrightarrow> c_data (spec_capture 0 c data len seq) \<noteq> None" by blast+
qed

lemma spec_stream:
  "S f = Some c \<Longrightarrow> building s bs cov c \<Longrightarrow> c_data c \<noteq> None \<Longrightarrow> \<forall>x\<in>set ps. packet_ok x \<and> (fst x = f \<longrightarrow> part_of s bs x) \<Longrightarrow>
   length bs \<le> 0xffff0000 \<Longrightarrow>
   \<exists>c'. spec_stores 0 S ps f = Some c' \<and> c_data c' \<noteq> None \<and> building s bs (cov \<union> \<Union> (covers s ` {x \<in> set ps. fst x = f})) c'"
proof (induction ps arbitrary: S c cov)
  case Nil
  then show ?case by simp
next
  case (Cons x ps)
  obtain g data len seq where x: "x = (g, data, len, seq)" by (cases x)
  show ?case
  proof (cases "g = f")
    case False
    then have "spec_store 0 S g data len seq f = Some c" using Cons.prems(1) by (simp add: spec_store_def)
    moreover have "{y \<in> set (x # ps). fst y = f} = {y \<in> set ps. fst y = f}" using False x by auto
    ultimately show ?thesis using Cons.IH [of "spec_store 0 S g data len seq" c cov] Cons.prems x by simp
  next
    case True
    let ?c = "spec_capture 0 c data len seq"
    have p: "packet_ok (f, data, len, seq)" "part_of s bs (f, data, len, seq)" using Cons.prems(4) x True by auto
    have S: "spec_store 0 S g data len seq f = Some ?c" using Cons.prems(1) True by (simp add: spec_store_def)
    note st = capture_step [OF Cons.prems(2) p(2,1) Cons.prems(5)]
    have d: "c_data ?c \<noteq> None" using st(2) Cons.prems(3) by blast
    have "{y \<in> set (x # ps). fst y = f} = insert x {y \<in> set ps. fst y = f}" using True x by auto
    then have U: "cov \<union> \<Union> (covers s ` {y \<in> set (x # ps). fst y = f}) =
        cov \<union> covers s (f, data, len, seq) \<union> \<Union> (covers s ` {y \<in> set ps. fst y = f})"
      using x True by (simp only: image_insert Union_insert Un_assoc)
    have "\<forall>y\<in>set ps. packet_ok y \<and> (fst y = f \<longrightarrow> part_of s bs y)" using Cons.prems(4) by simp
    with Cons.IH [of "spec_store 0 S g data len seq" ?c "cov \<union> covers s (f, data, len, seq)"] S st(1) d Cons.prems(5)
    show ?thesis unfolding U by (simp add: x)
  qed
qed

lemma stream_spec:
  assumes "ps = pre @ (f, data, len, s) # post" "\<forall>x\<in>set pre. fst x \<noteq> f" "\<forall>x\<in>set ps. packet_ok x \<and> (fst x = f \<longrightarrow> part_of s bs x)"
    "length bs \<le> 0xffff0000" "\<forall>i<length bs. \<exists>x\<in>set ps. fst x = f \<and> i \<in> covers s x"
  shows "\<exists>c. spec_stores 0 Map.empty ps f = Some c \<and> c_data c = Some bs"
proof -
  define S0 where "S0 = spec_stores 0 Map.empty pre"
  have "S0 f = None" unfolding S0_def using spec_other [OF assms(2), of 0 Map.empty] by simp
  let ?c = "spec_capture 0 (new_capture s) data len s"
  have S1: "spec_store 0 S0 f data len s f = Some ?c" using \<open>S0 f = None\<close> by (simp add: spec_store_def)
  have b0: "building s bs {} (new_capture s)" by (simp add: building_def new_capture_def good_def captured_def)
  have p: "part_of s bs (f, data, len, s)" "packet_ok (f, data, len, s)" using assms(1,3) by auto
  note st = capture_step [OF b0 p assms(4)]
  have d: "c_data ?c \<noteq> None" using st(2) by simp
  have rest: "\<forall>x\<in>set post. packet_ok x \<and> (fst x = f \<longrightarrow> part_of s bs x)" using assms(1,3) by simp
  from spec_stream [of "spec_store 0 S0 f data len s" f ?c s bs "{} \<union> covers s (f, data, len, s)" post] S1 st(1) d rest assms(4) obtain c where
    c: "spec_stores 0 (spec_store 0 S0 f data len s) post f = Some c" "c_data c \<noteq> None"
      "building s bs ({} \<union> covers s (f, data, len, s) \<union> \<Union> (covers s ` {x \<in> set post. fst x = f})) c" by blast
  have "i \<in> {} \<union> covers s (f, data, len, s) \<union> \<Union> (covers s ` {x \<in> set post. fst x = f})" if i: "i < length bs" for i
  proof -
    obtain x where "x \<in> set ps" "fst x = f" "i \<in> covers s x" using assms(5) i by blast
    then have "x = (f, data, len, s) \<or> x \<in> set post" using assms(1,2) by auto
    then show ?thesis
    proof
      assume "x = (f, data, len, s)"
      then show ?thesis using \<open>i \<in> covers s x\<close> by simp
    next
      assume "x \<in> set post"
      then show ?thesis using \<open>i \<in> covers s x\<close> \<open>fst x = f\<close> by blast
    qed
  qed
  then have "good bs {..<length bs} (captured c)" using c(3) by (auto simp: building_def good_def)
  then have "captured c = bs" by (rule good_all)
  then have "c_data c = Some bs" using c(2) by (auto simp: captured_def)
  moreover have "spec_stores 0 Map.empty ps = spec_stores 0 (spec_store 0 S0 f data len s) post"
    by (simp add: assms(1) spec_append S0_def)
  ultimately show ?thesis using c(1) by simp
qed

section \<open>The limit\<close>

lemma spec_limit:
  assumes "packet_ok (f, data, len, seq)" "bpf \<noteq> 0" "length (captured c) \<le> unat bpf"
  shows "length (captured (spec_capture bpf c data len seq)) \<le> unat bpf"
proof (cases "c_done c \<or> seq - c_isn c \<ge> 0xffff0000 \<or> seq - c_isn c > bpf")
  case True
  then show ?thesis using assms by (auto simp: spec_capture_def Let_def)
next
  case False
  let ?off = "seq - c_isn c"
  define k where "k = (if ?off + len > bpf then bpf - ?off else len)"
  have ob: "unat ?off \<le> unat bpf" "unat ?off < 0xffff0000" using False by (simp_all add: word_le_nat_alt not_less)
  then have o: "unat (?off + len) = unat ?off + unat len" using assms(1) by (simp add: unat_word_ariths)
  have "unat ?off + unat k \<le> unat bpf"
    using ob o by (auto simp: k_def unat_sub word_le_nat_alt word_less_nat_alt)
  moreover have "length (take (unat k) data) \<le> unat k" by simp
  ultimately have "unat ?off + length (take (unat k) data) \<le> unat bpf" by linarith
  moreover have "captured (spec_capture bpf c data len seq) = put_at (unat ?off) (take (unat k) data) (captured c)"
    using False assms(2) by (simp add: spec_capture_def k_def captured_def Let_def)
  ultimately show ?thesis
    using assms(3) length_put_at [of "take (unat k) data" "unat ?off" "captured c"]
    by (cases "take (unat k) data = []") (simp_all add: put_at_def)
qed

lemma spec_stores_limit:
  "\<forall>f c. S f = Some c \<longrightarrow> length (captured c) \<le> unat bpf \<Longrightarrow> \<forall>x\<in>set ps. packet_ok x \<Longrightarrow> bpf \<noteq> 0 \<Longrightarrow>
   spec_stores bpf S ps f = Some c \<Longrightarrow> length (captured c) \<le> unat bpf"
proof (induction ps arbitrary: S)
  case (Cons x ps)
  obtain g data len seq where x: "x = (g, data, len, seq)" by (cases x)
  have p: "packet_ok (g, data, len, seq)" using Cons.prems(2) x by simp
  have "length (captured (case S g of None \<Rightarrow> new_capture seq | Some c \<Rightarrow> c)) \<le> unat bpf"
    using Cons.prems(1) by (cases "S g") (auto simp: new_capture_def captured_def)
  from spec_limit [OF p Cons.prems(3) this]
  have "\<forall>f c. spec_store bpf S g data len seq f = Some c \<longrightarrow> length (captured c) \<le> unat bpf"
    using Cons.prems(1) by (auto simp: spec_store_def)
  then show ?case using Cons.IH [of "spec_store bpf S g data len seq"] Cons.prems(2-4) x by simp
qed simp

end
