(* ===== verification/Flow_Theorems.thy ===== *)
theory Flow_Theorems
  imports Flow_Store Flow_Stream
begin

text \<open>
  When the system has no descriptor left for the program, \<^const>\<open>open_loop\<close> closes one file after
  the other. After the last one the ring has no slot, but \<open>fd_ring[0]\<close> still holds a flow,
  so that the test for an empty ring never holds and the loop does not end.
\<close>

lemma attempt_full:
  assumes "st m p = Some n" "fp n = None" "\<forall>k. room (files m) k = 0"
  shows "attempt_fopen m (Some p) (flow_filename (flow n)) = Some (TooMany, tried m)"
proof -
  have n: "n\<lparr>fp := None\<rparr> = n" using assms(2) by simp
  have u: "set_state (m\<lparr>files := s\<rparr>) (Some p) g = Some ((put m p (g n))\<lparr>files := s\<rparr>)" for s g
    using set_state_st [of "m\<lparr>files := s\<rparr>" p n g] assms(1) by simp
  have ld: "load (states m) (Some p) = Some n" using assms(1) by (simp add: st_def)
  show ?thesis using assms(3) n
    by (simp add: attempt_fopen_def ld [simplified] length_flow_filename fopen_def Let_def u [simplified] put_same [OF assms(1)] tried_def)
qed

text \<open>The states of the loop: files are open, or none is and the ring has no slot.\<close>

definition starving :: "flow_t \<Rightarrow> nat \<Rightarrow> flow_mem \<Rightarrow> bool" where
  "starving f p m \<longleftrightarrow> (\<exists>n. st m p = Some n \<and> fp n = None \<and> flow n = f) \<and> (\<forall>k. room (files m) k = 0) \<and>
     ((\<exists>S b. core {} m S \<and> ring_ok {} m \<and> Some b \<in> set (ring m)) \<or>
      max_fds m = 0 \<and> (\<exists>a n. 0 < length (fd_ring m) \<and> fd_ring m ! 0 = Some a \<and> st m a = Some n \<and> fp n = None))"

lemma contract_none:
  assumes "max_fds m = 0" "0 < length (fd_ring m)" "fd_ring m ! 0 = Some a" "st m a = Some n" "fp n = None"
  shows "contract_fd_ring m = Some (Inr (m\<lparr>next_slot := - 1\<rparr>))"
proof -
  have ld: "load (states m) (Some a) = Some n" using assms(4) by (simp add: st_def)
  have "sort_fds m = Some m" using assms(1) by (simp add: sort_fds_def)
  moreover have "shift_ring (fd_ring m) 0 1 = Some (1, fd_ring m)" by (simp add: shift_ring.simps)
  ultimately show ?thesis using assms
    by (simp add: contract_fd_ring_def aread_def close_file_def ld [simplified])
qed

lemma starving_step:
  assumes "starving f p m"
  obtains m' where "attempt_fopen m (Some p) (flow_filename f) = Some (TooMany, tried m)"
    "contract_fd_ring (tried m) = Some (Inr m')" "starving f p m'"
proof -
  obtain n where n: "st m p = Some n" "fp n = None" "flow n = f" and rm: "\<forall>k. room (files m) k = 0"
    using assms by (auto simp: starving_def)
  have at: "attempt_fopen m (Some p) (flow_filename f) = Some (TooMany, tried m)"
    using attempt_full [OF n(1,2) rm] n(3) by simp
  have stt: "st (tried m) = st m" "fd_ring (tried m) = fd_ring m" "max_fds (tried m) = max_fds m"
    "room (files (tried m)) = room (files m)" by (simp_all add: tried_def)
  from assms consider S b where "core {} m S" "ring_ok {} m" "Some b \<in> set (ring m)"
    | a k where "max_fds m = 0" "0 < length (fd_ring m)" "fd_ring m ! 0 = Some a" "st m a = Some k" "fp k = None"
    unfolding starving_def by blast
  then show thesis
  proof cases
    case 2
    have "contract_fd_ring (tried m) = Some (Inr ((tried m)\<lparr>next_slot := - 1\<rparr>))"
      by (rule contract_none [of _ a k]) (use 2 stt in simp_all)
    moreover have "starving f p ((tried m)\<lparr>next_slot := - 1\<rparr>)"
      unfolding starving_def using 2 n rm by (auto simp: tried_def)
    ultimately show thesis using that [OF at] by blast
  next
    case 1
    note T = tried_ok [OF 1(1,2)]
    have b: "Some b \<in> set (ring (tried m))" using 1(3) T(3) by simp
    obtain a k as r where c: "contract_fd_ring (tried m) = Some (Inr ((closed ((tried m)\<lparr>fd_ring := r\<rparr>) a k)\<lparr>fd_ring := r,
        max_fds := int (length as), next_slot := - 1\<rparr>))"
      "st (tried m) a = Some k" "take (length as) r = map Some as" "distinct (a # as)"
      "set (a # as) = {a. Some a \<in> set (ring (tried m))}" "length as < length r" "as = [] \<longrightarrow> r ! 0 = Some a"
      using contract_spec [OF T(1,2) b] by metis
    let ?M = "closed ((tried m)\<lparr>fd_ring := r\<rparr>) a k"
    let ?m = "?M\<lparr>fd_ring := r, max_fds := int (length as), next_slot := - 1\<rparr>"
    have so: "state_ok {} (files ((tried m)\<lparr>fd_ring := r\<rparr>)) a k" using T(1) c(2) by (simp add: core_def files_ok_def)
    have st: "st ?m = (st m)(a \<mapsto> k\<lparr>fp := None, pos := 0\<rparr>)"
      using st_closed [OF _ so] c(2) by (simp add: stt(1))
    have p: "\<exists>n. st ?m p = Some n \<and> fp n = None \<and> flow n = f" using st n c(2) stt(1) by auto
    have r: "\<forall>k. room (files ?m) k = 0" using rm stt(4) by simp
    have "starving f p ?m"
    proof (cases as)
      case Nil
      have "fd_ring ?m ! 0 = Some a" "0 < length (fd_ring ?m)" using Nil c(6,7) by simp_all
      moreover have "st ?m a = Some (k\<lparr>fp := None, pos := 0\<rparr>)" using st by simp
      ultimately show ?thesis unfolding starving_def using p r Nil by auto
    next
      case (Cons x xs)
      have "Some x \<in> set (ring (tried m))" "Some a \<in> set (ring (tried m))" "x \<noteq> a" using c(4,5) Cons by auto
      from contract_ok [OF T(1,2) this] c(1) have k: "core {} ?m S" "ring_ok {} ?m" by auto
      have "ring ?m = map Some as" using c(3) by (simp add: ring_def)
      then have "Some x \<in> set (ring ?m)" using Cons by simp
      then show ?thesis unfolding starving_def using p r k by blast
    qed
    then show thesis using that [OF at c(1)] by blast
  qed
qed

lemma starving_loop: "starving f p m \<Longrightarrow> open_loop m (Some p) (flow_filename f) = None"
proof (rule ccontr)
  assume s: "starving f p m" "open_loop m (Some p) (flow_filename f) \<noteq> None"
  then obtain y where y: "open_loop m (Some p) (flow_filename f) = Some y" by blast
  define P where "P m q w y \<longleftrightarrow> \<not> (starving f p m \<and> q = Some p \<and> w = flow_filename f)"
    for m :: flow_mem and q :: ptr and w :: string and y :: "fexit + flow_mem"
  have "P m (Some p) (flow_filename f) y"
  proof (rule open_loop.raw_induct [OF _ y])
    fix F m q w y
    assume IH: "\<And>m q w y. F m q w = Some y \<Longrightarrow> P m q w y"
      and y: "attempt_fopen m q w \<bind> (\<lambda>(r, m). if r = TooMany then contract_fd_ring m \<bind>
        (\<lambda>c. if isl c then Some c else F (projr c) q w) else Some (Inr m)) = Some y"
    show "P m q w y"
      unfolding P_def
    proof
      assume a: "starving f p m \<and> q = Some p \<and> w = flow_filename f"
      then obtain m' where "attempt_fopen m q w = Some (TooMany, tried m)" "contract_fd_ring (tried m) = Some (Inr m')" "starving f p m'"
        using starving_step by blast
      with y have "F m' q w = Some y" by simp
      from IH [OF this] show False using a \<open>starving f p m'\<close> by (simp add: P_def)
    qed
  qed
  then show False using s(1) by (simp add: P_def)
qed

lemma empty_loop:
  assumes "core {} m S" "ring_ok {} m" "set (ring m) \<subseteq> {None}" "st m p = Some n" "fp n = None" "\<forall>k. room (files m) k = 0"
  shows "open_loop m (Some p) (flow_filename (flow n)) = Some (Inl NoDescriptors)"
proof -
  note T = tried_ok [OF assms(1,2)]
  have "clock_ok (tried m)" using T(1) by (simp add: core_def)
  then have "contract_fd_ring (tried m) = Some (Inl NoDescriptors)" by (rule contract_empty [OF _ T(2)]) (use assms(3) T(3) in simp)
  then show ?thesis using attempt_full [OF assms(4-6)] by (simp add: open_loop.simps)
qed

text \<open>
  The properties of the flow table: it captures what the map of captures says, it puts a
  stream together, it keeps its files apart, and what becomes of it without descriptors.
\<close>

section \<open>Refinement\<close>

text \<open>A small machine for the witnesses, with two descriptors and blank memory.\<close>

definition blank_state :: flow_state where
  "blank_state = \<lparr>fnext = None, flow = \<lparr>src = 0, dst = 0, sport = 0, dport = 0\<rparr>, isn = 0, fp = None, pos = 0, flags = 0, last_access = 0\<rparr>"

definition small_machine :: "nat \<Rightarrow> flow_mem" where
  "small_machine r = \<lparr>states = \<lparr>cells = Map.empty, brk = 0, env = (\<lambda>_. Some blank_state)\<rparr>, flow_hash = [], fd_ring = [],
     max_fds = 0, next_slot = 0, current_time = 0,
     files = \<lparr>fdata = Map.empty, handles = [], fresh_file = 0, opens = 0, writes = 0, room = (\<lambda>_. r),
       denied = (\<lambda>_. False), short = (\<lambda>_. None)\<rparr>\<rparr>"

definition web :: "u16 \<Rightarrow> flow_t" where
  "web p = \<lparr>src = 0x7f000001, dst = 0x7f000002, sport = 80, dport = p\<rparr>"

text \<open>
  C3. From its start, with memory granted, at least two files allowed open at a time and no
  write failing, the flow table takes any number of packets (up to the range of its clock): it
  returns, every flow that has been given data has a file with exactly the bytes the map of
  captures has for it, whatever files had to be closed and opened again on the way, and no more than
  \<open>nfds - 5\<close> files are open. With a limit of bytes per flow no capture is longer than it.
\<close>
theorem capture_refines:
  assumes "6 \<le> nfds" "nfds \<le> int_max" "machine_ok m" "int (length ps) \<le> int_max" "\<forall>x\<in>set ps. packet_ok x"
  shows "\<exists>m'. store_packets bpf (tcpflow_start m nfds) ps = Some (Inr m') \<and>
    captures m' (spec_stores bpf Map.empty ps) \<and>
    (\<forall>f c d. spec_stores bpf Map.empty ps f = Some c \<longrightarrow> c_data c = Some d \<longrightarrow> fdata (files m') (path f) = Some d) \<and>
    (\<forall>f c. bpf \<noteq> 0 \<longrightarrow> spec_stores bpf Map.empty ps f = Some c \<longrightarrow> length (captured c) \<le> unat bpf) \<and>
    int (length (handles (files m'))) \<le> nfds - 5"
proof -
  note s = start_ok [OF assms(1,2), of m]
  have t: "machine_ok (tcpflow_start m nfds)" "current_time (tcpflow_start m nfds) + int (length ps) \<le> int_max"
    using s(3,4) assms(3,4) by simp_all
  from store_packets_spec [OF s(1,2) t assms(5)] obtain m' where
    m': "store_packets bpf (tcpflow_start m nfds) ps = Some (Inr m')" "inv {} m'" "captures m' (spec_stores bpf Map.empty ps)"
      "same_world (tcpflow_start m nfds) m'" by blast
  have "int (length (handles (files m'))) \<le> nfds - 5"
    using open_files_bounded [OF m'(2)] m'(4) s(5) by (simp add: same_world_def)
  moreover have "length (captured c) \<le> unat bpf" if "bpf \<noteq> 0" "spec_stores bpf Map.empty ps f = Some c" for f c
    by (rule spec_stores_limit [OF _ assms(5) that]) simp
  ultimately show ?thesis using m'(1,3) captures_file [OF m'(3)] by blast
qed

lemma machine_ok_small: "2 \<le> r \<Longrightarrow> machine_ok (small_machine r)"
  by (simp add: machine_ok_def can_open_def no_short_def small_machine_def)

text \<open>
  The witness: one descriptor slot, so the two interleaved flows close each other's file at every
  packet; a packet before the first sequence number is dropped, one over the limit is cut.
\<close>

definition demo :: "packet list" where
  "demo = [(web 1, [1, 2, 3], 3, 0xfffffffe), (web 2, [9, 9], 2, 7), (web 1, [4, 5, 6, 7], 4, 1),
     (web 2, [8, 8], 2, 9), (web 1, [0], 1, 0xfffffff0)]"

theorem capture_refines_witness:
  "(\<exists>m'. store_packets 5 (tcpflow_start (small_machine 2) 6) demo = Some (Inr m') \<and>
    captures m' (spec_stores 5 Map.empty demo) \<and>
    (\<forall>f c d. spec_stores 5 Map.empty demo f = Some c \<longrightarrow> c_data c = Some d \<longrightarrow> fdata (files m') (path f) = Some d) \<and>
    (\<forall>f c. (5::u32) \<noteq> 0 \<longrightarrow> spec_stores 5 Map.empty demo f = Some c \<longrightarrow> length (captured c) \<le> unat (5::u32)) \<and>
    int (length (handles (files m'))) \<le> 6 - 5) \<and>
   map_option c_data (spec_stores 5 Map.empty demo (web 1)) = Some (Some [1, 2, 3, 4, 5]) \<and>
   map_option c_data (spec_stores 5 Map.empty demo (web 2)) = Some (Some [9, 9, 8, 8])"
proof (rule conjI)
  show "\<exists>m'. store_packets 5 (tcpflow_start (small_machine 2) 6) demo = Some (Inr m') \<and>
    captures m' (spec_stores 5 Map.empty demo) \<and>
    (\<forall>f c d. spec_stores 5 Map.empty demo f = Some c \<longrightarrow> c_data c = Some d \<longrightarrow> fdata (files m') (path f) = Some d) \<and>
    (\<forall>f c. (5::u32) \<noteq> 0 \<longrightarrow> spec_stores 5 Map.empty demo f = Some c \<longrightarrow> length (captured c) \<le> unat (5::u32)) \<and>
    int (length (handles (files m'))) \<le> 6 - 5"
    by (rule capture_refines) (simp_all add: int_max_def machine_ok_small demo_def)
  show "map_option c_data (spec_stores 5 Map.empty demo (web 1)) = Some (Some [1, 2, 3, 4, 5]) \<and>
   map_option c_data (spec_stores 5 Map.empty demo (web 2)) = Some (Some [9, 9, 8, 8])"
    by code_simp
qed

section \<open>Reassembly\<close>

text \<open>
  C4. Without a limit of bytes per flow, a TCP stream of at most 0xffff0000 bytes is put together in
  the file of its flow, with sequence numbers that may wrap around at \<open>2 ^ 32\<close>, when the first of its
  segments to be captured is the one with the initial sequence number. The later segments may come in
  any order, overlapping or repeated, among the packets of any other flows, as long as every segment
  carries bytes of the stream and every byte is in some segment. (When another segment is captured
  first, its sequence number is taken for the initial one and what lies before it is dropped.)
\<close>
theorem stream_reassembled:
  assumes "6 \<le> nfds" "nfds \<le> int_max" "machine_ok m" "int (length ps) \<le> int_max"
    "ps = pre @ (f, data, len, s) # post" "\<forall>x\<in>set pre. fst x \<noteq> f" "\<forall>x\<in>set ps. packet_ok x \<and> (fst x = f \<longrightarrow> part_of s bs x)"
    "length bs \<le> 0xffff0000" "\<forall>i<length bs. \<exists>x\<in>set ps. fst x = f \<and> i \<in> covers s x"
  shows "\<exists>m'. store_packets 0 (tcpflow_start m nfds) ps = Some (Inr m') \<and>
    fdata (files m') (''./data_flow/'' @ flow_filename f) = Some bs"
proof -
  note st = start_ok [OF assms(1,2), of m]
  have t: "machine_ok (tcpflow_start m nfds)" "current_time (tcpflow_start m nfds) + int (length ps) \<le> int_max"
    "\<forall>x\<in>set ps. packet_ok x" using st(3,4) assms(3,4,7) by simp_all
  from store_packets_spec [OF st(1,2) t] obtain m' where
    m': "store_packets 0 (tcpflow_start m nfds) ps = Some (Inr m')" "captures m' (spec_stores 0 Map.empty ps)" by blast
  obtain c where "spec_stores 0 Map.empty ps f = Some c" "c_data c = Some bs" using stream_spec [OF assms(5-9)] by blast
  then show ?thesis using m' captures_file [OF m'(2)] by (auto simp: path_def)
qed

text \<open>The witness: a stream that wraps around, out of order and with a byte sent twice.\<close>

theorem stream_reassembled_witness:
  "(let ps = [(web 2, [8], 1, 5), (web 1, [1, 2], 2, 0xffffffff), (web 1, [4, 5], 2, 2), (web 2, [9], 1, 6), (web 1, [2, 3, 4], 3, 0)];
      bs = [1, 2, 3, 4, 5] in
    (\<forall>i<length bs. \<exists>x\<in>set ps. fst x = web 1 \<and> i \<in> covers 0xffffffff x) \<and>
    (\<exists>m'. store_packets 0 (tcpflow_start (small_machine 2) 6) ps = Some (Inr m') \<and>
      fdata (files m') (''./data_flow/'' @ flow_filename (web 1)) = Some bs))"
  unfolding Let_def
proof (rule conjI)
  let ?ps = "[(web 2, [8], 1, 5), (web 1, [1, 2], 2, 0xffffffff), (web 1, [4, 5], 2, 2), (web 2, [9], 1, 6), (web 1, [2, 3, 4], 3, 0)]"
  let ?bs = "[1, 2, 3, 4, 5]"
  have w: "web 2 \<noteq> web 1" by (simp add: web_def)
  show c: "\<forall>i<length ?bs. \<exists>x\<in>set ?ps. fst x = web 1 \<and> i \<in> covers 0xffffffff x"
    by (auto simp: w less_Suc_eq)
  show "\<exists>m'. store_packets 0 (tcpflow_start (small_machine 2) 6) ?ps = Some (Inr m') \<and>
      fdata (files m') (''./data_flow/'' @ flow_filename (web 1)) = Some ?bs"
    by (rule stream_reassembled [where pre = "[(web 2, [8], 1, 5)]" and data = "[1, 2]" and len = 2 and s = "0xffffffff"
        and post = "[(web 1, [4, 5], 2, 2), (web 2, [9], 1, 6), (web 1, [2, 3, 4], 3, 0)]", OF _ _ _ _ _ _ _ _ c])
      (simp_all add: int_max_def machine_ok_small w)
qed

section \<open>File names\<close>

text \<open>
  C34. Two flows share a file name only when they are the same flow, and a file name fits the buffers:
  43 characters in the 48 of \<open>flow_filename\<close>, and behind \<open>./data_flow/\<close> in the 100 of
  \<open>attempt_fopen\<close>.
\<close>
theorem flow_files_apart:
  "(flow_filename f = flow_filename g) = (f = g) \<and> length (flow_filename f) = 43 \<and> length (''./data_flow/'' @ flow_filename f) < 100"
  by (simp add: length_flow_filename flow_filename_inject)

section \<open>Out of descriptors\<close>

lemma captures_exist: "inv {} m \<Longrightarrow> \<exists>S. captures m S"
proof -
  assume "inv {} m"
  then have t: "table_ok m" by (simp add: inv_def)
  define S where "S f = (if \<exists>a n. st m a = Some n \<and> flow n = f
    then Some (capture_of (files m) (SOME n. \<exists>a. st m a = Some n \<and> flow n = f)) else None)" for f
  have "S (flow n) = Some (capture_of (files m) n)" if n: "st m a = Some n" for a n
  proof -
    have "(SOME k. \<exists>b. st m b = Some k \<and> flow k = flow n) = n"
    proof (rule some_equality)
      fix k assume "\<exists>b. st m b = Some k \<and> flow k = flow n"
      then obtain b where b: "st m b = Some k" "flow k = flow n" by blast
      then have "b = a" using table_unique [OF t b(1) n] by blast
      then show "k = n" using b(1) n by simp
    qed (use n in blast)
    then show ?thesis using n unfolding S_def by auto
  qed
  then have "captures m S" unfolding captures_def by (auto simp: S_def split: if_splits)
  then show ?thesis by blast
qed

text \<open>
  C33. When the system lets the program open no file at all: if none of the flows is in the ring,
  \<open>open_file\<close> ends the process, as \<open>contract_fd_ring\<close> means to; if any is, it never returns. It
  closes them all and then goes on, because the shifted ring keeps its first entry and the test for an
  empty ring looks only there.
\<close>
theorem descriptor_exhaustion:
  assumes "inv {} m" "st m p = Some n" "fp n = None" "\<forall>k. room (files m) k = 0"
  shows "open_file m (Some p) = (if set (ring m) \<subseteq> {None} then Some (Inl NoDescriptors) else None)"
proof -
  obtain S where S: "captures m S" using captures_exist assms(1) by blast
  have C: "core {} m S" "ring_ok {} m" using inv_core [OF assms(1) S] assms(1) by (simp_all add: inv_def)
  have "open_loop m (Some p) (flow_filename (flow n)) = (if set (ring m) \<subseteq> {None} then Some (Inl NoDescriptors) else None)"
  proof (cases "set (ring m) \<subseteq> {None}")
    case True
    then show ?thesis using empty_loop [OF C True assms(2-4)] by simp
  next
    case False
    then obtain b where "Some b \<in> set (ring m)" by (metis not_None_eq singletonI subsetI)
    then have "starving (flow n) p m" unfolding starving_def using C assms(2-4) by blast
    then show ?thesis using starving_loop False by simp
  qed
  moreover have "load (states m) (Some p) = Some n" using assms(2) by (simp add: st_def)
  ultimately show ?thesis using assms(3) by (simp add: open_file_def Let_def)
qed

lemma inv_room:
  assumes "inv X m"
  shows "inv X (m\<lparr>files := (files m)\<lparr>room := r\<rparr>\<rparr>)"
proof -
  let ?m = "m\<lparr>files := (files m)\<lparr>room := r\<rparr>\<rparr>"
  have so: "state_ok X (files ?m) a n = state_ok X (files m) a n" for a n by (rule state_ok_cong) simp_all
  have st: "st ?m = st m" "bucket ?m = bucket m" by (simp_all add: st_def bucket_def fun_eq_iff)
  show ?thesis using assms unfolding inv_def table_ok_def clock_ok_def files_ok_def ring_ok_def ring_def so st by simp
qed

text \<open>
  The witness: a flow whose file is open and a second one that is new; and a new flow alone.
\<close>

theorem descriptor_exhaustion_witness:
  "(\<exists>m p. inv {} m \<and> (\<forall>k. room (files m) k = 0) \<and> open_file m (Some p) = None) \<and>
   (\<exists>m. inv {} m \<and> (\<forall>k. room (files m) k = 0) \<and> open_file m (Some 0) = Some (Inl NoDescriptors))"
proof (rule conjI)
  let ?S = "[web 1 \<mapsto> new_capture 0]"
  define m0 where "m0 = tcpflow_start (small_machine 2) 6"
  have s: "inv {} m0" "captures m0 Map.empty" "current_time m0 = 0" "machine_ok m0" "brk (states m0) = 0" "st m0 = Map.empty"
    unfolding m0_def using start_ok [of 6 "small_machine 2"] machine_ok_small [of 2]
    by (simp_all add: int_max_def) (simp_all add: tcpflow_start_def init_flow_state_def Let_def small_machine_def st_def)
  define m1 where "m1 = with_flow m0 (web 1) 0"
  have m1: "inv {} m1" "captures m1 ?S" "st m1 0 = Some (new_state m0 (web 1) 0)" "brk (states m1) = 1" "current_time m1 = 1" "can_open m1"
    using with_flow_ok [OF s(1) _ _ s(2), of "web 1" 0] s by (simp_all add: m1_def int_max_def machine_ok_def can_open_def)
  have n: "fp (new_state m (web i) 0) = None" "flags (new_state m (web i) 0) = 0" "flow (new_state m (web i) 0) = web i" for m i
    by (simp_all add: new_state_def)
  let ?off = "\<lambda>m. m\<lparr>files := (files m)\<lparr>room := \<lambda>_. 0\<rparr>\<rparr>"
  show "\<exists>m. inv {} m \<and> (\<forall>k. room (files m) k = 0) \<and> open_file m (Some 0) = Some (Inl NoDescriptors)"
  proof (intro exI conjI)
    show i: "inv {} (?off m1)" by (rule inv_room [OF m1(1)])
    have "set (ring (?off m1)) \<subseteq> {None}"
      by (auto simp: ring_def m1_def m0_def tcpflow_start_def init_flow_state_def with_flow_def Let_def)
    moreover have "st (?off m1) 0 = Some (new_state m0 (web 1) 0)" using m1(3) by (simp add: st_def)
    ultimately show "open_file (?off m1) (Some 0) = Some (Inl NoDescriptors)"
      using descriptor_exhaustion [OF i, of 0 "new_state m0 (web 1) 0"] n by simp
  qed simp
  obtain m2 h where m2: "core {} m2 (?S(web 1 \<mapsto> opened_capture (new_capture 0)))" "ring_ok {} m2" "kept m1 m2"
    "st m2 0 = Some ((new_state m0 (web 1) 0)\<lparr>fp := Some h, flags := SET_BIT 0 FLOW_FILE_EXISTS, pos := 0\<rparr>)"
    using open_file_spec [OF inv_core [OF m1(1,2)] _ m1(3) n(1) _ m1(6)] m1(1) n
    by (auto simp: inv_def IS_SET_def)
  let ?S2 = "?S(web 1 \<mapsto> opened_capture (new_capture 0))" and ?p = "brk (states m2)"
  define m3 where "m3 = with_flow m2 (web 2) 0"
  have i2: "inv {} m2" "captures m2 ?S2" using m2(1,2) by (simp_all add: inv_def core_def)
  have "current_time m2 < int_max" using m2(3) m1(5) by (simp add: kept_def int_max_def)
  moreover have "\<forall>a n. st m2 a = Some n \<longrightarrow> flow n \<noteq> web 2"
  proof (intro allI impI notI)
    fix a n assume a: "st m2 a = Some n" "flow n = web 2"
    have "?S2 (flow n) = Some (capture_of (files m2) n)" using i2(2) a(1) unfolding captures_def by blast
    then show False using a(2) by (auto simp: web_def split: if_splits)
  qed
  ultimately have i3: "inv {} m3" using with_flow_ok [OF i2(1) _ _ i2(2)] by (simp add: m3_def)
  have "Some 0 \<in> set (ring m2)" using m2(2,4) by (simp add: ring_ok_def)
  then have r: "\<not> set (ring (?off m3)) \<subseteq> {None}" by (auto simp: m3_def ring_def)
  have p: "st (?off m3) ?p = Some (new_state m2 (web 2) 0)" by (simp add: m3_def st_def with_flow_def)
  show "\<exists>m p. inv {} m \<and> (\<forall>k. room (files m) k = 0) \<and> open_file m (Some p) = None"
  proof (intro exI conjI)
    show i: "inv {} (?off m3)" by (rule inv_room [OF i3])
    show "open_file (?off m3) (Some ?p) = None" using descriptor_exhaustion [OF i p] r n by simp
  qed simp
qed

end
