(* ===== verification/Tcpip_Info.thy ===== *)
theory Tcpip_Info
  imports Flow
begin

unbundle bit_operations_syntax

text \<open>
  \<open>unp/tcpflow/info_file\<close>: the state of the monitor, the tallies and the report of \<open>summary.c\<close>, the
  conversations and their report of \<open>conver.c\<close>. A packet is the list of the bytes that were captured;
  reading behind them is undefined (\<^term>\<open>None\<close>). Fields are read as on a little-endian host: \<open>be16\<close> and
  \<open>be32\<close> are \<open>ntohs\<close> and \<open>ntohl\<close> of a field, \<open>raw16\<close> and \<open>raw32\<close> the field itself.
\<close>

definition field :: "byte list \<Rightarrow> nat \<Rightarrow> nat \<Rightarrow> byte list option" where
  "field d i k = (if i + k \<le> length d then Some (take k (drop i d)) else None)"

definition byte_at :: "byte list \<Rightarrow> nat \<Rightarrow> byte option" where
  "byte_at d i = map_option hd (field d i 1)"

definition cat16 :: "byte list \<Rightarrow> u16" where
  "cat16 bs = word_cat (bs ! 0) (bs ! 1)"

definition cat32 :: "byte list \<Rightarrow> u32" where
  "cat32 bs = word_cat (cat16 bs) (cat16 (drop 2 bs))"

definition be16 :: "byte list \<Rightarrow> nat \<Rightarrow> u16 option" where
  "be16 d i = map_option cat16 (field d i 2)"

definition be32 :: "byte list \<Rightarrow> nat \<Rightarrow> u32 option" where
  "be32 d i = map_option cat32 (field d i 4)"

definition raw16 :: "byte list \<Rightarrow> nat \<Rightarrow> u16 option" where
  "raw16 d i = map_option (\<lambda>bs. cat16 (rev bs)) (field d i 2)"

definition raw32 :: "byte list \<Rightarrow> nat \<Rightarrow> u32 option" where
  "raw32 d i = map_option (\<lambda>bs. cat32 (rev bs)) (field d i 4)"

section \<open>The state of the monitor\<close>

text \<open>
  \<open>protocl_types\<close> of \<open>summary.c\<close>: packets and bytes of each type. The times of a conversation are
  seconds and microseconds after \<open>tv_main\<close>. The percentages and rates, which are computed anew before
  each use, are part of the reports.
\<close>

record tcp_conver =
  cnext :: ptr
  addr_a :: u32
  addr_b :: u32
  port_a :: int
  port_b :: int
  packets :: int
  cbytes :: int
  packets_to :: int
  packets_from :: int
  bytes_to :: int
  bytes_from :: int
  val_s :: "int \<times> int"
  val_e :: "int \<times> int"

text \<open>
  \<open>now k\<close> is what the \<open>k\<close>-th call of \<open>gettimeofday\<close> returns and \<open>utc k\<close> what \<open>gmtime\<close> makes of the
  \<open>k\<close>-th \<open>time\<close>. \<open>report k\<close> is the \<open>k\<close>-th opening of a report file: \<^term>\<open>None\<close> when it fails, otherwise
  the lengths of the words \<open>fscanf\<close> finds in it. \<open>behind_literal\<close> are the characters that can be read
  behind the string of dashes in \<open>summary.c\<close>, \<open>summary_file\<close> and \<open>conver_file\<close> what the reports hold,
  \<open>stdout\<close> what has been printed.
\<close>

record tm =
  tm_year :: int
  tm_mon :: int
  tm_mday :: int
  tm_hour :: int
  tm_min :: int
  tm_sec :: int

text \<open>
  What is written to a report: characters, and the value of an expression over \<open>float\<close> with a
  number of decimals. The expressions are kept as they stand in the source; how the machine rounds
  them is left open.
\<close>

datatype float_expr = FInt int | FAdd float_expr float_expr | FSub float_expr float_expr
  | FMul float_expr float_expr | FDiv float_expr float_expr

datatype item = Chars string | Float nat float_expr

record monitor =
  flows :: flow_mem
  protocl_types :: "(int \<times> int) list"
  convs :: "tcp_conver heap"
  tcp_con_head :: ptr
  tv_main :: "int \<times> int"
  packet_no :: int
  bytes_no :: int
  now :: "nat \<Rightarrow> int \<times> int"
  times :: nat
  utc :: "nat \<Rightarrow> tm"
  utcs :: nat
  first_time :: "int \<times> int \<times> int"
  report :: "nat \<Rightarrow> nat list option"
  reports :: nat
  behind_literal :: string
  summary_file :: "item list"
  conver_file :: "item list"
  stdout :: string
  print_count :: int

section \<open>\<open>info_file/summary.c\<close>\<close>

definition PROTO_ARP :: int where "PROTO_ARP = 0"
definition PROTO_IP :: int where "PROTO_IP = 1"
definition PROTO_ICMP :: int where "PROTO_ICMP = 2"
definition PROTO_UDP :: int where "PROTO_UDP = 3"
definition PROTO_DNS :: int where "PROTO_DNS = 4"
definition PROTO_TCP :: int where "PROTO_TCP = 5"
definition PROTO_HTTP :: int where "PROTO_HTTP = 6"
definition PROTO_HTTP_ack :: int where "PROTO_HTTP_ack = 7"
definition PROTO_SSL :: int where "PROTO_SSL = 8"
definition PROTO_SSL_ack :: int where "PROTO_SSL_ack = 9"

definition update_pkt_type :: "monitor \<Rightarrow> int \<Rightarrow> int \<Rightarrow> monitor option" where
  "update_pkt_type m type len = (if type < PROTO_ARP \<or> type > PROTO_SSL then Some m
     else do {
       (n, b) \<leftarrow> aread (protocl_types m) type;
       n \<leftarrow> cint (n + 1);
       b \<leftarrow> cint (b + len);
       ts \<leftarrow> awrite (protocl_types m) type (n, b);
       Some (m\<lparr>protocl_types := ts\<rparr>)
     })"

text \<open>\<open>%d\<close> and \<open>%02d\<close> of an \<open>int\<close>.\<close>

definition decimal :: "int \<Rightarrow> string" where
  "decimal i = (if i < 0 then ''-'' @ digits (nat (- i)) else digits (nat i))"

definition decimal2 :: "int \<Rightarrow> string" where
  "decimal2 i = (if i < 0 then decimal i else padded 2 (nat i))"

definition clock_text :: "int \<times> int \<times> int \<Rightarrow> string" where
  "clock_text t = (case t of (h, mi, s) \<Rightarrow> decimal2 h @ '':'' @ decimal2 mi @ '':'' @ decimal2 s)"

definition tabs :: "nat \<Rightarrow> string" where
  "tabs n = replicate n (CHR 0x09)"

definition gmtime :: "monitor \<Rightarrow> tm \<times> monitor" where
  "gmtime m = (utc m (utcs m), m\<lparr>utcs := Suc (utcs m)\<rparr>)"

definition first_packet_time :: "monitor \<Rightarrow> monitor" where
  "first_packet_time m = (let (p, m) = gmtime m in m\<lparr>first_time := (tm_hour p, tm_min p, tm_sec p)\<rparr>)"

text \<open>
  The line of dashes is a literal of 28 characters, of which \<open>memcpy\<close> takes 30: the last two lie
  behind it.
\<close>

definition dashes :: string where
  "dashes = replicate 26 (CHR ''-'') @ ''\<newline>''"

definition memcpy :: "string \<Rightarrow> nat \<Rightarrow> string option" where
  "memcpy from n = (if n \<le> length from then Some (take n from) else None)"

definition write_summary_file_info :: "monitor \<Rightarrow> (item list \<times> monitor) option" where
  "write_summary_file_info m = do {
     let (last_p, m) = gmtime m;
     let day = decimal2 (1900 + tm_year last_p) @ ''-'' @ decimal2 (tm_mon last_p) @ ''-'' @ decimal2 (tm_mday last_p) @ '' '';
     let first_packet = ''fist packet:'' @ day @ clock_text (first_time m) @ ''\<newline>'';
     let last_packet = ''last packet:'' @ day @ clock_text (tm_hour last_p, tm_min last_p, tm_sec last_p) @ ''\<newline>'';
     let (first_hour, first_min, first_sec) = first_time m;
     let elapsed_hour = tm_hour last_p - first_hour;
     let elapsed_min = tm_min last_p - first_min;
     let elapsed_sec = tm_sec last_p - first_sec;
     let (elapsed_min, elapsed_sec) = (if elapsed_sec < 0 then (elapsed_min - 1, elapsed_sec + 60) else (elapsed_min, elapsed_sec));
     let elapsed = FInt (elapsed_hour * 3600 + elapsed_min * 60 + elapsed_sec);
     kilobytes \<leftarrow> cdiv (bytes_no m) 1024;
     str_info \<leftarrow> memcpy (dashes @ [CHR 0x00] @ behind_literal m) 30;
     Some ([Chars first_packet, Chars last_packet,
       Chars (''elapsed:'' @ tabs 1 @ clock_text (elapsed_hour, elapsed_min, elapsed_sec) @ ''\<newline>'' @
         ''packet:'' @ tabs 1 @ decimal (packet_no m) @ ''\<newline>'' @ ''length:'' @ tabs 1 @ decimal (bytes_no m) @ ''bytes\<newline>''),
       Chars (''avg.packet/sec:'' @ tabs 1), Float 4 (FDiv (FInt (packet_no m)) elapsed), Chars ''(packet/s)\<newline>'',
       Chars ''avg.packet size:'', Float 4 (FDiv (FInt (bytes_no m)) (FInt (packet_no m))), Chars ''(bytes/packets)\<newline>'',
       Chars (''avg.bytes/sec:'' @ tabs 1), Float 4 (FDiv (FInt (bytes_no m)) elapsed), Chars ''(bytes/s)\<newline>'',
       Chars (''avg.MBit/sec:'' @ tabs 1), Float 4 (FDiv (FInt kilobytes) elapsed), Chars ''(MBit/s)\<newline>'',
       Chars (takeWhile (\<lambda>c. c \<noteq> CHR 0x00) str_info)], m)
   }"

text \<open>
  The formats contain conversions that C does not know, \<open>%P\<close>, \<open>%B\<close> and \<open>%\<close> before a tab or a line
  end; they are taken to be printed as they stand, as the C library of that time did.
\<close>

definition type_names :: "string list" where
  "type_names = [''arp'', ''ip'', ''icmp'', ''udp'', ''dns'', ''tcp'', ''http'', ''http-'', ''ssl'', ''ssl-'']"

definition indent :: "nat \<Rightarrow> string" where
  "indent i = (if i = 2 \<or> i = 3 \<or> i = 5 then '' ''
     else if i = 4 \<or> i = 6 \<or> i = 7 \<or> i = 8 \<or> i = 9 then ''  '' else [])"

definition percent :: "int \<Rightarrow> int \<Rightarrow> float_expr" where
  "percent part all = FMul (FDiv (FInt part) (FInt all)) (FInt 100)"

fun type_rows :: "monitor \<Rightarrow> nat \<Rightarrow> string list \<Rightarrow> item list option" where
  "type_rows m i [] = Some []"
| "type_rows m i (name # names) = do {
     (number, byte) \<leftarrow> aread (protocl_types m) (int i);
     rows \<leftarrow> type_rows m (Suc i) names;
     Some ([Chars (indent i @ name @ tabs 4 @ decimal number @ tabs 4), Float 2 (percent number (packet_no m)),
        Chars (''%'' @ tabs 5 @ decimal byte @ tabs 4), Float 2 (percent byte (bytes_no m)), Chars ''%\<newline>''] @ rows)
   }"

definition write_summary_file :: "monitor \<Rightarrow> item list option" where
  "write_summary_file m = do {
     rows \<leftarrow> type_rows m 0 type_names;
     Some (Chars (''type'' @ tabs 4 @ ''packets'' @ tabs 4 @ ''%Packets'' @ tabs 4 @ ''Bytes'' @ tabs 4 @ ''%Bytes\<newline>'') # rows)
   }"

text \<open>
  A report is read before it is written, each word into \<open>temp[100]\<close>, and opened again to be written
  anew; the process exits when it cannot be opened.
\<close>

definition read_report :: "monitor \<Rightarrow> (fexit + monitor) option" where
  "read_report m = (case report m (reports m) of None \<Rightarrow> Some (Inl NoReport)
     | Some words \<Rightarrow> do {
         guard (list_all (\<lambda>w. w < 100) words);
         Some (Inr (m\<lparr>reports := Suc (reports m)\<rparr>))
       })"

definition open_report :: "monitor \<Rightarrow> fexit + monitor" where
  "open_report m = (case report m (reports m) of None \<Rightarrow> Inl NoReport
     | Some _ \<Rightarrow> Inr (m\<lparr>reports := Suc (reports m)\<rparr>))"

definition update_summary_file :: "monitor \<Rightarrow> (fexit + monitor) option" where
  "update_summary_file m = do {
     r \<leftarrow> read_report m;
     (case r of Inl e \<Rightarrow> Some (Inl e)
      | Inr m \<Rightarrow> (case open_report m of Inl e \<Rightarrow> Some (Inl e)
          | Inr m \<Rightarrow> do {
              (info, m) \<leftarrow> write_summary_file_info m;
              rows \<leftarrow> write_summary_file m;
              Some (Inr (m\<lparr>summary_file := info @ rows\<rparr>))
            }))
   }"

section \<open>\<open>info_file/conver.c\<close>\<close>

definition gettimeofday :: "monitor \<Rightarrow> (int \<times> int) \<times> monitor" where
  "gettimeofday m = (now m (times m), m\<lparr>times := Suc (times m)\<rparr>)"

definition get_tv_main :: "monitor \<Rightarrow> monitor" where
  "get_tv_main m = (let (tv, m) = gettimeofday m in m\<lparr>tv_main := tv\<rparr>)"

definition since :: "int \<times> int \<Rightarrow> int \<times> int \<Rightarrow> int \<times> int" where
  "since tv start = (fst tv - fst start, snd tv - snd start)"

text \<open>The comparison with \<open>&&\<close>; the fields of the packet are at the given places.\<close>

definition ends_are :: "tcp_conver \<Rightarrow> byte list \<Rightarrow> nat \<Rightarrow> nat \<Rightarrow> nat \<Rightarrow> nat \<Rightarrow> bool option" where
  "ends_are c ptemp ip_a ip_b th_a th_b = do {
     a \<leftarrow> raw32 ptemp ip_a;
     if addr_a c \<noteq> a then Some False
     else do {
       b \<leftarrow> raw32 ptemp ip_b;
       if addr_b c \<noteq> b then Some False
       else do {
         p \<leftarrow> raw16 ptemp th_a;
         if port_a c \<noteq> int (unat p) then Some False
         else do {
           q \<leftarrow> raw16 ptemp th_b;
           Some (port_b c = int (unat q))
         }
       }
     }
   }"

definition count_to :: "tcp_conver \<Rightarrow> int \<times> int \<Rightarrow> int \<Rightarrow> tcp_conver option" where
  "count_to c e n_chars = do {
     pt \<leftarrow> cint (packets_to c + 1);
     bt \<leftarrow> cint (bytes_to c + n_chars);
     p \<leftarrow> cint (packets c + 1);
     b \<leftarrow> cint (cbytes c + n_chars);
     Some (c\<lparr>packets := p, cbytes := b, packets_to := pt, bytes_to := bt, val_e := e\<rparr>)
   }"

definition count_from :: "tcp_conver \<Rightarrow> int \<times> int \<Rightarrow> int \<Rightarrow> tcp_conver option" where
  "count_from c e n_chars = do {
     pf \<leftarrow> cint (packets_from c + 1);
     bf \<leftarrow> cint (bytes_from c + n_chars);
     p \<leftarrow> cint (packets c + 1);
     b \<leftarrow> cint (cbytes c + n_chars);
     Some (c\<lparr>packets := p, cbytes := b, packets_from := pf, bytes_from := bf, val_e := e\<rparr>)
   }"

text \<open>The loop; \<^term>\<open>True\<close> when it leaves by \<open>goto done\<close>.\<close>

partial_function (option) conver_loop :: "monitor \<Rightarrow> byte list \<Rightarrow> nat \<Rightarrow> int \<Rightarrow> ptr \<Rightarrow> (bool \<times> monitor) option" where
  "conver_loop m ptemp ihl n_chars p = (if p = None then Some (False, m)
     else do {
       c \<leftarrow> load (convs m) p;
       to \<leftarrow> ends_are c ptemp 12 16 ihl (ihl + 2);
       if to then do {
         let (tv, m) = gettimeofday m;
         c \<leftarrow> count_to c (since tv (tv_main m)) n_chars;
         h \<leftarrow> store (convs m) p (\<lambda>_. c);
         Some (True, m\<lparr>convs := h\<rparr>)
       } else do {
         back \<leftarrow> ends_are c ptemp 16 12 (ihl + 2) ihl;
         if back then do {
           let (tv, m) = gettimeofday m;
           c \<leftarrow> count_from c (since tv (tv_main m)) n_chars;
           h \<leftarrow> store (convs m) p (\<lambda>_. c);
           Some (True, m\<lparr>convs := h\<rparr>)
         } else conver_loop m ptemp ihl n_chars (cnext c)
       }
     })"

text \<open>The result of \<open>malloc\<close> is not tested: \<open>bzero\<close> of \<open>NULL\<close> is undefined.\<close>

definition tcp_conver_handler :: "monitor \<Rightarrow> byte list \<Rightarrow> nat \<Rightarrow> int \<Rightarrow> monitor option" where
  "tcp_conver_handler m ptemp ihl n_chars = do {
     (found, m) \<leftarrow> conver_loop m ptemp ihl n_chars (tcp_con_head m);
     if found then Some m
     else do {
       let (tv, m) = gettimeofday m;
       let (p, h) = cmalloc (convs m);
       saddr \<leftarrow> raw32 ptemp 12;
       daddr \<leftarrow> raw32 ptemp 16;
       th_sport \<leftarrow> raw16 ptemp ihl;
       th_dport \<leftarrow> raw16 ptemp (ihl + 2);
       h \<leftarrow> store h p (\<lambda>_. \<lparr>cnext = tcp_con_head m, addr_a = saddr, addr_b = daddr,
         port_a = int (unat th_sport), port_b = int (unat th_dport), packets = 1, cbytes = n_chars,
         packets_to = 1, packets_from = 0, bytes_to = n_chars, bytes_from = 0,
         val_s = since tv (tv_main m), val_e = (0, 0)\<rparr>);
       Some (m\<lparr>convs := h, tcp_con_head := p\<rparr>)
     }
   }"

text \<open>\<open>inet_ntoa\<close> of a raw address and \<open>ntohs\<close> of a raw port.\<close>

definition dotted :: "u32 \<Rightarrow> string" where
  "dotted a = digits (octet 0 a) @ ''.'' @ digits (octet 1 a) @ ''.'' @ digits (octet 2 a) @ ''.'' @ digits (octet 3 a)"

definition ntohs :: "int \<Rightarrow> int" where
  "ntohs p = 256 * (p mod 256) + p div 256 mod 256"

definition seconds :: "int \<Rightarrow> float_expr" where
  "seconds us = FDiv (FInt us) (FInt 1000000)"

definition conver_row :: "tcp_conver \<Rightarrow> item list" where
  "conver_row c =
     (let start_time = FAdd (FInt (fst (val_s c))) (seconds (snd (val_s c)));
          duration = FSub (FSub (FAdd (FInt (fst (val_e c))) (seconds (snd (val_e c)))) (FInt (fst (val_s c)))) (seconds (snd (val_s c)));
          bps_from = FDiv (FMul (FInt (bytes_from c)) (FInt 8)) duration;
          bps_to = FDiv (FMul (FInt (bytes_to c)) (FInt 8)) duration
      in [Chars (dotted (addr_a c) @ tabs 1 @ decimal (ntohs (port_a c)) @ tabs 1 @ dotted (addr_b c) @ tabs 1 @ decimal (ntohs (port_b c)) @
            tabs 1 @ decimal (packets c) @ tabs 1 @ decimal (cbytes c) @ tabs 1 @ decimal (packets_to c) @ tabs 1 @ decimal (bytes_to c) @
            tabs 2 @ decimal (packets_from c) @ tabs 1 @ decimal (bytes_from c) @ tabs 1),
          Float 6 start_time, Chars (tabs 1), Float 6 duration, Chars (tabs 1), Float 2 bps_to, Chars (tabs 1), Float 2 bps_from, Chars ''\<newline>''])"

partial_function (option) conver_rows :: "monitor \<Rightarrow> ptr \<Rightarrow> item list option" where
  "conver_rows m p = (if p = None then Some []
     else do {
       c \<leftarrow> load (convs m) p;
       rows \<leftarrow> conver_rows m (cnext c);
       Some (conver_row c @ rows)
     })"

definition conver_head :: "item list" where
  "conver_head = [Chars (''tcp conversation\<newline>'' @ ''Address A'' @ tabs 1 @ ''port A'' @ tabs 1 @ ''Address B'' @ tabs 1 @ ''port B'' @ tabs 1 @
     ''packets'' @ tabs 1 @ ''bytes'' @ tabs 1 @ ''pkt A->B byte A->B pkt B->A byte B->A'' @ tabs 1 @ ''start_time'' @ tabs 1 @ ''duration'' @
     tabs 1 @ ''bps A->B'' @ tabs 1 @ ''bps A<-B\<newline>'')]"

definition write_tcp_conver_file :: "monitor \<Rightarrow> item list option" where
  "write_tcp_conver_file m = map_option (\<lambda>rows. conver_head @ rows) (conver_rows m (tcp_con_head m))"

definition update_tcp_conver_file :: "monitor \<Rightarrow> (fexit + monitor) option" where
  "update_tcp_conver_file m = do {
     r \<leftarrow> read_report m;
     (case r of Inl e \<Rightarrow> Some (Inl e)
      | Inr m \<Rightarrow> (case open_report m of Inl e \<Rightarrow> Some (Inl e)
          | Inr m \<Rightarrow> do {
              rows \<leftarrow> write_tcp_conver_file m;
              Some (Inr (m\<lparr>conver_file := rows\<rparr>))
            }))
   }"

end
