(* ===== verification/Tcpip.thy ===== *)
theory Tcpip
  imports Tcpip_Info
begin

unbundle bit_operations_syntax

text \<open>
  \<open>unp/tcpflow\<close>, second part: from a captured packet to \<^const>\<open>store_packet\<close> (\<open>tcpip.c\<close>).
\<close>

record options =
  console_only :: bool
  strip_nonprint :: bool
  bytes_per_flow :: u32

section \<open>\<open>tcpip.c\<close>\<close>

text \<open>\<open>isprint\<close> in the C locale. The buffer of \<open>do_strip_nonprint\<close> has \<open>SNAPLEN\<close> bytes.\<close>

definition SNAPLEN :: nat where "SNAPLEN = 65536"

definition isprint :: "byte \<Rightarrow> bool" where
  "isprint b \<longleftrightarrow> 32 \<le> b \<and> b < 127"

fun strip_loop :: "byte list \<Rightarrow> nat \<Rightarrow> byte list option" where
  "strip_loop data 0 = Some []"
| "strip_loop [] (Suc n) = None"
| "strip_loop (b # data) (Suc n) = do {
     r \<leftarrow> strip_loop data n;
     Some ((if isprint b \<or> b = 10 \<or> b = 13 then b else 46) # r)
   }"

definition do_strip_nonprint :: "byte list \<Rightarrow> u32 \<Rightarrow> byte list option" where
  "do_strip_nonprint data len = do {
     guard (unat len \<le> SNAPLEN);
     strip_loop data (unat len)
   }"

definition print_packet :: "monitor \<Rightarrow> flow_t \<Rightarrow> byte list \<Rightarrow> u32 \<Rightarrow> monitor option" where
  "print_packet m f data len = do {
     guard (unat len \<le> length data);
     Some (m\<lparr>stdout := stdout m @ flow_filename f @ '': '' @ map (\<lambda>b. char_of (unat b)) (take (unat len) data) @ ''\<newline>''\<rparr>)
   }"

definition on_port :: "flow_t \<Rightarrow> u16 \<Rightarrow> bool" where
  "on_port f p \<longleftrightarrow> sport f = p \<or> dport f = p"

definition process_tcp :: "options \<Rightarrow> monitor \<Rightarrow> byte list \<Rightarrow> u32 \<Rightarrow> u32 \<Rightarrow> u32 \<Rightarrow> (fexit + monitor) option" where
  "process_tcp opts m data len source dest = (if unat len < 20 then Some (Inr m)
     else do {
       th_off \<leftarrow> byte_at data 12;
       let tcp_header_len = (ucast (drop_bit 4 th_off) * 4 :: u32);
       th_sport \<leftarrow> be16 data 0;
       th_dport \<leftarrow> be16 data 2;
       let this_flow = \<lparr>src = source, dst = dest, sport = th_sport, dport = th_dport\<rparr>;
       seq \<leftarrow> be32 data 4;
       if len \<le> tcp_header_len then do {
         m \<leftarrow> (if on_port this_flow 80 then update_pkt_type m PROTO_HTTP_ack (sint (len + 20 + 14))
               else if on_port this_flow 443 then update_pkt_type m PROTO_SSL_ack (sint (len + 20 + 14))
               else Some m);
         Some (Inr m)
       } else do {
         m \<leftarrow> (if on_port this_flow 80 then update_pkt_type m PROTO_HTTP (sint (len + 20 + 14))
               else if on_port this_flow 443 then update_pkt_type m PROTO_SSL (sint (len + 20 + 14))
               else Some m);
         let data = drop (unat tcp_header_len) data;
         let len = len - tcp_header_len;
         data \<leftarrow> (if strip_nonprint opts then do_strip_nonprint data len else Some data);
         if console_only opts then map_option Inr (print_packet m this_flow data len)
         else do {
           c \<leftarrow> store_packet (bytes_per_flow opts) (flows m) this_flow data len seq;
           Some (map_sum id (\<lambda>f. m\<lparr>flows := f\<rparr>) c)
         }
       }
     })"

definition process_udp :: "monitor \<Rightarrow> byte list \<Rightarrow> u32 \<Rightarrow> u32 \<Rightarrow> u32 \<Rightarrow> monitor option" where
  "process_udp m data len source dest = do {
     uh_sport \<leftarrow> be16 data 0;
     uh_dport \<leftarrow> be16 data 2;
     if uh_sport = 53 \<or> uh_dport = 53 then update_pkt_type m PROTO_DNS (sint (len + 20 + 14)) else Some m
   }"

definition update_reports :: "monitor \<Rightarrow> (fexit + monitor) option" where
  "update_reports m = do {
     c \<leftarrow> update_summary_file m;
     (case c of Inl e \<Rightarrow> Some (Inl e) | Inr m \<Rightarrow> update_tcp_conver_file m)
   }"

definition process_ip :: "options \<Rightarrow> monitor \<Rightarrow> byte list \<Rightarrow> u32 \<Rightarrow> (fexit + monitor) option" where
  "process_ip opts m data caplen = do {
     ip_hl \<leftarrow> byte_at data 0;
     let ip_header_len = (ucast (ip_hl AND 15) * 4 :: u32);
     if unat caplen < 20 then Some (Inr m)
     else do {
       ip_p \<leftarrow> byte_at data 9;
       m \<leftarrow> (if ip_p = 1 then update_pkt_type m PROTO_ICMP (sint (caplen + 14))
             else if ip_p = 17 then update_pkt_type m PROTO_UDP (sint (caplen + 14))
             else if ip_p = 6 then do {
               m \<leftarrow> update_pkt_type m PROTO_TCP (sint (caplen + 14));
               tcp_conver_handler m data (unat ip_header_len) (sint (caplen + 14))
             } else Some m);
       ip_len \<leftarrow> be16 data 2;
       let ip_total_len = (ucast ip_len :: u32);
       ip_off \<leftarrow> be16 data 6;
       if ip_off AND 0x1fff \<noteq> 0 then Some (Inr m)
       else if ip_header_len > ip_total_len then Some (Inr m)
       else do {
         c \<leftarrow> (if ip_p = 6 then do {
                ip_src \<leftarrow> be32 data 12;
                ip_dst \<leftarrow> be32 data 16;
                process_tcp opts m (drop (unat ip_header_len) data) (ip_total_len - ip_header_len) ip_src ip_dst
              } else if ip_p = 17 then do {
                ip_src \<leftarrow> be32 data 12;
                ip_dst \<leftarrow> be32 data 16;
                map_option Inr (process_udp m (drop (unat ip_header_len) data) (ip_total_len - ip_header_len) ip_src ip_dst)
              } else Some (Inr m));
         (case c of
             Inl e \<Rightarrow> Some (Inl e)
           | Inr m \<Rightarrow> update_reports m)
       }
     }
   }"

end
