(* ===== verification/Datalink.thy ===== *)
theory Datalink
  imports Tcpip
begin

unbundle bit_operations_syntax

text \<open>
  \<open>unp/tcpflow\<close>, third part: the dump of a packet (\<open>print/print.c\<close>) and the handlers of the link layers
  (\<open>datalink.c\<close>).
\<close>

section \<open>\<open>print.c\<close>\<close>

definition hexdigit :: "nat \<Rightarrow> char" where
  "hexdigit n = (if n < 10 then char_of (48 + n) else char_of (87 + n))"

text \<open>\<open>%02x\<close> and \<open>%x\<close> of a byte.\<close>

definition hex2 :: "byte \<Rightarrow> string" where
  "hex2 b = [hexdigit (unat b div 16), hexdigit (unat b mod 16)]"

definition hex :: "byte \<Rightarrow> string" where
  "hex b = (if unat b < 16 then [hexdigit (unat b)] else hex2 b)"

fun hex_part :: "nat \<Rightarrow> byte list \<Rightarrow> string" where
  "hex_part i [] = []"
| "hex_part i (b # bs) = hex2 b @ '' '' @ (if i = 7 then '' '' else []) @ hex_part (Suc i) bs"

definition print_hex_ascii_line :: "byte list \<Rightarrow> int \<Rightarrow> int \<Rightarrow> string option" where
  "print_hex_ascii_line payload len offset = do {
     guard (nat len \<le> length payload);
     let bs = take (nat len) payload;
     Some (padded 5 (nat offset) @ ''   '' @ hex_part 0 bs @ (if len < 8 then '' '' else []) @
       (if len < 16 then replicate (2 * nat (16 - len)) (CHR '' '') else []) @ ''  '' @
       map (\<lambda>b. if isprint b then char_of (unat b) else CHR ''.'') bs @ ''\<newline>'')
   }"

lemma cmod_small: "cmod 16 n = Some l \<Longrightarrow> 16 < n - l \<Longrightarrow> l = 16"
proof -
  assume a: "cmod 16 n = Some l" "16 < n - l"
  show "l = 16"
  proof (cases "16 < n")
    case True
    then show ?thesis using a(1) by simp
  next
    case False
    have "0 \<le> l"
    proof (cases "0 < n")
      case True
      then show ?thesis using a(1) by auto
    next
      case False
      then have "n < 0" using a(1) by (cases "n = 0") (auto simp: cmod_def)
      then have "l = 16 - n * - (16 div - n)" using a(1) by (simp add: cmod_def sgn_if)
      also have "\<dots> = 16 mod (- n)" by (simp add: minus_mult_div_eq_mod [symmetric])
      finally show ?thesis using \<open>n < 0\<close> by simp
    qed
    then show ?thesis using False a(2) by simp
  qed
qed

text \<open>The \<open>for (;;)\<close> loop.\<close>

function payload_loop :: "byte list \<Rightarrow> int \<Rightarrow> int \<Rightarrow> string option" where
  "payload_loop ch len_rem offset = do {
     line_len \<leftarrow> cmod 16 len_rem;
     line \<leftarrow> print_hex_ascii_line ch line_len offset;
     let len_rem = len_rem - line_len;
     let ch = drop (nat line_len) ch;
     offset \<leftarrow> cint (offset + 16);
     if len_rem \<le> 16 then do {
       rest \<leftarrow> print_hex_ascii_line ch len_rem offset;
       Some (line @ rest)
     } else do {
       rest \<leftarrow> payload_loop ch len_rem offset;
       Some (line @ rest)
     }
   }"
  by pat_completeness auto

termination
  by (relation "measure (\<lambda>(ch, n, off). nat n)") (auto dest: cmod_small)

declare payload_loop.simps [simp del]

definition print_payload :: "byte list \<Rightarrow> int \<Rightarrow> string option" where
  "print_payload payload len = (if len \<le> 0 then Some []
     else if len \<le> 16 then print_hex_ascii_line payload len 0
     else payload_loop payload len 0)"

text \<open>\<open>ctime\<close> and \<open>inet_ntoa\<close> of libc, for the seconds and the raw address.\<close>

record libc =
  ctime :: "int \<Rightarrow> string"
  inet_ntoa :: "u32 \<Rightarrow> string"

record pcap_pkthdr =
  hts :: int
  caplen :: u32
  plen :: u32

definition tcp_packet_print :: "byte list \<Rightarrow> int \<Rightarrow> nat \<Rightarrow> string option" where
  "tcp_packet_print pkt packet_len ip_len = do {
     let tcpptr = drop (14 + ip_len) pkt;
     th_off \<leftarrow> byte_at tcpptr 12;
     let tcp_len = unat (drop_bit 4 th_off) * 4;
     if tcp_len < 20 then Some []
     else do {
       sp \<leftarrow> be16 tcpptr 0;
       dp \<leftarrow> be16 tcpptr 2;
       let new_packet = drop (14 + ip_len + tcp_len) pkt;
       let size_payload = packet_len - 14 - int ip_len - int tcp_len;
       d \<leftarrow> print_payload new_packet size_payload;
       Some (''  Src port:'' @ digits (unat sp) @ ''\<newline>  Dst prot:'' @ digits (unat dp) @
         ''\<newline>The content of length is '' @ decimal size_payload @ ''\<newline>'' @ d)
     }
   }"

definition ip_packet_print :: "libc \<Rightarrow> byte list \<Rightarrow> int \<Rightarrow> string option" where
  "ip_packet_print l pkt packet_len = do {
     b \<leftarrow> byte_at pkt 14;
     let ip_len = unat (b AND 15) * 4;
     if ip_len < 20 then Some (''   * Invalid IP header length: '' @ digits ip_len @ '' bytes\<newline>'')
     else do {
       saddr \<leftarrow> raw32 pkt 26;
       daddr \<leftarrow> raw32 pkt 30;
       protocol \<leftarrow> byte_at pkt 23;
       r \<leftarrow> (if protocol = 6 then map_option (\<lambda>r. ''  protocol:TCP\<newline>'' @ r) (tcp_packet_print pkt packet_len ip_len)
             else if protocol = 17 then Some ''  Protocol:UDP:\<newline>''
             else if protocol = 1 then Some ''  Procotol:icmp:\<newline>''
             else Some ''  Protcol:unknon\<newline>'');
       Some (''       From: '' @ inet_ntoa l saddr @ ''\<newline>         To: '' @ inet_ntoa l daddr @ ''\<newline>'' @ r)
     }
   }"

text \<open>The loop over the six bytes of a hardware address.\<close>

fun print_mac :: "nat \<Rightarrow> byte list \<Rightarrow> nat \<Rightarrow> string option" where
  "print_mac 0 ptr i = Some []"
| "print_mac (Suc n) ptr i = do {
     b \<leftarrow> byte_at ptr i;
     r \<leftarrow> print_mac n ptr (Suc i);
     Some ((if Suc n = 6 then [] else '':'') @ hex b @ r)
   }"

definition print_packet_orig :: "libc \<Rightarrow> monitor \<Rightarrow> pcap_pkthdr \<Rightarrow> byte list \<Rightarrow> monitor option" where
  "print_packet_orig l m h pkt = do {
     let packet_len = sint (plen h);
     c \<leftarrow> cint (print_count m + 1);
     d \<leftarrow> print_mac 6 pkt 0;
     s \<leftarrow> print_mac 6 pkt 6;
     proto \<leftarrow> be16 pkt 12;
     r \<leftarrow> (if proto = 0x0806 then Some ''arp packet\<newline>''
           else if proto = 0x0800 then map_option (\<lambda>r. ''ip packet \<newline>'' @ r) (ip_packet_print l pkt packet_len)
           else Some ''other packet\<newline>'');
     Some (m\<lparr>print_count := c, stdout := stdout m @ ''\<newline>Packet number '' @ decimal (print_count m) @ '':\<newline>Grabbed packet of length '' @
       decimal packet_len @ ''\<newline>Recevided at:'' @ ctime l (hts h) @ ''Destination address:'' @ d @ ''\<newline>source address:'' @ s @
       ''\<newline>'' @ r\<rparr>)
   }"

section \<open>\<open>datalink.c\<close>\<close>

definition NULL_HDRLEN :: nat where "NULL_HDRLEN = 4"
definition PPP_HDRLEN :: nat where "PPP_HDRLEN = 4"
definition SLL_HDR_LEN :: nat where "SLL_HDR_LEN = 16"

definition dl_null :: "options \<Rightarrow> libc \<Rightarrow> monitor \<Rightarrow> pcap_pkthdr \<Rightarrow> byte list \<Rightarrow> (fexit + monitor) option" where
  "dl_null opts l m h p = (if unat (caplen h) < NULL_HDRLEN then Some (Inr m)
     else do {
       family \<leftarrow> be32 p 0;
       if family \<noteq> 2 then Some (Inr m)
       else process_ip opts m (drop NULL_HDRLEN p) (caplen h - of_nat NULL_HDRLEN)
     })"

text \<open>
  \<open>packet\<close> and \<open>bytes\<close> are \<open>int\<close>s; \<open>length\<close> is unsigned, so that the sum is taken modulo \<open>2 ^ 32\<close>. The
  result of \<open>detect_encrypted_stream\<close>, which changes nothing, is not used.
\<close>

definition dl_ethernet :: "options \<Rightarrow> libc \<Rightarrow> monitor \<Rightarrow> pcap_pkthdr \<Rightarrow> byte list \<Rightarrow> (fexit + monitor) option" where
  "dl_ethernet opts l m h p = do {
     n \<leftarrow> cint (packet_no m + 1);
     let m = m\<lparr>packet_no := n\<rparr>;
     let m = (if n = 1 then first_packet_time m else m);
     let m = m\<lparr>bytes_no := sint (word_of_int (bytes_no m) + plen h)\<rparr>;
     if unat (caplen h) < 14 then Some (Inr m)
     else do {
       ether_type \<leftarrow> be16 p 12;
       m \<leftarrow> (if ether_type = 0x0806 then update_pkt_type m PROTO_ARP (sint (plen h)) else Some m);
       m \<leftarrow> print_packet_orig l m h p;
       if ether_type \<noteq> 0x0800 then Some (Inr m)
       else do {
         m \<leftarrow> update_pkt_type m PROTO_IP (sint (plen h));
         process_ip opts m (drop 14 p) (caplen h - 14)
       }
     }
   }"

definition dl_ppp :: "options \<Rightarrow> libc \<Rightarrow> monitor \<Rightarrow> pcap_pkthdr \<Rightarrow> byte list \<Rightarrow> (fexit + monitor) option" where
  "dl_ppp opts l m h p = (if unat (caplen h) < PPP_HDRLEN then Some (Inr m)
     else process_ip opts m (drop PPP_HDRLEN p) (caplen h - of_nat PPP_HDRLEN))"

definition dl_raw :: "options \<Rightarrow> libc \<Rightarrow> monitor \<Rightarrow> pcap_pkthdr \<Rightarrow> byte list \<Rightarrow> (fexit + monitor) option" where
  "dl_raw opts l m h p = process_ip opts m p (caplen h)"

definition dl_linux_sll :: "options \<Rightarrow> libc \<Rightarrow> monitor \<Rightarrow> pcap_pkthdr \<Rightarrow> byte list \<Rightarrow> (fexit + monitor) option" where
  "dl_linux_sll opts l m h p = (if unat (caplen h) < SLL_HDR_LEN then Some (Inr m)
     else process_ip opts m (drop SLL_HDR_LEN p) (caplen h - of_nat SLL_HDR_LEN))"

text \<open>The table of \<open>find_handler\<close> with the types of libpcap on Linux; an unknown type ends the process.\<close>

datatype handler = Dl_null | Dl_raw | Dl_ethernet | Dl_ppp | Dl_linux_sll

definition handlers :: "(handler \<times> int) list" where
  "handlers = [(Dl_null, 0), (Dl_raw, 12), (Dl_ethernet, 1), (Dl_ethernet, 6), (Dl_ppp, 9), (Dl_linux_sll, 113)]"

fun scan_handlers :: "(handler \<times> int) list \<Rightarrow> int \<Rightarrow> fexit + handler" where
  "scan_handlers [] datalink_type = Inl UnknownLink"
| "scan_handlers ((h, t) # hs) datalink_type = (if t = datalink_type then Inr h else scan_handlers hs datalink_type)"

definition find_handler :: "int \<Rightarrow> fexit + handler" where
  "find_handler datalink_type = scan_handlers handlers datalink_type"

fun run_handler :: "handler \<Rightarrow> options \<Rightarrow> libc \<Rightarrow> monitor \<Rightarrow> pcap_pkthdr \<Rightarrow> byte list \<Rightarrow> (fexit + monitor) option" where
  "run_handler Dl_null = dl_null"
| "run_handler Dl_raw = dl_raw"
| "run_handler Dl_ethernet = dl_ethernet"
| "run_handler Dl_ppp = dl_ppp"
| "run_handler Dl_linux_sll = dl_linux_sll"

end
