(* ===== verification/Tcpip_Conver.thy ===== *)
theory Tcpip_Conver
  imports Tcpip Linked
begin

text \<open>
  The conversations of \<open>conver.c\<close> as a plain list of records, and \<^const>\<open>tcp_conver_handler\<close> as an update
  of this list: a packet is counted in the conversation of its two ends, in its direction, or
  starts a new one.
\<close>

section \<open>The specification\<close>

type_synonym ends = "u32 \<times> u32 \<times> u16 \<times> u16"

fun turn :: "ends \<Rightarrow> ends" where
  "turn (a, b, p, q) = (b, a, q, p)"

definition ends_of :: "tcp_conver \<Rightarrow> u32 \<times> u32 \<times> int \<times> int" where
  "ends_of c = (addr_a c, addr_b c, port_a c, port_b c)"

fun wide :: "ends \<Rightarrow> u32 \<times> u32 \<times> int \<times> int" where
  "wide (a, b, p, q) = (a, b, int (unat p), int (unat q))"

definition count_one_to :: "tcp_conver \<Rightarrow> int \<times> int \<Rightarrow> int \<Rightarrow> tcp_conver" where
  "count_one_to c e n = c\<lparr>packets := packets c + 1, cbytes := cbytes c + n, packets_to := packets_to c + 1,
     bytes_to := bytes_to c + n, val_e := e\<rparr>"

definition count_one_from :: "tcp_conver \<Rightarrow> int \<times> int \<Rightarrow> int \<Rightarrow> tcp_conver" where
  "count_one_from c e n = c\<lparr>packets := packets c + 1, cbytes := cbytes c + n, packets_from := packets_from c + 1,
     bytes_from := bytes_from c + n, val_e := e\<rparr>"

fun spec_hit :: "ends \<Rightarrow> int \<times> int \<Rightarrow> int \<Rightarrow> tcp_conver list \<Rightarrow> tcp_conver list option" where
  "spec_hit k e n [] = None"
| "spec_hit k e n (c # cs) =
    (if ends_of c = wide k then Some (count_one_to c e n # cs)
     else if ends_of c = wide (turn k) then Some (count_one_from c e n # cs)
     else map_option ((#) c) (spec_hit k e n cs))"

fun new_conver :: "ends \<Rightarrow> int \<times> int \<Rightarrow> int \<Rightarrow> tcp_conver" where
  "new_conver (a, b, p, q) e n = \<lparr>cnext = None, addr_a = a, addr_b = b, port_a = int (unat p), port_b = int (unat q),
     packets = 1, cbytes = n, packets_to = 1, packets_from = 0, bytes_to = n, bytes_from = 0, val_s = e, val_e = (0, 0)\<rparr>"

definition spec_conver :: "ends \<Rightarrow> int \<times> int \<Rightarrow> int \<Rightarrow> tcp_conver list \<Rightarrow> tcp_conver list" where
  "spec_conver k e n cs = (case spec_hit k e n cs of None \<Rightarrow> new_conver k e n # cs | Some cs' \<Rightarrow> cs')"

section \<open>Counters\<close>

text \<open>Both directions add up, and no counter is beyond \<open>k\<close> packets of at most 70000 bytes.\<close>

definition counts_ok :: "nat \<Rightarrow> tcp_conver \<Rightarrow> bool" where
  "counts_ok k c \<longleftrightarrow> 0 \<le> packets_to c \<and> 0 \<le> packets_from c \<and> packets c = packets_to c + packets_from c \<and> packets c \<le> int k \<and>
     0 \<le> bytes_to c \<and> 0 \<le> bytes_from c \<and> cbytes c = bytes_to c + bytes_from c \<and> cbytes c \<le> 70000 * int k"

definition within :: "nat \<Rightarrow> bool" where
  "within k \<longleftrightarrow> 70000 * (int k + 1) \<le> int_max"

lemma counts_step:
  assumes "counts_ok k c" "0 \<le> n" "n \<le> 70000"
  shows "counts_ok (Suc k) c" "counts_ok (Suc k) (count_one_to c e n)" "counts_ok (Suc k) (count_one_from c e n)"
  using assms by (simp_all add: counts_ok_def count_one_to_def count_one_from_def)

lemma counts_new: "0 \<le> n \<Longrightarrow> n \<le> 70000 \<Longrightarrow> counts_ok (Suc k) (new_conver e t n)"
  by (cases e) (simp add: counts_ok_def)

lemma counted:
  assumes "counts_ok k c" "0 \<le> n" "n \<le> 70000" "within k"
  shows "count_to c e n = Some (count_one_to c e n)" "count_from c e n = Some (count_one_from c e n)"
proof -
  have "int_min \<le> x \<and> x \<le> int_max" if "0 \<le> x" "x \<le> 70000 * (int k + 1)" for x
    using that assms(4) by (simp add: within_def int_min_def)
  then have "cint x = Some x" if "0 \<le> x" "x \<le> 70000 * (int k + 1)" for x using that by (simp add: cint_def)
  then show "count_to c e n = Some (count_one_to c e n)" "count_from c e n = Some (count_one_from c e n)"
    using assms(1-3) by (simp_all add: counts_ok_def count_to_def count_from_def count_one_to_def count_one_from_def)
qed

lemma hit_counts:
  assumes "\<forall>c\<in>set cs. counts_ok k c" "0 \<le> n" "n \<le> 70000" "spec_hit q e n cs = Some cs'"
  shows "\<forall>c\<in>set cs'. counts_ok (Suc k) c"
  using assms(1,4)
proof (induction cs arbitrary: cs')
  case (Cons c cs)
  then have "counts_ok k c" "\<forall>c\<in>set cs. counts_ok k c" by simp_all
  then show ?case using Cons.IH Cons.prems(2) counts_step(1) [OF _ assms(2,3)] counts_step(2,3) [where e = e, OF _ assms(2,3)] by (auto split: if_splits)
qed simp

lemma spec_counts:
  assumes "\<forall>c\<in>set cs. counts_ok k c" "0 \<le> n" "n \<le> 70000"
  shows "\<forall>c\<in>set (spec_conver q e n cs). counts_ok (Suc k) c"
proof (cases "spec_hit q e n cs")
  case None
  then show ?thesis using assms counts_step(1) [OF _ assms(2,3)] counts_new [OF assms(2,3)] by (auto simp: spec_conver_def)
next
  case (Some cs')
  then show ?thesis using hit_counts [OF assms Some] by (simp add: spec_conver_def)
qed

lemma hit_sums:
  "spec_hit q e n cs = Some cs' \<Longrightarrow> sum_list (map packets cs') = sum_list (map packets cs) + 1 \<and>
     sum_list (map cbytes cs') = sum_list (map cbytes cs) + n \<and> map ends_of cs' = map ends_of cs"
proof (induction cs arbitrary: cs')
  case (Cons c cs)
  then show ?case by (auto simp: count_one_to_def count_one_from_def ends_of_def split: if_splits)
qed simp

lemma spec_sums:
  "sum_list (map packets (spec_conver q e n cs)) = sum_list (map packets cs) + 1"
  "sum_list (map cbytes (spec_conver q e n cs)) = sum_list (map cbytes cs) + n"
  using hit_sums [of q e n cs] by (cases q; auto simp: spec_conver_def split: option.split)+

lemma hit_None: "spec_hit q e n cs = None \<longleftrightarrow> (\<forall>c\<in>set cs. ends_of c \<noteq> wide q \<and> ends_of c \<noteq> wide (turn q))"
  by (induction cs) auto

text \<open>No two conversations have the same two ends, in whichever order.\<close>

fun flip :: "u32 \<times> u32 \<times> int \<times> int \<Rightarrow> u32 \<times> u32 \<times> int \<times> int" where
  "flip (a, b, p, q) = (b, a, q, p)"

lemma flip_wide [simp]: "flip (wide k) = wide (turn k)" "wide (turn (turn k)) = wide k" "flip (flip x) = x"
  by (cases k; simp)+ (cases x; simp)

fun apart :: "(u32 \<times> u32 \<times> int \<times> int) list \<Rightarrow> bool" where
  "apart [] \<longleftrightarrow> True"
| "apart (x # xs) \<longleftrightarrow> x \<notin> set xs \<and> flip x \<notin> set xs \<and> apart xs"

lemma ends_new: "ends_of (new_conver k e n) = wide k"
  by (cases k) (simp add: ends_of_def)

lemma spec_apart: "apart (map ends_of cs) \<Longrightarrow> apart (map ends_of (spec_conver q e n cs))"
  using hit_sums [of q e n cs] hit_None [of q e n cs] by (auto simp: spec_conver_def ends_new split: option.split)

section \<open>What is counted where\<close>

text \<open>
  \<open>ks\<close> are the packets so far, each with its ends and its bytes. Each pair of ends has its
  conversation, and each conversation has counted exactly the packets between its ends, those from
  the first end to the second in \<open>packets_to\<close> and \<open>bytes_to\<close>, the others in \<open>packets_from\<close> and \<open>bytes_from\<close>.
\<close>

definition sent_to :: "(ends \<times> int) list \<Rightarrow> tcp_conver \<Rightarrow> int list" where
  "sent_to ks c = map snd (filter (\<lambda>k. ends_of c = wide (fst k)) ks)"

definition sent_from :: "(ends \<times> int) list \<Rightarrow> tcp_conver \<Rightarrow> int list" where
  "sent_from ks c = map snd (filter (\<lambda>k. ends_of c = wide (turn (fst k)) \<and> ends_of c \<noteq> wide (fst k)) ks)"

definition has_counted :: "(ends \<times> int) list \<Rightarrow> tcp_conver \<Rightarrow> bool" where
  "has_counted ks c \<longleftrightarrow> packets_to c = int (length (sent_to ks c)) \<and> bytes_to c = sum_list (sent_to ks c) \<and>
     packets_from c = int (length (sent_from ks c)) \<and> bytes_from c = sum_list (sent_from ks c) \<and> sent_to ks c \<noteq> []"

definition all_counted :: "(ends \<times> int) list \<Rightarrow> tcp_conver list \<Rightarrow> bool" where
  "all_counted ks cs \<longleftrightarrow> (\<forall>k\<in>set ks. \<exists>c\<in>set cs. ends_of c = wide (fst k) \<or> ends_of c = wide (turn (fst k))) \<and>
     (\<forall>c\<in>set cs. has_counted ks c)"

lemma sent_simps:
  "sent_to (ks @ [(k, n)]) c = sent_to ks c @ (if ends_of c = wide k then [n] else [])"
  "sent_from (ks @ [(k, n)]) c = sent_from ks c @ (if ends_of c = wide (turn k) \<and> ends_of c \<noteq> wide k then [n] else [])"
  by (auto simp: sent_to_def sent_from_def)

lemma counted_other: "has_counted ks c \<Longrightarrow> ends_of c \<noteq> wide k \<Longrightarrow> ends_of c \<noteq> wide (turn k) \<Longrightarrow> has_counted (ks @ [(k, n)]) c"
  by (simp add: has_counted_def sent_simps)

lemma counted_hit:
  assumes "has_counted ks c"
  shows "ends_of c = wide k \<Longrightarrow> has_counted (ks @ [(k, n)]) (count_one_to c e n)"
    "ends_of c \<noteq> wide k \<Longrightarrow> ends_of c = wide (turn k) \<Longrightarrow> has_counted (ks @ [(k, n)]) (count_one_from c e n)"
proof -
  have e: "ends_of (count_one_to c e n) = ends_of c" "ends_of (count_one_from c e n) = ends_of c"
    by (simp_all add: ends_of_def count_one_to_def count_one_from_def)
  then have s: "sent_to ks (count_one_to c e n) = sent_to ks c" "sent_from ks (count_one_to c e n) = sent_from ks c"
    "sent_to ks (count_one_from c e n) = sent_to ks c" "sent_from ks (count_one_from c e n) = sent_from ks c"
    by (simp_all add: sent_to_def sent_from_def)
  show "ends_of c = wide k \<Longrightarrow> has_counted (ks @ [(k, n)]) (count_one_to c e n)"
    using assms unfolding has_counted_def sent_simps e s by (simp add: count_one_to_def)
  show "ends_of c \<noteq> wide k \<Longrightarrow> ends_of c = wide (turn k) \<Longrightarrow> has_counted (ks @ [(k, n)]) (count_one_from c e n)"
    using assms unfolding has_counted_def sent_simps e s by (simp add: count_one_from_def)
qed

lemma hit_counted:
  assumes "\<forall>c\<in>set cs. has_counted ks c" "apart (map ends_of cs)" "spec_hit k e n cs = Some cs'"
  shows "\<forall>c\<in>set cs'. has_counted (ks @ [(k, n)]) c"
  using assms
proof (induction cs arbitrary: cs')
  case (Cons c cs)
  have rest: "\<forall>d\<in>set cs. has_counted (ks @ [(k, n)]) d" if "ends_of c = wide k \<or> ends_of c = wide (turn k)"
  proof
    fix d assume d: "d \<in> set cs"
    then have "ends_of d \<in> set (map ends_of cs)" by simp
    then have "ends_of d \<noteq> ends_of c \<and> ends_of d \<noteq> flip (ends_of c)" using Cons.prems(2) by auto
    then have "ends_of d \<noteq> wide k" "ends_of d \<noteq> wide (turn k)" using that by auto
    then show "has_counted (ks @ [(k, n)]) d" using Cons.prems(1) d by (intro counted_other) auto
  qed
  consider "ends_of c = wide k" | "ends_of c \<noteq> wide k" "ends_of c = wide (turn k)" | "ends_of c \<noteq> wide k" "ends_of c \<noteq> wide (turn k)"
    by blast
  then show ?case
  proof cases
    case 3
    then obtain ds where "spec_hit k e n cs = Some ds" "cs' = c # ds" using Cons.prems(3) by auto
    then show ?thesis using Cons.IH Cons.prems(1,2) counted_other [OF _ 3] by simp
  next
    case 1
    then have "cs' = count_one_to c e n # cs" using Cons.prems(3) by simp
    then show ?thesis using rest 1 counted_hit(1) [OF _ 1, of ks n e] Cons.prems(1) by simp
  next
    case 2
    then have "cs' = count_one_from c e n # cs" using Cons.prems(3) by simp
    then show ?thesis using rest 2 counted_hit(2) [OF _ 2, of ks n e] Cons.prems(1) by simp
  qed
qed simp

lemma spec_counted:
  assumes "all_counted ks cs" "apart (map ends_of cs)"
  shows "all_counted (ks @ [(k, n)]) (spec_conver k e n cs)"
proof (cases "spec_hit k e n cs")
  case None
  then have no: "\<forall>c\<in>set cs. ends_of c \<noteq> wide k \<and> ends_of c \<noteq> wide (turn k)" by (simp add: hit_None)
  have new: "wide (fst x) \<noteq> wide k" "wide (turn (fst x)) \<noteq> wide k" if "x \<in> set ks" for x
  proof -
    have "\<forall>k\<in>set ks. \<exists>c\<in>set cs. ends_of c = wide (fst k) \<or> ends_of c = wide (turn (fst k))"
      using assms(1) unfolding all_counted_def by (rule conjunct1)
    from bspec [OF this that] obtain c where c: "c \<in> set cs" "ends_of c = wide (fst x) \<or> ends_of c = wide (turn (fst x))" by (elim bexE)
    have "wide (fst x) \<noteq> wide k \<and> flip (wide (fst x)) \<noteq> wide k"
    proof
      show "wide (fst x) \<noteq> wide k"
      proof
        assume e: "wide (fst x) = wide k"
        have "wide (turn (fst x)) = wide (turn k)" using arg_cong [OF e, of flip] by simp
        then show False using c no e by auto
      qed
      show "flip (wide (fst x)) \<noteq> wide k"
      proof
        assume "flip (wide (fst x)) = wide k"
        then have "wide (turn (fst x)) = wide k" "wide (fst x) = wide (turn k)"
          using flip_wide(1) [of k] flip_wide(3) [of "wide (fst x)"] by simp_all
        then show False using c no by auto
      qed
    qed
    then show "wide (fst x) \<noteq> wide k" "wide (turn (fst x)) \<noteq> wide k" by simp_all
  qed
  let ?c = "new_conver k e n"
  have "sent_to ks ?c = []" "sent_from ks ?c = []"
    using new by (fastforce simp: sent_to_def sent_from_def ends_new filter_empty_conv)+
  then have "has_counted (ks @ [(k, n)]) ?c" by (cases k) (simp add: has_counted_def sent_simps ends_of_def)
  moreover have "\<forall>c\<in>set cs. has_counted (ks @ [(k, n)]) c" using assms(1) no by (auto simp: all_counted_def intro: counted_other)
  ultimately show ?thesis using assms(1) None ends_new [of k e n] by (auto simp: all_counted_def spec_conver_def)
next
  case (Some cs')
  have e: "map ends_of cs' = map ends_of cs" using hit_sums [OF Some] by simp
  then have s: "ends_of ` set cs' = ends_of ` set cs" by (metis set_map)
  have "\<exists>c\<in>set cs. ends_of c = wide k \<or> ends_of c = wide (turn k)" using Some hit_None [of k e n cs] by auto
  then have "\<forall>x\<in>set (ks @ [(k, n)]). \<exists>c\<in>set cs. ends_of c = wide (fst x) \<or> ends_of c = wide (turn (fst x))"
    using assms(1) by (auto simp: all_counted_def)
  then have "\<forall>x\<in>set (ks @ [(k, n)]). \<exists>y\<in>ends_of ` set cs'. y = wide (fst x) \<or> y = wide (turn (fst x))" unfolding s by blast
  moreover have "\<forall>c\<in>set cs'. has_counted (ks @ [(k, n)]) c" by (rule hit_counted [OF _ assms(2) Some]) (use assms(1) in \<open>simp add: all_counted_def\<close>)
  ultimately show ?thesis using Some by (simp add: all_counted_def spec_conver_def)
qed

section \<open>The handler\<close>

text \<open>The packet has the fields of its two ends.\<close>

fun headers :: "byte list \<Rightarrow> nat \<Rightarrow> ends \<Rightarrow> bool" where
  "headers d ihl (a, b, p, q) \<longleftrightarrow> raw32 d 12 = Some a \<and> raw32 d 16 = Some b \<and> raw16 d ihl = Some p \<and> raw16 d (ihl + 2) = Some q"

lemma ends_are_spec:
  assumes "headers d ihl k"
  shows "ends_are c d 12 16 ihl (ihl + 2) = Some (ends_of c = wide k)"
    "ends_are c d 16 12 (ihl + 2) ihl = Some (ends_of c = wide (turn k))"
  using assms by (cases k; auto simp: ends_are_def ends_of_def)+

definition bare :: "tcp_conver \<Rightarrow> tcp_conver" where
  "bare c = c\<lparr>cnext := None\<rparr>"

lemma bare_fields [simp]:
  "ends_of (bare c) = ends_of c" "counts_ok k (bare c) = counts_ok k c"
  "count_one_to (bare c) e n = bare (count_one_to c e n)" "count_one_from (bare c) e n = bare (count_one_from c e n)"
  by (simp_all add: bare_def ends_of_def counts_ok_def count_one_to_def count_one_from_def)

definition convers_at :: "(nat \<rightharpoonup> tcp_conver) \<Rightarrow> nat list \<Rightarrow> tcp_conver list" where
  "convers_at h as = map (\<lambda>a. bare (the (h a))) as"

lemma convers_cons: "convers_at h (a # as) = bare (the (h a)) # convers_at h as"
  by (simp add: convers_at_def)

lemma convers_upd: "a \<notin> set as \<Longrightarrow> convers_at (h(a \<mapsto> c)) as = convers_at h as"
  by (simp add: convers_at_def)

text \<open>A hit changes one record and keeps its link.\<close>

definition hit_at :: "monitor \<Rightarrow> nat list \<Rightarrow> tcp_conver list \<Rightarrow> monitor \<Rightarrow> bool" where
  "hit_at m as cs m' \<longleftrightarrow> (\<exists>a c c'. a \<in> set as \<and> cells (convs m) a = Some c \<and> cnext c' = cnext c \<and>
     m' = m\<lparr>times := Suc (times m), convs := (convs m)\<lparr>cells := (cells (convs m))(a \<mapsto> c')\<rparr>\<rparr> \<and>
     convers_at ((cells (convs m))(a \<mapsto> c')) as = cs)"

lemma conver_loop_spec:
  assumes "lchain cnext (cells (convs m)) p as" "headers d ihl k" "0 \<le> n" "n \<le> 70000" "within j"
    "\<forall>c\<in>set (convers_at (cells (convs m)) as). counts_ok j c"
  shows "case spec_hit k (since (now m (times m)) (tv_main m)) n (convers_at (cells (convs m)) as) of
      None \<Rightarrow> conver_loop m d ihl n p = Some (False, m)
    | Some cs \<Rightarrow> \<exists>m'. conver_loop m d ihl n p = Some (True, m') \<and> hit_at m as cs m'"
  using assms(1,6)
proof (induction as arbitrary: p)
  case Nil
  then show ?case by (simp add: convers_at_def conver_loop.simps)
next
  case (Cons a as)
  let ?e = "since (now m (times m)) (tv_main m)"
  obtain c where c: "p = Some a" "cells (convs m) a = Some c" "lchain cnext (cells (convs m)) (cnext c) as" using Cons.prems(1) by auto
  have a: "a \<notin> set as" using lchain_distinct [OF Cons.prems(1)] by simp
  have ca: "convers_at (cells (convs m)) (a # as) = bare c # convers_at (cells (convs m)) as" using c(2) by (simp add: convers_at_def)
  have ok: "counts_ok j c" using Cons.prems(2) ca by simp
  note E = ends_are_spec [OF assms(2)] and N = counted [OF ok assms(3-5)]
  have hit: "hit_at m (a # as) (bare c' # convers_at (cells (convs m)) as)
      (m\<lparr>times := Suc (times m), convs := (convs m)\<lparr>cells := (cells (convs m))(a \<mapsto> c')\<rparr>\<rparr>)"
    if "cnext c' = cnext c" for c'
    unfolding hit_at_def using c(2) a that by (intro exI [of _ a] exI [of _ c] exI [of _ c']) (simp add: convers_at_def)
  consider (fwd) "ends_of c = wide k" | (bwd) "ends_of c \<noteq> wide k" "ends_of c = wide (turn k)"
    | (no) "ends_of c \<noteq> wide k" "ends_of c \<noteq> wide (turn k)" by blast
  then show ?case
  proof cases
    case fwd
    have "cnext (count_one_to c ?e n) = cnext c" by (simp add: count_one_to_def)
    then show ?thesis using hit [of "count_one_to c ?e n"] fwd c(1,2) E(1) N(1)
      by (simp add: ca conver_loop.simps [of m d ihl n "Some a"] gettimeofday_def store_def Let_def)
  next
    case bwd
    have "cnext (count_one_from c ?e n) = cnext c" by (simp add: count_one_from_def)
    then show ?thesis using hit [of "count_one_from c ?e n"] bwd c(1,2) E N(2)
      by (simp add: ca conver_loop.simps [of m d ihl n "Some a"] gettimeofday_def store_def Let_def)
  next
    case no
    have run: "conver_loop m d ihl n p = conver_loop m d ihl n (cnext c)"
      using no c(1,2) E by (simp add: conver_loop.simps [of m d ihl n "Some a"])
    have IH: "case spec_hit k ?e n (convers_at (cells (convs m)) as) of
        None \<Rightarrow> conver_loop m d ihl n (cnext c) = Some (False, m)
      | Some cs \<Rightarrow> \<exists>m'. conver_loop m d ihl n (cnext c) = Some (True, m') \<and> hit_at m as cs m'"
      by (rule Cons.IH [OF c(3)]) (use Cons.prems(2) ca in simp)
    have lift: "hit_at m (a # as) (bare c # cs) m'" if h: "hit_at m as cs m'" for cs m'
    proof -
      obtain b x y where b: "b \<in> set as" "cells (convs m) b = Some x" "cnext y = cnext x"
        "m' = m\<lparr>times := Suc (times m), convs := (convs m)\<lparr>cells := (cells (convs m))(b \<mapsto> y)\<rparr>\<rparr>"
        "convers_at ((cells (convs m))(b \<mapsto> y)) as = cs" using h unfolding hit_at_def by blast
      have "a \<noteq> b" using a b(1) by auto
      then have "convers_at ((cells (convs m))(b \<mapsto> y)) (a # as) = bare c # cs" using c(2) b(5) by (simp add: convers_at_def)
      then show ?thesis unfolding hit_at_def using b(1-4) by auto
    qed
    show ?thesis using IH no lift unfolding run ca by (auto split: option.splits)
  qed
qed

text \<open>The conversations the monitor holds.\<close>

definition convers :: "monitor \<Rightarrow> tcp_conver list \<Rightarrow> bool" where
  "convers m cs \<longleftrightarrow> heap_ok (convs m) \<and> (\<exists>as. lchain cnext (cells (convs m)) (tcp_con_head m) as \<and> convers_at (cells (convs m)) as = cs)"

text \<open>The report on the conversations has a row for each.\<close>

definition conver_report :: "tcp_conver list \<Rightarrow> item list" where
  "conver_report cs = conver_head @ concat (map conver_row cs)"

lemma conver_row_bare: "conver_row (bare c) = conver_row c"
  by (simp add: conver_row_def bare_def Let_def)

lemma conver_rows_spec:
  "lchain cnext (cells (convs m)) p as \<Longrightarrow> conver_rows m p = Some (concat (map conver_row (convers_at (cells (convs m)) as)))"
proof (induction as arbitrary: p)
  case Nil
  then show ?case by (simp add: conver_rows.simps convers_at_def)
next
  case (Cons a as)
  then obtain c where "p = Some a" "cells (convs m) a = Some c" "lchain cnext (cells (convs m)) (cnext c) as" by auto
  then show ?case using Cons.IH by (simp add: conver_rows.simps [of m "Some a"] convers_cons conver_row_bare)
qed

lemma convers_report: "convers m cs \<Longrightarrow> write_tcp_conver_file m = Some (conver_report cs)"
  by (auto simp: convers_def write_tcp_conver_file_def conver_rows_spec conver_report_def)

text \<open>
  The reports can be written: their files can be opened, hold no word that is too long for the
  buffer they are read into, and two characters can be read behind the string of dashes.
\<close>

definition reports_ok :: "monitor \<Rightarrow> bool" where
  "reports_ok m \<longleftrightarrow> (\<forall>i. \<exists>ws. report m i = Some ws \<and> list_all (\<lambda>w. w < 100) ws) \<and> 2 \<le> length (behind_literal m)"

definition report_frame :: "monitor \<Rightarrow> monitor \<Rightarrow> bool" where
  "report_frame m m' \<longleftrightarrow> m' = m\<lparr>utcs := utcs m', reports := reports m', summary_file := summary_file m', conver_file := conver_file m'\<rparr>"

lemma report_opens:
  assumes "reports_ok m"
  shows "read_report m = Some (Inr (m\<lparr>reports := Suc (reports m)\<rparr>))" "open_report m = Inr (m\<lparr>reports := Suc (reports m)\<rparr>)"
proof -
  obtain ws where "report m (reports m) = Some ws" "list_all (\<lambda>w. w < 100) ws" using assms by (auto simp: reports_ok_def)
  then show "read_report m = Some (Inr (m\<lparr>reports := Suc (reports m)\<rparr>))" "open_report m = Inr (m\<lparr>reports := Suc (reports m)\<rparr>)"
    by (simp_all add: read_report_def open_report_def)
qed

lemma summary_info_total:
  assumes "2 \<le> length (behind_literal m)"
  shows "\<exists>info. write_summary_file_info m = Some (info, m\<lparr>utcs := Suc (utcs m)\<rparr>)"
proof -
  have "length (dashes @ [CHR 0x00] @ behind_literal m) \<ge> 30" using assms by (simp add: dashes_def)
  then have "memcpy (dashes @ [CHR 0x00] @ behind_literal m) 30 = Some (take 30 (dashes @ [CHR 0x00] @ behind_literal m))"
    by (simp add: memcpy_def)
  moreover obtain q where "cdiv (bytes_no m) 1024 = Some q" by (simp add: cdiv_def)
  ultimately show ?thesis by (auto simp: write_summary_file_info_def gmtime_def Let_def split: prod.splits)
qed

lemma type_rows_total: "i + length names \<le> length (protocl_types m) \<Longrightarrow> \<exists>rows. type_rows m i names = Some rows"
proof (induction names arbitrary: i)
  case (Cons name names)
  then obtain rows where "type_rows m (Suc i) names = Some rows" by fastforce
  moreover have "aread (protocl_types m) (int i) = Some (protocl_types m ! i)" using Cons.prems by (simp add: aread_def)
  ultimately show ?case by (auto split: prod.split)
qed simp

lemma update_summary_file_total:
  assumes "reports_ok m" "length (protocl_types m) = 10"
  shows "\<exists>s. update_summary_file m = Some (Inr (m\<lparr>reports := Suc (Suc (reports m)), utcs := Suc (utcs m), summary_file := s\<rparr>))"
proof -
  let ?m = "m\<lparr>reports := Suc (reports m)\<rparr>"
  let ?m2 = "?m\<lparr>reports := Suc (reports ?m)\<rparr>"
  have ok: "reports_ok ?m" using assms(1) by (simp add: reports_ok_def)
  obtain info where info: "write_summary_file_info ?m2 = Some (info, ?m2\<lparr>utcs := Suc (utcs ?m2)\<rparr>)"
    using summary_info_total [of ?m2] assms(1) by (auto simp: reports_ok_def)
  have "0 + length type_names \<le> length (protocl_types (?m2\<lparr>utcs := Suc (utcs ?m2)\<rparr>))" using assms(2) by (simp add: type_names_def)
  from type_rows_total [OF this] obtain rows where "write_summary_file (?m2\<lparr>utcs := Suc (utcs ?m2)\<rparr>) = Some rows"
    by (auto simp: write_summary_file_def)
  then show ?thesis using report_opens(1) [OF assms(1)] report_opens(2) [OF ok] info
    by (intro exI [of _ "info @ rows"]) (simp add: update_summary_file_def)
qed

lemma update_reports_total:
  assumes "reports_ok m" "length (protocl_types m) = 10" "convers m cs"
  shows "\<exists>m'. update_reports m = Some (Inr m') \<and> report_frame m m' \<and> conver_file m' = conver_report cs"
proof -
  obtain s where s: "update_summary_file m = Some (Inr (m\<lparr>reports := Suc (Suc (reports m)), utcs := Suc (utcs m), summary_file := s\<rparr>))"
    using update_summary_file_total [OF assms(1,2)] by blast
  let ?m = "m\<lparr>reports := Suc (Suc (reports m)), utcs := Suc (utcs m), summary_file := s\<rparr>"
  let ?m1 = "?m\<lparr>reports := Suc (reports ?m)\<rparr>"
  let ?m2 = "?m1\<lparr>reports := Suc (reports ?m1)\<rparr>"
  have ok: "reports_ok ?m" "reports_ok ?m1" using assms(1) by (simp_all add: reports_ok_def)
  have "convers ?m2 cs" using assms(3) by (simp add: convers_def)
  from convers_report [OF this] have "update_tcp_conver_file ?m = Some (Inr (?m2\<lparr>conver_file := conver_report cs\<rparr>))"
    using report_opens(1) [OF ok(1)] report_opens(2) [OF ok(2)] by (simp add: update_tcp_conver_file_def)
  then show ?thesis using s by (intro exI [of _ "?m2\<lparr>conver_file := conver_report cs\<rparr>"]) (simp add: update_reports_def report_frame_def)
qed

text \<open>What the handler leaves alone.\<close>

definition conver_frame :: "monitor \<Rightarrow> monitor \<Rightarrow> bool" where
  "conver_frame m m' \<longleftrightarrow> flows m' = flows m \<and> protocl_types m' = protocl_types m \<and> tv_main m' = tv_main m \<and> packet_no m' = packet_no m \<and>
     bytes_no m' = bytes_no m \<and> now m' = now m \<and> report m' = report m \<and> behind_literal m' = behind_literal m \<and> stdout m' = stdout m \<and> print_count m' = print_count m \<and>
     env (convs m') = env (convs m) \<and> times m' = Suc (times m)"

theorem tcp_conver_handler_spec:
  assumes "convers m cs" "headers d ihl k" "0 \<le> n" "n \<le> 70000" "within j" "\<forall>c\<in>set cs. counts_ok j c"
    "\<forall>a. env (convs m) a \<noteq> None"
  shows "\<exists>m'. tcp_conver_handler m d ihl n = Some m' \<and>
    convers m' (spec_conver k (since (now m (times m)) (tv_main m)) n cs) \<and> conver_frame m m'"
proof -
  let ?e = "since (now m (times m)) (tv_main m)"
  obtain as where as: "heap_ok (convs m)" "lchain cnext (cells (convs m)) (tcp_con_head m) as" "convers_at (cells (convs m)) as = cs"
    using assms(1) by (auto simp: convers_def)
  note L = conver_loop_spec [OF as(2) assms(2-5)]
  show ?thesis
  proof (cases "spec_hit k ?e n cs")
    case (Some cs')
    then obtain m' where m': "conver_loop m d ihl n (tcp_con_head m) = Some (True, m')" "hit_at m as cs' m'"
      using L assms(6) as(3) by auto
    obtain a c c' where a: "a \<in> set as" "cells (convs m) a = Some c" "cnext c' = cnext c"
      "m' = m\<lparr>times := Suc (times m), convs := (convs m)\<lparr>cells := (cells (convs m))(a \<mapsto> c')\<rparr>\<rparr>"
      "convers_at ((cells (convs m))(a \<mapsto> c')) as = cs'" using m'(2) unfolding hit_at_def by blast
    have "lchain cnext ((cells (convs m))(a \<mapsto> c')) (tcp_con_head m) as" using lseg_upd_same [of "cells (convs m)" a c cnext c'] a(2,3) as(2) by blast
    moreover have "heap_ok ((convs m)\<lparr>cells := (cells (convs m))(a \<mapsto> c')\<rparr>)"
      by (rule heap_ok_upd [OF as(1)]) (rule heap_okD [OF as(1) a(2)])
    ultimately have "convers m' cs'" unfolding convers_def using a(4,5) by auto
    moreover have "conver_frame m m'" by (simp add: conver_frame_def a(4))
    ultimately show ?thesis using m'(1) Some by (simp add: tcp_conver_handler_def spec_conver_def)
  next
    case None
    then have loop: "conver_loop m d ihl n (tcp_con_head m) = Some (False, m)" using L assms(6) as(3) by simp
    obtain x where x: "env (convs m) (brk (convs m)) = Some x" using assms(7) by blast
    obtain a b p q where k: "k = (a, b, p, q)" by (cases k)
    have raw: "raw32 d 12 = Some a" "raw32 d 16 = Some b" "raw16 d ihl = Some p" "raw16 d (ihl + 2) = Some q"
      using assms(2) k by simp_all
    let ?c = "(new_conver k ?e n)\<lparr>cnext := tcp_con_head m\<rparr>" and ?b = "brk (convs m)"
    let ?m = "m\<lparr>times := Suc (times m), convs := (convs m)\<lparr>cells := (cells (convs m))(?b \<mapsto> ?c), brk := Suc ?b\<rparr>, tcp_con_head := Some ?b\<rparr>"
    have nb: "?b \<notin> set as" using lseg_cell [OF as(2)] heap_ok_brk [OF as(1)] by fastforce
    have run: "tcp_conver_handler m d ihl n = Some ?m"
      by (simp add: tcp_conver_handler_def loop gettimeofday_def cmalloc_grants [OF x] raw [simplified] store_def k Let_def)
    have "lchain cnext ((cells (convs m))(?b \<mapsto> ?c)) (Some ?b) (?b # as)" using as(2) nb by simp
    moreover have "bare ?c = new_conver k ?e n" by (simp add: bare_def k)
    then have "convers_at ((cells (convs m))(?b \<mapsto> ?c)) (?b # as) = new_conver k ?e n # cs"
      using as(3) convers_upd [OF nb] by (simp add: convers_cons)
    moreover have "heap_ok ((convs m)\<lparr>cells := (cells (convs m))(?b \<mapsto> ?c), brk := Suc ?b\<rparr>)" using as(1) by (simp add: heap_ok_def)
    ultimately have "convers ?m (new_conver k ?e n # cs)" unfolding convers_def by (intro conjI exI [of _ "?b # as"]) simp_all
    moreover have "conver_frame m ?m" by (simp add: conver_frame_def)
    ultimately show ?thesis using run None by (simp add: spec_conver_def)
  qed
qed

end
