(* ===== verification/Tcpip_Process.thy ===== *)
theory Tcpip_Process
  imports Tcpip Tcpip_Conver Flow_Stream
begin

unbundle bit_operations_syntax

text \<open>
  Datagrams as they are on the wire, built field by field, and what the accesses of \<open>tcpip.c\<close> and
  \<open>conver.c\<close> read from them.
\<close>

section \<open>Fields\<close>

definition enc16 :: "u16 \<Rightarrow> byte list" where
  "enc16 w = [ucast (drop_bit 8 w), ucast w]"

definition enc32 :: "u32 \<Rightarrow> byte list" where
  "enc32 w = enc16 (ucast (drop_bit 16 w)) @ enc16 (ucast w)"

lemma length_enc [simp]: "length (enc16 w) = 2" "length (enc32 v) = 4"
  by (simp_all add: enc16_def enc32_def)

lemma cat_enc: "cat16 (enc16 w) = w" "cat32 (enc32 v) = v"
proof -
  have c: "cat16 (enc16 w @ xs) = w" for w xs
    by (rule bit_word_eqI) (auto simp: cat16_def enc16_def bit_word_cat_iff bit_ucast_iff bit_drop_bit_eq)
  show "cat16 (enc16 w) = w" using c [of w "[]"] by simp
  have "cat32 (enc32 v) = word_cat (ucast (drop_bit 16 v) :: u16) (ucast v :: u16)"
    using c [of _ "[]"] by (simp add: cat32_def enc32_def c)
  also have "\<dots> = v" by (rule bit_word_eqI) (auto simp: bit_word_cat_iff bit_ucast_iff bit_drop_bit_eq)
  finally show "cat32 (enc32 v) = v" .
qed

lemma field_append: "length a = i \<Longrightarrow> length b = k \<Longrightarrow> field (a @ b @ c) i k = Some b"
  by (auto simp: field_def)

lemma byte_at_nth: "i < length d \<Longrightarrow> byte_at d i = Some (d ! i)"
  by (simp add: byte_at_def field_def take_Suc hd_drop_conv_nth)

text \<open>A field in host order is the bytes of its reverse.\<close>

definition host16 :: "u16 \<Rightarrow> u16" where "host16 w = cat16 (rev (enc16 w))"
definition host32 :: "u32 \<Rightarrow> u32" where "host32 w = cat32 (rev (enc32 w))"

lemma be_fields:
  assumes "length a = i"
  shows "be16 (a @ enc16 w @ c) i = Some w" "be32 (a @ enc32 v @ c) i = Some v"
    "raw16 (a @ enc16 w @ c) i = Some (host16 w)" "raw32 (a @ enc32 v @ c) i = Some (host32 v)"
  using field_append [OF assms, of "enc16 w" 2 c] field_append [OF assms, of "enc32 v" 4 c]
  by (simp_all add: be16_def be32_def raw16_def raw32_def host16_def host32_def cat_enc)

section \<open>TCP segments and IP datagrams\<close>

text \<open>
  What a segment carries, and the parts of the headers nobody looks at: acknowledgement, flags
  and checksum of TCP, options of both headers, type of service, identification, time to live.
\<close>

record segment =
  source :: u32
  dest :: u32
  s_port :: u16
  d_port :: u16
  seq_no :: u32
  payload :: "byte list"
  ack :: "byte list"
  tcp_rest :: "byte list"
  tcp_options :: "byte list"
  tos :: byte
  ident :: "byte list"
  fragment :: u16
  ttl :: byte
  checksum :: "byte list"
  ip_options :: "byte list"
  padding :: "byte list"

definition segment_ok :: "segment \<Rightarrow> bool" where
  "segment_ok s \<longleftrightarrow> length (ack s) = 4 \<and> length (tcp_rest s) = 7 \<and> length (ident s) = 2 \<and> length (checksum s) = 2 \<and>
     fragment s AND 0x1fff = 0 \<and> length (tcp_options s) \<le> 40 \<and> 4 dvd length (tcp_options s) \<and>
     length (ip_options s) \<le> 40 \<and> 4 dvd length (ip_options s) \<and> length (padding s) \<le> 46 \<and>
     40 + length (ip_options s) + length (tcp_options s) + length (payload s) \<le> 65535"

definition tcp_head :: "segment \<Rightarrow> byte list" where
  "tcp_head s = enc16 (s_port s) @ enc16 (d_port s) @ enc32 (seq_no s) @ ack s @
     push_bit 4 (of_nat (5 + length (tcp_options s) div 4)) # tcp_rest s @ tcp_options s"

definition total_len :: "segment \<Rightarrow> nat" where
  "total_len s = 40 + length (ip_options s) + length (tcp_options s) + length (payload s)"

definition ip_head :: "segment \<Rightarrow> byte list" where
  "ip_head s = (0x40 OR of_nat (5 + length (ip_options s) div 4)) # tos s # enc16 (of_nat (total_len s)) @ ident s @
     enc16 (fragment s) @ ttl s # 6 # checksum s @ enc32 (source s) @ enc32 (dest s) @ ip_options s"

definition tcp_data :: "segment \<Rightarrow> byte list" where
  "tcp_data s = tcp_head s @ payload s @ padding s"

definition datagram :: "segment \<Rightarrow> byte list" where
  "datagram s = ip_head s @ tcp_data s"

definition flow_of :: "segment \<Rightarrow> flow_t" where
  "flow_of s = \<lparr>src = source s, dst = dest s, sport = s_port s, dport = d_port s\<rparr>"

lemma length_heads:
  assumes "segment_ok s"
  shows "length (tcp_head s) = 20 + length (tcp_options s)" "length (ip_head s) = 20 + length (ip_options s)"
  using assms by (simp_all add: segment_ok_def tcp_head_def ip_head_def)

lemma tcp_fields:
  assumes "segment_ok s"
  shows "be16 (tcp_data s) 0 = Some (s_port s)" "be16 (tcp_data s) 2 = Some (d_port s)" "be32 (tcp_data s) 4 = Some (seq_no s)"
    "raw16 (tcp_data s) 0 = Some (host16 (s_port s))" "raw16 (tcp_data s) 2 = Some (host16 (d_port s))"
    "byte_at (tcp_data s) 12 = Some (push_bit 4 (of_nat (5 + length (tcp_options s) div 4)))"
proof -
  let ?off = "push_bit 4 (of_nat (5 + length (tcp_options s) div 4)) :: byte"
  let ?r = "tcp_rest s @ tcp_options s @ payload s @ padding s"
  let ?t = "enc32 (seq_no s) @ ack s @ ?off # ?r"
  have a: "tcp_data s = [] @ enc16 (s_port s) @ enc16 (d_port s) @ ?t" "tcp_data s = enc16 (s_port s) @ enc16 (d_port s) @ ?t"
    "tcp_data s = (enc16 (s_port s) @ enc16 (d_port s)) @ enc32 (seq_no s) @ ack s @ ?off # ?r"
    "tcp_data s = (enc16 (s_port s) @ enc16 (d_port s) @ enc32 (seq_no s) @ ack s) @ ?off # ?r"
    by (simp_all add: tcp_data_def tcp_head_def)
  show "be16 (tcp_data s) 0 = Some (s_port s)" "raw16 (tcp_data s) 0 = Some (host16 (s_port s))"
    unfolding a(1) by (rule be_fields; simp)+
  show "be16 (tcp_data s) 2 = Some (d_port s)" "raw16 (tcp_data s) 2 = Some (host16 (d_port s))"
    unfolding a(2) by (rule be_fields; simp)+
  show "be32 (tcp_data s) 4 = Some (seq_no s)" unfolding a(3) by (rule be_fields) simp
  have l: "length (enc16 (s_port s) @ enc16 (d_port s) @ enc32 (seq_no s) @ ack s) = 12" using assms by (simp add: segment_ok_def)
  show "byte_at (tcp_data s) 12 = Some ?off" unfolding a(4) using l byte_at_nth nth_append_length
    by (metis add_Suc_right length_Cons length_append less_add_Suc1)
qed

lemma ip_fields:
  assumes "segment_ok s"
  shows "byte_at (datagram s) 0 = Some (0x40 OR of_nat (5 + length (ip_options s) div 4))" "be16 (datagram s) 2 = Some (of_nat (total_len s))"
    "be16 (datagram s) 6 = Some (fragment s)" "byte_at (datagram s) 9 = Some 6"
    "be32 (datagram s) 12 = Some (source s)" "be32 (datagram s) 16 = Some (dest s)"
    "raw32 (datagram s) 12 = Some (host32 (source s))" "raw32 (datagram s) 16 = Some (host32 (dest s))"
proof -
  let ?vl = "(0x40 OR of_nat (5 + length (ip_options s) div 4)) :: byte"
  let ?n = "of_nat (total_len s) :: u16"
  let ?r = "ip_options s @ tcp_data s"
  let ?d = "enc32 (source s) @ enc32 (dest s) @ ?r"
  have l: "length (ident s) = 2" "length (checksum s) = 2" using assms by (simp_all add: segment_ok_def)
  have a: "datagram s = [] @ ?vl # tos s # enc16 ?n @ ident s @ enc16 (fragment s) @ ttl s # 6 # checksum s @ ?d"
    "datagram s = [?vl, tos s] @ enc16 ?n @ ident s @ enc16 (fragment s) @ ttl s # 6 # checksum s @ ?d"
    "datagram s = (?vl # tos s # enc16 ?n @ ident s) @ enc16 (fragment s) @ ttl s # 6 # checksum s @ ?d"
    "datagram s = (?vl # tos s # enc16 ?n @ ident s @ enc16 (fragment s) @ [ttl s]) @ 6 # checksum s @ ?d"
    "datagram s = (?vl # tos s # enc16 ?n @ ident s @ enc16 (fragment s) @ ttl s # 6 # checksum s) @ enc32 (source s) @ enc32 (dest s) @ ?r"
    "datagram s = (?vl # tos s # enc16 ?n @ ident s @ enc16 (fragment s) @ ttl s # 6 # checksum s @ enc32 (source s)) @ enc32 (dest s) @ ?r"
    by (simp_all add: datagram_def ip_head_def)
  have at: "byte_at (xs @ x # ys) (length xs) = Some x" for x :: byte and xs ys by (simp add: byte_at_nth)
  show "byte_at (datagram s) 0 = Some ?vl" unfolding a(1) using at [of "[]" ?vl] by simp
  show "be16 (datagram s) 2 = Some ?n" unfolding a(2) by (rule be_fields) simp
  show "be16 (datagram s) 6 = Some (fragment s)" unfolding a(3) by (rule be_fields) (simp add: l)
  show "byte_at (datagram s) 9 = Some 6" unfolding a(4)
    using at [of "?vl # tos s # enc16 ?n @ ident s @ enc16 (fragment s) @ [ttl s]" 6] l by simp
  show "be32 (datagram s) 12 = Some (source s)" "raw32 (datagram s) 12 = Some (host32 (source s))"
    unfolding a(5) by (rule be_fields; simp add: l)+
  show "be32 (datagram s) 16 = Some (dest s)" "raw32 (datagram s) 16 = Some (host32 (dest s))"
    unfolding a(6) by (rule be_fields; simp add: l)+
qed

section \<open>Header lengths\<close>

text \<open>A header has 5 to 15 words of 4 bytes.\<close>

lemma header_words:
  fixes k :: nat
  assumes "5 \<le> k" "k \<le> 15"
  shows "(ucast (drop_bit 4 (push_bit 4 (of_nat k) :: byte)) * 4 :: u32) = of_nat (k * 4)"
    "(ucast ((0x40 OR of_nat k :: byte) AND 15) * 4 :: u32) = of_nat (k * 4)"
proof -
  have k: "k = 5 \<or> k = 6 \<or> k = 7 \<or> k = 8 \<or> k = 9 \<or> k = 10 \<or> k = 11 \<or> k = 12 \<or> k = 13 \<or> k = 14 \<or> k = 15"
    using assms by arith
  show "(ucast (drop_bit 4 (push_bit 4 (of_nat k) :: byte)) * 4 :: u32) = of_nat (k * 4)"
    using k by (elim disjE) simp_all
  show "(ucast ((0x40 OR of_nat k :: byte) AND 15) * 4 :: u32) = of_nat (k * 4)"
    using k by (elim disjE) simp_all
qed

lemma header_lens:
  assumes "segment_ok s"
  shows "(ucast (drop_bit 4 (push_bit 4 (of_nat (5 + length (tcp_options s) div 4)) :: byte)) * 4 :: u32) =
      of_nat (20 + length (tcp_options s))"
    "(ucast ((0x40 OR of_nat (5 + length (ip_options s) div 4) :: byte) AND 15) * 4 :: u32) = of_nat (20 + length (ip_options s))"
proof -
  have o: "4 dvd length (tcp_options s)" "length (tcp_options s) \<le> 40" "4 dvd length (ip_options s)" "length (ip_options s) \<le> 40"
    using assms by (auto simp: segment_ok_def)
  have k: "5 \<le> 5 + length (tcp_options s) div 4" "5 + length (tcp_options s) div 4 \<le> 15"
    "5 \<le> 5 + length (ip_options s) div 4" "5 + length (ip_options s) div 4 \<le> 15" using o by auto
  have e: "(5 + length (tcp_options s) div 4) * 4 = 20 + length (tcp_options s)"
    "(5 + length (ip_options s) div 4) * 4 = 20 + length (ip_options s)" using o by auto
  show "(ucast (drop_bit 4 (push_bit 4 (of_nat (5 + length (tcp_options s) div 4)) :: byte)) * 4 :: u32) =
      of_nat (20 + length (tcp_options s))" using header_words(1) [OF k(1,2)] unfolding e(1) .
  show "(ucast ((0x40 OR of_nat (5 + length (ip_options s) div 4) :: byte) AND 15) * 4 :: u32) = of_nat (20 + length (ip_options s))"
    using header_words(2) [OF k(3,4)] unfolding e(2) .
qed

text \<open>
  \<^const>\<open>process_ip\<close> on datagrams: the tallies, the conversation and the packet that reaches
  \<^const>\<open>store_packet\<close>.
\<close>

section \<open>Tallies\<close>

definition tally :: "(int \<times> int) list \<Rightarrow> int \<Rightarrow> int \<Rightarrow> (int \<times> int) list" where
  "tally ts type len = (if type > PROTO_SSL then ts
     else ts[nat type := (fst (ts ! nat type) + 1, snd (ts ! nat type) + len)])"

definition tally_ok :: "nat \<Rightarrow> (int \<times> int) list \<Rightarrow> bool" where
  "tally_ok k ts \<longleftrightarrow> length ts = 10 \<and> (\<forall>x\<in>set ts. 0 \<le> fst x \<and> fst x \<le> int k \<and> 0 \<le> snd x \<and> snd x \<le> 70000 * int k)"

lemma update_pkt_type_spec:
  assumes "tally_ok k (protocl_types m)" "within k" "0 \<le> type" "0 \<le> len" "len \<le> 70000"
  shows "update_pkt_type m type len = Some (m\<lparr>protocl_types := tally (protocl_types m) type len\<rparr>)"
    "tally_ok (Suc k) (tally (protocl_types m) type len)"
proof -
  let ?ts = "protocl_types m"
  have l: "length ?ts = 10" using assms(1) by (simp add: tally_ok_def)
  have x: "0 \<le> fst x \<and> fst x \<le> int k \<and> 0 \<le> snd x \<and> snd x \<le> 70000 * int k" if "x \<in> set ?ts" for x
    using assms(1) that by (auto simp: tally_ok_def)
  have u: "tally_ok (Suc k) (?ts[i := (fst (?ts ! i) + 1, snd (?ts ! i) + len)])" if "i < 10" for i
  proof -
    have "?ts ! i \<in> set ?ts" using that l by simp
    from x [OF this] have "fst (?ts ! i) + 1 \<le> int (Suc k)" "snd (?ts ! i) + len \<le> 70000 * int (Suc k)"
      "0 \<le> fst (?ts ! i) + 1" "0 \<le> snd (?ts ! i) + len" using assms(4,5) by simp_all
    moreover have "0 \<le> fst y \<and> fst y \<le> int (Suc k) \<and> 0 \<le> snd y \<and> snd y \<le> 70000 * int (Suc k)" if "y \<in> set ?ts" for y
      using x [OF that] by simp
    ultimately show ?thesis using l set_update_subset_insert [of ?ts i "(fst (?ts ! i) + 1, snd (?ts ! i) + len)"]
      unfolding tally_ok_def by auto
  qed
  have same: "tally_ok (Suc k) ?ts" using x l by (fastforce simp: tally_ok_def)
  show "tally_ok (Suc k) (tally ?ts type len)"
    using u [of "nat type"] same assms(3) by (auto simp: tally_def PROTO_SSL_def)
  show "update_pkt_type m type len = Some (m\<lparr>protocl_types := tally ?ts type len\<rparr>)"
  proof (cases "type > PROTO_SSL")
    case True
    then show ?thesis by (simp add: update_pkt_type_def tally_def)
  next
    case False
    then have i: "nat type < length ?ts" using l by (simp add: PROTO_SSL_def)
    then have "?ts ! nat type \<in> set ?ts" by simp
    from x [OF this] have b: "0 \<le> fst (?ts ! nat type)" "fst (?ts ! nat type) \<le> int k" "0 \<le> snd (?ts ! nat type)"
      "snd (?ts ! nat type) \<le> 70000 * int k" by simp_all
    have w: "70000 * (int k + 1) \<le> int_max" using assms(2) by (simp add: within_def)
    have "cint (fst (?ts ! nat type) + 1) = Some (fst (?ts ! nat type) + 1)" using b w by (intro cint_in) (simp_all add: int_min_def)
    moreover have "cint (snd (?ts ! nat type) + len) = Some (snd (?ts ! nat type) + len)"
      using b w assms(4,5) by (intro cint_in) (simp_all add: int_min_def)
    moreover obtain x y where "?ts ! nat type = (x, y)" by (cases "?ts ! nat type")
    ultimately show ?thesis using False i assms(3) l
      by (simp add: update_pkt_type_def tally_def aread_def awrite_def PROTO_ARP_def PROTO_SSL_def)
  qed
qed

section \<open>TCP\<close>

text \<open>What reaches the file: the payload, with its unprintable bytes replaced if asked for.\<close>

definition visible :: "byte \<Rightarrow> byte" where
  "visible b = (if isprint b \<or> b = 10 \<or> b = 13 then b else 46)"

lemma strip_loop_spec: "n \<le> length d \<Longrightarrow> strip_loop d n = Some (map visible (take n d))"
proof (induction n arbitrary: d)
  case (Suc n)
  then show ?case by (cases d) (simp_all add: visible_def)
qed simp

lemma strip_loop_short: "length d < n \<Longrightarrow> strip_loop d n = None"
proof (induction n arbitrary: d)
  case (Suc n)
  then show ?case by (cases d) simp_all
qed simp

definition stored :: "options \<Rightarrow> segment \<Rightarrow> byte list" where
  "stored opts s = (if strip_nonprint opts then map visible (payload s) else payload s @ padding s)"

definition packet_of :: "options \<Rightarrow> segment \<Rightarrow> packet" where
  "packet_of opts s = (flow_of s, stored opts s, of_nat (length (payload s)), seq_no s)"

definition tcp_type :: "segment \<Rightarrow> int option" where
  "tcp_type s = (if on_port (flow_of s) 80 then Some (if payload s = [] then PROTO_HTTP_ack else PROTO_HTTP)
     else if on_port (flow_of s) 443 then Some (if payload s = [] then PROTO_SSL_ack else PROTO_SSL) else None)"

definition tcp_tally :: "monitor \<Rightarrow> segment \<Rightarrow> monitor option" where
  "tcp_tally m s = (case tcp_type s of None \<Rightarrow> Some m
     | Some t \<Rightarrow> update_pkt_type m t (int (20 + length (tcp_options s) + length (payload s) + 34)))"

lemma small_word32: "k < 2 ^ 31 \<Longrightarrow> unat (of_nat k :: u32) = k \<and> sint (of_nat k :: u32) = int k"
  by (simp add: unat_of_nat take_bit_nat_eq_self signed_of_nat signed_take_bit_int_eq_self)

lemma process_tcp_spec:
  assumes "segment_ok s" "\<not> console_only opts"
  shows "process_tcp opts m (tcp_data s) (of_nat (20 + length (tcp_options s) + length (payload s))) (source s) (dest s) =
    do {
      m \<leftarrow> tcp_tally m s;
      if payload s = [] then Some (Inr m)
      else do {
        c \<leftarrow> store_packet (bytes_per_flow opts) (flows m) (flow_of s) (stored opts s) (of_nat (length (payload s))) (seq_no s);
        Some (map_sum id (\<lambda>f. m\<lparr>flows := f\<rparr>) c)
      }
    }"
proof -
  let ?h = "20 + length (tcp_options s)" and ?n = "length (payload s)"
  have b: "?h + ?n \<le> 65535" using assms(1) by (simp add: segment_ok_def)
  have u: "unat (of_nat (?h + ?n) :: u32) = ?h + ?n" "unat (of_nat ?h :: u32) = ?h" "unat (of_nat ?n :: u32) = ?n"
    by (rule conjunct1 [OF small_word32]; use b in simp)+
  have len: "(of_nat (?h + ?n) :: u32) + 20 + 14 = of_nat (?h + ?n + 34)" by simp
  have si: "sint ((of_nat (?h + ?n) :: u32) + 20 + 14) = int (?h + ?n + 34)"
    unfolding len by (rule conjunct2 [OF small_word32]) (use b in simp)
  have sub: "(of_nat (?h + ?n) :: u32) - of_nat ?h = of_nat ?n" by simp
  have le: "((of_nat (?h + ?n) :: u32) \<le> of_nat ?h) = (payload s = [])"
    unfolding word_le_nat_alt u by auto
  have dr: "drop ?h (tcp_data s) = payload s @ padding s"
    using length_heads(1) [OF assms(1)] by (simp add: tcp_data_def)
  have st: "do_strip_nonprint (payload s @ padding s) (of_nat ?n) = Some (map visible (payload s))"
    using b unfolding do_strip_nonprint_def u(3) by (simp add: strip_loop_spec SNAPLEN_def)
  note F = tcp_fields [OF assms(1)]
  have f: "\<lparr>src = source s, dst = dest s, sport = s_port s, dport = d_port s\<rparr> = flow_of s" by (simp add: flow_of_def)
  show ?thesis
    unfolding process_tcp_def F(1-3,6) bind.bind_lunit Let_def header_lens(1) [OF assms(1)] le si sub u f
    using b assms(2) by (auto simp: tcp_tally_def tcp_type_def stored_def dr st Let_def split: option.split)
qed

end
