(* ===== verification/Tcpip_Theorems.thy ===== *)
theory Tcpip_Theorems
  imports Tcpip_Process Flow_Stream
begin

unbundle bit_operations_syntax

text \<open>
  From datagrams to files: what one datagram does to the flow table, the conversations and the
  tallies, and what happens to one that was not captured whole.
\<close>

section \<open>One datagram\<close>

definition key_of :: "segment \<Rightarrow> ends" where
  "key_of s = (host32 (source s), host32 (dest s), host16 (s_port s), host16 (d_port s))"

lemma field_behind: "field (a @ b) (length a + i) k = field b i k"
  by (simp add: field_def)

lemma datagram_headers:
  assumes "segment_ok s"
  shows "headers (datagram s) (20 + length (ip_options s)) (key_of s)"
proof -
  have l: "length (ip_head s) = 20 + length (ip_options s)" using length_heads(2) [OF assms] .
  have "raw16 (datagram s) (20 + length (ip_options s) + i) = raw16 (tcp_data s) i" for i
    unfolding raw16_def datagram_def l [symmetric] field_behind ..
  from this [of 0] this [of 2] show ?thesis
    using ip_fields(7,8) [OF assms] tcp_fields(4,5) [OF assms] by (simp add: key_of_def)
qed

definition frame_len :: "segment \<Rightarrow> int" where
  "frame_len s = int (length (datagram s) + 14)"

definition spec_tally :: "segment \<Rightarrow> (int \<times> int) list \<Rightarrow> (int \<times> int) list" where
  "spec_tally s ts = (let ts = tally ts PROTO_TCP (frame_len s) in
     case tcp_type s of None \<Rightarrow> ts
     | Some t \<Rightarrow> tally ts t (int (20 + length (tcp_options s) + length (payload s) + 34)))"

lemma tcp_tally_spec:
  assumes "tally_ok k (protocl_types m)" "within k" "segment_ok s"
  shows "\<exists>ts. tcp_tally m s = Some (m\<lparr>protocl_types := ts\<rparr>) \<and> tally_ok (Suc k) ts \<and>
    ts = (case tcp_type s of None \<Rightarrow> protocl_types m
      | Some t \<Rightarrow> tally (protocl_types m) t (int (20 + length (tcp_options s) + length (payload s) + 34)))"
proof (cases "tcp_type s")
  case None
  have "tally_ok (Suc k) (protocl_types m)" using assms(1) by (fastforce simp: tally_ok_def)
  then show ?thesis using None by (simp add: tcp_tally_def)
next
  case (Some t)
  have "0 \<le> t" using Some by (auto simp: tcp_type_def PROTO_HTTP_ack_def PROTO_HTTP_def PROTO_SSL_ack_def PROTO_SSL_def split: if_splits)
  moreover have "int (20 + length (tcp_options s) + length (payload s) + 34) \<le> 70000" using assms(3) by (simp add: segment_ok_def)
  ultimately show ?thesis
    using Some update_pkt_type_spec [OF assms(1,2), of t "int (20 + length (tcp_options s) + length (payload s) + 34)"]
    by (simp add: tcp_tally_def)
qed

lemma process_ip_run:
  assumes "segment_ok s" "\<not> console_only opts"
  shows "process_ip opts m (datagram s) (of_nat (length (datagram s))) = do {
      m \<leftarrow> update_pkt_type m PROTO_TCP (frame_len s);
      m \<leftarrow> tcp_conver_handler m (datagram s) (20 + length (ip_options s)) (frame_len s);
      m \<leftarrow> tcp_tally m s;
      c \<leftarrow> (if payload s = [] then Some (Inr m)
        else do {
          c \<leftarrow> store_packet (bytes_per_flow opts) (flows m) (flow_of s) (stored opts s) (of_nat (length (payload s))) (seq_no s);
          Some (map_sum id (\<lambda>f. m\<lparr>flows := f\<rparr>) c)
        });
      (case c of Inl e \<Rightarrow> Some (Inl e) | Inr m \<Rightarrow> update_reports m)
    }"
proof -
  let ?n = "length (datagram s)" and ?h = "20 + length (ip_options s)" and ?t = "total_len s"
  have ln: "?n = ?t + length (padding s)" using length_heads [OF assms(1)] by (simp add: datagram_def tcp_data_def total_len_def)
  have b: "?t \<le> 65535" "?n \<le> 65600" "20 \<le> ?n" "?h \<le> ?t"
    using assms(1) ln by (simp_all add: segment_ok_def total_len_def)
  have u: "unat (of_nat ?n :: u32) = ?n" "unat (of_nat ?h :: u32) = ?h" "unat (of_nat ?t :: u32) = ?t"
    by (rule conjunct1 [OF small_word32]; use b in simp)+
  have "(of_nat ?n :: u32) + 14 = of_nat (?n + 14)" by simp
  moreover have "sint (of_nat (?n + 14) :: u32) = int (?n + 14)" by (rule conjunct2 [OF small_word32]) (use b in simp)
  ultimately have si: "sint ((of_nat ?n :: u32) + 14) = frame_len s" by (simp only: frame_len_def)
  have tl: "(ucast (of_nat ?t :: u16) :: u32) = of_nat ?t" using b(1) by (simp only: unsigned_of_nat) (simp add: take_bit_nat_eq_self)
  have gt: "\<not> (of_nat ?t :: u32) < of_nat ?h" using b(4) unfolding word_less_nat_alt u by simp
  have sub: "(of_nat ?t :: u32) - of_nat ?h = of_nat (20 + length (tcp_options s) + length (payload s))"
  proof -
    have "?t = 20 + length (tcp_options s) + length (payload s) + ?h" by (simp add: total_len_def)
    then show ?thesis by (metis add_diff_cancel_right' of_nat_add)
  qed
  have dr: "drop ?h (datagram s) = tcp_data s" using length_heads(2) [OF assms(1)] by (simp add: datagram_def)
  have fr: "fragment s AND 0x1fff = 0" using assms(1) by (simp add: segment_ok_def)
  note F = ip_fields [OF assms(1)] and P = process_tcp_spec [OF assms]
  have n20: "(?n < 20) = False" using b(3) by simp
  have p6: "(6::byte) \<noteq> 1" "(6::byte) \<noteq> 17" by simp_all
  show ?thesis
    unfolding process_ip_def F(1-6) bind.bind_lunit Let_def header_lens(2) [OF assms(1)] u si tl sub dr fr P n20
    using gt p6 by (cases "update_pkt_type m PROTO_TCP (frame_len s)") (simp_all add: bind_assoc)
qed

text \<open>The monitor after at most \<open>k\<close> datagrams.\<close>

definition watching :: "nat \<Rightarrow> monitor \<Rightarrow> (flow_t \<rightharpoonup> capture) \<Rightarrow> tcp_conver list \<Rightarrow> bool" where
  "watching k m S cs \<longleftrightarrow> inv {} (flows m) \<and> captures (flows m) S \<and> machine_ok (flows m) \<and> current_time (flows m) \<le> int k \<and>
     convers m cs \<and> (\<forall>c\<in>set cs. counts_ok k c) \<and> apart (map ends_of cs) \<and>
     (\<forall>a. env (convs m) a \<noteq> None) \<and> reports_ok m \<and> (k = 0 \<or> conver_file m = conver_report cs)"

definition spec_segment :: "options \<Rightarrow> (flow_t \<rightharpoonup> capture) \<Rightarrow> segment \<Rightarrow> flow_t \<rightharpoonup> capture" where
  "spec_segment opts S s = (if payload s = [] then S
     else spec_store (bytes_per_flow opts) S (flow_of s) (stored opts s) (of_nat (length (payload s))) (seq_no s))"

lemma frame_len_bounds: "segment_ok s \<Longrightarrow> 0 \<le> frame_len s \<and> frame_len s \<le> 70000"
  using length_heads [of s] by (simp add: frame_len_def datagram_def tcp_data_def segment_ok_def)

lemma reports_ok_kept: "reports_ok m \<Longrightarrow> report m' = report m \<Longrightarrow> behind_literal m' = behind_literal m \<Longrightarrow> reports_ok m'"
  by (simp add: reports_ok_def)

lemma report_frame_fields:
  assumes "report_frame m m'"
  shows "flows m' = flows m" "convs m' = convs m" "tcp_con_head m' = tcp_con_head m" "protocl_types m' = protocl_types m"
    "report m' = report m" "behind_literal m' = behind_literal m" "print_count m' = print_count m" "packet_no m' = packet_no m"
  using arg_cong [OF assms [unfolded report_frame_def], of flows] arg_cong [OF assms [unfolded report_frame_def], of convs]
    arg_cong [OF assms [unfolded report_frame_def], of tcp_con_head] arg_cong [OF assms [unfolded report_frame_def], of protocl_types]
    arg_cong [OF assms [unfolded report_frame_def], of report] arg_cong [OF assms [unfolded report_frame_def], of behind_literal]
    arg_cong [OF assms [unfolded report_frame_def], of print_count] arg_cong [OF assms [unfolded report_frame_def], of packet_no]
  by simp_all

lemma process_ip_step:
  assumes "watching k m S cs" "tally_ok j (protocl_types m)" "within (j + 1)" "within k" "segment_ok s" "\<not> console_only opts"
  shows "\<exists>m' e. process_ip opts m (datagram s) (of_nat (length (datagram s))) = Some (Inr m') \<and>
    watching (Suc k) m' (spec_segment opts S s) (spec_conver (key_of s) e (frame_len s) cs) \<and>
    protocl_types m' = spec_tally s (protocl_types m) \<and> tally_ok (j + 2) (protocl_types m') \<and> print_count m' = print_count m \<and>
    packet_no m' = packet_no m"
proof -
  note W = assms(1) [unfolded watching_def]
  note fl = frame_len_bounds [OF assms(5)]
  have w: "within j" "int k < int_max" using assms(3,4) by (simp_all add: within_def)
  let ?m1 = "m\<lparr>protocl_types := tally (protocl_types m) PROTO_TCP (frame_len s)\<rparr>"
  have t0: "0 \<le> PROTO_TCP" by (simp add: PROTO_TCP_def)
  have t1: "update_pkt_type m PROTO_TCP (frame_len s) = Some ?m1" "tally_ok (j + 1) (protocl_types ?m1)"
    using update_pkt_type_spec [OF assms(2) w(1) t0, of "frame_len s"] fl by simp_all
  have c1: "convers ?m1 cs" "\<forall>c\<in>set cs. counts_ok k c" "\<forall>a. env (convs ?m1) a \<noteq> None" using W by (simp_all add: convers_def)
  obtain m2 where m2: "tcp_conver_handler ?m1 (datagram s) (20 + length (ip_options s)) (frame_len s) = Some m2"
    "convers m2 (spec_conver (key_of s) (since (now m (times m)) (tv_main m)) (frame_len s) cs)" "conver_frame ?m1 m2"
    using tcp_conver_handler_spec [OF c1(1) datagram_headers [OF assms(5)] _ _ assms(4) c1(2,3), of "frame_len s"] fl by auto
  let ?e = "since (now m (times m)) (tv_main m)"
  have p2: "tally_ok (j + 1) (protocl_types m2)" "protocl_types m2 = protocl_types ?m1" using t1(2) m2(3) by (simp_all add: conver_frame_def)
  obtain ts where ts: "tcp_tally m2 s = Some (m2\<lparr>protocl_types := ts\<rparr>)" "tally_ok (j + 2) ts" "ts = spec_tally s (protocl_types m)"
  proof -
    obtain ts where ts: "tcp_tally m2 s = Some (m2\<lparr>protocl_types := ts\<rparr>)" "tally_ok (Suc (j + 1)) ts"
      "ts = (case tcp_type s of None \<Rightarrow> protocl_types m2
        | Some t \<Rightarrow> tally (protocl_types m2) t (int (20 + length (tcp_options s) + length (payload s) + 34)))"
      using tcp_tally_spec [OF p2(1) assms(3,5)] by blast
    have "ts = spec_tally s (protocl_types m)" unfolding ts(3) p2(2) by (simp add: spec_tally_def Let_def split: option.split)
    then show thesis using that ts(1,2) by simp
  qed
  have fm: "flows m2 = flows m" "reports_ok m2" "\<forall>a. env (convs m2) a \<noteq> None" "print_count m2 = print_count m" "packet_no m2 = packet_no m"
    using m2(3) W reports_ok_kept [of m m2] by (simp_all add: conver_frame_def)
  let ?m3 = "m2\<lparr>protocl_types := ts\<rparr>"
  obtain f where f: "(if payload s = [] then Some (Inr ?m3)
      else do { c \<leftarrow> store_packet (bytes_per_flow opts) (flows ?m3) (flow_of s) (stored opts s) (of_nat (length (payload s))) (seq_no s);
        Some (map_sum id (\<lambda>f. ?m3\<lparr>flows := f\<rparr>) c) }) = Some (Inr (?m3\<lparr>flows := f\<rparr>))"
    "inv {} f" "captures f (spec_segment opts S s)" "machine_ok f" "current_time f \<le> int (Suc k)"
  proof (cases "payload s = []")
    case True
    then show thesis using that [of "flows m"] W fm(1) by (simp add: spec_segment_def)
  next
    case False
    have i: "inv {} (flows m)" "captures (flows m) S" "machine_ok (flows m)" "current_time (flows m) < int_max"
      using W w(2) by auto
    have "length (payload s) \<le> 65535" using assms(5) by (simp add: segment_ok_def)
    then have u: "unat (of_nat (length (payload s)) :: u32) = length (payload s)" by (intro conjunct1 [OF small_word32]) simp
    have l: "unat (of_nat (length (payload s)) :: u32) \<le> 65535" "unat (of_nat (length (payload s)) :: u32) \<le> length (stored opts s)"
      unfolding u using assms(5) by (simp_all add: segment_ok_def stored_def)
    from store_packet_spec [OF i l, of "bytes_per_flow opts" "flow_of s" "seq_no s"] obtain f where
      "store_packet (bytes_per_flow opts) (flows m) (flow_of s) (stored opts s) (of_nat (length (payload s))) (seq_no s) = Some (Inr f)"
      "inv {} f" "captures f (spec_segment opts S s)" "same_world (flows m) f" "current_time f = current_time (flows m) + 1"
      using False unfolding spec_segment_def by auto
    then show thesis using that [of f] False W fm(1) machine_same by simp
  qed
  let ?m4 = "?m3\<lparr>flows := f\<rparr>" and ?cs = "spec_conver (key_of s) ?e (frame_len s) cs"
  have c4: "convers ?m4 ?cs" using m2(2) by (simp add: convers_def)
  have l4: "length (protocl_types ?m4) = 10" using ts(2) by (simp add: tally_ok_def)
  have "reports_ok ?m4" using fm(2) by (simp add: reports_ok_def)
  from update_reports_total [OF this l4 c4] obtain m5 where
    m5: "update_reports ?m4 = Some (Inr m5)" "report_frame ?m4 m5" "conver_file m5 = conver_report ?cs" by blast
  note F = report_frame_fields [OF m5(2)]
  have run: "process_ip opts m (datagram s) (of_nat (length (datagram s))) = Some (Inr m5)"
    unfolding process_ip_run [OF assms(5,6)] t1(1) bind.bind_lunit m2(1) ts(1) f(1) sum.case m5(1) ..
  have "convers m5 ?cs" using c4 F(2,3) by (simp add: convers_def)
  moreover have "\<forall>c\<in>set ?cs. counts_ok (Suc k) c"
    by (rule spec_counts) (use c1(2) fl in auto)
  moreover have "apart (map ends_of ?cs)" by (rule spec_apart) (use W in blast)
  moreover have "reports_ok m5" using fm(2) F(5,6) by (simp add: reports_ok_def)
  ultimately have "watching (Suc k) m5 (spec_segment opts S s) ?cs"
    unfolding watching_def using f(2-5) fm(3) F(1,2) m5(3) by simp
  then show ?thesis using run ts(2,3) fm(4,5) F(4,7,8) by (intro exI [of _ m5] exI [of _ ?e]) simp
qed

lemma spec_segments:
  "foldl (spec_segment opts) S ss = spec_stores (bytes_per_flow opts) S (map (packet_of opts) (filter (\<lambda>s. payload s \<noteq> []) ss))"
  by (induction ss arbitrary: S) (simp_all add: spec_segment_def packet_of_def)

text \<open>The monitor when \<open>main\<close> starts to listen.\<close>

definition monitor_start :: "monitor \<Rightarrow> int \<Rightarrow> monitor" where
  "monitor_start m nfds = get_tv_main (m\<lparr>flows := tcpflow_start (flows m) nfds, protocl_types := replicate 10 (0, 0),
     convs := (convs m)\<lparr>cells := Map.empty\<rparr>, tcp_con_head := None, packet_no := 0, bytes_no := 0, print_count := 1, first_time := (0, 0, 0)\<rparr>)"

definition well_equipped :: "monitor \<Rightarrow> bool" where
  "well_equipped m \<longleftrightarrow> machine_ok (flows m) \<and> (\<forall>a. env (convs m) a \<noteq> None) \<and> reports_ok m"

lemma monitor_start_watching:
  assumes "6 \<le> nfds" "nfds \<le> int_max" "well_equipped m"
  shows "watching 0 (monitor_start m nfds) Map.empty []" "protocl_types (monitor_start m nfds) = replicate 10 (0, 0)"
proof -
  note s = start_ok [OF assms(1,2), of "flows m"]
  have m: "flows (monitor_start m nfds) = tcpflow_start (flows m) nfds" "report (monitor_start m nfds) = report m" "behind_literal (monitor_start m nfds) = behind_literal m"
    "convs (monitor_start m nfds) = (convs m)\<lparr>cells := Map.empty\<rparr>" "tcp_con_head (monitor_start m nfds) = None"
    "protocl_types (monitor_start m nfds) = replicate 10 (0, 0)"
    by (simp_all add: monitor_start_def get_tv_main_def gettimeofday_def Let_def)
  have "convers (monitor_start m nfds) []" unfolding convers_def m by (simp add: heap_ok_def convers_at_def)
  then show "watching 0 (monitor_start m nfds) Map.empty []"
    unfolding watching_def m reports_ok_def using s assms(3) by (auto simp: well_equipped_def reports_ok_def)
  show "protocl_types (monitor_start m nfds) = replicate 10 (0, 0)" by (rule m(6))
qed

section \<open>Truncated captures\<close>

lemma field_take: "i + k \<le> n \<Longrightarrow> field (take n d) i k = field d i k"
  by (auto simp: field_def drop_take min_absorb1)

lemma fields_take:
  "i + 2 \<le> n \<Longrightarrow> be16 (take n d) i = be16 d i" "i + 4 \<le> n \<Longrightarrow> be32 (take n d) i = be32 d i"
  "i + 1 \<le> n \<Longrightarrow> byte_at (take n d) i = byte_at d i"
  by (simp_all add: be16_def be32_def byte_at_def field_take)

lemma process_tcp_cut:
  assumes "segment_ok s" "20 + length (tcp_options s) \<le> n" "n < 20 + length (tcp_options s) + length (payload s)"
    "console_only opts \<or> strip_nonprint opts"
  shows "process_tcp opts m (take n (tcp_data s)) (of_nat (20 + length (tcp_options s) + length (payload s))) a b = None"
proof -
  let ?h = "20 + length (tcp_options s)" and ?n = "length (payload s)"
  have b: "?h + ?n \<le> 65535" using assms(1) by (simp add: segment_ok_def)
  have u: "unat (of_nat (?h + ?n) :: u32) = ?h + ?n" "unat (of_nat ?h :: u32) = ?h" "unat (of_nat ?n :: u32) = ?n"
    by (rule conjunct1 [OF small_word32]; use b in simp)+
  have le: "((of_nat (?h + ?n) :: u32) \<le> of_nat ?h) = False" unfolding word_le_nat_alt u using assms(2,3) by auto
  have sub: "(of_nat (?h + ?n) :: u32) - of_nat ?h = of_nat ?n" by simp
  have dr: "length (drop ?h (take n (tcp_data s))) < ?n" using assms(2,3) by auto
  have F: "be16 (take n (tcp_data s)) 0 = Some (s_port s)" "be16 (take n (tcp_data s)) 2 = Some (d_port s)"
    "be32 (take n (tcp_data s)) 4 = Some (seq_no s)"
    "byte_at (take n (tcp_data s)) 12 = Some (push_bit 4 (of_nat (5 + length (tcp_options s) div 4)))"
    using fields_take [of _ n "tcp_data s"] tcp_fields [OF assms(1)] assms(2) by simp_all
  have st: "do_strip_nonprint (drop ?h (take n (tcp_data s))) (of_nat ?n) = None"
    unfolding do_strip_nonprint_def u(3) using strip_loop_short [OF dr] by (simp add: guard_def)
  have pr: "print_packet M f (drop ?h (take n (tcp_data s))) (of_nat ?n) = None" for M f
    unfolding print_packet_def u(3) using dr by (simp add: guard_def)
  show ?thesis
    unfolding process_tcp_def F bind.bind_lunit Let_def header_lens(1) [OF assms(1)] le sub u if_False
    using st pr assms(4) by (auto simp: bind_eq_None_conv)
qed

text \<open>
  C35. \<open>process_ip\<close> only warns about a datagram that is longer than what was captured of it, and works
  with the length from its header: when the payload is stripped or printed, the capture is read
  beyond its end. An empty datagram is read before its length is looked at.
\<close>
theorem truncated_datagram_overreads:
  assumes "segment_ok s" "40 + length (ip_options s) + length (tcp_options s) \<le> n" "n < total_len s"
    "console_only opts \<or> strip_nonprint opts"
  shows "process_ip opts m (take n (datagram s)) (of_nat n) = None \<and> process_ip opts m [] 0 = None"
proof
  let ?h = "20 + length (ip_options s)" and ?t = "total_len s" and ?d = "take n (datagram s)"
  have b: "?t \<le> 65535" using assms(1) by (simp add: segment_ok_def total_len_def)
  have u: "unat (of_nat n :: u32) = n" "unat (of_nat ?h :: u32) = ?h" "unat (of_nat ?t :: u32) = ?t"
    by (rule conjunct1 [OF small_word32]; use b assms(2,3) in simp)+
  have tl: "(ucast (of_nat ?t :: u16) :: u32) = of_nat ?t" using b by (simp only: unsigned_of_nat) (simp add: take_bit_nat_eq_self)
  have gt: "((of_nat ?t :: u32) < of_nat ?h) = False" using assms(2,3) unfolding word_less_nat_alt u by simp
  have sub: "(of_nat ?t :: u32) - of_nat ?h = of_nat (20 + length (tcp_options s) + length (payload s))"
  proof -
    have "?t = 20 + length (tcp_options s) + length (payload s) + ?h" by (simp add: total_len_def)
    then show ?thesis by (metis add_diff_cancel_right' of_nat_add)
  qed
  have dr: "drop ?h ?d = take (n - ?h) (tcp_data s)"
    unfolding drop_take using length_heads(2) [OF assms(1)] by (simp add: datagram_def)
  have fr: "(fragment s AND 0x1fff \<noteq> 0) = False" using assms(1) by (simp add: segment_ok_def)
  have F: "byte_at ?d 0 = Some (0x40 OR of_nat (5 + length (ip_options s) div 4))" "be16 ?d 2 = Some (of_nat ?t)"
    "be16 ?d 6 = Some (fragment s)" "byte_at ?d 9 = Some 6" "be32 ?d 12 = Some (source s)" "be32 ?d 16 = Some (dest s)"
    using fields_take [of _ n "datagram s"] ip_fields [OF assms(1)] assms(2) by simp_all
  have cut: "process_tcp opts M (take (n - ?h) (tcp_data s)) (of_nat (20 + length (tcp_options s) + length (payload s))) a b = None" for M a b
    by (rule process_tcp_cut [OF assms(1) _ _ assms(4)]) (use assms(2,3) in \<open>simp_all add: total_len_def\<close>)
  have n20: "(n < 20) = False" using assms(2) by simp
  show "process_ip opts m ?d (of_nat n) = None"
    unfolding process_ip_def F bind.bind_lunit Let_def header_lens(2) [OF assms(1)] u tl sub dr fr gt n20 if_False cut
    by simp
  show "process_ip opts m [] 0 = None" by (simp add: process_ip_def byte_at_def field_def)
qed

section \<open>Witnesses\<close>

definition small_monitor :: monitor where
  "small_monitor = \<lparr>flows = \<lparr>states = \<lparr>cells = Map.empty, brk = 0, env = (\<lambda>_. Some \<lparr>fnext = None,
       flow = \<lparr>src = 0, dst = 0, sport = 0, dport = 0\<rparr>, isn = 0, fp = None, pos = 0, flags = 0, last_access = 0\<rparr>)\<rparr>,
       flow_hash = [], fd_ring = [], max_fds = 0, next_slot = 0, current_time = 0,
       files = \<lparr>fdata = Map.empty, handles = [], fresh_file = 0, opens = 0, writes = 0, room = (\<lambda>_. 2),
         denied = (\<lambda>_. False), short = (\<lambda>_. None)\<rparr>\<rparr>,
     protocl_types = [], convs = \<lparr>cells = Map.empty, brk = 0, env = (\<lambda>_. Some (new_conver (0, 0, 0, 0) (0, 0) 0))\<rparr>,
     tcp_con_head = None, tv_main = (0, 0), packet_no = 0, bytes_no = 0, now = (\<lambda>k. (int k, 0)), times = 0,
     utc = (\<lambda>_. \<lparr>tm_year = 113, tm_mon = 4, tm_mday = 1, tm_hour = 12, tm_min = 0, tm_sec = 0\<rparr>), utcs = 0, first_time = (0, 0, 0),
     report = (\<lambda>_. Some [4, 15]), reports = 0, behind_literal = ''% '', summary_file = [], conver_file = [], stdout = [], print_count = 1\<rparr>"

definition plain :: options where
  "plain = \<lparr>console_only = False, strip_nonprint = False, bytes_per_flow = 0\<rparr>"

definition reply :: "bool \<Rightarrow> u32 \<Rightarrow> byte list \<Rightarrow> segment" where
  "reply back seq data = \<lparr>source = (if back then 2 else 1), dest = (if back then 1 else 2), s_port = (if back then 80 else 4000),
     d_port = (if back then 4000 else 80), seq_no = seq, payload = data, ack = [0, 0, 0, 0], tcp_rest = [16, 0, 0, 0, 0, 0, 0],
     tcp_options = [1, 1, 1, 1], tos = 0, ident = [0, 7], fragment = 0x4000, ttl = 64, checksum = [0, 0], ip_options = [], padding = [0, 0]\<rparr>"

definition talk :: "segment list" where
  "talk = [reply False 9 [71], reply True 5 [], reply True 5 [72, 73], reply True 4 [71]]"

lemma four_dvd: "4 dvd Suc (Suc (Suc (Suc 0)))"
proof -
  have e: "Suc (Suc (Suc (Suc 0))) = 4" by simp
  show ?thesis unfolding e by simp
qed

lemma talk_ok: "\<forall>s\<in>set talk. segment_ok s" "well_equipped small_monitor" "\<not> console_only plain" "length talk = 4"
  by (simp_all add: talk_def reply_def segment_ok_def well_equipped_def small_monitor_def machine_ok_def can_open_def
      no_short_def reports_ok_def plain_def four_dvd)

theorem truncated_datagram_overreads_witness:
  "process_ip (plain\<lparr>strip_nonprint := True\<rparr>) small_monitor (take 45 (datagram (reply True 5 [72, 73]))) 45 = None \<and>
   process_ip (plain\<lparr>strip_nonprint := True\<rparr>) small_monitor [] 0 = None"
  using truncated_datagram_overreads [of "reply True 5 [72, 73]" 45 "plain\<lparr>strip_nonprint := True\<rparr>" small_monitor]
  by (simp add: segment_ok_def total_len_def reply_def four_dvd)

end
