(* ===== verification/Datalink_Theorems.thy ===== *)
theory Datalink_Theorems
  imports Datalink Tcpip_Process Tcpip_Theorems
begin

unbundle bit_operations_syntax

text \<open>The dump of a payload against its lines, and of a whole frame.\<close>

section \<open>Lines of 16 bytes\<close>

definition line :: "int \<Rightarrow> byte list \<Rightarrow> string" where
  "line offset bs = padded 5 (nat offset) @ ''   '' @ hex_part 0 bs @ (if length bs < 8 then '' '' else []) @
     replicate (2 * (16 - length bs)) (CHR '' '') @ ''  '' @ map (\<lambda>b. if isprint b then char_of (unat b) else CHR ''.'') bs @ ''\<newline>''"

function dump :: "int \<Rightarrow> byte list \<Rightarrow> string" where
  "dump offset bs = (if bs = [] then [] else line offset (take 16 bs) @ dump (offset + 16) (drop 16 bs))"
  by pat_completeness auto
termination
  by (relation "measure (\<lambda>(off, bs). length bs)") auto

declare dump.simps [simp del]

lemma print_line:
  assumes "nat len \<le> length pay" "0 \<le> len"
  shows "print_hex_ascii_line pay len offset = Some (line offset (take (nat len) pay))"
proof -
  have l: "length (take (nat len) pay) = nat len" using assms(1) by simp
  have "(nat len < 8) = (len < 8)" by auto
  moreover have "2 * nat (16 - len) = 2 * (16 - nat len)" using assms(2) by (simp add: nat_diff_distrib)
  ultimately show ?thesis using assms(1) by (auto simp: print_hex_ascii_line_def line_def l Let_def)
qed

lemma print_line_short: "length pay < nat len \<Longrightarrow> print_hex_ascii_line pay len offset = None"
  by (simp add: print_hex_ascii_line_def guard_def)

lemma dump_short: "bs \<noteq> [] \<Longrightarrow> length bs \<le> 16 \<Longrightarrow> dump offset bs = line offset bs"
  by (subst dump.simps) (simp add: dump.simps [of _ "[]"])

lemma payload_loop_spec:
  "16 < len \<Longrightarrow> 0 \<le> offset \<Longrightarrow> offset + len \<le> int_max \<Longrightarrow>
   payload_loop ch len offset = (if nat len \<le> length ch then Some (dump offset (take (nat len) ch)) else None)"
proof (induction ch len offset rule: payload_loop.induct)
  case (1 ch len offset)
  have m: "cmod 16 len = Some 16" using "1.prems"(1) by simp
  have c: "cint (offset + 16) = Some (offset + 16)" using "1.prems" by (intro cint_in) (simp_all add: int_min_def)
  have dr: "take 16 (take (nat len) ch) = take 16 ch" "drop 16 (take (nat len) ch) = take (nat (len - 16)) (drop 16 ch)"
    using "1.prems"(1) by (auto simp: drop_take nat_diff_distrib min_def)
  have step: "dump offset (take (nat len) ch) = line offset (take 16 ch) @ dump (offset + 16) (take (nat (len - 16)) (drop 16 ch))"
    if "nat len \<le> length ch"
  proof -
    have "take (nat len) ch \<noteq> []" using that "1.prems"(1) by auto
    then show ?thesis using dr by (subst dump.simps) simp
  qed
  show ?case
  proof (cases "16 \<le> length ch")
    case False
    then have "print_hex_ascii_line ch 16 offset = None" by (intro print_line_short) simp
    moreover have "\<not> nat len \<le> length ch" using False "1.prems"(1) by simp
    ultimately show ?thesis by (simp add: payload_loop.simps [of ch] m)
  next
    case True
    have l: "print_hex_ascii_line ch 16 offset = Some (line offset (take 16 ch))" using print_line [of 16 ch] True by simp
    show ?thesis
    proof (cases "len - 16 \<le> 16")
      case small: True
      have run: "payload_loop ch len offset = map_option (\<lambda>rest. line offset (take 16 ch) @ rest) (print_hex_ascii_line (drop 16 ch) (len - 16) (offset + 16))"
        using small by (simp add: payload_loop.simps [of ch] m l c map_conv_bind_option o_def)
      show ?thesis
      proof (cases "nat len \<le> length ch")
        case fits: True
        then have "nat (len - 16) \<le> length (drop 16 ch)" by auto
        then have "print_hex_ascii_line (drop 16 ch) (len - 16) (offset + 16) = Some (line (offset + 16) (take (nat (len - 16)) (drop 16 ch)))"
          using print_line "1.prems"(1) by simp
        moreover have "dump (offset + 16) (take (nat (len - 16)) (drop 16 ch)) = line (offset + 16) (take (nat (len - 16)) (drop 16 ch))"
          by (rule dump_short) (use small fits "1.prems"(1) in auto)
        ultimately show ?thesis using run fits step by simp
      next
        case False
        then have "print_hex_ascii_line (drop 16 ch) (len - 16) (offset + 16) = None" using "1.prems"(1) by (intro print_line_short) auto
        then show ?thesis using run False by simp
      qed
    next
      case big: False
      have IH: "payload_loop (drop 16 ch) (len - 16) (offset + 16) =
          (if nat (len - 16) \<le> length (drop 16 ch) then Some (dump (offset + 16) (take (nat (len - 16)) (drop 16 ch))) else None)"
        using "1.IH" [OF m l, of "len - 16" "drop 16 ch" "offset + 16"] c big "1.prems" by simp
      have fit: "(nat (len - 16) \<le> length (drop 16 ch)) = (nat len \<le> length ch)" using big by auto
      show ?thesis using big IH step unfolding fit by (simp add: payload_loop.simps [of ch] m l c)
    qed
  qed
qed

lemma print_payload_spec:
  assumes "len \<le> int_max"
  shows "print_payload pay len = (if nat len \<le> length pay then Some (dump 0 (take (nat len) pay)) else None)"
proof -
  consider "len \<le> 0" | "0 < len" "len \<le> 16" | "16 < len" by linarith
  then show ?thesis
  proof cases
    case 1
    then show ?thesis by (simp add: print_payload_def dump.simps)
  next
    case 2
    then have "nat len \<le> 16" by simp
    then show ?thesis using 2 print_line [of len pay 0] print_line_short [of pay len 0] dump_short [of "take (nat len) pay" 0]
      by (cases "pay = []") (auto simp: print_payload_def)
  next
    case 3
    then show ?thesis using payload_loop_spec [of len 0 pay] assms by (simp add: print_payload_def)
  qed
qed

section \<open>Frames\<close>

lemma mac_total: "i + n \<le> length p \<Longrightarrow> print_mac n p i \<noteq> None"
proof (induction n arbitrary: i)
  case (Suc n)
  have "print_mac n p (Suc i) \<noteq> None" using Suc by simp
  then show ?case using Suc.prems by (auto simp: byte_at_nth)
qed simp

lemma behind_head:
  assumes "length lh = n"
  shows "byte_at (lh @ d) (n + i) = byte_at d i" "be16 (lh @ d) (n + i) = be16 d i" "be32 (lh @ d) (n + i) = be32 d i"
    "raw32 (lh @ d) (n + i) = raw32 d i"
  using assms by (auto simp: byte_at_def be16_def be32_def raw32_def field_def)

lemma tcp_packet_print_total:
  assumes "segment_ok s" "length lh = 14" "pl = int (length (lh @ datagram s))"
  shows "tcp_packet_print (lh @ datagram s) pl (20 + length (ip_options s)) \<noteq> None"
proof -
  let ?k = "5 + length (tcp_options s) div 4"
  have o: "4 dvd length (tcp_options s)" "length (tcp_options s) \<le> 40" using assms(1) by (auto simp: segment_ok_def)
  then have k: "?k \<le> 15" "?k * 4 = 20 + length (tcp_options s)" by auto
  have "(ucast (drop_bit 4 (push_bit 4 (of_nat ?k) :: byte)) :: u32) * 4 = of_nat (?k * 4)"
    using header_words(1) [of ?k] k(1) by simp
  have dk: "unat (drop_bit 4 (push_bit 4 (of_nat ?k) :: byte)) = ?k"
  proof -
    have "?k = 5 \<or> ?k = 6 \<or> ?k = 7 \<or> ?k = 8 \<or> ?k = 9 \<or> ?k = 10 \<or> ?k = 11 \<or> ?k = 12 \<or> ?k = 13 \<or> ?k = 14 \<or> ?k = 15"
      using k(1) by arith
    then show ?thesis by (elim disjE) simp_all
  qed
  have dr: "drop (14 + (20 + length (ip_options s))) (lh @ datagram s) = tcp_data s"
    using assms(2) length_heads(2) [OF assms(1)] by (simp add: datagram_def)
  have dd: "drop (14 + (20 + length (ip_options s)) + (20 + length (tcp_options s))) (lh @ datagram s) = payload s @ padding s"
    using assms(2) length_heads [OF assms(1)] by (simp add: datagram_def tcp_data_def)
  have sz: "pl - 14 - int (20 + length (ip_options s)) - int (20 + length (tcp_options s)) = int (length (payload s @ padding s))"
    using assms(2,3) length_heads [OF assms(1)] by (simp add: datagram_def tcp_data_def)
  have "int (length (payload s @ padding s)) \<le> int_max" using assms(1) by (simp add: segment_ok_def int_max_def)
  from print_payload_spec [OF this, of "payload s @ padding s"]
  have pp: "print_payload (payload s @ padding s) (int (length (payload s @ padding s))) \<noteq> None" by simp
  note F = tcp_fields [OF assms(1)]
  have n20: "(20 + length (tcp_options s) < 20) = False" by simp
  show ?thesis
    unfolding tcp_packet_print_def dr F(1,2,6) bind.bind_lunit Let_def dk k(2) n20 if_False dd sz
    using pp by (auto simp: bind_eq_None_conv)
qed

lemma ip_packet_print_total:
  assumes "segment_ok s" "length lh = 14" "pl = int (length (lh @ datagram s))"
  shows "ip_packet_print l (lh @ datagram s) pl \<noteq> None"
proof -
  let ?k = "5 + length (ip_options s) div 4"
  have o: "4 dvd length (ip_options s)" "length (ip_options s) \<le> 40" using assms(1) by (auto simp: segment_ok_def)
  then have k: "?k \<le> 15" "?k * 4 = 20 + length (ip_options s)" by auto
  have dk: "unat ((0x40 OR of_nat ?k :: byte) AND 15) = ?k"
  proof -
    have "?k = 5 \<or> ?k = 6 \<or> ?k = 7 \<or> ?k = 8 \<or> ?k = 9 \<or> ?k = 10 \<or> ?k = 11 \<or> ?k = 12 \<or> ?k = 13 \<or> ?k = 14 \<or> ?k = 15"
      using k(1) by arith
    then show ?thesis by (elim disjE) simp_all
  qed
  have F: "byte_at (lh @ datagram s) 14 = Some (0x40 OR of_nat ?k)" "raw32 (lh @ datagram s) 26 = Some (host32 (source s))"
    "raw32 (lh @ datagram s) 30 = Some (host32 (dest s))" "byte_at (lh @ datagram s) 23 = Some 6"
    using behind_head [OF assms(2), of "datagram s" 0] behind_head [OF assms(2), of "datagram s" 12]
      behind_head [OF assms(2), of "datagram s" 16] behind_head [OF assms(2), of "datagram s" 9] ip_fields [OF assms(1)] by simp_all
  have n20: "(20 + length (ip_options s) < 20) = False" by simp
  show ?thesis
    unfolding ip_packet_print_def F bind.bind_lunit Let_def dk k(2) n20 if_False
    using tcp_packet_print_total [OF assms] by (auto simp: bind_eq_None_conv)
qed

text \<open>A whole Ethernet frame is printed without reading outside it.\<close>

lemma print_packet_orig_total:
  assumes "segment_ok s" "length mac = 12" "sint (plen h) = int (length (mac @ enc16 0x0800 @ datagram s))"
    "0 \<le> print_count m" "print_count m < int_max"
  obtains out where "print_packet_orig l m h (mac @ enc16 0x0800 @ datagram s) =
    Some (m\<lparr>print_count := print_count m + 1, stdout := out\<rparr>)"
proof -
  let ?p = "mac @ enc16 0x0800 @ datagram s"
  have c: "cint (print_count m + 1) = Some (print_count m + 1)" using assms(4,5) by (intro cint_in) (simp_all add: int_min_def)
  obtain d where d: "print_mac 6 ?p 0 = Some d" using mac_total [of 0 6 ?p] assms(2) by auto
  obtain e where e: "print_mac 6 ?p 6 = Some e" using mac_total [of 6 6 ?p] assms(2) by auto
  have ty: "be16 ?p 12 = Some 0x0800" by (rule be_fields) (rule assms(2))
  have "length (mac @ enc16 0x0800) = 14" using assms(2) by simp
  from ip_packet_print_total [OF assms(1) this, of _ l] obtain r where
    r: "ip_packet_print l ?p (int (length ?p)) = Some r" by (metis append_assoc not_None_eq)
  show thesis using that
    unfolding print_packet_orig_def assms(3) Let_def c bind.bind_lunit d e ty by (simp add: r del: length_append)
qed

text \<open>
  Frames of every link layer, from the capture to the files.
\<close>

section \<open>One frame\<close>

text \<open>What stands before the datagram: any hardware addresses, and the type of IP.\<close>

fun head_ok :: "handler \<Rightarrow> byte list \<Rightarrow> bool" where
  "head_ok Dl_null lh = (lh = enc32 2)"
| "head_ok Dl_raw lh = (lh = [])"
| "head_ok Dl_ethernet lh = (length lh = 14 \<and> drop 12 lh = enc16 0x0800)"
| "head_ok Dl_ppp lh = (length lh = 4)"
| "head_ok Dl_linux_sll lh = (length lh = 16)"

definition whole :: "int \<times> byte list \<times> segment \<Rightarrow> pcap_pkthdr \<times> byte list" where
  "whole x = (let d = fst (snd x) @ datagram (snd (snd x)) in
     (\<lparr>hts = fst x, caplen = of_nat (length d), plen = of_nat (length d)\<rparr>, d))"

definition link_tally :: "handler \<Rightarrow> segment \<Rightarrow> (int \<times> int) list \<Rightarrow> (int \<times> int) list" where
  "link_tally H s ts = (if H = Dl_ethernet then tally ts PROTO_IP (frame_len s) else ts)"

lemma datagram_bound: "segment_ok s \<Longrightarrow> length (datagram s) \<le> 65600"
  using length_heads [of s] by (simp add: datagram_def tcp_data_def segment_ok_def)

lemma strip_head:
  assumes "segment_ok s" "length lh = n" "n \<le> 16"
  shows "(of_nat (length (lh @ datagram s)) :: u32) - of_nat n = of_nat (length (datagram s))"
    "unat (of_nat (length (lh @ datagram s)) :: u32) = length (lh @ datagram s)"
    "sint (of_nat (length (lh @ datagram s)) :: u32) = int (length (lh @ datagram s))"
proof -
  have "length (lh @ datagram s) < 2 ^ 31" using datagram_bound [OF assms(1)] assms(2,3) by simp
  from small_word32 [OF this] show "unat (of_nat (length (lh @ datagram s)) :: u32) = length (lh @ datagram s)"
    "sint (of_nat (length (lh @ datagram s)) :: u32) = int (length (lh @ datagram s))" by blast+
  show "(of_nat (length (lh @ datagram s)) :: u32) - of_nat n = of_nat (length (datagram s))" using assms(2) by simp
qed

lemma other_frame:
  assumes "segment_ok s" "head_ok H lh" "H \<noteq> Dl_ethernet" "whole (t, lh, s) = (h, p)"
  shows "run_handler H opts l m h p = process_ip opts m (datagram s) (of_nat (length (datagram s)))"
proof -
  have hp: "caplen h = of_nat (length (lh @ datagram s))" "p = lh @ datagram s" using assms(4) by (auto simp: whole_def Let_def)
  show ?thesis
  proof (cases H)
    case Dl_null
    then have n: "length lh = 4" "lh = [] @ enc32 2" using assms(2) by simp_all
    have "be32 (lh @ datagram s) 0 = Some 2" unfolding n(2) append_assoc by (rule be_fields) simp
    then show ?thesis using strip_head [OF assms(1) n(1)] n(1) unfolding Dl_null run_handler.simps dl_null_def hp NULL_HDRLEN_def by simp
  next
    case Dl_raw
    then show ?thesis using assms(2) by (simp add: dl_raw_def hp)
  next
    case Dl_ppp
    then have n: "length lh = 4" using assms(2) by simp
    then show ?thesis using strip_head [OF assms(1) n] unfolding Dl_ppp run_handler.simps dl_ppp_def hp PPP_HDRLEN_def by simp
  next
    case Dl_linux_sll
    then have n: "length lh = 16" using assms(2) by simp
    then show ?thesis using strip_head [OF assms(1) n] unfolding Dl_linux_sll run_handler.simps dl_linux_sll_def hp SLL_HDR_LEN_def by simp
  qed (use assms(3) in simp)
qed

lemma that_first:
  "\<exists>uts ft. (if packet_no m + 1 = 1 then first_packet_time (m\<lparr>packet_no := packet_no m + 1\<rparr>)
      else m\<lparr>packet_no := packet_no m + 1\<rparr>) = m\<lparr>packet_no := packet_no m + 1, utcs := uts, first_time := ft\<rparr>"
proof (cases "packet_no m + 1 = 1")
  case True
  let ?p = "utc m (utcs m)"
  show ?thesis unfolding if_P [OF True]
    by (rule exI [of _ "Suc (utcs m)"], rule exI [of _ "(tm_hour ?p, tm_min ?p, tm_sec ?p)"])
      (simp add: first_packet_time_def gmtime_def)
next
  case False
  show ?thesis unfolding if_not_P [OF False] by (intro exI [of _ "utcs m"] exI [of _ "first_time m"]) simp
qed

lemma ethernet_frame:
  assumes "segment_ok s" "head_ok Dl_ethernet lh" "whole (t, lh, s) = (h, p)" "tally_ok j (protocl_types m)" "within j"
    "0 \<le> print_count m" "print_count m < int_max" "0 \<le> packet_no m" "packet_no m < int_max"
  obtains ft uts bs out where "dl_ethernet opts l m h p = process_ip opts (m\<lparr>packet_no := packet_no m + 1, utcs := uts, first_time := ft,
      bytes_no := bs, print_count := print_count m + 1, stdout := out, protocl_types := tally (protocl_types m) PROTO_IP (frame_len s)\<rparr>)
      (datagram s) (of_nat (length (datagram s)))"
proof -
  define mac where "mac = take 12 lh"
  have h14: "length lh = 14" "lh = mac @ enc16 0x0800" "length mac = 12"
    using assms(2) append_take_drop_id [of 12 lh] by (simp_all add: mac_def)
  have hp: "caplen h = of_nat (length (lh @ datagram s))" "plen h = of_nat (length (lh @ datagram s))" "p = lh @ datagram s"
    using assms(3) by (auto simp: whole_def Let_def)
  have n14: "(14::nat) \<le> 16" by simp
  note sh = strip_head [OF assms(1) h14(1) n14]
  have p: "p = mac @ enc16 0x0800 @ datagram s" unfolding hp(3) by (subst h14(2)) simp
  have sp: "sint (plen h) = int (length (mac @ enc16 0x0800 @ datagram s))" using sh(3) h14 unfolding hp(2) by simp
  have fl: "sint (plen h) = frame_len s" unfolding sp by (simp add: frame_len_def h14(3))
  have ty: "be16 p 12 = Some 0x0800" unfolding p by (rule be_fields) (rule h14(3))
  have c: "cint (packet_no m + 1) = Some (packet_no m + 1)" using assms(8,9) by (intro cint_in) (simp_all add: int_min_def)
  let ?b = "sint (word_of_int (bytes_no m) + plen h)"
  obtain uts ft where first: "(if packet_no m + 1 = 1 then first_packet_time (m\<lparr>packet_no := packet_no m + 1\<rparr>)
      else m\<lparr>packet_no := packet_no m + 1\<rparr>) = m\<lparr>packet_no := packet_no m + 1, utcs := uts, first_time := ft\<rparr>"
    using that_first [of m] by blast
  let ?m = "m\<lparr>packet_no := packet_no m + 1, utcs := uts, first_time := ft, bytes_no := ?b\<rparr>"
  obtain out where out: "print_packet_orig l ?m h p = Some (?m\<lparr>print_count := print_count ?m + 1, stdout := out\<rparr>)"
    using print_packet_orig_total [OF assms(1) h14(3) sp, of ?m l] assms(6,7) unfolding p by auto
  have up: "update_pkt_type M PROTO_IP (frame_len s) = Some (M\<lparr>protocl_types := tally (protocl_types M) PROTO_IP (frame_len s)\<rparr>)"
    if "protocl_types M = protocl_types m" for M
    by (rule update_pkt_type_spec(1) [of j]) (use assms(4,5) that frame_len_bounds [OF assms(1)] in \<open>simp_all add: PROTO_IP_def\<close>)
  have u: "(unat (caplen h) < 14) = False" unfolding hp(1) sh(2) using h14(1) by simp
  have dr: "drop 14 p = datagram s" unfolding hp(3) using h14(1) by simp
  have sb: "caplen h - 14 = of_nat (length (datagram s))" using sh(1) unfolding hp(1) by simp
  have "dl_ethernet opts l m h p = process_ip opts (m\<lparr>packet_no := packet_no m + 1, utcs := uts, first_time := ft, bytes_no := ?b,
      print_count := print_count m + 1, stdout := out, protocl_types := tally (protocl_types m) PROTO_IP (frame_len s)\<rparr>)
      (datagram s) (of_nat (length (datagram s)))"
    unfolding dl_ethernet_def c bind.bind_lunit Let_def first u if_False ty
    using out by (simp add: fl up dr sb)
  then show thesis by (rule that)
qed

section \<open>Sequences of frames\<close>

text \<open>\<open>pcap_loop\<close> calls the handler for each frame.\<close>

fun listen :: "handler \<Rightarrow> options \<Rightarrow> libc \<Rightarrow> monitor \<Rightarrow> (pcap_pkthdr \<times> byte list) list \<Rightarrow> (fexit + monitor) option" where
  "listen H opts l m [] = Some (Inr m)"
| "listen H opts l m ((h, p) # fs) = do {
     c \<leftarrow> run_handler H opts l m h p;
     (case c of Inl e \<Rightarrow> Some (Inl e) | Inr m \<Rightarrow> listen H opts l m fs)
   }"

text \<open>The monitor after at most \<open>k\<close> frames.\<close>

definition listening :: "nat \<Rightarrow> monitor \<Rightarrow> (flow_t \<rightharpoonup> capture) \<Rightarrow> tcp_conver list \<Rightarrow> bool" where
  "listening k m S cs \<longleftrightarrow> watching k m S cs \<and> tally_ok (3 * k) (protocl_types m) \<and> 0 \<le> print_count m \<and> print_count m \<le> int k + 1 \<and>
     0 \<le> packet_no m \<and> packet_no m \<le> int k"

definition spec_frame :: "handler \<Rightarrow> segment \<Rightarrow> (int \<times> int) list \<Rightarrow> (int \<times> int) list" where
  "spec_frame H s ts = spec_tally s (link_tally H s ts)"

text \<open>
  What a frame is, said without the code: the types it counts for and the bytes it counts with.
  Over Ethernet it is an IP packet, and it is a TCP packet, both with the length of the frame; at
  port 80 it is HTTP or its acknowledgement, at port 443 SSL or its acknowledgement, with the bytes
  from its TCP header on, an IP header without options and the Ethernet header.
\<close>

definition classes :: "handler \<Rightarrow> segment \<Rightarrow> (int \<times> int) list" where
  "classes H s = (if H = Dl_ethernet then [(PROTO_IP, frame_len s)] else []) @ [(PROTO_TCP, frame_len s)] @
     (case tcp_type s of None \<Rightarrow> []
      | Some t \<Rightarrow> [(t, int (20 + length (tcp_options s) + length (payload s) + 34))])"

text \<open>
  The table for the frames \<open>xs\<close>: for each type their number and their bytes, only the row of the
  SSL acknowledgements, the last, stays empty whatever there is.
\<close>

definition table :: "(int \<times> int) list \<Rightarrow> (int \<times> int) list" where
  "table xs = map (\<lambda>i. if i = PROTO_SSL_ack then (0, 0)
     else (int (length (filter (\<lambda>x. fst x = i) xs)), sum_list (map snd (filter (\<lambda>x. fst x = i) xs)))) [0..9]"

lemma table_step:
  assumes "0 \<le> t" "t \<le> 9"
  shows "tally (table xs) t n = table (xs @ [(t, n)])"
proof -
  have u: "[0..9] = [0, 1, 2, 3, 4, 5, 6, 7, 8, 9::int]" by (simp add: upto.simps)
  have "t = 0 \<or> t = 1 \<or> t = 2 \<or> t = 3 \<or> t = 4 \<or> t = 5 \<or> t = 6 \<or> t = 7 \<or> t = 8 \<or> t = 9" using assms by arith
  then show ?thesis by (elim disjE) (simp_all add: tally_def table_def u PROTO_SSL_def PROTO_SSL_ack_def)
qed

lemma classes_bounds: "x \<in> set (classes H s) \<Longrightarrow> 0 \<le> fst x \<and> fst x \<le> 9"
  by (auto simp: classes_def tcp_type_def PROTO_IP_def PROTO_TCP_def PROTO_HTTP_def PROTO_HTTP_ack_def PROTO_SSL_def PROTO_SSL_ack_def
      split: if_splits option.splits)

lemma tallies_table:
  "\<forall>x\<in>set ys. 0 \<le> fst x \<and> fst x \<le> 9 \<Longrightarrow> fold (\<lambda>x ts. tally ts (fst x) (snd x)) ys (table xs) = table (xs @ ys)"
proof (induction ys arbitrary: xs)
  case (Cons y ys)
  then show ?case using table_step [of "fst y" xs "snd y"] by simp
qed simp

lemma spec_frame_classes: "spec_frame H s ts = fold (\<lambda>x ts. tally ts (fst x) (snd x)) (classes H s) ts"
  by (simp add: spec_frame_def spec_tally_def link_tally_def classes_def Let_def split: option.split)

lemma frames_table: "fold (spec_frame H) ss (table xs) = table (xs @ concat (map (classes H) ss))"
proof (induction ss arbitrary: xs)
  case (Cons s ss)
  then show ?case using tallies_table [of "classes H s" xs] classes_bounds [of _ H s] by (simp add: spec_frame_classes)
qed simp

lemma table_empty: "table [] = replicate 10 (0, 0)"
  by (simp add: table_def upto.simps numeral_eq_Suc)

text \<open>The ends and the bytes of a datagram, as the conversations count it.\<close>

definition hop :: "segment \<Rightarrow> ends \<times> int" where
  "hop s = (key_of s, frame_len s)"

lemma tally_ok_mono: "tally_ok j ts \<Longrightarrow> j \<le> k \<Longrightarrow> tally_ok k ts"
  by (fastforce simp: tally_ok_def)

lemma frame_step:
  assumes "listening k m S cs" "within (3 * k + 2)" "segment_ok s" "\<not> console_only opts" "head_ok H lh" "whole (t, lh, s) = (h, p)"
  shows "\<exists>m' e. run_handler H opts l m h p = Some (Inr m') \<and>
    listening (Suc k) m' (spec_segment opts S s) (spec_conver (key_of s) e (frame_len s) cs) \<and>
    protocl_types m' = spec_frame H s (protocl_types m)"
proof -
  note L = assms(1) [unfolded listening_def]
  have w: "within (3 * k)" "within (3 * k + 1)" "within k" "int k + 1 < int_max" using assms(2) by (simp_all add: within_def)
  have j: "3 * k + 1 + 2 \<le> 3 * Suc k" "3 * k + 2 \<le> 3 * Suc k" by simp_all
  obtain m1 where m1: "run_handler H opts l m h p = process_ip opts m1 (datagram s) (of_nat (length (datagram s)))"
    "watching k m1 S cs" "protocl_types m1 = link_tally H s (protocl_types m)" "tally_ok (3 * k + 1) (protocl_types m1)"
    "0 \<le> print_count m1" "print_count m1 \<le> int k + 2" "0 \<le> packet_no m1" "packet_no m1 \<le> int k + 1"
  proof (cases "H = Dl_ethernet")
    case False
    have "tally_ok (3 * k + 1) (protocl_types m)" by (rule tally_ok_mono [of "3 * k"]) (use L in simp_all)
    then show thesis using that [of m] other_frame [OF assms(3,5) False assms(6)] L False by (simp add: link_tally_def)
  next
    case True
    have e: "head_ok Dl_ethernet lh" using assms(5) True by simp
    obtain ft uts bs out where run: "dl_ethernet opts l m h p = process_ip opts (m\<lparr>packet_no := packet_no m + 1, utcs := uts, first_time := ft,
      bytes_no := bs, print_count := print_count m + 1, stdout := out, protocl_types := tally (protocl_types m) PROTO_IP (frame_len s)\<rparr>)
      (datagram s) (of_nat (length (datagram s)))"
    proof (rule ethernet_frame [OF assms(3) e assms(6) _ w(1), of m])
      show "tally_ok (3 * k) (protocl_types m)" "0 \<le> print_count m" "print_count m < int_max" "0 \<le> packet_no m" "packet_no m < int_max"
        using L w(4) by simp_all
    qed
    have "tally_ok (Suc (3 * k)) (tally (protocl_types m) PROTO_IP (frame_len s))"
      by (rule update_pkt_type_spec(2)) (use L w(1) frame_len_bounds [OF assms(3)] in \<open>simp_all add: PROTO_IP_def\<close>)
    moreover have "watching k (m\<lparr>packet_no := packet_no m + 1, utcs := uts, first_time := ft, bytes_no := bs,
      print_count := print_count m + 1, stdout := out, protocl_types := tally (protocl_types m) PROTO_IP (frame_len s)\<rparr>) S cs"
      using L by (simp add: watching_def convers_def reports_ok_def)
    ultimately show thesis using that run L True by (auto simp: link_tally_def)
  qed
  have w2: "within (3 * k + 1 + 1)" using assms(2) by simp
  from process_ip_step [OF m1(2,4) w2 w(3) assms(3,4)] obtain m' e where
    m': "process_ip opts m1 (datagram s) (of_nat (length (datagram s))) = Some (Inr m')"
      "watching (Suc k) m' (spec_segment opts S s) (spec_conver (key_of s) e (frame_len s) cs)"
      "protocl_types m' = spec_tally s (protocl_types m1)" "tally_ok (3 * k + 1 + 2) (protocl_types m')"
      "print_count m' = print_count m1" "packet_no m' = packet_no m1" by blast
  have "listening (Suc k) m' (spec_segment opts S s) (spec_conver (key_of s) e (frame_len s) cs)"
    unfolding listening_def using m' m1(5-8) tally_ok_mono [OF m'(4) j(1)] by simp
  then show ?thesis using m1(1,3) m'(1,3) by (intro exI [of _ m'] exI [of _ e]) (simp add: spec_frame_def)
qed

lemma listen_spec:
  "listening k m S cs \<Longrightarrow> all_counted ks cs \<Longrightarrow> within (3 * (k + length fs) + 2) \<Longrightarrow> \<forall>(t, lh, s)\<in>set fs. segment_ok s \<and> head_ok H lh \<Longrightarrow> \<not> console_only opts \<Longrightarrow>
   \<exists>m' cs'. listen H opts l m (map whole fs) = Some (Inr m') \<and>
     listening (k + length fs) m' (foldl (spec_segment opts) S (map (snd \<circ> snd) fs)) cs' \<and>
     protocl_types m' = fold (spec_frame H) (map (snd \<circ> snd) fs) (protocl_types m) \<and>
     all_counted (ks @ map hop (map (snd \<circ> snd) fs)) cs' \<and>
     sum_list (map packets cs') = sum_list (map packets cs) + int (length fs) \<and>
     sum_list (map cbytes cs') = sum_list (map cbytes cs) + sum_list (map (frame_len \<circ> (snd \<circ> snd)) fs)"
proof (induction fs arbitrary: k m S cs ks)
  case Nil
  then show ?case by auto
next
  case (Cons x fs)
  obtain t lh s where x: "x = (t, lh, s)" by (cases x)
  obtain h p where hp: "whole (t, lh, s) = (h, p)" by fastforce
  have w: "within (3 * k + 2)" "within (3 * (Suc k + length fs) + 2)" using Cons.prems(3) by (simp_all add: within_def)
  have s: "segment_ok s" "head_ok H lh" "\<forall>(t, lh, s)\<in>set fs. segment_ok s \<and> head_ok H lh" using Cons.prems(4) x by simp_all
  from frame_step [OF Cons.prems(1) w(1) s(1) Cons.prems(5) s(2) hp, of l] obtain m1 e where
    m1: "run_handler H opts l m h p = Some (Inr m1)"
      "listening (Suc k) m1 (spec_segment opts S s) (spec_conver (key_of s) e (frame_len s) cs)"
      "protocl_types m1 = spec_frame H s (protocl_types m)" by blast
  have "apart (map ends_of cs)" using Cons.prems(1) by (simp add: listening_def watching_def)
  then have "all_counted (ks @ [hop s]) (spec_conver (key_of s) e (frame_len s) cs)"
    unfolding hop_def by (rule spec_counted [OF Cons.prems(2)])
  from Cons.IH [OF m1(2) this w(2) s(3) Cons.prems(5)] obtain m' cs' where
    m': "listen H opts l m1 (map whole fs) = Some (Inr m')"
      "listening (Suc k + length fs) m' (foldl (spec_segment opts) (spec_segment opts S s) (map (snd \<circ> snd) fs)) cs'"
      "protocl_types m' = fold (spec_frame H) (map (snd \<circ> snd) fs) (protocl_types m1)"
      "all_counted ((ks @ [hop s]) @ map hop (map (snd \<circ> snd) fs)) cs'"
      "sum_list (map packets cs') = sum_list (map packets cs) + 1 + int (length fs)"
      "sum_list (map cbytes cs') = sum_list (map cbytes cs) + frame_len s + sum_list (map (frame_len \<circ> (snd \<circ> snd)) fs)"
    unfolding spec_sums by blast
  show ?case using m1(1,3) m' hp x by (intro exI [of _ m'] exI [of _ cs']) (simp add: o_def)
qed

lemma listening_start:
  assumes "6 \<le> nfds" "nfds \<le> int_max" "well_equipped m"
  shows "listening 0 (monitor_start m nfds) Map.empty []"
proof -
  have "print_count (monitor_start m nfds) = 1" "packet_no (monitor_start m nfds) = 0"
    by (simp_all add: monitor_start_def get_tv_main_def gettimeofday_def Let_def)
  then show ?thesis using monitor_start_watching [OF assms] by (simp add: listening_def tally_ok_def)
qed

section \<open>The properties\<close>

text \<open>
  C5. From its start, the handler of any link layer processes any sequence of frames with TCP
  datagrams (any ports, options, flags and padding, no fragments) and returns: the flow table holds
  exactly the payloads under the addresses, ports and sequence numbers of the headers, so that every
  file has the bytes the map of captures has for its flow, and the tallies of \<open>summary.c\<close> are the
  numbers and bytes of the frames of each type (\<^const>\<open>table\<close>, \<^const>\<open>classes\<close>), except that SSL
  acknowledgements are never counted. This needs what \<^const>\<open>well_equipped\<close> says: memory is granted,
  files can be opened and written, reports exist and hold no word of 100 characters, and two
  characters can be read behind the string of dashes, from which \<open>summary.c\<close> copies two too many.
\<close>
theorem frames_captured:
  assumes "6 \<le> nfds" "nfds \<le> int_max" "well_equipped m" "\<not> console_only opts" "find_handler dlt = Inr H"
    "\<forall>(t, lh, s)\<in>set fs. segment_ok s \<and> head_ok H lh" "70000 * (3 * int (length fs) + 3) \<le> int_max"
  shows "\<exists>m'. listen H opts l (monitor_start m nfds) (map whole fs) = Some (Inr m') \<and>
    (\<forall>f c d. spec_stores (bytes_per_flow opts) Map.empty (map (packet_of opts) (filter (\<lambda>s. payload s \<noteq> []) (map (snd \<circ> snd) fs))) f = Some c \<longrightarrow>
       c_data c = Some d \<longrightarrow> fdata (files (flows m')) (path f) = Some d) \<and>
    protocl_types m' = table (concat (map (classes H) (map (snd \<circ> snd) fs)))"
proof -
  have w: "within (3 * (0 + length fs) + 2)" using assms(7) by (simp add: within_def)
  have "all_counted [] []" by (simp add: all_counted_def)
  from listen_spec [OF listening_start [OF assms(1-3)] this w assms(6,4), of l] obtain m' cs where
    m': "listen H opts l (monitor_start m nfds) (map whole fs) = Some (Inr m')"
      "listening (0 + length fs) m' (foldl (spec_segment opts) Map.empty (map (snd \<circ> snd) fs)) cs"
      "protocl_types m' = fold (spec_frame H) (map (snd \<circ> snd) fs) (protocl_types (monitor_start m nfds))" by blast
  have "captures (flows m') (foldl (spec_segment opts) Map.empty (map (snd \<circ> snd) fs))"
    using m'(2) by (simp add: listening_def watching_def)
  from captures_file [OF this] have "\<forall>f c d. foldl (spec_segment opts) Map.empty (map (snd \<circ> snd) fs) f = Some c \<longrightarrow>
      c_data c = Some d \<longrightarrow> fdata (files (flows m')) (path f) = Some d" by blast
  moreover have "protocl_types m' = table (concat (map (classes H) (map (snd \<circ> snd) fs)))"
    unfolding m'(3) monitor_start_watching(2) [OF assms(1-3)] table_empty [symmetric] frames_table append_Nil ..
  ultimately show ?thesis using m'(1) unfolding spec_segments by blast
qed

text \<open>
  C6. The conversations after any such sequence. No two have the same pair of ends (addresses and
  ports), in whichever direction; every datagram's pair of ends has its conversation; and each
  conversation has counted exactly the datagrams between its two ends, those from its first end to
  its second in \<open>packets_to\<close> and \<open>bytes_to\<close> and the answers in \<open>packets_from\<close> and \<open>bytes_from\<close>
  (\<^const>\<open>all_counted\<close>), with 14 bytes of link header each. The two directions add up to its packets and
  bytes, all conversations together count every datagram once, and the report file, written last for
  the last datagram, has a row for each of them.
\<close>
theorem conversations_exact:
  assumes "6 \<le> nfds" "nfds \<le> int_max" "well_equipped m" "\<not> console_only opts" "find_handler dlt = Inr H"
    "\<forall>(t, lh, s)\<in>set fs. segment_ok s \<and> head_ok H lh" "70000 * (3 * int (length fs) + 3) \<le> int_max"
  shows "\<exists>m' cs. listen H opts l (monitor_start m nfds) (map whole fs) = Some (Inr m') \<and> convers m' cs \<and>
    apart (map ends_of cs) \<and> all_counted (map hop (map (snd \<circ> snd) fs)) cs \<and>
    (\<forall>c\<in>set cs. packets c = packets_to c + packets_from c \<and> cbytes c = bytes_to c + bytes_from c) \<and>
    sum_list (map packets cs) = int (length fs) \<and> sum_list (map cbytes cs) = sum_list (map (frame_len \<circ> (snd \<circ> snd)) fs) \<and>
    (fs \<noteq> [] \<longrightarrow> conver_file m' = conver_report cs)"
proof -
  have w: "within (3 * (0 + length fs) + 2)" using assms(7) by (simp add: within_def)
  have "all_counted [] []" by (simp add: all_counted_def)
  from listen_spec [OF listening_start [OF assms(1-3)] this w assms(6,4), of l] obtain m' cs where
    m': "listen H opts l (monitor_start m nfds) (map whole fs) = Some (Inr m')"
      "listening (0 + length fs) m' (foldl (spec_segment opts) Map.empty (map (snd \<circ> snd) fs)) cs"
      "all_counted ([] @ map hop (map (snd \<circ> snd) fs)) cs"
      "sum_list (map packets cs) = sum_list (map packets ([] :: tcp_conver list)) + int (length fs)"
      "sum_list (map cbytes cs) = sum_list (map cbytes ([] :: tcp_conver list)) + sum_list (map (frame_len \<circ> (snd \<circ> snd)) fs)" by blast
  have c: "convers m' cs" "apart (map ends_of cs)" "\<forall>c\<in>set cs. counts_ok (length fs) c"
    "length fs = 0 \<or> conver_file m' = conver_report cs"
    using m'(2) by (simp_all add: listening_def watching_def)
  have "\<forall>c\<in>set cs. packets c = packets_to c + packets_from c \<and> cbytes c = bytes_to c + bytes_from c"
    using c(3) by (simp add: counts_ok_def)
  moreover have "fs \<noteq> [] \<longrightarrow> conver_file m' = conver_report cs" using c(4) by (cases fs) simp_all
  ultimately show ?thesis using m'(1,3-5) c(1,2) by (intro exI [of _ m'] exI [of _ cs]) simp
qed

text \<open>
  The witnesses: a connection in both directions over Ethernet, with an acknowledgement and a
  segment that comes late.
\<close>

definition clib :: libc where
  "clib = \<lparr>ctime = (\<lambda>_. ''now''), inet_ntoa = (\<lambda>_. ''a.b.c.d'')\<rparr>"

definition capture_file :: "(int \<times> byte list \<times> segment) list" where
  "capture_file = map (\<lambda>s. (0, replicate 12 0 @ [8, 0], s)) talk"

lemma capture_file_ok:
  "\<forall>(t, lh, s)\<in>set capture_file. segment_ok s \<and> head_ok Dl_ethernet lh" "length capture_file = 4" "find_handler 1 = Inr Dl_ethernet"
proof -
  have "head_ok Dl_ethernet (replicate 12 0 @ [8, 0])" by code_simp
  then show "\<forall>(t, lh, s)\<in>set capture_file. segment_ok s \<and> head_ok Dl_ethernet lh"
    unfolding capture_file_def using talk_ok(1) by (simp del: head_ok.simps)
  show "length capture_file = 4" using talk_ok(4) by (simp add: capture_file_def)
  show "find_handler 1 = Inr Dl_ethernet" by code_simp
qed

theorem frames_captured_witness:
  "\<exists>m'. listen Dl_ethernet plain clib (monitor_start small_monitor 6) (map whole capture_file) = Some (Inr m') \<and>
    (\<forall>f c d. spec_stores (bytes_per_flow plain) Map.empty (map (packet_of plain) (filter (\<lambda>s. payload s \<noteq> []) (map (snd \<circ> snd) capture_file))) f = Some c \<longrightarrow>
       c_data c = Some d \<longrightarrow> fdata (files (flows m')) (path f) = Some d) \<and>
    map fst (protocl_types m') = [0, 4, 0, 0, 0, 4, 3, 1, 0, 0]"
proof -
  have "map fst (table (concat (map (classes Dl_ethernet) (map (snd \<circ> snd) capture_file)))) = [0, 4, 0, 0, 0, 4, 3, 1, 0, 0]"
    by code_simp
  moreover have "6 \<le> (6::int)" "6 \<le> int_max" "70000 * (3 * int (length capture_file) + 3) \<le> int_max"
    by (simp_all add: int_max_def capture_file_ok(2))
  ultimately show ?thesis
    using frames_captured [OF _ _ talk_ok(2,3) capture_file_ok(3,1), of 6 clib] by metis
qed

theorem conversations_exact_witness:
  "\<exists>m' cs. listen Dl_ethernet plain clib (monitor_start small_monitor 6) (map whole capture_file) = Some (Inr m') \<and> convers m' cs \<and>
    apart (map ends_of cs) \<and> all_counted (map hop (map (snd \<circ> snd) capture_file)) cs \<and>
    sum_list (map packets cs) = 4 \<and> conver_file m' = conver_report cs"
proof -
  have b: "6 \<le> (6::int)" "6 \<le> int_max" "70000 * (3 * int (length capture_file) + 3) \<le> int_max" "capture_file \<noteq> []"
    "int (length capture_file) = 4"
    using capture_file_ok(2) by (auto simp: int_max_def)
  show ?thesis
    using conversations_exact [OF b(1,2) talk_ok(2,3) capture_file_ok(3,1) b(3), of clib] b(4) unfolding b(5) by blast
qed

section \<open>The dump\<close>

text \<open>
  C36. \<open>print_payload\<close> prints the payload in lines of 16 bytes, each with its offset, its bytes in
  hexadecimal and as characters, and nothing else; it reads outside the capture exactly when
  the length it is given, which \<open>print_packet_orig\<close> takes from the wire and not from the
  capture, is longer than what was captured.
\<close>
theorem print_payload_dump:
  assumes "len \<le> int_max"
  shows "print_payload bs len = (if nat len \<le> length bs then Some (dump 0 (take (nat len) bs)) else None)"
  using assms by (rule print_payload_spec)

theorem print_payload_dump_witness:
  "print_payload [72, 105, 10] 3 = Some (dump 0 [72, 105, 10]) \<and> print_payload [72, 105, 10] 4 = None"
  using print_payload_dump [of 3 "[72, 105, 10]"] print_payload_dump [of 4 "[72, 105, 10]"] by (simp add: int_max_def)

lemma dump_line: "dump 0 [72, 105, 10] = ''00000   48 69 0a                              Hi.\<newline>''"
  by code_simp

end
