(* ===== verification/Puzzles.thy ===== *)
theory Puzzles
  imports Array_Sort Linked
begin

unbundle bit_operations_syntax

text \<open>
  The exercises on arrays and numbers at the top of the repository and in \<open>linklist/\<close>: merging in
  place, counting sorts by insertion, the tree-shaped array of partial sums, the sieve, happy numbers,
  duplicates with a hash table, and the word counter. Of two versions in a file the second one has the
  prefix \<open>best\<close>. Memory that has not been written is \<^term>\<open>None\<close> in an array of optional values.
\<close>

section \<open>linklist/merge\_sort\_array.c\<close>

text \<open>The pointers are indices; the one before the array is \<open>- 1\<close>.\<close>

function merge_loop :: "int list \<Rightarrow> int list \<Rightarrow> int \<Rightarrow> int \<Rightarrow> int \<Rightarrow> (int list \<times> int \<times> int) option" where
  "merge_loop nums1 nums2 nums1_end nums2_end end_p = (if nums1_end \<ge> 0 \<and> nums2_end \<ge> 0 then do {
       x \<leftarrow> aread nums1 nums1_end;
       y \<leftarrow> aread nums2 nums2_end;
       if x > y then do {
         nums1 \<leftarrow> awrite nums1 end_p x;
         merge_loop nums1 nums2 (nums1_end - 1) nums2_end (end_p - 1)
       } else do {
         nums1 \<leftarrow> awrite nums1 end_p y;
         merge_loop nums1 nums2 nums1_end (nums2_end - 1) (end_p - 1)
       }
     } else Some (nums1, nums2_end, end_p))"
  by pat_completeness auto
termination by (relation "measure (\<lambda>(a, b, i, j, k). nat (i + 1) + nat (j + 1))") auto

function merge_rest :: "int list \<Rightarrow> int list \<Rightarrow> int \<Rightarrow> int \<Rightarrow> int list option" where
  "merge_rest nums1 nums2 nums2_end end_p = (if nums2_end \<ge> 0 then do {
       y \<leftarrow> aread nums2 nums2_end;
       nums1 \<leftarrow> awrite nums1 end_p y;
       merge_rest nums1 nums2 (nums2_end - 1) (end_p - 1)
     } else Some nums1)"
  by pat_completeness auto
termination by (relation "measure (\<lambda>(a, b, j, k). nat (j + 1))") auto

definition merge :: "int list \<Rightarrow> int \<Rightarrow> int list \<Rightarrow> int \<Rightarrow> int list option" where
  "merge nums1 m nums2 n = do {
     (nums1, nums2_end, end_p) \<leftarrow> merge_loop nums1 nums2 (m - 1) (n - 1) (m + n - 1);
     merge_rest nums1 nums2 nums2_end end_p
   }"

function best_merge_loop :: "int list \<Rightarrow> int list \<Rightarrow> int \<Rightarrow> int \<Rightarrow> int \<Rightarrow> (int list \<times> int \<times> int) option" where
  "best_merge_loop A B i j k = (if i \<ge> 0 \<and> j \<ge> 0 then do {
       x \<leftarrow> aread A i;
       y \<leftarrow> aread B j;
       if x > y then do { A \<leftarrow> awrite A k x; best_merge_loop A B (i - 1) j (k - 1) }
       else do { A \<leftarrow> awrite A k y; best_merge_loop A B i (j - 1) (k - 1) }
     } else Some (A, j, k))"
  by pat_completeness auto
termination by (relation "measure (\<lambda>(a, b, i, j, k). nat (i + 1) + nat (j + 1))") auto

function best_merge_rest :: "int list \<Rightarrow> int list \<Rightarrow> int \<Rightarrow> int \<Rightarrow> int list option" where
  "best_merge_rest A B j k = (if j \<ge> 0 then do {
       y \<leftarrow> aread B j;
       A \<leftarrow> awrite A k y;
       best_merge_rest A B (j - 1) (k - 1)
     } else Some A)"
  by pat_completeness auto
termination by (relation "measure (\<lambda>(a, b, j, k). nat (j + 1))") auto

definition best_merge :: "int list \<Rightarrow> int \<Rightarrow> int list \<Rightarrow> int \<Rightarrow> int list option" where
  "best_merge A m B n = do {
     (A, j, k) \<leftarrow> best_merge_loop A B (m - 1) (n - 1) (m + n - 1);
     best_merge_rest A B j k
   }"

section \<open>linklist/insert\_sort\_color.c\<close>

function colors_loop :: "int list \<Rightarrow> int \<Rightarrow> int \<Rightarrow> int \<Rightarrow> int \<Rightarrow> int \<Rightarrow> int list option" where
  "colors_loop nums numsSize num0 num1 num2 i = (if i < numsSize then do {
       x \<leftarrow> aread nums i;
       if x = 2 then do {
         nums \<leftarrow> awrite nums num2 2;
         colors_loop nums numsSize num0 num1 (num2 + 1) (i + 1)
       } else if x = 1 then do {
         nums \<leftarrow> awrite nums num2 2;
         nums \<leftarrow> awrite nums num1 1;
         colors_loop nums numsSize num0 (num1 + 1) (num2 + 1) (i + 1)
       } else do {
         nums \<leftarrow> awrite nums num2 2;
         nums \<leftarrow> awrite nums num1 1;
         nums \<leftarrow> awrite nums num0 0;
         colors_loop nums numsSize (num0 + 1) (num1 + 1) (num2 + 1) (i + 1)
       }
     } else Some nums)"
  by pat_completeness auto
termination by (relation "measure (\<lambda>(a, n, x, y, z, i). nat (n - i))") auto

definition sortColors :: "int list \<Rightarrow> int \<Rightarrow> int list option" where
  "sortColors nums numsSize = colors_loop nums numsSize 0 0 0 0"

text \<open>\<open>nums[k++]=nums[i]\<close>, with the array as it is by then.\<close>

definition copy_to :: "int list \<Rightarrow> int \<Rightarrow> int \<Rightarrow> int list option" where
  "copy_to nums k i = do { x \<leftarrow> aread nums i; awrite nums k x }"

text \<open>\<open>sort4nums\<close>, with \<open>numsSize\<close> for the parameter it calls \<open>numssize\<close>.\<close>

function sort4_loop :: "int list \<Rightarrow> int \<Rightarrow> int \<Rightarrow> int \<Rightarrow> int \<Rightarrow> int \<Rightarrow> int \<Rightarrow> int list option" where
  "sort4_loop nums numsSize n0 n1 n2 n3 i = (if i < numsSize then do {
       x \<leftarrow> aread nums i;
       if x = 3 then do {
         nums \<leftarrow> copy_to nums n3 i;
         sort4_loop nums numsSize n0 n1 n2 (n3 + 1) (i + 1)
       } else if x = 2 then do {
         nums \<leftarrow> copy_to nums n3 i;
         nums \<leftarrow> copy_to nums n2 i;
         sort4_loop nums numsSize n0 n1 (n2 + 1) (n3 + 1) (i + 1)
       } else if x = 1 then do {
         nums \<leftarrow> copy_to nums n3 i;
         nums \<leftarrow> copy_to nums n2 i;
         nums \<leftarrow> copy_to nums n1 i;
         sort4_loop nums numsSize n0 (n1 + 1) (n2 + 1) (n3 + 1) (i + 1)
       } else do {
         nums \<leftarrow> copy_to nums n3 i;
         nums \<leftarrow> copy_to nums n2 i;
         nums \<leftarrow> copy_to nums n1 i;
         nums \<leftarrow> copy_to nums n0 i;
         sort4_loop nums numsSize (n0 + 1) (n1 + 1) (n2 + 1) (n3 + 1) (i + 1)
       }
     } else Some nums)"
  by pat_completeness auto
termination by (relation "measure (\<lambda>(a, n, w, x, y, z, i). nat (n - i))") auto

definition sort4nums :: "int list \<Rightarrow> int \<Rightarrow> int list option" where
  "sort4nums nums numsSize = sort4_loop nums numsSize 0 0 0 0 0"

section \<open>tree\_form\_array.c\<close>

record NumArray =
  nums :: scratch
  sums :: scratch
  size_na :: int

definition lowbit :: "int \<Rightarrow> int option" where
  "lowbit n = map_option (\<lambda>k. n AND k) (cint (- n))"

function create_copy :: "int list \<Rightarrow> int \<Rightarrow> scratch \<Rightarrow> int \<Rightarrow> scratch option" where
  "create_copy ns numsSize a i = (if i < numsSize then do {
       x \<leftarrow> aread ns i;
       a \<leftarrow> awrite a (i + 1) (Some x);
       create_copy ns numsSize a (i + 1)
     } else Some a)"
  by pat_completeness auto
termination by (relation "measure (\<lambda>(ns, n, a, i). nat (n - i))") auto

text \<open>\<open>for(j=i-1;j>i-lowbit(i);j--) a->sums[i]+=a->nums[j]\<close>; the partial sum is in \<open>sums[i]\<close>.\<close>

function create_sum :: "scratch \<Rightarrow> scratch \<Rightarrow> int \<Rightarrow> int \<Rightarrow> int \<Rightarrow> scratch option" where
  "create_sum ns ss i low j = (if j > low then do {
       x \<leftarrow> tread ss i;
       y \<leftarrow> tread ns j;
       z \<leftarrow> cint (x + y);
       ss \<leftarrow> awrite ss i (Some z);
       create_sum ns ss i low (j - 1)
     } else Some ss)"
  by pat_completeness auto
termination by (relation "measure (\<lambda>(ns, ss, i, low, j). nat (j - low))") auto

function create_sums :: "scratch \<Rightarrow> scratch \<Rightarrow> int \<Rightarrow> int \<Rightarrow> scratch option" where
  "create_sums ns ss numsSize i = (if i \<le> numsSize then do {
       x \<leftarrow> tread ns i;
       ss \<leftarrow> awrite ss i (Some x);
       l \<leftarrow> lowbit i;
       ss \<leftarrow> create_sum ns ss i (i - l) (i - 1);
       create_sums ns ss numsSize (i + 1)
     } else Some ss)"
  by pat_completeness auto
termination by (relation "measure (\<lambda>(ns, ss, n, i). nat (n + 1 - i))") auto

text \<open>The three calls of \<open>malloc\<close> are not tested: with one refused, a null pointer is written to.\<close>

definition NumArrayCreate :: "bool \<Rightarrow> int list \<Rightarrow> int \<Rightarrow> NumArray option" where
  "NumArrayCreate granted ns numsSize = do {
     guard granted;
     let blank = replicate (nat (numsSize + 1)) None;
     a \<leftarrow> create_copy ns numsSize blank 0;
     s \<leftarrow> create_sums a blank numsSize 1;
     Some \<lparr>nums = a, sums = s, size_na = numsSize\<rparr>
   }"

partial_function (option) update_loop :: "scratch \<Rightarrow> int \<Rightarrow> int \<Rightarrow> int \<Rightarrow> scratch option" where
  "update_loop ss siz v j = (if j \<le> siz then do {
       x \<leftarrow> tread ss j;
       y \<leftarrow> cint (x + v);
       ss \<leftarrow> awrite ss j (Some y);
       l \<leftarrow> lowbit j;
       j \<leftarrow> cint (j + l);
       update_loop ss siz v j
     } else Some ss)"

definition update :: "NumArray \<Rightarrow> int \<Rightarrow> int \<Rightarrow> NumArray option" where
  "update a i v = do {
     p \<leftarrow> cint (i + 1);
     let temp = v;
     old \<leftarrow> tread (nums a) p;
     v \<leftarrow> cint (v - old);
     ns \<leftarrow> awrite (nums a) p (Some temp);
     ss \<leftarrow> update_loop (sums a) (size_na a) v p;
     Some (a\<lparr>nums := ns, sums := ss\<rparr>)
   }"

partial_function (option) prefix_loop :: "scratch \<Rightarrow> int \<Rightarrow> int \<Rightarrow> int option" where
  "prefix_loop ss j acc = (if j \<ge> 1 then do {
       x \<leftarrow> tread ss j;
       acc \<leftarrow> cint (acc + x);
       l \<leftarrow> lowbit j;
       prefix_loop ss (j - l) acc
     } else Some acc)"

definition sumRange :: "NumArray \<Rightarrow> int \<Rightarrow> int \<Rightarrow> int option" where
  "sumRange a i j = do {
     i \<leftarrow> cint (i + 1);
     j \<leftarrow> cint (j + 1);
     let p = i;
     sum1 \<leftarrow> prefix_loop (sums a) j 0;
     sum2 \<leftarrow> prefix_loop (sums a) i 0;
     d \<leftarrow> cint (sum1 - sum2);
     x \<leftarrow> tread (nums a) p;
     cint (d + x)
   }"

section \<open>filter\_prime.c\<close>

function fill_ones :: "scratch \<Rightarrow> int \<Rightarrow> int \<Rightarrow> scratch option" where
  "fill_ones dp n i = (if i < n then do { dp \<leftarrow> awrite dp i (Some 1); fill_ones dp n (i + 1) } else Some dp)"
  by pat_completeness auto
termination by (relation "measure (\<lambda>(dp, n, i). nat (n - i))") auto

partial_function (option) cross_out :: "scratch \<Rightarrow> int \<Rightarrow> int \<Rightarrow> int \<Rightarrow> scratch option" where
  "cross_out dp n i j = (if j < n then do {
       dp \<leftarrow> awrite dp j (Some 0);
       j \<leftarrow> cint (j + i);
       cross_out dp n i j
     } else Some dp)"

partial_function (option) sieve_loop :: "scratch \<Rightarrow> int \<Rightarrow> int \<Rightarrow> scratch option" where
  "sieve_loop dp n i = do {
     sq \<leftarrow> cint (i * i);
     if sq < n then do {
       d \<leftarrow> tread dp sq;
       dp \<leftarrow> (if d = 1 then cross_out dp n i sq else Some dp);
       sieve_loop dp n (i + 1)
     } else Some dp
   }"

function count_ones :: "scratch \<Rightarrow> int \<Rightarrow> int \<Rightarrow> int \<Rightarrow> int option" where
  "count_ones dp n i ans = (if i < n then do {
       d \<leftarrow> tread dp i;
       count_ones dp n (i + 1) (if d = 1 then ans + 1 else ans)
     } else Some ans)"
  by pat_completeness auto
termination by (relation "measure (\<lambda>(dp, n, i, ans). nat (n - i))") auto

definition countPrimes :: "bool \<Rightarrow> int \<Rightarrow> int option" where
  "countPrimes granted n = (if n < 3 then Some 0
     else do {
       guard granted;
       dp \<leftarrow> fill_ones (replicate (nat n) None) n 2;
       dp \<leftarrow> sieve_loop dp n 2;
       count_ones dp n 2 0
     })"

section \<open>happynumber\_to\_cycle\_quetion.c\<close>

function getsq_loop :: "int \<Rightarrow> int \<Rightarrow> int option" where
  "getsq_loop n acc = (if n = 0 then Some acc
     else do {
       sq \<leftarrow> cmod n 10;
       acc \<leftarrow> cint (acc + sq * sq);
       n' \<leftarrow> cdiv n 10;
       getsq_loop n' acc
     })"
  by pat_completeness auto
termination
proof (relation "measure (\<lambda>(n, s). nat \<bar>n\<bar>)", goal_cases)
  case (2 n acc sq acc' n')
  have "\<bar>n'\<bar> = \<bar>n\<bar> div 10" using 2 by (auto simp: cdiv_def abs_mult sgn_if split: if_splits)
  then show ?case using 2 by auto
qed simp

definition getsq :: "int \<Rightarrow> int option" where
  "getsq n = getsq_loop n 0"

record hnode =
  val :: int
  hnext :: ptr

partial_function (option) dup_walk :: "hnode heap \<Rightarrow> int \<Rightarrow> ptr \<Rightarrow> bool option" where
  "dup_walk h n p = (if p = None then Some False
     else do {
       x \<leftarrow> load h p;
       if val x = n then Some True else dup_walk h n (hnext x)
     })"

text \<open>The result of \<open>malloc\<close> is not tested.\<close>

definition isduplicate :: "hnode heap \<Rightarrow> int \<Rightarrow> ptr \<Rightarrow> (bool \<times> ptr \<times> hnode heap) option" where
  "isduplicate h n head = do {
     found \<leftarrow> dup_walk h n head;
     if found then Some (True, head, h)
     else do {
       let (i, h) = cmalloc h;
       h \<leftarrow> store h i (\<lambda>_. \<lparr>val = n, hnext = head\<rparr>);
       Some (False, i, h)
     }
   }"

partial_function (option) happy_loop :: "hnode heap \<Rightarrow> int \<Rightarrow> ptr \<Rightarrow> bool option" where
  "happy_loop h n p = (if n \<noteq> 1 then do {
       n \<leftarrow> getsq n;
       (d, p, h) \<leftarrow> isduplicate h n p;
       if d then Some False else happy_loop h n p
     } else Some True)"

definition isHappy :: "hnode heap \<Rightarrow> int \<Rightarrow> bool option" where
  "isHappy h n = happy_loop h n None"

partial_function (option) cycle_loop :: "int \<Rightarrow> int \<Rightarrow> int option" where
  "cycle_loop slow fast = do {
     slow \<leftarrow> getsq slow;
     fast \<leftarrow> getsq fast;
     fast \<leftarrow> getsq fast;
     if slow = fast then Some fast else cycle_loop slow fast
   }"

definition best_isHappy :: "int \<Rightarrow> bool option" where
  "best_isHappy n = map_option (\<lambda>fast. fast = 1) (cycle_loop n n)"

section \<open>hashnode.c\<close>

text \<open>The table of \<open>size\<close> list heads, and the heap of their nodes.\<close>

record hash =
  size_h :: int
  table :: "ptr list"
  nodes :: "hnode heap"

definition insertnode_h :: "hash \<Rightarrow> int \<Rightarrow> (int \<times> hash) option" where
  "insertnode_h h v = do {
     index \<leftarrow> cmod v (size_h h);
     let index = (if index \<ge> 0 then index else - index);
     p \<leftarrow> aread (table h) index;
     found \<leftarrow> dup_walk (nodes h) v p;
     if found then Some (0, h)
     else do {
       let (q, m) = cmalloc (nodes h);
       m \<leftarrow> store m q (\<lambda>_. \<lparr>val = v, hnext = p\<rparr>);
       t \<leftarrow> awrite (table h) index q;
       Some (1, h\<lparr>table := t, nodes := m\<rparr>)
     }
   }"

fun duplicate_loop :: "hash \<Rightarrow> int list \<Rightarrow> bool option" where
  "duplicate_loop h [] = Some False"
| "duplicate_loop h (x # xs) = do {
     (r, h) \<leftarrow> insertnode_h h x;
     if r = 0 then Some True else duplicate_loop h xs
   }"

text \<open>\<open>granted\<close> and \<open>granted_t\<close>: the two \<open>malloc\<close>s for the table; with either refused the answer is \<open>false\<close>.\<close>

definition containsDuplicate :: "bool \<Rightarrow> bool \<Rightarrow> hnode heap \<Rightarrow> int list \<Rightarrow> int \<Rightarrow> bool option" where
  "containsDuplicate granted granted_t m ns numsSize = (if numsSize \<le> 1 then Some False
     else if \<not> granted then Some False
     else do {
       size \<leftarrow> cdiv numsSize 2;
       if \<not> granted_t then Some False
       else do {
         guard (nat numsSize \<le> length ns);
         duplicate_loop \<lparr>size_h = size, table = replicate (nat size) None, nodes = m\<rparr> (take (nat numsSize) ns)
       }
     })"

section \<open>count\_world.c\<close>

text \<open>The loop of \<open>main\<close> over the characters up to \<open>EOF\<close>: characters, lines and words.\<close>

fun count_loop :: "bool \<Rightarrow> int \<Rightarrow> int \<Rightarrow> int \<Rightarrow> string \<Rightarrow> (int \<times> int \<times> int) option" where
  "count_loop inside nc nl nw [] = Some (nc, nl, nw)"
| "count_loop inside nc nl nw (c # cs) = do {
     nc \<leftarrow> cint (nc + 1);
     nl \<leftarrow> (if c = CHR ''\<newline>'' then cint (nl + 1) else Some nl);
     if c = CHR '' '' \<or> c = CHR 0x09 \<or> c = CHR ''\<newline>'' then count_loop False nc nl nw cs
     else if \<not> inside then do { nw \<leftarrow> cint (nw + 1); count_loop True nc nl nw cs }
     else count_loop inside nc nl nw cs
   }"

definition count_world :: "string \<Rightarrow> (int \<times> int \<times> int) option" where
  "count_world input = count_loop False 0 0 0 input"

declare merge_loop.simps [simp del] merge_rest.simps [simp del] best_merge_loop.simps [simp del] best_merge_rest.simps [simp del]
  colors_loop.simps [simp del] sort4_loop.simps [simp del] create_copy.simps [simp del] create_sum.simps [simp del]
  create_sums.simps [simp del] fill_ones.simps [simp del] count_ones.simps [simp del] getsq_loop.simps [simp del]

end
