(* ===== verification/Puzzles_Arrays.thy ===== *)
theory Puzzles_Arrays
  imports Puzzles
begin

text \<open>
  Merging in place against the library's sort, the sort of three colours, the duplicate test with
  its hash table, and the counts of \<open>count_world.c\<close>.
\<close>

section \<open>Merging\<close>

definition merge_all :: "int list \<Rightarrow> int list \<Rightarrow> int \<Rightarrow> int \<Rightarrow> int \<Rightarrow> int list option" where
  "merge_all A B i j k = do { (A, j, k) \<leftarrow> merge_loop A B i j k; merge_rest A B j k }"

lemma best_merge_loop_eq: "best_merge_loop A B i j k = merge_loop A B i j k"
proof (induction A B i j k rule: merge_loop.induct)
  case (1 A B i j k)
  then show ?case
    by (subst merge_loop.simps, subst best_merge_loop.simps)
      (auto intro!: Option.bind_cong simp del: One_nat_def split: option.split)
qed

lemma best_merge_rest_eq: "best_merge_rest A B j k = merge_rest A B j k"
proof (induction A B j k rule: merge_rest.induct)
  case (1 A B j k)
  then show ?case
    by (subst merge_rest.simps, subst best_merge_rest.simps) (auto intro!: Option.bind_cong)
qed

lemma best_merge_eq: "best_merge = merge"
  by (intro ext) (simp add: best_merge_def merge_def best_merge_loop_eq best_merge_rest_eq)

lemma sort_snoc: "\<forall>y\<in>set xs. y \<le> x \<Longrightarrow> sort (xs @ [x :: int]) = sort xs @ [x]"
  by (rule properties_for_sort) (auto simp: sorted_append)

lemma merge_all_spec:
  assumes "P = take (nat (i + 1)) A" "Q = take (nat (j + 1)) B" "sorted P" "sorted Q" "-1 \<le> i" "-1 \<le> j"
    "i + j + 1 < int (length A)" "j < int (length B)"
  shows "merge_all A B i j (i + j + 1) = Some (sort (P @ Q) @ drop (nat (i + j + 2)) A)"
  using assms
proof (induction "nat (i + j + 2)" arbitrary: A i j P Q rule: less_induct)
  case less
  let ?k = "i + j + 1"
  have snoc: "take (nat (l + 1)) xs = take (nat l) xs @ [xs ! nat l]" if "0 \<le> l" "l < int (length xs)" for l and xs :: "int list"
    using that by (simp add: nat_add_distrib take_Suc_conv_app_nth)
  have drop: "drop (nat ?k) (A[nat ?k := x]) = x # drop (nat (i + j + 2)) A" if "0 \<le> ?k" for x
  proof -
    have "nat (i + j + 2) = Suc (nat ?k)" using that by simp
    then show ?thesis using that less.prems(7) by (simp add: drop_update_swap Cons_nth_drop_Suc [symmetric])
  qed
  have below: "take (nat (l + 1)) (A[nat ?k := x]) = take (nat (l + 1)) A" if "l < ?k" for l x
    using that by (simp add: take_update_cancel)
  consider "0 \<le> i" "0 \<le> j" | "i = -1" "0 \<le> j" | "j = -1" using less.prems by linarith
  then show ?case
  proof cases
    case 1
    let ?x = "A ! nat i" and ?y = "B ! nat j"
    have P: "P = take (nat i) A @ [?x]" using snoc [OF 1(1), of A] less.prems 1 by simp
    have Q: "Q = take (nat j) B @ [?y]" using snoc [OF 1(2), of B] less.prems 1 by simp
    have r: "aread A i = Some ?x" "aread B j = Some ?y" using 1 less.prems by (simp_all add: aread_in)
    have w: "awrite A ?k v = Some (A[nat ?k := v])" for v using 1 less.prems by (intro awrite_in) simp_all
    have s: "sorted (take (nat i) A)" "sorted (take (nat j) B)" using less.prems(3,4) unfolding P Q by (simp_all add: sorted_append)
    show ?thesis
    proof (cases "?x > ?y")
      case True
      have "sort (P @ Q) = sort (take (nat i) A @ Q) @ [?x]"
      proof -
        have "sort (P @ Q) = sort ((take (nat i) A @ Q) @ [?x])" unfolding P by (rule properties_for_sort) simp_all
        moreover have "\<forall>z\<in>set (take (nat i) A @ Q). z \<le> ?x" using less.prems(3,4) True unfolding P Q by (auto simp: sorted_append)
        ultimately show ?thesis using sort_snoc by metis
      qed
      moreover have "merge_all (A[nat ?k := ?x]) B (i - 1) j (i - 1 + j + 1) = Some (sort (take (nat i) A @ Q) @ drop (nat (i - 1 + j + 2)) (A[nat ?k := ?x]))"
        by (rule less.hyps) (use 1 less.prems below [of "i - 1"] s in simp_all)
      ultimately show ?thesis using 1 True r w drop [of ?x]
        by (simp add: merge_all_def merge_loop.simps [of A] ac_simps)
    next
      case False
      have "sort (P @ Q) = sort (P @ take (nat j) B) @ [?y]"
      proof -
        have "sort (P @ Q) = sort ((P @ take (nat j) B) @ [?y])" unfolding Q by (rule properties_for_sort) simp_all
        moreover have "\<forall>z\<in>set (P @ take (nat j) B). z \<le> ?y" using less.prems(3,4) False unfolding P Q by (auto simp: sorted_append)
        ultimately show ?thesis using sort_snoc by metis
      qed
      moreover have "merge_all (A[nat ?k := ?y]) B i (j - 1) (i + (j - 1) + 1) = Some (sort (P @ take (nat j) B) @ drop (nat (i + (j - 1) + 2)) (A[nat ?k := ?y]))"
        by (rule less.hyps) (use 1 less.prems below [of i] s in simp_all)
      ultimately show ?thesis using 1 False r w drop [of ?y]
        by (simp add: merge_all_def merge_loop.simps [of A] ac_simps)
    qed
  next
    case 2
    let ?y = "B ! nat j"
    have P: "P = []" using 2 less.prems by simp
    have Q: "Q = take (nat j) B @ [?y]" using snoc [OF 2(2), of B] less.prems 2 by simp
    have r: "aread B j = Some ?y" using 2 less.prems by (simp add: aread_in)
    have w: "awrite A ?k v = Some (A[nat ?k := v])" for v using 2 less.prems by (intro awrite_in) simp_all
    have s: "sorted (take (nat j) B)" using less.prems(4) unfolding Q by (simp add: sorted_append)
    have "sort Q = sort (take (nat j) B) @ [?y]"
      using sort_snoc [of "take (nat j) B" ?y] less.prems(4) unfolding Q by (auto simp: sorted_append)
    moreover have "merge_all (A[nat ?k := ?y]) B i (j - 1) (i + (j - 1) + 1) = Some (sort ([] @ take (nat j) B) @ drop (nat (i + (j - 1) + 2)) (A[nat ?k := ?y]))"
      by (rule less.hyps) (use 2 less.prems(7,8) s in simp_all)
    ultimately show ?thesis using 2 P r w drop [of ?y]
      by (simp add: merge_all_def merge_loop.simps merge_rest.simps [of A] ac_simps)
  next
    case 3
    then have "Q = []" "sort P = P" using less.prems by (simp_all add: sorted_sort_id)
    moreover have "P @ drop (nat (i + 1)) A = A" using less.prems(1) by simp
    ultimately show ?thesis using 3 by (simp add: merge_all_def merge_loop.simps merge_rest.simps add.commute)
  qed
qed

lemma merge_spec:
  assumes "sorted xs" "sorted ys" "length ys \<le> length zs"
  shows "merge (xs @ zs) (int (length xs)) ys (int (length ys)) = Some (sort (xs @ ys) @ drop (length ys) zs)"
proof -
  have "merge (xs @ zs) (int (length xs)) ys (int (length ys))
      = merge_all (xs @ zs) ys (int (length xs) - 1) (int (length ys) - 1) (int (length xs) - 1 + (int (length ys) - 1) + 1)"
    by (simp add: merge_def merge_all_def)
  also have "\<dots> = Some (sort (xs @ ys) @ drop (nat (int (length xs) - 1 + (int (length ys) - 1) + 2)) (xs @ zs))"
    by (rule merge_all_spec) (use assms in simp_all)
  also have "nat (int (length xs) - 1 + (int (length ys) - 1) + 2) = length xs + length ys" by simp
  finally show ?thesis by simp
qed

section \<open>Three colours\<close>

lemma grow_run: "length pre + n = k \<Longrightarrow> (pre @ replicate n b @ c # r)[k := b] = pre @ replicate (Suc n) b @ r"
  by (auto simp: list_update_append replicate_app_Cons_same)

lemma colors_loop_spec:
  assumes "set xs \<subseteq> {0, 1, 2}"
    "a = replicate n0 0 @ replicate n1 1 @ replicate n2 2 @ xs"
  shows "colors_loop a (int (length a)) (int n0) (int (n0 + n1)) (int (n0 + n1 + n2)) (int (n0 + n1 + n2))
    = Some (replicate (n0 + count_list xs 0) 0 @ replicate (n1 + count_list xs 1) 1 @ replicate (n2 + count_list xs 2) (2 :: int))"
  using assms
proof (induction xs arbitrary: a n0 n1 n2)
  case Nil
  then show ?case by (simp add: colors_loop.simps)
next
  case (Cons x xs)
  have in_range: "n0 + n1 + n2 < length a" using Cons.prems(2) by simp
  have r: "aread a (int (n0 + n1 + n2)) = Some x" using Cons.prems(2) in_range by (simp only: aread_nat) (simp add: nth_append)
  define a2 where "a2 = a[n0 + n1 + n2 := 2]"
  have a2: "a2 = replicate n0 0 @ replicate n1 1 @ replicate (Suc n2) 2 @ xs"
    using grow_run [of "replicate n0 0 @ replicate n1 1" n2 "n0 + n1 + n2" 2 x xs] by (simp add: a2_def Cons.prems(2))
  have w2: "awrite a (int (n0 + n1 + n2)) 2 = Some a2" using in_range unfolding a2_def by (rule awrite_nat)
  define a1 where "a1 = a2[n0 + n1 := 1]"
  have a1: "a1 = replicate n0 0 @ replicate (Suc n1) 1 @ replicate n2 2 @ xs"
    using grow_run [of "replicate n0 0" n1 "n0 + n1" 1 2 "replicate n2 2 @ xs"] by (simp add: a1_def a2)
  have w1: "awrite a2 (int (n0 + n1)) 1 = Some a1" unfolding a1_def by (rule awrite_nat) (simp add: a2)
  define a0 where "a0 = a1[n0 := 0]"
  have a0: "a0 = replicate (Suc n0) 0 @ replicate n1 1 @ replicate n2 2 @ xs"
    using grow_run [of "[]" n0 n0 0 1 "replicate n1 1 @ replicate n2 2 @ xs"] by (simp add: a0_def a1)
  have w0: "awrite a1 (int n0) 0 = Some a0" unfolding a0_def by (rule awrite_nat) (simp add: a1)
  have len: "length a2 = length a" "length a1 = length a" "length a0 = length a" by (simp_all add: a2_def a1_def a0_def)
  have xs: "set xs \<subseteq> {0, 1, 2}" using Cons.prems(1) by simp
  note IH2 = Cons.IH [OF xs a2, unfolded len] and IH1 = Cons.IH [OF xs a1, unfolded len]
    and IH0 = Cons.IH [OF xs a0, unfolded len]
  consider "x = 2" | "x = 1" | "x = 0" using Cons.prems(1) by auto
  then show ?case
  proof cases
    case 1
    then show ?thesis using in_range r w2 IH2 by (subst colors_loop.simps) (simp add: ac_simps)
  next
    case 2
    then show ?thesis using in_range r w2 w1 IH1 by (subst colors_loop.simps) (simp add: ac_simps)
  next
    case 3
    then show ?thesis using in_range r w2 w1 w0 IH0 by (subst colors_loop.simps) (simp add: ac_simps)
  qed
qed

lemma sortColors_sorts:
  assumes "set xs \<subseteq> {0, 1, 2}"
  shows "sortColors xs (int (length xs)) = Some (sort xs)"
proof -
  let ?r = "replicate (count_list xs 0) 0 @ replicate (count_list xs 1) 1 @ replicate (count_list xs 2) (2 :: int)"
  have "count (mset ?r) c = count (mset xs) c" for c
    using assms by (auto simp: count_mset count_list_0_iff)
  then have "mset ?r = mset xs" by (rule multiset_eqI)
  then have "sort xs = ?r" by (intro properties_for_sort) (auto simp: sorted_append)
  then show ?thesis using colors_loop_spec [OF assms, of xs 0 0 0] by (simp add: sortColors_def)
qed

end
