(* ===== verification/Puzzles_Hash.thy ===== *)
theory Puzzles_Hash
  imports Puzzles
begin

text \<open>
  Chains of values: the list of \<open>happynumber_to_cycle_quetion.c\<close> and the buckets of \<open>hashnode.c\<close>
  are searched and extended the same way. With them, the duplicate test.
\<close>

section \<open>Chains\<close>

definition vals :: "(nat \<rightharpoonup> hnode) \<Rightarrow> nat list \<Rightarrow> int list" where
  "vals m as = map (\<lambda>a. val (the (m a))) as"

lemma dup_walk_chain: "lchain hnext (cells h) p as \<Longrightarrow> dup_walk h v p = Some (v \<in> set (vals (cells h) as))"
proof (induction as arbitrary: p)
  case Nil
  then show ?case by (simp add: dup_walk.simps vals_def)
next
  case (Cons a as)
  then obtain x where x: "p = Some a" "cells h a = Some x" "lchain hnext (cells h) (hnext x) as" by auto
  then show ?case using Cons.IH [OF x(3)] by (subst dup_walk.simps) (auto simp: vals_def)
qed

lemma chain_fresh:
  assumes "lchain hnext (cells h) p as" "heap_ok h"
  shows "lchain hnext ((cells h)(brk h \<mapsto> n)) p as" "vals ((cells h)(brk h \<mapsto> n)) as = vals (cells h) as"
proof -
  have "brk h \<notin> set as" using lseg_cell [OF assms(1)] heap_ok_brk [OF assms(2)] by fastforce
  then show "lchain hnext ((cells h)(brk h \<mapsto> n)) p as" "vals ((cells h)(brk h \<mapsto> n)) as = vals (cells h) as"
    using assms(1) by (auto simp: vals_def)
qed

section \<open>The hash table\<close>

definition bucket :: "int \<Rightarrow> int \<Rightarrow> int" where
  "bucket s v = \<bar>v\<bar> mod s"

definition holds :: "hash \<Rightarrow> int set \<Rightarrow> bool" where
  "holds h V \<longleftrightarrow> heap_ok (nodes h) \<and> 0 < size_h h \<and> int (length (table h)) = size_h h \<and>
     (\<forall>b < length (table h). \<exists>as. lchain hnext (cells (nodes h)) (table h ! b) as \<and> set (vals (cells (nodes h)) as) = {v\<in>V. bucket (size_h h) v = int b})"

lemma index_bucket: "0 < s \<Longrightarrow> cmod v s = Some i \<Longrightarrow> (if i \<ge> 0 then i else - i) = bucket s v"
proof -
  assume s: "0 < s" and i: "cmod v s = Some i"
  then have "i = sgn v * (\<bar>v\<bar> mod s)"
    by (auto simp: cmod_def sgn_if minus_mult_div_eq_mod [symmetric] algebra_simps)
  moreover have "0 \<le> \<bar>v\<bar> mod s" using s by simp
  ultimately show ?thesis by (auto simp: bucket_def sgn_if split: if_splits)
qed

lemma insertnode_h_spec:
  assumes "holds h V" "\<forall>a. env (nodes h) a \<noteq> None"
  shows "v \<in> V \<Longrightarrow> insertnode_h h v = Some (0, h)"
    "v \<notin> V \<Longrightarrow> \<exists>h'. insertnode_h h v = Some (1, h') \<and> holds h' (insert v V) \<and> env (nodes h') = env (nodes h)"
proof -
  let ?s = "size_h h" and ?m = "nodes h"
  define b where "b = bucket ?s v"
  have s: "0 < ?s" "int (length (table h)) = ?s" "heap_ok ?m" using assms(1) by (simp_all add: holds_def)
  obtain i where i: "cmod v ?s = Some i" "(if i \<ge> 0 then i else - i) = b" using s(1) index_bucket [OF s(1), of v] by (auto simp: cmod_def b_def)
  have b: "0 \<le> b" "b < int (length (table h))" using s(1,2) by (simp_all add: b_def bucket_def)
  have r: "aread (table h) b = Some (table h ! nat b)" using b by (rule aread_in)
  obtain as where as: "lchain hnext (cells ?m) (table h ! nat b) as" "set (vals (cells ?m) as) = {v\<in>V. bucket ?s v = b}"
  proof -
    have "nat b < length (table h)" using b by simp
    then have "\<exists>as. lchain hnext (cells ?m) (table h ! nat b) as \<and> set (vals (cells ?m) as) = {v\<in>V. bucket ?s v = int (nat b)}"
      using assms(1) unfolding holds_def by blast
    then show ?thesis using that b(1) by auto
  qed
  have found: "dup_walk ?m v (table h ! nat b) = Some (v \<in> V)" using dup_walk_chain [OF as(1), of v] as(2) by (simp add: b_def)
  show "v \<in> V \<Longrightarrow> insertnode_h h v = Some (0, h)" using i r found by (simp add: insertnode_h_def Let_def)
  assume v: "v \<notin> V"
  obtain x where x: "env ?m (brk ?m) = Some x" using assms(2) by blast
  let ?n = "\<lparr>val = v, hnext = table h ! nat b\<rparr>"
  let ?m' = "?m\<lparr>cells := (cells ?m)(brk ?m \<mapsto> ?n), brk := Suc (brk ?m)\<rparr>"
  let ?h = "h\<lparr>table := (table h)[nat b := Some (brk ?m)], nodes := ?m'\<rparr>"
  have "insertnode_h h v = Some (1, ?h)"
    using i r found v b by (simp add: insertnode_h_def Let_def cmalloc_grants [OF x] store_def awrite_in)
  moreover have "holds ?h (insert v V)"
  proof -
    have ch: "\<exists>as. lchain hnext (cells ?m') ((table h)[nat b := Some (brk ?m)] ! c) as \<and>
        set (vals (cells ?m') as) = {w\<in>insert v V. bucket ?s w = int c}" if c: "c < length (table h)" for c
    proof (cases "c = nat b")
      case True
      have "lchain hnext (cells ?m') (Some (brk ?m)) (brk ?m # as)" using chain_fresh [OF as(1) s(3), of ?n] by simp
      moreover have "set (vals (cells ?m') (brk ?m # as)) = {w\<in>insert v V. bucket ?s w = int c}"
        using chain_fresh(2) [OF as(1) s(3), of ?n] as(2) True b by (auto simp: vals_def b_def)
      moreover have "(table h)[nat b := Some (brk ?m)] ! c = Some (brk ?m)" using True c by simp
      ultimately show ?thesis by (intro exI [of _ "brk ?m # as"]) (simp only: conj_absorb simp_thms)
    next
      case False
      obtain cs where cs: "lchain hnext (cells ?m) (table h ! c) cs" "set (vals (cells ?m) cs) = {w\<in>V. bucket ?s w = int c}"
        using assms(1) c unfolding holds_def by blast
      have "bucket ?s v \<noteq> int c" using False b unfolding b_def by linarith
      then have "{w\<in>insert v V. bucket ?s w = int c} = {w\<in>V. bucket ?s w = int c}" by auto
      then show ?thesis using chain_fresh [OF cs(1) s(3), of ?n] cs(2) False by auto
    qed
    have "heap_ok ?m'" using s(3) by (simp add: heap_ok_def)
    then show ?thesis using s(1,2) ch by (simp add: holds_def)
  qed
  ultimately show "\<exists>h'. insertnode_h h v = Some (1, h') \<and> holds h' (insert v V) \<and> env (nodes h') = env (nodes h)"
    by (intro exI [of _ ?h]) simp
qed

lemma duplicate_loop_spec:
  "holds h V \<Longrightarrow> \<forall>a. env (nodes h) a \<noteq> None \<Longrightarrow> duplicate_loop h xs = Some (\<not> distinct xs \<or> set xs \<inter> V \<noteq> {})"
proof (induction xs arbitrary: h V)
  case (Cons x xs)
  show ?case
  proof (cases "x \<in> V")
    case True
    then show ?thesis using insertnode_h_spec(1) [OF Cons.prems True] by simp
  next
    case False
    obtain h' where h': "insertnode_h h x = Some (1, h')" "holds h' (insert x V)" "env (nodes h') = env (nodes h)"
      using insertnode_h_spec(2) [OF Cons.prems False] by blast
    have "duplicate_loop h' xs = Some (\<not> distinct xs \<or> set xs \<inter> insert x V \<noteq> {})"
      using Cons.IH [OF h'(2)] Cons.prems(2) h'(3) by simp
    then show ?thesis using h'(1) False by (simp; blast)
  qed
qed simp

lemma containsDuplicate_spec:
  assumes "heap_ok m" "\<forall>a. env m a \<noteq> None"
  shows "containsDuplicate True True m xs (int (length xs)) = Some (\<not> distinct xs)"
proof (cases "length xs \<le> 1")
  case True
  then have "distinct xs" by (cases xs) auto
  then show ?thesis using True by (simp add: containsDuplicate_def)
next
  case False
  let ?s = "int (length xs) div 2"
  let ?h = "\<lparr>size_h = ?s, table = replicate (nat ?s) None, nodes = m\<rparr>"
  have "holds ?h {}" using assms(1) False by (auto simp: holds_def vals_def intro!: exI [of _ "[]"])
  then have "duplicate_loop ?h xs = Some (\<not> distinct xs)" using duplicate_loop_spec [of ?h "{}" xs] assms(2) by simp
  then show ?thesis using False by (simp add: containsDuplicate_def)
qed

section \<open>Counting\<close>

definition blank :: "char \<Rightarrow> bool" where
  "blank c \<longleftrightarrow> c = CHR '' '' \<or> c = CHR 0x09 \<or> c = CHR ''\<newline>''"

text \<open>The words of a text: the longest stretches without a blank.\<close>

function words :: "string \<Rightarrow> string list" where
  "words [] = []"
| "words (c # cs) = (if blank c then words cs
     else (c # takeWhile (\<lambda>x. \<not> blank x) cs) # words (dropWhile (\<lambda>x. \<not> blank x) cs))"
  by pat_completeness auto
termination by (relation "measure length") (simp_all add: length_dropWhile_le le_imp_less_Suc)

lemma count_loop_spec:
  "0 \<le> nl \<Longrightarrow> nl \<le> nc \<Longrightarrow> 0 \<le> nw \<Longrightarrow> nw \<le> nc \<Longrightarrow> nc + int (length cs) \<le> int_max \<Longrightarrow>
   count_loop inside nc nl nw cs = Some (nc + int (length cs), nl + int (count_list cs CHR ''\<newline>''),
     nw + int (length (words (if inside then dropWhile (\<lambda>x. \<not> blank x) cs else cs))))"
proof (induction cs arbitrary: inside nc nl nw)
  case (Cons c cs)
  have b: "blank c = (c = CHR '' '' \<or> c = CHR 0x09 \<or> c = CHR ''\<newline>'')" by (simp add: blank_def)
  have 1: "cint (nc + 1) = Some (nc + 1)" "cint (nl + 1) = Some (nl + 1)" "cint (nw + 1) = Some (nw + 1)"
    using Cons.prems by (simp_all add: cint_in int_min_def)
  show ?case
  proof (cases "blank c")
    case True
    then show ?thesis using 1 Cons.prems Cons.IH [of _ "nc + 1" nw False] by (auto simp: b)
  next
    case False
    then show ?thesis using 1 Cons.prems Cons.IH [of nl "nc + 1" _ True] by (auto simp: b)
  qed
qed simp

end
