(* ===== verification/Puzzles_Numbers.thy ===== *)
theory Puzzles_Numbers
  imports Puzzles_Hash
begin

text \<open>
  Happy numbers and primes: the sum of squared digits as a function on numbers, the two tests for
  happiness against its orbits, and the sieve against divisibility.
\<close>

section \<open>Sums of squared digits\<close>

fun sqd :: "nat \<Rightarrow> nat" where
  "sqd n = (if n = 0 then 0 else (n mod 10) * (n mod 10) + sqd (n div 10))"

declare sqd.simps [simp del]

lemma sqd_0 [simp]: "sqd 0 = 0"
  by (simp add: sqd.simps)

lemma sqd_1 [simp]: "sqd (Suc 0) = Suc 0"
  by (simp add: sqd.simps)

lemma sqd_bound: "n < 10 ^ k \<Longrightarrow> sqd n \<le> 81 * k"
proof (induction k arbitrary: n)
  case (Suc k)
  have "n div 10 < 10 ^ k" using Suc.prems by (simp add: less_mult_imp_div_less)
  from Suc.IH [OF this] have "sqd (n div 10) \<le> 81 * k" .
  moreover have "(n mod 10) * (n mod 10) \<le> 9 * 9" by (rule mult_le_mono) simp_all
  ultimately show ?case by (subst sqd.simps) auto
qed simp

lemma digit_square: "cmod n 10 = Some d \<Longrightarrow> d * d = int ((nat \<bar>n\<bar> mod 10) * (nat \<bar>n\<bar> mod 10))"
proof -
  assume "cmod n 10 = Some d"
  then have "d = sgn n * (\<bar>n\<bar> mod 10)"
    by (auto simp: cmod_def sgn_if minus_mult_div_eq_mod [symmetric] algebra_simps)
  moreover have "\<bar>n\<bar> mod 10 = int (nat \<bar>n\<bar> mod 10)" by (simp add: zmod_int)
  ultimately show ?thesis by (auto simp: sgn_if)
qed

lemma tenth: "cdiv n 10 = Some q \<Longrightarrow> nat \<bar>q\<bar> = nat \<bar>n\<bar> div 10"
  by (auto simp: cdiv_def abs_mult sgn_if nat_div_distrib split: if_splits)

lemma ten_ops: "\<exists>d. cmod n 10 = Some d" "\<exists>q. cdiv n 10 = Some q"
  by (simp_all add: cmod_def cdiv_def)

lemma getsq_loop_spec:
  "nat \<bar>n\<bar> < 10 ^ k \<Longrightarrow> 0 \<le> acc \<Longrightarrow> acc + 81 * int k \<le> int_max \<Longrightarrow> getsq_loop n acc = Some (acc + int (sqd (nat \<bar>n\<bar>)))"
proof (induction k arbitrary: n acc)
  case 0
  then show ?case by (simp add: getsq_loop.simps)
next
  case (Suc k)
  show ?case
  proof (cases "n = 0")
    case True
    then show ?thesis by (simp add: getsq_loop.simps)
  next
    case False
    obtain d q where d: "cmod n 10 = Some d" and q: "cdiv n 10 = Some q" using ten_ops by blast
    let ?m = "nat \<bar>n\<bar> mod 10"
    have "?m * ?m \<le> 9 * 9" by (rule mult_le_mono) simp_all
    then have "int (?m * ?m) \<le> 81" by linarith
    then have dd: "d * d = int (?m * ?m)" "d * d \<le> 81" using digit_square [OF d] by simp_all
    have dd0: "- 1 < d * d" using zero_le_square [of d] by linarith
    have k81: "81 * int (Suc k) = 81 + 81 * int k" by simp
    have "acc + d * d \<le> acc + 81 * int (Suc k)" using dd(2) k81 by linarith
    then have le: "acc + d * d \<le> int_max" using Suc.prems(3) by linarith
    have c: "cint (acc + d * d) = Some (acc + d * d)" using Suc.prems(2,3) dd(2) dd0 by (intro cint_in) (use le in \<open>auto simp: int_min_def\<close>)
    have "nat \<bar>q\<bar> < 10 ^ k" using Suc.prems(1) tenth [OF q] by (simp add: less_mult_imp_div_less)
    from Suc.IH [OF this, of "acc + d * d"] have "getsq_loop q (acc + d * d) = Some (acc + d * d + int (sqd (nat \<bar>q\<bar>)))"
      using Suc.prems(2,3) dd(2) dd0 by fastforce
    moreover have "getsq_loop n acc = getsq_loop q (acc + d * d)" using False d q c by (simp add: getsq_loop.simps [of n])
    moreover have "sqd (nat \<bar>n\<bar>) = ?m * ?m + sqd (nat \<bar>q\<bar>)" using False tenth [OF q] by (subst sqd.simps) simp
    ultimately show ?thesis using dd(1) by (simp only: of_nat_add add.assoc)
  qed
qed

lemma getsq_spec:
  assumes "int_min \<le> n" "n \<le> int_max"
  shows "getsq n = Some (int (sqd (nat \<bar>n\<bar>)))" "sqd (nat \<bar>n\<bar>) \<le> 810"
proof -
  have b: "nat \<bar>n\<bar> < 10 ^ 10" using assms by (simp add: int_min_def int_max_def)
  show "getsq n = Some (int (sqd (nat \<bar>n\<bar>)))" using getsq_loop_spec [OF b, of 0] by (simp add: getsq_def int_max_def)
  show "sqd (nat \<bar>n\<bar>) \<le> 810" using sqd_bound [OF b] by simp
qed

lemma getsq_nat: "n \<le> 810 \<Longrightarrow> getsq (int n) = Some (int (sqd n)) \<and> sqd n \<le> 810"
  using getsq_spec [of "int n"] by (simp add: int_min_def int_max_def)

section \<open>Orbits\<close>

definition happy :: "nat \<Rightarrow> bool" where
  "happy n \<longleftrightarrow> (\<exists>k. (sqd ^^ k) n = 1)"

lemma orbit_bound: "n \<le> 810 \<Longrightarrow> (sqd ^^ k) n \<le> 810"
proof (induction k)
  case (Suc k)
  then show ?case using getsq_nat [of "(sqd ^^ k) n"] by simp
qed simp

lemma orbit_small: "N \<le> 2147483648 \<Longrightarrow> 0 < k \<Longrightarrow> (sqd ^^ k) N \<le> 810"
proof -
  assume N: "N \<le> 2147483648" and k: "0 < k"
  have "(sqd ^^ k) N = (sqd ^^ (k - 1)) (sqd N)" using k by (cases k) (simp_all add: funpow_swap1)
  moreover have "sqd N \<le> 810" using sqd_bound [of N 10] N by simp
  ultimately show ?thesis using orbit_bound by simp
qed

lemma orbit_one: "(sqd ^^ k) 1 = 1"
  by (induction k) simp_all

lemma orbit_one_later: "(sqd ^^ j) n = 1 \<Longrightarrow> j \<le> k \<Longrightarrow> (sqd ^^ k) n = 1"
  using orbit_one [of "k - j"] funpow_add [of "k - j" j sqd] by simp

lemma happy_next: "n \<noteq> 1 \<Longrightarrow> happy (sqd n) = happy n"
proof
  assume "happy (sqd n)"
  then obtain k where "(sqd ^^ k) (sqd n) = 1" by (auto simp: happy_def)
  then have "(sqd ^^ Suc k) n = 1" by (simp add: funpow_swap1)
  then show "happy n" unfolding happy_def by blast
next
  assume a: "n \<noteq> 1" "happy n"
  then obtain k where k: "(sqd ^^ k) n = 1" by (auto simp: happy_def)
  then obtain j where "k = Suc j" using a(1) by (cases k) auto
  then have "(sqd ^^ j) (sqd n) = 1" using k by (simp add: funpow_swap1)
  then show "happy (sqd n)" unfolding happy_def by blast
qed

lemma happy_one: "happy 1"
  unfolding happy_def by (intro exI [of _ 0]) simp

section \<open>The version with a list\<close>

definition list_of_vals :: "hnode heap \<Rightarrow> ptr \<Rightarrow> int list \<Rightarrow> bool" where
  "list_of_vals h p vs \<longleftrightarrow> heap_ok h \<and> (\<exists>as. lchain hnext (cells h) p as \<and> vals (cells h) as = vs)"

lemma isduplicate_spec:
  assumes "list_of_vals h p vs" "\<forall>a. env h a \<noteq> None"
  shows "v \<in> set vs \<Longrightarrow> isduplicate h v p = Some (True, p, h)"
    "v \<notin> set vs \<Longrightarrow> \<exists>q h'. isduplicate h v p = Some (False, q, h') \<and> list_of_vals h' q (v # vs) \<and> env h' = env h"
proof -
  obtain as where as: "heap_ok h" "lchain hnext (cells h) p as" "vals (cells h) as = vs"
    using assms(1) by (auto simp: list_of_vals_def)
  note w = dup_walk_chain [OF as(2), of v, unfolded as(3)]
  show "v \<in> set vs \<Longrightarrow> isduplicate h v p = Some (True, p, h)" using w by (simp add: isduplicate_def)
  assume nv: "v \<notin> set vs"
  obtain x where x: "env h (brk h) = Some x" using assms(2) by blast
  let ?n = "\<lparr>val = v, hnext = p\<rparr>"
  note P = chain_fresh [OF as(2,1), of ?n]
  let ?h = "h\<lparr>cells := (cells h)(brk h \<mapsto> ?n), brk := Suc (brk h)\<rparr>"
  have "isduplicate h v p = Some (False, Some (brk h), ?h)"
    using w nv by (simp add: isduplicate_def cmalloc_grants [OF x] store_def)
  moreover have "list_of_vals ?h (Some (brk h)) (v # vs)"
    unfolding list_of_vals_def using as(1,3) P by (intro conjI exI [of _ "brk h # as"]) (auto simp: heap_ok_def vals_def)
  ultimately show "\<exists>q h'. isduplicate h v p = Some (False, q, h') \<and> list_of_vals h' q (v # vs) \<and> env h' = env h" by force
qed

lemma happy_loop_spec:
  assumes "list_of_vals h p vs" "\<forall>a. env h a \<noteq> None" "distinct vs" "set vs \<subseteq> int ` {..810}" "n \<le> 810" "vs \<noteq> [] \<longrightarrow> hd vs = int n"
    "\<forall>v\<in>set vs. v = int n \<or> int (sqd (nat v)) \<in> set vs" "1 \<notin> set (tl vs)"
  shows "happy_loop h (int n) p = Some (happy n)"
  using assms
proof (induction "811 - length vs" arbitrary: h p vs n rule: less_induct)
  case less
  note g = getsq_nat [OF less.prems(5)]
  show ?case
  proof (cases "n = 1")
    case True
    then have "happy n" unfolding happy_def by (intro exI [of _ 0]) simp
    then show ?thesis using True by (simp add: happy_loop.simps)
  next
    case False
    note D = isduplicate_spec(1) [OF less.prems(1,2), where v = "int (sqd n)"] isduplicate_spec(2) [OF less.prems(1,2), where v = "int (sqd n)"]
    show ?thesis
    proof (cases "int (sqd n) \<in> set vs")
      case True
      have one: "1 \<notin> set vs"
      proof
        assume "1 \<in> set vs"
        then have "hd vs = 1" using less.prems(8) by (cases vs) auto
        then show False using less.prems(6) False \<open>1 \<in> set vs\<close> by (cases vs) auto
      qed
      have cl: "int (sqd (nat v)) \<in> set vs" if "v \<in> set vs" for v using less.prems(7) that True by auto
      have "int ((sqd ^^ k) (sqd n)) \<in> set vs" for k
      proof (induction k)
        case (Suc k)
        then show ?case using cl by fastforce
      qed (use True in simp)
      then have "(sqd ^^ k) (sqd n) \<noteq> 1" for k using one by (metis of_nat_1)
      then have "\<not> happy (sqd n)" by (simp add: happy_def)
      then have "\<not> happy n" using happy_next False by blast
      then show ?thesis using False g D(1) [OF True] by (subst happy_loop.simps) simp
    next
      case new: False
      obtain q h' where q: "isduplicate h (int (sqd n)) p = Some (False, q, h')" "list_of_vals h' q (int (sqd n) # vs)" "env h' = env h"
        using D(2) [OF new] by blast
      have "length vs = card (set vs)" using less.prems(3) by (simp add: distinct_card)
      also have "\<dots> \<le> card (int ` {..810::nat})" by (rule card_mono) (use less.prems(4) in simp_all)
      also have "\<dots> = 811" by (simp add: card_image)
      finally have l: "length vs \<le> 811" .
      moreover have "length vs \<noteq> 811"
      proof
        assume "length vs = 811"
        then have "card (set vs) = card (int ` {..810::nat})" using less.prems(3) by (simp add: distinct_card card_image)
        then have "set vs = int ` {..810}" using less.prems(4) by (intro card_subset_eq) simp_all
        then show False using new g by auto
      qed
      ultimately have m: "811 - length (int (sqd n) # vs) < 811 - length vs" by simp
      have one: "1 \<notin> set (tl (int (sqd n) # vs))"
        using less.prems(6,8) False by (cases vs) auto
      have tr: "\<forall>v\<in>set (int (sqd n) # vs). v = int (sqd n) \<or> int (sqd (nat v)) \<in> set (int (sqd n) # vs)"
        using less.prems(7) by auto
      have "happy_loop h' (int (sqd n)) q = Some (happy (sqd n))"
        by (rule less.hyps [OF m q(2)]) (use less.prems(2-4) q(3) new g one tr in auto)
      then show ?thesis using False g q(1) happy_next [OF False] by (subst happy_loop.simps) simp
    qed
  qed
qed

lemma isHappy_spec:
  assumes "int_min \<le> n" "n \<le> int_max" "heap_ok h" "\<forall>a. env h a \<noteq> None"
  shows "isHappy h n = Some (happy (nat \<bar>n\<bar>))"
proof (cases "n = 1")
  case True
  then show ?thesis using happy_one by (simp add: isHappy_def happy_loop.simps)
next
  case False
  have "list_of_vals h None []" using assms(3) by (simp add: list_of_vals_def vals_def)
  from isduplicate_spec(2) [OF this assms(4), of "int (sqd (nat \<bar>n\<bar>))"] obtain q h' where
    q: "isduplicate h (int (sqd (nat \<bar>n\<bar>))) None = Some (False, q, h')" "list_of_vals h' q [int (sqd (nat \<bar>n\<bar>))]" "env h' = env h" by auto
  have "happy_loop h' (int (sqd (nat \<bar>n\<bar>))) q = Some (happy (sqd (nat \<bar>n\<bar>)))"
    by (rule happy_loop_spec [OF q(2)]) (use assms(4) q(3) getsq_spec(2) [OF assms(1,2)] in auto)
  moreover have "happy (sqd (nat \<bar>n\<bar>)) = happy (nat \<bar>n\<bar>)" using happy_next [of "nat \<bar>n\<bar>"] by (cases "nat \<bar>n\<bar> = 1") simp_all
  ultimately show ?thesis using False getsq_spec(1) [OF assms(1,2)] q(1) by (simp add: isHappy_def happy_loop.simps [of h n])
qed

section \<open>The version with two runners\<close>

lemma runners_meet: "n \<le> 2147483648 \<Longrightarrow> \<exists>k>0. (sqd ^^ k) n = (sqd ^^ (2 * k)) n"
proof -
  assume n: "n \<le> 2147483648"
  define f where "f k = (sqd ^^ k) n" for k
  have "\<not> inj_on f {1..900}"
  proof
    assume i: "inj_on f {1..900}"
    have "card (f ` {1..900}) \<le> card {..810::nat}" by (rule card_mono) (use orbit_small [OF n] in \<open>auto simp: f_def\<close>)
    then show False using card_image [OF i] by simp
  qed
  then obtain x y where "x \<in> {1..900}" "y \<in> {1..900}" "x \<noteq> y" "f x = f y" unfolding inj_on_def by blast
  then obtain x y where xy: "0 < x" "0 < y" "x \<noteq> y" "(sqd ^^ x) n = (sqd ^^ y) n" by (intro that [of x y]) (simp_all add: f_def)
  obtain a b where ab: "0 < a" "a < b" "(sqd ^^ a) n = (sqd ^^ b) n"
  proof (cases "x < y")
    case True
    then show ?thesis using that xy by blast
  next
    case False
    then have "y < x" using xy(3) by simp
    then show ?thesis using that xy(2) xy(4) [symmetric] by blast
  qed
  define d where "d = b - a"
  have per: "(sqd ^^ (j + d)) n = (sqd ^^ j) n" if "a \<le> j" for j
  proof -
    have "(sqd ^^ (j + d)) n = (sqd ^^ (j - a + b)) n" using that ab(2) by (simp add: d_def)
    also have "\<dots> = (sqd ^^ (j - a)) ((sqd ^^ a) n)" by (simp add: funpow_add ab(3))
    also have "\<dots> = (sqd ^^ (j - a + a)) n" by (simp only: funpow_add comp_def)
    finally show ?thesis using that by simp
  qed
  have per_m: "(sqd ^^ (j + m * d)) n = (sqd ^^ j) n" if "a \<le> j" for j m
  proof (induction m)
    case (Suc m)
    then show ?case using per [of "j + m * d"] that by (simp add: ac_simps)
  qed simp
  have "0 < d" using ab(2) by (simp add: d_def)
  then have "a \<le> a * d" by simp
  then have "(sqd ^^ (a * d + a * d)) n = (sqd ^^ (a * d)) n" by (rule per_m)
  moreover have "0 < a * d" using ab(1) \<open>0 < d\<close> by simp
  ultimately show ?thesis by (intro exI [of _ "a * d"]) (simp add: mult_2)
qed

lemma meet_happy:
  assumes "0 < k" "(sqd ^^ k) n = (sqd ^^ (2 * k)) n"
  shows "((sqd ^^ k) n = 1) = happy n"
proof
  assume "happy n"
  then obtain j where j: "(sqd ^^ j) n = 1" by (auto simp: happy_def)
  have "(sqd ^^ (Suc m * k)) n = (sqd ^^ k) n" for m
  proof (induction m)
    case (Suc m)
    have "(sqd ^^ (Suc (Suc m) * k)) n = (sqd ^^ k) ((sqd ^^ (Suc m * k)) n)" by (simp add: funpow_add)
    also have "\<dots> = (sqd ^^ (2 * k)) n" using Suc by (simp add: funpow_add mult_2)
    finally show ?case using assms(2) by simp
  qed simp
  moreover have "j \<le> Suc j * k" using assms(1) by (cases k) auto
  then have "(sqd ^^ (Suc j * k)) n = 1" by (rule orbit_one_later [OF j])
  ultimately show "(sqd ^^ k) n = 1" by metis
qed (auto simp: happy_def)

lemma cycle_loop_spec:
  assumes "int_min \<le> n" "n \<le> int_max" "N = nat \<bar>n\<bar>"
  shows "\<exists>k>0. (sqd ^^ k) N = (sqd ^^ (2 * k)) N \<and> cycle_loop n n = Some (int ((sqd ^^ k) N))"
proof -
  have N: "N \<le> 2147483648" using assms by (simp add: int_min_def int_max_def)
  define P where "P k \<longleftrightarrow> 0 < k \<and> (sqd ^^ k) N = (sqd ^^ (2 * k)) N" for k
  obtain k0 where "P k0" using runners_meet [OF N] by (auto simp: P_def)
  define K where "K = (LEAST k. P k)"
  have K: "P K" unfolding K_def using \<open>P k0\<close> by (rule LeastI)
  have min: "\<not> P k" if "k < K" for k using that not_less_Least unfolding K_def by blast
  note g = getsq_nat [OF orbit_small [OF N]]
  have first: "getsq n = Some (int ((sqd ^^ Suc 0) N))" using getsq_spec(1) [OF assms(1,2)] assms(3) by simp
  have steps: "getsq (int ((sqd ^^ Suc k) N)) = Some (int ((sqd ^^ Suc (Suc k)) N))" for k using g [of "Suc k"] by simp
  have later: "cycle_loop slow fast = Some (int ((sqd ^^ K) N))"
    if "k < K" "getsq slow = Some (int ((sqd ^^ Suc k) N))" "getsq fast = Some (int ((sqd ^^ Suc (2 * k)) N))" for k slow fast
    using that
  proof (induction "K - k" arbitrary: k slow fast rule: less_induct)
    case less
    have s: "getsq (int ((sqd ^^ Suc (2 * k)) N)) = Some (int ((sqd ^^ (2 * Suc k)) N))" using steps [of "2 * k"] by simp
    show ?case
    proof (cases "Suc k = K")
      case True
      then have "(sqd ^^ Suc k) N = (sqd ^^ (2 * Suc k)) N" using K by (simp only: P_def)
      then show ?thesis using True s less.prems by (subst cycle_loop.simps) (simp del: funpow.simps)
    next
      case False
      then have k: "Suc k < K" using less.prems by simp
      then have ne: "(sqd ^^ Suc k) N \<noteq> (sqd ^^ (2 * Suc k)) N" using min [OF k] unfolding P_def by blast
      have "cycle_loop (int ((sqd ^^ Suc k) N)) (int ((sqd ^^ (2 * Suc k)) N)) = Some (int ((sqd ^^ K) N))"
        by (rule less.hyps [of "Suc k"]) (use k steps [of k] steps [of "2 * k + 1"] in \<open>simp_all del: funpow.simps\<close>)
      then show ?thesis using s ne less.prems by (subst cycle_loop.simps) (simp del: funpow.simps)
    qed
  qed
  have "cycle_loop n n = Some (int ((sqd ^^ K) N))" by (rule later [of 0]) (use K first in \<open>simp_all add: P_def\<close>)
  then show ?thesis using K by (auto simp: P_def)
qed

lemma best_isHappy_spec:
  assumes "int_min \<le> n" "n \<le> int_max"
  shows "best_isHappy n = Some (happy (nat \<bar>n\<bar>))"
proof -
  obtain k where k: "0 < k" "(sqd ^^ k) (nat \<bar>n\<bar>) = (sqd ^^ (2 * k)) (nat \<bar>n\<bar>)" "cycle_loop n n = Some (int ((sqd ^^ k) (nat \<bar>n\<bar>)))"
    using cycle_loop_spec [OF assms refl] by blast
  then show ?thesis using meet_happy [OF k(1,2)] by (simp add: best_isHappy_def)
qed

end
