(* ===== verification/Puzzles_Primes.thy ===== *)
theory Puzzles_Primes
  imports Puzzles
begin

text \<open>
  The sieve against divisibility: after the passes for all numbers below \<open>i\<close> an entry is crossed
  out exactly when it has a divisor below \<open>i\<close> whose square it is at least.
\<close>

definition is_prime :: "int \<Rightarrow> bool" where
  "is_prime k \<longleftrightarrow> 2 \<le> k \<and> (\<forall>d\<in>{2..<k}. \<not> d dvd k)"

definition primes_below :: "int \<Rightarrow> int set" where
  "primes_below n = {k\<in>{2..<n}. is_prime k}"

definition crossed :: "int \<Rightarrow> int \<Rightarrow> bool" where
  "crossed i j \<longleftrightarrow> (\<exists>d\<in>{2..<i}. d * d \<le> j \<and> d dvd j)"

definition sieved :: "int \<Rightarrow> int \<Rightarrow> scratch \<Rightarrow> bool" where
  "sieved n i dp \<longleftrightarrow> int (length dp) = n \<and> (\<forall>j\<in>{2..<n}. dp ! nat j = Some (if crossed i j then 0 else 1))"

section \<open>Divisors\<close>

lemma crossed_next: "2 \<le> i \<Longrightarrow> crossed (i + 1) j \<longleftrightarrow> crossed i j \<or> i * i \<le> j \<and> i dvd j"
proof -
  assume "2 \<le> i"
  then have "{2..<i + 1} = insert i {2..<i}" by auto
  then show ?thesis by (auto simp: crossed_def)
qed

text \<open>If the square of \<open>i\<close> was crossed out before the pass for \<open>i\<close>, that pass has nothing to do.\<close>

lemma crossed_multiples:
  assumes "2 \<le> i" "crossed i (i * i)" "i * i \<le> j" "i dvd j"
  shows "crossed i j"
proof -
  obtain d where d: "2 \<le> d" "d < i" "d dvd i * i" using assms(2) by (auto simp: crossed_def)
  define g where "g = gcd d i"
  have "g \<noteq> 1"
  proof
    assume "g = 1"
    then have "coprime d i" by (simp add: g_def coprime_iff_gcd_eq_1)
    then have "d dvd i" using d(3) by (simp add: coprime_dvd_mult_left_iff)
    then have "g = d" using d(1) by (simp add: g_def gcd_proj1_if_dvd)
    then show False using \<open>g = 1\<close> d(1) by simp
  qed
  moreover have "g > 0" using d(1) by (simp add: g_def)
  ultimately have g: "2 \<le> g" by simp
  have "g \<le> d" using d(1) by (simp add: g_def zdvd_imp_le)
  then have gi: "g < i" using d(2) by simp
  have "g * g \<le> i * i" using g gi by (intro mult_mono) simp_all
  moreover have "g dvd j" using assms(4) gcd_dvd2 dvd_trans unfolding g_def by blast
  moreover have "g * g \<le> j" using \<open>g * g \<le> i * i\<close> assms(3) by linarith
  ultimately show ?thesis unfolding crossed_def using g gi by (intro bexI [of _ g]) simp_all
qed

lemma prime_crossed:
  assumes "2 \<le> j" "j < n" "n \<le> i * i" "2 \<le> i"
  shows "is_prime j \<longleftrightarrow> \<not> crossed i j"
proof
  assume p: "is_prime j"
  show "\<not> crossed i j"
  proof
    assume "crossed i j"
    then obtain d where d: "2 \<le> d" "d * d \<le> j" "d dvd j" by (auto simp: crossed_def)
    have "d * 2 \<le> d * d" using d(1) by (intro mult_left_mono) simp_all
    then have "d < j" using d(1,2) by linarith
    then show False using p d(1,3) by (auto simp: is_prime_def)
  qed
next
  assume c: "\<not> crossed i j"
  have "\<not> d dvd j" if "2 \<le> d" "d < j" for d
  proof
    assume "d dvd j"
    then obtain e where e: "j = d * e" by blast
    have e2: "2 \<le> e"
    proof (rule ccontr)
      assume "\<not> 2 \<le> e"
      then consider "e \<le> 0" | "e = 1" by linarith
      then show False
      proof cases
        case 1
        then have "d * e \<le> 0" using that(1) by (simp add: mult_nonneg_nonpos)
        then show False using e assms(1) by simp
      qed (use e that in simp)
    qed
    define f where "f = min d e"
    have "f * f \<le> d * e" using that(1) e2 by (intro mult_mono) (simp_all add: f_def)
    then have fj: "f * f \<le> j" using e by simp
    have "f < i"
    proof (rule ccontr)
      assume "\<not> f < i"
      then have "i * i \<le> f * f" using assms(4) by (intro mult_mono) simp_all
      then show False using fj assms(2,3) by simp
    qed
    moreover have "f dvd j" using e by (auto simp: f_def min_def)
    moreover have "2 \<le> f" using that(1) e2 by (simp add: f_def)
    ultimately show False using c fj by (auto simp: crossed_def)
  qed
  then show "is_prime j" using assms(1) by (auto simp: is_prime_def)
qed

section \<open>The loops\<close>

lemma fill_ones_spec:
  assumes "0 \<le> i" "int (length dp) = n"
  shows "\<exists>dp'. fill_ones dp n i = Some dp' \<and> int (length dp') = n \<and> (\<forall>j\<in>{0..<n}. dp' ! nat j = (if i \<le> j then Some 1 else dp ! nat j))"
  using assms
proof (induction dp n i rule: fill_ones.induct)
  case (1 dp n i)
  show ?case
  proof (cases "i < n")
    case True
    have w: "awrite dp i (Some 1) = Some (dp[nat i := Some 1])" using True 1(2,3) by (intro awrite_in) simp_all
    from 1(1) [OF True w] 1(2,3) obtain dp' where dp': "fill_ones (dp[nat i := Some 1]) n (i + 1) = Some dp'" "int (length dp') = n"
      "\<forall>j\<in>{0..<n}. dp' ! nat j = (if i + 1 \<le> j then Some 1 else dp[nat i := Some 1] ! nat j)" by auto
    then show ?thesis using True w 1(2,3)
      by (subst fill_ones.simps) (auto simp: nth_list_update eq_nat_nat_iff)
  next
    case False
    then show ?thesis using 1(3) by (auto simp: fill_ones.simps)
  qed
qed

lemma cross_out_spec:
  assumes "2 \<le> i" "i \<le> 46340" "n \<le> 2147395600" "0 \<le> j" "i dvd j" "int (length dp) = n"
  shows "\<exists>dp'. cross_out dp n i j = Some dp' \<and> int (length dp') = n \<and>
    (\<forall>k\<in>{0..<n}. dp' ! nat k = (if j \<le> k \<and> i dvd k then Some 0 else dp ! nat k))"
  using assms(4-)
proof (induction "nat (n - j)" arbitrary: dp j rule: less_induct)
  case less
  show ?case
  proof (cases "j < n")
    case True
    have w: "awrite dp j (Some 0) = Some (dp[nat j := Some 0])" using True less.prems by (intro awrite_in) simp_all
    have c: "cint (j + i) = Some (j + i)" using True less.prems(1) assms(1-3) by (intro cint_in) (simp_all add: int_min_def int_max_def)
    have "nat (n - (j + i)) < nat (n - j)" using True assms(1) by simp
    from less.hyps [OF this, of "dp[nat j := Some 0]"] less.prems assms(1) obtain dp' where
      dp': "cross_out (dp[nat j := Some 0]) n i (j + i) = Some dp'" "int (length dp') = n"
      "\<forall>k\<in>{0..<n}. dp' ! nat k = (if j + i \<le> k \<and> i dvd k then Some 0 else dp[nat j := Some 0] ! nat k)" by auto
    have "(j \<le> k \<and> i dvd k) = (k = j \<or> j + i \<le> k \<and> i dvd k)" for k
    proof -
      have "j + i \<le> k" if "j < k" "i dvd k"
      proof -
        have "i dvd k - j" using that(2) less.prems(2) by simp
        then have "i \<le> k - j" using that(1) by (intro zdvd_imp_le) simp_all
        then show ?thesis by simp
      qed
      then show ?thesis using less.prems(2) assms(1) by auto
    qed
    then show ?thesis using True w c dp' less.prems(1,3)
      by (subst cross_out.simps) (auto simp: nth_list_update eq_nat_nat_iff)
  next
    case False
    then show ?thesis using less.prems(3) by (subst cross_out.simps) auto
  qed
qed

lemma sieve_step:
  assumes "sieved n i dp" "2 \<le> i" "i * i < n" "n \<le> 2147395600" "i \<le> 46340"
  shows "\<exists>d. tread dp (i * i) = Some d \<and> (\<exists>dp'. (if d = 1 then cross_out dp n i (i * i) else Some dp) = Some dp' \<and> sieved n (i + 1) dp')"
proof -
  have ii: "2 \<le> i * i" using mult_mono [of 2 i 2 i] assms(2) by simp
  have len: "int (length dp) = n" using assms(1) by (simp add: sieved_def)
  have at: "dp ! nat j = Some (if crossed i j then 0 else 1)" if "2 \<le> j" "j < n" for j using assms(1) that by (simp add: sieved_def)
  have t: "tread dp (i * i) = Some (if crossed i (i * i) then 0 else 1)" using ii assms(3) len at [OF ii assms(3)] by (simp add: tread_def aread_in)
  show ?thesis
  proof (cases "crossed i (i * i)")
    case True
    have "sieved n (i + 1) dp" unfolding sieved_def using len at crossed_multiples [OF assms(2) True] by (auto simp: crossed_next [OF assms(2)])
    then show ?thesis using t True by simp
  next
    case False
    obtain dp' where dp': "cross_out dp n i (i * i) = Some dp'" "int (length dp') = n"
      "\<forall>k\<in>{0..<n}. dp' ! nat k = (if i * i \<le> k \<and> i dvd k then Some 0 else dp ! nat k)"
      using cross_out_spec [OF assms(2,5,4) _ _ len, of "i * i"] ii by auto
    have "sieved n (i + 1) dp'" unfolding sieved_def using dp'(2,3) at by (auto simp: crossed_next [OF assms(2)])
    then show ?thesis using t False dp'(1) by simp
  qed
qed

lemma sieve_loop_spec:
  assumes "sieved n i dp" "2 \<le> i" "i \<le> 46340" "n \<le> 2147395600"
  shows "\<exists>dp' k. sieve_loop dp n i = Some dp' \<and> sieved n k dp' \<and> 2 \<le> k \<and> n \<le> k * k"
  using assms(1-3)
proof (induction "nat (46340 - i)" arbitrary: dp i rule: less_induct)
  case less
  have "i * i \<le> 46340 * 46340" using less.prems(2,3) by (intro mult_mono) simp_all
  moreover have "0 \<le> i * i" by simp
  ultimately have c: "cint (i * i) = Some (i * i)" by (intro cint_in) (unfold int_min_def int_max_def, linarith+)
  show ?case
  proof (cases "i * i < n")
    case True
    obtain d dp' where d: "tread dp (i * i) = Some d" "(if d = 1 then cross_out dp n i (i * i) else Some dp) = Some dp'" "sieved n (i + 1) dp'"
      using sieve_step [OF less.prems(1,2) True assms(4) less.prems(3)] by blast
    have "i \<noteq> 46340" using True assms(4) by auto
    then have i: "i + 1 \<le> 46340" "nat (46340 - (i + 1)) < nat (46340 - i)" using less.prems(3) by simp_all
    from less.hyps [OF i(2) d(3) _ i(1)] less.prems(2) show ?thesis using c True d(1,2) by (subst sieve_loop.simps) simp
  next
    case False
    then show ?thesis using c less.prems by (subst sieve_loop.simps) auto
  qed
qed

lemma count_ones_spec:
  assumes "2 \<le> i" "int (length dp) = n" "\<forall>j\<in>{2..<n}. dp ! nat j = Some (if P j then 1 else 0)"
  shows "count_ones dp n i ans = Some (ans + int (card {j\<in>{i..<n}. P j}))"
  using assms
proof (induction dp n i ans rule: count_ones.induct)
  case (1 dp n i ans)
  show ?case
  proof (cases "i < n")
    case True
    have t: "tread dp i = Some (if P i then 1 else 0)" using True 1(2-4) by (simp add: tread_def aread_in)
    have "{i..<n} = insert i {i + 1..<n}" using True by auto
    then have "{j\<in>{i..<n}. P j} = (if P i then insert i {j\<in>{i + 1..<n}. P j} else {j\<in>{i + 1..<n}. P j})" by auto
    moreover have "finite {j\<in>{i + 1..<n}. P j}" by (rule finite_subset [of _ "{i + 1..<n}"]) auto
    moreover have "i \<notin> {j\<in>{i + 1..<n}. P j}" by simp
    ultimately have "card {j\<in>{i..<n}. P j} = (if P i then Suc (card {j\<in>{i + 1..<n}. P j}) else card {j\<in>{i + 1..<n}. P j})"
      by (cases "P i") (simp_all only: card_insert_disjoint if_True if_False not_False_eq_True)
    moreover have "count_ones dp n (i + 1) (if (if P i then 1 else 0) = (1::int) then ans + 1 else ans)
        = Some ((if (if P i then 1 else 0) = (1::int) then ans + 1 else ans) + int (card {j\<in>{i + 1..<n}. P j}))"
      by (rule 1(1) [OF True t]) (use 1(2-4) in simp_all)
    ultimately show ?thesis using True t by (subst count_ones.simps) (simp split: if_splits)
  next
    case False
    then show ?thesis by (simp add: count_ones.simps)
  qed
qed

lemma countPrimes_in_range:
  assumes "n \<le> 2147395600"
  shows "countPrimes True n = Some (int (card (primes_below n)))"
proof (cases "n < 3")
  case True
  have "primes_below n = {}"
  proof -
    have "k \<notin> primes_below n" for k using True by (auto simp: primes_below_def is_prime_def)
    then show ?thesis by blast
  qed
  then show ?thesis using True by (simp add: countPrimes_def)
next
  case False
  have l: "int (length (replicate (nat n) (None :: int option))) = n" using False by simp
  obtain dp where dp: "fill_ones (replicate (nat n) None) n 2 = Some dp" "int (length dp) = n" "\<forall>j\<in>{2..<n}. dp ! nat j = Some 1"
    using fill_ones_spec [OF _ l, of 2] by auto
  have "sieved n 2 dp" using dp(2,3) by (simp add: sieved_def crossed_def)
  then obtain dp' k where dp': "sieve_loop dp n 2 = Some dp'" "sieved n k dp'" "2 \<le> k" "n \<le> k * k" using sieve_loop_spec [OF _ _ _ assms, of 2 dp] by auto
  have "dp' ! nat j = Some (if is_prime j then 1 else 0)" if "j \<in> {2..<n}" for j
    using dp'(2) that prime_crossed [OF _ _ dp'(4,3), of j] by (simp add: sieved_def)
  then have "count_ones dp' n 2 0 = Some (0 + int (card {j\<in>{2..<n}. is_prime j}))"
    using dp'(2) by (intro count_ones_spec) (simp_all add: sieved_def)
  then show ?thesis using False dp(1) dp'(1) by (simp add: countPrimes_def primes_below_def)
qed

text \<open>Above the square of 46340 the loop reaches an \<open>i\<close> whose square is no \<open>int\<close>.\<close>

lemma sieve_loop_stops:
  assumes "sieve_loop dp n i = Some r" "0 \<le> i"
  shows "\<exists>k\<ge>0. n \<le> k * k \<and> cint (k * k) = Some (k * k)"
proof -
  define Q where "Q dp n i r = (0 \<le> i \<longrightarrow> (\<exists>k\<ge>0. n \<le> k * k \<and> cint (k * k) = Some (k * k)))"
    for dp :: scratch and n i :: int and r :: scratch
  have "Q dp n i r"
  proof (rule sieve_loop.raw_induct [OF _ assms(1)])
    fix f dp n i r
    assume IH: "\<And>dp n i r. f dp n i = Some r \<Longrightarrow> Q dp n i r"
      and r: "cint (i * i) \<bind> (\<lambda>sq. if sq < n then tread dp sq \<bind> (\<lambda>d. (if d = 1 then cross_out dp n i sq else Some dp) \<bind>
        (\<lambda>dp. f dp n (i + 1))) else Some dp) = Some r"
    then obtain sq where c: "cint (i * i) = Some sq" by (cases "cint (i * i)") simp_all
    then have sq: "sq = i * i" by (simp add: cint_def split: if_splits)
    show "Q dp n i r"
    proof (cases "sq < n")
      case True
      then obtain dp' where "f dp' n (i + 1) = Some r" using r c by (auto simp: bind_eq_Some_conv)
      then show ?thesis using IH [of dp' n "i + 1" r] by (simp add: Q_def)
    next
      case False
      then show ?thesis using c sq unfolding Q_def by auto
    qed
  qed
  then show ?thesis using assms(2) by (simp add: Q_def)
qed

lemma countPrimes_overflows:
  assumes "2147395600 < n"
  shows "countPrimes True n = None"
proof (rule ccontr)
  assume "countPrimes True n \<noteq> None"
  then obtain dp dp' where "sieve_loop dp n 2 = Some dp'" using assms by (auto simp: countPrimes_def split: if_splits bind_splits)
  then obtain k where k: "0 \<le> k" "n \<le> k * k" "cint (k * k) = Some (k * k)" using sieve_loop_stops by fastforce
  have "k * k \<le> int_max" using k(3) by (auto simp: cint_def split: if_splits)
  have "k \<le> 46340"
  proof (rule ccontr)
    assume "\<not> k \<le> 46340"
    then have "46341 * 46341 \<le> k * k" by (intro mult_mono) simp_all
    then show False using \<open>k * k \<le> int_max\<close> by (simp add: int_max_def)
  qed
  then have "k * k \<le> 46340 * 46340" using k(1) by (intro mult_mono) simp_all
  then show False using k(2) assms by simp
qed

end
