(* ===== verification/Puzzles_Fenwick.thy ===== *)
theory Puzzles_Fenwick
  imports Puzzles
begin

text \<open>
  The tree-shaped array of \<open>tree_form_array.c\<close> against a list: \<open>sums[k]\<close> holds the sum of the
  \<open>lb k\<close> entries that end at \<open>k\<close>, where \<open>lb k\<close> is the lowest set bit of \<open>k\<close>.
\<close>

definition lb :: "int \<Rightarrow> int" where
  "lb n = and n (- n)"

section \<open>The lowest bit\<close>

lemma lb_double: "lb (2 * m) = 2 * lb m"
proof -
  have "- (2 * m) div 2 = - m" by linarith
  then show ?thesis by (simp add: lb_def and_int_rec [of "2 * m"])
qed

lemma lb_odd: "lb (2 * m + 1) = 1"
proof -
  have "and m (- m - 1) = 0" using bit.conj_cancel_right [of m] by (simp add: not_int_def)
  moreover have "(- (2 * m + 1)) div 2 = - m - 1" by simp
  ultimately show ?thesis by (simp add: lb_def and_int_rec [of "2 * m + 1"])
qed

lemma lb_bounds: "0 < n \<Longrightarrow> 1 \<le> lb n \<and> lb n \<le> n"
proof (induction "nat n" arbitrary: n rule: less_induct)
  case less
  show ?case
  proof (cases "even n")
    case True
    then obtain m where m: "n = 2 * m" by blast
    then show ?thesis using less.hyps [of m] less.prems by (simp add: lb_double)
  next
    case False
    then obtain m where m: "n = 2 * m + 1" using oddE by blast
    then show ?thesis using less.prems by (simp add: lb_odd)
  qed
qed

text \<open>The next entry that covers what \<open>j\<close> covers is \<open>j + lb j\<close>.\<close>

lemma lb_between: "0 < j \<Longrightarrow> j < k \<Longrightarrow> k < j + lb j \<Longrightarrow> j \<le> k - lb k"
proof (induction "nat j" arbitrary: j k rule: less_induct)
  case less
  show ?case
  proof (cases "even j")
    case True
    then obtain m where m: "j = 2 * m" by blast
    show ?thesis
    proof (cases "even k")
      case True
      then obtain l where "k = 2 * l" by blast
      then show ?thesis using less.hyps [of m l] less.prems m by (simp add: lb_double)
    next
      case False
      then obtain l where "k = 2 * l + 1" using oddE by blast
      then show ?thesis using less.prems(2) by (simp add: lb_odd)
    qed
  next
    case False
    then obtain m where "j = 2 * m + 1" using oddE by blast
    then show ?thesis using less.prems by (simp add: lb_odd)
  qed
qed

lemma lb_next: "0 < j \<Longrightarrow> j + lb j - lb (j + lb j) \<le> j - lb j"
proof (induction "nat j" arbitrary: j rule: less_induct)
  case less
  show ?case
  proof (cases "even j")
    case True
    then obtain m where m: "j = 2 * m" by blast
    have "j + lb j = 2 * (m + lb m)" using m by (simp add: lb_double)
    then have "lb (j + lb j) = 2 * lb (m + lb m)" by (simp only: lb_double)
    moreover have "m + lb m - lb (m + lb m) \<le> m - lb m" using less.hyps [of m] less.prems m by simp
    moreover have "lb j = 2 * lb m" using m by (simp only: lb_double)
    ultimately show ?thesis using m by linarith
  next
    case False
    then obtain m where m: "j = 2 * m + 1" using oddE by blast
    have "j + lb j = 2 * (m + 1)" using m by (simp add: lb_odd)
    then have "lb (j + lb j) = 2 * lb (m + 1)" by (simp only: lb_double)
    moreover have "1 \<le> lb (m + 1)" using lb_bounds [of "m + 1"] less.prems m by simp
    moreover have "lb j = 1" using m by (simp only: lb_odd)
    ultimately show ?thesis using m by linarith
  qed
qed

lemma lowbit_lb: "0 \<le> n \<Longrightarrow> n \<le> int_max \<Longrightarrow> lowbit n = Some (lb n)"
  by (simp add: lowbit_def lb_def cint_in int_min_def int_max_def)

section \<open>What the array holds\<close>

definition psum :: "int list \<Rightarrow> int \<Rightarrow> int" where
  "psum xs k = sum_list (take (nat k) xs)"

definition mass :: "int list \<Rightarrow> int" where
  "mass xs = sum_list (map abs xs)"

definition cover :: "int list \<Rightarrow> int \<Rightarrow> int" where
  "cover xs k = psum xs k - psum xs (k - lb k)"

definition fen_rep :: "NumArray \<Rightarrow> int list \<Rightarrow> bool" where
  "fen_rep a xs \<longleftrightarrow> size_na a = int (length xs) \<and> nums a = None # map Some xs \<and> length (sums a) = Suc (length xs) \<and>
     (\<forall>k\<in>{1..int (length xs)}. sums a ! nat k = Some (cover xs k))"

definition segment :: "int list \<Rightarrow> int \<Rightarrow> int \<Rightarrow> int list" where
  "segment xs i j = take (nat (j - i)) (drop (nat i) xs)"

lemma psum_diff: "0 \<le> i \<Longrightarrow> i \<le> j \<Longrightarrow> psum xs j - psum xs i = sum_list (segment xs i j)"
proof -
  assume "0 \<le> i" "i \<le> j"
  then have "nat j = nat i + nat (j - i)" by simp
  then have "take (nat j) xs = take (nat i) xs @ segment xs i j" by (simp add: segment_def take_add)
  then show ?thesis by (simp add: psum_def)
qed

lemma mass_sum: "\<bar>sum_list xs\<bar> \<le> mass xs"
  unfolding mass_def by (rule sum_list_abs)

lemma mass_segment: "mass (segment xs i j) \<le> mass xs"
proof -
  have p: "0 \<le> mass ys" for ys unfolding mass_def by (rule sum_list_nonneg) auto
  have s: "mass xs = mass ys + mass zs" if "xs = ys @ zs" for xs ys zs using that by (simp add: mass_def)
  have "mass xs = mass (take (nat i) xs) + mass (drop (nat i) xs)" by (rule s) simp
  moreover have "mass (drop (nat i) xs) = mass (segment xs i j) + mass (drop (nat (j - i)) (drop (nat i) xs))"
    unfolding segment_def by (rule s) (simp only: append_take_drop_id)
  ultimately show ?thesis using p [of "take (nat i) xs"] p [of "drop (nat (j - i)) (drop (nat i) xs)"] by simp
qed

lemma range_bound: "0 \<le> i \<Longrightarrow> i \<le> j \<Longrightarrow> mass xs \<le> M \<Longrightarrow> \<bar>psum xs j - psum xs i\<bar> \<le> M"
  using mass_sum [of "segment xs i j"] mass_segment [of xs i j] by (simp add: psum_diff)

lemma psum_0 [simp]: "psum xs 0 = 0"
  by (simp add: psum_def)

lemma psum_step: "0 \<le> k \<Longrightarrow> k < int (length xs) \<Longrightarrow> psum xs (k + 1) = psum xs k + xs ! nat k"
  by (simp add: psum_def nat_add_distrib take_Suc_conv_app_nth)

lemma sum_list_update_int: "i < length ys \<Longrightarrow> sum_list (ys[i := v]) = sum_list ys + v - (ys ! i :: int)"
  by (induction ys arbitrary: i) (auto split: nat.split)

lemma psum_update:
  assumes "i < length xs"
  shows "psum (xs[i := v]) k = psum xs k + (if int i < k then v - xs ! i else 0)"
proof (cases "i < nat k")
  case True
  have "take (nat k) (xs[i := v]) = (take (nat k) xs)[i := v]" by (simp add: take_update_swap)
  moreover have "sum_list ((take (nat k) xs)[i := v]) = sum_list (take (nat k) xs) + v - take (nat k) xs ! i"
    by (rule sum_list_update_int) (use True assms in simp)
  moreover have "int i < k" using True by linarith
  ultimately show ?thesis using True assms by (simp add: psum_def)
next
  case False
  moreover from this have "\<not> int i < k" by linarith
  ultimately show ?thesis by (simp add: psum_def)
qed

lemma num_read: "fen_rep a xs \<Longrightarrow> i < length xs \<Longrightarrow> tread (nums a) (int i + 1) = Some (xs ! i)"
  by (simp add: fen_rep_def tread_def aread_in nat_add_distrib)

lemma sum_read: "fen_rep a xs \<Longrightarrow> 1 \<le> k \<Longrightarrow> k \<le> int (length xs) \<Longrightarrow> tread (sums a) k = Some (cover xs k)"
  by (simp add: fen_rep_def tread_def aread_in)

section \<open>Reading\<close>

lemma prefix_loop_spec:
  assumes "fen_rep a xs" "mass xs \<le> int_max" "int (length xs) \<le> int_max" "0 \<le> j" "j \<le> n" "n \<le> int (length xs)"
  shows "prefix_loop (sums a) j (psum xs n - psum xs j) = Some (psum xs n)"
  using assms(4-)
proof (induction "nat j" arbitrary: j rule: less_induct)
  case less
  show ?case
  proof (cases "1 \<le> j")
    case True
    have b: "1 \<le> lb j" "lb j \<le> j" using lb_bounds [of j] True by simp_all
    have s: "psum xs n - psum xs j + cover xs j = psum xs n - psum xs (j - lb j)" by (simp add: cover_def)
    have "\<bar>psum xs n - psum xs (j - lb j)\<bar> \<le> int_max" by (rule range_bound) (use b less.prems assms(2) in simp_all)
    then have c: "cint (psum xs n - psum xs j + cover xs j) = Some (psum xs n - psum xs (j - lb j))" unfolding s by (intro cint_in) (simp_all add: int_min_def int_max_def)
    have "prefix_loop (sums a) (j - lb j) (psum xs n - psum xs (j - lb j)) = Some (psum xs n)"
      by (rule less.hyps) (use b less.prems in simp_all)
    then show ?thesis using True sum_read [OF assms(1) True] less.prems assms(3) c lowbit_lb [of j]
      by (subst prefix_loop.simps) simp
  next
    case False
    then have "j = 0" using less.prems by simp
    then show ?thesis by (subst prefix_loop.simps) simp
  qed
qed

lemma sumRange_spec:
  assumes "fen_rep a xs" "mass xs \<le> int_max" "int (length xs) \<le> int_max" "0 \<le> i" "i \<le> j" "j < int (length xs)"
  shows "sumRange a i j = Some (sum_list (segment xs i (j + 1)))"
proof -
  have ij: "cint (i + 1) = Some (i + 1)" "cint (j + 1) = Some (j + 1)" using assms by (simp_all add: cint_in int_min_def)
  have s1: "prefix_loop (sums a) (j + 1) 0 = Some (psum xs (j + 1))"
    using prefix_loop_spec [OF assms(1-3), of "j + 1" "j + 1"] assms(4-) by simp
  have s2: "prefix_loop (sums a) (i + 1) 0 = Some (psum xs (i + 1))"
    using prefix_loop_spec [OF assms(1-3), of "i + 1" "i + 1"] assms(4-) by simp
  have "\<bar>psum xs (j + 1) - psum xs (i + 1)\<bar> \<le> int_max" by (rule range_bound) (use assms in simp_all)
  then have c1: "cint (psum xs (j + 1) - psum xs (i + 1)) = Some (psum xs (j + 1) - psum xs (i + 1))"
    by (intro cint_in) (simp_all add: int_min_def int_max_def)
  have x: "tread (nums a) (i + 1) = Some (xs ! nat i)" using num_read [OF assms(1), of "nat i"] assms(4-) by simp
  have d: "psum xs (j + 1) - psum xs (i + 1) + xs ! nat i = psum xs (j + 1) - psum xs i" using psum_step [of i xs] assms(4-) by simp
  have "\<bar>psum xs (j + 1) - psum xs i\<bar> \<le> int_max" by (rule range_bound) (use assms in simp_all)
  then have c2: "cint (psum xs (j + 1) - psum xs i) = Some (psum xs (j + 1) - psum xs i)"
    by (intro cint_in) (simp_all add: int_min_def int_max_def)
  have "psum xs (j + 1) - psum xs i = sum_list (segment xs i (j + 1))" by (rule psum_diff) (use assms in simp_all)
  then show ?thesis using ij s1 s2 c1 x d c2 by (simp add: sumRange_def)
qed

section \<open>Updating\<close>

lemma cover_update:
  assumes "i < length xs" "p = int i + 1" "1 \<le> k"
  shows "cover (xs[i := v]) k = cover xs k + (if k - lb k < p \<and> p \<le> k then v - xs ! i else 0)"
proof -
  have "1 \<le> lb k" using lb_bounds [of k] assms(3) by simp
  then show ?thesis using assms(1,2) by (auto simp: cover_def psum_update)
qed

text \<open>The entries from \<open>j\<close> on that cover \<open>p\<close> still hold the old sums, all others the new ones.\<close>

lemma update_loop_spec:
  assumes "int (length xs) < 1073741824" "i < length xs" "p = int i + 1" "mass (xs[i := v]) \<le> int_max" "d = v - xs ! i"
    and "length ss = Suc (length xs)" "p \<le> j" "j - lb j < p"
    and "\<forall>k\<in>{1..int (length xs)}. ss ! nat k = Some (if k < j then cover (xs[i := v]) k else cover xs k)"
  shows "\<exists>ss'. update_loop ss (int (length xs)) d j = Some ss' \<and> length ss' = Suc (length xs) \<and>
    (\<forall>k\<in>{1..int (length xs)}. ss' ! nat k = Some (cover (xs[i := v]) k))"
  using assms(6-)
proof (induction "nat (int (length xs) + 1 - j)" arbitrary: ss j rule: less_induct)
  case less
  show ?case
  proof (cases "j \<le> int (length xs)")
    case True
    have j: "1 \<le> j" using less.prems(2) assms(3) by simp
    have b: "1 \<le> lb j" "lb j \<le> j" using lb_bounds [of j] j by simp_all
    have r: "tread ss j = Some (cover xs j)" using less.prems(1,4) True j by (simp add: tread_def aread_in)
    have new: "cover xs j + d = cover (xs[i := v]) j" using cover_update [OF assms(2,3) j] less.prems(2,3) assms(5) by simp
    have "\<bar>cover (xs[i := v]) j\<bar> \<le> int_max" unfolding cover_def by (rule range_bound) (use b assms(4) in simp_all)
    then have c: "cint (cover (xs[i := v]) j) = Some (cover (xs[i := v]) j)" by (intro cint_in) (simp_all add: int_min_def int_max_def)
    have w: "awrite ss j (Some (cover (xs[i := v]) j)) = Some (ss[nat j := Some (cover (xs[i := v]) j)])" (is "_ = Some ?ss")
      using True j less.prems(1) by (intro awrite_in) simp_all
    have l: "lowbit j = Some (lb j)" "cint (j + lb j) = Some (j + lb j)" using True j b assms(1)
      by (simp_all add: lowbit_lb cint_in int_max_def int_min_def)
    have cov: "?ss ! nat k = Some (if k < j + lb j then cover (xs[i := v]) k else cover xs k)" if k: "k \<in> {1..int (length xs)}" for k
    proof -
      consider "k < j" | "k = j" | "j < k" "k < j + lb j" | "j + lb j \<le> k" by linarith
      then show ?thesis
      proof cases
        case 3
        then have "p \<le> k - lb k" using lb_between [of j k] j less.prems(2) by simp
        then have "cover (xs[i := v]) k = cover xs k" using cover_update [OF assms(2,3), of k] k by simp
        then show ?thesis using less.prems(4) k 3 j by (simp add: nth_list_update eq_nat_nat_iff)
      qed (use less.prems(1,4) k j b True in \<open>simp_all add: nth_list_update eq_nat_nat_iff\<close>)
    qed
    have "\<exists>ss'. update_loop ?ss (int (length xs)) d (j + lb j) = Some ss' \<and> length ss' = Suc (length xs) \<and>
      (\<forall>k\<in>{1..int (length xs)}. ss' ! nat k = Some (cover (xs[i := v]) k))"
    proof (rule less.hyps)
      show "j + lb j - lb (j + lb j) < p" using lb_next [of j] j less.prems(3) by simp
    qed (use cov less.prems(1,2) True b in auto)
    then show ?thesis using True r new c w l by (subst update_loop.simps) simp
  next
    case False
    then have "\<forall>k\<in>{1..int (length xs)}. ss ! nat k = Some (cover (xs[i := v]) k)" using less.prems(4) by auto
    then show ?thesis using False less.prems(1) by (subst update_loop.simps) simp
  qed
qed

lemma update_spec:
  assumes "fen_rep a xs" "int (length xs) < 1073741824" "i < length xs" "mass xs < 1073741824" "mass (xs[i := v]) < 1073741824"
  shows "\<exists>a'. update a (int i) v = Some a' \<and> fen_rep a' (xs[i := v])"
proof -
  let ?p = "int i + 1"
  have p: "cint ?p = Some ?p" using assms(2,3) by (simp add: cint_in int_min_def int_max_def)
  have one: "\<bar>ys ! i\<bar> \<le> mass ys" if "i < length ys" for ys
    unfolding mass_def using that by (intro member_le_sum_list) auto
  have "\<bar>v - xs ! i\<bar> \<le> int_max" using one [of xs] one [of "xs[i := v]"] assms(3-5) by (simp add: int_max_def)
  then have c: "cint (v - xs ! i) = Some (v - xs ! i)" by (intro cint_in) (simp_all add: int_min_def int_max_def)
  have w: "awrite (nums a) ?p (Some v) = Some (None # map Some (xs[i := v]))"
    using assms(1,3) by (simp add: fen_rep_def awrite_in nat_add_distrib map_update)
  have "?p - lb ?p < ?p" using lb_bounds [of ?p] by simp
  moreover have "\<forall>k\<in>{1..int (length xs)}. sums a ! nat k = Some (if k < ?p then cover (xs[i := v]) k else cover xs k)"
    using assms(1) cover_update [OF assms(3) refl] by (auto simp: fen_rep_def)
  ultimately obtain ss where ss: "update_loop (sums a) (int (length xs)) (v - xs ! i) ?p = Some ss" "length ss = Suc (length xs)"
    "\<forall>k\<in>{1..int (length xs)}. ss ! nat k = Some (cover (xs[i := v]) k)"
    using update_loop_spec [OF assms(2,3) refl, where v = v and d = "v - xs ! i" and ss = "sums a" and j = ?p] assms(1,5)
    by (auto simp: fen_rep_def int_max_def)
  have "update a (int i) v = Some (a\<lparr>nums := None # map Some (xs[i := v]), sums := ss\<rparr>)"
    using p num_read [OF assms(1,3)] c w ss(1) assms(1) by (simp add: update_def Let_def fen_rep_def)
  moreover have "fen_rep (a\<lparr>nums := None # map Some (xs[i := v]), sums := ss\<rparr>) (xs[i := v])"
    using assms(1) ss(2,3) by (simp add: fen_rep_def)
  ultimately show ?thesis by blast
qed

section \<open>Building\<close>

lemma create_copy_spec:
  assumes "0 \<le> i" "i \<le> int (length xs)" "length a = Suc (length xs)" "take (nat i + 1) a = None # map Some (take (nat i) xs)"
  shows "create_copy xs (int (length xs)) a i = Some (None # map Some xs)"
  using assms
proof (induction "nat (int (length xs) - i)" arbitrary: a i rule: less_induct)
  case less
  show ?case
  proof (cases "i < int (length xs)")
    case True
    have r: "aread xs i = Some (xs ! nat i)" using True less.prems(1) by (intro aread_in)
    have w: "awrite a (i + 1) (Some (xs ! nat i)) = Some (a[nat i + 1 := Some (xs ! nat i)])" (is "_ = Some ?a")
      using True less.prems(1,3) by (simp add: awrite_in nat_add_distrib)
    have "take (nat (i + 1) + 1) ?a = take (nat i + 1) a @ [Some (xs ! nat i)]"
      using True less.prems(1,3) by (simp add: nat_add_distrib take_Suc_conv_app_nth)
    also have "\<dots> = None # map Some (take (nat (i + 1)) xs)"
      using True less.prems(1,4) by (simp add: nat_add_distrib take_Suc_conv_app_nth)
    finally have "create_copy xs (int (length xs)) ?a (i + 1) = Some (None # map Some xs)"
      by (intro less.hyps) (use True less.prems in simp_all)
    then show ?thesis using True r w by (subst create_copy.simps) simp
  next
    case False
    then have "nat i = length xs" using less.prems(2) by simp
    then show ?thesis using False less.prems(3,4) by (subst create_copy.simps) simp
  qed
qed

lemma create_sum_spec:
  assumes "ns = None # map Some xs" "mass xs \<le> int_max" "1 \<le> i" "i \<le> int (length xs)" "int (length ss) = int (length xs) + 1"
    "0 \<le> low" "low \<le> j" "j < i" "ss ! nat i = Some (psum xs i - psum xs j)"
  shows "create_sum ns ss i low j = Some (ss[nat i := Some (psum xs i - psum xs low)])"
  using assms(5-)
proof (induction "nat j" arbitrary: ss j rule: less_induct)
  case less
  show ?case
  proof (cases "j > low")
    case True
    have x: "tread ss i = Some (psum xs i - psum xs j)" using less.prems(1,5) assms(3,4) by (simp add: tread_def aread_in)
    have "nat j = Suc (nat (j - 1))" using True less.prems(2) by simp
    then have y: "tread ns j = Some (xs ! nat (j - 1))" using True less.prems(2,4) assms(1,4) by (simp add: tread_def aread_in)
    have "psum xs j = psum xs (j - 1) + xs ! nat (j - 1)" using psum_step [of "j - 1" xs] True less.prems(2,4) assms(4) by simp
    then have z: "psum xs i - psum xs j + xs ! nat (j - 1) = psum xs i - psum xs (j - 1)" by simp
    have "\<bar>psum xs i - psum xs (j - 1)\<bar> \<le> int_max" by (rule range_bound) (use True less.prems assms(2) in simp_all)
    then have c: "cint (psum xs i - psum xs j + xs ! nat (j - 1)) = Some (psum xs i - psum xs (j - 1))"
      unfolding z by (intro cint_in) (simp_all add: int_min_def int_max_def)
    have w: "awrite ss i (Some (psum xs i - psum xs (j - 1))) = Some (ss[nat i := Some (psum xs i - psum xs (j - 1))])" (is "_ = Some ?ss")
      using less.prems(1) assms(3,4) by (intro awrite_in) simp_all
    have "create_sum ns ?ss i low (j - 1) = Some (?ss[nat i := Some (psum xs i - psum xs low)])"
      by (rule less.hyps) (use True less.prems assms(3,4) in simp_all)
    then show ?thesis using True x y c w by (subst create_sum.simps) simp
  next
    case False
    then have "j = low" using less.prems(3) by simp
    then have "ss[nat i := Some (psum xs i - psum xs low)] = ss" using list_update_id [of ss "nat i"] less.prems(5) by simp
    then show ?thesis using False by (subst create_sum.simps) simp
  qed
qed

lemma create_sums_spec:
  assumes "ns = None # map Some xs" "mass xs \<le> int_max" "int (length xs) \<le> int_max"
    "1 \<le> i" "int (length ss) = int (length xs) + 1" "\<forall>k\<in>{1..<i}. k \<le> int (length xs) \<longrightarrow> ss ! nat k = Some (cover xs k)"
  shows "\<exists>ss'. create_sums ns ss (int (length xs)) i = Some ss' \<and> int (length ss') = int (length xs) + 1 \<and>
    (\<forall>k\<in>{1..int (length xs)}. ss' ! nat k = Some (cover xs k))"
  using assms(4-)
proof (induction "nat (int (length xs) + 1 - i)" arbitrary: ss i rule: less_induct)
  case less
  show ?case
  proof (cases "i \<le> int (length xs)")
    case True
    have "nat i = Suc (nat (i - 1))" using less.prems(1) by simp
    then have x: "tread ns i = Some (xs ! nat (i - 1))" using True less.prems(1) assms(1) by (simp add: tread_def aread_in)
    have w: "awrite ss i (Some (xs ! nat (i - 1))) = Some (ss[nat i := Some (xs ! nat (i - 1))])" (is "_ = Some ?s1")
      using True less.prems(1,2) by (intro awrite_in) simp_all
    have b: "1 \<le> lb i" "lb i \<le> i" using lb_bounds [of i] less.prems(1) by simp_all
    have "psum xs i = psum xs (i - 1) + xs ! nat (i - 1)" using psum_step [of "i - 1" xs] True less.prems(1) by simp
    then have "create_sum ns ?s1 i (i - lb i) (i - 1) = Some (?s1[nat i := Some (psum xs i - psum xs (i - lb i))])"
      by (intro create_sum_spec [OF assms(1,2)]) (use True less.prems b in simp_all)
    then have s2: "create_sum ns ?s1 i (i - lb i) (i - 1) = Some (ss[nat i := Some (cover xs i)])" (is "_ = Some ?s2")
      by (simp add: cover_def)
    have "\<exists>ss'. create_sums ns ?s2 (int (length xs)) (i + 1) = Some ss' \<and> int (length ss') = int (length xs) + 1 \<and>
      (\<forall>k\<in>{1..int (length xs)}. ss' ! nat k = Some (cover xs k))"
      by (rule less.hyps) (use True less.prems in \<open>auto simp: nth_list_update eq_nat_nat_iff\<close>)
    then show ?thesis using True x w s2 lowbit_lb [of i] less.prems(1) assms(3) by (subst create_sums.simps) simp
  next
    case False
    then show ?thesis using less.prems by (subst create_sums.simps) auto
  qed
qed

lemma NumArrayCreate_spec:
  assumes "mass xs \<le> int_max" "int (length xs) \<le> int_max"
  shows "\<exists>a. NumArrayCreate True xs (int (length xs)) = Some a \<and> fen_rep a xs"
proof -
  let ?blank = "replicate (nat (int (length xs) + 1)) None :: scratch"
  have l: "length ?blank = Suc (length xs)" by (simp add: nat_add_distrib)
  have c: "create_copy xs (int (length xs)) ?blank 0 = Some (None # map Some xs)"
    by (rule create_copy_spec) (use l in \<open>simp_all add: nat_add_distrib\<close>)
  obtain ss where ss: "create_sums (None # map Some xs) ?blank (int (length xs)) 1 = Some ss" "int (length ss) = int (length xs) + 1"
    "\<forall>k\<in>{1..int (length xs)}. ss ! nat k = Some (cover xs k)"
    using create_sums_spec [OF refl assms, of 1 ?blank] l by auto
  show ?thesis using c ss by (auto simp: NumArrayCreate_def Let_def fen_rep_def)
qed

end
