(* ===== verification/Puzzles_Theorems.thy ===== *)
theory Puzzles_Theorems
  imports Puzzles_Arrays Puzzles_Numbers Puzzles_Primes Puzzles_Fenwick
begin

text \<open>What the exercises on arrays and numbers compute.\<close>

section \<open>Range sums\<close>

definition put :: "int list \<Rightarrow> nat \<times> int \<Rightarrow> int list" where
  "put xs u = xs[fst u := snd u]"

fun updates :: "NumArray \<Rightarrow> (nat \<times> int) list \<Rightarrow> NumArray option" where
  "updates a [] = Some a"
| "updates a (u # us) = do { a \<leftarrow> update a (int (fst u)) (snd u); updates a us }"

text \<open>The sums of absolute values after each update stay below \<open>2 ^ 30\<close>.\<close>

fun moderate :: "int list \<Rightarrow> (nat \<times> int) list \<Rightarrow> bool" where
  "moderate xs [] \<longleftrightarrow> mass xs < 1073741824"
| "moderate xs (u # us) \<longleftrightarrow> mass xs < 1073741824 \<and> fst u < length xs \<and> moderate (put xs u) us"

lemma moderate_mass: "moderate xs us \<Longrightarrow> mass xs < 1073741824"
  by (cases us) simp_all

lemma updates_spec:
  "fen_rep a xs \<Longrightarrow> int (length xs) < 1073741824 \<Longrightarrow> moderate xs us \<Longrightarrow> \<exists>a'. updates a us = Some a' \<and> fen_rep a' (foldl put xs us)"
proof (induction us arbitrary: a xs)
  case (Cons u us)
  obtain a' where a': "update a (int (fst u)) (snd u) = Some a'" "fen_rep a' (put xs u)"
    using update_spec [OF Cons.prems(1,2), of "fst u" "snd u"] Cons.prems(3) moderate_mass [of "put xs u" us] by (auto simp: put_def)
  then show ?case using Cons.IH [OF a'(2)] Cons.prems(2,3) by (simp add: put_def)
qed simp

lemma moderate_end: "moderate xs us \<Longrightarrow> mass (foldl put xs us) < 1073741824 \<and> length (foldl put xs us) = length xs"
  by (induction us arbitrary: xs) (simp_all add: put_def)

text \<open>
  C37. After any updates of an array built by NumArrayCreate, sumRange is the sum of the entries of
  the updated list between its two indices, as long as no sum leaves the range of int.
\<close>
theorem range_sums_refine:
  assumes "int (length xs) < 1073741824" "moderate xs us"
  shows "\<exists>a. Option.bind (NumArrayCreate True xs (int (length xs))) (\<lambda>a. updates a us) = Some a \<and>
    (\<forall>i j. i \<le> j \<and> j < length xs \<longrightarrow> sumRange a (int i) (int j) = Some (sum_list (take (Suc j - i) (drop i (foldl put xs us)))))"
proof -
  have "mass xs \<le> int_max" "int (length xs) \<le> int_max" using assms moderate_mass [OF assms(2)] by (simp_all add: int_max_def)
  then obtain a where a: "NumArrayCreate True xs (int (length xs)) = Some a" "fen_rep a xs" using NumArrayCreate_spec by blast
  obtain b where b: "updates a us = Some b" "fen_rep b (foldl put xs us)" using updates_spec [OF a(2) assms] by blast
  have "sumRange b (int i) (int j) = Some (sum_list (take (Suc j - i) (drop i (foldl put xs us))))" if "i \<le> j" "j < length xs" for i j
  proof -
    have "nat (int j + 1 - int i) = Suc j - i" by linarith
    then show ?thesis
      using sumRange_spec [OF b(2), of "int i" "int j"] moderate_end [OF assms(2)] that assms(1) by (simp add: segment_def int_max_def)
  qed
  then show ?thesis using a(1) b(1) by (intro exI [of _ b]) simp
qed

theorem range_sums_refine_witness:
  "\<exists>a. Option.bind (NumArrayCreate True [1, 3, 5] 3) (\<lambda>a. updates a [(1, 2)]) = Some a \<and> sumRange a 0 2 = Some 8"
proof -
  obtain a where a: "Option.bind (NumArrayCreate True [1, 3, 5] 3) (\<lambda>a. updates a [(1, 2)]) = Some a"
    "\<forall>i j. i \<le> j \<and> j < length [1, 3, 5 :: int] \<longrightarrow>
      sumRange a (int i) (int j) = Some (sum_list (take (Suc j - i) (drop i (foldl put [1, 3, 5] [(1, 2)]))))"
    using range_sums_refine [of "[1, 3, 5]" "[(1, 2)]"] by (auto simp: mass_def put_def)
  have "sumRange a 0 2 = Some 8" using spec [OF spec [OF a(2), of 0], of 2] by (simp add: put_def)
  then show ?thesis using a(1) by blast
qed

section \<open>Happy numbers\<close>

text \<open>
  C38. Both tests for happy numbers return for every int, with the same answer: whether the sums of
  squared digits come to 1.
\<close>
theorem happy_versions_agree:
  assumes "int_min \<le> n" "n \<le> int_max" "heap_ok h" "\<forall>a. env h a \<noteq> None"
  shows "isHappy h n = best_isHappy n \<and> best_isHappy n = Some (\<exists>k. (sqd ^^ k) (nat \<bar>n\<bar>) = 1)"
  using isHappy_spec [OF assms] best_isHappy_spec [OF assms(1,2)] by (simp add: happy_def)

theorem happy_versions_agree_witness:
  "isHappy \<lparr>cells = Map.empty, brk = 0, env = \<lambda>_. Some \<lparr>val = 0, hnext = None\<rparr>\<rparr> 19 = Some True \<and> best_isHappy 19 = Some True"
proof -
  have "(sqd ^^ 4) (nat \<bar>19 :: int\<bar>) = 1" by code_simp
  then have "\<exists>k. (sqd ^^ k) (nat \<bar>19 :: int\<bar>) = 1" by blast
  then show ?thesis
    using happy_versions_agree [of 19 "\<lparr>cells = Map.empty, brk = 0, env = \<lambda>_. Some \<lparr>val = 0, hnext = None\<rparr>\<rparr>"]
    by (simp add: int_min_def int_max_def heap_ok_def)
qed

section \<open>Primes\<close>

text \<open>
  C39. countPrimes is the number of primes below its argument up to the square of 46340; for every
  larger argument the square of a loop index overflows.
\<close>
theorem primes_counted:
  "countPrimes True n = (if n \<le> 2147395600 then Some (int (card {p\<in>{2..<n}. \<forall>d\<in>{2..<p}. \<not> d dvd p})) else None)"
proof -
  have "primes_below n = {p\<in>{2..<n}. \<forall>d\<in>{2..<p}. \<not> d dvd p}" by (auto simp: primes_below_def is_prime_def)
  then show ?thesis using countPrimes_in_range [of n] countPrimes_overflows [of n] by simp
qed

theorem primes_counted_witness: "countPrimes True 10 = Some 4"
proof -
  define P where "P p \<longleftrightarrow> (\<forall>d\<in>{2..<p}. \<not> d dvd p)" for p :: int
  have "{2..<10 :: int} = set [2..9]" by auto
  then have "{p\<in>{2..<10}. P p} = set (filter P [2..9])" by auto
  moreover have "filter P [2..9] = [2, 3, 5, 7]" unfolding P_def by code_simp
  ultimately have "card {p\<in>{2..<10}. P p} = 4" by simp
  then show ?thesis using primes_counted [of 10] unfolding P_def by simp
qed

section \<open>Duplicates, colours, merging and counting\<close>

text \<open>
  C40. containsDuplicate tells whether an array has two equal entries, whatever its length and its
  values, negative ones included.
\<close>
theorem duplicates_found:
  assumes "heap_ok m" "\<forall>a. env m a \<noteq> None"
  shows "containsDuplicate True True m xs (int (length xs)) = Some (\<not> distinct xs)"
  using assms by (rule containsDuplicate_spec)

theorem duplicates_found_witness:
  "containsDuplicate True True \<lparr>cells = Map.empty, brk = 0, env = \<lambda>_. Some \<lparr>val = 0, hnext = None\<rparr>\<rparr> [-3, 3, 5, -3] 4 = Some True"
  using duplicates_found [of "\<lparr>cells = Map.empty, brk = 0, env = \<lambda>_. Some \<lparr>val = 0, hnext = None\<rparr>\<rparr>" "[-3, 3, 5, -3]"]
  by (simp add: heap_ok_def)

text \<open>Both merges put two sorted arrays together in the first one and leave the space behind them alone.\<close>

theorem arrays_merged:
  assumes "sorted xs" "sorted ys" "length ys \<le> length zs"
  shows "merge (xs @ zs) (int (length xs)) ys (int (length ys)) = Some (sort (xs @ ys) @ drop (length ys) zs)"
    "best_merge (xs @ zs) (int (length xs)) ys (int (length ys)) = Some (sort (xs @ ys) @ drop (length ys) zs)"
  using merge_spec [OF assms] by (simp_all add: best_merge_eq)

text \<open>The sort of three colours sorts; the one of four reads back what it has just overwritten.\<close>

theorem colors_sorted: "set xs \<subseteq> {0, 1, 2} \<Longrightarrow> sortColors xs (int (length xs)) = Some (sort xs)"
  by (rule sortColors_sorts)

theorem four_values_lost: "sort4nums [3, 2] 2 = Some [2, 2]"
  by code_simp

theorem words_counted:
  "int (length cs) \<le> int_max \<Longrightarrow>
   count_world cs = Some (int (length cs), int (count_list cs CHR ''\<newline>''), int (length (words cs)))"
  using count_loop_spec [of 0 0 0 cs False] by (simp add: count_world_def)

end
