(* ===== verification/Spec2Isabelle.thy ===== *)
theory Spec2Isabelle
  imports Sort_Theorems Buffer_Theorems Ae_Time Policy_Theorems Proxy_Properties Adlist_Theorems Trees_Theorems Bst_Theorems Skiplist_Theorems Link_Theorems Zmalloc_Theorems Flow_Theorems Datalink_Theorems Puzzles_Theorems
begin

text \<open>
  A verification development for the C programs of \<open>code_snippets\<close>.

  \<^bold>\<open>The programs.\<close> The repository is a collection. Two of its programs are systems of several
  parts. The TCP proxy (\<open>redis_ae/tcpproxy/\<close>) parses a policy from its command line (\<open>policy.c\<close>),
  accepts clients, connects each to the first host of the policy and relays both directions
  (\<open>tcpproxy.c\<close>, an older version is \<open>2baktcp.c\<close>); its handlers run under the event loop \<open>ae.c\<close>, which
  includes one of the layers \<open>ae_epoll.c\<close>, \<open>ae_select.c\<close>, \<open>ae_kqueue.c\<close>, keep the bytes in the chunked
  buffers of \<open>util.c\<close>, and allocate with \<open>zmalloc.c\<close>. The traffic monitor (\<open>unp/tcpflow/\<close>) takes frames
  from libpcap (\<open>datalink.c\<close>), dumps them (\<open>print/print.c\<close>), decodes IP and TCP (\<open>tcpip.c\<close>), writes the data
  of each flow to its own file (\<open>flow.c\<close>) and keeps statistics and conversations
  (\<open>info_file/summary.c\<close>, \<open>info_file/conver.c\<close>), which it reports anew for every datagram. The rest are
  libraries and exercises: \<open>doublelink/adlist.c\<close>, \<open>binarrytree/\<close>, \<open>skiplist/\<close>, \<open>linklist/\<close>, \<open>sort/\<close> and
  files at the top.

  \<^bold>\<open>Conventions.\<close> \<open>CPrelude\<close> models C. A function whose behaviour C leaves undefined (a null or freed
  pointer, an index outside an array, memory that was not written, an overflow of \<open>int\<close>, division by
  zero) or that does not return has the value \<^term>\<open>None\<close>; a theorem that a result is \<^term>\<open>Some x\<close> thus says
  that the function returns and stays inside its memory. What the code itself reports is an ordinary
  value: a null pointer is \<^term>\<open>None\<close> of type \<open>ptr\<close>, a process that calls \<open>exit\<close> is \<^term>\<open>Inl e\<close>. A heap is a
  record of cells, the next address and an oracle \<open>env\<close>: \<open>env a\<close> is \<^term>\<open>None\<close> when \<open>malloc\<close> refuses, else
  the contents the fresh cell happens to have. Loops are recursive functions: structural, with a
  termination proof, or \<^theory_text>\<open>partial_function (option)\<close> where they may run for ever; there is no fuel.
  The system and libc are oracles, functions from the number of the call to its answer, or arguments
  of the definitions; what a theorem needs of them is a hypothesis with a name (\<open>kernel_ok\<close>,
  \<open>epoll_doc\<close>, \<open>machine_ok\<close>, \<open>well_equipped\<close>), and its witness gives an instance. \<open>Linked\<close> has the
  linked structures in a heap that most components share.

  \<^bold>\<open>The proxy.\<close>
  \<^item> \<open>Buffer_List\<close> models \<open>util.c\<close>, \<open>Buffer_List_Correct\<close> its representation invariant \<open>bl_rep\<close>, and
    \<open>Buffer_Theorems\<close> the contract \<open>byte_queue\<close>, a locale that the buffer list interprets: it is a queue
    of bytes, with the exact point at which it gets stuck.
  \<^item> \<open>Ae\<close> models \<open>ae.c\<close> and \<open>ae.h\<close>, \<open>Ae_Backends\<close> the three layers. \<open>Ae_Correct\<close> states the contract between
    them as the locale \<open>ae_backend\<close>, \<open>Ae_Theorems\<close> interprets it for select and for epoll, and \<open>Ae_Time\<close> has
    the timers: which ones one pass runs, and what the timeout of the poll is.
  \<^item> \<open>Policy\<close> holds the generated tables and the actions of \<open>policy.c\<close>; \<open>Policy_Correct\<close> and
    \<open>Policy_Theorems\<close> bound what they index, for every string, by an abstract interpretation.
  \<^item> \<open>Proxy\<close> models the handlers of both versions. \<open>Proxy_Inv\<close> has the invariant \<open>proxy_inv\<close> with a ghost
    map of the live ends, and the locale \<open>proxy_loop\<close>, which extends \<open>ae_backend\<close>; \<open>Proxy_Correct\<close> and
    \<open>Proxy_Accept\<close> prove that each handler keeps it, \<open>Proxy_Loop\<close> lifts this to the loop (locale
    \<open>proxy_server\<close>, interpreted on the select layer), \<open>Proxy_Demo\<close> has the reachable states and the
    instances for the witnesses, and \<open>Proxy_Properties\<close> the properties: order and completeness of the relay,
    no undefined behaviour in any reachable state, exact release of a connection, and the failures.
  \<^item> \<open>Zmalloc\<close> and \<open>Zmalloc_Theorems\<close>: the allocator and its statistics.

  \<^bold>\<open>The monitor.\<close>
  \<^item> \<open>Flow\<close> models \<open>flow.c\<close> and \<open>store_packet\<close>, with stdio on a small file system. \<open>Flow_Inv\<close>, \<open>Flow_Ring\<close>,
    \<open>Flow_Slots\<close>, \<open>Flow_Store\<close> and \<open>Flow_Stream\<close> build the invariant over hash table, ring and files;
    \<open>Flow_Theorems\<close> shows that the table implements a map from flows to captures, that streams are
    reassembled, that file names are injective, and what happens without descriptors.
  \<^item> \<open>Tcpip_Info\<close> models the state of the monitor and \<open>info_file/\<close>, \<open>Tcpip\<close> the rest of \<open>tcpip.c\<close>, \<open>Datalink\<close>
    \<open>print.c\<close> and \<open>datalink.c\<close>. \<open>Tcpip_Conver\<close> specifies conversations and reports on plain lists,
    \<open>Tcpip_Process\<close> builds datagrams field by field and shows what the code reads from them,
    \<open>Tcpip_Theorems\<close> takes one datagram through \<open>process_ip\<close>, and \<open>Datalink_Theorems\<close> sequences of frames of
    any link layer through the handlers.

  \<^bold>\<open>Libraries and exercises.\<close>
  \<^item> \<open>Array_Sort\<close> (\<open>sort/\<close>) with \<open>Array_Sort_Correct\<close>, \<open>Quick_Sort_Correct\<close>, \<open>Merge_Sort_Correct\<close>,
    \<open>Sort_Theorems\<close>: every sort is an interpretation of the locale \<open>sorter\<close>.
  \<^item> \<open>Adlist\<close>, \<open>Adlist_Correct\<close>, \<open>Adlist_Walk\<close>, \<open>Adlist_Dup\<close>, \<open>Adlist_Theorems\<close>: \<open>adlist.c\<close> in both
    versions refines operations on lists of values.
  \<^item> \<open>Link_Lists\<close> (\<open>linklist/\<close>, \<open>swap_node_in_pairs.c\<close>, \<open>sort/partion_list.c\<close>) with \<open>Link_Tools\<close>,
    \<open>Link_Insert\<close> (locale \<open>insertion_loop\<close>), \<open>Link_Merge\<close>, \<open>Link_Partition\<close>, \<open>Link_Reverse\<close>, \<open>Link_Add\<close>,
    \<open>Link_Theorems\<close>: routines that relink nodes, with the frame \<open>relinks\<close>.
  \<^item> \<open>Trees\<close> (\<open>binarrytree/\<close>) with \<open>Trees_Correct\<close>, \<open>Trees_Build\<close>, \<open>Trees_Traverse\<close>, \<open>Trees_Level\<close>,
    \<open>Trees_Theorems\<close>; \<open>Bst\<close>, \<open>Bst_Correct\<close>, \<open>Bst_Theorems\<close> (\<open>BST.c\<close> with its \<open>main\<close>).
  \<^item> \<open>Skiplist\<close> (\<open>skiplist/skiplist_full_complete.c\<close>) with \<open>Skiplist_Levels\<close>, \<open>Skiplist_Correct\<close>,
    \<open>Skiplist_Ops\<close>, \<open>Double_List\<close>, \<open>Skiplist_Theorems\<close>.
  \<^item> \<open>Puzzles\<close> (\<open>tree_form_array.c\<close>, \<open>filter_prime.c\<close>, \<open>happynumber_to_cycle_quetion.c\<close>, \<open>hashnode.c\<close>,
    \<open>count_world.c\<close>, \<open>merge_sort_array.c\<close>, \<open>insert_sort_color.c\<close>) with \<open>Puzzles_Arrays\<close>, \<open>Puzzles_Hash\<close>,
    \<open>Puzzles_Numbers\<close>, \<open>Puzzles_Primes\<close>, \<open>Puzzles_Fenwick\<close>, \<open>Puzzles_Theorems\<close>.

  \<^bold>\<open>Bounds.\<close> \<open>int\<close> is checked (\<^const>\<open>cint\<close>) where the code can reach its limits; sequence numbers, lengths
  and addresses of packets are words of their width. Theorems on long runs bound the run so that the
  \<open>int\<close> counters of the code do not overflow: \<open>within\<close> for the tallies and conversations of the monitor
  (10000 frames and more), \<open>int_max\<close> packets for its flow table.

  \<^bold>\<open>Not modelled.\<close> System calls and their wrappers (\<open>anet.c\<close>, \<open>main.c\<close> of the monitor), logging and other
  output that nothing reads, reading the command line. Floating point is kept as expressions in the
  reports of the monitor and otherwise left out (\<open>calculate.c\<close>, \<open>crypte/\<close>). In places the model
  leaves something out that the properties then assume: that memory is granted to the proxy and to the
  exercises where the code does not test it, and that formats with conversions C does not know print them
  as they stand. Demos around a few system calls, files that do not compile, the unfinished copies of the
  event loop, C++ and Python files are not modelled.
\<close>

end
